(* ===== verification/Prelude.thy ===== *)
theory Prelude
  imports Main "HOL-Library.Word"
begin

unbundle bit_operations_syntax

text \<open>
  Shared vocabulary of the development.

  \<^item> The widths of the C integer types the sources use (\<^verbatim>\<open>guint8\<close>, \<^verbatim>\<open>guint16\<close>,
    \<^verbatim>\<open>guint32\<close>, \<^verbatim>\<open>guint64\<close>), as words.
  \<^item> What may go wrong in a C function beyond an error return: a \<open>fault\<close> is a point where
    the C program aborts or its behaviour is undefined. A function that can reach such a point
    has the type \<open>fault + 'a\<close>; \<open>Inl\<close> is the fault and \<open>Inr\<close> a normal return. A theorem
    that a call is \<open>Inr\<close> is then a memory-safety (and abort-freedom) theorem.
  \<^item> The outcome of memory allocation. \<^verbatim>\<open>malloc\<close> and its relatives may fail at every call, so
    each function that allocates takes a list of outcomes, one per call in program order; calls
    beyond the end of the list succeed.
  \<^item> The error numbers of \<^verbatim>\<open>include/ic_err.h\<close> that the modelled functions return.
  \<^item> Lemmas on lists, sums and words shared by the component theories.
\<close>

named_theorems cfault \<open>unfolding rules for computations that may fault\<close>
named_theorems err_codes \<open>numerical values of the error codes\<close>

section \<open>Machine types\<close>

type_synonym guint8 = "8 word"
type_synonym guint16 = "16 word"
type_synonym guint32 = "32 word"
type_synonym guint64 = "64 word"
type_synonym gint = "32 word"

definition IC_MAX_UINT32 :: guint32 where
  "IC_MAX_UINT32 = 0xFFFFFFFF"

definition NULL_BYTE :: char where
  "NULL_BYTE = CHR 0x00"

definition CARRIAGE_RETURN :: char where
  "CARRIAGE_RETURN = CHR 0x0A"

definition LINE_FEED :: char where
  "LINE_FEED = CHR 0x0D"

definition SPACE_CHAR :: char where
  "SPACE_CHAR = CHR 0x20"

definition CMD_SEPARATOR :: char where
  "CMD_SEPARATOR = CHR '';''"

text \<open>\<open>ic_align a b\<close> of \<^verbatim>\<open>include/ic_base_header.h\<close> at 32 bits, with its wrap-around.\<close>

definition ic_align :: "guint32 \<Rightarrow> guint32 \<Rightarrow> guint32" where
  "ic_align a b = ((a + (b - 1)) div b) * b"

section \<open>Faults\<close>

datatype fault =
    OutOfBounds      \<comment> \<open>a read or write outside an object\<close>
  | NullDeref        \<comment> \<open>a null pointer is dereferenced\<close>
  | UninitRead       \<comment> \<open>an indeterminate value is used\<close>
  | AssertFail       \<comment> \<open>\<^verbatim>\<open>ic_assert\<close>\<close>
  | RequireFail      \<comment> \<open>\<^verbatim>\<open>ic_require\<close>\<close>
  | Aborted          \<comment> \<open>an explicit call of \<^verbatim>\<open>abort\<close>\<close>
  | InvalidFree      \<comment> \<open>an object that is not allocated is freed\<close>
  | DivByZero        \<comment> \<open>an integer division by zero\<close>
  | Deadlock         \<comment> \<open>a thread locks a mutex it already holds\<close>
  | UseAfterFree     \<comment> \<open>a pointer to no live object is dereferenced\<close>
  | Diverges         \<comment> \<open>a loop or recursion along pointers exceeds the bound given for it, or a call waits for ever\<close>
  | Wraparound       \<comment> \<open>a loop counter passes its width; what follows is not modelled\<close>

definition c_bind :: "fault + 'a \<Rightarrow> ('a \<Rightarrow> fault + 'b) \<Rightarrow> fault + 'b" where
  "c_bind m f = (case m of Inl e \<Rightarrow> Inl e | Inr a \<Rightarrow> f a)"

definition c_assert :: "bool \<Rightarrow> (fault + 'b) \<Rightarrow> fault + 'b" where
  "c_assert b k = (if b then k else Inl AssertFail)"

definition c_require :: "bool \<Rightarrow> (fault + 'b) \<Rightarrow> fault + 'b" where
  "c_require b k = (if b then k else Inl RequireFail)"

lemma c_bind_simps [simp, cfault]:
  "c_bind (Inl e) f = Inl e"
  "c_bind (Inr a) f = f a"
  by (simp_all add: c_bind_def)

lemma c_bind_Inr_iff [cfault]:
  "c_bind m f = Inr b \<longleftrightarrow> (\<exists>a. m = Inr a \<and> f a = Inr b)"
  by (cases m) auto

lemma c_bind_assoc: "c_bind (c_bind m f) g = c_bind m (\<lambda>x. c_bind (f x) g)"
  by (cases m) auto

lemma c_bind_cong [fundef_cong]:
  "m = m' \<Longrightarrow> (\<And>a. m' = Inr a \<Longrightarrow> f a = f' a) \<Longrightarrow> c_bind m f = c_bind m' f'"
  by (cases m') auto

lemma c_assert_simps [simp, cfault]:
  "c_assert True k = k"
  "c_assert False k = Inl AssertFail"
  by (simp_all add: c_assert_def)

lemma c_require_simps [simp, cfault]:
  "c_require True k = k"
  "c_require False k = Inl RequireFail"
  by (simp_all add: c_require_def)

lemma c_assert_Inr_iff [cfault]: "c_assert b k = Inr x \<longleftrightarrow> b \<and> k = Inr x"
  by (simp add: c_assert_def)

lemma c_require_Inr_iff [cfault]: "c_require b k = Inr x \<longleftrightarrow> b \<and> k = Inr x"
  by (simp add: c_require_def)

section \<open>Arrays with bounds\<close>

text \<open>\<open>rd\<close> and \<open>wr\<close> are a C array read and write; \<open>wr_blk\<close> is \<^verbatim>\<open>memcpy\<close> into an array.\<close>

definition rd :: "'a list \<Rightarrow> nat \<Rightarrow> fault + 'a" where
  "rd xs i = (if i < length xs then Inr (xs ! i) else Inl OutOfBounds)"

definition wr :: "'a list \<Rightarrow> nat \<Rightarrow> 'a \<Rightarrow> fault + 'a list" where
  "wr xs i v = (if i < length xs then Inr (xs[i := v]) else Inl OutOfBounds)"

definition wr_blk :: "'a list \<Rightarrow> nat \<Rightarrow> 'a list \<Rightarrow> fault + 'a list" where
  "wr_blk xs i vs =
     (if i + length vs \<le> length xs
      then Inr (take i xs @ vs @ drop (i + length vs) xs) else Inl OutOfBounds)"

definition rd_blk :: "'a list \<Rightarrow> nat \<Rightarrow> nat \<Rightarrow> fault + 'a list" where
  "rd_blk xs i n =
     (if i + n \<le> length xs then Inr (take n (drop i xs)) else Inl OutOfBounds)"

lemma rd_in [simp]: "i < length xs \<Longrightarrow> rd xs i = Inr (xs ! i)"
  by (simp add: rd_def)

lemma wr_in [simp]: "i < length xs \<Longrightarrow> wr xs i v = Inr (xs[i := v])"
  by (simp add: wr_def)

lemma wr_blk_in [simp]:
  "i + length vs \<le> length xs \<Longrightarrow> wr_blk xs i vs = Inr (take i xs @ vs @ drop (i + length vs) xs)"
  by (simp add: wr_blk_def)

lemma rd_blk_in [simp]: "i + n \<le> length xs \<Longrightarrow> rd_blk xs i n = Inr (take n (drop i xs))"
  by (simp add: rd_blk_def)

lemma rd_Inr_iff [cfault]: "rd xs i = Inr v \<longleftrightarrow> i < length xs \<and> v = xs ! i"
  by (auto simp: rd_def)

lemma wr_Inr_iff [cfault]: "wr xs i v = Inr ys \<longleftrightarrow> i < length xs \<and> ys = xs[i := v]"
  by (auto simp: wr_def)

lemma wr_blk_Inr_iff [cfault]:
  "wr_blk xs i vs = Inr ys \<longleftrightarrow>
     i + length vs \<le> length xs \<and> ys = take i xs @ vs @ drop (i + length vs) xs"
  by (auto simp: wr_blk_def)

lemma wr_blk_length: "wr_blk xs i vs = Inr ys \<Longrightarrow> length ys = length xs"
  by (auto simp: wr_blk_Inr_iff)

section \<open>Allocation outcomes\<close>

type_synonym allocs = "bool list"

definition alloc_next :: "allocs \<Rightarrow> bool \<times> allocs" where
  "alloc_next as = (case as of [] \<Rightarrow> (True, []) | a # as' \<Rightarrow> (a, as'))"

lemma alloc_next_simps [simp]:
  "alloc_next [] = (True, [])"
  "alloc_next (a # as) = (a, as)"
  by (simp_all add: alloc_next_def)

section \<open>Error codes\<close>

type_synonym err = nat

definition IC_ERROR_LINE_TOO_LONG :: err where [err_codes]: "IC_ERROR_LINE_TOO_LONG = 7000"
definition IC_ERROR_CONFIG_BRACKET :: err where [err_codes]: "IC_ERROR_CONFIG_BRACKET = 7001"
definition IC_ERROR_CONFIG_INCORRECT_GROUP_ID :: err
  where [err_codes]: "IC_ERROR_CONFIG_INCORRECT_GROUP_ID = 7002"
definition IC_ERROR_CONFIG_IMPROPER_KEY_VALUE :: err
  where [err_codes]: "IC_ERROR_CONFIG_IMPROPER_KEY_VALUE = 7003"
definition IC_ERROR_MEM_ALLOC :: err where [err_codes]: "IC_ERROR_MEM_ALLOC = 7005"
definition IC_ERROR_PARSE_CONNECTSTRING :: err where [err_codes]: "IC_ERROR_PARSE_CONNECTSTRING = 7056"
definition IC_ERROR_TOO_MANY_CS_HOSTS :: err where [err_codes]: "IC_ERROR_TOO_MANY_CS_HOSTS = 7057"

definition IC_ERROR_RECEIVE_TIMEOUT :: err where [err_codes]: "IC_ERROR_RECEIVE_TIMEOUT = 7039"
definition IC_END_OF_FILE :: err where [err_codes]: "IC_END_OF_FILE = 7043"
definition IC_PROTOCOL_ERROR :: err where [err_codes]: "IC_PROTOCOL_ERROR = 7044"
definition IC_ERROR_INDEX_ZERO_NOT_ALLOWED :: err where [err_codes]: "IC_ERROR_INDEX_ZERO_NOT_ALLOWED = 7053"
definition IC_ERROR_PTR_ARRAY_INDEX_OUT_OF_BOUND :: err where [err_codes]: "IC_ERROR_PTR_ARRAY_INDEX_OUT_OF_BOUND = 7054"
definition IC_ERROR_PTR_ARRAY_INDEX_ERROR :: err where [err_codes]: "IC_ERROR_PTR_ARRAY_INDEX_ERROR = 7055"

section \<open>Shared lemmas\<close>

lemma take_drop_update_mid:
  "i + n \<le> length xs \<Longrightarrow> length vs = n \<Longrightarrow>
     take n (drop i (take i xs @ vs @ drop (i + n) xs)) = vs"
  by simp

lemma nth_list_update_if:
  "i < length xs \<Longrightarrow> xs[i := v] ! j = (if i = j then v else xs ! j)"
  by simp

lemma nth_blk_update:
  assumes "i + length vs \<le> length xs" and "j < length xs"
  shows "(take i xs @ vs @ drop (i + length vs) xs) ! j =
           (if i \<le> j \<and> j < i + length vs then vs ! (j - i) else xs ! j)"
  using assms by (auto simp: nth_append min_def)

lemma unat_add_small:
  "unat (a :: 'a::len word) + unat b < 2 ^ LENGTH('a) \<Longrightarrow> unat (a + b) = unat a + unat b"
  by (simp add: unat_word_ariths)

lemma unat_mult_small:
  "unat (a :: 'a::len word) * unat b < 2 ^ LENGTH('a) \<Longrightarrow> unat (a * b) = unat a * unat b"
  by (simp add: unat_word_ariths)

lemma unat8_bound: "unat (a :: 8 word) < 256"
  using unsigned_less [of a, where 'a = nat] by simp

lemma unat_bound32: "unat (x :: guint32) < 4294967296"
  using unsigned_less [of x, where 'a = nat] by simp

lemma unat_of_nat_32: "n < 4294967296 \<Longrightarrow> unat (of_nat n :: guint32) = n"
  by (simp add: unat_of_nat)

lemma unat_ucast8_32 [simp]: "unat (ucast (a :: 8 word) :: 32 word) = unat a"
  using unat8_bound [of a] by (simp add: unsigned_ucast_eq take_bit_eq_mod)

lemma and_3_mod: "2 < LENGTH('a) \<Longrightarrow> (x :: 'a::len word) AND 3 = x mod 4"
proof -
  assume "2 < LENGTH('a)"
  have "x AND mask 2 = x mod 2 ^ 2" by (simp only: take_bit_eq_mask [symmetric] take_bit_eq_mod)
  then show ?thesis by (simp add: mask_eq_exp_minus_1)
qed

lemma and_15_mod: "4 < LENGTH('a) \<Longrightarrow> (x :: 'a::len word) AND 15 = x mod 16"
proof -
  assume "4 < LENGTH('a)"
  have "x AND mask 4 = x mod 2 ^ 4" by (simp only: take_bit_eq_mask [symmetric] take_bit_eq_mod)
  then show ?thesis by (simp add: mask_eq_exp_minus_1)
qed

lemma and_63_mod: "6 < LENGTH('a) \<Longrightarrow> (x :: 'a::len word) AND 63 = x mod 64"
proof -
  assume "6 < LENGTH('a)"
  have "x AND mask 6 = x mod 2 ^ 6" by (simp only: take_bit_eq_mask [symmetric] take_bit_eq_mod)
  then show ?thesis by (simp add: mask_eq_exp_minus_1)
qed

lemmas bits_to_arith = push_bit_eq_mult drop_bit_eq_div unat_word_ariths unat_mod unat_div

lemma div_mod_mult_add [simp]:
  "(b::nat) < n \<Longrightarrow> (a * n + b) div n = a"
  "(b::nat) < n \<Longrightarrow> (a * n + b) mod n = b"
  by auto

end
