(* ===== verification/IC_Base64.thy ===== *)
theory IC_Base64
  imports Prelude
begin

text \<open>
  \<^verbatim>\<open>src/protocol/ic_base64.c\<close>: the base64 codec of the NDB management protocol.

  \<open>ic_base64_encode\<close> writes sequentially through a pointer into a buffer it allocates, so the
  buffer is modelled by the bytes written so far and its capacity; writing past the capacity is
  the fault \<open>OutOfBounds\<close>. \<open>ic_base64_decode\<close> writes into a caller-supplied array of
  known size and reads a caller-supplied source array, both with bounds.

  The reference definitions are \<open>b64_quads\<close> (three bytes to four characters, with padding) and
  \<open>b64_wrap\<close> (a line break after every 19 quads, that is after 76 characters).
\<close>

section \<open>Tables\<close>

definition decode_table :: "guint8 list" where
  "decode_table =
     [62, 65, 65, 65, 63, 52, 53, 54, 55, 56,
      57, 58, 59, 60, 61, 65, 65, 65, 64, 65,
      65, 65,  0,  1,  2,  3,  4,  5,  6,  7,
       8,  9, 10, 11, 12, 13, 14, 15, 16, 17,
      18, 19, 20, 21, 22, 23, 24, 25, 65, 65,
      65, 65, 65, 65, 26, 27, 28, 29, 30, 31,
      32, 33, 34, 35, 36, 37, 38, 39, 40, 41,
      42, 43, 44, 45, 46, 47, 48, 49, 50, 51]"

definition encode_table :: "guint8 list" where
  "encode_table =
     [0x41, 0x42, 0x43, 0x44, 0x45, 0x46, 0x47, 0x48,
      0x49, 0x4A, 0x4B, 0x4C, 0x4D, 0x4E, 0x4F, 0x50,
      0x51, 0x52, 0x53, 0x54, 0x55, 0x56, 0x57, 0x58,
      0x59, 0x5A, 0x61, 0x62, 0x63, 0x64, 0x65, 0x66,
      0x67, 0x68, 0x69, 0x6A, 0x6B, 0x6C, 0x6D, 0x6E,
      0x6F, 0x70, 0x71, 0x72, 0x73, 0x74, 0x75, 0x76,
      0x77, 0x78, 0x79, 0x7A, 0x30, 0x31, 0x32, 0x33,
      0x34, 0x35, 0x36, 0x37, 0x38, 0x39, 0x2B, 0x2F]"

section \<open>Decoding\<close>

text \<open>
  The inner loop over the four characters of a quad: \<open>None\<close> is \<^verbatim>\<open>return 1\<close>. The result is
  the list \<^verbatim>\<open>decode_char\<close> with \<^verbatim>\<open>conv_len\<close> and \<^verbatim>\<open>last\<close>.
\<close>

fun decode_chars ::
  "guint8 list \<Rightarrow> nat \<Rightarrow> nat \<Rightarrow> nat \<Rightarrow> bool \<Rightarrow> guint8 list \<Rightarrow> fault + (guint8 list \<times> nat \<times> bool) option"
where
  "decode_chars src pos 0 conv_len fin acc = Inr (Some (acc, conv_len, fin))"
| "decode_chars src pos (Suc n) conv_len fin acc =
     c_bind (rd src pos) (\<lambda>dec_char.
       if dec_char < 43 \<or> dec_char > 122 then Inr None
       else let conv_char = decode_table ! unat (dec_char - 43) in
         if conv_char = 65 then Inr None
         else if conv_char = 64 then
           (if conv_len - 1 = 0 then Inr None
            else decode_chars src (pos + 1) n (conv_len - 1) True (acc @ [conv_char AND 63]))
         else decode_chars src (pos + 1) n conv_len fin (acc @ [conv_char AND 63]))"

text \<open>The three bytes stored for a quad; the sums are stored into \<^verbatim>\<open>guint8\<close>.\<close>

definition decode_bytes :: "guint8 list \<Rightarrow> guint8 list" where
  "decode_bytes d =
     [push_bit 2 (d ! 0) + drop_bit 4 (d ! 1),
      push_bit 4 (d ! 1 AND 0xF) + drop_bit 2 (d ! 2),
      push_bit 6 (d ! 2 AND 3) + d ! 3]"

definition store3 :: "guint8 list \<Rightarrow> nat \<Rightarrow> guint8 list \<Rightarrow> fault + guint8 list" where
  "store3 dest inx b =
     c_bind (wr dest inx (b ! 0)) (\<lambda>d1.
     c_bind (wr d1 (inx + 1) (b ! 1)) (\<lambda>d2. wr d2 (inx + 2) (b ! 2)))"

text \<open>
  The outer loop. It returns \<open>None\<close> for \<^verbatim>\<open>return 1\<close> and otherwise the destination, the
  number of bytes and the final \<^verbatim>\<open>decode_len\<close>. The 32-bit counters pass their width only when
  \<^verbatim>\<open>src_len\<close> is within four of it.
\<close>

function decode_loop ::
  "guint8 list \<Rightarrow> nat \<Rightarrow> guint8 list \<Rightarrow> nat \<Rightarrow> nat \<Rightarrow> nat \<Rightarrow> bool \<Rightarrow> nat \<Rightarrow>
     fault + (guint8 list \<times> nat \<times> nat) option"
where
  "decode_loop dest dest_len src src_len inx decode_len fin tot =
     (if inx < dest_len \<and> decode_len < src_len then
        if fin then Inr None
        else c_bind (decode_chars src decode_len 4 3 fin []) (\<lambda>r. case r of
            None \<Rightarrow> Inr None
          | Some (d, conv_len, fin') \<Rightarrow>
              c_bind (store3 dest inx (decode_bytes d)) (\<lambda>dest'.
                if 4294967296 \<le> decode_len + 4 \<or> 4294967296 \<le> inx + 3 then Inl Wraparound
                else decode_loop dest' dest_len src src_len (inx + 3) (decode_len + 4) fin'
                       (tot + conv_len)))
      else Inr (Some (dest, tot, decode_len)))"
  by pat_completeness auto
termination
  by (relation "measure (\<lambda>(dest, dest_len, src, src_len, inx, decode_len, fin, tot). src_len - decode_len)") auto

declare decode_loop.simps [simp del]

text \<open>\<open>ic_base64_decode\<close>: the return code, the destination array and \<^verbatim>\<open>*dest_len\<close>.\<close>

definition ic_base64_decode ::
  "guint8 list \<Rightarrow> guint32 \<Rightarrow> guint8 list \<Rightarrow> guint32 \<Rightarrow> fault + (guint8 list \<times> nat) option"
where
  "ic_base64_decode dest dest_len src src_len =
     c_bind (decode_loop dest (unat dest_len) src (unat src_len) 0 0 False 0) (\<lambda>r. case r of
         None \<Rightarrow> Inr None
       | Some (dest', tot, decode_len) \<Rightarrow>
           if decode_len \<noteq> unat src_len then Inr None else Inr (Some (dest', tot)))"

section \<open>Encoding\<close>

definition emit :: "nat \<Rightarrow> guint8 list \<Rightarrow> guint8 list \<Rightarrow> fault + guint8 list" where
  "emit cap out bs = (if length out + length bs \<le> cap then Inr (out @ bs) else Inl OutOfBounds)"

definition enc3 :: "guint8 \<Rightarrow> guint8 \<Rightarrow> guint8 \<Rightarrow> guint8 list" where
  "enc3 s0 s1 s2 =
     (let c1 = drop_bit 2 (ucast s0 :: guint32);
          c2 = push_bit 4 (ucast s0 AND 0x3 :: guint32) + drop_bit 4 (ucast s1);
          c3 = push_bit 2 (ucast s1 AND 0xF :: guint32) + drop_bit 6 (ucast s2);
          c4 = ucast s2 AND 0x3F :: guint32
      in [encode_table ! unat c1, encode_table ! unat c2,
          encode_table ! unat c3, encode_table ! unat c4])"

definition enc1 :: "guint8 \<Rightarrow> guint8 list" where
  "enc1 s0 =
     (let c1 = drop_bit 2 (ucast s0 :: guint32);
          c2 = push_bit 4 (ucast s0 AND 0x3 :: guint32)
      in [encode_table ! unat c1, encode_table ! unat c2, 61, 61])"

definition enc2 :: "guint8 \<Rightarrow> guint8 \<Rightarrow> guint8 list" where
  "enc2 s0 s1 =
     (let c1 = drop_bit 2 (ucast s0 :: guint32);
          c2 = push_bit 4 (ucast s0 AND 0x3 :: guint32) + drop_bit 4 (ucast s1);
          c3 = push_bit 2 (ucast s1 AND 0xF :: guint32)
      in [encode_table ! unat c1, encode_table ! unat c2, encode_table ! unat c3, 61])"

text \<open>The loop over the full triples: the rest of the source, \<^verbatim>\<open>cr_count\<close> and the output.\<close>

fun enc_loop ::
  "nat \<Rightarrow> nat \<Rightarrow> guint8 list \<Rightarrow> nat \<Rightarrow> guint8 list \<Rightarrow> fault + (guint8 list \<times> nat \<times> guint8 list)"
where
  "enc_loop cap 0 src cr out = Inr (src, cr, out)"
| "enc_loop cap (Suc n) (s0 # s1 # s2 # src) cr out =
     c_bind (emit cap out (enc3 s0 s1 s2)) (\<lambda>out1.
       if cr + 1 = 19
       then c_bind (emit cap out1 [10]) (\<lambda>out2. enc_loop cap n src 0 out2)
       else enc_loop cap n src (cr + 1) out1)"
| "enc_loop cap (Suc n) _ cr out = Inl OutOfBounds"

text \<open>The one or two bytes left over.\<close>

definition enc_rest ::
  "nat \<Rightarrow> nat \<Rightarrow> guint8 list \<Rightarrow> nat \<Rightarrow> guint8 list \<Rightarrow> fault + (nat \<times> guint8 list)"
where
  "enc_rest cap left_overs src cr out =
     (if left_overs = 1 then
        c_bind (rd src 0) (\<lambda>s0.
        c_bind (emit cap out (enc1 s0)) (\<lambda>out1. Inr (cr + 1, out1)))
      else if left_overs = 2 then
        c_bind (rd src 0) (\<lambda>s0. c_bind (rd src 1) (\<lambda>s1.
        c_bind (emit cap out (enc2 s0 s1)) (\<lambda>out1. Inr (cr + 1, out1))))
      else Inr (cr, out))"

text \<open>
  \<open>ic_base64_encode\<close>: \<open>None\<close> is \<^verbatim>\<open>IC_ERROR_MEM_ALLOC\<close>, otherwise the buffer and
  \<^verbatim>\<open>*dest_len\<close>. All length computations are 32 bits wide.
\<close>

definition ic_base64_encode ::
  "bool \<Rightarrow> guint8 list \<Rightarrow> guint32 \<Rightarrow> fault + (guint8 list \<times> guint32) option"
where
  "ic_base64_encode alloc_ok src src_len =
     (let std_quads = src_len div 3;
          left_overs = src_len - 3 * std_quads;
          real_quads = (src_len + 2) div 3;
          no_crs = (real_quads + 18) div 19;
          dst_len = 4 * real_quads + no_crs;
          cap = unat (dst_len + 1)
      in if \<not> alloc_ok then Inr None
         else c_bind (enc_loop cap (unat std_quads) src 0 []) (\<lambda>(rest, cr, out).
              c_bind (enc_rest cap (unat left_overs) rest cr out) (\<lambda>(cr', out1).
              c_bind (if cr' \<noteq> 0 then emit cap out1 [10] else Inr out1) (\<lambda>out2.
              c_bind (emit cap out2 [0]) (\<lambda>out3.
              c_assert (length out3 = cap) (Inr (Some (out3, dst_len))))))))"

section \<open>Reference definitions\<close>

fun b64_quads :: "guint8 list \<Rightarrow> guint8 list list" where
  "b64_quads [] = []"
| "b64_quads [a] = [enc1 a]"
| "b64_quads [a, b] = [enc2 a b]"
| "b64_quads (a # b # c # r) = enc3 a b c # b64_quads r"

fun b64_wrap :: "nat \<Rightarrow> guint8 list list \<Rightarrow> guint8 list" where
  "b64_wrap cr [] = (if cr \<noteq> 0 then [10] else [])"
| "b64_wrap cr (q # qs) = q @ (if cr + 1 = 19 then 10 # b64_wrap 0 qs else b64_wrap (cr + 1) qs)"

section \<open>Tables and quads\<close>

lemma encode_decode_table:
  "map (\<lambda>c. decode_table ! unat (c - 43)) encode_table = map of_nat [0..<64]"
  by (simp add: encode_table_def decode_table_def upt_rec [of _ 64] upt_conv_Cons)

lemma encode_table_range: "list_all (\<lambda>c. 43 \<le> c \<and> c \<le> 122) encode_table"
  by (simp add: encode_table_def)

lemma length_encode_table [simp]: "length encode_table = 64"
  by (simp add: encode_table_def)

lemma decode_table_pad [simp]: "decode_table ! 18 = 64"
  by (simp add: decode_table_def)

lemma encode_table_nth:
  assumes "n < 64"
  shows "\<not> encode_table ! n < 43" "\<not> encode_table ! n > 122"
    "decode_table ! unat (encode_table ! n - 43) = of_nat n" "encode_table ! n \<noteq> 10"
proof -
  have r: "43 \<le> encode_table ! n \<and> encode_table ! n \<le> 122"
    using encode_table_range assms by (simp add: list_all_length)
  then show "\<not> encode_table ! n < 43" "\<not> encode_table ! n > 122" by auto
  show "encode_table ! n \<noteq> 10" using r by auto
  have "map (\<lambda>c. decode_table ! unat (c - 43)) encode_table ! n = map of_nat [0..<64] ! n"
    by (simp only: encode_decode_table)
  then show "decode_table ! unat (encode_table ! n - 43) = of_nat n"
    using assms by simp
qed

lemma of_nat_small_neq:
  assumes "n < 64"
  shows "(of_nat n :: guint8) \<noteq> 65" "(of_nat n :: guint8) \<noteq> 64"
    "(of_nat n :: guint8) AND 63 = of_nat n" "unat (of_nat n :: guint8) = n"
proof -
  show u: "unat (of_nat n :: guint8) = n" using assms by (simp add: unat_of_nat)
  show "(of_nat n :: guint8) \<noteq> 65" "(of_nat n :: guint8) \<noteq> 64"
    using u assms by (auto simp: word_unat_eq_iff)
  show "(of_nat n :: guint8) AND 63 = of_nat n"
    using u assms by (simp add: and_63_mod word_unat_eq_iff unat_mod)
qed

lemma decode_chars_code:
  assumes "n < 64" and "pos < length src" and "src ! pos = encode_table ! n"
  shows "decode_chars src pos (Suc k) cl fin acc = decode_chars src (pos + 1) k cl fin (acc @ [of_nat n])"
  using assms encode_table_nth [OF assms(1)] of_nat_small_neq [OF assms(1)]
  by (simp add: Let_def)

lemma decode_chars_pad:
  assumes "0 < k" and "1 < cl" and "pos < length src" and "src ! pos = 61"
  shows "decode_chars src pos k cl fin acc = decode_chars src (pos + 1) (k - 1) (cl - 1) True (acc @ [0])"
  using assms by (cases k) (simp_all add: Let_def)

text \<open>The six-bit groups of a triple.\<close>

lemma unat_group1: "unat (drop_bit 2 (ucast s0 :: guint32)) = unat (s0 :: guint8) div 4"
  using unat8_bound [of s0] by (simp add: bits_to_arith)

lemma unat_group2:
  "unat (push_bit 4 (ucast s0 AND 3 :: guint32) + drop_bit 4 (ucast s1)) =
     unat (s0 :: guint8) mod 4 * 16 + unat (s1 :: guint8) div 16"
  using unat8_bound [of s0] unat8_bound [of s1] by (simp add: and_3_mod bits_to_arith)

lemma unat_group2_last:
  "unat (push_bit 4 (ucast s0 AND 3 :: guint32)) = unat (s0 :: guint8) mod 4 * 16"
  by (simp add: and_3_mod bits_to_arith)

lemma unat_group3:
  "unat (push_bit 2 (ucast s1 AND 0xF :: guint32) + drop_bit 6 (ucast s2)) =
     unat (s1 :: guint8) mod 16 * 4 + unat (s2 :: guint8) div 64"
  using unat8_bound [of s1] unat8_bound [of s2] by (simp add: and_15_mod bits_to_arith)

lemma unat_group3_last:
  "unat (push_bit 2 (ucast s1 AND 0xF :: guint32)) = unat (s1 :: guint8) mod 16 * 4"
  by (simp add: and_15_mod bits_to_arith)

lemma unat_group4: "unat (ucast s2 AND 0x3F :: guint32) = unat (s2 :: guint8) mod 64"
  by (simp add: and_63_mod unat_mod)

lemmas unat_groups = unat_group1 unat_group2 unat_group2_last unat_group3 unat_group3_last unat_group4

lemma decode_bytes_unat:
  assumes "unat a < 64" "unat b < 64" "unat c < 64" "unat d < 64"
  shows "map unat (decode_bytes [a, b, c, d]) =
    [unat a * 4 + unat b div 16, unat b mod 16 * 16 + unat c div 4, unat c mod 4 * 64 + unat d]"
  using assms by (simp add: decode_bytes_def and_3_mod and_15_mod bits_to_arith)

lemma six_bit_bounds:
  fixes x y :: nat
  assumes "x < 256" "y < 256"
  shows "x div 4 < 64" "x mod 4 * 16 + y div 16 < 64" "x mod 16 * 4 + y div 64 < 64" "x mod 64 < 64"
    "x mod 4 * 16 < 64" "x mod 16 * 4 < 64" "y div 16 < 16" "y div 64 < 4"
proof -
  have "x mod 4 < 4" "x mod 16 < 16" by simp_all
  moreover have "y div 16 < 16" "y div 64 < 4" using assms by auto
  ultimately show "x mod 4 * 16 + y div 16 < 64" "x mod 16 * 4 + y div 64 < 64"
    "x mod 4 * 16 < 64" "x mod 16 * 4 < 64" by linarith+
qed (use assms in auto)

lemma map_unat_inj: "map unat xs = map unat ys \<longleftrightarrow> xs = (ys :: 'a::len word list)"
proof -
  have "inj (unat :: 'a word \<Rightarrow> nat)" by (rule injI) (simp add: word_unat_eq_iff)
  then show ?thesis by (rule inj_map_eq_map)
qed

lemma decode_bytes_groups:
  "decode_bytes [of_nat (unat s0 div 4), of_nat (unat s0 mod 4 * 16 + unat s1 div 16),
       of_nat (unat s1 mod 16 * 4 + unat s2 div 64), of_nat (unat s2 mod 64)] = [s0, s1, s2]"
proof -
  note b = six_bit_bounds [OF unat8_bound [of s0] unat8_bound [of s1]]
    six_bit_bounds [OF unat8_bound [of s1] unat8_bound [of s2]]
    six_bit_bounds [OF unat8_bound [of s2] unat8_bound [of s2]]
  show ?thesis
    by (subst map_unat_inj [symmetric], subst decode_bytes_unat)
      (use b in \<open>simp_all only: of_nat_small_neq list.map, simp_all\<close>)
qed

lemma decode_chars_codes:
  assumes "\<forall>n \<in> set ns. n < 64" and "length ns = m"
    and "map ((!) encode_table) ns = take m (drop pos src)"
  shows "decode_chars src pos (m + k) cl fin acc =
           decode_chars src (pos + m) k cl fin (acc @ map of_nat ns)"
  using assms
proof (induction ns arbitrary: pos acc m)
  case Nil
  then show ?case by simp
next
  case (Cons n ns)
  have len: "pos < length src"
    using Cons.prems(2,3) by (metis drop_all length_map length_0_conv list.distinct(1) not_le_imp_less
        take_Nil length_Cons)
  have d: "drop pos src = src ! pos # drop (Suc pos) src"
    using len by (simp add: Cons_nth_drop_Suc)
  have hd: "src ! pos = encode_table ! n" and tl: "map ((!) encode_table) ns = take (length ns) (drop (pos + 1) src)"
    using Cons.prems(2,3) by (auto simp add: d)
  have "decode_chars src pos (Suc (length ns + k)) cl fin acc =
      decode_chars src (pos + 1) (length ns + k) cl fin (acc @ [of_nat n])"
    using Cons.prems(1) len hd by (intro decode_chars_code) auto
  also have "\<dots> = decode_chars src (pos + 1 + length ns) k cl fin ((acc @ [of_nat n]) @ map of_nat ns)"
    using Cons.prems(1) tl by (intro Cons.IH) auto
  finally show ?case using Cons.prems(2) by auto
qed

lemma groups_small:
  fixes s0 s1 s2 :: guint8
  shows "unat s0 div 4 < 64" "unat s0 mod 4 * 16 + unat s1 div 16 < 64"
    "unat s1 mod 16 * 4 + unat s2 div 64 < 64" "unat s2 mod 64 < 64"
    "unat s0 mod 4 * 16 < 64" "unat s1 mod 16 * 4 < 64"
  by (rule six_bit_bounds [OF unat8_bound unat8_bound])+

lemma enc_codes:
  "enc3 s0 s1 s2 = map ((!) encode_table) [unat s0 div 4, unat s0 mod 4 * 16 + unat s1 div 16,
      unat s1 mod 16 * 4 + unat s2 div 64, unat s2 mod 64]"
  "enc2 s0 s1 = map ((!) encode_table) [unat s0 div 4, unat s0 mod 4 * 16 + unat s1 div 16,
      unat s1 mod 16 * 4] @ [61]"
  "enc1 s0 = map ((!) encode_table) [unat s0 div 4, unat s0 mod 4 * 16] @ [61, 61]"
  unfolding enc3_def enc2_def enc1_def Let_def unat_groups by simp_all

lemma take4_split:
  assumes "take 4 (drop p xs) = ys @ zs" and "length ys = m" and "length zs = n" and "m + n = 4"
  shows "ys = take m (drop p xs)" and "\<And>j. j < n \<Longrightarrow> xs ! (p + m + j) = zs ! j" and "p + 4 \<le> length xs"
proof -
  have len: "length (take 4 (drop p xs)) = 4" using assms by simp
  then show le: "p + 4 \<le> length xs" by simp
  have "ys = take m (take 4 (drop p xs))" using assms by simp
  then show "ys = take m (drop p xs)" using assms(4) by (simp add: min_def)
  show "xs ! (p + m + j) = zs ! j" if "j < n" for j
  proof -
    have "zs ! j = (take 4 (drop p xs)) ! (m + j)" using assms that by (simp add: nth_append)
    also have "\<dots> = xs ! (p + m + j)" using le assms(4) that by (simp add: add.assoc)
    finally show ?thesis by simp
  qed
qed

lemma decode_quad3:
  assumes "take 4 (drop pos src) = enc3 s0 s1 s2"
  shows "\<exists>d. decode_chars src pos 4 3 False [] = Inr (Some (d, 3, False)) \<and> decode_bytes d = [s0, s1, s2]"
proof -
  let ?ns = "[unat s0 div 4, unat s0 mod 4 * 16 + unat s1 div 16,
      unat s1 mod 16 * 4 + unat s2 div 64, unat s2 mod 64]"
  have "map ((!) encode_table) ?ns = take 4 (drop pos src)"
    using assms unfolding enc_codes by simp
  then have "decode_chars src pos (4 + 0) 3 False [] =
      decode_chars src (pos + 4) 0 3 False ([] @ map of_nat ?ns)"
    by (intro decode_chars_codes) (auto simp: groups_small)
  then show ?thesis using decode_bytes_groups by simp
qed

lemma decode_quad2:
  assumes "take 4 (drop pos src) = enc2 s0 s1"
  shows "\<exists>d. decode_chars src pos 4 3 False [] = Inr (Some (d, 2, True)) \<and> decode_bytes d = [s0, s1, 0]"
proof -
  let ?ns = "[unat s0 div 4, unat s0 mod 4 * 16 + unat s1 div 16, unat s1 mod 16 * 4]"
  note sp = take4_split [OF assms [unfolded enc_codes], where m = 3 and n = 1, simplified]
  have "decode_chars src pos (3 + 1) 3 False [] =
      decode_chars src (pos + 3) 1 3 False ([] @ map of_nat ?ns)"
    using sp(1) by (intro decode_chars_codes) (auto simp: groups_small)
  also have "\<dots> = decode_chars src (pos + 4) 0 2 True (map of_nat ?ns @ [0])"
    using sp(2,3) decode_chars_pad [of 1 3 "pos + 3" src] by simp
  finally have "decode_chars src pos 4 3 False [] = Inr (Some (map of_nat ?ns @ [0], 2, True))"
    by simp
  then show ?thesis using decode_bytes_groups [of s0 s1 0] by simp
qed

lemma decode_quad1:
  assumes "take 4 (drop pos src) = enc1 s0"
  shows "\<exists>d. decode_chars src pos 4 3 False [] = Inr (Some (d, 1, True)) \<and> decode_bytes d = [s0, 0, 0]"
proof -
  let ?ns = "[unat s0 div 4, unat s0 mod 4 * 16]"
  note sp = take4_split [OF assms [unfolded enc_codes], where m = 2 and n = 2, simplified]
  have pads: "src ! (pos + 2) = 61" "src ! (pos + 3) = 61"
    using sp(2) [of 0] sp(2) [of 1] by (simp_all add: numeral_3_eq_3)
  have p3: "pos + 2 + 1 = pos + 3" by simp
  have "decode_chars src pos (2 + 2) 3 False [] =
      decode_chars src (pos + 2) 2 3 False ([] @ map of_nat ?ns)"
    using sp(1) by (intro decode_chars_codes) (auto simp: groups_small)
  also have "\<dots> = decode_chars src (pos + 3) 1 2 True (map of_nat ?ns @ [0])"
    using pads sp(3) decode_chars_pad [of 2 3 "pos + 2" src] unfolding p3
    by (simp del: decode_chars.simps)
  also have "\<dots> = decode_chars src (pos + 4) 0 1 True (map of_nat ?ns @ [0, 0])"
    using pads sp(3) decode_chars_pad [of 1 2 "pos + 3" src] by simp
  finally have "decode_chars src pos 4 3 False [] = Inr (Some (map of_nat ?ns @ [0, 0], 1, True))"
    by simp
  then show ?thesis using decode_bytes_groups [of s0 0 0] by simp
qed

section \<open>The decoding loop\<close>

lemma store3_in:
  assumes "inx + 3 \<le> length dest" and "b = [b0, b1, b2]"
  shows "store3 dest inx b = Inr (take inx dest @ b @ drop (inx + 3) dest)"
proof -
  have "dest[inx := b0, inx + 1 := b1, inx + 2 := b2] = take inx dest @ [b0, b1, b2] @ drop (inx + 3) dest"
    (is "?l = ?r")
  proof (rule nth_equalityI)
    show "length ?l = length ?r" using assms by simp
    fix i assume "i < length ?l"
    then show "?l ! i = ?r ! i" using assms
      by (auto simp: nth_append nth_list_update nth_Cons split: nat.splits
          intro!: arg_cong [where f = "(!) dest"])
  qed
  then show ?thesis using assms by (simp add: store3_def)
qed

lemma length_b64_quads: "length (b64_quads xs) = (length xs + 2) div 3"
  by (induction xs rule: b64_quads.induct) simp_all

lemma length_enc [simp]: "length (enc3 a b c) = 4" "length (enc2 a b) = 4" "length (enc1 a) = 4"
  by (simp_all add: enc3_def enc2_def enc1_def Let_def)

lemma length_concat_quads: "length (concat (b64_quads xs)) = 4 * length (b64_quads xs)"
  by (induction xs rule: b64_quads.induct) simp_all

lemma take4_concat: "drop p src = q @ r \<Longrightarrow> length q = 4 \<Longrightarrow> take 4 (drop p src) = q \<and> drop (p + 4) src = r"
  by (metis append_eq_conv_conj drop_drop add.commute)

text \<open>One turn of the loop on a quad that decodes.\<close>

lemma decode_loop_turn:
  assumes "inx < dest_len" "decode_len < src_len" "decode_len + 4 < 4294967296" "inx + 3 < 4294967296"
    and "inx + 3 \<le> length dest"
    and "decode_chars src decode_len 4 3 False [] = Inr (Some (d, cl, fin))"
    and "decode_bytes d = [b0, b1, b2]"
  shows "decode_loop dest dest_len src src_len inx decode_len False tot =
     decode_loop (take inx dest @ [b0, b1, b2] @ drop (inx + 3) dest) dest_len src src_len
       (inx + 3) (decode_len + 4) fin (tot + cl)"
  using assms store3_in [OF assms(5) refl, of b0 b1 b2]
  by (subst decode_loop.simps) simp

lemma decode_loop_quads:
  assumes "drop decode_len src = concat (b64_quads xs)"
    and "src_len = decode_len + 4 * length (b64_quads xs)" and "src_len < 4294967296"
    and "inx + 3 * length (b64_quads xs) \<le> dest_len" and "dest_len \<le> length dest"
    and "dest_len < 4294967296"
  shows "\<exists>dest'. decode_loop dest dest_len src src_len inx decode_len False tot =
           Inr (Some (dest', tot + length xs, src_len)) \<and> length dest' = length dest
           \<and> take (inx + length xs) dest' = take inx dest @ xs"
  using assms
proof (induction xs arbitrary: decode_len inx dest tot rule: b64_quads.induct)
  case 1
  then show ?case by (subst decode_loop.simps) simp
next
  case (2 a)
  then have q: "take 4 (drop decode_len src) = enc1 a" by simp
  obtain d where d: "decode_chars src decode_len 4 3 False [] = Inr (Some (d, 1, True))"
    "decode_bytes d = [a, 0, 0]" using decode_quad1 [OF q] by blast
  have "decode_loop dest dest_len src src_len inx decode_len False tot =
      decode_loop (take inx dest @ [a, 0, 0] @ drop (inx + 3) dest) dest_len src src_len
        (inx + 3) (decode_len + 4) True (tot + 1)"
    using 2 d by (intro decode_loop_turn) auto
  also have "\<dots> = Inr (Some (take inx dest @ [a, 0, 0] @ drop (inx + 3) dest, tot + 1, src_len))"
    using 2 by (subst decode_loop.simps) simp
  finally show ?case using 2 by (auto simp: min_def)
next
  case (3 a b)
  then have q: "take 4 (drop decode_len src) = enc2 a b" by simp
  obtain d where d: "decode_chars src decode_len 4 3 False [] = Inr (Some (d, 2, True))"
    "decode_bytes d = [a, b, 0]" using decode_quad2 [OF q] by blast
  have "decode_loop dest dest_len src src_len inx decode_len False tot =
      decode_loop (take inx dest @ [a, b, 0] @ drop (inx + 3) dest) dest_len src src_len
        (inx + 3) (decode_len + 4) True (tot + 2)"
    using 3 d by (intro decode_loop_turn) auto
  also have "\<dots> = Inr (Some (take inx dest @ [a, b, 0] @ drop (inx + 3) dest, tot + 2, src_len))"
    using 3 by (subst decode_loop.simps) simp
  finally show ?case using 3 by (auto simp: min_def numeral_2_eq_2)
next
  case (4 a b c r)
  let ?dest' = "take inx dest @ [a, b, c] @ drop (inx + 3) dest"
  from 4 have q: "take 4 (drop decode_len src) = enc3 a b c"
    and r: "drop (decode_len + 4) src = concat (b64_quads r)"
    using take4_concat [of decode_len src "enc3 a b c"] by auto
  obtain d where d: "decode_chars src decode_len 4 3 False [] = Inr (Some (d, 3, False))"
    "decode_bytes d = [a, b, c]" using decode_quad3 [OF q] by blast
  have step: "decode_loop dest dest_len src src_len inx decode_len False tot =
      decode_loop ?dest' dest_len src src_len (inx + 3) (decode_len + 4) False (tot + 3)"
    using 4 d by (intro decode_loop_turn) auto
  have "\<exists>dest''. decode_loop ?dest' dest_len src src_len (inx + 3) (decode_len + 4) False (tot + 3) =
      Inr (Some (dest'', tot + 3 + length r, src_len)) \<and> length dest'' = length ?dest'
      \<and> take (inx + 3 + length r) dest'' = take (inx + 3) ?dest' @ r"
    using 4 r by (intro "4.IH") auto
  then obtain dest'' where *:
    "decode_loop ?dest' dest_len src src_len (inx + 3) (decode_len + 4) False (tot + 3) =
      Inr (Some (dest'', tot + 3 + length r, src_len))"
    "length dest'' = length ?dest'" "take (inx + 3 + length r) dest'' = take (inx + 3) ?dest' @ r"
    by blast
  have "length (take inx dest) = inx" using 4 by (simp add: min_def)
  then have "take (inx + 3) ?dest' = take inx dest @ [a, b, c]" by simp
  moreover have "length ?dest' = length dest" using 4 by (simp add: min_def)
  ultimately show ?case using step * by (auto simp: ac_simps numeral_3_eq_3)
qed

section \<open>The encoding loop\<close>

lemma b64_quads_len4: "q \<in> set (b64_quads xs) \<Longrightarrow> length q = 4"
  by (induction xs rule: b64_quads.induct) auto

lemma length_b64_wrap:
  "cr < 19 \<Longrightarrow> \<forall>q \<in> set qs. length q = 4 \<Longrightarrow>
     length (b64_wrap cr qs) = 4 * length qs + (cr + length qs + 18) div 19"
proof (induction cr qs rule: b64_wrap.induct)
  case (1 cr)
  then show ?case by (auto simp: div_nat_eqI)
next
  case (2 cr q qs)
  then show ?case by (cases "cr + 1 = 19") auto
qed

text \<open>The loop, the left-over bytes and the final line break write exactly the wrapped quads.\<close>

definition enc_body :: "nat \<Rightarrow> guint8 list \<Rightarrow> nat \<Rightarrow> guint8 list \<Rightarrow> fault + guint8 list" where
  "enc_body cap src cr out =
     c_bind (enc_loop cap (length src div 3) src cr out) (\<lambda>(rest, cr, out).
     c_bind (enc_rest cap (length src mod 3) rest cr out) (\<lambda>(cr', out1).
       if cr' \<noteq> 0 then emit cap out1 [10] else Inr out1))"

lemma enc_body_eq:
  "cr < 19 \<Longrightarrow> length out + length (b64_wrap cr (b64_quads src)) \<le> cap \<Longrightarrow>
     enc_body cap src cr out = Inr (out @ b64_wrap cr (b64_quads src))"
proof (induction src arbitrary: cr out rule: b64_quads.induct)
  case 1
  then show ?case by (auto simp: enc_body_def enc_rest_def emit_def split: if_splits)
next
  case (2 a)
  then show ?case by (auto simp: enc_body_def enc_rest_def emit_def split: if_splits)
next
  case (3 a b)
  then show ?case by (auto simp: enc_body_def enc_rest_def emit_def numeral_2_eq_2 split: if_splits)
next
  case (4 a b c r)
  have d: "(3 + length r) div 3 = Suc (length r div 3)" by simp
  have "enc_body cap (a # b # c # r) cr out =
      (if cr + 1 = 19 then enc_body cap r 0 (out @ enc3 a b c @ [10])
       else enc_body cap r (cr + 1) (out @ enc3 a b c))"
    using "4.prems" by (auto simp: enc_body_def emit_def d)
  also have "\<dots> = Inr (out @ b64_wrap cr (b64_quads (a # b # c # r)))"
    using 4 by (auto split: if_splits)
  finally show ?case .
qed

lemma encode_lengths:
  fixes src_len :: guint32
  assumes "unat src_len \<le> 3000000000"
  shows "unat (src_len div 3) = unat src_len div 3"
    and "unat (src_len - 3 * (src_len div 3)) = unat src_len mod 3"
    and "unat (4 * ((src_len + 2) div 3) + ((src_len + 2) div 3 + 18) div 19) =
           4 * ((unat src_len + 2) div 3) + ((unat src_len + 2) div 3 + 18) div 19"
proof -
  show d: "unat (src_len div 3) = unat src_len div 3" by (simp add: unat_div)
  have "unat (3 * (src_len div 3)) = 3 * (unat src_len div 3)"
    using assms by (simp add: unat_word_ariths d)
  moreover have "3 * (src_len div 3) \<le> src_len"
    unfolding word_le_nat_alt calculation by simp
  ultimately show "unat (src_len - 3 * (src_len div 3)) = unat src_len mod 3"
    by (simp add: minus_mult_div_eq_mod unat_mod)
  have p: "unat (src_len + 2) = unat src_len + 2" using assms by (simp add: unat_word_ariths)
  then have q: "unat ((src_len + 2) div 3) = (unat src_len + 2) div 3" by (simp add: unat_div)
  have bq: "(unat src_len + 2) div 3 \<le> 1000000001" using assms by auto
  have r: "unat ((src_len + 2) div 3 + 18) = (unat src_len + 2) div 3 + 18"
    using bq by (simp add: unat_word_ariths q)
  have r': "unat (((src_len + 2) div 3 + 18) div 19) = ((unat src_len + 2) div 3 + 18) div 19"
    by (simp add: unat_div r)
  have m: "unat (4 * ((src_len + 2) div 3)) = 4 * ((unat src_len + 2) div 3)"
    using bq by (simp add: unat_word_ariths q)
  have "((unat src_len + 2) div 3 + 18) div 19 \<le> 52631580" using bq by auto
  then show "unat (4 * ((src_len + 2) div 3) + ((src_len + 2) div 3 + 18) div 19) =
      4 * ((unat src_len + 2) div 3) + ((unat src_len + 2) div 3 + 18) div 19"
    using bq by (subst unat_add_small) (simp_all add: m r')
qed

lemma ic_base64_encode_eq:
  assumes "length src = unat src_len" and "unat src_len \<le> 3000000000"
  shows "\<exists>len. ic_base64_encode True src src_len =
           Inr (Some (b64_wrap 0 (b64_quads src) @ [0], len)) \<and>
           unat len = length (b64_wrap 0 (b64_quads src))"
proof -
  let ?len = "4 * ((src_len + 2) div 3) + ((src_len + 2) div 3 + 18) div 19"
  let ?w = "b64_wrap 0 (b64_quads src)"
  note el = encode_lengths [OF assms(2)]
  have lw: "length ?w = unat ?len"
    using length_b64_wrap [of 0 "b64_quads src"] b64_quads_len4
    by (simp add: el length_b64_quads assms(1))
  have "unat ?len < 4294967295"
  proof -
    have "(unat src_len + 2) div 3 \<le> 1000000001" using assms(2) by auto
    moreover have "((unat src_len + 2) div 3 + 18) div 19 \<le> 52631580" using calculation by auto
    ultimately show ?thesis unfolding el by linarith
  qed
  then have cap: "unat (?len + 1) = Suc (length ?w)" unfolding lw by (subst unat_add_small) simp_all
  have "ic_base64_encode True src src_len =
      c_bind (enc_body (unat (?len + 1)) src 0 [])
        (\<lambda>out2. c_bind (emit (unat (?len + 1)) out2 [0]) (\<lambda>out3.
          c_assert (length out3 = unat (?len + 1)) (Inr (Some (out3, ?len)))))"
    unfolding ic_base64_encode_def enc_body_def Let_def el(1,2) assms(1)
    by (simp add: c_bind_assoc case_prod_unfold)
  also have "\<dots> = Inr (Some (?w @ [0], ?len))"
    unfolding cap by (simp add: enc_body_eq emit_def)
  finally show ?thesis using lw by metis
qed

section \<open>Safety of decoding\<close>

lemma decode_chars_safe:
  "pos + n \<le> length src \<Longrightarrow> \<exists>r. decode_chars src pos n cl fin acc = Inr r"
  by (induction src pos n cl fin acc rule: decode_chars.induct) (auto simp: Let_def)

lemma decode_loop_safe:
  assumes "length src = src_len" and "length dest = dest_len" and "decode_len \<le> src_len"
    and "src_len < 4294967296" and "dest_len < 4294967296"
    and "4 dvd src_len - decode_len" and "3 dvd dest_len - inx" and "inx \<le> dest_len"
  shows "\<exists>r. decode_loop dest dest_len src src_len inx decode_len fin tot = Inr r"
  using assms
proof (induction dest dest_len src src_len inx decode_len fin tot rule: decode_loop.induct)
  case (1 dest dest_len src src_len inx decode_len fin tot)
  show ?case
  proof (cases "inx < dest_len \<and> decode_len < src_len \<and> \<not> fin")
    case False
    then show ?thesis by (subst decode_loop.simps) auto
  next
    case True
    then have le: "decode_len + 4 \<le> src_len" "inx + 3 \<le> dest_len"
      using dvd_imp_le [OF "1.prems"(6)] dvd_imp_le [OF "1.prems"(7)] by auto
    from "1.prems" le obtain r where r: "decode_chars src decode_len 4 3 fin [] = Inr r"
      using decode_chars_safe by blast
    have st: "store3 dest inx (decode_bytes d) = Inr (take inx dest @ decode_bytes d @ drop (inx + 3) dest)" for d
      using "1.prems" le by (intro store3_in) (auto simp: decode_bytes_def)
    have len: "length (take inx dest @ decode_bytes d @ drop (inx + 3) dest) = length dest" for d
      using "1.prems" le by (simp add: decode_bytes_def)
    show ?thesis
    proof (cases r)
      case None
      then show ?thesis using True r by (subst decode_loop.simps) simp
    next
      case (Some a)
      obtain d cl fin' where a: "a = (d, cl, fin')" by (cases a)
      have eq: "decode_loop dest dest_len src src_len inx decode_len fin tot =
          decode_loop (take inx dest @ decode_bytes d @ drop (inx + 3) dest) dest_len src src_len
            (inx + 3) (decode_len + 4) fin' (tot + cl)"
        using True r Some a st le "1.prems" by (subst decode_loop.simps) simp
      have "4 dvd src_len - (decode_len + 4)" "3 dvd dest_len - (inx + 3)"
        using "1.prems"(6,7) le by (metis diff_diff_left dvd_diff_nat dvd_refl)+
      then show ?thesis unfolding eq
        using True le len "1.prems" by (intro "1.IH" [OF _ _ r Some a [symmetric] refl st]) auto
    qed
  qed
qed

section \<open>Properties\<close>

lemma filter_b64_wrap:
  "(\<And>q c. q \<in> set qs \<Longrightarrow> c \<in> set q \<Longrightarrow> c \<noteq> 10) \<Longrightarrow> filter (\<lambda>c. c \<noteq> 10) (b64_wrap cr qs) = concat qs"
proof (induction cr qs rule: b64_wrap.induct)
  case (2 cr q qs)
  then have "filter (\<lambda>c. c \<noteq> 10) q = q" by (intro filter_True) auto
  then show ?case using 2 by (cases "cr + 1 = 19") auto
qed simp

lemma b64_quads_no_cr: "q \<in> set (b64_quads xs) \<Longrightarrow> c \<in> set q \<Longrightarrow> c \<noteq> 10"
  by (induction xs rule: b64_quads.induct) (auto simp: enc_codes encode_table_nth groups_small)

lemma set_b64_wrap: "10 \<in> set (b64_wrap cr qs) \<longleftrightarrow> (\<exists>q \<in> set qs. 10 \<in> set q) \<or> 0 < cr \<or> qs \<noteq> []"
  by (induction cr qs rule: b64_wrap.induct) auto

text \<open>
  C24. Round trip of the codec, as the cluster server and its clients use it: a client concatenates
  the received lines (that is, drops the line breaks) and decodes into a buffer of three bytes per
  four characters. For every source of up to 3 000 000 000 bytes the encoder neither faults nor
  trips its final assertion, reports the buffer length it wrote, and decoding its lines gives back
  the source bytes and their number.
\<close>

theorem base64_roundtrip:
  assumes "length src = unat src_len" and "unat src_len \<le> 3000000000"
    and "length dest = 3 * ((unat src_len + 2) div 3)"
  shows "\<exists>buf len. ic_base64_encode True src src_len = Inr (Some (buf, len)) \<and>
           length buf = unat len + 1 \<and> last buf = 0 \<and>
           (let b64 = filter (\<lambda>c. c \<noteq> 10) (butlast buf) in
            \<exists>dest'. ic_base64_decode dest (of_nat (length dest)) b64 (of_nat (length b64)) =
                       Inr (Some (dest', unat src_len)) \<and> take (unat src_len) dest' = src)"
proof -
  let ?b = "concat (b64_quads src)"
  obtain len where enc: "ic_base64_encode True src src_len = Inr (Some (b64_wrap 0 (b64_quads src) @ [0], len))"
    and len: "unat len = length (b64_wrap 0 (b64_quads src))"
    using ic_base64_encode_eq [OF assms(1,2)] by blast
  have fl: "filter (\<lambda>c. c \<noteq> 10) (b64_wrap 0 (b64_quads src)) = ?b"
    by (rule filter_b64_wrap) (rule b64_quads_no_cr)
  have n: "(unat src_len + 2) div 3 \<le> 1000000001" using assms(2) by auto
  have lb: "length ?b = 4 * ((unat src_len + 2) div 3)"
    by (simp add: length_concat_quads length_b64_quads assms(1))
  have u: "unat (of_nat (length ?b) :: guint32) = length ?b" "unat (of_nat (length dest) :: guint32) = length dest"
    using lb n assms(3) by (intro unat_of_nat_32; linarith)+
  obtain dest' where "decode_loop dest (length dest) ?b (length ?b) 0 0 False 0 =
      Inr (Some (dest', 0 + length src, length ?b))" "take (0 + length src) dest' = take 0 dest @ src"
    using decode_loop_quads [of 0 ?b src "length ?b" 0 "length dest" dest 0] lb n assms
    by (auto simp: length_b64_quads)
  then have "ic_base64_decode dest (of_nat (length dest)) ?b (of_nat (length ?b)) =
      Inr (Some (dest', unat src_len)) \<and> take (unat src_len) dest' = src"
    using u assms(1) by (simp add: ic_base64_decode_def)
  then show ?thesis using enc len fl by (auto simp: Let_def butlast_append)
qed

theorem base64_roundtrip_witness:
  "\<exists>buf len. ic_base64_encode True [72, 105, 33, 10] 4 = Inr (Some (buf, len)) \<and>
     length buf = unat len + 1 \<and> last buf = 0 \<and>
     (let b64 = filter (\<lambda>c. c \<noteq> 10) (butlast buf) in
      \<exists>dest'. ic_base64_decode [0, 0, 0, 0, 0, 0] (of_nat (length [0, 0, 0, 0, 0, 0 :: guint8])) b64
                (of_nat (length b64)) = Inr (Some (dest', unat (4 :: guint32)))
        \<and> take (unat (4 :: guint32)) dest' = [72, 105, 33, 10])"
  by (rule base64_roundtrip [of "[72, 105, 33, 10]" 4 "[0, 0, 0, 0, 0, 0]"]) simp_all

text \<open>
  Memory safety of decoding for the buffer sizes of \<^verbatim>\<open>translate_config\<close>: with a source whose
  length is a multiple of four and a destination of three bytes per four characters, decoding any
  byte string, valid or not, returns (a result or an error) without touching memory outside the two
  buffers.
\<close>

theorem base64_decode_safe:
  assumes "length src = unat src_len" and "unat src_len mod 4 = 0"
    and "length dest = unat dest_len" and "unat dest_len = 3 * (unat src_len div 4)"
  shows "\<exists>r. ic_base64_decode dest dest_len src src_len = Inr r"
proof -
  have "\<exists>r. decode_loop dest (unat dest_len) src (unat src_len) 0 0 False 0 = Inr r"
    using assms unat_bound32 [of src_len] unat_bound32 [of dest_len]
    by (intro decode_loop_safe) (auto simp: mod_eq_0_iff_dvd)
  then show ?thesis by (auto simp: ic_base64_decode_def split: option.splits)
qed

theorem base64_decode_safe_witness:
  "\<exists>r. ic_base64_decode [0, 0, 0] 3 [61, 61, 0, 200] 4 = Inr r"
  by (rule base64_decode_safe) simp_all
end
