(* ===== verification/IC_Bitmap.thy ===== *)
theory IC_Bitmap
  imports Prelude
begin

text \<open>
  \<^verbatim>\<open>src/util/ic_bitmap.c\<close> and \<^verbatim>\<open>src/include/ic_bitmap.h\<close>: bitmaps over a byte area.

  The record \<open>ic_bitmap\<close> is the C struct; a null \<^verbatim>\<open>bitmap_area\<close> is \<open>None\<close>. The bit macros are
  modelled with their bounds, in the release build (\<open>macro_...\<close>) and in the debug build, which
  asserts the bit number. The interface the users rely on is the locale \<open>bit_set\<close>: a set of bit
  numbers below the size given at creation.
\<close>

record ic_bitmap =
  bitmap_area :: "guint8 list option"
  num_bits :: guint32
  alloced_bitmap :: bool
  alloced_bitmap_area :: bool

definition IC_BITMAP_SIZE :: "guint32 \<Rightarrow> guint32" where
  "IC_BITMAP_SIZE n = 4 * (n div 32) + 4"

definition IC_BITMAP_BIT :: "guint32 \<Rightarrow> guint32" where
  "IC_BITMAP_BIT bit_number = bit_number AND 7"

definition IC_BITMAP_BYTE :: "guint32 \<Rightarrow> guint32" where
  "IC_BITMAP_BYTE bit_number = bit_number div 8"

text \<open>\<^verbatim>\<open>ic_is_bit_set\<close> and \<^verbatim>\<open>ic_set_bit\<close> on a byte of the area.\<close>

definition ic_is_bit_set :: "guint8 \<Rightarrow> nat \<Rightarrow> guint8" where
  "ic_is_bit_set val n = drop_bit n val AND 1"

definition ic_set_bit :: "guint8 \<Rightarrow> nat \<Rightarrow> guint8" where
  "ic_set_bit val n = val OR push_bit n 1"

definition macro_ic_bitmap_set_bit :: "ic_bitmap \<Rightarrow> guint32 \<Rightarrow> fault + ic_bitmap" where
  "macro_ic_bitmap_set_bit b n = (case bitmap_area b of
       None \<Rightarrow> Inl NullDeref
     | Some area \<Rightarrow>
         let i = unat (IC_BITMAP_BYTE n) in
         c_bind (rd area i) (\<lambda>v.
         c_bind (wr area i (ic_set_bit v (unat (IC_BITMAP_BIT n)))) (\<lambda>area'.
           Inr (b\<lparr>bitmap_area := Some area'\<rparr>))))"

definition macro_ic_bitmap_get_bit :: "ic_bitmap \<Rightarrow> guint32 \<Rightarrow> fault + bool" where
  "macro_ic_bitmap_get_bit b n = (case bitmap_area b of
       None \<Rightarrow> Inl NullDeref
     | Some area \<Rightarrow>
         c_bind (rd area (unat (IC_BITMAP_BYTE n))) (\<lambda>v.
           Inr (ic_is_bit_set v (unat (IC_BITMAP_BIT n)) \<noteq> 0)))"

definition ic_bitmap_set_bit :: "ic_bitmap \<Rightarrow> guint32 \<Rightarrow> fault + ic_bitmap" where
  "ic_bitmap_set_bit b n = c_assert (n < num_bits b) (macro_ic_bitmap_set_bit b n)"

definition ic_bitmap_get_bit :: "ic_bitmap \<Rightarrow> guint32 \<Rightarrow> fault + bool" where
  "ic_bitmap_get_bit b n = c_assert (n < num_bits b) (macro_ic_bitmap_get_bit b n)"

definition ic_bitmap_copy :: "ic_bitmap \<Rightarrow> ic_bitmap \<Rightarrow> fault + ic_bitmap" where
  "ic_bitmap_copy dst src =
     c_assert (IC_BITMAP_SIZE (num_bits dst) = IC_BITMAP_SIZE (num_bits src))
       (case (bitmap_area dst, bitmap_area src) of
          (Some d, Some s) \<Rightarrow>
            c_bind (rd_blk s 0 (unat (IC_BITMAP_SIZE (num_bits src)))) (\<lambda>bytes.
            c_bind (wr_blk d 0 bytes) (\<lambda>d'. Inr (dst\<lparr>bitmap_area := Some d'\<rparr>)))
        | _ \<Rightarrow> Inl NullDeref)"

text \<open>
  Creation. The argument is the caller's bitmap (\<open>None\<close> for a null pointer); a struct or an area
  the function allocates is zeroed.
\<close>

definition ic_create_bitmap :: "allocs \<Rightarrow> ic_bitmap option \<Rightarrow> guint32 \<Rightarrow> ic_bitmap option" where
  "ic_create_bitmap allocs bitmap n =
     (let size = unat (IC_BITMAP_SIZE n);
          (loc, allocs') = (case bitmap of
              Some b \<Rightarrow> (Some b, allocs)
            | None \<Rightarrow> (let (ok, allocs1) = alloc_next allocs in
                 (if ok then Some \<lparr>bitmap_area = None, num_bits = 0,
                                   alloced_bitmap = True, alloced_bitmap_area = False\<rparr> else None,
                  allocs1)))
      in case loc of
           None \<Rightarrow> None
         | Some b \<Rightarrow>
             (case bitmap_area b of
                Some _ \<Rightarrow> Some (b\<lparr>num_bits := n\<rparr>)
              | None \<Rightarrow>
                  if fst (alloc_next allocs')
                  then Some (b\<lparr>bitmap_area := Some (replicate size 0),
                               alloced_bitmap_area := True, num_bits := n\<rparr>)
                  else None))"

text \<open>
  \<open>ic_mc_create_bitmap\<close> takes both objects, zeroed, from a memory container; it does not store
  \<open>num_bits\<close>.
\<close>

definition ic_mc_create_bitmap :: "allocs \<Rightarrow> guint32 \<Rightarrow> ic_bitmap option" where
  "ic_mc_create_bitmap allocs n =
     (let size = unat (IC_BITMAP_SIZE n);
          (ok1, allocs1) = alloc_next allocs
      in if \<not> ok1 then None
         else if fst (alloc_next allocs1)
         then Some \<lparr>bitmap_area = Some (replicate size 0), num_bits = 0,
                    alloced_bitmap = False, alloced_bitmap_area = False\<rparr>
         else None)"

text \<open>\<open>ic_free_bitmap\<close> frees the area and the struct the module allocated: what it frees.\<close>

datatype bitmap_object = Bitmap_Area | Bitmap_Struct

definition ic_free_bitmap :: "ic_bitmap \<Rightarrow> bitmap_object list" where
  "ic_free_bitmap b =
     (if alloced_bitmap_area b then [Bitmap_Area] else []) @
     (if alloced_bitmap b then [Bitmap_Struct] else [])"

definition ic_count_highest_bit :: "guint32 \<Rightarrow> guint32" where
  "ic_count_highest_bit bit_var =
     fold (\<lambda>i bit_inx. if bit_var OR push_bit i 1 \<noteq> 0 then of_nat (i + 1) else bit_inx) [0..<32] 0"

section \<open>The interface\<close>

text \<open>A client of the interface: setting a list of bits, one after the other.\<close>

fun set_bits :: "('b \<Rightarrow> guint32 \<Rightarrow> fault + 'b) \<Rightarrow> 'b \<Rightarrow> guint32 list \<Rightarrow> fault + 'b" where
  "set_bits f b [] = Inr b"
| "set_bits f b (n # ns) = c_bind (f b n) (\<lambda>b'. set_bits f b' ns)"

locale bit_set =
  fixes set_bit :: "'b \<Rightarrow> guint32 \<Rightarrow> fault + 'b"
    and get_bit :: "'b \<Rightarrow> guint32 \<Rightarrow> fault + bool"
    and size_of :: "'b \<Rightarrow> guint32"
    and invar :: "'b \<Rightarrow> bool"
  assumes set_ok: "invar b \<Longrightarrow> n < size_of b \<Longrightarrow> \<exists>b'. set_bit b n = Inr b' \<and> invar b' \<and> size_of b' = size_of b"
    and get_ok: "invar b \<Longrightarrow> n < size_of b \<Longrightarrow> \<exists>v. get_bit b n = Inr v"
    and get_set: "invar b \<Longrightarrow> n < size_of b \<Longrightarrow> m < size_of b \<Longrightarrow> set_bit b n = Inr b' \<Longrightarrow>
                    get_bit b' m = (if m = n then Inr True else get_bit b m)"
begin

lemma set_bits_ok:
  assumes "invar b" and "\<forall>n \<in> set ns. n < size_of b"
  shows "\<exists>b'. set_bits set_bit b ns = Inr b' \<and> invar b' \<and> size_of b' = size_of b \<and>
           (\<forall>m < size_of b. get_bit b' m = (if m \<in> set ns then Inr True else get_bit b m))"
  using assms
proof (induction ns arbitrary: b)
  case Nil
  then show ?case by simp
next
  case (Cons n ns)
  then obtain b1 where b1: "set_bit b n = Inr b1" "invar b1" "size_of b1 = size_of b"
    using set_ok [of b n] by auto
  obtain b' where b': "set_bits set_bit b1 ns = Inr b'" "invar b'" "size_of b' = size_of b1"
    "\<forall>m < size_of b1. get_bit b' m = (if m \<in> set ns then Inr True else get_bit b1 m)"
    using Cons.IH [of b1] b1 Cons.prems by auto
  show ?case
    using b1 b' Cons.prems get_set [OF Cons.prems(1) _ _ b1(1)] by auto
qed

end

section \<open>Correctness\<close>

definition bitmap_ok :: "ic_bitmap \<Rightarrow> bool" where
  "bitmap_ok b = (case bitmap_area b of
      None \<Rightarrow> False | Some area \<Rightarrow> unat (IC_BITMAP_SIZE (num_bits b)) \<le> length area)"

lemma unat_BITMAP_SIZE: "unat (IC_BITMAP_SIZE n) = 4 * (unat n div 32) + 4"
proof -
  have "unat n div 32 < 134217728" using unat_bound32 [of n] by auto
  then show ?thesis by (simp add: IC_BITMAP_SIZE_def unat_word_ariths unat_div)
qed

lemma unat_BITMAP_BYTE: "unat (IC_BITMAP_BYTE n) = unat n div 8"
  by (simp add: IC_BITMAP_BYTE_def unat_div)

lemma unat_BITMAP_BIT: "unat (IC_BITMAP_BIT n) = unat n mod 8"
proof -
  have "n AND mask 3 = n mod 2 ^ 3" by (simp only: take_bit_eq_mask [symmetric] take_bit_eq_mod)
  then show ?thesis by (simp add: IC_BITMAP_BIT_def mask_eq_exp_minus_1 unat_mod)
qed

lemmas unat_bitmap = unat_BITMAP_SIZE unat_BITMAP_BYTE unat_BITMAP_BIT

lemma bitmap_byte_in_area:
  assumes "bitmap_ok b" and "n < num_bits b"
  obtains area where "bitmap_area b = Some area" and "unat n div 8 < length area"
proof -
  from assms(1) obtain area where a: "bitmap_area b = Some area"
    and s: "4 * (unat (num_bits b) div 32) + 4 \<le> length area"
    by (auto simp: bitmap_ok_def unat_bitmap split: option.splits)
  have "unat n < unat (num_bits b)" using assms(2) by (simp add: word_less_nat_alt)
  then have "unat n div 8 < length area" using s by linarith
  with a show ?thesis by (rule that)
qed

lemma bit_of_set_bit: "ic_is_bit_set (ic_set_bit v n) m = 0 \<longleftrightarrow>
    \<not> (n = m \<and> n < 8) \<and> ic_is_bit_set v m = 0"
proof -
  have bit: "ic_is_bit_set w k = 0 \<longleftrightarrow> \<not> bit w k" for w k
    by (simp add: ic_is_bit_set_def and_one_eq bit_iff_odd_drop_bit odd_iff_mod_2_eq_one)
  show ?thesis unfolding bit by (auto simp: ic_set_bit_def bit_simps)
qed

lemma byte_and_bit: "unat (n :: guint32) div 8 = unat m div 8 \<Longrightarrow> unat n mod 8 = unat m mod 8 \<Longrightarrow> n = m"
  by (metis div_mult_mod_eq word_unat_eq_iff)

interpretation bm: bit_set macro_ic_bitmap_set_bit macro_ic_bitmap_get_bit num_bits bitmap_ok
proof
  fix b n assume b: "bitmap_ok b" and n: "n < num_bits b"
  obtain area where a: "bitmap_area b = Some area" "unat n div 8 < length area"
    using bitmap_byte_in_area [OF b n] .
  then show "\<exists>b'. macro_ic_bitmap_set_bit b n = Inr b' \<and> bitmap_ok b' \<and> num_bits b' = num_bits b"
    using b by (simp add: macro_ic_bitmap_set_bit_def Let_def unat_bitmap bitmap_ok_def)
  show "\<exists>v. macro_ic_bitmap_get_bit b n = Inr v"
    using a by (simp add: macro_ic_bitmap_get_bit_def unat_bitmap)
  fix m b' assume m: "m < num_bits b" and s: "macro_ic_bitmap_set_bit b n = Inr b'"
  have am: "unat m div 8 < length area"
    using bitmap_byte_in_area [OF b m] a by auto
  have b': "b' = b\<lparr>bitmap_area := Some (area[unat n div 8 := ic_set_bit (area ! (unat n div 8)) (unat n mod 8)])\<rparr>"
    using s a by (simp add: macro_ic_bitmap_set_bit_def Let_def unat_bitmap)
  show "macro_ic_bitmap_get_bit b' m = (if m = n then Inr True else macro_ic_bitmap_get_bit b m)"
    using a am byte_and_bit [of n m]
    by (auto simp: b' macro_ic_bitmap_get_bit_def unat_bitmap bit_of_set_bit nth_list_update)
qed

lemma created_bits_clear:
  "macro_ic_bitmap_get_bit
     \<lparr>bitmap_area = Some (replicate k 0), num_bits = n, alloced_bitmap = x, alloced_bitmap_area = y\<rparr> m =
     (if unat m div 8 < k then Inr False else Inl OutOfBounds)"
  by (simp add: macro_ic_bitmap_get_bit_def unat_bitmap rd_def ic_is_bit_set_def)

text \<open>
  Bitmaps are sets of bit numbers: a bitmap created by \<open>ic_create_bitmap\<close> in fresh memory and
  then given any list of bits below its size has exactly those bits set, and no access leaves the
  area.
\<close>

theorem bitmap_set_semantics:
  assumes "ic_create_bitmap allocs None nbits = Some b" and "\<forall>n \<in> set ns. n < nbits"
  shows "\<exists>b'. set_bits macro_ic_bitmap_set_bit b ns = Inr b' \<and>
           (\<forall>m < nbits. macro_ic_bitmap_get_bit b' m = Inr (m \<in> set ns))"
proof -
  have b: "b = \<lparr>bitmap_area = Some (replicate (unat (IC_BITMAP_SIZE nbits)) 0), num_bits = nbits,
                alloced_bitmap = True, alloced_bitmap_area = True\<rparr>"
    using assms(1) by (auto simp: ic_create_bitmap_def Let_def split: prod.splits if_splits)
  have clear: "macro_ic_bitmap_get_bit b m = Inr False" if "m < nbits" for m
  proof -
    have "unat m < unat nbits" using that by (simp add: word_less_nat_alt)
    then have "unat m div 8 < unat (IC_BITMAP_SIZE nbits)" unfolding unat_bitmap by linarith
    then show ?thesis unfolding b created_bits_clear by simp
  qed
  have ok: "bitmap_ok b" and sz: "num_bits b = nbits" by (simp_all add: b bitmap_ok_def)
  show ?thesis using bm.set_bits_ok [OF ok, of ns] assms(2) clear unfolding sz by auto
qed

theorem bitmap_set_semantics_witness:
  "\<exists>b'. set_bits macro_ic_bitmap_set_bit \<lparr>bitmap_area = Some (replicate 8 0), num_bits = 40,
           alloced_bitmap = True, alloced_bitmap_area = True\<rparr> [3, 39] = Inr b' \<and>
     (\<forall>m < 40. macro_ic_bitmap_get_bit b' m = Inr (m \<in> set [3, 39]))"
  by (rule bitmap_set_semantics [of "[]"])
    (simp_all add: ic_create_bitmap_def IC_BITMAP_SIZE_def Let_def)

lemma ic_count_highest_bit_all: "ic_count_highest_bit bit_var = 32"
proof -
  have nz: "bit_var OR 2 ^ i \<noteq> (0 :: guint32)" if "i < 32" for i
  proof
    assume "bit_var OR 2 ^ i = (0 :: guint32)"
    then have "\<not> bit (bit_var OR 2 ^ i) i" by simp
    with that show False by (simp add: bit_simps)
  qed
  have "fold (\<lambda>i bit_inx. if bit_var OR push_bit i 1 \<noteq> 0 then of_nat (i + 1) else bit_inx) [0..<k] 0 =
      (of_nat k :: guint32)" if "k \<le> 32" for k
    using that by (induction k) (simp_all add: nz)
  then have "ic_count_highest_bit bit_var = of_nat 32"
    unfolding ic_count_highest_bit_def by blast
  then show ?thesis by simp
qed

text \<open>
  A bitmap from a memory container reports zero bits, so the debug build refuses every bit of it.
\<close>

lemma ic_mc_create_bitmap_num_bits:
  "ic_mc_create_bitmap allocs n = Some b \<Longrightarrow> num_bits b = 0 \<and> ic_bitmap_set_bit b m = Inl AssertFail"
  by (auto simp: ic_mc_create_bitmap_def ic_bitmap_set_bit_def Let_def split: if_splits prod.splits)

end
