(* ===== verification/IC_Hashtable.thy ===== *)
theory IC_Hashtable
  imports Prelude "HOL-Library.Multiset"
begin

text \<open>
  \<^verbatim>\<open>src/util/ic_hashtable.c\<close>, \<^verbatim>\<open>src/util/ic_hashtable_itr.c\<close> and
  \<^verbatim>\<open>src/include/ic_hashtable_private.h\<close>: the chained hash table and its iterator.

  A chain of \<^verbatim>\<open>IC_HASH_ENTRY\<close> objects is the list of its entries, the table the list of its
  chains. The hash and equality functions are the function pointers of the struct. \<^verbatim>\<open>ceil(size *
  max_load_factor)\<close> with the factor 0.65 is \<open>(13 * size + 19) div 20\<close>: no prime of the table is a
  multiple of 20, so the rounding of the double product never reaches an integer.
\<close>

record ('k, 'v) ic_hash_entry =
  ek :: 'k
  ev :: 'v
  eh :: guint32

record ('k, 'v) ic_hashtable =
  tablelength :: guint32
  entrycount :: guint32
  loadlimit :: guint32
  primeindex :: nat
  table :: "('k, 'v) ic_hash_entry list list"
  hashfn :: "'k \<Rightarrow> guint32"
  eqfn :: "'k \<Rightarrow> 'k \<Rightarrow> bool"

definition primes :: "guint32 list" where
  "primes =
     [5, 11, 23, 51, 97, 193, 389,
      769, 1543, 3079, 6151,
      12289, 24593, 49157, 98317,
      196613, 393241, 786433, 1572869,
      3145739, 6291469, 12582917, 25165843,
      50331653, 100663319, 201326611, 402653189,
      805306457, 1610612741]"

definition prime_table_length :: nat where
  "prime_table_length = length primes"

definition load_limit :: "guint32 \<Rightarrow> guint32" where
  "load_limit sz = of_nat ((13 * unat sz + 19) div 20)"

section \<open>Hash and comparison functions\<close>

text \<open>\<open>ic_hash_str\<close> on the bytes of an \<^verbatim>\<open>IC_STRING\<close>, read as unsigned.\<close>

definition ic_hash_str :: "string \<Rightarrow> guint32" where
  "ic_hash_str s = fold (\<lambda>c hash. of_char c + 147 * hash + 5) s 0"

text \<open>The integer hash functions add \<^verbatim>\<open>gchar\<close> bytes, which are sign extended.\<close>

definition hash_bytes :: "guint8 list \<Rightarrow> guint32" where
  "hash_bytes bs = fold (\<lambda>b hash. 147 * hash + scast b) bs 23"

definition le_bytes :: "nat \<Rightarrow> guint64 \<Rightarrow> guint8 list" where
  "le_bytes n val = map (\<lambda>i. ucast (drop_bit (8 * i) val)) [0..<n]"

definition ic_hash_ptr :: "guint64 \<Rightarrow> guint32" where
  "ic_hash_ptr key = hash_bytes (le_bytes 8 key)"

definition ic_hash_uint64 :: "guint64 \<Rightarrow> guint32" where
  "ic_hash_uint64 key = hash_bytes (le_bytes 8 key)"

definition ic_hash_uint32 :: "guint32 \<Rightarrow> guint32" where
  "ic_hash_uint32 key = hash_bytes (le_bytes 4 (ucast key))"

text \<open>\<^verbatim>\<open>strncmp\<close> on strings of the same length stops at a null byte in both.\<close>

fun strncmp_eq :: "string \<Rightarrow> string \<Rightarrow> bool" where
  "strncmp_eq (a # as) (b # bs) = (a = b \<and> (a = NULL_BYTE \<or> strncmp_eq as bs))"
| "strncmp_eq _ _ = True"

definition ic_keys_equal_str :: "string \<Rightarrow> string \<Rightarrow> bool" where
  "ic_keys_equal_str s1 s2 = (length s1 = length s2 \<and> strncmp_eq s1 s2)"

definition ic_keys_equal_ptr :: "guint64 \<Rightarrow> guint64 \<Rightarrow> bool" where
  "ic_keys_equal_ptr p1 p2 = (p1 = p2)"

definition ic_keys_equal_uint64 :: "guint64 \<Rightarrow> guint64 \<Rightarrow> bool" where
  "ic_keys_equal_uint64 v1 v2 = (v1 = v2)"

definition ic_keys_equal_uint32 :: "guint32 \<Rightarrow> guint32 \<Rightarrow> bool" where
  "ic_keys_equal_uint32 v1 v2 = (v1 = v2)"

section \<open>The table\<close>

text \<open>The loop over \<^verbatim>\<open>primes\<close>: the first prime larger than \<^verbatim>\<open>minsize\<close> and its index.\<close>

fun find_prime :: "guint32 list \<Rightarrow> nat \<Rightarrow> guint32 \<Rightarrow> nat \<times> guint32" where
  "find_prime [] pindex minsize = (pindex, primes ! 0)"
| "find_prime (p # ps) pindex minsize =
     (if minsize < p then (pindex, p) else find_prime ps (pindex + 1) minsize)"

definition ic_create_hashtable ::
  "allocs \<Rightarrow> guint32 \<Rightarrow> ('k \<Rightarrow> guint32) \<Rightarrow> ('k \<Rightarrow> 'k \<Rightarrow> bool) \<Rightarrow> ('k, 'v) ic_hashtable option"
where
  "ic_create_hashtable allocs minsize hashf eqf =
     (if push_bit 30 1 < minsize then None
      else let (pindex, sz) = find_prime primes 0 minsize;
               (ok1, allocs1) = alloc_next allocs;
               (ok2, _) = alloc_next allocs1
           in if \<not> ok1 then None
              else if \<not> ok2 then None
              else Some \<lparr>tablelength = sz, entrycount = 0, loadlimit = load_limit sz,
                         primeindex = pindex, table = replicate (unat sz) [],
                         hashfn = hashf, eqfn = eqf\<rparr>)"

definition mix :: "guint32 \<Rightarrow> guint32" where
  "mix i0 =
     (let i1 = i0 + NOT (push_bit 9 i0);
          i2 = i1 XOR (drop_bit 14 i1 OR push_bit 18 i1);
          i3 = i2 + push_bit 4 i2
      in i3 XOR (drop_bit 10 i3 OR push_bit 22 i3))"

definition hash :: "('k, 'v) ic_hashtable \<Rightarrow> 'k \<Rightarrow> guint32" where
  "hash h k = mix (hashfn h k)"

definition indexFor :: "guint32 \<Rightarrow> guint32 \<Rightarrow> nat" where
  "indexFor tablelen hashvalue = unat (hashvalue mod tablelen)"

text \<open>One entry moved to the front of its chain in the new table.\<close>

definition move_entry ::
  "guint32 \<Rightarrow> ('k, 'v) ic_hash_entry \<Rightarrow> ('k, 'v) ic_hash_entry list list \<Rightarrow> ('k, 'v) ic_hash_entry list list"
where
  "move_entry newsize e nt =
     (let index = indexFor newsize (eh e) in nt[index := e # nt ! index])"

text \<open>
  \<open>ic_hashtable_expand\<close>; the returned boolean is its return code. In the fallback ("plan B") a
  successful \<^verbatim>\<open>realloc\<close> is followed by \<^verbatim>\<open>ic_zero(newtable[h->tablelength], ...)\<close>, which takes
  the first, indeterminate, pointer of the new part as an address.
\<close>

definition ic_hashtable_expand ::
  "allocs \<Rightarrow> ('k, 'v) ic_hashtable \<Rightarrow> fault + (bool \<times> ('k, 'v) ic_hashtable \<times> allocs)"
where
  "ic_hashtable_expand allocs h =
     (if primeindex h = prime_table_length - 1 then Inr (False, h, allocs)
      else let pindex = primeindex h + 1;
               newsize = primes ! pindex;
               (ok, allocs1) = alloc_next allocs
           in if ok then
                Inr (True,
                     h\<lparr>primeindex := pindex,
                       table := fold (move_entry newsize) (concat (table h)) (replicate (unat newsize) []),
                       tablelength := newsize, loadlimit := load_limit newsize\<rparr>,
                     allocs1)
              else let (realloc_ok, allocs2) = alloc_next allocs1 in
                if realloc_ok then Inl UninitRead else Inr (False, h, allocs2))"

definition ic_hashtable_count :: "('k, 'v) ic_hashtable \<Rightarrow> guint32" where
  "ic_hashtable_count h = entrycount h"

definition ic_hashtable_insert ::
  "allocs \<Rightarrow> ('k, 'v) ic_hashtable \<Rightarrow> 'k \<Rightarrow> 'v \<Rightarrow> fault + (err \<times> ('k, 'v) ic_hashtable)"
where
  "ic_hashtable_insert allocs h k v =
     (let h1 = h\<lparr>entrycount := entrycount h + 1\<rparr> in
      c_bind (if loadlimit h < entrycount h1 then ic_hashtable_expand allocs h1
              else Inr (False, h1, allocs)) (\<lambda>(_, h2, allocs2).
        if \<not> fst (alloc_next allocs2)
        then Inr (IC_ERROR_MEM_ALLOC, h2\<lparr>entrycount := entrycount h2 - 1\<rparr>)
        else let hv = hash h2 k;
                 index = indexFor (tablelength h2) hv
             in c_bind (rd (table h2) index) (\<lambda>chain.
                c_bind (wr (table h2) index (\<lparr>ek = k, ev = v, eh = hv\<rparr> # chain)) (\<lambda>t'.
                  Inr (0, h2\<lparr>table := t'\<rparr>)))))"

text \<open>The walk along a chain: the first entry with the hash value and an equal key.\<close>

fun find_entry ::
  "('k \<Rightarrow> 'k \<Rightarrow> bool) \<Rightarrow> guint32 \<Rightarrow> 'k \<Rightarrow> ('k, 'v) ic_hash_entry list \<Rightarrow> 'v option"
where
  "find_entry eq hv k [] = None"
| "find_entry eq hv k (e # es) = (if hv = eh e \<and> eq k (ek e) then Some (ev e) else find_entry eq hv k es)"

definition ic_hashtable_search :: "('k, 'v) ic_hashtable \<Rightarrow> 'k \<Rightarrow> fault + 'v option" where
  "ic_hashtable_search h k =
     (let hv = hash h k in
      c_bind (rd (table h) (indexFor (tablelength h) hv)) (\<lambda>chain.
        Inr (find_entry (eqfn h) hv k chain)))"

fun unlink_entry ::
  "('k \<Rightarrow> 'k \<Rightarrow> bool) \<Rightarrow> guint32 \<Rightarrow> 'k \<Rightarrow> ('k, 'v) ic_hash_entry list \<Rightarrow> ('k, 'v) ic_hash_entry list"
where
  "unlink_entry eq hv k [] = []"
| "unlink_entry eq hv k (e # es) =
     (if hv = eh e \<and> eq k (ek e) then es else e # unlink_entry eq hv k es)"

definition ic_hashtable_remove ::
  "('k, 'v) ic_hashtable \<Rightarrow> 'k \<Rightarrow> fault + ('v option \<times> ('k, 'v) ic_hashtable)"
where
  "ic_hashtable_remove h k =
     (let hv = hash h k; index = indexFor (tablelength h) (hash h k) in
      c_bind (rd (table h) index) (\<lambda>chain.
        case find_entry (eqfn h) hv k chain of
          None \<Rightarrow> Inr (None, h)
        | Some v \<Rightarrow> Inr (Some v, h\<lparr>table := (table h)[index := unlink_entry (eqfn h) hv k chain],
                                    entrycount := entrycount h - 1\<rparr>)))"

text \<open>\<open>ic_hashtable_destroy\<close>: the entries it frees, in order (the table and the struct follow).\<close>

definition ic_hashtable_destroy :: "('k, 'v) ic_hashtable \<Rightarrow> fault + ('k, 'v) ic_hash_entry list" where
  "ic_hashtable_destroy h =
     (if unat (tablelength h) \<le> length (table h)
      then Inr (concat (take (unat (tablelength h)) (table h))) else Inl OutOfBounds)"

section \<open>The iterator\<close>

text \<open>The entry pointer is a bucket and a position in its chain; the null pointer is \<open>None\<close>.\<close>

record ic_hashtable_itr =
  itr_e :: "(nat \<times> nat) option"
  itr_index :: nat

definition ic_hashtable_iterator :: "ic_hashtable_itr \<Rightarrow> bool \<Rightarrow> ic_hashtable_itr" where
  "ic_hashtable_iterator itr from_start =
     \<lparr>itr_e = None, itr_index = (if from_start then 0 else itr_index itr)\<rparr>"

text \<open>The search for a non-empty bucket of the first call.\<close>

fun first_bucket :: "'a list list \<Rightarrow> nat \<Rightarrow> nat \<Rightarrow> fault + nat option" where
  "first_bucket t i 0 = Inr None"
| "first_bucket t i (Suc n) =
     c_bind (rd t i) (\<lambda>b. if b \<noteq> [] then Inr (Some i) else first_bucket t (i + 1) n)"

text \<open>
  The search of the later calls, from bucket \<open>j\<close>: it reads a bucket before it compares the
  index with the table length. The fuel is the number of buckets that can be read.
\<close>

fun next_bucket :: "'a list list \<Rightarrow> nat \<Rightarrow> nat \<Rightarrow> nat \<Rightarrow> fault + nat option" where
  "next_bucket t tablelen 0 j = Inl OutOfBounds"
| "next_bucket t tablelen (Suc n) j =
     c_bind (rd t j) (\<lambda>b.
       if b \<noteq> [] then Inr (Some j)
       else if tablelen \<le> j + 1 then Inr None else next_bucket t tablelen n (j + 1))"

definition ic_hashtable_iterator_advance ::
  "('k, 'v) ic_hashtable \<Rightarrow> ic_hashtable_itr \<Rightarrow> fault + (bool \<times> ic_hashtable_itr)"
where
  "ic_hashtable_iterator_advance h itr =
     (let len = unat (tablelength h) in
      case itr_e itr of
        None \<Rightarrow>
          c_bind (first_bucket (table h) (itr_index itr) (len - itr_index itr)) (\<lambda>r. case r of
              Some i \<Rightarrow> Inr (True, itr\<lparr>itr_e := Some (i, 0), itr_index := i\<rparr>)
            | None \<Rightarrow> c_require (entrycount h = 0) (Inr (False, itr)))
      | Some (i, p) \<Rightarrow>
          c_bind (rd (table h) i) (\<lambda>chain.
            if p + 1 < length chain then Inr (True, itr\<lparr>itr_e := Some (i, p + 1)\<rparr>)
            else let j = itr_index itr + 1 in
              if len < j then Inr (False, itr\<lparr>itr_e := None, itr_index := j\<rparr>)
              else c_bind (next_bucket (table h) len (len + 1) j) (\<lambda>r. case r of
                  Some j' \<Rightarrow> Inr (True, itr\<lparr>itr_e := Some (j', 0), itr_index := j'\<rparr>)
                | None \<Rightarrow> Inr (False, itr\<lparr>itr_e := None, itr_index := len\<rparr>))))"

section \<open>Invariant and abstraction\<close>

text \<open>Every entry lies in the bucket of its key's hash value, and the counters agree.\<close>

definition entry_at :: "('k, 'v) ic_hashtable \<Rightarrow> nat \<Rightarrow> ('k, 'v) ic_hash_entry \<Rightarrow> bool" where
  "entry_at h i e \<longleftrightarrow> eh e = hash h (ek e) \<and> indexFor (tablelength h) (hash h (ek e)) = i"

definition ht_ok :: "('k, 'v) ic_hashtable \<Rightarrow> bool" where
  "ht_ok h \<longleftrightarrow>
     primeindex h < prime_table_length \<and> tablelength h = primes ! primeindex h \<and>
     loadlimit h = load_limit (tablelength h) \<and>
     length (table h) = unat (tablelength h) \<and>
     (\<forall>i < length (table h). \<forall>e \<in> set (table h ! i). entry_at h i e) \<and>
     entrycount h = of_nat (length (concat (table h)))"

definition hits :: "('k, 'v) ic_hashtable \<Rightarrow> 'k \<Rightarrow> ('k, 'v) ic_hash_entry \<Rightarrow> bool" where
  "hits h k e \<longleftrightarrow> hash h k = eh e \<and> eqfn h k (ek e)"

text \<open>At most one entry answers to a key.\<close>

definition unique_keys :: "('k, 'v) ic_hashtable \<Rightarrow> bool" where
  "unique_keys h \<longleftrightarrow> (\<forall>k. size (filter_mset (hits h k) (mset (concat (table h)))) \<le> 1)"

text \<open>The hash and equality functions fit together.\<close>

definition key_funs_ok :: "('k, 'v) ic_hashtable \<Rightarrow> bool" where
  "key_funs_ok h \<longleftrightarrow> equivp (eqfn h) \<and> (\<forall>a b. eqfn h a b \<longrightarrow> hashfn h a = hashfn h b)"

lemma prime_table_length_eq [simp]: "prime_table_length = 29"
  by (simp add: prime_table_length_def primes_def)

lemma primes_pos: "i < 29 \<Longrightarrow> 0 < unat (primes ! i)"
proof -
  have "list_all (\<lambda>p. 0 < unat p) primes" by (simp add: primes_def)
  moreover assume "i < 29"
  ultimately show ?thesis by (simp add: list_all_length primes_def)
qed

lemma indexFor_less: "0 < unat n \<Longrightarrow> indexFor n hv < unat n"
  by (simp add: indexFor_def unat_mod)

lemma find_entry_filter:
  "find_entry eq hv k es =
     (case filter (\<lambda>e. hv = eh e \<and> eq k (ek e)) es of [] \<Rightarrow> None | e # _ \<Rightarrow> Some (ev e))"
  by (induction es) auto

lemma filter_concat_one:
  assumes "i < length t" and "\<And>j e. j < length t \<Longrightarrow> e \<in> set (t ! j) \<Longrightarrow> P e \<Longrightarrow> j = i"
  shows "filter P (concat t) = filter P (t ! i)"
  using assms
proof (induction t arbitrary: i)
  case Nil
  then show ?case by simp
next
  case (Cons b t)
  show ?case
  proof (cases i)
    case 0
    have "\<not> P e" if "e \<in> set (concat t)" for e
    proof
      assume "P e"
      from that obtain b' where b': "b' \<in> set t" "e \<in> set b'" by auto
      then obtain j where "j < length t" "e \<in> set (t ! j)" by (metis in_set_conv_nth)
      then show False using Cons.prems(2) [of "Suc j" e] \<open>P e\<close> 0 by simp
    qed
    then have "filter P (concat t) = []" by (intro filter_False) auto
    then show ?thesis using 0 by simp
  next
    case (Suc i')
    have "filter P b = []" using Cons.prems(2) [of 0] Suc by (auto simp: filter_empty_conv)
    moreover have "filter P (concat t) = filter P (t ! i')"
      using Cons.prems Suc by (intro Cons.IH) fastforce+
    ultimately show ?thesis using Suc by simp
  qed
qed

lemma ht_index_less: "ht_ok h \<Longrightarrow> indexFor (tablelength h) hv < length (table h)"
  by (auto simp: ht_ok_def intro!: indexFor_less primes_pos)

lemma hits_filter_bucket:
  assumes "ht_ok h"
  shows "filter (hits h k) (table h ! indexFor (tablelength h) (hash h k)) = filter (hits h k) (concat (table h))"
proof (rule filter_concat_one [symmetric])
  show "indexFor (tablelength h) (hash h k) < length (table h)" by (rule ht_index_less [OF assms])
  show "j = indexFor (tablelength h) (hash h k)"
    if "j < length (table h)" "e \<in> set (table h ! j)" "hits h k e" for j e
  proof -
    have "entry_at h j e" using assms that(1,2) by (simp add: ht_ok_def)
    then show ?thesis using that(3) by (simp add: entry_at_def hits_def)
  qed
qed

lemma search_eq:
  assumes "ht_ok h"
  shows "ic_hashtable_search h k =
    Inr (case filter (hits h k) (concat (table h)) of [] \<Rightarrow> None | e # _ \<Rightarrow> Some (ev e))"
  using hits_filter_bucket [OF assms, of k] ht_index_less [OF assms, of "hash h k"]
  by (simp add: ic_hashtable_search_def Let_def find_entry_filter hits_def [abs_def])

text \<open>A search depends only on the multiset of entries when keys are unique.\<close>

lemma case_filter_mset:
  assumes "filter_mset P (mset xs) = filter_mset P (mset ys)" and "size (filter_mset P (mset ys)) \<le> 1"
  shows "(case filter P xs of [] \<Rightarrow> None | e # _ \<Rightarrow> Some (ev e)) =
         (case filter P ys of [] \<Rightarrow> None | e # _ \<Rightarrow> Some (ev e))"
proof -
  have m: "mset (filter P xs) = mset (filter P ys)" using assms(1) by (simp only: mset_filter)
  have l: "length (filter P ys) \<le> 1" using assms(2) by (metis mset_filter size_mset)
  have l': "length (filter P xs) \<le> 1" using m l by (metis size_mset)
  have "filter P xs = filter P ys"
  proof (cases "filter P ys")
    case Nil
    then show ?thesis using m by simp
  next
    case (Cons y ys')
    then have "filter P ys = [y]" using l by simp
    then have "mset (filter P xs) = {#y#}" using m by (metis mset_single_iff)
    then show ?thesis using \<open>filter P ys = [y]\<close> by (metis mset_single_iff)
  qed
  then show ?thesis by simp
qed

section \<open>Expansion\<close>

definition buckets_ok :: "('k, 'v) ic_hashtable \<Rightarrow> guint32 \<Rightarrow> ('k, 'v) ic_hash_entry list list \<Rightarrow> bool" where
  "buckets_ok h n t \<longleftrightarrow> length t = unat n \<and>
     (\<forall>i < length t. \<forall>e \<in> set (t ! i). eh e = hash h (ek e) \<and> indexFor n (hash h (ek e)) = i)"

lemma mset_concat_update:
  "i < length t \<Longrightarrow> mset (concat (t[i := e # t ! i])) = add_mset e (mset (concat t))"
proof (induction t arbitrary: i)
  case (Cons b t)
  then show ?case by (cases i) auto
qed simp

lemma mset_concat_update_gen:
  "i < length t \<Longrightarrow> mset (concat (t[i := c])) + mset (t ! i) = mset (concat t) + mset c"
proof (induction t arbitrary: i)
  case (Cons b t)
  then show ?case by (cases i) (auto simp: ac_simps)
qed simp

lemma fold_move_entry:
  assumes "0 < unat n" and "buckets_ok h n t" and "\<forall>e \<in> set es. eh e = hash h (ek e)"
  shows "buckets_ok h n (fold (move_entry n) es t) \<and>
         mset (concat (fold (move_entry n) es t)) = mset es + mset (concat t)"
  using assms(2,3)
proof (induction es arbitrary: t)
  case (Cons e es)
  have lt: "indexFor n (eh e) < length t"
    using Cons.prems(1) indexFor_less [OF assms(1)] by (simp add: buckets_ok_def)
  have "buckets_ok h n (move_entry n e t)"
    using Cons.prems lt unfolding buckets_ok_def move_entry_def Let_def
    by (auto simp: nth_list_update)
  moreover have "mset (concat (move_entry n e t)) = add_mset e (mset (concat t))"
    using lt by (simp add: move_entry_def Let_def mset_concat_update)
  ultimately show ?case using Cons.IH [of "move_entry n e t"] Cons.prems(2) by simp
qed simp

lemma ht_ok_entries: "ht_ok h \<Longrightarrow> e \<in> set (concat (table h)) \<Longrightarrow> eh e = hash h (ek e)"
  by (fastforce simp: ht_ok_def entry_at_def in_set_conv_nth)

definition same_content :: "('k, 'v) ic_hashtable \<Rightarrow> ('k, 'v) ic_hashtable \<Rightarrow> bool" where
  "same_content h h' \<longleftrightarrow> mset (concat (table h')) = mset (concat (table h)) \<and>
     hashfn h' = hashfn h \<and> eqfn h' = eqfn h"

lemma expand_keeps:
  assumes "ht_ok h" and "ic_hashtable_expand allocs (h\<lparr>entrycount := c\<rparr>) = Inr (b, h', allocs')"
  shows "ht_ok (h'\<lparr>entrycount := entrycount h\<rparr>) \<and> same_content h h' \<and> entrycount h' = c"
proof (cases "primeindex h = 28 \<or> \<not> b")
  case True
  then have "h' = h\<lparr>entrycount := c\<rparr>" using assms(2)
    by (auto simp: ic_hashtable_expand_def Let_def split: if_splits prod.splits)
  then show ?thesis using assms(1) by (simp add: same_content_def)
next
  case False
  let ?n = "primes ! (primeindex h + 1)"
  let ?t = "fold (move_entry ?n) (concat (table h)) (replicate (unat ?n) [])"
  have i: "primeindex h + 1 < 29" using False assms(1) by (simp add: ht_ok_def)
  have h': "h' = h\<lparr>entrycount := c, primeindex := primeindex h + 1, table := ?t,
      tablelength := ?n, loadlimit := load_limit ?n\<rparr>"
    using assms(2) False by (auto simp: ic_hashtable_expand_def Let_def split: if_splits prod.splits)
  have "buckets_ok h ?n (replicate (unat ?n) [])" by (simp add: buckets_ok_def)
  from fold_move_entry [OF primes_pos [OF i] this, of "concat (table h)"]
  have *: "buckets_ok h ?n ?t" "mset (concat ?t) = mset (concat (table h))"
    using ht_ok_entries [OF assms(1)] by auto
  then have "length (concat ?t) = length (concat (table h))" by (metis size_mset)
  then show ?thesis using assms(1) i *
    by (simp add: h' ht_ok_def buckets_ok_def entry_at_def hash_def same_content_def)
qed

lemma expand_no_fault:
  "fst (alloc_next allocs) \<or> \<not> fst (alloc_next (snd (alloc_next allocs))) \<Longrightarrow>
     \<exists>r. ic_hashtable_expand allocs h = Inr r"
  by (auto simp: ic_hashtable_expand_def Let_def split: prod.splits)

section \<open>Insertion and removal\<close>

lemma insert_outcome:
  assumes "ht_ok h" and "ic_hashtable_insert allocs h k v = Inr (rc, h')"
  shows "ht_ok h' \<and> hashfn h' = hashfn h \<and> eqfn h' = eqfn h \<and>
    (rc = 0 \<and> mset (concat (table h')) =
        add_mset \<lparr>ek = k, ev = v, eh = hash h k\<rparr> (mset (concat (table h))) \<or>
     rc = IC_ERROR_MEM_ALLOC \<and> mset (concat (table h')) = mset (concat (table h)))"
proof -
  let ?c = "entrycount h + 1"
  obtain b h2 allocs2 where h2:
    "(if loadlimit h < ?c then ic_hashtable_expand allocs (h\<lparr>entrycount := ?c\<rparr>)
      else Inr (False, h\<lparr>entrycount := ?c\<rparr>, allocs)) = Inr (b, h2, allocs2)"
    using assms(2) by (auto simp: ic_hashtable_insert_def Let_def cfault split: if_splits prod.splits)
  have keep: "ht_ok (h2\<lparr>entrycount := entrycount h\<rparr>) \<and> same_content h h2 \<and> entrycount h2 = ?c"
  proof (cases "loadlimit h < ?c")
    case True
    then show ?thesis using expand_keeps [OF assms(1)] h2 by simp
  next
    case False
    then show ?thesis using h2 assms(1) by (auto simp: same_content_def)
  qed
  let ?i = "indexFor (tablelength h2) (hash h2 k)"
  let ?e = "\<lparr>ek = k, ev = v, eh = hash h2 k\<rparr>"
  have hash2: "hash h2 k = hash h k" using keep by (simp add: same_content_def hash_def)
  have lt: "?i < length (table h2)"
    using ht_index_less [of "h2\<lparr>entrycount := entrycount h\<rparr>"] keep by simp
  have res: "(rc, h') = (if fst (alloc_next allocs2) then (0, h2\<lparr>table := (table h2)[?i := ?e # table h2 ! ?i]\<rparr>)
      else (IC_ERROR_MEM_ALLOC, h2\<lparr>entrycount := entrycount h2 - 1\<rparr>))"
    using assms(2) h2 lt by (simp add: ic_hashtable_insert_def Let_def split: if_splits)
  show ?thesis
  proof (cases "fst (alloc_next allocs2)")
    case True
    then have r: "rc = 0" "h' = h2\<lparr>table := (table h2)[?i := ?e # table h2 ! ?i]\<rparr>" using res by auto
    have m: "mset (concat (table h')) = add_mset ?e (mset (concat (table h)))"
      using keep lt by (simp add: r mset_concat_update same_content_def)
    then have "length (concat (table h')) = Suc (length (concat (table h)))"
      by (metis size_add_mset size_mset)
    moreover have "entrycount h = of_nat (length (concat (table h)))" using assms(1) by (simp add: ht_ok_def)
    ultimately have "entrycount h' = of_nat (length (concat (table h')))" using keep by (simp add: r)
    then have "ht_ok h'" using keep lt
      by (auto simp: r ht_ok_def entry_at_def hash_def nth_list_update)
    then show ?thesis using keep m r(1) hash2 by (simp add: r(2) same_content_def)
  next
    case False
    then have r: "rc = IC_ERROR_MEM_ALLOC" "h' = h2\<lparr>entrycount := entrycount h\<rparr>"
      using res keep by auto
    then show ?thesis using keep by (simp add: same_content_def)
  qed
qed

lemma insert_all_succeed:
  assumes "ht_ok h" shows "\<exists>h'. ic_hashtable_insert [] h k v = Inr (0, h')"
proof -
  obtain r where "ic_hashtable_expand [] (h\<lparr>entrycount := entrycount h + 1\<rparr>) = Inr r"
    using expand_no_fault [of "[]" "h\<lparr>entrycount := entrycount h + 1\<rparr>"] by force
  moreover obtain b h2 as where r: "r = (b, h2, as)" by (cases r)
  moreover have "as = []" using calculation
    by (auto simp: ic_hashtable_expand_def Let_def split: if_splits)
  moreover have "indexFor (tablelength h2) (hash h2 k) < length (table h2)"
    using expand_keeps [OF assms, of "[]" _ b h2 as] calculation
      ht_index_less [of "h2\<lparr>entrycount := entrycount h\<rparr>"] by simp
  moreover have "indexFor (tablelength h) (hash h k) < length (table h)"
    by (rule ht_index_less [OF assms])
  ultimately show ?thesis
    by (auto simp: ic_hashtable_insert_def Let_def hash_def)
qed

lemma unlink_mset:
  "filter (\<lambda>e. hv = eh e \<and> eq k (ek e)) es = e # r \<Longrightarrow> mset es = add_mset e (mset (unlink_entry eq hv k es))"
  by (induction es) (auto split: if_splits)

lemma unlink_subset: "set (unlink_entry eq hv k es) \<subseteq> set es"
  by (induction es) auto

lemma remove_outcome:
  assumes "ht_ok h"
  shows "(ic_hashtable_remove h k = Inr (None, h) \<and> filter (hits h k) (concat (table h)) = []) \<or>
    (\<exists>e r h'. filter (hits h k) (concat (table h)) = e # r \<and> ic_hashtable_remove h k = Inr (Some (ev e), h') \<and>
       ht_ok h' \<and> hashfn h' = hashfn h \<and> eqfn h' = eqfn h \<and>
       mset (concat (table h)) = add_mset e (mset (concat (table h'))))"
proof (cases "filter (hits h k) (concat (table h))")
  case Nil
  then show ?thesis using hits_filter_bucket [OF assms, of k] ht_index_less [OF assms]
    by (simp add: ic_hashtable_remove_def Let_def find_entry_filter hits_def [abs_def])
next
  case (Cons e r)
  let ?i = "indexFor (tablelength h) (hash h k)"
  let ?c = "unlink_entry (eqfn h) (hash h k) k (table h ! ?i)"
  let ?h' = "h\<lparr>table := (table h)[?i := ?c], entrycount := entrycount h - 1\<rparr>"
  have lt: "?i < length (table h)" by (rule ht_index_less [OF assms])
  have f: "filter (\<lambda>e. hash h k = eh e \<and> eqfn h k (ek e)) (table h ! ?i) = e # r"
    using hits_filter_bucket [OF assms, of k] Cons by (simp add: hits_def [abs_def])
  then have rem: "ic_hashtable_remove h k = Inr (Some (ev e), ?h')"
    using lt by (simp add: ic_hashtable_remove_def Let_def find_entry_filter)
  have "mset (concat (table ?h')) + mset (table h ! ?i) = mset (concat (table h)) + mset ?c"
    using mset_concat_update_gen [OF lt] by simp
  then have m: "mset (concat (table h)) = add_mset e (mset (concat (table ?h')))"
    using unlink_mset [of "hash h k" "eqfn h" k, OF f] by simp
  then have "length (concat (table h)) = Suc (length (concat (table ?h')))"
    by (metis size_add_mset size_mset)
  then have "entrycount ?h' = of_nat (length (concat (table ?h')))"
    using assms by (simp add: ht_ok_def)
  then have "ht_ok ?h'" using assms lt unlink_subset [of "eqfn h" "hash h k" k "table h ! ?i"]
    by (auto simp: ht_ok_def entry_at_def hash_def nth_list_update)
  then show ?thesis using Cons rem m by auto
qed

section \<open>The interface of a key-value table\<close>

definition ht_inv :: "('k, 'v) ic_hashtable \<Rightarrow> bool" where
  "ht_inv h \<longleftrightarrow> ht_ok h \<and> unique_keys h \<and> key_funs_ok h"

text \<open>A client: inserting pairs one after the other, giving up at the first error.\<close>

fun insert_pairs :: "('h \<Rightarrow> 'k \<Rightarrow> 'v \<Rightarrow> fault + (err \<times> 'h)) \<Rightarrow> 'h \<Rightarrow> ('k \<times> 'v) list \<Rightarrow> fault + (err \<times> 'h)"
where
  "insert_pairs ins h [] = Inr (0, h)"
| "insert_pairs ins h ((k, v) # kvs) =
     c_bind (ins h k v) (\<lambda>(rc, h'). if rc = 0 then insert_pairs ins h' kvs else Inr (rc, h'))"

text \<open>The pair whose key is equal to \<open>k\<close>, first one first.\<close>

fun lookup_pairs :: "('k \<Rightarrow> 'k \<Rightarrow> bool) \<Rightarrow> ('k \<times> 'v) list \<Rightarrow> 'k \<Rightarrow> 'v option" where
  "lookup_pairs eq [] k = None"
| "lookup_pairs eq ((k', v) # kvs) k = (if eq k k' then Some v else lookup_pairs eq kvs k)"

locale key_table =
  fixes ins :: "'h \<Rightarrow> 'k \<Rightarrow> 'v \<Rightarrow> fault + (err \<times> 'h)"
    and search :: "'h \<Rightarrow> 'k \<Rightarrow> fault + 'v option"
    and remove :: "'h \<Rightarrow> 'k \<Rightarrow> fault + ('v option \<times> 'h)"
    and eq_of :: "'h \<Rightarrow> 'k \<Rightarrow> 'k \<Rightarrow> bool"
    and invar :: "'h \<Rightarrow> bool"
  assumes search_returns: "invar h \<Longrightarrow> \<exists>r. search h k = Inr r"
    and ins_new: "invar h \<Longrightarrow> search h k = Inr None \<Longrightarrow>
      \<exists>h'. ins h k v = Inr (0, h') \<and> invar h' \<and> eq_of h' = eq_of h \<and>
        (\<forall>k'. search h' k' = (if eq_of h k' k then Inr (Some v) else search h k'))"
    and remove_gone: "invar h \<Longrightarrow>
      \<exists>r h'. remove h k = Inr (r, h') \<and> search h k = Inr r \<and> invar h' \<and> eq_of h' = eq_of h \<and>
        (\<forall>k'. search h' k' = (if eq_of h k' k then Inr None else search h k'))"
begin

lemma insert_pairs_lookup:
  assumes "invar h" and "\<forall>(k, v) \<in> set kvs. search h k = Inr None"
    and "sorted_wrt (\<lambda>(k, _) (k', _). \<not> eq_of h k' k) kvs"
  shows "\<exists>h'. insert_pairs ins h kvs = Inr (0, h') \<and> invar h' \<and> eq_of h' = eq_of h \<and>
    (\<forall>k. search h' k = (case lookup_pairs (eq_of h) (rev kvs) k of Some v \<Rightarrow> Inr (Some v) | None \<Rightarrow> search h k))"
  using assms
proof (induction kvs arbitrary: h)
  case Nil
  then show ?case by simp
next
  case (Cons kv kvs)
  obtain k v where kv: "kv = (k, v)" by (cases kv)
  obtain h1 where h1: "ins h k v = Inr (0, h1)" "invar h1" "eq_of h1 = eq_of h"
    "\<And>k'. search h1 k' = (if eq_of h k' k then Inr (Some v) else search h k')"
    using ins_new [of h k v] Cons.prems kv by auto
  have "\<exists>h'. insert_pairs ins h1 kvs = Inr (0, h') \<and> invar h' \<and> eq_of h' = eq_of h1 \<and>
    (\<forall>k. search h' k = (case lookup_pairs (eq_of h1) (rev kvs) k of Some v \<Rightarrow> Inr (Some v) | None \<Rightarrow> search h1 k))"
    using Cons.prems h1 kv by (intro Cons.IH) auto
  then obtain h' where h': "insert_pairs ins h1 kvs = Inr (0, h')" "invar h'" "eq_of h' = eq_of h"
    "\<And>k. search h' k = (case lookup_pairs (eq_of h) (rev kvs) k of Some v \<Rightarrow> Inr (Some v) | None \<Rightarrow> search h1 k)"
    using h1(3) by auto
  have app: "lookup_pairs eq (xs @ [(k, v)]) k' =
      (case lookup_pairs eq xs k' of Some w \<Rightarrow> Some w | None \<Rightarrow> if eq k' k then Some v else None)" for eq xs k'
    by (induction xs) auto
  show ?case using h1 h' kv by (auto simp: app split: option.splits)
qed

end

lemma key_funs_eq:
  assumes "key_funs_ok h"
  shows "eqfn h k k" and "eqfn h a b \<Longrightarrow> eqfn h b a" and "eqfn h a b \<Longrightarrow> eqfn h b c \<Longrightarrow> eqfn h a c"
    and "eqfn h a b \<Longrightarrow> hash h a = hash h b"
  using assms unfolding key_funs_ok_def hash_def
  by (auto dest: equivp_reflp equivp_symp equivp_transp)

lemma hits_eq_keys:
  assumes "key_funs_ok h" and "eqfn h k' k"
  shows "hits h k' = hits h k"
proof -
  have "eqfn h k' x = eqfn h k x" for x
    using key_funs_eq(2,3) [OF assms(1)] assms(2) by metis
  then show ?thesis using key_funs_eq(4) [OF assms] by (simp add: hits_def fun_eq_iff)
qed

lemma hits_cong: "hashfn h' = hashfn h \<Longrightarrow> eqfn h' = eqfn h \<Longrightarrow> hits h' = hits h"
  by (simp add: hits_def fun_eq_iff hash_def)

lemma filter_Nil_mset: "filter P xs = [] \<longleftrightarrow> filter_mset P (mset xs) = {#}"
  by (metis mset_filter mset_zero_iff)

lemma insert_new:
  assumes "ht_inv h" and "ic_hashtable_search h k = Inr None" and "ic_hashtable_insert allocs h k v = Inr (0, h')"
  shows "ht_inv h' \<and> eqfn h' = eqfn h \<and>
    (\<forall>k'. ic_hashtable_search h' k' = (if eqfn h k' k then Inr (Some v) else ic_hashtable_search h k'))"
proof -
  let ?e = "\<lparr>ek = k, ev = v, eh = hash h k\<rparr>"
  have ok: "ht_ok h" and uk: "unique_keys h" and kf: "key_funs_ok h" using assms(1) by (auto simp: ht_inv_def)
  have out: "ht_ok h'" "hashfn h' = hashfn h" "eqfn h' = eqfn h"
    "mset (concat (table h')) = add_mset ?e (mset (concat (table h)))"
    using insert_outcome [OF ok assms(3)] by (auto simp: err_codes)
  note hc = hits_cong [OF out(2,3)]
  have none: "filter (hits h k) (concat (table h)) = []"
    using assms(2) by (simp add: search_eq [OF ok] split: list.splits)
  have hit: "hits h k' ?e \<longleftrightarrow> eqfn h k' k" for k'
    using key_funs_eq(4) [OF kf, of k' k] by (auto simp: hits_def)
  have m: "filter_mset (hits h k') (mset (concat (table h'))) =
      (if eqfn h k' k then {#?e#} else filter_mset (hits h k') (mset (concat (table h))))" for k'
    using hits_eq_keys [OF kf, of k' k] none by (auto simp: out(4) hit filter_Nil_mset)
  have uk': "unique_keys h'" using uk m by (auto simp: unique_keys_def hc)
  moreover have "key_funs_ok h'" using kf out by (simp add: key_funs_ok_def)
  moreover have "ic_hashtable_search h' k' = (if eqfn h k' k then Inr (Some v) else ic_hashtable_search h k')" for k'
  proof (cases "eqfn h k' k")
    case True
    then have "mset (filter (hits h k') (concat (table h'))) = {#?e#}" using m [of k'] by simp
    then have "filter (hits h k') (concat (table h')) = [?e]" by (simp only: mset_single_iff)
    then show ?thesis using True by (simp add: search_eq [OF out(1)] hc)
  next
    case False
    then have "filter_mset (hits h k') (mset (concat (table h'))) = filter_mset (hits h k') (mset (concat (table h)))"
      using m [of k'] by simp
    moreover have "size (filter_mset (hits h k') (mset (concat (table h)))) \<le> 1"
      using uk by (simp add: unique_keys_def)
    ultimately show ?thesis using False case_filter_mset
      by (simp add: search_eq [OF out(1)] search_eq [OF ok] hc)
  qed
  ultimately show ?thesis using out by (simp add: ht_inv_def)
qed

lemma remove_spec:
  assumes "ht_inv h"
  shows "\<exists>r h'. ic_hashtable_remove h k = Inr (r, h') \<and> ic_hashtable_search h k = Inr r \<and> ht_inv h' \<and>
    eqfn h' = eqfn h \<and>
    (\<forall>k'. ic_hashtable_search h' k' = (if eqfn h k' k then Inr None else ic_hashtable_search h k'))"
proof -
  have ok: "ht_ok h" and uk: "unique_keys h" and kf: "key_funs_ok h" using assms by (auto simp: ht_inv_def)
  from remove_outcome [OF ok, of k] show ?thesis
  proof (elim disjE exE conjE)
    assume r: "ic_hashtable_remove h k = Inr (None, h)" and n: "filter (hits h k) (concat (table h)) = []"
    have "ic_hashtable_search h k' = Inr None" if "eqfn h k' k" for k'
      using n hits_eq_keys [OF kf that] by (simp add: search_eq [OF ok])
    then show ?thesis using r assms key_funs_eq(1) [OF kf] by auto
  next
    fix e r h' assume f: "filter (hits h k) (concat (table h)) = e # r"
      and rem: "ic_hashtable_remove h k = Inr (Some (ev e), h')" and ok': "ht_ok h'"
      and hf: "hashfn h' = hashfn h" and ef: "eqfn h' = eqfn h"
      and m: "mset (concat (table h)) = add_mset e (mset (concat (table h')))"
    note hc = hits_cong [OF hf ef]
    have he: "hits h k e" using f by (metis filter_eq_ConsD)
    have hit: "hits h k' e \<longleftrightarrow> eqfn h k' k" for k'
    proof
      assume "hits h k' e"
      then show "eqfn h k' k" using he key_funs_eq(2,3) [OF kf] unfolding hits_def by metis
    next
      assume "eqfn h k' k"
      then show "hits h k' e" using he hits_eq_keys [OF kf] by simp
    qed
    have le: "size (filter_mset (hits h k') (mset (concat (table h)))) \<le> 1" for k'
      using uk by (simp add: unique_keys_def)
    have gone: "filter (hits h k') (concat (table h')) = []" if "eqfn h k' k" for k'
      using le [of k'] that by (simp add: m hit filter_Nil_mset)
    have same: "ic_hashtable_search h' k' = ic_hashtable_search h k'" if "\<not> eqfn h k' k" for k'
    proof -
      have "filter_mset (hits h k') (mset (concat (table h'))) = filter_mset (hits h k') (mset (concat (table h)))"
        using that by (simp add: m hit)
      from case_filter_mset [OF this le] show ?thesis
        by (simp add: search_eq [OF ok'] search_eq [OF ok] hc)
    qed
    have "unique_keys h'" unfolding unique_keys_def hc
    proof
      fix k'
      have "size (filter_mset (hits h k') (mset (concat (table h')))) \<le>
          size (filter_mset (hits h k') (mset (concat (table h))))"
        by (intro size_mset_mono multiset_filter_mono) (simp add: m)
      then show "size (filter_mset (hits h k') (mset (concat (table h')))) \<le> 1"
        using le [of k'] by (rule order_trans)
    qed
    moreover have "key_funs_ok h'" using kf hf ef by (simp add: key_funs_ok_def)
    ultimately have "ht_inv h'" using ok' by (simp add: ht_inv_def)
    moreover have "ic_hashtable_search h k = Inr (Some (ev e))" by (simp add: search_eq [OF ok] f)
    moreover have "ic_hashtable_search h' k' = Inr None" if "eqfn h k' k" for k'
      using gone [OF that] by (simp add: search_eq [OF ok'] hc)
    ultimately show ?thesis using rem ef same by auto
  qed
qed

interpretation ht: key_table "ic_hashtable_insert []" ic_hashtable_search ic_hashtable_remove eqfn ht_inv
proof
  fix h k v assume h: "ht_inv h"
  show "\<exists>r. ic_hashtable_search h k = Inr r" using h by (simp add: ht_inv_def search_eq)
  show "\<exists>r h'. ic_hashtable_remove h k = Inr (r, h') \<and> ic_hashtable_search h k = Inr r \<and> ht_inv h' \<and>
      eqfn h' = eqfn h \<and>
      (\<forall>k'. ic_hashtable_search h' k' = (if eqfn h k' k then Inr None else ic_hashtable_search h k'))"
    by (rule remove_spec [OF h])
  assume n: "ic_hashtable_search h k = Inr None"
  obtain h' where "ic_hashtable_insert [] h k v = Inr (0, h')"
    using insert_all_succeed [of h k v] h by (auto simp: ht_inv_def)
  with insert_new [OF h n this]
  show "\<exists>h'. ic_hashtable_insert [] h k v = Inr (0, h') \<and> ht_inv h' \<and> eqfn h' = eqfn h \<and>
      (\<forall>k'. ic_hashtable_search h' k' = (if eqfn h k' k then Inr (Some v) else ic_hashtable_search h k'))"
    by blast
qed

lemma find_prime_bounds:
  "minsize < last primes \<Longrightarrow> find_prime (drop i primes) i minsize = (pindex, sz) \<Longrightarrow> i < 29 \<Longrightarrow>
     pindex < 29 \<and> sz = primes ! pindex \<and> minsize < sz"
proof (induction "29 - i" arbitrary: i)
  case (Suc n)
  have len: "length primes = 29" by (simp add: primes_def)
  have d: "drop i primes = primes ! i # drop (Suc i) primes"
    using Suc.prems(3) len by (simp add: Cons_nth_drop_Suc)
  show ?case
  proof (cases "minsize < primes ! i")
    case True
    then show ?thesis using Suc.prems by (auto simp: d)
  next
    case False
    have "i \<noteq> 28" using False Suc.prems(1) len by (metis last_conv_nth length_0_conv
        diff_Suc_1 eval_nat_numeral(2) numeral_eq_Suc pred_numeral_simps(3) zero_neq_numeral nat_neq_iff zero_less_numeral)
    then have "Suc i < 29" using Suc.prems(3) by simp
    moreover have "find_prime (drop (Suc i) primes) (Suc i) minsize = (pindex, sz)"
      using Suc.prems(2) False by (simp add: d)
    ultimately show ?thesis using Suc by (intro Suc.hyps(1) [of "Suc i"]) auto
  qed
qed simp

lemma create_inv:
  assumes "ic_create_hashtable allocs minsize hashf eqf = Some h" and "equivp eqf"
    and "\<And>a b. eqf a b \<Longrightarrow> hashf a = hashf b"
  shows "ht_inv h \<and> eqfn h = eqf \<and> (\<forall>k. ic_hashtable_search h k = Inr None) \<and>
     ic_hashtable_count h = 0 \<and> minsize < tablelength h"
proof -
  obtain pindex sz where fp: "find_prime (drop 0 primes) 0 minsize = (pindex, sz)"
    by (cases "find_prime (drop 0 primes) 0 minsize")
  have "\<not> push_bit 30 1 < minsize" using assms(1) by (auto simp: ic_create_hashtable_def split: if_splits)
  moreover have "(push_bit 30 1 :: guint32) < last primes" by (simp add: primes_def)
  ultimately have "minsize < last primes" by (metis not_less order.strict_trans1)
  then have p: "pindex < 29" "sz = primes ! pindex" "minsize < sz"
    using find_prime_bounds [OF _ fp] by auto
  have h: "h = \<lparr>tablelength = sz, entrycount = 0, loadlimit = load_limit sz, primeindex = pindex,
      table = replicate (unat sz) [], hashfn = hashf, eqfn = eqf\<rparr>"
    using assms(1) fp by (auto simp: ic_create_hashtable_def Let_def split: if_splits prod.splits)
  have ok: "ht_ok h" using p by (simp add: h ht_ok_def)
  moreover have "unique_keys h" "key_funs_ok h"
    using assms(2,3) by (auto simp: h unique_keys_def key_funs_ok_def)
  ultimately show ?thesis using p by (simp add: ht_inv_def search_eq ic_hashtable_count_def) (simp add: h)
qed

lemma uint32_create_inv:
  "ic_create_hashtable allocs minsize ic_hash_uint32 ic_keys_equal_uint32 = Some h \<Longrightarrow>
   ht_inv h \<and> (\<forall>k. ic_hashtable_search h k = Inr None)"
  using create_inv [of allocs minsize ic_hash_uint32 ic_keys_equal_uint32 h]
  by (metis (full_types) equivpI ic_keys_equal_uint32_def reflpI sympI transpI)

section \<open>Properties\<close>

text \<open>
  C4. The table is a finite map: after inserting any number of pairs with pairwise different keys
  into a fresh table (through as many expansions as that takes), every insertion has succeeded, and
  a search for a key returns the value inserted under an equal key and nothing for other keys.
\<close>

theorem hashtable_is_map:
  assumes "ic_create_hashtable [] minsize hashf eqf = Some h" and "equivp eqf"
    and "\<And>a b. eqf a b \<Longrightarrow> hashf a = hashf b"
    and "sorted_wrt (\<lambda>(k, _) (k', _). \<not> eqf k' k) kvs"
  shows "\<exists>h'. insert_pairs (ic_hashtable_insert []) h kvs = Inr (0, h') \<and>
    (\<forall>k. ic_hashtable_search h' k = Inr (lookup_pairs eqf (rev kvs) k))"
proof -
  from create_inv [OF assms(1-3)]
  have h: "ht_inv h" "eqfn h = eqf" "\<forall>k. ic_hashtable_search h k = Inr None" by auto
  have "\<exists>h'. insert_pairs (ic_hashtable_insert []) h kvs = Inr (0, h') \<and> ht_inv h' \<and> eqfn h' = eqfn h \<and>
    (\<forall>k. ic_hashtable_search h' k =
      (case lookup_pairs (eqfn h) (rev kvs) k of Some v \<Rightarrow> Inr (Some v) | None \<Rightarrow> ic_hashtable_search h k))"
    using h assms(4) by (intro ht.insert_pairs_lookup) auto
  then obtain h' where h': "insert_pairs (ic_hashtable_insert []) h kvs = Inr (0, h')"
    "\<And>k. ic_hashtable_search h' k =
      (case lookup_pairs eqf (rev kvs) k of Some v \<Rightarrow> Inr (Some v) | None \<Rightarrow> Inr None)"
    unfolding h(2) h(3) [rule_format] by blast
  have "ic_hashtable_search h' k = Inr (lookup_pairs eqf (rev kvs) k)" for k
    by (cases "lookup_pairs eqf (rev kvs) k") (simp_all add: h'(2))
  with h'(1) show ?thesis by blast
qed

theorem hashtable_is_map_witness:
  "\<exists>h'. insert_pairs (ic_hashtable_insert [])
      \<lparr>tablelength = 5, entrycount = 0, loadlimit = load_limit 5, primeindex = 0,
       table = replicate (unat (5 :: guint32)) [], hashfn = ic_hash_uint32, eqfn = ic_keys_equal_uint32\<rparr>
      [(1, ''a''), (2, ''b''), (3, ''c''), (4, ''d''), (5, ''e'')] = Inr (0, h') \<and>
    (\<forall>k. ic_hashtable_search h' k =
       Inr (lookup_pairs ic_keys_equal_uint32
             (rev [(1, ''a''), (2, ''b''), (3, ''c''), (4, ''d''), (5, ''e'')]) k))"
  by (rule hashtable_is_map [of 0 ic_hash_uint32 ic_keys_equal_uint32])
    (auto simp: ic_create_hashtable_def primes_def ic_keys_equal_uint32_def intro!: equivpI reflpI sympI transpI)

text \<open>
  C19. Removing a key: the call returns the value a search for the key would have returned (or
  nothing), afterwards neither the key nor an equal one is found, every other key is found as
  before, and the invariant of the table is kept.
\<close>

theorem hashtable_remove_spec:
  assumes "ht_inv h"
  shows "\<exists>r h'. ic_hashtable_remove h k = Inr (r, h') \<and> ic_hashtable_search h k = Inr r \<and> ht_inv h' \<and>
    (\<forall>k'. ic_hashtable_search h' k' = (if eqfn h k' k then Inr None else ic_hashtable_search h k'))"
  using ht.remove_gone [OF assms, of k] by auto

theorem hashtable_remove_spec_witness:
  "\<exists>r h'. ic_hashtable_remove \<lparr>tablelength = 5, entrycount = 0, loadlimit = load_limit 5, primeindex = 0,
       table = replicate (unat (5 :: guint32)) ([] :: (guint32, nat) ic_hash_entry list),
       hashfn = ic_hash_uint32, eqfn = ic_keys_equal_uint32\<rparr> 7 = Inr (r, h') \<and>
     ic_hashtable_search \<lparr>tablelength = 5, entrycount = 0, loadlimit = load_limit 5, primeindex = 0,
       table = replicate (unat (5 :: guint32)) ([] :: (guint32, nat) ic_hash_entry list),
       hashfn = ic_hash_uint32, eqfn = ic_keys_equal_uint32\<rparr> 7 = Inr r"
proof -
  let ?h = "\<lparr>tablelength = 5, entrycount = 0, loadlimit = load_limit 5, primeindex = 0,
       table = replicate (unat (5 :: guint32)) ([] :: (guint32, nat) ic_hash_entry list),
       hashfn = ic_hash_uint32, eqfn = ic_keys_equal_uint32\<rparr>"
  have "ic_create_hashtable [] 0 ic_hash_uint32 ic_keys_equal_uint32 = Some ?h"
    by (simp add: ic_create_hashtable_def primes_def)
  then have "ht_inv ?h"
    using uint32_create_inv by blast
  from hashtable_remove_spec [OF this, of 7] show ?thesis by blast
qed

text \<open>
  Insertion under memory pressure. Whatever the allocations do, an insertion of a new key ends
  in one of three ways: it succeeds and the table maps the key to the value and every other key as
  before; it returns \<open>IC_ERROR_MEM_ALLOC\<close> and the table has the entries it had; or the new table
  could not be allocated but \<^verbatim>\<open>realloc\<close> succeeded, and the table is zeroed through an indeterminate
  pointer.
\<close>

theorem hashtable_insert_outcomes:
  assumes "ht_inv h" and "ic_hashtable_search h k = Inr None"
  shows "(\<exists>h'. ic_hashtable_insert allocs h k v = Inr (0, h') \<and> ht_inv h' \<and>
            (\<forall>k'. ic_hashtable_search h' k' = (if eqfn h k' k then Inr (Some v) else ic_hashtable_search h k'))) \<or>
         (\<exists>h'. ic_hashtable_insert allocs h k v = Inr (IC_ERROR_MEM_ALLOC, h') \<and> ht_ok h' \<and>
            mset (concat (table h')) = mset (concat (table h))) \<or>
         (\<not> fst (alloc_next allocs) \<and> fst (alloc_next (snd (alloc_next allocs))) \<and>
            ic_hashtable_insert allocs h k v = Inl UninitRead)"
proof (cases "ic_hashtable_insert allocs h k v")
  case (Inr r)
  obtain rc h' where r: "r = (rc, h')" by (cases r)
  have ok: "ht_ok h" using assms(1) by (simp add: ht_inv_def)
  from insert_outcome [OF ok] Inr r consider
    "rc = 0" | "rc = IC_ERROR_MEM_ALLOC \<and> ht_ok h' \<and> mset (concat (table h')) = mset (concat (table h))" by blast
  then show ?thesis
  proof cases
    case 1
    then show ?thesis using insert_new [OF assms, of allocs v h'] Inr r by blast
  qed (use Inr r in blast)
next
  case (Inl f)
  let ?h1 = "h\<lparr>entrycount := entrycount h + 1\<rparr>"
  have ok: "ht_ok h" using assms(1) by (simp add: ht_inv_def)
  have lt: "indexFor (tablelength h) (hash h k) < length (table h)" by (rule ht_index_less [OF ok])
  have "\<exists>f. ic_hashtable_expand allocs ?h1 = Inl f \<and> ic_hashtable_insert allocs h k v = Inl f"
  proof (cases "ic_hashtable_expand allocs ?h1")
    case (Inl g)
    then show ?thesis using \<open>ic_hashtable_insert allocs h k v = Inl f\<close> lt
      by (auto simp: ic_hashtable_insert_def Let_def hash_def split: if_splits)
  next
    case (Inr r)
    obtain b h2 as where r: "r = (b, h2, as)" by (cases r)
    have "indexFor (tablelength h2) (hash h2 k) < length (table h2)"
      using expand_keeps [OF ok] Inr r ht_index_less [of "h2\<lparr>entrycount := entrycount h\<rparr>"] by simp
    then show ?thesis using \<open>ic_hashtable_insert allocs h k v = Inl f\<close> lt Inr r
      by (auto simp: ic_hashtable_insert_def Let_def hash_def split: if_splits)
  qed
  then show ?thesis
    by (auto simp: ic_hashtable_expand_def Let_def split: if_splits prod.splits)
qed

theorem hashtable_insert_outcomes_witness:
  "let h = \<lparr>tablelength = 5, entrycount = 0, loadlimit = load_limit 5, primeindex = 0,
       table = replicate (unat (5 :: guint32)) ([] :: (guint32, nat) ic_hash_entry list),
       hashfn = ic_hash_uint32, eqfn = ic_keys_equal_uint32\<rparr>
   in ic_hashtable_insert [True] h 7 1 \<noteq> Inl UninitRead"
proof -
  let ?h = "\<lparr>tablelength = 5, entrycount = 0, loadlimit = load_limit 5, primeindex = 0,
       table = replicate (unat (5 :: guint32)) ([] :: (guint32, nat) ic_hash_entry list),
       hashfn = ic_hash_uint32, eqfn = ic_keys_equal_uint32\<rparr>"
  have "ic_create_hashtable [] 0 ic_hash_uint32 ic_keys_equal_uint32 = Some ?h"
    by (simp add: ic_create_hashtable_def primes_def)
  then have "ht_inv ?h" "ic_hashtable_search ?h 7 = Inr None"
    using uint32_create_inv by blast+
  from hashtable_insert_outcomes [OF this, of "[True]" 1] show ?thesis by auto
qed


section \<open>Enumeration by the iterator\<close>

text \<open>
  The loop of the clients (\<^verbatim>\<open>while (ic_hashtable_iterator_advance(&itr))\<close>), which collects the
  entries the iterator stops at. The fuel bounds the number of calls.
\<close>

definition ic_hashtable_iterator_entry ::
  "('k, 'v) ic_hashtable \<Rightarrow> ic_hashtable_itr \<Rightarrow> fault + ('k, 'v) ic_hash_entry"
where
  "ic_hashtable_iterator_entry h itr =
     (case itr_e itr of None \<Rightarrow> Inl NullDeref
      | Some (i, p) \<Rightarrow> c_bind (rd (table h) i) (\<lambda>chain. rd chain p))"

fun enumerate_table ::
  "nat \<Rightarrow> ('k, 'v) ic_hashtable \<Rightarrow> ic_hashtable_itr \<Rightarrow> fault + ('k, 'v) ic_hash_entry list"
where
  "enumerate_table 0 h itr = Inl Aborted"
| "enumerate_table (Suc n) h itr =
     c_bind (ic_hashtable_iterator_advance h itr) (\<lambda>(more, itr').
       if more
       then c_bind (ic_hashtable_iterator_entry h itr') (\<lambda>e.
              c_bind (enumerate_table n h itr') (\<lambda>es. Inr (e # es)))
       else Inr [])"

definition rest_of :: "'a list list \<Rightarrow> nat \<Rightarrow> nat \<Rightarrow> 'a list" where
  "rest_of t i p = drop (Suc p) (t ! i) @ concat (drop (Suc i) t)"

lemma first_bucket_spec:
  "i + n = length t \<Longrightarrow>
   (first_bucket t i n = Inr None \<and> concat (drop i t) = []) \<or>
   (\<exists>k. first_bucket t i n = Inr (Some k) \<and> k < length t \<and> t ! k \<noteq> [] \<and> concat (drop i t) = concat (drop k t))"
proof (induction n arbitrary: i)
  case (Suc n)
  then have "drop i t = t ! i # drop (Suc i) t" by (simp add: Cons_nth_drop_Suc)
  with Suc show ?case by (cases "t ! i = []") (auto simp: rd_def)
qed simp

lemma next_bucket_spec:
  "j < length t \<Longrightarrow> length t \<le> j + n \<Longrightarrow>
   (next_bucket t (length t) n j = Inr None \<and> concat (drop j t) = []) \<or>
   (\<exists>k. next_bucket t (length t) n j = Inr (Some k) \<and> k < length t \<and> t ! k \<noteq> [] \<and>
        concat (drop j t) = concat (drop k t))"
proof (induction n arbitrary: j)
  case (Suc n)
  then have "drop j t = t ! j # drop (Suc j) t" by (simp add: Cons_nth_drop_Suc)
  with Suc show ?case by (cases "t ! j = []") (auto simp: rd_def)
qed simp

lemma next_bucket_past_end: "next_bucket t (length t) n (length t) = Inl OutOfBounds"
  by (cases n) (simp_all add: rd_def)

lemma concat_drop_head: "k < length t \<Longrightarrow> t ! k \<noteq> [] \<Longrightarrow> concat (drop k t) = t ! k ! 0 # rest_of t k 0"
  by (cases "t ! k") (simp_all add: rest_of_def Cons_nth_drop_Suc [symmetric])

lemma last_nonempty_rest:
  assumes "Suc i < length t" and "rest_of t i p = []"
  shows "last t = []"
proof -
  have "last t \<in> set (drop (Suc i) t)"
    using assms(1) by (metis drop_eq_Nil last_drop last_in_set not_le)
  then show ?thesis using assms(2) by (auto simp: rest_of_def)
qed

lemma concat_replicate_update: "i < n \<Longrightarrow> concat ((replicate n [])[i := xs]) = xs"
  by (induction n arbitrary: i) (auto split: nat.splits)

lemma advance_from:
  assumes "length (table h) = unat (tablelength h)" and "i < length (table h)" and "p < length (table h ! i)"
  shows "if rest_of (table h) i p = []
         then ic_hashtable_iterator_advance h \<lparr>itr_e = Some (i, p), itr_index = i\<rparr> =
              (if last (table h) = [] then Inr (False, \<lparr>itr_e = None, itr_index = length (table h)\<rparr>)
               else Inl OutOfBounds)
         else \<exists>i' p'. ic_hashtable_iterator_advance h \<lparr>itr_e = Some (i, p), itr_index = i\<rparr> =
                Inr (True, \<lparr>itr_e = Some (i', p'), itr_index = i'\<rparr>) \<and>
              i' < length (table h) \<and> p' < length (table h ! i') \<and>
              rest_of (table h) i p = table h ! i' ! p' # rest_of (table h) i' p'"
proof -
  let ?t = "table h"
  consider (chain) "Suc p < length (?t ! i)" | (bucket) "Suc p = length (?t ! i)" "Suc i < length ?t"
    | (past) "Suc p = length (?t ! i)" "Suc i = length ?t" using assms by linarith
  then show ?thesis
  proof cases
    case chain
    then have "rest_of ?t i p = ?t ! i ! Suc p # rest_of ?t i (Suc p)"
      by (simp add: rest_of_def Cons_nth_drop_Suc [symmetric])
    with chain assms show ?thesis by (auto simp: ic_hashtable_iterator_advance_def rd_def)
  next
    case bucket
    then have r: "rest_of ?t i p = concat (drop (Suc i) ?t)" by (simp add: rest_of_def)
    have l: "rest_of ?t i p = [] \<Longrightarrow> last ?t = []" using last_nonempty_rest bucket by blast
    from next_bucket_spec [of "Suc i" ?t "length ?t + 1"] bucket consider
      "next_bucket ?t (length ?t) (length ?t + 1) (Suc i) = Inr None" "rest_of ?t i p = []"
    | k where "next_bucket ?t (length ?t) (length ?t + 1) (Suc i) = Inr (Some k)" "k < length ?t" "?t ! k \<noteq> []"
        "rest_of ?t i p = concat (drop k ?t)" using r by auto
    then show ?thesis
    proof cases
      case 1
      with l bucket assms show ?thesis
        by (simp add: ic_hashtable_iterator_advance_def rd_def del: next_bucket.simps)
    next
      case 2
      with concat_drop_head [of k ?t] bucket assms show ?thesis
        by (simp add: ic_hashtable_iterator_advance_def rd_def del: next_bucket.simps)
    qed
  next
    case past
    then have "last ?t = ?t ! i" by (metis diff_Suc_1 last_conv_nth length_0_conv nat.distinct(1))
    then have "rest_of ?t i p = []" "last ?t \<noteq> []" using assms past by (auto simp: rest_of_def)
    with past assms next_bucket_past_end [of ?t] show ?thesis
      by (simp add: ic_hashtable_iterator_advance_def rd_def del: next_bucket.simps)
  qed
qed

lemma enumerate_from:
  assumes "length (table h) = unat (tablelength h)"
  shows "i < length (table h) \<Longrightarrow> p < length (table h ! i) \<Longrightarrow> length (rest_of (table h) i p) < n \<Longrightarrow>
    enumerate_table n h \<lparr>itr_e = Some (i, p), itr_index = i\<rparr> =
     (if last (table h) = [] then Inr (rest_of (table h) i p) else Inl OutOfBounds)"
proof (induction n arbitrary: i p)
  case (Suc n)
  show ?case
  proof (cases "rest_of (table h) i p = []")
    case True
    with advance_from [OF assms Suc.prems(1,2)] show ?thesis by simp
  next
    case False
    with advance_from [OF assms Suc.prems(1,2)] obtain i' p' where
      "ic_hashtable_iterator_advance h \<lparr>itr_e = Some (i, p), itr_index = i\<rparr> =
         Inr (True, \<lparr>itr_e = Some (i', p'), itr_index = i'\<rparr>)"
      "i' < length (table h)" "p' < length (table h ! i')"
      "rest_of (table h) i p = table h ! i' ! p' # rest_of (table h) i' p'" by auto
    with Suc show ?thesis by (simp add: ic_hashtable_iterator_entry_def rd_def)
  qed
qed simp

text \<open>
  Iterating over a table from the start visits every entry exactly once, bucket by bucket, and
  then ends, provided the last bucket is empty; with an entry in the last bucket the call that
  should report the end reads the slot after the table (the test \<^verbatim>\<open>j > tablelength\<close> lets
  \<^verbatim>\<open>j == tablelength\<close> through).
\<close>

theorem hashtable_iterator_enumerates:
  assumes "ht_ok h" and "concat (table h) \<noteq> []"
  shows "enumerate_table (Suc (length (concat (table h)))) h (ic_hashtable_iterator itr True) =
     (if last (table h) = [] then Inr (concat (table h)) else Inl OutOfBounds)"
proof -
  have len: "length (table h) = unat (tablelength h)" using assms(1) by (simp add: ht_ok_def)
  from first_bucket_spec [of 0 "length (table h)" "table h"] assms(2) obtain k where
    k: "first_bucket (table h) 0 (length (table h)) = Inr (Some k)" "k < length (table h)" "table h ! k \<noteq> []"
      "concat (table h) = concat (drop k (table h))" by auto
  have c: "concat (table h) = table h ! k ! 0 # rest_of (table h) k 0"
    using concat_drop_head k(2-4) by simp
  then have "enumerate_table (length (concat (table h))) h \<lparr>itr_e = Some (k, 0), itr_index = k\<rparr> =
     (if last (table h) = [] then Inr (rest_of (table h) k 0) else Inl OutOfBounds)"
    using enumerate_from [OF len k(2)] k(3) by (simp del: enumerate_table.simps)
  then show ?thesis using k len c
    by (simp add: ic_hashtable_iterator_advance_def ic_hashtable_iterator_def ic_hashtable_iterator_entry_def rd_def)
qed

theorem hashtable_iterator_enumerates_witness:
  "\<exists>h :: (guint32, nat) ic_hashtable. ht_ok h \<and>
     enumerate_table 2 h (ic_hashtable_iterator \<lparr>itr_e = None, itr_index = 0\<rparr> True) =
       (if last (table h) = [] then Inr (concat (table h)) else Inl OutOfBounds) \<and> concat (table h) \<noteq> []"
proof -
  let ?f = "\<lparr>tablelength = 5, entrycount = 0, loadlimit = load_limit 5, primeindex = 0,
       table = replicate (unat (5 :: guint32)) ([] :: (guint32, nat) ic_hash_entry list),
       hashfn = ic_hash_uint32, eqfn = ic_keys_equal_uint32\<rparr>"
  let ?i = "indexFor 5 (hash ?f 7)"
  let ?h = "?f\<lparr>entrycount := 1, table := (table ?f)[?i := [\<lparr>ek = 7, ev = 1, eh = hash ?f 7\<rparr>]]\<rparr>"
  have i: "?i < 5" by (simp add: indexFor_def unat_mod)
  have c: "concat (table ?h) = [\<lparr>ek = 7, ev = 1, eh = hash ?f 7\<rparr>]"
    using i by (simp add: concat_replicate_update)
  have "\<forall>j < 5. \<forall>e \<in> set (table ?h ! j). entry_at ?h j e"
    using i by (auto simp: nth_list_update entry_at_def hash_def)
  then have ok: "ht_ok ?h" using c by (simp add: ht_ok_def primes_def)
  have "concat (table ?h) \<noteq> []" "Suc (length (concat (table ?h))) = 2" unfolding c by simp_all
  with hashtable_iterator_enumerates [OF ok, of "\<lparr>itr_e = None, itr_index = 0\<rparr>"] ok
  show ?thesis by metis
qed

end
