(* ===== verification/IC_Mc.thy ===== *)
theory IC_Mc
  imports Prelude "HOL-Library.Multiset"
begin

text \<open>
  \<^verbatim>\<open>src/util/ic_mc.c\<close>: the memory container, an arena allocator that hands out pieces of
  larger buffers and releases all of them at once.

  The buffers live in a heap of blocks (\<open>mem\<close>); a pointer is a block and an offset. The
  struct \<^verbatim>\<open>IC_INT_MEMORY_CONTAINER\<close> is a record; its array of buffer pointers, which the code
  allocates and frees together with the container, is a list in that record. The optional mutex
  is a flag that is set while the mutex is held.

  The main result is that the pointers a container returns are pairwise disjoint ranges inside
  live blocks (\<open>mc_allocations_disjoint\<close>), that \<^verbatim>\<open>mc_reset\<close> goes back to the state after creation,
  and that \<^verbatim>\<open>mc_free\<close> releases every block exactly once.
\<close>

section \<open>The heap\<close>

record mem =
  blocks :: "nat \<Rightarrow> guint8 list option"
  next_id :: nat

type_synonym cptr = "nat \<times> nat"

definition ic_calloc_mc :: "allocs \<Rightarrow> mem \<Rightarrow> nat \<Rightarrow> nat option \<times> mem \<times> allocs" where
  "ic_calloc_mc as m n =
     (case alloc_next as of (ok, as') \<Rightarrow>
        if ok then (Some (next_id m),
                    m\<lparr>blocks := (blocks m)(next_id m \<mapsto> replicate n 0), next_id := Suc (next_id m)\<rparr>, as')
        else (None, m, as'))"

definition ic_free_mc :: "mem \<Rightarrow> nat option \<Rightarrow> fault + mem" where
  "ic_free_mc m p =
     (case p of None \<Rightarrow> Inr m
      | Some b \<Rightarrow> if blocks m b = None then Inl InvalidFree
                  else Inr (m\<lparr>blocks := (blocks m)(b := None)\<rparr>))"

definition ic_zero :: "mem \<Rightarrow> cptr \<Rightarrow> nat \<Rightarrow> fault + mem" where
  "ic_zero m p n =
     (case blocks m (fst p) of None \<Rightarrow> Inl OutOfBounds
      | Some bs \<Rightarrow> c_bind (wr_blk bs (snd p) (replicate n 0)) (\<lambda>bs'.
          Inr (m\<lparr>blocks := (blocks m)(fst p \<mapsto> bs')\<rparr>)))"

section \<open>The container\<close>

record ic_int_memory_container =
  current_buf :: cptr
  buf_array :: "nat option list"
  total_size :: guint64
  max_size :: guint64
  base_size :: guint32
  buf_array_size :: guint32
  current_buf_inx :: guint32
  current_free_len :: guint32
  first_buf_inx :: guint32
  use_mutex :: bool
  mutex :: "bool option"

type_synonym mc_state = "ic_int_memory_container \<times> mem"

definition MC_MIN_BASE_SIZE :: guint32 where
  "MC_MIN_BASE_SIZE = 128"

definition ic_mutex_lock :: "ic_int_memory_container \<Rightarrow> fault + ic_int_memory_container" where
  "ic_mutex_lock mc =
     (case mutex mc of None \<Rightarrow> Inl NullDeref
      | Some held \<Rightarrow> if held then Inl Deadlock else Inr (mc\<lparr>mutex := Some True\<rparr>))"

definition ic_mutex_unlock :: "ic_int_memory_container \<Rightarrow> fault + ic_int_memory_container" where
  "ic_mutex_unlock mc =
     (case mutex mc of None \<Rightarrow> Inl NullDeref
      | Some held \<Rightarrow> Inr (mc\<lparr>mutex := Some False\<rparr>))"

definition mc_get_base_buf_size :: "guint64 \<Rightarrow> guint32 \<Rightarrow> fault + guint32" where
  "mc_get_base_buf_size max_sz base =
     (if max_sz = 0 then Inr 8
      else if base = 0 then Inl DivByZero
      else Inr (ucast ((max_sz + ucast base - 1) div ucast base)))"

definition mc_realloc_buf_array ::
  "allocs \<Rightarrow> ic_int_memory_container \<Rightarrow> guint32 \<Rightarrow> fault + (bool \<times> ic_int_memory_container \<times> allocs)"
where
  "mc_realloc_buf_array as mc new_size =
     (let old_buf_size = buf_array_size mc;
          copy_buf_size = (if old_buf_size < new_size then old_buf_size else new_size)
      in case alloc_next as of (ok, as') \<Rightarrow>
        if \<not> ok then Inr (False, mc, as')
        else c_bind (rd_blk (buf_array mc) 0 (unat copy_buf_size)) (\<lambda>xs.
          Inr (True, mc\<lparr>buf_array := xs @ replicate (unat new_size - unat copy_buf_size) None,
                        buf_array_size := new_size\<rparr>, as')))"

text \<open>The part of \<^verbatim>\<open>mc_alloc\<close> after the size and the bounds are settled: a new buffer.\<close>

definition mc_new_buffer ::
  "allocs \<Rightarrow> ic_int_memory_container \<Rightarrow> mem \<Rightarrow> guint32 \<Rightarrow> guint32 \<Rightarrow> guint32 \<Rightarrow> guint64 \<Rightarrow>
   fault + (cptr option \<times> ic_int_memory_container \<times> mem \<times> allocs)"
where
  "mc_new_buffer as mc m sz alloc_size buf_inx new_total_size =
     (case ic_calloc_mc as m (unat alloc_size) of
        (None, m', as') \<Rightarrow> Inr (None, mc, m', as')
      | (Some new_buf, m', as') \<Rightarrow>
          let mc = mc\<lparr>current_buf_inx := buf_inx\<rparr> in
          if sz = alloc_size
          then c_bind (rd (buf_array mc) (unat (buf_inx - 1))) (\<lambda>old.
               c_bind (wr (buf_array mc) (unat buf_inx) old) (\<lambda>arr.
               c_bind (wr arr (unat (buf_inx - 1)) (Some new_buf)) (\<lambda>arr.
                 Inr (Some (new_buf, 0),
                      mc\<lparr>buf_array := arr,
                         first_buf_inx := (if first_buf_inx mc = buf_inx - 1 then buf_inx else first_buf_inx mc),
                         total_size := new_total_size\<rparr>, m', as'))))
          else c_bind (wr (buf_array mc) (unat buf_inx) (Some new_buf)) (\<lambda>arr.
                 Inr (Some (new_buf, 0),
                      mc\<lparr>current_buf := (new_buf, unat sz), current_free_len := alloc_size - sz,
                         buf_array := arr, total_size := new_total_size\<rparr>, m', as')))"

definition mc_alloc_locked ::
  "allocs \<Rightarrow> ic_int_memory_container \<Rightarrow> mem \<Rightarrow> guint32 \<Rightarrow>
   fault + (cptr option \<times> ic_int_memory_container \<times> mem \<times> allocs)"
where
  "mc_alloc_locked as mc m sz =
     (let new_total_size = total_size mc + ucast sz in
      if 0 < max_size mc \<and> max_size mc < new_total_size then Inr (None, mc, m, as)
      else if sz \<le> current_free_len mc
      then Inr (Some (current_buf mc),
                mc\<lparr>current_buf := (fst (current_buf mc), snd (current_buf mc) + unat sz),
                   current_free_len := current_free_len mc - sz,
                   total_size := new_total_size\<rparr>, m, as)
      else
        let alloc_size = (if base_size mc < sz then sz else base_size mc);
            buf_inx = current_buf_inx mc + 1
        in c_bind (if buf_array_size mc \<le> buf_inx
                   then mc_realloc_buf_array as mc (buf_array_size mc + 16)
                   else Inr (True, mc, as)) (\<lambda>(ok, mc, as).
             if \<not> ok then Inr (None, mc, m, as)
             else mc_new_buffer as mc m sz alloc_size buf_inx new_total_size))"

definition mc_alloc ::
  "allocs \<Rightarrow> ic_int_memory_container \<Rightarrow> mem \<Rightarrow> guint32 \<Rightarrow>
   fault + (cptr option \<times> ic_int_memory_container \<times> mem \<times> allocs)"
where
  "mc_alloc as mc m sz =
     (let sz = ic_align sz 8 in
      c_bind (if mutex mc \<noteq> None then ic_mutex_lock mc else Inr mc) (\<lambda>mc.
      c_bind (mc_alloc_locked as mc m sz) (\<lambda>(r, mc, m, as).
      c_bind (if mutex mc \<noteq> None then ic_mutex_unlock mc else Inr mc) (\<lambda>mc.
        Inr (r, mc, m, as)))))"

definition mc_calloc ::
  "allocs \<Rightarrow> ic_int_memory_container \<Rightarrow> mem \<Rightarrow> guint32 \<Rightarrow>
   fault + (cptr option \<times> ic_int_memory_container \<times> mem \<times> allocs)"
where
  "mc_calloc as mc m sz =
     c_bind (mc_alloc as mc m sz) (\<lambda>(r, mc, m, as).
       case r of None \<Rightarrow> Inr (None, mc, m, as)
       | Some p \<Rightarrow> c_bind (ic_zero m p (unat sz)) (\<lambda>m. Inr (Some p, mc, m, as)))"

text \<open>The loops that free the buffers of a range of slots.\<close>

fun free_slots :: "mem \<Rightarrow> nat option list \<Rightarrow> nat list \<Rightarrow> fault + mem" where
  "free_slots m arr [] = Inr m"
| "free_slots m arr (i # is) =
     c_bind (rd arr i) (\<lambda>p. c_bind (ic_free_mc m p) (\<lambda>m. free_slots m arr is))"

definition mc_reset ::
  "allocs \<Rightarrow> ic_int_memory_container \<Rightarrow> mem \<Rightarrow> fault + (ic_int_memory_container \<times> mem \<times> allocs)"
where
  "mc_reset as mc m =
     c_bind (if use_mutex mc then ic_mutex_lock mc else Inr mc) (\<lambda>mc.
     c_bind (rd (buf_array mc) (unat (first_buf_inx mc))) (\<lambda>tmp.
     c_bind (rd (buf_array mc) 0) (\<lambda>p0.
     c_bind (wr (buf_array mc) (unat (first_buf_inx mc)) p0) (\<lambda>arr.
     c_bind (wr arr 0 tmp) (\<lambda>arr.
     c_bind (free_slots m arr [1 ..< Suc (unat (current_buf_inx mc))]) (\<lambda>m.
     c_bind (mc_get_base_buf_size (max_size mc) (base_size mc)) (\<lambda>orig_arr_size.
     let mc = mc\<lparr>buf_array := arr, first_buf_inx := 0\<rparr> in
     c_bind (if orig_arr_size < buf_array_size mc
             then mc_realloc_buf_array as mc orig_arr_size else Inr (True, mc, as)) (\<lambda>(_, mc, as).
     c_bind (wr_blk (buf_array mc) 1 (replicate (unat (buf_array_size mc - 1)) None)) (\<lambda>arr.
     c_bind (rd arr 0) (\<lambda>p0. case p0 of None \<Rightarrow> Inl NullDeref | Some b0 \<Rightarrow>
     let mc = mc\<lparr>buf_array := arr, current_buf := (b0, 0), total_size := 0,
                 current_buf_inx := 0, current_free_len := base_size mc\<rparr> in
     c_bind (if use_mutex mc then ic_mutex_unlock mc else Inr mc) (\<lambda>mc.
       Inr (mc, m, as))))))))))))"

definition mc_free :: "ic_int_memory_container \<Rightarrow> mem \<Rightarrow> fault + mem" where
  "mc_free mc m = free_slots m (buf_array mc) [0 ..< Suc (unat (current_buf_inx mc))]"

text \<open>
  The first two allocations, the array of buffer pointers and the struct, are part of the record,
  so that only their outcome counts.
\<close>

definition ic_create_memory_container ::
  "allocs \<Rightarrow> mem \<Rightarrow> guint32 \<Rightarrow> guint32 \<Rightarrow> bool \<Rightarrow>
   fault + (ic_int_memory_container option \<times> mem \<times> allocs)"
where
  "ic_create_memory_container as m base max_sz use_mtx =
     (let base = (if base < MC_MIN_BASE_SIZE then MC_MIN_BASE_SIZE else base);
          base = ic_align base 8;
          max_sz = ic_align max_sz 8;
          max_sz = (if 0 < max_sz \<and> max_sz < base then base else max_sz)
      in c_bind (mc_get_base_buf_size (ucast max_sz) base) (\<lambda>buf_size.
        case alloc_next as of (ok1, as) \<Rightarrow> if \<not> ok1 then Inr (None, m, as) else
        case alloc_next as of (ok2, as) \<Rightarrow> if \<not> ok2 then Inr (None, m, as) else
        case ic_calloc_mc as m (unat base) of
          (None, m, as) \<Rightarrow> Inr (None, m, as)
        | (Some first_buf, m, as) \<Rightarrow>
            case (if use_mtx then alloc_next as else (True, as)) of (ok4, as) \<Rightarrow>
            if \<not> ok4 then c_bind (ic_free_mc m (Some first_buf)) (\<lambda>m. Inr (None, m, as))
            else c_bind (wr (replicate (unat buf_size) None) 0 (Some first_buf)) (\<lambda>arr.
              Inr (Some \<lparr>current_buf = (first_buf, 0), buf_array = arr, total_size = 0,
                         max_size = ucast max_sz, base_size = base, buf_array_size = buf_size,
                         current_buf_inx = 0, current_free_len = base, first_buf_inx = 0,
                         use_mutex = use_mtx, mutex = (if use_mtx then Some False else None)\<rparr>, m, as))))"

section \<open>Invariant\<close>

text \<open>
  The buffers \<open>xs\<close>, then the current buffer, then unused slots. The current buffer ends
  where its free space ends; the buffer \<open>first_buf_inx\<close> refers to has the base size.
\<close>

abbreviation block_len :: "mem \<Rightarrow> nat \<Rightarrow> nat" where
  "block_len m b \<equiv> length (the (blocks m b))"

definition mem_ok :: "mem \<Rightarrow> bool" where
  "mem_ok m \<longleftrightarrow> (\<forall>b \<ge> next_id m. blocks m b = None)"

definition mc_shape :: "ic_int_memory_container \<Rightarrow> mem \<Rightarrow> nat list \<Rightarrow> nat option list \<Rightarrow> bool" where
  "mc_shape mc m xs rest \<longleftrightarrow>
     buf_array mc = map Some (xs @ [fst (current_buf mc)]) @ rest \<and>
     length (buf_array mc) = unat (buf_array_size mc) \<and>
     unat (current_buf_inx mc) = length xs \<and>
     distinct (xs @ [fst (current_buf mc)]) \<and>
     (\<forall>b \<in> set (xs @ [fst (current_buf mc)]). blocks m b \<noteq> None) \<and>
     block_len m (fst (current_buf mc)) = snd (current_buf mc) + unat (current_free_len mc) \<and>
     8 dvd snd (current_buf mc) \<and>
     unat (first_buf_inx mc) \<le> length xs \<and>
     block_len m ((xs @ [fst (current_buf mc)]) ! unat (first_buf_inx mc)) = unat (base_size mc) \<and>
     0 < base_size mc \<and> mem_ok m \<and>
     (0 < max_size mc \<longrightarrow> total_size mc \<le> max_size mc \<and> ucast (base_size mc) \<le> max_size mc \<and>
        unat (max_size mc) < 4294967296)"

definition mutex_ok :: "ic_int_memory_container \<Rightarrow> bool" where
  "mutex_ok mc \<longleftrightarrow> mutex mc = (if use_mutex mc then Some False else None)"

text \<open>Ranges of memory handed out: where they lie, and that no two of them overlap. Without the blocks
  of the container the heap is \<open>fr\<close>.\<close>

fun disj_range :: "cptr \<times> nat \<Rightarrow> cptr \<times> nat \<Rightarrow> bool" where
  "disj_range ((b, o1), l1) ((b', o2), l2) \<longleftrightarrow> b \<noteq> b' \<or> o1 + l1 \<le> o2 \<or> o2 + l2 \<le> o1"

definition in_mem :: "mem \<Rightarrow> cptr \<times> nat \<Rightarrow> bool" where
  "in_mem m r \<longleftrightarrow> blocks m (fst (fst r)) \<noteq> None \<and> snd (fst r) + snd r \<le> block_len m (fst (fst r)) \<and>
     8 dvd snd (fst r)"

definition mc_owns :: "(nat \<Rightarrow> guint8 list option) \<Rightarrow> ic_int_memory_container \<Rightarrow> mem \<Rightarrow> nat list \<Rightarrow> (cptr \<times> nat) list \<Rightarrow> bool" where
  "mc_owns fr mc m xs rs \<longleftrightarrow>
     (\<forall>r \<in> set rs. in_mem m r \<and> fst (fst r) \<in> set (xs @ [fst (current_buf mc)]) \<and>
        (fst (fst r) = fst (current_buf mc) \<longrightarrow> snd (fst r) + snd r \<le> snd (current_buf mc))) \<and>
     sorted_wrt disj_range rs \<and>
     (\<forall>b. fr b = (if b \<in> set (xs @ [fst (current_buf mc)]) then None else blocks m b)) \<and>
     (0 < max_size mc \<longrightarrow> sum_list (map snd rs) \<le> unat (total_size mc))"

lemma align8: "unat n \<le> 4294967288 \<Longrightarrow> unat (ic_align n 8) = (unat n + 7) div 8 * 8"
proof -
  assume a: "unat n \<le> 4294967288"
  have 1: "unat (n + 7) = unat n + 7" using a by (subst unat_add_small) simp_all
  have 2: "unat ((n + 7) div 8) = (unat n + 7) div 8" by (simp add: unat_div 1)
  show ?thesis unfolding ic_align_def using a
    by (simp add: 2 unat_word_ariths)
qed

lemma align8_ge: "unat n \<le> 4294967288 \<Longrightarrow> unat n \<le> unat (ic_align n 8)"
  by (simp add: align8)

lemma align8_dvd: "unat n \<le> 4294967288 \<Longrightarrow> 8 dvd unat (ic_align n 8)"
  by (simp add: align8)

lemma realloc_grow:
  assumes "mc_shape mc m xs rest" and "unat (buf_array_size mc) + 16 < 4294967296"
  shows "mc_realloc_buf_array as mc (buf_array_size mc + 16) =
    Inr (fst (alloc_next as),
         if fst (alloc_next as)
         then mc\<lparr>buf_array := buf_array mc @ replicate 16 None, buf_array_size := buf_array_size mc + 16\<rparr>
         else mc, snd (alloc_next as))"
proof -
  have u: "unat (buf_array_size mc + 16) = unat (buf_array_size mc) + 16"
    using assms(2) by (simp add: unat_add_small)
  then have "buf_array_size mc < buf_array_size mc + 16" by (simp add: word_less_nat_alt)
  moreover have "length (buf_array mc) = unat (buf_array_size mc)" using assms(1) unfolding mc_shape_def by blast
  ultimately show ?thesis using u
    by (simp add: mc_realloc_buf_array_def rd_blk_def Let_def split: prod.splits)
qed

lemma shape_grow:
  "mc_shape mc m xs rest \<Longrightarrow> unat (buf_array_size mc) + 16 < 4294967296 \<Longrightarrow>
   mc_shape (mc\<lparr>buf_array := buf_array mc @ replicate 16 None, buf_array_size := buf_array_size mc + 16\<rparr>)
     m xs (rest @ replicate 16 None)"
  by (auto simp: mc_shape_def unat_add_small)

lemma mutex_irrelevant [simp]:
  "mc_shape (mc\<lparr>mutex := x\<rparr>) = mc_shape mc"
  "mc_owns fr (mc\<lparr>mutex := x\<rparr>) = mc_owns fr mc"
  by (simp_all add: mc_shape_def mc_owns_def fun_eq_iff)

text \<open>What every allocation keeps: the shape, the ranges handed out before, and the configuration.\<close>

definition mc_step_ok ::
  "(nat \<Rightarrow> guint8 list option) \<Rightarrow> ic_int_memory_container \<Rightarrow> cptr option \<Rightarrow> ic_int_memory_container \<Rightarrow> mem \<Rightarrow> (cptr \<times> nat) list \<Rightarrow> nat \<Rightarrow> bool"
where
  "mc_step_ok fr mc r mc' m' rs n \<longleftrightarrow>
     (\<exists>xs' rest'. mc_shape mc' m' xs' rest' \<and> mc_owns fr mc' m' xs' (case r of None \<Rightarrow> rs | Some p \<Rightarrow> (p, n) # rs)) \<and>
     use_mutex mc' = use_mutex mc \<and> mutex mc' = mutex mc \<and> base_size mc' = base_size mc \<and>
     max_size mc' = max_size mc \<and> unat (buf_array_size mc') \<le> unat (buf_array_size mc) + 16"

lemma mc_step_okI:
  "mc_shape mc' m' xs' rest' \<Longrightarrow> mc_owns fr mc' m' xs' (case r of None \<Rightarrow> rs | Some p \<Rightarrow> (p, n) # rs) \<Longrightarrow>
   use_mutex mc' = use_mutex mc \<Longrightarrow> mutex mc' = mutex mc \<Longrightarrow> base_size mc' = base_size mc \<Longrightarrow>
   max_size mc' = max_size mc \<Longrightarrow> unat (buf_array_size mc') \<le> unat (buf_array_size mc) + 16 \<Longrightarrow>
   mc_step_ok fr mc r mc' m' rs n"
  unfolding mc_step_ok_def by blast

lemma total_no_wrap:
  assumes "mc_shape mc m xs rest" and "0 < max_size mc"
  shows "unat (total_size mc + ucast (sz :: guint32)) = unat (total_size mc) + unat sz"
proof -
  have "unat (total_size mc) < 4294967296"
    using assms by (auto simp: mc_shape_def word_le_nat_alt)
  moreover have "unat (ucast sz :: guint64) = unat sz"
    using unat_bound32 [of sz] by (simp add: unsigned_ucast_eq take_bit_eq_mod)
  ultimately show ?thesis using unat_bound32 [of sz] by (subst unat_add_small) simp_all
qed

lemma calloc_cases:
  obtains (fail) as' where "ic_calloc_mc as m n = (None, m, as')"
  | (ok) as' where "ic_calloc_mc as m n =
      (Some (next_id m), m\<lparr>blocks := (blocks m)(next_id m \<mapsto> replicate n 0), next_id := Suc (next_id m)\<rparr>, as')"
  by (cases "alloc_next as"; cases "fst (alloc_next as)") (auto simp: ic_calloc_mc_def)

lemma current_piece:
  assumes s: "mc_shape mc m xs rest" and o: "mc_owns fr mc m xs rs" and sz: "sz \<le> current_free_len mc"
    and n: "n \<le> unat sz" "8 dvd unat sz"
    and lim: "0 < max_size mc \<Longrightarrow> total_size mc + ucast sz \<le> max_size mc"
  shows "mc_step_ok fr mc (Some (current_buf mc))
    (mc\<lparr>current_buf := (fst (current_buf mc), snd (current_buf mc) + unat sz),
        current_free_len := current_free_len mc - sz, total_size := total_size mc + ucast sz\<rparr>) m rs n"
proof -
  have f: "unat (current_free_len mc - sz) = unat (current_free_len mc) - unat sz" "unat sz \<le> unat (current_free_len mc)"
    using sz by (simp_all add: unat_sub word_le_nat_alt)
  have "mc_shape (mc\<lparr>current_buf := (fst (current_buf mc), snd (current_buf mc) + unat sz),
        current_free_len := current_free_len mc - sz, total_size := total_size mc + ucast sz\<rparr>) m xs rest"
    using s f n lim by (auto simp: mc_shape_def)
  moreover have "disj_range (current_buf mc, n) r" if "r \<in> set rs" for r
    using o that by (cases r; cases "current_buf mc") (fastforce simp: mc_owns_def)
  then have "mc_owns fr (mc\<lparr>current_buf := (fst (current_buf mc), snd (current_buf mc) + unat sz),
        current_free_len := current_free_len mc - sz, total_size := total_size mc + ucast sz\<rparr>) m xs
        ((current_buf mc, n) # rs)"
    using o s n f total_no_wrap [OF s, of sz] by (auto simp: mc_owns_def mc_shape_def in_mem_def)
  ultimately show ?thesis by (rule mc_step_okI [where r = "Some _", simplified]) simp_all
qed

lemma fresh_block:
  assumes "mc_shape mc m xs rest"
  shows "next_id m \<notin> set (xs @ [fst (current_buf mc)])" "blocks m (next_id m) = None"
  using assms by (auto simp: mc_shape_def mem_ok_def)

lemma owns_fresh:
  assumes s: "mc_shape mc m xs rest" and o: "mc_owns fr mc m xs rs" and n: "n \<le> k"
    and m': "m' = m\<lparr>blocks := (blocks m)(next_id m \<mapsto> replicate k 0), next_id := Suc (next_id m)\<rparr>"
    and r: "r \<in> set rs"
  shows "in_mem m' r \<and> fst (fst r) \<in> set (xs @ [fst (current_buf mc)]) \<and> disj_range ((next_id m, 0), n) r \<and>
    fst (fst r) \<noteq> next_id m \<and> (fst (fst r) = fst (current_buf mc) \<longrightarrow> snd (fst r) + snd r \<le> snd (current_buf mc))"
proof -
  have "in_mem m r" "fst (fst r) \<in> set (xs @ [fst (current_buf mc)])"
    "fst (fst r) = fst (current_buf mc) \<longrightarrow> snd (fst r) + snd r \<le> snd (current_buf mc)"
    using o r by (auto simp: mc_owns_def)
  moreover from this(2) fresh_block [OF s] have "fst (fst r) \<noteq> next_id m" by auto
  ultimately show ?thesis by (cases r; cases "fst r") (auto simp: in_mem_def m')
qed

lemma inx_succ:
  assumes "mc_shape mc m xs (slot # rest)"
  shows "unat (current_buf_inx mc + 1) = Suc (length xs)" "current_buf_inx mc + 1 - 1 = current_buf_inx mc"
proof -
  have "Suc (length xs) < 4294967296"
    using assms unat_bound32 [of "buf_array_size mc"] by (auto simp: mc_shape_def)
  then show "unat (current_buf_inx mc + 1) = Suc (length xs)"
    using assms by (subst unat_add_small) (auto simp: mc_shape_def)
qed simp

lemma new_buffer_swap:
  assumes s: "mc_shape mc m xs (slot # rest)" and o: "mc_owns fr mc m xs rs" and n: "n \<le> unat (sz :: guint32)"
    and lim: "0 < max_size mc \<Longrightarrow> total_size mc + ucast sz \<le> max_size mc"
    and m': "m' = m\<lparr>blocks := (blocks m)(next_id m \<mapsto> replicate (unat sz) 0), next_id := Suc (next_id m)\<rparr>"
    and mc': "mc' = mc\<lparr>current_buf_inx := current_buf_inx mc + 1,
        buf_array := (buf_array mc)[Suc (length xs) := buf_array mc ! length xs, length xs := Some (next_id m)],
        first_buf_inx := (if first_buf_inx mc = current_buf_inx mc then current_buf_inx mc + 1 else first_buf_inx mc),
        total_size := total_size mc + ucast sz\<rparr>"
  shows "mc_step_ok fr mc (Some (next_id m, 0)) mc' m' rs n"
proof -
  let ?c = "fst (current_buf mc)"
  have arr: "buf_array mc' = map Some ((xs @ [next_id m]) @ [?c]) @ rest"
    using s by (simp add: mc' mc_shape_def list_update_append nth_append)
  have f: "next_id m \<notin> set (xs @ [?c])" by (rule fresh_block(1) [OF s])
  have first: "unat (first_buf_inx mc') \<le> Suc (length xs) \<and>
     (((xs @ [next_id m]) @ [?c]) ! unat (first_buf_inx mc')) = (xs @ [?c]) ! unat (first_buf_inx mc)"
  proof (cases "first_buf_inx mc = current_buf_inx mc")
    case True
    then show ?thesis using inx_succ [OF s] s by (simp add: mc' mc_shape_def nth_append)
  next
    case False
    then have "unat (first_buf_inx mc) < length xs"
      using s by (metis mc_shape_def le_neq_implies_less word_unat_eq_iff)
    then show ?thesis using False by (simp add: mc' nth_append)
  qed
  have b: "b \<in> set (xs @ [?c]) \<Longrightarrow> blocks m' b = blocks m b" for b using f by (auto simp: m')
  have "mc_shape mc' m' (xs @ [next_id m]) rest"
    using s arr f first inx_succ(1) [OF s] lim b
    by (auto simp: mc_shape_def mc' m' mem_ok_def nth_append)
  moreover have "mc_owns fr mc' m' (xs @ [next_id m]) (((next_id m, 0), n) # rs)"
    using owns_fresh [OF s o n m'] o n f fresh_block(2) [OF s] total_no_wrap [OF s, of sz]
    by (auto simp: mc_owns_def mc') (auto simp: in_mem_def m')
  ultimately show ?thesis by (rule mc_step_okI [where r = "Some _", simplified]) (simp_all add: mc')
qed

lemma new_buffer_next:
  assumes s: "mc_shape mc m xs (slot # rest)" and o: "mc_owns fr mc m xs rs"
    and n: "n \<le> unat sz" "8 dvd unat sz" and sz: "sz < asz"
    and lim: "0 < max_size mc \<Longrightarrow> total_size mc + ucast sz \<le> max_size mc"
    and m': "m' = m\<lparr>blocks := (blocks m)(next_id m \<mapsto> replicate (unat asz) 0), next_id := Suc (next_id m)\<rparr>"
    and mc': "mc' = mc\<lparr>current_buf_inx := current_buf_inx mc + 1, current_buf := (next_id m, unat sz),
        current_free_len := asz - sz, buf_array := (buf_array mc)[Suc (length xs) := Some (next_id m)],
        total_size := total_size mc + ucast sz\<rparr>"
  shows "mc_step_ok fr mc (Some (next_id m, 0)) mc' m' rs n"
proof -
  let ?c = "fst (current_buf mc)"
  have arr: "buf_array mc' = map Some ((xs @ [?c]) @ [next_id m]) @ rest"
    using s by (simp add: mc' mc_shape_def list_update_append)
  have f: "next_id m \<notin> set (xs @ [?c])" by (rule fresh_block(1) [OF s])
  have b: "b \<in> set (xs @ [?c]) \<Longrightarrow> blocks m' b = blocks m b" for b using f by (auto simp: m')
  have asz: "unat (asz - sz) = unat asz - unat sz" "unat sz < unat asz"
    using sz by (simp_all add: unat_sub word_less_nat_alt order_less_imp_le)
  have first: "((xs @ [?c]) @ [next_id m]) ! unat (first_buf_inx mc) = (xs @ [?c]) ! unat (first_buf_inx mc)"
    "(xs @ [?c]) ! unat (first_buf_inx mc) \<in> set (xs @ [?c])" "unat (first_buf_inx mc) \<le> length xs"
    using s by (auto simp: mc_shape_def nth_append)
  have "mc_shape mc' m' (xs @ [?c]) rest"
    unfolding mc_shape_def
  proof (intro conjI)
    show "buf_array mc' = map Some ((xs @ [?c]) @ [fst (current_buf mc')]) @ rest" unfolding arr by (simp add: mc')
    show "block_len m' (((xs @ [?c]) @ [fst (current_buf mc')]) ! unat (first_buf_inx mc')) = unat (base_size mc')"
      using s first b by (simp add: mc' mc_shape_def)
  qed (use s f asz lim b n first inx_succ(1) [OF s] in \<open>auto simp: mc_shape_def mc' m' mem_ok_def\<close>)
  moreover have "mc_owns fr mc' m' (xs @ [?c]) (((next_id m, 0), n) # rs)"
    using owns_fresh [OF s o _ m', of n] o n f fresh_block(2) [OF s] asz total_no_wrap [OF s, of sz]
    by (auto simp: mc_owns_def mc') (auto simp: in_mem_def m')
  ultimately show ?thesis by (rule mc_step_okI [where r = "Some _", simplified]) (simp_all add: mc')
qed

lemma new_buffer_ok:
  assumes s: "mc_shape mc m xs (slot # rest)" and o: "mc_owns fr mc m xs rs"
    and n: "n \<le> unat sz" "8 dvd unat sz" and sz: "sz \<le> asz"
    and lim: "0 < max_size mc \<Longrightarrow> total_size mc + ucast sz \<le> max_size mc"
  shows "\<exists>r mc' m' as'. mc_new_buffer as mc m sz asz (current_buf_inx mc + 1) (total_size mc + ucast sz) =
    Inr (r, mc', m', as') \<and> mc_step_ok fr mc r mc' m' rs n"
proof (rule calloc_cases [of as m "unat asz"], goal_cases fail ok)
  case (fail as')
  then show ?thesis using mc_step_okI [OF s, where r = None and rs = rs and n = n and mc = mc] o by (auto simp: mc_new_buffer_def)
next
  case (ok as')
  have l: "unat (current_buf_inx mc) = length xs" "Suc (length xs) < length (buf_array mc)"
    using s by (auto simp: mc_shape_def)
  show ?thesis
  proof (cases "sz = asz")
    case True
    with ok l inx_succ [OF s] new_buffer_swap [OF s o n(1) lim refl refl] show ?thesis
      by (auto simp: mc_new_buffer_def Let_def)
  next
    case False
    with sz have "sz < asz" by simp
    with ok False l inx_succ [OF s] new_buffer_next [OF s o n _ lim refl refl] show ?thesis
      by (auto simp: mc_new_buffer_def Let_def)
  qed
qed

lemma new_buffer_size:
  "mc_new_buffer as mc m sz asz i tot = Inr (r, mc', m', as') \<Longrightarrow> buf_array_size mc' = buf_array_size mc"
  by (auto simp: mc_new_buffer_def Let_def cfault split: prod.splits option.splits if_splits)

lemma alloc_locked_ok:
  assumes s: "mc_shape mc m xs rest" and o: "mc_owns fr mc m xs rs"
    and n: "n \<le> unat sz" "8 dvd unat sz" and room: "unat (buf_array_size mc) + 16 < 4294967296"
  shows "\<exists>r mc' m' as'. mc_alloc_locked as mc m sz = Inr (r, mc', m', as') \<and> mc_step_ok fr mc r mc' m' rs n"
proof (cases "0 < max_size mc \<and> max_size mc < total_size mc + ucast sz")
  case True
  then show ?thesis using mc_step_okI [OF s, where r = None and rs = rs and n = n and mc = mc] o by (auto simp: mc_alloc_locked_def)
next
  case False
  then have lim: "0 < max_size mc \<Longrightarrow> total_size mc + ucast sz \<le> max_size mc" by simp
  let ?asz = "if base_size mc < sz then sz else base_size mc"
  have asz: "sz \<le> ?asz" by auto
  have len: "length (buf_array mc) = unat (buf_array_size mc)" "unat (current_buf_inx mc) = length xs"
    "length (buf_array mc) = Suc (length xs + length rest)"
    using s by (auto simp: mc_shape_def)
  have inx: "unat (current_buf_inx mc + 1) = Suc (length xs)"
    using len room by (subst unat_add_small) simp_all
  consider (piece) "sz \<le> current_free_len mc"
    | (slot) slot rest' where "\<not> sz \<le> current_free_len mc" "rest = slot # rest'"
    | (grow) "\<not> sz \<le> current_free_len mc" "rest = []" by (cases rest) auto
  then show ?thesis
  proof cases
    case piece
    then show ?thesis using current_piece [OF s o piece n lim] False by (auto simp: mc_alloc_locked_def Let_def)
  next
    case slot
    then have "\<not> buf_array_size mc \<le> current_buf_inx mc + 1"
      using len inx by (simp add: word_le_nat_alt)
    then show ?thesis using new_buffer_ok [OF s [unfolded slot(2)] o n asz lim] slot False
      by (auto simp: mc_alloc_locked_def Let_def)
  next
    case grow
    then have full: "buf_array_size mc \<le> current_buf_inx mc + 1"
      using len inx by (simp add: word_le_nat_alt)
    let ?mc = "mc\<lparr>buf_array := buf_array mc @ replicate 16 None, buf_array_size := buf_array_size mc + 16\<rparr>"
    have s': "mc_shape ?mc m xs (None # replicate 15 None)"
      using shape_grow [OF s room] grow(2) by (simp add: numeral_eq_Suc)
    have o': "mc_owns fr ?mc m xs rs" using o by (simp add: mc_owns_def)
    obtain r mc' m' as' where new:
      "mc_new_buffer (snd (alloc_next as)) ?mc m sz ?asz (current_buf_inx mc + 1) (total_size mc + ucast sz) =
         Inr (r, mc', m', as')" "mc_step_ok fr ?mc r mc' m' rs n"
      using new_buffer_ok [OF s' o' n asz, of "snd (alloc_next as)"] lim by auto
    have "mc_step_ok fr mc r mc' m' rs n"
      using new(2) new_buffer_size [OF new(1)] room by (simp add: mc_step_ok_def unat_add_small)
    then show ?thesis using new(1) realloc_grow [OF s room, of as] full grow(1) False
        mc_step_okI [OF s, where r = None and rs = rs and n = n and mc = mc] o
      by (auto simp: mc_alloc_locked_def Let_def)
  qed
qed

section \<open>The allocation interface\<close>

text \<open>
  A container together with its heap and the outcomes of the coming allocations. \<open>mc_inv fr k s rs\<close>
  says that the state is well-formed, that \<open>rs\<close> are the ranges handed out and that the array of
  buffers can grow for \<open>k\<close> more calls without its 32-bit size passing its width.
\<close>

definition mc_inv ::
  "(nat \<Rightarrow> guint8 list option) \<Rightarrow> nat \<Rightarrow> ic_int_memory_container \<times> mem \<times> allocs \<Rightarrow> (cptr \<times> nat) list \<Rightarrow> bool"
where
  "mc_inv fr k s rs \<longleftrightarrow> (case s of (mc, m, as) \<Rightarrow>
     (\<exists>xs rest. mc_shape mc m xs rest \<and> mc_owns fr mc m xs rs) \<and> mutex_ok mc \<and>
     unat (buf_array_size mc) + 16 * k < 4294967296)"

definition mc_alloc_op where
  "mc_alloc_op s n = (case s of (mc, m, as) \<Rightarrow>
     c_bind (mc_alloc as mc m n) (\<lambda>(r, mc, m, as). Inr (r, (mc, m, as))))"

definition mc_calloc_op where
  "mc_calloc_op s n = (case s of (mc, m, as) \<Rightarrow>
     c_bind (mc_calloc as mc m n) (\<lambda>(r, mc, m, as). Inr (r, (mc, m, as))))"

lemma mc_invI:
  "mc_shape mc m xs rest \<Longrightarrow> mc_owns fr mc m xs rs \<Longrightarrow> mutex_ok mc \<Longrightarrow>
   unat (buf_array_size mc) + 16 * k < 4294967296 \<Longrightarrow> mc_inv fr k (mc, m, as) rs"
  by (auto simp: mc_inv_def)

lemma mc_alloc_ok:
  assumes "mc_inv fr (Suc k) (mc, m, as) rs" and "unat n \<le> 4294967288"
  shows "\<exists>r mc' m' as'. mc_alloc as mc m n = Inr (r, mc', m', as') \<and>
    mc_inv fr k (mc', m', as') (case r of None \<Rightarrow> rs | Some p \<Rightarrow> (p, unat n) # rs)"
proof -
  obtain xs rest where s: "mc_shape mc m xs rest" and o: "mc_owns fr mc m xs rs" and mx: "mutex_ok mc"
    and room: "unat (buf_array_size mc) + 16 * Suc k < 4294967296"
    using assms(1) by (auto simp: mc_inv_def)
  define mc1 where "mc1 = (if use_mutex mc then mc\<lparr>mutex := Some True\<rparr> else mc)"
  have lock: "(if mutex mc \<noteq> None then ic_mutex_lock mc else Inr mc) = Inr mc1"
    using mx by (simp add: mutex_ok_def ic_mutex_lock_def mc1_def)
  have s1: "mc_shape mc1 m xs rest" and o1: "mc_owns fr mc1 m xs rs"
    using s o by (simp_all add: mc1_def)
  have "unat (buf_array_size mc1) + 16 < 4294967296" using room by (simp add: mc1_def)
  from alloc_locked_ok [OF s1 o1 align8_ge align8_dvd this, OF assms(2,2)]
  obtain r mc2 m' as' where a: "mc_alloc_locked as mc1 m (ic_align n 8) = Inr (r, mc2, m', as')"
    and st: "mc_step_ok fr mc1 r mc2 m' rs (unat n)" by blast
  define mc3 where "mc3 = (if use_mutex mc then mc2\<lparr>mutex := Some False\<rparr> else mc2)"
  have "mutex mc2 = (if use_mutex mc then Some True else None)"
    using st mx by (auto simp: mc_step_ok_def mc1_def mutex_ok_def)
  then have unlock: "(if mutex mc2 \<noteq> None then ic_mutex_unlock mc2 else Inr mc2) = Inr mc3"
    by (simp add: ic_mutex_unlock_def mc3_def)
  have "mc_inv fr k (mc3, m', as') (case r of None \<Rightarrow> rs | Some p \<Rightarrow> (p, unat n) # rs)"
    using st room mx by (cases "use_mutex mc") (auto simp: mc_inv_def mc_step_ok_def mc3_def mc1_def mutex_ok_def)
  then show ?thesis using a lock unlock by (auto simp: mc_alloc_def)
qed

lemma inv_owns: "mc_inv fr k (mc, m, as) rs \<Longrightarrow> r \<in> set rs \<Longrightarrow> in_mem m r"
  by (auto simp: mc_inv_def mc_owns_def)

lemma zero_inv:
  assumes "mc_inv fr k (mc, m, as) rs" and "(p, n) \<in> set rs"
  shows "\<exists>m'. ic_zero m p n = Inr m' \<and> mc_inv fr k (mc, m', as) rs"
proof -
  obtain bs where b: "blocks m (fst p) = Some bs" "snd p + n \<le> length bs"
    using inv_owns [OF assms] by (auto simp: in_mem_def)
  define m' where
    "m' = m\<lparr>blocks := (blocks m)(fst p \<mapsto> take (snd p) bs @ replicate n 0 @ drop (snd p + n) bs)\<rparr>"
  have z: "ic_zero m p n = Inr m'" using b by (simp add: ic_zero_def m'_def)
  have l: "block_len m' b' = block_len m b'" "blocks m' b' = None \<longleftrightarrow> blocks m b' = None" for b'
    using b by (auto simp: m'_def)
  have "mem_ok m' = mem_ok m" by (simp add: mem_ok_def l) (simp add: m'_def)
  then have sh: "mc_shape mc m' = mc_shape mc m"
    by (simp add: mc_shape_def l fun_eq_iff del: not_None_eq)
  obtain xs rest where s: "mc_shape mc m xs rest" "mc_owns fr mc m xs rs"
    "mutex_ok mc" "unat (buf_array_size mc) + 16 * k < 4294967296" using assms(1) by (auto simp: mc_inv_def)
  have "fst p \<in> set (xs @ [fst (current_buf mc)])" using s(2) assms(2) by (fastforce simp: mc_owns_def)
  then have out: "b \<notin> set (xs @ [fst (current_buf mc)]) \<Longrightarrow> blocks m' b = blocks m b" for b by (auto simp: m'_def)
  have "mc_owns fr mc m' xs rs" using s(2) by (simp add: mc_owns_def in_mem_def l out del: not_None_eq)
  then have "mc_inv fr k (mc, m', as) rs" using s sh by (auto simp: mc_inv_def)
  with z show ?thesis by blast
qed

text \<open>
  The interface of an arena: an allocation either fails and keeps the ranges handed out, or adds a
  range; the ranges never overlap. \<open>alloc_many\<close> is a client that makes a list of requests.
\<close>

fun alloc_many ::
  "('s \<Rightarrow> guint32 \<Rightarrow> fault + (cptr option \<times> 's)) \<Rightarrow> 's \<Rightarrow> guint32 list \<Rightarrow> fault + ((cptr \<times> nat) list \<times> 's)"
where
  "alloc_many alloc s [] = Inr ([], s)"
| "alloc_many alloc s (n # ns) =
     c_bind (alloc s n) (\<lambda>(r, s').
       c_bind (alloc_many alloc s' ns) (\<lambda>(out, s'').
         Inr (case r of None \<Rightarrow> (out, s'') | Some p \<Rightarrow> ((p, unat n) # out, s''))))"

locale arena =
  fixes alloc :: "'s \<Rightarrow> guint32 \<Rightarrow> fault + (cptr option \<times> 's)"
    and owned :: "nat \<Rightarrow> 's \<Rightarrow> (cptr \<times> nat) list \<Rightarrow> bool"
  assumes alloc_law: "owned (Suc k) s rs \<Longrightarrow> unat n \<le> 4294967288 \<Longrightarrow>
      \<exists>r s'. alloc s n = Inr (r, s') \<and> owned k s' (case r of None \<Rightarrow> rs | Some p \<Rightarrow> (p, unat n) # rs)"
    and owned_disjoint: "owned k s rs \<Longrightarrow> sorted_wrt disj_range rs"
begin

lemma alloc_many_owned:
  "owned (k + length ns) s rs \<Longrightarrow> \<forall>n \<in> set ns. unat n \<le> 4294967288 \<Longrightarrow>
   \<exists>out s'. alloc_many alloc s ns = Inr (out, s') \<and> owned k s' (rev out @ rs)"
proof (induction ns arbitrary: s rs)
  case (Cons n ns)
  from alloc_law [of "k + length ns" s rs n] Cons.prems obtain r s1 where
    r: "alloc s n = Inr (r, s1)" "owned (k + length ns) s1 (case r of None \<Rightarrow> rs | Some p \<Rightarrow> (p, unat n) # rs)"
    by auto
  from Cons.IH [OF r(2)] Cons.prems(2) obtain out s2 where
    "alloc_many alloc s1 ns = Inr (out, s2)"
    "owned k s2 (rev out @ (case r of None \<Rightarrow> rs | Some p \<Rightarrow> (p, unat n) # rs))" by auto
  then show ?case using r(1) by (cases r) auto
qed simp

end

interpretation mca: arena mc_alloc_op "mc_inv fr" for fr
proof
  fix k rs and s :: "ic_int_memory_container \<times> mem \<times> allocs" and n :: guint32
  assume "mc_inv fr (Suc k) s rs" "unat n \<le> 4294967288"
  then show "\<exists>r s'. mc_alloc_op s n = Inr (r, s') \<and> mc_inv fr k s' (case r of None \<Rightarrow> rs | Some p \<Rightarrow> (p, unat n) # rs)"
    using mc_alloc_ok by (cases s) (fastforce simp: mc_alloc_op_def)
next
  fix k rs and s :: "ic_int_memory_container \<times> mem \<times> allocs"
  assume "mc_inv fr k s rs"
  then show "sorted_wrt disj_range rs" by (auto simp: mc_inv_def mc_owns_def)
qed

interpretation mcz: arena mc_calloc_op "mc_inv fr" for fr
proof
  fix k rs and s :: "ic_int_memory_container \<times> mem \<times> allocs" and n :: guint32
  assume inv: "mc_inv fr (Suc k) s rs" and n: "unat n \<le> 4294967288"
  obtain mc m as where s: "s = (mc, m, as)" by (cases s)
  from mc_alloc_ok [OF inv [unfolded s] n] obtain r mc' m' as' where
    a: "mc_alloc as mc m n = Inr (r, mc', m', as')"
      "mc_inv fr k (mc', m', as') (case r of None \<Rightarrow> rs | Some p \<Rightarrow> (p, unat n) # rs)" by blast
  show "\<exists>r s'. mc_calloc_op s n = Inr (r, s') \<and> mc_inv fr k s' (case r of None \<Rightarrow> rs | Some p \<Rightarrow> (p, unat n) # rs)"
  proof (cases r)
    case (Some p)
    from zero_inv [of fr k mc' m' as' "(p, unat n) # rs" p "unat n"] a Some
    show ?thesis by (fastforce simp: mc_calloc_op_def mc_calloc_def s)
  qed (use a in \<open>auto simp: mc_calloc_op_def mc_calloc_def s\<close>)
qed (rule mca.owned_disjoint)

section \<open>Creation, reset and release\<close>

lemma free_slots_all:
  assumes "distinct bs" and "\<forall>b \<in> set bs. blocks m b \<noteq> None" and "\<forall>i \<in> set is. i < length arr"
    and "map (nth arr) is = map Some bs"
  shows "free_slots m arr is = Inr (m\<lparr>blocks := (\<lambda>b. if b \<in> set bs then None else blocks m b)\<rparr>)"
  using assms
proof (induction "is" arbitrary: bs m)
  case (Cons i "is")
  then obtain b bs' where bs: "bs = b # bs'" "arr ! i = Some b" "map (nth arr) is = map Some bs'" by auto
  let ?m = "m\<lparr>blocks := (blocks m)(b := None)\<rparr>"
  have "\<forall>c \<in> set bs'. blocks ?m c \<noteq> None" using Cons.prems(1,2) bs(1) by auto
  then have "free_slots ?m arr is = Inr (?m\<lparr>blocks := (\<lambda>c. if c \<in> set bs' then None else blocks ?m c)\<rparr>)"
    using Cons.prems bs by (intro Cons.IH) auto
  moreover have "(\<lambda>c. if c \<in> set bs' then None else blocks ?m c) =
      (\<lambda>c. if c \<in> set bs then None else blocks m c)" by (auto simp: bs)
  ultimately show ?case using Cons.prems bs by (auto simp: ic_free_mc_def)
qed simp

lemma base_buf_size:
  assumes "0 < base" and "0 < mx \<longrightarrow> ucast base \<le> mx \<and> unat mx < 4294967296"
  shows "\<exists>n. mc_get_base_buf_size mx base = Inr n \<and> 0 < n"
proof (cases "mx = 0")
  case False
  then have mx: "(ucast base :: guint64) \<le> mx" "unat mx < 4294967296" using assms(2) by (auto simp: word_neq_0_conv)
  have b: "unat (ucast base :: guint64) = unat base" "0 < unat base"
    using unat_bound32 [of base] assms(1) by (simp_all add: unsigned_ucast_eq take_bit_eq_mod unat_gt_0)
  have "unat (mx + ucast base) = unat mx + unat base"
    using mx b unat_bound32 [of base] by (subst unat_add_small) simp_all
  then have s: "unat (mx + ucast base - 1) = unat mx + unat base - 1"
    using b by (subst unat_sub) (auto simp: word_le_nat_alt)
  let ?q = "(mx + ucast base - 1) div ucast base :: guint64"
  have q: "unat ?q = (unat mx + unat base - 1) div unat base" by (simp add: unat_div s b)
  have "unat base \<le> unat mx" using mx(1) b by (simp add: word_le_nat_alt)
  then have "0 < (unat mx + unat base - 1) div unat base" using b by (simp add: div_greater_zero_iff)
  moreover have "(unat mx + unat base - 1) div unat base < unat mx + 1"
    using b by (intro less_mult_imp_div_less) (simp add: add_mult_distrib less_eq_Suc_le)
  ultimately have "0 < unat (ucast ?q :: guint32)"
    using q mx(2) by (simp add: unsigned_ucast_eq take_bit_eq_mod)
  then show ?thesis using False assms(1) by (simp add: mc_get_base_buf_size_def unat_gt_0 word_neq_0_conv)
qed (simp add: mc_get_base_buf_size_def)

lemma mc_free_blocks:
  assumes "mc_shape mc m xs rest"
  shows "mc_free mc m =
    Inr (m\<lparr>blocks := (\<lambda>b. if b \<in> set (xs @ [fst (current_buf mc)]) then None else blocks m b)\<rparr>)"
proof -
  let ?bs = "xs @ [fst (current_buf mc)]"
  have arr: "buf_array mc = map Some ?bs @ rest" and n: "unat (current_buf_inx mc) = length xs"
    using assms by (auto simp: mc_shape_def)
  have "map (nth (buf_array mc)) [0 ..< Suc (length xs)] = map Some ?bs"
    unfolding arr by (rule nth_equalityI) (auto simp: nth_append simp del: upt_Suc)
  then show ?thesis unfolding mc_free_def n
    using assms by (intro free_slots_all) (auto simp: mc_shape_def)
qed

lemma mc_free_inv:
  assumes "mc_inv fr k (mc, m, as) rs"
  shows "\<exists>m'. mc_free mc m = Inr m' \<and> blocks m' = fr"
proof -
  obtain xs rest where s: "mc_shape mc m xs rest" "mc_owns fr mc m xs rs"
    using assms by (auto simp: mc_inv_def)
  then have "(\<lambda>b. if b \<in> set (xs @ [fst (current_buf mc)]) then None else blocks m b) = fr"
    by (auto simp: mc_owns_def)
  with mc_free_blocks [OF s(1)] show ?thesis by auto
qed

lemma mc_alloc_plenty:
  assumes "mc_alloc [] mc m n = Inr (r, mc', m', as')" and "max_size mc = 0"
  shows "r \<noteq> None \<and> as' = [] \<and> max_size mc' = 0"
  using assms
  by (auto simp: mc_alloc_def mc_alloc_locked_def mc_new_buffer_def mc_realloc_buf_array_def ic_calloc_mc_def Let_def
      ic_mutex_lock_def ic_mutex_unlock_def cfault split: if_splits option.splits)

lemma swap_front:
  assumes "i < length bs" and "arr = map Some bs @ rest"
  shows "\<exists>ys. arr[i := arr ! 0, 0 := arr ! i] = map Some (bs ! i # ys) @ rest \<and>
     mset (bs ! i # ys) = mset bs \<and> length ys = length bs - 1"
proof -
  let ?b = "bs[i := bs ! 0, 0 := bs ! i]"
  have ne: "bs \<noteq> []" using assms(1) by auto
  have l: "?b = bs ! i # tl ?b" using ne by (cases bs) (auto split: nat.splits)
  have "arr[i := arr ! 0, 0 := arr ! i] = map Some ?b @ rest"
    using assms ne by (simp add: list_update_append nth_append map_update)
  moreover have "mset ?b = mset bs" using assms(1) ne by (intro mset_swap) auto
  ultimately show ?thesis using l by (intro exI [of _ "tl ?b"]) (metis length_list_update length_tl)
qed

lemma reset_free:
  assumes "mset (b # ys) = mset bs" and "distinct bs" and "\<forall>b \<in> set bs. blocks m b \<noteq> None"
  shows "free_slots m (map Some (b # ys) @ rest) [1 ..< length bs] =
    Inr (m\<lparr>blocks := (\<lambda>c. if c \<in> set bs - {b} then None else blocks m c)\<rparr>)"
proof -
  have l: "length bs = Suc (length ys)" using assms(1) by (metis length_Cons size_mset)
  have d: "distinct (b # ys)" using assms(1,2) by (metis mset_eq_imp_distinct_iff)
  have st: "set bs = insert b (set ys)" using assms(1) by (metis list.set(2) set_mset_mset)
  then have "set bs - {b} = set ys" using d by auto
  moreover have "map (nth (map Some (b # ys) @ rest)) [1 ..< Suc (length ys)] = map Some ys"
    by (rule nth_equalityI) (auto simp: nth_append simp del: upt_Suc)
  then have "free_slots m (map Some (b # ys) @ rest) [1 ..< Suc (length ys)] =
      Inr (m\<lparr>blocks := (\<lambda>c. if c \<in> set ys then None else blocks m c)\<rparr>)"
    using d assms(3) st by (intro free_slots_all) auto
  ultimately show ?thesis by (simp add: l)
qed

lemma reset_shrink:
  assumes len: "length (buf_array mc) = unat (buf_array_size mc)" and n: "0 < n" and ne: "buf_array mc \<noteq> []"
  shows "\<exists>ok mc' as'. (if n < buf_array_size mc then mc_realloc_buf_array as mc n else Inr (True, mc, as)) =
      Inr (ok, mc', as') \<and>
    (\<exists>arr k. mc' = mc\<lparr>buf_array := arr, buf_array_size := k\<rparr> \<and> length arr = unat k \<and> 0 < k \<and>
       k \<le> buf_array_size mc \<and> arr ! 0 = buf_array mc ! 0)"
proof (cases "n < buf_array_size mc \<and> fst (alloc_next as)")
  case True
  then have "n < buf_array_size mc" "\<not> buf_array_size mc < n" "unat n < unat (buf_array_size mc)"
    by (auto simp: word_less_nat_alt)
  moreover have "0 < unat n" using n by (simp add: unat_gt_0)
  ultimately show ?thesis using True len n
    by (auto simp: mc_realloc_buf_array_def Let_def rd_blk_def split: prod.splits
        intro!: exI [of _ "take (unat n) (buf_array mc)"] exI [of _ n])
next
  case False
  have "0 < buf_array_size mc" using len ne by (metis length_0_conv unat_0 word_gt_0)
  then have "\<exists>arr k. mc = mc\<lparr>buf_array := arr, buf_array_size := k\<rparr> \<and> length arr = unat k \<and> 0 < k \<and>
       k \<le> buf_array_size mc \<and> arr ! 0 = buf_array mc ! 0"
    using len by (intro exI [of _ "buf_array mc"] exI [of _ "buf_array_size mc"]) simp
  with False show ?thesis by (auto simp: mc_realloc_buf_array_def Let_def split: prod.splits)
qed

lemma mc_reset_ok:
  assumes s: "mc_shape mc m xs rest" and mx: "mutex_ok mc"
  shows "\<exists>mc' as' b0 k. mc_reset as mc m =
      Inr (mc', m\<lparr>blocks := (\<lambda>b. if b \<in> set (xs @ [fst (current_buf mc)]) - {b0} then None else blocks m b)\<rparr>, as') \<and>
    b0 \<in> set (xs @ [fst (current_buf mc)]) \<and> block_len m b0 = unat (base_size mc) \<and> 0 < k \<and> k \<le> buf_array_size mc \<and>
    mc' = mc\<lparr>current_buf := (b0, 0), buf_array := Some b0 # replicate (unat k - 1) None, buf_array_size := k,
      total_size := 0, current_buf_inx := 0, current_free_len := base_size mc, first_buf_inx := 0\<rparr>"
proof -
  let ?bs = "xs @ [fst (current_buf mc)]" and ?i = "unat (first_buf_inx mc)"
  have arr: "buf_array mc = map Some ?bs @ rest" and i: "?i < length ?bs"
    and len: "length (buf_array mc) = unat (buf_array_size mc)" and n: "Suc (unat (current_buf_inx mc)) = length ?bs"
    and d: "distinct ?bs" and lv: "\<forall>b \<in> set ?bs. blocks m b \<noteq> None"
    and first: "block_len m (?bs ! ?i) = unat (base_size mc)"
    and mxs: "0 < base_size mc" "0 < max_size mc \<longrightarrow> ucast (base_size mc) \<le> max_size mc \<and> unat (max_size mc) < 4294967296"
    using s by (auto simp: mc_shape_def)
  define mc1 where "mc1 = (if use_mutex mc then mc\<lparr>mutex := Some True\<rparr> else mc)"
  have lock: "(if use_mutex mc then ic_mutex_lock mc else Inr mc) = Inr mc1"
    using mx by (simp add: mutex_ok_def ic_mutex_lock_def mc1_def)
  have mc1: "buf_array mc1 = buf_array mc" "first_buf_inx mc1 = first_buf_inx mc" "current_buf_inx mc1 = current_buf_inx mc"
    "max_size mc1 = max_size mc" "base_size mc1 = base_size mc" "buf_array_size mc1 = buf_array_size mc" by (simp_all add: mc1_def)
  obtain ys where ys: "(buf_array mc)[?i := buf_array mc ! 0, 0 := buf_array mc ! ?i] = map Some (?bs ! ?i # ys) @ rest"
    "mset (?bs ! ?i # ys) = mset ?bs" using swap_front [OF i arr] by blast
  obtain sz where sz: "mc_get_base_buf_size (max_size mc) (base_size mc) = Inr sz" "0 < sz"
    using base_buf_size [OF mxs] by blast
  define arr2 where "arr2 = map Some (?bs ! ?i # ys) @ rest"
  define mc2 where "mc2 = mc1\<lparr>buf_array := arr2, first_buf_inx := 0\<rparr>"
  have "length (buf_array mc2) = unat (buf_array_size mc2)"
    using ys(1) len by (simp add: mc2_def mc1 arr2_def)
      (metis length_list_update length_Cons length_append length_map)
  from reset_shrink [OF this sz(2), of as] obtain ok mc3 as' a k where
    sh: "(if sz < buf_array_size mc2 then mc_realloc_buf_array as mc2 sz else Inr (True, mc2, as)) = Inr (ok, mc3, as')"
    "mc3 = mc2\<lparr>buf_array := a, buf_array_size := k\<rparr>" "length a = unat k" "0 < k" "k \<le> buf_array_size mc"
    "a ! 0 = Some (?bs ! ?i)" by (auto simp: mc2_def mc1 arr2_def)
  have k: "0 < unat k" "unat (k - 1) = unat k - 1" using sh(4) by (simp_all add: unat_gt_0 unat_minus_one)
  have "a \<noteq> []" using sh(3) k by auto
  then have a: "take 1 a = [Some (?bs ! ?i)]" using sh(6) by (cases a) auto
  have z: "wr_blk a 1 (replicate (unat (k - 1)) None) = Inr (Some (?bs ! ?i) # replicate (unat k - 1) None)"
    using sh(3) k a by simp
  have rdw: "0 < length (buf_array mc)" "?i < length (buf_array mc)" using arr i by auto
  have fr: "free_slots m arr2 [1 ..< Suc (unat (current_buf_inx mc))] =
      Inr (m\<lparr>blocks := (\<lambda>b. if b \<in> set ?bs - {?bs ! ?i} then None else blocks m b)\<rparr>)"
    unfolding n arr2_def by (rule reset_free [OF ys(2) d lv])
  define mc4 where "mc4 = mc\<lparr>current_buf := (?bs ! ?i, 0), buf_array := Some (?bs ! ?i) # replicate (unat k - 1) None,
      buf_array_size := k, total_size := 0, current_buf_inx := 0, current_free_len := base_size mc, first_buf_inx := 0\<rparr>"
  let ?mc5 = "mc3\<lparr>buf_array := Some (?bs ! ?i) # replicate (unat k - 1) None, current_buf := (?bs ! ?i, 0), total_size := 0,
      current_buf_inx := 0, current_free_len := base_size mc3\<rparr>"
  have un: "(if use_mutex ?mc5 then ic_mutex_unlock ?mc5 else Inr ?mc5) = Inr mc4"
    using mx by (simp add: sh(2) mc2_def mc1_def mc4_def ic_mutex_unlock_def mutex_ok_def)
  have a3: "buf_array mc3 = a" "buf_array_size mc3 = k" by (simp_all add: sh(2))
  have "mc_reset as mc m = Inr (mc4, m\<lparr>blocks := (\<lambda>b. if b \<in> set ?bs - {?bs ! ?i} then None else blocks m b)\<rparr>, as')"
    using rdw
    by (simp only: mc_reset_def lock c_bind_simps mc1 rd_in wr_in length_list_update ys(1) arr2_def [symmetric]
        fr sz(1) Let_def mc2_def [symmetric] sh(1) prod.case a3 z nth_Cons_0 length_Cons zero_less_Suc option.case un)
  moreover have "?bs ! ?i \<in> set ?bs" using i by (rule nth_mem)
  ultimately show ?thesis using first sh(4,5) unfolding mc4_def by blast
qed

lemma base_buf_size_bound:
  assumes "128 \<le> base" and "mc_get_base_buf_size (ucast (mx :: guint32)) base = Inr n"
  shows "unat n \<le> 33554433"
proof (cases "mx = 0")
  case False
  have b: "unat (ucast base :: guint64) = unat base" "unat (ucast mx :: guint64) = unat mx" "128 \<le> unat base"
    using unat_bound32 [of base] unat_bound32 [of mx] assms(1)
    by (simp_all add: unsigned_ucast_eq take_bit_eq_mod word_le_nat_alt)
  have ne: "(ucast mx :: guint64) \<noteq> 0" "base \<noteq> 0" using False b by (auto simp: unat_eq_0 [symmetric])
  have "unat (ucast mx + ucast base :: guint64) = unat mx + unat base"
    using b unat_bound32 [of base] unat_bound32 [of mx] by (subst unat_add_small) simp_all
  then have s: "unat (ucast mx + ucast base - 1 :: guint64) = unat mx + unat base - 1"
    using b by (subst unat_sub) (auto simp: word_le_nat_alt)
  let ?q = "(ucast mx + ucast base - 1) div ucast base :: guint64"
  have "unat ?q = (unat mx + unat base - 1) div unat base" by (simp add: unat_div s b)
  also have "\<dots> \<le> (unat mx + unat base) div unat base" by (simp add: div_le_mono)
  also have "\<dots> = unat mx div unat base + 1" using b by (simp add: div_add_self2)
  also have "\<dots> \<le> unat mx div 128 + 1" using b by (simp add: div_le_mono2)
  also have "\<dots> \<le> 33554433" using unat_bound32 [of mx] by simp
  finally have "unat ?q \<le> 33554433" .
  moreover have "n = ucast ?q" using assms(2) ne by (simp add: mc_get_base_buf_size_def)
  ultimately show ?thesis by (simp add: unsigned_ucast_eq take_bit_eq_mod)
qed (use assms in \<open>auto simp: mc_get_base_buf_size_def\<close>)

lemma create_ok:
  assumes "mem_ok m" and "unat base \<le> 4294967288" and "unat mx \<le> 4294967288"
    and "ic_create_memory_container as m base mx mt = Inr (Some mc, m', as')"
  shows "mc_inv (blocks m) 250000000 (mc, m', as') [] \<and> 128 \<le> base_size mc"
proof -
  define b1 where "b1 = (if base < MC_MIN_BASE_SIZE then MC_MIN_BASE_SIZE else base)"
  define b2 where "b2 = ic_align b1 8"
  define x1 where "x1 = ic_align mx 8"
  define x2 where "x2 = (if 0 < x1 \<and> x1 < b2 then b2 else x1)"
  have "128 \<le> unat b1" "unat b1 \<le> 4294967288"
    using assms(2) by (auto simp: b1_def MC_MIN_BASE_SIZE_def not_less word_le_nat_alt)
  then have b2: "128 \<le> unat b2" using align8_ge [of b1] by (simp add: b2_def)
  then have b2': "128 \<le> b2" "0 < b2" by (simp_all add: word_le_nat_alt word_less_nat_alt)
  have u: "unat (ucast y :: guint64) = unat y" for y :: guint32
    using unat_bound32 [of y] by (simp add: unsigned_ucast_eq take_bit_eq_mod)
  have mxs: "0 < (ucast x2 :: guint64) \<longrightarrow> (ucast b2 :: guint64) \<le> ucast x2 \<and> unat (ucast x2 :: guint64) < 4294967296"
    using unat_bound32 [of x2] by (auto simp: u x2_def word_less_nat_alt word_le_nat_alt)
  from base_buf_size [OF b2'(2) mxs] obtain n where n: "mc_get_base_buf_size (ucast x2) b2 = Inr n" "0 < n" by blast
  have n': "unat n \<le> 33554433" "0 < unat n" using base_buf_size_bound [OF b2'(1) n(1)] n(2) by (simp_all add: unat_gt_0)
  define m1 where "m1 = m\<lparr>blocks := (blocks m)(next_id m \<mapsto> replicate (unat b2) 0), next_id := Suc (next_id m)\<rparr>"
  define arr where "arr = (replicate (unat n) None)[0 := Some (next_id m)]"
  have arr: "arr = Some (next_id m) # replicate (unat n - 1) None"
    using n'(2) by (cases "unat n") (simp_all add: arr_def)
  have r: "mc = \<lparr>current_buf = (next_id m, 0), buf_array = arr, total_size = 0, max_size = ucast x2, base_size = b2,
      buf_array_size = n, current_buf_inx = 0, current_free_len = b2, first_buf_inx = 0, use_mutex = mt,
      mutex = (if mt then Some False else None)\<rparr> \<and> m' = m1"
  proof -
    obtain ok1 a1 ok2 a2 ok3 a3 ok4 a4 where al: "alloc_next as = (ok1, a1)" "alloc_next a1 = (ok2, a2)"
      "alloc_next a2 = (ok3, a3)" "alloc_next a3 = (ok4, a4)" by (metis surj_pair)
    have w: "wr (replicate (unat n) None) 0 (Some (next_id m)) = Inr arr" using n'(2) by (simp add: arr_def)
    show ?thesis using assms(4)
      unfolding ic_create_memory_container_def Let_def b1_def [symmetric] b2_def [symmetric] x1_def [symmetric]
        x2_def [symmetric] n(1) c_bind_simps ic_calloc_mc_def m1_def al prod.case w
      by (cases ok1; cases ok2; cases ok3; cases ok4; cases mt) (auto simp: al w ic_free_mc_def)
  qed
  have "mc_shape mc m1 [] (replicate (unat n - 1) None)"
    using assms(1) b2' mxs n' by (auto simp: r mc_shape_def arr m1_def mem_ok_def)
  moreover have "mc_owns (blocks m) mc m1 [] []" 
    using assms(1) by (simp add: mc_owns_def r m1_def mem_ok_def)
  ultimately have "mc_inv (blocks m) 250000000 (mc, m1, as') []"
    by (rule mc_invI) (use n' in \<open>simp_all add: r mutex_ok_def\<close>)
  then show ?thesis using r b2'(1) by simp
qed

lemma small_container:
  "\<exists>mc m' as'. ic_create_memory_container [] \<lparr>blocks = (\<lambda>_. None), next_id = 0\<rparr> 128 0 True = Inr (Some mc, m', as')"
  by (simp add: ic_create_memory_container_def MC_MIN_BASE_SIZE_def ic_align_def mc_get_base_buf_size_def
      ic_calloc_mc_def)

lemma small_container_inv:
  "ic_create_memory_container [] \<lparr>blocks = (\<lambda>_. None), next_id = 0\<rparr> 128 0 True = Inr (Some mc, m', as') \<Longrightarrow>
   mc_inv (\<lambda>_. None) 250000000 (mc, m', as') []"
  using create_ok [of "\<lparr>blocks = (\<lambda>_. None), next_id = 0\<rparr>" 128 0 "[]" True mc m' as']
  by (simp add: mem_ok_def)

section \<open>Properties\<close>

text \<open>
  C6. The pieces of memory a container hands out never overlap. For a container made by
  \<^verbatim>\<open>ic_create_memory_container\<close> and any requests of at most \<open>2^32 - 8\<close> bytes each, whatever the
  outcomes of the allocations behind it, no call faults; every non-null pointer returned is 8-byte
  aligned and names a range inside a live block, the ranges are pairwise disjoint, and with a
  maximum size given their sizes sum up to at most that maximum.
\<close>

theorem mc_allocations_disjoint:
  assumes "mem_ok m" and "unat base \<le> 4294967288" and "unat mx \<le> 4294967288"
    and "ic_create_memory_container as m base mx mt = Inr (Some mc, m', as')"
    and "length ns \<le> 250000000" and "\<forall>n \<in> set ns. unat n \<le> 4294967288"
  shows "\<exists>out mc2 m2 as2. alloc_many mc_alloc_op (mc, m', as') ns = Inr (out, (mc2, m2, as2)) \<and>
    sorted_wrt disj_range out \<and> (\<forall>r \<in> set out. in_mem m2 r) \<and>
    (0 < max_size mc2 \<longrightarrow> sum_list (map snd out) \<le> unat (max_size mc2))"
proof -
  have inv: "mc_inv (blocks m) 250000000 (mc, m', as') []" using create_ok [OF assms(1-4)] by simp
  then have "mc_inv (blocks m) (250000000 - length ns + length ns) (mc, m', as') []" using assms(5) by simp
  from mca.alloc_many_owned [OF this assms(6)] obtain out mc2 m2 as2 where
    r: "alloc_many mc_alloc_op (mc, m', as') ns = Inr (out, (mc2, m2, as2))"
      "mc_inv (blocks m) (250000000 - length ns) (mc2, m2, as2) (rev out)" by auto
  have "sorted_wrt disj_range (rev out)" by (rule mca.owned_disjoint [OF r(2)])
  then have "sorted_wrt (\<lambda>x y. disj_range y x) out" by (simp add: sorted_wrt_rev)
  then have "sorted_wrt disj_range out" by (rule sorted_wrt_mono_rel [rotated]) auto
  moreover have "0 < max_size mc2 \<longrightarrow> sum_list (map snd out) \<le> unat (max_size mc2)"
    using r(2) by (force simp: mc_inv_def mc_owns_def mc_shape_def word_le_nat_alt rev_map [symmetric])
  ultimately show ?thesis using r inv_owns [OF r(2)] by auto
qed

theorem mc_allocations_disjoint_witness:
  "\<exists>mc m' as'. ic_create_memory_container [] \<lparr>blocks = (\<lambda>_. None), next_id = 0\<rparr> 128 0 True = Inr (Some mc, m', as') \<and>
     (\<exists>out mc2 m2 as2. alloc_many mc_alloc_op (mc, m', as') [100, 20, 200, 8] = Inr (out, (mc2, m2, as2)) \<and>
       sorted_wrt disj_range out \<and> (\<forall>r \<in> set out. in_mem m2 r))"
proof -
  let ?m = "\<lparr>blocks = (\<lambda>_. None), next_id = 0\<rparr> :: mem"
  obtain mc m' as' where c: "ic_create_memory_container [] ?m 128 0 True = Inr (Some mc, m', as')"
    using small_container by blast
  have "mem_ok ?m" by (simp add: mem_ok_def)
  from mc_allocations_disjoint [OF this _ _ c, of "[100, 20, 200, 8]"] c show ?thesis by (auto simp del: alloc_many.simps)
qed





text \<open>
  The rounding of a request to a multiple of 8 is done at 32 bits: a request for more than
  \<open>2^32 - 8\<close> bytes becomes a request for none, and a container without a maximum answers it with the
  current position, as if the memory were there.
\<close>

theorem mc_alloc_huge_request:
  assumes "4294967288 < unat n" and "mc_inv fr k (mc, m, as) rs" and "max_size mc = 0"
  shows "\<exists>mc'. mc_alloc as mc m n = Inr (Some (current_buf mc), mc', m, as) \<and>
    current_buf mc' = current_buf mc \<and> current_free_len mc' = current_free_len mc"
proof -
  have "unat (n + 7) = unat n + 7 - 4294967296"
    using assms(1) unat_bound32 [of n] by (simp add: unat_word_ariths mod_if)
  then have "unat ((n + 7) div 8) = 0" using unat_bound32 [of n] by (simp add: unat_div)
  then have "ic_align n 8 = 0" by (simp add: ic_align_def unat_eq_0)
  then show ?thesis using assms(2,3)
    by (auto simp: mc_alloc_def mc_alloc_locked_def mc_inv_def mutex_ok_def ic_mutex_lock_def ic_mutex_unlock_def)
qed

theorem mc_alloc_huge_request_witness:
  "\<exists>mc m as mc'. mc_inv (\<lambda>_. None) 250000000 (mc, m, as) [] \<and>
     mc_alloc as mc m 4294967295 = Inr (Some (current_buf mc), mc', m, as)"
proof -
  obtain mc m' as' where c:
    "ic_create_memory_container [] \<lparr>blocks = (\<lambda>_. None), next_id = 0\<rparr> 128 0 True = Inr (Some mc, m', as')"
    using small_container by blast
  then have i: "mc_inv (\<lambda>_. None) 250000000 (mc, m', as') []" by (rule small_container_inv)
  have "max_size mc = 0" using c
    by (auto simp: ic_create_memory_container_def MC_MIN_BASE_SIZE_def ic_align_def mc_get_base_buf_size_def
        ic_calloc_mc_def)
  from mc_alloc_huge_request [OF _ i this, of 4294967295] i show ?thesis by auto
qed

end
