(* ===== verification/IC_String.thy ===== *)
theory IC_String
  imports Prelude
begin

text \<open>
  \<^verbatim>\<open>src/util/ic_string.c\<close>: the string type \<^verbatim>\<open>IC_STRING\<close>, conversions between numbers and
  strings, comparison, copying, and the construction of directory and file names.

  A \<^verbatim>\<open>gchar*\<close> is the identity of an object and the bytes of that object from the pointer on;
  \<open>None\<close> is the null pointer. Reading or writing beyond those bytes is the fault \<open>OutOfBounds\<close>.
  Objects from \<^verbatim>\<open>ic_malloc\<close> are recorded in a heap, so that a leak is an identity that stays in the
  heap and a double free the fault \<open>InvalidFree\<close>. None of the modelled functions is called with
  overlapping arguments, so that a write through one argument is not seen through another.

  Functions that take a memory container call it through its function pointer \<^verbatim>\<open>ic_mc_alloc\<close>: the
  model takes that function as an argument.
\<close>

section \<open>Memory objects\<close>

type_synonym gptr = "nat \<times> char list"

record heap =
  live :: "nat set"
  next_obj :: nat
  fill :: "nat \<Rightarrow> char"
  outcomes :: allocs

definition ic_malloc :: "heap \<Rightarrow> nat \<Rightarrow> gptr option \<times> heap" where
  "ic_malloc h n =
     (case alloc_next (outcomes h) of (ok, as) \<Rightarrow>
        if ok then (Some (next_obj h, map (fill h) [0 ..< n]),
                    h\<lparr>live := insert (next_obj h) (live h), next_obj := Suc (next_obj h), outcomes := as\<rparr>)
        else (None, h\<lparr>outcomes := as\<rparr>))"

definition ic_free :: "heap \<Rightarrow> gptr \<Rightarrow> fault + heap" where
  "ic_free h p = (if fst p \<in> live h then Inr (h\<lparr>live := live h - {fst p}\<rparr>) else Inl InvalidFree)"

text \<open>\<^verbatim>\<open>strlen\<close>, \<^verbatim>\<open>toupper\<close> and \<^verbatim>\<open>islower\<close> of the C library (in the C locale).\<close>

fun c_strlen :: "char list \<Rightarrow> fault + nat" where
  "c_strlen [] = Inl OutOfBounds"
| "c_strlen (c # cs) = (if c = NULL_BYTE then Inr 0 else c_bind (c_strlen cs) (\<lambda>n. Inr (Suc n)))"

definition islower :: "char \<Rightarrow> bool" where
  "islower c \<longleftrightarrow> 97 \<le> (of_char c :: nat) \<and> (of_char c :: nat) \<le> 122"

definition toupper :: "char \<Rightarrow> char" where
  "toupper c = (if islower c then char_of ((of_char c :: nat) - 32) else c)"

section \<open>IC_STRING\<close>

record ic_string =
  str :: "gptr option"
  len :: guint32
  is_null_terminated :: bool

definition IC_INIT_STRING :: "gptr option \<Rightarrow> guint32 \<Rightarrow> bool \<Rightarrow> ic_string" where
  "IC_INIT_STRING a b c = \<lparr>str = a, len = b, is_null_terminated = c\<rparr>"

definition lit :: "string \<Rightarrow> ic_string" where
  "lit s = IC_INIT_STRING (Some (0, s @ [NULL_BYTE])) (of_nat (length s)) True"

definition ic_version_file_string :: ic_string where "ic_version_file_string = lit ''_version''"
definition ic_config_string :: ic_string where "ic_config_string = lit ''config''"
definition ic_grid_common_config_string :: ic_string where "ic_grid_common_config_string = lit ''grid_common''"
definition ic_config_ending_string :: ic_string where "ic_config_ending_string = lit ''.ini''"
definition ic_binary_string :: ic_string where "ic_binary_string = lit ''bin''"

definition IC_MAX_INT_STRING :: nat where "IC_MAX_INT_STRING = 32"

text \<open>The first \<open>n\<close> bytes at a pointer; copying no bytes from a null pointer is harmless.\<close>

definition rd_ptr :: "gptr option \<Rightarrow> nat \<Rightarrow> fault + char list" where
  "rd_ptr p n =
     (case p of None \<Rightarrow> if n = 0 then Inr [] else Inl NullDeref
      | Some (i, d) \<Rightarrow> rd_blk d 0 n)"

definition ic_add_ic_string :: "ic_string \<Rightarrow> ic_string option \<Rightarrow> fault + ic_string" where
  "ic_add_ic_string dest_str input_str =
     (case input_str of None \<Rightarrow> Inr dest_str
      | Some inp \<Rightarrow>
          c_bind (rd_ptr (str inp) (unat (len inp))) (\<lambda>bs.
          case str dest_str of None \<Rightarrow> Inl NullDeref
          | Some (i, d) \<Rightarrow>
              c_bind (wr_blk d (unat (len dest_str)) bs) (\<lambda>d.
              c_bind (if is_null_terminated dest_str
                      then wr d (unat (len dest_str) + unat (len inp)) NULL_BYTE else Inr d) (\<lambda>d.
                Inr (dest_str\<lparr>str := Some (i, d), len := len dest_str + len inp\<rparr>)))))"

definition ic_add_string :: "ic_string \<Rightarrow> char list \<Rightarrow> fault + ic_string" where
  "ic_add_string dest_str input_str =
     c_bind (c_strlen input_str) (\<lambda>n.
       ic_add_ic_string dest_str (Some (IC_INIT_STRING (Some (0, input_str)) (of_nat n) True)))"

section \<open>Numbers\<close>

fun find_end :: "char list \<Rightarrow> char \<Rightarrow> fault + nat" where
  "find_end [] e = Inl OutOfBounds"
| "find_end (c # cs) e = (if c = e then Inr 0 else c_bind (find_end cs e) (\<lambda>n. Inr (Suc n)))"

fun rev_copy :: "char list \<Rightarrow> char list \<Rightarrow> nat \<Rightarrow> nat \<Rightarrow> fault + char list" where
  "rev_copy inb out j 0 = Inr out"
| "rev_copy inb out j (Suc i) =
     c_bind (rd inb i) (\<lambda>c. c_bind (wr out j c) (\<lambda>out. rev_copy inb out (j + 1) i))"

definition ic_reverse_str :: "char list \<Rightarrow> char list \<Rightarrow> char \<Rightarrow> fault + char list" where
  "ic_reverse_str in_buf out_buf end_char =
     c_bind (find_end in_buf end_char) (\<lambda>i.
     c_bind (rd in_buf i) (\<lambda>c.
     c_bind (wr out_buf i c) (\<lambda>out. rev_copy in_buf out 0 i)))"

definition dec_char :: "guint64 \<Rightarrow> char" where
  "dec_char tmp = char_of (48 + unat tmp)"

definition hex_char :: "guint64 \<Rightarrow> char" where
  "hex_char tmp = (if tmp < 10 then char_of (48 + unat tmp) else char_of (65 + unat (tmp - 10)))"

text \<open>The loops that write the digits of a number, least significant first, from index \<open>i\<close>.\<close>

function dec_loop :: "guint64 \<Rightarrow> nat \<Rightarrow> char list \<Rightarrow> fault + (nat \<times> char list)" where
  "dec_loop val i buf =
     (if val = 0 then Inr (i, buf)
      else c_bind (wr buf i (dec_char (val - (val div 10) * 10))) (\<lambda>buf. dec_loop (val div 10) (i + 1) buf))"
  by pat_completeness auto

lemma word_div_shrinks: "(1 :: nat) < unat b \<Longrightarrow> (v :: guint64) \<noteq> 0 \<Longrightarrow> unat (v div b) < unat v"
  by (simp add: unat_div unat_gt_0)

termination dec_loop
  by (relation "measure (\<lambda>(v, _). unat v)") (auto intro: word_div_shrinks)

function hex_loop :: "guint64 \<Rightarrow> nat \<Rightarrow> char list \<Rightarrow> fault + (nat \<times> char list)" where
  "hex_loop val i buf =
     (if val = 0 then Inr (i, buf)
      else c_bind (wr buf i (hex_char (val - (val div 16) * 16))) (\<lambda>buf. hex_loop (val div 16) (i + 1) buf))"
  by pat_completeness auto

termination hex_loop
  by (relation "measure (\<lambda>(v, _). unat v)") (auto intro: word_div_shrinks)

declare dec_loop.simps [simp del] hex_loop.simps [simp del]

text \<open>The result is the buffer after the call and the length stored through \<^verbatim>\<open>len\<close>.\<close>

definition ic_guint64_str :: "guint64 \<Rightarrow> char list \<Rightarrow> fault + (char list \<times> guint32)" where
  "ic_guint64_str val ptr =
     (let buf = replicate 128 NULL_BYTE in
      c_bind (if val = 0 then Inr (1, buf[0 := CHR ''0'']) else Inr (0, buf)) (\<lambda>(i, buf).
      c_bind (dec_loop val i buf) (\<lambda>(i, buf).
      c_bind (wr buf i NULL_BYTE) (\<lambda>buf.
      c_bind (ic_reverse_str buf ptr NULL_BYTE) (\<lambda>ptr. Inr (ptr, of_nat i))))))"

definition ic_guint64_hex_str :: "guint64 \<Rightarrow> char list \<Rightarrow> fault + char list" where
  "ic_guint64_hex_str val ptr =
     (let buf = replicate IC_MAX_INT_STRING NULL_BYTE in
      c_bind (if val = 0 then Inr (1, buf[0 := CHR ''0'']) else Inr (0, buf)) (\<lambda>(i, buf).
      c_bind (hex_loop val i buf) (\<lambda>(i, buf).
      c_bind (wr buf i NULL_BYTE) (\<lambda>buf.
      c_bind (ic_reverse_str buf (drop 2 ptr) NULL_BYTE) (\<lambda>p.
      c_bind (wr (take 2 ptr @ p) 0 (CHR ''0'')) (\<lambda>ptr. wr ptr 1 (CHR ''x'')))))))"

definition ic_set_number_ending_string :: "char list \<Rightarrow> guint64 \<Rightarrow> fault + char list" where
  "ic_set_number_ending_string buf number =
     c_bind (wr buf 0 (CHR ''.'')) (\<lambda>buf.
     c_bind (ic_guint64_str number (drop 1 buf)) (\<lambda>(p, _). Inr (take 1 buf @ p)))"

text \<open>
  \<^verbatim>\<open>g_ascii_strtoull\<close> of GLib is the argument \<open>strtoull\<close>: the value and the number of
  characters it consumed.
\<close>

definition ic_convert_str_to_int_fixed_size ::
  "(char list \<Rightarrow> guint64 \<times> nat) \<Rightarrow> char list \<Rightarrow> guint32 \<Rightarrow> fault + (bool \<times> guint64 option)"
where
  "ic_convert_str_to_int_fixed_size strtoull s num_chars =
     (if num_chars = 0 then Inr (True, None)
      else case strtoull s of (n, used) \<Rightarrow>
        if used = unat num_chars
        then if n \<noteq> 0 then Inr (False, Some n)
             else if num_chars = 1 then c_bind (rd s 0) (\<lambda>c. Inr (c \<noteq> CHR ''0'', Some n))
             else Inr (True, Some n)
        else Inr (True, Some n))"

section \<open>Searching, comparing and converting\<close>

fun find_first_loop :: "char list \<Rightarrow> char \<Rightarrow> nat \<Rightarrow> nat \<Rightarrow> fault + nat" where
  "find_first_loop d c i 0 = Inr i"
| "find_first_loop d c i (Suc n) =
     c_bind (rd d i) (\<lambda>x. if x = c then Inr i else find_first_loop d c (i + 1) n)"

definition ptr_data :: "gptr option \<Rightarrow> char list" where
  "ptr_data p = (case p of None \<Rightarrow> [] | Some (i, d) \<Rightarrow> d)"

definition ic_str_find_first :: "ic_string \<Rightarrow> char \<Rightarrow> fault + guint32" where
  "ic_str_find_first s c = c_bind (find_first_loop (ptr_data (str s)) c 0 (unat (len s))) (\<lambda>i. Inr (of_nat i))"

definition ic_get_ic_string :: "ic_string option \<Rightarrow> char list \<Rightarrow> fault + char list" where
  "ic_get_ic_string s buf_ptr =
     c_bind (wr buf_ptr 0 NULL_BYTE) (\<lambda>buf.
       case s of None \<Rightarrow> Inr buf
       | Some s \<Rightarrow> (case str s of None \<Rightarrow> Inr buf
           | Some p \<Rightarrow>
               c_bind (rd_ptr (Some p) (unat (len s))) (\<lambda>bs.
               c_bind (wr_blk buf 0 bs) (\<lambda>buf. wr buf (unat (len s)) NULL_BYTE))))"

text \<open>What is written to standard output.\<close>

definition ic_print_ic_string :: "ic_string \<Rightarrow> fault + char list" where
  "ic_print_ic_string s =
     (if is_null_terminated s
      then case str s of None \<Rightarrow> Inl NullDeref
           | Some (i, d) \<Rightarrow> c_bind (c_strlen d) (\<lambda>n. Inr (take n d @ [CHR 0x0A]))
      else c_bind (rd_ptr (str s) (unat (len s))) (\<lambda>bs. Inr (bs @ [CHR 0x0A])))"

text \<open>The comparisons return \<^verbatim>\<open>0\<close> for equal strings; here \<open>True\<close> is a non-zero result.\<close>

definition ic_cmp_str :: "ic_string \<Rightarrow> ic_string \<Rightarrow> fault + bool" where
  "ic_cmp_str first_str second_str =
     (if len first_str \<noteq> len second_str then Inr True
      else c_bind (rd_ptr (str first_str) (unat (len first_str))) (\<lambda>a.
           c_bind (rd_ptr (str second_str) (unat (len first_str))) (\<lambda>b. Inr (a \<noteq> b))))"

fun cmp_loop :: "(char \<Rightarrow> char) \<Rightarrow> char list \<Rightarrow> char list \<Rightarrow> nat \<Rightarrow> fault + bool" where
  "cmp_loop conv ns cs 0 = Inr False"
| "cmp_loop conv ns cs (Suc k) =
     c_bind (rd cs 0) (\<lambda>c. c_bind (rd ns 0) (\<lambda>n.
       if n \<noteq> conv c then Inr True else cmp_loop conv (drop 1 ns) (drop 1 cs) k))"

definition ic_cmp_null_term_str :: "char list \<Rightarrow> ic_string \<Rightarrow> fault + bool" where
  "ic_cmp_null_term_str null_term_str cmp_str =
     c_bind (c_strlen null_term_str) (\<lambda>n.
       if len cmp_str \<noteq> of_nat n then Inr True
       else cmp_loop id null_term_str (ptr_data (str cmp_str)) (unat (len cmp_str)))"

definition ic_cmp_null_term_str_upper :: "char list \<Rightarrow> ic_string \<Rightarrow> fault + bool" where
  "ic_cmp_null_term_str_upper null_term_str cmp_str =
     c_bind (c_strlen null_term_str) (\<lambda>n.
       if len cmp_str \<noteq> of_nat n then Inr True
       else cmp_loop toupper null_term_str (ptr_data (str cmp_str)) (unat (of_nat n :: guint32)))"

definition ic_cmp_null_term_str_upper_part :: "char list \<Rightarrow> ic_string \<Rightarrow> fault + bool" where
  "ic_cmp_null_term_str_upper_part null_term_str cmp_str =
     c_bind (c_strlen null_term_str) (\<lambda>n.
       if len cmp_str < of_nat n then Inr True
       else cmp_loop toupper null_term_str (ptr_data (str cmp_str)) (unat (of_nat n :: guint32)))"

definition ic_set_up_ic_string :: "ic_string \<Rightarrow> fault + ic_string" where
  "ic_set_up_ic_string s =
     (case str s of None \<Rightarrow> Inr (s\<lparr>len := 0, is_null_terminated := False\<rparr>)
      | Some (i, d) \<Rightarrow>
          c_bind (find_first_loop d NULL_BYTE 0 (unat (len s))) (\<lambda>n.
            if n < unat (len s) then Inr (s\<lparr>len := of_nat n, is_null_terminated := True\<rparr>)
            else Inr (s\<lparr>is_null_terminated := False\<rparr>)))"

fun count_chars_loop :: "char list \<Rightarrow> nat \<Rightarrow> fault + nat" where
  "count_chars_loop s 0 = Inr 0"
| "count_chars_loop s (Suc k) =
     c_bind (rd s 0) (\<lambda>c.
       if c = SPACE_CHAR \<or> c = CHR 0x0A \<or> c = NULL_BYTE then Inr 0
       else c_bind (count_chars_loop (drop 1 s) k) (\<lambda>n. Inr (Suc n)))"

definition ic_count_characters :: "char list \<Rightarrow> guint32 \<Rightarrow> fault + guint32" where
  "ic_count_characters s max_chars = c_bind (count_chars_loop s (unat max_chars)) (\<lambda>n. Inr (of_nat n))"

fun upper_loop :: "char list \<Rightarrow> char list \<Rightarrow> nat \<Rightarrow> nat \<Rightarrow> fault + char list" where
  "upper_loop out inp i 0 = Inr out"
| "upper_loop out inp i (Suc k) =
     c_bind (rd inp i) (\<lambda>c. c_bind (wr out i (toupper c)) (\<lambda>out. upper_loop out inp (i + 1) k))"

definition ic_convert_to_uppercase :: "char list \<Rightarrow> char list \<Rightarrow> guint32 \<Rightarrow> fault + char list" where
  "ic_convert_to_uppercase out_str in_str str_len = upper_loop out_str in_str 0 (unat str_len)"

section \<open>Lines\<close>

text \<open>The state of the loop is the number of lines and \<^verbatim>\<open>last_carriage_return\<close>, which starts uninitialised.\<close>

fun count_lines_loop :: "char list \<Rightarrow> guint64 \<Rightarrow> guint64 \<Rightarrow> guint64 option \<Rightarrow> nat \<Rightarrow> fault + (guint64 \<times> guint64 option)"
where
  "count_lines_loop s i lines last_cr 0 = Inr (lines, last_cr)"
| "count_lines_loop s i lines last_cr (Suc k) =
     c_bind (rd s (unat i)) (\<lambda>c.
       if c = CARRIAGE_RETURN then count_lines_loop s (i + 1) (lines + 1) (Some i) k
       else count_lines_loop s (i + 1) lines last_cr k)"

definition ic_count_lines :: "char list \<Rightarrow> guint64 \<Rightarrow> fault + guint64" where
  "ic_count_lines s str_size =
     c_bind (count_lines_loop s 0 0 None (unat str_size)) (\<lambda>(lines, last_cr).
       case last_cr of None \<Rightarrow> Inl UninitRead
       | Some i \<Rightarrow> Inr (if i + 1 \<noteq> str_size then lines + 1 else lines))"

fun next_line_loop :: "char list \<Rightarrow> char list \<Rightarrow> nat \<Rightarrow> nat \<Rightarrow> fault + (bool \<times> nat \<times> char list)" where
  "next_line_loop s buf i 0 = Inr (False, i, buf)"
| "next_line_loop s buf i (Suc k) =
     c_bind (rd s i) (\<lambda>c.
       if c = CARRIAGE_RETURN then Inr (True, i, buf)
       else c_bind (wr buf i c) (\<lambda>buf. next_line_loop s buf (i + 1) k))"

text \<open>
  The results of \<^verbatim>\<open>ic_get_next_line\<close>: the return code, the rest of the text and its size, the
  buffer and the line size. \<^verbatim>\<open>buf_size - 1\<close> is computed at 32 bits.
\<close>

definition ic_get_next_line ::
  "char list \<Rightarrow> guint64 \<Rightarrow> char list \<Rightarrow> guint32 \<Rightarrow> fault + (err \<times> char list \<times> guint64 \<times> char list \<times> guint32)"
where
  "ic_get_next_line s str_size buf buf_size =
     (let bmax = ucast (buf_size - 1) :: guint64;
          max_size = (if bmax < str_size then str_size else bmax)
      in c_bind (next_line_loop s buf 0 (unat max_size)) (\<lambda>(found, i, buf).
           if found \<or> (of_nat i :: guint64) = str_size
           then c_bind (wr buf i NULL_BYTE) (\<lambda>buf.
                  Inr (0, drop (i + 1) s, str_size - (of_nat i + 1), buf, of_nat i))
           else Inr (IC_ERROR_LINE_TOO_LONG, s, str_size, buf, 0)))"

section \<open>Copies\<close>

text \<open>
  The allocator a copy takes its memory from: \<open>ic_malloc\<close> when no memory container is given,
  the container's \<^verbatim>\<open>ic_mc_alloc\<close> otherwise. The request is a 32-bit number in both cases.
\<close>

type_synonym 'h allocator = "'h \<Rightarrow> guint32 \<Rightarrow> fault + (gptr option \<times> 'h)"

definition malloc_allocator :: "heap allocator" where
  "malloc_allocator h n = Inr (ic_malloc h (unat n))"

definition ic_mc_strdup :: "'h allocator \<Rightarrow> 'h \<Rightarrow> ic_string \<Rightarrow> fault + (err \<times> ic_string \<times> 'h)" where
  "ic_mc_strdup al h in_str =
     c_bind (al h (len in_str + 1)) (\<lambda>(r, h). case r of
         None \<Rightarrow> Inr (IC_ERROR_MEM_ALLOC, IC_INIT_STRING None 0 False, h)
       | Some (i, d) \<Rightarrow>
           c_bind (rd_ptr (str in_str) (unat (len in_str))) (\<lambda>bs.
           c_bind (wr_blk d 0 bs) (\<lambda>d.
           c_bind (wr d (unat (len in_str)) NULL_BYTE) (\<lambda>d.
             Inr (0, IC_INIT_STRING (Some (i, d)) (len in_str) (is_null_terminated in_str), h)))))"

definition ic_mc_char_to_strdup ::
  "'h allocator \<Rightarrow> 'h \<Rightarrow> gptr \<Rightarrow> guint32 \<Rightarrow> fault + (err \<times> ic_string option \<times> 'h)"
where
  "ic_mc_char_to_strdup al h s str_len =
     c_bind (al h 16) (\<lambda>(r, h). case r of
         None \<Rightarrow> Inr (IC_ERROR_MEM_ALLOC, None, h)
       | Some _ \<Rightarrow>
           c_bind (ic_mc_strdup al h (IC_INIT_STRING (Some s) str_len True)) (\<lambda>(rc, out, h).
             if rc \<noteq> 0 then Inr (IC_ERROR_MEM_ALLOC, None, h) else Inr (0, Some out, h)))"

definition ic_mc_chardup :: "'h allocator \<Rightarrow> 'h \<Rightarrow> gptr \<Rightarrow> fault + (err \<times> gptr option \<times> 'h)" where
  "ic_mc_chardup al h in_str =
     c_bind (c_strlen (snd in_str)) (\<lambda>n.
     c_bind (ic_mc_strdup al h (IC_INIT_STRING (Some in_str) (of_nat n) True)) (\<lambda>(rc, out, h).
       if rc \<noteq> 0 then Inr (rc, None, h) else Inr (0, str out, h)))"

definition ic_strdup :: "heap \<Rightarrow> ic_string \<Rightarrow> fault + (err \<times> ic_string \<times> heap)" where
  "ic_strdup = ic_mc_strdup malloc_allocator"

definition ic_chardup :: "heap \<Rightarrow> gptr \<Rightarrow> fault + (err \<times> gptr option \<times> heap)" where
  "ic_chardup = ic_mc_chardup malloc_allocator"

definition ic_mc_add_ic_string ::
  "'h allocator \<Rightarrow> 'h \<Rightarrow> ic_string \<Rightarrow> ic_string option \<Rightarrow> fault + (err \<times> ic_string \<times> 'h)"
where
  "ic_mc_add_ic_string al h dest_str in_str =
     (case in_str of None \<Rightarrow> Inr (0, dest_str, h)
      | Some inp \<Rightarrow>
          let new_len = len dest_str + len inp in
          c_bind (al h (new_len + 1)) (\<lambda>(r, h). case r of
              None \<Rightarrow> Inr (IC_ERROR_MEM_ALLOC, dest_str, h)
            | Some (i, d) \<Rightarrow>
                c_bind (rd_ptr (str dest_str) (unat (len dest_str))) (\<lambda>a.
                c_bind (wr_blk d 0 a) (\<lambda>d.
                c_bind (rd_ptr (str inp) (unat (len inp))) (\<lambda>b.
                c_bind (wr_blk d (unat (len dest_str)) b) (\<lambda>d.
                c_bind (wr d (unat new_len) NULL_BYTE) (\<lambda>d.
                  Inr (0, dest_str\<lparr>str := Some (i, d), len := new_len\<rparr>, h))))))))"

text \<open>The old string is freed in both cases.\<close>

definition free_str :: "heap \<Rightarrow> gptr option \<Rightarrow> fault + heap" where
  "free_str h p = (case p of None \<Rightarrow> Inr h | Some q \<Rightarrow> ic_free h q)"

definition ic_add_dup_string ::
  "heap \<Rightarrow> ic_string \<Rightarrow> char list option \<Rightarrow> fault + (err \<times> ic_string \<times> heap)"
where
  "ic_add_dup_string h dest_str add_str =
     (case add_str of None \<Rightarrow> Inr (0, dest_str, h)
      | Some add \<Rightarrow>
          c_bind (c_strlen add) (\<lambda>n.
          let add_len = of_nat n; orig_len = len dest_str; new_len = add_len + orig_len in
          case ic_malloc h (unat (new_len + 1)) of
            (None, h) \<Rightarrow>
              c_bind (free_str h (str dest_str)) (\<lambda>h. Inr (IC_ERROR_MEM_ALLOC, IC_INIT_STRING None 0 False, h))
          | (Some (i, d), h) \<Rightarrow>
              c_bind (if 0 < orig_len
                      then c_bind (rd_ptr (str dest_str) (unat orig_len)) (\<lambda>bs. wr_blk d 0 bs)
                      else Inr d) (\<lambda>d.
              c_bind (rd_blk add 0 (unat add_len)) (\<lambda>bs.
              c_bind (wr_blk d (unat orig_len) bs) (\<lambda>d.
              c_bind (wr d (unat new_len) NULL_BYTE) (\<lambda>d.
              c_bind (free_str h (str dest_str)) (\<lambda>h.
                Inr (0, dest_str\<lparr>str := Some (i, d), len := new_len\<rparr>, h))))))))"

section \<open>Directories and file names\<close>

text \<open>
  The calls that follow one another with \<^verbatim>\<open>goto error\<close> on the first that fails. The cleanup frees
  the string if there is one and makes it the empty string.
\<close>

definition then_str ::
  "fault + (err \<times> ic_string \<times> heap) \<Rightarrow> (ic_string \<Rightarrow> heap \<Rightarrow> fault + (err \<times> ic_string \<times> heap)) \<Rightarrow>
   fault + (err \<times> ic_string \<times> heap)"
where
  "then_str m f = c_bind m (\<lambda>(rc, d, h). if rc \<noteq> 0 then Inr (rc, d, h) else f d h)"

definition on_error :: "fault + (err \<times> ic_string \<times> heap) \<Rightarrow> fault + (err \<times> ic_string \<times> heap)" where
  "on_error m =
     c_bind m (\<lambda>(rc, d, h).
       if rc = 0 then Inr (0, d, h)
       else c_bind (free_str h (str d)) (\<lambda>h. Inr (rc, IC_INIT_STRING None 0 True, h)))"

definition c_str :: "string \<Rightarrow> char list option" where
  "c_str s = Some (s @ [NULL_BYTE])"

definition add_dir_slash :: "heap \<Rightarrow> ic_string \<Rightarrow> fault + (err \<times> ic_string \<times> heap)" where
  "add_dir_slash h dir =
     c_bind (ic_add_dup_string h dir (c_str ''/'')) (\<lambda>(rc, d, h).
       Inr (if rc \<noteq> 0 then IC_ERROR_MEM_ALLOC else 0, d, h))"

text \<open>The environment: what \<^verbatim>\<open>g_get_user_name\<close> and \<^verbatim>\<open>g_getenv("HOME")\<close> of GLib return.\<close>

record env =
  user_name :: string
  home_var :: "string option"

definition set_default_dir :: "env \<Rightarrow> heap \<Rightarrow> string \<Rightarrow> fault + (err \<times> ic_string \<times> heap)" where
  "set_default_dir env h default_dir =
     (let fail = (\<lambda>(rc, d, h). if rc = 0 then Inr (0, d, h)
                               else c_bind (free_str h (str d)) (\<lambda>h.
                                 Inr (IC_ERROR_MEM_ALLOC, if str d = None then d else IC_INIT_STRING None 0 True, h)))
      in c_bind (then_str
           (if user_name env = ''root''
            then ic_add_dup_string h (IC_INIT_STRING None 0 True) (c_str ''/var/lib/'')
            else then_str (ic_add_dup_string h (IC_INIT_STRING None 0 True)
                             (case home_var env of None \<Rightarrow> None | Some s \<Rightarrow> c_str s))
                   (\<lambda>d h. add_dir_slash h d))
           (\<lambda>d h. then_str (ic_add_dup_string h d (c_str default_dir)) (\<lambda>d h. add_dir_slash h d))) fail)"

definition ic_set_data_dir :: "env \<Rightarrow> heap \<Rightarrow> fault + (err \<times> ic_string \<times> heap)" where
  "ic_set_data_dir env h = set_default_dir env h ''iclaustron_data''"

definition ic_set_base_dir :: "env \<Rightarrow> heap \<Rightarrow> fault + (err \<times> ic_string \<times> heap)" where
  "ic_set_base_dir env h = set_default_dir env h ''iclaustron_install''"

definition ic_set_current_dir :: ic_string where
  "ic_set_current_dir = lit ''./''"

definition ic_add_dir :: "heap \<Rightarrow> ic_string \<Rightarrow> char list option \<Rightarrow> fault + (err \<times> ic_string \<times> heap)" where
  "ic_add_dir h dir dir_name =
     on_error (then_str (ic_add_dup_string h dir dir_name) (\<lambda>d h. add_dir_slash h d))"

definition ic_set_binary_dir :: "env \<Rightarrow> heap \<Rightarrow> string \<Rightarrow> fault + (err \<times> ic_string \<times> heap)" where
  "ic_set_binary_dir env h version =
     c_bind (on_error (ic_set_base_dir env h)) (\<lambda>(rc, d, h).
       if rc \<noteq> 0 then Inr (rc, d, h)
       else c_bind (ic_add_dir h d (c_str version)) (\<lambda>(rc, d, h).
         if rc \<noteq> 0 then Inr (rc, d, h)
         else on_error (ic_add_dir h d (c_str ''bin''))))"

text \<open>The buffer \<^verbatim>\<open>node_str_buf\<close> after the prefix and the node id are written.\<close>

definition node_str :: "string \<Rightarrow> guint32 \<Rightarrow> fault + char list" where
  "node_str pre node_id =
     c_bind (wr_blk (replicate 64 NULL_BYTE) 0 pre) (\<lambda>buf.
     c_bind (ic_guint64_str (ucast node_id) (drop (length pre) buf)) (\<lambda>(p, _).
       Inr (take (length pre) buf @ p)))"

definition ic_set_working_dir :: "env \<Rightarrow> heap \<Rightarrow> guint32 \<Rightarrow> bool \<Rightarrow> fault + (err \<times> ic_string \<times> heap)" where
  "ic_set_working_dir env h node_id is_node_process =
     on_error (then_str (ic_set_data_dir env h) (\<lambda>d h.
       if is_node_process
       then c_bind (node_str ''node_'' node_id) (\<lambda>buf. ic_add_dir h d (Some buf))
       else Inr (0, d, h)))"

definition ic_set_out_file ::
  "env \<Rightarrow> heap \<Rightarrow> guint32 \<Rightarrow> string \<Rightarrow> bool \<Rightarrow> bool \<Rightarrow> fault + (err \<times> ic_string \<times> heap)"
where
  "ic_set_out_file env h node_id program_name is_node_process is_log_file =
     (let ending = c_str (if is_log_file then ''.log'' else ''.pid'') in
      on_error (then_str (ic_set_data_dir env h) (\<lambda>d h.
        if is_node_process
        then c_bind (node_str ''node_'' node_id) (\<lambda>buf.
               then_str (ic_add_dir h d (Some buf)) (\<lambda>d h.
               then_str (ic_add_dup_string h d (Some buf)) (\<lambda>d h. ic_add_dup_string h d ending)))
        else then_str (ic_add_dup_string h d (c_str program_name)) (\<lambda>d h. ic_add_dup_string h d ending))))"

definition ic_set_config_dir :: "env \<Rightarrow> heap \<Rightarrow> bool \<Rightarrow> guint32 \<Rightarrow> fault + (err \<times> ic_string \<times> heap)" where
  "ic_set_config_dir env h is_cluster_server my_node_id =
     on_error (then_str (ic_set_data_dir env h) (\<lambda>d h.
       then_str (ic_add_dir h d (c_str ''config'')) (\<lambda>d h.
         if is_cluster_server
         then c_bind (node_str ''node'' my_node_id) (\<lambda>buf. ic_add_dir h d (Some buf))
         else Inr (0, d, h))))"

definition ic_create_config_version_file_name :: "gptr \<Rightarrow> ic_string \<Rightarrow> fault + ic_string" where
  "ic_create_config_version_file_name buf config_dir =
     c_bind (wr (snd buf) 0 NULL_BYTE) (\<lambda>d.
     c_bind (ic_add_ic_string (IC_INIT_STRING (Some (fst buf, d)) 0 True) (Some config_dir)) (\<lambda>f.
     c_bind (ic_add_ic_string f (Some ic_config_string)) (\<lambda>f.
     c_bind (ic_add_ic_string f (Some ic_version_file_string)) (\<lambda>f.
       ic_add_ic_string f (Some ic_config_ending_string)))))"

definition ic_create_config_file_name ::
  "gptr \<Rightarrow> ic_string \<Rightarrow> ic_string \<Rightarrow> guint64 \<Rightarrow> fault + ic_string"
where
  "ic_create_config_file_name buf config_dir nm config_version_number =
     c_bind (wr (snd buf) 0 NULL_BYTE) (\<lambda>d.
     c_bind (ic_add_ic_string (IC_INIT_STRING (Some (fst buf, d)) 0 True) (Some config_dir)) (\<lambda>f.
     c_bind (ic_add_ic_string f (Some nm)) (\<lambda>f.
     c_bind (ic_add_ic_string f (Some ic_config_ending_string)) (\<lambda>f.
       if config_version_number \<noteq> 0
       then c_bind (ic_set_number_ending_string (replicate IC_MAX_INT_STRING NULL_BYTE) config_version_number) (\<lambda>ib.
            c_bind (c_strlen ib) (\<lambda>n.
              ic_add_ic_string f (Some (IC_INIT_STRING (Some (0, ib)) (of_nat n) True))))
       else Inr f))))"

section \<open>Decimal and hexadecimal numbers\<close>

text \<open>Reference definitions: the digits of a number, least significant first, and the value of digits.\<close>

function digs :: "nat \<Rightarrow> nat \<Rightarrow> nat list" where
  "digs b n = (if n = 0 \<or> b \<le> 1 then [] else n mod b # digs b (n div b))"
  by pat_completeness auto

termination digs
  by (relation "measure snd") auto

declare digs.simps [simp del]

definition digits_value :: "nat \<Rightarrow> nat list \<Rightarrow> nat" where
  "digits_value b ds = foldl (\<lambda>a d. a * b + d) 0 ds"

definition dec_string :: "nat \<Rightarrow> string" where
  "dec_string n = (if n = 0 then ''0'' else map (\<lambda>d. char_of (48 + d)) (rev (digs 10 n)))"

definition hex_string :: "nat \<Rightarrow> string" where
  "hex_string n =
     (if n = 0 then ''0'' else map (\<lambda>d. if d < 10 then char_of (48 + d) else char_of (55 + d)) (rev (digs 16 n)))"

definition dec_digit :: "char \<Rightarrow> nat" where
  "dec_digit c = of_char c - 48"

definition hex_digit :: "char \<Rightarrow> nat" where
  "hex_digit c = (if (of_char c :: nat) < 58 then of_char c - 48 else of_char c - 55)"

lemma digs_0 [simp]: "digs b 0 = []"
  by (simp add: digs.simps)

lemma digs_step: "n \<noteq> 0 \<Longrightarrow> 1 < b \<Longrightarrow> digs b n = n mod b # digs b (n div b)"
  by (simp add: digs.simps)

lemma digs_Nil_iff: "1 < b \<Longrightarrow> digs b n = [] \<longleftrightarrow> n = 0"
  by (simp add: digs.simps)

lemma digs_value: "1 < b \<Longrightarrow> digits_value b (rev (digs b n)) = n"
proof (induction b n rule: digs.induct)
  case (1 b n)
  then show ?case by (cases "n = 0") (simp_all add: digits_value_def digs_step)
qed

lemma digs_bound: "1 < b \<Longrightarrow> d \<in> set (digs b n) \<Longrightarrow> d < b"
proof (induction b n rule: digs.induct)
  case (1 b n)
  then show ?case by (cases "n = 0") (auto simp: digs_step)
qed

lemma digs_length: "1 < b \<Longrightarrow> n < b ^ k \<Longrightarrow> length (digs b n) \<le> k"
proof (induction k arbitrary: n)
  case (Suc k)
  then have "n div b < b ^ k" by (simp add: less_mult_imp_div_less mult.commute)
  with Suc show ?case by (cases "n = 0") (auto simp: digs_step)
qed simp

lemma digs_last: "1 < b \<Longrightarrow> n \<noteq> 0 \<Longrightarrow> last (digs b n) \<noteq> 0"
proof (induction b n rule: digs.induct)
  case (1 b n)
  show ?case
  proof (cases "n div b = 0")
    case True
    then show ?thesis using 1 by (auto simp: digs_step div_eq_0_iff)
  next
    case False
    then have "digs b (n div b) \<noteq> []" using 1 by (simp add: digs_Nil_iff)
    then show ?thesis using 1 False by (simp add: digs_step)
  qed
qed

lemma of_char_small: "n < 256 \<Longrightarrow> (of_char (char_of n :: char) :: nat) = n"
  by simp

lemma dec_char_eq: "dec_char (v - v div 10 * 10) = char_of (48 + unat v mod 10)"
  by (simp add: dec_char_def minus_div_mult_eq_mod unat_mod)

lemma hex_char_eq:
  "hex_char (v - v div 16 * 16) =
     (if unat v mod 16 < 10 then char_of (48 + unat v mod 16) else char_of (55 + unat v mod 16))"
proof -
  have m: "unat (v mod 16) = unat v mod 16" by (simp add: unat_mod)
  show ?thesis
  proof (cases "v mod 16 < 10")
    case True
    then show ?thesis using m by (simp add: hex_char_def minus_div_mult_eq_mod word_less_nat_alt)
  next
    case False
    then have "unat (v mod 16 - 10) = unat v mod 16 - 10" "10 \<le> unat v mod 16"
      using m by (simp_all add: unat_sub word_le_nat_alt word_less_nat_alt)
    then show ?thesis using False m by (simp add: hex_char_def minus_div_mult_eq_mod word_less_nat_alt)
  qed
qed

lemma blk_cons:
  "i < length buf \<Longrightarrow>
   take (Suc i) (buf[i := c]) @ cs @ drop (Suc i + length cs) (buf[i := c]) =
   take i buf @ (c # cs) @ drop (i + length (c # cs)) buf"
  by (simp add: take_Suc_conv_app_nth)

lemma dec_loop_digs:
  "i + length (digs 10 (unat v)) \<le> length buf \<Longrightarrow>
   dec_loop v i buf = Inr (i + length (digs 10 (unat v)),
     take i buf @ map (\<lambda>d. char_of (48 + d)) (digs 10 (unat v)) @ drop (i + length (digs 10 (unat v))) buf)"
proof (induction v i buf rule: dec_loop.induct)
  case (1 v i buf)
  show ?case
  proof (cases "v = 0")
    case True
    then show ?thesis by (simp add: dec_loop.simps)
  next
    case False
    then have d: "digs 10 (unat v) = unat v mod 10 # digs 10 (unat (v div 10))"
      by (simp add: digs_step unat_div unat_eq_0)
    have i: "i < length buf" using 1(2) d by simp
    then have "wr buf i (dec_char (v - v div 10 * 10)) = Inr (buf[i := char_of (48 + unat v mod 10)])"
      by (simp add: dec_char_eq)
    then show ?thesis
      using 1(1) [OF False] 1(2) False d blk_cons [OF i, of "char_of (48 + unat v mod 10)"
        "map (\<lambda>d. char_of (48 + d)) (digs 10 (unat (v div 10)))"]
      by (simp add: dec_loop.simps [of v])
  qed
qed

lemma hex_loop_digs:
  "i + length (digs 16 (unat v)) \<le> length buf \<Longrightarrow>
   hex_loop v i buf = Inr (i + length (digs 16 (unat v)),
     take i buf @ map (\<lambda>d. if d < 10 then char_of (48 + d) else char_of (55 + d)) (digs 16 (unat v)) @
     drop (i + length (digs 16 (unat v))) buf)"
proof (induction v i buf rule: hex_loop.induct)
  case (1 v i buf)
  let ?f = "\<lambda>d. if d < 10 then char_of (48 + d) else char_of (55 + d) :: char"
  show ?case
  proof (cases "v = 0")
    case True
    then show ?thesis by (simp add: hex_loop.simps)
  next
    case False
    then have d: "digs 16 (unat v) = unat v mod 16 # digs 16 (unat (v div 16))"
      by (simp add: digs_step unat_div unat_eq_0)
    have i: "i < length buf" using 1(2) d by simp
    then have w: "wr buf i (hex_char (v - v div 16 * 16)) = Inr (buf[i := ?f (unat v mod 16)])"
      by (simp add: hex_char_eq)
    then show ?thesis
      using 1(1) [OF False w] 1(2) False d blk_cons [OF i, of "?f (unat v mod 16)" "map ?f (digs 16 (unat (v div 16)))"]
      by (simp add: hex_loop.simps [of v])
  qed
qed

lemma find_end_at: "e \<notin> set ds \<Longrightarrow> find_end (ds @ e # rest) e = Inr (length ds)"
  by (induction ds) auto

lemma rev_copy_rev:
  "i \<le> length inb \<Longrightarrow> j + i \<le> length out \<Longrightarrow>
   rev_copy inb out j i = Inr (take j out @ rev (take i inb) @ drop (j + i) out)"
proof (induction i arbitrary: j out)
  case (Suc i)
  then have j: "j < length out" and t: "take (Suc i) inb = take i inb @ [inb ! i]" by (simp_all add: take_Suc_conv_app_nth)
  have "rev_copy inb out j (Suc i) = rev_copy inb (out[j := inb ! i]) (j + 1) i" using Suc.prems by simp
  also have "\<dots> = Inr (take (j + 1) (out[j := inb ! i]) @ rev (take i inb) @ drop (j + 1 + i) (out[j := inb ! i]))"
    using Suc.prems by (intro Suc.IH) simp_all
  finally show ?case using blk_cons [OF j, of "inb ! i" "rev (take i inb)"] Suc.prems t by simp
qed simp

lemma reverse_str_eq:
  assumes "e \<notin> set ds" and "length ds < length out"
  shows "ic_reverse_str (ds @ e # rest) out e = Inr (rev ds @ e # drop (Suc (length ds)) out)"
proof -
  have "rev_copy (ds @ e # rest) (out[length ds := e]) 0 (length ds) =
      Inr (rev ds @ drop (length ds) (out[length ds := e]))"
    using assms by (subst rev_copy_rev) simp_all
  moreover have "drop (length ds) (out[length ds := e]) = e # drop (Suc (length ds)) out"
    using assms(2) by (metis Cons_nth_drop_Suc drop_update_cancel length_list_update lessI nth_list_update_eq)
  ultimately show ?thesis using assms by (simp add: ic_reverse_str_def find_end_at nth_append)
qed

lemma unat64_bound: "unat (v :: guint64) < 18446744073709551616"
  using unsigned_less [of v, where 'a = nat] by simp

lemma dec_string_length: "length (dec_string (unat (v :: guint64))) \<le> 20" "dec_string n \<noteq> []"
proof -
  have "unat v < 10 ^ 20" using unat64_bound [of v] by simp
  then show "length (dec_string (unat v)) \<le> 20" using digs_length [of 10 "unat v" 20] by (simp add: dec_string_def)
  show "dec_string n \<noteq> []" by (simp add: dec_string_def digs_Nil_iff)
qed

lemma hex_string_length: "length (hex_string (unat (v :: guint64))) \<le> 16" "hex_string n \<noteq> []"
proof -
  have "unat v < 16 ^ 16" using unat64_bound [of v] by simp
  then show "length (hex_string (unat v)) \<le> 16" using digs_length [of 16 "unat v" 16] by (simp add: hex_string_def)
  show "hex_string n \<noteq> []" by (simp add: hex_string_def digs_Nil_iff)
qed

lemma dec_string_digits: "c \<in> set (dec_string n) \<Longrightarrow> 48 \<le> (of_char c :: nat) \<and> (of_char c :: nat) \<le> 57"
  using digs_bound [of 10 _ n] by (fastforce simp: dec_string_def split: if_splits)

lemma hex_string_digits:
  "c \<in> set (hex_string n) \<Longrightarrow> 48 \<le> (of_char c :: nat) \<and> (of_char c :: nat) \<le> 57 \<or>
     65 \<le> (of_char c :: nat) \<and> (of_char c :: nat) \<le> 70"
  using digs_bound [of 16 _ n] by (fastforce simp: hex_string_def split: if_splits)

lemma dec_string_no_null: "NULL_BYTE \<notin> set (dec_string n)"
  using dec_string_digits [of NULL_BYTE n] by (auto simp: NULL_BYTE_def)

lemma hex_string_no_null: "NULL_BYTE \<notin> set (hex_string n)"
  using hex_string_digits [of NULL_BYTE n] by (auto simp: NULL_BYTE_def)

lemma dec_string_value: "digits_value 10 (map dec_digit (dec_string n)) = n"
proof (cases "n = 0")
  case False
  have "dec_digit (char_of (48 + d)) = d" if "d \<in> set (rev (digs 10 n))" for d
    using digs_bound [of 10 d n] that by (simp add: dec_digit_def)
  then have "map dec_digit (dec_string n) = rev (digs 10 n)"
    using False by (simp add: dec_string_def) (rule map_idI, simp)
  then show ?thesis by (simp add: digs_value)
qed (simp add: dec_string_def digits_value_def dec_digit_def)

lemma hex_string_value: "digits_value 16 (map hex_digit (hex_string n)) = n"
proof (cases "n = 0")
  case False
  have "hex_digit (if d < 10 then char_of (48 + d) else char_of (55 + d)) = d" if "d \<in> set (rev (digs 16 n))" for d
    using digs_bound [of 16 d n] that by (auto simp: hex_digit_def)
  then have "map hex_digit (hex_string n) = rev (digs 16 n)"
    using False by (simp add: hex_string_def) (rule map_idI, simp)
  then show ?thesis by (simp add: digs_value)
qed (simp add: hex_string_def digits_value_def hex_digit_def)

lemma guint64_str_eq:
  assumes "length (dec_string (unat v)) < length ptr"
  shows "ic_guint64_str v ptr = Inr (dec_string (unat v) @ NULL_BYTE # drop (Suc (length (dec_string (unat v)))) ptr,
    of_nat (length (dec_string (unat v))))"
proof (cases "v = 0")
  case True
  have "ic_reverse_str (''0'' @ NULL_BYTE # replicate 126 NULL_BYTE) ptr NULL_BYTE =
      Inr (''0'' @ NULL_BYTE # drop (Suc (Suc 0)) ptr)"
    using reverse_str_eq [of NULL_BYTE "''0''" ptr "replicate 126 NULL_BYTE"] assms True
    by (simp add: dec_string_def NULL_BYTE_def)
  moreover have "(replicate 128 NULL_BYTE)[0 := CHR ''0'', 1 := NULL_BYTE] = ''0'' @ NULL_BYTE # replicate 126 NULL_BYTE"
    by (simp add: numeral_eq_Suc)
  ultimately show ?thesis using True by (simp add: ic_guint64_str_def Let_def dec_loop.simps dec_string_def)
next
  case False
  let ?ds = "map (\<lambda>d. char_of (48 + d)) (digs 10 (unat v)) :: char list"
  have l: "length ?ds \<le> 20" and r: "rev ?ds = dec_string (unat v)"
    using dec_string_length(1) [of v] False by (simp_all add: dec_string_def rev_map unat_eq_0)
  have loop: "dec_loop v 0 (replicate 128 NULL_BYTE) = Inr (length ?ds, ?ds @ replicate (128 - length ?ds) NULL_BYTE)"
    using l by (subst dec_loop_digs) simp_all
  obtain k where "128 - length ?ds = Suc k" using l by (cases "128 - length ?ds") auto
  then have b: "(?ds @ replicate (128 - length ?ds) NULL_BYTE)[length ?ds := NULL_BYTE] = ?ds @ NULL_BYTE # replicate k NULL_BYTE"
    by (simp add: list_update_append)
  have "ic_reverse_str (?ds @ NULL_BYTE # replicate k NULL_BYTE) ptr NULL_BYTE =
      Inr (rev ?ds @ NULL_BYTE # drop (Suc (length ?ds)) ptr)"
    using dec_string_no_null [of "unat v"] assms r by (intro reverse_str_eq) (metis set_rev, metis length_rev)
  moreover have "length (dec_string (unat v)) = length ?ds" using r by (metis length_rev)
  ultimately show ?thesis using False loop b l r by (simp add: ic_guint64_str_def)
qed

lemma guint64_hex_str_eq:
  assumes "length (hex_string (unat v)) + 2 < length ptr"
  shows "ic_guint64_hex_str v ptr =
    Inr (''0x'' @ hex_string (unat v) @ NULL_BYTE # drop (length (hex_string (unat v)) + 3) ptr)"
proof -
  obtain a b p where ptr: "ptr = a # b # p" using assms by (cases ptr; cases "tl ptr") auto
  let ?out = "hex_string (unat v) @ NULL_BYTE # drop (Suc (length (hex_string (unat v)))) p"
  have "\<exists>buf i. (c_bind (if v = 0 then Inr (1, (replicate IC_MAX_INT_STRING NULL_BYTE)[0 := CHR ''0''])
        else Inr (0, replicate IC_MAX_INT_STRING NULL_BYTE)) (\<lambda>(i, buf). hex_loop v i buf)) = Inr (i, buf) \<and>
      i < length buf \<and> ic_reverse_str (buf[i := NULL_BYTE]) p NULL_BYTE = Inr ?out"
  proof (cases "v = 0")
    case True
    have "ic_reverse_str (''0'' @ NULL_BYTE # replicate 30 NULL_BYTE) p NULL_BYTE = Inr (''0'' @ NULL_BYTE # drop (Suc (Suc 0)) p)"
      using reverse_str_eq [of NULL_BYTE "''0''" p "replicate 30 NULL_BYTE"] assms True
      by (simp add: hex_string_def NULL_BYTE_def ptr)
    moreover have "(replicate IC_MAX_INT_STRING NULL_BYTE)[0 := CHR ''0'', 1 := NULL_BYTE] =
        ''0'' @ NULL_BYTE # replicate 30 NULL_BYTE"
      by (simp add: numeral_eq_Suc IC_MAX_INT_STRING_def)
    ultimately show ?thesis using True by (simp add: hex_loop.simps hex_string_def IC_MAX_INT_STRING_def)
  next
    case False
    let ?ds = "map (\<lambda>d. if d < 10 then char_of (48 + d) else char_of (55 + d)) (digs 16 (unat v)) :: char list"
    have l: "length ?ds \<le> 16" and r: "rev ?ds = hex_string (unat v)"
      using hex_string_length(1) [of v] False by (simp_all add: hex_string_def rev_map unat_eq_0)
    have loop: "hex_loop v 0 (replicate 32 NULL_BYTE) = Inr (length ?ds, ?ds @ replicate (32 - length ?ds) NULL_BYTE)"
      using l by (subst hex_loop_digs) simp_all
    obtain k where k: "32 - length ?ds = Suc k" using l by (cases "32 - length ?ds") auto
    have "ic_reverse_str (?ds @ NULL_BYTE # replicate k NULL_BYTE) p NULL_BYTE =
        Inr (rev ?ds @ NULL_BYTE # drop (Suc (length ?ds)) p)"
    proof (intro reverse_str_eq)
      show "NULL_BYTE \<notin> set ?ds" using hex_string_no_null [of "unat v"] r by (metis set_rev)
      show "length ?ds < length p" using assms arg_cong [OF r, of length] by (simp add: ptr)
    qed
    moreover have "length (hex_string (unat v)) = length ?ds" using r by (metis length_rev)
    ultimately show ?thesis using False loop k l r
      by (simp add: IC_MAX_INT_STRING_def list_update_append)
  qed
  then obtain buf i where h: "c_bind (if v = 0 then Inr (1, (replicate IC_MAX_INT_STRING NULL_BYTE)[0 := CHR ''0''])
        else Inr (0, replicate IC_MAX_INT_STRING NULL_BYTE)) (\<lambda>(i, buf). hex_loop v i buf) = Inr (i, buf)"
    "i < length buf" "ic_reverse_str (buf[i := NULL_BYTE]) p NULL_BYTE = Inr ?out" by blast
  have "ic_guint64_hex_str v ptr = c_bind (c_bind (if v = 0 then Inr (1, (replicate IC_MAX_INT_STRING NULL_BYTE)[0 := CHR ''0''])
        else Inr (0, replicate IC_MAX_INT_STRING NULL_BYTE)) (\<lambda>(i, buf). hex_loop v i buf)) (\<lambda>(i, buf).
      c_bind (wr buf i NULL_BYTE) (\<lambda>buf.
      c_bind (ic_reverse_str buf (drop 2 ptr) NULL_BYTE) (\<lambda>p.
      c_bind (wr (take 2 ptr @ p) 0 (CHR ''0'')) (\<lambda>ptr. wr ptr 1 (CHR ''x'')))))"
    by (simp add: ic_guint64_hex_str_def Let_def)
  then show ?thesis using h by (simp add: ptr numeral_2_eq_2 numeral_3_eq_3)
qed

lemma strlen_at: "NULL_BYTE \<notin> set cs \<Longrightarrow> c_strlen (cs @ NULL_BYTE # r) = Inr (length cs)"
  by (induction cs) auto

section \<open>Strings as lists of characters\<close>

text \<open>An \<^verbatim>\<open>IC_STRING\<close> stands for the characters its pointer and length delimit.\<close>

definition str_is :: "ic_string \<Rightarrow> string \<Rightarrow> bool" where
  "str_is s cs \<longleftrightarrow> rd_ptr (str s) (unat (len s)) = Inr cs"

lemma str_is_length: "str_is s cs \<Longrightarrow> length cs = unat (len s)"
  by (auto simp: str_is_def rd_ptr_def rd_blk_def split: option.splits if_splits)

lemma str_is_data: "str_is s cs \<Longrightarrow> take (unat (len s)) (ptr_data (str s)) = cs \<and> unat (len s) \<le> length (ptr_data (str s))"
  by (auto simp: str_is_def rd_ptr_def rd_blk_def ptr_data_def split: option.splits if_splits)

lemma str_is_lit: "length cs < 4294967296 \<Longrightarrow> str_is (lit cs) cs"
  by (simp add: str_is_def lit_def IC_INIT_STRING_def rd_ptr_def unat_of_nat_32)

text \<open>A buffer string: a null-terminated string at the start of a buffer of \<open>n\<close> bytes.\<close>

definition buf_str :: "nat \<Rightarrow> ic_string \<Rightarrow> string \<Rightarrow> bool" where
  "buf_str n s cs \<longleftrightarrow> (\<exists>i r. str s = Some (i, cs @ NULL_BYTE # r) \<and> length cs + Suc (length r) = n) \<and>
     unat (len s) = length cs \<and> is_null_terminated s"

lemma add_ic_string_buf:
  assumes d: "buf_str n d cs" and s: "str_is s as" and room: "length cs + length as < n" and n: "n \<le> 4294967296"
  shows "\<exists>d'. ic_add_ic_string d (Some s) = Inr d' \<and> buf_str n d' (cs @ as)"
proof -
  obtain i r where d': "str d = Some (i, cs @ NULL_BYTE # r)" "length cs + Suc (length r) = n"
    "unat (len d) = length cs" "is_null_terminated d" using d by (auto simp: buf_str_def)
  have la: "unat (len s) = length as" using str_is_length [OF s] by simp
  have u: "unat (len d + len s) = length cs + length as"
    using room n d'(3) la by (subst unat_add_small) simp_all
  have rd: "rd_ptr (str s) (length as) = Inr as" using s la by (simp add: str_is_def)
  obtain r1 c r2 where r: "NULL_BYTE # r = r1 @ c # r2" "length r1 = length as"
    using room d'(2) by (metis Suc_less_eq add_less_cancel_left add_Suc_right id_take_nth_drop length_Cons length_take min.absorb4 less_SucI linorder_not_le nat_add_left_cancel_less)
  have "wr_blk (cs @ NULL_BYTE # r) (length cs) as = Inr (cs @ as @ c # r2)"
    using r by (simp add: wr_blk_def)
  moreover have "wr (cs @ as @ c # r2) (length cs + length as) NULL_BYTE = Inr (cs @ as @ NULL_BYTE # r2)"
    by (simp add: list_update_append)
  ultimately have "ic_add_ic_string d (Some s) = Inr (d\<lparr>str := Some (i, cs @ as @ NULL_BYTE # r2), len := len d + len s\<rparr>)"
    using d' la rd by (simp add: ic_add_ic_string_def)
  moreover have "length r2 + length as = length r" using r by (metis add_Suc_right add_left_cancel length_Cons length_append add.commute nat.inject)
  ultimately show ?thesis using u d' by (simp add: buf_str_def)
qed

section \<open>Heap strings\<close>

text \<open>
  \<open>string_ok b L h d cs\<close>: the string \<open>d\<close> has the characters \<open>cs\<close>, and the heap holds the object of
  \<open>d\<close>, if there is one, beside the objects \<open>L\<close>. With \<open>b\<close> every allocation to come succeeds.
  \<open>yields b L m cs\<close> is what a call that builds a string must do: it does not fault; on success it
  gives such a string, otherwise \<open>IC_ERROR_MEM_ALLOC\<close>, no string and the heap \<open>L\<close>.
\<close>

definition own :: "ic_string \<Rightarrow> nat set" where
  "own d = (case str d of None \<Rightarrow> {} | Some (i, _) \<Rightarrow> {i})"

definition heap_ok :: "heap \<Rightarrow> bool" where
  "heap_ok h \<longleftrightarrow> (\<forall>i \<in> live h. i < next_obj h)"

definition string_ok :: "bool \<Rightarrow> nat set \<Rightarrow> heap \<Rightarrow> ic_string \<Rightarrow> string \<Rightarrow> bool" where
  "string_ok b L h d cs \<longleftrightarrow> heap_ok h \<and> str_is d cs \<and> live h = L \<union> own d \<and> own d \<inter> L = {} \<and>
     (b \<longrightarrow> outcomes h = [])"

definition yields :: "bool \<Rightarrow> nat set \<Rightarrow> fault + (err \<times> ic_string \<times> heap) \<Rightarrow> string \<Rightarrow> bool" where
  "yields b L m cs \<longleftrightarrow> (\<exists>rc d h. m = Inr (rc, d, h) \<and>
     (if rc = 0 then string_ok b L h d cs
      else rc = IC_ERROR_MEM_ALLOC \<and> \<not> b \<and> str d = None \<and> live h = L \<and> heap_ok h))"

lemma yieldsI0: "m = Inr (0, d, h) \<Longrightarrow> string_ok b L h d cs \<Longrightarrow> yields b L m cs"
  by (auto simp: yields_def)

lemma free_own:
  assumes "string_ok b L h d cs" and "live h' = live h" and "next_obj h' = next_obj h"
  shows "\<exists>h''. free_str h' (str d) = Inr h'' \<and> live h'' = L \<and> next_obj h'' = next_obj h \<and>
    outcomes h'' = outcomes h' \<and> fill h'' = fill h'"
  using assms by (auto simp: string_ok_def free_str_def ic_free_def own_def split: option.splits)

lemma add_dup_string_yields:
  assumes s: "string_ok b L h d cs" and nn: "NULL_BYTE \<notin> set as" and sz: "length cs + length as < 4294967295"
  shows "yields b L (ic_add_dup_string h d (Some (as @ NULL_BYTE # r))) (cs @ as)"
proof -
  have lc: "unat (len d) = length cs" using s str_is_length by (auto simp: string_ok_def)
  have la: "unat (of_nat (length as) :: guint32) = length as" using sz by (simp add: unat_of_nat_32)
  let ?n = "of_nat (length as) + len d :: guint32"
  have n: "unat ?n = length cs + length as" using la lc sz by (subst unat_add_small) simp_all
  have n1: "unat (?n + 1) = Suc (length cs + length as)" using n sz by (subst unat_add_small) simp_all
  obtain ok rest where al: "alloc_next (outcomes h) = (ok, rest)" by fastforce
  show ?thesis
  proof (cases ok)
    case False
    let ?h = "h\<lparr>outcomes := rest\<rparr>"
    have "ic_malloc h (unat (?n + 1)) = (None, ?h)" using al False by (simp add: ic_malloc_def)
    moreover obtain h'' where "free_str ?h (str d) = Inr h''" "live h'' = L" "next_obj h'' = next_obj h"
      using free_own [OF s, of ?h] by auto
    moreover have "heap_ok h''" using calculation s by (auto simp: heap_ok_def string_ok_def)
    moreover have "\<not> b" using s al False by (auto simp: string_ok_def)
    ultimately show ?thesis using strlen_at [OF nn, of r]
      by (simp add: yields_def ic_add_dup_string_def IC_INIT_STRING_def IC_ERROR_MEM_ALLOC_def)
  next
    case True
    define dat where "dat = map (fill h) [0 ..< Suc (length cs + length as)]"
    let ?h = "h\<lparr>live := insert (next_obj h) (live h), next_obj := Suc (next_obj h), outcomes := rest\<rparr>"
    have m: "ic_malloc h (unat (?n + 1)) = (Some (next_obj h, dat), ?h)"
      using al True n1 by (simp add: ic_malloc_def dat_def)
    have ld: "length dat = Suc (length cs + length as)" by (simp add: dat_def)
    have rd: "rd_ptr (str d) (length cs) = Inr cs" using s lc by (auto simp: string_ok_def str_is_def)
    have c: "(if 0 < len d then c_bind (rd_ptr (str d) (unat (len d))) (\<lambda>bs. wr_blk dat 0 bs) else Inr dat) =
        Inr (cs @ drop (length cs) dat)"
      using rd lc ld by (auto simp: word_less_nat_alt)
    have w: "wr_blk (cs @ drop (length cs) dat) (unat (len d)) as = Inr (cs @ as @ drop (length cs + length as) dat)"
      using ld lc by (simp add: wr_blk_def add.commute)
    obtain z where z: "drop (length cs + length as) dat = [z]" using ld
      by (metis Suc_diff_le diff_self_eq_0 le_refl length_drop length_0_conv length_Suc_conv)
    have t: "wr (cs @ as @ [z]) (unat ?n) NULL_BYTE = Inr (cs @ as @ [NULL_BYTE])"
      using n by (simp add: list_update_append)
    have i: "next_obj h \<notin> live h" using s by (auto simp: string_ok_def heap_ok_def)
    have "\<exists>h''. free_str ?h (str d) = Inr h'' \<and> live h'' = insert (next_obj h) L \<and> next_obj h'' = Suc (next_obj h) \<and>
        outcomes h'' = rest"
      using s i by (auto simp: string_ok_def free_str_def ic_free_def own_def split: option.splits)
    then obtain h'' where f: "free_str ?h (str d) = Inr h''" "live h'' = insert (next_obj h) L"
      "next_obj h'' = Suc (next_obj h)" "outcomes h'' = rest" by blast
    have "ic_add_dup_string h d (Some (as @ NULL_BYTE # r)) =
        Inr (0, d\<lparr>str := Some (next_obj h, cs @ as @ [NULL_BYTE]), len := ?n\<rparr>, h'')"
      using strlen_at [OF nn, of r] m c w z t f la by (simp add: ic_add_dup_string_def)
    moreover have "string_ok b L h'' (d\<lparr>str := Some (next_obj h, cs @ as @ [NULL_BYTE]), len := ?n\<rparr>) (cs @ as)"
      using s f i n al by (auto simp: string_ok_def heap_ok_def str_is_def rd_ptr_def own_def less_Suc_eq)
    ultimately show ?thesis by (rule yieldsI0)
  qed
qed

lemma add_dup_null_yields: "string_ok b L h d cs \<Longrightarrow> yields b L (ic_add_dup_string h d None) cs"
  by (rule yieldsI0) (simp_all add: ic_add_dup_string_def)

lemma yields_cases:
  assumes "yields b L m cs"
  obtains (ok) d h where "m = Inr (0, d, h)" "string_ok b L h d cs"
  | (fail) d h where "m = Inr (IC_ERROR_MEM_ALLOC, d, h)" "\<not> b" "str d = None" "live h = L" "heap_ok h"
  using assms unfolding yields_def by metis

lemma yieldsI1:
  "m = Inr (IC_ERROR_MEM_ALLOC, d, h) \<Longrightarrow> \<not> b \<Longrightarrow> str d = None \<Longrightarrow> live h = L \<Longrightarrow> heap_ok h \<Longrightarrow> yields b L m cs"
  by (simp add: yields_def IC_ERROR_MEM_ALLOC_def)

lemma mem_alloc_nonzero [simp]: "IC_ERROR_MEM_ALLOC \<noteq> 0" "0 < IC_ERROR_MEM_ALLOC"
  by (simp_all add: IC_ERROR_MEM_ALLOC_def)

lemma then_str_yields:
  assumes "yields b L m cs" and "\<And>d h. string_ok b L h d cs \<Longrightarrow> yields b L (f d h) cs'"
  shows "yields b L (then_str m f) cs'"
  using assms(1)
proof (cases rule: yields_cases)
  case (ok d h)
  then show ?thesis using assms(2) by (simp add: then_str_def)
next
  case (fail d h)
  then show ?thesis by (intro yieldsI1) (simp_all add: then_str_def)
qed

lemma on_error_yields:
  assumes "yields b L m cs"
  shows "yields b L (on_error m) cs"
  using assms
proof (cases rule: yields_cases)
  case (ok d h)
  then show ?thesis by (intro yieldsI0) (simp_all add: on_error_def)
next
  case (fail d h)
  then show ?thesis
    by (intro yieldsI1 [of _ "IC_INIT_STRING None 0 True" h]) (simp_all add: on_error_def free_str_def IC_INIT_STRING_def)
qed

lemma add_dir_slash_yields:
  assumes "string_ok b L h d cs" and "length cs < 4294967294"
  shows "yields b L (add_dir_slash h d) (cs @ ''/'')"
proof -
  have "yields b L (ic_add_dup_string h d (c_str ''/'')) (cs @ ''/'')"
    using add_dup_string_yields [OF assms(1), of "''/''" "[]"] assms(2) by (simp add: c_str_def NULL_BYTE_def)
  then show ?thesis
  proof (cases rule: yields_cases)
    case (ok d h)
    then show ?thesis by (intro yieldsI0) (simp_all add: add_dir_slash_def)
  next
    case (fail d h)
    then show ?thesis by (intro yieldsI1) (simp_all add: add_dir_slash_def)
  qed
qed

lemma add_dir_yields:
  assumes "string_ok b L h d cs" and "NULL_BYTE \<notin> set as" and "length cs + length as < 4294967294"
  shows "yields b L (ic_add_dir h d (Some (as @ NULL_BYTE # r))) (cs @ as @ ''/'')"
  unfolding ic_add_dir_def
proof (intro on_error_yields then_str_yields)
  show "yields b L (ic_add_dup_string h d (Some (as @ NULL_BYTE # r))) (cs @ as)"
    using assms by (intro add_dup_string_yields) simp_all
  show "yields b L (add_dir_slash h' d') (cs @ as @ ''/'')" if "string_ok b L h' d' (cs @ as)" for d' h'
    using add_dir_slash_yields [OF that] assms(3) by simp
qed

section \<open>The directory functions\<close>

definition dir_prefix :: "env \<Rightarrow> string" where
  "dir_prefix env =
     (if user_name env = ''root'' then ''/var/lib/'' else (case home_var env of None \<Rightarrow> [] | Some s \<Rightarrow> s) @ ''/'')"

definition env_ok :: "env \<Rightarrow> bool" where
  "env_ok env \<longleftrightarrow> (case home_var env of None \<Rightarrow> True | Some s \<Rightarrow> NULL_BYTE \<notin> set s \<and> length s < 4000000000)"

lemma empty_string_ok:
  "heap_ok h \<Longrightarrow> (b \<longrightarrow> outcomes h = []) \<Longrightarrow> string_ok b (live h) h (IC_INIT_STRING None 0 True) []"
  by (simp add: string_ok_def str_is_def rd_ptr_def IC_INIT_STRING_def own_def)

lemma add_c_str_yields:
  assumes "string_ok b L h d cs" and "NULL_BYTE \<notin> set as" and "length cs + length as < 4294967295"
  shows "yields b L (ic_add_dup_string h d (c_str as)) (cs @ as)"
  using add_dup_string_yields [OF assms, of "[]"] by (simp add: c_str_def)

lemma default_dir_yields:
  assumes h: "heap_ok h" "b \<longrightarrow> outcomes h = []" and e: "env_ok env"
    and d: "NULL_BYTE \<notin> set dd" "length dd < 1000"
  shows "yields b (live h) (set_default_dir env h dd) (dir_prefix env @ dd @ ''/'')"
proof -
  let ?s = "IC_INIT_STRING None 0 True"
  have s: "string_ok b (live h) h ?s []" by (rule empty_string_ok [OF h])
  have l: "length (dir_prefix env) < 4000000010"
    using e by (auto simp: env_ok_def dir_prefix_def split: option.splits)
  have pre: "yields b (live h) (if user_name env = ''root'' then ic_add_dup_string h ?s (c_str ''/var/lib/'')
      else then_str (ic_add_dup_string h ?s (case home_var env of None \<Rightarrow> None | Some s \<Rightarrow> c_str s))
             (\<lambda>d h. add_dir_slash h d)) (dir_prefix env)"
  proof (cases "user_name env = ''root''")
    case True
    then show ?thesis using add_c_str_yields [OF s, of "''/var/lib/''"] by (simp add: dir_prefix_def NULL_BYTE_def)
  next
    case False
    let ?home = "case home_var env of None \<Rightarrow> [] | Some s \<Rightarrow> s"
    have "yields b (live h) (ic_add_dup_string h ?s (case home_var env of None \<Rightarrow> None | Some s \<Rightarrow> c_str s)) ?home"
      using e add_dup_null_yields [OF s] add_c_str_yields [OF s, of ?home]
      by (cases "home_var env") (simp_all add: env_ok_def)
    then have "yields b (live h) (then_str (ic_add_dup_string h ?s (case home_var env of None \<Rightarrow> None | Some s \<Rightarrow> c_str s))
             (\<lambda>d h. add_dir_slash h d)) (?home @ ''/'')"
      using e by (intro then_str_yields add_dir_slash_yields) (auto simp: env_ok_def split: option.splits)
    then show ?thesis using False by (simp add: dir_prefix_def)
  qed
  have "yields b (live h) (then_str (if user_name env = ''root'' then ic_add_dup_string h ?s (c_str ''/var/lib/'')
      else then_str (ic_add_dup_string h ?s (case home_var env of None \<Rightarrow> None | Some s \<Rightarrow> c_str s))
             (\<lambda>d h. add_dir_slash h d))
     (\<lambda>d h. then_str (ic_add_dup_string h d (c_str dd)) (\<lambda>d h. add_dir_slash h d))) ((dir_prefix env @ dd) @ ''/'')"
    using pre l d by (intro then_str_yields [OF pre] then_str_yields [OF add_c_str_yields] add_dir_slash_yields) simp_all
  then show ?thesis
  proof (cases rule: yields_cases)
    case (ok d' h')
    then show ?thesis by (intro yieldsI0 [of _ d' h']) (simp_all add: set_default_dir_def Let_def)
  next
    case (fail d' h')
    then show ?thesis by (intro yieldsI1 [of _ d' h']) (simp_all add: set_default_dir_def Let_def free_str_def)
  qed
qed

lemma data_dir_yields:
  assumes "heap_ok h" and "b \<longrightarrow> outcomes h = []" and "env_ok env"
  shows "yields b (live h) (ic_set_data_dir env h) (dir_prefix env @ ''iclaustron_data/'')"
  using default_dir_yields [OF assms, of "''iclaustron_data''"] by (simp add: ic_set_data_dir_def NULL_BYTE_def)

lemma node_str_eq:
  assumes "length pre \<le> 40"
  shows "\<exists>r. node_str pre n = Inr ((pre @ dec_string (unat n)) @ NULL_BYTE # r)"
proof -
  have u: "unat (ucast n :: guint64) = unat n"
    using unat_bound32 [of n] by (simp add: unsigned_ucast_eq take_bit_eq_mod)
  let ?p = "drop (length pre) (pre @ drop (length pre) (replicate 64 NULL_BYTE))"
  have "length (dec_string (unat n)) < length ?p" using dec_string_length(1) [of "ucast n"] assms u by simp
  then have "ic_guint64_str (ucast n) ?p = Inr (dec_string (unat n) @ NULL_BYTE #
      drop (Suc (length (dec_string (unat n)))) ?p, of_nat (length (dec_string (unat n))))"
    using guint64_str_eq [of "ucast n" ?p] u by simp
  then show ?thesis using assms by (simp add: node_str_def wr_blk_def)
qed

lemma dir_prefix_length: "env_ok env \<Longrightarrow> length (dir_prefix env) < 4000000010"
  by (auto simp: env_ok_def dir_prefix_def split: option.splits)

lemma node_name:
  "NULL_BYTE \<notin> set pre \<Longrightarrow> NULL_BYTE \<notin> set (pre @ dec_string (unat (n :: guint32)))"
  "length (pre @ dec_string (unat (n :: guint32))) \<le> length pre + 20"
proof -
  have "unat (ucast n :: guint64) = unat n"
    using unat_bound32 [of n] by (simp add: unsigned_ucast_eq take_bit_eq_mod)
  then show "length (pre @ dec_string (unat n)) \<le> length pre + 20" using dec_string_length(1) [of "ucast n"] by simp
qed (simp add: dec_string_no_null)

section \<open>Properties\<close>

text \<open>
  The configuration directory: with enough memory \<^verbatim>\<open>ic_set_config_dir\<close> gives
  \<open><prefix>iclaustron_data/config/\<close>, followed by \<open>node<id>/\<close> for a cluster server, where the prefix
  is \<^verbatim>\<open>/var/lib/\<close> for root and the home directory otherwise. When an allocation fails it returns
  \<open>IC_ERROR_MEM_ALLOC\<close> and no string. It never frees an object twice, and the heap afterwards has the
  objects it had before and the string returned, if any.
\<close>

theorem set_config_dir_spec:
  assumes "heap_ok h" and "b \<longrightarrow> outcomes h = []" and "env_ok env"
  shows "yields b (live h) (ic_set_config_dir env h is_cs n)
    (dir_prefix env @ ''iclaustron_data/config/'' @ (if is_cs then ''node'' @ dec_string (unat n) @ ''/'' else []))"
proof -
  obtain r where r: "node_str ''node'' n = Inr ((''node'' @ dec_string (unat n)) @ NULL_BYTE # r)"
    using node_str_eq [of "''node''" n] by auto
  let ?c = "(dir_prefix env @ ''iclaustron_data/'') @ ''config'' @ ''/''"
  have p: "length ?c < 4000000100" using dir_prefix_length [OF assms(3)] by simp
  have "yields b (live h) (ic_set_config_dir env h is_cs n)
     (?c @ (if is_cs then (''node'' @ dec_string (unat n)) @ ''/'' else []))"
    unfolding ic_set_config_dir_def
  proof (intro on_error_yields then_str_yields [OF data_dir_yields [OF assms]] then_str_yields)
    fix d h' assume s: "string_ok b (live h) h' d (dir_prefix env @ ''iclaustron_data/'')"
    show "yields b (live h) (ic_add_dir h' d (c_str ''config'')) ?c"
      unfolding c_str_def using p by (intro add_dir_yields [OF s]) (simp_all add: NULL_BYTE_def)
  next
    fix d h' assume s: "string_ok b (live h) h' d ?c"
    show "yields b (live h) (if is_cs then c_bind (node_str ''node'' n) (\<lambda>buf. ic_add_dir h' d (Some buf)) else Inr (0, d, h'))
      (?c @ (if is_cs then (''node'' @ dec_string (unat n)) @ ''/'' else []))"
    proof (cases is_cs)
      case True
      have "yields b (live h) (ic_add_dir h' d (Some ((''node'' @ dec_string (unat n)) @ NULL_BYTE # r)))
          (?c @ (''node'' @ dec_string (unat n)) @ ''/'')"
        using p node_name(2) [of "''node''" n]
        by (intro add_dir_yields [OF s] node_name(1)) (simp_all add: NULL_BYTE_def)
      then show ?thesis using True r by simp
    next
      case False
      then show ?thesis using s by (intro yieldsI0) simp_all
    qed
  qed
  then show ?thesis by (simp cong: if_cong)
qed

theorem set_config_dir_spec_witness:
  "yields True {} (ic_set_config_dir \<lparr>user_name = ''mikael'', home_var = Some ''/home/mikael''\<rparr>
       \<lparr>live = {}, next_obj = 0, fill = (\<lambda>_. CHR ''?''), outcomes = []\<rparr> True 1)
     ''/home/mikael/iclaustron_data/config/node1/''"
proof -
  have "dec_string (unat (1 :: guint32)) = ''1''" by (simp add: dec_string_def digs_step char_of_def bit_0)
  then show ?thesis
    using set_config_dir_spec [of "\<lparr>live = {}, next_obj = 0, fill = (\<lambda>_. CHR ''?''), outcomes = []\<rparr>" True
        "\<lparr>user_name = ''mikael'', home_var = Some ''/home/mikael''\<rparr>" True 1]
    by (simp add: heap_ok_def env_ok_def dir_prefix_def NULL_BYTE_def)
qed

lemma node_file_yields:
  assumes s: "string_ok b L h d cs" and nd: "NULL_BYTE \<notin> set nd" "length nd \<le> 25"
    and e: "NULL_BYTE \<notin> set ending" "length ending = 4" and p: "length cs < 4000000100"
  shows "yields b L (then_str (ic_add_dir h d (Some (nd @ NULL_BYTE # r))) (\<lambda>d h.
        then_str (ic_add_dup_string h d (Some (nd @ NULL_BYTE # r))) (\<lambda>d h. ic_add_dup_string h d (c_str ending))))
      (((cs @ nd @ ''/'') @ nd) @ ending)"
proof -
  have 1: "yields b L (ic_add_dir h d (Some (nd @ NULL_BYTE # r))) (cs @ nd @ ''/'')"
    using nd p by (intro add_dir_yields [OF s]) simp_all
  have 2: "yields b L (ic_add_dup_string h d (Some (nd @ NULL_BYTE # r))) ((cs @ nd @ ''/'') @ nd)"
    if "string_ok b L h d (cs @ nd @ ''/'')" for d h
    using nd p by (intro add_dup_string_yields [OF that]) simp_all
  have 3: "yields b L (ic_add_dup_string h d (c_str ending)) (((cs @ nd @ ''/'') @ nd) @ ending)"
    if "string_ok b L h d ((cs @ nd @ ''/'') @ nd)" for d h
    using nd p e by (intro add_c_str_yields [OF that]) simp_all
  show ?thesis by (rule then_str_yields [OF 1 then_str_yields [OF 2 3]])
qed

text \<open>
  The log and pid files: \<open><prefix>iclaustron_data/node_<id>/node_<id>.log\<close> for a node process,
  \<open><prefix>iclaustron_data/<program>.log\<close> otherwise, with \<^verbatim>\<open>.pid\<close> for the pid file; and the same
  promise about failing allocations and the heap as for the configuration directory.
\<close>

theorem set_out_file_spec:
  assumes "heap_ok h" and "b \<longrightarrow> outcomes h = []" and "env_ok env"
    and "NULL_BYTE \<notin> set prog" and "length prog < 1000"
  shows "yields b (live h) (ic_set_out_file env h n prog is_node is_log)
    (dir_prefix env @ ''iclaustron_data/'' @
     (if is_node then ''node_'' @ dec_string (unat n) @ ''/node_'' @ dec_string (unat n) else prog) @
     (if is_log then ''.log'' else ''.pid''))"
proof -
  obtain r where r: "node_str ''node_'' n = Inr ((''node_'' @ dec_string (unat n)) @ NULL_BYTE # r)"
    using node_str_eq [of "''node_''" n] by auto
  let ?b = "dir_prefix env @ ''iclaustron_data/''" and ?nd = "''node_'' @ dec_string (unat n)"
  let ?e = "if is_log then ''.log'' else ''.pid''"
  have p: "length ?b < 4000000100" using dir_prefix_length [OF assms(3)] by simp
  have nn: "NULL_BYTE \<notin> set ?nd" by (rule node_name(1)) (simp add: NULL_BYTE_def)
  have nl: "length ?nd \<le> 25" using node_name(2) [of "''node_''" n] by simp
  have e: "NULL_BYTE \<notin> set ?e" "length ?e = 4" by (simp_all add: NULL_BYTE_def)
  have node: "yields b (live h) (then_str (ic_add_dir h' d (Some (?nd @ NULL_BYTE # r))) (\<lambda>d h.
        then_str (ic_add_dup_string h d (Some (?nd @ NULL_BYTE # r))) (\<lambda>d h. ic_add_dup_string h d (c_str ?e))))
      (((?b @ ?nd @ ''/'') @ ?nd) @ ?e)" if s: "string_ok b (live h) h' d ?b" for d h'
    by (rule node_file_yields [OF s nn nl e p])
  have prg: "yields b (live h) (then_str (ic_add_dup_string h' d (c_str prog)) (\<lambda>d h. ic_add_dup_string h d (c_str ?e)))
      ((?b @ prog) @ ?e)" if s: "string_ok b (live h) h' d ?b" for d h'
    using p e assms(4,5) by (intro then_str_yields [OF add_c_str_yields [OF s]] add_c_str_yields) simp_all
  have "yields b (live h) (ic_set_out_file env h n prog is_node is_log)
      (if is_node then (((?b @ ?nd @ ''/'') @ ?nd) @ ?e) else ((?b @ prog) @ ?e))"
    unfolding ic_set_out_file_def Let_def
  proof (intro on_error_yields then_str_yields [OF data_dir_yields [OF assms(1-3)]])
    fix d h' assume s: "string_ok b (live h) h' d ?b"
    show "yields b (live h) (if is_node then c_bind (node_str ''node_'' n) (\<lambda>buf.
        then_str (ic_add_dir h' d (Some buf)) (\<lambda>d h.
        then_str (ic_add_dup_string h d (Some buf)) (\<lambda>d h. ic_add_dup_string h d (c_str ?e))))
      else then_str (ic_add_dup_string h' d (c_str prog)) (\<lambda>d h. ic_add_dup_string h d (c_str ?e)))
      (if is_node then (((?b @ ?nd @ ''/'') @ ?nd) @ ?e) else ((?b @ prog) @ ?e))"
      using node [OF s] prg [OF s] r by simp
  qed
  then show ?thesis by (cases is_node) simp_all
qed

theorem set_out_file_spec_witness:
  "yields True {} (ic_set_out_file \<lparr>user_name = ''root'', home_var = None\<rparr>
       \<lparr>live = {}, next_obj = 0, fill = (\<lambda>_. CHR ''?''), outcomes = []\<rparr> 7 ''ic_pcntrld'' False False)
     ''/var/lib/iclaustron_data/ic_pcntrld.pid''"
  using set_out_file_spec [of "\<lparr>live = {}, next_obj = 0, fill = (\<lambda>_. CHR ''?''), outcomes = []\<rparr>" True
      "\<lparr>user_name = ''root'', home_var = None\<rparr>" "''ic_pcntrld''" 7 False False]
  by (simp add: heap_ok_def env_ok_def dir_prefix_def NULL_BYTE_def)

lemma set_working_dir_yields:
  assumes "heap_ok h" and "b \<longrightarrow> outcomes h = []" and "env_ok env"
  shows "yields b (live h) (ic_set_working_dir env h n is_node)
    ((dir_prefix env @ ''iclaustron_data/'') @ (if is_node then (''node_'' @ dec_string (unat n)) @ ''/'' else []))"
proof -
  obtain r where r: "node_str ''node_'' n = Inr ((''node_'' @ dec_string (unat n)) @ NULL_BYTE # r)"
    using node_str_eq [of "''node_''" n] by auto
  have nn: "NULL_BYTE \<notin> set (''node_'' @ dec_string (unat n))" by (rule node_name(1)) (simp add: NULL_BYTE_def)
  show ?thesis unfolding ic_set_working_dir_def
  proof (intro on_error_yields then_str_yields [OF data_dir_yields [OF assms]])
    fix d h' assume s: "string_ok b (live h) h' d (dir_prefix env @ ''iclaustron_data/'')"
    have "yields b (live h) (ic_add_dir h' d (Some ((''node_'' @ dec_string (unat n)) @ NULL_BYTE # r)))
       ((dir_prefix env @ ''iclaustron_data/'') @ (''node_'' @ dec_string (unat n)) @ ''/'')"
      using dir_prefix_length [OF assms(3)] node_name(2) [of "''node_''" n] by (intro add_dir_yields [OF s nn]) simp
    then show "yields b (live h) (if is_node then c_bind (node_str ''node_'' n) (\<lambda>buf. ic_add_dir h' d (Some buf))
        else Inr (0, d, h'))
      ((dir_prefix env @ ''iclaustron_data/'') @ (if is_node then (''node_'' @ dec_string (unat n)) @ ''/'' else []))"
      using r s by (cases is_node) (auto intro: yieldsI0)
  qed
qed

lemma set_binary_dir_yields:
  assumes "heap_ok h" and "b \<longrightarrow> outcomes h = []" and "env_ok env"
    and "NULL_BYTE \<notin> set v" and "length v < 1000"
  shows "yields b (live h) (ic_set_binary_dir env h v) (dir_prefix env @ ''iclaustron_install/'' @ v @ ''/bin/'')"
proof -
  let ?b = "dir_prefix env @ ''iclaustron_install'' @ ''/''"
  have p: "length ?b < 4000000100" using dir_prefix_length [OF assms(3)] by simp
  have base: "yields b (live h) (on_error (ic_set_base_dir env h)) ?b"
    unfolding ic_set_base_dir_def
    by (intro on_error_yields default_dir_yields [OF assms(1-3)]) (simp_all add: NULL_BYTE_def)
  have ver: "yields b (live h) (ic_add_dir h' d (c_str v)) (?b @ v @ ''/'')" if "string_ok b (live h) h' d ?b" for d h'
    unfolding c_str_def using p assms(4,5) by (intro add_dir_yields [OF that]) simp_all
  have bin: "yields b (live h) (on_error (ic_add_dir h' d (c_str ''bin''))) ((?b @ v @ ''/'') @ ''bin'' @ ''/'')"
    if "string_ok b (live h) h' d (?b @ v @ ''/'')" for d h'
    unfolding c_str_def using p assms(5)
    by (intro on_error_yields add_dir_yields [OF that]) (simp_all add: NULL_BYTE_def)
  have "ic_set_binary_dir env h v = then_str (on_error (ic_set_base_dir env h)) (\<lambda>d h.
      then_str (ic_add_dir h d (c_str v)) (\<lambda>d h. on_error (ic_add_dir h d (c_str ''bin''))))"
    by (simp only: ic_set_binary_dir_def then_str_def)
  then have "yields b (live h) (ic_set_binary_dir env h v) ((?b @ v @ ''/'') @ ''bin'' @ ''/'')"
    using then_str_yields [OF base then_str_yields [OF ver bin]] by simp
  then show ?thesis by simp
qed

text \<open>
  The working and the binary directory: \<open><prefix>iclaustron_data/\<close>, followed by \<open>node_<id>/\<close> for
  a node process, and \<open><prefix>iclaustron_install/<version>/bin/\<close>, with the same promise about failing
  allocations and the heap.
\<close>

theorem set_working_and_binary_dir_spec:
  assumes "heap_ok h" and "b \<longrightarrow> outcomes h = []" and "env_ok env"
    and "NULL_BYTE \<notin> set v" and "length v < 1000"
  shows "yields b (live h) (ic_set_working_dir env h n is_node)
      (dir_prefix env @ ''iclaustron_data/'' @ (if is_node then ''node_'' @ dec_string (unat n) @ ''/'' else [])) \<and>
    yields b (live h) (ic_set_binary_dir env h v) (dir_prefix env @ ''iclaustron_install/'' @ v @ ''/bin/'')"
  using set_working_dir_yields [OF assms(1-3), of n is_node] set_binary_dir_yields [OF assms] by (cases is_node) simp_all

theorem set_working_and_binary_dir_spec_witness:
  "yields False {} (ic_set_binary_dir \<lparr>user_name = ''mikael'', home_var = Some ''/home/mikael''\<rparr>
       \<lparr>live = {}, next_obj = 0, fill = (\<lambda>_. CHR ''?''), outcomes = [True, True, False]\<rparr> ''iclaustron-0.0.1'')
     ''/home/mikael/iclaustron_install/iclaustron-0.0.1/bin/''"
  using set_working_and_binary_dir_spec [of "\<lparr>live = {}, next_obj = 0, fill = (\<lambda>_. CHR ''?''), outcomes = [True, True, False]\<rparr>"
      False "\<lparr>user_name = ''mikael'', home_var = Some ''/home/mikael''\<rparr>" "''iclaustron-0.0.1''"]
  by (simp add: heap_ok_def env_ok_def dir_prefix_def NULL_BYTE_def)

text \<open>
  Printing a number: \<^verbatim>\<open>ic_guint64_str\<close> writes at most 20 decimal digits and a null byte, the digits
  have the value of the number, there is no leading zero, the length returned is the number of digits,
  and nothing behind the null byte changes; \<^verbatim>\<open>ic_guint64_hex_str\<close> writes \<^verbatim>\<open>0x\<close> and at most 16
  hexadecimal digits with the value of the number.
\<close>

theorem guint64_str_spec:
  assumes "21 \<le> length ptr"
  shows "\<exists>cs hs. ic_guint64_str v ptr = Inr (cs @ NULL_BYTE # drop (length cs + 1) ptr, of_nat (length cs)) \<and>
      length cs \<le> 20 \<and> cs \<noteq> [] \<and> (\<forall>c \<in> set cs. 48 \<le> (of_char c :: nat) \<and> (of_char c :: nat) \<le> 57) \<and>
      digits_value 10 (map dec_digit cs) = unat v \<and> (hd cs = CHR ''0'' \<longrightarrow> v = 0) \<and>
    ic_guint64_hex_str v ptr = Inr (''0x'' @ hs @ NULL_BYTE # drop (length hs + 3) ptr) \<and>
      length hs \<le> 16 \<and> digits_value 16 (map hex_digit hs) = unat v"
proof (intro exI conjI)
  show "ic_guint64_str v ptr = Inr (dec_string (unat v) @ NULL_BYTE # drop (length (dec_string (unat v)) + 1) ptr,
      of_nat (length (dec_string (unat v))))"
    using guint64_str_eq [of v ptr] dec_string_length(1) [of v] assms by simp
  show "hd (dec_string (unat v)) = CHR ''0'' \<longrightarrow> v = 0"
  proof (rule ccontr)
    assume "\<not> ?thesis"
    then have v: "unat v \<noteq> 0" and hd: "hd (dec_string (unat v)) = CHR ''0''" by (auto simp: unat_eq_0)
    let ?l = "last (digs 10 (unat v))"
    have ne: "digs 10 (unat v) \<noteq> []" using v by (simp add: digs_Nil_iff)
    then have "char_of (48 + ?l) = CHR ''0''" using hd v by (simp add: dec_string_def hd_map hd_rev)
    moreover have "?l < 10" using digs_bound [of 10 ?l "unat v"] ne by simp
    ultimately have "48 + ?l = 48" using of_char_small [of "48 + ?l"] by simp
    then show False using digs_last [of 10 "unat v"] v by simp
  qed
  show "ic_guint64_hex_str v ptr =
      Inr (''0x'' @ hex_string (unat v) @ NULL_BYTE # drop (length (hex_string (unat v)) + 3) ptr)"
    using guint64_hex_str_eq [of v ptr] hex_string_length(1) [of v] assms by simp
qed (use dec_string_length dec_string_digits dec_string_value hex_string_length hex_string_value in auto)

theorem guint64_str_spec_witness:
  "\<exists>cs hs. ic_guint64_str 1186 (replicate 32 NULL_BYTE) =
     Inr (cs @ NULL_BYTE # drop (length cs + 1) (replicate 32 NULL_BYTE), of_nat (length cs)) \<and>
     digits_value 10 (map dec_digit cs) = unat (1186 :: guint64) \<and>
     ic_guint64_hex_str 1186 (replicate 32 NULL_BYTE) =
       Inr (''0x'' @ hs @ NULL_BYTE # drop (length hs + 3) (replicate 32 NULL_BYTE))"
  using guint64_str_spec [of "replicate 32 NULL_BYTE" 1186] by auto

lemma init_buf_str:
  "0 < length dat \<Longrightarrow> \<exists>d. wr dat 0 NULL_BYTE = Inr d \<and>
     buf_str (length dat) (IC_INIT_STRING (Some (i, d)) 0 True) []"
  by (cases dat) (auto simp: buf_str_def IC_INIT_STRING_def)

lemma number_ending:
  "\<exists>r. ic_set_number_ending_string (replicate IC_MAX_INT_STRING NULL_BYTE) v =
     Inr ((''.'' @ dec_string (unat v)) @ NULL_BYTE # r)"
proof -
  have "length (dec_string (unat v)) < length (replicate 31 NULL_BYTE)" using dec_string_length(1) [of v] by simp
  from guint64_str_eq [OF this] show ?thesis
    by (simp add: ic_set_number_ending_string_def IC_MAX_INT_STRING_def numeral_eq_Suc)
qed

lemma str_is_init:
  "length e < 4294967296 \<Longrightarrow> str_is (IC_INIT_STRING (Some (i, e @ r)) (of_nat (length e)) t) e"
  by (simp add: str_is_def IC_INIT_STRING_def rd_ptr_def unat_of_nat_32)

lemma create_config_file_name_buf:
  assumes dir: "str_is dir ds" and nm: "str_is nm ns"
    and room: "length ds + length ns + 26 \<le> length dat" "length dat \<le> 4294967296"
  shows "\<exists>f. ic_create_config_file_name (i, dat) dir nm v = Inr f \<and>
    buf_str (length dat) f (((ds @ ns) @ ''.ini'') @ (if v = 0 then [] else ''.'' @ dec_string (unat v)))"
proof -
  have n0: "0 < length dat" using room by linarith
  obtain d where d: "wr dat 0 NULL_BYTE = Inr d" "buf_str (length dat) (IC_INIT_STRING (Some (i, d)) 0 True) []"
    using init_buf_str [OF n0] by blast
  obtain f1 where f1: "ic_add_ic_string (IC_INIT_STRING (Some (i, d)) 0 True) (Some dir) = Inr f1"
    "buf_str (length dat) f1 ds" using add_ic_string_buf [OF d(2) dir] room by auto
  obtain f2 where f2: "ic_add_ic_string f1 (Some nm) = Inr f2" "buf_str (length dat) f2 (ds @ ns)"
    using add_ic_string_buf [OF f1(2) nm] room by auto
  have e: "str_is ic_config_ending_string ''.ini''" unfolding ic_config_ending_string_def by (rule str_is_lit) simp
  obtain f3 where f3: "ic_add_ic_string f2 (Some ic_config_ending_string) = Inr f3"
    "buf_str (length dat) f3 ((ds @ ns) @ ''.ini'')" using add_ic_string_buf [OF f2(2) e] room by auto
  obtain r where r: "ic_set_number_ending_string (replicate IC_MAX_INT_STRING NULL_BYTE) v =
     Inr ((''.'' @ dec_string (unat v)) @ NULL_BYTE # r)" using number_ending by blast
  let ?e = "''.'' @ dec_string (unat v)"
  have le: "length ?e \<le> 21" and nn: "NULL_BYTE \<notin> set ?e"
    using dec_string_length(1) [of v] dec_string_no_null by (simp_all add: NULL_BYTE_def)
  have s: "str_is (IC_INIT_STRING (Some (0, ?e @ NULL_BYTE # r)) (of_nat (length ?e)) True) ?e"
    using le by (intro str_is_init) linarith
  obtain f4 where f4: "ic_add_ic_string f3 (Some (IC_INIT_STRING (Some (0, ?e @ NULL_BYTE # r)) (of_nat (length ?e)) True)) = Inr f4"
    "buf_str (length dat) f4 (((ds @ ns) @ ''.ini'') @ ?e)" using add_ic_string_buf [OF f3(2) s] room le by auto
  show ?thesis
  proof (cases "v = 0")
    case True
    then show ?thesis using d(1) f1(1) f2(1) f3 by (simp add: ic_create_config_file_name_def)
  next
    case False
    then have "ic_create_config_file_name (i, dat) dir nm v = Inr f4"
      unfolding ic_create_config_file_name_def fst_conv snd_conv d(1) c_bind_simps f1(1) f2(1) f3(1) r strlen_at [OF nn]
      using f4(1) by simp
    then show ?thesis using f4(2) False by simp
  qed
qed

text \<open>
  The names of configuration files: in a buffer large enough for them the two functions write the
  null-terminated strings \<open><dir><name>.ini\<close>, followed by \<open>.<version>\<close> for a version other than 0, and
  \<open><dir>config_version.ini\<close>, with their lengths.
\<close>

theorem config_file_name_spec:
  assumes "str_is dir ds" and "str_is nm ns"
    and "length ds + length ns + 26 \<le> length dat" and "length dat \<le> 4294967296"
  shows "(\<exists>f. ic_create_config_file_name (i, dat) dir nm v = Inr f \<and>
      buf_str (length dat) f (ds @ ns @ ''.ini'' @ (if v = 0 then [] else ''.'' @ dec_string (unat v)))) \<and>
    (\<exists>f. ic_create_config_version_file_name (i, dat) dir = Inr f \<and>
      buf_str (length dat) f (ds @ ''config_version.ini''))"
proof
  show "\<exists>f. ic_create_config_file_name (i, dat) dir nm v = Inr f \<and>
      buf_str (length dat) f (ds @ ns @ ''.ini'' @ (if v = 0 then [] else ''.'' @ dec_string (unat v)))"
    using create_config_file_name_buf [OF assms, of i v] by simp
  have n0: "0 < length dat" using assms(3) by linarith
  obtain d where d: "wr dat 0 NULL_BYTE = Inr d" "buf_str (length dat) (IC_INIT_STRING (Some (i, d)) 0 True) []"
    using init_buf_str [OF n0] by blast
  obtain f1 where f1: "ic_add_ic_string (IC_INIT_STRING (Some (i, d)) 0 True) (Some dir) = Inr f1"
    "buf_str (length dat) f1 ds" using add_ic_string_buf [OF d(2) assms(1)] assms(3,4) by auto
  have l: "str_is ic_config_string ''config''" "str_is ic_version_file_string ''_version''"
    "str_is ic_config_ending_string ''.ini''"
    unfolding ic_config_string_def ic_version_file_string_def ic_config_ending_string_def
    by (rule str_is_lit; simp)+
  obtain f2 where f2: "ic_add_ic_string f1 (Some ic_config_string) = Inr f2" "buf_str (length dat) f2 (ds @ ''config'')"
    using add_ic_string_buf [OF f1(2) l(1)] assms(3,4) by auto
  obtain f3 where f3: "ic_add_ic_string f2 (Some ic_version_file_string) = Inr f3"
    "buf_str (length dat) f3 ((ds @ ''config'') @ ''_version'')"
    using add_ic_string_buf [OF f2(2) l(2)] assms(3,4) by auto
  obtain f4 where f4: "ic_add_ic_string f3 (Some ic_config_ending_string) = Inr f4"
    "buf_str (length dat) f4 (((ds @ ''config'') @ ''_version'') @ ''.ini'')"
    using add_ic_string_buf [OF f3(2) l(3)] assms(3,4) by auto
  show "\<exists>f. ic_create_config_version_file_name (i, dat) dir = Inr f \<and>
      buf_str (length dat) f (ds @ ''config_version.ini'')"
    using d(1) f1(1) f2(1) f3(1) f4 by (simp add: ic_create_config_version_file_name_def)
qed

theorem config_file_name_spec_witness:
  "\<exists>f. ic_create_config_version_file_name (0, replicate 100 NULL_BYTE) (lit ''/etc/'') = Inr f \<and>
     buf_str 100 f ''/etc/config_version.ini''"
  using config_file_name_spec [of "lit ''/etc/''" "''/etc/''" "lit ''config''" "''config''" "replicate 100 NULL_BYTE" 0]
  by (simp add: str_is_lit)

lemma cmp_loop_eq:
  "k \<le> length ns \<Longrightarrow> k \<le> length cs \<Longrightarrow> cmp_loop conv ns cs k = Inr (take k ns \<noteq> map conv (take k cs))"
proof (induction k arbitrary: ns cs)
  case (Suc k)
  then obtain n ns' c cs' where "ns = n # ns'" "cs = c # cs'" by (cases ns; cases cs) auto
  then show ?case using Suc by auto
qed simp

lemma cmp_null_term_str:
  assumes "NULL_BYTE \<notin> set ns" and "length ns < 4294967296" and "str_is s cs"
  shows "ic_cmp_null_term_str (ns @ NULL_BYTE # r) s = Inr (ns \<noteq> cs)"
proof -
  have l: "unat (len s) = length cs" using str_is_length [OF assms(3)] by simp
  have n: "unat (of_nat (length ns) :: guint32) = length ns" using assms(2) by (rule unat_of_nat_32)
  have dat: "take (length cs) (ptr_data (str s)) = cs" "length cs \<le> length (ptr_data (str s))"
    using str_is_data [OF assms(3)] l by simp_all
  have eq: "len s = of_nat (length ns) \<longleftrightarrow> length cs = length ns" using l n by (metis word_unat_eq_iff)
  show ?thesis
  proof (cases "length cs = length ns")
    case True
    then have "cmp_loop id (ns @ NULL_BYTE # r) (ptr_data (str s)) (length cs) = Inr (ns \<noteq> cs)"
      using dat by (subst cmp_loop_eq) simp_all
    then show ?thesis using True l eq by (simp add: ic_cmp_null_term_str_def strlen_at [OF assms(1)])
  next
    case False
    then have "ns \<noteq> cs" by metis
    then show ?thesis using False eq by (simp add: ic_cmp_null_term_str_def strlen_at [OF assms(1)])
  qed
qed

text \<open>
  Comparisons. For a C string without null bytes and an \<^verbatim>\<open>IC_STRING\<close> the result of
  \<^verbatim>\<open>ic_cmp_null_term_str\<close> is 0 exactly for equal strings; the \<^verbatim>\<open>_upper\<close> variant compares with the upper
  case of the \<^verbatim>\<open>IC_STRING\<close>, and the \<^verbatim>\<open>_upper_part\<close> variant asks whether that upper case starts with the
  C string. None reads beyond either string.
\<close>

theorem cmp_null_term_str_spec:
  assumes "NULL_BYTE \<notin> set ns" and "length ns < 4294967296" and "str_is s cs"
  shows "ic_cmp_null_term_str (ns @ NULL_BYTE # r) s = Inr (ns \<noteq> cs) \<and>
    ic_cmp_null_term_str_upper (ns @ NULL_BYTE # r) s = Inr (ns \<noteq> map toupper cs) \<and>
    ic_cmp_null_term_str_upper_part (ns @ NULL_BYTE # r) s = Inr (take (length ns) (map toupper cs) \<noteq> ns)"
proof -
  have l: "unat (len s) = length cs" using str_is_length [OF assms(3)] by simp
  have n: "unat (of_nat (length ns) :: guint32) = length ns" using assms(2) by (rule unat_of_nat_32)
  have dat: "take (length cs) (ptr_data (str s)) = cs" "length cs \<le> length (ptr_data (str s))"
    using str_is_data [OF assms(3)] l by simp_all
  have eq: "len s = of_nat (length ns) \<longleftrightarrow> length cs = length ns" using l n by (metis word_unat_eq_iff)
  have lt: "len s < of_nat (length ns) \<longleftrightarrow> length cs < length ns" using l n by (simp add: word_less_nat_alt)
  have "take (length ns) (ptr_data (str s)) = take (length ns) cs" if "length ns \<le> length cs"
    using that dat by (metis min.absorb1 take_take)
  then have up: "cmp_loop toupper (ns @ NULL_BYTE # r) (ptr_data (str s)) (length ns) =
      Inr (ns \<noteq> take (length ns) (map toupper cs))" if "length ns \<le> length cs"
    using that dat(2) by (subst cmp_loop_eq) (simp_all add: take_map)
  show ?thesis
  proof (intro conjI)
    show "ic_cmp_null_term_str (ns @ NULL_BYTE # r) s = Inr (ns \<noteq> cs)"
      by (rule cmp_null_term_str [OF assms])
    show "ic_cmp_null_term_str_upper (ns @ NULL_BYTE # r) s = Inr (ns \<noteq> map toupper cs)"
    proof (cases "length cs = length ns")
      case True
      then have "take (length ns) (map toupper cs) = map toupper cs" by simp
      then show ?thesis using True up n eq by (simp add: ic_cmp_null_term_str_upper_def strlen_at [OF assms(1)])
    next
      case False
      then have "ns \<noteq> map toupper cs" by (metis length_map)
      then show ?thesis using False eq by (simp add: ic_cmp_null_term_str_upper_def strlen_at [OF assms(1)])
    qed
    show "ic_cmp_null_term_str_upper_part (ns @ NULL_BYTE # r) s = Inr (take (length ns) (map toupper cs) \<noteq> ns)"
      using up n lt by (auto simp: ic_cmp_null_term_str_upper_part_def strlen_at [OF assms(1)])
  qed
qed

theorem cmp_null_term_str_spec_witness:
  "ic_cmp_null_term_str (''true'' @ NULL_BYTE # []) (lit ''true'') = Inr (''true'' \<noteq> ''true'')"
  using cmp_null_term_str_spec [of "''true''" "lit ''true''" "''true''" "[]"] by (simp add: str_is_lit NULL_BYTE_def)

section \<open>Allocators\<close>

text \<open>
  What a copy function needs of its allocator: a call does not fault and returns nothing or an object
  of the size asked for. \<open>ready k h\<close> says that \<open>k\<close> more calls are covered, \<open>plenty h\<close> that none of them
  returns nothing.
\<close>

locale gchar_allocator =
  fixes al :: "'h allocator" and ready :: "nat \<Rightarrow> 'h \<Rightarrow> bool" and plenty :: "'h \<Rightarrow> bool"
  assumes al_law: "ready (Suc k) h \<Longrightarrow> unat n \<le> 4294967288 \<Longrightarrow>
      \<exists>r h'. al h n = Inr (r, h') \<and> ready k h' \<and> (plenty h \<longrightarrow> r \<noteq> None \<and> plenty h') \<and>
        (case r of None \<Rightarrow> True | Some (i, d) \<Rightarrow> length d = unat n)"
    and ready_less: "ready (Suc k) h \<Longrightarrow> ready k h"
begin

lemma al_cases:
  assumes "ready (Suc k) h" and "unat n \<le> 4294967288"
  obtains (none) h' where "al h n = Inr (None, h')" "ready k h'" "\<not> plenty h"
  | (obj) i d h' where "al h n = Inr (Some (i, d), h')" "ready k h'" "length d = unat n" "plenty h \<longrightarrow> plenty h'"
proof -
  from al_law [OF assms] obtain r h' where r: "al h n = Inr (r, h')" "ready k h'" "plenty h \<longrightarrow> r \<noteq> None \<and> plenty h'"
    "case r of None \<Rightarrow> True | Some (i, d) \<Rightarrow> length d = unat n" by blast
  then show thesis using none obj by (cases r) auto
qed

lemma ready_mono: "ready (k + n) h \<Longrightarrow> ready k h"
  by (induction n) (auto intro: ready_less)

lemma strdup_copies:
  assumes "ready (Suc k) h" and "str_is s cs" and "length cs < 4294967288"
  shows "\<exists>rc out h'. ic_mc_strdup al h s = Inr (rc, out, h') \<and> ready k h' \<and>
    (rc = 0 \<and> (\<exists>i. out = IC_INIT_STRING (Some (i, cs @ [NULL_BYTE])) (len s) (is_null_terminated s)) \<or> rc = IC_ERROR_MEM_ALLOC \<and> str out = None)"
proof -
  have l: "unat (len s) = length cs" using str_is_length [OF assms(2)] by simp
  have n: "unat (len s + 1) = Suc (length cs)" using l assms(3) by (subst unat_add_small) simp_all
  then have b: "unat (len s + 1) \<le> 4294967288" using assms(3) by simp
  show ?thesis
  proof (rule al_cases [OF assms(1) b], goal_cases none obj)
    case (none h')
    then show ?case by (auto simp: ic_mc_strdup_def IC_INIT_STRING_def)
  next
    case (obj i d h')
    then obtain z where "drop (length cs) d = [z]"
      using n by (metis Suc_diff_le diff_self_eq_0 le_refl length_drop length_0_conv length_Suc_conv)
    then have "wr_blk d 0 cs = Inr (cs @ [z])" using obj n by simp
    moreover have "wr (cs @ [z]) (length cs) NULL_BYTE = Inr (cs @ [NULL_BYTE])" by simp
    moreover have "rd_ptr (str s) (length cs) = Inr cs" using assms(2) l by (simp add: str_is_def)
    ultimately show ?case using obj l by (auto simp: ic_mc_strdup_def IC_INIT_STRING_def)
  qed
qed

lemma add_ic_string_appends:
  assumes "ready (Suc k) h" and "str_is d cs" and "str_is s as" and "length cs + length as < 4294967288"
  shows "\<exists>rc out h'. ic_mc_add_ic_string al h d (Some s) = Inr (rc, out, h') \<and> ready k h' \<and>
    (rc = 0 \<and> str_is out (cs @ as) \<and> (\<exists>i. str out = Some (i, cs @ as @ [NULL_BYTE])) \<or>
     rc = IC_ERROR_MEM_ALLOC \<and> out = d)"
proof -
  have l: "unat (len d) = length cs" "unat (len s) = length as"
    using str_is_length [OF assms(2)] str_is_length [OF assms(3)] by simp_all
  have n: "unat (len d + len s) = length cs + length as" using l assms(4) by (subst unat_add_small) simp_all
  have n1: "unat (len d + len s + 1) = Suc (length cs + length as)" using n assms(4) by (subst unat_add_small) simp_all
  then have b: "unat (len d + len s + 1) \<le> 4294967288" using assms(4) by simp
  show ?thesis
  proof (rule al_cases [OF assms(1) b], goal_cases none obj)
    case (none h')
    then show ?case by (auto simp: ic_mc_add_ic_string_def)
  next
    case (obj i dat h')
    then have ld: "length dat = Suc (length cs + length as)" using n1 by simp
    obtain z where z: "drop (length cs + length as) dat = [z]" using ld
      by (metis Suc_diff_le diff_self_eq_0 le_refl length_drop length_0_conv length_Suc_conv)
    have "wr_blk dat 0 cs = Inr (cs @ drop (length cs) dat)" using ld by simp
    moreover have "wr_blk (cs @ drop (length cs) dat) (length cs) as = Inr (cs @ as @ [z])"
      using ld z by (simp add: wr_blk_def add.commute)
    moreover have "wr (cs @ as @ [z]) (length cs + length as) NULL_BYTE = Inr (cs @ as @ [NULL_BYTE])"
      by (simp add: list_update_append)
    moreover have "rd_ptr (str d) (length cs) = Inr cs" "rd_ptr (str s) (length as) = Inr as"
      using assms(2,3) l by (simp_all add: str_is_def)
    ultimately show ?case using obj l n by (auto simp: ic_mc_add_ic_string_def Let_def str_is_def rd_ptr_def)
  qed
qed

lemma chardup_copies:
  assumes "ready (Suc k) h" and "NULL_BYTE \<notin> set cs" and "length cs < 4294967288"
  shows "\<exists>rc p h'. ic_mc_chardup al h (i, cs @ NULL_BYTE # r) = Inr (rc, p, h') \<and> ready k h' \<and>
    (rc = 0 \<and> (\<exists>j. p = Some (j, cs @ [NULL_BYTE])) \<or> rc = IC_ERROR_MEM_ALLOC \<and> p = None)"
proof -
  have "str_is (IC_INIT_STRING (Some (i, cs @ NULL_BYTE # r)) (of_nat (length cs)) True) cs"
    using assms(3) by (intro str_is_init) simp
  from strdup_copies [OF assms(1) this assms(3)] show ?thesis
    by (auto simp: ic_mc_chardup_def strlen_at [OF assms(2)] IC_INIT_STRING_def)
qed

lemma char_to_strdup_copies:
  assumes "ready (Suc (Suc k)) h" and "n \<le> length dat" and "n < 4294967288"
  shows "\<exists>rc out h'. ic_mc_char_to_strdup al h (i, dat) (of_nat n) = Inr (rc, out, h') \<and>
    (rc = 0 \<and> (\<exists>s. out = Some s \<and> str_is s (take n dat)) \<or> rc = IC_ERROR_MEM_ALLOC \<and> out = None)"
proof (rule al_cases [OF assms(1), of 16], goal_cases small none obj)
  case (obj j d h')
  have n: "length (take n dat) = n" using assms(2) by simp
  have "str_is (IC_INIT_STRING (Some (i, take n dat @ drop n dat)) (of_nat (length (take n dat))) True) (take n dat)"
    using assms n by (intro str_is_init) simp
  then have s: "str_is (IC_INIT_STRING (Some (i, dat)) (of_nat n) True) (take n dat)" by (simp only: n append_take_drop_id)
  have u: "unat (of_nat n :: guint32) = n" using assms(3) by (simp add: unat_of_nat_32)
  let ?in = "IC_INIT_STRING (Some (i, dat)) (of_nat n) True"
  have c: "str_is (IC_INIT_STRING (Some (l, take n dat @ [NULL_BYTE])) (len ?in) t) (take n dat)" for l t
    using u assms(2) by (simp add: str_is_def IC_INIT_STRING_def rd_ptr_def)
  from strdup_copies [OF obj(2) s] assms(3) n obtain rc out h2 where
    r: "ic_mc_strdup al h' ?in = Inr (rc, out, h2)"
    and o: "rc = 0 \<and> (\<exists>l. out = IC_INIT_STRING (Some (l, take n dat @ [NULL_BYTE])) (len ?in) (is_null_terminated ?in)) \<or>
      rc = IC_ERROR_MEM_ALLOC \<and> str out = None" by auto
  have "ic_mc_char_to_strdup al h (i, dat) (of_nat n) =
      (if rc \<noteq> 0 then Inr (IC_ERROR_MEM_ALLOC, None, h2) else Inr (0, Some out, h2))"
    using obj(1) r by (simp add: ic_mc_char_to_strdup_def)
  then show ?case using o c by auto
qed (auto simp: ic_mc_char_to_strdup_def)

end

interpretation ma: gchar_allocator malloc_allocator "\<lambda>k h. True" "\<lambda>h. outcomes h = []"
proof
  fix k and h :: heap and n :: guint32
  show "\<exists>r h'. malloc_allocator h n = Inr (r, h') \<and> True \<and> (outcomes h = [] \<longrightarrow> r \<noteq> None \<and> outcomes h' = []) \<and>
      (case r of None \<Rightarrow> True | Some (i, d) \<Rightarrow> length d = unat n)"
    by (cases "alloc_next (outcomes h)") (auto simp: malloc_allocator_def ic_malloc_def)
qed simp

text \<open>
  Duplicating a string with \<^verbatim>\<open>ic_strdup\<close> or \<^verbatim>\<open>ic_chardup\<close> gives a null-terminated copy in an object of
  its own, or \<open>IC_ERROR_MEM_ALLOC\<close> and no string when memory runs out.
\<close>

theorem strdup_spec:
  assumes "str_is s cs" and "length cs < 4294967288" and "NULL_BYTE \<notin> set cs"
  shows "(\<exists>rc out h'. ic_strdup h s = Inr (rc, out, h') \<and>
      (rc = 0 \<and> (\<exists>i. out = IC_INIT_STRING (Some (i, cs @ [NULL_BYTE])) (len s) (is_null_terminated s)) \<or> rc = IC_ERROR_MEM_ALLOC \<and> str out = None)) \<and>
    (\<exists>rc p h'. ic_chardup h (j, cs @ NULL_BYTE # r) = Inr (rc, p, h') \<and>
      (rc = 0 \<and> (\<exists>i. p = Some (i, cs @ [NULL_BYTE])) \<or> rc = IC_ERROR_MEM_ALLOC \<and> p = None))"
  unfolding ic_strdup_def ic_chardup_def
  using ma.strdup_copies [OF _ assms(1,2)] ma.chardup_copies [OF _ assms(3,2)] by simp

theorem strdup_spec_witness:
  "\<exists>rc out h'. ic_strdup \<lparr>live = {}, next_obj = 0, fill = (\<lambda>_. CHR ''?''), outcomes = [False]\<rparr> (lit ''x'') =
       Inr (rc, out, h') \<and> (rc = 0 \<or> rc = IC_ERROR_MEM_ALLOC)"
proof -
  have "str_is (lit ''x'') ''x''" "NULL_BYTE \<notin> set ''x''" by (simp_all add: str_is_lit NULL_BYTE_def)
  from strdup_spec [OF this(1) _ this(2)] show ?thesis by fastforce
qed

section \<open>Reading lines\<close>

lemma next_line_loop_found:
  "CARRIAGE_RETURN \<notin> set ln \<Longrightarrow> length done + length ln \<le> length buf \<Longrightarrow> length ln < k \<Longrightarrow> take (length done) buf = done \<Longrightarrow>
   next_line_loop (done @ ln @ CARRIAGE_RETURN # rest) buf (length done) k =
     Inr (True, length done + length ln, done @ ln @ drop (length done + length ln) buf)"
proof (induction ln arbitrary: "done" buf k)
  case Nil
  then show ?case by (cases k) (simp_all add: nth_append, metis append_take_drop_id)
next
  case (Cons c ln)
  obtain k' where k: "k = Suc k'" using Cons.prems(3) by (cases k) auto
  let ?b = "buf[length done := c]"
  have i: "length done < length buf" using Cons.prems(2) by simp
  have t: "take (length (done @ [c])) ?b = done @ [c]" using i Cons.prems(4) by (simp add: take_Suc_conv_app_nth)
  have "next_line_loop ((done @ [c]) @ ln @ CARRIAGE_RETURN # rest) ?b (length (done @ [c])) k' =
      Inr (True, length (done @ [c]) + length ln, (done @ [c]) @ ln @ drop (length (done @ [c]) + length ln) ?b)"
    using Cons.prems k t by (intro Cons.IH) simp_all
  then show ?case using Cons.prems k i by (auto simp: nth_append)
qed

lemma next_line_loop_overrun:
  "CARRIAGE_RETURN \<notin> set ln \<Longrightarrow> length buf < length done + length ln \<Longrightarrow> length ln < k \<Longrightarrow> length done \<le> length buf \<Longrightarrow>
   next_line_loop (done @ ln @ rest) buf (length done) k = Inl OutOfBounds"
proof (induction ln arbitrary: "done" buf k)
  case (Cons c ln)
  obtain k' where k: "k = Suc k'" using Cons.prems(3) by (cases k) auto
  show ?case
  proof (cases "length done < length buf")
    case True
    then have "next_line_loop ((done @ [c]) @ ln @ rest) (buf[length done := c]) (length (done @ [c])) k' = Inl OutOfBounds"
      using Cons.prems k by (intro Cons.IH) simp_all
    then show ?thesis using Cons.prems k True by (auto simp: nth_append)
  next
    case False
    then show ?thesis using Cons.prems k by (auto simp: nth_append wr_def)
  qed
qed simp

text \<open>
  Reading the next line of a text whose next line is ended by a carriage return. If the line and
  its null byte fit in the buffer, the call returns 0 with the line, its length and the position and
  size of the remaining text. If the line does not fit the call writes beyond the buffer: the error
  \<open>IC_ERROR_LINE_TOO_LONG\<close> the comment promises is not reached, because the limit of the loop is the
  maximum and not the minimum of the two sizes.
\<close>

theorem get_next_line_spec:
  assumes "CARRIAGE_RETURN \<notin> set ln" and "buf_size = of_nat (length buf)" and "0 < length buf"
    and "length buf < 4294967296" and "length ln + length rest < 18446744073709551615"
  shows "ic_get_next_line (ln @ CARRIAGE_RETURN # rest) (of_nat (length ln + 1 + length rest)) buf buf_size =
    (if length ln < length buf
     then Inr (0, rest, of_nat (length rest), ln @ NULL_BYTE # drop (length ln + 1) buf, of_nat (length ln))
     else Inl OutOfBounds)"
proof -
  let ?sz = "of_nat (length ln + 1 + length rest) :: guint64" and ?bm = "ucast (buf_size - 1) :: guint64"
  have u: "unat ?sz = length ln + 1 + length rest" using assms(5) by (simp only: unat_of_nat) simp
  define k where "k = unat (if ?bm < ?sz then ?sz else ?bm)"
  have k: "length ln < k" using u by (auto simp: k_def word_less_nat_alt)
  show ?thesis
  proof (cases "length ln < length buf")
    case True
    have l: "next_line_loop (ln @ CARRIAGE_RETURN # rest) buf 0 k = Inr (True, length ln, ln @ drop (length ln) buf)"
      using next_line_loop_found [of ln "[]" buf k rest] assms(1) True k by simp
    have d: "drop (length ln) buf = buf ! length ln # drop (length ln + 1) buf"
      using True by (simp add: Cons_nth_drop_Suc)
    have w: "wr (ln @ drop (length ln) buf) (length ln) NULL_BYTE = Inr (ln @ NULL_BYTE # drop (length ln + 1) buf)"
      by (simp add: d)
    have sz: "?sz - (of_nat (length ln) + 1) = of_nat (length rest)" by simp
    show ?thesis unfolding ic_get_next_line_def Let_def k_def [symmetric] l c_bind_simps prod.case
      using True w sz by simp
  next
    case False
    then have "next_line_loop (ln @ CARRIAGE_RETURN # rest) buf 0 k = Inl OutOfBounds \<or>
        length ln = length buf \<and> next_line_loop (ln @ CARRIAGE_RETURN # rest) buf 0 k = Inr (True, length ln, ln)"
      using next_line_loop_overrun [of ln buf "[]" k "CARRIAGE_RETURN # rest"]
        next_line_loop_found [of ln "[]" buf k rest] assms(1) k by (cases "length ln = length buf") auto
    then show ?thesis unfolding ic_get_next_line_def Let_def k_def [symmetric] using False
      by (auto simp: wr_def)
  qed
qed

theorem get_next_line_spec_witness:
  "ic_get_next_line (''abcdef'' @ CARRIAGE_RETURN # ''x'') (of_nat (length ''abcdef'' + 1 + length ''x''))
     (replicate 4 NULL_BYTE) (of_nat (length (replicate 4 NULL_BYTE))) = Inl OutOfBounds"
  using get_next_line_spec [of "''abcdef''" "of_nat (length (replicate 4 NULL_BYTE))" "replicate 4 NULL_BYTE" "''x''"]
  by (simp add: CARRIAGE_RETURN_def)

section \<open>Counting lines\<close>

fun count_cr :: "char list \<Rightarrow> nat" where
  "count_cr [] = 0"
| "count_cr (c # cs) = (if c = CARRIAGE_RETURN then 1 else 0) + count_cr cs"

lemma count_cr_0: "count_cr cs = 0 \<longleftrightarrow> CARRIAGE_RETURN \<notin> set cs"
  by (induction cs) auto

lemma count_lines_loop_eq:
  "length pre + length cs < 18446744073709551616 \<Longrightarrow>
   \<exists>l. count_lines_loop (pre @ cs) (of_nat (length pre)) n last_cr (length cs) = Inr (n + of_nat (count_cr cs), l) \<and>
     (if CARRIAGE_RETURN \<in> set cs
      then \<exists>i. l = Some (of_nat i) \<and> i < length (pre @ cs) \<and> (i + 1 = length (pre @ cs) \<longleftrightarrow> last (pre @ cs) = CARRIAGE_RETURN)
      else l = last_cr)"
proof (induction cs arbitrary: pre n last_cr)
  case (Cons c cs)
  have u: "unat (of_nat (length pre) :: guint64) = length pre" using Cons.prems by (simp add: unat_of_nat)
  have s: "pre @ c # cs = (pre @ [c]) @ cs" by simp
  let ?n = "if c = CARRIAGE_RETURN then n + 1 else n" and ?l = "if c = CARRIAGE_RETURN then Some (of_nat (length pre)) else last_cr"
  have step: "count_lines_loop (pre @ c # cs) (of_nat (length pre)) n last_cr (length (c # cs)) =
      count_lines_loop ((pre @ [c]) @ cs) (of_nat (length (pre @ [c]))) ?n ?l (length cs)"
    using u by (simp add: nth_append add.commute)
  have "length (pre @ [c]) + length cs < 18446744073709551616" using Cons.prems by simp
  from Cons.IH [OF this, of ?n ?l] obtain l where
    l: "count_lines_loop ((pre @ [c]) @ cs) (of_nat (length (pre @ [c]))) ?n ?l (length cs) = Inr (?n + of_nat (count_cr cs), l)"
      "if CARRIAGE_RETURN \<in> set cs
       then \<exists>i. l = Some (of_nat i) \<and> i < length ((pre @ [c]) @ cs) \<and>
         (i + 1 = length ((pre @ [c]) @ cs) \<longleftrightarrow> last ((pre @ [c]) @ cs) = CARRIAGE_RETURN)
       else l = ?l" by blast
  let ?at = "\<lambda>l. \<exists>i. l = Some (of_nat i) \<and> i < length (pre @ c # cs) \<and>
      (i + 1 = length (pre @ c # cs) \<longleftrightarrow> last (pre @ c # cs) = CARRIAGE_RETURN)"
  have here: "?at l" if "c = CARRIAGE_RETURN" "CARRIAGE_RETURN \<notin> set cs"
    using that l(2) by (intro exI [of _ "length pre"]) (auto simp: last_append, metis last_in_set)
  have later: "?at l" if "CARRIAGE_RETURN \<in> set cs"
    using that l(2) unfolding s by presburger
  have a: "if CARRIAGE_RETURN \<in> set (c # cs) then ?at l else l = last_cr"
  proof (cases "CARRIAGE_RETURN \<in> set (c # cs)")
    case True
    then have "c = CARRIAGE_RETURN \<or> CARRIAGE_RETURN \<in> set cs" by auto
    then have "?at l" using here later by (cases "CARRIAGE_RETURN \<in> set cs") blast+
    with True show ?thesis by (simp only: if_True)
  next
    case False
    then show ?thesis using l(2) by auto
  qed
  have b: "?n + of_nat (count_cr cs) = n + of_nat (count_cr (c # cs))" by simp
  show ?case unfolding step l(1) b by (intro exI [of _ l] conjI refl a)
qed simp

text \<open>
  Counting the lines of a text: for a text with a carriage return the result is the number of
  carriage returns, plus one when the text does not end with one. For a text without any the function
  uses an uninitialised variable.
\<close>

theorem count_lines_spec:
  assumes "length cs < 18446744073709551615"
  shows "ic_count_lines cs (of_nat (length cs)) =
    (if CARRIAGE_RETURN \<in> set cs
     then Inr (of_nat (count_cr cs + (if last cs = CARRIAGE_RETURN then 0 else 1))) else Inl UninitRead)"
proof -
  have u: "unat (of_nat (length cs) :: guint64) = length cs" using assms by (simp add: unat_of_nat)
  obtain l where l: "count_lines_loop cs 0 0 None (length cs) = Inr (of_nat (count_cr cs), l)"
    "if CARRIAGE_RETURN \<in> set cs
     then \<exists>i. l = Some (of_nat i) \<and> i < length cs \<and> (i + 1 = length cs \<longleftrightarrow> last cs = CARRIAGE_RETURN) else l = None"
    using count_lines_loop_eq [of "[]" cs 0 None] assms unfolding append_Nil by auto
  show ?thesis
  proof (cases "CARRIAGE_RETURN \<in> set cs")
    case True
    then obtain i where i: "l = Some (of_nat i)" "i < length cs" "i + 1 = length cs \<longleftrightarrow> last cs = CARRIAGE_RETURN"
      using l(2) by auto
    have "unat (of_nat (i + 1) :: guint64) = i + 1" using i(2) assms by (simp only: unat_of_nat) simp
    then have "(of_nat i + 1 :: guint64) = of_nat (length cs) \<longleftrightarrow> i + 1 = length cs"
      using u by (metis of_nat_1 of_nat_add)
    then show ?thesis using True l(1) i u by (simp add: ic_count_lines_def)
  qed (use l u in \<open>simp add: ic_count_lines_def\<close>)
qed

theorem count_lines_spec_witness:
  "ic_count_lines ''a'' (of_nat (length ''a'')) = Inl UninitRead"
  using count_lines_spec [of "''a''"] by (simp add: CARRIAGE_RETURN_def)

end
