(* ===== verification/IC_Config_Reader.thy ===== *)
theory IC_Config_Reader
  imports IC_String
begin

text \<open>
  \<^verbatim>\<open>src/util/ic_config_reader.c\<close>: the generic reader of configuration files and the conversions
  of configuration values to numbers.

  The reader works on the contents of a file as one buffer, which it changes in place (section and
  key names become lower case), and reports what it finds to the operations of the caller's
  \<^verbatim>\<open>IC_CONFIG_OPERATIONS\<close>, which are arguments of the model together with the state they keep. The
  character classes \<^verbatim>\<open>g_ascii_isalpha\<close>, \<^verbatim>\<open>g_ascii_isdigit\<close>, \<^verbatim>\<open>g_ascii_isspace\<close> and
  \<^verbatim>\<open>g_ascii_tolower\<close> of GLib are arguments as well (\<open>gascii\<close>); \<open>gascii_ok\<close> states what their
  documentation says of them. Lengths are natural numbers below \<^verbatim>\<open>IC_MAX_CONFIG_LINE_LEN\<close>; a
  subtraction that would be negative, and so wrap in C, is a fault.

  Results: parsing inverts printing (a file made of well-formed lines makes exactly the calls its lines
  stand for, in both passes), no file makes the reader leave its buffer, and numbers are read back as
  they were printed.
\<close>

section \<open>Numbers\<close>

definition ic_check_digit :: "char \<Rightarrow> bool" where
  "ic_check_digit c \<longleftrightarrow> \<not> ((of_char c :: nat) < 48 \<or> 57 < (of_char c :: nat))"

text \<open>
  The file name is copied into the buffer; the state of the loop is the buffer, the index and
  \<^verbatim>\<open>last_separator\<close>.
\<close>

fun file_to_dir_loop :: "char \<Rightarrow> char list \<Rightarrow> char list \<Rightarrow> nat \<Rightarrow> nat option \<Rightarrow> fault + (char list \<times> nat option)" where
  "file_to_dir_loop sep buf [] i last_sep = Inl OutOfBounds"
| "file_to_dir_loop sep buf (c # cs) i last_sep =
     (if c = NULL_BYTE then Inr (buf, last_sep)
      else c_bind (wr buf i c) (\<lambda>buf.
        file_to_dir_loop sep buf cs (i + 1) (if c = sep then Some (i + 1) else last_sep)))"

definition ic_convert_file_to_dir :: "char list \<Rightarrow> char list \<Rightarrow> fault + char list" where
  "ic_convert_file_to_dir buf file_name =
     c_bind (file_to_dir_loop (CHR 0x5C) buf file_name 0 None) (\<lambda>(buf, last_sep).
       case last_sep of Some i \<Rightarrow> wr buf i NULL_BYTE | None \<Rightarrow> wr buf 0 NULL_BYTE)"

definition false_str :: "char list" where "false_str = ''false'' @ [NULL_BYTE]"
definition true_str :: "char list" where "true_str = ''true'' @ [NULL_BYTE]"

fun conf_int_loop :: "char list \<Rightarrow> guint64 \<Rightarrow> bool \<Rightarrow> guint64 option" where
  "conf_int_loop [] number no_digit_found = Some number"
| "conf_int_loop (c # cs) number no_digit_found =
     (if no_digit_found then None
      else if ic_check_digit c then conf_int_loop cs (number * 10 + of_nat (of_char c - 48)) False
      else if c = CHR ''k'' \<or> c = CHR ''K'' then conf_int_loop cs (number * 1024) True
      else if c = CHR ''m'' \<or> c = CHR ''M'' then conf_int_loop cs (number * (1024 * 1024)) True
      else if c = CHR ''g'' \<or> c = CHR ''G'' then conf_int_loop cs (number * (1024 * 1024 * 1024)) True
      else None)"

text \<open>The return code (\<open>True\<close> is an error) and the variable behind \<^verbatim>\<open>value\<close>.\<close>

definition ic_conv_config_str_to_int :: "guint64 \<Rightarrow> ic_string \<Rightarrow> fault + (bool \<times> guint64)" where
  "ic_conv_config_str_to_int val s =
     c_bind (ic_cmp_null_term_str false_str s) (\<lambda>is_not_false.
     if \<not> is_not_false then Inr (False, val)
     else c_bind (ic_cmp_null_term_str true_str s) (\<lambda>is_not_true.
     if \<not> is_not_true then Inr (False, val)
     else c_bind (rd_ptr (str s) (unat (len s))) (\<lambda>bs.
       case conf_int_loop bs 0 False of None \<Rightarrow> Inr (True, val) | Some n \<Rightarrow> Inr (False, n))))"

fun digits_len :: "char list \<Rightarrow> nat \<Rightarrow> fault + nat" where
  "digits_len s 0 = Inr 0"
| "digits_len s (Suc k) =
     c_bind (rd s 0) (\<lambda>c. if \<not> ic_check_digit c then Inr 0
                          else c_bind (digits_len (drop 1 s) k) (\<lambda>n. Inr (Suc n)))"

fun sum_digits :: "char list \<Rightarrow> char \<Rightarrow> guint64 \<Rightarrow> guint64 \<Rightarrow> fault + guint64" where
  "sum_digits [] e number base = Inl OutOfBounds"
| "sum_digits (c # cs) e number base =
     (if c = e then Inr number
      else sum_digits cs e (number + of_int (int (of_char c) - 48) * base) (base * 10))"

text \<open>The results are the return code, the number and the length stored through \<^verbatim>\<open>len\<close>.\<close>

definition ic_conv_str_to_int :: "char list \<Rightarrow> guint32 option \<Rightarrow> fault + (bool \<times> guint64 \<times> guint32 option)" where
  "ic_conv_str_to_int s ln =
     (let max_len = (case ln of None \<Rightarrow> 62 | Some l \<Rightarrow> unat l) in
      c_bind (digits_len s (min 62 max_len)) (\<lambda>str_len.
      if 60 < str_len \<or> str_len = 0 then Inr (True, 0, ln)
      else c_bind (rd s str_len) (\<lambda>end_char.
           c_bind (ic_reverse_str s (replicate 64 NULL_BYTE) end_char) (\<lambda>rev_str.
           c_bind (sum_digits rev_str end_char 0 1) (\<lambda>number.
             Inr (False, number, case ln of None \<Rightarrow> None | Some _ \<Rightarrow> Some (of_nat str_len)))))))"

section \<open>Lines\<close>

record gascii =
  isalpha :: "char \<Rightarrow> bool"
  isdigit :: "char \<Rightarrow> bool"
  isspace :: "char \<Rightarrow> bool"
  tolower :: "char \<Rightarrow> char"

definition IC_MAX_CONFIG_LINE_LEN :: nat where "IC_MAX_CONFIG_LINE_LEN = 120"

definition sub32 :: "nat \<Rightarrow> nat \<Rightarrow> fault + nat" where
  "sub32 a b = (if b \<le> a then Inr (a - b) else Inl Wraparound)"

text \<open>The length of the line at \<open>p\<close>, with its end character, or 0; \<open>k\<close> counts the characters left to look at.\<close>

fun read_cr_line_loop :: "char list \<Rightarrow> nat \<Rightarrow> nat \<Rightarrow> nat \<Rightarrow> fault + nat" where
  "read_cr_line_loop dat p l 0 = Inr 0"
| "read_cr_line_loop dat p l (Suc k) =
     c_bind (rd dat p) (\<lambda>c.
       if c = CARRIAGE_RETURN \<or> c = NULL_BYTE then Inr l else read_cr_line_loop dat (p + 1) (l + 1) k)"

definition read_cr_line :: "char list \<Rightarrow> nat \<Rightarrow> fault + nat" where
  "read_cr_line dat p = read_cr_line_loop dat p 1 (IC_MAX_CONFIG_LINE_LEN - 1)"

fun conv_group_id :: "gascii \<Rightarrow> char list \<Rightarrow> nat \<Rightarrow> nat \<Rightarrow> fault + (bool \<times> char list)" where
  "conv_group_id g dat p 0 = Inr (True, dat)"
| "conv_group_id g dat p (Suc k) =
     c_bind (rd dat p) (\<lambda>c.
       if isalpha g c then c_bind (wr dat p (tolower g c)) (\<lambda>dat. conv_group_id g dat (p + 1) k)
       else if c \<noteq> CHR '' '' then Inr (False, dat)
       else conv_group_id g dat (p + 1) k)"

text \<open>The length of the key, or nothing when no other character ends it.\<close>

fun conv_key_id :: "gascii \<Rightarrow> char list \<Rightarrow> nat \<Rightarrow> nat \<Rightarrow> nat \<Rightarrow> fault + (nat option \<times> char list)" where
  "conv_key_id g dat p iter_len 0 = Inr (None, dat)"
| "conv_key_id g dat p iter_len (Suc k) =
     c_bind (rd dat p) (\<lambda>c.
       if \<not> isalpha g c \<and> c \<noteq> CHR ''_'' then Inr (Some iter_len, dat)
       else c_bind (wr dat p (tolower g c)) (\<lambda>dat. conv_key_id g dat (p + 1) (iter_len + 1) k))"

text \<open>\<open>k\<close> is \<^verbatim>\<open>len - *iter_len\<close>; the character is read before the length is tested.\<close>

fun rm_space :: "gascii \<Rightarrow> char list \<Rightarrow> nat \<Rightarrow> nat \<Rightarrow> nat \<Rightarrow> fault + nat" where
  "rm_space g dat p iter_len 0 = c_bind (rd dat p) (\<lambda>c. Inr iter_len)"
| "rm_space g dat p iter_len (Suc k) =
     c_bind (rd dat p) (\<lambda>c.
       if isspace g c \<or> c = CHR 0x09 then rm_space g dat (p + 1) (iter_len + 1) k else Inr iter_len)"

definition value_char :: "gascii \<Rightarrow> char \<Rightarrow> bool" where
  "value_char g c \<longleftrightarrow> isalpha g c \<or> c = CHR ''/'' \<or> c = CHR 0x5C \<or> isdigit g c \<or> c = CHR ''.'' \<or>
     c = CHR ''_'' \<or> isspace g c"

fun value_chars :: "gascii \<Rightarrow> char list \<Rightarrow> nat \<Rightarrow> nat \<Rightarrow> fault + bool" where
  "value_chars g dat p 0 = Inr True"
| "value_chars g dat p (Suc k) =
     c_bind (rd dat p) (\<lambda>c. if \<not> value_char g c then Inr False else value_chars g dat (p + 1) k)"

text \<open>The start and the length of the value in the \<open>input_len\<close> characters at \<open>p\<close>.\<close>

definition conv_key_value :: "gascii \<Rightarrow> char list \<Rightarrow> nat \<Rightarrow> nat \<Rightarrow> fault + (nat \<times> nat) option" where
  "conv_key_value g dat p input_len =
     c_bind (rm_space g dat p 0 input_len) (\<lambda>it.
     c_bind (rd dat (p + it)) (\<lambda>c.
     if input_len = it \<or> (c \<noteq> CHR ''='' \<and> c \<noteq> CHR '':'') then Inr None
     else c_bind (sub32 input_len (it + 1)) (\<lambda>k.
          c_bind (rm_space g dat (p + it + 1) (it + 1) k) (\<lambda>it2.
          c_bind (value_chars g dat (p + it2) (input_len - it2)) (\<lambda>ok.
            if \<not> ok \<or> \<not> it2 < input_len then Inr None
            else c_bind (sub32 input_len it2) (\<lambda>n. Inr (Some (p + it2, n))))))))"

section \<open>The reader\<close>

record 'c config_ops =
  ic_config_init :: "'c \<Rightarrow> nat \<Rightarrow> err \<times> 'c"
  ic_add_section :: "'c \<Rightarrow> guint32 \<Rightarrow> guint32 \<Rightarrow> string \<Rightarrow> nat \<Rightarrow> err \<times> 'c"
  ic_add_key :: "'c \<Rightarrow> guint32 \<Rightarrow> guint32 \<Rightarrow> string \<Rightarrow> string \<Rightarrow> nat \<Rightarrow> err \<times> 'c"
  ic_add_comment :: "'c \<Rightarrow> guint32 \<Rightarrow> guint32 \<Rightarrow> string \<Rightarrow> nat \<Rightarrow> err \<times> 'c"
  ic_config_verify :: "'c \<Rightarrow> guint32 \<Rightarrow> nat \<Rightarrow> err \<times> 'c"
  ic_config_end :: "'c \<Rightarrow> 'c"

text \<open>
  A line of \<open>line_len\<close> characters at \<open>p\<close>. The results are the return code, the state of the
  operations, the buffer and \<^verbatim>\<open>*section_num\<close>.
\<close>

definition read_config_line ::
  "gascii \<Rightarrow> 'c config_ops \<Rightarrow> 'c \<Rightarrow> char list \<Rightarrow> nat \<Rightarrow> nat \<Rightarrow> guint32 \<Rightarrow> guint32 \<Rightarrow> nat \<Rightarrow>
   fault + (err \<times> 'c \<times> char list \<times> guint32)"
where
  "read_config_line g ops conf dat p line_len line_number section_num pass =
     (if line_len = 1 then Inr (0, conf, dat, section_num)
      else c_bind (rd dat p) (\<lambda>c.
        if c = CHR ''#''
        then c_bind (rd_blk dat p line_len) (\<lambda>cs.
               case ic_add_comment ops conf line_number section_num cs pass of (e, conf) \<Rightarrow>
                 Inr (e, conf, dat, section_num))
        else if c = CHR ''[''
        then c_bind (sub32 line_len 2) (\<lambda>k.
             c_bind (rd dat (p + k)) (\<lambda>c2.
             if c2 \<noteq> CHR '']'' then Inr (IC_ERROR_CONFIG_BRACKET, conf, dat, section_num)
             else c_bind (sub32 line_len 3) (\<lambda>n.
                  c_bind (conv_group_id g dat (p + 1) n) (\<lambda>(ok, dat).
                  if \<not> ok then Inr (IC_ERROR_CONFIG_INCORRECT_GROUP_ID, conf, dat, section_num)
                  else c_bind (rd_blk dat (p + 1) n) (\<lambda>nm.
                    case ic_add_section ops conf (section_num + 1) line_number nm pass of (e, conf) \<Rightarrow>
                      Inr (e, conf, dat, section_num + 1))))))
        else c_bind (rm_space g dat p 0 line_len) (\<lambda>space_len.
             c_bind (sub32 line_len space_len) (\<lambda>id_max.
             c_bind (conv_key_id g dat (p + space_len) 0 id_max) (\<lambda>(key, dat).
             case key of None \<Rightarrow> Inr (IC_ERROR_CONFIG_IMPROPER_KEY_VALUE, conf, dat, section_num)
             | Some id_len \<Rightarrow>
                 c_bind (sub32 line_len (id_len + space_len + 1)) (\<lambda>val_len.
                 c_bind (conv_key_value g dat (p + id_len + space_len) val_len) (\<lambda>v.
                 case v of None \<Rightarrow> Inr (IC_ERROR_CONFIG_IMPROPER_KEY_VALUE, conf, dat, section_num)
                 | Some (q, n) \<Rightarrow>
                     c_bind (rd_blk dat (p + space_len) id_len) (\<lambda>key_name.
                     c_bind (rd_blk dat q n) (\<lambda>data_str.
                       case ic_add_key ops conf section_num line_number key_name data_str pass of (e, conf) \<Rightarrow>
                         Inr (e, conf, dat, section_num))))))))))"

text \<open>The loop over the lines of one pass; the last result is the line number.\<close>

function read_lines ::
  "gascii \<Rightarrow> 'c config_ops \<Rightarrow> nat \<Rightarrow> nat \<Rightarrow> 'c \<Rightarrow> char list \<Rightarrow> nat \<Rightarrow> guint32 \<Rightarrow> guint32 \<Rightarrow>
   fault + (err \<times> 'c \<times> char list \<times> guint32)"
where
  "read_lines g ops pass data_len conf dat p line_number section_num =
     (if \<not> p < data_len then Inr (0, conf, dat, line_number)
      else c_bind (rd dat p) (\<lambda>c.
        if c = LINE_FEED then read_lines g ops pass data_len conf dat (p + 1) line_number section_num
        else c_bind (read_cr_line dat p) (\<lambda>line_length.
          if line_length = 0 then Inr (IC_ERROR_LINE_TOO_LONG, conf, dat, line_number)
          else c_bind (read_config_line g ops conf dat p line_length line_number section_num pass)
            (\<lambda>(e, conf, dat, section_num).
              if e \<noteq> 0 then Inr (e, conf, dat, line_number)
              else read_lines g ops pass data_len conf dat (p + line_length) (line_number + 1) section_num))))"
  by pat_completeness auto

termination read_lines
  by (relation "measure (\<lambda>(g, ops, pass, data_len, conf, dat, p, _). data_len - p)") auto

declare read_lines.simps [simp del]

text \<open>One pass: the initialisation and the lines.\<close>

definition read_pass ::
  "gascii \<Rightarrow> 'c config_ops \<Rightarrow> nat \<Rightarrow> nat \<Rightarrow> 'c \<Rightarrow> char list \<Rightarrow> fault + (err \<times> 'c \<times> char list \<times> guint32)"
where
  "read_pass g ops pass data_len conf dat =
     (case ic_config_init ops conf pass of (e, conf) \<Rightarrow>
        if e \<noteq> 0 then Inr (e, conf, dat, 1)
        else read_lines g ops pass data_len conf dat 0 1 0)"

text \<open>
  The results are the return code, \<^verbatim>\<open>err_num\<close> and \<^verbatim>\<open>line_number\<close> of the error object (if they are
  set), the state of the operations and the buffer.
\<close>

definition ic_build_config_data ::
  "gascii \<Rightarrow> 'c config_ops \<Rightarrow> 'c \<Rightarrow> char list \<Rightarrow> guint32 \<Rightarrow>
   fault + (bool \<times> (err \<times> guint32) option \<times> 'c \<times> char list)"
where
  "ic_build_config_data g ops conf dat data_len =
     (let config_error = (\<lambda>e ln conf dat. Inr (True, Some (e, ln), ic_config_end ops conf, dat)) in
      if data_len = 0 then Inr (True, Some (1, 0), conf, dat)
      else c_bind (read_pass g ops 0 (unat data_len) conf dat) (\<lambda>(e, conf, dat, ln).
           if e \<noteq> 0 then config_error e ln conf dat
           else c_bind (read_pass g ops 1 (unat data_len) conf dat) (\<lambda>(e, conf, dat, ln).
                if e \<noteq> 0 then config_error e ln conf dat
                else case ic_config_verify ops conf (ln - 1) 1 of (e, conf) \<Rightarrow>
                  if e \<noteq> 0 then config_error e ln conf dat
                  else Inr (False, None, conf, dat))))"

section \<open>Reading numbers\<close>

lemma check_digit_iff: "ic_check_digit c \<longleftrightarrow> 48 \<le> (of_char c :: nat) \<and> (of_char c :: nat) \<le> 57"
  by (auto simp: ic_check_digit_def)

lemma digits_len_at:
  "\<forall>c \<in> set ds. ic_check_digit c \<Longrightarrow> \<not> ic_check_digit e \<Longrightarrow> length ds \<le> k \<Longrightarrow>
   digits_len (ds @ e # rest) k = Inr (length ds)"
proof (induction ds arbitrary: k)
  case Nil
  then show ?case by (cases k) simp_all
next
  case (Cons c ds)
  then obtain k' where "k = Suc k'" by (cases k) auto
  with Cons show ?case by simp
qed

lemma sum_digits_rev:
  "e \<notin> set l \<Longrightarrow> \<forall>c \<in> set l. ic_check_digit c \<Longrightarrow>
   sum_digits (l @ e # r) e n b = Inr (n + b * of_nat (digits_value 10 (map dec_digit (rev l))))"
proof (induction l arbitrary: n b)
  case (Cons c l)
  have d: "(of_int (int (of_char c) - 48) :: guint64) = of_nat (dec_digit c)"
    using Cons.prems(2) by (simp add: dec_digit_def check_digit_iff)
  have v: "digits_value 10 (map dec_digit (rev (c # l))) = digits_value 10 (map dec_digit (rev l)) * 10 + dec_digit c"
    by (simp add: digits_value_def)
  have "sum_digits ((c # l) @ e # r) e n b = sum_digits (l @ e # r) e (n + of_nat (dec_digit c) * b) (b * 10)"
    using Cons.prems(1) d by auto
  also have "\<dots> = Inr (n + of_nat (dec_digit c) * b + b * 10 * of_nat (digits_value 10 (map dec_digit (rev l))))"
    using Cons.prems by (intro Cons.IH) auto
  finally show ?case unfolding v of_nat_add of_nat_mult by (simp add: algebra_simps)
qed (simp add: digits_value_def)

text \<open>
  Numbers are read back. For a text that starts with one to 60 digits followed by another
  character, \<^verbatim>\<open>ic_conv_str_to_int\<close> succeeds and returns the value of the digits (modulo \<open>2^64\<close>) and their
  number; in particular it inverts \<^verbatim>\<open>ic_guint64_str\<close> for every 64-bit number.
\<close>

theorem conv_str_to_int_roundtrip:
  assumes "\<forall>c \<in> set ds. ic_check_digit c" and "\<not> ic_check_digit e" and "ds \<noteq> []" and "length ds \<le> 60"
    and "ln = None \<or> ln = Some l \<and> length ds \<le> unat l" and "21 \<le> length ptr"
  shows "ic_conv_str_to_int (ds @ e # rest) ln =
      Inr (False, of_nat (digits_value 10 (map dec_digit ds)),
           case ln of None \<Rightarrow> None | Some _ \<Rightarrow> Some (of_nat (length ds))) \<and>
    (\<exists>s n. ic_guint64_str v ptr = Inr (s, n) \<and> ic_conv_str_to_int s None = Inr (False, v, None))"
proof
  have conv: "ic_conv_str_to_int (ds @ e # rest) ln =
      Inr (False, of_nat (digits_value 10 (map dec_digit ds)),
           case ln of None \<Rightarrow> None | Some _ \<Rightarrow> Some (of_nat (length ds)))"
    if ds: "\<forall>c \<in> set ds. ic_check_digit c" and e: "\<not> ic_check_digit e" and ne: "ds \<noteq> []" and l60: "length ds \<le> 60"
      and ln: "ln = None \<or> ln = Some l \<and> length ds \<le> unat l" for ds e rest ln l
  proof -
    have e': "e \<notin> set ds" using ds e by auto
    have "length ds \<le> min 62 (case ln of None \<Rightarrow> 62 | Some l \<Rightarrow> unat l)" using l60 ln by auto
    then have dl: "digits_len (ds @ e # rest) (min 62 (case ln of None \<Rightarrow> 62 | Some l \<Rightarrow> unat l)) = Inr (length ds)"
      by (rule digits_len_at [OF ds e])
    have rv: "ic_reverse_str (ds @ e # rest) (replicate 64 NULL_BYTE) e =
        Inr (rev ds @ e # drop (Suc (length ds)) (replicate 64 NULL_BYTE))"
      using l60 by (intro reverse_str_eq e') simp
    have "sum_digits (rev ds @ e # r) e 0 1 = Inr (of_nat (digits_value 10 (map dec_digit ds)))" for r
      using sum_digits_rev [of e "rev ds" r 0 1] ds e' by simp
    then show ?thesis using dl rv ne l60 by (simp add: ic_conv_str_to_int_def Let_def)
  qed
  show "ic_conv_str_to_int (ds @ e # rest) ln =
      Inr (False, of_nat (digits_value 10 (map dec_digit ds)),
           case ln of None \<Rightarrow> None | Some _ \<Rightarrow> Some (of_nat (length ds)))" using assms(1-5) by (rule conv)
  let ?ds = "dec_string (unat v)"
  have d: "\<forall>c \<in> set ?ds. ic_check_digit c" using dec_string_digits by (auto simp: check_digit_iff)
  have e: "\<not> ic_check_digit NULL_BYTE" by (simp add: check_digit_iff NULL_BYTE_def)
  have l: "length ?ds \<le> 20" "?ds \<noteq> []" by (rule dec_string_length)+
  then have "ic_conv_str_to_int (?ds @ NULL_BYTE # drop (Suc (length ?ds)) ptr) None = Inr (False, v, None)"
    using conv [OF d e, of None] by (simp add: dec_string_value)
  moreover have "ic_guint64_str v ptr = Inr (?ds @ NULL_BYTE # drop (Suc (length ?ds)) ptr, of_nat (length ?ds))"
    using l(1) assms(6) by (intro guint64_str_eq) simp
  ultimately show "\<exists>s n. ic_guint64_str v ptr = Inr (s, n) \<and> ic_conv_str_to_int s None = Inr (False, v, None)" by blast
qed

theorem conv_str_to_int_roundtrip_witness:
  "ic_conv_str_to_int (''1186'' @ CHR '';'' # []) None = Inr (False, of_nat (digits_value 10 (map dec_digit ''1186'')), None)"
  using conv_str_to_int_roundtrip [of "''1186''" "CHR '';''" None 0 "replicate 21 NULL_BYTE" "[]" 0]
  by (simp add: check_digit_iff)

definition suffix_factor :: "char \<Rightarrow> nat" where
  "suffix_factor c = (if c = CHR ''k'' \<or> c = CHR ''K'' then 1024 else if c = CHR ''m'' \<or> c = CHR ''M'' then 1048576
     else if c = CHR ''g'' \<or> c = CHR ''G'' then 1073741824 else 0)"

lemma conf_int_loop_digits:
  "\<forall>c \<in> set ds. ic_check_digit c \<Longrightarrow>
   conf_int_loop (ds @ r) n False =
     conf_int_loop r (n * 10 ^ length ds + of_nat (digits_value 10 (map dec_digit ds))) False"
proof (induction ds arbitrary: n)
  case (Cons c ds)
  have acc: "foldl (\<lambda>a d. a * 10 + d) (a :: nat) xs = a * 10 ^ length xs + digits_value 10 xs" for a xs
  proof (induction xs rule: rev_induct)
    case (snoc x xs)
    then show ?case by (simp add: digits_value_def algebra_simps)
  qed (simp add: digits_value_def)
  have v: "digits_value 10 (map dec_digit (c # ds)) = dec_digit c * 10 ^ length ds + digits_value 10 (map dec_digit ds)"
    using acc [of "dec_digit c" "map dec_digit ds"] by (simp add: digits_value_def)
  have "conf_int_loop ((c # ds) @ r) n False = conf_int_loop (ds @ r) (n * 10 + of_nat (dec_digit c)) False"
    using Cons.prems by (simp add: dec_digit_def)
  also have "\<dots> = conf_int_loop r ((n * 10 + of_nat (dec_digit c)) * 10 ^ length ds +
      of_nat (digits_value 10 (map dec_digit ds))) False"
    using Cons.prems by (intro Cons.IH) auto
  finally show ?case unfolding v of_nat_add of_nat_mult by (simp add: algebra_simps)
qed (simp add: digits_value_def)

lemma conf_int_not_bool:
  assumes "str_is s (ds @ r)" and "\<forall>c \<in> set ds. ic_check_digit c" and "ds \<noteq> []"
  shows "ic_conv_config_str_to_int val s =
    (case conf_int_loop (ds @ r) 0 False of None \<Rightarrow> Inr (True, val) | Some n \<Rightarrow> Inr (False, n))"
proof -
  obtain c ds' where ds: "ds = c # ds'" using assms(3) by (cases ds) auto
  have c: "c \<noteq> CHR ''f''" "c \<noteq> CHR ''t''" using assms(2) by (auto simp: ds check_digit_iff)
  then have ne: "''false'' \<noteq> ds @ r" "''true'' \<noteq> ds @ r" by (auto simp: ds)
  have "ic_cmp_null_term_str false_str s = Inr True"
    using cmp_null_term_str [of "''false''" s "ds @ r" "[]"] assms(1) ne by (simp add: false_str_def NULL_BYTE_def)
  moreover have "ic_cmp_null_term_str true_str s = Inr True"
    using cmp_null_term_str [of "''true''" s "ds @ r" "[]"] assms(1) ne by (simp add: true_str_def NULL_BYTE_def)
  moreover have "rd_ptr (str s) (unat (len s)) = Inr (ds @ r)" using assms(1) by (simp add: str_is_def)
  ultimately show ?thesis by (simp add: ic_conv_config_str_to_int_def)
qed

text \<open>
  Configuration numbers. A value made of digits is read as its decimal value, and one of the
  suffixes k, m and g in either case multiplies it by 1024, its square or its cube, all modulo
  \<open>2^64\<close>. The values \<^verbatim>\<open>true\<close> and \<^verbatim>\<open>false\<close> are accepted, but leave the variable as it was.
\<close>

theorem conv_config_str_to_int_spec:
  assumes "\<forall>c \<in> set ds. ic_check_digit c" and "ds \<noteq> []"
  shows "(str_is s ds \<longrightarrow> ic_conv_config_str_to_int val s = Inr (False, of_nat (digits_value 10 (map dec_digit ds)))) \<and>
    (str_is s (ds @ [c]) \<and> suffix_factor c \<noteq> 0 \<longrightarrow>
      ic_conv_config_str_to_int val s = Inr (False, of_nat (digits_value 10 (map dec_digit ds) * suffix_factor c))) \<and>
    (str_is s ''true'' \<or> str_is s ''false'' \<longrightarrow> ic_conv_config_str_to_int val s = Inr (False, val))"
proof (intro conjI impI)
  let ?v = "of_nat (digits_value 10 (map dec_digit ds)) :: guint64"
  have loop: "conf_int_loop (ds @ r) 0 False = conf_int_loop r ?v False" for r
    using conf_int_loop_digits [OF assms(1), of r 0] by simp
  show "ic_conv_config_str_to_int val s = Inr (False, ?v)" if "str_is s ds"
    using conf_int_not_bool [of s ds "[]" val] that assms loop [of "[]"] by simp
  assume c: "str_is s (ds @ [c]) \<and> suffix_factor c \<noteq> 0"
  have "conf_int_loop [c] ?v False = Some (?v * of_nat (suffix_factor c))"
    using c by (auto simp: suffix_factor_def check_digit_iff split: if_splits)
  then show "ic_conv_config_str_to_int val s = Inr (False, of_nat (digits_value 10 (map dec_digit ds) * suffix_factor c))"
    using conf_int_not_bool [of s ds "[c]" val] c assms loop [of "[c]"] by simp
next
  assume "str_is s ''true'' \<or> str_is s ''false''"
  then show "ic_conv_config_str_to_int val s = Inr (False, val)"
  proof
    assume s: "str_is s ''true''"
    have "ic_cmp_null_term_str false_str s = Inr True" "ic_cmp_null_term_str true_str s = Inr False"
      using cmp_null_term_str [of "''false''" s "''true''" "[]"] cmp_null_term_str [of "''true''" s "''true''" "[]"] s
      by (simp_all add: true_str_def false_str_def NULL_BYTE_def)
    then show ?thesis by (simp add: ic_conv_config_str_to_int_def)
  next
    assume s: "str_is s ''false''"
    have "ic_cmp_null_term_str false_str s = Inr False"
      using cmp_null_term_str [of "''false''" s "''false''" "[]"] s by (simp add: false_str_def NULL_BYTE_def)
    then show ?thesis by (simp add: ic_conv_config_str_to_int_def)
  qed
qed

theorem conv_config_str_to_int_spec_witness:
  "ic_conv_config_str_to_int 5 (lit ''64k'') = Inr (False, of_nat (digits_value 10 (map dec_digit ''64'') * suffix_factor CHR ''k''))"
  using conv_config_str_to_int_spec [of "''64''" "lit ''64k''" 5 "CHR ''k''"] str_is_lit [of "''64k''"]
  by (simp add: check_digit_iff suffix_factor_def)

section \<open>The reader stays in its buffer\<close>

text \<open>What the GLib documentation says of the character functions.\<close>

definition gascii_ok :: "gascii \<Rightarrow> bool" where
  "gascii_ok g \<longleftrightarrow>
     (\<forall>c. isalpha g c \<longleftrightarrow> 65 \<le> (of_char c :: nat) \<and> (of_char c :: nat) \<le> 90 \<or>
                        97 \<le> (of_char c :: nat) \<and> (of_char c :: nat) \<le> 122) \<and>
     (\<forall>c. isdigit g c \<longleftrightarrow> 48 \<le> (of_char c :: nat) \<and> (of_char c :: nat) \<le> 57) \<and>
     (\<forall>c. isspace g c \<longleftrightarrow> (of_char c :: nat) \<in> {9, 10, 12, 13, 32}) \<and>
     (\<forall>c. tolower g c =
       (if 65 \<le> (of_char c :: nat) \<and> (of_char c :: nat) \<le> 90 then char_of ((of_char c :: nat) + 32) else c))"

lemma gascii_null:
  assumes "gascii_ok g"
  shows "\<not> isalpha g NULL_BYTE" "\<not> isspace g NULL_BYTE" "\<not> isspace g NULL_BYTE \<and> NULL_BYTE \<noteq> CHR 0x09 \<and> NULL_BYTE \<noteq> CHR ''_''"
  using assms by (auto simp: gascii_ok_def NULL_BYTE_def)

text \<open>The buffer ends with a null byte at \<open>n\<close>.\<close>

definition ends_at :: "char list \<Rightarrow> nat \<Rightarrow> bool" where
  "ends_at dat n \<longleftrightarrow> n < length dat \<and> dat ! n = NULL_BYTE"

lemma ends_at_rd: "ends_at dat n \<Longrightarrow> p \<le> n \<Longrightarrow> rd dat p = Inr (dat ! p)"
  by (simp add: ends_at_def)

lemma ends_at_wr: "ends_at dat n \<Longrightarrow> p < n \<Longrightarrow> ends_at (dat[p := c]) n \<and> length (dat[p := c]) = length dat"
  by (simp add: ends_at_def)

lemma read_cr_line_loop_safe:
  "ends_at dat n \<Longrightarrow> p \<le> n \<Longrightarrow>
   \<exists>r. read_cr_line_loop dat p l k = Inr r \<and> (r = 0 \<or> l \<le> r \<and> p + (r - l) \<le> n)"
proof (induction k arbitrary: p l)
  case (Suc k)
  show ?case
  proof (cases "dat ! p = CARRIAGE_RETURN \<or> dat ! p = NULL_BYTE")
    case True
    then show ?thesis using Suc.prems by (auto simp: ends_at_rd)
  next
    case False
    then have "p + 1 \<le> n" using Suc.prems by (cases "p = n") (auto simp: ends_at_def)
    from Suc.IH [OF Suc.prems(1) this, of "l + 1"] show ?thesis
      using False Suc.prems by (auto simp: ends_at_rd)
  qed
qed simp

lemma conv_group_id_safe:
  "ends_at dat n \<Longrightarrow> p + k \<le> n \<Longrightarrow>
   \<exists>ok dat'. conv_group_id g dat p k = Inr (ok, dat') \<and> ends_at dat' n \<and> length dat' = length dat"
proof (induction k arbitrary: p dat)
  case (Suc k)
  have p: "p < n" "p < length dat" using Suc.prems by (auto simp: ends_at_def)
  show ?case
    using Suc.IH [OF ends_at_wr [THEN conjunct1, OF Suc.prems(1) p(1)], of "p + 1" "tolower g (dat ! p)"]
      Suc.IH [OF Suc.prems(1), of "p + 1"] Suc.prems p by auto
qed auto

lemma rm_space_safe:
  "gascii_ok g \<Longrightarrow> ends_at dat n \<Longrightarrow> p \<le> n \<Longrightarrow>
   \<exists>r. rm_space g dat p it k = Inr r \<and> it \<le> r \<and> r \<le> it + k \<and> p + (r - it) \<le> n"
proof (induction k arbitrary: p it)
  case (Suc k)
  show ?case
  proof (cases "isspace g (dat ! p) \<or> dat ! p = CHR 0x09")
    case True
    then have "p + 1 \<le> n" using Suc.prems gascii_null(3) [OF Suc.prems(1)] by (cases "p = n") (auto simp: ends_at_def)
    from Suc.IH [OF Suc.prems(1,2) this, of "it + 1"] obtain r where
      r: "rm_space g dat (p + 1) (it + 1) k = Inr r" "it + 1 \<le> r" "r \<le> it + 1 + k" "p + 1 + (r - (it + 1)) \<le> n" by blast
    then have "it \<le> r \<and> r \<le> it + Suc k \<and> p + (r - it) \<le> n" by auto
    moreover have "rm_space g dat p it (Suc k) = Inr r" using True r(1) Suc.prems by (simp add: ends_at_rd)
    ultimately show ?thesis by blast
  next
    case False
    then show ?thesis using Suc.prems by (simp add: ends_at_rd)
  qed
qed (simp add: ends_at_rd)

lemma conv_key_id_safe:
  "gascii_ok g \<Longrightarrow> ends_at dat n \<Longrightarrow> p \<le> n \<Longrightarrow>
   \<exists>r dat'. conv_key_id g dat p it k = Inr (r, dat') \<and> ends_at dat' n \<and> length dat' = length dat \<and>
     (\<forall>m. r = Some m \<longrightarrow> it \<le> m \<and> m < it + k)"
proof (induction k arbitrary: p it dat)
  case (Suc k)
  show ?case
  proof (cases "\<not> isalpha g (dat ! p) \<and> dat ! p \<noteq> CHR ''_''")
    case True
    then show ?thesis using Suc.prems by (auto simp: ends_at_rd)
  next
    case False
    then have p: "p < n" using Suc.prems gascii_null [OF Suc.prems(1)] by (cases "p = n") (auto simp: ends_at_def)
    let ?d = "dat[p := tolower g (dat ! p)]"
    have d: "ends_at ?d n" using ends_at_wr [OF Suc.prems(2) p] by blast
    have "p + 1 \<le> n" using p by simp
    from Suc.IH [OF Suc.prems(1) d this, of "it + 1"] obtain r dat' where
      "conv_key_id g ?d (p + 1) (it + 1) k = Inr (r, dat')" "ends_at dat' n" "length dat' = length dat"
      "\<forall>m. r = Some m \<longrightarrow> it + 1 \<le> m \<and> m < it + 1 + k" by auto
    then show ?thesis using False Suc.prems p by (auto simp: ends_at_rd ends_at_def)
  qed
qed simp

lemma value_chars_safe:
  "p + k \<le> length dat \<Longrightarrow> \<exists>b. value_chars g dat p k = Inr b"
proof (induction k arbitrary: p)
  case (Suc k)
  then show ?case using Suc.IH [of "p + 1"] by auto
qed auto

lemma conv_key_value_safe:
  assumes "gascii_ok g" and "ends_at dat n" and "p + k \<le> n"
  shows "\<exists>r. conv_key_value g dat p k = Inr r \<and> (\<forall>q m. r = Some (q, m) \<longrightarrow> q + m \<le> n)"
proof -
  obtain it where it: "rm_space g dat p 0 k = Inr it" "it \<le> k" "p + it \<le> n"
    using rm_space_safe [OF assms(1,2), of p 0 k] assms(3) by auto
  show ?thesis
  proof (cases "k = it \<or> (dat ! (p + it) \<noteq> CHR ''='' \<and> dat ! (p + it) \<noteq> CHR '':'')")
    case True
    then show ?thesis using it assms(2) by (auto simp: conv_key_value_def ends_at_rd)
  next
    case False
    then have s: "it + 1 \<le> k" "p + it + 1 \<le> n" using it(2) assms(3) by auto
    obtain it2 where it2: "rm_space g dat (p + it + 1) (it + 1) (k - (it + 1)) = Inr it2" "it + 1 \<le> it2" "it2 \<le> k"
      using rm_space_safe [OF assms(1,2) s(2), of "it + 1" "k - (it + 1)"] s(1) by auto
    have "p + it2 + (k - it2) \<le> length dat" using it2 assms by (auto simp: ends_at_def)
    then obtain b where b: "value_chars g dat (p + it2) (k - it2) = Inr b" using value_chars_safe by blast
    have "p + it2 + (k - it2) \<le> n" using it2(3) assms(3) by simp
    then show ?thesis using it False s it2 b assms(2) by (auto simp: conv_key_value_def ends_at_rd sub32_def)
  qed
qed

lemma read_config_line_safe:
  assumes "gascii_ok g" and "ends_at dat n" and "0 < l" and "p + l \<le> n + 1"
  shows "\<exists>e conf' dat' s'. read_config_line g ops conf dat p l ln s pass = Inr (e, conf', dat', s') \<and>
    ends_at dat' n \<and> length dat' = length dat"
proof -
  have len: "n < length dat" using assms(2) by (simp add: ends_at_def)
  have p: "rd dat p = Inr (dat ! p)" "p \<le> n" using ends_at_rd [OF assms(2)] assms(3,4) by simp_all
  consider (empty) "l = 1" | (comment) "l \<noteq> 1" "dat ! p = CHR ''#''"
    | (sect) "l \<noteq> 1" "dat ! p = CHR ''[''" | (key) "l \<noteq> 1" "dat ! p \<noteq> CHR ''#''" "dat ! p \<noteq> CHR ''[''" by blast
  then show ?thesis
  proof cases
    case empty
    then show ?thesis using assms(2) by (simp add: read_config_line_def)
  next
    case comment
    then show ?thesis using assms len p by (simp add: read_config_line_def split: prod.splits)
  next
    case sect
    then have l2: "2 \<le> l" using assms(3) by simp
    have q: "rd dat (p + (l - 2)) = Inr (dat ! (p + (l - 2)))" using ends_at_rd [OF assms(2)] assms(4) l2 by simp
    show ?thesis
    proof (cases "dat ! (p + (l - 2)) = CHR '']''")
      case False
      then show ?thesis using sect p q l2 assms(2) by (simp add: read_config_line_def sub32_def)
    next
      case True
      then have "l \<noteq> 2" using sect by auto
      then have l3: "3 \<le> l" using l2 by simp
      then have "p + 1 + (l - 3) \<le> n" using assms(4) by simp
      from conv_group_id_safe [OF assms(2) this, of g] obtain ok dat' where
        "conv_group_id g dat (p + 1) (l - 3) = Inr (ok, dat')" "ends_at dat' n" "length dat' = length dat" by blast
      moreover have "rd_blk dat' (p + 1) (l - 3) = Inr (take (l - 3) (drop (p + 1) dat'))"
        using calculation(3) \<open>p + 1 + (l - 3) \<le> n\<close> len by (intro rd_blk_in) simp
      ultimately show ?thesis using True sect p q l2 l3 assms(2)
        by (cases ok) (auto simp: read_config_line_def sub32_def split: prod.splits)
    qed
  next
    case key
    obtain s where s: "rm_space g dat p 0 l = Inr s" "s \<le> l" "p + s \<le> n"
      using rm_space_safe [OF assms(1,2) p(2), of 0 l] by auto
    obtain r dat' where k: "conv_key_id g dat (p + s) 0 (l - s) = Inr (r, dat')" "ends_at dat' n" "length dat' = length dat"
      "\<forall>m. r = Some m \<longrightarrow> m < l - s"
      using conv_key_id_safe [OF assms(1,2) s(3), of 0 "l - s"] by auto
    show ?thesis
    proof (cases r)
      case None
      then show ?thesis using key p s k by (simp add: read_config_line_def sub32_def)
    next
      case (Some m)
      then have m: "m + s + 1 \<le> l" using k(4) by auto
      have "p + m + s + (l - (m + s + 1)) \<le> n" using m assms(4) by simp
      from conv_key_value_safe [OF assms(1) k(2) this] obtain v where
        v: "conv_key_value g dat' (p + m + s) (l - (m + s + 1)) = Inr v" "\<forall>q t. v = Some (q, t) \<longrightarrow> q + t \<le> n" by blast
      have kb: "rd_blk dat' (p + s) m = Inr (take m (drop (p + s) dat'))"
        using m assms(4) k(3) len by (intro rd_blk_in) simp
      have vb: "rd_blk dat' q t = Inr (take t (drop q dat'))" if "v = Some (q, t)" for q t
        using v(2) that k(3) len by (intro rd_blk_in) fastforce
      show ?thesis using key p s k Some m v(1) kb vb
        by (cases v) (auto simp: read_config_line_def sub32_def split: prod.splits)
    qed
  qed
qed

lemma read_lines_safe:
  "gascii_ok g \<Longrightarrow> ends_at dat n \<Longrightarrow>
   \<exists>e conf' dat' ln'. read_lines g ops pass n conf dat p ln s = Inr (e, conf', dat', ln') \<and> ends_at dat' n"
proof (induction g ops pass n conf dat p ln s rule: read_lines.induct)
  case (1 g ops pass n conf dat p ln s)
  show ?case
  proof (cases "p < n")
    case False
    then show ?thesis using 1 by (simp add: read_lines.simps)
  next
    case True
    then have rd: "rd dat p = Inr (dat ! p)" using 1 ends_at_rd by auto
    obtain r where r: "read_cr_line dat p = Inr r" "r = 0 \<or> 1 \<le> r \<and> p + (r - 1) \<le> n"
      using read_cr_line_loop_safe [OF "1.prems"(2), of p 1] True by (auto simp: read_cr_line_def)
    consider (lf) "dat ! p = LINE_FEED" | (long) "dat ! p \<noteq> LINE_FEED" "r = 0" | (line) "dat ! p \<noteq> LINE_FEED" "r \<noteq> 0" by blast
    then show ?thesis
    proof cases
      case lf
      then show ?thesis using 1 True rd by (simp add: read_lines.simps [of g ops pass n conf dat p])
    next
      case long
      then show ?thesis using 1 True rd r by (simp add: read_lines.simps)
    next
      case line
      then have b: "0 < r" "p + r \<le> n + 1" using r(2) by auto
      from read_config_line_safe [OF "1.prems" b, where ops = ops and conf = conf and ln = ln and s = s and pass = pass]
      obtain e conf' dat' s' where
        l: "read_config_line g ops conf dat p r ln s pass = Inr (e, conf', dat', s')" "ends_at dat' n" by metis
      then show ?thesis using "1.IH"(2) [OF _ rd line(1) r(1) line(2) l(1) refl refl refl] "1.prems"(1) True rd r line
        by (cases "e = 0") (auto simp: read_lines.simps [of g ops pass n conf dat p])
    qed
  qed
qed

text \<open>
  C12. For every file contents with a null byte behind it, and whatever the caller's operations do, the
  reader terminates without reading or writing outside the buffer and without a length that wraps.
\<close>

theorem build_config_data_safe:
  assumes "gascii_ok g" and "unat data_len < length dat" and "dat ! unat data_len = NULL_BYTE"
  shows "\<exists>r. ic_build_config_data g ops conf dat data_len = Inr r"
proof -
  have e: "ends_at dat (unat data_len)" using assms(2,3) by (simp add: ends_at_def)
  have pass: "\<exists>e conf' dat' ln'. read_pass g ops pass (unat data_len) conf dat = Inr (e, conf', dat', ln') \<and>
      ends_at dat' (unat data_len)" if "ends_at dat (unat data_len)" for pass conf dat
    using read_lines_safe [OF assms(1) that] that by (auto simp: read_pass_def split: prod.splits)
  obtain e1 c1 d1 l1 where p1: "read_pass g ops 0 (unat data_len) conf dat = Inr (e1, c1, d1, l1)"
    "ends_at d1 (unat data_len)" using pass [OF e] by blast
  obtain e2 c2 d2 l2 where p2: "read_pass g ops 1 (unat data_len) c1 d1 = Inr (e2, c2, d2, l2)"
    using pass [OF p1(2)] by blast
  show ?thesis using p1(1) p2 by (auto simp: ic_build_config_data_def Let_def split: prod.splits)
qed

definition ascii :: gascii where
  "ascii =
     \<lparr>isalpha = (\<lambda>c. 65 \<le> (of_char c :: nat) \<and> (of_char c :: nat) \<le> 90 \<or> 97 \<le> (of_char c :: nat) \<and> (of_char c :: nat) \<le> 122),
      isdigit = (\<lambda>c. 48 \<le> (of_char c :: nat) \<and> (of_char c :: nat) \<le> 57),
      isspace = (\<lambda>c. (of_char c :: nat) \<in> {9, 10, 12, 13, 32}),
      tolower = (\<lambda>c. if 65 \<le> (of_char c :: nat) \<and> (of_char c :: nat) \<le> 90 then char_of ((of_char c :: nat) + 32) else c)\<rparr>"

lemma ascii_ok: "gascii_ok ascii"
  by (simp add: gascii_ok_def ascii_def)

definition quiet_ops :: "nat config_ops" where
  "quiet_ops =
     \<lparr>ic_config_init = (\<lambda>c pass. (0, c)), ic_add_section = (\<lambda>c s l nm pass. (0, c + 1)),
      ic_add_key = (\<lambda>c s l k v pass. (0, c + 100)), ic_add_comment = (\<lambda>c s l x pass. (0, c)),
      ic_config_verify = (\<lambda>c l pass. (0, c)), ic_config_end = id\<rparr>"

theorem build_config_data_safe_witness:
  "\<exists>r. ic_build_config_data ascii quiet_ops 0 (''[x'' @ [NULL_BYTE]) 2 = Inr r"
  by (rule build_config_data_safe [OF ascii_ok]) simp_all

section \<open>Reading what is printed\<close>

text \<open>
  The lines of a configuration file. A key line has blanks before the key, before the assignment
  character and before the value.
\<close>

datatype conf_line =
    EmptyLine
  | CommentLine string
  | SectionLine string
  | KeyLine nat string nat char nat string

fun render :: "conf_line \<Rightarrow> string" where
  "render EmptyLine = [CARRIAGE_RETURN]"
| "render (CommentLine s) = CHR ''#'' # s @ [CARRIAGE_RETURN]"
| "render (SectionLine s) = CHR ''['' # s @ [CHR '']'', CARRIAGE_RETURN]"
| "render (KeyLine a k b sep c v) =
     replicate a (CHR '' '') @ k @ replicate b (CHR '' '') @ sep # replicate c (CHR '' '') @ v @ [CARRIAGE_RETURN]"

fun wf_line :: "gascii \<Rightarrow> conf_line \<Rightarrow> bool" where
  "wf_line g EmptyLine = True"
| "wf_line g (CommentLine s) = (CARRIAGE_RETURN \<notin> set s \<and> NULL_BYTE \<notin> set s \<and> length s \<le> 117)"
| "wf_line g (SectionLine s) = ((\<forall>c \<in> set s. isalpha g c \<or> c = CHR '' '') \<and> length s \<le> 116)"
| "wf_line g (KeyLine a k b sep c v) =
     (k \<noteq> [] \<and> (\<forall>c \<in> set k. isalpha g c \<or> c = CHR ''_'') \<and> (sep = CHR ''='' \<or> sep = CHR '':'') \<and>
      v \<noteq> [] \<and> \<not> isspace g (hd v) \<and> (\<forall>c \<in> set v. value_char g c \<and> c \<noteq> CARRIAGE_RETURN) \<and>
      a + length k + b + c + length v \<le> 117)"

fun lower_line :: "gascii \<Rightarrow> conf_line \<Rightarrow> conf_line" where
  "lower_line g (SectionLine s) = SectionLine (map (tolower g) s)"
| "lower_line g (KeyLine a k b sep c v) = KeyLine a (map (tolower g) k) b sep c v"
| "lower_line g l = l"

text \<open>The call a line stands for; the results are the return code, the state and the section number.\<close>

fun line_call ::
  "gascii \<Rightarrow> 'c config_ops \<Rightarrow> nat \<Rightarrow> 'c \<Rightarrow> conf_line \<Rightarrow> guint32 \<Rightarrow> guint32 \<Rightarrow> err \<times> 'c \<times> guint32"
where
  "line_call g ops pass conf EmptyLine ln s = (0, conf, s)"
| "line_call g ops pass conf (CommentLine t) ln s =
     (case ic_add_comment ops conf ln s (render (CommentLine t)) pass of (e, conf) \<Rightarrow> (e, conf, s))"
| "line_call g ops pass conf (SectionLine t) ln s =
     (case ic_add_section ops conf (s + 1) ln (map (tolower g) t) pass of (e, conf) \<Rightarrow> (e, conf, s + 1))"
| "line_call g ops pass conf (KeyLine a k b sep c v) ln s =
     (case ic_add_key ops conf s ln (map (tolower g) k) v pass of (e, conf) \<Rightarrow> (e, conf, s))"

fun run_lines ::
  "gascii \<Rightarrow> 'c config_ops \<Rightarrow> nat \<Rightarrow> 'c \<Rightarrow> conf_line list \<Rightarrow> guint32 \<Rightarrow> guint32 \<Rightarrow> err \<times> 'c \<times> conf_line list \<times> guint32"
where
  "run_lines g ops pass conf [] ln s = (0, conf, [], ln)"
| "run_lines g ops pass conf (l # ls) ln s =
     (case line_call g ops pass conf l ln s of (e, conf, s) \<Rightarrow>
        if e \<noteq> 0 then (e, conf, lower_line g l # ls, ln)
        else case run_lines g ops pass conf ls (ln + 1) s of (e, conf, ls', ln) \<Rightarrow>
          (e, conf, lower_line g l # ls', ln))"

definition run_pass ::
  "gascii \<Rightarrow> 'c config_ops \<Rightarrow> nat \<Rightarrow> 'c \<Rightarrow> conf_line list \<Rightarrow> err \<times> 'c \<times> conf_line list \<times> guint32"
where
  "run_pass g ops pass conf ls =
     (case ic_config_init ops conf pass of (e, conf) \<Rightarrow>
        if e \<noteq> 0 then (e, conf, ls, 1) else run_lines g ops pass conf ls 1 0)"

text \<open>Both passes and the verification, on lines instead of text.\<close>

definition run_file ::
  "gascii \<Rightarrow> 'c config_ops \<Rightarrow> 'c \<Rightarrow> conf_line list \<Rightarrow> bool \<times> (err \<times> guint32) option \<times> 'c \<times> conf_line list"
where
  "run_file g ops conf ls =
     (case run_pass g ops 0 conf ls of (e, conf, ls, ln) \<Rightarrow>
        if e \<noteq> 0 then (True, Some (e, ln), ic_config_end ops conf, ls)
        else case run_pass g ops 1 conf ls of (e, conf, ls, ln) \<Rightarrow>
          if e \<noteq> 0 then (True, Some (e, ln), ic_config_end ops conf, ls)
          else case ic_config_verify ops conf (ln - 1) 1 of (e, conf) \<Rightarrow>
            if e \<noteq> 0 then (True, Some (e, ln), ic_config_end ops conf, ls) else (False, None, conf, ls))"

lemma tolower_facts:
  assumes "gascii_ok g"
  shows "tolower g (CHR '' '') = CHR '' ''" "tolower g (CHR ''_'') = CHR ''_''"
    "isalpha g c \<Longrightarrow> isalpha g (tolower g c)"
  using assms by (auto simp: gascii_ok_def)

lemma conv_group_id_eq:
  assumes "gascii_ok g"
  shows "\<forall>c \<in> set s. isalpha g c \<or> c = CHR '' '' \<Longrightarrow>
    conv_group_id g (pre @ s @ post) (length pre) (length s) = Inr (True, pre @ map (tolower g) s @ post)"
proof (induction s arbitrary: pre)
  case (Cons c s)
  have "conv_group_id g ((pre @ [tolower g c]) @ s @ post) (length (pre @ [tolower g c])) (length s) =
      Inr (True, (pre @ [tolower g c]) @ map (tolower g) s @ post)"
    using Cons.prems by (intro Cons.IH) simp
  then show ?case using Cons.prems tolower_facts(1) [OF assms] by (auto simp: list_update_append nth_append)
qed simp

lemma rm_space_eq:
  "isspace g (CHR '' '') \<Longrightarrow> a \<le> k \<Longrightarrow> \<not> isspace g x \<and> x \<noteq> CHR 0x09 \<Longrightarrow>
   rm_space g (pre @ replicate a (CHR '' '') @ x # post) (length pre) it k = Inr (it + a)"
proof (induction a arbitrary: pre it k)
  case 0
  then show ?case by (cases k) (simp_all add: nth_append)
next
  case (Suc a)
  obtain k' where k: "k = Suc k'" using Suc.prems(2) by (cases k) auto
  have "rm_space g ((pre @ '' '') @ replicate a (CHR '' '') @ x # post) (length (pre @ '' '')) (it + 1) k' = Inr (it + 1 + a)"
    using Suc.prems k by (intro Suc.IH) simp_all
  then show ?case using k Suc.prems(1) by (simp add: nth_append)
qed

lemma conv_key_id_eq:
  "gascii_ok g \<Longrightarrow> \<forall>c \<in> set k. isalpha g c \<or> c = CHR ''_'' \<Longrightarrow> \<not> isalpha g x \<and> x \<noteq> CHR ''_'' \<Longrightarrow> length k < n \<Longrightarrow>
   conv_key_id g (pre @ k @ x # post) (length pre) it n = Inr (Some (it + length k), pre @ map (tolower g) k @ x # post)"
proof (induction k arbitrary: pre it n)
  case Nil
  then show ?case by (cases n) (simp_all add: nth_append)
next
  case (Cons c k)
  obtain n' where n: "n = Suc n'" using Cons.prems(4) by (cases n) auto
  have "conv_key_id g ((pre @ [tolower g c]) @ k @ x # post) (length (pre @ [tolower g c])) (it + 1) n' =
      Inr (Some (it + 1 + length k), (pre @ [tolower g c]) @ map (tolower g) k @ x # post)"
    using Cons.prems n by (intro Cons.IH) simp_all
  then show ?case using n Cons.prems(2) by (auto simp: list_update_append nth_append)
qed

lemma value_chars_eq:
  "\<forall>c \<in> set v. value_char g c \<Longrightarrow> value_chars g (pre @ v @ post) (length pre) (length v) = Inr True"
proof (induction v arbitrary: pre)
  case (Cons c v)
  have "value_chars g ((pre @ [c]) @ v @ post) (length (pre @ [c])) (length v) = Inr True"
    using Cons.prems by (intro Cons.IH) simp
  then show ?case using Cons.prems by (simp add: nth_append)
qed simp

lemma conv_key_value_eq:
  assumes g: "gascii_ok g" and sep: "sep = CHR ''='' \<or> sep = CHR '':''"
    and v: "v \<noteq> []" "\<not> isspace g (hd v)" "\<forall>c \<in> set v. value_char g c"
  shows "conv_key_value g (pre @ replicate b (CHR '' '') @ sep # replicate c (CHR '' '') @ v @ post) (length pre)
      (b + 1 + c + length v) = Inr (Some (length pre + b + 1 + c, length v))"
proof -
  let ?dat = "pre @ replicate b (CHR '' '') @ sep # replicate c (CHR '' '') @ v @ post"
  have sp: "isspace g (CHR '' '')" and nosep: "\<not> isspace g sep \<and> sep \<noteq> CHR 0x09"
    using g sep by (auto simp: gascii_ok_def)
  have tab: "hd v \<noteq> CHR 0x09" using g v(2) by (auto simp: gascii_ok_def)
  obtain x v' where x: "v = x # v'" using v(1) by (cases v) auto
  have 1: "rm_space g ?dat (length pre) 0 (b + 1 + c + length v) = Inr b"
    using rm_space_eq [OF sp _ nosep, of b "b + 1 + c + length v" pre _ 0] by simp
  have at: "rd ?dat (length pre + b) = Inr sep" by (simp add: nth_append)
  let ?pre2 = "pre @ replicate b (CHR '' '') @ [sep]"
  have 2: "rm_space g ?dat (length pre + b + 1) (b + 1) (c + length v) = Inr (b + 1 + c)"
    using rm_space_eq [OF sp, of c "c + length v" x ?pre2 "v' @ post" "b + 1"] v(2) tab by (simp add: x)
  let ?pre3 = "?pre2 @ replicate c (CHR '' '')"
  have 3: "value_chars g ?dat (length pre + (b + 1 + c)) (length v) = Inr True"
    using value_chars_eq [OF v(3), of ?pre3 post] by simp
  have ne: "b + 1 + c + length v \<noteq> b" "b + 1 \<le> b + 1 + c + length v" "b + 1 + c < b + 1 + c + length v"
    "b + 1 + c + length v - (b + 1) = c + length v" "b + 1 + c + length v - (b + 1 + c) = length v" using v(1) by simp_all
  show ?thesis unfolding conv_key_value_def 1 c_bind_simps at
    using sep ne 2 3 by (auto simp: sub32_def add.assoc)
qed

lemma read_cr_line_eq:
  assumes "CARRIAGE_RETURN \<notin> set body" and "NULL_BYTE \<notin> set body" and "length body \<le> 118"
  shows "read_cr_line (pre @ body @ CARRIAGE_RETURN # post) (length pre) = Inr (length body + 1)"
proof -
  have "CARRIAGE_RETURN \<notin> set body \<Longrightarrow> NULL_BYTE \<notin> set body \<Longrightarrow> length body < k \<Longrightarrow>
      read_cr_line_loop (pre @ body @ CARRIAGE_RETURN # post) (length pre) l k = Inr (l + length body)" for l k
  proof (induction body arbitrary: pre l k)
    case Nil
    then show ?case by (cases k) (simp_all add: nth_append)
  next
    case (Cons c body)
    obtain k' where k: "k = Suc k'" using Cons.prems(3) by (cases k) auto
    have "read_cr_line_loop ((pre @ [c]) @ body @ CARRIAGE_RETURN # post) (length (pre @ [c])) (l + 1) k' =
        Inr (l + 1 + length body)" using Cons.prems k by (intro Cons.IH) simp_all
    then show ?case using k Cons.prems(1,2) by (auto simp: nth_append)
  qed
  from this [of 119 1] assms show ?thesis by (simp add: read_cr_line_def IC_MAX_CONFIG_LINE_LEN_def)
qed

lemma class_facts:
  assumes "gascii_ok g" and "isalpha g c \<or> c = CHR ''_''"
  shows "c \<noteq> CARRIAGE_RETURN" "c \<noteq> NULL_BYTE" "c \<noteq> LINE_FEED" "c \<noteq> CHR ''#''" "c \<noteq> CHR ''[''" "\<not> isspace g c" "c \<noteq> CHR 0x09"
  using assms by (auto simp: gascii_ok_def CARRIAGE_RETURN_def NULL_BYTE_def LINE_FEED_def)

lemma blank_facts:
  assumes "gascii_ok g"
  shows "isspace g (CHR '' '')" "\<not> isalpha g (CHR '' '')" "\<not> isalpha g (CHR ''='')" "\<not> isalpha g (CHR '':'')"
    "\<not> value_char g NULL_BYTE"
  using assms by (auto simp: gascii_ok_def value_char_def NULL_BYTE_def)

lemma render_body:
  assumes "gascii_ok g" and "wf_line g l"
  obtains body where "render l = body @ [CARRIAGE_RETURN]" "CARRIAGE_RETURN \<notin> set body" "NULL_BYTE \<notin> set body"
    "length body \<le> 118"
proof (rule that [of "butlast (render l)"])
  show "render l = butlast (render l) @ [CARRIAGE_RETURN]" by (cases l) (simp_all add: butlast_append)
  show "CARRIAGE_RETURN \<notin> set (butlast (render l))"
  proof (cases l)
    case (SectionLine s)
    then show ?thesis using assms class_facts(1) [OF assms(1)]
      by (auto simp: butlast_append CARRIAGE_RETURN_def)
  next
    case (KeyLine a k b sep c v)
    then show ?thesis using assms class_facts(1) [OF assms(1)]
      by (auto simp: butlast_append CARRIAGE_RETURN_def)
  qed (use assms in \<open>auto simp: butlast_append CARRIAGE_RETURN_def\<close>)
  show "NULL_BYTE \<notin> set (butlast (render l))"
  proof (cases l)
    case (SectionLine s)
    then show ?thesis using assms class_facts(2) [OF assms(1)]
      by (auto simp: butlast_append NULL_BYTE_def)
  next
    case (KeyLine a k b sep c v)
    then show ?thesis using assms class_facts(2) [OF assms(1)] blank_facts(5) [OF assms(1)]
      by (auto simp: butlast_append NULL_BYTE_def)
  qed (use assms in \<open>auto simp: butlast_append NULL_BYTE_def\<close>)
  show "length (butlast (render l)) \<le> 118" using assms(2) by (cases l) auto
qed

lemma render_first:
  assumes "gascii_ok g" and "wf_line g l"
  shows "\<exists>c cs. render l = c # cs \<and> c \<noteq> LINE_FEED"
proof (cases l)
  case (KeyLine a k b sep c v)
  then obtain x k' where k: "k = x # k'" "isalpha g x \<or> x = CHR ''_''" using assms(2) by (cases k) auto
  then show ?thesis using KeyLine class_facts(3) [OF assms(1) k(2)] by (cases a) (auto simp: LINE_FEED_def)
qed (auto simp: LINE_FEED_def CARRIAGE_RETURN_def)

lemma read_section:
  assumes g: "gascii_ok g" and wf: "wf_line g (SectionLine t)"
  shows "read_config_line g ops conf (pre @ render (SectionLine t) @ post) (length pre) (length (render (SectionLine t))) ln s pass =
    (case line_call g ops pass conf (SectionLine t) ln s of (e, conf', s') \<Rightarrow>
       Inr (e, conf', pre @ render (lower_line g (SectionLine t)) @ post, s'))"
proof -
  let ?dat = "pre @ CHR ''['' # t @ [CHR '']'', CARRIAGE_RETURN] @ post"
  let ?dat' = "pre @ CHR ''['' # map (tolower g) t @ [CHR '']'', CARRIAGE_RETURN] @ post"
  have c0: "rd ?dat (length pre) = Inr (CHR ''['')" by (simp add: nth_append)
  have c2: "rd ?dat (length pre + Suc (length t)) = Inr (CHR '']'')" by (simp add: nth_append)
  have "conv_group_id g ((pre @ ''['') @ t @ ([CHR '']'', CARRIAGE_RETURN] @ post)) (length (pre @ ''['')) (length t) =
      Inr (True, (pre @ ''['') @ map (tolower g) t @ [CHR '']'', CARRIAGE_RETURN] @ post)"
    using wf by (intro conv_group_id_eq [OF g]) simp
  then have cg: "conv_group_id g ?dat (length pre + 1) (length t) = Inr (True, ?dat')" by simp
  have nm: "rd_blk ?dat' (length pre + 1) (length t) = Inr (map (tolower g) t)" by (simp add: rd_blk_def)
  have L: "length (render (SectionLine t)) = length t + 3" by simp
  show ?thesis unfolding L read_config_line_def
    using c0 c2 cg nm by (simp add: sub32_def split: prod.splits)
qed

lemma read_key:
  assumes g: "gascii_ok g" and wf: "wf_line g (KeyLine a k b sep c v)"
  shows "read_config_line g ops conf (pre @ render (KeyLine a k b sep c v) @ post) (length pre)
      (length (render (KeyLine a k b sep c v))) ln s pass =
    (case line_call g ops pass conf (KeyLine a k b sep c v) ln s of (e, conf', s') \<Rightarrow>
       Inr (e, conf', pre @ render (lower_line g (KeyLine a k b sep c v)) @ post, s'))"
proof -
  define tl where "tl = replicate c (CHR '' '') @ v @ CARRIAGE_RETURN # post"
  define dat where "dat = pre @ replicate a (CHR '' '') @ k @ replicate b (CHR '' '') @ sep # tl"
  define dat' where "dat' = pre @ replicate a (CHR '' '') @ map (tolower g) k @ replicate b (CHR '' '') @ sep # tl"
  define L where "L = a + length k + b + 1 + c + length v + 1"
  have k: "k \<noteq> []" "\<forall>c \<in> set k. isalpha g c \<or> c = CHR ''_''" and sep: "sep = CHR ''='' \<or> sep = CHR '':''"
    and v: "v \<noteq> []" "\<not> isspace g (hd v)" "\<forall>c \<in> set v. value_char g c" using wf by auto
  obtain x k' where x: "k = x # k'" "isalpha g x \<or> x = CHR ''_''" using k by (cases k) auto
  have c0: "\<exists>c0. rd dat (length pre) = Inr c0 \<and> c0 \<noteq> CHR ''#'' \<and> c0 \<noteq> CHR ''[''"
    using class_facts(4,5) [OF g x(2)] by (cases a) (auto simp: dat_def x(1) nth_append)
  have rs: "rm_space g dat (length pre) 0 L = Inr a"
    using rm_space_eq [OF blank_facts(1) [OF g], of a L x pre "k' @ replicate b (CHR '' '') @ sep # tl" 0] class_facts(6,7) [OF g x(2)]
    by (simp add: dat_def x(1) L_def)
  obtain y r where y: "replicate b (CHR '' '') @ sep # tl = y # r" "\<not> isalpha g y \<and> y \<noteq> CHR ''_''"
    using blank_facts(2-4) [OF g] sep by (cases b) auto
  have "conv_key_id g ((pre @ replicate a (CHR '' '')) @ k @ y # r) (length (pre @ replicate a (CHR '' ''))) 0 (L - a) =
      Inr (Some (0 + length k), (pre @ replicate a (CHR '' '')) @ map (tolower g) k @ y # r)"
    using y(2) k(2) by (intro conv_key_id_eq [OF g]) (simp_all add: L_def)
  then have ck: "conv_key_id g dat (length pre + a) 0 (L - a) = Inr (Some (length k), dat')"
    by (simp add: dat_def dat'_def y(1))
  have vl: "L - (length k + a + 1) = b + 1 + c + length v" by (simp add: L_def)
  have cv: "conv_key_value g dat' (length pre + length k + a) (b + 1 + c + length v) =
      Inr (Some (length pre + length k + a + b + 1 + c, length v))"
    using conv_key_value_eq [OF g sep v, of "pre @ replicate a (CHR '' '') @ map (tolower g) k" b c "CARRIAGE_RETURN # post"]
    by (simp add: dat'_def tl_def add.commute add.left_commute)
  have kn: "rd_blk dat' (length pre + a) (length k) = Inr (map (tolower g) k)"
    by (simp add: dat'_def rd_blk_def)
  have "dat' = (pre @ replicate a (CHR '' '') @ map (tolower g) k @ replicate b (CHR '' '') @ sep # replicate c (CHR '' '')) @ v @
      CARRIAGE_RETURN # post" by (simp add: dat'_def tl_def)
  moreover have "length (pre @ replicate a (CHR '' '') @ map (tolower g) k @ replicate b (CHR '' '') @ sep # replicate c (CHR '' '')) =
      length pre + length k + a + b + 1 + c" by simp
  ultimately have vs: "rd_blk dat' (length pre + length k + a + b + 1 + c) (length v) = Inr v"
    by (metis append_eq_conv_conj append_take_drop_id length_append nat_le_linear rd_blk_in le_add1 add_le_cancel_left)
  have d: "pre @ render (KeyLine a k b sep c v) @ post = dat" "length (render (KeyLine a k b sep c v)) = L"
    "pre @ render (lower_line g (KeyLine a k b sep c v)) @ post = dat'"
    by (simp_all add: dat_def dat'_def tl_def L_def)
  have L: "L \<noteq> 1" "a \<le> L" "length k + a + 1 \<le> L" using v(1) by (auto simp: L_def)
  obtain c1 where c1: "rd dat (length pre) = Inr c1" "c1 \<noteq> CHR ''#''" "c1 \<noteq> CHR ''[''" using c0 by blast
  show ?thesis unfolding d read_config_line_def
    using c1 L rs ck vl cv kn vs by (simp add: sub32_def split: prod.splits)
qed

lemma read_line_eq:
  assumes "gascii_ok g" and "wf_line g l"
  shows "read_config_line g ops conf (pre @ render l @ post) (length pre) (length (render l)) ln s pass =
    (case line_call g ops pass conf l ln s of (e, conf', s') \<Rightarrow> Inr (e, conf', pre @ render (lower_line g l) @ post, s'))"
proof (cases l)
  case (CommentLine t)
  then show ?thesis by (simp add: read_config_line_def nth_append rd_blk_def split: prod.splits)
next
  case (SectionLine t)
  then show ?thesis using assms by (simp only: read_section)
next
  case (KeyLine a k b sep c v)
  then show ?thesis using assms by (simp only: read_key)
qed (simp add: read_config_line_def)

lemma lower_line_wf: "gascii_ok g \<Longrightarrow> wf_line g l \<Longrightarrow> wf_line g (lower_line g l)"
  by (cases l) (auto simp: tolower_facts)

lemma lower_line_length: "length (render (lower_line g l)) = length (render l)"
  by (cases l) simp_all

lemma run_lines_wf:
  assumes "gascii_ok g"
  shows "\<forall>l \<in> set ls. wf_line g l \<Longrightarrow> run_lines g ops pass conf ls ln s = (e, conf', ls', ln') \<Longrightarrow>
    (\<forall>l \<in> set ls'. wf_line g l) \<and> length (concat (map render ls')) = length (concat (map render ls))"
proof (induction ls arbitrary: conf ln s e conf' ls' ln')
  case (Cons l ls)
  obtain e1 c1 s1 where l: "line_call g ops pass conf l ln s = (e1, c1, s1)" by (cases "line_call g ops pass conf l ln s")
  have wl: "wf_line g (lower_line g l)" using lower_line_wf [OF assms] Cons.prems(1) by simp
  show ?case
  proof (cases "e1 = 0")
    case True
    obtain e2 c2 ls2 ln2 where r: "run_lines g ops pass c1 ls (ln + 1) s1 = (e2, c2, ls2, ln2)" by (metis prod_cases4)
    then have "ls' = lower_line g l # ls2" "e2 = e" "c2 = conf'" "ln2 = ln'" using Cons.prems(2) l True by auto
    then show ?thesis using Cons.IH [OF _ r] Cons.prems(1) wl r by (simp add: lower_line_length)
  qed (use l Cons.prems wl in \<open>auto simp: lower_line_length\<close>)
qed simp

lemma read_lines_eq:
  assumes g: "gascii_ok g"
  shows "\<forall>l \<in> set ls. wf_line g l \<Longrightarrow> n = length pre + length (concat (map render ls)) \<Longrightarrow>
    read_lines g ops pass n conf (pre @ concat (map render ls) @ [NULL_BYTE]) (length pre) ln s =
    (case run_lines g ops pass conf ls ln s of (e, conf', ls', ln') \<Rightarrow>
       Inr (e, conf', pre @ concat (map render ls') @ [NULL_BYTE], ln'))"
proof (induction ls arbitrary: pre conf ln s)
  case (Cons l ls)
  let ?post = "concat (map render ls) @ [NULL_BYTE]"
  let ?dat = "pre @ render l @ ?post"
  have wf: "wf_line g l" using Cons.prems(1) by simp
  obtain body where b: "render l = body @ [CARRIAGE_RETURN]" "CARRIAGE_RETURN \<notin> set body" "NULL_BYTE \<notin> set body"
    "length body \<le> 118" using render_body [OF g wf] by blast
  obtain c0 cs where c0: "render l = c0 # cs" "c0 \<noteq> LINE_FEED" using render_first [OF g wf] by blast
  have p: "length pre < n" using Cons.prems(2) c0(1) by simp
  have rd: "rd ?dat (length pre) = Inr c0" by (simp add: c0(1) nth_append)
  have cr: "read_cr_line ?dat (length pre) = Inr (length (render l))"
    using read_cr_line_eq [OF b(2-4), of pre ?post] by (simp add: b(1))
  have ne: "length (render l) \<noteq> 0" using c0(1) by simp
  obtain e1 c1 s1 where l: "line_call g ops pass conf l ln s = (e1, c1, s1)" by (cases "line_call g ops pass conf l ln s")
  let ?pre = "pre @ render (lower_line g l)"
  have rl: "read_config_line g ops conf ?dat (length pre) (length (render l)) ln s pass = Inr (e1, c1, ?pre @ ?post, s1)"
    using l by (simp add: read_line_eq [OF g wf])
  have step: "read_lines g ops pass n conf ?dat (length pre) ln s =
      (if e1 \<noteq> 0 then Inr (e1, c1, ?pre @ ?post, ln)
       else read_lines g ops pass n c1 (?pre @ ?post) (length pre + length (render l)) (ln + 1) s1)"
    by (subst read_lines.simps) (use p rd cr ne rl c0(2) in simp)
  have "length ?pre = length pre + length (render l)" by (simp add: lower_line_length)
  then have "read_lines g ops pass n c1 (?pre @ ?post) (length pre + length (render l)) (ln + 1) s1 =
      (case run_lines g ops pass c1 ls (ln + 1) s1 of (e, conf', ls', ln') \<Rightarrow>
         Inr (e, conf', ?pre @ concat (map render ls') @ [NULL_BYTE], ln'))"
    using Cons.IH [of ?pre c1 "ln + 1" s1] Cons.prems by (simp add: lower_line_length)
  then show ?case using step l by (simp split: prod.splits)
qed (simp add: read_lines.simps)

lemma read_pass_eq:
  assumes "gascii_ok g" and "\<forall>l \<in> set ls. wf_line g l" and "n = length (concat (map render ls))"
  shows "read_pass g ops pass n conf (concat (map render ls) @ [NULL_BYTE]) =
    (case run_pass g ops pass conf ls of (e, conf', ls', ln') \<Rightarrow> Inr (e, conf', concat (map render ls') @ [NULL_BYTE], ln'))"
  using read_lines_eq [OF assms(1,2), where n = n and pre = "[]" and ops = ops] assms(3)
  by (auto simp: read_pass_def run_pass_def split: prod.splits)

lemma run_pass_wf:
  assumes "gascii_ok g" and "\<forall>l \<in> set ls. wf_line g l" and "run_pass g ops pass conf ls = (e, conf', ls', ln')"
  shows "(\<forall>l \<in> set ls'. wf_line g l) \<and> length (concat (map render ls')) = length (concat (map render ls))"
  using run_lines_wf [OF assms(1,2), where ops = ops] assms(2,3)
  by (auto simp: run_pass_def split: prod.splits if_splits)



text \<open>
  Files with Windows line ends. \<^verbatim>\<open>CARRIAGE_RETURN\<close> is the byte 10 and \<^verbatim>\<open>LINE_FEED\<close> the byte 13,
  and a byte 13 is skipped at the start of a line only: a section line that ends with the bytes 13 and 10
  is rejected with \<open>IC_ERROR_CONFIG_BRACKET\<close>.
\<close>

theorem crlf_section_rejected:
  assumes "CARRIAGE_RETURN \<notin> set t" and "NULL_BYTE \<notin> set t" and "length t \<le> 115"
  shows "read_cr_line (pre @ ''['' @ t @ [CHR '']'', CHR 0x0D, CHR 0x0A] @ post) (length pre) = Inr (length t + 4) \<and>
    read_config_line g ops conf (pre @ ''['' @ t @ [CHR '']'', CHR 0x0D, CHR 0x0A] @ post) (length pre) (length t + 4) ln s pass =
      Inr (IC_ERROR_CONFIG_BRACKET, conf, pre @ ''['' @ t @ [CHR '']'', CHR 0x0D, CHR 0x0A] @ post, s)"
proof
  have "read_cr_line (pre @ (''['' @ t @ [CHR '']'', CHR 0x0D]) @ CARRIAGE_RETURN # post) (length pre) =
      Inr (length (''['' @ t @ [CHR '']'', CHR 0x0D]) + 1)"
    using assms by (intro read_cr_line_eq) (auto simp: CARRIAGE_RETURN_def NULL_BYTE_def)
  then show "read_cr_line (pre @ ''['' @ t @ [CHR '']'', CHR 0x0D, CHR 0x0A] @ post) (length pre) = Inr (length t + 4)"
    by (simp add: CARRIAGE_RETURN_def)
  show "read_config_line g ops conf (pre @ ''['' @ t @ [CHR '']'', CHR 0x0D, CHR 0x0A] @ post) (length pre) (length t + 4) ln s pass =
      Inr (IC_ERROR_CONFIG_BRACKET, conf, pre @ ''['' @ t @ [CHR '']'', CHR 0x0D, CHR 0x0A] @ post, s)"
    by (simp add: read_config_line_def sub32_def nth_append)
qed

theorem crlf_section_rejected_witness:
  "read_config_line ascii quiet_ops 0 ([] @ ''['' @ ''db'' @ [CHR '']'', CHR 0x0D, CHR 0x0A] @ []) (length ([] :: string))
     (length ''db'' + 4) 1 0 0 =
   Inr (IC_ERROR_CONFIG_BRACKET, 0, [] @ ''['' @ ''db'' @ [CHR '']'', CHR 0x0D, CHR 0x0A] @ [], 0)"
  using crlf_section_rejected [of "''db''" "[]" "[]" ascii quiet_ops 0 1 0 0]
  by (simp add: CARRIAGE_RETURN_def NULL_BYTE_def)

section \<open>Directory part of a file name\<close>

lemma file_to_dir_loop_eq:
  "NULL_BYTE \<notin> set cs \<Longrightarrow> length done + length cs \<le> length buf \<Longrightarrow> take (length done) buf = done \<Longrightarrow>
   \<exists>buf'. file_to_dir_loop sep buf (cs @ NULL_BYTE # r) (length done) ls =
     Inr (buf', if sep \<in> set cs then Some (length done + (length cs - length (takeWhile (\<lambda>c. c \<noteq> sep) (rev cs)))) else ls) \<and>
     length buf' = length buf \<and> take (length done + length cs) buf' = done @ cs"
proof (induction cs arbitrary: "done" buf ls)
  case (Cons c cs)
  have i: "length done < length buf" using Cons.prems(2) by simp
  let ?b = "buf[length done := c]" and ?ls = "if c = sep then Some (length done + 1) else ls"
  have t: "take (length (done @ [c])) ?b = done @ [c]" using i Cons.prems(3) by (simp add: take_Suc_conv_app_nth)
  obtain buf' where b: "file_to_dir_loop sep ?b (cs @ NULL_BYTE # r) (length (done @ [c])) ?ls =
      Inr (buf', if sep \<in> set cs then Some (length (done @ [c]) + (length cs - length (takeWhile (\<lambda>c. c \<noteq> sep) (rev cs)))) else ?ls)"
    "length buf' = length ?b" "take (length (done @ [c]) + length cs) buf' = (done @ [c]) @ cs"
    using Cons.IH [of "done @ [c]" ?b ?ls] Cons.prems(1,2) t by auto
  have tw: "takeWhile (\<lambda>c. c \<noteq> sep) (rev cs @ [c]) = takeWhile (\<lambda>c. c \<noteq> sep) (rev cs)" if "sep \<in> set cs"
    using that by (intro takeWhile_append1) auto
  have tw2: "takeWhile (\<lambda>c. c \<noteq> sep) (rev cs @ [c]) = rev cs" if "sep \<notin> set cs" "c = sep"
    using that by (subst takeWhile_append2) auto
  have le: "length (takeWhile (\<lambda>c. c \<noteq> sep) (rev cs)) \<le> length cs" by (metis length_rev length_takeWhile_le)
  have "file_to_dir_loop sep buf ((c # cs) @ NULL_BYTE # r) (length done) ls =
      file_to_dir_loop sep ?b (cs @ NULL_BYTE # r) (length (done @ [c])) ?ls"
    using i Cons.prems(1) by auto
  then show ?case using b tw tw2 le by (cases "sep \<in> set cs") (auto simp: Suc_diff_le)
qed auto

text \<open>
  The directory part of a file name. The buffer receives the name up to and including its last
  backslash, or the empty string when there is none; so the directory part of every name with
  slashes only is empty.
\<close>

theorem convert_file_to_dir_spec:
  assumes "NULL_BYTE \<notin> set (d @ f)" and "CHR 0x5C \<notin> set f" and "length d + length f < length buf"
    and "d = [] \<or> last d = CHR 0x5C"
  shows "\<exists>rest. ic_convert_file_to_dir buf (d @ f @ NULL_BYTE # r) = Inr (d @ NULL_BYTE # rest)"
proof -
  let ?s = "CHR 0x5C"
  obtain buf' where b: "file_to_dir_loop ?s buf ((d @ f) @ NULL_BYTE # r) 0 None =
      Inr (buf', if ?s \<in> set (d @ f) then Some (length (d @ f) - length (takeWhile (\<lambda>c. c \<noteq> ?s) (rev (d @ f)))) else None)"
    "length buf' = length buf" "take (length (d @ f)) buf' = d @ f"
    using file_to_dir_loop_eq [OF assms(1), of "[]" buf ?s r None] assms(3) by auto
  have pos: "(if ?s \<in> set (d @ f) then Some (length (d @ f) - length (takeWhile (\<lambda>c. c \<noteq> ?s) (rev (d @ f)))) else None) =
      (if d = [] then None else Some (length d))"
  proof (cases "d = []")
    case False
    then obtain d' where d: "d = d' @ [?s]" using assms(4) by (metis append_butlast_last_id)
    have "takeWhile (\<lambda>c. c \<noteq> ?s) (rev f @ ?s # rev d') = rev f"
      using assms(2) by (subst takeWhile_append2) auto
    then show ?thesis by (simp add: d)
  qed (use assms(2) in simp)
  have dd: "take (length d) buf' = d" using b(3) by (metis append_eq_conv_conj le_add1 length_append min.absorb1 take_take)
  have l: "length d < length buf'" using b(2) assms(3) by simp
  have "wr buf' (length d) NULL_BYTE = Inr (d @ NULL_BYTE # drop (Suc (length d)) buf')"
    using l dd by (simp add: upd_conv_take_nth_drop)
  then show ?thesis using b(1) pos by (cases "d = []") (auto simp: ic_convert_file_to_dir_def)
qed

theorem convert_file_to_dir_spec_witness:
  "\<exists>rest. ic_convert_file_to_dir (replicate 20 NULL_BYTE) ([] @ ''/etc/a.ini'' @ NULL_BYTE # []) = Inr ([] @ NULL_BYTE # rest)"
  by (rule convert_file_to_dir_spec) (simp_all add: NULL_BYTE_def)

end
