(* ===== verification/IC_Connectstring.thy ===== *)
theory IC_Connectstring
  imports IC_Mc IC_String
begin

text \<open>
  \<^verbatim>\<open>src/util/ic_parse_connectstring.c\<close>: the parser of connect strings such as
  \<^verbatim>\<open>myhost1:port1,myhost2:port2\<close>, which lists the cluster servers.

  The host names and port numbers are copied into a memory container that the parser creates and, on
  an error, frees again. The container is the one of \<open>IC_Mc\<close>; \<open>mc_gchar_alloc\<close> presents its
  allocation function as an allocator of character objects, and the interpretation of
  \<open>gchar_allocator\<close> on it connects the two components. The bytes of a copied string are kept with the
  pointer to it.

  Results: every connect string is parsed without a fault, after an error the heap is as before, and a
  printed list of servers is parsed back.
\<close>

section \<open>Strings in a memory container\<close>

type_synonym mc_world = "ic_int_memory_container \<times> mem \<times> allocs"

definition mc_gchar_alloc :: "mc_world allocator" where
  "mc_gchar_alloc s n =
     c_bind (mc_alloc_op s n) (\<lambda>(r, s'). Inr (case r of None \<Rightarrow> (None, s')
       | Some p \<Rightarrow> (Some (fst p * 8589934592 + snd p,
           map (\<lambda>b. char_of (unat b)) (take (unat n) (drop (snd p) (the (blocks (fst (snd s')) (fst p)))))), s')))"

definition mc_ready :: "(nat \<Rightarrow> guint8 list option) \<Rightarrow> nat \<Rightarrow> mc_world \<Rightarrow> bool" where
  "mc_ready fr k s \<longleftrightarrow> (\<exists>rs. mc_inv fr k s rs)"

definition mc_plenty :: "mc_world \<Rightarrow> bool" where
  "mc_plenty s \<longleftrightarrow> max_size (fst s) = 0 \<and> snd (snd s) = []"

interpretation mcs: gchar_allocator mc_gchar_alloc "mc_ready fr" mc_plenty for fr
proof
  fix k h n
  assume "mc_ready fr (Suc k) h" and n: "unat (n :: guint32) \<le> 4294967288"
  then obtain mc m as rs where h: "h = (mc, m, as)" and inv: "mc_inv fr (Suc k) (mc, m, as) rs"
    by (cases h) (auto simp: mc_ready_def)
  from mc_alloc_ok [OF inv n] obtain r mc' m' as' where
    a: "mc_alloc as mc m n = Inr (r, mc', m', as')"
      "mc_inv fr k (mc', m', as') (case r of None \<Rightarrow> rs | Some p \<Rightarrow> (p, unat n) # rs)" by blast
  have pl: "mc_plenty h \<longrightarrow> r \<noteq> None \<and> mc_plenty (mc', m', as')"
    using mc_alloc_plenty a(1) by (auto simp: mc_plenty_def h)
  have len: "unat n \<le> length (drop (snd p) (the (blocks m' (fst p))))" if "r = Some p" for p
    using inv_owns [OF a(2), of "(p, unat n)"] that by (auto simp: in_mem_def)
  show "\<exists>r h'. mc_gchar_alloc h n = Inr (r, h') \<and> mc_ready fr k h' \<and> (mc_plenty h \<longrightarrow> r \<noteq> None \<and> mc_plenty h') \<and>
      (case r of None \<Rightarrow> True | Some (i, d) \<Rightarrow> length d = unat n)"
    using a pl len by (cases r) (auto simp: mc_gchar_alloc_def mc_alloc_op_def h mc_ready_def)
next
  fix k h
  assume "mc_ready fr (Suc k) h"
  then show "mc_ready fr k h" by (cases h) (auto simp: mc_ready_def mc_inv_def)
qed

section \<open>The parser\<close>

definition IC_MAX_CLUSTER_SERVERS :: nat where "IC_MAX_CLUSTER_SERVERS = 4"

definition IC_DEF_CLUSTER_SERVER_PORT_STR :: gptr where
  "IC_DEF_CLUSTER_SERVER_PORT_STR = (0, ''1186'' @ [NULL_BYTE])"

record connect_string =
  cs_hosts :: "gptr option list"
  cs_ports :: "gptr option list"
  num_cs_servers :: nat

text \<open>The copy of \<open>n\<close> characters from index \<open>start\<close> of the connect string.\<close>

definition copy_part :: "'h allocator \<Rightarrow> 'h \<Rightarrow> char list \<Rightarrow> nat \<Rightarrow> nat \<Rightarrow> fault + (gptr option \<times> 'h)" where
  "copy_part al h txt start n =
     c_bind (al h (of_nat (n + 1))) (\<lambda>(r, h). case r of
         None \<Rightarrow> Inr (None, h)
       | Some (i, d) \<Rightarrow>
           c_bind (rd_blk txt start n) (\<lambda>bs.
           c_bind (wr_blk d 0 bs) (\<lambda>d.
           c_bind (wr d n NULL_BYTE) (\<lambda>d. Inr (Some (i, d), h)))))"

definition analyse_host ::
  "'h allocator \<Rightarrow> 'h \<Rightarrow> connect_string \<Rightarrow> char list \<Rightarrow> nat \<Rightarrow> nat \<Rightarrow> fault + (err \<times> connect_string \<times> 'h)"
where
  "analyse_host al h conn txt start_ptr curr_len =
     (if curr_len = 0 then Inr (IC_ERROR_PARSE_CONNECTSTRING, conn, h)
      else if num_cs_servers conn = IC_MAX_CLUSTER_SERVERS then Inr (IC_ERROR_TOO_MANY_CS_HOSTS, conn, h)
      else c_bind (copy_part al h txt start_ptr curr_len) (\<lambda>(p, h). case p of
          None \<Rightarrow> Inr (IC_ERROR_MEM_ALLOC, conn, h)
        | Some q \<Rightarrow> c_bind (wr (cs_hosts conn) (num_cs_servers conn) (Some q)) (\<lambda>hs.
            Inr (0, conn\<lparr>cs_hosts := hs\<rparr>, h))))"

definition analyse_port_number ::
  "'h allocator \<Rightarrow> 'h \<Rightarrow> connect_string \<Rightarrow> char list \<Rightarrow> nat \<Rightarrow> nat \<Rightarrow> fault + (err \<times> connect_string \<times> 'h)"
where
  "analyse_port_number al h conn txt start_ptr curr_len =
     (if curr_len = 0 then Inr (IC_ERROR_PARSE_CONNECTSTRING, conn, h)
      else c_bind (copy_part al h txt start_ptr curr_len) (\<lambda>(p, h). case p of
          None \<Rightarrow> Inr (IC_ERROR_MEM_ALLOC, conn, h)
        | Some q \<Rightarrow> c_bind (wr (cs_ports conn) (num_cs_servers conn) (Some q)) (\<lambda>ps.
            Inr (0, conn\<lparr>cs_ports := ps\<rparr>, h))))"

record parse_state =
  ps_conn :: connect_string
  start_ptr :: nat
  curr_len :: nat
  read_host :: bool
  read_port :: bool

text \<open>A host and its port are complete: at a comma and at the end of the string.\<close>

definition finish_server ::
  "'h allocator \<Rightarrow> 'h \<Rightarrow> char list \<Rightarrow> parse_state \<Rightarrow> fault + (err \<times> connect_string \<times> 'h)"
where
  "finish_server al h txt ps =
     c_bind (if read_host ps
             then c_bind (analyse_host al h (ps_conn ps) txt (start_ptr ps) (curr_len ps)) (\<lambda>(rc, conn, h).
                    if rc \<noteq> 0 then Inr (rc, conn, h)
                    else c_bind (wr (cs_ports conn) (num_cs_servers conn) (Some IC_DEF_CLUSTER_SERVER_PORT_STR)) (\<lambda>pp.
                      Inr (0, conn\<lparr>cs_ports := pp\<rparr>, h)))
             else analyse_port_number al h (ps_conn ps) txt (start_ptr ps) (curr_len ps)) (\<lambda>(rc, conn, h).
       Inr (rc, if rc = 0 then conn\<lparr>num_cs_servers := num_cs_servers conn + 1\<rparr> else conn, h))"

definition host_char :: "char \<Rightarrow> bool" where
  "host_char c \<longleftrightarrow> (97 \<le> (of_char c :: nat) \<and> (of_char c :: nat) \<le> 122) \<or> (65 \<le> (of_char c :: nat) \<and> (of_char c :: nat) \<le> 90) \<or>
     (48 \<le> (of_char c :: nat) \<and> (of_char c :: nat) \<le> 57) \<or> c = CHR ''_'' \<or> c = CHR ''-'' \<or> c = CHR ''.''"

definition port_char :: "char \<Rightarrow> bool" where
  "port_char c \<longleftrightarrow> 48 \<le> (of_char c :: nat) \<and> (of_char c :: nat) \<le> 57"

text \<open>One iteration of the loop, for the character \<open>c\<close>.\<close>

definition parse_char ::
  "'h allocator \<Rightarrow> 'h \<Rightarrow> char list \<Rightarrow> parse_state \<Rightarrow> char \<Rightarrow> fault + (err \<times> parse_state \<times> 'h)"
where
  "parse_char al h txt ps c =
     (if c = CHR '',''
      then c_bind (finish_server al h txt ps) (\<lambda>(rc, conn, h).
             if rc \<noteq> 0 then Inr (rc, ps\<lparr>ps_conn := conn\<rparr>, h)
             else Inr (0, ps\<lparr>ps_conn := conn, read_host := True, read_port := False,
                            start_ptr := start_ptr ps + curr_len ps + 1, curr_len := 0\<rparr>, h))
      else if c = CHR '':''
      then if read_port ps then Inr (IC_ERROR_PARSE_CONNECTSTRING, ps, h)
           else c_bind (analyse_host al h (ps_conn ps) txt (start_ptr ps) (curr_len ps)) (\<lambda>(rc, conn, h).
             if rc \<noteq> 0 then Inr (rc, ps\<lparr>ps_conn := conn\<rparr>, h)
             else Inr (0, ps\<lparr>ps_conn := conn, read_port := True, read_host := False,
                            start_ptr := start_ptr ps + curr_len ps + 1, curr_len := 0\<rparr>, h))
      else if (read_host ps \<and> \<not> host_char c) \<or> (\<not> read_host ps \<and> read_port ps \<and> \<not> port_char c)
      then Inr (IC_ERROR_PARSE_CONNECTSTRING, ps\<lparr>curr_len := curr_len ps + 1\<rparr>, h)
      else Inr (0, ps\<lparr>curr_len := curr_len ps + 1\<rparr>, h))"

function parse_loop ::
  "'h allocator \<Rightarrow> 'h \<Rightarrow> char list \<Rightarrow> nat \<Rightarrow> nat \<Rightarrow> parse_state \<Rightarrow> fault + (err \<times> parse_state \<times> 'h)"
where
  "parse_loop al h txt ln buf_inx ps =
     c_bind (rd txt buf_inx) (\<lambda>c.
     c_bind (parse_char al h txt ps c) (\<lambda>(rc, ps, h).
       if rc \<noteq> 0 then Inr (rc, ps, h)
       else if buf_inx + 1 < ln then parse_loop al h txt ln (buf_inx + 1) ps
       else Inr (0, ps, h)))"
  by pat_completeness auto

termination parse_loop
  by (relation "measure (\<lambda>(al, h, txt, ln, i, ps). ln - i)") auto

declare parse_loop.simps [simp del]

text \<open>The parser behind the creation of the container: the loop and the last server.\<close>

definition parse_servers ::
  "'h allocator \<Rightarrow> 'h \<Rightarrow> char list \<Rightarrow> connect_string \<Rightarrow> fault + (err \<times> connect_string \<times> 'h)"
where
  "parse_servers al h txt conn =
     c_bind (c_strlen txt) (\<lambda>ln.
     c_bind (parse_loop al h txt ln 0
               \<lparr>ps_conn = conn\<lparr>num_cs_servers := 0\<rparr>, start_ptr = 0, curr_len = 0, read_host = True, read_port = False\<rparr>)
       (\<lambda>(rc, ps, h).
          if rc \<noteq> 0 then Inr (rc, ps_conn ps, h) else finish_server al h txt ps))"

text \<open>
  The results are the return code, the connect string and, unless it was freed or not created, the
  container, with the heap and the outcomes of later allocations.
\<close>

definition ic_parse_connectstring ::
  "allocs \<Rightarrow> mem \<Rightarrow> char list option \<Rightarrow> gptr \<Rightarrow> gptr \<Rightarrow>
   fault + (err \<times> connect_string \<times> ic_int_memory_container option \<times> mem \<times> allocs)"
where
  "ic_parse_connectstring as m connect_string cs_server_name cs_server_port =
     (let conn0 = \<lparr>cs_hosts = [], cs_ports = [], num_cs_servers = 0\<rparr>;
          error = (\<lambda>rc conn mc m as. c_bind (mc_free mc m) (\<lambda>m. Inr (rc, conn, None, m, as)))
      in c_bind (ic_create_memory_container as m 1024 0 False) (\<lambda>(r, m, as). case r of
           None \<Rightarrow> Inr (IC_ERROR_MEM_ALLOC, conn0, None, m, as)
         | Some mc \<Rightarrow>
             c_bind (mc_calloc as mc m (of_nat (IC_MAX_CLUSTER_SERVERS * 8))) (\<lambda>(p1, mc, m, as).
             if p1 = None then error IC_ERROR_MEM_ALLOC conn0 mc m as
             else c_bind (mc_calloc as mc m (of_nat (IC_MAX_CLUSTER_SERVERS * 8))) (\<lambda>(p2, mc, m, as).
             if p2 = None then error IC_ERROR_MEM_ALLOC conn0 mc m as
             else let conn = \<lparr>cs_hosts = replicate IC_MAX_CLUSTER_SERVERS None,
                             cs_ports = replicate IC_MAX_CLUSTER_SERVERS None, num_cs_servers = 0\<rparr> in
             case connect_string of
               None \<Rightarrow> Inr (0, \<lparr>cs_hosts = (cs_hosts conn)[0 := Some cs_server_name],
                               cs_ports = (cs_ports conn)[0 := Some cs_server_port], num_cs_servers = 1\<rparr>, Some mc, m, as)
             | Some txt \<Rightarrow>
                 c_bind (parse_servers mc_gchar_alloc (mc, m, as) txt conn) (\<lambda>(rc, conn, (mc, m, as)).
                   if rc \<noteq> 0 then error rc conn mc m as else Inr (0, conn, Some mc, m, as))))))"

section \<open>The loop as a recursion over the characters\<close>

fun parse_chars ::
  "'h allocator \<Rightarrow> char list \<Rightarrow> 'h \<Rightarrow> parse_state \<Rightarrow> char list \<Rightarrow> fault + (err \<times> parse_state \<times> 'h)"
where
  "parse_chars al txt h ps [] = Inr (0, ps, h)"
| "parse_chars al txt h ps (c # cs) =
     c_bind (parse_char al h txt ps c) (\<lambda>(rc, ps, h). if rc \<noteq> 0 then Inr (rc, ps, h) else parse_chars al txt h ps cs)"

lemma parse_loop_chars:
  "i < n \<Longrightarrow> n \<le> length txt \<Longrightarrow> parse_loop al h txt n i ps = parse_chars al txt h ps (take (n - i) (drop i txt))"
proof (induction "n - i" arbitrary: i h ps)
  case (Suc d)
  have u: "take (n - i) (drop i txt) = txt ! i # take (n - Suc i) (drop (Suc i) txt)"
    using Suc.prems by (simp add: Cons_nth_drop_Suc [symmetric] Suc_diff_Suc take_Cons' del: Cons_nth_drop_Suc)
  have n: "parse_loop al h' txt n (Suc i) ps' = parse_chars al txt h' ps' (take (n - Suc i) (drop (Suc i) txt))"
    if "Suc i < n" for h' ps' using Suc.hyps(1) [of "Suc i"] Suc.hyps(2) Suc.prems that by simp
  show ?case
    using Suc.prems n by (auto simp: u parse_loop.simps [of al h "txt" n i ps] intro!: c_bind_cong)
qed simp

lemma parse_chars_append:
  "parse_chars al txt h ps (xs @ ys) =
     c_bind (parse_chars al txt h ps xs) (\<lambda>(rc, ps, h). if rc \<noteq> 0 then Inr (rc, ps, h) else parse_chars al txt h ps ys)"
  by (induction xs arbitrary: h ps) (auto simp: c_bind_assoc intro!: c_bind_cong)

definition conn_ok :: "connect_string \<Rightarrow> bool" where
  "conn_ok conn \<longleftrightarrow> length (cs_hosts conn) = 4 \<and> length (cs_ports conn) = 4 \<and> num_cs_servers conn \<le> 4"

definition ps_ok :: "nat \<Rightarrow> parse_state \<Rightarrow> bool" where
  "ps_ok b ps \<longleftrightarrow> conn_ok (ps_conn ps) \<and> start_ptr ps + curr_len ps = b \<and>
     (read_host ps \<longleftrightarrow> \<not> read_port ps) \<and> (read_port ps \<longrightarrow> num_cs_servers (ps_conn ps) < 4)"

definition text_bound :: nat where "text_bound = 200000000"

section \<open>Printed lists of servers\<close>

type_synonym server = "string \<times> string option"

definition print_server :: "server \<Rightarrow> string" where
  "print_server s = fst s @ (case snd s of None \<Rightarrow> [] | Some p \<Rightarrow> CHR '':'' # p)"

fun print_servers :: "server list \<Rightarrow> string" where
  "print_servers [] = []"
| "print_servers [s] = print_server s"
| "print_servers (s # t # ss) = print_server s @ CHR '','' # print_servers (t # ss)"

definition server_ok :: "server \<Rightarrow> bool" where
  "server_ok s \<longleftrightarrow> fst s \<noteq> [] \<and> list_all host_char (fst s) \<and>
     (case snd s of None \<Rightarrow> True | Some p \<Rightarrow> p \<noteq> [] \<and> list_all port_char p)"

definition port_text :: "server \<Rightarrow> string" where
  "port_text s = (case snd s of None \<Rightarrow> ''1186'' | Some p \<Rightarrow> p)"

definition server_set :: "connect_string \<Rightarrow> server \<Rightarrow> connect_string \<Rightarrow> bool" where
  "server_set conn s conn' \<longleftrightarrow> (\<exists>i q. snd q = port_text s @ [NULL_BYTE] \<and>
     conn' = conn\<lparr>cs_hosts := (cs_hosts conn)[num_cs_servers conn := Some (i, fst s @ [NULL_BYTE])],
                  cs_ports := (cs_ports conn)[num_cs_servers conn := Some q],
                  num_cs_servers := num_cs_servers conn + 1\<rparr>)"

fun servers_set :: "connect_string \<Rightarrow> server list \<Rightarrow> connect_string \<Rightarrow> bool" where
  "servers_set conn [] conn' \<longleftrightarrow> conn' = conn"
| "servers_set conn (s # ss) conn' \<longleftrightarrow> (\<exists>c. server_set conn s c \<and> servers_set c ss conn')"

definition parts :: "gptr option list \<Rightarrow> nat \<Rightarrow> string option list" where
  "parts ps n = map (map_option (\<lambda>p. butlast (snd p))) (take n ps)"

lemma server_set_parts:
  assumes "server_set conn s conn'" and "conn_ok conn" and "num_cs_servers conn < 4"
  shows "conn_ok conn'" and "num_cs_servers conn' = Suc (num_cs_servers conn)"
    and "parts (cs_hosts conn') (num_cs_servers conn') = parts (cs_hosts conn) (num_cs_servers conn) @ [Some (fst s)]"
    and "parts (cs_ports conn') (num_cs_servers conn') = parts (cs_ports conn) (num_cs_servers conn) @ [Some (port_text s)]"
  using assms by (auto simp: server_set_def conn_ok_def parts_def take_Suc_conv_app_nth butlast_append)

lemma servers_set_parts:
  "servers_set conn ss conn' \<Longrightarrow> conn_ok conn \<Longrightarrow> num_cs_servers conn + length ss \<le> 4 \<Longrightarrow>
   num_cs_servers conn' = num_cs_servers conn + length ss \<and>
   parts (cs_hosts conn') (num_cs_servers conn') =
     parts (cs_hosts conn) (num_cs_servers conn) @ map (\<lambda>s. Some (fst s)) ss \<and>
   parts (cs_ports conn') (num_cs_servers conn') =
     parts (cs_ports conn) (num_cs_servers conn) @ map (\<lambda>s. Some (port_text s)) ss"
proof (induction ss arbitrary: conn)
  case (Cons s ss)
  then obtain c where c: "server_set conn s c" "servers_set c ss conn'" by auto
  note p = server_set_parts [OF c(1) Cons.prems(2)]
  have "num_cs_servers conn < 4" using Cons.prems by simp
  with Cons.IH [OF c(2)] p Cons.prems(3) show ?case by auto
qed simp

lemma server_setI:
  "snd q = port_text s @ [NULL_BYTE] \<Longrightarrow>
   server_set conn s (conn\<lparr>cs_hosts := (cs_hosts conn)[num_cs_servers conn := Some (i, fst s @ [NULL_BYTE])],
     cs_ports := (cs_ports conn)[num_cs_servers conn := Some q], num_cs_servers := Suc (num_cs_servers conn)\<rparr>)"
  unfolding server_set_def by (intro exI [of _ i] exI [of _ q]) simp

lemma parse_char_moves:
  assumes "parse_char al h txt ps c = Inr (0, ps', h')"
  shows "start_ptr ps' + curr_len ps' = Suc (start_ptr ps + curr_len ps)"
proof -
  have *: "start_ptr ps' + curr_len ps' = Suc (start_ptr ps + curr_len ps)"
    if "c_bind m (\<lambda>(rc, conn, h). if rc \<noteq> 0 then Inr (rc, ps\<lparr>ps_conn := conn\<rparr>, h) else Inr (0, f conn, h)) = Inr (0, ps', h')"
      "\<And>conn. start_ptr (f conn) + curr_len (f conn) = Suc (start_ptr ps + curr_len ps)" for m :: "fault + err \<times> connect_string \<times> 'a" and f
  proof (cases m)
    case (Inr r)
    obtain rc conn h1 where r: "r = (rc, conn, h1)" by (cases r)
    have "rc = 0 \<and> ps' = f conn" using that(1) Inr r by (cases "rc = 0") auto
    then show ?thesis using that(2) by simp
  qed (use that in simp)
  show ?thesis
    using assms by (auto simp: parse_char_def err_codes * split: if_split_asm)
qed

lemma parse_chars_move:
  "parse_chars al txt h ps cs = Inr (0, ps', h') \<Longrightarrow> start_ptr ps' + curr_len ps' = start_ptr ps + curr_len ps + length cs"
proof (induction cs arbitrary: h ps)
  case (Cons c cs)
  then obtain rc p1 h1 where "parse_char al h txt ps c = Inr (rc, p1, h1)"
    "(if rc \<noteq> 0 then Inr (rc, p1, h1) else parse_chars al txt h1 p1 cs) = Inr (0, ps', h')" by (auto simp: c_bind_Inr_iff)
  then have "parse_char al h txt ps c = Inr (0, p1, h1) \<and> parse_chars al txt h1 p1 cs = Inr (0, ps', h')"
    by (cases "rc = 0") auto
  then show ?case using Cons.IH [of h1 p1] parse_char_moves [of al h "txt" ps c p1 h1] by simp
qed simp

lemma host_char_plain: "host_char c \<Longrightarrow> c \<noteq> CHR '','' \<and> c \<noteq> CHR '':'' \<and> c \<noteq> NULL_BYTE"
  by (auto simp: host_char_def NULL_BYTE_def)

lemma port_char_plain: "port_char c \<Longrightarrow> c \<noteq> CHR '','' \<and> c \<noteq> CHR '':'' \<and> c \<noteq> NULL_BYTE"
  by (auto simp: port_char_def NULL_BYTE_def)

lemma host_run:
  "list_all host_char cs \<Longrightarrow> read_host ps \<Longrightarrow>
   parse_chars al txt h ps cs = Inr (0, ps\<lparr>curr_len := curr_len ps + length cs\<rparr>, h)"
  by (induction cs arbitrary: ps) (auto simp: parse_char_def dest: host_char_plain)

lemma port_run:
  "list_all port_char cs \<Longrightarrow> \<not> read_host ps \<Longrightarrow>
   parse_chars al txt h ps cs = Inr (0, ps\<lparr>curr_len := curr_len ps + length cs\<rparr>, h)"
  by (induction cs arbitrary: ps) (auto simp: parse_char_def dest: port_char_plain)

lemma NULL_not_host: "\<not> host_char NULL_BYTE" "NULL_BYTE \<noteq> CHR '',''" "NULL_BYTE \<noteq> CHR '':''"
  using host_char_plain by (auto simp: NULL_BYTE_def)

lemma print_server_no_null: "server_ok s \<Longrightarrow> NULL_BYTE \<notin> set (print_server s)"
  using NULL_not_host
  by (auto simp: server_ok_def print_server_def list_all_iff split: option.splits dest: host_char_plain port_char_plain)

lemma print_servers_no_null: "list_all server_ok ss \<Longrightarrow> NULL_BYTE \<notin> set (print_servers ss)"
  by (induction ss rule: print_servers.induct) (auto simp: print_server_no_null NULL_not_host)

context gchar_allocator
begin

lemma copy_part_ok:
  assumes "ready (Suc k) h" and "start + n \<le> length txt" and "n < 4294967288"
  shows "\<exists>r h'. copy_part al h txt start n = Inr (r, h') \<and> ready k h' \<and> (plenty h \<longrightarrow> r \<noteq> None \<and> plenty h') \<and>
    (\<forall>q. r = Some q \<longrightarrow> snd q = take n (drop start txt) @ [NULL_BYTE])"
proof -
  have b: "unat (of_nat (n + 1) :: guint32) = Suc n" using assms(3) unat_of_nat_32 [of "n + 1"] by simp
  have b': "unat (of_nat (n + 1) :: guint32) \<le> 4294967288" using b assms(3) by simp
  show ?thesis
  proof (rule al_cases [OF assms(1) b'], goal_cases none obj)
    case (none h')
    then show ?case by (simp add: copy_part_def)
  next
    case (obj i d h')
    have l: "length d = Suc n" using obj b by simp
    then obtain z where z: "drop n d = [z]"
      by (metis Suc_diff_le diff_self_eq_0 le_refl length_drop length_0_conv length_Suc_conv)
    have "wr_blk d 0 (take n (drop start txt)) = Inr (take n (drop start txt) @ [z])"
      using l z assms(2) by (simp add: min_absorb2)
    moreover have "wr (take n (drop start txt) @ [z]) n NULL_BYTE = Inr (take n (drop start txt) @ [NULL_BYTE])"
      using assms(2) by (simp add: wr_def list_update_append min_absorb2)
    ultimately show ?case using obj assms(2) by (simp add: copy_part_def)
  qed
qed

text \<open>
  What a step that copies one part promises: \<open>rc\<close> is 0 and the connect string is changed by
  \<open>upd\<close>, or it is unchanged and the code is the expected one or, when memory was short,
  \<open>IC_ERROR_MEM_ALLOC\<close>.
\<close>

lemma analyse_host_ok:
  assumes "ready (Suc k) h" and "st + n \<le> length txt" and "n < 4294967288" and "conn_ok conn"
  shows "\<exists>rc conn' h'. analyse_host al h conn txt st n = Inr (rc, conn', h') \<and> ready k h' \<and>
    (plenty h \<longrightarrow> rc \<noteq> IC_ERROR_MEM_ALLOC \<and> plenty h') \<and>
    (if n = 0 then rc = IC_ERROR_PARSE_CONNECTSTRING \<and> conn' = conn
     else if num_cs_servers conn = 4 then rc = IC_ERROR_TOO_MANY_CS_HOSTS \<and> conn' = conn
     else rc = IC_ERROR_MEM_ALLOC \<and> conn' = conn \<or>
       rc = 0 \<and> (\<exists>i. conn' = conn\<lparr>cs_hosts := (cs_hosts conn)[num_cs_servers conn :=
         Some (i, take n (drop st txt) @ [NULL_BYTE])]\<rparr>))"
proof (cases "n = 0 \<or> num_cs_servers conn = 4")
  case True
  then show ?thesis using ready_less [OF assms(1)]
    by (auto simp: analyse_host_def IC_MAX_CLUSTER_SERVERS_def err_codes)
next
  case False
  from copy_part_ok [OF assms(1-3)] obtain r h' where r: "copy_part al h txt st n = Inr (r, h')" "ready k h'"
    "plenty h \<longrightarrow> r \<noteq> None \<and> plenty h'" "\<forall>q. r = Some q \<longrightarrow> snd q = take n (drop st txt) @ [NULL_BYTE]" by blast
  then show ?thesis using False assms(4)
    by (cases r) (auto simp: analyse_host_def IC_MAX_CLUSTER_SERVERS_def err_codes conn_ok_def intro: exI [where x = "fst q" for q])
qed

lemma analyse_port_number_ok:
  assumes "ready (Suc k) h" and "st + n \<le> length txt" and "n < 4294967288" and "conn_ok conn" and "num_cs_servers conn < 4"
  shows "\<exists>rc conn' h'. analyse_port_number al h conn txt st n = Inr (rc, conn', h') \<and> ready k h' \<and>
    (plenty h \<longrightarrow> rc \<noteq> IC_ERROR_MEM_ALLOC \<and> plenty h') \<and>
    (if n = 0 then rc = IC_ERROR_PARSE_CONNECTSTRING \<and> conn' = conn
     else rc = IC_ERROR_MEM_ALLOC \<and> conn' = conn \<or>
       rc = 0 \<and> (\<exists>i. conn' = conn\<lparr>cs_ports := (cs_ports conn)[num_cs_servers conn :=
         Some (i, take n (drop st txt) @ [NULL_BYTE])]\<rparr>))"
proof (cases "n = 0")
  case True
  then show ?thesis using ready_less [OF assms(1)] by (auto simp: analyse_port_number_def err_codes)
next
  case False
  from copy_part_ok [OF assms(1-3)] obtain r h' where r: "copy_part al h txt st n = Inr (r, h')" "ready k h'"
    "plenty h \<longrightarrow> r \<noteq> None \<and> plenty h'" "\<forall>q. r = Some q \<longrightarrow> snd q = take n (drop st txt) @ [NULL_BYTE]" by blast
  then show ?thesis using False assms(4,5)
    by (cases r) (auto simp: analyse_port_number_def err_codes conn_ok_def)
qed

lemma finish_server_ok:
  assumes "ready (Suc k) h" and "ps_ok b ps" and "b \<le> length txt" and "b \<le> text_bound"
  shows "\<exists>rc conn' h'. finish_server al h txt ps = Inr (rc, conn', h') \<and> ready k h' \<and> conn_ok conn' \<and>
    (plenty h \<longrightarrow> rc \<noteq> IC_ERROR_MEM_ALLOC \<and> plenty h')"
proof (cases "read_host ps")
  case True
  from analyse_host_ok [OF assms(1), of "start_ptr ps" "curr_len ps" "txt" "ps_conn ps"] assms(2-4)
  obtain rc conn' h' where "analyse_host al h (ps_conn ps) txt (start_ptr ps) (curr_len ps) = Inr (rc, conn', h')"
    "ready k h'" "plenty h \<longrightarrow> rc \<noteq> IC_ERROR_MEM_ALLOC \<and> plenty h'" "conn_ok conn'" "rc = 0 \<longrightarrow> num_cs_servers conn' < 4"
    by (auto simp: ps_ok_def conn_ok_def text_bound_def err_codes split: if_splits)
  then show ?thesis using True by (auto simp: finish_server_def conn_ok_def err_codes)
next
  case False
  from analyse_port_number_ok [OF assms(1), of "start_ptr ps" "curr_len ps" "txt" "ps_conn ps"] assms(2-4) False
  obtain rc conn' h' where "analyse_port_number al h (ps_conn ps) txt (start_ptr ps) (curr_len ps) = Inr (rc, conn', h')"
    "ready k h'" "plenty h \<longrightarrow> rc \<noteq> IC_ERROR_MEM_ALLOC \<and> plenty h'" "conn_ok conn'" "rc = 0 \<longrightarrow> num_cs_servers conn' < 4"
    by (auto simp: ps_ok_def conn_ok_def text_bound_def err_codes split: if_splits)
  then show ?thesis using False by (auto simp: finish_server_def conn_ok_def err_codes)
qed

lemma parse_char_ok:
  assumes "ready (Suc k) h" and "ps_ok b ps" and "b < length txt" and "b \<le> text_bound"
  shows "\<exists>rc ps' h'. parse_char al h txt ps c = Inr (rc, ps', h') \<and> ready k h' \<and> (rc = 0 \<longrightarrow> ps_ok (Suc b) ps')"
proof -
  consider (comma) "c = CHR '',''" | (colon) "c = CHR '':''" "read_host ps" | (other) "c \<noteq> CHR '',''" "c = CHR '':'' \<longrightarrow> \<not> read_host ps"
    by blast
  then show ?thesis
  proof cases
    case comma
    from finish_server_ok [OF assms(1,2) less_imp_le [OF assms(3)] assms(4)] obtain rc conn' h' where
      "finish_server al h txt ps = Inr (rc, conn', h')" "ready k h'" "conn_ok conn'" by blast
    then show ?thesis using comma assms(2) by (auto simp: parse_char_def ps_ok_def)
  next
    case colon
    from analyse_host_ok [OF assms(1), of "start_ptr ps" "curr_len ps" "txt" "ps_conn ps"] assms(2-4)
    obtain rc conn' h' where "analyse_host al h (ps_conn ps) txt (start_ptr ps) (curr_len ps) = Inr (rc, conn', h')"
      "ready k h'" "conn_ok conn'" "rc = 0 \<longrightarrow> num_cs_servers conn' < 4"
      by (auto simp: ps_ok_def conn_ok_def text_bound_def err_codes split: if_splits)
    then show ?thesis using colon assms(2) by (auto simp: parse_char_def ps_ok_def)
  next
    case other
    then show ?thesis using assms(2) ready_less [OF assms(1)] by (auto simp: parse_char_def ps_ok_def err_codes)
  qed
qed

lemma parse_chars_ok:
  "ready (length cs + k) h \<Longrightarrow> ps_ok b ps \<Longrightarrow> b + length cs \<le> length txt \<Longrightarrow> b + length cs \<le> text_bound \<Longrightarrow>
   \<exists>rc ps' h'. parse_chars al txt h ps cs = Inr (rc, ps', h') \<and> ready k h' \<and> (rc = 0 \<longrightarrow> ps_ok (b + length cs) ps')"
proof (induction cs arbitrary: h ps b)
  case (Cons c cs)
  from parse_char_ok [of "length cs + k" h b ps "txt" c] Cons.prems obtain rc ps' h' where
    p: "parse_char al h txt ps c = Inr (rc, ps', h')" "ready (length cs + k) h'" "rc = 0 \<longrightarrow> ps_ok (Suc b) ps'" by auto
  show ?case
  proof (cases "rc = 0")
    case True
    with Cons.IH [of h' "Suc b" ps'] Cons.prems p show ?thesis by auto
  next
    case False
    with p ready_mono [of k "length cs" h'] show ?thesis by (auto simp: add.commute)
  qed
qed auto

lemma host_at_num:
  assumes "ready (Suc k) h" and "conn_ok (ps_conn ps)" and "read_host ps" and "hst \<noteq> []" and "txt = pre @ hst @ rest"
    and "start_ptr ps = length pre" and "curr_len ps = length hst" and "length txt \<le> text_bound + 1"
  shows "\<exists>rc conn' h'. analyse_host al h (ps_conn ps) txt (start_ptr ps) (curr_len ps) = Inr (rc, conn', h') \<and> ready k h' \<and>
    (plenty h \<longrightarrow> rc \<noteq> IC_ERROR_MEM_ALLOC \<and> plenty h') \<and>
    (if num_cs_servers (ps_conn ps) = 4 then rc = IC_ERROR_TOO_MANY_CS_HOSTS
     else rc = IC_ERROR_MEM_ALLOC \<or> rc = 0 \<and> (\<exists>i. conn' = (ps_conn ps)\<lparr>cs_hosts := (cs_hosts (ps_conn ps))
       [num_cs_servers (ps_conn ps) := Some (i, hst @ [NULL_BYTE])]\<rparr>))"
  using analyse_host_ok [OF assms(1), of "start_ptr ps" "curr_len ps" "txt" "ps_conn ps"] assms(2-)
  by (auto simp: text_bound_def split: if_splits)

lemma one_server:
  assumes "ready (Suc (Suc k)) h" and "conn_ok (ps_conn ps)" and "read_host ps" and "\<not> read_port ps" and "server_ok s"
    and "txt = pre @ print_server s @ rest" and "start_ptr ps = length pre" and "curr_len ps = 0" and "length txt \<le> text_bound + 1"
  shows "\<exists>rc conn' h'. c_bind (parse_chars al txt h ps (print_server s)) (\<lambda>(rc, ps, h).
        if rc \<noteq> 0 then Inr (rc, ps_conn ps, h) else finish_server al h txt ps) = Inr (rc, conn', h') \<and> ready k h' \<and>
    (plenty h \<longrightarrow> rc \<noteq> IC_ERROR_MEM_ALLOC \<and> plenty h') \<and>
    (if num_cs_servers (ps_conn ps) = 4 then rc = IC_ERROR_TOO_MANY_CS_HOSTS
     else rc = IC_ERROR_MEM_ALLOC \<or> rc = 0 \<and> server_set (ps_conn ps) s conn')"
proof -
  define hst where "hst = fst s"
  define ps1 where "ps1 = ps\<lparr>curr_len := length hst\<rparr>"
  have hst: "hst \<noteq> []" "list_all host_char hst" using assms(5) by (auto simp: server_ok_def hst_def)
  then have run: "parse_chars al txt h ps hst = Inr (0, ps1, h)" using host_run [of hst ps] assms(3,8) by (simp add: ps1_def)
  have n4: "num_cs_servers (ps_conn ps) \<le> 4" "length (cs_hosts (ps_conn ps)) = 4" "length (cs_ports (ps_conn ps)) = 4"
    using assms(2) by (auto simp: conn_ok_def)
  have "\<exists>rest'. txt = pre @ hst @ rest'" using assms(6) by (auto simp: print_server_def hst_def)
  then obtain rest' where tx: "txt = pre @ hst @ rest'" by blast
  have ps1: "ps_conn ps1 = ps_conn ps" "start_ptr ps1 = start_ptr ps" "curr_len ps1 = length hst" "read_host ps1"
    using assms(3) by (simp_all add: ps1_def)
  from host_at_num [OF assms(1), of ps1 hst "txt" pre rest', unfolded ps1(1-3), OF assms(2) ps1(4) hst(1) tx assms(7) refl assms(9)] obtain rc conn' h' where
    a: "analyse_host al h (ps_conn ps) txt (start_ptr ps) (length hst) = Inr (rc, conn', h')" "ready (Suc k) h'"
      "plenty h \<longrightarrow> rc \<noteq> IC_ERROR_MEM_ALLOC \<and> plenty h'"
    and c: "if num_cs_servers (ps_conn ps) = 4 then rc = IC_ERROR_TOO_MANY_CS_HOSTS
     else rc = IC_ERROR_MEM_ALLOC \<or> rc = 0 \<and> (\<exists>i. conn' = (ps_conn ps)\<lparr>cs_hosts := (cs_hosts (ps_conn ps))
       [num_cs_servers (ps_conn ps) := Some (i, hst @ [NULL_BYTE])]\<rparr>)" by blast
  show ?thesis
  proof (cases "snd s")
    case None
    have "print_server s = hst" using None by (simp add: print_server_def hst_def)
    then show ?thesis using run a c n4 ready_less [OF a(2)] None assms(3)
      by (auto simp: finish_server_def ps1_def err_codes port_text_def hst_def IC_DEF_CLUSTER_SERVER_PORT_STR_def
          intro!: server_setI split: if_splits)
  next
    case (Some p)
    have p: "print_server s = hst @ CHR '':'' # p" "p \<noteq> []" "list_all port_char p"
      using Some assms(5) by (auto simp: print_server_def hst_def server_ok_def)
    show ?thesis
    proof (cases "rc = 0")
      case False
      then show ?thesis using p run a c ready_less [OF a(2)] assms(3,4)
        by (auto simp: parse_chars_append parse_char_def ps1_def split: if_splits)
    next
      case True
      then obtain i where conn': "conn' = (ps_conn ps)\<lparr>cs_hosts := (cs_hosts (ps_conn ps))
         [num_cs_servers (ps_conn ps) := Some (i, hst @ [NULL_BYTE])]\<rparr>" and lt: "num_cs_servers (ps_conn ps) < 4"
        using c n4 by (auto simp: err_codes split: if_splits)
      define ps2 where "ps2 = ps\<lparr>ps_conn := conn', read_host := False, read_port := True, start_ptr := length pre + length hst + 1, curr_len := 0\<rparr>"
      have colon: "parse_char al h txt ps1 (CHR '':'') = Inr (0, ps2, h')"
        using a(1) True assms(4,7) by (simp add: parse_char_def ps1_def ps2_def)
      have "parse_chars al txt h' ps2 p = Inr (0, ps2\<lparr>curr_len := length p\<rparr>, h')"
        using port_run [OF p(3), of ps2] by (simp add: ps2_def)
      then have all: "parse_chars al txt h ps (print_server s) = Inr (0, ps2\<lparr>curr_len := length p\<rparr>, h')"
        using run colon by (simp add: p(1) parse_chars_append)
      have "take (length p) (drop (length pre + length hst + 1) txt) = p" using assms(6) p(1) by simp
      with analyse_port_number_ok [OF a(2), of "length pre + length hst + 1" "length p" "txt" conn'] n4 lt p assms(6,9)
      obtain rc2 c2 h2 where
        "analyse_port_number al h' conn' txt (length pre + length hst + 1) (length p) = Inr (rc2, c2, h2)" "ready k h2"
        "plenty h' \<longrightarrow> rc2 \<noteq> IC_ERROR_MEM_ALLOC \<and> plenty h2"
        "rc2 = IC_ERROR_MEM_ALLOC \<or> rc2 = 0 \<and> (\<exists>i. c2 = conn'\<lparr>cs_ports := (cs_ports conn')[num_cs_servers conn' :=
           Some (i, p @ [NULL_BYTE])]\<rparr>)"
        by (auto simp: conn' conn_ok_def text_bound_def)
      then show ?thesis using all a(3) lt conn'
        by (auto simp: finish_server_def ps2_def err_codes port_text_def Some hst_def intro!: server_setI)
    qed
  qed
qed

lemma many_servers:
  assumes "ready (2 * length ss + k) h" and "ps_ok (length pre) ps" and "read_host ps" and "curr_len ps = 0"
    and "list_all server_ok ss" and "ss \<noteq> []" and "txt = pre @ print_servers ss @ rest" and "length txt \<le> text_bound + 1"
  shows "\<exists>rc conn' h'. c_bind (parse_chars al txt h ps (print_servers ss)) (\<lambda>(rc, ps, h).
        if rc \<noteq> 0 then Inr (rc, ps_conn ps, h) else finish_server al h txt ps) = Inr (rc, conn', h') \<and> ready k h' \<and>
    (plenty h \<longrightarrow> rc \<noteq> IC_ERROR_MEM_ALLOC \<and> plenty h') \<and>
    (rc = IC_ERROR_MEM_ALLOC \<or>
     (if num_cs_servers (ps_conn ps) + length ss \<le> 4 then rc = 0 \<and> servers_set (ps_conn ps) ss conn'
      else rc = IC_ERROR_TOO_MANY_CS_HOSTS))"
  using assms
proof (induction ss arbitrary: h ps pre rule: print_servers.induct)
  case 1
  then show ?case by simp
next
  case (2 s)
  have "num_cs_servers (ps_conn ps) \<le> 4" using "2.prems"(2) by (simp add: ps_ok_def conn_ok_def)
  with one_server [of k h ps s "txt" pre rest] 2 show ?case
    by (auto simp: ps_ok_def numeral_2_eq_2 split: if_splits)
next
  case (3 s t ss)
  let ?c = "CHR '',''" and ?b = "length pre + length (print_server s)"
  let ?k = "2 * length (t # ss) + k"
  have rest: "txt = pre @ print_server s @ (?c # print_servers (t # ss) @ rest)" using "3.prems"(7) by simp
  have ok: "conn_ok (ps_conn ps)" "start_ptr ps = length pre" "\<not> read_port ps"
    using "3.prems"(2-4) by (auto simp: ps_ok_def)
  have rdy: "ready (Suc (Suc ?k)) h" using "3.prems"(1) by (simp add: numeral_2_eq_2)
  from one_server [OF rdy ok(1) "3.prems"(3) ok(3) _ rest ok(2) "3.prems"(4,8)] "3.prems"(5)
  obtain rc c1 h1 where one: "c_bind (parse_chars al txt h ps (print_server s)) (\<lambda>(rc, ps, h).
        if rc \<noteq> 0 then Inr (rc, ps_conn ps, h) else finish_server al h txt ps) = Inr (rc, c1, h1)"
      "ready ?k h1" "plenty h \<longrightarrow> rc \<noteq> IC_ERROR_MEM_ALLOC \<and> plenty h1"
      "if num_cs_servers (ps_conn ps) = 4 then rc = IC_ERROR_TOO_MANY_CS_HOSTS
     else rc = IC_ERROR_MEM_ALLOC \<or> rc = 0 \<and> server_set (ps_conn ps) s c1"
    by (auto simp del: One_nat_def)
  from one(1) obtain rc1 ps1 h0 where p1: "parse_chars al txt h ps (print_server s) = Inr (rc1, ps1, h0)"
    "rc1 = 0 \<longrightarrow> finish_server al h0 txt ps1 = Inr (rc, c1, h1)" "rc1 \<noteq> 0 \<longrightarrow> rc = rc1 \<and> c1 = ps_conn ps1 \<and> h1 = h0"
    by (auto simp: cfault split: if_splits)
  have all: "parse_chars al txt h ps (print_servers (s # t # ss)) =
    (if rc1 \<noteq> 0 then Inr (rc1, ps1, h0) else c_bind (parse_char al h0 txt ps1 ?c) (\<lambda>(rc, ps, h).
       if rc \<noteq> 0 then Inr (rc, ps, h) else parse_chars al txt h ps (print_servers (t # ss))))"
    using p1(1) by (simp add: parse_chars_append)
  have comma: "parse_char al h0 txt ps1 ?c = (if rc \<noteq> 0 then Inr (rc, ps1\<lparr>ps_conn := c1\<rparr>, h1)
      else Inr (0, ps1\<lparr>ps_conn := c1, read_host := True, read_port := False,
                       start_ptr := start_ptr ps1 + curr_len ps1 + 1, curr_len := 0\<rparr>, h1))" if "rc1 = 0"
    using p1(2) that by (simp add: parse_char_def)
  show ?case
  proof (cases "rc = 0")
    case False
    have "num_cs_servers (ps_conn ps) \<noteq> 4 \<longrightarrow> rc = IC_ERROR_MEM_ALLOC"
      "num_cs_servers (ps_conn ps) = 4 \<longrightarrow> rc = IC_ERROR_TOO_MANY_CS_HOSTS" using one(4) False by auto
    then show ?thesis using False all comma p1(3) one(3) ready_mono [of k "2 * length (t # ss)" h1] one(2)
      by (cases "rc1 = 0") (auto simp: add.commute)
  next
    case True
    then have rc1: "rc1 = 0" using p1(3) by (cases "rc1 = 0") auto
    have n4: "num_cs_servers (ps_conn ps) < 4" "server_set (ps_conn ps) s c1"
      using one(4) True ok(1) by (auto simp: err_codes conn_ok_def split: if_splits)
    note c1 = server_set_parts [OF n4(2) ok(1) n4(1)]
    define ps2 where "ps2 = ps1\<lparr>ps_conn := c1, read_host := True, read_port := False,
                       start_ptr := start_ptr ps1 + curr_len ps1 + 1, curr_len := 0\<rparr>"
    have "start_ptr ps1 + curr_len ps1 = ?b" using parse_chars_move p1(1) rc1 ok(2) "3.prems"(4) by fastforce
    then have ps2: "ps_ok (length (pre @ print_server s @ [?c])) ps2" "read_host ps2" "curr_len ps2 = 0" "ps_conn ps2 = c1"
      using c1(1) by (simp_all add: ps2_def ps_ok_def)
    from "3.IH" [OF one(2) ps2(1-3)] "3.prems"(5,7,8) obtain rc2 conn' h2 where
      r: "c_bind (parse_chars al txt h1 ps2 (print_servers (t # ss))) (\<lambda>(rc, ps, h).
        if rc \<noteq> 0 then Inr (rc, ps_conn ps, h) else finish_server al h txt ps) = Inr (rc2, conn', h2)" "ready k h2"
      "plenty h1 \<longrightarrow> rc2 \<noteq> IC_ERROR_MEM_ALLOC \<and> plenty h2"
      "rc2 = IC_ERROR_MEM_ALLOC \<or>
     (if num_cs_servers c1 + length (t # ss) \<le> 4 then rc2 = 0 \<and> servers_set c1 (t # ss) conn'
      else rc2 = IC_ERROR_TOO_MANY_CS_HOSTS)" unfolding ps2(4) by auto
    have "parse_chars al txt h ps (print_servers (s # t # ss)) = parse_chars al txt h1 ps2 (print_servers (t # ss))"
      using all comma [OF rc1] True rc1 by (simp add: ps2_def)
    moreover have "num_cs_servers (ps_conn ps) + length (s # t # ss) = num_cs_servers c1 + length (t # ss)" using c1(2) by simp
    moreover have "servers_set c1 (t # ss) conn' \<Longrightarrow> servers_set (ps_conn ps) (s # t # ss) conn'"
      using n4(2) by auto
    ultimately show ?thesis using r one(3) by (intro exI [of _ rc2] exI [of _ conn'] exI [of _ h2]) (auto simp del: servers_set.simps split: if_splits)
  qed
qed

lemma parse_servers_ok:
  assumes "ready (Suc (length cs) + k) h" and "NULL_BYTE \<notin> set cs" and "length cs \<le> text_bound" and "conn_ok conn"
  shows "\<exists>rc conn' h'. parse_servers al h (cs @ [NULL_BYTE]) conn = Inr (rc, conn', h') \<and> ready k h' \<and> (rc = 0 \<longrightarrow> conn_ok conn')"
proof -
  let ?t = "cs @ [NULL_BYTE]"
  define ps where "ps = \<lparr>ps_conn = conn\<lparr>num_cs_servers := 0\<rparr>, start_ptr = 0, curr_len = 0, read_host = True, read_port = False\<rparr>"
  have ps: "ps_ok 0 ps" "conn_ok (ps_conn ps)" using assms(4) by (auto simp: ps_def ps_ok_def conn_ok_def)
  have sl: "c_strlen ?t = Inr (length cs)" using strlen_at [OF assms(2)] by simp
  show ?thesis
  proof (cases "cs = []")
    case True
    then have "parse_loop al h ?t (length cs) 0 ps = Inr (IC_ERROR_PARSE_CONNECTSTRING, ps\<lparr>curr_len := 1\<rparr>, h)"
      by (simp add: parse_loop.simps parse_char_def NULL_not_host ps_def err_codes)
    then show ?thesis using sl ps(2) True ready_mono [of k "Suc 0" h] assms(1)
      by (simp add: parse_servers_def ps_def [symmetric] err_codes)
  next
    case False
    then have loop: "parse_loop al h ?t (length cs) 0 ps = parse_chars al ?t h ps cs" by (simp add: parse_loop_chars)
    from parse_chars_ok [of cs "Suc k" h 0 ps ?t] assms(1,3) ps(1) obtain rc ps' h' where
      p: "parse_chars al ?t h ps cs = Inr (rc, ps', h')" "ready (Suc k) h'" "rc = 0 \<longrightarrow> ps_ok (length cs) ps'" by auto
    show ?thesis
    proof (cases "rc = 0")
      case True
      from finish_server_ok [OF p(2), of "length cs" ps' ?t] p(3) True assms(3) show ?thesis
        using sl loop p(1) by (auto simp: parse_servers_def ps_def [symmetric])
    next
      case False
      then show ?thesis using sl loop p ready_less by (auto simp: parse_servers_def ps_def [symmetric])
    qed
  qed
qed

lemma parse_servers_print:
  assumes "ready (2 * length ss + k) h" and "list_all server_ok ss" and "ss \<noteq> []"
    and "length (print_servers ss) \<le> text_bound" and "conn_ok conn"
  shows "\<exists>rc conn' h'. parse_servers al h (print_servers ss @ [NULL_BYTE]) conn = Inr (rc, conn', h') \<and> ready k h' \<and>
    (plenty h \<longrightarrow> rc \<noteq> IC_ERROR_MEM_ALLOC) \<and>
    (rc = IC_ERROR_MEM_ALLOC \<or>
     (if length ss \<le> 4 then rc = 0 \<and> servers_set (conn\<lparr>num_cs_servers := 0\<rparr>) ss conn' else rc = IC_ERROR_TOO_MANY_CS_HOSTS))"
proof -
  let ?t = "print_servers ss @ [NULL_BYTE]"
  define ps where "ps = \<lparr>ps_conn = conn\<lparr>num_cs_servers := 0\<rparr>, start_ptr = 0, curr_len = 0, read_host = True, read_port = False\<rparr>"
  have ps: "ps_ok (length []) ps" "read_host ps" "curr_len ps = 0" "num_cs_servers (ps_conn ps) = 0"
    "ps_conn ps = conn\<lparr>num_cs_servers := 0\<rparr>"
    using assms(5) by (auto simp: ps_def ps_ok_def conn_ok_def)
  have sl: "c_strlen ?t = Inr (length (print_servers ss))"
    using strlen_at [OF print_servers_no_null [OF assms(2)]] by simp
  have "print_servers ss \<noteq> []" using assms(2,3)
    by (cases ss rule: print_servers.cases) (auto simp: print_server_def server_ok_def)
  then have loop: "parse_loop al h ?t (length (print_servers ss)) 0 ps = parse_chars al ?t h ps (print_servers ss)"
    by (simp add: parse_loop_chars)
  have eq: "parse_servers al h ?t conn = c_bind (parse_chars al ?t h ps (print_servers ss)) (\<lambda>(rc, ps, h).
        if rc \<noteq> 0 then Inr (rc, ps_conn ps, h) else finish_server al h ?t ps)"
    using sl loop by (simp add: parse_servers_def ps_def [symmetric])
  have t: "?t = [] @ print_servers ss @ [NULL_BYTE]" "length ?t \<le> text_bound + 1" using assms(4) by simp_all
  have n: "num_cs_servers (ps_conn ps) + length ss = length ss" using ps(4) by simp
  from many_servers [OF assms(1) ps(1-3) assms(2,3) t] show ?thesis
    unfolding eq n unfolding ps(5) by blast
qed

end

section \<open>The container around the parser\<close>

lemma create_none:
  assumes "mem_ok m" and "ic_create_memory_container as m 1024 0 False = Inr (None, m', as')"
  shows "m' = m \<and> as \<noteq> []"
  using assms(2)
  by (cases as) (auto simp: ic_create_memory_container_def ic_calloc_mc_def Let_def cfault alloc_next_def split: if_splits list.splits)

lemma create_returns: "\<exists>r m' as'. ic_create_memory_container as m 1024 0 False = Inr (r, m', as')"
  by (auto simp: ic_create_memory_container_def ic_calloc_mc_def Let_def alloc_next_def MC_MIN_BASE_SIZE_def ic_align_def
      mc_get_base_buf_size_def split: list.splits)

lemma create_plenty:
  "ic_create_memory_container [] m 1024 0 False = Inr (Some mc, m', as') \<Longrightarrow> mc_plenty (mc, m', as')"
  by (auto simp: ic_create_memory_container_def ic_calloc_mc_def Let_def alloc_next_def MC_MIN_BASE_SIZE_def ic_align_def
      mc_get_base_buf_size_def mc_plenty_def cfault)

lemma calloc_step:
  assumes "mc_inv fr (Suc k) (mc, m, as) rs"
  shows "\<exists>p mc' m' as' rs'. mc_calloc as mc m 32 = Inr (p, mc', m', as') \<and> mc_inv fr k (mc', m', as') rs' \<and>
    (mc_plenty (mc, m, as) \<longrightarrow> p \<noteq> None \<and> mc_plenty (mc', m', as'))"
proof -
  have "unat (32 :: guint32) \<le> 4294967288" by simp
  from mcz.alloc_law [OF assms this] obtain p s' where
    op: "mc_calloc_op (mc, m, as) 32 = Inr (p, s')" "\<exists>rs'. mc_inv fr k s' rs'" by blast
  obtain mc' m' as' where s': "s' = (mc', m', as')" by (cases s')
  have c: "mc_calloc as mc m 32 = Inr (p, mc', m', as')" "\<exists>rs'. mc_inv fr k (mc', m', as') rs'"
    using op by (auto simp: mc_calloc_op_def s' cfault)
  have "p \<noteq> None \<and> mc_plenty (mc', m', as')" if "mc_plenty (mc, m, as)"
    using c(1) that mc_alloc_plenty [of mc m 32] by (fastforce simp: mc_calloc_def mc_plenty_def cfault split: option.splits)
  with c show ?thesis by blast
qed

text \<open>The two ways \<^verbatim>\<open>ic_parse_connectstring\<close> gets to its parser: short of memory, or with a container.\<close>

lemma connect_cases:
  assumes "mem_ok m"
  obtains (short) conn m' as' where "ic_parse_connectstring as m cs nm port = Inr (IC_ERROR_MEM_ALLOC, conn, None, m', as')"
      "blocks m' = blocks m" "as \<noteq> []"
  | (go) mc m1 as1 rs conn where "mc_inv (blocks m) 249999998 (mc, m1, as1) rs" "as = [] \<longrightarrow> mc_plenty (mc, m1, as1)"
      "conn_ok conn" "num_cs_servers conn = 0"
      "ic_parse_connectstring as m cs nm port = (case cs of
         None \<Rightarrow> Inr (0, \<lparr>cs_hosts = (cs_hosts conn)[0 := Some nm], cs_ports = (cs_ports conn)[0 := Some port],
                   num_cs_servers = 1\<rparr>, Some mc, m1, as1)
       | Some tx \<Rightarrow> c_bind (parse_servers mc_gchar_alloc (mc, m1, as1) tx conn) (\<lambda>(rc, conn, (mc, m, as)).
                   if rc \<noteq> 0 then c_bind (mc_free mc m) (\<lambda>m. Inr (rc, conn, None, m, as)) else Inr (0, conn, Some mc, m, as)))"
proof -
  obtain r m1 as1 where c: "ic_create_memory_container as m 1024 0 False = Inr (r, m1, as1)" using create_returns by blast
  show thesis
  proof (cases r)
    case None
    then show thesis using short c create_none [OF assms] by (fastforce simp: ic_parse_connectstring_def Let_def)
  next
    case (Some mc)
    have inv: "mc_inv (blocks m) (Suc (Suc 249999998)) (mc, m1, as1) []" using create_ok [OF assms _ _ c [unfolded Some]] by simp
    have pl: "as = [] \<longrightarrow> mc_plenty (mc, m1, as1)" using c Some create_plenty by blast
    from calloc_step [OF inv] obtain p2 mc2 m2 as2 rs2 where s2: "mc_calloc as1 mc m1 32 = Inr (p2, mc2, m2, as2)"
      "mc_inv (blocks m) (Suc 249999998) (mc2, m2, as2) rs2" "as = [] \<longrightarrow> p2 \<noteq> None \<and> mc_plenty (mc2, m2, as2)" using pl by blast
    from calloc_step [OF s2(2)] obtain p3 mc3 m3 as3 rs3 where s3: "mc_calloc as2 mc2 m2 32 = Inr (p3, mc3, m3, as3)"
      "mc_inv (blocks m) 249999998 (mc3, m3, as3) rs3" "as = [] \<longrightarrow> p3 \<noteq> None \<and> mc_plenty (mc3, m3, as3)" using s2(3) by blast
    obtain f2 where f2: "mc_free mc2 m2 = Inr f2" "blocks f2 = blocks m" using mc_free_inv [OF s2(2)] by blast
    obtain f3 where f3: "mc_free mc3 m3 = Inr f3" "blocks f3 = blocks m" using mc_free_inv [OF s3(2)] by blast
    note d = ic_parse_connectstring_def Let_def IC_MAX_CLUSTER_SERVERS_def
    show thesis
    proof (cases "p2 = None \<or> p3 = None")
      case True
      then show thesis
        using short [of _ "if p2 = None then f2 else f3" "if p2 = None then as2 else as3"] c Some s2 s3 f2 f3
        by (cases "p2 = None") (auto simp: d)
    next
      case False
      then show thesis
        using go [OF s3(2), of "\<lparr>cs_hosts = replicate 4 None, cs_ports = replicate 4 None, num_cs_servers = 0\<rparr>"] c Some s2(1) s3(1,3)
        by (auto simp: d conn_ok_def)
    qed
  qed
qed

section \<open>Properties\<close>

text \<open>
  C18. A connect string of any contents (up to \<open>text_bound\<close> characters) is parsed without a fault,
  whatever the outcomes of the allocations: the parser copies only bytes of the string and writes only
  slots of its arrays. After an error the container is freed and the heap has the blocks it had
  before; after success the container is alive and at most four servers are listed.
\<close>

theorem parse_connectstring_safe:
  assumes "mem_ok m" and "NULL_BYTE \<notin> set cs" and "length cs \<le> text_bound"
  shows "\<exists>rc conn mo m' as'.
    ic_parse_connectstring as m (Some (cs @ [NULL_BYTE])) nm port = Inr (rc, conn, mo, m', as') \<and>
    (if rc = 0 then num_cs_servers conn \<le> IC_MAX_CLUSTER_SERVERS \<and> (\<exists>mc rs. mo = Some mc \<and> mc_inv (blocks m) 1 (mc, m', as') rs)
     else mo = None \<and> blocks m' = blocks m)"
proof (rule connect_cases [OF assms(1), of as "Some (cs @ [NULL_BYTE])" nm port], goal_cases short go)
  case (short conn m' as')
  then show ?case by (auto simp: err_codes)
next
  case (go mc m1 as1 rs conn)
  have "mc_ready (blocks m) (Suc (length cs) + 1 + (249999996 - length cs)) (mc, m1, as1)"
    using go(1) assms(3) by (auto simp: mc_ready_def text_bound_def)
  then have "mc_ready (blocks m) (Suc (length cs) + 1) (mc, m1, as1)" by (rule mcs.ready_mono)
  from mcs.parse_servers_ok [OF this assms(2,3) go(3)] obtain rc conn' mc' m' as' where
    p: "parse_servers mc_gchar_alloc (mc, m1, as1) (cs @ [NULL_BYTE]) conn = Inr (rc, conn', mc', m', as')"
      "mc_ready (blocks m) 1 (mc', m', as')" "rc = 0 \<longrightarrow> conn_ok conn'" by auto
  from p(2) obtain rs' where i: "mc_inv (blocks m) 1 (mc', m', as') rs'" by (auto simp: mc_ready_def)
  obtain f where "mc_free mc' m' = Inr f" "blocks f = blocks m" using mc_free_inv [OF i] by blast
  then show ?case using go(5) p i by (auto simp: conn_ok_def IC_MAX_CLUSTER_SERVERS_def)
qed

theorem parse_connectstring_safe_witness:
  "\<exists>rc conn mo m' as'.
    ic_parse_connectstring [True, True, True, True, False] \<lparr>blocks = (\<lambda>_. None), next_id = 0\<rparr> (Some (''host::1,'' @ [NULL_BYTE])) (0, []) (0, [])
      = Inr (rc, conn, mo, m', as') \<and>
    (if rc = 0 then num_cs_servers conn \<le> IC_MAX_CLUSTER_SERVERS \<and> (\<exists>mc rs. mo = Some mc \<and> mc_inv (\<lambda>_. None) 1 (mc, m', as') rs)
     else mo = None \<and> blocks m' = (\<lambda>_. None))"
proof -
  have p: "mem_ok \<lparr>blocks = (\<lambda>_. None), next_id = 0\<rparr>" "NULL_BYTE \<notin> set ''host::1,''" "length ''host::1,'' \<le> text_bound"
    by (simp_all add: mem_ok_def text_bound_def NULL_BYTE_def)
  show ?thesis
    using parse_connectstring_safe [OF p, of "[True, True, True, True, False]" "(0, [])" "(0, [])"]
    by (simp only: mem.select_convs)
qed

text \<open>
  C16. The parser inverts printing. The text of a list of servers, each a host name with or without a
  port, joined by commas, is parsed to exactly these hosts and ports, the default port standing for a
  missing one, when there are at most four servers and the allocations succeed. Five or more servers
  are refused with \<open>IC_ERROR_TOO_MANY_CS_HOSTS\<close>; when an allocation fails the code is
  \<open>IC_ERROR_MEM_ALLOC\<close>.
\<close>

theorem parse_connectstring_print:
  assumes "mem_ok m" and "ss \<noteq> []" and "list_all server_ok ss" and "length (print_servers ss) \<le> text_bound" and "length ss \<le> 1000000"
  shows "\<exists>rc conn mo m' as'.
    ic_parse_connectstring as m (Some (print_servers ss @ [NULL_BYTE])) nm port = Inr (rc, conn, mo, m', as') \<and>
    (as = [] \<longrightarrow> rc \<noteq> IC_ERROR_MEM_ALLOC) \<and>
    (rc = IC_ERROR_MEM_ALLOC \<or>
     (if length ss \<le> 4
      then rc = 0 \<and> num_cs_servers conn = length ss \<and>
        parts (cs_hosts conn) (length ss) = map (\<lambda>s. Some (fst s)) ss \<and>
        parts (cs_ports conn) (length ss) = map (\<lambda>s. Some (port_text s)) ss
      else rc = IC_ERROR_TOO_MANY_CS_HOSTS))"
proof (rule connect_cases [OF assms(1), of as "Some (print_servers ss @ [NULL_BYTE])" nm port], goal_cases short go)
  case (short conn m' as')
  then show ?case by auto
next
  case (go mc m1 as1 rs conn)
  have "mc_ready (blocks m) (2 * length ss + 1 + (249999997 - 2 * length ss)) (mc, m1, as1)"
    using go(1) assms(5) by (auto simp: mc_ready_def)
  then have "mc_ready (blocks m) (2 * length ss + 1) (mc, m1, as1)" by (rule mcs.ready_mono)
  from mcs.parse_servers_print [OF this assms(3,2,4) go(3)] obtain rc conn' mc' m' as' where
    p: "parse_servers mc_gchar_alloc (mc, m1, as1) (print_servers ss @ [NULL_BYTE]) conn = Inr (rc, conn', mc', m', as')"
      "mc_ready (blocks m) 1 (mc', m', as')" "mc_plenty (mc, m1, as1) \<longrightarrow> rc \<noteq> IC_ERROR_MEM_ALLOC"
      "rc = IC_ERROR_MEM_ALLOC \<or>
     (if length ss \<le> 4 then rc = 0 \<and> servers_set (conn\<lparr>num_cs_servers := 0\<rparr>) ss conn' else rc = IC_ERROR_TOO_MANY_CS_HOSTS)" by auto
  from p(2) obtain rs' where i: "mc_inv (blocks m) 1 (mc', m', as') rs'" by (auto simp: mc_ready_def)
  obtain f where f: "mc_free mc' m' = Inr f" using mc_free_inv [OF i] by blast
  have "num_cs_servers conn' = length ss \<and> parts (cs_hosts conn') (length ss) = map (\<lambda>s. Some (fst s)) ss \<and>
        parts (cs_ports conn') (length ss) = map (\<lambda>s. Some (port_text s)) ss"
    if "servers_set (conn\<lparr>num_cs_servers := 0\<rparr>) ss conn'" "length ss \<le> 4"
    using servers_set_parts [OF that(1)] that(2) go(3) by (auto simp: conn_ok_def parts_def)
  then show ?case using go(2,5) p(1,3,4) f by (cases "rc = 0") (auto simp: err_codes split: if_splits)
qed

theorem parse_connectstring_print_witness:
  "\<exists>rc conn mo m' as'.
    ic_parse_connectstring [] \<lparr>blocks = (\<lambda>_. None), next_id = 0\<rparr> (Some (''a.b:1187,c'' @ [NULL_BYTE])) (0, []) (0, []) = Inr (rc, conn, mo, m', as') \<and>
    rc = 0 \<and> num_cs_servers conn = 2 \<and> parts (cs_hosts conn) 2 = [Some ''a.b'', Some ''c''] \<and>
    parts (cs_ports conn) 2 = [Some ''1187'', Some ''1186'']"
proof -
  define ss :: "server list" where "ss = [(''a.b'', Some ''1187''), (''c'', None)]"
  have "list_all server_ok ss" "print_servers ss = ''a.b:1187,c''" "ss \<noteq> []"
    by (simp_all add: ss_def server_ok_def print_server_def host_char_def port_char_def)
  moreover have "mem_ok \<lparr>blocks = (\<lambda>_. None), next_id = 0\<rparr>" by (simp add: mem_ok_def)
  ultimately show ?thesis
    using parse_connectstring_print [of "\<lparr>blocks = (\<lambda>_. None), next_id = 0\<rparr>" ss "[]" "(0, [])" "(0, [])"]
    by (force simp: ss_def text_bound_def port_text_def numeral_2_eq_2)
qed

end
