(* ===== verification/IC_Dyn_Array.thy ===== *)
theory IC_Dyn_Array
  imports Prelude
begin

text \<open>
  \<^verbatim>\<open>src/util/ic_dyn_array.c\<close>: the dynamic arrays. A simple array is a linked list of buffers of
  1024 bytes; an ordered array has a tree of index nodes with 128 children each on top of that list; a
  pointer array keeps pointers in an ordered array.

  The heap maps addresses to buffers and index nodes, so that a dangling pointer and a pointer of
  the wrong type are faults (\<open>UseAfterFree\<close>). The array structures themselves are passed by value;
  \<open>structs\<close> counts the live ones. The error injection of the debug build is one more reason for an
  allocation to fail and is part of the allocation outcomes. Sizes and positions inside the array
  are natural numbers; where a caller's 64-bit values are added the addition wraps.
\<close>

section \<open>Structures and heap\<close>

definition SIMPLE_DYNAMIC_ARRAY_BUF_SIZE :: nat where "SIMPLE_DYNAMIC_ARRAY_BUF_SIZE = 1024"
definition LOG_SIMPLE_DYNAMIC_ARRAY_BUF_SIZE :: nat where "LOG_SIMPLE_DYNAMIC_ARRAY_BUF_SIZE = 10"
definition ORDERED_DYNAMIC_INDEX_SIZE :: nat where "ORDERED_DYNAMIC_INDEX_SIZE = 128"
definition LOG_ORDERED_DYNAMIC_INDEX_SIZE :: nat where "LOG_ORDERED_DYNAMIC_INDEX_SIZE = 7"

lemmas dyn_sizes = SIMPLE_DYNAMIC_ARRAY_BUF_SIZE_def LOG_SIMPLE_DYNAMIC_ARRAY_BUF_SIZE_def
  ORDERED_DYNAMIC_INDEX_SIZE_def LOG_ORDERED_DYNAMIC_INDEX_SIZE_def

record ic_simple_dynamic_buf =
  next_dyn_buf :: "nat option"
  buf :: "guint8 list"

record ic_dynamic_array_index =
  next_dyn_index :: "nat option"
  parent_dyn_index :: "nat option"
  next_index_to_insert :: nat
  old_next_index_to_insert :: nat
  child_ptrs :: "nat option list"

record ic_dynamic_array_int =
  first_dyn_buf :: nat
  last_dyn_buf :: nat
  bytes_used :: nat
  top_dyn_index :: nat
  first_dyn_index :: nat
  last_dyn_index :: nat
  index_levels :: nat
  total_size_in_bytes :: nat

record dheap =
  bufs :: "nat \<Rightarrow> ic_simple_dynamic_buf option"
  idxs :: "nat \<Rightarrow> ic_dynamic_array_index option"
  fresh :: nat
  structs :: nat

definition empty_buf :: ic_simple_dynamic_buf where
  "empty_buf = \<lparr>next_dyn_buf = None, buf = replicate SIMPLE_DYNAMIC_ARRAY_BUF_SIZE 0\<rparr>"

definition empty_index :: ic_dynamic_array_index where
  "empty_index = \<lparr>next_dyn_index = None, parent_dyn_index = None, next_index_to_insert = 0,
     old_next_index_to_insert = 0, child_ptrs = replicate ORDERED_DYNAMIC_INDEX_SIZE None\<rparr>"

text \<open>\<^verbatim>\<open>ic_calloc\<close> and \<^verbatim>\<open>ic_free\<close> on the three kinds of objects, and the access through pointers.\<close>

definition calloc_buf :: "allocs \<Rightarrow> dheap \<Rightarrow> nat option \<times> dheap \<times> allocs" where
  "calloc_buf as h = (case alloc_next as of (ok, as) \<Rightarrow>
     if ok then (Some (fresh h), h\<lparr>bufs := (bufs h)(fresh h \<mapsto> empty_buf), fresh := Suc (fresh h)\<rparr>, as) else (None, h, as))"

definition calloc_idx :: "allocs \<Rightarrow> dheap \<Rightarrow> nat option \<times> dheap \<times> allocs" where
  "calloc_idx as h = (case alloc_next as of (ok, as) \<Rightarrow>
     if ok then (Some (fresh h), h\<lparr>idxs := (idxs h)(fresh h \<mapsto> empty_index), fresh := Suc (fresh h)\<rparr>, as) else (None, h, as))"

definition calloc_struct :: "allocs \<Rightarrow> dheap \<Rightarrow> bool \<times> dheap \<times> allocs" where
  "calloc_struct as h = (case alloc_next as of (ok, as) \<Rightarrow>
     if ok then (True, h\<lparr>structs := Suc (structs h)\<rparr>, as) else (False, h, as))"

definition free_buf :: "dheap \<Rightarrow> nat \<Rightarrow> fault + dheap" where
  "free_buf h p = (if p < fresh h \<and> bufs h p \<noteq> None then Inr (h\<lparr>bufs := (bufs h)(p := None)\<rparr>) else Inl InvalidFree)"

definition free_idx :: "dheap \<Rightarrow> nat \<Rightarrow> fault + dheap" where
  "free_idx h p = (if p < fresh h \<and> idxs h p \<noteq> None then Inr (h\<lparr>idxs := (idxs h)(p := None)\<rparr>) else Inl InvalidFree)"

definition free_struct :: "dheap \<Rightarrow> fault + dheap" where
  "free_struct h = (if structs h = 0 then Inl InvalidFree else Inr (h\<lparr>structs := structs h - 1\<rparr>))"

definition get_buf :: "dheap \<Rightarrow> nat \<Rightarrow> fault + ic_simple_dynamic_buf" where
  "get_buf h p = (case bufs h p of None \<Rightarrow> Inl UseAfterFree | Some b \<Rightarrow> Inr b)"

definition get_idx :: "dheap \<Rightarrow> nat \<Rightarrow> fault + ic_dynamic_array_index" where
  "get_idx h p = (case idxs h p of None \<Rightarrow> Inl UseAfterFree | Some x \<Rightarrow> Inr x)"

definition upd_buf :: "dheap \<Rightarrow> nat \<Rightarrow> (ic_simple_dynamic_buf \<Rightarrow> ic_simple_dynamic_buf) \<Rightarrow> fault + dheap" where
  "upd_buf h p f = c_bind (get_buf h p) (\<lambda>b. Inr (h\<lparr>bufs := (bufs h)(p \<mapsto> f b)\<rparr>))"

definition upd_idx :: "dheap \<Rightarrow> nat \<Rightarrow> (ic_dynamic_array_index \<Rightarrow> ic_dynamic_array_index) \<Rightarrow> fault + dheap" where
  "upd_idx h p f = c_bind (get_idx h p) (\<lambda>x. Inr (h\<lparr>idxs := (idxs h)(p \<mapsto> f x)\<rparr>))"

definition deref :: "nat option \<Rightarrow> fault + nat" where
  "deref p = (case p of None \<Rightarrow> Inl NullDeref | Some a \<Rightarrow> Inr a)"

section \<open>Release loops\<close>

text \<open>Each iteration frees a live object, so that the loops end on every heap.\<close>

definition live_bufs :: "dheap \<Rightarrow> nat set" where
  "live_bufs h = {p. p < fresh h \<and> bufs h p \<noteq> None}"

definition live_idxs :: "dheap \<Rightarrow> nat set" where
  "live_idxs h = {p. p < fresh h \<and> idxs h p \<noteq> None}"

function release_dyn_buf :: "dheap \<Rightarrow> nat option \<Rightarrow> fault + dheap" where
  "release_dyn_buf h loop_dyn_buf = (case loop_dyn_buf of
       None \<Rightarrow> Inr h
     | Some free_dyn_buf \<Rightarrow>
         c_bind (get_buf h free_dyn_buf) (\<lambda>b.
         c_bind (free_buf h free_dyn_buf) (\<lambda>h. release_dyn_buf h (next_dyn_buf b))))"
  by pat_completeness auto

termination release_dyn_buf
proof (relation "measure (\<lambda>(h, p). card (live_bufs h))", goal_cases)
  case (2 h q p b h')
  then have "live_bufs h' = live_bufs h - {p}" "p \<in> live_bufs h" "finite (live_bufs h)"
    by (auto simp: free_buf_def live_bufs_def split: if_splits)
  then show ?case using card_Diff1_less by fastforce
qed simp

function release_dyn_index :: "dheap \<Rightarrow> nat option \<Rightarrow> fault + dheap" where
  "release_dyn_index h dyn_index = (case dyn_index of
       None \<Rightarrow> Inr h
     | Some p \<Rightarrow>
         c_bind (get_idx h p) (\<lambda>x.
         c_bind (free_idx h p) (\<lambda>h. release_dyn_index h (next_dyn_index x))))"
  by pat_completeness auto

termination release_dyn_index
proof (relation "measure (\<lambda>(h, p). card (live_idxs h))", goal_cases)
  case (2 h q p x h')
  then have "live_idxs h' = live_idxs h - {p}" "p \<in> live_idxs h" "finite (live_idxs h)"
    by (auto simp: free_idx_def live_idxs_def split: if_splits)
  then show ?case using card_Diff1_less by fastforce
qed simp

declare release_dyn_buf.simps [simp del] release_dyn_index.simps [simp del]

section \<open>Simple dynamic arrays\<close>

text \<open>
  The loop of \<^verbatim>\<open>insert_simple_dynamic_array\<close>: \<open>cur\<close> is the buffer written to, \<open>pos\<close> the position in
  it and \<open>bs\<close> the bytes still to be copied. The result is the last buffer with the bytes used in
  it, or nothing when an allocation failed.
\<close>

function insert_simple_loop ::
  "allocs \<Rightarrow> dheap \<Rightarrow> nat \<Rightarrow> nat \<Rightarrow> guint8 list \<Rightarrow> fault + ((nat \<times> nat) option \<times> dheap \<times> allocs)"
where
  "insert_simple_loop as h cur pos bs =
     (let room = SIMPLE_DYNAMIC_ARRAY_BUF_SIZE - pos in
      if length bs > room
      then c_bind (get_buf h cur) (\<lambda>b. c_bind (wr_blk (buf b) pos (take room bs)) (\<lambda>d.
           c_bind (upd_buf h cur (\<lambda>b. b\<lparr>buf := d\<rparr>)) (\<lambda>h.
             case calloc_buf as h of
               (None, h, as) \<Rightarrow> Inr (None, h, as)
             | (Some n, h, as) \<Rightarrow> c_bind (upd_buf h cur (\<lambda>b. b\<lparr>next_dyn_buf := Some n\<rparr>)) (\<lambda>h.
                 insert_simple_loop as h n 0 (drop room bs)))))
      else c_bind (get_buf h cur) (\<lambda>b. c_bind (wr_blk (buf b) pos bs) (\<lambda>d.
           c_bind (upd_buf h cur (\<lambda>b. b\<lparr>buf := d\<rparr>)) (\<lambda>h. Inr (Some (cur, pos + length bs), h, as)))))"
  by pat_completeness auto

termination insert_simple_loop
  by (relation "measures [\<lambda>(as, h, c, pos, bs). length bs, \<lambda>(as, h, c, pos, bs). pos]")
    (auto simp: dyn_sizes)

declare insert_simple_loop.simps [simp del]

definition insert_simple_dynamic_array ::
  "allocs \<Rightarrow> dheap \<Rightarrow> ic_dynamic_array_int \<Rightarrow> guint8 list \<Rightarrow> fault + (err \<times> dheap \<times> ic_dynamic_array_int \<times> allocs)"
where
  "insert_simple_dynamic_array as h a bs =
     c_bind (insert_simple_loop as h (last_dyn_buf a) (bytes_used a) bs) (\<lambda>(r, h, as). case r of
         None \<Rightarrow>
           c_bind (get_buf h (last_dyn_buf a)) (\<lambda>b.
           c_bind (release_dyn_buf h (next_dyn_buf b)) (\<lambda>h.
           c_bind (upd_buf h (last_dyn_buf a) (\<lambda>b. b\<lparr>next_dyn_buf := None\<rparr>)) (\<lambda>h.
             Inr (IC_ERROR_MEM_ALLOC, h, a, as))))
       | Some (l, n) \<Rightarrow>
           Inr (0, h, a\<lparr>last_dyn_buf := l, bytes_used := n, total_size_in_bytes := total_size_in_bytes a + length bs\<rparr>, as))"

text \<open>The buffer and the position in it of position \<open>pos\<close>; nothing is the return code 1.\<close>

function find_pos_simple_loop :: "dheap \<Rightarrow> nat \<Rightarrow> nat option \<Rightarrow> nat \<Rightarrow> fault + (nat \<times> nat) option" where
  "find_pos_simple_loop h pos loc_dyn_buf scan_pos = (case loc_dyn_buf of
       None \<Rightarrow> Inr None
     | Some p \<Rightarrow>
         if scan_pos + SIMPLE_DYNAMIC_ARRAY_BUF_SIZE \<le> pos
         then c_bind (get_buf h p) (\<lambda>b. find_pos_simple_loop h pos (next_dyn_buf b) (scan_pos + SIMPLE_DYNAMIC_ARRAY_BUF_SIZE))
         else Inr (Some (p, pos - scan_pos)))"
  by pat_completeness auto

termination find_pos_simple_loop
  by (relation "measure (\<lambda>(h, pos, l, s). pos - s)") (auto simp: dyn_sizes)

declare find_pos_simple_loop.simps [simp del]

definition find_pos_simple_dyn_array :: "dheap \<Rightarrow> ic_dynamic_array_int \<Rightarrow> nat \<Rightarrow> fault + (nat \<times> nat) option" where
  "find_pos_simple_dyn_array h a pos = find_pos_simple_loop h pos (Some (first_dyn_buf a)) 0"

text \<open>The bytes read, or nothing for the return code 1; \<open>size\<close> is what is left to read.\<close>

function read_pos_simple_dynamic_array :: "dheap \<Rightarrow> nat option \<Rightarrow> nat \<Rightarrow> nat \<Rightarrow> fault + guint8 list option" where
  "read_pos_simple_dynamic_array h dyn_buf buf_pos n = (case dyn_buf of
       None \<Rightarrow> Inr None
     | Some p \<Rightarrow> c_bind (get_buf h p) (\<lambda>b.
         let k = min n (SIMPLE_DYNAMIC_ARRAY_BUF_SIZE - buf_pos) in
         c_bind (rd_blk (buf b) buf_pos k) (\<lambda>d.
           if k < n
           then c_bind (read_pos_simple_dynamic_array h (next_dyn_buf b) 0 (n - k)) (\<lambda>r. Inr (map_option (\<lambda>e. d @ e) r))
           else Inr (Some d))))"
  by pat_completeness auto

termination read_pos_simple_dynamic_array
  by (relation "measures [\<lambda>(h, p, i, n). n, \<lambda>(h, p, i, n). i]") (auto simp: dyn_sizes)

function write_pos_simple_dynamic_array :: "dheap \<Rightarrow> nat option \<Rightarrow> nat \<Rightarrow> guint8 list \<Rightarrow> fault + (err \<times> dheap)" where
  "write_pos_simple_dynamic_array h dyn_buf buf_pos bs = (case dyn_buf of
       None \<Rightarrow> Inr (1, h)
     | Some p \<Rightarrow> c_bind (get_buf h p) (\<lambda>b.
         let k = min (length bs) (SIMPLE_DYNAMIC_ARRAY_BUF_SIZE - buf_pos) in
         c_bind (wr_blk (buf b) buf_pos (take k bs)) (\<lambda>d.
         c_bind (upd_buf h p (\<lambda>b. b\<lparr>buf := d\<rparr>)) (\<lambda>h.
           if k < length bs then write_pos_simple_dynamic_array h (next_dyn_buf b) 0 (drop k bs)
           else Inr (0, h)))))"
  by pat_completeness auto

termination write_pos_simple_dynamic_array
  by (relation "measures [\<lambda>(h, p, i, bs). length bs, \<lambda>(h, p, i, bs). i]") (auto simp: dyn_sizes)

declare read_pos_simple_dynamic_array.simps [simp del] write_pos_simple_dynamic_array.simps [simp del]

definition write_simple_dynamic_array ::
  "dheap \<Rightarrow> ic_dynamic_array_int \<Rightarrow> guint64 \<Rightarrow> guint8 list \<Rightarrow> fault + (err \<times> dheap)"
where
  "write_simple_dynamic_array h a position bs =
     c_bind (find_pos_simple_dyn_array h a (unat position)) (\<lambda>r. case r of
         None \<Rightarrow> Inr (1, h)
       | Some (p, i) \<Rightarrow> write_pos_simple_dynamic_array h (Some p) i bs)"

text \<open>Nothing stands for the return code 1; the destination has the size asked for.\<close>

definition read_simple_dynamic_array ::
  "dheap \<Rightarrow> ic_dynamic_array_int \<Rightarrow> guint64 \<Rightarrow> guint64 \<Rightarrow> fault + guint8 list option"
where
  "read_simple_dynamic_array h a pos n =
     (if unat (pos + n) > total_size_in_bytes a then Inr None
      else c_bind (find_pos_simple_dyn_array h a (unat pos)) (\<lambda>r. case r of
          None \<Rightarrow> Inr None
        | Some (p, i) \<Rightarrow> read_pos_simple_dynamic_array h (Some p) i (unat n)))"

text \<open>
  \<open>wr_file\<close> is \<^verbatim>\<open>ic_write_file\<close>, from the state of the file and the bytes to a return code and the new
  state. The loop follows the list of buffers; \<open>k\<close> bounds the number of buffers.
\<close>

fun write_to_disk_loop ::
  "('f \<Rightarrow> guint8 list \<Rightarrow> err \<times> 'f) \<Rightarrow> nat \<Rightarrow> dheap \<Rightarrow> ic_dynamic_array_int \<Rightarrow> nat option \<Rightarrow> 'f \<Rightarrow> fault + (err \<times> 'f)"
where
  "write_to_disk_loop wr_file k h a None f = Inr (0, f)"
| "write_to_disk_loop wr_file 0 h a (Some p) f = Inl Diverges"
| "write_to_disk_loop wr_file (Suc k) h a (Some p) f =
     c_bind (get_buf h p) (\<lambda>b.
     let n = (if p \<noteq> last_dyn_buf a then SIMPLE_DYNAMIC_ARRAY_BUF_SIZE else bytes_used a) in
     c_bind (rd_blk (buf b) 0 n) (\<lambda>d. case wr_file f d of (rc, f) \<Rightarrow>
       if rc \<noteq> 0 then Inr (rc, f)
       else c_assert ((p \<noteq> last_dyn_buf a \<and> next_dyn_buf b \<noteq> None) \<or> (p = last_dyn_buf a \<and> next_dyn_buf b = None))
              (write_to_disk_loop wr_file k h a (next_dyn_buf b) f)))"

definition write_simple_dynamic_array_to_disk ::
  "('f \<Rightarrow> guint8 list \<Rightarrow> err \<times> 'f) \<Rightarrow> dheap \<Rightarrow> ic_dynamic_array_int \<Rightarrow> 'f \<Rightarrow> fault + (err \<times> 'f)"
where
  "write_simple_dynamic_array_to_disk wr_file h a f = write_to_disk_loop wr_file (fresh h) h a (Some (first_dyn_buf a)) f"

definition free_simple_dynamic_array :: "dheap \<Rightarrow> ic_dynamic_array_int \<Rightarrow> fault + dheap" where
  "free_simple_dynamic_array h a = c_bind (release_dyn_buf h (Some (first_dyn_buf a))) free_struct"

definition get_current_size :: "ic_dynamic_array_int \<Rightarrow> nat" where
  "get_current_size a = total_size_in_bytes a"

definition ic_create_simple_dynamic_array ::
  "allocs \<Rightarrow> dheap \<Rightarrow> fault + (ic_dynamic_array_int option \<times> dheap \<times> allocs)"
where
  "ic_create_simple_dynamic_array as h =
     (case calloc_struct as h of (ok, h, as) \<Rightarrow>
        if \<not> ok then Inr (None, h, as)
        else case calloc_buf as h of
            (None, h, as) \<Rightarrow> c_bind (free_struct h) (\<lambda>h. Inr (None, h, as))
          | (Some p, h, as) \<Rightarrow>
              Inr (Some \<lparr>first_dyn_buf = p, last_dyn_buf = p, bytes_used = 0, top_dyn_index = 0, first_dyn_index = 0,
                         last_dyn_index = 0, index_levels = 0, total_size_in_bytes = 0\<rparr>, h, as))"

section \<open>Chains of buffers\<close>

fun bpath :: "dheap \<Rightarrow> nat option \<Rightarrow> nat list \<Rightarrow> nat option \<Rightarrow> bool" where
  "bpath h p [] e \<longleftrightarrow> p = e"
| "bpath h p (q # qs) e \<longleftrightarrow>
     p = Some q \<and> (\<exists>b. bufs h q = Some b \<and> length (buf b) = SIMPLE_DYNAMIC_ARRAY_BUF_SIZE \<and> bpath h (next_dyn_buf b) qs e)"

abbreviation buf_at :: "dheap \<Rightarrow> nat \<Rightarrow> guint8 list" where
  "buf_at h q \<equiv> buf (the (bufs h q))"

definition chain_bytes :: "dheap \<Rightarrow> nat list \<Rightarrow> guint8 list" where
  "chain_bytes h qs = concat (map (buf_at h) qs)"

definition dheap_ok :: "dheap \<Rightarrow> bool" where
  "dheap_ok h \<longleftrightarrow> (\<forall>q \<ge> fresh h. bufs h q = None \<and> idxs h q = None)"

lemma chain_bytes_simps [simp]:
  "chain_bytes h [] = []"
  "chain_bytes h (q # qs) = buf_at h q @ chain_bytes h qs"
  "chain_bytes h (ps @ qs) = chain_bytes h ps @ chain_bytes h qs"
  by (simp_all add: chain_bytes_def)

lemma bpath_append [simp]: "bpath h p (xs @ ys) e \<longleftrightarrow> (\<exists>r. bpath h p xs r \<and> bpath h r ys e)"
  by (induction xs arbitrary: p) auto

lemma bpath_cong:
  "(\<And>q. q \<in> set qs \<Longrightarrow> bufs h' q = bufs h q) \<Longrightarrow> bpath h' p qs e = bpath h p qs e"
  by (induction qs arbitrary: p) auto

lemma chain_bytes_cong: "(\<And>q. q \<in> set qs \<Longrightarrow> bufs h' q = bufs h q) \<Longrightarrow> chain_bytes h' qs = chain_bytes h qs"
  by (auto simp: chain_bytes_def intro!: arg_cong [where f = concat])

lemma bpath_live: "bpath h p qs e \<Longrightarrow> q \<in> set qs \<Longrightarrow> \<exists>b. bufs h q = Some b \<and> length (buf b) = SIMPLE_DYNAMIC_ARRAY_BUF_SIZE"
  by (induction qs arbitrary: p) auto

lemma bpath_below: "bpath h p qs e \<Longrightarrow> dheap_ok h \<Longrightarrow> q \<in> set qs \<Longrightarrow> q < fresh h"
  using bpath_live by (fastforce simp: dheap_ok_def not_le [symmetric])

lemma length_chain_bytes: "bpath h p qs e \<Longrightarrow> length (chain_bytes h qs) = SIMPLE_DYNAMIC_ARRAY_BUF_SIZE * length qs"
  by (induction qs arbitrary: p) auto

lemma take_over: "length xs = n \<Longrightarrow> take (n + k) (xs @ ys) = xs @ take k ys"
  by simp

lemma heap_buf_simps [simp]:
  "bufs h q = Some b \<Longrightarrow> get_buf h q = Inr b"
  "bufs h q = Some b \<Longrightarrow> upd_buf h q f = Inr (h\<lparr>bufs := (bufs h)(q \<mapsto> f b)\<rparr>)"
  by (simp_all add: get_buf_def upd_buf_def)

lemma release_chain:
  "bpath h p qs None \<Longrightarrow> distinct qs \<Longrightarrow> \<forall>q \<in> set qs. q < fresh h \<Longrightarrow>
   release_dyn_buf h p = Inr (h\<lparr>bufs := (\<lambda>q. if q \<in> set qs then None else bufs h q)\<rparr>)"
proof (induction qs arbitrary: h p)
  case Nil
  then show ?case by (simp add: release_dyn_buf.simps)
next
  case (Cons q qs)
  then obtain b where b: "bufs h q = Some b" "bpath h (next_dyn_buf b) qs None" and p: "p = Some q" by auto
  let ?h = "h\<lparr>bufs := (bufs h)(q := None)\<rparr>"
  have "bpath ?h (next_dyn_buf b) qs None" using b(2) Cons.prems(2) by (subst bpath_cong [of _ _ h]) auto
  with Cons.IH [of ?h] Cons.prems(2,3)
  have r: "release_dyn_buf ?h (next_dyn_buf b) = Inr (?h\<lparr>bufs := (\<lambda>x. if x \<in> set qs then None else bufs ?h x)\<rparr>)" by auto
  have "release_dyn_buf h p = release_dyn_buf ?h (next_dyn_buf b)"
    using b(1) Cons.prems(3) by (simp add: p release_dyn_buf.simps [of h "Some q"] free_buf_def)
  then show ?case using r by (auto simp: fun_upd_def fun_eq_iff intro!: arg_cong [where f = "\<lambda>f. h\<lparr>bufs := f\<rparr>"])
qed

section \<open>Insertion into a chain\<close>

text \<open>What an insertion at the end of a chain does to the heap: the buffers behind \<open>cur\<close> are new.\<close>

definition grown :: "dheap \<Rightarrow> dheap \<Rightarrow> nat \<Rightarrow> bool" where
  "grown h h' cur \<longleftrightarrow> dheap_ok h' \<and> fresh h \<le> fresh h' \<and> idxs h' = idxs h \<and> structs h' = structs h \<and>
     (\<forall>q. q \<noteq> cur \<and> q < fresh h \<longrightarrow> bufs h' q = bufs h q) \<and> bpath h' (Some cur) (cur # [fresh h..<fresh h']) None"

lemma insert_loop_ok:
  assumes "dheap_ok h" and "bufs h cur = Some b" and "length (buf b) = SIMPLE_DYNAMIC_ARRAY_BUF_SIZE"
    and "next_dyn_buf b = None" and "pos \<le> SIMPLE_DYNAMIC_ARRAY_BUF_SIZE"
  shows "\<exists>r h' as'. insert_simple_loop as h cur pos bs = Inr (r, h', as') \<and> grown h h' cur \<and>
    take pos (buf_at h' cur) = take pos (buf b) \<and>
    (case r of None \<Rightarrow> as \<noteq> []
     | Some (l, n) \<Rightarrow> (as = [] \<longrightarrow> as' = []) \<and> l = last (cur # [fresh h..<fresh h']) \<and> n \<le> SIMPLE_DYNAMIC_ARRAY_BUF_SIZE \<and>
         (fresh h < fresh h' \<longrightarrow> 0 < n) \<and> SIMPLE_DYNAMIC_ARRAY_BUF_SIZE * (fresh h' - fresh h) + n = pos + length bs \<and>
         take (pos + length bs) (chain_bytes h' (cur # [fresh h..<fresh h'])) = take pos (buf b) @ bs)"
  using assms
proof (induction "2 * length bs + (if pos = SIMPLE_DYNAMIC_ARRAY_BUF_SIZE then 1 else 0)" arbitrary: as h cur pos bs b rule: less_induct)
  case less
  let ?room = "SIMPLE_DYNAMIC_ARRAY_BUF_SIZE - pos"
  note sz = SIMPLE_DYNAMIC_ARRAY_BUF_SIZE_def
  have cur: "cur < fresh h" using less.prems(1,2) by (metis dheap_ok_def not_le option.distinct(1))
  show ?case
  proof (cases "length bs > ?room")
    case False
    let ?d = "take pos (buf b) @ bs @ drop (pos + length bs) (buf b)"
    have "wr_blk (buf b) pos bs = Inr ?d" using False less.prems(3,5) by simp
    then have eq: "insert_simple_loop as h cur pos bs = Inr (Some (cur, pos + length bs), h\<lparr>bufs := (bufs h)(cur \<mapsto> b\<lparr>buf := ?d\<rparr>)\<rparr>, as)"
      using False less.prems(2) by (simp add: insert_simple_loop.simps [of as h cur pos bs] Let_def)
    show ?thesis unfolding eq using False less.prems cur
      by (auto simp: grown_def dheap_ok_def)
  next
    case True
    let ?d = "take pos (buf b) @ take ?room bs"
    have d: "wr_blk (buf b) pos (take ?room bs) = Inr ?d" "length ?d = SIMPLE_DYNAMIC_ARRAY_BUF_SIZE"
      using True less.prems(3,5) by simp_all
    define h1 where "h1 = h\<lparr>bufs := (bufs h)(cur \<mapsto> b\<lparr>buf := ?d\<rparr>)\<rparr>"
    show ?thesis
    proof (cases "fst (alloc_next as)")
      case f: False
      then have al: "calloc_buf as h1 = (None, h1, snd (alloc_next as))"
        by (cases "alloc_next as") (simp add: calloc_buf_def)
      have eq: "insert_simple_loop as h cur pos bs = Inr (None, h1, snd (alloc_next as))"
        using True d less.prems(2)
        by (simp add: insert_simple_loop.simps [of as h cur pos bs] Let_def h1_def [symmetric] al)
      have "as \<noteq> []" using f by auto
      then show ?thesis unfolding eq using less.prems d(2) cur by (auto simp: grown_def dheap_ok_def h1_def)
    next
      case t: True
      define h2 where "h2 = h1\<lparr>bufs := (bufs h1)(fresh h \<mapsto> empty_buf), fresh := Suc (fresh h)\<rparr>"
      define h3 where "h3 = h2\<lparr>bufs := (bufs h2)(cur \<mapsto> b\<lparr>buf := ?d, next_dyn_buf := Some (fresh h)\<rparr>)\<rparr>"
      have al: "calloc_buf as h1 = (Some (fresh h), h2, snd (alloc_next as))"
        using t by (cases "alloc_next as") (simp add: calloc_buf_def h1_def h2_def)
      have eq: "insert_simple_loop as h cur pos bs = insert_simple_loop (snd (alloc_next as)) h3 (fresh h) 0 (drop ?room bs)"
        using True d less.prems(2) cur
        by (simp add: insert_simple_loop.simps [of as h cur pos bs] Let_def h1_def [symmetric] al)
          (simp add: h1_def h2_def h3_def)
      have ok3: "dheap_ok h3" "bufs h3 (fresh h) = Some empty_buf" "fresh h3 = Suc (fresh h)"
        "bufs h3 cur = Some (b\<lparr>buf := ?d, next_dyn_buf := Some (fresh h)\<rparr>)" "idxs h3 = idxs h" "structs h3 = structs h"
        "\<And>q. q \<noteq> cur \<Longrightarrow> q < fresh h \<Longrightarrow> bufs h3 q = bufs h q"
        using less.prems(1) cur by (auto simp: h3_def h2_def h1_def dheap_ok_def)
      have meas: "2 * length (drop ?room bs) + (if 0 = SIMPLE_DYNAMIC_ARRAY_BUF_SIZE then 1 else 0)
          < 2 * length bs + (if pos = SIMPLE_DYNAMIC_ARRAY_BUF_SIZE then 1 else 0)"
        using True less.prems(5) by (auto simp: sz)
      have e: "length (buf empty_buf) = SIMPLE_DYNAMIC_ARRAY_BUF_SIZE" "next_dyn_buf empty_buf = None" by (simp_all add: empty_buf_def)
      from less.hyps [OF meas ok3(1,2) e, of "snd (alloc_next as)"] obtain r h' as' where
        ih: "insert_simple_loop (snd (alloc_next as)) h3 (fresh h) 0 (drop ?room bs) = Inr (r, h', as')" "grown h3 h' (fresh h)"
          "case r of None \<Rightarrow> snd (alloc_next as) \<noteq> []
           | Some (l, n) \<Rightarrow> (snd (alloc_next as) = [] \<longrightarrow> as' = []) \<and> l = last (fresh h # [fresh h3..<fresh h']) \<and>
             n \<le> SIMPLE_DYNAMIC_ARRAY_BUF_SIZE \<and> (fresh h3 < fresh h' \<longrightarrow> 0 < n) \<and>
             SIMPLE_DYNAMIC_ARRAY_BUF_SIZE * (fresh h' - fresh h3) + n = 0 + length (drop ?room bs) \<and>
             take (0 + length (drop ?room bs)) (chain_bytes h' (fresh h # [fresh h3..<fresh h'])) = take 0 (buf empty_buf) @ drop ?room bs"
        by auto
      have lt: "fresh h < fresh h'" using ih(2) ok3(3) by (simp add: grown_def)
      have up: "[fresh h..<fresh h'] = fresh h # [fresh h3..<fresh h']" using lt ok3(3) by (simp add: upt_conv_Cons)
      have hc: "bufs h' cur = Some (b\<lparr>buf := ?d, next_dyn_buf := Some (fresh h)\<rparr>)"
        using ih(2) ok3(3,4) cur by (simp add: grown_def)
      have gr: "grown h h' cur"
        using ih(2) ok3 d(2) hc lt cur by (auto simp: grown_def up simp del: upt_Suc)
      have tk: "take pos (buf_at h' cur) = take pos (buf b)" using hc less.prems(3,5) by simp
      have snd_nil: "as = [] \<longrightarrow> snd (alloc_next as) = []" by auto
      show ?thesis
      proof (cases r)
        case None
        then show ?thesis using eq ih(1,3) gr tk snd_nil by auto
      next
        case (Some ln)
        obtain l n where ln: "ln = (l, n)" by (cases ln)
        have c: "SIMPLE_DYNAMIC_ARRAY_BUF_SIZE * (fresh h' - fresh h3) + n = length (drop ?room bs)"
          "take (length (drop ?room bs)) (chain_bytes h' [fresh h..<fresh h']) = drop ?room bs" "n \<le> SIMPLE_DYNAMIC_ARRAY_BUF_SIZE"
          "fresh h3 < fresh h' \<longrightarrow> 0 < n" "l = last (fresh h # [fresh h3..<fresh h'])" "snd (alloc_next as) = [] \<longrightarrow> as' = []"
          using ih(3) Some ln by (auto simp: up simp del: upt_Suc)
        have sum: "SIMPLE_DYNAMIC_ARRAY_BUF_SIZE * (fresh h' - fresh h) + n = pos + length bs"
          using c(1) lt ok3(3) True less.prems(5) by (simp add: Suc_diff_Suc sz)
        have n0: "0 < n" using c(1,4) True ok3(3) lt by (cases "fresh h3 < fresh h'") auto
        have p: "pos + length bs = SIMPLE_DYNAMIC_ARRAY_BUF_SIZE + length (drop ?room bs)" using True less.prems(5) by simp
        have "buf_at h' cur = ?d" using hc by simp
        then have "take (pos + length bs) (chain_bytes h' (cur # [fresh h..<fresh h'])) = ?d @ drop ?room bs"
          using c(2) by (simp only: p chain_bytes_simps take_over [OF d(2)])
        then have "take (pos + length bs) (chain_bytes h' (cur # [fresh h..<fresh h'])) = take pos (buf b) @ bs" by simp
        then show ?thesis using eq ih(1) Some ln gr tk sum n0 c(3,5,6) snd_nil up by auto
      qed
    qed
  qed
qed

section \<open>The array\<close>

definition sd_inv :: "dheap \<Rightarrow> ic_dynamic_array_int \<Rightarrow> nat list \<Rightarrow> bool" where
  "sd_inv h a ps \<longleftrightarrow> dheap_ok h \<and> ps \<noteq> [] \<and> distinct ps \<and> bpath h (Some (first_dyn_buf a)) ps None \<and>
     last ps = last_dyn_buf a \<and> bytes_used a \<le> SIMPLE_DYNAMIC_ARRAY_BUF_SIZE"

definition used_size :: "ic_dynamic_array_int \<Rightarrow> nat list \<Rightarrow> nat" where
  "used_size a ps = SIMPLE_DYNAMIC_ARRAY_BUF_SIZE * (length ps - 1) + bytes_used a"

definition contents :: "dheap \<Rightarrow> ic_dynamic_array_int \<Rightarrow> nat list \<Rightarrow> guint8 list" where
  "contents h a ps = take (used_size a ps) (chain_bytes h ps)"

lemma sd_inv_last:
  assumes "sd_inv h a ps"
  shows "\<exists>b. bufs h (last_dyn_buf a) = Some b \<and> length (buf b) = SIMPLE_DYNAMIC_ARRAY_BUF_SIZE \<and> next_dyn_buf b = None \<and>
    bpath h (Some (first_dyn_buf a)) (butlast ps) (Some (last_dyn_buf a)) \<and> ps = butlast ps @ [last_dyn_buf a] \<and>
    last_dyn_buf a \<notin> set (butlast ps) \<and> last_dyn_buf a < fresh h"
proof -
  obtain qs where ps: "ps = qs @ [last_dyn_buf a]"
    using assms append_butlast_last_id [of ps] by (metis sd_inv_def)
  moreover have "last_dyn_buf a < fresh h" using bpath_below [of h _ ps] assms ps by (fastforce simp: sd_inv_def)
  ultimately show ?thesis using assms by (auto simp: sd_inv_def)
qed

lemma length_contents: "sd_inv h a ps \<Longrightarrow> length (contents h a ps) = used_size a ps"
  using length_chain_bytes [of h "Some (first_dyn_buf a)" ps None]
  by (cases ps) (auto simp: contents_def sd_inv_def used_size_def)

lemma contents_last:
  assumes "sd_inv h a ps"
  shows "contents h a ps = chain_bytes h (butlast ps) @ take (bytes_used a) (buf_at h (last_dyn_buf a))"
proof -
  obtain b where b: "bpath h (Some (first_dyn_buf a)) (butlast ps) (Some (last_dyn_buf a))"
    and ps: "ps = butlast ps @ [last_dyn_buf a]" using sd_inv_last [OF assms] by blast
  have l: "length (chain_bytes h (butlast ps)) = SIMPLE_DYNAMIC_ARRAY_BUF_SIZE * (length ps - 1)"
    using length_chain_bytes [OF b] by simp
  have "chain_bytes h ps = chain_bytes h (butlast ps) @ buf_at h (last_dyn_buf a)"
    using arg_cong [OF ps, of "chain_bytes h"] by simp
  then show ?thesis using l by (simp add: contents_def used_size_def)
qed

text \<open>The heap \<open>h'\<close> differs from \<open>h\<close> at most in the buffers \<open>ps\<close>.\<close>

definition only_bufs :: "dheap \<Rightarrow> dheap \<Rightarrow> nat list \<Rightarrow> bool" where
  "only_bufs h h' ps \<longleftrightarrow> idxs h' = idxs h \<and> structs h' = structs h \<and> fresh h \<le> fresh h' \<and> (\<forall>q. q \<notin> set ps \<longrightarrow> bufs h' q = bufs h q)"

lemma insert_simple_ok:
  assumes "sd_inv h a ps"
  shows "\<exists>rc h' a' as'. insert_simple_dynamic_array as h a bs = Inr (rc, h', a', as') \<and>
    (rc = 0 \<and> (as = [] \<longrightarrow> as' = []) \<and> sd_inv h' a' (ps @ [fresh h..<fresh h']) \<and>
       contents h' a' (ps @ [fresh h..<fresh h']) = contents h a ps @ bs \<and> only_bufs h h' (ps @ [fresh h..<fresh h']) \<and>
       (\<exists>l n. a' = a\<lparr>last_dyn_buf := l, bytes_used := n, total_size_in_bytes := total_size_in_bytes a + length bs\<rparr>) \<and>
       SIMPLE_DYNAMIC_ARRAY_BUF_SIZE * (fresh h' - fresh h) < length bs + SIMPLE_DYNAMIC_ARRAY_BUF_SIZE \<or>
     rc = IC_ERROR_MEM_ALLOC \<and> as \<noteq> [] \<and> a' = a \<and> sd_inv h' a ps \<and> contents h' a ps = contents h a ps \<and> only_bufs h h' ps)"
proof -
  let ?l = "last_dyn_buf a" and ?N = SIMPLE_DYNAMIC_ARRAY_BUF_SIZE
  obtain b where b: "bufs h ?l = Some b" "length (buf b) = ?N" "next_dyn_buf b = None"
    "bpath h (Some (first_dyn_buf a)) (butlast ps) (Some ?l)" "ps = butlast ps @ [?l]" "?l \<notin> set (butlast ps)" "?l < fresh h"
    using sd_inv_last [OF assms] by blast
  have i: "dheap_ok h" "bytes_used a \<le> ?N" "distinct ps" using assms by (auto simp: sd_inv_def)
  have below: "q < fresh h" if "q \<in> set ps" for q using bpath_below [of h _ ps] assms that by (auto simp: sd_inv_def)
  from insert_loop_ok [OF i(1) b(1-3) i(2), of as bs] obtain r h' as' where
    r: "insert_simple_loop as h ?l (bytes_used a) bs = Inr (r, h', as')" "grown h h' ?l"
      "take (bytes_used a) (buf_at h' ?l) = take (bytes_used a) (buf b)"
    and out: "case r of None \<Rightarrow> as \<noteq> []
     | Some (l, n) \<Rightarrow> (as = [] \<longrightarrow> as' = []) \<and> l = last (?l # [fresh h..<fresh h']) \<and> n \<le> ?N \<and>
         (fresh h < fresh h' \<longrightarrow> 0 < n) \<and> ?N * (fresh h' - fresh h) + n = bytes_used a + length bs \<and>
         take (bytes_used a + length bs) (chain_bytes h' (?l # [fresh h..<fresh h'])) = take (bytes_used a) (buf b) @ bs" by auto
  have g: "dheap_ok h'" "fresh h \<le> fresh h'" "idxs h' = idxs h" "structs h' = structs h" "\<And>q. q \<noteq> ?l \<Longrightarrow> q < fresh h \<Longrightarrow> bufs h' q = bufs h q"
    "bpath h' (Some ?l) (?l # [fresh h..<fresh h']) None"
    using r(2) by (auto simp: grown_def)
  have keep: "bufs h' q = bufs h q" if "q \<in> set (butlast ps)" for q
    using g(5) b(6) below that by (metis in_set_butlastD)
  have path: "bpath h' (Some (first_dyn_buf a)) (butlast ps) (Some ?l)" using b(4) keep by (simp add: bpath_cong [of _ h' h])
  have cb: "chain_bytes h' (butlast ps) = chain_bytes h (butlast ps)" using keep by (rule chain_bytes_cong)
  let ?ps = "ps @ [fresh h..<fresh h']"
  have ps': "?ps = butlast ps @ ?l # [fresh h..<fresh h']" using b(5) by (metis append.assoc append_Cons append_Nil)
  have path': "bpath h' (Some (first_dyn_buf a)) ?ps None" unfolding ps' using path g(6) by auto
  have dist: "distinct ?ps" using i(3) below by (auto dest!: below)
  have ob: "only_bufs h h' ?ps" using g(1-5) i(1) below
    by (auto simp: only_bufs_def dheap_ok_def) (metis b(5) in_set_conv_decomp not_le)
  show ?thesis
  proof (cases r)
    case (Some ln)
    obtain l n where ln: "ln = (l, n)" by (cases ln)
    let ?a = "a\<lparr>last_dyn_buf := l, bytes_used := n, total_size_in_bytes := total_size_in_bytes a + length bs\<rparr>"
    have eq: "insert_simple_dynamic_array as h a bs = Inr (0, h', ?a, as')"
      using r(1) Some ln by (simp add: insert_simple_dynamic_array_def)
    have o: "as = [] \<longrightarrow> as' = []" "l = last (?l # [fresh h..<fresh h'])" "n \<le> ?N" "fresh h < fresh h' \<longrightarrow> 0 < n"
      "?N * (fresh h' - fresh h) + n = bytes_used a + length bs"
      "take (bytes_used a + length bs) (chain_bytes h' (?l # [fresh h..<fresh h'])) = take (bytes_used a) (buf b) @ bs"
      using out Some ln by auto
    have lst: "last ?ps = l" unfolding ps' o(2) by (rule last_appendR) simp
    have ne: "?ps \<noteq> []" unfolding ps' by simp
    have inv: "sd_inv h' ?a ?ps" unfolding sd_inv_def using g(1) path' dist o(3) lst ne
      by (simp only: ic_dynamic_array_int.simps) simp
    have lps: "length ?ps - 1 = length (butlast ps) + (fresh h' - fresh h)" using arg_cong [OF ps', of length] by simp
    have us: "used_size ?a ?ps = length (chain_bytes h (butlast ps)) + (bytes_used a + length bs)"
      using length_chain_bytes [OF b(4)] o(5) by (simp only: used_size_def lps add_mult_distrib2) simp
    have "contents h' ?a ?ps = chain_bytes h (butlast ps) @ take (bytes_used a) (buf b) @ bs"
      unfolding contents_def us unfolding ps' chain_bytes_simps(3) cb take_over [OF refl] o(6) ..
    then have co: "contents h' ?a ?ps = contents h a ps @ bs" using contents_last [OF assms] b(1) by simp
    have "?N * (fresh h' - fresh h) < length bs + ?N" using o(4,5) i(2) by (cases "fresh h < fresh h'") (auto simp: dyn_sizes)
    then show ?thesis using eq o(1) inv co ob by blast
  next
    case None
    obtain b' where b': "bufs h' ?l = Some b'" "length (buf b') = ?N" "bpath h' (next_dyn_buf b') [fresh h..<fresh h'] None"
      using g(6) by auto
    let ?h1 = "h'\<lparr>bufs := (\<lambda>q. if q \<in> set [fresh h..<fresh h'] then None else bufs h' q)\<rparr>"
    let ?h2 = "?h1\<lparr>bufs := (bufs ?h1)(?l \<mapsto> b'\<lparr>next_dyn_buf := None\<rparr>)\<rparr>"
    have rel: "release_dyn_buf h' (next_dyn_buf b') = Inr ?h1" using release_chain [OF b'(3)] by simp
    have l1: "bufs ?h1 ?l = Some b'" using b'(1) b(7) by simp
    have eq: "insert_simple_dynamic_array as h a bs = Inr (IC_ERROR_MEM_ALLOC, ?h2, a, as')"
      using r(1) None b'(1) rel l1 by (simp add: insert_simple_dynamic_array_def)
    have same: "bufs ?h2 q = bufs h q" if "q \<noteq> ?l" for q
      using that g(1,2,5) i(1) by (auto simp: dheap_ok_def not_less)
    have "bpath ?h2 (Some (first_dyn_buf a)) (butlast ps) (Some ?l)"
      using b(4,6) same by (subst bpath_cong [of _ _ h]) auto
    then have p2: "bpath ?h2 (Some (first_dyn_buf a)) (butlast ps @ [?l]) None" using b'(2) by simp
    have cb2: "chain_bytes ?h2 (butlast ps) = chain_bytes h (butlast ps)" using b(6) same by (intro chain_bytes_cong) auto
    have "dheap_ok ?h2" using g(1) b(7) g(2) by (auto simp: dheap_ok_def)
    then have inv: "sd_inv ?h2 a ps" using p2 b(5) assms by (simp add: sd_inv_def)
    have "contents ?h2 a ps = contents h a ps"
      using contents_last [OF inv] contents_last [OF assms] cb2 r(3) b'(1) b(1) by simp
    moreover have "only_bufs h ?h2 ps" using g(2-4) same b(5) by (auto simp: only_bufs_def) (metis in_set_conv_decomp)+
    ultimately show ?thesis using eq inv out None by auto
  qed
qed

section \<open>Access by position\<close>

lemma bpath_drop: "bpath h p qs None \<Longrightarrow> i < length qs \<Longrightarrow> bpath h (Some (qs ! i)) (drop i qs) None"
proof (induction qs arbitrary: p i)
  case (Cons q qs)
  then show ?case by (cases i) auto
qed simp

lemma chain_bytes_drop:
  "bpath h p qs None \<Longrightarrow> chain_bytes h (drop i qs) = drop (SIMPLE_DYNAMIC_ARRAY_BUF_SIZE * i) (chain_bytes h qs)"
proof (induction qs arbitrary: p i)
  case (Cons q qs)
  then show ?case by (cases i) auto
qed simp

lemma find_pos_simple_ok:
  "bpath h p qs None \<Longrightarrow> s \<le> pos \<Longrightarrow>
   find_pos_simple_loop h pos p s = Inr (if pos - s < SIMPLE_DYNAMIC_ARRAY_BUF_SIZE * length qs
     then Some (qs ! ((pos - s) div SIMPLE_DYNAMIC_ARRAY_BUF_SIZE), (pos - s) mod SIMPLE_DYNAMIC_ARRAY_BUF_SIZE) else None)"
proof (induction qs arbitrary: p s)
  case Nil
  then show ?case by (simp add: find_pos_simple_loop.simps)
next
  case (Cons q qs)
  let ?N = SIMPLE_DYNAMIC_ARRAY_BUF_SIZE
  from Cons.prems(1) obtain b where b: "p = Some q" "bufs h q = Some b" "bpath h (next_dyn_buf b) qs None" by auto
  show ?case
  proof (cases "s + ?N \<le> pos")
    case True
    have "(pos - s) div ?N = Suc ((pos - (s + ?N)) div ?N)" "(pos - s) mod ?N = (pos - (s + ?N)) mod ?N"
      using True by (simp_all add: dyn_sizes le_div_geq le_mod_geq)
    with Cons.IH [OF b(3) True] b(1,2) True show ?thesis
      by (auto simp: find_pos_simple_loop.simps [of h pos "Some q"])
  next
    case False
    then show ?thesis using b Cons.prems(2) by (simp add: find_pos_simple_loop.simps [of h pos "Some q"] dyn_sizes)
  qed
qed

lemma read_pos_ok:
  "bpath h p qs None \<Longrightarrow> qs \<noteq> [] \<Longrightarrow> i \<le> SIMPLE_DYNAMIC_ARRAY_BUF_SIZE \<Longrightarrow> i + n \<le> SIMPLE_DYNAMIC_ARRAY_BUF_SIZE * length qs \<Longrightarrow>
   read_pos_simple_dynamic_array h p i n = Inr (Some (take n (drop i (chain_bytes h qs))))"
proof (induction qs arbitrary: p i n)
  case (Cons q qs)
  let ?N = SIMPLE_DYNAMIC_ARRAY_BUF_SIZE
  from Cons.prems(1) obtain b where b: "p = Some q" "bufs h q = Some b" "length (buf b) = ?N" "bpath h (next_dyn_buf b) qs None" by auto
  show ?case
  proof (cases "n \<le> ?N - i")
    case True
    then show ?thesis using b Cons.prems(3) by (simp add: read_pos_simple_dynamic_array.simps [of h "Some q"] Let_def min_def)
  next
    case False
    then have "qs \<noteq> []" "0 + (n - (?N - i)) \<le> ?N * length qs" using Cons.prems(3,4) by auto
    from Cons.IH [OF b(4) this(1) _ this(2)] False b Cons.prems(3) show ?thesis
      by (simp add: read_pos_simple_dynamic_array.simps [of h "Some q"] Let_def min_def)
  qed
qed simp

definition splice_bytes :: "nat \<Rightarrow> guint8 list \<Rightarrow> guint8 list \<Rightarrow> guint8 list" where
  "splice_bytes i bs xs = take i xs @ bs @ drop (i + length bs) xs"

lemma length_splice [simp]: "i + length bs \<le> length xs \<Longrightarrow> length (splice_bytes i bs xs) = length xs"
  by (simp add: splice_bytes_def)

lemma splice_append1: "i + length bs \<le> length xs \<Longrightarrow> splice_bytes i bs (xs @ ys) = splice_bytes i bs xs @ ys"
  by (simp add: splice_bytes_def)

lemma splice_append2: "splice_bytes (length xs + i) bs (xs @ ys) = xs @ splice_bytes i bs ys"
  by (simp add: splice_bytes_def add.assoc)

lemma splice_take: "i + length bs \<le> k \<Longrightarrow> k \<le> length xs \<Longrightarrow> take k (splice_bytes i bs xs) = splice_bytes i bs (take k xs)"
  by (simp add: splice_bytes_def min_absorb1 drop_take)

lemma splice_split:
  assumes "i + length as = length xs"
  shows "splice_bytes i (as @ bs) (xs @ ys) = splice_bytes i as xs @ splice_bytes 0 bs ys"
proof -
  have "i + (length as + length bs) - length xs = length bs" using assms by simp
  then show ?thesis using assms by (simp add: splice_bytes_def)
qed

lemma write_pos_ok:
  "bpath h p qs None \<Longrightarrow> distinct qs \<Longrightarrow> qs \<noteq> [] \<Longrightarrow> i \<le> SIMPLE_DYNAMIC_ARRAY_BUF_SIZE \<Longrightarrow>
   i + length bs \<le> SIMPLE_DYNAMIC_ARRAY_BUF_SIZE * length qs \<Longrightarrow>
   \<exists>h'. write_pos_simple_dynamic_array h p i bs = Inr (0, h') \<and> bpath h' p qs None \<and> only_bufs h h' qs \<and> fresh h' = fresh h \<and>
     (\<forall>q. bufs h' q = None \<longleftrightarrow> bufs h q = None) \<and> (\<forall>q. map_option next_dyn_buf (bufs h' q) = map_option next_dyn_buf (bufs h q)) \<and>
     chain_bytes h' qs = splice_bytes i bs (chain_bytes h qs)"
proof (induction qs arbitrary: h p i bs)
  case (Cons q qs)
  let ?N = SIMPLE_DYNAMIC_ARRAY_BUF_SIZE
  from Cons.prems(1) obtain b where b: "p = Some q" "bufs h q = Some b" "length (buf b) = ?N" "bpath h (next_dyn_buf b) qs None" by auto
  define k where "k = min (length bs) (?N - i)"
  define d where "d = splice_bytes i (take k bs) (buf b)"
  define h1 where "h1 = h\<lparr>bufs := (bufs h)(q \<mapsto> b\<lparr>buf := d\<rparr>)\<rparr>"
  have kl: "i + length (take k bs) \<le> length (buf b)" using Cons.prems(4) b(3) by (simp add: k_def)
  have ld: "length d = ?N" using length_splice [OF kl] b(3) by (simp add: d_def)
  have w: "wr_blk (buf b) i (take k bs) = Inr d" using kl by (simp add: d_def splice_bytes_def)
  have eq: "write_pos_simple_dynamic_array h p i bs =
      (if k < length bs then write_pos_simple_dynamic_array h1 (next_dyn_buf b) 0 (drop k bs) else Inr (0, h1))"
    using b(1,2) w by (simp add: write_pos_simple_dynamic_array.simps [of h "Some q"] Let_def k_def [symmetric] h1_def)
  have p1: "bpath h1 (next_dyn_buf b) qs None" using b(4) Cons.prems(2) by (subst bpath_cong [of _ _ h]) (auto simp: h1_def)
  have c1: "chain_bytes h1 qs = chain_bytes h qs" using Cons.prems(2) by (intro chain_bytes_cong) (auto simp: h1_def)
  show ?case
  proof (cases "k < length bs")
    case False
    then have "take k bs = bs" by simp
    then have "chain_bytes h1 (q # qs) = splice_bytes i bs (chain_bytes h (q # qs))"
      using c1 kl b(2) by (simp add: h1_def d_def splice_append1)
    then show ?thesis using eq False b(1,2) ld p1 by (auto simp: h1_def only_bufs_def)
  next
    case True
    then have k: "k = ?N - i" by (simp add: k_def)
    have ne: "qs \<noteq> []" "0 + length (drop k bs) \<le> ?N * length qs" "distinct qs" using True Cons.prems(2,4,5) by (auto simp: k)
    from Cons.IH [OF p1 ne(3,1) _ ne(2)] obtain h' where
      ih: "write_pos_simple_dynamic_array h1 (next_dyn_buf b) 0 (drop k bs) = Inr (0, h')" "bpath h' (next_dyn_buf b) qs None"
        "only_bufs h1 h' qs" "fresh h' = fresh h1" "\<forall>q. bufs h' q = None \<longleftrightarrow> bufs h1 q = None"
        "\<forall>q. map_option next_dyn_buf (bufs h' q) = map_option next_dyn_buf (bufs h1 q)"
        "chain_bytes h' qs = splice_bytes 0 (drop k bs) (chain_bytes h1 qs)" by auto
    have hq: "bufs h' q = Some (b\<lparr>buf := d\<rparr>)" using ih(3) Cons.prems(2) by (simp add: only_bufs_def h1_def)
    have il: "i + length (take k bs) = length (buf b)" using True Cons.prems(4) b(3) by (simp add: k)
    have "splice_bytes i bs (chain_bytes h (q # qs)) = splice_bytes i (take k bs @ drop k bs) (buf b @ chain_bytes h qs)"
      using b(2) by simp
    also have "\<dots> = d @ splice_bytes 0 (drop k bs) (chain_bytes h qs)"
      using splice_split [OF il] by (simp only: d_def)
    finally have "chain_bytes h' (q # qs) = splice_bytes i bs (chain_bytes h (q # qs))" using hq ih(7) c1 by simp
    moreover have "bpath h' p (q # qs) None" using b(1) hq ih(2) ld by simp
    moreover have "only_bufs h h' (q # qs)" using ih(3) by (auto simp: only_bufs_def h1_def)
    ultimately show ?thesis using eq True ih(1,4,5,6) b(2) by (auto simp: h1_def)
  qed
qed simp

lemma rest_fits: "(pos :: nat) + n \<le> N * l \<Longrightarrow> pos mod N + n \<le> N * (l - pos div N)"
  using mult_div_mod_eq [of N pos] by (simp only: right_diff_distrib')

text \<open>The access functions of an array, given where its buffers are.\<close>

lemma simple_find:
  assumes "sd_inv h a ps" and "pos < SIMPLE_DYNAMIC_ARRAY_BUF_SIZE * length ps"
  shows "find_pos_simple_dyn_array h a pos =
    Inr (Some (ps ! (pos div SIMPLE_DYNAMIC_ARRAY_BUF_SIZE), pos mod SIMPLE_DYNAMIC_ARRAY_BUF_SIZE))"
  using find_pos_simple_ok [of h "Some (first_dyn_buf a)" ps 0 pos] assms
  by (simp add: find_pos_simple_dyn_array_def sd_inv_def)

lemma used_size_le: "sd_inv h a ps \<Longrightarrow> used_size a ps \<le> SIMPLE_DYNAMIC_ARRAY_BUF_SIZE * length ps"
  by (cases ps) (auto simp: sd_inv_def used_size_def)

lemma read_at:
  assumes "sd_inv h a ps" and "pos + n \<le> used_size a ps" and "0 < n"
  shows "read_pos_simple_dynamic_array h (Some (ps ! (pos div SIMPLE_DYNAMIC_ARRAY_BUF_SIZE)))
      (pos mod SIMPLE_DYNAMIC_ARRAY_BUF_SIZE) n = Inr (Some (take n (drop pos (contents h a ps))))"
proof -
  let ?N = SIMPLE_DYNAMIC_ARRAY_BUF_SIZE and ?i = "pos div SIMPLE_DYNAMIC_ARRAY_BUF_SIZE"
  have p: "bpath h (Some (first_dyn_buf a)) ps None" using assms(1) by (simp add: sd_inv_def)
  have u: "pos + n \<le> ?N * length ps" using used_size_le [OF assms(1)] assms(2) by simp
  then have i: "?i < length ps" using assms(3) by (simp add: less_mult_imp_div_less mult.commute)
  have dm: "?N * ?i + pos mod ?N = pos" by simp
  have "pos mod ?N + n \<le> ?N * length (drop ?i ps)" using rest_fits [OF u] by simp
  moreover have "drop ?i ps \<noteq> []" "pos mod ?N \<le> ?N" using i by (simp_all add: dyn_sizes)
  ultimately have "read_pos_simple_dynamic_array h (Some (ps ! ?i)) (pos mod ?N) n =
      Inr (Some (take n (drop (pos mod ?N) (chain_bytes h (drop ?i ps)))))"
    using read_pos_ok [OF bpath_drop [OF p i]] by blast
  moreover have "drop (pos mod ?N) (chain_bytes h (drop ?i ps)) = drop pos (chain_bytes h ps)"
    using dm by (simp add: chain_bytes_drop [OF p] add.commute)
  moreover have "take n (drop pos (contents h a ps)) = take n (drop pos (chain_bytes h ps))"
    using assms(2) by (simp add: contents_def drop_take)
  ultimately show ?thesis by simp
qed

lemma write_at:
  assumes "sd_inv h a ps" and "pos + length bs \<le> used_size a ps" and "bs \<noteq> []"
  shows "\<exists>h'. write_pos_simple_dynamic_array h (Some (ps ! (pos div SIMPLE_DYNAMIC_ARRAY_BUF_SIZE)))
      (pos mod SIMPLE_DYNAMIC_ARRAY_BUF_SIZE) bs = Inr (0, h') \<and>
    sd_inv h' a ps \<and> contents h' a ps = splice_bytes pos bs (contents h a ps) \<and> only_bufs h h' ps \<and> fresh h' = fresh h"
proof -
  let ?N = SIMPLE_DYNAMIC_ARRAY_BUF_SIZE and ?i = "pos div SIMPLE_DYNAMIC_ARRAY_BUF_SIZE"
  have p: "bpath h (Some (first_dyn_buf a)) ps None" and ds: "distinct ps" and ok: "dheap_ok h" using assms(1) by (simp_all add: sd_inv_def)
  have u: "pos + length bs \<le> ?N * length ps" using used_size_le [OF assms(1)] assms(2) by simp
  have "pos < length ps * ?N" using u assms(3) by (cases bs) (auto simp: mult.commute)
  then have i: "?i < length ps" by (rule less_mult_imp_div_less)
  have dm: "?N * ?i + pos mod ?N = pos" by simp
  have ne: "pos mod ?N + length bs \<le> ?N * length (drop ?i ps)" using rest_fits [OF u] by simp
  have ne2: "drop ?i ps \<noteq> []" "pos mod ?N \<le> ?N" "distinct (drop ?i ps)" using i ds by (simp_all add: dyn_sizes)
  from write_pos_ok [OF bpath_drop [OF p i] ne2(3,1,2) ne] obtain h' where
    w: "write_pos_simple_dynamic_array h (Some (ps ! ?i)) (pos mod ?N) bs = Inr (0, h')" "bpath h' (Some (ps ! ?i)) (drop ?i ps) None"
      "only_bufs h h' (drop ?i ps)" "fresh h' = fresh h" "\<forall>q. bufs h' q = None \<longleftrightarrow> bufs h q = None"
      "chain_bytes h' (drop ?i ps) = splice_bytes (pos mod ?N) bs (chain_bytes h (drop ?i ps))" by blast
  have split: "ps = take ?i ps @ drop ?i ps" by simp
  have disj: "set (take ?i ps) \<inter> set (drop ?i ps) = {}" using ds split by (metis distinct_append)
  then have keep: "bufs h' q = bufs h q" if "q \<in> set (take ?i ps)" for q using w(3) that by (auto simp: only_bufs_def)
  have pt: "bpath h (Some (first_dyn_buf a)) (take ?i ps @ drop ?i ps) None" using p by simp
  then obtain r where r: "bpath h (Some (first_dyn_buf a)) (take ?i ps) r" "bpath h r (drop ?i ps) None" by (auto simp del: append_take_drop_id)
  have "r = Some (ps ! ?i)" using r(2) i by (cases "drop ?i ps") (auto simp: drop_eq_Nil nth_via_drop)
  then have "bpath h' (Some (first_dyn_buf a)) (take ?i ps @ drop ?i ps) None"
    using r(1) w(2) keep by (auto simp: bpath_cong [of _ h' h] simp del: append_take_drop_id)
  then have p': "bpath h' (Some (first_dyn_buf a)) ps None" by simp
  have lt: "length (chain_bytes h (take ?i ps)) = ?N * ?i" using length_chain_bytes [OF r(1)] i by simp
  have "chain_bytes h' (take ?i ps @ drop ?i ps) = chain_bytes h (take ?i ps) @ splice_bytes (pos mod ?N) bs (chain_bytes h (drop ?i ps))"
    using w(6) chain_bytes_cong [of "take ?i ps" h' h] keep by (simp del: append_take_drop_id)
  also have "\<dots> = splice_bytes (?N * ?i + pos mod ?N) bs (chain_bytes h (take ?i ps @ drop ?i ps))"
    by (simp only: lt [symmetric] chain_bytes_simps(3) splice_append2)
  finally have cb: "chain_bytes h' ps = splice_bytes pos bs (chain_bytes h ps)" by simp
  have "used_size a ps \<le> length (chain_bytes h ps)" using used_size_le [OF assms(1)] length_chain_bytes [OF p] by simp
  then have "contents h' a ps = splice_bytes pos bs (contents h a ps)" using assms(2) by (simp add: contents_def cb splice_take)
  moreover have "idxs h' = idxs h" using w(3) by (simp add: only_bufs_def)
  then have "sd_inv h' a ps" using assms(1) p' ok w(4,5) by (simp add: sd_inv_def dheap_ok_def)
  moreover have "only_bufs h h' ps" using w(3) set_drop_subset [of ?i ps] by (auto simp: only_bufs_def)
  ultimately show ?thesis using w(1,4) by blast
qed

section \<open>The interface of byte arrays\<close>

text \<open>
  Both kinds of arrays have the same operations (\<^verbatim>\<open>IC_DYNAMIC_ARRAY_OPS\<close>). What they promise: the
  array stands for a list of bytes; an insertion appends to it or, when memory is short, returns
  \<open>IC_ERROR_MEM_ALLOC\<close> and leaves it as it was; a read and a write inside of it act on the list.
\<close>

locale byte_array =
  fixes ins :: "'s \<Rightarrow> guint8 list \<Rightarrow> fault + (err \<times> 's)"
    and rdx :: "'s \<Rightarrow> guint64 \<Rightarrow> guint64 \<Rightarrow> fault + guint8 list option"
    and wrx :: "'s \<Rightarrow> guint64 \<Rightarrow> guint8 list \<Rightarrow> fault + (err \<times> 's)"
    and repr :: "'s \<Rightarrow> guint8 list \<Rightarrow> bool" and plenty :: "'s \<Rightarrow> bool"
  assumes ins_law: "repr s xs \<Longrightarrow> \<exists>rc s'. ins s bs = Inr (rc, s') \<and> (plenty s \<longrightarrow> rc = 0 \<and> plenty s') \<and>
      (rc = 0 \<and> repr s' (xs @ bs) \<or> rc = IC_ERROR_MEM_ALLOC \<and> repr s' xs)"
    and read_law: "repr s xs \<Longrightarrow> unat pos + unat n \<le> length xs \<Longrightarrow> 0 < n \<Longrightarrow> length xs < 18446744073709551616 \<Longrightarrow>
      rdx s pos n = Inr (Some (take (unat n) (drop (unat pos) xs)))"
    and write_law: "repr s xs \<Longrightarrow> unat pos + length bs \<le> length xs \<Longrightarrow> bs \<noteq> [] \<Longrightarrow>
      \<exists>s'. wrx s pos bs = Inr (0, s') \<and> repr s' (splice_bytes (unat pos) bs xs)"

text \<open>A sequence of insertions with their return codes, and the bytes of those that succeeded.\<close>

fun insert_all :: "('s \<Rightarrow> guint8 list \<Rightarrow> fault + (err \<times> 's)) \<Rightarrow> 's \<Rightarrow> guint8 list list \<Rightarrow> fault + (err list \<times> 's)" where
  "insert_all ins s [] = Inr ([], s)"
| "insert_all ins s (bs # bss) =
     c_bind (ins s bs) (\<lambda>(rc, s). c_bind (insert_all ins s bss) (\<lambda>(rcs, s). Inr (rc # rcs, s)))"

definition accepted :: "err list \<Rightarrow> guint8 list list \<Rightarrow> guint8 list" where
  "accepted rcs bss = concat (map snd (filter (\<lambda>(rc, bs). rc = 0) (zip rcs bss)))"

lemma accepted_length: "length rcs = length bss \<Longrightarrow> length (accepted rcs bss) \<le> length (concat bss)"
  by (induction rcs bss rule: list_induct2) (auto simp: accepted_def)

context byte_array
begin

lemma insert_all_repr:
  "repr s xs \<Longrightarrow> \<exists>rcs s'. insert_all ins s bss = Inr (rcs, s') \<and> length rcs = length bss \<and> set rcs \<subseteq> {0, IC_ERROR_MEM_ALLOC} \<and>
     (plenty s \<longrightarrow> set rcs \<subseteq> {0}) \<and> repr s' (xs @ accepted rcs bss)"
proof (induction bss arbitrary: s xs)
  case Nil
  then show ?case by (simp add: accepted_def)
next
  case (Cons bs bss)
  from ins_law [OF Cons.prems, of bs] obtain rc s1 where i: "ins s bs = Inr (rc, s1)" "plenty s \<longrightarrow> rc = 0 \<and> plenty s1"
    "rc = 0 \<and> repr s1 (xs @ bs) \<or> rc = IC_ERROR_MEM_ALLOC \<and> repr s1 xs" by blast
  define ys where "ys = (if rc = 0 then xs @ bs else xs)"
  have "repr s1 ys" using i(3) by (auto simp: ys_def err_codes)
  from Cons.IH [OF this] obtain rcs s2 where r: "insert_all ins s1 bss = Inr (rcs, s2)" "length rcs = length bss"
    "set rcs \<subseteq> {0, IC_ERROR_MEM_ALLOC}" "plenty s1 \<longrightarrow> set rcs \<subseteq> {0}" "repr s2 (ys @ accepted rcs bss)" by blast
  have "ys @ accepted rcs bss = xs @ accepted (rc # rcs) (bs # bss)" by (simp add: ys_def accepted_def)
  then show ?case using i r by auto
qed

lemma read_after_write:
  assumes "repr s xs" and "unat p + length bs \<le> length xs" and "bs \<noteq> []" and "length xs < 18446744073709551616"
    and "unat q + unat n \<le> length xs" and "0 < n"
  shows "\<exists>s'. wrx s p bs = Inr (0, s') \<and> rdx s' q n = Inr (Some (take (unat n) (drop (unat q) (splice_bytes (unat p) bs xs))))"
proof -
  from write_law [OF assms(1-3)] obtain s' where s': "wrx s p bs = Inr (0, s')" "repr s' (splice_bytes (unat p) bs xs)" by blast
  then show ?thesis using read_law [OF s'(2)] assms(2,4-6) by auto
qed

end

text \<open>The simple array as a byte array; the state is the heap, the array and the allocation outcomes.\<close>

type_synonym dyn_state = "dheap \<times> ic_dynamic_array_int \<times> allocs"

definition simple_ins :: "dyn_state \<Rightarrow> guint8 list \<Rightarrow> fault + (err \<times> dyn_state)" where
  "simple_ins s bs = (case s of (h, a, as) \<Rightarrow> insert_simple_dynamic_array as h a bs)"

definition simple_rd :: "dyn_state \<Rightarrow> guint64 \<Rightarrow> guint64 \<Rightarrow> fault + guint8 list option" where
  "simple_rd s pos n = (case s of (h, a, as) \<Rightarrow> read_simple_dynamic_array h a pos n)"

definition simple_wr :: "dyn_state \<Rightarrow> guint64 \<Rightarrow> guint8 list \<Rightarrow> fault + (err \<times> dyn_state)" where
  "simple_wr s pos bs = (case s of (h, a, as) \<Rightarrow> c_bind (write_simple_dynamic_array h a pos bs) (\<lambda>(rc, h). Inr (rc, (h, a, as))))"

text \<open>\<open>h0\<close> is the heap without the array.\<close>

definition simple_repr :: "dheap \<Rightarrow> dyn_state \<Rightarrow> guint8 list \<Rightarrow> bool" where
  "simple_repr h0 s xs \<longleftrightarrow> (case s of (h, a, as) \<Rightarrow> \<exists>ps. sd_inv h a ps \<and> contents h a ps = xs \<and> total_size_in_bytes a = length xs \<and>
     (\<lambda>q. if q \<in> set ps then None else bufs h q) = bufs h0 \<and> idxs h = idxs h0 \<and> structs h = Suc (structs h0))"

definition dyn_plenty :: "dyn_state \<Rightarrow> bool" where
  "dyn_plenty s \<longleftrightarrow> snd (snd s) = []"

lemma only_bufs_frame:
  assumes "only_bufs h h' ps" and "(\<lambda>q. if q \<in> set ps then None else bufs h q) = g"
  shows "(\<lambda>q. if q \<in> set ps then None else bufs h' q) = g"
proof -
  have "(\<lambda>q. if q \<in> set ps then None else bufs h' q) = (\<lambda>q. if q \<in> set ps then None else bufs h q)"
    using assms(1) by (auto simp: only_bufs_def)
  then show ?thesis using assms(2) by simp
qed

lemma unat_add_64:
  assumes "unat (pos :: guint64) + unat n \<le> l" and "l < 18446744073709551616"
  shows "unat (pos + n) = unat pos + unat n"
  using assms by (intro unat_add_small) simp

interpretation sda: byte_array simple_ins simple_rd simple_wr "simple_repr h0" dyn_plenty for h0
proof
  fix s xs bs
  assume "simple_repr h0 s xs"
  then obtain h a as ps where s: "s = (h, a, as)" and i: "sd_inv h a ps" "contents h a ps = xs" "total_size_in_bytes a = length xs"
    "(\<lambda>q. if q \<in> set ps then None else bufs h q) = bufs h0" "idxs h = idxs h0" "structs h = Suc (structs h0)"
    by (cases s) (auto simp: simple_repr_def)
  from insert_simple_ok [OF i(1), of as bs] obtain rc h' a' as' where r: "insert_simple_dynamic_array as h a bs = Inr (rc, h', a', as')"
    and o: "rc = 0 \<and> (as = [] \<longrightarrow> as' = []) \<and> sd_inv h' a' (ps @ [fresh h..<fresh h']) \<and>
       contents h' a' (ps @ [fresh h..<fresh h']) = contents h a ps @ bs \<and> only_bufs h h' (ps @ [fresh h..<fresh h']) \<and>
       (\<exists>l n. a' = a\<lparr>last_dyn_buf := l, bytes_used := n, total_size_in_bytes := total_size_in_bytes a + length bs\<rparr>) \<or>
     rc = IC_ERROR_MEM_ALLOC \<and> as \<noteq> [] \<and> a' = a \<and> sd_inv h' a ps \<and> contents h' a ps = contents h a ps \<and> only_bufs h h' ps" by blast
  have new: "bufs h q = None" if "q \<in> set [fresh h..<fresh h']" for q using that i(1) by (auto simp: sd_inv_def dheap_ok_def)
  have "(\<lambda>q. if q \<in> set (ps @ [fresh h..<fresh h']) then None else bufs h q) = (\<lambda>q. if q \<in> set ps then None else bufs h q)"
    using new by auto
  then have f: "(\<lambda>q. if q \<in> set (ps @ [fresh h..<fresh h']) then None else bufs h q) = bufs h0" using i(4) by simp
  from o have "rc = 0 \<and> (as = [] \<longrightarrow> as' = []) \<and> simple_repr h0 (h', a', as') (xs @ bs) \<or>
     rc = IC_ERROR_MEM_ALLOC \<and> as \<noteq> [] \<and> simple_repr h0 (h', a', as') xs"
  proof (elim disjE)
    assume z: "rc = 0 \<and> (as = [] \<longrightarrow> as' = []) \<and> sd_inv h' a' (ps @ [fresh h..<fresh h']) \<and>
       contents h' a' (ps @ [fresh h..<fresh h']) = contents h a ps @ bs \<and> only_bufs h h' (ps @ [fresh h..<fresh h']) \<and>
       (\<exists>l n. a' = a\<lparr>last_dyn_buf := l, bytes_used := n, total_size_in_bytes := total_size_in_bytes a + length bs\<rparr>)"
    then have "(\<lambda>q. if q \<in> set (ps @ [fresh h..<fresh h']) then None else bufs h' q) = bufs h0" using only_bufs_frame f by blast
    moreover have "total_size_in_bytes a' = length (xs @ bs)" "idxs h' = idxs h0" "structs h' = Suc (structs h0)"
      using z i by (auto simp: only_bufs_def)
    ultimately have "simple_repr h0 (h', a', as') (xs @ bs)" unfolding simple_repr_def prod.case using z i(2) by blast
    then show ?thesis using z by simp
  next
    assume z: "rc = IC_ERROR_MEM_ALLOC \<and> as \<noteq> [] \<and> a' = a \<and> sd_inv h' a ps \<and> contents h' a ps = contents h a ps \<and> only_bufs h h' ps"
    then have "(\<lambda>q. if q \<in> set ps then None else bufs h' q) = bufs h0" using only_bufs_frame i(4) by blast
    moreover have "idxs h' = idxs h0" "structs h' = Suc (structs h0)" using z i by (auto simp: only_bufs_def)
    ultimately have "simple_repr h0 (h', a', as') xs" unfolding simple_repr_def prod.case using z i(2,3) by blast
    then show ?thesis using z by simp
  qed
  then show "\<exists>rc s'. simple_ins s bs = Inr (rc, s') \<and> (dyn_plenty s \<longrightarrow> rc = 0 \<and> dyn_plenty s') \<and>
      (rc = 0 \<and> simple_repr h0 s' (xs @ bs) \<or> rc = IC_ERROR_MEM_ALLOC \<and> simple_repr h0 s' xs)"
    using r by (auto simp: simple_ins_def s dyn_plenty_def)
next
  fix s xs and pos n :: guint64
  assume "simple_repr h0 s xs" and b: "unat pos + unat n \<le> length xs" "0 < n" "length xs < 18446744073709551616"
  then obtain h a as ps where s: "s = (h, a, as)" and i: "sd_inv h a ps" "contents h a ps = xs" "total_size_in_bytes a = length xs"
    by (cases s) (auto simp: simple_repr_def)
  have n: "0 < unat n" using b(2) by (simp add: word_less_nat_alt)
  have u: "unat pos + unat n \<le> used_size a ps" using b(1) i(2) length_contents [OF i(1)] by simp
  then have "unat pos < SIMPLE_DYNAMIC_ARRAY_BUF_SIZE * length ps" using used_size_le [OF i(1)] n by simp
  from simple_find [OF i(1) this] read_at [OF i(1) u n] i(2,3) b(1) unat_add_64 [OF b(1,3)]
  show "simple_rd s pos n = Inr (Some (take (unat n) (drop (unat pos) xs)))"
    by (simp add: simple_rd_def s read_simple_dynamic_array_def)
next
  fix s xs and pos :: guint64 and bs :: "guint8 list"
  assume "simple_repr h0 s xs" and b: "unat (pos :: guint64) + length bs \<le> length xs" "bs \<noteq> []"
  then obtain h a as ps where s: "s = (h, a, as)" and i: "sd_inv h a ps" "contents h a ps = xs" "total_size_in_bytes a = length xs"
    "(\<lambda>q. if q \<in> set ps then None else bufs h q) = bufs h0" "idxs h = idxs h0" "structs h = Suc (structs h0)"
    by (cases s) (auto simp: simple_repr_def)
  have u: "unat pos + length bs \<le> used_size a ps" using b(1) i(2) length_contents [OF i(1)] by simp
  then have "unat pos < SIMPLE_DYNAMIC_ARRAY_BUF_SIZE * length ps" using used_size_le [OF i(1)] b(2) by (cases bs) auto
  from simple_find [OF i(1) this] write_at [OF i(1) u b(2)] obtain h' where
    w: "write_simple_dynamic_array h a pos bs = Inr (0, h')" "sd_inv h' a ps" "contents h' a ps = splice_bytes (unat pos) bs xs" "only_bufs h h' ps"
    using i(2) by (auto simp: write_simple_dynamic_array_def)
  have "(\<lambda>q. if q \<in> set ps then None else bufs h' q) = bufs h0" using only_bufs_frame w(4) i(4) by blast
  then have "simple_repr h0 (h', a, as) (splice_bytes (unat pos) bs xs)"
    unfolding simple_repr_def prod.case using w(2-4) i(3,5,6) b(1) by (auto simp: only_bufs_def)
  then show "\<exists>s'. simple_wr s pos bs = Inr (0, s') \<and> simple_repr h0 s' (splice_bytes (unat pos) bs xs)"
    using w(1) by (auto simp: simple_wr_def s)
qed

lemma simple_free:
  assumes "simple_repr h0 (h, a, as) xs"
  shows "\<exists>h'. free_simple_dynamic_array h a = Inr h' \<and> bufs h' = bufs h0 \<and> idxs h' = idxs h0 \<and> structs h' = structs h0"
proof -
  from assms obtain ps where i: "sd_inv h a ps" "(\<lambda>q. if q \<in> set ps then None else bufs h q) = bufs h0" "idxs h = idxs h0"
    "structs h = Suc (structs h0)" by (auto simp: simple_repr_def)
  have "bpath h (Some (first_dyn_buf a)) ps None" "distinct ps" "\<forall>q \<in> set ps. q < fresh h"
    using i(1) bpath_below by (auto simp: sd_inv_def)
  from release_chain [OF this] show ?thesis using i(2-4) by (simp add: free_simple_dynamic_array_def free_struct_def)
qed

lemma to_disk_chain:
  "bpath h p qs None \<Longrightarrow> distinct qs \<Longrightarrow> qs \<noteq> [] \<Longrightarrow> last qs = last_dyn_buf a \<Longrightarrow> length qs \<le> k \<Longrightarrow>
   bytes_used a \<le> SIMPLE_DYNAMIC_ARRAY_BUF_SIZE \<Longrightarrow>
   write_to_disk_loop (\<lambda>f d. (0, f @ d)) k h a p f =
     Inr (0, f @ chain_bytes h (butlast qs) @ take (bytes_used a) (buf_at h (last_dyn_buf a)))"
proof (induction qs arbitrary: p f k)
  case (Cons q qs)
  from Cons.prems(1) obtain b where b: "p = Some q" "bufs h q = Some b" "length (buf b) = SIMPLE_DYNAMIC_ARRAY_BUF_SIZE"
    "bpath h (next_dyn_buf b) qs None" by auto
  obtain j where k: "k = Suc j" using Cons.prems(5) by (cases k) auto
  show ?case
  proof (cases "qs = []")
    case True
    then show ?thesis using b k Cons.prems(4,6) by (simp add: Let_def)
  next
    case False
    have n: "next_dyn_buf b \<noteq> None" using b(4) False by (cases qs) auto
    have l: "last qs = last_dyn_buf a" "q \<noteq> last_dyn_buf a"
      using Cons.prems(2,4) False last_in_set [OF False] by (simp, metis distinct.simps(2) last_ConsR)
    from Cons.IH [OF b(4) _ False l(1), of j] Cons.prems(2,5,6) k show ?thesis using b n l(2) False by (simp add: Let_def)
  qed
qed simp

lemma create_simple_ok:
  assumes "dheap_ok h0"
  shows "\<exists>r h as'. ic_create_simple_dynamic_array as h0 = Inr (r, h, as') \<and>
    (case r of None \<Rightarrow> as \<noteq> [] \<and> h = h0 | Some a \<Rightarrow> (as = [] \<longrightarrow> as' = []) \<and> simple_repr h0 (h, a, as') [] \<and>
       h = h0\<lparr>bufs := (bufs h0)(fresh h0 \<mapsto> empty_buf), fresh := Suc (fresh h0), structs := Suc (structs h0)\<rparr> \<and>
       first_dyn_buf a = fresh h0 \<and> last_dyn_buf a = fresh h0 \<and> bytes_used a = 0 \<and> total_size_in_bytes a = 0)"
proof -
  have n: "bufs h0 (fresh h0) = None" using assms by (simp add: dheap_ok_def)
  define h1 where "h1 = h0\<lparr>structs := Suc (structs h0)\<rparr>"
  define h2 where "h2 = h0\<lparr>bufs := (bufs h0)(fresh h0 \<mapsto> empty_buf), fresh := Suc (fresh h0), structs := Suc (structs h0)\<rparr>"
  define a where "a = \<lparr>first_dyn_buf = fresh h0, last_dyn_buf = fresh h0, bytes_used = 0, top_dyn_index = 0, first_dyn_index = 0,
      last_dyn_index = 0, index_levels = 0, total_size_in_bytes = 0\<rparr>"
  have inv: "sd_inv h2 a [fresh h0]" using assms by (auto simp: sd_inv_def a_def h2_def dheap_ok_def empty_buf_def)
  have fr: "(\<lambda>q. if q \<in> set [fresh h0] then None else bufs h2 q) = bufs h0" using n by (auto simp: h2_def)
  have "contents h2 a [fresh h0] = []" by (simp add: contents_def used_size_def a_def)
  then have repr: "simple_repr h0 (h2, a, as') []" for as' unfolding simple_repr_def prod.case using inv fr
    by (intro exI [of _ "[fresh h0]"]) (simp add: h2_def a_def)
  show ?thesis
  proof (cases "fst (alloc_next as) \<and> fst (alloc_next (snd (alloc_next as)))")
    case True
    then have "ic_create_simple_dynamic_array as h0 = Inr (Some a, h2, snd (alloc_next (snd (alloc_next as))))"
      by (cases "alloc_next as"; cases "alloc_next (snd (alloc_next as))")
        (simp add: ic_create_simple_dynamic_array_def calloc_struct_def calloc_buf_def h2_def a_def)
    then show ?thesis using repr by (auto simp: h2_def a_def)
  next
    case False
    then have "as \<noteq> []" by auto
    moreover have "\<exists>as'. ic_create_simple_dynamic_array as h0 = Inr (None, h0, as')"
      using False by (cases "alloc_next as"; cases "alloc_next (snd (alloc_next as))")
        (auto simp: ic_create_simple_dynamic_array_def calloc_struct_def calloc_buf_def free_struct_def)
    ultimately show ?thesis by auto
  qed
qed

section \<open>Properties\<close>

text \<open>
  C20. A simple dynamic array is a growing list of bytes. After any insertions into a new array, of
  any sizes and with any outcomes of the allocations, no call has faulted, every return code is 0 or
  \<open>IC_ERROR_MEM_ALLOC\<close>, the size is the number of bytes of the insertions that returned 0, every
  read inside this range returns these bytes, the bytes written to disk are exactly these, and freeing
  the array leaves the heap as it was before the array was created.
\<close>

theorem simple_array_is_bytes:
  assumes "dheap_ok h0" and "ic_create_simple_dynamic_array as h0 = Inr (Some a, h, as1)" and "length (concat bss) < 18446744073709551616"
  shows "\<exists>rcs h' a' as'. insert_all simple_ins (h, a, as1) bss = Inr (rcs, (h', a', as')) \<and> set rcs \<subseteq> {0, IC_ERROR_MEM_ALLOC} \<and>
    (as = [] \<longrightarrow> set rcs \<subseteq> {0}) \<and> get_current_size a' = length (accepted rcs bss) \<and>
    (\<forall>pos n. 0 < n \<and> unat pos + unat n \<le> length (accepted rcs bss) \<longrightarrow>
       read_simple_dynamic_array h' a' pos n = Inr (Some (take (unat n) (drop (unat pos) (accepted rcs bss))))) \<and>
    write_simple_dynamic_array_to_disk (\<lambda>f d. (0, f @ d)) h' a' [] = Inr (0, accepted rcs bss) \<and>
    (\<exists>h2. free_simple_dynamic_array h' a' = Inr h2 \<and> bufs h2 = bufs h0 \<and> idxs h2 = idxs h0 \<and> structs h2 = structs h0)"
proof -
  have r0: "simple_repr h0 (h, a, as1) []" "as = [] \<longrightarrow> dyn_plenty (h, a, as1)"
    using create_simple_ok [OF assms(1), of as] assms(2) by (auto simp: dyn_plenty_def)
  from sda.insert_all_repr [OF r0(1), of bss] obtain rcs h' a' as' where
    r: "insert_all simple_ins (h, a, as1) bss = Inr (rcs, (h', a', as'))" "length rcs = length bss" "set rcs \<subseteq> {0, IC_ERROR_MEM_ALLOC}"
      "as = [] \<longrightarrow> set rcs \<subseteq> {0}" "simple_repr h0 (h', a', as') (accepted rcs bss)" using r0(2) by auto
  have len: "length (accepted rcs bss) < 18446744073709551616" using accepted_length [OF r(2)] assms(3) by simp
  from r(5) obtain ps where i: "sd_inv h' a' ps" "contents h' a' ps = accepted rcs bss" "total_size_in_bytes a' = length (accepted rcs bss)"
    by (auto simp: simple_repr_def)
  have p: "bpath h' (Some (first_dyn_buf a')) ps None" "distinct ps" "ps \<noteq> []" "last ps = last_dyn_buf a'"
    "bytes_used a' \<le> SIMPLE_DYNAMIC_ARRAY_BUF_SIZE" "dheap_ok h'" using i(1) by (auto simp: sd_inv_def)
  have "set ps \<subseteq> {..<fresh h'}" using bpath_below [OF p(1,6)] by auto
  then have "length ps \<le> fresh h'" using p(2) by (metis card_lessThan card_mono distinct_card finite_lessThan)
  from to_disk_chain [OF p(1-4) this p(5), of "[]"]
  have disk: "write_simple_dynamic_array_to_disk (\<lambda>f d. (0, f @ d)) h' a' [] = Inr (0, accepted rcs bss)"
    using contents_last [OF i(1)] i(2) by (simp add: write_simple_dynamic_array_to_disk_def)
  have "read_simple_dynamic_array h' a' pos n = Inr (Some (take (unat n) (drop (unat pos) (accepted rcs bss))))"
    if "0 < n" "unat pos + unat n \<le> length (accepted rcs bss)" for pos n
    using sda.read_law [OF r(5) that(2,1) len] by (simp add: simple_rd_def)
  then show ?thesis using r(1,3,4) i(3) disk simple_free [OF r(5)] unfolding get_current_size_def by blast
qed

definition no_heap :: dheap where
  "no_heap = \<lparr>bufs = (\<lambda>_. None), idxs = (\<lambda>_. None), fresh = 0, structs = 0\<rparr>"

lemma no_heap_ok: "dheap_ok no_heap"
  by (simp add: dheap_ok_def no_heap_def)

theorem simple_array_is_bytes_witness:
  "\<exists>a h as1 rcs h' a' as'. ic_create_simple_dynamic_array [] no_heap = Inr (Some a, h, as1) \<and>
     insert_all simple_ins (h, a, as1) [[1, 2], replicate 3000 7, [3]] = Inr (rcs, (h', a', as')) \<and> set rcs \<subseteq> {0} \<and>
     write_simple_dynamic_array_to_disk (\<lambda>f d. (0, f @ d)) h' a' [] = Inr (0, accepted rcs [[1, 2], replicate 3000 7, [3]])"
proof -
  obtain a h as1 where c: "ic_create_simple_dynamic_array [] no_heap = Inr (Some a, h, as1)"
    using create_simple_ok [OF no_heap_ok, of "[]"] by (auto split: option.splits)
  have "length (concat [[1, 2], replicate 3000 7, [3 :: guint8]]) < 18446744073709551616"
    by simp
  from simple_array_is_bytes [OF no_heap_ok c this] c show ?thesis by blast
qed

end
