(* ===== verification/IC_Ord_Array.thy ===== *)
theory IC_Ord_Array
  imports IC_Dyn_Array
begin

text \<open>
  \<^verbatim>\<open>src/util/ic_dyn_array.c\<close>, the ordered dynamic array: the tree of index nodes above the list of
  buffers. The buffers are the children of the lowest level of nodes, 128 to a node, and the nodes of each
  level the children of the next; all nodes are also linked into one list, whose last element is the
  last node of the lowest level. An insertion that runs out of memory while it extends the index
  takes back what it did.

  Results: the tree stays complete and balanced under insertion; the descent through the tree finds
  the buffer the walk along the list finds; the array is a byte array in the sense of
  \<open>byte_array\<close>, also when insertions fail.
\<close>

section \<open>Ordered dynamic arrays\<close>

definition insert_dyn_index_list ::
  "dheap \<Rightarrow> ic_dynamic_array_int \<Rightarrow> nat \<Rightarrow> fault + (dheap \<times> ic_dynamic_array_int)"
where
  "insert_dyn_index_list h a dyn_index =
     c_bind (upd_idx h (last_dyn_index a) (\<lambda>x. x\<lparr>next_dyn_index := Some dyn_index\<rparr>)) (\<lambda>h.
       Inr (h, a\<lparr>last_dyn_index := dyn_index\<rparr>))"

text \<open>
  The new top node \<open>t\<close> above the full top node \<open>d\<close> and its new sibling \<open>n\<close>.
\<close>

definition new_top_node ::
  "dheap \<Rightarrow> ic_dynamic_array_int \<Rightarrow> nat \<Rightarrow> nat \<Rightarrow> nat \<Rightarrow> fault + (dheap \<times> ic_dynamic_array_int)"
where
  "new_top_node h a d n t =
     c_bind (insert_dyn_index_list h a t) (\<lambda>(h, a).
     c_bind (insert_dyn_index_list h a n) (\<lambda>(h, a).
     c_bind (upd_idx h d (\<lambda>x. x\<lparr>parent_dyn_index := Some t\<rparr>)) (\<lambda>h.
     c_bind (upd_idx h n (\<lambda>x. x\<lparr>parent_dyn_index := Some t\<rparr>)) (\<lambda>h.
     c_bind (upd_idx h t (\<lambda>x. x\<lparr>child_ptrs := (child_ptrs x)[0 := Some d, 1 := Some n], next_index_to_insert := 2\<rparr>)) (\<lambda>h.
       Inr (h, a\<lparr>index_levels := index_levels a + 1, top_dyn_index := t\<rparr>))))))"

text \<open>The last lines: the child is entered at \<open>i\<close>.\<close>

definition enter_child :: "dheap \<Rightarrow> nat \<Rightarrow> nat \<Rightarrow> nat \<Rightarrow> fault + dheap" where
  "enter_child h d i child_ptr =
     c_bind (get_idx h d) (\<lambda>x. c_bind (wr (child_ptrs x) i (Some child_ptr)) (\<lambda>cs.
       upd_idx h d (\<lambda>x. x\<lparr>child_ptrs := cs, next_index_to_insert := i + 1\<rparr>)))"

text \<open>
  The second result is the node stored through \<^verbatim>\<open>new_parent\<close>, if any. The recursion goes to the
  parent; the first argument bounds its depth.
\<close>

fun insert_buf_in_ordered_dynamic_index ::
  "nat \<Rightarrow> allocs \<Rightarrow> dheap \<Rightarrow> ic_dynamic_array_int \<Rightarrow> nat \<Rightarrow> nat \<Rightarrow>
   fault + (err \<times> nat option \<times> dheap \<times> ic_dynamic_array_int \<times> allocs)"
where
  "insert_buf_in_ordered_dynamic_index 0 as h a dyn_index child_ptr = Inl Diverges"
| "insert_buf_in_ordered_dynamic_index (Suc k) as h a dyn_index child_ptr =
     c_bind (get_idx h dyn_index) (\<lambda>x.
     if next_index_to_insert x \<noteq> ORDERED_DYNAMIC_INDEX_SIZE
     then c_bind (enter_child h dyn_index (next_index_to_insert x) child_ptr) (\<lambda>h. Inr (0, None, h, a, as))
     else case calloc_idx as h of
         (None, h, as) \<Rightarrow> Inr (IC_ERROR_MEM_ALLOC, None, h, a, as)
       | (Some n, h, as) \<Rightarrow>
           (case parent_dyn_index x of
              Some q \<Rightarrow>
                c_bind (insert_buf_in_ordered_dynamic_index k as h a q n) (\<lambda>(rc, new_parent, h, a, as).
                if rc \<noteq> 0 then c_bind (free_idx h n) (\<lambda>h. Inr (rc, Some n, h, a, as))
                else c_bind (insert_dyn_index_list h a n) (\<lambda>(h, a).
                     c_bind (get_idx h dyn_index) (\<lambda>x.
                     c_bind (upd_idx h n (\<lambda>y. y\<lparr>parent_dyn_index :=
                               (if new_parent = None then parent_dyn_index x else new_parent)\<rparr>)) (\<lambda>h.
                     c_bind (enter_child h n 0 child_ptr) (\<lambda>h. Inr (0, Some n, h, a, as))))))
            | None \<Rightarrow>
                case calloc_idx as h of
                    (None, h, as) \<Rightarrow> c_bind (free_idx h n) (\<lambda>h. Inr (IC_ERROR_MEM_ALLOC, Some n, h, a, as))
                  | (Some t, h, as) \<Rightarrow>
                      c_bind (new_top_node h a dyn_index n t) (\<lambda>(h, a).
                      c_bind (enter_child h n 0 child_ptr) (\<lambda>h. Inr (0, Some n, h, a, as)))))"

text \<open>
  The two loops along the parents, which save and restore the fill counts; the first argument bounds
  the length of the path.
\<close>

fun walk_up :: "(ic_dynamic_array_index \<Rightarrow> ic_dynamic_array_index) \<Rightarrow> nat \<Rightarrow> dheap \<Rightarrow> nat option \<Rightarrow> fault + dheap" where
  "walk_up f k h None = Inr h"
| "walk_up f 0 h (Some p) = Inl Diverges"
| "walk_up f (Suc k) h (Some p) =
     c_bind (get_idx h p) (\<lambda>x. c_bind (upd_idx h p f) (\<lambda>h. walk_up f k h (parent_dyn_index x)))"

definition save_counts :: "nat \<Rightarrow> dheap \<Rightarrow> nat option \<Rightarrow> fault + dheap" where
  "save_counts = walk_up (\<lambda>x. x\<lparr>old_next_index_to_insert := next_index_to_insert x\<rparr>)"

definition restore_counts :: "nat \<Rightarrow> dheap \<Rightarrow> nat option \<Rightarrow> fault + dheap" where
  "restore_counts = walk_up (\<lambda>x. x\<lparr>next_index_to_insert := old_next_index_to_insert x\<rparr>)"

text \<open>The error path of \<^verbatim>\<open>insert_ordered_dynamic_array\<close>; \<open>a0\<close> is the array as it was at the call.\<close>

definition undo_insert ::
  "dheap \<Rightarrow> ic_dynamic_array_int \<Rightarrow> ic_dynamic_array_int \<Rightarrow> fault + (dheap \<times> ic_dynamic_array_int)"
where
  "undo_insert h a a0 =
     c_bind (get_buf h (last_dyn_buf a0)) (\<lambda>b.
     c_bind (release_dyn_buf h (next_dyn_buf b)) (\<lambda>h.
     c_bind (upd_buf h (last_dyn_buf a0) (\<lambda>b. b\<lparr>next_dyn_buf := None\<rparr>)) (\<lambda>h.
     c_bind (restore_counts (fresh h) h (Some (last_dyn_index a0))) (\<lambda>h.
     c_bind (get_idx h (last_dyn_index a0)) (\<lambda>x.
     c_bind (release_dyn_index h (next_dyn_index x)) (\<lambda>h.
     c_bind (upd_idx h (last_dyn_index a0) (\<lambda>x. x\<lparr>next_dyn_index := None\<rparr>)) (\<lambda>h.
     c_bind (upd_idx h (top_dyn_index a0) (\<lambda>x. x\<lparr>parent_dyn_index := None\<rparr>)) (\<lambda>h.
       Inr (h, a\<lparr>last_dyn_buf := last_dyn_buf a0, bytes_used := bytes_used a0, last_dyn_index := last_dyn_index a0,
                top_dyn_index := top_dyn_index a0, index_levels := index_levels a0\<rparr>)))))))))"

text \<open>The loop that enters the new buffers into the index; \<open>size\<close> and \<open>buf_size\<close> are those of its assertion.\<close>

function index_new_bufs ::
  "allocs \<Rightarrow> dheap \<Rightarrow> ic_dynamic_array_int \<Rightarrow> nat \<Rightarrow> nat \<Rightarrow> nat \<Rightarrow> fault + (err \<times> dheap \<times> ic_dynamic_array_int \<times> allocs)"
where
  "index_new_bufs as h a loop_dyn_buf sz buf_size =
     (if loop_dyn_buf = last_dyn_buf a then Inr (0, h, a, as)
      else c_bind (get_buf h loop_dyn_buf) (\<lambda>b.
           if \<not> (sz + (SIMPLE_DYNAMIC_ARRAY_BUF_SIZE - 1) \<ge> buf_size + SIMPLE_DYNAMIC_ARRAY_BUF_SIZE) then Inl AssertFail
           else c_bind (deref (next_dyn_buf b)) (\<lambda>p.
             c_bind (insert_buf_in_ordered_dynamic_index (fresh h) as h a (last_dyn_index a) p) (\<lambda>(rc, np, h, a, as).
               if rc \<noteq> 0 then Inr (rc, h, a, as)
               else index_new_bufs as h a p sz (buf_size + SIMPLE_DYNAMIC_ARRAY_BUF_SIZE)))))"
  by pat_completeness auto

termination index_new_bufs
  by (relation "measure (\<lambda>(as, h, a, p, sz, bz). sz + 1024 - bz)") (auto simp: dyn_sizes)

declare index_new_bufs.simps [simp del]

definition insert_ordered_dynamic_array ::
  "allocs \<Rightarrow> dheap \<Rightarrow> ic_dynamic_array_int \<Rightarrow> guint8 list \<Rightarrow> fault + (err \<times> dheap \<times> ic_dynamic_array_int \<times> allocs)"
where
  "insert_ordered_dynamic_array as h a bs =
     c_bind (save_counts (fresh h) h (Some (last_dyn_index a))) (\<lambda>h.
     c_bind (insert_simple_dynamic_array as h a bs) (\<lambda>(rc, h, a1, as).
       if rc \<noteq> 0 then Inr (rc, h, a1, as)
       else c_bind (index_new_bufs as h a1 (last_dyn_buf a) (length bs) 0) (\<lambda>(rc, h, a2, as).
         if rc \<noteq> 0 then c_bind (undo_insert h a2 a) (\<lambda>(h, a3). Inr (rc, h, a3, as))
         else Inr (0, h, a2, as))))"

text \<open>
  The descent through the index. \<open>p\<close> is the pointer of the loop, an index node or, at the end, a
  buffer; nothing is the return code 1.
\<close>

fun find_pos_ordered_loop :: "dheap \<Rightarrow> nat \<Rightarrow> nat \<Rightarrow> nat \<Rightarrow> nat option \<Rightarrow> fault + (nat option \<times> nat) option" where
  "find_pos_ordered_loop h 0 log_index new_pos p = Inr (Some (p, new_pos))"
| "find_pos_ordered_loop h (Suc k) log_index new_pos p =
     (let index = new_pos div 2 ^ log_index; new_pos = new_pos - index * 2 ^ log_index in
      if index \<ge> ORDERED_DYNAMIC_INDEX_SIZE then Inr None
      else c_bind (deref p) (\<lambda>d. c_bind (get_idx h d) (\<lambda>x. c_bind (rd (child_ptrs x) index) (\<lambda>c.
             find_pos_ordered_loop h k (log_index - LOG_ORDERED_DYNAMIC_INDEX_SIZE) new_pos c))))"

definition find_pos_ordered_dyn_array :: "dheap \<Rightarrow> ic_dynamic_array_int \<Rightarrow> nat \<Rightarrow> fault + (nat option \<times> nat) option" where
  "find_pos_ordered_dyn_array h a pos =
     find_pos_ordered_loop h (index_levels a)
       (LOG_SIMPLE_DYNAMIC_ARRAY_BUF_SIZE + LOG_ORDERED_DYNAMIC_INDEX_SIZE * (index_levels a - 1)) pos (Some (top_dyn_index a))"

definition write_ordered_dynamic_array ::
  "dheap \<Rightarrow> ic_dynamic_array_int \<Rightarrow> guint64 \<Rightarrow> guint8 list \<Rightarrow> fault + (err \<times> dheap)"
where
  "write_ordered_dynamic_array h a position bs =
     c_bind (find_pos_ordered_dyn_array h a (unat position)) (\<lambda>r. case r of
         None \<Rightarrow> Inr (1, h)
       | Some (p, i) \<Rightarrow> write_pos_simple_dynamic_array h p i bs)"

definition read_ordered_dynamic_array ::
  "dheap \<Rightarrow> ic_dynamic_array_int \<Rightarrow> guint64 \<Rightarrow> guint64 \<Rightarrow> fault + guint8 list option"
where
  "read_ordered_dynamic_array h a position n =
     (if unat (position + n) > total_size_in_bytes a then Inr None
      else c_bind (find_pos_ordered_dyn_array h a (unat position)) (\<lambda>r. case r of
          None \<Rightarrow> Inr None
        | Some (p, i) \<Rightarrow> read_pos_simple_dynamic_array h p i (unat n)))"

definition free_ordered_dynamic_array :: "dheap \<Rightarrow> ic_dynamic_array_int \<Rightarrow> fault + dheap" where
  "free_ordered_dynamic_array h a =
     c_bind (release_dyn_index h (Some (first_dyn_index a))) (\<lambda>h. free_simple_dynamic_array h a)"

definition ic_create_ordered_dynamic_array ::
  "allocs \<Rightarrow> dheap \<Rightarrow> fault + (ic_dynamic_array_int option \<times> dheap \<times> allocs)"
where
  "ic_create_ordered_dynamic_array as h =
     (case calloc_idx as h of
        (None, h, as) \<Rightarrow> Inr (None, h, as)
      | (Some x, h, as) \<Rightarrow> c_bind (ic_create_simple_dynamic_array as h) (\<lambda>(r, h, as). case r of
            None \<Rightarrow> c_bind (free_idx h x) (\<lambda>h. Inr (None, h, as))
          | Some a \<Rightarrow> c_bind (upd_idx h x (\<lambda>y. y\<lparr>child_ptrs := (child_ptrs y)[0 := Some (first_dyn_buf a)], next_index_to_insert := 1\<rparr>)) (\<lambda>h.
              Inr (Some (a\<lparr>top_dyn_index := x, first_dyn_index := x, last_dyn_index := x, index_levels := 1\<rparr>), h, as))))"


section \<open>The index tree\<close>

text \<open>What of a node the tree is made of: its fill count, its children and its parent.\<close>

definition core :: "ic_dynamic_array_index \<Rightarrow> nat \<times> nat option list \<times> nat option" where
  "core x = (next_index_to_insert x, child_ptrs x, parent_dyn_index x)"

definition node_ok :: "nat \<times> nat option list \<times> nat option \<Rightarrow> nat list \<Rightarrow> nat \<Rightarrow> nat option \<Rightarrow> bool" where
  "node_ok c cs j par \<longleftrightarrow> (case c of (n, ch, p) \<Rightarrow> length ch = 128 \<and> n = min 128 (length cs - 128 * j) \<and>
     (\<forall>k < n. ch ! k = Some (cs ! (128 * j + k))) \<and> p = par)"

text \<open>The nodes \<open>ns\<close> hold the children \<open>cs\<close>, 128 to a node.\<close>

definition level :: "dheap \<Rightarrow> nat list \<Rightarrow> nat list \<Rightarrow> (nat \<Rightarrow> nat option) \<Rightarrow> bool" where
  "level h cs ns par \<longleftrightarrow> 128 * (length ns - 1) < length cs \<and> length cs \<le> 128 * length ns \<and>
     (\<forall>j < length ns. \<exists>x. idxs h (ns ! j) = Some x \<and> node_ok (core x) cs j (par j))"

fun tree :: "dheap \<Rightarrow> nat list \<Rightarrow> nat list list \<Rightarrow> nat \<Rightarrow> bool" where
  "tree h cs [] tp \<longleftrightarrow> False"
| "tree h cs [ns] tp \<longleftrightarrow> ns = [tp] \<and> level h cs ns (\<lambda>_. None)"
| "tree h cs (ns # ms # rest) tp \<longleftrightarrow>
     2 \<le> length ns \<and> level h cs ns (\<lambda>j. Some (ms ! (j div 128))) \<and> tree h ns (ms # rest) tp"

lemma heap_idx_simps [simp]:
  "idxs h q = Some x \<Longrightarrow> get_idx h q = Inr x"
  "idxs h q = Some x \<Longrightarrow> upd_idx h q f = Inr (h\<lparr>idxs := (idxs h)(q \<mapsto> f x)\<rparr>)"
  by (simp_all add: get_idx_def upd_idx_def)

text \<open>The slots of a node beyond its fill count do not matter.\<close>

definition sim_node :: "ic_dynamic_array_index \<Rightarrow> ic_dynamic_array_index \<Rightarrow> bool" where
  "sim_node x x' \<longleftrightarrow> next_index_to_insert x' = next_index_to_insert x \<and> parent_dyn_index x' = parent_dyn_index x \<and>
     length (child_ptrs x') = length (child_ptrs x) \<and>
     take (next_index_to_insert x) (child_ptrs x') = take (next_index_to_insert x) (child_ptrs x)"

lemma sim_node_ok:
  assumes "node_ok (core x) cs j par" and "sim_node x x'"
  shows "node_ok (core x') cs j par"
proof -
  have "child_ptrs x' ! k = child_ptrs x ! k" if "k < next_index_to_insert x" for k
    using assms(2) nth_take [OF that, of "child_ptrs x"] nth_take [OF that, of "child_ptrs x'"] by (simp add: sim_node_def)
  then show ?thesis using assms by (simp add: sim_node_def node_ok_def core_def)
qed

lemma level_sim:
  assumes "level h cs ns par" and "\<And>q x. q \<in> set ns \<Longrightarrow> idxs h q = Some x \<Longrightarrow> \<exists>x'. idxs h' q = Some x' \<and> sim_node x x'"
  shows "level h' cs ns par"
  unfolding level_def
proof (intro conjI allI impI)
  fix j
  assume j: "j < length ns"
  then obtain x where x: "idxs h (ns ! j) = Some x" "node_ok (core x) cs j (par j)" using assms(1) by (auto simp: level_def)
  then show "\<exists>x. idxs h' (ns ! j) = Some x \<and> node_ok (core x) cs j (par j)"
    using assms(2) [OF _ x(1)] sim_node_ok [OF x(2)] j by fastforce
qed (use assms(1) in \<open>simp_all add: level_def\<close>)

lemma tree_sim:
  "tree h cs lvs tp \<Longrightarrow> (\<And>q x. q \<in> set (concat lvs) \<Longrightarrow> idxs h q = Some x \<Longrightarrow> \<exists>x'. idxs h' q = Some x' \<and> sim_node x x') \<Longrightarrow>
   tree h' cs lvs tp"
proof (induction h cs lvs tp rule: tree.induct)
  case (2 h cs ns tp)
  then have lv: "level h cs ns (\<lambda>_. None)" "ns = [tp]" by auto
  have "level h' cs ns (\<lambda>_. None)" by (rule level_sim [OF lv(1)]) (use "2.prems"(2) in auto)
  then show ?case using lv(2) by simp
next
  case (3 h cs ns ms rest tp)
  then have lv: "level h cs ns (\<lambda>j. Some (ms ! (j div 128)))" by simp
  have "level h' cs ns (\<lambda>j. Some (ms ! (j div 128)))" by (rule level_sim [OF lv]) (use "3.prems"(2) in auto)
  then show ?case using 3 by simp
qed simp

lemma tree_cong:
  assumes "tree h cs lvs tp" and "\<And>q. q \<in> set (concat lvs) \<Longrightarrow> map_option core (idxs h' q) = map_option core (idxs h q)"
  shows "tree h' cs lvs tp"
proof (rule tree_sim [OF assms(1)])
  fix q x
  assume "q \<in> set (concat lvs)" "idxs h q = Some x"
  then obtain x' where "idxs h' q = Some x'" "core x' = core x" using assms(2) by fastforce
  then show "\<exists>x'. idxs h' q = Some x' \<and> sim_node x x'" by (simp add: core_def sim_node_def)
qed

lemma tree_live: "tree h cs lvs tp \<Longrightarrow> q \<in> set (concat lvs) \<Longrightarrow> idxs h q \<noteq> None"
proof (induction h cs lvs tp rule: tree.induct)
  case (2 h cs ns tp)
  then show ?case by (auto simp: level_def)
next
  case (3 h cs ns ms rest tp)
  have "\<exists>x. idxs h r = Some x" if "r \<in> set ns" for r
    using "3.prems"(1) that by (auto simp: level_def in_set_conv_nth)
  then show ?case using 3 by auto
qed simp

lemma tree_top_in: "tree h cs lvs tp \<Longrightarrow> tp \<in> set (concat lvs)"
  by (induction h cs lvs tp rule: tree.induct) auto

lemma tree_last_in: "tree h cs lvs tp \<Longrightarrow> set (map last lvs) \<subseteq> set (concat lvs)"
proof (induction h cs lvs tp rule: tree.induct)
  case (3 h cs ns ms rest tp)
  then have "last ns \<in> set ns" by (intro last_in_set) auto
  then show ?case using 3 by auto
qed auto

section \<open>The descent\<close>

lemma find_snoc:
  "find_pos_ordered_loop h (Suc k) lg pos p =
     c_bind (find_pos_ordered_loop h k lg pos p) (\<lambda>r. case r of
         None \<Rightarrow> Inr None
       | Some (q, pos') \<Rightarrow> find_pos_ordered_loop h (Suc 0) (lg - 7 * k) pos' q)"
proof (induction k arbitrary: lg pos p)
  case (Suc k)
  let ?i = "pos div 2 ^ lg"
  have e: "find_pos_ordered_loop h (Suc m) lg pos p =
      (if ?i \<ge> ORDERED_DYNAMIC_INDEX_SIZE then Inr None
       else c_bind (deref p) (\<lambda>d. c_bind (get_idx h d) (\<lambda>x. c_bind (rd (child_ptrs x) ?i) (\<lambda>c.
             find_pos_ordered_loop h m (lg - 7) (pos - ?i * 2 ^ lg) c))))" for m
    by (simp add: Let_def LOG_ORDERED_DYNAMIC_INDEX_SIZE_def)
  have l: "lg - 7 - 7 * k = lg - 7 * Suc k" by simp
  show ?case unfolding e [of "Suc k"] e [of k] unfolding Suc.IH l
    by (cases "?i \<ge> ORDERED_DYNAMIC_INDEX_SIZE") (simp_all only: c_bind_assoc c_bind_simps if_True if_False option.case)
qed simp

lemma node_child:
  assumes "level h cs ns par" and "i < length cs"
  shows "\<exists>x. idxs h (ns ! (i div 128)) = Some x \<and> length (child_ptrs x) = 128 \<and> child_ptrs x ! (i mod 128) = Some (cs ! i)"
proof -
  have "i div 128 < length ns" using assms by (auto simp: level_def less_mult_imp_div_less mult.commute)
  then obtain x where x: "idxs h (ns ! (i div 128)) = Some x" "node_ok (core x) cs (i div 128) (par (i div 128))"
    using assms(1) by (auto simp: level_def)
  have "i mod 128 < min 128 (length cs - 128 * (i div 128))" using assms(2) mult_div_mod_eq [of 128 i] by linarith
  then have "child_ptrs x ! (i mod 128) = Some (cs ! (128 * (i div 128) + i mod 128))"
    using x(2) by (simp add: node_ok_def core_def)
  then show ?thesis using x by (simp add: node_ok_def core_def)
qed

lemma step_down:
  assumes "level h cs ns par" and "pos div 2 ^ B < length cs"
  shows "find_pos_ordered_loop h (Suc 0) B (pos mod 2 ^ (B + 7)) (Some (ns ! (pos div 2 ^ (B + 7)))) =
    Inr (Some (Some (cs ! (pos div 2 ^ B)), pos mod 2 ^ B))"
proof -
  let ?i = "pos div 2 ^ B"
  have d: "pos div 2 ^ (B + 7) = ?i div 128" by (simp add: power_add div_mult2_eq)
  have m: "pos mod 2 ^ (B + 7) = 2 ^ B * (?i mod 128) + pos mod 2 ^ B" by (simp add: power_add mod_mult2_eq)
  have i: "(2 ^ B * (?i mod 128) + pos mod 2 ^ B) div 2 ^ B = ?i mod 128" by simp
  obtain x where "idxs h (ns ! (?i div 128)) = Some x" "length (child_ptrs x) = 128" "child_ptrs x ! (?i mod 128) = Some (cs ! ?i)"
    using node_child [OF assms] by blast
  then show ?thesis unfolding d m by (simp add: i deref_def dyn_sizes Let_def)
qed

lemma find_ok:
  "tree h cs lvs tp \<Longrightarrow> pos div 2 ^ B < length cs \<Longrightarrow>
   find_pos_ordered_loop h (length lvs) (B + 7 * (length lvs - 1)) pos (Some tp) = Inr (Some (Some (cs ! (pos div 2 ^ B)), pos mod 2 ^ B))"
proof (induction h cs lvs tp arbitrary: B rule: tree.induct)
  case (2 h cs ns tp)
  then have lv: "level h cs ns (\<lambda>_. None)" "ns = [tp]" by auto
  then have "length cs \<le> 128" by (simp add: level_def)
  then have "pos div 2 ^ B < 128" using 2 by simp
  then have "pos < 2 ^ (B + 7)" by (simp add: power_add div_less_iff_less_mult mult.commute)
  then show ?case using step_down [OF lv(1) "2.prems"(2)] lv(2) by simp
next
  case (3 h cs ns ms rest tp)
  let ?k = "length (ms # rest)"
  have lv: "level h cs ns (\<lambda>j. Some (ms ! (j div 128)))" using "3.prems"(1) by simp
  have "pos div 2 ^ (B + 7) = (pos div 2 ^ B) div 128" by (simp add: power_add div_mult2_eq)
  then have "pos div 2 ^ (B + 7) < length ns"
    using "3.prems"(2) lv by (auto simp: level_def less_mult_imp_div_less mult.commute)
  from "3.IH" [OF _ this] "3.prems"(1)
  have ih: "find_pos_ordered_loop h ?k (B + 7 + 7 * (?k - 1)) pos (Some tp) =
      Inr (Some (Some (ns ! (pos div 2 ^ (B + 7))), pos mod 2 ^ (B + 7)))" by simp
  have "B + 7 + 7 * (?k - 1) = B + 7 * ?k" by simp
  with ih have ih': "find_pos_ordered_loop h ?k (B + 7 * ?k) pos (Some tp) =
      Inr (Some (Some (ns ! (pos div 2 ^ (B + 7))), pos mod 2 ^ (B + 7)))" by metis
  have "find_pos_ordered_loop h (Suc ?k) (B + 7 * ?k) pos (Some tp) = Inr (Some (Some (cs ! (pos div 2 ^ B)), pos mod 2 ^ B))"
    using step_down [OF lv "3.prems"(2)]
    by (simp only: find_snoc [of h ?k "B + 7 * ?k" pos "Some tp"] ih' c_bind_simps option.case prod.case add_diff_cancel_right')
  then show ?case by simp
qed simp

section \<open>Insertion into the tree\<close>

fun ipath :: "dheap \<Rightarrow> nat option \<Rightarrow> nat list \<Rightarrow> nat option \<Rightarrow> bool" where
  "ipath h p [] e \<longleftrightarrow> p = e"
| "ipath h p (q # qs) e \<longleftrightarrow> p = Some q \<and> (\<exists>x. idxs h q = Some x \<and> ipath h (next_dyn_index x) qs e)"

lemma ipath_append [simp]: "ipath h p (xs @ ys) e \<longleftrightarrow> (\<exists>r. ipath h p xs r \<and> ipath h r ys e)"
  by (induction xs arbitrary: p) auto

lemma ipath_cong:
  "ipath h p qs e \<Longrightarrow> (\<And>q. q \<in> set qs \<Longrightarrow> map_option next_dyn_index (idxs h' q) = map_option next_dyn_index (idxs h q)) \<Longrightarrow>
   ipath h' p qs e"
proof (induction qs arbitrary: p)
  case (Cons q qs)
  then obtain x where x: "p = Some q" "idxs h q = Some x" "ipath h (next_dyn_index x) qs e" by auto
  then obtain x' where "idxs h' q = Some x'" "next_dyn_index x' = next_dyn_index x" using Cons.prems(2) [of q] by auto
  then show ?case using x Cons by auto
qed simp

text \<open>
  What an insertion keeps of the nodes it finds: only the link of the nodes \<open>LN\<close>, the parent of the nodes \<open>TP\<close> and
  the free slots and the fill count of the nodes \<open>SP\<close> change.
\<close>

definition keeps_node :: "ic_dynamic_array_index \<Rightarrow> ic_dynamic_array_index \<Rightarrow> bool \<Rightarrow> bool \<Rightarrow> bool \<Rightarrow> bool" where
  "keeps_node x x' ln tp sp \<longleftrightarrow> old_next_index_to_insert x' = old_next_index_to_insert x \<and>
     length (child_ptrs x') = length (child_ptrs x) \<and> next_index_to_insert x \<le> next_index_to_insert x' \<and>
     take (next_index_to_insert x) (child_ptrs x') = take (next_index_to_insert x) (child_ptrs x) \<and>
     (\<not> ln \<longrightarrow> next_dyn_index x' = next_dyn_index x) \<and> (\<not> tp \<longrightarrow> parent_dyn_index x' = parent_dyn_index x) \<and>
     (\<not> sp \<longrightarrow> next_index_to_insert x' = next_index_to_insert x \<and> child_ptrs x' = child_ptrs x)"

definition keeps :: "dheap \<Rightarrow> dheap \<Rightarrow> nat set \<Rightarrow> nat set \<Rightarrow> nat set \<Rightarrow> bool" where
  "keeps h h' LN TP SP \<longleftrightarrow> (\<forall>q < fresh h. (idxs h q = None \<longrightarrow> idxs h' q = None) \<and>
     (\<forall>x. idxs h q = Some x \<longrightarrow> (\<exists>x'. idxs h' q = Some x' \<and> keeps_node x x' (q \<in> LN) (q \<in> TP) (q \<in> SP))))"

lemma keepsD:
  "keeps h h' LN TP SP \<Longrightarrow> idxs h q = Some x \<Longrightarrow> q < fresh h \<Longrightarrow>
   \<exists>x'. idxs h' q = Some x' \<and> keeps_node x x' (q \<in> LN) (q \<in> TP) (q \<in> SP)"
  by (simp add: keeps_def)

lemma keeps_node_refl [simp]: "keeps_node x x ln tp sp"
  by (simp add: keeps_node_def)

lemma keeps_node_trans:
  assumes "keeps_node x y a b c" and "keeps_node y z a' b' c'" and "a' \<longrightarrow> a" and "b' \<longrightarrow> b" and "c' \<longrightarrow> c"
  shows "keeps_node x z a b c"
proof -
  have "take (next_index_to_insert x) (child_ptrs z) = take (next_index_to_insert x) (take (next_index_to_insert y) (child_ptrs z))"
    using assms(1) by (simp add: keeps_node_def min_absorb1)
  also have "\<dots> = take (next_index_to_insert x) (child_ptrs x)"
    using assms(1,2) by (simp add: keeps_node_def min_absorb1)
  finally show ?thesis using assms by (auto simp: keeps_node_def)
qed

lemma keeps_trans:
  assumes "keeps h h1 A B C" and "keeps h1 h2 A' B' C'" and "fresh h \<le> fresh h1"
    and "A' \<inter> {..<fresh h} \<subseteq> A" and "B' \<inter> {..<fresh h} \<subseteq> B" and "C' \<inter> {..<fresh h} \<subseteq> C"
  shows "keeps h h2 A B C"
  unfolding keeps_def
proof (intro allI impI conjI)
  fix q
  assume q: "q < fresh h"
  then have q1: "q < fresh h1" using assms(3) by simp
  show "idxs h2 q = None" if "idxs h q = None" using assms(1,2) q q1 that by (simp add: keeps_def)
  fix x
  assume "idxs h q = Some x"
  then obtain y where y: "idxs h1 q = Some y" "keeps_node x y (q \<in> A) (q \<in> B) (q \<in> C)" using assms(1) q by (auto simp: keeps_def)
  then obtain z where "idxs h2 q = Some z" "keeps_node y z (q \<in> A') (q \<in> B') (q \<in> C')" using assms(2) q1 by (auto simp: keeps_def)
  then show "\<exists>z. idxs h2 q = Some z \<and> keeps_node x z (q \<in> A) (q \<in> B) (q \<in> C)"
    using keeps_node_trans [OF y(2)] assms(4-6) q by blast
qed

text \<open>The levels \<open>lvs'\<close> are those of \<open>lvs\<close> with the nodes \<open>new\<close> added.\<close>

definition lv_ext :: "nat list list \<Rightarrow> nat list list \<Rightarrow> nat set \<Rightarrow> bool" where
  "lv_ext lvs lvs' new \<longleftrightarrow> length lvs \<le> length lvs' \<and> (\<forall>i < length lvs. \<exists>zs. lvs' ! i = lvs ! i @ zs) \<and>
     set (concat lvs') = set (concat lvs) \<union> new \<and> distinct (concat lvs')"

text \<open>The fields of the array that belong to the chain of buffers, and the start of the list of nodes.\<close>

definition same_data :: "ic_dynamic_array_int \<Rightarrow> ic_dynamic_array_int \<Rightarrow> bool" where
  "same_data a a' \<longleftrightarrow> first_dyn_buf a' = first_dyn_buf a \<and> last_dyn_buf a' = last_dyn_buf a \<and> bytes_used a' = bytes_used a \<and>
     first_dyn_index a' = first_dyn_index a \<and> total_size_in_bytes a' = total_size_in_bytes a"

definition ins_post ::
  "dheap \<Rightarrow> ic_dynamic_array_int \<Rightarrow> nat list \<Rightarrow> nat list list \<Rightarrow> nat \<Rightarrow> nat option \<Rightarrow> dheap \<Rightarrow> ic_dynamic_array_int \<Rightarrow>
   nat list list \<Rightarrow> nat list \<Rightarrow> bool"
where
  "ins_post h a cs lvs c np h' a' lvs' news \<longleftrightarrow>
     tree h' (cs @ [c]) lvs' (top_dyn_index a') \<and> lv_ext lvs lvs' {fresh h..<fresh h'} \<and>
     hd lvs' = hd lvs @ (case np of None \<Rightarrow> [] | Some n \<Rightarrow> [n]) \<and>
     keeps h h' {last_dyn_index a} {top_dyn_index a} (set (map last lvs)) \<and>
     distinct news \<and> set news = {fresh h..<fresh h'} \<and> np = (if news = [] then None else Some (last news)) \<and>
     (\<exists>l. idxs h' (last_dyn_index a) = Some l \<and> ipath h' (next_dyn_index l) news None) \<and>
     last_dyn_index a' = last (last_dyn_index a # news) \<and> index_levels a' = index_levels a + (length lvs' - length lvs) \<and>
     same_data a a' \<and> bufs h' = bufs h \<and> structs h' = structs h \<and> dheap_ok h' \<and> fresh h \<le> fresh h'"

definition no_change :: "dheap \<Rightarrow> dheap \<Rightarrow> bool" where
  "no_change h h' \<longleftrightarrow> idxs h' = idxs h \<and> bufs h' = bufs h \<and> structs h' = structs h \<and> fresh h \<le> fresh h' \<and> dheap_ok h'"

subsection \<open>One level\<close>

lemma level_last:
  assumes "level h cs ns par"
  shows "ns \<noteq> []" and "\<exists>x. idxs h (last ns) = Some x \<and> next_index_to_insert x = length cs - 128 * (length ns - 1) \<and>
    length (child_ptrs x) = 128 \<and> parent_dyn_index x = par (length ns - 1)"
proof -
  show ne: "ns \<noteq> []" using assms by (auto simp: level_def)
  then have "\<exists>x. idxs h (ns ! (length ns - 1)) = Some x \<and> node_ok (core x) cs (length ns - 1) (par (length ns - 1))"
    using assms by (simp add: level_def)
  moreover have "length cs - 128 * (length ns - 1) \<le> 128" using assms ne by (cases ns) (auto simp: level_def)
  ultimately show "\<exists>x. idxs h (last ns) = Some x \<and> next_index_to_insert x = length cs - 128 * (length ns - 1) \<and>
      length (child_ptrs x) = 128 \<and> parent_dyn_index x = par (length ns - 1)"
    using ne by (auto simp: last_conv_nth node_ok_def core_def)
qed

lemma level_full_iff:
  assumes "level h cs ns par"
  shows "length cs - 128 * (length ns - 1) = 128 \<longleftrightarrow> length cs = 128 * length ns"
  using assms level_last(1) [OF assms] by (cases ns) (auto simp: level_def)

lemma level_enter:
  assumes "level h cs ns par" and "distinct ns" and "length cs \<noteq> 128 * length ns" and "idxs h (last ns) = Some x"
    and "h' = h\<lparr>idxs := (idxs h)(last ns \<mapsto> x\<lparr>child_ptrs := (child_ptrs x)[next_index_to_insert x := Some c],
      next_index_to_insert := next_index_to_insert x + 1\<rparr>)\<rparr>"
  shows "level h' (cs @ [c]) ns par"
  unfolding level_def
proof (intro conjI allI impI)
  have ne: "ns \<noteq> []" using level_last(1) [OF assms(1)] .
  have b: "128 * (length ns - 1) < length cs" "length cs < 128 * length ns" using assms(1,3) by (auto simp: level_def)
  then show "128 * (length ns - 1) < length (cs @ [c])" "length (cs @ [c]) \<le> 128 * length ns" by auto
  fix j
  assume j: "j < length ns"
  then obtain y where y: "idxs h (ns ! j) = Some y" "node_ok (core y) cs j (par j)" using assms(1) by (auto simp: level_def)
  show "\<exists>x. idxs h' (ns ! j) = Some x \<and> node_ok (core x) (cs @ [c]) j (par j)"
  proof (cases "j = length ns - 1")
    case True
    then have l: "ns ! j = last ns" using ne by (simp add: last_conv_nth)
    then have "y = x" using y(1) assms(4) by simp
    then have "next_index_to_insert x = length cs - 128 * j" "length (child_ptrs x) = 128" "parent_dyn_index x = par j"
      "\<forall>k < next_index_to_insert x. child_ptrs x ! k = Some (cs ! (128 * j + k))"
      using y(2) b True by (auto simp: node_ok_def core_def)
    then have "node_ok (core (x\<lparr>child_ptrs := (child_ptrs x)[next_index_to_insert x := Some c],
      next_index_to_insert := next_index_to_insert x + 1\<rparr>)) (cs @ [c]) j (par j)"
      using b True by (auto simp: node_ok_def core_def nth_list_update nth_append less_Suc_eq)
    then show ?thesis using l by (simp add: assms(5))
  next
    case False
    then have "ns ! j \<noteq> last ns" using j assms(2) ne by (simp add: last_conv_nth nth_eq_iff_index_eq)
    moreover have "128 * j + 128 \<le> length cs" using False j b(1) by (cases ns) auto
    then have "node_ok (core y) (cs @ [c]) j (par j)" using y(2) by (auto simp: node_ok_def nth_append split: prod.splits)
    ultimately show ?thesis using y(1) by (simp add: assms(5))
  qed
qed

lemma level_new:
  assumes "ns \<noteq> []" and "length cs = 128 * length ns"
    and "\<And>j. j < length ns \<Longrightarrow> \<exists>x. idxs h (ns ! j) = Some x \<and> node_ok (core x) cs j (par j)"
    and "idxs h n = Some y" and "core y = (1, (replicate 128 None)[0 := Some c], par (length ns))"
  shows "level h (cs @ [c]) (ns @ [n]) par"
  unfolding level_def
proof (intro conjI allI impI)
  fix j
  assume j: "j < length (ns @ [n])"
  show "\<exists>x. idxs h ((ns @ [n]) ! j) = Some x \<and> node_ok (core x) (cs @ [c]) j (par j)"
  proof (cases "j < length ns")
    case True
    then obtain x where x: "idxs h (ns ! j) = Some x" "node_ok (core x) cs j (par j)" using assms(3) by blast
    have "128 * j + 128 \<le> length cs" using True assms(2) by simp
    then have "node_ok (core x) (cs @ [c]) j (par j)" using x(2) by (auto simp: node_ok_def nth_append split: prod.splits)
    then show ?thesis using x True by (simp add: nth_append)
  next
    case False
    then have "j = length ns" using j by simp
    then show ?thesis using assms(2,4,5) by (auto simp: node_ok_def nth_append)
  qed
qed (use assms(1,2) in auto)

lemma tree_level: "tree h cs (ns # rest) tp \<Longrightarrow> \<exists>par. level h cs ns par"
  by (cases rest) auto

lemma tree_replace:
  assumes "tree h cs (ns # rest) tp" and "\<And>par. level h cs ns par \<Longrightarrow> level h' cs' ns par"
    and "\<And>q. q \<in> set (concat rest) \<Longrightarrow> idxs h' q = idxs h q"
  shows "tree h' cs' (ns # rest) tp"
proof (cases rest)
  case Nil
  then show ?thesis using assms(1,2) by auto
next
  case (Cons ms rest')
  then have tr: "tree h ns rest tp" using assms(1) by simp
  have "tree h' ns rest tp" by (rule tree_cong [OF tr]) (simp add: assms(3))
  moreover have "level h' cs' ns (\<lambda>j. Some (ms ! (j div 128)))" using assms(1) Cons by (intro assms(2)) simp
  ultimately show ?thesis using assms(1) Cons by simp
qed

subsection \<open>The node has room\<close>

lemma insert_room:
  assumes "tree h cs (ns # rest) (top_dyn_index a)" and "distinct (concat (ns # rest))" and "dheap_ok h"
    and "idxs h (last_dyn_index a) = Some l" and "next_dyn_index l = None" and "length cs \<noteq> 128 * length ns"
  shows "\<exists>h'. insert_buf_in_ordered_dynamic_index (Suc k) as h a (last ns) c = Inr (0, None, h', a, as) \<and>
    ins_post h a cs (ns # rest) c None h' a (ns # rest) []"
proof -
  obtain par where lv: "level h cs ns par" using tree_level [OF assms(1)] by blast
  obtain x where x: "idxs h (last ns) = Some x" "next_index_to_insert x = length cs - 128 * (length ns - 1)" "length (child_ptrs x) = 128"
    using level_last(2) [OF lv] by blast
  have ne: "ns \<noteq> []" using level_last(1) [OF lv] .
  have nf: "next_index_to_insert x \<noteq> 128" using level_full_iff [OF lv] assms(6) x(2) by simp
  then have lt: "next_index_to_insert x < 128" using x(2) lv ne by (cases ns) (auto simp: level_def)
  define x' where "x' = x\<lparr>child_ptrs := (child_ptrs x)[next_index_to_insert x := Some c], next_index_to_insert := next_index_to_insert x + 1\<rparr>"
  define h' where "h' = h\<lparr>idxs := (idxs h)(last ns \<mapsto> x')\<rparr>"
  have eq: "insert_buf_in_ordered_dynamic_index (Suc k) as h a (last ns) c = Inr (0, None, h', a, as)"
    using x nf lt by (simp add: ORDERED_DYNAMIC_INDEX_SIZE_def enter_child_def h'_def x'_def)
  have dn: "distinct ns" "last ns \<notin> set (concat rest)" using assms(2) last_in_set [OF ne] by auto
  have tr: "tree h' (cs @ [c]) (ns # rest) (top_dyn_index a)"
  proof (rule tree_replace [OF assms(1)])
    fix par assume "level h cs ns par"
    then show "level h' (cs @ [c]) ns par" using level_enter [OF _ dn(1) assms(6) x(1)] by (simp add: h'_def x'_def)
  next
    fix q assume "q \<in> set (concat rest)"
    then show "idxs h' q = idxs h q" using dn(2) by (auto simp: h'_def)
  qed
  have "keeps_node x x' (last ns \<in> {last_dyn_index a}) (last ns \<in> {top_dyn_index a}) True"
    by (simp add: keeps_node_def x'_def)
  then have kp: "keeps h h' {last_dyn_index a} {top_dyn_index a} (set (map last (ns # rest)))"
    using x(1) by (auto simp: keeps_def h'_def)
  have "last ns < fresh h" using x(1) assms(3) by (metis dheap_ok_def not_le option.distinct(1))
  then have ok: "dheap_ok h'" using assms(3) by (auto simp: dheap_ok_def h'_def)
  have "\<exists>l. idxs h' (last_dyn_index a) = Some l \<and> ipath h' (next_dyn_index l) [] None"
    using assms(4,5) x(1) by (auto simp: h'_def x'_def)
  then have "ins_post h a cs (ns # rest) c None h' a (ns # rest) []"
    using tr kp ok assms(2) by (simp add: ins_post_def lv_ext_def h'_def same_data_def)
  then show ?thesis using eq by blast
qed

subsection \<open>A full top node\<close>

lemma insert_full_top:
  assumes "tree h cs [ns] (top_dyn_index a)" and "dheap_ok h"
    and "idxs h (last_dyn_index a) = Some l" and "next_dyn_index l = None" and "length cs = 128 * length ns"
  shows "\<exists>rc np h' a' as'. insert_buf_in_ordered_dynamic_index (Suc k) as h a (last ns) c = Inr (rc, np, h', a', as') \<and>
    (as = [] \<longrightarrow> rc = 0 \<and> as' = []) \<and>
    (rc = IC_ERROR_MEM_ALLOC \<and> a' = a \<and> no_change h h' \<or> rc = 0 \<and> (\<exists>lvs' news. ins_post h a cs [ns] c np h' a' lvs' news))"
proof -
  define d where "d = top_dyn_index a"
  have ns: "ns = [d]" and lv: "level h cs [d] (\<lambda>_. None)" using assms(1) by (auto simp: d_def)
  obtain x where x: "idxs h d = Some x" "node_ok (core x) cs 0 None" using lv by (auto simp: level_def)
  have x': "next_index_to_insert x = 128" "parent_dyn_index x = None" "length (child_ptrs x) = 128"
    using x(2) assms(5) ns by (auto simp: node_ok_def core_def)
  define n where "n = fresh h"
  define tp where "tp = Suc (fresh h)"
  have lt: "d < n" "last_dyn_index a < n" using x(1) assms(2,3) by (metis dheap_ok_def n_def not_le option.distinct(1))+
  have nn: "idxs h n = None" "idxs h tp = None" using assms(2) by (auto simp: dheap_ok_def n_def tp_def)
  show ?thesis
  proof (cases "fst (alloc_next as) \<and> fst (alloc_next (snd (alloc_next as)))")
    case False
    then have ne: "as \<noteq> []" by auto
    have "\<exists>np as' h'. insert_buf_in_ordered_dynamic_index (Suc k) as h a d c = Inr (IC_ERROR_MEM_ALLOC, np, h', a, as') \<and> no_change h h'"
    proof (cases "fst (alloc_next as)")
      case False
      then have "insert_buf_in_ordered_dynamic_index (Suc k) as h a d c = Inr (IC_ERROR_MEM_ALLOC, None, h, a, snd (alloc_next as))"
        using x(1) x' by (cases "alloc_next as") (simp add: ORDERED_DYNAMIC_INDEX_SIZE_def calloc_idx_def)
      then show ?thesis using assms(2) by (auto simp: no_change_def)
    next
      case t: True
      define h1 where "h1 = h\<lparr>idxs := (idxs h)(n := None), fresh := Suc n\<rparr>"
      have "insert_buf_in_ordered_dynamic_index (Suc k) as h a d c =
          Inr (IC_ERROR_MEM_ALLOC, Some n, h1, a, snd (alloc_next (snd (alloc_next as))))"
        using t False x(1) x' by (cases "alloc_next as"; cases "alloc_next (snd (alloc_next as))")
          (simp add: ORDERED_DYNAMIC_INDEX_SIZE_def calloc_idx_def free_idx_def n_def h1_def)
      moreover have "no_change h h1" using nn assms(2) by (auto simp: no_change_def h1_def n_def dheap_ok_def)
      ultimately show ?thesis by blast
    qed
    then show ?thesis using ne ns by auto
  next
    case True
    define as2 where "as2 = snd (alloc_next (snd (alloc_next as)))"
    define xn where "xn = empty_index\<lparr>parent_dyn_index := Some tp, child_ptrs := (replicate 128 None)[0 := Some c], next_index_to_insert := 1\<rparr>"
    define xt where "xt = empty_index\<lparr>next_dyn_index := Some n, child_ptrs := (replicate 128 None)[0 := Some d, 1 := Some n], next_index_to_insert := 2\<rparr>"
    define f where "f = (idxs h)(last_dyn_index a \<mapsto> l\<lparr>next_dyn_index := Some tp\<rparr>)"
    define h' where "h' = h\<lparr>idxs := f(d \<mapsto> (the (f d))\<lparr>parent_dyn_index := Some tp\<rparr>, n \<mapsto> xn, tp \<mapsto> xt), fresh := Suc tp\<rparr>"
    define a' where "a' = a\<lparr>top_dyn_index := tp, last_dyn_index := n, index_levels := index_levels a + 1\<rparr>"
    have neq: "n \<noteq> tp" "d \<noteq> n" "d \<noteq> tp" "last_dyn_index a \<noteq> n" "last_dyn_index a \<noteq> tp" using lt by (auto simp: n_def tp_def)
    define h2 where "h2 = h\<lparr>idxs := (idxs h)(n \<mapsto> empty_index, tp \<mapsto> empty_index), fresh := Suc tp\<rparr>"
    have al: "calloc_idx as h = (Some n, h\<lparr>idxs := (idxs h)(n \<mapsto> empty_index), fresh := Suc n\<rparr>, snd (alloc_next as))"
      using True by (cases "alloc_next as") (simp add: calloc_idx_def n_def)
    have al2: "calloc_idx (snd (alloc_next as)) (h\<lparr>idxs := (idxs h)(n \<mapsto> empty_index), fresh := Suc n\<rparr>) = (Some tp, h2, as2)"
      using True by (cases "alloc_next (snd (alloc_next as))") (simp add: calloc_idx_def n_def tp_def h2_def as2_def)
    have fd: "\<exists>y. f d = Some y" using x(1) by (auto simp: f_def)
    then obtain y where y: "f d = Some y" by blast
    have new: "c_bind (new_top_node h2 a d n tp) (\<lambda>(h, a). c_bind (enter_child h n 0 c) (\<lambda>h. Inr (0, Some n, h, a, as2))) =
        Inr (0, Some n, h', a', as2)"
      using neq assms(3) y x(1)
      by (auto simp: new_top_node_def insert_dyn_index_list_def enter_child_def h2_def h'_def a'_def empty_index_def
          ORDERED_DYNAMIC_INDEX_SIZE_def xn_def xt_def f_def fun_eq_iff split: if_splits)
    have eq: "insert_buf_in_ordered_dynamic_index (Suc k) as h a d c = Inr (0, Some n, h', a', as2)"
      using x(1) x' al al2 new by (simp add: ORDERED_DYNAMIC_INDEX_SIZE_def)
    have id: "idxs h' d = Some (y\<lparr>parent_dyn_index := Some tp\<rparr>)" "idxs h' n = Some xn" "idxs h' tp = Some xt"
      using neq y by (simp_all add: h'_def)
    have core_y: "next_index_to_insert y = next_index_to_insert x" "child_ptrs y = child_ptrs x"
      using y x(1) assms(3) by (auto simp: f_def split: if_splits)
    have lv1: "level h' (cs @ [c]) ([d] @ [n]) (\<lambda>j. Some ([tp] ! (j div 128)))"
    proof (rule level_new)
      fix j assume "j < length [d]"
      then show "\<exists>x. idxs h' ([d] ! j) = Some x \<and> node_ok (core x) cs j (Some ([tp] ! (j div 128)))"
        using id(1) x(2) core_y by (auto simp: node_ok_def core_def)
    qed (use id(2) assms(5) ns in \<open>auto simp: core_def xn_def\<close>)
    have lv2: "level h' [d, n] [tp] (\<lambda>_. None)"
      using id(3) by (auto simp: level_def node_ok_def core_def xt_def empty_index_def less_Suc_eq numeral_2_eq_2)
    have tr: "tree h' (cs @ [c]) [[d, n], [tp]] (top_dyn_index a')" using lv1 lv2 by (simp add: a'_def)
    have new_set: "{fresh h..<fresh h'} = {n, tp}" by (auto simp: h'_def n_def tp_def)
    have ext: "lv_ext [ns] [[d, n], [tp]] {fresh h..<fresh h'}" unfolding new_set using ns neq by (auto simp: lv_ext_def)
    have kp: "keeps h h' {last_dyn_index a} {top_dyn_index a} (set (map last [ns]))"
      unfolding keeps_def
    proof (intro allI impI conjI)
      fix q assume q: "q < fresh h"
      then have qn: "q \<noteq> n" "q \<noteq> tp" by (auto simp: n_def tp_def)
      show "idxs h' q = None" if "idxs h q = None" using that qn x(1) assms(3) by (auto simp: h'_def f_def)
      fix z assume z: "idxs h q = Some z"
      show "\<exists>x'. idxs h' q = Some x' \<and> keeps_node z x' (q \<in> {last_dyn_index a}) (q \<in> {top_dyn_index a}) (q \<in> set (map last [ns]))"
        using z qn assms(3) by (auto simp: h'_def f_def keeps_node_def d_def)
    qed
    have ch: "\<exists>l. idxs h' (last_dyn_index a) = Some l \<and> ipath h' (next_dyn_index l) [tp, n] None"
      using id neq assms(3) y by (auto simp: h'_def f_def xn_def xt_def empty_index_def)
    have ok: "dheap_ok h'" using assms(2) lt by (auto simp: dheap_ok_def h'_def f_def n_def tp_def)
    have "ins_post h a cs [ns] c (Some n) h' a' [[d, n], [tp]] [tp, n]"
      unfolding ins_post_def using tr ext kp ch ok new_set neq ns
      by (auto simp: a'_def h'_def n_def tp_def same_data_def)
    then show ?thesis using eq ns True by (auto simp: as2_def)
  qed
qed

subsection \<open>A full node below the top\<close>

lemma last_parent:
  assumes "level h cs ns par"
  shows "(length cs - 1) div 128 = length ns - 1"
proof -
  have "ns \<noteq> []" using level_last(1) [OF assms] .
  then have "128 * (length ns - 1) \<le> length cs - 1" "length cs - 1 < 128 * (length ns - 1) + 128"
    using assms by (cases ns; auto simp: level_def)+
  then show ?thesis by (simp add: div_nat_eqI)
qed

lemma link_new:
  assumes "ins_post h a cs lvs c np h' a' lvs' news"
  shows "\<exists>y. idxs h' (last_dyn_index a') = Some y \<and> next_dyn_index y = None"
proof -
  obtain l where l: "idxs h' (last_dyn_index a) = Some l" "ipath h' (next_dyn_index l) news None"
    using assms by (auto simp: ins_post_def)
  have la: "last_dyn_index a' = last (last_dyn_index a # news)" using assms by (simp add: ins_post_def)
  show ?thesis
  proof (cases news rule: rev_cases)
    case Nil
    then show ?thesis using l la by auto
  next
    case (snoc ys y)
    then show ?thesis using l la by auto
  qed
qed

lemma keeps_new_empty:
  assumes "keeps h h' LN TP SP" and "idxs h n = Some empty_index" and "n < fresh h" and "n \<notin> LN" and "n \<notin> TP" and "n \<notin> SP"
  shows "idxs h' n = Some empty_index"
proof -
  obtain x where x: "idxs h' n = Some x" "keeps_node empty_index x False False False"
    using keepsD [OF assms(1-3)] assms(4-6) by auto
  have "x = empty_index" using x(2) by (intro ic_dynamic_array_index.equality) (simp_all add: keeps_node_def)
  then show ?thesis using x(1) by simp
qed

lemma insert_below:
  assumes tr: "tree h cs (ns # ms # rest) (top_dyn_index a)" and ds: "distinct (concat (ns # ms # rest))" and ok: "dheap_ok h"
    and la: "idxs h (last_dyn_index a) = Some l" "next_dyn_index l = None" and full: "length cs = 128 * length ns"
    and n: "n = fresh h" and h1: "h1 = h\<lparr>idxs := (idxs h)(n \<mapsto> empty_index), fresh := Suc n\<rparr>"
    and post: "ins_post h1 a ns (ms # rest) n np h2 a2 lvs2 news"
    and h': "idxs h' = (idxs h2)(last_dyn_index a2 \<mapsto> (the (idxs h2 (last_dyn_index a2)))\<lparr>next_dyn_index := Some n\<rparr>,
      n \<mapsto> empty_index\<lparr>parent_dyn_index := Some (last (hd lvs2)), child_ptrs := (replicate 128 None)[0 := Some c], next_index_to_insert := 1\<rparr>)"
      "bufs h' = bufs h2" "structs h' = structs h2" "fresh h' = fresh h2"
  shows "ins_post h a cs (ns # ms # rest) c (Some n) h' (a2\<lparr>last_dyn_index := n\<rparr>) ((ns @ [n]) # lvs2) (news @ [n])"
proof -
  let ?la = "last_dyn_index a" and ?la2 = "last_dyn_index a2"
  have lv: "level h cs ns (\<lambda>j. Some (ms ! (j div 128)))" and trm: "tree h ns (ms # rest) (top_dyn_index a)" and two: "2 \<le> length ns"
    using tr by simp_all
  have p: "tree h2 (ns @ [n]) lvs2 (top_dyn_index a2)" "lv_ext (ms # rest) lvs2 {fresh h1..<fresh h2}"
    "hd lvs2 = ms @ (case np of None \<Rightarrow> [] | Some n \<Rightarrow> [n])" "keeps h1 h2 {?la} {top_dyn_index a} (set (map last (ms # rest)))"
    "distinct news" "set news = {fresh h1..<fresh h2}" "dheap_ok h2" "fresh h1 \<le> fresh h2" "bufs h2 = bufs h1" "structs h2 = structs h1"
    "?la2 = last (?la # news)" "index_levels a2 = index_levels a + (length lvs2 - length (ms # rest))" "same_data a a2"
    using post by (simp_all add: ins_post_def)
  obtain l2 where l2: "idxs h2 ?la = Some l2" "ipath h2 (next_dyn_index l2) news None" using post by (auto simp: ins_post_def)
  obtain y2 where y2: "idxs h2 ?la2 = Some y2" "next_dyn_index y2 = None" using link_new [OF post] by blast
  have nn: "idxs h n = None" using ok by (simp add: dheap_ok_def n)
  have lan: "?la < n" using la(1) ok by (metis dheap_ok_def n not_le option.distinct(1))
  have f1: "fresh h1 = Suc n" by (simp add: h1)
  have nnews: "n \<notin> set news" using p(6) f1 by simp
  then have la2n: "?la2 \<noteq> n" using p(11) lan last_in_set [of news] by (auto split: if_splits)
  have la2_old: "?la2 = ?la" if "?la2 < fresh h" 
    using that p(6,11) f1 n last_in_set [of news] by (auto split: if_splits)
  have old: "q < n" if "q \<in> set (concat (ns # ms # rest))" for q
    using tree_live [OF tr that] ok by (metis dheap_ok_def n not_le)
  have tpin: "top_dyn_index a \<in> set (concat (ms # rest))" using tree_top_in [OF trm] .
  have d3: "set ns \<inter> set (concat (ms # rest)) = {}" "distinct ns" using ds by auto
  have sp: "set (map last (ms # rest)) \<subseteq> set (concat (ms # rest))" by (rule tree_last_in [OF trm])
  have n_in: "n \<notin> set (concat (ns # ms # rest))" using old by blast
  have kept: "map_option core (idxs h' q) = map_option core (idxs h2 q)" if "q \<noteq> n" for q
    using that y2(1) by (simp add: h'(1) core_def)
  have sub: "keeps h h1 {?la} {top_dyn_index a} (set (map last (ms # rest)))" using nn by (auto simp: keeps_def h1 n)
  have lvs2: "set (concat lvs2) = set (concat (ms # rest)) \<union> {fresh h1..<fresh h2}" "distinct (concat lvs2)"
    "length (ms # rest) \<le> length lvs2" "\<forall>i < length (ms # rest). \<exists>zs. lvs2 ! i = (ms # rest) ! i @ zs"
    using p(2) unfolding lv_ext_def by blast+
  have n2: "n \<notin> set (concat lvs2)" unfolding lvs2(1) using n_in f1 by auto
  obtain m2 r2 where m2: "lvs2 = m2 # r2" using lvs2(3) by (cases lvs2) auto
  have trh: "tree h' (ns @ [n]) lvs2 (top_dyn_index a2)"
    by (rule tree_cong [OF p(1)]) (use kept n2 in metis)
  have lvm: "\<exists>par. level h2 (ns @ [n]) m2 par" using p(1) m2 tree_level by blast
  then have parn: "length ns div 128 = length m2 - 1" "m2 \<noteq> []" using last_parent level_last(1) by fastforce+
  have old_nodes: "\<exists>x. idxs h' (ns ! j) = Some x \<and> node_ok (core x) cs j (Some (m2 ! (j div 128)))" if j: "j < length ns" for j
  proof -
    have q: "ns ! j \<in> set ns" using j by simp
    obtain x where x: "idxs h (ns ! j) = Some x" "node_ok (core x) cs j (Some (ms ! (j div 128)))" using lv j by (auto simp: level_def)
    have qn: "ns ! j < n" using old q by simp
    have "idxs h1 (ns ! j) = Some x" using x(1) qn by (simp add: h1)
    then obtain x' where x': "idxs h2 (ns ! j) = Some x'" "keeps_node x x' (ns ! j \<in> {?la}) (ns ! j \<in> {top_dyn_index a}) (ns ! j \<in> set (map last (ms # rest)))"
      using keepsD [OF p(4)] qn f1 by (metis less_SucI)
    have "ns ! j \<notin> set (concat (ms # rest))" using q d3(1) by blast
    then have "ns ! j \<noteq> top_dyn_index a" "ns ! j \<notin> set (map last (ms # rest))" using tpin sp by (metis, meson subsetD)
    then have "core x' = core x" using x'(2) by (simp add: keeps_node_def core_def)
    moreover obtain x'' where "idxs h' (ns ! j) = Some x''" "core x'' = core x'" using kept [of "ns ! j"] qn x'(1) by auto
    moreover have "j div 128 < length ms" using trm j tree_level [OF trm] by (auto simp: level_def less_mult_imp_div_less mult.commute)
    then have "m2 ! (j div 128) = ms ! (j div 128)" using p(3) m2 by (simp add: nth_append)
    ultimately show ?thesis using x(2) by auto
  qed
  have "level h' (cs @ [c]) (ns @ [n]) (\<lambda>j. Some (m2 ! (j div 128)))"
  proof (rule level_new)
    show "core (empty_index\<lparr>parent_dyn_index := Some (last (hd lvs2)), child_ptrs := (replicate 128 None)[0 := Some c], next_index_to_insert := 1\<rparr>) =
        (1, (replicate 128 None)[0 := Some c], Some (m2 ! (length ns div 128)))"
      using parn m2 by (simp add: core_def last_conv_nth)
  qed (use full two old_nodes in \<open>auto simp: h'(1)\<close>)
  then have tree': "tree h' (cs @ [c]) ((ns @ [n]) # lvs2) (top_dyn_index a2)" using trh two by (simp add: m2)
  have kh: "keeps h h2 {?la} {top_dyn_index a} (set (map last (ms # rest)))"
    by (rule keeps_trans [OF sub p(4)]) (use f1 n in auto)
  have kp: "keeps h h' {?la} {top_dyn_index a} (set (map last (ns # ms # rest)))"
    unfolding keeps_def
  proof (intro allI impI conjI)
    fix q assume q: "q < fresh h"
    then have qn: "q \<noteq> n" using n by simp
    show "idxs h' q = None" if "idxs h q = None"
      using that qn kh q la2_old la(1) by (auto simp: h'(1) keeps_def)
    fix x assume x: "idxs h q = Some x"
    from keepsD [OF kh x q] obtain x' where x': "idxs h2 q = Some x'"
      "keeps_node x x' (q \<in> {?la}) (q \<in> {top_dyn_index a}) (q \<in> set (map last (ms # rest)))" by blast
    show "\<exists>x'. idxs h' q = Some x' \<and> keeps_node x x' (q \<in> {?la}) (q \<in> {top_dyn_index a}) (q \<in> set (map last (ns # ms # rest)))"
    proof (cases "q = ?la2")
      case True
      then show ?thesis using x' y2(1) qn q la2_old by (auto simp: h'(1) keeps_node_def)
    next
      case False
      then show ?thesis using x' qn by (auto simp: h'(1) keeps_node_def)
    qed
  qed
  have nf: "n < fresh h2" using p(8) f1 by simp
  have ext: "lv_ext (ns # ms # rest) ((ns @ [n]) # lvs2) {fresh h..<fresh h'}"
    unfolding lv_ext_def
  proof (intro conjI allI impI)
    show "\<exists>zs. ((ns @ [n]) # lvs2) ! i = (ns # ms # rest) ! i @ zs" if "i < length (ns # ms # rest)" for i
      using that lvs2(4) by (cases i) auto
    have "{fresh h..<fresh h'} = insert n {fresh h1..<fresh h2}" using nf f1 n h'(4) by auto
    then show "set (concat ((ns @ [n]) # lvs2)) = set (concat (ns # ms # rest)) \<union> {fresh h..<fresh h'}" using lvs2(1) by auto
    have "x \<notin> set (concat lvs2)" if "x \<in> set ns" for x
    proof -
      have "x \<notin> set (concat (ms # rest))" "x < n" using that d3(1) old by auto
      then show ?thesis unfolding lvs2(1) using f1 by auto
    qed
    then show "distinct (concat ((ns @ [n]) # lvs2))" using d3(2) n_in n2 lvs2(2) by auto
  qed (use lvs2(3) in simp)
  have nx: "idxs h' n = Some (empty_index\<lparr>parent_dyn_index := Some (last (hd lvs2)), child_ptrs := (replicate 128 None)[0 := Some c],
      next_index_to_insert := 1\<rparr>)" by (simp add: h'(1))
  have nw: "\<forall>q \<in> set news. n < q" using p(6) f1 by simp
  have ch: "\<exists>l. idxs h' ?la = Some l \<and> ipath h' (next_dyn_index l) (news @ [n]) None"
  proof (cases news rule: rev_cases)
    case Nil
    then show ?thesis using y2(1) p(11) nx lan by (simp add: h'(1) empty_index_def)
  next
    case (snoc ys z)
    then have z: "?la2 = z" "z \<notin> set ys" "z \<noteq> ?la" "n \<notin> set ys"
      using p(5,11) nw lan snoc by auto
    obtain r where r: "ipath h2 (next_dyn_index l2) ys r" "r = Some z" using l2(2) snoc by auto
    have "ipath h' (next_dyn_index l2) ys r" by (rule ipath_cong [OF r(1)]) (use z in \<open>auto simp: h'(1)\<close>)
    moreover have "idxs h' z = Some (y2\<lparr>next_dyn_index := Some n\<rparr>)" using z(1) y2(1) la2n by (simp add: h'(1))
    ultimately show ?thesis using r(2) snoc l2(1) z lan nx by (auto simp: h'(1) empty_index_def)
  qed
  have la2f: "?la2 < fresh h2" using y2(1) p(7) by (metis dheap_ok_def not_le option.distinct(1))
  have ok': "dheap_ok h'" using p(7) nf la2f by (auto simp: dheap_ok_def h')
  have "set (news @ [n]) = {fresh h..<fresh h'}" using p(6) f1 nf n h'(4) by auto
  then show ?thesis
    unfolding ins_post_def using tree' ext kp ch ok' p(3,5,8-10,12,13) nnews f1 n h'(2-4) h1 lvs2(3)
    by (auto simp: same_data_def)
qed

subsection \<open>Insertion\<close>

lemma outcome_ok:
  assumes "X = Inr (0, np, h', a', as')" and "as = [] \<longrightarrow> as' = []" and "ins_post h a cs lvs c np h' a' lvs' news"
  shows "\<exists>rc np h' a' as'. X = Inr (rc, np, h', a', as') \<and> (as = [] \<longrightarrow> rc = 0 \<and> as' = []) \<and>
    (rc = IC_ERROR_MEM_ALLOC \<and> a' = a \<and> no_change h h' \<or> rc = (0 :: nat) \<and> (\<exists>lvs' news. ins_post h a cs lvs c np h' a' lvs' news))"
  by (rule exI [of _ 0], rule exI [of _ np], rule exI [of _ h'], rule exI [of _ a'], rule exI [of _ as']) (use assms in blast)

lemma insert_buf_ok:
  assumes "tree h cs (ns # rest) (top_dyn_index a)" and "distinct (concat (ns # rest))" and "dheap_ok h"
    and "idxs h (last_dyn_index a) = Some l" and "next_dyn_index l = None" and "length (ns # rest) \<le> k"
  shows "\<exists>rc np h' a' as'. insert_buf_in_ordered_dynamic_index k as h a (last ns) c = Inr (rc, np, h', a', as') \<and>
    (as = [] \<longrightarrow> rc = 0 \<and> as' = []) \<and>
    (rc = IC_ERROR_MEM_ALLOC \<and> a' = a \<and> no_change h h' \<or> rc = 0 \<and> (\<exists>lvs' news. ins_post h a cs (ns # rest) c np h' a' lvs' news))"
  using assms
proof (induction rest arbitrary: k as h cs ns c l)
  case Nil
  obtain j where k: "k = Suc j" using Nil.prems(6) by (cases k) auto
  show ?case
  proof (cases "length cs = 128 * length ns")
    case True
    from insert_full_top [OF Nil.prems(1,3-5) True] show ?thesis unfolding k .
  next
    case False
    from insert_room [OF Nil.prems(1-5) False] obtain h' where
      "insert_buf_in_ordered_dynamic_index k as h a (last ns) c = Inr (0, None, h', a, as)" "ins_post h a cs [ns] c None h' a [ns] []"
      unfolding k by blast
    then show ?thesis by (intro outcome_ok) auto
  qed
next
  case (Cons ms rest)
  obtain j where k: "k = Suc j" using Cons.prems(6) by (cases k) auto
  show ?case
  proof (cases "length cs = 128 * length ns")
    case False
    from insert_room [OF Cons.prems(1-5) False] obtain h' where
      "insert_buf_in_ordered_dynamic_index k as h a (last ns) c = Inr (0, None, h', a, as)"
      "ins_post h a cs (ns # ms # rest) c None h' a (ns # ms # rest) []"
      unfolding k by blast
    then show ?thesis by (intro outcome_ok) auto
  next
    case True
    define n where "n = fresh h"
    define h1 where "h1 = h\<lparr>idxs := (idxs h)(n \<mapsto> empty_index), fresh := Suc n\<rparr>"
    have lv: "level h cs ns (\<lambda>j. Some (ms ! (j div 128)))" and trm: "tree h ns (ms # rest) (top_dyn_index a)" using Cons.prems(1) by simp_all
    obtain pm where lvm: "level h ns ms pm" using tree_level [OF trm] by blast
    obtain x where x: "idxs h (last ns) = Some x" "next_index_to_insert x = 128" "parent_dyn_index x = Some (last ms)"
      using level_last(2) [OF lv] level_full_iff [OF lv] True last_parent [OF lvm] level_last(1) [OF lvm]
      by (auto simp: last_conv_nth)
    have nn: "idxs h n = None" using Cons.prems(3) by (simp add: dheap_ok_def n_def)
    have old: "q < n" if "q \<in> set (concat (ns # ms # rest))" for q
      using tree_live [OF Cons.prems(1) that] Cons.prems(3) by (metis dheap_ok_def n_def not_le)
    have lan: "last_dyn_index a < n" using Cons.prems(3,4) by (metis dheap_ok_def n_def not_le option.distinct(1))
    show ?thesis
    proof (cases "fst (alloc_next as)")
      case False
      then have "insert_buf_in_ordered_dynamic_index k as h a (last ns) c = Inr (IC_ERROR_MEM_ALLOC, None, h, a, snd (alloc_next as))"
        using x by (cases "alloc_next as") (simp add: k ORDERED_DYNAMIC_INDEX_SIZE_def calloc_idx_def)
      moreover have "as \<noteq> []" using False by auto
      ultimately show ?thesis using Cons.prems(3) by (auto simp: no_change_def)
    next
      case al: True
      define as1 where "as1 = snd (alloc_next as)"
      have cal: "calloc_idx as h = (Some n, h1, as1)"
        using al by (cases "alloc_next as") (simp add: calloc_idx_def n_def h1_def as1_def)
      have as1: "as = [] \<longrightarrow> as1 = []" by (auto simp: as1_def)
      have tr1: "tree h1 ns (ms # rest) (top_dyn_index a)"
        by (rule tree_cong [OF trm]) (use old in \<open>fastforce simp: h1_def\<close>)
      have ok1: "dheap_ok h1" "idxs h1 (last_dyn_index a) = Some l" "distinct (concat (ms # rest))" "length (ms # rest) \<le> j"
        using Cons.prems(2-4,6) lan k by (auto simp: h1_def dheap_ok_def n_def)
      from Cons.IH [OF tr1 ok1(3,1,2) Cons.prems(5) ok1(4), of as1 n] obtain rc np h2 a2 as2 where
        ih: "insert_buf_in_ordered_dynamic_index j as1 h1 a (last ms) n = Inr (rc, np, h2, a2, as2)" "as1 = [] \<longrightarrow> rc = 0 \<and> as2 = []"
          "rc = IC_ERROR_MEM_ALLOC \<and> a2 = a \<and> no_change h1 h2 \<or> rc = 0 \<and> (\<exists>lvs' news. ins_post h1 a ns (ms # rest) n np h2 a2 lvs' news)"
        by blast
      show ?thesis
      proof (cases "rc = 0")
        case False
        then have m: "rc = IC_ERROR_MEM_ALLOC" "a2 = a" "no_change h1 h2" using ih(3) by auto
        define h3 where "h3 = h2\<lparr>idxs := (idxs h2)(n := None)\<rparr>"
        have "free_idx h2 n = Inr h3" using m(3) by (auto simp: free_idx_def no_change_def h1_def h3_def)
        then have "insert_buf_in_ordered_dynamic_index k as h a (last ns) c = Inr (IC_ERROR_MEM_ALLOC, Some n, h3, a, as2)"
          using x cal ih(1) m(1,2) by (simp add: k ORDERED_DYNAMIC_INDEX_SIZE_def err_codes)
        moreover have "no_change h h3" using m(3) nn by (auto simp: no_change_def h1_def h3_def n_def dheap_ok_def)
        ultimately show ?thesis using ih(2) as1 False by auto
      next
        case rc: True
        then obtain lvs2 news where post: "ins_post h1 a ns (ms # rest) n np h2 a2 lvs2 news" using ih(3) by (auto simp: err_codes)
        obtain y2 where y2: "idxs h2 (last_dyn_index a2) = Some y2" using link_new [OF post] by blast
        define xn where "xn = empty_index\<lparr>parent_dyn_index := Some (last (hd lvs2)), child_ptrs := (replicate 128 None)[0 := Some c], next_index_to_insert := 1\<rparr>"
        define h3 where "h3 = h2\<lparr>idxs := (idxs h2)(last_dyn_index a2 \<mapsto> y2\<lparr>next_dyn_index := Some n\<rparr>)\<rparr>"
        define h4 where "h4 = h3\<lparr>idxs := (idxs h3)(n \<mapsto> xn)\<rparr>"
        have kp: "keeps h1 h2 {last_dyn_index a} {top_dyn_index a} (set (map last (ms # rest)))"
          and hd2: "hd lvs2 = ms @ (case np of None \<Rightarrow> [] | Some n \<Rightarrow> [n])" and la2: "last_dyn_index a2 = last (last_dyn_index a # news)"
          and news: "set news = {fresh h1..<fresh h2}"
          using post by (simp_all add: ins_post_def)
        have sp: "set (map last (ms # rest)) \<subseteq> set (concat (ms # rest))" by (rule tree_last_in [OF trm])
        have tpn: "top_dyn_index a \<in> set (concat (ms # rest))" by (rule tree_top_in [OF trm])
        have n_out: "n \<notin> {last_dyn_index a}" "n \<notin> {top_dyn_index a}" "n \<notin> set (map last (ms # rest))"
          using lan old [of "top_dyn_index a"] old [of n] tpn sp by (auto simp del: set_map)
        have xn2: "idxs h2 n = Some empty_index" by (rule keeps_new_empty [OF kp _ _ n_out]) (simp_all add: h1_def)
        have la2n: "last_dyn_index a2 \<noteq> n" using la2 lan news last_in_set [of news] by (auto simp: h1_def split: if_splits)
        have dl: "last ns \<in> set ns" using level_last(1) [OF lv] by simp
        then have dn: "last ns < n" using old by simp
        have "last ns \<notin> set (concat (ms # rest))" using dl Cons.prems(2) by auto
        then have dt: "last ns \<noteq> top_dyn_index a" using tpn by metis
        have "idxs h1 (last ns) = Some x" "last ns < fresh h1" using x(1) dn by (simp_all add: h1_def)
        from keepsD [OF kp this] obtain x2 where x2: "idxs h2 (last ns) = Some x2" "parent_dyn_index x2 = Some (last ms)"
          using dt x(3) by (auto simp: keeps_node_def)
        have x3: "\<exists>x3. idxs h3 (last ns) = Some x3 \<and> parent_dyn_index x3 = Some (last ms)"
          using x2 y2 by (auto simp: h3_def)
        then obtain x3 where x3: "idxs h3 (last ns) = Some x3" "parent_dyn_index x3 = Some (last ms)" by blast
        have par: "(if np = None then parent_dyn_index x3 else np) = Some (last (hd lvs2))" using x3(2) hd2 by (auto split: option.splits)
        have n3: "idxs h3 n = Some empty_index" using xn2 la2n by (simp add: h3_def)
        have ins: "insert_dyn_index_list h2 a2 n = Inr (h3, a2\<lparr>last_dyn_index := n\<rparr>)"
          using y2 by (simp add: insert_dyn_index_list_def h3_def)
        have ent: "c_bind (upd_idx h3 n (\<lambda>y. y\<lparr>parent_dyn_index := Some (last (hd lvs2))\<rparr>)) (\<lambda>h. enter_child h n 0 c) = Inr h4"
          using n3 by (simp add: enter_child_def h4_def xn_def empty_index_def ORDERED_DYNAMIC_INDEX_SIZE_def)
        have eq: "insert_buf_in_ordered_dynamic_index k as h a (last ns) c = Inr (0, Some n, h4, a2\<lparr>last_dyn_index := n\<rparr>, as2)"
          using x cal ih(1) rc ins x3 par ent n3
          by (simp add: k ORDERED_DYNAMIC_INDEX_SIZE_def c_bind_assoc [symmetric])
        have "idxs h4 = (idxs h2)(last_dyn_index a2 \<mapsto> (the (idxs h2 (last_dyn_index a2)))\<lparr>next_dyn_index := Some n\<rparr>, n \<mapsto> xn)"
          using y2 by (simp add: h4_def h3_def)
        from insert_below [OF Cons.prems(1-5) True n_def h1_def post this [unfolded xn_def]]
        have res: "ins_post h a cs (ns # ms # rest) c (Some n) h4 (a2\<lparr>last_dyn_index := n\<rparr>) ((ns @ [n]) # lvs2) (news @ [n])"
          by (simp add: h4_def h3_def)
        have "as = [] \<longrightarrow> as2 = []" using ih(2) as1 by blast
        then show ?thesis by (rule outcome_ok [OF eq _ res])
      qed
    qed
  qed
qed

end
