(* ===== verification/IC_Ord_Ops.thy ===== *)
theory IC_Ord_Ops
  imports IC_Ord_Array
begin

text \<open>
  \<^verbatim>\<open>src/util/ic_dyn_array.c\<close>, the operations of the ordered dynamic array on the tree of
  \<open>IC_Ord_Array\<close>: the walks along the parents that save and restore the fill counts, the loop that
  enters the new buffers into the index and the error path that takes everything back. The array is a
  \<open>byte_array\<close>; its search is equivalent to that of the simple array.
\<close>

section \<open>Walking up\<close>

fun ppath :: "dheap \<Rightarrow> nat option \<Rightarrow> nat list \<Rightarrow> bool" where
  "ppath h p [] \<longleftrightarrow> p = None"
| "ppath h p (q # qs) \<longleftrightarrow> p = Some q \<and> (\<exists>x. idxs h q = Some x \<and> ppath h (parent_dyn_index x) qs)"

definition map_idxs :: "(ic_dynamic_array_index \<Rightarrow> ic_dynamic_array_index) \<Rightarrow> nat set \<Rightarrow> dheap \<Rightarrow> dheap" where
  "map_idxs f S h = h\<lparr>idxs := (\<lambda>q. if q \<in> S then map_option f (idxs h q) else idxs h q)\<rparr>"

lemma map_idxs_simps [simp]:
  "idxs (map_idxs f S h) q = (if q \<in> S then map_option f (idxs h q) else idxs h q)"
  "bufs (map_idxs f S h) = bufs h" "structs (map_idxs f S h) = structs h" "fresh (map_idxs f S h) = fresh h"
  by (simp_all add: map_idxs_def)

lemma ppath_cong: "(\<And>q. q \<in> set qs \<Longrightarrow> idxs h' q = idxs h q) \<Longrightarrow> ppath h' p qs = ppath h p qs"
  by (induction qs arbitrary: p) auto

lemma walk_up_ok:
  "ppath h p P \<Longrightarrow> distinct P \<Longrightarrow> length P \<le> k \<Longrightarrow> walk_up f k h p = Inr (map_idxs f (set P) h)"
proof (induction P arbitrary: h p k)
  case Nil
  then show ?case by (simp add: map_idxs_def)
next
  case (Cons q qs)
  then obtain x where x: "p = Some q" "idxs h q = Some x" "ppath h (parent_dyn_index x) qs" by auto
  obtain j where j: "k = Suc j" using Cons.prems(3) by (cases k) auto
  let ?h = "h\<lparr>idxs := (idxs h)(q \<mapsto> f x)\<rparr>"
  have "ppath ?h (parent_dyn_index x) qs" using x(3) Cons.prems(2) by (subst ppath_cong [of _ _ h]) auto
  from Cons.IH [OF this, of j] Cons.prems(2,3) j
  have "walk_up f j ?h (parent_dyn_index x) = Inr (map_idxs f (set qs) ?h)" by simp
  moreover have "map_idxs f (set qs) ?h = map_idxs f (set (q # qs)) h"
    using x(2) Cons.prems(2) by (auto simp: map_idxs_def fun_eq_iff)
  ultimately show ?case using x(1,2) j by simp
qed

fun up_path :: "nat list list \<Rightarrow> nat \<Rightarrow> nat list" where
  "up_path [] j = []"
| "up_path (ns # rest) j = ns ! j # up_path rest (j div 128)"

lemma up_path_ok:
  "tree h cs (ns # rest) tp \<Longrightarrow> j < length ns \<Longrightarrow> ppath h (Some (ns ! j)) (up_path (ns # rest) j) \<and>
   set (up_path (ns # rest) j) \<subseteq> set (concat (ns # rest)) \<and> length (up_path (ns # rest) j) = length (ns # rest)"
proof (induction rest arbitrary: cs ns j)
  case Nil
  then show ?case by (auto simp: level_def node_ok_def core_def)
next
  case (Cons ms rest)
  then have lv: "level h cs ns (\<lambda>j. Some (ms ! (j div 128)))" and trm: "tree h ns (ms # rest) tp" by simp_all
  obtain x where x: "idxs h (ns ! j) = Some x" "parent_dyn_index x = Some (ms ! (j div 128))"
    using lv Cons.prems(2) by (auto simp: level_def node_ok_def core_def)
  have "j div 128 < length ms" using tree_level [OF trm] Cons.prems(2) by (auto simp: level_def less_mult_imp_div_less mult.commute)
  from Cons.IH [OF trm this] x Cons.prems(2) show ?case by auto
qed

lemma up_path_distinct: "distinct (concat lvs) \<Longrightarrow> tree h cs lvs tp \<Longrightarrow> j < length (hd lvs) \<Longrightarrow> distinct (up_path lvs j)"
proof (induction lvs arbitrary: cs j)
  case (Cons ns rest)
  show ?case
  proof (cases rest)
    case (Cons ms r)
    then have trm: "tree h ns (ms # r) tp" using Cons.prems(2) by simp
    have jd: "j div 128 < length ms" using tree_level [OF trm] Cons.prems(3) by (auto simp: level_def less_mult_imp_div_less mult.commute)
    have "ns ! j \<notin> set (concat rest)" using Cons.prems(1,3) nth_mem by auto
    moreover have "set (up_path rest (j div 128)) \<subseteq> set (concat rest)" using up_path_ok [OF trm jd] Cons by simp
    ultimately show ?thesis using Cons.IH [of ns "j div 128"] Cons.prems(1) trm jd Cons by auto
  qed simp
qed simp

lemma up_path_last: "tree h cs lvs tp \<Longrightarrow> up_path lvs (length (hd lvs) - 1) = map last lvs"
proof (induction lvs arbitrary: cs)
  case (Cons ns rest)
  have ne: "ns \<noteq> []" using tree_level [OF Cons.prems] level_last(1) by blast
  show ?case
  proof (cases rest)
    case Nil
    then show ?thesis using ne by (simp add: last_conv_nth)
  next
    case (Cons ms r)
    then have trm: "tree h ns (ms # r) tp" using Cons.prems by simp
    then obtain par where "level h ns ms par" using tree_level by blast
    then have "(length ns - 1) div 128 = length ms - 1" by (rule last_parent)
    then show ?thesis using Cons.IH [of ns] trm Cons ne by (simp add: last_conv_nth)
  qed
qed simp

lemma tree_below: "tree h cs lvs tp \<Longrightarrow> dheap_ok h \<Longrightarrow> q \<in> set (concat lvs) \<Longrightarrow> q < fresh h"
  using tree_live by (metis dheap_ok_def not_le)

lemma levels_below:
  assumes "tree h cs lvs tp" and "distinct (concat lvs)" and "dheap_ok h"
  shows "length lvs \<le> fresh h"
proof -
  have b: "set (concat lvs) \<subseteq> {..<fresh h}" using tree_below [OF assms(1,3)] by blast
  have "\<forall>ns \<in> set lvs. ns \<noteq> []" using assms(1)
  proof (induction h cs lvs tp rule: tree.induct)
    case (3 h cs ns ms rest tp)
    then show ?case using level_last(1) by auto
  qed auto
  then have "length lvs \<le> length (concat lvs)" by (induction lvs) (auto simp: Suc_le_eq add_strict_increasing)
  also have "\<dots> \<le> fresh h" using b assms(2) by (metis card_lessThan card_mono distinct_card finite_lessThan)
  finally show ?thesis .
qed

section \<open>The index of an array\<close>

text \<open>\<open>cs\<close> are the buffers in the index, \<open>lvs\<close> the levels of the tree and \<open>xs\<close> the list of all nodes.\<close>

definition idx_inv :: "dheap \<Rightarrow> ic_dynamic_array_int \<Rightarrow> nat list \<Rightarrow> nat list list \<Rightarrow> nat list \<Rightarrow> bool" where
  "idx_inv h a cs lvs xs \<longleftrightarrow> dheap_ok h \<and> tree h cs lvs (top_dyn_index a) \<and> distinct (concat lvs) \<and>
     ipath h (Some (first_dyn_index a)) xs None \<and> xs \<noteq> [] \<and> distinct xs \<and> set xs = set (concat lvs) \<and>
     last xs = last_dyn_index a \<and> last (hd lvs) = last_dyn_index a \<and> index_levels a = length lvs"

lemma idx_inv_last:
  assumes "idx_inv h a cs lvs xs"
  shows "\<exists>l. idxs h (last_dyn_index a) = Some l \<and> next_dyn_index l = None"
  using assms by (cases xs rule: rev_cases) (auto simp: idx_inv_def)

text \<open>How the index has grown between two points of an insertion.\<close>

definition idx_ext ::
  "dheap \<Rightarrow> ic_dynamic_array_int \<Rightarrow> nat list list \<Rightarrow> nat list \<Rightarrow> dheap \<Rightarrow> ic_dynamic_array_int \<Rightarrow> nat list list \<Rightarrow> nat list \<Rightarrow> bool"
where
  "idx_ext h a lvs xs h' a' lvs' news \<longleftrightarrow>
     keeps h h' {last xs} {top_dyn_index a} (set (map last lvs)) \<and> lv_ext lvs lvs' (set news) \<and>
     set news \<subseteq> {fresh h..<fresh h'} \<and> (\<forall>q \<ge> fresh h. q \<notin> set news \<longrightarrow> idxs h' q = None) \<and>
     same_data a a' \<and> bufs h' = bufs h \<and> structs h' = structs h \<and> fresh h \<le> fresh h'"

lemma in_concat_nth: "q \<in> set (concat xss) \<longleftrightarrow> (\<exists>i < length xss. q \<in> set (xss ! i))"
  by simp (metis in_set_conv_nth)

lemma distinct_concat_nth:
  "distinct (concat xss) \<Longrightarrow> i < length xss \<Longrightarrow> j < length xss \<Longrightarrow> q \<in> set (xss ! i) \<Longrightarrow> q \<in> set (xss ! j) \<Longrightarrow> i = j"
proof (induction xss arbitrary: i j)
  case (Cons xs xss)
  have *: "q \<notin> set xs" if "k < length xss" "q \<in> set (xss ! k)" for k
  proof -
    have "q \<in> set (concat xss)" unfolding in_concat_nth using that by blast
    then show ?thesis using Cons.prems(1) by (metis IntI concat.simps(2) distinct_append empty_iff)
  qed
  have d: "distinct (concat xss)" using Cons.prems(1) by simp
  show ?case
  proof (cases i; cases j)
    fix i' j' assume "i = Suc i'" "j = Suc j'"
    then show ?thesis using Cons.IH [OF d, of i' j'] Cons.prems(2-5) by simp
  qed (use Cons.prems(2-5) * in auto)
qed simp

lemma lv_ext_high:
  assumes "lv_ext lvs lvs' new" and "length lvs \<le> i" and "i < length lvs'" and "q \<in> set (lvs' ! i)"
  shows "q \<in> new"
proof (rule ccontr)
  assume "q \<notin> new"
  moreover have "q \<in> set (concat lvs')" using assms(3,4) by auto
  ultimately have "q \<in> set (concat lvs)" using assms(1) by (auto simp: lv_ext_def)
  then obtain j where j: "j < length lvs" "q \<in> set (lvs ! j)" unfolding in_concat_nth by blast
  then have "q \<in> set (lvs' ! j)" using assms(1) by (auto simp: lv_ext_def)
  then have "i = j" using distinct_concat_nth [of lvs' i j q] assms j(1) by (auto simp: lv_ext_def)
  then show False using j(1) assms(2) by simp
qed

lemma lv_ext_spine:
  assumes "lv_ext lvs lvs' new" and "\<forall>ns \<in> set lvs'. ns \<noteq> []" and "q \<in> set (map last lvs')"
  shows "q \<in> set (map last lvs) \<or> q \<in> new"
proof -
  obtain i where i: "i < length lvs'" "q = last (lvs' ! i)" using assms(3) by (auto simp: in_set_conv_nth)
  have qi: "q \<in> set (lvs' ! i)" using i assms(2) by simp
  show ?thesis
  proof (cases "i < length lvs")
    case False
    then show ?thesis using lv_ext_high [OF assms(1) _ i(1) qi] by simp
  next
    case True
    then obtain zs where zs: "lvs' ! i = lvs ! i @ zs" using assms(1) by (auto simp: lv_ext_def)
    show ?thesis
    proof (cases "zs = []")
      case t: True
      then show ?thesis using zs i(2) nth_mem [OF True] by simp
    next
      case False
      then have "q \<in> set zs" using zs i(2) by simp
      moreover have "distinct (lvs ! i @ zs)" using assms(1) zs i(1) by (metis lv_ext_def distinct_concat_iff nth_mem)
      ultimately have "q \<notin> set (lvs ! i)" by auto
      moreover have "q \<in> set (lvs' ! j) \<Longrightarrow> j < length lvs \<Longrightarrow> i = j" for j
        using distinct_concat_nth [of lvs' i j q] assms(1) i(1) qi by (auto simp: lv_ext_def)
      moreover have "set (lvs ! j) \<subseteq> set (lvs' ! j)" if "j < length lvs" for j using assms(1) that by (fastforce simp: lv_ext_def)
      ultimately have "q \<notin> set (concat lvs)" unfolding in_concat_nth by blast
      moreover have "q \<in> set (concat lvs')" using i(1) qi by auto
      ultimately show ?thesis using assms(1) by (auto simp: lv_ext_def)
    qed
  qed
qed

lemma tree_nonempty: "tree h cs lvs tp \<Longrightarrow> \<forall>ns \<in> set lvs. ns \<noteq> []"
proof (induction h cs lvs tp rule: tree.induct)
  case (3 h cs ns ms rest tp)
  then show ?case using level_last(1) by auto
qed auto

lemma tree_top_parent: "tree h cs lvs tp \<Longrightarrow> idxs h tp = Some x \<Longrightarrow> parent_dyn_index x = None"
  by (induction h cs lvs tp rule: tree.induct) (auto simp: level_def node_ok_def core_def)

lemma tree_top_last: "tree h cs lvs tp \<Longrightarrow> lvs \<noteq> [] \<and> last lvs = [tp]"
  by (induction h cs lvs tp rule: tree.induct) auto

lemma ins_post_step:
  assumes "idx_inv h a cs lvs xs" and "ins_post h a cs lvs c np h' a' lvs' news"
  shows "idx_inv h' a' (cs @ [c]) lvs' (xs @ news)" and "idx_ext h a lvs xs h' a' lvs' news"
proof -
  have i: "dheap_ok h" "tree h cs lvs (top_dyn_index a)" "distinct (concat lvs)" "ipath h (Some (first_dyn_index a)) xs None" "xs \<noteq> []"
    "distinct xs" "set xs = set (concat lvs)" "last xs = last_dyn_index a" "last (hd lvs) = last_dyn_index a" "index_levels a = length lvs"
    using assms(1) by (auto simp: idx_inv_def)
  have p: "tree h' (cs @ [c]) lvs' (top_dyn_index a')" "lv_ext lvs lvs' {fresh h..<fresh h'}"
    "hd lvs' = hd lvs @ (case np of None \<Rightarrow> [] | Some n \<Rightarrow> [n])" "keeps h h' {last_dyn_index a} {top_dyn_index a} (set (map last lvs))"
    "distinct news" "set news = {fresh h..<fresh h'}" "np = (if news = [] then None else Some (last news))"
    "last_dyn_index a' = last (last_dyn_index a # news)" "index_levels a' = index_levels a + (length lvs' - length lvs)"
    "same_data a a'" "bufs h' = bufs h" "structs h' = structs h" "dheap_ok h'" "fresh h \<le> fresh h'"
    using assms(2) by (simp_all add: ins_post_def)
  obtain l where l: "idxs h' (last_dyn_index a) = Some l" "ipath h' (next_dyn_index l) news None"
    using assms(2) by (auto simp: ins_post_def)
  obtain ys where ys: "xs = ys @ [last_dyn_index a]" using i(5,8) by (metis append_butlast_last_id)
  have old: "q < fresh h" if "q \<in> set xs" for q using tree_below [OF i(2,1)] that i(7) by simp
  have "ipath h (Some (first_dyn_index a)) ys (Some (last_dyn_index a))" using i(4) ys by auto
  then have y': "ipath h' (Some (first_dyn_index a)) ys (Some (last_dyn_index a))"
  proof (rule ipath_cong)
    fix q assume q: "q \<in> set ys"
    then have qf: "q < fresh h" "q \<noteq> last_dyn_index a" using old i(6) ys by auto
    have "idxs h q \<noteq> None" using tree_live [OF i(2)] q ys i(7) by (metis Un_iff set_append)
    then obtain x where x: "idxs h q = Some x" by blast
    from keepsD [OF p(4) x qf(1)] qf(2) x show "map_option next_dyn_index (idxs h' q) = map_option next_dyn_index (idxs h q)"
      by (auto simp: keeps_node_def)
  qed
  have "ipath h' (Some (first_dyn_index a)) (ys @ [last_dyn_index a] @ news) None" using y' l by auto
  then have path: "ipath h' (Some (first_dyn_index a')) (xs @ news) None" using ys p(10) by (simp add: same_data_def)
  have lhd: "last (hd lvs') = last_dyn_index a'" using p(3,7,8) i(9) by (auto split: if_splits)
  have dx: "distinct (xs @ news)" using i(6) p(5,6) old by fastforce
  have ll: "length lvs \<le> length lvs'" "distinct (concat lvs')" "set (concat lvs') = set (concat lvs) \<union> {fresh h..<fresh h'}"
    using p(2) unfolding lv_ext_def by blast+
  show "idx_inv h' a' (cs @ [c]) lvs' (xs @ news)"
    unfolding idx_inv_def using p(1,6,8,9,13) path lhd dx ll i(5,7,8,10) by (auto simp: last_append)
  show "idx_ext h a lvs xs h' a' lvs' news"
    unfolding idx_ext_def using p i(8) by (auto simp: dheap_ok_def)
qed

lemma idx_ext_trans:
  assumes "idx_inv h a cs lvs xs" and "idx_ext h a lvs xs h1 a1 lvs1 n1" and "idx_inv h1 a1 cs1 lvs1 (xs @ n1)"
    and "idx_ext h1 a1 lvs1 (xs @ n1) h2 a2 lvs2 n2" and "tree h2 cs2 lvs2 tp2"
  shows "idx_ext h a lvs xs h2 a2 lvs2 (n1 @ n2)"
proof -
  have e1: "keeps h h1 {last xs} {top_dyn_index a} (set (map last lvs))" "lv_ext lvs lvs1 (set n1)" "set n1 \<subseteq> {fresh h..<fresh h1}"
    "\<forall>q \<ge> fresh h. q \<notin> set n1 \<longrightarrow> idxs h1 q = None" "fresh h \<le> fresh h1" using assms(2) by (simp_all add: idx_ext_def)
  have e2: "keeps h1 h2 {last (xs @ n1)} {top_dyn_index a1} (set (map last lvs1))" "lv_ext lvs1 lvs2 (set n2)" "set n2 \<subseteq> {fresh h1..<fresh h2}"
    "\<forall>q \<ge> fresh h1. q \<notin> set n2 \<longrightarrow> idxs h2 q = None" "fresh h1 \<le> fresh h2" using assms(4) by (simp_all add: idx_ext_def)
  have t: "tree h cs lvs (top_dyn_index a)" "tree h1 cs1 lvs1 (top_dyn_index a1)" using assms(1,3) by (simp_all add: idx_inv_def)
  have new: "fresh h \<le> q" if "q \<in> set n1" for q using e1(3) that by auto
  have s1: "{last (xs @ n1)} \<inter> {..<fresh h} \<subseteq> {last xs}" using new [of "last n1"] by (cases "n1 = []") auto
  have s3: "set (map last lvs1) \<inter> {..<fresh h} \<subseteq> set (map last lvs)"
    using lv_ext_spine [OF e1(2) tree_nonempty [OF t(2)]] new by fastforce
  have s2: "{top_dyn_index a1} \<inter> {..<fresh h} \<subseteq> {top_dyn_index a}"
  proof (cases "length lvs1 = length lvs")
    case True
    have tl: "lvs \<noteq> []" "last lvs = [top_dyn_index a]" "lvs1 \<noteq> []" "last lvs1 = [top_dyn_index a1]"
      using tree_top_last [OF t(1)] tree_top_last [OF t(2)] by auto
    have "length lvs - 1 < length lvs" using tl(1) by simp
    then obtain zs where "lvs1 ! (length lvs - 1) = lvs ! (length lvs - 1) @ zs" using e1(2) unfolding lv_ext_def by blast
    then have "last lvs1 = last lvs @ zs" using True tl(1,3) by (simp add: last_conv_nth)
    then show ?thesis using tl by simp
  next
    case False
    have tl: "lvs1 \<noteq> []" "last lvs1 = [top_dyn_index a1]" using tree_top_last [OF t(2)] by auto
    have "length lvs \<le> length lvs1 - 1" "length lvs1 - 1 < length lvs1" using False tl(1) e1(2) by (auto simp: lv_ext_def neq_Nil_conv)
    moreover have "top_dyn_index a1 \<in> set (lvs1 ! (length lvs1 - 1))" using tl by (simp add: last_conv_nth)
    ultimately have "top_dyn_index a1 \<in> set n1" by (rule lv_ext_high [OF e1(2)])
    then show ?thesis using new [of "top_dyn_index a1"] by auto
  qed
  have kp: "keeps h h2 {last xs} {top_dyn_index a} (set (map last lvs))" by (rule keeps_trans [OF e1(1) e2(1) e1(5) s1 s2 s3])
  have l1: "length lvs \<le> length lvs1" "\<forall>i < length lvs. \<exists>zs. lvs1 ! i = lvs ! i @ zs" "set (concat lvs1) = set (concat lvs) \<union> set n1"
    using e1(2) unfolding lv_ext_def by blast+
  have l2: "length lvs1 \<le> length lvs2" "\<forall>i < length lvs1. \<exists>zs. lvs2 ! i = lvs1 ! i @ zs" "set (concat lvs2) = set (concat lvs1) \<union> set n2" "distinct (concat lvs2)"
    using e2(2) unfolding lv_ext_def by blast+
  have "\<exists>zs. lvs2 ! i = lvs ! i @ zs" if "i < length lvs" for i
    using l1(1,2) l2(2) that by (metis append.assoc order_less_le_trans)
  then have ext: "lv_ext lvs lvs2 (set (n1 @ n2))" unfolding lv_ext_def using l1 l2 by auto
  have none: "idxs h2 q = None" if "fresh h \<le> q" "q \<notin> set (n1 @ n2)" for q
  proof (cases "q < fresh h1")
    case True
    then show ?thesis using e1(4) e2(1) that by (simp add: keeps_def)
  qed (use e2(4) that in simp)
  show ?thesis
    unfolding idx_ext_def using kp ext none e1(3,5) e2(3,5) assms(2,4) by (auto simp: idx_ext_def same_data_def)
qed

lemma idx_same:
  assumes "idx_inv h a cs lvs xs" and "no_change h h'"
  shows "idx_inv h' a cs lvs xs" and "idx_ext h a lvs xs h' a lvs []"
proof -
  have i: "idxs h' = idxs h" using assms(2) by (simp add: no_change_def)
  have "tree h' cs lvs (top_dyn_index a)" by (rule tree_cong [of h]) (use assms(1) i in \<open>auto simp: idx_inv_def\<close>)
  moreover have "ipath h' (Some (first_dyn_index a)) xs None" by (rule ipath_cong [of h]) (use assms(1) i in \<open>auto simp: idx_inv_def\<close>)
  ultimately show "idx_inv h' a cs lvs xs" using assms by (simp add: idx_inv_def no_change_def)
  show "idx_ext h a lvs xs h' a lvs []"
    using assms i by (auto simp: idx_ext_def keeps_def lv_ext_def idx_inv_def no_change_def same_data_def dheap_ok_def)
qed

section \<open>Entering the new buffers\<close>

lemma index_loop_ok:
  assumes "idx_inv h a cs lvs xs" and "bpath h (Some p) (p # rs) None" and "distinct (p # rs)" and "last (p # rs) = last_dyn_buf a"
    and "bz + SIMPLE_DYNAMIC_ARRAY_BUF_SIZE * length rs < sz + SIMPLE_DYNAMIC_ARRAY_BUF_SIZE"
  shows "\<exists>rc h' a' as' lvs' news cs'. index_new_bufs as h a p sz bz = Inr (rc, h', a', as') \<and> (as = [] \<longrightarrow> rc = 0 \<and> as' = []) \<and>
    idx_inv h' a' cs' lvs' (xs @ news) \<and> idx_ext h a lvs xs h' a' lvs' news \<and> (rc = 0 \<and> cs' = cs @ rs \<or> rc = IC_ERROR_MEM_ALLOC)"
  using assms
proof (induction rs arbitrary: as h a cs lvs xs p bz)
  case Nil
  then have "index_new_bufs as h a p sz bz = Inr (0, h, a, as)" by (simp add: index_new_bufs.simps)
  moreover have "no_change h h" using Nil.prems(1) by (simp add: no_change_def idx_inv_def)
  ultimately show ?case using idx_same [OF Nil.prems(1)] Nil.prems(1) by (intro exI conjI) auto
next
  case (Cons r rs)
  let ?N = SIMPLE_DYNAMIC_ARRAY_BUF_SIZE
  obtain b where b: "bufs h p = Some b" "next_dyn_buf b = Some r" "bpath h (Some r) (r # rs) None" using Cons.prems(2) by auto
  have pl: "p \<noteq> last_dyn_buf a" using Cons.prems(3,4) last_in_set [of "r # rs"] by auto
  have i: "dheap_ok h" "tree h cs lvs (top_dyn_index a)" "distinct (concat lvs)" "last (hd lvs) = last_dyn_index a"
    using Cons.prems(1) by (auto simp: idx_inv_def)
  obtain ns rest where lvs: "lvs = ns # rest" using i(2) by (cases lvs) auto
  obtain l where l: "idxs h (last_dyn_index a) = Some l" "next_dyn_index l = None" using idx_inv_last [OF Cons.prems(1)] by blast
  have fuel: "length (ns # rest) \<le> fresh h" using levels_below [OF i(2,3,1)] lvs by simp
  from insert_buf_ok [OF i(2) [unfolded lvs] i(3) [unfolded lvs] i(1) l fuel, of as r] obtain rc np h1 a1 as1 where
    s: "insert_buf_in_ordered_dynamic_index (fresh h) as h a (last ns) r = Inr (rc, np, h1, a1, as1)" "as = [] \<longrightarrow> rc = 0 \<and> as1 = []"
      "rc = IC_ERROR_MEM_ALLOC \<and> a1 = a \<and> no_change h h1 \<or> rc = 0 \<and> (\<exists>lvs' news. ins_post h a cs (ns # rest) r np h1 a1 lvs' news)" by blast
  have ass: "?N + bz \<le> sz + (?N - 1)" using Cons.prems(5) by (auto simp: dyn_sizes)
  have eq: "index_new_bufs as h a p sz bz =
      (if rc \<noteq> 0 then Inr (rc, h1, a1, as1) else index_new_bufs as1 h1 a1 r sz (bz + ?N))"
    using pl b(1,2) s(1) ass i(4) lvs by (simp add: index_new_bufs.simps [of as h a p] deref_def add.commute)
  show ?case
  proof (cases "rc = 0")
    case False
    then have m: "rc = IC_ERROR_MEM_ALLOC" "a1 = a" "no_change h h1" using s(3) by auto
    have inv: "idx_inv h1 a cs lvs (xs @ [])" using idx_same(1) [OF Cons.prems(1) m(3)] by simp
    have "index_new_bufs as h a p sz bz = Inr (IC_ERROR_MEM_ALLOC, h1, a, as1)" using eq m(1,2) by (simp add: err_codes)
    then show ?thesis using inv idx_same(2) [OF Cons.prems(1) m(3)] s(2) False by (intro exI conjI) auto
  next
    case True
    then obtain lvs1 n1 where post: "ins_post h a cs lvs r np h1 a1 lvs1 n1" using s(3) lvs by (auto simp: err_codes)
    note st = ins_post_step [OF Cons.prems(1) post]
    have keep: "bufs h1 = bufs h" "last_dyn_buf a1 = last_dyn_buf a" using st(2) by (simp_all add: idx_ext_def same_data_def)
    have bp: "bpath h1 (Some r) (r # rs) None" using b(3) by (subst bpath_cong [of _ h1 h]) (simp_all add: keep(1))
    have ls: "last (r # rs) = last_dyn_buf a1" "distinct (r # rs)" "bz + ?N + ?N * length rs < sz + ?N"
      using Cons.prems(3-5) keep(2) by auto
    from Cons.IH [OF st(1) bp ls(2,1,3), of as1] obtain rc2 h2 a2 as2 lvs2 n2 cs2 where
      r: "index_new_bufs as1 h1 a1 r sz (bz + ?N) = Inr (rc2, h2, a2, as2)" "as1 = [] \<longrightarrow> rc2 = 0 \<and> as2 = []"
        "idx_inv h2 a2 cs2 lvs2 ((xs @ n1) @ n2)" "idx_ext h1 a1 lvs1 (xs @ n1) h2 a2 lvs2 n2"
        "rc2 = 0 \<and> cs2 = (cs @ [r]) @ rs \<or> rc2 = IC_ERROR_MEM_ALLOC" by blast
    have tr2: "tree h2 cs2 lvs2 (top_dyn_index a2)" using r(3) by (simp add: idx_inv_def)
    have ext: "idx_ext h a lvs xs h2 a2 lvs2 (n1 @ n2)" by (rule idx_ext_trans [OF Cons.prems(1) st(2,1) r(4) tr2])
    have "index_new_bufs as h a p sz bz = Inr (rc2, h2, a2, as2)" using eq True r(1) by simp
    moreover have "idx_inv h2 a2 cs2 lvs2 (xs @ (n1 @ n2))" using r(3) by simp
    moreover have "as = [] \<longrightarrow> rc2 = 0 \<and> as2 = []" using s(2) r(2) by blast
    moreover have "rc2 = 0 \<and> cs2 = cs @ r # rs \<or> rc2 = IC_ERROR_MEM_ALLOC" using r(5) by simp
    ultimately show ?thesis using ext by blast
  qed
qed

section \<open>Taking back an insertion\<close>

lemma release_idx_chain:
  "ipath h p qs None \<Longrightarrow> distinct qs \<Longrightarrow> \<forall>q \<in> set qs. q < fresh h \<Longrightarrow>
   release_dyn_index h p = Inr (h\<lparr>idxs := (\<lambda>q. if q \<in> set qs then None else idxs h q)\<rparr>)"
proof (induction qs arbitrary: h p)
  case Nil
  then show ?case by (simp add: release_dyn_index.simps)
next
  case (Cons q qs)
  then obtain x where x: "idxs h q = Some x" "ipath h (next_dyn_index x) qs None" and p: "p = Some q" by auto
  let ?h = "h\<lparr>idxs := (idxs h)(q := None)\<rparr>"
  have "ipath ?h (next_dyn_index x) qs None" by (rule ipath_cong [OF x(2)]) (use Cons.prems(2) in auto)
  with Cons.IH [of ?h] Cons.prems(2,3)
  have r: "release_dyn_index ?h (next_dyn_index x) = Inr (?h\<lparr>idxs := (\<lambda>y. if y \<in> set qs then None else idxs ?h y)\<rparr>)" by auto
  have "release_dyn_index h p = release_dyn_index ?h (next_dyn_index x)"
    using x(1) Cons.prems(3) by (simp add: p release_dyn_index.simps [of h "Some q"] free_idx_def)
  then show ?case using r by (auto simp: fun_upd_def fun_eq_iff intro!: arg_cong [where f = "\<lambda>f. h\<lparr>idxs := f\<rparr>"])
qed

lemma truncate_ok:
  assumes "bpath h f (ps @ new) None" and "distinct (ps @ new)" and "ps \<noteq> []" and "\<forall>q \<in> set (ps @ new). q < fresh h"
  shows "\<exists>b. bufs h (last ps) = Some b \<and>
    c_bind (release_dyn_buf h (next_dyn_buf b)) (\<lambda>h. upd_buf h (last ps) (\<lambda>b. b\<lparr>next_dyn_buf := None\<rparr>)) =
      Inr (h\<lparr>bufs := (\<lambda>q. if q \<in> set new then None else if q = last ps then Some (b\<lparr>next_dyn_buf := None\<rparr>) else bufs h q)\<rparr>) \<and>
    bpath (h\<lparr>bufs := (\<lambda>q. if q \<in> set new then None else if q = last ps then Some (b\<lparr>next_dyn_buf := None\<rparr>) else bufs h q)\<rparr>) f ps None"
proof -
  obtain ys z where ps: "ps = ys @ [z]" using assms(3) by (metis append_butlast_last_id)
  then obtain b where b: "bufs h z = Some b" "length (buf b) = SIMPLE_DYNAMIC_ARRAY_BUF_SIZE" "bpath h f ys (Some z)"
    "bpath h (next_dyn_buf b) new None" using assms(1) by auto
  let ?h = "h\<lparr>bufs := (\<lambda>q. if q \<in> set new then None else if q = z then Some (b\<lparr>next_dyn_buf := None\<rparr>) else bufs h q)\<rparr>"
  have zn: "z \<notin> set new" "z \<notin> set ys" "set ys \<inter> set new = {}" using assms(2) ps by auto
  have "release_dyn_buf h (next_dyn_buf b) = Inr (h\<lparr>bufs := (\<lambda>q. if q \<in> set new then None else bufs h q)\<rparr>)"
    using release_chain [OF b(4)] assms(2,4) by auto
  then have "c_bind (release_dyn_buf h (next_dyn_buf b)) (\<lambda>h. upd_buf h z (\<lambda>b. b\<lparr>next_dyn_buf := None\<rparr>)) = Inr ?h"
    using zn(1) b(1) by (auto simp: fun_eq_iff intro!: arg_cong [where f = "\<lambda>f. h\<lparr>bufs := f\<rparr>"])
  moreover have "bpath ?h f ys (Some z)" using b(3) zn by (subst bpath_cong [of _ _ h]) auto
  then have "bpath ?h f ps None" unfolding ps using zn(1) b(2) by simp
  moreover have "last ps = z" using ps by simp
  ultimately show ?thesis using b(1) by blast
qed

lemma up_path_level: "tree h cs lvs tp \<Longrightarrow> j < length (hd lvs) \<Longrightarrow> i < length lvs \<Longrightarrow> up_path lvs j ! i \<in> set (lvs ! i)"
proof (induction lvs arbitrary: cs j i)
  case (Cons ns rest)
  show ?case
  proof (cases i)
    case (Suc i')
    then obtain ms r where r: "rest = ms # r" using Cons.prems(3) by (cases rest) auto
    then have trm: "tree h ns rest tp" using Cons.prems(1) by simp
    have "j div 128 < length (hd rest)" using tree_level [of h ns ms r tp] trm r Cons.prems(2)
      by (auto simp: level_def less_mult_imp_div_less mult.commute)
    then show ?thesis using Cons.IH [OF trm] Suc Cons.prems(3) by simp
  qed (use Cons.prems in simp)
qed simp

lemma up_path_old:
  "tree h cs lvs tp \<Longrightarrow> \<forall>i < length lvs. \<exists>zs. lvs' ! i = lvs ! i @ zs \<Longrightarrow> length lvs \<le> length lvs' \<Longrightarrow> i < length lvs \<Longrightarrow>
   up_path lvs' (length (hd lvs) - 1) ! i = last (lvs ! i)"
proof (induction lvs arbitrary: cs lvs' i)
  case (Cons ns rest)
  obtain ns' rest' where l': "lvs' = ns' # rest'" using Cons.prems(3) by (cases lvs') auto
  have ne: "ns \<noteq> []" using tree_level [OF Cons.prems(1)] level_last(1) by blast
  obtain zs where ns': "ns' = ns @ zs" using Cons.prems(2) l' by (metis length_greater_0_conv list.distinct(1) nth_Cons_0)
  show ?case
  proof (cases i)
    case 0
    then show ?thesis using l' ns' ne by (simp add: nth_append last_conv_nth)
  next
    case (Suc i')
    then obtain ms r where r: "rest = ms # r" using Cons.prems(4) by (cases rest) auto
    then have trm: "tree h ns rest tp" using Cons.prems(1) by simp
    then obtain par where "level h ns ms par" using tree_level r by blast
    then have "(length ns - 1) div 128 = length (hd rest) - 1" using last_parent r by simp
    moreover have "\<forall>i < length rest. \<exists>zs. rest' ! i = rest ! i @ zs" using Cons.prems(2) l' by auto
    ultimately show ?thesis using Cons.IH [OF trm, of rest' i'] Suc Cons.prems(3,4) l' by simp
  qed
qed simp

definition saved :: "dheap \<Rightarrow> nat set \<Rightarrow> bool" where
  "saved h S \<longleftrightarrow> (\<forall>q \<in> S. \<forall>x. idxs h q = Some x \<longrightarrow> old_next_index_to_insert x = next_index_to_insert x)"

text \<open>The nodes after the error path: restored, the new ones freed, the list and the tree cut off again.\<close>

definition undone :: "dheap \<Rightarrow> nat set \<Rightarrow> nat list \<Rightarrow> nat \<Rightarrow> nat \<Rightarrow> nat \<Rightarrow> ic_dynamic_array_index option" where
  "undone h P news l tp q =
     (if q \<in> set news then None else map_option (\<lambda>x.
        x\<lparr>next_index_to_insert := if q \<in> P then old_next_index_to_insert x else next_index_to_insert x,
          next_dyn_index := if q = l then None else next_dyn_index x,
          parent_dyn_index := if q = tp then None else parent_dyn_index x\<rparr>) (idxs h q))"

lemma undone_old:
  assumes inv: "idx_inv h1 a0 cs lvs xs" and ext: "idx_ext h1 a1 lvs xs h a lvs' news" and tp: "top_dyn_index a1 = top_dyn_index a0"
    and sv: "saved h1 (set (map last lvs))" and P: "set (map last lvs) \<subseteq> P" "P \<subseteq> set (map last lvs) \<union> set news"
    and q: "q < fresh h1" "idxs h1 q = Some x"
  shows "\<exists>x'. undone h P news (last xs) (top_dyn_index a0) q = Some x' \<and> sim_node x x' \<and>
    (q \<noteq> last xs \<longrightarrow> next_dyn_index x' = next_dyn_index x) \<and> (q = last xs \<longrightarrow> next_dyn_index x' = None) \<and> (q \<notin> set xs \<longrightarrow> x' = x)"
proof -
  have e: "keeps h1 h {last xs} {top_dyn_index a0} (set (map last lvs))" "set news \<subseteq> {fresh h1..<fresh h}"
    using ext tp by (auto simp: idx_ext_def)
  have i: "tree h1 cs lvs (top_dyn_index a0)" "set xs = set (concat lvs)" "xs \<noteq> []" using inv by (auto simp: idx_inv_def)
  from keepsD [OF e(1) q(2,1)] obtain y where y: "idxs h q = Some y"
    "keeps_node x y (q \<in> {last xs}) (q \<in> {top_dyn_index a0}) (q \<in> set (map last lvs))" by blast
  have nn: "q \<notin> set news" using e(2) q(1) by auto
  then have qP: "q \<in> P \<longleftrightarrow> q \<in> set (map last lvs)" using P by blast
  define x' where "x' = y\<lparr>next_index_to_insert := if q \<in> P then old_next_index_to_insert y else next_index_to_insert y,
      next_dyn_index := if q = last xs then None else next_dyn_index y, parent_dyn_index := if q = top_dyn_index a0 then None else parent_dyn_index y\<rparr>"
  have u: "undone h P news (last xs) (top_dyn_index a0) q = Some x'" using nn y(1) by (simp add: undone_def x'_def)
  have ni: "next_index_to_insert x' = next_index_to_insert x"
    using y(2) sv q(2) qP by (auto simp: x'_def keeps_node_def saved_def)
  have pa: "parent_dyn_index x' = parent_dyn_index x"
    using y(2) tree_top_parent [OF i(1)] q(2) by (auto simp: x'_def keeps_node_def)
  have sim: "sim_node x x'" using y(2) ni pa by (auto simp: sim_node_def x'_def keeps_node_def)
  have nx: "q \<noteq> last xs \<longrightarrow> next_dyn_index x' = next_dyn_index x" "q = last xs \<longrightarrow> next_dyn_index x' = None"
    using y(2) by (auto simp: x'_def keeps_node_def)
  have "x' = x" if "q \<notin> set xs"
  proof -
    have "q \<noteq> last xs" using that i(3) by auto
    moreover have "q \<noteq> top_dyn_index a0" using tree_top_in [OF i(1)] i(2) that by auto
    moreover have "q \<notin> set (map last lvs)" using tree_last_in [OF i(1)] i(2) that by blast
    ultimately show ?thesis using y(2) qP by (intro ic_dynamic_array_index.equality) (auto simp: x'_def keeps_node_def)
  qed
  then show ?thesis using u sim nx by blast
qed

lemma undo_index:
  assumes inv: "idx_inv h1 a0 cs lvs xs" and ext: "idx_ext h1 a1 lvs xs h a lvs' news" and tp: "top_dyn_index a1 = top_dyn_index a0"
    and sv: "saved h1 (set (map last lvs))" and inv': "idx_inv h a cs' lvs' (xs @ news)"
  shows "\<exists>P. c_bind (restore_counts (fresh h) h (Some (last_dyn_index a0))) (\<lambda>h.
     c_bind (get_idx h (last_dyn_index a0)) (\<lambda>x.
     c_bind (release_dyn_index h (next_dyn_index x)) (\<lambda>h.
     c_bind (upd_idx h (last_dyn_index a0) (\<lambda>x. x\<lparr>next_dyn_index := None\<rparr>)) (\<lambda>h.
       upd_idx h (top_dyn_index a0) (\<lambda>x. x\<lparr>parent_dyn_index := None\<rparr>))))) =
     Inr (h\<lparr>idxs := undone h P news (last xs) (top_dyn_index a0)\<rparr>) \<and>
     set (map last lvs) \<subseteq> P \<and> P \<subseteq> set (map last lvs) \<union> set news"
proof -
  have i: "tree h1 cs lvs (top_dyn_index a0)" "last (hd lvs) = last_dyn_index a0" "last xs = last_dyn_index a0" "set xs = set (concat lvs)"
    "xs \<noteq> []" "dheap_ok h1" using inv by (auto simp: idx_inv_def)
  have i': "dheap_ok h" "tree h cs' lvs' (top_dyn_index a)" "distinct (concat lvs')" "distinct (xs @ news)" "set (xs @ news) = set (concat lvs')"
    "ipath h (Some (first_dyn_index a)) (xs @ news) None" using inv' by (auto simp: idx_inv_def)
  have l: "length lvs \<le> length lvs'" "\<forall>i < length lvs. \<exists>zs. lvs' ! i = lvs ! i @ zs" and le: "lv_ext lvs lvs' (set news)"
    using ext by (auto simp: idx_ext_def lv_ext_def)
  have ne: "lvs \<noteq> []" "hd lvs \<noteq> []" using i(1) tree_nonempty [OF i(1)] by (cases lvs; auto)+
  obtain ns rest where lvs': "lvs' = ns # rest" using l(1) ne(1) by (cases lvs') auto
  obtain zs where zs: "ns = hd lvs @ zs" using l(2) ne(1) lvs' by (metis hd_conv_nth length_greater_0_conv nth_Cons_0)
  define j where "j = length (hd lvs) - 1"
  define P where "P = up_path lvs' j"
  have jl: "j < length (hd lvs)" using ne(2) by (simp add: j_def)
  have j: "j < length (hd lvs')" using zs lvs' jl by simp
  have nj: "ns ! j = last_dyn_index a0" using zs ne(2) i(2) jl by (simp add: j_def nth_append last_conv_nth)
  have pp: "ppath h (Some (last_dyn_index a0)) P" "length P = length lvs'"
    using up_path_ok [of h cs' ns rest "top_dyn_index a" j] i'(2) j nj lvs' by (auto simp: P_def)
  have dP: "distinct P" unfolding P_def by (rule up_path_distinct [OF i'(3,2) j])
  have Pi: "P ! i = last (lvs ! i)" if "i < length lvs" for i unfolding P_def j_def by (rule up_path_old [OF i(1) l(2,1) that])
  have sub1: "set (map last lvs) \<subseteq> set P"
    using Pi l(1) pp(2) by (auto simp: in_set_conv_nth) (metis order_less_le_trans)
  have sub2: "set P \<subseteq> set (map last lvs) \<union> set news"
  proof
    fix q assume "q \<in> set P"
    then obtain k where k: "k < length lvs'" "q = P ! k" using pp(2) by (auto simp: in_set_conv_nth)
    show "q \<in> set (map last lvs) \<union> set news"
    proof (cases "k < length lvs")
      case True
      then show ?thesis using Pi k(2) by auto
    next
      case False
      have "q \<in> set (lvs' ! k)" using up_path_level [OF i'(2) j k(1)] k(2) by (simp add: P_def)
      then show ?thesis using lv_ext_high [OF le _ k(1)] False by simp
    qed
  qed
  define f where "f = (\<lambda>x :: ic_dynamic_array_index. x\<lparr>next_index_to_insert := old_next_index_to_insert x\<rparr>)"
  define hB where "hB = map_idxs f (set P) h"
  have r: "restore_counts (fresh h) h (Some (last_dyn_index a0)) = Inr hB"
    unfolding restore_counts_def hB_def f_def using walk_up_ok [OF pp(1) dP] levels_below [OF i'(2,3,1)] pp(2) by simp
  have xin: "idxs h q \<noteq> None" "q < fresh h" if "q \<in> set (xs @ news)" for q
    using tree_live [OF i'(2)] tree_below [OF i'(2,1)] that unfolding i'(5) by auto
  have l0: "last_dyn_index a0 \<in> set xs" "last_dyn_index a0 \<notin> set news" using last_in_set [OF i(5)] i(3) i'(4) by auto
  have t0: "top_dyn_index a0 \<in> set xs" "top_dyn_index a0 \<notin> set news" using tree_top_in [OF i(1)] i(4) i'(4) by auto
  obtain x0 where x0: "idxs h (last_dyn_index a0) = Some x0" using xin(1) l0(1) by auto
  obtain y0 where y0: "idxs h (top_dyn_index a0) = Some y0" using xin(1) t0(1) by auto
  obtain ys where ys: "xs = ys @ [last_dyn_index a0]" using i(3,5) by (metis append_butlast_last_id)
  have "ipath h (next_dyn_index x0) news None" using i'(6) ys x0 by auto
  then have ip: "ipath hB (next_dyn_index x0) news None" by (rule ipath_cong) (auto simp: hB_def f_def map_option.comp comp_def option.map_comp)
  have "\<exists>x1. idxs hB (last_dyn_index a0) = Some x1 \<and> next_dyn_index x1 = next_dyn_index x0" using x0 by (simp add: hB_def f_def)
  then obtain x1 where x1: "idxs hB (last_dyn_index a0) = Some x1" "next_dyn_index x1 = next_dyn_index x0" by blast
  define hC where "hC = hB\<lparr>idxs := (\<lambda>q. if q \<in> set news then None else idxs hB q)\<rparr>"
  have rel: "release_dyn_index hB (next_dyn_index x1) = Inr hC"
    unfolding hC_def x1(2) by (rule release_idx_chain [OF ip]) (use i'(4) xin(2) in \<open>auto simp: hB_def\<close>)
  have final: "c_bind (upd_idx hC (last_dyn_index a0) (\<lambda>x. x\<lparr>next_dyn_index := None\<rparr>)) (\<lambda>h.
       upd_idx h (top_dyn_index a0) (\<lambda>x. x\<lparr>parent_dyn_index := None\<rparr>)) =
     Inr (h\<lparr>idxs := undone h (set P) news (last xs) (top_dyn_index a0)\<rparr>)"
    using x0 y0 l0(2) t0(2) i(3)
    by (cases "top_dyn_index a0 = last_dyn_index a0")
       (auto simp: upd_idx_def get_idx_def hC_def hB_def f_def undone_def fun_eq_iff map_idxs_def option.map_ident intro!: dheap.equality)
  show ?thesis using r x1(1) rel final sub1 sub2 by (intro exI [of _ "set P"]) simp
qed


lemma undone_inv:
  assumes inv: "idx_inv h1 a0 cs lvs xs" and ext: "idx_ext h1 a1 lvs xs h a lvs' news" and tp: "top_dyn_index a1 = top_dyn_index a0"
    and sv: "saved h1 (set (map last lvs))" and P: "set (map last lvs) \<subseteq> P" "P \<subseteq> set (map last lvs) \<union> set news"
    and hF: "idxs hF = undone h P news (last xs) (top_dyn_index a0)" "dheap_ok hF"
    and aF: "top_dyn_index aF = top_dyn_index a0" "first_dyn_index aF = first_dyn_index a0" "last_dyn_index aF = last_dyn_index a0"
      "index_levels aF = index_levels a0"
  shows "idx_inv hF aF cs lvs xs" and "q \<notin> set xs \<Longrightarrow> idxs hF q = idxs h1 q"
proof -
  have i: "dheap_ok h1" "tree h1 cs lvs (top_dyn_index a0)" "distinct (concat lvs)" "ipath h1 (Some (first_dyn_index a0)) xs None" "xs \<noteq> []"
    "distinct xs" "set xs = set (concat lvs)" using inv by (auto simp: idx_inv_def)
  note old = undone_old [OF inv ext tp sv P, folded hF(1)]
  have "tree hF cs lvs (top_dyn_index a0)"
  proof (rule tree_sim [OF i(2)])
    fix q x assume "q \<in> set (concat lvs)" "idxs h1 q = Some x"
    then show "\<exists>x'. idxs hF q = Some x' \<and> sim_node x x'" using old tree_below [OF i(2,1)] by blast
  qed
  moreover have "ipath hF (Some (first_dyn_index a0)) xs None"
  proof -
    obtain l where l: "idxs h1 (last xs) = Some l" "next_dyn_index l = None" using idx_inv_last [OF inv] inv by (auto simp: idx_inv_def)
    have "map_option next_dyn_index (idxs hF q) = map_option next_dyn_index (idxs h1 q)" if "q \<in> set xs" for q
    proof -
      have "q \<in> set (concat lvs)" using that i(7) by simp
      then obtain x where x: "idxs h1 q = Some x" "q < fresh h1" using tree_live [OF i(2)] tree_below [OF i(2,1)] by blast
      show ?thesis using old [OF x(2,1)] x(1) l by auto
    qed
    then show ?thesis by (intro ipath_cong [OF i(4)]) auto
  qed
  ultimately show "idx_inv hF aF cs lvs xs" using inv aF hF(2) by (auto simp: idx_inv_def)
  assume q: "q \<notin> set xs"
  show "idxs hF q = idxs h1 q"
  proof (cases "q < fresh h1")
    case True
    then show ?thesis using old [OF True] q ext hF(1) by (cases "idxs h1 q") (auto simp: idx_ext_def keeps_def undone_def)
  next
    case False
    then show ?thesis using ext hF(1) i(1) by (auto simp: idx_ext_def undone_def dheap_ok_def)
  qed
qed


lemma idx_inv_cong:
  assumes "idx_inv h a cs lvs xs" and "idxs h' = idxs h" and "dheap_ok h'"
    and "top_dyn_index a' = top_dyn_index a" "first_dyn_index a' = first_dyn_index a" "last_dyn_index a' = last_dyn_index a" "index_levels a' = index_levels a"
  shows "idx_inv h' a' cs lvs xs"
proof -
  have "tree h' cs lvs (top_dyn_index a)" by (rule tree_cong [of h]) (use assms(1,2) in \<open>auto simp: idx_inv_def\<close>)
  moreover have "ipath h' (Some (first_dyn_index a)) xs None" by (rule ipath_cong [of h]) (use assms(1,2) in \<open>auto simp: idx_inv_def\<close>)
  ultimately show ?thesis using assms by (simp add: idx_inv_def)
qed

lemma sd_inv_cong:
  assumes "sd_inv h a ps" and "bufs h' = bufs h" and "dheap_ok h'"
    and "first_dyn_buf a' = first_dyn_buf a" "last_dyn_buf a' = last_dyn_buf a" "bytes_used a' = bytes_used a"
  shows "sd_inv h' a' ps" and "contents h' a' ps = contents h a ps"
proof -
  have "bpath h' (Some (first_dyn_buf a)) ps None = bpath h (Some (first_dyn_buf a)) ps None" by (rule bpath_cong) (simp add: assms(2))
  then show "sd_inv h' a' ps" using assms by (simp add: sd_inv_def)
  have "chain_bytes h' ps = chain_bytes h ps" by (rule chain_bytes_cong) (simp add: assms(2))
  then show "contents h' a' ps = contents h a ps" using assms(6) by (simp add: contents_def used_size_def)
qed

lemma undo_insert_ok:
  assumes inv: "idx_inv h1 a0 cs lvs xs" and ext: "idx_ext h1 a1 lvs xs h a lvs' news" and tp: "top_dyn_index a1 = top_dyn_index a0"
    and sv: "saved h1 (set (map last lvs))" and inv': "idx_inv h a cs' lvs' (xs @ news)"
    and sd: "sd_inv h a (ps @ new)" and ps: "ps \<noteq> []" "last ps = last_dyn_buf a0" "bytes_used a0 \<le> SIMPLE_DYNAMIC_ARRAY_BUF_SIZE"
    and fst: "first_dyn_index a = first_dyn_index a0"
  shows "\<exists>hF aF. undo_insert h a a0 = Inr (hF, aF) \<and> idx_inv hF aF cs lvs xs \<and> sd_inv hF aF ps \<and> chain_bytes hF ps = chain_bytes h ps \<and>
    bytes_used aF = bytes_used a0 \<and> total_size_in_bytes aF = total_size_in_bytes a \<and> structs hF = structs h \<and> fresh hF = fresh h \<and>
    (\<forall>q. q \<notin> set xs \<longrightarrow> idxs hF q = idxs h1 q) \<and> (\<forall>q. q \<notin> set ps \<longrightarrow> bufs hF q = (if q \<in> set new then None else bufs h q))"
proof -
  have d: "dheap_ok h" "distinct (ps @ new)" "bpath h (Some (first_dyn_buf a)) (ps @ new) None" using sd by (auto simp: sd_inv_def)
  have bel: "\<forall>q \<in> set (ps @ new). q < fresh h" using bpath_below [OF d(3,1)] by blast
  from truncate_ok [OF d(3,2) ps(1) bel] obtain b where b: "bufs h (last ps) = Some b"
    and tr: "c_bind (release_dyn_buf h (next_dyn_buf b)) (\<lambda>h. upd_buf h (last ps) (\<lambda>b. b\<lparr>next_dyn_buf := None\<rparr>)) =
      Inr (h\<lparr>bufs := (\<lambda>q. if q \<in> set new then None else if q = last ps then Some (b\<lparr>next_dyn_buf := None\<rparr>) else bufs h q)\<rparr>)"
    and pt: "bpath (h\<lparr>bufs := (\<lambda>q. if q \<in> set new then None else if q = last ps then Some (b\<lparr>next_dyn_buf := None\<rparr>) else bufs h q)\<rparr>)
      (Some (first_dyn_buf a)) ps None" by blast
  define B where "B = (\<lambda>q. if q \<in> set new then None else if q = last ps then Some (b\<lparr>next_dyn_buf := None\<rparr>) else bufs h q)"
  define hT where "hT = h\<lparr>bufs := B\<rparr>"
  define h1T where "h1T = h1\<lparr>bufs := B\<rparr>"
  have BN: "B q = None" if "bufs h q = None" for q using that b by (auto simp: B_def)
  have f: "fresh h1 \<le> fresh h" "bufs h = bufs h1" "dheap_ok h1" using ext inv by (auto simp: idx_ext_def idx_inv_def)
  have ok: "dheap_ok hT" "dheap_ok h1T" using d(1) f BN by (auto simp: hT_def h1T_def dheap_ok_def)
  have invT: "idx_inv h1T a0 cs lvs xs" by (rule idx_inv_cong [OF inv _ ok(2)]) (simp_all add: h1T_def)
  have invT': "idx_inv hT a cs' lvs' (xs @ news)" by (rule idx_inv_cong [OF inv' _ ok(1)]) (simp_all add: hT_def)
  have extT: "idx_ext h1T a1 lvs xs hT a lvs' news" using ext by (simp add: idx_ext_def keeps_def hT_def h1T_def)
  have svT: "saved h1T (set (map last lvs))" using sv by (simp add: saved_def h1T_def)
  from undo_index [OF invT extT tp svT invT'] obtain P where
    u: "c_bind (restore_counts (fresh hT) hT (Some (last_dyn_index a0))) (\<lambda>h.
     c_bind (get_idx h (last_dyn_index a0)) (\<lambda>x.
     c_bind (release_dyn_index h (next_dyn_index x)) (\<lambda>h.
     c_bind (upd_idx h (last_dyn_index a0) (\<lambda>x. x\<lparr>next_dyn_index := None\<rparr>)) (\<lambda>h.
       upd_idx h (top_dyn_index a0) (\<lambda>x. x\<lparr>parent_dyn_index := None\<rparr>))))) =
     Inr (hT\<lparr>idxs := undone hT P news (last xs) (top_dyn_index a0)\<rparr>)"
    and P: "set (map last lvs) \<subseteq> P" "P \<subseteq> set (map last lvs) \<union> set news" by blast
  define hF where "hF = hT\<lparr>idxs := undone hT P news (last xs) (top_dyn_index a0)\<rparr>"
  define aF where "aF = a\<lparr>last_dyn_buf := last_dyn_buf a0, bytes_used := bytes_used a0, last_dyn_index := last_dyn_index a0,
                top_dyn_index := top_dyn_index a0, index_levels := index_levels a0\<rparr>"
  have okF: "dheap_ok hF" using ok(1) by (auto simp: hF_def dheap_ok_def undone_def)
  have eq: "undo_insert h a a0 = Inr (hF, aF)"
  proof -
    have "undo_insert h a a0 = c_bind (c_bind (release_dyn_buf h (next_dyn_buf b)) (\<lambda>h. upd_buf h (last ps) (\<lambda>b. b\<lparr>next_dyn_buf := None\<rparr>)))
       (\<lambda>h. c_bind (c_bind (restore_counts (fresh h) h (Some (last_dyn_index a0))) (\<lambda>h.
     c_bind (get_idx h (last_dyn_index a0)) (\<lambda>x.
     c_bind (release_dyn_index h (next_dyn_index x)) (\<lambda>h.
     c_bind (upd_idx h (last_dyn_index a0) (\<lambda>x. x\<lparr>next_dyn_index := None\<rparr>)) (\<lambda>h.
       upd_idx h (top_dyn_index a0) (\<lambda>x. x\<lparr>parent_dyn_index := None\<rparr>)))))) (\<lambda>h. Inr (h, aF)))"
      unfolding undo_insert_def c_bind_assoc aF_def using b ps(2) by simp
    also have "\<dots> = Inr (hF, aF)" unfolding tr B_def [symmetric] hT_def [symmetric] c_bind_simps u hF_def [symmetric] ..
    finally show ?thesis .
  qed
  have dF: "idxs hF = undone hT P news (last xs) (top_dyn_index a0)" by (simp add: hF_def)
  have aFs: "top_dyn_index aF = top_dyn_index a0" "first_dyn_index aF = first_dyn_index a0" "last_dyn_index aF = last_dyn_index a0"
      "index_levels aF = index_levels a0" using fst by (simp_all add: aF_def)
  have iF: "idx_inv hF aF cs lvs xs" "\<forall>q. q \<notin> set xs \<longrightarrow> idxs hF q = idxs h1 q"
    using undone_inv [OF invT extT tp svT P dF okF aFs] by (simp_all add: h1T_def)
  have "bpath hF (Some (first_dyn_buf a)) ps None = bpath hT (Some (first_dyn_buf a)) ps None" by (rule bpath_cong) (simp add: hF_def)
  then have sF: "sd_inv hF aF ps" using pt okF ps d(2) by (simp add: sd_inv_def aF_def B_def hT_def)
  have "buf_at hF q = buf_at h q" if "q \<in> set ps" for q using that d(2) b by (auto simp: hF_def hT_def B_def)
  then have cF: "chain_bytes hF ps = chain_bytes h ps" by (induction ps) simp_all
  have bF: "bufs hF q = (if q \<in> set new then None else bufs h q)" if "q \<notin> set ps" for q
    using that ps(1) by (auto simp: hF_def hT_def B_def)
  show ?thesis
    by (rule exI [of _ hF], rule exI [of _ aF], intro conjI) (use eq iF sF cF bF in \<open>simp_all add: hF_def hT_def aF_def\<close>)
qed


section \<open>Insertion\<close>

lemma save_ok:
  assumes "idx_inv h a cs lvs xs"
  shows "\<exists>hs. save_counts (fresh h) h (Some (last_dyn_index a)) = Inr hs \<and> idx_inv hs a cs lvs xs \<and> saved hs (set (map last lvs)) \<and>
    bufs hs = bufs h \<and> fresh hs = fresh h \<and> structs hs = structs h \<and> (\<forall>q. q \<notin> set xs \<longrightarrow> idxs hs q = idxs h q)"
proof -
  have i: "dheap_ok h" "tree h cs lvs (top_dyn_index a)" "distinct (concat lvs)" "ipath h (Some (first_dyn_index a)) xs None"
    "last (hd lvs) = last_dyn_index a" "set xs = set (concat lvs)" using assms by (auto simp: idx_inv_def)
  obtain ns rest where lvs: "lvs = ns # rest" using i(2) by (cases lvs) auto
  have ne: "ns \<noteq> []" using tree_nonempty [OF i(2)] lvs by auto
  then have j: "length ns - 1 < length ns" "ns ! (length ns - 1) = last_dyn_index a" using i(5) lvs by (simp_all add: last_conv_nth)
  have up: "up_path lvs (length ns - 1) = map last lvs" using up_path_last [OF i(2)] lvs by simp
  have p: "ppath h (Some (last_dyn_index a)) (map last lvs)"
    using up_path_ok [of h cs ns rest "top_dyn_index a" "length ns - 1"] i(2) lvs j up by simp
  have dm: "distinct (map last lvs)" using up_path_distinct [OF i(3,2), of "length ns - 1"] j(1) lvs unfolding up by simp
  define f where "f = (\<lambda>x :: ic_dynamic_array_index. x\<lparr>old_next_index_to_insert := next_index_to_insert x\<rparr>)"
  let ?hs = "map_idxs f (set (map last lvs)) h"
  have s: "save_counts (fresh h) h (Some (last_dyn_index a)) = Inr ?hs"
    unfolding save_counts_def f_def using walk_up_ok [OF p dm] levels_below [OF i(2,3,1)] by simp
  have ok: "dheap_ok ?hs" using i(1) by (simp add: dheap_ok_def)
  have "tree ?hs cs lvs (top_dyn_index a)" by (rule tree_cong [OF i(2)])
      (simp add: f_def option.map_comp comp_def, intro impI option.map_cong refl, simp add: core_def)
  moreover have "ipath ?hs (Some (first_dyn_index a)) xs None" by (rule ipath_cong [OF i(4)]) (simp add: f_def option.map_comp comp_def)
  ultimately have "idx_inv ?hs a cs lvs xs" using assms ok by (simp add: idx_inv_def)
  moreover have "saved ?hs (set (map last lvs))" by (auto simp: saved_def f_def)
  moreover have "idxs ?hs q = idxs h q" if "q \<notin> set xs" for q using that tree_last_in [OF i(2)] i(6) by auto
  ultimately show ?thesis using s by (intro exI [of _ ?hs]) simp
qed

text \<open>The cells of \<open>m\<close> outside \<open>qs\<close>.\<close>

definition outside :: "(nat \<Rightarrow> 'b option) \<Rightarrow> nat list \<Rightarrow> nat \<Rightarrow> 'b option" where
  "outside m qs q = (if q \<in> set qs then None else m q)"

lemma outside_eqI:
  assumes "\<And>q. q \<notin> set qs \<Longrightarrow> q \<notin> set ps \<Longrightarrow> m' q = m q" and "\<And>q. q \<in> set qs \<Longrightarrow> q \<notin> set ps \<Longrightarrow> m q = None"
    and "set ps \<subseteq> set qs"
  shows "outside m' qs = outside m ps"
  using assms by (auto simp: outside_def fun_eq_iff)

lemma keeps_rest:
  assumes "idx_inv h a cs lvs xs" and "idx_ext h a lvs xs h' a' lvs' news" and "q \<notin> set xs" and "q \<notin> set news"
  shows "idxs h' q = idxs h q"
proof -
  have i: "dheap_ok h" "tree h cs lvs (top_dyn_index a)" "set xs = set (concat lvs)" "xs \<noteq> []" using assms(1) by (auto simp: idx_inv_def)
  have out: "q \<noteq> last xs" "q \<noteq> top_dyn_index a" "q \<notin> set (map last lvs)"
    using assms(3) last_in_set [OF i(4)] tree_top_in [OF i(2)] tree_last_in [OF i(2)] i(3) by auto
  have e: "keeps h h' {last xs} {top_dyn_index a} (set (map last lvs))" "\<forall>q \<ge> fresh h. q \<notin> set news \<longrightarrow> idxs h' q = None"
    using assms(2) by (simp_all add: idx_ext_def)
  show ?thesis
  proof (cases "q < fresh h")
    case True
    show ?thesis
    proof (cases "idxs h q")
      case None
      then show ?thesis using e(1) True by (simp add: keeps_def)
    next
      case (Some x)
      from keepsD [OF e(1) Some True] obtain x' where x': "idxs h' q = Some x'" "keeps_node x x' False False False" using out by auto
      then have "x' = x" by (intro ic_dynamic_array_index.equality) (auto simp: keeps_node_def)
      then show ?thesis using x'(1) Some by simp
    qed
  next
    case False
    then show ?thesis using e(2) assms(4) i(1) by (auto simp: dheap_ok_def)
  qed
qed

lemma prefix_contents:
  assumes "sd_inv h a ps" and "contents h a ps = xs @ ys"
  shows "take (length xs) (chain_bytes h ps) = take (length xs) (xs @ ys)"
proof -
  have "length xs \<le> used_size a ps" using length_contents [OF assms(1)] assms(2) by simp
  then have "take (length xs) (chain_bytes h ps) = take (length xs) (contents h a ps)" by (simp add: contents_def min_def)
  then show ?thesis by (simp only: assms(2))
qed

lemma insert_ordered_ok:
  assumes sd: "sd_inv h a ps" and ix: "idx_inv h a ps lvs xs"
  shows "\<exists>rc h' a' as' ps' lvs' xs'. insert_ordered_dynamic_array as h a bs = Inr (rc, h', a', as') \<and> (as = [] \<longrightarrow> rc = 0 \<and> as' = []) \<and>
    sd_inv h' a' ps' \<and> idx_inv h' a' ps' lvs' xs' \<and> outside (bufs h') ps' = outside (bufs h) ps \<and>
    outside (idxs h') xs' = outside (idxs h) xs \<and> structs h' = structs h \<and>
    (rc = 0 \<and> contents h' a' ps' = contents h a ps @ bs \<and> total_size_in_bytes a' = total_size_in_bytes a + length bs \<or>
     rc = IC_ERROR_MEM_ALLOC \<and> contents h' a' ps' = contents h a ps \<and>
       total_size_in_bytes a' \<in> {total_size_in_bytes a, total_size_in_bytes a + length bs})"
proof -
  from save_ok [OF ix] obtain hs where hs: "save_counts (fresh h) h (Some (last_dyn_index a)) = Inr hs" "idx_inv hs a ps lvs xs"
    "saved hs (set (map last lvs))" "bufs hs = bufs h" "fresh hs = fresh h" "structs hs = structs h" "\<forall>q. q \<notin> set xs \<longrightarrow> idxs hs q = idxs h q" by blast
  have ok: "dheap_ok hs" using hs(2) by (simp add: idx_inv_def)
  have sds: "sd_inv hs a ps" "contents hs a ps = contents h a ps" using sd_inv_cong [OF sd hs(4) ok] by simp_all
  have off0: "outside (idxs hs) xs = outside (idxs h) xs" using hs(7) by (auto simp: outside_def fun_eq_iff)
  from insert_simple_ok [OF sds(1), of as bs] obtain rc1 h1 a1 as1 where
    r1: "insert_simple_dynamic_array as hs a bs = Inr (rc1, h1, a1, as1)"
    and o1: "rc1 = 0 \<and> (as = [] \<longrightarrow> as1 = []) \<and> sd_inv h1 a1 (ps @ [fresh hs..<fresh h1]) \<and>
       contents h1 a1 (ps @ [fresh hs..<fresh h1]) = contents hs a ps @ bs \<and> only_bufs hs h1 (ps @ [fresh hs..<fresh h1]) \<and>
       (\<exists>l n. a1 = a\<lparr>last_dyn_buf := l, bytes_used := n, total_size_in_bytes := total_size_in_bytes a + length bs\<rparr>) \<and>
       SIMPLE_DYNAMIC_ARRAY_BUF_SIZE * (fresh h1 - fresh hs) < length bs + SIMPLE_DYNAMIC_ARRAY_BUF_SIZE \<or>
     rc1 = IC_ERROR_MEM_ALLOC \<and> as \<noteq> [] \<and> a1 = a \<and> sd_inv h1 a ps \<and> contents h1 a ps = contents hs a ps \<and> only_bufs hs h1 ps" by blast
  show ?thesis
  proof (cases "rc1 = 0")
    case False
    then have o: "rc1 = IC_ERROR_MEM_ALLOC" "as \<noteq> []" "a1 = a" "sd_inv h1 a ps" "contents h1 a ps = contents hs a ps" "only_bufs hs h1 ps"
      using o1 by auto
    have eq: "insert_ordered_dynamic_array as h a bs = Inr (IC_ERROR_MEM_ALLOC, h1, a, as1)"
      using hs(1) r1 False o(1,3) by (simp add: insert_ordered_dynamic_array_def)
    have i1: "idx_inv h1 a ps lvs xs" by (rule idx_inv_cong [OF hs(2)]) (use o(4,6) in \<open>simp_all add: only_bufs_def sd_inv_def\<close>)
    have fr: "outside (bufs h1) ps = outside (bufs h) ps" "outside (idxs h1) xs = outside (idxs h) xs" "structs h1 = structs h"
      using o(6) hs(4,6,7) by (auto simp: only_bufs_def outside_def fun_eq_iff)
    show ?thesis unfolding eq using o(2,4,5) i1 fr sds(2)
      by (intro exI [of _ IC_ERROR_MEM_ALLOC] exI [of _ h1] exI [of _ a] exI [of _ as1] exI [of _ ps] exI [of _ lvs] exI [of _ xs]) simp
  next
    case True
    let ?new = "[fresh hs..<fresh h1]"
    have o: "as = [] \<longrightarrow> as1 = []" "sd_inv h1 a1 (ps @ ?new)" "contents h1 a1 (ps @ ?new) = contents hs a ps @ bs" "only_bufs hs h1 (ps @ ?new)"
      "SIMPLE_DYNAMIC_ARRAY_BUF_SIZE * (fresh h1 - fresh hs) < length bs + SIMPLE_DYNAMIC_ARRAY_BUF_SIZE"
      using o1 True by (auto simp: err_codes)
    have a1: "top_dyn_index a1 = top_dyn_index a" "first_dyn_index a1 = first_dyn_index a" "last_dyn_index a1 = last_dyn_index a"
      "index_levels a1 = index_levels a" "total_size_in_bytes a1 = total_size_in_bytes a + length bs" "first_dyn_buf a1 = first_dyn_buf a"
      using o1 True by (auto simp: err_codes)
    have ok1: "dheap_ok h1" using o(2) by (simp add: sd_inv_def)
    have io: "idxs h1 = idxs hs" "structs h1 = structs hs" "fresh hs \<le> fresh h1" "\<And>q. q \<notin> set (ps @ ?new) \<Longrightarrow> bufs h1 q = bufs hs q"
      using o(4) by (auto simp: only_bufs_def)
    have i1: "idx_inv h1 a1 ps lvs xs" by (rule idx_inv_cong [OF hs(2) io(1) ok1 a1(1-4)])
    have i0: "idx_inv h1 a ps lvs xs" by (rule idx_inv_cong [OF hs(2) io(1) ok1]) simp_all
    have sd': "ps \<noteq> []" "last ps = last_dyn_buf a" "bytes_used a \<le> SIMPLE_DYNAMIC_ARRAY_BUF_SIZE" "distinct ps"
      "bpath h (Some (first_dyn_buf a)) ps None" "dheap_ok h" using sd by (auto simp: sd_inv_def)
    have d1: "bpath h1 (Some (first_dyn_buf a1)) (ps @ ?new) None" "distinct (ps @ ?new)" "last (ps @ ?new) = last_dyn_buf a1"
      using o(2) by (auto simp: sd_inv_def)
    obtain ys where ys: "ps = ys @ [last_dyn_buf a]" using sd'(1,2) by (metis append_butlast_last_id)
    have bp: "bpath h1 (Some (last_dyn_buf a)) (last_dyn_buf a # ?new) None"
      using d1(1) unfolding ys append.assoc bpath_append by (auto simp: bpath_append)
    have lst: "last (last_dyn_buf a # ?new) = last_dyn_buf a1" "distinct (last_dyn_buf a # ?new)"
      using d1(2,3) ys by (auto simp: last_append)
    have sz: "0 + SIMPLE_DYNAMIC_ARRAY_BUF_SIZE * length ?new < length bs + SIMPLE_DYNAMIC_ARRAY_BUF_SIZE" using o(5) by simp
    from index_loop_ok [OF i1 bp lst(2,1) sz, of as1] obtain rc h2 a2 as2 lvs2 news cs2 where
      r2: "index_new_bufs as1 h1 a1 (last_dyn_buf a) (length bs) 0 = Inr (rc, h2, a2, as2)" "as1 = [] \<longrightarrow> rc = 0 \<and> as2 = []"
        "idx_inv h2 a2 cs2 lvs2 (xs @ news)" "idx_ext h1 a1 lvs xs h2 a2 lvs2 news" "rc = 0 \<and> cs2 = ps @ ?new \<or> rc = IC_ERROR_MEM_ALLOC"
      by blast
    have e: "same_data a1 a2" "bufs h2 = bufs h1" "structs h2 = structs h1" "set news \<subseteq> {fresh h1..<fresh h2}" "dheap_ok h2"
      "\<forall>q < fresh h1. idxs h1 q = None \<longrightarrow> idxs h2 q = None" "\<forall>q \<ge> fresh h1. q \<notin> set news \<longrightarrow> idxs h2 q = None"
      "keeps h1 h2 {last xs} {top_dyn_index a1} (set (map last lvs))"
      using r2(3,4) by (auto simp: idx_ext_def idx_inv_def keeps_def)
    have sd2: "sd_inv h2 a2 (ps @ ?new)" "contents h2 a2 (ps @ ?new) = contents h a ps @ bs"
      using sd_inv_cong [OF o(2) e(2,5)] e(1) o(3) sds(2) by (simp_all add: same_data_def)
    have bel: "q < fresh h" if "q \<in> set ps" for q using bpath_below [OF sd'(5,6)] that by simp
    have fo: "bufs h q = None" if "q \<in> set ?new" for q using that hs(5) sd'(6) by (auto simp: dheap_ok_def)
    have oi: "outside (idxs h2) (xs @ news) = outside (idxs h) xs"
    proof (rule outside_eqI)
      fix q assume q: "q \<notin> set (xs @ news)" "q \<notin> set xs"
      have "idxs h2 q = idxs h1 q" using keeps_rest [OF i1 r2(4)] q by simp
      then show "idxs h2 q = idxs h q" using hs(7) io(1) q by simp
    next
      fix q assume "q \<in> set (xs @ news)" "q \<notin> set xs"
      then show "idxs h q = None" using e(4) hs(5) io(3) sd'(6) by (auto simp: dheap_ok_def)
    qed simp
    have ob: "outside (bufs h2) (ps @ ?new) = outside (bufs h) ps"
      by (rule outside_eqI) (use io(4) hs(4) e(2) fo in auto)
    have st: "structs h2 = structs h" using e(3) io(2) hs(6) by simp
    show ?thesis
    proof (cases "rc = 0")
      case z: True
      then have cs2: "cs2 = ps @ ?new" using r2(5) by (auto simp: err_codes)
      have eq: "insert_ordered_dynamic_array as h a bs = Inr (0, h2, a2, as2)"
        using hs(1) r1 True r2(1) z by (simp add: insert_ordered_dynamic_array_def)
      have al: "as = [] \<longrightarrow> as2 = []" "total_size_in_bytes a2 = total_size_in_bytes a + length bs"
        using o(1) r2(2) e(1) a1(5) by (auto simp: same_data_def)
      show ?thesis unfolding eq using al sd2 r2(3) ob oi st cs2
        by (intro exI [of _ 0] exI [of _ h2] exI [of _ a2] exI [of _ as2] exI [of _ "ps @ ?new"] exI [of _ lvs2] exI [of _ "xs @ news"]) simp
    next
      case nz: False
      then have m: "rc = IC_ERROR_MEM_ALLOC" "as \<noteq> []" using r2(2,5) o(1) by auto
      have fi: "first_dyn_index a2 = first_dyn_index a" using e(1) a1(2) by (simp add: same_data_def)
      have sv: "saved h1 (set (map last lvs))" using hs(3) io(1) by (simp add: saved_def)
      from undo_insert_ok [OF i0 r2(4) a1(1) sv r2(3) sd2(1) sd'(1-3) fi] obtain hF aF where
        u: "undo_insert h2 a2 a = Inr (hF, aF)" "idx_inv hF aF ps lvs xs" "sd_inv hF aF ps" "chain_bytes hF ps = chain_bytes h2 ps"
          "bytes_used aF = bytes_used a" "total_size_in_bytes aF = total_size_in_bytes a2" "structs hF = structs h2"
          "\<forall>q. q \<notin> set xs \<longrightarrow> idxs hF q = idxs h1 q" "\<forall>q. q \<notin> set ps \<longrightarrow> bufs hF q = (if q \<in> set ?new then None else bufs h2 q)"
        by blast
      have eq: "insert_ordered_dynamic_array as h a bs = Inr (IC_ERROR_MEM_ALLOC, hF, aF, as2)"
        using hs(1) r1 True r2(1) m(1) u(1) by (simp add: insert_ordered_dynamic_array_def err_codes)
      have us: "used_size aF ps = used_size a ps" using u(5) by (simp add: used_size_def)
      have "take (used_size a ps) (chain_bytes h2 (ps @ ?new)) = take (used_size a ps) (contents h a ps @ bs)"
        using prefix_contents [OF sd2(1,2)] length_contents [OF sd] by simp
      moreover have "used_size a ps \<le> length (chain_bytes h2 ps)"
        using used_size_le [OF u(3)] us u(4) length_chain_bytes [of hF "Some (first_dyn_buf aF)" ps None] u(3) by (simp add: sd_inv_def)
      ultimately have co: "contents hF aF ps = contents h a ps"
        unfolding contents_def [of hF] us u(4) using length_contents [OF sd] by simp
      have fr: "outside (bufs hF) ps = outside (bufs h) ps" "outside (idxs hF) xs = outside (idxs h) xs" "structs hF = structs h"
        using u(7-9) st io(1,4) hs(4,7) e(2) fo by (auto simp: outside_def fun_eq_iff)
      have tot: "total_size_in_bytes aF = total_size_in_bytes a + length bs" using u(6) e(1) a1(5) by (simp add: same_data_def)
      show ?thesis unfolding eq using m(2) u(2,3) co fr tot
        by (intro exI [of _ IC_ERROR_MEM_ALLOC] exI [of _ hF] exI [of _ aF] exI [of _ as2] exI [of _ ps] exI [of _ lvs] exI [of _ xs]) simp
    qed
  qed
qed

end
