(* ===== verification/IC_Ord_Bytes.thy ===== *)
theory IC_Ord_Bytes
  imports IC_Ord_Ops
begin

text \<open>
  What the ordered dynamic array of \<^verbatim>\<open>src/util/ic_dyn_array.c\<close> promises: it is a byte array in the
  sense of \<open>byte_array\<close>, its descent finds what the walk along the list of buffers finds, and its
  free function gives back everything. The lemmas on insertion are in \<open>IC_Ord_Ops\<close>.
\<close>

section \<open>The ordered array as a byte array\<close>

definition ord_ins :: "dyn_state \<Rightarrow> guint8 list \<Rightarrow> fault + (err \<times> dyn_state)" where
  "ord_ins = (\<lambda>(h, a, as) bs. insert_ordered_dynamic_array as h a bs)"

definition ord_rd :: "dyn_state \<Rightarrow> guint64 \<Rightarrow> guint64 \<Rightarrow> fault + guint8 list option" where
  "ord_rd = (\<lambda>(h, a, as) pos n. read_ordered_dynamic_array h a pos n)"

definition ord_wr :: "dyn_state \<Rightarrow> guint64 \<Rightarrow> guint8 list \<Rightarrow> fault + (err \<times> dyn_state)" where
  "ord_wr = (\<lambda>(h, a, as) pos bs. c_bind (write_ordered_dynamic_array h a pos bs) (\<lambda>(rc, h). Inr (rc, h, a, as)))"

text \<open>
  The array holds the bytes \<open>xs\<close> and everything else of the heap is as in \<open>h0\<close>. Its recorded size may
  be larger, since an insertion that fails in the index does not take back its size.
\<close>

definition ord_repr :: "dheap \<Rightarrow> dyn_state \<Rightarrow> guint8 list \<Rightarrow> bool" where
  "ord_repr h0 = (\<lambda>(h, a, as) bytes. \<exists>ps lvs xs. sd_inv h a ps \<and> idx_inv h a ps lvs xs \<and> contents h a ps = bytes \<and>
     length bytes \<le> total_size_in_bytes a \<and> outside (bufs h) ps = bufs h0 \<and> outside (idxs h) xs = idxs h0 \<and> structs h = Suc (structs h0))"

lemma ord_find:
  assumes "sd_inv h a ps" and "idx_inv h a ps lvs xs" and "pos < SIMPLE_DYNAMIC_ARRAY_BUF_SIZE * length ps"
  shows "find_pos_ordered_dyn_array h a pos =
    Inr (Some (Some (ps ! (pos div SIMPLE_DYNAMIC_ARRAY_BUF_SIZE)), pos mod SIMPLE_DYNAMIC_ARRAY_BUF_SIZE))"
proof -
  have t: "tree h ps lvs (top_dyn_index a)" "index_levels a = length lvs" using assms(2) by (simp_all add: idx_inv_def)
  have "pos div 2 ^ 10 < length ps" using assms(3) by (simp add: dyn_sizes less_mult_imp_div_less mult.commute)
  from find_ok [OF t(1) this] t(2) show ?thesis by (simp add: find_pos_ordered_dyn_array_def dyn_sizes)
qed

lemma ord_insert_repr:
  assumes "ord_repr h0 (h, a, as) xs"
  shows "\<exists>rc h' a' as'. insert_ordered_dynamic_array as h a bs = Inr (rc, h', a', as') \<and> (as = [] \<longrightarrow> rc = 0 \<and> as' = []) \<and>
    (rc = 0 \<and> ord_repr h0 (h', a', as') (xs @ bs) \<and> total_size_in_bytes a' = total_size_in_bytes a + length bs \<or>
     rc = IC_ERROR_MEM_ALLOC \<and> ord_repr h0 (h', a', as') xs)"
proof -
  from assms obtain ps lvs ns where i: "sd_inv h a ps" "idx_inv h a ps lvs ns" "contents h a ps = xs"
    "length xs \<le> total_size_in_bytes a" "outside (bufs h) ps = bufs h0" "outside (idxs h) ns = idxs h0" "structs h = Suc (structs h0)"
    by (auto simp: ord_repr_def)
  from insert_ordered_ok [OF i(1,2), of as bs] obtain rc h' a' as' ps' lvs' ns' where
    r: "insert_ordered_dynamic_array as h a bs = Inr (rc, h', a', as')" "as = [] \<longrightarrow> rc = 0 \<and> as' = []"
      "sd_inv h' a' ps'" "idx_inv h' a' ps' lvs' ns'" "outside (bufs h') ps' = outside (bufs h) ps"
      "outside (idxs h') ns' = outside (idxs h) ns" "structs h' = structs h"
    and o: "rc = 0 \<and> contents h' a' ps' = contents h a ps @ bs \<and> total_size_in_bytes a' = total_size_in_bytes a + length bs \<or>
     rc = IC_ERROR_MEM_ALLOC \<and> contents h' a' ps' = contents h a ps \<and>
       total_size_in_bytes a' \<in> {total_size_in_bytes a, total_size_in_bytes a + length bs}" by blast
  have repr: "ord_repr h0 (h', a', as') ys" if "contents h' a' ps' = ys" "length ys \<le> total_size_in_bytes a'" for ys
    unfolding ord_repr_def prod.case using r(3-7) i(5-7) that
    by (intro exI [of _ ps'] exI [of _ lvs'] exI [of _ ns']) simp
  have "rc = 0 \<and> ord_repr h0 (h', a', as') (xs @ bs) \<and> total_size_in_bytes a' = total_size_in_bytes a + length bs \<or>
     rc = IC_ERROR_MEM_ALLOC \<and> ord_repr h0 (h', a', as') xs"
    using o i(3,4) repr [of "xs @ bs"] repr [of xs] by auto
  then show ?thesis using r(1,2) by blast
qed

lemma ord_repr_struct:
  assumes "ord_repr (h0\<lparr>structs := Suc (structs h0)\<rparr>) (h, a, as) xs"
  shows "ord_repr h0 (h\<lparr>structs := structs h - 1\<rparr>, a, as) xs"
proof -
  let ?h = "h\<lparr>structs := structs h - 1\<rparr>"
  from assms obtain ps lvs ns where i: "sd_inv h a ps" "idx_inv h a ps lvs ns" "contents h a ps = xs"
    "length xs \<le> total_size_in_bytes a" "outside (bufs h) ps = bufs h0" "outside (idxs h) ns = idxs h0" "structs h = Suc (Suc (structs h0))"
    by (auto simp: ord_repr_def)
  have ok: "dheap_ok ?h" using i(1) by (simp add: sd_inv_def dheap_ok_def)
  have s: "sd_inv ?h a ps" "contents ?h a ps = xs" using sd_inv_cong [OF i(1) _ ok] i(3) by simp_all
  have x: "idx_inv ?h a ps lvs ns" by (rule idx_inv_cong [OF i(2) _ ok]) simp_all
  show ?thesis unfolding ord_repr_def prod.case using s x i(4-7)
    by (intro exI [of _ ps] exI [of _ lvs] exI [of _ ns]) simp
qed

interpretation oda: byte_array ord_ins ord_rd ord_wr "ord_repr h0" dyn_plenty for h0
proof
  fix s xs bs
  assume r: "ord_repr h0 s xs"
  obtain h a as where s: "s = (h, a, as)" by (cases s) auto
  from ord_insert_repr [OF r [unfolded s], of bs]
  show "\<exists>rc s'. ord_ins s bs = Inr (rc, s') \<and> (dyn_plenty s \<longrightarrow> rc = 0 \<and> dyn_plenty s') \<and>
      (rc = 0 \<and> ord_repr h0 s' (xs @ bs) \<or> rc = IC_ERROR_MEM_ALLOC \<and> ord_repr h0 s' xs)"
    by (auto simp: ord_ins_def s dyn_plenty_def)
next
  fix s xs and pos n :: guint64
  assume "ord_repr h0 s xs" and b: "unat pos + unat n \<le> length xs" "0 < n" "length xs < 18446744073709551616"
  then obtain h a as ps lvs ns where s: "s = (h, a, as)" and i: "sd_inv h a ps" "idx_inv h a ps lvs ns" "contents h a ps = xs"
    "length xs \<le> total_size_in_bytes a" by (cases s) (auto simp: ord_repr_def)
  have n: "0 < unat n" using b(2) by (simp add: word_less_nat_alt)
  have u: "unat pos + unat n \<le> used_size a ps" using b(1) i(3) length_contents [OF i(1)] by simp
  then have "unat pos < SIMPLE_DYNAMIC_ARRAY_BUF_SIZE * length ps" using used_size_le [OF i(1)] n by simp
  from ord_find [OF i(1,2) this] read_at [OF i(1) u n] i(3,4) b(1) unat_add_64 [OF b(1,3)]
  show "ord_rd s pos n = Inr (Some (take (unat n) (drop (unat pos) xs)))"
    by (simp add: ord_rd_def s read_ordered_dynamic_array_def)
next
  fix s xs and pos :: guint64 and bs :: "guint8 list"
  assume "ord_repr h0 s xs" and b: "unat (pos :: guint64) + length bs \<le> length xs" "bs \<noteq> []"
  then obtain h a as ps lvs ns where s: "s = (h, a, as)" and i: "sd_inv h a ps" "idx_inv h a ps lvs ns" "contents h a ps = xs"
    "length xs \<le> total_size_in_bytes a" "outside (bufs h) ps = bufs h0" "outside (idxs h) ns = idxs h0" "structs h = Suc (structs h0)"
    by (cases s) (auto simp: ord_repr_def)
  have u: "unat pos + length bs \<le> used_size a ps" using b(1) i(3) length_contents [OF i(1)] by simp
  then have "unat pos < SIMPLE_DYNAMIC_ARRAY_BUF_SIZE * length ps" using used_size_le [OF i(1)] b(2) by (cases bs) auto
  from ord_find [OF i(1,2) this] write_at [OF i(1) u b(2)] obtain h' where
    w: "write_ordered_dynamic_array h a pos bs = Inr (0, h')" "sd_inv h' a ps" "contents h' a ps = splice_bytes (unat pos) bs xs" "only_bufs h h' ps"
    using i(3) by (auto simp: write_ordered_dynamic_array_def)
  have ix: "idx_inv h' a ps lvs ns" by (rule idx_inv_cong [OF i(2)]) (use w(2,4) in \<open>simp_all add: only_bufs_def sd_inv_def\<close>)
  have "outside (bufs h') ps = outside (bufs h) ps" using w(4) by (auto simp: only_bufs_def outside_def fun_eq_iff)
  moreover have "idxs h' = idxs h" "structs h' = structs h" using w(4) by (simp_all add: only_bufs_def)
  ultimately have "outside (bufs h') ps = bufs h0" "outside (idxs h') ns = idxs h0" "structs h' = Suc (structs h0)"
    using i(5-7) by simp_all
  then have "ord_repr h0 (h', a, as) (splice_bytes (unat pos) bs xs)"
    unfolding ord_repr_def prod.case using w(2,3) ix i(4) b(1)
    by (intro exI [of _ ps] exI [of _ lvs] exI [of _ ns]) simp
  then show "\<exists>s'. ord_wr s pos bs = Inr (0, s') \<and> ord_repr h0 s' (splice_bytes (unat pos) bs xs)"
    using w(1) by (auto simp: ord_wr_def s)
qed

lemma ord_free:
  assumes "ord_repr h0 (h, a, as) bytes"
  shows "\<exists>h'. free_ordered_dynamic_array h a = Inr h' \<and> bufs h' = bufs h0 \<and> idxs h' = idxs h0 \<and> structs h' = structs h0"
proof -
  from assms obtain ps lvs xs where i: "sd_inv h a ps" "idx_inv h a ps lvs xs" "outside (bufs h) ps = bufs h0" "outside (idxs h) xs = idxs h0"
    "structs h = Suc (structs h0)" by (auto simp: ord_repr_def)
  have x: "dheap_ok h" "ipath h (Some (first_dyn_index a)) xs None" "distinct xs" "set xs = set (concat lvs)" "tree h ps lvs (top_dyn_index a)"
    using i(2) by (auto simp: idx_inv_def)
  have xb: "\<forall>q \<in> set xs. q < fresh h" using tree_below [OF x(5,1)] x(4) by simp
  have off: "(\<lambda>q. if q \<in> set qs then None else m q) = outside m qs" for qs and m :: "nat \<Rightarrow> 'x option"
    by (simp add: outside_def fun_eq_iff)
  let ?h = "h\<lparr>idxs := outside (idxs h) xs\<rparr>"
  have r: "release_dyn_index h (Some (first_dyn_index a)) = Inr ?h" using release_idx_chain [OF x(2,3) xb] unfolding off .
  have "sd_inv ?h a ps" by (rule sd_inv_cong [OF i(1)]) (use x(1) in \<open>simp_all add: dheap_ok_def outside_def\<close>)
  then have "bpath ?h (Some (first_dyn_buf a)) ps None" "distinct ps" "\<forall>q \<in> set ps. q < fresh ?h"
    using bpath_below [of ?h] by (auto simp: sd_inv_def)
  from release_chain [OF this, unfolded off] have "release_dyn_buf ?h (Some (first_dyn_buf a)) = Inr (?h\<lparr>bufs := outside (bufs h) ps\<rparr>)" by simp
  then show ?thesis using r i(3-5)
    by (simp add: free_ordered_dynamic_array_def free_simple_dynamic_array_def free_struct_def)
qed

lemma create_ordered_ok:
  assumes ok: "dheap_ok h0"
  shows "\<exists>r h as'. ic_create_ordered_dynamic_array as h0 = Inr (r, h, as') \<and>
    (case r of None \<Rightarrow> as \<noteq> [] \<and> bufs h = bufs h0 \<and> idxs h = idxs h0 \<and> structs h = structs h0
     | Some a \<Rightarrow> ord_repr h0 (h, a, as') [] \<and> total_size_in_bytes a = 0 \<and> (as = [] \<longrightarrow> as' = []))"
proof (cases "fst (alloc_next as)")
  case False
  then show ?thesis by (cases "alloc_next as") (auto simp: ic_create_ordered_dynamic_array_def calloc_idx_def)
next
  case True
  define h1 where "h1 = h0\<lparr>idxs := (idxs h0)(fresh h0 \<mapsto> empty_index), fresh := Suc (fresh h0)\<rparr>"
  have al: "calloc_idx as h0 = (Some (fresh h0), h1, snd (alloc_next as))" using True
    by (cases "alloc_next as") (simp add: calloc_idx_def h1_def)
  have ok1: "dheap_ok h1" "idxs h0 (fresh h0) = None" using ok by (auto simp: h1_def dheap_ok_def)
  from create_simple_ok [OF ok1(1), of "snd (alloc_next as)"] obtain r h as' where
    c: "ic_create_simple_dynamic_array (snd (alloc_next as)) h1 = Inr (r, h, as')"
      "case r of None \<Rightarrow> snd (alloc_next as) \<noteq> [] \<and> h = h1
       | Some a \<Rightarrow> (snd (alloc_next as) = [] \<longrightarrow> as' = []) \<and> simple_repr h1 (h, a, as') [] \<and>
       h = h1\<lparr>bufs := (bufs h1)(fresh h1 \<mapsto> empty_buf), fresh := Suc (fresh h1), structs := Suc (structs h1)\<rparr> \<and>
       first_dyn_buf a = fresh h1 \<and> last_dyn_buf a = fresh h1 \<and> bytes_used a = 0 \<and> total_size_in_bytes a = 0" by blast
  have nil: "as = [] \<longrightarrow> snd (alloc_next as) = []" by auto
  show ?thesis
  proof (cases r)
    case None
    then have "ic_create_ordered_dynamic_array as h0 = Inr (None, h1\<lparr>idxs := (idxs h1)(fresh h0 := None)\<rparr>, as')"
      using al c by (simp add: ic_create_ordered_dynamic_array_def free_idx_def h1_def)
    moreover have "(idxs h1)(fresh h0 := None) = idxs h0" using ok1(2) by (auto simp: h1_def)
    ultimately show ?thesis using c(2) None nil by (auto simp: h1_def)
  next
    case (Some a)
    define f where "f = (\<lambda>y :: ic_dynamic_array_index. y\<lparr>child_ptrs := (child_ptrs y)[0 := Some (first_dyn_buf a)], next_index_to_insert := 1\<rparr>)"
    define h2 where "h2 = h\<lparr>idxs := (idxs h)(fresh h0 \<mapsto> f empty_index)\<rparr>"
    define a2 where "a2 = a\<lparr>top_dyn_index := fresh h0, first_dyn_index := fresh h0, last_dyn_index := fresh h0, index_levels := 1\<rparr>"
    have h: "h = h1\<lparr>bufs := (bufs h1)(fresh h1 \<mapsto> empty_buf), fresh := Suc (fresh h1), structs := Suc (structs h1)\<rparr>"
      and a: "first_dyn_buf a = fresh h1" "last_dyn_buf a = fresh h1" "bytes_used a = 0" "total_size_in_bytes a = 0"
      and nil2: "as = [] \<longrightarrow> as' = []" using c(2) Some nil by auto
    have eq: "ic_create_ordered_dynamic_array as h0 = Inr (Some a2, h2, as')"
      using al c(1) Some h by (simp add: ic_create_ordered_dynamic_array_def h1_def h2_def a2_def f_def upd_idx_def get_idx_def)
    have ok2: "dheap_ok h2" using ok by (auto simp: h2_def h h1_def dheap_ok_def)
    have sd: "sd_inv h2 a2 [fresh h1]" using ok2 by (auto simp: sd_inv_def a2_def a h2_def h empty_buf_def)
    have lv: "level h2 [fresh h1] [fresh h0] (\<lambda>_. None)"
      by (simp add: level_def h2_def node_ok_def core_def f_def empty_index_def ORDERED_DYNAMIC_INDEX_SIZE_def a)
    have ix: "idx_inv h2 a2 [fresh h1] [[fresh h0]] [fresh h0]"
      using ok2 lv by (simp add: idx_inv_def a2_def) (simp add: h2_def f_def empty_index_def)
    have fr: "outside (bufs h2) [fresh h1] = bufs h0" "outside (idxs h2) [fresh h0] = idxs h0" "structs h2 = Suc (structs h0)"
      using ok ok1(2) by (auto simp: outside_def fun_eq_iff h2_def h h1_def dheap_ok_def)
    have co: "contents h2 a2 [fresh h1] = []" by (simp add: contents_def used_size_def a2_def a)
    have "ord_repr h0 (h2, a2, as') []" unfolding ord_repr_def prod.case using sd ix fr co
      by (intro exI [of _ "[fresh h1]"] exI [of _ "[[fresh h0]]"] exI [of _ "[fresh h0]"]) simp
    then show ?thesis using eq nil2 a(4) by (auto simp: a2_def)
  qed
qed

lemma create_ordered_plenty:
  assumes "dheap_ok h0"
  obtains a h where "ic_create_ordered_dynamic_array [] h0 = Inr (Some a, h, [])"
  using create_ordered_ok [OF assms, of "[]"] by (auto split: option.splits)

section \<open>Properties\<close>

text \<open>
  C14. The ordered dynamic array refines the same list of bytes: after any insertions into a new array,
  with any outcomes of the allocations (an insertion that runs out of memory while it extends the index
  takes back its buffers and index nodes), no call has faulted, reads inside the bytes of the successful
  insertions return them, and freeing the array gives back all memory.
\<close>

theorem ordered_array_is_bytes:
  assumes "dheap_ok h0" and "ic_create_ordered_dynamic_array as h0 = Inr (Some a, h, as1)" and "length (concat bss) < 18446744073709551616"
  shows "\<exists>rcs h' a' as'. insert_all ord_ins (h, a, as1) bss = Inr (rcs, (h', a', as')) \<and> set rcs \<subseteq> {0, IC_ERROR_MEM_ALLOC} \<and>
    (as = [] \<longrightarrow> set rcs \<subseteq> {0}) \<and> length (accepted rcs bss) \<le> get_current_size a' \<and>
    (\<forall>pos n. 0 < n \<and> unat pos + unat n \<le> length (accepted rcs bss) \<longrightarrow>
       read_ordered_dynamic_array h' a' pos n = Inr (Some (take (unat n) (drop (unat pos) (accepted rcs bss))))) \<and>
    (\<exists>h2. free_ordered_dynamic_array h' a' = Inr h2 \<and> bufs h2 = bufs h0 \<and> idxs h2 = idxs h0 \<and> structs h2 = structs h0)"
proof -
  have r0: "ord_repr h0 (h, a, as1) []" "as = [] \<longrightarrow> dyn_plenty (h, a, as1)"
    using create_ordered_ok [OF assms(1), of as] assms(2) by (auto simp: dyn_plenty_def)
  from oda.insert_all_repr [OF r0(1), of bss] obtain rcs h' a' as' where
    r: "insert_all ord_ins (h, a, as1) bss = Inr (rcs, (h', a', as'))" "length rcs = length bss" "set rcs \<subseteq> {0, IC_ERROR_MEM_ALLOC}"
      "as = [] \<longrightarrow> set rcs \<subseteq> {0}" "ord_repr h0 (h', a', as') (accepted rcs bss)" using r0(2) by auto
  have len: "length (accepted rcs bss) < 18446744073709551616" using accepted_length [OF r(2)] assms(3) by simp
  have sz: "length (accepted rcs bss) \<le> get_current_size a'" using r(5) by (auto simp: ord_repr_def get_current_size_def)
  have "read_ordered_dynamic_array h' a' pos n = Inr (Some (take (unat n) (drop (unat pos) (accepted rcs bss))))"
    if "0 < n" "unat pos + unat n \<le> length (accepted rcs bss)" for pos n
    using oda.read_law [OF r(5) that(2,1) len] by (simp add: ord_rd_def)
  then show ?thesis using r(1,3,4) sz ord_free [OF r(5)] by blast
qed

theorem ordered_array_is_bytes_witness:
  "\<exists>a h as1 rcs h' a' as' h2. ic_create_ordered_dynamic_array [] no_heap = Inr (Some a, h, as1) \<and>
     insert_all ord_ins (h, a, as1) [replicate 200000 7, [1, 2]] = Inr (rcs, (h', a', as')) \<and> set rcs \<subseteq> {0} \<and>
     free_ordered_dynamic_array h' a' = Inr h2 \<and> bufs h2 = (\<lambda>_. None) \<and> idxs h2 = (\<lambda>_. None)"
proof -
  obtain a h where c: "ic_create_ordered_dynamic_array [] no_heap = Inr (Some a, h, [])" by (rule create_ordered_plenty [OF no_heap_ok])
  have "length (concat [replicate 200000 7, [1, 2 :: guint8]]) < 18446744073709551616" by simp
  from ordered_array_is_bytes [OF no_heap_ok c this] c show ?thesis by (auto simp: no_heap_def)
qed

text \<open>
  C21. The descent through the index tree is equivalent to the walk along the list of buffers: at every
  position of the stored bytes \<^verbatim>\<open>find_pos_ordered_dyn_array\<close> finds the buffer and the offset that
  \<^verbatim>\<open>find_pos_simple_dyn_array\<close> finds.
\<close>

theorem ordered_find_is_simple_find:
  assumes "dheap_ok h0" and "ic_create_ordered_dynamic_array as h0 = Inr (Some a, h, as1)"
    and "insert_all ord_ins (h, a, as1) bss = Inr (rcs, (h', a', as'))" and "pos < length (accepted rcs bss)"
  shows "\<exists>p. find_pos_simple_dyn_array h' a' pos = Inr (Some (p, pos mod SIMPLE_DYNAMIC_ARRAY_BUF_SIZE)) \<and>
    find_pos_ordered_dyn_array h' a' pos = Inr (Some (Some p, pos mod SIMPLE_DYNAMIC_ARRAY_BUF_SIZE))"
proof -
  have r0: "ord_repr h0 (h, a, as1) []" using create_ordered_ok [OF assms(1), of as] assms(2) by auto
  have "ord_repr h0 (h', a', as') (accepted rcs bss)" using oda.insert_all_repr [OF r0, of bss] assms(3) by auto
  then obtain ps lvs xs where i: "sd_inv h' a' ps" "idx_inv h' a' ps lvs xs" "contents h' a' ps = accepted rcs bss"
    by (auto simp: ord_repr_def)
  have "pos < SIMPLE_DYNAMIC_ARRAY_BUF_SIZE * length ps" using assms(4) i(3) length_contents [OF i(1)] used_size_le [OF i(1)] by simp
  then show ?thesis using simple_find [OF i(1)] ord_find [OF i(1,2)] by blast
qed

theorem ordered_find_is_simple_find_witness:
  "\<exists>a h rcs h' a' as' p. ic_create_ordered_dynamic_array [] no_heap = Inr (Some a, h, []) \<and>
     insert_all ord_ins (h, a, []) [replicate 200000 7] = Inr (rcs, (h', a', as')) \<and>
     find_pos_simple_dyn_array h' a' 199999 = Inr (Some (p, 319)) \<and> find_pos_ordered_dyn_array h' a' 199999 = Inr (Some (Some p, 319))"
proof -
  obtain a h where c: "ic_create_ordered_dynamic_array [] no_heap = Inr (Some a, h, [])" by (rule create_ordered_plenty [OF no_heap_ok])
  have r0: "ord_repr no_heap (h, a, []) []" using create_ordered_ok [OF no_heap_ok, of "[]"] c by auto
  from oda.insert_all_repr [OF r0, of "[replicate 200000 7]"] obtain rcs h' a' as' where
    r: "insert_all ord_ins (h, a, []) [replicate 200000 7] = Inr (rcs, (h', a', as'))" "length rcs = 1" "set rcs \<subseteq> {0}"
    by (auto simp: dyn_plenty_def)
  then have "rcs = [0]" by (cases rcs) auto
  then have "199999 < length (accepted rcs [replicate 200000 7])" by (simp add: accepted_def)
  from ordered_find_is_simple_find [OF no_heap_ok c r(1) this] c r(1) show ?thesis
    unfolding SIMPLE_DYNAMIC_ARRAY_BUF_SIZE_def by auto
qed

end
