(* ===== verification/IC_Ptr_Array.thy ===== *)
theory IC_Ptr_Array
  imports IC_Ord_Bytes
begin

text \<open>
  The dynamic pointer array of \<^verbatim>\<open>src/util/ic_dyn_array.c\<close>, an ordered dynamic array of 8-byte entries.
  Entry 0 is the head of a list of free entries; an entry in use is an object pointer, a free entry
  the position of the next free one with the highest bit set.

  Results: an insertion returns the next index and the object is found there; a removed entry is
  never used again, because the head of the free list is not updated.
\<close>

section \<open>Dynamic pointer arrays\<close>

text \<open>The bytes of an entry, least significant first; an entry is an object pointer or a position.\<close>

definition entry_bytes :: "guint64 \<Rightarrow> guint8 list" where
  "entry_bytes w = map (\<lambda>i. ucast (drop_bit (8 * i) w)) [0..<8]"

definition bytes_entry :: "guint8 list \<Rightarrow> guint64" where
  "bytes_entry bs = foldr (\<lambda>b e. ucast b OR push_bit 8 e) bs 0"

definition HIGHEST_BIT_SET :: guint64 where
  "HIGHEST_BIT_SET = push_bit 63 1"

definition IC_PTR_ARRAY_ENTRY_SIZE :: nat where "IC_PTR_ARRAY_ENTRY_SIZE = 8"

text \<open>The entry at a position; nothing is the return code 1.\<close>

definition read_dynamic_ptr_array :: "dheap \<Rightarrow> ic_dynamic_array_int \<Rightarrow> guint64 \<Rightarrow> fault + guint64 option" where
  "read_dynamic_ptr_array h a position =
     c_bind (find_pos_ordered_dyn_array h a (unat position)) (\<lambda>r. case r of
         None \<Rightarrow> Inr None
       | Some (p, i) \<Rightarrow> c_bind (deref p) (\<lambda>q. c_bind (get_buf h q) (\<lambda>b. c_bind (rd_blk (buf b) i IC_PTR_ARRAY_ENTRY_SIZE) (\<lambda>d.
           Inr (Some (bytes_entry d))))))"

definition write_dynamic_ptr_array :: "dheap \<Rightarrow> ic_dynamic_array_int \<Rightarrow> guint64 \<Rightarrow> guint64 \<Rightarrow> fault + (err \<times> dheap)" where
  "write_dynamic_ptr_array h a position e =
     c_bind (find_pos_ordered_dyn_array h a (unat position)) (\<lambda>r. case r of
         None \<Rightarrow> Inr (1, h)
       | Some (p, i) \<Rightarrow> c_bind (deref p) (\<lambda>q. c_bind (get_buf h q) (\<lambda>b. c_bind (wr_blk (buf b) i (entry_bytes e)) (\<lambda>d.
           c_bind (upd_buf h q (\<lambda>b. b\<lparr>buf := d\<rparr>)) (\<lambda>h. Inr (0, h))))))"

text \<open>\<^verbatim>\<open>abort\<close> unless an entry was read, and unless a write returned 0.\<close>

definition or_abort :: "fault + 'a option \<Rightarrow> fault + 'a" where
  "or_abort m = c_bind m (\<lambda>r. case r of None \<Rightarrow> Inl Aborted | Some x \<Rightarrow> Inr x)"

definition wr_or_abort :: "fault + (err \<times> dheap) \<Rightarrow> fault + dheap" where
  "wr_or_abort m = c_bind m (\<lambda>(rc, h). if rc \<noteq> 0 then Inl Aborted else Inr h)"

definition insert_ptr ::
  "allocs \<Rightarrow> dheap \<Rightarrow> ic_dynamic_array_int \<Rightarrow> guint64 \<Rightarrow> fault + (err \<times> guint64 option \<times> dheap \<times> ic_dynamic_array_int \<times> allocs)"
where
  "insert_ptr as h a object =
     c_bind (or_abort (read_dynamic_ptr_array h a 0)) (\<lambda>pos_first_free.
     if pos_first_free = 0
     then let pos_first_free = of_nat (get_current_size a) in
          c_bind (insert_ordered_dynamic_array as h a (entry_bytes object)) (\<lambda>(rc, h, a, as).
            if rc \<noteq> 0 then Inr (IC_ERROR_MEM_ALLOC, None, h, a, as)
            else Inr (0, Some (pos_first_free div of_nat IC_PTR_ARRAY_ENTRY_SIZE), h, a, as))
     else c_bind (or_abort (read_dynamic_ptr_array h a pos_first_free)) (\<lambda>e.
          if e < HIGHEST_BIT_SET then Inl Aborted
          else c_bind (wr_or_abort (write_dynamic_ptr_array h a 0 (e - HIGHEST_BIT_SET))) (\<lambda>h.
               c_bind (wr_or_abort (write_dynamic_ptr_array h a pos_first_free object)) (\<lambda>h.
                 Inr (0, Some (pos_first_free div of_nat IC_PTR_ARRAY_ENTRY_SIZE), h, a, as)))))"

definition get_ptr :: "dheap \<Rightarrow> ic_dynamic_array_int \<Rightarrow> guint64 \<Rightarrow> fault + (err \<times> guint64 option)" where
  "get_ptr h a index =
     c_bind (read_dynamic_ptr_array h a (index * of_nat IC_PTR_ARRAY_ENTRY_SIZE)) (\<lambda>r. case r of
         None \<Rightarrow> Inr (IC_ERROR_PTR_ARRAY_INDEX_OUT_OF_BOUND, None)
       | Some e \<Rightarrow> if e \<ge> HIGHEST_BIT_SET then Inr (IC_ERROR_PTR_ARRAY_INDEX_ERROR, None) else Inr (0, Some e))"

definition remove_ptr :: "dheap \<Rightarrow> ic_dynamic_array_int \<Rightarrow> guint64 \<Rightarrow> guint64 \<Rightarrow> fault + (err \<times> dheap)" where
  "remove_ptr h a index object =
     (let position = index * of_nat IC_PTR_ARRAY_ENTRY_SIZE in
      if index = 0 then Inr (IC_ERROR_INDEX_ZERO_NOT_ALLOWED, h)
      else c_bind (or_abort (read_dynamic_ptr_array h a position)) (\<lambda>e.
        if e \<noteq> object then Inl Aborted
        else c_bind (or_abort (read_dynamic_ptr_array h a 0)) (\<lambda>first_pos_ptr_entry.
          c_bind (wr_or_abort (write_dynamic_ptr_array h a position (first_pos_ptr_entry + HIGHEST_BIT_SET))) (\<lambda>h.
          c_bind (wr_or_abort (write_dynamic_ptr_array h a 0 first_pos_ptr_entry)) (\<lambda>h. Inr (0, h))))))"

definition free_dynamic_ptr_array :: "dheap \<Rightarrow> ic_dynamic_array_int \<Rightarrow> fault + dheap" where
  "free_dynamic_ptr_array h a = c_bind (free_ordered_dynamic_array h a) free_struct"

definition get_max_index :: "ic_dynamic_array_int \<Rightarrow> nat" where
  "get_max_index a = total_size_in_bytes a div IC_PTR_ARRAY_ENTRY_SIZE"

definition ic_create_dynamic_ptr_array ::
  "allocs \<Rightarrow> dheap \<Rightarrow> fault + (ic_dynamic_array_int option \<times> dheap \<times> allocs)"
where
  "ic_create_dynamic_ptr_array as h =
     (case calloc_struct as h of (ok, h, as) \<Rightarrow>
        if \<not> ok then Inr (None, h, as)
        else c_bind (ic_create_ordered_dynamic_array as h) (\<lambda>(r, h, as). case r of
            None \<Rightarrow> c_bind (free_struct h) (\<lambda>h. Inr (None, h, as))
          | Some a \<Rightarrow> c_bind (insert_ordered_dynamic_array as h a (entry_bytes 0)) (\<lambda>(rc, h, a, as).
              if rc \<noteq> 0 then c_bind (free_struct h) (\<lambda>h. c_bind (free_ordered_dynamic_array h a) (\<lambda>h. Inr (None, h, as)))
              else Inr (Some a, h, as))))"


lemma bytes_entry_take: "bytes_entry (map (\<lambda>i. ucast (drop_bit (8 * i) w)) [0..<k]) = take_bit (8 * k) w"
proof (induction k arbitrary: w)
  case 0
  then show ?case by (simp add: bytes_entry_def)
next
  case (Suc k)
  have m: "map (\<lambda>i. ucast (drop_bit (8 * i) w)) [0..<Suc k] =
      (ucast w :: guint8) # map (\<lambda>i. ucast (drop_bit (8 * i) (drop_bit 8 w))) [0..<k]"
    by (simp add: upt_conv_Cons map_Suc_upt [symmetric] add.commute del: upt_Suc)
  have u: "(ucast (ucast w :: guint8) :: guint64) = take_bit 8 w" by (rule bit_word_eqI) (auto simp: bit_simps)
  have "bytes_entry (map (\<lambda>i. ucast (drop_bit (8 * i) w)) [0..<Suc k]) = take_bit 8 w OR push_bit 8 (take_bit (8 * k) (drop_bit 8 w))"
    unfolding m bytes_entry_def foldr.simps comp_def u using Suc.IH [of "drop_bit 8 w"] by (simp add: bytes_entry_def)
  also have "\<dots> = take_bit (8 * Suc k) w"
    by (rule bit_word_eqI) (auto simp: bit_simps)
  finally show ?case .
qed

lemma entry_bytes_inverse [simp]: "bytes_entry (entry_bytes w) = w"
  unfolding entry_bytes_def bytes_entry_take by (simp add: take_bit_word_eq_self)

lemma length_entry_bytes [simp]: "length (entry_bytes w) = 8"
  by (simp add: entry_bytes_def)

section \<open>The entries of a pointer array\<close>

text \<open>\<open>es\<close> are the entries, that of the free list included.\<close>

definition entries :: "guint64 list \<Rightarrow> guint8 list" where
  "entries es = concat (map entry_bytes es)"

lemma length_entries [simp]: "length (entries es) = 8 * length es"
  by (induction es) (simp_all add: entries_def)

lemma entries_append [simp]: "entries (es @ fs) = entries es @ entries fs"
  by (simp add: entries_def)

lemma entries_nth: "i < length es \<Longrightarrow> take 8 (drop (8 * i) (entries es)) = entry_bytes (es ! i)"
proof (induction es arbitrary: i)
  case (Cons e es)
  then show ?case by (cases i) (simp_all add: entries_def)
qed simp

lemma entries_update: "i < length es \<Longrightarrow> splice_bytes (8 * i) (entry_bytes e) (entries es) = entries (es[i := e])"
proof (induction es arbitrary: i)
  case (Cons e' es)
  then show ?case by (cases i) (simp_all add: entries_def splice_bytes_def add.commute)
qed simp

lemma entry_in_buf:
  assumes "8 * i < SIMPLE_DYNAMIC_ARRAY_BUF_SIZE * n"
  shows "8 * i mod SIMPLE_DYNAMIC_ARRAY_BUF_SIZE + 8 \<le> SIMPLE_DYNAMIC_ARRAY_BUF_SIZE"
proof -
  have "8 * i mod 1024 = 8 * (i mod 128)" using mult_mod_right [of 8 i 128] by simp
  moreover have "i mod 128 < 128" by simp
  ultimately show ?thesis unfolding SIMPLE_DYNAMIC_ARRAY_BUF_SIZE_def by linarith
qed

text \<open>Inside one buffer the access of the pointer array is that of the byte array.\<close>

lemma read_entry_pos:
  assumes "bufs h p = Some b" and "length (buf b) = SIMPLE_DYNAMIC_ARRAY_BUF_SIZE" and "i + 8 \<le> SIMPLE_DYNAMIC_ARRAY_BUF_SIZE"
  shows "read_pos_simple_dynamic_array h (Some p) i 8 = Inr (Some (take 8 (drop i (buf b))))"
  using assms by (simp add: read_pos_simple_dynamic_array.simps [of h "Some p"] Let_def)

lemma write_entry_pos:
  assumes "bufs h p = Some b" and "length (buf b) = SIMPLE_DYNAMIC_ARRAY_BUF_SIZE" and "i + length bs \<le> SIMPLE_DYNAMIC_ARRAY_BUF_SIZE"
  shows "write_pos_simple_dynamic_array h (Some p) i bs =
    c_bind (wr_blk (buf b) i bs) (\<lambda>d. c_bind (upd_buf h p (\<lambda>b. b\<lparr>buf := d\<rparr>)) (\<lambda>h. Inr (0, h)))"
  using assms by (simp add: write_pos_simple_dynamic_array.simps [of h "Some p"] Let_def)

definition ptr_repr :: "dheap \<Rightarrow> dyn_state \<Rightarrow> guint64 list \<Rightarrow> bool" where
  "ptr_repr h0 s es \<longleftrightarrow> ord_repr h0 s (entries es)"

lemma entry_pos: "i < length es \<Longrightarrow> 8 * length es < 18446744073709551616 \<Longrightarrow> unat (of_nat (8 * i) :: guint64) = 8 * i"
  by (subst unat_of_nat) simp

lemma ptr_at:
  assumes "ptr_repr h0 (h, a, as) es" and "i < length es" and "8 * length es < 18446744073709551616"
  shows "\<exists>ps lvs xs b. sd_inv h a ps \<and> idx_inv h a ps lvs xs \<and> contents h a ps = entries es \<and>
    find_pos_ordered_dyn_array h a (unat (of_nat (8 * i) :: guint64)) =
      Inr (Some (Some (ps ! (8 * i div SIMPLE_DYNAMIC_ARRAY_BUF_SIZE)), 8 * i mod SIMPLE_DYNAMIC_ARRAY_BUF_SIZE)) \<and>
    bufs h (ps ! (8 * i div SIMPLE_DYNAMIC_ARRAY_BUF_SIZE)) = Some b \<and> length (buf b) = SIMPLE_DYNAMIC_ARRAY_BUF_SIZE \<and>
    8 * i mod SIMPLE_DYNAMIC_ARRAY_BUF_SIZE + 8 \<le> SIMPLE_DYNAMIC_ARRAY_BUF_SIZE \<and> 8 * i + 8 \<le> used_size a ps"
proof -
  let ?N = SIMPLE_DYNAMIC_ARRAY_BUF_SIZE
  from assms(1) obtain ps lvs xs where i: "sd_inv h a ps" "idx_inv h a ps lvs xs" "contents h a ps = entries es"
    by (auto simp: ptr_repr_def ord_repr_def)
  have u: "used_size a ps = 8 * length es" using length_contents [OF i(1)] i(3) by simp
  then have u8: "8 * i + 8 \<le> used_size a ps" using assms(2) by simp
  then have lt: "8 * i < ?N * length ps" using used_size_le [OF i(1)] by simp
  then have d: "8 * i div ?N < length ps" by (simp add: less_mult_imp_div_less mult.commute)
  have un: "unat (of_nat (8 * i) :: guint64) = 8 * i" using entry_pos assms(2,3) by blast
  obtain b where "bufs h (ps ! (8 * i div ?N)) = Some b" "length (buf b) = ?N"
    using bpath_live [of h _ ps None] i(1) nth_mem [OF d] by (auto simp: sd_inv_def)
  then show ?thesis using i ord_find [OF i(1,2) lt] un entry_in_buf [OF lt] u8 by metis
qed

lemma read_entry:
  assumes "ptr_repr h0 (h, a, as) es" and "i < length es" and "8 * length es < 18446744073709551616"
  shows "read_dynamic_ptr_array h a (of_nat (8 * i)) = Inr (Some (es ! i))"
proof -
  let ?N = SIMPLE_DYNAMIC_ARRAY_BUF_SIZE
  from ptr_at [OF assms] obtain ps lvs xs b where p: "sd_inv h a ps" "contents h a ps = entries es"
    "find_pos_ordered_dyn_array h a (unat (of_nat (8 * i) :: guint64)) = Inr (Some (Some (ps ! (8 * i div ?N)), 8 * i mod ?N))"
    "bufs h (ps ! (8 * i div ?N)) = Some b" "length (buf b) = ?N" "8 * i mod ?N + 8 \<le> ?N" "8 * i + 8 \<le> used_size a ps" by blast
  have "take 8 (drop (8 * i mod ?N) (buf b)) = entry_bytes (es ! i)"
    using read_at [OF p(1) p(7)] read_entry_pos [OF p(4,5,6)] entries_nth [OF assms(2)] p(2) by simp
  then show ?thesis using p(3-6) by (simp add: read_dynamic_ptr_array_def deref_def IC_PTR_ARRAY_ENTRY_SIZE_def)
qed

lemma write_entry:
  assumes "ptr_repr h0 (h, a, as) es" and "i < length es" and "8 * length es < 18446744073709551616"
  shows "\<exists>h'. write_dynamic_ptr_array h a (of_nat (8 * i)) e = Inr (0, h') \<and> ptr_repr h0 (h', a, as) (es[i := e])"
proof -
  let ?N = SIMPLE_DYNAMIC_ARRAY_BUF_SIZE
  from ptr_at [OF assms] obtain ps lvs xs b where p: "sd_inv h a ps" "contents h a ps = entries es"
    "find_pos_ordered_dyn_array h a (unat (of_nat (8 * i) :: guint64)) = Inr (Some (Some (ps ! (8 * i div ?N)), 8 * i mod ?N))"
    "bufs h (ps ! (8 * i div ?N)) = Some b" "length (buf b) = ?N" "8 * i mod ?N + 8 \<le> ?N" "8 * i + 8 \<le> used_size a ps" by blast
  have l8: "8 * i mod ?N + length (entry_bytes e) \<le> ?N" using p(6) by simp
  have "write_dynamic_ptr_array h a (of_nat (8 * i)) e = write_ordered_dynamic_array h a (of_nat (8 * i)) (entry_bytes e)"
    unfolding write_dynamic_ptr_array_def write_ordered_dynamic_array_def p(3) c_bind_simps option.case prod.case
      write_entry_pos [OF p(4,5) l8] using p(4) by (simp add: deref_def)
  moreover have un: "unat (of_nat (8 * i) :: guint64) = 8 * i" using entry_pos assms(2,3) by blast
  have "unat (of_nat (8 * i) :: guint64) + length (entry_bytes e) \<le> length (entries es)" unfolding un using assms(2) by simp
  then obtain s' where w: "ord_wr (h, a, as) (of_nat (8 * i)) (entry_bytes e) = Inr (0, s')" "ord_repr h0 s' (entries (es[i := e]))"
    using oda.write_law [of h0 "(h, a, as)" "entries es" "of_nat (8 * i)" "entry_bytes e"] assms(1) entries_update [OF assms(2)] un
    by (auto simp: ptr_repr_def entry_bytes_def)
  then obtain h' where "write_ordered_dynamic_array h a (of_nat (8 * i)) (entry_bytes e) = Inr (0, h')" "s' = (h', a, as)"
    by (auto simp: ord_wr_def c_bind_Inr_iff)
  ultimately show ?thesis using w(2) by (simp add: ptr_repr_def)
qed


section \<open>Insertion and removal\<close>

lemma entry_index: "i < length es \<Longrightarrow> 8 * length es < 18446744073709551616 \<Longrightarrow>
    (of_nat i :: guint64) * of_nat IC_PTR_ARRAY_ENTRY_SIZE = of_nat (8 * i) \<and> (of_nat (8 * i) :: guint64) div of_nat IC_PTR_ARRAY_ENTRY_SIZE = of_nat i"
proof
  assume a: "i < length es" "8 * length es < 18446744073709551616"
  show "(of_nat i :: guint64) * of_nat IC_PTR_ARRAY_ENTRY_SIZE = of_nat (8 * i)" by (simp add: IC_PTR_ARRAY_ENTRY_SIZE_def)
  have "unat ((of_nat (8 * i) :: guint64) div of_nat IC_PTR_ARRAY_ENTRY_SIZE) = i"
    unfolding unat_div entry_pos [OF a] by (simp add: IC_PTR_ARRAY_ENTRY_SIZE_def)
  then show "(of_nat (8 * i) :: guint64) div of_nat IC_PTR_ARRAY_ENTRY_SIZE = of_nat i" by (metis of_nat_unat ucast_id)
qed

lemma get_ptr_ok:
  assumes "ptr_repr h0 (h, a, as) es" and "i < length es" and "8 * length es < 18446744073709551616"
  shows "get_ptr h a (of_nat i) = Inr (if es ! i \<ge> HIGHEST_BIT_SET then (IC_ERROR_PTR_ARRAY_INDEX_ERROR, None) else (0, Some (es ! i)))"
  using read_entry [OF assms] entry_index [OF assms(2,3)] by (simp add: get_ptr_def)

lemma read_first:
  assumes "ptr_repr h0 (h, a, as) es" and "es \<noteq> []" and "8 * length es < 18446744073709551616"
  shows "read_dynamic_ptr_array h a 0 = Inr (Some (hd es))"
  using read_entry [OF assms(1) _ assms(3), of 0] assms(2) by (simp add: hd_conv_nth)

lemma insert_ptr_new:
  assumes "ptr_repr h0 (h, a, as) (0 # es)" and "total_size_in_bytes a = 8 * length (0 # es)" and "8 * (length es + 2) < 18446744073709551616"
  shows "\<exists>rc h' a' as'. insert_ptr as h a obj = Inr (rc, if rc = 0 then Some (of_nat (length (0 # es))) else None, h', a', as') \<and>
    (as = [] \<longrightarrow> rc = 0 \<and> as' = []) \<and>
    (rc = 0 \<and> ptr_repr h0 (h', a', as') (0 # es @ [obj]) \<and> total_size_in_bytes a' = 8 * length (0 # es @ [obj]) \<or>
     rc = IC_ERROR_MEM_ALLOC \<and> ptr_repr h0 (h', a', as') (0 # es))"
proof -
  have r: "read_dynamic_ptr_array h a 0 = Inr (Some 0)" using read_first [OF assms(1)] assms(3) by simp
  have e: "entries (0 # es @ [obj]) = entries (0 # es) @ entry_bytes obj" by (simp add: entries_def)
  from ord_insert_repr [OF assms(1) [unfolded ptr_repr_def], of "entry_bytes obj"] obtain rc h' a' as' where
    o: "insert_ordered_dynamic_array as h a (entry_bytes obj) = Inr (rc, h', a', as')" "as = [] \<longrightarrow> rc = 0 \<and> as' = []"
    and out: "rc = 0 \<and> ptr_repr h0 (h', a', as') (0 # es @ [obj]) \<and> total_size_in_bytes a' = 8 * length (0 # es @ [obj]) \<or>
     rc = IC_ERROR_MEM_ALLOC \<and> ptr_repr h0 (h', a', as') (0 # es)"
    unfolding ptr_repr_def e by (auto simp: assms(2))
  have ix: "(of_nat (get_current_size a) :: guint64) div of_nat IC_PTR_ARRAY_ENTRY_SIZE = of_nat (length (0 # es))"
    using entry_index [of "length (0 # es)" "0 # es @ [obj]"] assms(2,3) by (simp add: get_current_size_def)
  have "insert_ptr as h a obj = Inr (rc, if rc = 0 then Some (of_nat (length (0 # es))) else None, h', a', as')"
    unfolding insert_ptr_def r or_abort_def c_bind_simps option.case Let_def o(1) prod.case ix if_P [OF refl]
    using out by (auto simp: err_codes)
  then show ?thesis using o(2) out by blast
qed

lemma remove_ptr_ok:
  assumes "ptr_repr h0 (h, a, as) (0 # es)" and "0 < i" and "i \<le> length es" and "8 * (length es + 2) < 18446744073709551616"
    and "es ! (i - 1) = obj"
  shows "\<exists>h'. remove_ptr h a (of_nat i) obj = Inr (0, h') \<and> ptr_repr h0 (h', a, as) (0 # es[i - 1 := HIGHEST_BIT_SET])"
proof -
  have il: "i < length (0 # es)" "8 * length (0 # es) < 18446744073709551616" using assms(3,4) by simp_all
  have nz: "(of_nat i :: guint64) \<noteq> 0"
  proof
    assume "(of_nat i :: guint64) = 0"
    then have "unat (of_nat (8 * i) :: guint64) = 0" by simp
    then show False unfolding entry_pos [OF il] using assms(2) by simp
  qed
  have ix: "(of_nat i :: guint64) * of_nat IC_PTR_ARRAY_ENTRY_SIZE = of_nat (8 * i)" using entry_index [OF il] by blast
  have r: "read_dynamic_ptr_array h a (of_nat (8 * i)) = Inr (Some obj)" using read_entry [OF assms(1) il] assms(2,5) by (cases i) simp_all
  have r0: "read_dynamic_ptr_array h a 0 = Inr (Some 0)" using read_first [OF assms(1) _ il(2)] by simp
  from write_entry [OF assms(1) il, of HIGHEST_BIT_SET] obtain h1 where
    w1: "write_dynamic_ptr_array h a (of_nat (8 * i)) HIGHEST_BIT_SET = Inr (0, h1)" "ptr_repr h0 (h1, a, as) ((0 # es)[i := HIGHEST_BIT_SET])" by blast
  have u: "(0 # es)[i := HIGHEST_BIT_SET] = 0 # es[i - 1 := HIGHEST_BIT_SET]" using assms(2) by (cases i) simp_all
  have "8 * length (0 # es[i - 1 := HIGHEST_BIT_SET]) < 18446744073709551616" using il(2) by simp
  from write_entry [OF w1(2) [unfolded u] _ this, of 0 0] obtain h2 where
    w2: "write_dynamic_ptr_array h1 a 0 0 = Inr (0, h2)" "ptr_repr h0 (h2, a, as) (0 # es[i - 1 := HIGHEST_BIT_SET])" by auto
  have "remove_ptr h a (of_nat i) obj = Inr (0, h2)"
    using nz ix r r0 w1(1) w2(1) by (simp add: remove_ptr_def Let_def or_abort_def wr_or_abort_def)
  then show ?thesis using w2(2) by blast
qed


lemma create_ptr_ok:
  assumes ok: "dheap_ok h0"
  shows "\<exists>r h as'. ic_create_dynamic_ptr_array as h0 = Inr (r, h, as') \<and>
    (case r of None \<Rightarrow> as \<noteq> [] \<and> bufs h = bufs h0 \<and> idxs h = idxs h0 \<and> structs h = structs h0
     | Some a \<Rightarrow> ptr_repr (h0\<lparr>structs := Suc (structs h0)\<rparr>) (h, a, as') [0] \<and> total_size_in_bytes a = 8 \<and> (as = [] \<longrightarrow> as' = []))"
proof (cases "fst (alloc_next as)")
  case False
  then show ?thesis by (cases "alloc_next as") (auto simp: ic_create_dynamic_ptr_array_def calloc_struct_def)
next
  case True
  let ?h = "h0\<lparr>structs := Suc (structs h0)\<rparr>" and ?as = "snd (alloc_next as)"
  have al: "calloc_struct as h0 = (True, ?h, ?as)" using True by (cases "alloc_next as") (simp add: calloc_struct_def)
  have nil: "as = [] \<longrightarrow> ?as = []" by auto
  have "dheap_ok ?h" using ok by (simp add: dheap_ok_def)
  from create_ordered_ok [OF this, of ?as] obtain r h1 as1 where c: "ic_create_ordered_dynamic_array ?as ?h = Inr (r, h1, as1)"
    "case r of None \<Rightarrow> ?as \<noteq> [] \<and> bufs h1 = bufs ?h \<and> idxs h1 = idxs ?h \<and> structs h1 = structs ?h
     | Some a \<Rightarrow> ord_repr ?h (h1, a, as1) [] \<and> total_size_in_bytes a = 0 \<and> (?as = [] \<longrightarrow> as1 = [])" by blast
  show ?thesis
  proof (cases r)
    case None
    then show ?thesis using al c nil by (auto simp: ic_create_dynamic_ptr_array_def free_struct_def)
  next
    case (Some a1)
    then have rp: "ord_repr ?h (h1, a1, as1) []" "?as = [] \<longrightarrow> as1 = []" using c(2) by auto
    have t0: "total_size_in_bytes a1 = 0" using c(2) Some by auto
    from ord_insert_repr [OF rp(1), of "entry_bytes 0"] obtain rc h2 a2 as2 where
      o: "insert_ordered_dynamic_array as1 h1 a1 (entry_bytes 0) = Inr (rc, h2, a2, as2)" "as1 = [] \<longrightarrow> rc = 0 \<and> as2 = []"
        "rc = 0 \<and> ord_repr ?h (h2, a2, as2) ([] @ entry_bytes 0) \<and> total_size_in_bytes a2 = total_size_in_bytes a1 + length (entry_bytes 0) \<or>
         rc = IC_ERROR_MEM_ALLOC \<and> ord_repr ?h (h2, a2, as2) []" by blast
    show ?thesis
    proof (cases "rc = 0")
      case z: True
      then have "ic_create_dynamic_ptr_array as h0 = Inr (Some a2, h2, as2)"
        using al c(1) Some o(1) by (simp add: ic_create_dynamic_ptr_array_def)
      moreover have "ptr_repr ?h (h2, a2, as2) [0]" "total_size_in_bytes a2 = 8" using o(3) z t0 by (auto simp: ptr_repr_def entries_def err_codes)
      ultimately show ?thesis using nil rp(2) o(2) by auto
    next
      case nz: False
      then have rp2: "ord_repr ?h (h2, a2, as2) []" using o(3) by auto
      from ord_free [OF ord_repr_struct [OF rp2]] obtain h3 where f: "free_ordered_dynamic_array (h2\<lparr>structs := structs h2 - 1\<rparr>) a2 = Inr h3"
        "bufs h3 = bufs h0" "idxs h3 = idxs h0" "structs h3 = structs h0" by auto
      have "structs h2 \<noteq> 0" using rp2 by (auto simp: ord_repr_def)
      then have "ic_create_dynamic_ptr_array as h0 = Inr (None, h3, as2)"
        using al c(1) Some o(1) nz f(1) by (simp add: ic_create_dynamic_ptr_array_def free_struct_def)
      moreover have "as \<noteq> []" using nil rp(2) o(2) nz by auto
      ultimately show ?thesis using f by auto
    qed
  qed
qed

fun insert_ptrs :: "dyn_state \<Rightarrow> guint64 list \<Rightarrow> fault + (err \<times> guint64 list \<times> dyn_state)" where
  "insert_ptrs s [] = Inr (0, [], s)"
| "insert_ptrs (h, a, as) (obj # objs) =
     c_bind (insert_ptr as h a obj) (\<lambda>(rc, ix, h, a, as).
       if rc \<noteq> 0 then Inr (rc, [], (h, a, as))
       else c_bind (insert_ptrs (h, a, as) objs) (\<lambda>(rc, ixs, s). Inr (rc, (case ix of None \<Rightarrow> ixs | Some i \<Rightarrow> i # ixs), s)))"

lemma insert_ptrs_ok:
  "ptr_repr h0 (h, a, as) (0 # es) \<Longrightarrow> total_size_in_bytes a = 8 * length (0 # es) \<Longrightarrow>
   8 * (length es + length objs + 2) < 18446744073709551616 \<Longrightarrow>
   \<exists>n rc h' a' as'. insert_ptrs (h, a, as) objs = Inr (rc, map of_nat [Suc (length es)..<Suc (length es) + n], (h', a', as')) \<and>
     n \<le> length objs \<and> ptr_repr h0 (h', a', as') (0 # es @ take n objs) \<and> (as = [] \<longrightarrow> rc = 0 \<and> as' = []) \<and>
     (rc = 0 \<and> n = length objs \<and> total_size_in_bytes a' = 8 * length (0 # es @ objs) \<or> rc = IC_ERROR_MEM_ALLOC \<and> n < length objs)"
proof (induction objs arbitrary: h a as es)
  case Nil
  then show ?case by (intro exI [of _ 0]) auto
next
  case (Cons obj objs)
  from insert_ptr_new [OF Cons.prems(1,2), of obj] Cons.prems(3) obtain rc h1 a1 as1 where
    i: "insert_ptr as h a obj = Inr (rc, if rc = 0 then Some (of_nat (length (0 # es))) else None, h1, a1, as1)" "as = [] \<longrightarrow> rc = 0 \<and> as1 = []"
      "rc = 0 \<and> ptr_repr h0 (h1, a1, as1) (0 # es @ [obj]) \<and> total_size_in_bytes a1 = 8 * length (0 # es @ [obj]) \<or>
       rc = IC_ERROR_MEM_ALLOC \<and> ptr_repr h0 (h1, a1, as1) (0 # es)" by auto
  show ?case
  proof (cases "rc = 0")
    case False
    then have "insert_ptrs (h, a, as) (obj # objs) = Inr (IC_ERROR_MEM_ALLOC, [], (h1, a1, as1))" using i(1,3) by auto
    then show ?thesis using i(2,3) False
      by (intro exI [of _ 0] exI [of _ IC_ERROR_MEM_ALLOC] exI [of _ h1] exI [of _ a1] exI [of _ as1]) auto
  next
    case True
    then have r1: "ptr_repr h0 (h1, a1, as1) (0 # es @ [obj])" "total_size_in_bytes a1 = 8 * length (0 # es @ [obj])" using i(3) by (auto simp: err_codes)
    have "8 * (length (es @ [obj]) + length objs + 2) < 18446744073709551616" using Cons.prems(3) by simp
    from Cons.IH [OF r1 this] obtain n rc2 h2 a2 as2 where
      r: "insert_ptrs (h1, a1, as1) objs = Inr (rc2, map of_nat [Suc (length (es @ [obj]))..<Suc (length (es @ [obj])) + n], (h2, a2, as2))"
        "n \<le> length objs" "ptr_repr h0 (h2, a2, as2) (0 # (es @ [obj]) @ take n objs)" "as1 = [] \<longrightarrow> rc2 = 0 \<and> as2 = []"
        "rc2 = 0 \<and> n = length objs \<and> total_size_in_bytes a2 = 8 * length (0 # (es @ [obj]) @ objs) \<or> rc2 = IC_ERROR_MEM_ALLOC \<and> n < length objs"
      by blast
    have "insert_ptrs (h, a, as) (obj # objs) = Inr (rc2, of_nat (Suc (length es)) # map of_nat [Suc (length (es @ [obj]))..<Suc (length (es @ [obj])) + n], (h2, a2, as2))"
      using i(1) True r(1) by simp
    moreover have "of_nat (Suc (length es)) # map of_nat [Suc (length (es @ [obj]))..<Suc (length (es @ [obj])) + n] =
        (map of_nat [Suc (length es)..<Suc (length es) + Suc n] :: guint64 list)"
      by (subst upt_conv_Cons [of "Suc (length es)"]) simp_all
    ultimately have "insert_ptrs (h, a, as) (obj # objs) = Inr (rc2, map of_nat [Suc (length es)..<Suc (length es) + Suc n], (h2, a2, as2))"
      by (simp only:)
    then show ?thesis using r(2-5) i(2) by (intro exI [of _ "Suc n"] exI [of _ rc2] exI [of _ h2] exI [of _ a2] exI [of _ as2]) auto
  qed
qed

section \<open>Properties\<close>

text \<open>
  C22. Round trip of the pointer array: objects inserted into a new array get the indexes 1, 2, 3, and so
  on, until an allocation fails, and \<^verbatim>\<open>get_ptr\<close> then returns at each index the object inserted there
  (its code for a removed entry if the object pointer has the highest bit set). No call faults or aborts.
\<close>

theorem ptr_array_insert_get:
  assumes "dheap_ok h0" and "ic_create_dynamic_ptr_array as h0 = Inr (Some a, h, as1)" and "8 * (length objs + 2) < 18446744073709551616"
  shows "\<exists>n rc h' a' as'. insert_ptrs (h, a, as1) objs = Inr (rc, map of_nat [1..<Suc n], (h', a', as')) \<and>
    (rc = 0 \<and> n = length objs \<or> rc = IC_ERROR_MEM_ALLOC \<and> n < length objs \<and> as \<noteq> []) \<and>
    (\<forall>i < n. get_ptr h' a' (of_nat (Suc i)) =
       Inr (if objs ! i \<ge> HIGHEST_BIT_SET then (IC_ERROR_PTR_ARRAY_INDEX_ERROR, None) else (0, Some (objs ! i))))"
proof -
  let ?h = "h0\<lparr>structs := Suc (structs h0)\<rparr>"
  have c: "ptr_repr ?h (h, a, as1) (0 # [])" "total_size_in_bytes a = 8 * length (0 # [] :: guint64 list)" "as = [] \<longrightarrow> as1 = []"
    using create_ptr_ok [OF assms(1), of as] assms(2) by auto
  from insert_ptrs_ok [OF c(1,2), of objs] assms(3) obtain n rc h' a' as' where
    r: "insert_ptrs (h, a, as1) objs = Inr (rc, map of_nat [1..<Suc n], (h', a', as'))" "n \<le> length objs"
      "ptr_repr ?h (h', a', as') (0 # take n objs)" "as1 = [] \<longrightarrow> rc = 0 \<and> as' = []"
      "rc = 0 \<and> n = length objs \<or> rc = IC_ERROR_MEM_ALLOC \<and> n < length objs" by auto
  have "get_ptr h' a' (of_nat (Suc i)) =
      Inr (if objs ! i \<ge> HIGHEST_BIT_SET then (IC_ERROR_PTR_ARRAY_INDEX_ERROR, None) else (0, Some (objs ! i)))" if "i < n" for i
    using get_ptr_ok [OF r(3), of "Suc i"] that r(2) assms(3) by simp
  moreover have "as \<noteq> []" if "rc \<noteq> 0" using r(4) c(3) that by auto
  ultimately show ?thesis using r(1,5) by (auto simp: err_codes)
qed

lemma create_ptr_plenty:
  assumes "dheap_ok h0"
  obtains a h where "ic_create_dynamic_ptr_array [] h0 = Inr (Some a, h, [])"
  using create_ptr_ok [OF assms, of "[]"] by (auto split: option.splits)

theorem ptr_array_insert_get_witness:
  "\<exists>a h h' a' as'. ic_create_dynamic_ptr_array [] no_heap = Inr (Some a, h, []) \<and>
     insert_ptrs (h, a, []) [17, 4711] = Inr (0, [1, 2], (h', a', as')) \<and> get_ptr h' a' 2 = Inr (0, Some 4711)"
proof -
  obtain a h where c: "ic_create_dynamic_ptr_array [] no_heap = Inr (Some a, h, [])" by (rule create_ptr_plenty [OF no_heap_ok])
  have l: "8 * (length [17, 4711 :: guint64] + 2) < 18446744073709551616" by simp
  from ptr_array_insert_get [OF no_heap_ok c l] obtain h' a' as' where
    r: "insert_ptrs (h, a, []) [17, 4711] = Inr (0, map of_nat [1..<Suc 2], (h', a', as'))"
    and g: "\<forall>i < 2. get_ptr h' a' (of_nat (Suc i)) = Inr (if [17, 4711] ! i \<ge> HIGHEST_BIT_SET
        then (IC_ERROR_PTR_ARRAY_INDEX_ERROR, None) else (0, Some ([17, 4711] ! i)))"
    by (auto simp del: insert_ptrs.simps of_nat_Suc simp: numeral_2_eq_2)
  have "get_ptr h' a' 2 = Inr (0, Some 4711)" using g [rule_format, of 1] by (simp add: HIGHEST_BIT_SET_def)
  moreover have "map of_nat [1..<Suc 2] = [1, 2 :: guint64]" by (simp add: upt_rec)
  ultimately show ?thesis using c r by auto
qed

text \<open>
  A removed entry is never used again: after \<^verbatim>\<open>remove_ptr\<close> of any index the entry is marked free,
  but the next \<^verbatim>\<open>insert_ptr\<close> still extends the array, because \<^verbatim>\<open>remove_ptr\<close> writes back the old
  head of the free list and not the position of the removed entry.
\<close>

theorem removed_entry_never_reused:
  assumes "dheap_ok h0" and "ic_create_dynamic_ptr_array [] h0 = Inr (Some a, h, [])" and "8 * (length objs + 3) < 18446744073709551616"
    and "insert_ptrs (h, a, []) objs = Inr (0, ixs, (h1, a1, []))" and "0 < i" and "i \<le> length objs"
  shows "\<exists>h2 h3 a3. remove_ptr h1 a1 (of_nat i) (objs ! (i - 1)) = Inr (0, h2) \<and>
    get_ptr h2 a1 (of_nat i) = Inr (IC_ERROR_PTR_ARRAY_INDEX_ERROR, None) \<and>
    insert_ptr [] h2 a1 obj = Inr (0, Some (of_nat (length objs + 1)), h3, a3, [])"
proof -
  let ?h = "h0\<lparr>structs := Suc (structs h0)\<rparr>"
  have c: "ptr_repr ?h (h, a, []) (0 # [])" "total_size_in_bytes a = 8 * length (0 # [] :: guint64 list)"
    using create_ptr_ok [OF assms(1), of "[]"] assms(2) by auto
  from insert_ptrs_ok [OF c, of objs] assms(3,4) have r: "ptr_repr ?h (h1, a1, []) (0 # objs)" "total_size_in_bytes a1 = 8 * length (0 # objs)"
    by (auto simp: err_codes)
  from remove_ptr_ok [OF r(1) assms(5,6) _ refl] assms(3) obtain h2 where
    rm: "remove_ptr h1 a1 (of_nat i) (objs ! (i - 1)) = Inr (0, h2)" "ptr_repr ?h (h2, a1, []) (0 # objs[i - 1 := HIGHEST_BIT_SET])" by auto
  have g: "get_ptr h2 a1 (of_nat i) = Inr (IC_ERROR_PTR_ARRAY_INDEX_ERROR, None)"
    using get_ptr_ok [OF rm(2), of i] assms(3,5,6) by (cases i) auto
  have "8 * (length (objs[i - 1 := HIGHEST_BIT_SET]) + 2) < 18446744073709551616" using assms(3) by simp
  from insert_ptr_new [OF rm(2) _ this, of obj] r(2) obtain h3 a3 where
    "insert_ptr [] h2 a1 obj = Inr (0, Some (of_nat (length objs + 1)), h3, a3, [])" by auto
  then show ?thesis using rm(1) g by blast
qed

theorem removed_entry_never_reused_witness:
  "\<exists>h1 a1 h2 h3 a3. remove_ptr h1 a1 1 17 = Inr (0, h2) \<and> insert_ptr [] h2 a1 99 = Inr (0, Some 2, h3, a3, [])"
proof -
  obtain a h where c: "ic_create_dynamic_ptr_array [] no_heap = Inr (Some a, h, [])" by (rule create_ptr_plenty [OF no_heap_ok])
  have cr: "ptr_repr (no_heap\<lparr>structs := Suc (structs no_heap)\<rparr>) (h, a, []) (0 # [])" "total_size_in_bytes a = 8 * length (0 # [] :: guint64 list)"
    using create_ptr_ok [OF no_heap_ok, of "[]"] c by auto
  from insert_ptrs_ok [OF cr, of "[17]"] obtain ixs h1 a1 where "insert_ptrs (h, a, []) [17] = Inr (0, ixs, (h1, a1, []))" by auto
  from removed_entry_never_reused [OF no_heap_ok c _ this, of 1 99]
  have "\<exists>h2 h3 a3. remove_ptr h1 a1 1 17 = Inr (0, h2) \<and> insert_ptr [] h2 a1 99 = Inr (0, Some 2, h3, a3, [])" by auto
  then show ?thesis by blast
qed

end
