(* ===== verification/IC_Connection.thy ===== *)
theory IC_Connection
  imports IC_Bitmap
begin

text \<open>
  \<^verbatim>\<open>src/comm/ic_connection.c\<close>: reading, writing and flushing of a TCP connection, its statistics, the
  creation, forking and freeing of connection objects and the small access functions. This is the
  build without SSL. Setting up a connection (name resolution, \<^verbatim>\<open>bind\<close>, \<^verbatim>\<open>listen\<close>,
  \<^verbatim>\<open>connect\<close>, \<^verbatim>\<open>accept\<close>, socket options) is not modelled.

  The system calls take their outcomes from the record \<open>net\<close>. \<open>rx_queue\<close> is what arrives: pieces of the
  byte stream in any segmentation, a stretch of time without data (\<open>Quiet\<close>), the end of the stream or an
  error. \<open>tx_queue\<close> says how many bytes each \<^verbatim>\<open>send\<close> accepts, or its error; with no entry left all
  bytes are accepted. \<open>sent_bytes\<close> is what the peer will see.

  Results: a write delivers the whole buffer in order however the kernel splits it, or reports an
  error with the number of bytes written; a read delivers the next bytes of the stream;
  \<^verbatim>\<open>send_msg\<close> is right only if no partial write crosses the end of a vector; the statistics of
  completed writes are counted in an array element of the receive statistics.
\<close>

section \<open>The network\<close>

definition EINTR :: err where "EINTR = 4"

definition IC_ERROR_CONNECT_TIMEOUT :: err where [err_codes]: "IC_ERROR_CONNECT_TIMEOUT = 7040"
definition IC_ERROR_APPLICATION_STOPPED :: err where [err_codes]: "IC_ERROR_APPLICATION_STOPPED = 7059"

datatype rx = Quiet | Data "char list" | Eof | RxErr err

datatype tx = Accept nat | TxErr err

record net =
  rx_queue :: "rx list"
  tx_queue :: "tx list"
  stop_flags :: "bool list"    \<comment> \<open>successive answers of \<^verbatim>\<open>ic_tp_get_stop_flag\<close>; then no stop\<close>
  elapsed_ms :: "nat list"     \<comment> \<open>successive readings of \<^verbatim>\<open>g_timer_elapsed\<close>; then 0\<close>
  sent_bytes :: "char list"
  send_timers :: nat           \<comment> \<open>live timers of \<^verbatim>\<open>handle_return_write\<close>\<close>

datatype io = Got "char list" | Closed | IoErr err

text \<open>
  \<^verbatim>\<open>recv\<close> on a blocking stream socket: it waits through quiet stretches, and for ever if nothing
  arrives; asked for 0 bytes it returns 0.
\<close>

fun recv :: "rx list \<Rightarrow> nat \<Rightarrow> fault + (io \<times> rx list)" where
  "recv rs 0 = Inr (Closed, rs)"
| "recv [] (Suc n) = Inl Diverges"
| "recv (Quiet # rs) (Suc n) = recv rs (Suc n)"
| "recv (Data bs # rs) (Suc n) =
     (if bs = [] then recv rs (Suc n)
      else Inr (Got (take (Suc n) bs), if length bs \<le> Suc n then rs else Data (drop (Suc n) bs) # rs))"
| "recv (Eof # rs) (Suc n) = Inr (Closed, Eof # rs)"
| "recv (RxErr e # rs) (Suc n) = Inr (IoErr e, rs)"

text \<open>\<^verbatim>\<open>poll\<close> for input on one socket; a negative time waits for ever.\<close>

fun poll_rx :: "rx list \<Rightarrow> int \<Rightarrow> fault + (bool \<times> rx list)" where
  "poll_rx [] t = (if t < 0 then Inl Diverges else Inr (False, []))"
| "poll_rx (Quiet # rs) t = (if t < 0 then poll_rx rs t else Inr (False, rs))"
| "poll_rx (r # rs) t = Inr (True, r # rs)"

definition next_stop :: "net \<Rightarrow> bool \<times> net" where
  "next_stop w = (case stop_flags w of [] \<Rightarrow> (False, w) | b # bs \<Rightarrow> (b, w\<lparr>stop_flags := bs\<rparr>))"

definition next_elapsed :: "net \<Rightarrow> nat \<times> net" where
  "next_elapsed w = (case elapsed_ms w of [] \<Rightarrow> (0, w) | t # ts \<Rightarrow> (t, w\<lparr>elapsed_ms := ts\<rparr>))"

section \<open>Connections\<close>

text \<open>
  \<open>buf_ranges\<close> is \<^verbatim>\<open>num_sent_buf_range\<close> followed by \<^verbatim>\<open>num_rec_buf_range\<close>, 16 elements each, which are
  adjacent in the struct. The sums of squares are exact, \<^verbatim>\<open>long double\<close> has a mantissa of 64 bits, but the
  squares are products of 32 bits, unsigned for sent and signed for received bytes (taken to wrap around).
\<close>

record ic_connect_stat =
  num_sent_buffers :: guint64
  num_sent_bytes :: guint64
  num_sent_bytes_square_sum :: nat
  num_rec_buffers :: guint64
  num_rec_bytes :: guint64
  num_rec_bytes_square_sum :: int
  buf_ranges :: "guint32 list"
  num_send_errors :: guint32
  num_send_timeouts :: guint32
  num_rec_errors :: guint32
  is_connected :: bool
  is_connect_thread_active :: bool

text \<open>A null buffer is \<open>None\<close>. Pointers the modelled code only stores are numbers.\<close>

record ic_int_connection =
  conn_stat :: ic_connect_stat
  param :: "nat option"
  error_code :: err
  error_line :: nat
  stop_flag :: bool
  is_nonblocking :: bool
  has_thread :: bool
  read_buf :: "char list option"
  read_buf_size :: nat
  size_curr_read_buf :: nat
  read_buf_pos :: nat
  write_buf :: "char list option"
  write_buf_size :: nat
  write_buf_pos :: nat
  rw_sockfd :: int
  listen_sockfd :: int
  rec_wait_ms :: int
  bytes_written_before_interrupt :: nat
  backlog :: int
  server_name :: "char list option"
  client_name :: "char list option"
  server_port :: "char list option"
  client_port :: "char list option"
  forked_connections :: nat
  is_client :: bool
  is_listen_socket_retained :: bool
  is_mutex_used :: bool
  is_connect_thread_used :: bool
  tcp_maxseg_size :: guint16
  tcp_receive_buffer_size :: int
  tcp_send_buffer_size :: int
  is_wan_connection :: bool
  is_ssl_connection :: bool
  is_ssl_used_for_data :: bool
  save_is_ssl_used_for_data :: bool
  mutexes_exist :: bool          \<comment> \<open>\<^verbatim>\<open>read_mutex\<close>, \<^verbatim>\<open>write_mutex\<close>, \<^verbatim>\<open>connect_mutex\<close>\<close>
  timers_exist :: bool           \<comment> \<open>\<^verbatim>\<open>connection_start\<close>, \<^verbatim>\<open>last_read_stat\<close>\<close>

type_synonym conn = "ic_int_connection \<times> net"

definition upd_stat :: "ic_int_connection \<Rightarrow> (ic_connect_stat \<Rightarrow> ic_connect_stat) \<Rightarrow> ic_int_connection" where
  "upd_stat c f = c\<lparr>conn_stat := f (conn_stat c)\<rparr>"

text \<open>The loop of slices of one second; the last argument is the result of the latest \<^verbatim>\<open>poll\<close>.\<close>

function check_for_data_loop :: "net \<Rightarrow> int \<Rightarrow> bool \<Rightarrow> fault + (bool \<times> net)" where
  "check_for_data_loop w timeout_in_ms ready =
     (if timeout_in_ms = 0 then Inr (ready, w)
      else case next_stop w of (stop, w) \<Rightarrow>
        if stop then Inr (True, w)
        else let time_out = min timeout_in_ms 1000 in
          c_bind (poll_rx (rx_queue w) time_out) (\<lambda>(ready, rs).
            check_for_data_loop (w\<lparr>rx_queue := rs\<rparr>) (timeout_in_ms - time_out) ready))"
  by pat_completeness auto

termination check_for_data_loop
  by (relation "measure (\<lambda>(w, t, r). nat \<bar>t\<bar>)") auto

declare check_for_data_loop.simps [simp del]

definition check_for_data_on_connection :: "conn \<Rightarrow> fault + (bool \<times> conn)" where
  "check_for_data_on_connection = (\<lambda>(c, w).
     c_bind (check_for_data_loop w (if rec_wait_ms c = 0 then 1 else rec_wait_ms c) False) (\<lambda>(b, w). Inr (b, (c, w))))"

section \<open>Writing\<close>

record ic_send_state =
  time_measure :: bool
  next_sec_check :: nat
  secs_count :: nat
  secs_to_try :: nat
  write_size :: nat
  loop_count :: nat
  buf_size :: nat

text \<open>\<^verbatim>\<open>ret_code\<close>: the number of bytes, or \<^verbatim>\<open>IC_SOCKET_ERROR\<close> with the last socket error.\<close>

definition handle_return_write ::
  "ic_int_connection \<Rightarrow> net \<Rightarrow> err + nat \<Rightarrow> ic_send_state \<Rightarrow> fault + (err \<times> ic_int_connection \<times> net \<times> ic_send_state)"
where
  "handle_return_write c w ret_code st =
     (if write_size st = buf_size st
      then let i = unat (ic_count_highest_bit (of_nat (buf_size st) OR 32) - 6) in
           c_bind (rd (buf_ranges (conn_stat c)) i) (\<lambda>n.
           c_bind (wr (buf_ranges (conn_stat c)) i (n + 1)) (\<lambda>ranges.
             Inr (0, (upd_stat c (\<lambda>s. s\<lparr>num_sent_buffers := num_sent_buffers s + 1,
                        num_sent_bytes := num_sent_bytes s + of_nat (buf_size st),
                        num_sent_bytes_square_sum := num_sent_bytes_square_sum s + (buf_size st * buf_size st) mod 2 ^ 32,
                        buf_ranges := ranges\<rparr>))\<lparr>error_code := 0\<rparr>,
                  (if loop_count st \<noteq> 0 \<and> time_measure st then w\<lparr>send_timers := send_timers w - 1\<rparr> else w), st)))
      else let (w, st) = (if loop_count st = 0
             then (w\<lparr>send_timers := send_timers w + 1\<rparr>, st\<lparr>time_measure := True, next_sec_check := 1000, secs_count := 0\<rparr>)
             else (w, st)) in
        case ret_code of
          Inl error \<Rightarrow>
            if error = EINTR then Inr (error, c\<lparr>error_code := 0\<rparr>, w, st)
            else Inr (error, (upd_stat c (\<lambda>s. s\<lparr>num_send_errors := num_send_errors s + 1\<rparr>))
                   \<lparr>bytes_written_before_interrupt := write_size st, error_code := error\<rparr>, w, st)
        | Inr _ \<Rightarrow>
            if loop_count st \<noteq> 0
            then case (if time_measure st then next_elapsed w else (0, w)) of (t, w) \<Rightarrow>
              if time_measure st \<and> next_sec_check st < t \<or> loop_count st = 1000
              then let st = st\<lparr>next_sec_check := next_sec_check st + 1000, secs_count := secs_count st + 1\<rparr> in
                if secs_to_try st \<le> secs_count st
                then Inr (EINTR, (upd_stat c (\<lambda>s. s\<lparr>num_send_timeouts := num_send_timeouts s + 1\<rparr>))
                       \<lparr>bytes_written_before_interrupt := write_size st, error_code := EINTR\<rparr>, w, st)
                else Inr (EINTR, c\<lparr>error_code := 0\<rparr>, w, st\<lparr>loop_count := 1\<rparr>)
              else Inr (EINTR, c\<lparr>error_code := 0\<rparr>, w, st\<lparr>loop_count := 1\<rparr>)
            else Inr (EINTR, c\<lparr>error_code := 0\<rparr>, w, st))"

definition send_state_init :: "nat \<Rightarrow> nat \<Rightarrow> ic_send_state" where
  "send_state_init n secs =
     \<lparr>time_measure = False, next_sec_check = 0, secs_count = 0, secs_to_try = secs, write_size = 0, loop_count = 0, buf_size = n\<rparr>"

text \<open>One \<^verbatim>\<open>send\<close> of \<open>data\<close> with a given outcome.\<close>

definition send_one :: "tx \<Rightarrow> net \<Rightarrow> char list \<Rightarrow> (err + nat) \<times> net" where
  "send_one t w data = (case t of
       TxErr e \<Rightarrow> (Inl e, w)
     | Accept k \<Rightarrow> (Inr (min k (length data)), w\<lparr>sent_bytes := sent_bytes w @ take k data\<rparr>))"

definition add_written :: "err + nat \<Rightarrow> ic_send_state \<Rightarrow> ic_send_state" where
  "add_written r st = (case r of Inl _ \<Rightarrow> st | Inr k \<Rightarrow> st\<lparr>write_size := write_size st + k\<rparr>)"

text \<open>
  The loop, one \<^verbatim>\<open>send\<close> per element of \<open>ts\<close>. Behind its end a last \<^verbatim>\<open>send\<close> accepts everything, so
  that the loop ends there.
\<close>

fun write_loop :: "tx list \<Rightarrow> ic_int_connection \<Rightarrow> net \<Rightarrow> char list \<Rightarrow> ic_send_state \<Rightarrow> fault + (err \<times> conn)" where
  "write_loop [] c w data st =
     (case send_one (Accept (length data)) w (drop (write_size st) data) of (r, w) \<Rightarrow>
        c_bind (handle_return_write c (w\<lparr>tx_queue := []\<rparr>) r (add_written r st)) (\<lambda>(error, c, w, st).
          if error = 0 then Inr (0, (c, w))
          else if error \<noteq> EINTR \<or> error_code c \<noteq> 0 then Inr (error, (c, w))
          else Inl Diverges))"
| "write_loop (t # ts) c w data st =
     (case send_one t w (drop (write_size st) data) of (r, w) \<Rightarrow>
        c_bind (handle_return_write c (w\<lparr>tx_queue := ts\<rparr>) r (add_written r st)) (\<lambda>(error, c, w, st).
          if error = 0 then Inr (0, (c, w))
          else if error \<noteq> EINTR \<or> error_code c \<noteq> 0 then Inr (error, (c, w))
          else write_loop ts c w data (st\<lparr>loop_count := loop_count st + 1\<rparr>)))"

definition write_socket_connection :: "conn \<Rightarrow> char list \<Rightarrow> nat \<Rightarrow> fault + (err \<times> conn)" where
  "write_socket_connection = (\<lambda>(c, w) data secs.
     write_loop (tx_queue w) c w data (send_state_init (length data) secs))"

definition flush_connection :: "conn \<Rightarrow> fault + (err \<times> conn)" where
  "flush_connection = (\<lambda>(c, w).
     c_assert (write_buf_pos c \<noteq> 0)
       (case write_buf c of None \<Rightarrow> Inl NullDeref
        | Some b \<Rightarrow> c_bind (rd_blk b 0 (write_buf_pos c)) (\<lambda>data.
            c_bind (write_socket_connection (c, w) data 1) (\<lambda>(rc, (c, w)). Inr (rc, (c\<lparr>write_buf_pos := 0\<rparr>, w))))))"

section \<open>Writing vectors\<close>

definition IC_MAX_SEND_BUFFERS :: nat where "IC_MAX_SEND_BUFFERS = 16"

text \<open>
  Where the next \<^verbatim>\<open>sendmsg\<close> starts after one that accepted \<open>n\<close> bytes. \<^verbatim>\<open>write_len\<close> is set to the
  number of bytes accepted in every round of the loop. The elements behind the last vector are not
  initialised.
\<close>

function advance_iovec :: "char list list \<Rightarrow> nat \<Rightarrow> nat \<Rightarrow> fault + (char list list \<times> nat)" where
  "advance_iovec vecs iovec_index n =
     (if length vecs \<le> iovec_index then Inl UninitRead
      else if n < length (vecs ! iovec_index) then Inr (vecs[iovec_index := drop n (vecs ! iovec_index)], iovec_index)
      else advance_iovec vecs (iovec_index + 1) n)"
  by pat_completeness auto

termination advance_iovec
  by (relation "measure (\<lambda>(v, i, n). length v - i)") auto

declare advance_iovec.simps [simp del]

definition next_iovec :: "err + nat \<Rightarrow> ic_send_state \<Rightarrow> char list list \<Rightarrow> nat \<Rightarrow> fault + (char list list \<times> nat)" where
  "next_iovec r st vecs iovec_index = (case r of
       Inl _ \<Rightarrow> Inr (vecs, iovec_index)
     | Inr k \<Rightarrow> if 0 < k \<and> write_size st < buf_size st then advance_iovec vecs iovec_index k else Inr (vecs, iovec_index))"

fun send_msg_loop ::
  "tx list \<Rightarrow> ic_int_connection \<Rightarrow> net \<Rightarrow> char list list \<Rightarrow> nat \<Rightarrow> ic_send_state \<Rightarrow> fault + (err \<times> conn)"
where
  "send_msg_loop [] c w vecs iovec_index st =
     (let data = concat (drop iovec_index vecs) in case send_one (Accept (length data)) w data of (r, w) \<Rightarrow>
        let st = add_written r st in
        c_bind (next_iovec r st vecs iovec_index) (\<lambda>(vecs, iovec_index).
        c_bind (handle_return_write c (w\<lparr>tx_queue := []\<rparr>) r st) (\<lambda>(error, c, w, st).
          if error = 0 then Inr (0, (c, w))
          else if error \<noteq> EINTR \<or> error_code c \<noteq> 0 then Inr (error, (c, w))
          else Inl Diverges)))"
| "send_msg_loop (t # ts) c w vecs iovec_index st =
     (let data = concat (drop iovec_index vecs) in case send_one t w data of (r, w) \<Rightarrow>
        let st = add_written r st in
        c_bind (next_iovec r st vecs iovec_index) (\<lambda>(vecs, iovec_index).
        c_bind (handle_return_write c (w\<lparr>tx_queue := ts\<rparr>) r st) (\<lambda>(error, c, w, st).
          if error = 0 then Inr (0, (c, w))
          else if error \<noteq> EINTR \<or> error_code c \<noteq> 0 then Inr (error, (c, w))
          else send_msg_loop ts c w vecs iovec_index (st\<lparr>loop_count := loop_count st + 1\<rparr>))))"

definition send_msg :: "conn \<Rightarrow> char list list \<Rightarrow> nat \<Rightarrow> nat \<Rightarrow> fault + (err \<times> conn)" where
  "send_msg = (\<lambda>(c, w) write_vector tot_size secs.
     if IC_MAX_SEND_BUFFERS < length write_vector then Inl OutOfBounds
     else send_msg_loop (tx_queue w) c w write_vector 0 (send_state_init tot_size secs))"

fun write_each :: "conn \<Rightarrow> char list list \<Rightarrow> nat \<Rightarrow> fault + (err \<times> conn)" where
  "write_each s [] secs = Inr (0, s)"
| "write_each s (v # vs) secs =
     c_bind (write_socket_connection s v secs) (\<lambda>(rc, s). if rc \<noteq> 0 then Inr (rc, s) else write_each s vs secs)"

definition writev_socket_connection :: "conn \<Rightarrow> char list list \<Rightarrow> nat \<Rightarrow> nat \<Rightarrow> fault + (err \<times> conn)" where
  "writev_socket_connection s write_vector tot_size secs =
     (if is_ssl_used_for_data (fst s) then write_each s write_vector secs else send_msg s write_vector tot_size secs)"

section \<open>Reading\<close>

text \<open>The range of a message size: the loop over \<^verbatim>\<open>range_limit\<close>.\<close>

fun rec_range :: "nat \<Rightarrow> nat \<Rightarrow> nat \<Rightarrow> nat \<Rightarrow> nat" where
  "rec_range 0 i range_limit n = i"
| "rec_range (Suc k) i range_limit n = (if n < range_limit then i else rec_range k (i + 1) (2 * range_limit) n)"

definition count_received :: "ic_int_connection \<Rightarrow> nat \<Rightarrow> fault + ic_int_connection" where
  "count_received c n =
     (let i = 16 + rec_range 15 0 32 n in
      c_bind (rd (buf_ranges (conn_stat c)) i) (\<lambda>k.
      c_bind (wr (buf_ranges (conn_stat c)) i (k + 1)) (\<lambda>ranges.
        Inr ((upd_stat c (\<lambda>s. s\<lparr>num_rec_buffers := num_rec_buffers s + 1, num_rec_bytes := num_rec_bytes s + of_nat n,
                num_rec_bytes_square_sum := num_rec_bytes_square_sum s + sint ((of_nat n :: guint32) * of_nat n), buf_ranges := ranges\<rparr>))\<lparr>error_code := 0\<rparr>))))"

lemma recv_err_shorter: "recv rs n = Inr (IoErr e, rs') \<Longrightarrow> length rs' < length rs"
  by (induction rs n rule: recv.induct) (auto split: if_splits)

text \<open>The loop that retries after an interrupted call, and its result: an error, or the bytes read.\<close>

function read_loop :: "ic_int_connection \<Rightarrow> net \<Rightarrow> nat \<Rightarrow> fault + ((err + char list) \<times> conn)" where
  "read_loop c w n =
     c_bind (recv (rx_queue w) n) (\<lambda>(r, rs). let w = w\<lparr>rx_queue := rs\<rparr> in case r of
         Got bs \<Rightarrow> c_bind (count_received c (length bs)) (\<lambda>c. Inr (Inr bs, (c, w)))
       | Closed \<Rightarrow> Inr (Inl IC_END_OF_FILE, (c\<lparr>error_code := IC_END_OF_FILE\<rparr>, w))
       | IoErr e \<Rightarrow> if e = EINTR then read_loop c w n
                    else Inr (Inl e, ((upd_stat c (\<lambda>s. s\<lparr>num_rec_errors := num_rec_errors s + 1\<rparr>))\<lparr>error_code := e\<rparr>, w)))"
  by pat_completeness auto

termination read_loop
  by (relation "measure (\<lambda>(c, w, n). length (rx_queue w))") (auto dest: recv_err_shorter)

declare read_loop.simps [simp del]

definition read_socket_connection :: "conn \<Rightarrow> nat \<Rightarrow> fault + ((err + char list) \<times> conn)" where
  "read_socket_connection = (\<lambda>(c, w) n. read_loop c w n)"

section \<open>Connection objects\<close>

text \<open>The memory blocks, mutexes and timers that are allocated.\<close>

record resources =
  blocks :: nat
  mutexes :: nat
  timers :: nat

definition stat_init :: "ic_connect_stat" where
  "stat_init = \<lparr>num_sent_buffers = 0, num_sent_bytes = 0, num_sent_bytes_square_sum = 0, num_rec_buffers = 0, num_rec_bytes = 0,
     num_rec_bytes_square_sum = 0, buf_ranges = replicate 32 0, num_send_errors = 0, num_send_timeouts = 0, num_rec_errors = 0,
     is_connected = False, is_connect_thread_active = False\<rparr>"

definition init_connect_stat :: "ic_int_connection \<Rightarrow> ic_int_connection" where
  "init_connect_stat c = c\<lparr>conn_stat := stat_init\<rparr>"

definition destroy_timers :: "ic_int_connection \<times> resources \<Rightarrow> ic_int_connection \<times> resources" where
  "destroy_timers = (\<lambda>(c, r). (c\<lparr>timers_exist := False\<rparr>, if timers_exist c then r\<lparr>timers := timers r - 2\<rparr> else r))"

definition destroy_mutexes :: "ic_int_connection \<times> resources \<Rightarrow> ic_int_connection \<times> resources" where
  "destroy_mutexes = (\<lambda>(c, r). (c\<lparr>mutexes_exist := False\<rparr>, if mutexes_exist c then r\<lparr>mutexes := mutexes r - 3\<rparr> else r))"

text \<open>
  The three mutexes are created or, when one cannot be created, none is left. GLib's \<^verbatim>\<open>g_timer_new\<close>
  aborts the program when it has no memory, so that the timers always exist afterwards.
\<close>

definition create_mutexes :: "allocs \<Rightarrow> ic_int_connection \<times> resources \<Rightarrow> bool \<times> (ic_int_connection \<times> resources) \<times> allocs" where
  "create_mutexes as = (\<lambda>(c, r).
     let (a, as1) = alloc_next as; (b, as2) = alloc_next as1; (d, as3) = alloc_next as2 in
     if \<not> a then (True, (c, r), as1) else if \<not> b then (True, (c, r), as2) else if \<not> d then (True, (c, r), as3)
     else (False, (c\<lparr>mutexes_exist := True\<rparr>, r\<lparr>mutexes := mutexes r + 3\<rparr>), as3))"

definition create_timers :: "ic_int_connection \<times> resources \<Rightarrow> bool \<times> (ic_int_connection \<times> resources)" where
  "create_timers = (\<lambda>(c, r). (False, (c\<lparr>timers_exist := True\<rparr>, r\<lparr>timers := timers r + 2\<rparr>)))"

definition zero_conn :: ic_int_connection where
  "zero_conn = \<lparr>conn_stat = stat_init, param = None, error_code = 0, error_line = 0, stop_flag = False, is_nonblocking = False,
     has_thread = False, read_buf = None, read_buf_size = 0, size_curr_read_buf = 0, read_buf_pos = 0, write_buf = None,
     write_buf_size = 0, write_buf_pos = 0, rw_sockfd = 0, listen_sockfd = 0, rec_wait_ms = 0, bytes_written_before_interrupt = 0,
     backlog = 0, server_name = None, client_name = None, server_port = None, client_port = None, forked_connections = 0,
     is_client = False, is_listen_socket_retained = False, is_mutex_used = False, is_connect_thread_used = False,
     tcp_maxseg_size = 0, tcp_receive_buffer_size = 0, tcp_send_buffer_size = 0, is_wan_connection = False,
     is_ssl_connection = False, is_ssl_used_for_data = False, save_is_ssl_used_for_data = False,
     mutexes_exist = False, timers_exist = False\<rparr>"

definition calloc_block :: "allocs \<Rightarrow> resources \<Rightarrow> bool \<times> resources \<times> allocs" where
  "calloc_block as r = (case alloc_next as of (ok, as) \<Rightarrow> if ok then (True, r\<lparr>blocks := blocks r + 1\<rparr>, as) else (False, r, as))"

definition free_blocks :: "nat \<Rightarrow> resources \<Rightarrow> fault + resources" where
  "free_blocks n r = (if n \<le> blocks r then Inr (r\<lparr>blocks := blocks r - n\<rparr>) else Inl InvalidFree)"

definition bufs_of :: "ic_int_connection \<Rightarrow> nat" where
  "bufs_of c = (if read_buf c = None then 0 else 1) + (if write_buf c = None then 0 else 1)"

definition int_create_socket_object ::
  "allocs \<Rightarrow> resources \<Rightarrow> bool \<Rightarrow> bool \<Rightarrow> bool \<Rightarrow> bool \<Rightarrow> bool \<Rightarrow> nat \<Rightarrow> fault + (ic_int_connection option \<times> resources \<times> allocs)"
where
  "int_create_socket_object as r client mutex connect_thread ssl ssl_data rbs =
     (case calloc_block as r of (ok, r, as) \<Rightarrow>
      if \<not> ok then Inr (None, r, as)
      else let c = zero_conn in
      case (if rbs = 0 then Inr (c, r, as)
            else case calloc_block as r of (ok, r, as) \<Rightarrow>
              if \<not> ok then Inl (c_bind (free_blocks 1 r) (\<lambda>r. Inr (None, r, as)))
              else let c = c\<lparr>read_buf_size := rbs, read_buf := Some (replicate rbs NULL_BYTE), write_buf_size := rbs\<rparr> in
                case calloc_block as r of (ok, r, as) \<Rightarrow>
                if \<not> ok then Inl (c_bind (free_blocks 2 r) (\<lambda>r. Inr (None, r, as)))
                else Inr (c\<lparr>write_buf := Some (replicate rbs NULL_BYTE)\<rparr>, r, as)) of
        Inl out \<Rightarrow> out
      | Inr (c, r, as) \<Rightarrow>
          let c = init_connect_stat (c\<lparr>is_ssl_connection := ssl, is_ssl_used_for_data := ssl_data, save_is_ssl_used_for_data := ssl_data,
                    is_client := client, is_connect_thread_used := connect_thread, backlog := 1, is_mutex_used := mutex,
                    rec_wait_ms := 10000\<rparr>) in
          case create_mutexes as (c, r) of (bad, (c, r), as) \<Rightarrow>
          if bad
          then case destroy_mutexes (c, r) of (c, r) \<Rightarrow> c_bind (free_blocks (1 + bufs_of c) r) (\<lambda>r. Inr (None, r, as))
          else case create_timers (c, r) of (bad, (c, r)) \<Rightarrow>
            if bad
            then case destroy_mutexes (c, r) of (c, r) \<Rightarrow> c_bind (free_blocks (1 + bufs_of c) r) (\<lambda>r. Inr (None, r, as))
            else Inr (Some c, r, as))"

definition ic_create_socket_object ::
  "allocs \<Rightarrow> resources \<Rightarrow> bool \<Rightarrow> bool \<Rightarrow> bool \<Rightarrow> nat \<Rightarrow> fault + (ic_int_connection option \<times> resources \<times> allocs)"
where
  "ic_create_socket_object as r client mutex connect_thread rbs =
     int_create_socket_object as r client mutex connect_thread False False rbs"

text \<open>
  The results are the forked connection, if any, and the original one. When the read buffer cannot be
  allocated the function goes on without one; when the write buffer cannot, it returns without freeing
  anything, and after a failed \<^verbatim>\<open>create_mutexes\<close> without freeing the buffers.
\<close>

definition fork_accept_connection ::
  "allocs \<Rightarrow> resources \<Rightarrow> ic_int_connection \<Rightarrow> bool \<Rightarrow> fault + (ic_int_connection option \<times> ic_int_connection \<times> resources \<times> allocs)"
where
  "fork_accept_connection as r orig use_mutex =
     (case calloc_block as r of (ok, r, as) \<Rightarrow>
      if \<not> ok then Inr (None, orig, r, as)
      else let f = orig in
      case (if read_buf_size orig = 0 then Inr (f, r, as)
            else case calloc_block as r of (ok, r, as) \<Rightarrow>
              let f = f\<lparr>read_buf_pos := 0, size_curr_read_buf := 0, write_buf_pos := 0,
                        read_buf := if ok then Some (replicate (read_buf_size orig) NULL_BYTE) else None\<rparr> in
              case calloc_block as r of (ok, r, as) \<Rightarrow>
                if \<not> ok then Inl (Inr (None, orig, r, as))
                else Inr (f\<lparr>write_buf := Some (replicate (write_buf_size orig) NULL_BYTE)\<rparr>, r, as)) of
        Inl out \<Rightarrow> out
      | Inr (f, r, as) \<Rightarrow>
          let f = (init_connect_stat f)\<lparr>forked_connections := 0, mutexes_exist := False, timers_exist := False,
                    listen_sockfd := 0, bytes_written_before_interrupt := 0, error_code := 0, error_line := 0,
                    is_listen_socket_retained := False, is_connect_thread_used := False, is_mutex_used := use_mutex,
                    has_thread := False, param := None\<rparr>;
              orig = orig\<lparr>forked_connections := forked_connections orig + 1\<rparr> in
          case create_mutexes as (f, r) of (bad, (f, r), as) \<Rightarrow>
          if bad then case destroy_mutexes (f, r) of (f, r) \<Rightarrow> c_bind (free_blocks 1 r) (\<lambda>r. Inr (None, orig, r, as))
          else case create_timers (f, r) of (bad, (f, r)) \<Rightarrow>
            if bad then case destroy_mutexes (f, r) of (f, r) \<Rightarrow> c_bind (free_blocks 1 r) (\<lambda>r. Inr (None, orig, r, as))
            else Inr (Some f, orig, r, as))"

definition close_socket_connection :: "ic_int_connection \<Rightarrow> ic_int_connection" where
  "close_socket_connection c =
     (let c = (if listen_sockfd c \<noteq> 0 then c\<lparr>listen_sockfd := 0\<rparr> else c);
          c = (if rw_sockfd c \<noteq> 0 then c\<lparr>rw_sockfd := 0\<rparr> else c) in c\<lparr>error_code := 0\<rparr>)"

definition close_listen_socket_connection :: "ic_int_connection \<Rightarrow> ic_int_connection" where
  "close_listen_socket_connection c =
     (let c = (if listen_sockfd c \<noteq> 0 then c\<lparr>listen_sockfd := 0\<rparr> else c) in c\<lparr>error_code := 0\<rparr>)"

definition free_socket_connection :: "ic_int_connection option \<Rightarrow> resources \<Rightarrow> fault + resources" where
  "free_socket_connection oc r = (case oc of None \<Rightarrow> Inr r
     | Some c \<Rightarrow>
         let c = (if has_thread c then c\<lparr>stop_flag := True, has_thread := False\<rparr> else c);
             c = close_socket_connection c in
         case destroy_mutexes (destroy_timers (c, r)) of (c, r) \<Rightarrow> free_blocks (1 + bufs_of c) r)"

section \<open>Parameters of a connection\<close>

definition set_ssl_used_for_data :: "ic_int_connection \<Rightarrow> ic_int_connection" where
  "set_ssl_used_for_data c = c\<lparr>save_is_ssl_used_for_data := is_ssl_used_for_data c, is_ssl_used_for_data := True\<rparr>"

definition reset_ssl_used_for_data :: "ic_int_connection \<Rightarrow> ic_int_connection" where
  "reset_ssl_used_for_data c = c\<lparr>is_ssl_used_for_data := save_is_ssl_used_for_data c\<rparr>"

definition prepare_client_connection ::
  "ic_int_connection \<Rightarrow> char list option \<Rightarrow> char list option \<Rightarrow> char list option \<Rightarrow> char list option \<Rightarrow> ic_int_connection"
where
  "prepare_client_connection c sn sp cn cp = c\<lparr>server_name := sn, server_port := sp, client_name := cn, client_port := cp\<rparr>"

definition prepare_server_connection ::
  "ic_int_connection \<Rightarrow> char list option \<Rightarrow> char list option \<Rightarrow> char list option \<Rightarrow> char list option \<Rightarrow> int \<Rightarrow> bool \<Rightarrow> ic_int_connection"
where
  "prepare_server_connection c sn sp cn cp bl retained =
     (prepare_client_connection c sn sp cn cp)\<lparr>backlog := (if bl = 0 then 10 else bl), is_listen_socket_retained := retained\<rparr>"

definition prepare_extra_parameters :: "ic_int_connection \<Rightarrow> guint32 \<Rightarrow> bool \<Rightarrow> guint32 \<Rightarrow> guint32 \<Rightarrow> ic_int_connection" where
  "prepare_extra_parameters c maxseg wan rcv snd_size =
     (let c = (if maxseg = 0 then c else c\<lparr>tcp_maxseg_size := ucast maxseg\<rparr>); c = c\<lparr>is_wan_connection := wan\<rparr>;
          c = (if rcv = 0 then c else c\<lparr>tcp_receive_buffer_size := sint rcv\<rparr>) in
      if snd_size = 0 then c else c\<lparr>tcp_send_buffer_size := sint snd_size\<rparr>)"

definition cmp_hostname_and_port :: "ic_int_connection \<Rightarrow> char list \<Rightarrow> char list \<Rightarrow> fault + nat" where
  "cmp_hostname_and_port c hostname port = (case server_name c of None \<Rightarrow> Inl NullDeref
     | Some n \<Rightarrow> if n \<noteq> hostname then Inr 1
       else (case server_port c of None \<Rightarrow> Inl NullDeref | Some p \<Rightarrow> Inr (if p = port then 0 else 1)))"

text \<open>\<open>fails\<close> says for which sizes \<^verbatim>\<open>setsockopt\<close> returns an error; the sizes are not negative.\<close>

function halve_size :: "(int \<Rightarrow> bool) \<Rightarrow> int \<Rightarrow> int \<Rightarrow> int" where
  "halve_size fails n old = (if old < n \<and> 0 < n \<and> fails n then halve_size fails (n div 2) old else n)"
  by pat_completeness auto

termination halve_size
  by (relation "measure (\<lambda>(f, n, old). nat n)") auto

declare halve_size.simps [simp del]

definition set_option_size :: "(int \<Rightarrow> bool) \<Rightarrow> int \<Rightarrow> int \<Rightarrow> int" where
  "set_option_size fails n old =
     (if n \<noteq> 0 \<and> old < n then let m = halve_size fails n old in if old < m then m else old else old)"

text \<open>The delay to use and the next one.\<close>

definition logarithmic_delay :: "int \<Rightarrow> int \<times> int" where
  "logarithmic_delay delay = (delay, max (delay * 2) 10)"

definition check_user_timeout :: "(int \<Rightarrow> bool) option \<Rightarrow> conn \<Rightarrow> int \<Rightarrow> err \<times> conn \<times> int" where
  "check_user_timeout timeout_func = (\<lambda>(c, w) timer. case next_stop w of (stop, w) \<Rightarrow>
     if stop then (IC_ERROR_APPLICATION_STOPPED, (c, w), timer)
     else let timer = timer + 3 in case timeout_func of
         None \<Rightarrow> (0, (c, w), timer)
       | Some f \<Rightarrow> if f timer then (IC_ERROR_CONNECT_TIMEOUT, (c\<lparr>error_code := IC_ERROR_CONNECT_TIMEOUT\<rparr>, w), timer) else (0, (c, w), timer))"

section \<open>Writing: lemmas\<close>

text \<open>What a write may change of a connection: the statistics, the error code and the count for the caller.\<close>

definition same_buffers :: "ic_int_connection \<Rightarrow> ic_int_connection \<Rightarrow> bool" where
  "same_buffers c c' \<longleftrightarrow> c'\<lparr>conn_stat := stat_init, error_code := 0, bytes_written_before_interrupt := 0\<rparr> =
     c\<lparr>conn_stat := stat_init, error_code := 0, bytes_written_before_interrupt := 0\<rparr>"

definition ranges_ok :: "ic_int_connection \<Rightarrow> bool" where
  "ranges_ok c \<longleftrightarrow> length (buf_ranges (conn_stat c)) = 32"

lemma highest_bit_index: "unat (ic_count_highest_bit x - 6) = 26"
  by (simp add: ic_count_highest_bit_all)

text \<open>The three outcomes of \<^verbatim>\<open>handle_return_write\<close>: the end, an error for the caller, another round.\<close>

lemma same_buffers_refl [simp]: "same_buffers c c"
  by (simp add: same_buffers_def)

lemma same_buffers_trans: "same_buffers a b \<Longrightarrow> same_buffers b c \<Longrightarrow> same_buffers a c"
  by (simp add: same_buffers_def)

lemma same_buffers_fields:
  assumes "same_buffers c c'"
  shows "read_buf c' = read_buf c" "read_buf_size c' = read_buf_size c" "size_curr_read_buf c' = size_curr_read_buf c"
    "read_buf_pos c' = read_buf_pos c" "write_buf c' = write_buf c" "write_buf_size c' = write_buf_size c" "write_buf_pos c' = write_buf_pos c"
    "rec_wait_ms c' = rec_wait_ms c"
proof -
  have "f (c'\<lparr>conn_stat := stat_init, error_code := 0, bytes_written_before_interrupt := 0\<rparr>) =
     f (c\<lparr>conn_stat := stat_init, error_code := 0, bytes_written_before_interrupt := 0\<rparr>)" for f :: "ic_int_connection \<Rightarrow> 'x"
    using assms by (simp add: same_buffers_def)
  from this [of read_buf] this [of read_buf_size] this [of size_curr_read_buf] this [of read_buf_pos] this [of write_buf]
    this [of write_buf_size] this [of write_buf_pos] this [of rec_wait_ms]
  show "read_buf c' = read_buf c" "read_buf_size c' = read_buf_size c" "size_curr_read_buf c' = size_curr_read_buf c"
    "read_buf_pos c' = read_buf_pos c" "write_buf c' = write_buf c" "write_buf_size c' = write_buf_size c" "write_buf_pos c' = write_buf_pos c"
    "rec_wait_ms c' = rec_wait_ms c" by simp_all
qed

lemma next_elapsed_frame:
  "next_elapsed v = (t, v') \<Longrightarrow> sent_bytes v' = sent_bytes v \<and> rx_queue v' = rx_queue v \<and> stop_flags v' = stop_flags v \<and> tx_queue v' = tx_queue v"
  by (auto simp: next_elapsed_def split: list.splits)

lemma handle_return_write_done:
  assumes "ranges_ok c" and "write_size st = buf_size st"
  shows "\<exists>c' w'. handle_return_write c w r st = Inr (0, c', w', st) \<and> same_buffers c c' \<and> ranges_ok c' \<and> error_code c' = 0 \<and>
    num_sent_buffers (conn_stat c') = num_sent_buffers (conn_stat c) + 1 \<and>
    num_sent_bytes (conn_stat c') = num_sent_bytes (conn_stat c) + of_nat (buf_size st) \<and>
    buf_ranges (conn_stat c') = (buf_ranges (conn_stat c))[26 := buf_ranges (conn_stat c) ! 26 + 1] \<and>
    w' = w\<lparr>send_timers := send_timers w'\<rparr>"
  using assms by (simp add: handle_return_write_def highest_bit_index ranges_ok_def Let_def upd_stat_def same_buffers_def)


definition sent_stat :: "ic_int_connection \<Rightarrow> guint64 \<times> guint64 \<times> guint32 list" where
  "sent_stat c = (num_sent_buffers (conn_stat c), num_sent_bytes (conn_stat c), buf_ranges (conn_stat c))"

definition count_sent :: "nat \<Rightarrow> guint64 \<times> guint64 \<times> guint32 list \<Rightarrow> guint64 \<times> guint64 \<times> guint32 list" where
  "count_sent n = (\<lambda>(b, y, rs). (b + 1, y + of_nat n, rs[26 := rs ! 26 + 1]))"

lemma handle_return_write_more:
  assumes "write_size st \<noteq> buf_size st" and "\<forall>e. r = Inl e \<longrightarrow> e \<noteq> 0"
  shows "\<exists>error c' w' st'. handle_return_write c w r st = Inr (error, c', w', st') \<and> same_buffers c c' \<and> sent_stat c' = sent_stat c \<and>
    error \<noteq> 0 \<and> (error = EINTR \<and> error_code c' = 0 \<or> error_code c' = error \<and> bytes_written_before_interrupt c' = write_size st) \<and>
    write_size st' = write_size st \<and> buf_size st' = buf_size st \<and> sent_bytes w' = sent_bytes w \<and> rx_queue w' = rx_queue w \<and>
    stop_flags w' = stop_flags w \<and> tx_queue w' = tx_queue w"
  using assms unfolding handle_return_write_def
  by (auto simp: Let_def upd_stat_def same_buffers_def sent_stat_def EINTR_def split: sum.splits prod.splits dest: next_elapsed_frame)

text \<open>What a write does, given that the first \<open>n\<close> bytes of \<open>data\<close> were already accepted.\<close>

definition write_post :: "ic_int_connection \<Rightarrow> net \<Rightarrow> char list \<Rightarrow> nat \<Rightarrow> err \<Rightarrow> ic_int_connection \<Rightarrow> net \<Rightarrow> bool" where
  "write_post c w data n rc c' w' \<longleftrightarrow> same_buffers c c' \<and> rx_queue w' = rx_queue w \<and> stop_flags w' = stop_flags w \<and> error_code c' = rc \<and>
     (rc = 0 \<and> sent_bytes w' = sent_bytes w @ drop n data \<and> sent_stat c' = count_sent (length data) (sent_stat c) \<or>
      rc \<noteq> 0 \<and> n \<le> bytes_written_before_interrupt c' \<and> bytes_written_before_interrupt c' < length data \<and> sent_stat c' = sent_stat c \<and>
        sent_bytes w' = sent_bytes w @ drop n (take (bytes_written_before_interrupt c') data))"

definition tx_ok :: "tx list \<Rightarrow> bool" where
  "tx_ok ts \<longleftrightarrow> TxErr 0 \<notin> set ts"

lemma drop_take_join:
  assumes "n \<le> m" and "m \<le> length data"
  shows "drop n (take m data) @ drop m data = drop n data"
    and "m \<le> k \<Longrightarrow> drop n (take m data) @ drop m (take k data) = drop n (take k data)"
proof -
  have *: "drop n (take m xs) @ drop m xs = drop n xs" if "m \<le> length xs" for xs :: "'x list"
  proof -
    have "drop n (take m xs @ drop m xs) = drop n (take m xs) @ drop m xs" using assms(1) that by (subst drop_append) simp
    then show ?thesis by simp
  qed
  show "drop n (take m data) @ drop m data = drop n data" using * assms(2) by blast
  show "drop n (take m data) @ drop m (take k data) = drop n (take k data)" if "m \<le> k"
    using * [of "take k data"] that assms(2) by (simp add: min_def)
qed

lemma send_one_props:
  assumes "send_one t w (drop n data) = (r, w')" and "n \<le> length data" and "t \<noteq> TxErr 0" and "st = st0\<lparr>write_size := n\<rparr>"
  shows "\<exists>m. write_size (add_written r st) = m \<and> n \<le> m \<and> m \<le> length data \<and> buf_size (add_written r st) = buf_size st \<and>
    sent_bytes w' = sent_bytes w @ drop n (take m data) \<and> rx_queue w' = rx_queue w \<and> stop_flags w' = stop_flags w \<and> (\<forall>e. r = Inl e \<longrightarrow> e \<noteq> 0)"
  using assms by (cases t) (auto simp: send_one_def add_written_def drop_take min_def)

lemma write_loop_ok:
  "ranges_ok c \<Longrightarrow> write_size st \<le> length data \<Longrightarrow> buf_size st = length data \<Longrightarrow> tx_ok ts \<Longrightarrow>
   \<exists>rc c' w'. write_loop ts c w data st = Inr (rc, (c', w')) \<and> write_post c w data (write_size st) rc c' w' \<and> tx_ok (tx_queue w') \<and> (ts = [] \<longrightarrow> rc = 0 \<and> tx_queue w' = [])"
proof (induction ts arbitrary: c w st)
  case Nil
  let ?n = "write_size st"
  let ?st = "add_written (Inr (length (drop ?n data))) st"
  define w1 where "w1 = w\<lparr>sent_bytes := sent_bytes w @ drop ?n data, tx_queue := []\<rparr>"
  have s: "send_one (Accept (length data)) w (drop ?n data) = (Inr (length (drop ?n data)), w\<lparr>sent_bytes := sent_bytes w @ drop ?n data\<rparr>)"
    by (auto simp: send_one_def min_def)
  have d: "write_size ?st = buf_size ?st" "buf_size ?st = length data" using Nil.prems by (simp_all add: add_written_def)
  from handle_return_write_done [OF Nil.prems(1) d(1), of w1 "Inr (length (drop ?n data))"] obtain c' w' where
    h: "handle_return_write c w1 (Inr (length (drop ?n data))) ?st = Inr (0, c', w', ?st)" "same_buffers c c'" "error_code c' = 0"
      "num_sent_buffers (conn_stat c') = num_sent_buffers (conn_stat c) + 1"
      "num_sent_bytes (conn_stat c') = num_sent_bytes (conn_stat c) + of_nat (buf_size ?st)"
      "buf_ranges (conn_stat c') = (buf_ranges (conn_stat c))[26 := buf_ranges (conn_stat c) ! 26 + 1]" "w' = w1\<lparr>send_timers := send_timers w'\<rparr>" by blast
  have "write_loop [] c w data st = Inr (0, (c', w'))" using s h(1) by (simp add: w1_def)
  moreover have "rx_queue w' = rx_queue w1" "sent_bytes w' = sent_bytes w1" "stop_flags w' = stop_flags w1" "tx_queue w' = tx_queue w1"
    using arg_cong [OF h(7), of rx_queue] arg_cong [OF h(7), of sent_bytes] arg_cong [OF h(7), of stop_flags] arg_cong [OF h(7), of tx_queue] by simp_all
  ultimately show ?case using h d(2) by (auto simp: write_post_def sent_stat_def count_sent_def w1_def tx_ok_def)
next
  case (Cons t ts)
  let ?n = "write_size st"
  obtain r w1 where s: "send_one t w (drop ?n data) = (r, w1)" by (cases "send_one t w (drop ?n data)")
  define w2 where "w2 = w1\<lparr>tx_queue := ts\<rparr>"
  have t: "t \<noteq> TxErr 0" "tx_ok ts" using Cons.prems(4) by (auto simp: tx_ok_def)
  from send_one_props [OF s Cons.prems(2) t(1), of st st] obtain m where
    m: "write_size (add_written r st) = m" "?n \<le> m" "m \<le> length data" "buf_size (add_written r st) = length data"
      "sent_bytes w2 = sent_bytes w @ drop ?n (take m data)" "rx_queue w2 = rx_queue w" "stop_flags w2 = stop_flags w" "\<forall>e. r = Inl e \<longrightarrow> e \<noteq> 0"
    using Cons.prems(3) by (auto simp: w2_def)
  have eq: "write_loop (t # ts) c w data st = c_bind (handle_return_write c w2 r (add_written r st)) (\<lambda>(error, c, w, st).
          if error = 0 then Inr (0, (c, w))
          else if error \<noteq> EINTR \<or> error_code c \<noteq> 0 then Inr (error, (c, w))
          else write_loop ts c w data (st\<lparr>loop_count := loop_count st + 1\<rparr>))"
    using s by (simp add: w2_def)
  show ?case
  proof (cases "m = length data")
    case True
    then have d: "write_size (add_written r st) = buf_size (add_written r st)" using m(1,4) by simp
    from handle_return_write_done [OF Cons.prems(1) d, of w2 r] obtain c' w' where
      h: "handle_return_write c w2 r (add_written r st) = Inr (0, c', w', add_written r st)" "same_buffers c c'" "error_code c' = 0"
        "num_sent_buffers (conn_stat c') = num_sent_buffers (conn_stat c) + 1"
        "num_sent_bytes (conn_stat c') = num_sent_bytes (conn_stat c) + of_nat (buf_size (add_written r st))"
        "buf_ranges (conn_stat c') = (buf_ranges (conn_stat c))[26 := buf_ranges (conn_stat c) ! 26 + 1]" "w' = w2\<lparr>send_timers := send_timers w'\<rparr>" by blast
    have "rx_queue w' = rx_queue w2" "sent_bytes w' = sent_bytes w2" "stop_flags w' = stop_flags w2" "tx_queue w' = tx_queue w2"
      using arg_cong [OF h(7), of rx_queue] arg_cong [OF h(7), of sent_bytes] arg_cong [OF h(7), of stop_flags] arg_cong [OF h(7), of tx_queue] by simp_all
    then show ?thesis unfolding eq h(1) using h m True t(2) by (auto simp: write_post_def sent_stat_def count_sent_def w2_def)
  next
    case False
    then have d: "write_size (add_written r st) \<noteq> buf_size (add_written r st)" using m(1,4) by simp
    from handle_return_write_more [OF d m(8), of c w2] obtain error c1 w3 st' where
      h: "handle_return_write c w2 r (add_written r st) = Inr (error, c1, w3, st')" "same_buffers c c1" "sent_stat c1 = sent_stat c"
        "error \<noteq> 0" "error = EINTR \<and> error_code c1 = 0 \<or> error_code c1 = error \<and> bytes_written_before_interrupt c1 = m"
        "write_size st' = m" "buf_size st' = length data" "sent_bytes w3 = sent_bytes w2" "rx_queue w3 = rx_queue w2" "stop_flags w3 = stop_flags w2" "tx_queue w3 = tx_queue w2"
      unfolding m(1,4) by blast
    show ?thesis
    proof (cases "error_code c1 = 0")
      case e0: False
      then have "write_loop (t # ts) c w data st = Inr (error, (c1, w3))" using eq h(1,4) by simp
      moreover have "m < length data" using m(3) False by simp
      ultimately show ?thesis using h e0 m t(2) by (auto simp: write_post_def w2_def)
    next
      case e0: True
      then have "error = EINTR" using h(4,5) by auto
      then have eq2: "write_loop (t # ts) c w data st = write_loop ts c1 w3 data (st'\<lparr>loop_count := loop_count st' + 1\<rparr>)"
        using eq h(1,4) e0 by simp
      have "ranges_ok c1" using Cons.prems(1) h(3) by (simp add: ranges_ok_def sent_stat_def)
      from Cons.IH [OF this _ _ t(2), of "st'\<lparr>loop_count := loop_count st' + 1\<rparr>" w3] h(6,7) m(3) obtain rc c' w' where
        r: "write_loop ts c1 w3 data (st'\<lparr>loop_count := loop_count st' + 1\<rparr>) = Inr (rc, (c', w'))" "write_post c1 w3 data m rc c' w'" "tx_ok (tx_queue w')" by auto
      have "write_post c w data ?n rc c' w'"
        using r(2) h(2,3,8,9,10) m(2,3,5,6,7) same_buffers_trans [OF h(2), of c'] by (auto simp: write_post_def drop_take_join)
      then show ?thesis using eq2 r(1,3) by auto
    qed
  qed
qed


section \<open>Reading: lemmas\<close>

text \<open>The bytes that arrive before the end of the stream or an error other than an interrupted call.\<close>

fun stream :: "rx list \<Rightarrow> char list" where
  "stream [] = []"
| "stream (Quiet # rs) = stream rs"
| "stream (Data bs # rs) = bs @ stream rs"
| "stream (Eof # rs) = []"
| "stream (RxErr e # rs) = (if e = EINTR then stream rs else [])"

lemma recv_stream:
  assumes "stream rs \<noteq> []" and "0 < n"
  shows "\<exists>r rs'. recv rs n = Inr (r, rs') \<and> (r = IoErr EINTR \<and> stream rs' = stream rs \<or>
    (\<exists>bs. r = Got bs \<and> bs \<noteq> [] \<and> length bs \<le> n \<and> bs @ stream rs' = stream rs))"
  using assms
proof (induction rs n rule: recv.induct)
  case (4 bs rs n)
  show ?case
  proof (cases "bs = []")
    case False
    let ?rs = "if length bs \<le> Suc n then rs else Data (drop (Suc n) bs) # rs"
    have "recv (Data bs # rs) (Suc n) = Inr (Got (take (Suc n) bs), ?rs)" using False by simp
    moreover have "take (Suc n) bs \<noteq> []" "length (take (Suc n) bs) \<le> Suc n" "take (Suc n) bs @ stream ?rs = stream (Data bs # rs)"
      using False by simp_all
    ultimately show ?thesis by blast
  qed (use 4 in simp)
qed (auto split: if_splits)

lemma rec_range_le: "rec_range k i l n \<le> i + k"
proof (induction k arbitrary: i l)
  case (Suc k)
  from Suc.IH [of "i + 1" "2 * l"] show ?case by simp
qed simp

lemma count_received_ok:
  assumes "ranges_ok c"
  shows "\<exists>c'. count_received c n = Inr c' \<and> same_buffers c c' \<and> ranges_ok c' \<and> error_code c' = 0"
proof -
  from rec_range_le [of 15 0 32 n] have "16 + rec_range 15 0 32 n < length (buf_ranges (conn_stat c))" using assms by (simp add: ranges_ok_def)
  then show ?thesis using assms by (simp add: count_received_def Let_def upd_stat_def same_buffers_def ranges_ok_def)
qed

lemma read_loop_stream:
  assumes "ranges_ok c" and "stream (rx_queue w) \<noteq> []" and "0 < n"
  shows "\<exists>bs c' rs. read_loop c w n = Inr (Inr bs, (c', w\<lparr>rx_queue := rs\<rparr>)) \<and> same_buffers c c' \<and> ranges_ok c' \<and> bs \<noteq> [] \<and>
    length bs \<le> n \<and> bs @ stream rs = stream (rx_queue w)"
  using assms
proof (induction c w n rule: read_loop.induct)
  case (1 c w n)
  from recv_stream [OF "1.prems"(2,3)] obtain r rs where r: "recv (rx_queue w) n = Inr (r, rs)"
    "r = IoErr EINTR \<and> stream rs = stream (rx_queue w) \<or>
    (\<exists>bs. r = Got bs \<and> bs \<noteq> [] \<and> length bs \<le> n \<and> bs @ stream rs = stream (rx_queue w))" by blast
  show ?case
  proof (cases "r = IoErr EINTR")
    case True
    then have eq: "read_loop c w n = read_loop c (w\<lparr>rx_queue := rs\<rparr>) n" using r(1) by (simp add: read_loop.simps [of c w] Let_def)
    have st: "stream rs = stream (rx_queue w)" using r(2) True by auto
    from "1.IH" [OF r(1) refl refl True refl "1.prems"(1)] st "1.prems"(2,3) show ?thesis unfolding eq by simp
  next
    case False
    then obtain bs where bs: "r = Got bs" "bs \<noteq> []" "length bs \<le> n" "bs @ stream rs = stream (rx_queue w)" using r(2) by auto
    from count_received_ok [OF "1.prems"(1), of "length bs"] obtain c' where
      "count_received c (length bs) = Inr c'" "same_buffers c c'" "ranges_ok c'" by blast
    then show ?thesis using r(1) bs
      by (intro exI [of _ bs] exI [of _ c'] exI [of _ rs]) (simp add: read_loop.simps [of c w] Let_def)
  qed
qed

section \<open>Properties\<close>

text \<open>
  C13. A write delivers its data in order. However the kernel splits it, with interrupted calls, short
  writes and elapsed time in between, the call ends: either it returns 0, the whole buffer has been
  sent and is counted, or it returns an error, which is also the connection's error code, and exactly the
  first \<open>bytes_written_before_interrupt\<close> bytes have been sent. Nothing else of the connection changes.
\<close>

theorem write_socket_connection_spec:
  assumes "ranges_ok c" and "tx_ok (tx_queue w)"
  shows "\<exists>rc c' w'. write_socket_connection (c, w) data secs = Inr (rc, (c', w')) \<and> same_buffers c c' \<and> error_code c' = rc \<and>
    (rc = 0 \<and> sent_bytes w' = sent_bytes w @ data \<and> num_sent_bytes (conn_stat c') = num_sent_bytes (conn_stat c) + of_nat (length data) \<or>
     rc \<noteq> 0 \<and> bytes_written_before_interrupt c' < length data \<and>
       sent_bytes w' = sent_bytes w @ take (bytes_written_before_interrupt c') data)"
proof -
  have i: "write_size (send_state_init (length data) secs) = 0" "buf_size (send_state_init (length data) secs) = length data"
    by (simp_all add: send_state_init_def)
  from write_loop_ok [OF assms(1) _ i(2) assms(2), of w] i(1) obtain rc c' w' where
    r: "write_socket_connection (c, w) data secs = Inr (rc, (c', w'))" "write_post c w data 0 rc c' w'"
    by (auto simp: write_socket_connection_def)
  then show ?thesis by (auto simp: write_post_def sent_stat_def count_sent_def)
qed

text \<open>A new connection, and a network on which one write is split, interrupted and delayed.\<close>

definition some_conn :: ic_int_connection where
  "some_conn = zero_conn\<lparr>read_buf := Some (replicate 16 NULL_BYTE), read_buf_size := 16,
     write_buf := Some (replicate 16 NULL_BYTE), write_buf_size := 16, rec_wait_ms := 10000\<rparr>"

definition some_net :: "tx list \<Rightarrow> rx list \<Rightarrow> net" where
  "some_net ts rs = \<lparr>rx_queue = rs, tx_queue = ts, stop_flags = [], elapsed_ms = [], sent_bytes = [], send_timers = 0\<rparr>"

lemma some_conn_ok: "ranges_ok some_conn"
  by (simp add: ranges_ok_def some_conn_def zero_conn_def stat_init_def)

theorem write_socket_connection_spec_witness:
  "\<exists>rc c' w'. write_socket_connection (some_conn, some_net [Accept 2, TxErr EINTR, Accept 0, TxErr 104] []) ''hello'' 1 = Inr (rc, (c', w')) \<and>
     error_code c' = rc \<and> (rc = 0 \<and> sent_bytes w' = ''hello'' \<or> rc \<noteq> 0 \<and> sent_bytes w' = take (bytes_written_before_interrupt c') ''hello'')"
  using write_socket_connection_spec [OF some_conn_ok, of "some_net [Accept 2, TxErr EINTR, Accept 0, TxErr 104] []" "''hello''" 1]
  by (auto simp: some_net_def tx_ok_def EINTR_def)

text \<open>
  The size statistics of writes are wrong: \<^verbatim>\<open>handle_return_write\<close> takes the index from
  \<open>ic_count_highest_bit\<close>, which is 32 for every size, and so every completed write of any size counts one
  in element 26 of the 16 elements of \<^verbatim>\<open>num_sent_buf_range\<close>, that is in \<^verbatim>\<open>num_rec_buf_range[10]\<close>; the
  16 counters of sent sizes never change.
\<close>

theorem sent_sizes_counted_as_received:
  assumes "ranges_ok c" and "tx_ok (tx_queue w)" and "write_socket_connection (c, w) data secs = Inr (0, (c', w'))"
  shows "take 16 (buf_ranges (conn_stat c')) = take 16 (buf_ranges (conn_stat c)) \<and>
    drop 16 (buf_ranges (conn_stat c')) = (drop 16 (buf_ranges (conn_stat c)))[10 := drop 16 (buf_ranges (conn_stat c)) ! 10 + 1]"
proof -
  have i: "write_size (send_state_init (length data) secs) = 0" "buf_size (send_state_init (length data) secs) = length data"
    by (simp_all add: send_state_init_def)
  from write_loop_ok [OF assms(1) _ i(2) assms(2), of w] i(1) assms(3)
  have "write_post c w data 0 0 c' w'" by (auto simp: write_socket_connection_def)
  then have "buf_ranges (conn_stat c') = (buf_ranges (conn_stat c))[26 := buf_ranges (conn_stat c) ! 26 + 1]"
    by (auto simp: write_post_def sent_stat_def count_sent_def)
  then show ?thesis using assms(1) by (simp add: ranges_ok_def drop_update_swap)
qed

theorem sent_sizes_counted_as_received_witness:
  "\<exists>c' w'. write_socket_connection (some_conn, some_net [] []) ''hello'' 1 = Inr (0, (c', w')) \<and>
     take 16 (buf_ranges (conn_stat c')) = replicate 16 0 \<and> drop 16 (buf_ranges (conn_stat c')) = (replicate 16 0)[10 := 1]"
proof -
  from write_loop_ok [OF some_conn_ok, of "send_state_init (length ''hello'') 1" "''hello''" "[]" "some_net [] []"] obtain c' w' where
    r: "write_socket_connection (some_conn, some_net [] []) ''hello'' 1 = Inr (0, (c', w'))"
    by (auto simp: write_socket_connection_def send_state_init_def tx_ok_def some_net_def)
  have "tx_ok (tx_queue (some_net [] []))" by (simp add: some_net_def tx_ok_def)
  from sent_sizes_counted_as_received [OF some_conn_ok this r] r show ?thesis
    by (auto simp: some_conn_def zero_conn_def stat_init_def)
qed

text \<open>
  A vector write survives a short write only inside its first vector: if the first \<^verbatim>\<open>sendmsg\<close> accepts
  fewer bytes than the first of two vectors has, all bytes are sent in order and 0 is returned; if it
  accepts the first vector and less than everything, the position of the next \<^verbatim>\<open>sendmsg\<close> is computed with
  the full count again, bytes of the second vector are skipped, and the loop runs into the array elements
  that were never set.
\<close>

theorem send_msg_short_write:
  assumes "ranges_ok c" and "u \<noteq> []"
  shows "(k < length u \<longrightarrow> (\<exists>c' w'. send_msg (c, w\<lparr>tx_queue := [Accept k]\<rparr>) [u, v] (length u + length v) secs = Inr (0, (c', w')) \<and>
            sent_bytes w' = sent_bytes w @ u @ v)) \<and>
    (length u \<le> k \<and> k < length u + length v \<longrightarrow>
       send_msg (c, w\<lparr>tx_queue := [Accept k]\<rparr>) [u, v] (length u + length v) secs = Inl UninitRead)"
proof (intro conjI impI)
  let ?n = "length u + length v"
  let ?st = "\<lambda>m. \<lparr>time_measure = True, next_sec_check = 1000, secs_count = 0, secs_to_try = secs, write_size = m, loop_count = 1, buf_size = ?n\<rparr>"
  let ?w = "w\<lparr>sent_bytes := sent_bytes w @ take k (u @ v), tx_queue := [], send_timers := send_timers w + 1\<rparr>"
  have hw: "handle_return_write c (w\<lparr>sent_bytes := sent_bytes w @ take k (u @ v), tx_queue := []\<rparr>) (Inr k)
      (add_written (Inr k) (send_state_init ?n secs)) = Inr (EINTR, c\<lparr>error_code := 0\<rparr>, ?w, (?st k)\<lparr>loop_count := 0\<rparr>)" if "k < ?n"
    using that by (simp add: handle_return_write_def add_written_def send_state_init_def Let_def)
  have first: "send_msg (c, w\<lparr>tx_queue := [Accept k]\<rparr>) [u, v] ?n secs =
      c_bind (next_iovec (Inr k) (add_written (Inr k) (send_state_init ?n secs)) [u, v] 0) (\<lambda>(vecs, i).
        send_msg_loop [] (c\<lparr>error_code := 0\<rparr>) ?w vecs i (?st k))" if "k < ?n"
    using hw [OF that] that
    by (simp add: send_msg_def IC_MAX_SEND_BUFFERS_def send_one_def Let_def min_def EINTR_def split: prod.splits cong: if_cong)
  {
    assume k: "k < length u"
    have nx: "next_iovec (Inr k) (add_written (Inr k) (send_state_init ?n secs)) [u, v] 0 = Inr ([drop k u, v], 0)"
      using k by (simp add: next_iovec_def add_written_def send_state_init_def advance_iovec.simps)
    let ?w2 = "?w\<lparr>sent_bytes := sent_bytes w @ take k (u @ v) @ drop k u @ v, tx_queue := []\<rparr>"
    have d: "write_size (?st ?n) = buf_size (?st ?n)" and rk: "ranges_ok (c\<lparr>error_code := 0\<rparr>)" using assms(1) by (simp_all add: ranges_ok_def)
    from handle_return_write_done [OF rk d, of ?w2 "Inr (?n - k)"] obtain c' w' where
      h: "handle_return_write (c\<lparr>error_code := 0\<rparr>) ?w2 (Inr (?n - k)) (?st ?n) = Inr (0, c', w', ?st ?n)" "w' = ?w2\<lparr>send_timers := send_timers w'\<rparr>" by blast
    have "send_msg_loop [] (c\<lparr>error_code := 0\<rparr>) ?w [drop k u, v] 0 (?st k) = Inr (0, (c', w'))"
      using k h(1) by (simp add: send_one_def Let_def add_written_def next_iovec_def)
    moreover have "sent_bytes w' = sent_bytes w @ u @ v"
    proof -
      have "sent_bytes w' = sent_bytes w @ take k u @ drop k u @ v" using arg_cong [OF h(2), of sent_bytes] k by simp
      also have "take k u @ drop k u @ v = u @ v" by (simp only: append.assoc [symmetric] append_take_drop_id)
      finally show ?thesis .
    qed
    ultimately show "\<exists>c' w'. send_msg (c, w\<lparr>tx_queue := [Accept k]\<rparr>) [u, v] ?n secs = Inr (0, (c', w')) \<and> sent_bytes w' = sent_bytes w @ u @ v"
      using first nx k by auto
  next
    assume k: "length u \<le> k \<and> k < ?n"
    have k0: "0 < k" using k assms(2) by (cases u) auto
    show "send_msg (c, w\<lparr>tx_queue := [Accept k]\<rparr>) [u, v] ?n secs = Inl UninitRead"
    proof (cases "k < length v")
      case False
      then have "next_iovec (Inr k) (add_written (Inr k) (send_state_init ?n secs)) [u, v] 0 = Inl UninitRead"
        using k k0 by (simp add: next_iovec_def add_written_def send_state_init_def advance_iovec.simps)
      then show ?thesis using first k by simp
    next
      case True
      have nx: "next_iovec (Inr k) (add_written (Inr k) (send_state_init ?n secs)) [u, v] 0 = Inr ([u, drop k v], 1)"
        using k k0 True by (simp add: next_iovec_def add_written_def send_state_init_def advance_iovec.simps)
      have "0 < length u" using assms(2) by simp
      then have "next_iovec (Inr (length v - k)) (?st (k + (length v - k))) [u, drop k v] 1 = Inl UninitRead"
        using k True by (simp add: next_iovec_def advance_iovec.simps)
      then have "send_msg_loop [] (c\<lparr>error_code := 0\<rparr>) ?w [u, drop k v] 1 (?st k) = Inl UninitRead"
        by (simp add: send_one_def Let_def add_written_def)
      then show ?thesis using first nx k by simp
    qed
  }
qed

theorem send_msg_short_write_witness:
  "send_msg (some_conn, (some_net [] [])\<lparr>tx_queue := [Accept 4]\<rparr>) [''ab'', ''cdefg''] 7 1 = Inl UninitRead"
  using send_msg_short_write [OF some_conn_ok, of "''ab''" 4 "some_net [] []" "''cdefg''" 1] by (simp add: eval_nat_numeral)

lemma create_free_ok:
  "\<exists>oc r' as'. ic_create_socket_object as r client mutex connect_thread rbs = Inr (oc, r', as') \<and>
     (case oc of None \<Rightarrow> r' = r \<and> as \<noteq> []
      | Some c \<Rightarrow> (as = [] \<longrightarrow> as' = []) \<and> free_socket_connection (Some c) r' = Inr r \<and> read_buf_pos c = 0 \<and> size_curr_read_buf c = 0 \<and> write_buf_pos c = 0 \<and>
          (rbs \<noteq> 0 \<longrightarrow> read_buf c = Some (replicate rbs NULL_BYTE) \<and> write_buf c = Some (replicate rbs NULL_BYTE)))"
proof -
  obtain o1 a1 o2 a2 o3 a3 where a: "alloc_next as = (o1, a1)" "alloc_next a1 = (o2, a2)" "alloc_next a2 = (o3, a3)"
    by (metis surj_pair)
  obtain o4 a4 o5 a5 o6 a6 where b: "alloc_next a3 = (o4, a4)" "alloc_next a4 = (o5, a5)" "alloc_next a5 = (o6, a6)"
    by (metis surj_pair)
  have n: "as = [] \<longrightarrow> o1 \<and> o2 \<and> o3 \<and> o4 \<and> o5 \<and> o6" using a b by auto
  note d = ic_create_socket_object_def int_create_socket_object_def calloc_block_def create_mutexes_def create_timers_def destroy_mutexes_def
    free_blocks_def bufs_of_def init_connect_stat_def free_socket_connection_def close_socket_connection_def destroy_timers_def zero_conn_def Let_def
  show ?thesis
  proof (cases "rbs = 0")
    case True
    then show ?thesis using a b n by (auto simp: d)
  qed (use a b n in \<open>auto simp: d\<close>)
qed



end
