(* ===== verification/IC_Protocol.thy ===== *)
theory IC_Protocol
  imports IC_Connection IC_String
begin

text \<open>
  \<^verbatim>\<open>src/comm/ic_protocol_support.c\<close>: the line protocol of the iClaustron processes. A line is a sequence
  of characters ended by the character \<^verbatim>\<open>CARRIAGE_RETURN\<close> (10). Lines are collected in the write buffer
  of the connection and sent when it is full or flushed; they are taken out of the read buffer, which is
  filled from the connection.

  The strings the protocol prescribes are given without their null byte. The text read from a line is
  the start of the read buffer of the connection. \<^verbatim>\<open>g_ascii_strtoull\<close> is the argument \<open>strtoull\<close>, as in
  \<open>IC_String\<close>.

  Results: for any segmentation of the stream \<^verbatim>\<open>ic_rec_with_cr\<close> returns its lines one after the other; what
  one side sends with the send functions the other side receives with the corresponding receive
  functions; and the points where the code does not do what its comments say.
\<close>

section \<open>Strings of the protocol\<close>

definition ic_ok_str :: "char list" where "ic_ok_str = ''Ok''"
definition ic_error_str :: "char list" where "ic_error_str = ''Error''"
definition ic_true_str :: "char list" where "ic_true_str = ''true''"
definition ic_false_str :: "char list" where "ic_false_str = ''false''"
definition ic_empty_string :: "char list" where "ic_empty_string = ''''"


definition CONFIG_READ_BUF_SIZE :: nat where "CONFIG_READ_BUF_SIZE = 256"
definition COMMAND_READ_BUF_SIZE :: nat where "COMMAND_READ_BUF_SIZE = 2048"

section \<open>Checks of a line\<close>

text \<open>\<open>True\<close> is the result \<^verbatim>\<open>TRUE\<close>, that is no match.\<close>

definition ic_check_buf :: "char list \<Rightarrow> nat \<Rightarrow> char list \<Rightarrow> fault + bool" where
  "ic_check_buf rb read_size s =
     (if read_size \<noteq> length s then Inr True else c_bind (rd_blk rb 0 (length s)) (\<lambda>b. Inr (b \<noteq> s)))"

text \<open>
  The beginning of most checks: the line has the prefix and at least one more character. The result is
  the index behind the prefix and one space.
\<close>

definition skip_prefix :: "char list \<Rightarrow> nat \<Rightarrow> char list \<Rightarrow> fault + nat option" where
  "skip_prefix rb read_size s =
     (if read_size < length s + 1 then Inr None
      else c_bind (rd_blk rb 0 (length s)) (\<lambda>b.
        if b \<noteq> s then Inr None
        else c_bind (rd rb (length s)) (\<lambda>ch. Inr (Some (if ch = SPACE_CHAR then length s + 1 else length s)))))"

fun many_int_loop ::
  "(char list \<Rightarrow> guint64 \<times> nat) \<Rightarrow> char list \<Rightarrow> nat \<Rightarrow> nat \<Rightarrow> nat \<Rightarrow> guint64 option list \<Rightarrow> fault + (bool \<times> guint64 option list)"
where
  "many_int_loop strtoull rb endp 0 ptr number = Inr (False, number)"
| "many_int_loop strtoull rb endp (Suc k) ptr number =
     c_bind (ic_count_characters (drop ptr rb) (of_nat endp - of_nat ptr)) (\<lambda>num_chars.
     if endp \<le> ptr + unat num_chars then Inr (True, number)
     else c_bind (ic_convert_str_to_int_fixed_size strtoull (drop ptr rb) num_chars) (\<lambda>(bad, n).
       let number = number @ [n] in
       if bad then Inr (True, number)
       else let ptr = ptr + unat num_chars in
         c_bind (rd rb ptr) (\<lambda>ch.
           if ch = SPACE_CHAR then many_int_loop strtoull rb endp k (ptr + 1) number
           else if ch \<noteq> CHR 0x0A \<or> k \<noteq> 0 then Inr (True, number)
           else many_int_loop strtoull rb endp k ptr number)))"

text \<open>The numbers are those stored so far.\<close>

definition ic_check_buf_with_many_int ::
  "(char list \<Rightarrow> guint64 \<times> nat) \<Rightarrow> char list \<Rightarrow> nat \<Rightarrow> char list \<Rightarrow> nat \<Rightarrow> fault + (bool \<times> guint64 option list)"
where
  "ic_check_buf_with_many_int strtoull rb read_size s num_elements =
     c_bind (if read_size < length s then Inr True else c_bind (rd_blk rb 0 (length s)) (\<lambda>b. Inr (b = s))) (\<lambda>go.
       if \<not> go then Inr (False, [])
       else c_bind (rd rb (length s)) (\<lambda>ch.
         many_int_loop strtoull rb read_size num_elements (if ch = SPACE_CHAR then length s + 1 else length s) []))"

definition ic_check_buf_with_signed_int ::
  "(char list \<Rightarrow> guint64 \<times> nat) \<Rightarrow> char list \<Rightarrow> nat \<Rightarrow> char list \<Rightarrow> fault + (bool \<times> guint64 option \<times> bool)"
where
  "ic_check_buf_with_signed_int strtoull rb read_size s =
     c_bind (skip_prefix rb read_size s) (\<lambda>r. case r of None \<Rightarrow> Inr (True, None, False)
       | Some i \<Rightarrow> c_bind (rd rb i) (\<lambda>ch. let i = (if ch = CHR ''-'' then i + 1 else i) in
           c_bind (ic_convert_str_to_int_fixed_size strtoull (drop i rb) (of_nat read_size - of_nat i)) (\<lambda>(bad, n).
             if bad then Inr (True, n, False)
             else c_bind (rd rb i) (\<lambda>ch. Inr (False, n, ch = CHR ''-'')))))"

definition ic_check_buf_with_int ::
  "(char list \<Rightarrow> guint64 \<times> nat) \<Rightarrow> char list \<Rightarrow> nat \<Rightarrow> char list \<Rightarrow> fault + (bool \<times> guint64 option)"
where
  "ic_check_buf_with_int strtoull rb read_size s =
     c_bind (skip_prefix rb read_size s) (\<lambda>r. case r of None \<Rightarrow> Inr (True, None)
       | Some i \<Rightarrow> ic_convert_str_to_int_fixed_size strtoull (drop i rb) (of_nat read_size - of_nat i))"

text \<open>The string refers to the read buffer: its start and its length.\<close>

definition ic_check_buf_with_string :: "char list \<Rightarrow> nat \<Rightarrow> char list \<Rightarrow> fault + (nat \<times> nat) option" where
  "ic_check_buf_with_string rb read_size s =
     c_bind (skip_prefix rb read_size s) (\<lambda>r. Inr (map_option (\<lambda>i. (i, read_size - i)) r))"

section \<open>Receiving\<close>

definition ic_step_back_rec_with_cr :: "conn \<Rightarrow> nat \<Rightarrow> fault + conn" where
  "ic_step_back_rec_with_cr = (\<lambda>(c, w) read_size.
     if read_buf_pos c < read_size + 1 then Inl Wraparound else Inr (c\<lparr>read_buf_pos := read_buf_pos c - (read_size + 1)\<rparr>, w))"

lemma read_loop_got: "read_loop c w n = Inr (Inr bs, s) \<Longrightarrow> bs \<noteq> [] \<and> length bs \<le> n"
proof (induction c w n rule: read_loop.induct)
  case (1 c w n)
  have got: "recv rs n = Inr (Got bs, rs') \<Longrightarrow> bs \<noteq> [] \<and> length bs \<le> n" for rs rs'
    by (induction rs n rule: recv.induct) (auto split: if_splits)
  from "1.prems" obtain r rs where r: "recv (rx_queue w) n = Inr (r, rs)"
    by (subst (asm) read_loop.simps) (auto simp: c_bind_Inr_iff)
  show ?case
  proof (cases r)
    case (Got bs')
    then show ?thesis using "1.prems" r got by (subst (asm) read_loop.simps) (auto simp: c_bind_Inr_iff Let_def)
  next
    case Closed
    then show ?thesis using "1.prems" r by (subst (asm) read_loop.simps) (simp add: Let_def)
  next
    case (IoErr e)
    then show ?thesis using "1.prems" r "1.IH" [OF r refl refl IoErr]
      by (subst (asm) read_loop.simps) (auto simp: Let_def split: if_splits)
  qed
qed

text \<open>
  The loop: \<open>rb\<close> is the read buffer and \<open>n\<close> the number of characters in it. The result is an error
  or the size of the line at the beginning of the buffer. After an error the connection keeps its
  old \<^verbatim>\<open>size_curr_read_buf\<close>.
\<close>

function rec_with_cr_loop :: "ic_int_connection \<Rightarrow> net \<Rightarrow> nat \<Rightarrow> char list \<Rightarrow> nat \<Rightarrow> fault + ((err + nat) \<times> conn)" where
  "rec_with_cr_loop c w buffer_size rb n =
     c_bind (rd_blk rb 0 n) (\<lambda>text. let inx = length (takeWhile (\<lambda>ch. ch \<noteq> CARRIAGE_RETURN) text) in
     if inx \<noteq> n
     then Inr (Inr inx, (c\<lparr>read_buf := Some rb, size_curr_read_buf := n, read_buf_pos := inx + 1\<rparr>, w))
     else if buffer_size < n then Inl Wraparound
     else let c = c\<lparr>read_buf := Some rb\<rparr>; size_to_read = buffer_size - n in
       c_bind (check_for_data_on_connection (c, w)) (\<lambda>(ready, (c, w)).
       if \<not> ready then Inr (Inl IC_ERROR_RECEIVE_TIMEOUT, (c, w))
       else c_bind (read_socket_connection (c, w) size_to_read) (\<lambda>(r, (c, w)). case r of
           Inl e \<Rightarrow> Inr (Inl e, (c, w))
         | Inr bs \<Rightarrow> c_bind (wr_blk rb n bs) (\<lambda>rb. rec_with_cr_loop c w buffer_size rb (n + length bs)))))"
  by pat_completeness auto

termination rec_with_cr_loop
  by (relation "measure (\<lambda>(c, w, b, rb, n). b - n)")
    (auto simp: read_socket_connection_def simp flip: length_greater_0_conv dest!: read_loop_got)

declare rec_with_cr_loop.simps [simp del]

definition ic_rec_with_cr :: "conn \<Rightarrow> fault + ((err + nat) \<times> conn)" where
  "ic_rec_with_cr = (\<lambda>(c, w). case read_buf c of None \<Rightarrow> Inl NullDeref
     | Some rb \<Rightarrow>
         if 0 < size_curr_read_buf c
         then if size_curr_read_buf c < read_buf_pos c then Inl Wraparound
              else let n = size_curr_read_buf c - read_buf_pos c in
                c_bind (rd_blk rb (read_buf_pos c) n) (\<lambda>moved.
                  rec_with_cr_loop (c\<lparr>read_buf_pos := 0\<rparr>) w (read_buf_size c) (moved @ drop n rb) n)
         else rec_with_cr_loop c w (read_buf_size c) rb 0)"

definition line_buf :: "conn \<Rightarrow> char list" where
  "line_buf s = (case read_buf (fst s) of None \<Rightarrow> [] | Some rb \<Rightarrow> rb)"

text \<open>Receive a line and go on with its size, or return the error.\<close>

definition with_line :: "conn \<Rightarrow> (nat \<Rightarrow> conn \<Rightarrow> fault + (err \<times> 'a \<times> conn)) \<Rightarrow> 'a \<Rightarrow> fault + (err \<times> 'a \<times> conn)" where
  "with_line s k d = c_bind (ic_rec_with_cr s) (\<lambda>(r, s). case r of Inl e \<Rightarrow> Inr (e, d, s) | Inr n \<Rightarrow> k n s)"


text \<open>The string in memory the allocator \<open>al\<close> of the memory container hands out, zeroed.\<close>

definition mc_rec_string_impl ::
  "'h allocator \<Rightarrow> 'h \<Rightarrow> char list \<Rightarrow> char list \<Rightarrow> nat \<Rightarrow> fault + (err \<times> ic_string option \<times> 'h)"
where
  "mc_rec_string_impl al h prefix_str rb read_size =
     c_require (prefix_str \<noteq> [])
      (c_bind (skip_prefix rb read_size prefix_str) (\<lambda>r. case r of
         None \<Rightarrow> Inr (IC_PROTOCOL_ERROR, None, h)
       | Some i \<Rightarrow> let n = read_size - i in
           c_bind (al h (of_nat (n + 1))) (\<lambda>(p, h). case p of
               None \<Rightarrow> Inr (IC_ERROR_MEM_ALLOC, None, h)
             | Some (q, d) \<Rightarrow> let d = replicate (length d) NULL_BYTE in
                 c_bind (rd_blk rb i n) (\<lambda>bs. c_bind (wr_blk d 0 bs) (\<lambda>d.
                   Inr (0, Some (IC_INIT_STRING (Some (q, d)) (of_nat n) True), h))))))"

definition ic_mc_rec_string ::
  "'h allocator \<Rightarrow> 'h \<Rightarrow> conn \<Rightarrow> char list \<Rightarrow> fault + (err \<times> (ic_string option \<times> 'h) \<times> conn)"
where
  "ic_mc_rec_string al h s prefix_str =
     with_line s (\<lambda>n s. c_bind (mc_rec_string_impl al h prefix_str (line_buf s) n) (\<lambda>(rc, r, h). Inr (rc, (r, h), s))) (None, h)"

definition ic_mc_rec_opt_string ::
  "'h allocator \<Rightarrow> 'h \<Rightarrow> conn \<Rightarrow> char list \<Rightarrow> fault + (err \<times> (ic_string option \<times> 'h) \<times> conn)"
where
  "ic_mc_rec_opt_string al h s prefix_str =
     with_line s (\<lambda>n s.
       if n = 0 then c_bind (ic_step_back_rec_with_cr s n) (\<lambda>s. Inr (0, (Some (IC_INIT_STRING None 0 False), h), s))
       else c_bind (mc_rec_string_impl al h prefix_str (line_buf s) n) (\<lambda>(rc, r, h). Inr (rc, (r, h), s))) (None, h)"

text \<open>\<open>out\<close> is the caller's buffer.\<close>

definition ic_rec_string :: "conn \<Rightarrow> char list \<Rightarrow> char list \<Rightarrow> fault + (err \<times> char list \<times> conn)" where
  "ic_rec_string s prefix_str out =
     with_line s (\<lambda>n s. c_bind (skip_prefix (line_buf s) n prefix_str) (\<lambda>r. case r of
         None \<Rightarrow> Inr (IC_PROTOCOL_ERROR, out, s)
       | Some i \<Rightarrow> c_bind (rd_blk (line_buf s) i (n - i)) (\<lambda>bs.
           c_bind (wr_blk out 0 bs) (\<lambda>out. c_bind (wr out (n - i) NULL_BYTE) (\<lambda>out. Inr (0, out, s)))))) out"

text \<open>\<open>junk\<close> is the content of the uninitialised local buffer.\<close>

definition ic_rec_two_strings :: "char list \<Rightarrow> conn \<Rightarrow> char list \<Rightarrow> char list \<Rightarrow> fault + (err \<times> conn)" where
  "ic_rec_two_strings junk s first_str second_str =
     c_bind (ic_rec_string s first_str junk) (\<lambda>(rc, b, s).
       if rc \<noteq> 0 then Inr (rc, s)
       else c_bind (rd_blk b 0 (length second_str)) (\<lambda>bs.
         if bs \<noteq> second_str then Inr (IC_PROTOCOL_ERROR, s) else Inr (0, s)))"

text \<open>The flag is \<^verbatim>\<open>optional_and_found\<close>.\<close>

definition ic_rec_simple_str_impl :: "conn \<Rightarrow> char list \<Rightarrow> bool \<Rightarrow> fault + (err \<times> bool \<times> conn)" where
  "ic_rec_simple_str_impl s st optional =
     with_line s (\<lambda>n s. c_bind (ic_check_buf (line_buf s) n st) (\<lambda>differs.
       if differs
       then c_bind (ic_step_back_rec_with_cr s n) (\<lambda>s. if \<not> optional then Inr (IC_PROTOCOL_ERROR, optional, s) else Inr (0, False, s))
       else Inr (0, True, s))) False"

definition ic_rec_simple_str :: "conn \<Rightarrow> char list \<Rightarrow> fault + (err \<times> conn)" where
  "ic_rec_simple_str s st = c_bind (ic_rec_simple_str_impl s st False) (\<lambda>(rc, f, s). Inr (rc, s))"

definition ic_rec_simple_str_opt :: "conn \<Rightarrow> char list \<Rightarrow> fault + (err \<times> bool \<times> conn)" where
  "ic_rec_simple_str_opt s st = ic_rec_simple_str_impl s st True"

text \<open>The numbers below are \<open>None\<close> where the variable of the caller keeps its value.\<close>

definition ic_rec_number_impl ::
  "(char list \<Rightarrow> guint64 \<times> nat) \<Rightarrow> conn \<Rightarrow> char list \<Rightarrow> bool \<Rightarrow> fault + (err \<times> guint32 option \<times> conn)"
where
  "ic_rec_number_impl strtoull s st optional =
     with_line s (\<lambda>n s. c_bind (ic_check_buf_with_int strtoull (line_buf s) n st) (\<lambda>(bad, v).
       if \<not> bad
       then case v of None \<Rightarrow> Inl UninitRead
            | Some local_id \<Rightarrow> if local_id \<ge> ucast IC_MAX_UINT32 then Inr (IC_PROTOCOL_ERROR, None, s) else Inr (0, Some (ucast local_id), s)
       else if \<not> optional then Inr (IC_PROTOCOL_ERROR, None, s)
       else c_bind (ic_step_back_rec_with_cr s n) (\<lambda>s. Inr (0, None, s)))) None"

definition ic_rec_boolean :: "conn \<Rightarrow> char list \<Rightarrow> fault + (err \<times> bool option \<times> conn)" where
  "ic_rec_boolean s prefix_str =
     with_line s (\<lambda>n s. c_bind (skip_prefix (line_buf s) n prefix_str) (\<lambda>r. case r of
         None \<Rightarrow> Inr (IC_PROTOCOL_ERROR, None, s)
       | Some i \<Rightarrow> c_bind (rd_blk (line_buf s) i (n - i)) (\<lambda>b.
           if b = ic_true_str then Inr (0, Some True, s)
           else if b = ic_false_str then Inr (0, Some False, s)
           else Inr (IC_PROTOCOL_ERROR, None, s)))) None"

definition ic_rec_long_number ::
  "(char list \<Rightarrow> guint64 \<times> nat) \<Rightarrow> conn \<Rightarrow> char list \<Rightarrow> fault + (err \<times> guint64 option \<times> conn)"
where
  "ic_rec_long_number strtoull s prefix_str =
     with_line s (\<lambda>n s. c_bind (ic_check_buf_with_int strtoull (line_buf s) n prefix_str) (\<lambda>(bad, v).
       if \<not> bad then (case v of None \<Rightarrow> Inl UninitRead | Some local_id \<Rightarrow> Inr (0, Some local_id, s))
       else Inr (IC_PROTOCOL_ERROR, None, s))) None"

definition ic_rec_number ::
  "(char list \<Rightarrow> guint64 \<times> nat) \<Rightarrow> conn \<Rightarrow> char list \<Rightarrow> fault + (err \<times> guint32 option \<times> conn)"
where
  "ic_rec_number strtoull s prefix_str = ic_rec_number_impl strtoull s prefix_str False"

definition ic_rec_opt_number ::
  "(char list \<Rightarrow> guint64 \<times> nat) \<Rightarrow> conn \<Rightarrow> char list \<Rightarrow> fault + (err \<times> guint32 option \<times> conn)"
where
  "ic_rec_opt_number strtoull s st = ic_rec_number_impl strtoull s st True"

definition ic_rec_int_number ::
  "(char list \<Rightarrow> guint64 \<times> nat) \<Rightarrow> conn \<Rightarrow> char list \<Rightarrow> fault + (err \<times> int option \<times> conn)"
where
  "ic_rec_int_number strtoull s st =
     with_line s (\<lambda>n s. c_bind (ic_check_buf_with_signed_int strtoull (line_buf s) n st) (\<lambda>(bad, v, sign_flag).
       if bad then Inr (IC_PROTOCOL_ERROR, None, s)
       else case v of None \<Rightarrow> Inl UninitRead
         | Some local_number \<Rightarrow>
             if local_number \<ge> ucast IC_MAX_UINT32 then Inr (IC_PROTOCOL_ERROR, None, s)
             else let number = (ucast local_number :: guint32) in Inr (0, Some (sint (if sign_flag then - number else number)), s))) None"

definition ic_rec_empty_line :: "conn \<Rightarrow> fault + (err \<times> conn)" where
  "ic_rec_empty_line s = ic_rec_simple_str s ic_empty_string"

section \<open>Sending\<close>

text \<open>The text to send is a null-terminated object.\<close>

definition ic_send_with_cr :: "conn \<Rightarrow> char list \<Rightarrow> fault + (err \<times> conn)" where
  "ic_send_with_cr = (\<lambda>(c, w) send_buf. c_bind (c_strlen send_buf) (\<lambda>send_size.
     c_assert (send_size + 1 < write_buf_size c)
      (c_bind (if write_buf_size c < write_buf_pos c + send_size + 1
               then case write_buf c of None \<Rightarrow> Inl NullDeref
                    | Some b \<Rightarrow> c_bind (rd_blk b 0 (write_buf_pos c)) (\<lambda>data.
                        c_bind (write_socket_connection (c, w) data 1) (\<lambda>(rc, (c, w)). Inr (rc, (c\<lparr>write_buf_pos := 0\<rparr>, w))))
               else Inr (0, (c, w))) (\<lambda>(rc, (c, w)).
        if rc \<noteq> 0 then Inr (rc, (c, w))
        else case write_buf c of None \<Rightarrow> Inl NullDeref
          | Some b \<Rightarrow> c_bind (wr_blk b (write_buf_pos c) (take send_size send_buf)) (\<lambda>b.
              c_bind (wr b (write_buf_pos c + send_size) CARRIAGE_RETURN) (\<lambda>b.
                Inr (0, (c\<lparr>write_buf := Some b, write_buf_pos := write_buf_pos c + send_size + 1\<rparr>, w))))))))"

text \<open>\<^verbatim>\<open>g_snprintf\<close> cuts its output after 127 characters.\<close>

definition ic_send_with_cr_with_number :: "conn \<Rightarrow> char list \<Rightarrow> guint64 \<Rightarrow> fault + (err \<times> conn)" where
  "ic_send_with_cr_with_number s in_buf number =
     c_bind (ic_guint64_str number (replicate 64 NULL_BYTE)) (\<lambda>(b, _).
     c_bind (c_strlen b) (\<lambda>n.
     c_bind (c_strlen in_buf) (\<lambda>m.
       ic_send_with_cr s (take 127 (take m in_buf @ [SPACE_CHAR] @ take n b) @ [NULL_BYTE]))))"

fun composed_loop :: "char list \<Rightarrow> nat \<Rightarrow> char list list \<Rightarrow> fault + (char list \<times> nat)" where
  "composed_loop local_buf local_pos [] = Inr (local_buf, local_pos)"
| "composed_loop local_buf local_pos (b # bs) =
     c_bind (c_strlen b) (\<lambda>n.
     c_bind (wr_blk local_buf local_pos (take n b)) (\<lambda>local_buf.
     c_bind (wr local_buf (local_pos + n) SPACE_CHAR) (\<lambda>local_buf.
       composed_loop local_buf (local_pos + n + 1) bs)))"

definition ic_send_with_cr_composed :: "char list \<Rightarrow> conn \<Rightarrow> char list list \<Rightarrow> fault + (err \<times> conn)" where
  "ic_send_with_cr_composed junk s strs =
     c_bind (composed_loop junk 0 strs) (\<lambda>(local_buf, local_pos).
       if local_pos = 0 then Inl OutOfBounds
       else c_bind (wr local_buf (local_pos - 1) NULL_BYTE) (\<lambda>local_buf. ic_send_with_cr s local_buf))"

definition ic_send_with_cr_two_strings :: "char list \<Rightarrow> conn \<Rightarrow> char list \<Rightarrow> char list \<Rightarrow> fault + (err \<times> conn)" where
  "ic_send_with_cr_two_strings junk s buf1 buf2 = ic_send_with_cr_composed junk s [buf1, buf2]"

text \<open>One action after the other, as long as the return code is 0.\<close>

definition and_then :: "fault + (err \<times> conn) \<Rightarrow> (conn \<Rightarrow> fault + (err \<times> conn)) \<Rightarrow> fault + (err \<times> conn)" where
  "and_then m k = c_bind m (\<lambda>(rc, s). if rc \<noteq> 0 then Inr (rc, s) else k s)"

definition ic_send_empty_line :: "conn \<Rightarrow> fault + (err \<times> conn)" where
  "ic_send_empty_line s = and_then (ic_send_with_cr s (ic_empty_string @ [NULL_BYTE])) flush_connection"

definition ic_send_ok :: "conn \<Rightarrow> fault + (err \<times> conn)" where
  "ic_send_ok s = and_then (ic_send_with_cr s (ic_ok_str @ [NULL_BYTE])) ic_send_empty_line"

definition ic_send_error_message :: "conn \<Rightarrow> char list \<Rightarrow> fault + (err \<times> conn)" where
  "ic_send_error_message s error_message =
     and_then (ic_send_with_cr s (ic_error_str @ [NULL_BYTE])) (\<lambda>s.
     and_then (ic_send_with_cr s error_message) ic_send_empty_line)"

text \<open>
  \<^verbatim>\<open>ic_rec_error_message\<close> lets its own copy of the argument \<^verbatim>\<open>buf\<close> point to the line; the caller's
  buffer is not written. \<^verbatim>\<open>ic_rec_ok_or_error\<close> tests the address of its result variable, which is never
  null, so that the branch for an error message is never taken. Its results besides the return code are the
  flag and the first character of the caller's buffer.
\<close>

definition ic_rec_error_message :: "conn \<Rightarrow> fault + (err \<times> conn)" where
  "ic_rec_error_message s =
     and_then (ic_rec_simple_str s ic_error_str) (\<lambda>s.
     c_bind (ic_rec_with_cr s) (\<lambda>(r, s). case r of Inl e \<Rightarrow> Inr (e, s) | Inr _ \<Rightarrow> ic_rec_empty_line s))"

definition ic_rec_ok_or_error :: "conn \<Rightarrow> fault + (err \<times> (bool \<times> char) \<times> conn)" where
  "ic_rec_ok_or_error s =
     c_bind (ic_rec_simple_str_opt s ic_ok_str) (\<lambda>(rc, ok_found, s).
       if rc \<noteq> 0 then Inr (rc, (ok_found, NULL_BYTE), s)
       else c_bind (ic_rec_empty_line s) (\<lambda>(rc, s). Inr (rc, (ok_found, NULL_BYTE), s)))"


section \<open>Receiving: lemmas\<close>

text \<open>Data, the end or an error is always there in time.\<close>

definition steady :: "rx list \<Rightarrow> bool" where
  "steady rs \<longleftrightarrow> Quiet \<notin> set rs"

lemma steady_poll: "steady rs \<Longrightarrow> rs \<noteq> [] \<Longrightarrow> poll_rx rs t = Inr (True, rs)"
proof (cases rs)
  case (Cons r rs')
  assume "steady rs"
  then show ?thesis using Cons by (cases r) (auto simp: steady_def)
qed simp

lemma check_steady:
  "steady (rx_queue w) \<Longrightarrow> rx_queue w \<noteq> [] \<Longrightarrow> t \<noteq> 0 \<or> ready \<Longrightarrow>
   \<exists>f. check_for_data_loop w t ready = Inr (True, w\<lparr>stop_flags := f\<rparr>)"
proof (induction w t ready rule: check_for_data_loop.induct)
  case (1 w t ready)
  show ?case
  proof (cases "t = 0")
    case True
    then show ?thesis using "1.prems"(3) by (intro exI [of _ "stop_flags w"]) (simp add: check_for_data_loop.simps)
  next
    case False
    obtain b w1 where n: "next_stop w = (b, w1)" by (cases "next_stop w")
    then obtain f where w1: "w1 = w\<lparr>stop_flags := f\<rparr>" by (cases "stop_flags w") (auto simp: next_stop_def intro: that [of "stop_flags w"])
    have p: "poll_rx (rx_queue w1) (min t 1000) = Inr (True, rx_queue w)" using steady_poll "1.prems"(1,2) w1 by simp
    show ?thesis
    proof (cases b)
      case True
      then show ?thesis using False n w1 by (auto simp: check_for_data_loop.simps [of w])
    next
      case nb: False
      have eq: "check_for_data_loop w t ready = check_for_data_loop (w1\<lparr>rx_queue := rx_queue w\<rparr>) (t - min t 1000) True"
        using False n nb p by (simp add: check_for_data_loop.simps [of w] Let_def)
      from "1.IH" [OF False n [symmetric] nb refl p refl] "1.prems"(1,2) obtain g where
        "check_for_data_loop (w1\<lparr>rx_queue := rx_queue w\<rparr>) (t - min t 1000) True = Inr (True, w1\<lparr>rx_queue := rx_queue w, stop_flags := g\<rparr>)" by auto
      then show ?thesis using eq w1 by auto
    qed
  qed
qed

lemma stream_steady: "stream rs \<noteq> [] \<Longrightarrow> rs \<noteq> []"
  by auto

lemma recv_steady: "recv rs n = Inr (r, rs') \<Longrightarrow> steady rs \<Longrightarrow> steady rs'"
  by (induction rs n rule: recv.induct) (auto simp: steady_def split: if_splits)

lemma read_steady: "read_loop c w n = Inr (r, (c', w')) \<Longrightarrow> steady (rx_queue w) \<Longrightarrow> steady (rx_queue w')"
proof (induction c w n rule: read_loop.induct)
  case (1 c w n)
  from "1.prems"(1) obtain q rs where q: "recv (rx_queue w) n = Inr (q, rs)"
    by (subst (asm) read_loop.simps) (auto simp: c_bind_Inr_iff)
  have st: "steady rs" using recv_steady [OF q "1.prems"(2)] .
  show ?case
  proof (cases q)
    case (Got bs')
    then show ?thesis using "1.prems"(1) q st by (subst (asm) read_loop.simps) (auto simp: c_bind_Inr_iff Let_def)
  next
    case Closed
    then show ?thesis using "1.prems"(1) q st by (subst (asm) read_loop.simps) (auto simp: Let_def)
  next
    case (IoErr e)
    then show ?thesis using "1.prems"(1) q st "1.IH" [OF q refl refl IoErr]
      by (subst (asm) read_loop.simps) (auto simp: Let_def split: if_splits)
  qed
qed

text \<open>What has been received and not yet been read.\<close>

definition pending :: "conn \<Rightarrow> char list" where
  "pending s = take (size_curr_read_buf (fst s) - read_buf_pos (fst s)) (drop (read_buf_pos (fst s)) (line_buf s)) @ stream (rx_queue (snd s))"

definition recv_ok :: "conn \<Rightarrow> bool" where
  "recv_ok s \<longleftrightarrow> ranges_ok (fst s) \<and> read_buf (fst s) \<noteq> None \<and> length (line_buf s) = read_buf_size (fst s) \<and>
     read_buf_pos (fst s) \<le> size_curr_read_buf (fst s) \<and> size_curr_read_buf (fst s) \<le> read_buf_size (fst s) \<and> steady (rx_queue (snd s))"

text \<open>Receiving leaves the sending side alone.\<close>

definition send_side :: "conn \<Rightarrow> char list option \<times> nat \<times> nat \<times> tx list \<times> char list \<times> nat" where
  "send_side s = (write_buf (fst s), write_buf_size (fst s), write_buf_pos (fst s), tx_queue (snd s), sent_bytes (snd s), read_buf_size (fst s))"

lemma takeWhile_line: "CARRIAGE_RETURN \<notin> set line \<Longrightarrow> takeWhile (\<lambda>ch. ch \<noteq> CARRIAGE_RETURN) (line @ CARRIAGE_RETURN # xs) = line"
  by (induction line) auto

lemma rec_loop_line:
  assumes "ranges_ok c" and "length rb = B" and "n \<le> B" and "steady (rx_queue w)" and "read_buf_size c = B"
    and "take n rb @ stream (rx_queue w) = line @ CARRIAGE_RETURN # rest" and "CARRIAGE_RETURN \<notin> set line" and "length line < B"
  shows "\<exists>c' w'. rec_with_cr_loop c w B rb n = Inr (Inr (length line), (c', w')) \<and> recv_ok (c', w') \<and> pending (c', w') = rest \<and>
    take (length line + 1) (line_buf (c', w')) = line @ [CARRIAGE_RETURN] \<and> read_buf_pos c' = length line + 1 \<and> send_side (c', w') = send_side (c, w)"
  using assms
proof (induction "B - n" arbitrary: c w rb n rule: less_induct)
  case less
  have rt: "rd_blk rb 0 n = Inr (take n rb)" using less.prems(2,3) by simp
  show ?case
  proof (cases "n \<le> length line")
    case False
    then obtain xs where xs: "take n rb = line @ CARRIAGE_RETURN # xs" "xs @ stream (rx_queue w) = rest"
    proof -
      have "take n rb = take n (line @ CARRIAGE_RETURN # rest)" using arg_cong [OF less.prems(6), of "take n"] less.prems(2,3) by simp
      then have e: "take n rb = line @ CARRIAGE_RETURN # take (n - length line - 1) rest" using False by (cases "n - length line") auto
      then have "take (n - length line - 1) rest @ stream (rx_queue w) = rest" using less.prems(6) by simp
      then show thesis using e that by blast
    qed
    have ln: "length (takeWhile (\<lambda>ch. ch \<noteq> CARRIAGE_RETURN) (take n rb)) = length line" unfolding xs(1) by (simp add: takeWhile_line [OF less.prems(7)])
    let ?c = "c\<lparr>read_buf := Some rb, size_curr_read_buf := n, read_buf_pos := length line + 1\<rparr>"
    have eq: "rec_with_cr_loop c w B rb n = Inr (Inr (length line), (?c, w))"
      using rt ln False by (simp add: rec_with_cr_loop.simps [of c w] Let_def)
    have "n = length line + 1 + length xs" using arg_cong [OF xs(1), of length] less.prems(2,3) by simp
    then have "take (n - (length line + 1)) (drop (length line + 1) rb) = xs" using arg_cong [OF xs(1), of "drop (length line + 1)"] by (simp add: drop_take)
    then have pd: "pending (?c, w) = rest" using xs(2) by (simp add: pending_def line_buf_def)
    have "take (length line + 1) rb = take (length line + 1) (take n rb)" using False by (simp add: min_def)
    then have lb: "take (length line + 1) (line_buf (?c, w)) = line @ [CARRIAGE_RETURN]" unfolding xs(1) by (simp add: line_buf_def)
    have ok: "recv_ok (?c, w)" using less.prems(1-5) False by (simp add: recv_ok_def line_buf_def ranges_ok_def)
    show ?thesis unfolding eq using pd lb ok by (intro exI [of _ ?c] exI [of _ w]) (simp add: send_side_def)
  next
    case True
    have tk: "take n rb = take n line" using arg_cong [OF less.prems(6), of "take n"] less.prems(2,3) True by simp
    then have nc: "CARRIAGE_RETURN \<notin> set (take n rb)" using less.prems(7) set_take_subset by (metis subsetD)
    have tw: "length (takeWhile (\<lambda>ch. ch \<noteq> CARRIAGE_RETURN) (take n rb)) = n"
    proof -
      have "takeWhile (\<lambda>ch. ch \<noteq> CARRIAGE_RETURN) (take n rb) = take n rb"
        by (rule takeWhile_eq_all_conv [THEN iffD2]) (use nc in auto)
      then have "length (takeWhile (\<lambda>ch. ch \<noteq> CARRIAGE_RETURN) (take n rb)) = length (take n rb)" by (rule arg_cong)
      also have "\<dots> = n" using less.prems(2,3) by simp
      finally show ?thesis .
    qed
    have st: "stream (rx_queue w) = drop n line @ CARRIAGE_RETURN # rest"
    proof -
      have "take n rb @ stream (rx_queue w) = take n line @ drop n line @ CARRIAGE_RETURN # rest" using less.prems(6) by simp
      then show ?thesis unfolding tk by simp
    qed
    then have sne: "stream (rx_queue w) \<noteq> []" by simp
    have nB: "n < B" using True less.prems(8) by simp
    let ?c = "c\<lparr>read_buf := Some rb\<rparr>"
    define tm where "tm = (if rec_wait_ms ?c = 0 then 1 else rec_wait_ms ?c)"
    have "tm \<noteq> 0 \<or> False" by (simp add: tm_def)
    from check_steady [OF less.prems(4) stream_steady [OF sne] this] obtain f where
      "check_for_data_loop w tm False = Inr (True, w\<lparr>stop_flags := f\<rparr>)" by blast
    then have ch: "check_for_data_on_connection (?c, w) = Inr (True, (?c, w\<lparr>stop_flags := f\<rparr>))"
      by (simp add: check_for_data_on_connection_def tm_def)
    let ?w = "w\<lparr>stop_flags := f\<rparr>"
    have r0: "ranges_ok ?c" "stream (rx_queue ?w) \<noteq> []" "0 < B - n" using less.prems(1) sne nB by (simp_all add: ranges_ok_def)
    from read_loop_stream [OF r0] obtain bs c1 rs where
      rl: "read_loop ?c ?w (B - n) = Inr (Inr bs, (c1, ?w\<lparr>rx_queue := rs\<rparr>))" "same_buffers ?c c1" "ranges_ok c1" "bs \<noteq> []" "length bs \<le> B - n"
        "bs @ stream rs = stream (rx_queue ?w)" by blast
    have sd: "steady (rx_queue (?w\<lparr>rx_queue := rs\<rparr>))" using read_steady [OF rl(1)] less.prems(4) by simp
    let ?rb = "take n rb @ bs @ drop (n + length bs) rb"
    have wb: "wr_blk rb n bs = Inr ?rb" using rl(5) nB less.prems(2) by simp
    have eq: "rec_with_cr_loop c w B rb n = rec_with_cr_loop c1 (?w\<lparr>rx_queue := rs\<rparr>) B ?rb (n + length bs)"
      using rt tw nB ch rl(1) wb by (simp add: rec_with_cr_loop.simps [of c w] Let_def read_socket_connection_def)
    have m: "B - (n + length bs) < B - n" using rl(4) nB by (cases bs) auto
    have tl: "take (n + length bs) ?rb @ stream rs = line @ CARRIAGE_RETURN # rest"
      using less.prems(2,3,6) rl(6) by simp
    have l: "length ?rb = B" "n + length bs \<le> B" "read_buf_size c1 = B"
      using rl(5) nB less.prems(2,5) same_buffers_fields(2) [OF rl(2)] by simp_all
    from less.hyps [OF m rl(3) l(1,2) sd l(3) _ less.prems(7,8)] tl
    have "\<exists>c' w'. rec_with_cr_loop c1 (?w\<lparr>rx_queue := rs\<rparr>) B ?rb (n + length bs) = Inr (Inr (length line), (c', w')) \<and>
      recv_ok (c', w') \<and> pending (c', w') = rest \<and> take (length line + 1) (line_buf (c', w')) = line @ [CARRIAGE_RETURN] \<and>
      read_buf_pos c' = length line + 1 \<and> send_side (c', w') = send_side (c1, ?w\<lparr>rx_queue := rs\<rparr>)" by simp
    moreover have "send_side (c1, ?w\<lparr>rx_queue := rs\<rparr>) = send_side (c, w)"
      using same_buffers_fields [OF rl(2)] by (simp add: send_side_def)
    ultimately show ?thesis unfolding eq by simp
  qed
qed


lemma rec_with_cr_line:
  assumes "recv_ok s" and "pending s = line @ CARRIAGE_RETURN # rest" and "CARRIAGE_RETURN \<notin> set line" and "length line < read_buf_size (fst s)"
  shows "\<exists>s'. ic_rec_with_cr s = Inr (Inr (length line), s') \<and> recv_ok s' \<and> pending s' = rest \<and>
    take (length line + 1) (line_buf s') = line @ [CARRIAGE_RETURN] \<and> read_buf_pos (fst s') = length line + 1 \<and> send_side s' = send_side s"
proof -
  obtain c w where s: "s = (c, w)" by (cases s)
  obtain rb where rb: "read_buf c = Some rb" "length rb = read_buf_size c" using assms(1) s by (auto simp: recv_ok_def line_buf_def)
  have b: "read_buf_pos c \<le> size_curr_read_buf c" "size_curr_read_buf c \<le> read_buf_size c" "steady (rx_queue w)" "ranges_ok c"
    using assms(1) s by (auto simp: recv_ok_def)
  let ?n = "size_curr_read_buf c - read_buf_pos c"
  have p: "take ?n (drop (read_buf_pos c) rb) @ stream (rx_queue w) = line @ CARRIAGE_RETURN # rest"
    using assms(2) s rb(1) by (simp add: pending_def line_buf_def)
  have l: "length line < read_buf_size c" using assms(4) s by simp
  show ?thesis
  proof (cases "0 < size_curr_read_buf c")
    case True
    let ?c = "c\<lparr>read_buf_pos := 0\<rparr>" and ?rb = "take ?n (drop (read_buf_pos c) rb) @ drop ?n rb"
    have lr: "length ?rb = read_buf_size c" "?n \<le> read_buf_size c" "take ?n ?rb = take ?n (drop (read_buf_pos c) rb)" "ranges_ok ?c"
      using b rb(2) by (simp_all add: ranges_ok_def)
    have eq: "ic_rec_with_cr s = rec_with_cr_loop ?c w (read_buf_size c) ?rb ?n"
      using True rb b by (simp add: s ic_rec_with_cr_def Let_def)
    from rec_loop_line [OF lr(4,1,2) b(3) _ _ assms(3) l] p lr(3) obtain c' w' where
      "rec_with_cr_loop ?c w (read_buf_size c) ?rb ?n = Inr (Inr (length line), (c', w'))" "recv_ok (c', w')" "pending (c', w') = rest"
      "take (length line + 1) (line_buf (c', w')) = line @ [CARRIAGE_RETURN]" "read_buf_pos c' = length line + 1" "send_side (c', w') = send_side (?c, w)"
      by auto
    then show ?thesis unfolding eq by (intro exI [of _ "(c', w')"]) (simp add: send_side_def s)
  next
    case False
    have eq: "ic_rec_with_cr s = rec_with_cr_loop c w (read_buf_size c) rb 0" using False rb by (simp add: s ic_rec_with_cr_def)
    from rec_loop_line [OF b(4) rb(2) _ b(3) refl _ assms(3) l, of 0 rest] p False obtain c' w' where
      "rec_with_cr_loop c w (read_buf_size c) rb 0 = Inr (Inr (length line), (c', w'))" "recv_ok (c', w')" "pending (c', w') = rest"
      "take (length line + 1) (line_buf (c', w')) = line @ [CARRIAGE_RETURN]" "read_buf_pos c' = length line + 1" "send_side (c', w') = send_side (c, w)"
      by auto
    then show ?thesis unfolding eq by (intro exI [of _ "(c', w')"]) (simp add: s)
  qed
qed

lemma step_back_line:
  assumes "recv_ok s" and "take (length line + 1) (line_buf s) = line @ [CARRIAGE_RETURN]" and "read_buf_pos (fst s) = length line + 1" and "pending s = rest"
  shows "\<exists>s'. ic_step_back_rec_with_cr s (length line) = Inr s' \<and> recv_ok s' \<and> pending s' = line @ CARRIAGE_RETURN # rest \<and> send_side s' = send_side s"
proof -
  obtain c w where s: "s = (c, w)" by (cases s)
  let ?s = "(c\<lparr>read_buf_pos := 0\<rparr>, w)"
  have e: "ic_step_back_rec_with_cr s (length line) = Inr ?s" using assms(3) s by (simp add: ic_step_back_rec_with_cr_def)
  have lb: "line_buf ?s = line_buf s" by (simp add: line_buf_def s)
  have n: "length line + 1 \<le> size_curr_read_buf c" using assms(1,3) s by (simp add: recv_ok_def)
  have "take (size_curr_read_buf c) (line_buf s) = take (length line + 1) (line_buf s) @ take (size_curr_read_buf c - (length line + 1)) (drop (length line + 1) (line_buf s))"
    using n by (simp add: take_add [symmetric])
  then have "pending ?s = line @ CARRIAGE_RETURN # rest"
    unfolding assms(2) using assms(3,4) s lb by (simp add: pending_def)
  moreover have "recv_ok ?s" using assms(1) s lb by (simp add: recv_ok_def ranges_ok_def)
  ultimately show ?thesis using e s by (intro exI [of _ ?s]) (simp add: send_side_def)
qed


section \<open>Sending: lemmas\<close>

definition send_ok :: "conn \<Rightarrow> bool" where
  "send_ok s \<longleftrightarrow> ranges_ok (fst s) \<and> tx_ok (tx_queue (snd s)) \<and> write_buf_pos (fst s) \<le> write_buf_size (fst s) \<and>
     (\<exists>b. write_buf (fst s) = Some b \<and> length b = write_buf_size (fst s))"

text \<open>Everything handed to the connection: what was sent and what is still in the write buffer.\<close>

definition handed :: "conn \<Rightarrow> char list" where
  "handed s = sent_bytes (snd s) @ (case write_buf (fst s) of None \<Rightarrow> [] | Some b \<Rightarrow> take (write_buf_pos (fst s)) b)"

lemma write_conn_ok:
  assumes "ranges_ok c" and "tx_ok (tx_queue w)"
  shows "\<exists>rc c' w'. write_socket_connection (c, w) data secs = Inr (rc, (c', w')) \<and> write_post c w data 0 rc c' w' \<and> tx_ok (tx_queue w') \<and>
    (tx_queue w = [] \<longrightarrow> rc = 0 \<and> tx_queue w' = [])"
proof -
  have i: "write_size (send_state_init (length data) secs) = 0" "buf_size (send_state_init (length data) secs) = length data"
    by (simp_all add: send_state_init_def)
  from write_loop_ok [OF assms(1) _ i(2) assms(2), of w] i(1) show ?thesis by (auto simp: write_socket_connection_def)
qed

lemma write_post_ranges: "write_post c w data n rc c' w' \<Longrightarrow> ranges_ok c \<Longrightarrow> ranges_ok c'"
  by (auto simp: write_post_def sent_stat_def count_sent_def ranges_ok_def)

text \<open>Emptying the write buffer.\<close>

lemma flush_ok:
  assumes "send_ok s"
  shows "\<exists>b rc c' w'. write_buf (fst s) = Some b \<and> rd_blk b 0 (write_buf_pos (fst s)) = Inr (take (write_buf_pos (fst s)) b) \<and>
    write_socket_connection s (take (write_buf_pos (fst s)) b) 1 = Inr (rc, (c', w')) \<and>
    send_ok (c'\<lparr>write_buf_pos := 0\<rparr>, w') \<and> (rc = 0 \<longrightarrow> handed (c'\<lparr>write_buf_pos := 0\<rparr>, w') = handed s \<and> sent_bytes w' = handed s) \<and>
    (tx_queue (snd s) = [] \<longrightarrow> rc = 0 \<and> tx_queue w' = []) \<and> same_buffers (fst s) c' \<and> rx_queue w' = rx_queue (snd s)"
proof -
  obtain c w where s: "s = (c, w)" by (cases s)
  from assms obtain b where b: "write_buf c = Some b" "length b = write_buf_size c" "write_buf_pos c \<le> write_buf_size c" "ranges_ok c" "tx_ok (tx_queue w)"
    by (auto simp: send_ok_def s)
  from write_conn_ok [OF b(4,5), of "take (write_buf_pos c) b" 1] obtain rc c' w' where
    r: "write_socket_connection (c, w) (take (write_buf_pos c) b) 1 = Inr (rc, (c', w'))" "write_post c w (take (write_buf_pos c) b) 0 rc c' w'"
      "tx_ok (tx_queue w')" "tx_queue w = [] \<longrightarrow> rc = 0 \<and> tx_queue w' = []" by blast
  have f: "same_buffers c c'" "rx_queue w' = rx_queue w" using r(2) by (simp_all add: write_post_def)
  have "send_ok (c'\<lparr>write_buf_pos := 0\<rparr>, w')" using write_post_ranges [OF r(2) b(4)] r(3) same_buffers_fields [OF f(1)] b
    by (simp add: send_ok_def ranges_ok_def)
  moreover have "rc = 0 \<longrightarrow> handed (c'\<lparr>write_buf_pos := 0\<rparr>, w') = handed s \<and> sent_bytes w' = handed s"
    using r(2) b(1) s by (auto simp: handed_def write_post_def split: option.splits)
  ultimately show ?thesis using r(1,4) f b s by (intro exI [of _ b] exI [of _ rc] exI [of _ c'] exI [of _ w']) simp
qed

lemma send_with_cr_ok:
  assumes "send_ok s" and "NULL_BYTE \<notin> set line" and "length line + 1 < write_buf_size (fst s)"
  shows "\<exists>rc s'. ic_send_with_cr s (line @ NULL_BYTE # r) = Inr (rc, s') \<and> send_ok s' \<and> write_buf_size (fst s') = write_buf_size (fst s) \<and>
    (rc = 0 \<longrightarrow> handed s' = handed s @ line @ [CARRIAGE_RETURN] \<and> write_buf_pos (fst s') \<noteq> 0) \<and>
    (tx_queue (snd s) = [] \<longrightarrow> rc = 0 \<and> tx_queue (snd s') = []) \<and> rx_queue (snd s') = rx_queue (snd s)"
proof -
  obtain c w where s: "s = (c, w)" by (cases s)
  note sl = strlen_at [OF assms(2), of r]
  \<comment> \<open>the part behind the flush\<close>
  have put: "\<exists>s'. (case write_buf c1 of None \<Rightarrow> Inl NullDeref
          | Some b \<Rightarrow> c_bind (wr_blk b (write_buf_pos c1) (take (length line) (line @ NULL_BYTE # r))) (\<lambda>b.
              c_bind (wr b (write_buf_pos c1 + length line) CARRIAGE_RETURN) (\<lambda>b.
                Inr (0, (c1\<lparr>write_buf := Some b, write_buf_pos := write_buf_pos c1 + length line + 1\<rparr>, w1))))) = Inr (0 :: err, s') \<and>
      send_ok s' \<and> write_buf_size (fst s') = write_buf_size c1 \<and> handed s' = handed (c1, w1) @ line @ [CARRIAGE_RETURN] \<and>
      write_buf_pos (fst s') \<noteq> 0 \<and> snd s' = w1"
    if o: "send_ok (c1, w1)" "write_buf_pos c1 + length line + 1 \<le> write_buf_size c1" for c1 w1
  proof -
    obtain b where b: "write_buf c1 = Some b" "length b = write_buf_size c1" using o(1) by (auto simp: send_ok_def)
    let ?p = "write_buf_pos c1"
    let ?b = "(take ?p b @ line @ drop (?p + length line) b)[?p + length line := CARRIAGE_RETURN]"
    let ?s = "(c1\<lparr>write_buf := Some ?b, write_buf_pos := ?p + length line + 1\<rparr>, w1)"
    have w: "wr_blk b ?p line = Inr (take ?p b @ line @ drop (?p + length line) b)" using o(2) b(2) by simp
    have w2: "wr (take ?p b @ line @ drop (?p + length line) b) (?p + length line) CARRIAGE_RETURN = Inr ?b"
      using o(2) b(2) by (simp add: wr_def)
    have "take (?p + length line + 1) ?b = take ?p b @ line @ [CARRIAGE_RETURN]"
      using o(2) b(2) by (simp add: list_update_append min_def take_Suc_conv_app_nth)
    then have h: "handed ?s = handed (c1, w1) @ line @ [CARRIAGE_RETURN]" using b(1) by (simp add: handed_def)
    have "send_ok ?s" using o b by (auto simp: send_ok_def ranges_ok_def)
    then show ?thesis using b(1) w w2 h by (intro exI [of _ ?s]) simp
  qed
  show ?thesis
  proof (cases "write_buf_size c < write_buf_pos c + length line + 1")
    case False
    have ok: "send_ok (c, w)" "write_buf_pos c + length line + 1 \<le> write_buf_size c" using assms(1) s False by simp_all
    from put [OF ok] sl False assms(3) s show ?thesis by (auto simp: ic_send_with_cr_def)
  next
    case True
    from flush_ok [OF assms(1)] s obtain b rc c' w' where
      f: "write_buf c = Some b" "rd_blk b 0 (write_buf_pos c) = Inr (take (write_buf_pos c) b)"
        "write_socket_connection (c, w) (take (write_buf_pos c) b) 1 = Inr (rc, (c', w'))" "send_ok (c'\<lparr>write_buf_pos := 0\<rparr>, w')"
        "rc = 0 \<longrightarrow> handed (c'\<lparr>write_buf_pos := 0\<rparr>, w') = handed s" "tx_queue w = [] \<longrightarrow> rc = 0 \<and> tx_queue w' = []"
        "same_buffers c c'" "rx_queue w' = rx_queue w" by auto
    show ?thesis
    proof (cases "rc = 0")
      case rc: False
      have "ic_send_with_cr s (line @ NULL_BYTE # r) = Inr (rc, (c'\<lparr>write_buf_pos := 0\<rparr>, w'))"
        using True f(1-3) rc sl assms(3) s by (simp add: ic_send_with_cr_def)
      then show ?thesis using f(4,6,8) rc s same_buffers_fields [OF f(7)]
        by (intro exI [of _ rc] exI [of _ "(c'\<lparr>write_buf_pos := 0\<rparr>, w')"]) simp
    next
      case rc: True
      have "write_buf_pos (c'\<lparr>write_buf_pos := 0\<rparr>) + length line + 1 \<le> write_buf_size (c'\<lparr>write_buf_pos := 0\<rparr>)"
        using assms(3) s same_buffers_fields [OF f(7)] by simp
      from put [OF f(4) this] True f rc sl assms(3) s same_buffers_fields [OF f(7)] show ?thesis
        by (auto simp: ic_send_with_cr_def)
    qed
  qed
qed


section \<open>Lines, strings and numbers\<close>

text \<open>Clients of the line functions: send lines until one fails; receive a number of lines.\<close>

fun send_lines :: "conn \<Rightarrow> char list list \<Rightarrow> fault + (err \<times> conn)" where
  "send_lines s [] = Inr (0, s)"
| "send_lines s (l # ls) = and_then (ic_send_with_cr s (l @ [NULL_BYTE])) (\<lambda>s. send_lines s ls)"

fun rec_lines :: "nat \<Rightarrow> conn \<Rightarrow> fault + (err \<times> char list list \<times> conn)" where
  "rec_lines 0 s = Inr (0, [], s)"
| "rec_lines (Suc k) s = c_bind (ic_rec_with_cr s) (\<lambda>(r, s). case r of
       Inl e \<Rightarrow> Inr (e, [], s)
     | Inr n \<Rightarrow> c_bind (rd_blk (line_buf s) 0 n) (\<lambda>l. c_bind (rec_lines k s) (\<lambda>(rc, ls, s). Inr (rc, l # ls, s))))"

definition on_wire :: "char list list \<Rightarrow> char list" where
  "on_wire ls = concat (map (\<lambda>l. l @ [CARRIAGE_RETURN]) ls)"

lemma line_text: "take (length line + 1) rb = line @ [CARRIAGE_RETURN] \<Longrightarrow> \<exists>r. rb = line @ CARRIAGE_RETURN # r"
  by (metis append.assoc append_Cons append_Nil append_take_drop_id)

lemma rec_lines_ok:
  "recv_ok s \<Longrightarrow> pending s = on_wire ls @ rest \<Longrightarrow> \<forall>l \<in> set ls. CARRIAGE_RETURN \<notin> set l \<and> length l < read_buf_size (fst s) \<Longrightarrow>
   \<exists>s'. rec_lines (length ls) s = Inr (0, ls, s') \<and> recv_ok s' \<and> pending s' = rest \<and> send_side s' = send_side s"
proof (induction ls arbitrary: s)
  case Nil
  then show ?case by (simp add: on_wire_def)
next
  case (Cons l ls)
  have p: "pending s = l @ CARRIAGE_RETURN # (on_wire ls @ rest)" using Cons.prems(2) by (simp add: on_wire_def)
  from rec_with_cr_line [OF Cons.prems(1) p] Cons.prems(3) obtain s1 where
    r: "ic_rec_with_cr s = Inr (Inr (length l), s1)" "recv_ok s1" "pending s1 = on_wire ls @ rest"
      "take (length l + 1) (line_buf s1) = l @ [CARRIAGE_RETURN]" "send_side s1 = send_side s" by auto
  obtain x where "line_buf s1 = l @ CARRIAGE_RETURN # x" using line_text [OF r(4)] by blast
  then have rb: "rd_blk (line_buf s1) 0 (length l) = Inr l" by simp
  have bs: "read_buf_size (fst s1) = read_buf_size (fst s)" using r(5) by (simp add: send_side_def)
  from Cons.IH [OF r(2,3)] Cons.prems(3) bs obtain s' where
    "rec_lines (length ls) s1 = Inr (0, ls, s')" "recv_ok s'" "pending s' = rest" "send_side s' = send_side s1" by auto
  then show ?case using r(1,5) rb by simp
qed

lemma send_lines_ok:
  "send_ok s \<Longrightarrow> \<forall>l \<in> set ls. NULL_BYTE \<notin> set l \<and> length l + 1 < write_buf_size (fst s) \<Longrightarrow>
   \<exists>rc s'. send_lines s ls = Inr (rc, s') \<and> send_ok s' \<and> write_buf_size (fst s') = write_buf_size (fst s) \<and> (rc = 0 \<longrightarrow> handed s' = handed s @ on_wire ls) \<and>
     (tx_queue (snd s) = [] \<longrightarrow> rc = 0 \<and> tx_queue (snd s') = [])"
proof (induction ls arbitrary: s)
  case Nil
  then show ?case by (simp add: on_wire_def)
next
  case (Cons l ls)
  from send_with_cr_ok [OF Cons.prems(1), of l "[]"] Cons.prems(2) obtain rc s1 where
    r: "ic_send_with_cr s (l @ [NULL_BYTE]) = Inr (rc, s1)" "send_ok s1" "write_buf_size (fst s1) = write_buf_size (fst s)"
      "rc = 0 \<longrightarrow> handed s1 = handed s @ l @ [CARRIAGE_RETURN]" "tx_queue (snd s) = [] \<longrightarrow> rc = 0 \<and> tx_queue (snd s1) = []" by auto
  show ?case
  proof (cases "rc = 0")
    case True
    from Cons.IH [OF r(2)] Cons.prems(2) r(3) obtain rc2 s2 where
      "send_lines s1 ls = Inr (rc2, s2)" "send_ok s2" "write_buf_size (fst s2) = write_buf_size (fst s1)" "rc2 = 0 \<longrightarrow> handed s2 = handed s1 @ on_wire ls"
      "tx_queue (snd s1) = [] \<longrightarrow> rc2 = 0 \<and> tx_queue (snd s2) = []" by auto
    then show ?thesis using r True by (auto simp: and_then_def on_wire_def)
  qed (use r in \<open>auto simp: and_then_def\<close>)
qed

lemma send_empty_ok:
  assumes "send_ok s" and "1 < write_buf_size (fst s)"
  shows "\<exists>rc s'. ic_send_empty_line s = Inr (rc, s') \<and> send_ok s' \<and> (rc = 0 \<longrightarrow> sent_bytes (snd s') = handed s @ [CARRIAGE_RETURN] \<and> handed s' = handed s @ [CARRIAGE_RETURN]) \<and>
    (tx_queue (snd s) = [] \<longrightarrow> rc = 0)"
proof -
  from send_with_cr_ok [OF assms(1), of "[]" "[]"] assms(2) obtain rc s1 where
    r: "ic_send_with_cr s [NULL_BYTE] = Inr (rc, s1)" "send_ok s1" "rc = 0 \<longrightarrow> handed s1 = handed s @ [CARRIAGE_RETURN] \<and> write_buf_pos (fst s1) \<noteq> 0"
      "tx_queue (snd s) = [] \<longrightarrow> rc = 0 \<and> tx_queue (snd s1) = []" by auto
  show ?thesis
  proof (cases "rc = 0")
    case True
    obtain c w where s1: "s1 = (c, w)" by (cases s1)
    from flush_ok [OF r(2)] s1 obtain b rc2 c' w' where
      f: "write_buf c = Some b" "rd_blk b 0 (write_buf_pos c) = Inr (take (write_buf_pos c) b)"
        "write_socket_connection (c, w) (take (write_buf_pos c) b) 1 = Inr (rc2, (c', w'))" "send_ok (c'\<lparr>write_buf_pos := 0\<rparr>, w')"
        "rc2 = 0 \<longrightarrow> handed (c'\<lparr>write_buf_pos := 0\<rparr>, w') = handed s1 \<and> sent_bytes w' = handed s1" "tx_queue w = [] \<longrightarrow> rc2 = 0" by auto
    have "ic_send_empty_line s = Inr (rc2, (c'\<lparr>write_buf_pos := 0\<rparr>, w'))"
      using r(1,3) True s1 f(1-3) by (simp add: ic_send_empty_line_def ic_empty_string_def and_then_def flush_connection_def)
    then show ?thesis using f(4-6) r(3,4) s1 True by auto
  qed (use r in \<open>auto simp: ic_send_empty_line_def ic_empty_string_def and_then_def\<close>)
qed

text \<open>What is used of \<^verbatim>\<open>g_ascii_strtoull\<close>: decimal digits followed by another character are read as their value.\<close>

definition strtoull_ok :: "(char list \<Rightarrow> guint64 \<times> nat) \<Rightarrow> bool" where
  "strtoull_ok f \<longleftrightarrow> (\<forall>v r. r \<noteq> [] \<and> \<not> (48 \<le> (of_char (hd r) :: nat) \<and> (of_char (hd r) :: nat) \<le> 57) \<longrightarrow>
     f (dec_string (unat v) @ r) = (v, length (dec_string (unat v))))"

lemma check_int_ok:
  assumes "strtoull_ok f" and "rb = p @ SPACE_CHAR # dec_string (unat v) @ CARRIAGE_RETURN # r" and "length p < 4000000000"
  shows "ic_check_buf_with_int f rb (length p + 1 + length (dec_string (unat v))) p = Inr (False, Some v)"
proof -
  let ?d = "dec_string (unat v)"
  have sk: "skip_prefix rb (length p + 1 + length ?d) p = Inr (Some (length p + 1))" using assms(2) by (simp add: skip_prefix_def nth_append)
  have dr: "drop (length p + 1) rb = ?d @ CARRIAGE_RETURN # r" using assms(2) by simp
  have st: "f (?d @ CARRIAGE_RETURN # r) = (v, length ?d)" using assms(1) by (simp add: strtoull_ok_def CARRIAGE_RETURN_def)
  have l: "length ?d \<le> 20" "?d \<noteq> []" using dec_string_length by auto
  have sub: "(of_nat (length p + 1 + length ?d) :: guint32) - of_nat (length p + 1) = of_nat (length ?d)" by simp
  have un: "unat (of_nat (length ?d) :: guint32) = length ?d" using l(1) by (subst unat_of_nat) simp
  have nz: "(of_nat (length ?d) :: guint32) \<noteq> 0" using un l(2) by (metis length_0_conv unat_0)
  have z: "v = 0 \<Longrightarrow> ?d = ''0''" by (simp add: dec_string_def)
  show ?thesis unfolding ic_check_buf_with_int_def sk c_bind_simps option.case sub dr ic_convert_str_to_int_fixed_size_def
    using st un nz z by (auto simp: rd_def)
qed

lemma rec_long_number_ok:
  assumes "strtoull_ok f" and "recv_ok s" and "pending s = (p @ SPACE_CHAR # dec_string (unat v)) @ CARRIAGE_RETURN # rest" and "CARRIAGE_RETURN \<notin> set p"
    and "length p + 22 \<le> read_buf_size (fst s)" and "length p < 4000000000"
  shows "\<exists>s'. ic_rec_long_number f s p = Inr (0, Some v, s') \<and> recv_ok s' \<and> pending s' = rest \<and> send_side s' = send_side s"
proof -
  let ?l = "p @ SPACE_CHAR # dec_string (unat v)"
  have "CARRIAGE_RETURN \<notin> set ?l" using assms(4) dec_string_digits [of CARRIAGE_RETURN "unat v"] by (auto simp: CARRIAGE_RETURN_def SPACE_CHAR_def)
  moreover have "length ?l < read_buf_size (fst s)" using assms(5) dec_string_length(1) [of v] by simp
  ultimately obtain s1 where r: "ic_rec_with_cr s = Inr (Inr (length ?l), s1)" "recv_ok s1" "pending s1 = rest"
    "take (length ?l + 1) (line_buf s1) = ?l @ [CARRIAGE_RETURN]" "send_side s1 = send_side s"
    using rec_with_cr_line [OF assms(2,3)] by blast
  obtain x where x: "line_buf s1 = ?l @ CARRIAGE_RETURN # x" using line_text [OF r(4)] by blast
  have "ic_check_buf_with_int f (line_buf s1) (length ?l) p = Inr (False, Some v)"
    using check_int_ok [OF assms(1) _ assms(6), of "line_buf s1" v x] x by simp
  then show ?thesis using r by (auto simp: ic_rec_long_number_def with_line_def)
qed


lemma send_number_ok:
  assumes "send_ok s" and "NULL_BYTE \<notin> set p" and "length p \<le> 106" and "length p + 22 < write_buf_size (fst s)"
  shows "\<exists>rc s'. ic_send_with_cr_with_number s (p @ [NULL_BYTE]) v = Inr (rc, s') \<and> send_ok s' \<and> write_buf_size (fst s') = write_buf_size (fst s) \<and>
    (rc = 0 \<longrightarrow> handed s' = handed s @ on_wire [p @ SPACE_CHAR # dec_string (unat v)]) \<and> (tx_queue (snd s) = [] \<longrightarrow> rc = 0 \<and> tx_queue (snd s') = [])"
proof -
  let ?d = "dec_string (unat v)"
  let ?l = "p @ SPACE_CHAR # ?d"
  have l: "length ?d \<le> 20" using dec_string_length by auto
  have nd: "NULL_BYTE \<notin> set ?d" using dec_string_digits [of NULL_BYTE "unat v"] by (auto simp: NULL_BYTE_def)
  have g: "ic_guint64_str v (replicate 64 NULL_BYTE) = Inr (?d @ NULL_BYTE # drop (Suc (length ?d)) (replicate 64 NULL_BYTE), of_nat (length ?d))"
    using guint64_str_eq [of v "replicate 64 NULL_BYTE"] l by simp
  have eq: "ic_send_with_cr_with_number s (p @ [NULL_BYTE]) v = ic_send_with_cr s (?l @ [NULL_BYTE])"
    unfolding ic_send_with_cr_with_number_def g c_bind_simps prod.case strlen_at [OF nd] strlen_at [OF assms(2)] using l assms(3) by simp
  have "NULL_BYTE \<notin> set ?l" "length ?l + 1 < write_buf_size (fst s)" using assms(2,4) nd l by (auto simp: NULL_BYTE_def SPACE_CHAR_def)
  from send_with_cr_ok [OF assms(1) this, of "[]"] show ?thesis unfolding eq by (auto simp: on_wire_def)
qed

lemma rec_simple_ok:
  assumes "recv_ok s" and "pending s = line @ CARRIAGE_RETURN # rest" and "CARRIAGE_RETURN \<notin> set line" and "length line < read_buf_size (fst s)"
  shows "\<exists>s'. ic_rec_simple_str_impl s st opt = Inr (if line = st then (0, True, s') else if opt then (0, False, s') else (IC_PROTOCOL_ERROR, False, s')) \<and>
    recv_ok s' \<and> pending s' = (if line = st then rest else pending s) \<and> send_side s' = send_side s"
proof -
  from rec_with_cr_line [OF assms] obtain s1 where r: "ic_rec_with_cr s = Inr (Inr (length line), s1)" "recv_ok s1" "pending s1 = rest"
    "take (length line + 1) (line_buf s1) = line @ [CARRIAGE_RETURN]" "read_buf_pos (fst s1) = length line + 1" "send_side s1 = send_side s" by blast
  obtain x where x: "line_buf s1 = line @ CARRIAGE_RETURN # x" using line_text [OF r(4)] by blast
  have cb: "ic_check_buf (line_buf s1) (length line) st = Inr (line \<noteq> st)" using x by (auto simp: ic_check_buf_def)
  show ?thesis
  proof (cases "line = st")
    case True
    then show ?thesis using r cb by (simp add: ic_rec_simple_str_impl_def with_line_def)
  next
    case False
    from step_back_line [OF r(2,4,5,3)] obtain s2 where "ic_step_back_rec_with_cr s1 (length line) = Inr s2" "recv_ok s2"
      "pending s2 = line @ CARRIAGE_RETURN # rest" "send_side s2 = send_side s1" by blast
    then show ?thesis using r(1,6) cb False assms(2)
      by (intro exI [of _ s2]) (simp add: ic_rec_simple_str_impl_def with_line_def)
  qed
qed

lemma rec_empty_ok:
  assumes "recv_ok s" and "pending s = CARRIAGE_RETURN # rest" and "0 < read_buf_size (fst s)"
  shows "\<exists>s'. ic_rec_empty_line s = Inr (0, s') \<and> recv_ok s' \<and> pending s' = rest \<and> send_side s' = send_side s"
  using rec_simple_ok [of s "[]" rest "[]" False] assms by (auto simp: ic_rec_empty_line_def ic_rec_simple_str_def ic_empty_string_def)

lemma fresh_conn:
  assumes "ic_create_socket_object as r client mutex ct rbs = Inr (Some c, r', as')" and "rbs \<noteq> 0"
  shows "steady (rx_queue w) \<Longrightarrow> recv_ok (c, w)" and "tx_ok (tx_queue w) \<Longrightarrow> send_ok (c, w)" and "pending (c, w) = stream (rx_queue w)"
    and "handed (c, w) = sent_bytes w" and "read_buf_size c = rbs" and "write_buf_size c = rbs" and "rec_wait_ms c = 10000"
proof -
  have f: "read_buf c = Some (replicate rbs NULL_BYTE)" "write_buf c = Some (replicate rbs NULL_BYTE)" "read_buf_size c = rbs" "write_buf_size c = rbs"
    "size_curr_read_buf c = 0" "read_buf_pos c = 0" "write_buf_pos c = 0" "conn_stat c = stat_init" "rec_wait_ms c = 10000"
    using assms
    by (auto simp: ic_create_socket_object_def int_create_socket_object_def calloc_block_def create_mutexes_def create_timers_def
      destroy_mutexes_def free_blocks_def init_connect_stat_def zero_conn_def Let_def split: if_splits prod.splits)
  show "read_buf_size c = rbs" "write_buf_size c = rbs" "rec_wait_ms c = 10000" by (fact f)+
  show "steady (rx_queue w) \<Longrightarrow> recv_ok (c, w)" "tx_ok (tx_queue w) \<Longrightarrow> send_ok (c, w)" "pending (c, w) = stream (rx_queue w)" "handed (c, w) = sent_bytes w"
    using f by (simp_all add: recv_ok_def send_ok_def pending_def handed_def line_buf_def ranges_ok_def stat_init_def)
qed

section \<open>Messages between two processes\<close>

text \<open>A message is its lines followed by an empty line, which flushes the write buffer.\<close>

definition send_message :: "conn \<Rightarrow> char list list \<Rightarrow> fault + (err \<times> conn)" where
  "send_message s ls = and_then (send_lines s ls) ic_send_empty_line"

definition rec_message :: "nat \<Rightarrow> conn \<Rightarrow> fault + (err \<times> char list list \<times> conn)" where
  "rec_message n s = c_bind (rec_lines n s) (\<lambda>(rc, ls, s).
     if rc \<noteq> 0 then Inr (rc, ls, s) else c_bind (ic_rec_empty_line s) (\<lambda>(rc, s). Inr (rc, ls, s)))"

lemma rec_message_ok:
  assumes "recv_ok s" and "pending s = on_wire ls @ CARRIAGE_RETURN # rest" and "\<forall>l \<in> set ls. CARRIAGE_RETURN \<notin> set l \<and> length l < read_buf_size (fst s)"
    and "0 < read_buf_size (fst s)"
  shows "\<exists>s'. rec_message (length ls) s = Inr (0, ls, s') \<and> recv_ok s' \<and> pending s' = rest \<and> send_side s' = send_side s"
proof -
  from rec_lines_ok [OF assms(1-3)] obtain s1 where r: "rec_lines (length ls) s = Inr (0, ls, s1)" "recv_ok s1" "pending s1 = CARRIAGE_RETURN # rest"
    "send_side s1 = send_side s" by auto
  have "0 < read_buf_size (fst s1)" using r(4) assms(4) by (simp add: send_side_def)
  from rec_empty_ok [OF r(2,3) this] r show ?thesis by (auto simp: rec_message_def)
qed

lemma send_message_ok:
  assumes "send_ok s" and "\<forall>l \<in> set ls. NULL_BYTE \<notin> set l \<and> length l + 1 < write_buf_size (fst s)" and "1 < write_buf_size (fst s)"
  shows "\<exists>rc s'. send_message s ls = Inr (rc, s') \<and> send_ok s' \<and> (rc = 0 \<longrightarrow> sent_bytes (snd s') = handed s @ on_wire (ls @ [[]])) \<and>
    (tx_queue (snd s) = [] \<longrightarrow> rc = 0)"
proof -
  from send_lines_ok [OF assms(1,2)] obtain rc s1 where r: "send_lines s ls = Inr (rc, s1)" "send_ok s1" "write_buf_size (fst s1) = write_buf_size (fst s)"
    "rc = 0 \<longrightarrow> handed s1 = handed s @ on_wire ls" "tx_queue (snd s) = [] \<longrightarrow> rc = 0 \<and> tx_queue (snd s1) = []" by auto
  show ?thesis
  proof (cases "rc = 0")
    case True
    from send_empty_ok [OF r(2)] r(3) assms(3) obtain rc2 s2 where
      "ic_send_empty_line s1 = Inr (rc2, s2)" "send_ok s2" "rc2 = 0 \<longrightarrow> sent_bytes (snd s2) = handed s1 @ [CARRIAGE_RETURN]" "tx_queue (snd s1) = [] \<longrightarrow> rc2 = 0" by auto
    then show ?thesis using r True by (auto simp: send_message_def and_then_def on_wire_def)
  qed (use r in \<open>auto simp: send_message_def and_then_def\<close>)
qed

section \<open>Properties\<close>

text \<open>
  C17. \<^verbatim>\<open>ic_rec_with_cr\<close> delivers lines: on a new connection with a read buffer of \<open>rbs\<close> characters, whatever the
  segmentation in which the bytes of some lines arrive, and with interrupted calls in between, one call
  after the other returns these lines in order, provided each of them fits into the buffer with its end
  character; what arrived behind them is still to be read.
\<close>

theorem lines_received_in_order:
  assumes "ic_create_socket_object as r client mutex ct rbs = Inr (Some c, r', as')" and "rbs \<noteq> 0" and "steady (rx_queue w)"
    and "stream (rx_queue w) = on_wire ls @ rest" and "\<forall>l \<in> set ls. CARRIAGE_RETURN \<notin> set l \<and> length l < rbs"
  shows "\<exists>s'. rec_lines (length ls) (c, w) = Inr (0, ls, s') \<and> pending s' = rest"
proof -
  have "pending (c, w) = on_wire ls @ rest" using fresh_conn(3) [OF assms(1,2)] assms(4) by simp
  from rec_lines_ok [OF fresh_conn(1) [OF assms(1-3)] this] fresh_conn(5) [OF assms(1,2)] assms(5) show ?thesis by auto
qed

lemma conn_plenty:
  obtains c r' where "ic_create_socket_object [] r client mutex ct rbs = Inr (Some c, r', [])"
  using create_free_ok [of "[]" r client mutex ct rbs] by (auto simp: split: option.splits)

theorem lines_received_in_order_witness:
  "\<exists>c r' s'. ic_create_socket_object [] \<lparr>blocks = 0, mutexes = 0, timers = 0\<rparr> True False False 16 = Inr (Some c, r', []) \<and>
     rec_lines 2 (c, some_net [] [Data ''O'', RxErr EINTR, Data [CHR ''k'', CARRIAGE_RETURN, CARRIAGE_RETURN, CHR ''x'']]) = Inr (0, [''Ok'', ''''], s') \<and>
     pending s' = ''x''"
proof -
  obtain c r' where c: "ic_create_socket_object [] \<lparr>blocks = 0, mutexes = 0, timers = 0\<rparr> True False False 16 = Inr (Some c, r', [])"
    by (rule conn_plenty)
  let ?rx = "[Data ''O'', RxErr EINTR, Data [CHR ''k'', CARRIAGE_RETURN, CARRIAGE_RETURN, CHR ''x'']]"
  have "steady (rx_queue (some_net [] ?rx))" "stream (rx_queue (some_net [] ?rx)) = on_wire [''Ok'', ''''] @ ''x''"
    by (simp_all add: some_net_def steady_def on_wire_def)
  from lines_received_in_order [OF c _ this] c show ?thesis by (auto simp: CARRIAGE_RETURN_def numeral_2_eq_2)
qed


lemma check_silent:
  "rx_queue w = [] \<Longrightarrow> stop_flags w = [] \<Longrightarrow> 0 \<le> t \<Longrightarrow> check_for_data_loop w t False = Inr (False, w)"
proof (induction w t False rule: check_for_data_loop.induct)
  case (1 w t)
  have n: "next_stop w = (False, w)" using "1.prems"(2) by (simp add: next_stop_def)
  have w: "w\<lparr>rx_queue := []\<rparr> = w" using "1.prems"(1) by simp
  have p: "t \<noteq> 0 \<Longrightarrow> poll_rx (rx_queue w) (min t 1000) = Inr (False, [])" using "1.prems" by simp
  show ?case
  proof (cases "t = 0")
    case False
    have "check_for_data_loop w t False = check_for_data_loop w (t - min t 1000) False"
      using False n p w by (simp add: check_for_data_loop.simps [of w t] Let_def)
    then show ?thesis using "1.hyps" [OF False n [symmetric] _ refl p [OF False] refl] w "1.prems" by simp
  qed (simp add: check_for_data_loop.simps)
qed

text \<open>
  A timeout in the middle of a line corrupts the input: when \<^verbatim>\<open>ic_rec_with_cr\<close> moves the unread
  characters to the front of its buffer, finds no end of line and receives nothing in time, it returns
  \<^verbatim>\<open>IC_ERROR_RECEIVE_TIMEOUT\<close> with \<^verbatim>\<open>read_buf_pos\<close> reset and the old \<^verbatim>\<open>size_curr_read_buf\<close>. A
  caller that tries again finds, behind the unread characters, as many stale characters of the buffer
  as lines had been consumed before.
\<close>

theorem timeout_repeats_input:
  assumes "recv_ok (c, w)" and "rx_queue w = []" and "stop_flags w = []" and "0 < read_buf_pos c" and "0 \<le> rec_wait_ms c"
    and "CARRIAGE_RETURN \<notin> set (pending (c, w))" and "size_curr_read_buf c - read_buf_pos c = n"
  shows "\<exists>s'. ic_rec_with_cr (c, w) = Inr (Inl IC_ERROR_RECEIVE_TIMEOUT, s') \<and>
    pending s' = pending (c, w) @ take (read_buf_pos c) (drop n (line_buf (c, w)))"
proof -
  obtain rb where rb: "read_buf c = Some rb" "length rb = read_buf_size c" using assms(1) by (auto simp: recv_ok_def line_buf_def)
  have b: "read_buf_pos c \<le> size_curr_read_buf c" "size_curr_read_buf c \<le> read_buf_size c" using assms(1) by (auto simp: recv_ok_def)
  let ?m = "take n (drop (read_buf_pos c) rb)"
  let ?c = "c\<lparr>read_buf_pos := 0, read_buf := Some (?m @ drop n rb)\<rparr>"
  have pe: "pending (c, w) = ?m" using assms(2,7) rb(1) by (simp add: pending_def line_buf_def)
  have lm: "length ?m = n" using b rb(2) assms(7) by simp
  have "takeWhile (\<lambda>ch. ch \<noteq> CARRIAGE_RETURN) ?m = ?m"
    by (rule takeWhile_eq_all_conv [THEN iffD2]) (use assms(6) pe in auto)
  then have tw: "length (takeWhile (\<lambda>ch. ch \<noteq> CARRIAGE_RETURN) ?m) = n" by (simp only: lm)
  have ck: "check_for_data_on_connection (?c, w) = Inr (False, (?c, w))"
    using check_silent [OF assms(2,3)] assms(5) by (simp add: check_for_data_on_connection_def)
  have rdm: "rd_blk rb (read_buf_pos c) n = Inr ?m" "rd_blk (?m @ drop n rb) 0 n = Inr ?m" using b rb(2) assms(7) lm by simp_all
  have nb: "\<not> read_buf_size c < n" "0 < size_curr_read_buf c" using b assms(4,7) by simp_all
  have loop: "rec_with_cr_loop (c\<lparr>read_buf_pos := 0\<rparr>) w (read_buf_size c) (?m @ drop n rb) n = Inr (Inl IC_ERROR_RECEIVE_TIMEOUT, (?c, w))"
    by (subst rec_with_cr_loop.simps) (use rdm(2) tw nb ck in \<open>simp add: Let_def\<close>)
  have "ic_rec_with_cr (c, w) = Inr (Inl IC_ERROR_RECEIVE_TIMEOUT, (?c, w))"
    using rb b nb assms(7) rdm(1) loop by (simp add: ic_rec_with_cr_def Let_def)
  moreover have "pending (?c, w) = ?m @ take (read_buf_pos c) (drop n rb)"
    using lm assms(2,7) b rb(2) by (auto simp: pending_def line_buf_def)
  ultimately show ?thesis unfolding pe using rb(1) by (intro exI [of _ "(?c, w)"]) (simp add: line_buf_def)
qed

theorem timeout_repeats_input_witness:
  "\<exists>s'. ic_rec_with_cr (some_conn\<lparr>read_buf := Some [CHR ''x'', CARRIAGE_RETURN, CHR ''y'', CHR ''z''], read_buf_size := 4, size_curr_read_buf := 4,
      read_buf_pos := 2, rec_wait_ms := 0\<rparr>, some_net [] []) = Inr (Inl IC_ERROR_RECEIVE_TIMEOUT, s') \<and> pending s' = ''yzyz''"
proof -
  let ?c = "some_conn\<lparr>read_buf := Some [CHR ''x'', CARRIAGE_RETURN, CHR ''y'', CHR ''z''], read_buf_size := 4, size_curr_read_buf := 4,
      read_buf_pos := 2, rec_wait_ms := 0\<rparr>"
  have "recv_ok (?c, some_net [] [])"
    using some_conn_ok by (simp add: recv_ok_def ranges_ok_def line_buf_def some_net_def steady_def)
  from timeout_repeats_input [OF this, of 2] show ?thesis
    by (simp add: some_net_def pending_def line_buf_def CARRIAGE_RETURN_def)
qed

lemma rec_ok_or_error_cases:
  assumes "recv_ok s" and "8 \<le> read_buf_size (fst s)"
  shows "pending s = on_wire [ic_ok_str, []] @ rest \<Longrightarrow> \<exists>s'. ic_rec_ok_or_error s = Inr (0, (True, NULL_BYTE), s') \<and> pending s' = rest"
    and "pending s = on_wire [ic_error_str, msg, []] @ rest \<Longrightarrow>
      \<exists>s'. ic_rec_ok_or_error s = Inr (IC_PROTOCOL_ERROR, (False, NULL_BYTE), s') \<and> pending s' = pending s"
proof -
  have len: "length ic_ok_str < read_buf_size (fst s)" "length ic_error_str < read_buf_size (fst s)" "ic_error_str \<noteq> ic_ok_str"
    using assms(2) by (simp_all add: ic_ok_str_def ic_error_str_def)
  have cr: "CARRIAGE_RETURN \<notin> set ic_ok_str" "CARRIAGE_RETURN \<notin> set ic_error_str"
    by (simp_all add: ic_ok_str_def ic_error_str_def CARRIAGE_RETURN_def)
  {
    assume "pending s = on_wire [ic_ok_str, []] @ rest"
    then have p: "pending s = ic_ok_str @ CARRIAGE_RETURN # (CARRIAGE_RETURN # rest)" by (simp add: on_wire_def)
    from rec_simple_ok [OF assms(1) p cr(1) len(1), of ic_ok_str True] obtain s1 where
      r: "ic_rec_simple_str_impl s ic_ok_str True = Inr (0, True, s1)" "recv_ok s1" "pending s1 = CARRIAGE_RETURN # rest" "send_side s1 = send_side s" by auto
    have "0 < read_buf_size (fst s1)" using r(4) assms(2) by (simp add: send_side_def)
    from rec_empty_ok [OF r(2,3) this] r(1) show "\<exists>s'. ic_rec_ok_or_error s = Inr (0, (True, NULL_BYTE), s') \<and> pending s' = rest"
      by (auto simp: ic_rec_ok_or_error_def ic_rec_simple_str_opt_def)
  }
  {
    assume "pending s = on_wire [ic_error_str, msg, []] @ rest"
    then have p: "pending s = ic_error_str @ CARRIAGE_RETURN # (msg @ CARRIAGE_RETURN # CARRIAGE_RETURN # rest)" by (simp add: on_wire_def)
    from rec_simple_ok [OF assms(1) p cr(2) len(2), of ic_ok_str True] len(3) obtain s1 where
      r: "ic_rec_simple_str_impl s ic_ok_str True = Inr (0, False, s1)" "recv_ok s1" "pending s1 = pending s" "send_side s1 = send_side s" by auto
    have p1: "pending s1 = ic_error_str @ CARRIAGE_RETURN # (msg @ CARRIAGE_RETURN # CARRIAGE_RETURN # rest)" using r(3) p by simp
    have l: "length ic_error_str < read_buf_size (fst s1)" using r(4) len(2) by (simp add: send_side_def)
    have ne: "ic_error_str \<noteq> []" by (simp add: ic_error_str_def)
    from rec_simple_ok [OF r(2) p1 cr(2) l, of "[]" False] ne obtain s2 where
      "ic_rec_simple_str_impl s1 [] False = Inr (IC_PROTOCOL_ERROR, False, s2)" "pending s2 = pending s1" by auto
    then show "\<exists>s'. ic_rec_ok_or_error s = Inr (IC_PROTOCOL_ERROR, (False, NULL_BYTE), s') \<and> pending s' = pending s"
      using r(1,3) by (auto simp: ic_rec_ok_or_error_def ic_rec_simple_str_opt_def ic_rec_empty_line_def ic_rec_simple_str_def ic_empty_string_def)
  }
qed

text \<open>
  \<^verbatim>\<open>ic_rec_ok_or_error\<close> and the replies of \<^verbatim>\<open>ic_send_ok\<close> and \<^verbatim>\<open>ic_send_error_message\<close>: an Ok
  reply is received with return code 0 and the flag set. An error reply, which the function is there to
  receive, is answered with \<^verbatim>\<open>IC_PROTOCOL_ERROR\<close>, the message is not copied and the whole
  reply stays unread.
\<close>

theorem ok_or_error_reply:
  assumes "recv_ok s" and "8 \<le> read_buf_size (fst s)"
  shows "(pending s = on_wire [ic_ok_str, []] @ rest \<longrightarrow> (\<exists>s'. ic_rec_ok_or_error s = Inr (0, (True, NULL_BYTE), s') \<and> pending s' = rest)) \<and>
    (pending s = on_wire [ic_error_str, msg, []] @ rest \<longrightarrow>
      (\<exists>s'. ic_rec_ok_or_error s = Inr (IC_PROTOCOL_ERROR, (False, NULL_BYTE), s') \<and> pending s' = pending s))"
  using rec_ok_or_error_cases [OF assms] by blast

theorem ok_or_error_reply_witness:
  "\<exists>s'. ic_rec_ok_or_error (some_conn\<lparr>read_buf := Some (replicate 16 NULL_BYTE), read_buf_size := 16, size_curr_read_buf := 0, read_buf_pos := 0\<rparr>,
      some_net [] [Data (on_wire [ic_error_str, ''no'', []])]) = Inr (IC_PROTOCOL_ERROR, (False, NULL_BYTE), s') \<and>
    pending s' = on_wire [ic_error_str, ''no'', []]"
proof -
  let ?s = "(some_conn\<lparr>read_buf := Some (replicate 16 NULL_BYTE), read_buf_size := 16, size_curr_read_buf := 0, read_buf_pos := 0\<rparr>,
      some_net [] [Data (on_wire [ic_error_str, ''no'', []])])"
  have r: "recv_ok ?s" using some_conn_ok by (simp add: recv_ok_def ranges_ok_def line_buf_def some_net_def steady_def)
  have p: "pending ?s = on_wire [ic_error_str, ''no'', []] @ []" by (simp add: pending_def some_net_def)
  show ?thesis using ok_or_error_reply [OF r, of "[]" "''no''"] p by simp
qed

end
