(* ===== verification/IC_Pcntrl.thy ===== *)
theory IC_Pcntrl
  imports IC_Hashtable IC_Ptr_Array
begin

text \<open>
  \<^verbatim>\<open>src/pcntrl/ic_pcntrl.c\<close>: the table of processes of the process controller and the threads that work
  on it. Every process is described by an object that is found by its key in the hash table
  \<^verbatim>\<open>glob_pc_hash\<close> and by an index in the pointer array \<^verbatim>\<open>glob_pc_array\<close>, both protected by
  \<^verbatim>\<open>pc_hash_mutex\<close>. The hash table is that of \<open>IC_Hashtable\<close> and the array that of \<open>IC_Ptr_Array\<close>.

  A thread is a program that alternates critical sections, which run under the mutex, with steps
  outside it: starting a program, waiting for a process to stop, looking whether it is alive, freeing
  an object. The operating system's answers are an argument of a step. A system is the shared state and
  a list of threads; in each step some thread moves.
\<close>

section \<open>Error codes and programs\<close>

definition IC_ERROR_PROCESS_NOT_ALIVE :: err where [err_codes]: "IC_ERROR_PROCESS_NOT_ALIVE = 7029"
definition IC_ERROR_CHECK_PROCESS_SCRIPT :: err where [err_codes]: "IC_ERROR_CHECK_PROCESS_SCRIPT = 7031"
definition IC_ERROR_PC_START_ALREADY_ONGOING :: err where [err_codes]: "IC_ERROR_PC_START_ALREADY_ONGOING = 7047"
definition IC_ERROR_PC_PROCESS_ALREADY_RUNNING :: err where [err_codes]: "IC_ERROR_PC_PROCESS_ALREADY_RUNNING = 7048"
definition IC_ERROR_PROCESS_STUCK_IN_START_PHASE :: err where [err_codes]: "IC_ERROR_PROCESS_STUCK_IN_START_PHASE = 7049"
definition IC_ERROR_FAILED_TO_STOP_PROCESS :: err where [err_codes]: "IC_ERROR_FAILED_TO_STOP_PROCESS = 7050"
definition IC_ERROR_PROCESS_ALREADY_BEING_KILLED :: err where [err_codes]: "IC_ERROR_PROCESS_ALREADY_BEING_KILLED = 7096"

section \<open>Processes\<close>

record ic_pc_key =
  grid_name :: "char list"
  cluster_name :: "char list"
  node_name :: "char list"

record ic_pc_start =
  key :: ic_pc_key
  version_string :: "char list"
  program_name :: "char list"
  parameters :: "char list list"
  pid :: nat
  start_id :: guint64
  dyn_trans_index :: guint64
  check_time :: guint64
  autorestart :: bool
  check_ongoing :: bool
  kill_ongoing :: bool

definition ic_pc_hash_key :: "ic_pc_key \<Rightarrow> guint32" where
  "ic_pc_hash_key pc_key =
     (ic_hash_str (grid_name pc_key) XOR ic_hash_str (cluster_name pc_key)) XOR ic_hash_str (node_name pc_key)"

definition ic_pc_key_equal :: "ic_pc_key \<Rightarrow> ic_pc_key \<Rightarrow> bool" where
  "ic_pc_key_equal pc_key1 pc_key2 =
     (\<not> (grid_name pc_key1 \<noteq> grid_name pc_key2 \<or> cluster_name pc_key1 \<noteq> cluster_name pc_key2 \<or>
         node_name pc_key1 \<noteq> node_name pc_key2))"

definition create_pc_hash :: "allocs \<Rightarrow> (ic_pc_key, guint64) ic_hashtable option" where
  "create_pc_hash as = ic_create_hashtable as 4096 ic_pc_hash_key ic_pc_key_equal"

text \<open>
  \<open>objs\<close> are the process objects by their addresses; each has a memory container of its own and
  is freed with it. The key of an object does not change, so that the hash table holds the keys
  themselves in place of pointers to them.
\<close>

record pc_state =
  objs :: "guint64 \<rightharpoonup> ic_pc_start"
  glob_pc_hash :: "(ic_pc_key, guint64) ic_hashtable"
  glob_pc_array :: dyn_state
  glob_start_id :: guint64
  event_occurred :: bool
  pc_hash_mutex :: bool

text \<open>The tables as \<^verbatim>\<open>main\<close> creates them, when it can.\<close>

definition create_tables :: "allocs \<Rightarrow> bool \<Rightarrow> allocs \<Rightarrow> dheap \<Rightarrow> fault + pc_state option" where
  "create_tables as mutex_ok aas dh = (case create_pc_hash as of None \<Rightarrow> Inr None
     | Some h \<Rightarrow> if \<not> mutex_ok then Inr None
       else c_bind (ic_create_dynamic_ptr_array aas dh) (\<lambda>(r, dh, aas). case r of None \<Rightarrow> Inr None
         | Some arr \<Rightarrow> Inr (Some \<lparr>objs = Map.empty, glob_pc_hash = h, glob_pc_array = (dh, arr, aas), glob_start_id = 1,
                                event_occurred = False, pc_hash_mutex = False\<rparr>)))"

definition get_obj :: "pc_state \<Rightarrow> guint64 \<Rightarrow> fault + ic_pc_start" where
  "get_obj s a = (case objs s a of None \<Rightarrow> Inl UseAfterFree | Some p \<Rightarrow> Inr p)"

definition upd_obj :: "pc_state \<Rightarrow> guint64 \<Rightarrow> (ic_pc_start \<Rightarrow> ic_pc_start) \<Rightarrow> fault + pc_state" where
  "upd_obj s a f = c_bind (get_obj s a) (\<lambda>p. Inr (s\<lparr>objs := (objs s)(a \<mapsto> f p)\<rparr>))"

text \<open>\<^verbatim>\<open>mc_ptr->mc_ops.ic_mc_free\<close> of an object's memory container.\<close>

definition free_obj :: "pc_state \<Rightarrow> guint64 \<Rightarrow> fault + pc_state" where
  "free_obj s a = c_bind (get_obj s a) (\<lambda>p. Inr (s\<lparr>objs := (objs s)(a := None)\<rparr>))"

text \<open>
  Looking for a key compares it with the keys of the objects in its chain that have the same hash
  value, up to the one that is found. These objects must be live.
\<close>

fun compared :: "guint32 \<Rightarrow> ic_pc_key \<Rightarrow> (ic_pc_key, guint64) ic_hash_entry list \<Rightarrow> guint64 list" where
  "compared hv k [] = []"
| "compared hv k (e # es) =
     (if hv = eh e then ev e # (if ic_pc_key_equal k (ek e) then [] else compared hv k es) else compared hv k es)"

definition keys_live :: "pc_state \<Rightarrow> ic_pc_key \<Rightarrow> bool" where
  "keys_live s k = (let h = glob_pc_hash s; hv = hash h k; i = indexFor (tablelength h) hv in
     length (table h) \<le> i \<or> (\<forall>a \<in> set (compared hv k (table h ! i)). objs s a \<noteq> None))"

definition hash_search :: "pc_state \<Rightarrow> ic_pc_key \<Rightarrow> fault + guint64 option" where
  "hash_search s k = (if keys_live s k then ic_hashtable_search (glob_pc_hash s) k else Inl UseAfterFree)"

definition remove_pc_entry :: "pc_state \<Rightarrow> guint64 \<Rightarrow> fault + pc_state" where
  "remove_pc_entry s a =
     c_bind (get_obj s a) (\<lambda>pc_start.
     if \<not> keys_live s (key pc_start) then Inl UseAfterFree
     else c_bind (ic_hashtable_remove (glob_pc_hash s) (key pc_start)) (\<lambda>(pc_start_check, h).
       c_require (pc_start_check = Some a)
        (case glob_pc_array s of (dh, arr, as) \<Rightarrow>
           c_bind (remove_ptr dh arr (dyn_trans_index pc_start) a) (\<lambda>(_, dh).
             Inr (s\<lparr>event_occurred := True, glob_pc_hash := h, glob_pc_array := (dh, arr, as)\<rparr>)))))"

text \<open>\<open>as\<close> are the outcomes of the allocations of the hash table.\<close>

definition insert_pc_entry :: "allocs \<Rightarrow> pc_state \<Rightarrow> guint64 \<Rightarrow> fault + (err \<times> pc_state)" where
  "insert_pc_entry as s a =
     (case glob_pc_array s of (dh, arr, aas) \<Rightarrow>
      c_bind (insert_ptr aas dh arr a) (\<lambda>(rc, ix, dh, arr, aas).
        let s = s\<lparr>event_occurred := True, glob_pc_array := (dh, arr, aas)\<rparr> in
        if rc \<noteq> 0 then Inr (rc, s)
        else case ix of None \<Rightarrow> Inl UninitRead
          | Some index \<Rightarrow>
              c_bind (upd_obj s a (\<lambda>p. p\<lparr>dyn_trans_index := index\<rparr>)) (\<lambda>s.
              c_bind (get_obj s a) (\<lambda>pc_start.
              c_bind (ic_hashtable_insert as (glob_pc_hash s) (key pc_start) a) (\<lambda>(rc, h).
                let s = s\<lparr>glob_pc_hash := h\<rparr> in
                if rc \<noteq> 0
                then c_bind (remove_ptr dh arr (dyn_trans_index pc_start) a) (\<lambda>(_, dh).
                       Inr (rc, s\<lparr>glob_pc_array := (dh, arr, aas)\<rparr>))
                else Inr (0, s))))))"

section \<open>Critical sections\<close>

text \<open>
  What follows a critical section of \<^verbatim>\<open>insert_process\<close>: the return code, freeing the object of the
  process found dead and the return code, a sleep of a second before the next try, or the question
  whether the process found is alive.
\<close>

datatype ins_next = Ins_Return err | Ins_Free guint64 err | Ins_Sleep | Ins_Check guint64

text \<open>
  The object tested for \<^verbatim>\<open>kill_ongoing\<close> and \<^verbatim>\<open>check_ongoing\<close> is the caller's own, not the one found.
  The results are also \<^verbatim>\<open>pc_start_hash\<close>, where it is set, and \<^verbatim>\<open>prev_start_id\<close>.
\<close>

definition insert_section ::
  "allocs \<Rightarrow> pc_state \<Rightarrow> guint64 \<Rightarrow> guint64 \<Rightarrow> fault + (ins_next \<times> guint64 option \<times> guint64 \<times> pc_state)"
where
  "insert_section as s a prev_start_id =
     c_bind (get_obj s a) (\<lambda>pc_start.
     c_bind (hash_search s (key pc_start)) (\<lambda>r. case r of
         None \<Rightarrow> c_bind (insert_pc_entry as s a) (\<lambda>(rc, s). Inr (Ins_Return rc, None, prev_start_id, s))
       | Some f \<Rightarrow> c_bind (get_obj s f) (\<lambda>pc_start_found.
           if pid pc_start_found = 0 then Inr (Ins_Return IC_ERROR_PC_START_ALREADY_ONGOING, Some f, prev_start_id, s)
           else if kill_ongoing pc_start \<or> check_ongoing pc_start then Inr (Ins_Sleep, Some f, prev_start_id, s)
           else if start_id pc_start_found = prev_start_id
           then c_bind (remove_pc_entry s f) (\<lambda>s. c_bind (insert_pc_entry as s a) (\<lambda>(rc, s).
                  Inr (Ins_Free f rc, Some f, prev_start_id, s)))
           else Inr (Ins_Check f, Some f, start_id pc_start_found, s))))"

text \<open>The end of \<^verbatim>\<open>handle_start\<close> for a process that runs.\<close>

definition set_pid_section :: "pc_state \<Rightarrow> guint64 \<Rightarrow> nat \<Rightarrow> fault + pc_state" where
  "set_pid_section s a p =
     c_bind (upd_obj s a (\<lambda>x. x\<lparr>pid := p, start_id := glob_start_id s\<rparr>)) (\<lambda>s'.
       Inr (s'\<lparr>glob_start_id := glob_start_id s + 1\<rparr>))"

text \<open>
  The section of \<^verbatim>\<open>delete_process\<close> with the first lines of \<^verbatim>\<open>kill_process\<close>. The flag of the result says
  whether the mutex is released: it is not when the process is being killed by another thread.
\<close>

datatype del_next = Del_Return err bool | Del_Sleep | Del_Kill guint64 nat guint64

definition delete_section :: "pc_state \<Rightarrow> ic_pc_key \<Rightarrow> nat \<Rightarrow> fault + (del_next \<times> pc_state)" where
  "delete_section s k loop_count =
     c_bind (hash_search s k) (\<lambda>r. case r of
         None \<Rightarrow> Inr (Del_Return 0 True, s)
       | Some f \<Rightarrow> c_bind (get_obj s f) (\<lambda>p.
           if pid p = 0 \<or> check_ongoing p
           then Inr (if loop_count + 1 = 10 then Del_Return IC_ERROR_PROCESS_STUCK_IN_START_PHASE True else Del_Sleep, s)
           else if kill_ongoing p then Inr (Del_Return IC_ERROR_PROCESS_ALREADY_BEING_KILLED False, s)
           else c_bind (upd_obj s f (\<lambda>p. p\<lparr>kill_ongoing := True\<rparr>)) (\<lambda>s. Inr (Del_Kill f (pid p) (start_id p), s))))"

text \<open>The section of \<^verbatim>\<open>kill_process\<close> that removes the process, and that of its error exit.\<close>

definition kill_section :: "pc_state \<Rightarrow> ic_pc_key \<Rightarrow> nat \<Rightarrow> guint64 \<Rightarrow> fault + (guint64 \<times> pc_state)" where
  "kill_section s k p sid =
     c_bind (hash_search s k) (\<lambda>r. case r of None \<Rightarrow> Inl RequireFail
       | Some f \<Rightarrow> c_bind (get_obj s f) (\<lambda>x.
           c_require (pid x = p \<and> start_id x = sid) (c_bind (remove_pc_entry s f) (\<lambda>s. Inr (f, s)))))"

definition kill_error_section :: "pc_state \<Rightarrow> guint64 \<Rightarrow> fault + pc_state" where
  "kill_error_section s f = upd_obj s f (\<lambda>x. x\<lparr>kill_ongoing := False\<rparr>)"

text \<open>The section of \<^verbatim>\<open>run_check_thread\<close> that takes the process \<open>f\<close>, and the one after a positive answer.\<close>

definition check_section :: "pc_state \<Rightarrow> guint64 \<Rightarrow> guint64 \<Rightarrow> fault + (bool \<times> pc_state)" where
  "check_section s f ct =
     c_bind (get_obj s f) (\<lambda>x.
       if check_time x = ct \<or> pid x = 0 then Inr (False, s)
       else c_bind (upd_obj s f (\<lambda>x. x\<lparr>check_ongoing := True, check_time := ct\<rparr>)) (\<lambda>s. Inr (True, s)))"

definition check_done_section :: "pc_state \<Rightarrow> guint64 \<Rightarrow> fault + pc_state" where
  "check_done_section s f = upd_obj s f (\<lambda>x. x\<lparr>check_ongoing := False\<rparr>)"


section \<open>Starting a program\<close>

text \<open>\<^verbatim>\<open>strcmp\<close> sees the characters of a string before its first null byte.\<close>

definition c_text :: "char list \<Rightarrow> char list" where
  "c_text s = takeWhile (\<lambda>ch. ch \<noteq> NULL_BYTE) s"

definition IC_ERROR_PROGRAM_NOT_SUPPORTED :: err where [err_codes]: "IC_ERROR_PROGRAM_NOT_SUPPORTED = 7099"

definition ic_data_server_program_str :: "char list" where "ic_data_server_program_str = ''ndbmtd''"

definition check_certified_program :: "char list \<Rightarrow> err" where
  "check_certified_program prog =
     (if c_text prog = ''ic_csd'' \<or> c_text prog = ''ic_clmgrd'' \<or> c_text prog = ''ic_fsd'' \<or> c_text prog = ''ic_repd'' \<or>
         c_text prog = ic_data_server_program_str then 0 else IC_ERROR_PROGRAM_NOT_SUPPORTED)"

definition IC_MAX_NODE_ID :: guint64 where "IC_MAX_NODE_ID = 255"

text \<open>\<open>conv\<close> is \<^verbatim>\<open>ic_conv_str_to_int\<close>: the return code and the number.\<close>

definition get_node_id_from_str :: "(char list \<Rightarrow> err \<times> guint64) \<Rightarrow> char list \<Rightarrow> guint32" where
  "get_node_id_from_str conv str = (case conv str of (rc, number) \<Rightarrow>
     if rc \<noteq> 0 then 0 else if number > IC_MAX_NODE_ID then 0 else ucast number)"

fun nodeid_loop :: "(char list \<Rightarrow> err \<times> guint64) \<Rightarrow> char list \<Rightarrow> char list list \<Rightarrow> guint32" where
  "nodeid_loop conv opt [] = 0"
| "nodeid_loop conv opt (x # xs) =
     (if c_text x = opt \<and> xs \<noteq> [] then get_node_id_from_str conv (hd xs) else nodeid_loop conv opt xs)"

definition get_nodeid_in_arg_vector :: "(char list \<Rightarrow> err \<times> guint64) \<Rightarrow> char list list \<Rightarrow> guint32" where
  "get_nodeid_in_arg_vector conv arg_vector =
     nodeid_loop conv (if c_text (hd arg_vector) = ic_data_server_program_str then ''--ndb-nodeid'' else ''--node-id'') (tl arg_vector)"

fun daemon_loop :: "bool \<Rightarrow> char list list \<Rightarrow> bool \<Rightarrow> bool" where
  "daemon_loop ndb [] is_daemon_process = is_daemon_process"
| "daemon_loop ndb (x # xs) is_daemon_process =
     daemon_loop ndb xs
       (if ndb then (if c_text x = ''--nodaemon'' then False else if c_text x = ''--foreground'' then False else is_daemon_process)
        else if c_text x = ''--daemonize'' \<and> xs \<noteq> [] \<and> c_text (hd xs) \<noteq> ''0'' then False else is_daemon_process)"

definition check_for_daemon_in_arg_vector :: "char list list \<Rightarrow> bool" where
  "check_for_daemon_in_arg_vector arg_vector =
     daemon_loop (c_text (hd arg_vector) = ic_data_server_program_str) (tl arg_vector) True"

text \<open>
  What the operating system and the allocator answer while \<^verbatim>\<open>handle_start\<close> starts the program: the return
  codes of its calls, what the pid file holds, and whether the process is alive.
\<close>

record start_env =
  rc_binary_dir :: err
  rc_pid_file :: err
  read_pid :: "err + nat"
  alive_old :: "err list"
  rc_log_file :: err
  rc_dups :: "err list"
  rc_working_dir :: err
  rc_mkdir :: err
  start_result :: "err + nat"
  alive_new :: err

datatype launch = Started nat | Late_Error err | Early_Error err

text \<open>The seconds spent waiting for a left-over process after it has been killed.\<close>

fun wait_gone :: "err list \<Rightarrow> nat \<Rightarrow> nat" where
  "wait_gone [] secs_to_wait = secs_to_wait"
| "wait_gone (rc # rcs) secs_to_wait =
     (if rc = 0 then if 30 < secs_to_wait then secs_to_wait + 1 else wait_gone rcs (secs_to_wait + 1) else secs_to_wait)"

fun first_error :: "err list \<Rightarrow> err option" where
  "first_error [] = None"
| "first_error (rc # rcs) = (if rc \<noteq> 0 then Some rc else first_error rcs)"

text \<open>
  The part of \<^verbatim>\<open>handle_start\<close> between the booking of the process and its last section, as far as its
  exit is concerned: the process runs, or one of the labels \<^verbatim>\<open>late_error\<close> and \<^verbatim>\<open>error\<close> is reached.
\<close>

definition launch_program :: "start_env \<Rightarrow> bool \<Rightarrow> bool \<Rightarrow> launch" where
  "launch_program env is_daemon_process is_ndb =
     (if rc_binary_dir env \<noteq> 0 then Late_Error (rc_binary_dir env)
      else case (if is_daemon_process
                 then first_error (rc_pid_file env #
                   (if is_ndb then rc_log_file env # take 6 (rc_dups env) @ [rc_working_dir env, rc_mkdir env] else []))
                 else None) of
        Some rc \<Rightarrow> Early_Error rc
      | None \<Rightarrow> (case start_result env of
            Inl rc \<Rightarrow> Late_Error rc
          | Inr p \<Rightarrow> if alive_new env \<noteq> 0 then Late_Error (alive_new env) else Started p))"

section \<open>Listing processes\<close>

text \<open>A search key may lack its later parts.\<close>

record ic_pc_find =
  find_grid :: "char list option"
  find_cluster :: "char list option"
  find_node :: "char list option"

definition is_list_match :: "ic_pc_start \<Rightarrow> ic_pc_find \<Rightarrow> bool" where
  "is_list_match pc_start pc_find =
     (case find_grid pc_find of None \<Rightarrow> True
      | Some g \<Rightarrow> if g \<noteq> grid_name (key pc_start) then False
        else case find_cluster pc_find of None \<Rightarrow> True
        | Some c \<Rightarrow> if c \<noteq> cluster_name (key pc_start) then False
          else case find_node pc_find of None \<Rightarrow> True
          | Some n \<Rightarrow> n = node_name (key pc_start))"

text \<open>\<open>n\<close> allocations one after the other, until one fails.\<close>

fun alloc_many :: "allocs \<Rightarrow> nat \<Rightarrow> bool \<times> allocs" where
  "alloc_many as 0 = (True, as)"
| "alloc_many as (Suc n) = (case alloc_next as of (ok, as) \<Rightarrow> if ok then alloc_many as n else (False, as))"

definition copy_pc_start :: "allocs \<Rightarrow> ic_pc_start \<Rightarrow> bool \<Rightarrow> ic_pc_start option \<times> allocs" where
  "copy_pc_start as pc_start list_full_flag =
     (case alloc_many as (6 + (if list_full_flag then 1 + length (parameters pc_start) else 0)) of (ok, as) \<Rightarrow>
        (if ok then Some pc_start else None, as))"

text \<open>
  The loop of \<^verbatim>\<open>handle_list\<close> over the given indexes, which runs under the mutex: its return code and the
  copies of the processes that match.
\<close>

fun list_loop ::
  "allocs \<Rightarrow> pc_state \<Rightarrow> ic_pc_find \<Rightarrow> bool \<Rightarrow> nat list \<Rightarrow> fault + (err \<times> ic_pc_start list)"
where
  "list_loop as s pc_find full [] = Inr (0, [])"
| "list_loop as s pc_find full (i # is) =
     (case glob_pc_array s of (dh, arr, _) \<Rightarrow>
      c_bind (get_ptr dh arr (of_nat i)) (\<lambda>(rc, r).
        if rc \<noteq> 0 then Inr (rc, [])
        else case r of None \<Rightarrow> Inl UninitRead
          | Some a \<Rightarrow>
              if a = 0 then list_loop as s pc_find full is
              else c_bind (get_obj s a) (\<lambda>p.
                if \<not> is_list_match p pc_find then list_loop as s pc_find full is
                else case copy_pc_start as p full of (c, as) \<Rightarrow> (case c of
                    None \<Rightarrow> Inr (IC_ERROR_MEM_ALLOC, [])
                  | Some p \<Rightarrow> c_bind (list_loop as s pc_find full is) (\<lambda>(rc, ps). Inr (rc, p # ps))))))"

text \<open>Every error exit of the loop leaves the mutex locked.\<close>

definition list_section :: "allocs \<Rightarrow> pc_state \<Rightarrow> ic_pc_find \<Rightarrow> bool \<Rightarrow> fault + (err \<times> ic_pc_start list \<times> pc_state)" where
  "list_section as s pc_find full =
     c_bind (list_loop as s pc_find full [0..<get_max_index (fst (snd (glob_pc_array s)))]) (\<lambda>(rc, ps).
       Inr (rc, ps, s\<lparr>pc_hash_mutex := rc \<noteq> 0\<rparr>))"

section \<open>Threads\<close>

text \<open>\<^verbatim>\<open>ic_is_process_alive\<close>, given the error and the exit status of the script it runs.\<close>

definition ic_is_process_alive :: "err \<Rightarrow> int \<Rightarrow> err" where
  "ic_is_process_alive error exit_status =
     (if error \<noteq> 0 \<or> exit_status = 2 then IC_ERROR_CHECK_PROCESS_SCRIPT
      else if exit_status = 1 then 0 else IC_ERROR_PROCESS_NOT_ALIVE)"

datatype os_answer = Script err int | Launch launch | Visit guint64 | Next_Pass | Nothing

text \<open>
  The places at which a thread can be: \<^verbatim>\<open>handle_start\<close> with \<^verbatim>\<open>insert_process\<close>, \<^verbatim>\<open>delete_process\<close> with
  \<^verbatim>\<open>kill_process\<close>, \<^verbatim>\<open>run_check_thread\<close>, \<^verbatim>\<open>handle_list\<close>, and the end with a return code.
\<close>

datatype thread =
    S_Insert guint64 guint64 nat "guint64 option"   \<comment> \<open>\<^verbatim>\<open>pc_start\<close>, \<^verbatim>\<open>prev_start_id\<close>, \<^verbatim>\<open>retry_count\<close>, \<^verbatim>\<open>pc_start_hash\<close>\<close>
  | S_Check guint64 guint64 guint64 nat             \<comment> \<open>\<^verbatim>\<open>pc_start\<close>, \<^verbatim>\<open>pc_start_found\<close>, \<^verbatim>\<open>prev_start_id\<close>, \<^verbatim>\<open>retry_count\<close>\<close>
  | S_Free guint64 guint64 err
  | S_Launch guint64
  | S_Set_Pid guint64 nat
  | S_Report guint64
  | S_Late guint64 err
  | S_Error guint64 "guint64 option" err
  | D_Try ic_pc_key nat
  | K_Wait ic_pc_key guint64 nat guint64 nat        \<comment> \<open>key, \<^verbatim>\<open>pc_start_found\<close>, \<^verbatim>\<open>pid\<close>, \<^verbatim>\<open>start_id\<close>, \<^verbatim>\<open>loop_count\<close>\<close>
  | K_Remove ic_pc_key nat guint64
  | K_Free guint64
  | K_Error guint64 err
  | C_Scan guint64
  | C_Check guint64 guint64
  | C_Remove guint64 guint64
  | C_Free guint64 guint64
  | C_Done guint64 guint64
  | L_Scan ic_pc_find bool
  | Returned err

text \<open>A section waits for the mutex; \<open>None\<close> says that the thread cannot move.\<close>

definition under_mutex :: "pc_state \<Rightarrow> (fault + 'a) \<Rightarrow> fault + 'a option" where
  "under_mutex s m = (if pc_hash_mutex s then Inr None else c_bind m (\<lambda>r. Inr (Some r)))"

definition start_step :: "allocs \<Rightarrow> pc_state \<Rightarrow> guint64 \<Rightarrow> guint64 \<Rightarrow> nat \<Rightarrow> guint64 option \<Rightarrow> fault + (thread \<times> pc_state)" where
  "start_step as s a prev retry_count fo =
     c_bind (insert_section as s a prev) (\<lambda>(nx, f, prev, s).
       let fo = (case f of None \<Rightarrow> fo | Some _ \<Rightarrow> f) in
       Inr (case nx of
           Ins_Return rc \<Rightarrow> (if rc = 0 then S_Launch a else S_Error a fo rc, s)
         | Ins_Free g rc \<Rightarrow> (S_Free a g rc, s)
         | Ins_Sleep \<Rightarrow> (if 10 < retry_count + 1 then S_Error a fo IC_ERROR_PC_PROCESS_ALREADY_RUNNING
                        else S_Insert a prev (retry_count + 1) fo, s)
         | Ins_Check g \<Rightarrow> (S_Check a g prev retry_count, s)))"

definition delete_step :: "pc_state \<Rightarrow> ic_pc_key \<Rightarrow> nat \<Rightarrow> fault + (thread \<times> pc_state)" where
  "delete_step s k loop_count =
     c_bind (delete_section s k loop_count) (\<lambda>(nx, s). Inr (case nx of
         Del_Return rc released \<Rightarrow> (Returned rc, s\<lparr>pc_hash_mutex := \<not> released\<rparr>)
       | Del_Sleep \<Rightarrow> (D_Try k (loop_count + 1), s)
       | Del_Kill f p sid \<Rightarrow> (K_Wait k f p sid 0, s)))"

definition in_table :: "pc_state \<Rightarrow> guint64 \<Rightarrow> bool" where
  "in_table s a = list_ex (\<lambda>e. ev e = a) (concat (table (glob_pc_hash s)))"

text \<open>\<open>check_step\<close>: the iterator of the check thread may visit any entry of the table.\<close>

definition check_step :: "pc_state \<Rightarrow> guint64 \<Rightarrow> os_answer \<Rightarrow> fault + (thread \<times> pc_state) option" where
  "check_step s ct os = (case os of
       Visit f \<Rightarrow> if in_table s f
         then under_mutex s (c_bind (check_section s f ct) (\<lambda>(taken, s). Inr (if taken then C_Check f ct else C_Scan ct, s)))
         else Inr None
     | Next_Pass \<Rightarrow> under_mutex s (Inr (C_Scan (ct + 30), s\<lparr>event_occurred := False\<rparr>))
     | _ \<Rightarrow> Inr None)"

text \<open>A question to the operating system; the name of the program is read from the object.\<close>

definition ask :: "pc_state \<Rightarrow> guint64 \<Rightarrow> os_answer \<Rightarrow> (err \<Rightarrow> thread) \<Rightarrow> fault + (thread \<times> pc_state) option" where
  "ask s f os k = (case os of
       Script e x \<Rightarrow> c_bind (get_obj s f) (\<lambda>_. Inr (Some (k (ic_is_process_alive e x), s)))
     | _ \<Rightarrow> Inr None)"

fun thread_step :: "allocs \<Rightarrow> os_answer \<Rightarrow> thread \<Rightarrow> pc_state \<Rightarrow> fault + (thread \<times> pc_state) option" where
  "thread_step as os (S_Insert a prev n fo) s = under_mutex s (start_step as s a prev n fo)"
| "thread_step as os (S_Check a f prev n) s = ask s f os (\<lambda>rc.
     if rc = 0 then S_Error a (Some f) IC_ERROR_PC_PROCESS_ALREADY_RUNNING
     else if rc = IC_ERROR_CHECK_PROCESS_SCRIPT then S_Error a (Some f) rc
     else S_Insert a prev n (Some f))"
| "thread_step as os (S_Free a f rc) s =
     c_bind (free_obj s f) (\<lambda>s. Inr (Some (if rc = 0 then S_Launch a else S_Error a (Some f) rc, s)))"
| "thread_step as os (S_Launch a) s = (case os of
       Launch r \<Rightarrow> c_bind (get_obj s a) (\<lambda>_. Inr (Some (case r of
           Started p \<Rightarrow> S_Set_Pid a p | Late_Error rc \<Rightarrow> S_Late a rc | Early_Error rc \<Rightarrow> S_Error a None rc, s)))
     | _ \<Rightarrow> Inr None)"
| "thread_step as os (S_Set_Pid a p) s = under_mutex s (c_bind (set_pid_section s a p) (\<lambda>s. Inr (S_Report a, s)))"
| "thread_step as os (S_Report a) s = c_bind (get_obj s a) (\<lambda>_. Inr (Some (Returned 0, s)))"
| "thread_step as os (S_Late a rc) s = under_mutex s (c_bind (remove_pc_entry s a) (\<lambda>s. Inr (S_Error a None rc, s)))"
| "thread_step as os (S_Error a fo rc) s = c_bind (free_obj s a) (\<lambda>s.
     if rc = IC_ERROR_PC_PROCESS_ALREADY_RUNNING
     then (case fo of None \<Rightarrow> Inl NullDeref | Some f \<Rightarrow> c_bind (get_obj s f) (\<lambda>_. Inr (Some (Returned 0, s))))
     else Inr (Some (Returned rc, s)))"
| "thread_step as os (D_Try k n) s = under_mutex s (delete_step s k n)"
| "thread_step as os (K_Wait k f p sid n) s = ask s f os (\<lambda>rc.
     if rc = 0 then if 10 < n + 1 then K_Error f IC_ERROR_FAILED_TO_STOP_PROCESS else K_Wait k f p sid (n + 1)
     else if rc = IC_ERROR_CHECK_PROCESS_SCRIPT then K_Error f rc
     else K_Remove k p sid)"
| "thread_step as os (K_Remove k p sid) s = under_mutex s (c_bind (kill_section s k p sid) (\<lambda>(f, s). Inr (K_Free f, s)))"
| "thread_step as os (K_Free f) s = c_bind (free_obj s f) (\<lambda>s. Inr (Some (Returned 0, s)))"
| "thread_step as os (K_Error f rc) s = under_mutex s (c_bind (kill_error_section s f) (\<lambda>s. Inr (Returned rc, s)))"
| "thread_step as os (C_Scan ct) s = check_step s ct os"
| "thread_step as os (C_Check f ct) s = ask s f os (\<lambda>rc. if rc \<noteq> 0 then C_Remove f ct else C_Done f ct)"
| "thread_step as os (C_Remove f ct) s = under_mutex s (c_bind (remove_pc_entry s f) (\<lambda>s. Inr (C_Free f ct, s)))"
| "thread_step as os (C_Free f ct) s = c_bind (free_obj s f) (\<lambda>s. Inr (Some (C_Scan ct, s)))"
| "thread_step as os (C_Done f ct) s = under_mutex s (c_bind (check_done_section s f) (\<lambda>s. Inr (C_Scan ct, s)))"
| "thread_step as os (L_Scan pc_find full) s =
     under_mutex s (c_bind (list_section as s pc_find full) (\<lambda>(rc, ps, s). Inr (Returned rc, s)))"
| "thread_step as os (Returned rc) s = Inr None"

text \<open>
  A system: the shared state and its threads. A step goes to a new system or to a fault; \<open>ok\<close> says which
  outcomes of allocations and which answers of the operating system are considered.
\<close>

type_synonym system = "pc_state \<times> thread list"

inductive pc_step :: "(allocs \<Rightarrow> os_answer \<Rightarrow> bool) \<Rightarrow> system \<Rightarrow> fault + system \<Rightarrow> bool" for ok where
  moves: "ok as os \<Longrightarrow> i < length ts \<Longrightarrow> thread_step as os (ts ! i) s = Inr (Some (t, s')) \<Longrightarrow>
    pc_step ok (s, ts) (Inr (s', ts[i := t]))"
| faults: "ok as os \<Longrightarrow> i < length ts \<Longrightarrow> thread_step as os (ts ! i) s = Inl f \<Longrightarrow> pc_step ok (s, ts) (Inl f)"

inductive pc_reach :: "(allocs \<Rightarrow> os_answer \<Rightarrow> bool) \<Rightarrow> system \<Rightarrow> fault + system \<Rightarrow> bool" for ok where
  here: "pc_reach ok c (Inr c)"
| further: "pc_reach ok c (Inr c') \<Longrightarrow> pc_step ok c' r \<Longrightarrow> pc_reach ok c r"

inductive_cases pc_stepE: "pc_step ok (s, ts) r"

end
