(* ===== verification/IC_Pcntrl_Table.thy ===== *)
theory IC_Pcntrl_Table
  imports IC_Pcntrl
begin

text \<open>
  The table of processes: its invariant, which ties the hash table, the pointer array and the objects
  together, and what the operations on entries do to it. The facts on the hash table come from the
  interpretation \<open>ht\<close> of the interface \<open>key_table\<close>.
\<close>

lemma pc_key_equal_eq: "ic_pc_key_equal = (=)"
proof (intro ext)
  fix k1 k2 :: ic_pc_key
  show "ic_pc_key_equal k1 k2 = (k1 = k2)" by (cases k1; cases k2) (auto simp: ic_pc_key_equal_def)
qed

definition lookup :: "pc_state \<Rightarrow> ic_pc_key \<Rightarrow> guint64 option" where
  "lookup s k = (case ic_hashtable_search (glob_pc_hash s) k of Inl _ \<Rightarrow> None | Inr r \<Rightarrow> r)"

text \<open>
  \<open>es\<close> are the entries of the array behind the first; \<open>n\<close> insertions and \<open>m\<close> start numbers are still
  available.
\<close>

definition entry_ok :: "guint64 list \<Rightarrow> ic_pc_start \<Rightarrow> guint64 \<Rightarrow> bool" where
  "entry_ok es p a \<longleftrightarrow> 0 < unat (dyn_trans_index p) \<and> unat (dyn_trans_index p) \<le> length es \<and> es ! (unat (dyn_trans_index p) - 1) = a \<and>
     (pid p \<noteq> 0 \<longrightarrow> start_id p \<noteq> 0)"

definition array_ok :: "guint64 list \<Rightarrow> nat \<Rightarrow> dyn_state \<Rightarrow> bool" where
  "array_ok es n = (\<lambda>(dh, arr, as). as = [] \<and> (\<exists>h0. ptr_repr h0 (dh, arr, []) (0 # es)) \<and> total_size_in_bytes arr = 8 * length (0 # es) \<and>
     8 * (length es + n + 2) < 18446744073709551616)"

definition table_with :: "guint64 list \<Rightarrow> nat \<Rightarrow> nat \<Rightarrow> pc_state \<Rightarrow> bool" where
  "table_with es n m s \<longleftrightarrow> ht_inv (glob_pc_hash s) \<and> eqfn (glob_pc_hash s) = (=) \<and> array_ok es n (glob_pc_array s) \<and>
     (\<forall>k a. lookup s k = Some a \<longrightarrow> (\<exists>p. objs s a = Some p \<and> key p = k \<and> entry_ok es p a)) \<and>
     0 < unat (glob_start_id s) \<and> unat (glob_start_id s) + m < 18446744073709551616"

definition table_ok :: "nat \<Rightarrow> nat \<Rightarrow> pc_state \<Rightarrow> bool" where
  "table_ok n m s \<longleftrightarrow> (\<exists>es. table_with es n m s)"

lemma search_lookup: "ht_inv (glob_pc_hash s) \<Longrightarrow> ic_hashtable_search (glob_pc_hash s) k = Inr (lookup s k)"
  using ht.search_returns [of "glob_pc_hash s" k] by (auto simp: lookup_def)

lemma lookup_cong: "glob_pc_hash s' = glob_pc_hash s \<Longrightarrow> lookup s' k = lookup s k"
  by (simp add: lookup_def)

lemma table_live:
  "table_ok n m s \<Longrightarrow> lookup s k = Some a \<Longrightarrow> \<exists>p. objs s a = Some p \<and> key p = k \<and> (pid p \<noteq> 0 \<longrightarrow> start_id p \<noteq> 0)"
  unfolding table_ok_def table_with_def entry_ok_def by blast

text \<open>Every entry of the hash table is the one its key leads to.\<close>

lemma entry_found:
  assumes "ht_inv h" and "e \<in> set (concat (table h))"
  shows "ic_hashtable_search h (ek e) = Inr (Some (ev e))"
proof -
  have ok: "ht_ok h" "unique_keys h" "key_funs_ok h" using assms(1) by (simp_all add: ht_inv_def)
  have "hits h (ek e) e" using ht_ok_entries [OF ok(1) assms(2)] key_funs_eq(1) [OF ok(3)] by (simp add: hits_def)
  then have i: "e \<in> set (filter (hits h (ek e)) (concat (table h)))" using assms(2) by simp
  have "size (mset (filter (hits h (ek e)) (concat (table h)))) \<le> 1" using ok(2) unfolding unique_keys_def mset_filter by blast
  then have "length (filter (hits h (ek e)) (concat (table h))) \<le> 1" by (simp only: size_mset)
  with i have "filter (hits h (ek e)) (concat (table h)) = [e]"
    by (cases "filter (hits h (ek e)) (concat (table h))") (auto simp: le_Suc_eq)
  then show ?thesis unfolding search_eq [OF ok(1)] by simp
qed

lemma compared_sub: "set (compared hv k es) \<subseteq> ev ` set es"
  by (induction es) auto

lemma keys_live_ok: "table_ok n m s \<Longrightarrow> keys_live s k"
proof -
  assume t: "table_ok n m s"
  let ?h = "glob_pc_hash s" and ?i = "indexFor (tablelength (glob_pc_hash s)) (hash (glob_pc_hash s) k)"
  have inv: "ht_inv ?h" using t by (auto simp: table_ok_def table_with_def)
  have "objs s a \<noteq> None" if i: "?i < length (table ?h)" and a: "a \<in> set (compared (hash ?h k) k (table ?h ! ?i))" for a
  proof -
    obtain e where e: "e \<in> set (table ?h ! ?i)" "a = ev e" using a compared_sub by fast
    then have "e \<in> set (concat (table ?h))" using i by auto
    then have "lookup s (ek e) = Some a" using entry_found [OF inv] e(2) by (simp add: lookup_def)
    then show ?thesis using table_live [OF t] by blast
  qed
  then show ?thesis unfolding keys_live_def Let_def by (meson not_le)
qed

lemma table_inv: "table_ok n m s \<Longrightarrow> ht_inv (glob_pc_hash s)"
  by (auto simp: table_ok_def table_with_def)

lemma hash_search_ok: "table_ok n m s \<Longrightarrow> hash_search s k = Inr (lookup s k)"
  by (simp add: hash_search_def keys_live_ok search_lookup table_inv)

lemma in_table_lookup:
  assumes "table_ok n m s"
  shows "in_table s a \<longleftrightarrow> (\<exists>k. lookup s k = Some a)"
proof
  have inv: "ht_inv (glob_pc_hash s)" by (rule table_inv [OF assms])
  {
    assume "in_table s a"
    then obtain e where "e \<in> set (concat (table (glob_pc_hash s)))" "ev e = a" unfolding in_table_def list_ex_iff by blast
    then have "lookup s (ek e) = Some a" using entry_found [OF inv] by (simp add: lookup_def)
    then show "\<exists>k. lookup s k = Some a" ..
  }
  assume "\<exists>k. lookup s k = Some a"
  then obtain k where "ic_hashtable_search (glob_pc_hash s) k = Inr (Some a)" using search_lookup [OF inv] by force
  moreover have "ht_ok (glob_pc_hash s)" using inv by (simp add: ht_inv_def)
  ultimately obtain e es where "filter (hits (glob_pc_hash s) k) (concat (table (glob_pc_hash s))) = e # es" "ev e = a"
    by (auto simp: search_eq split: list.splits)
  then have "e \<in> set (concat (table (glob_pc_hash s)))" by (metis filter_is_subset list.set_intros(1) subsetD)
  then show "in_table s a" using \<open>ev e = a\<close> unfolding in_table_def list_ex_iff by blast
qed

lemma remove_entry_with:
  assumes t: "table_with es n m s" and "lookup s k = Some a" and "objs s a = Some p"
  shows "\<exists>s'. remove_pc_entry s a = Inr s' \<and> table_with (es[unat (dyn_trans_index p) - 1 := HIGHEST_BIT_SET]) n m s' \<and> objs s' = objs s \<and> pc_hash_mutex s' = pc_hash_mutex s \<and>
    (\<forall>k'. lookup s' k' = (if k' = k then None else lookup s k'))"
proof -
  have tk: "table_ok n m s" using t by (auto simp: table_ok_def)
  obtain dh arr h0 where arr: "glob_pc_array s = (dh, arr, [])" "ptr_repr h0 (dh, arr, []) (0 # es)"
    "total_size_in_bytes arr = 8 * length (0 # es)" "8 * (length es + n + 2) < 18446744073709551616"
    using t by (cases "glob_pc_array s") (auto simp: table_with_def array_ok_def)
  obtain q where "objs s a = Some q" "key q = k" "entry_ok es q a" using t assms(2) by (auto simp: table_with_def)
  then have p: "objs s a = Some p" "key p = k" "entry_ok es p a" using assms(3) by simp_all
  have inv: "ht_inv (glob_pc_hash s)" "eqfn (glob_pc_hash s) = (=)" using t by (simp_all add: table_with_def)
  from ht.remove_gone [OF inv(1), of k] obtain r h where
    h: "ic_hashtable_remove (glob_pc_hash s) k = Inr (r, h)" "ic_hashtable_search (glob_pc_hash s) k = Inr r" "ht_inv h" "eqfn h = (=)"
      "\<forall>k'. ic_hashtable_search h k' = (if k' = k then Inr None else ic_hashtable_search (glob_pc_hash s) k')"
    using inv(2) by auto
  have r: "r = Some a" using h(2) assms(2) search_lookup [OF inv(1), of k] by simp
  let ?i = "unat (dyn_trans_index p)"
  have i: "0 < ?i" "?i \<le> length es" "es ! (?i - 1) = a" "(of_nat ?i :: guint64) = dyn_trans_index p" using p(3) by (simp_all add: entry_ok_def)
  from remove_ptr_ok [OF arr(2) i(1,2) _ i(3)] arr(4) i(4) obtain dh' where
    dh': "remove_ptr dh arr (dyn_trans_index p) a = Inr (0, dh')" "ptr_repr h0 (dh', arr, []) (0 # es[?i - 1 := HIGHEST_BIT_SET])" by auto
  define s' where "s' = s\<lparr>event_occurred := True, glob_pc_hash := h, glob_pc_array := (dh', arr, [])\<rparr>"
  have rm: "remove_pc_entry s a = Inr s'"
    using p(1,2) h(1) r dh'(1) arr(1) keys_live_ok [OF tk] by (simp add: remove_pc_entry_def get_obj_def s'_def)
  have lk: "lookup s' k' = (if k' = k then None else lookup s k')" for k'
    using h(5) by (simp add: lookup_def s'_def)
  have ent: "entry_ok (es[?i - 1 := HIGHEST_BIT_SET]) q b" if "entry_ok es q b" "b \<noteq> a" for q b
    using that i by (auto simp: entry_ok_def nth_list_update)
  have "\<exists>q. objs s' b = Some q \<and> key q = k' \<and> entry_ok (es[?i - 1 := HIGHEST_BIT_SET]) q b" if l: "lookup s' k' = Some b" for k' b
  proof -
    have "k' \<noteq> k" "lookup s k' = Some b" using l lk [of k'] by (auto split: if_splits)
    moreover from this obtain q where "objs s b = Some q" "key q = k'" "entry_ok es q b" using t by (auto simp: table_with_def)
    moreover have "b \<noteq> a" using calculation p(1,2) by auto
    ultimately show ?thesis using ent [of q b] by (auto simp: s'_def)
  qed
  then have "table_with (es[?i - 1 := HIGHEST_BIT_SET]) n m s'"
    using t h(3,4) dh'(2) arr(3,4) by (auto simp: table_with_def array_ok_def s'_def)
  then show ?thesis using rm lk by (intro exI [of _ s']) (auto simp: s'_def)
qed

lemma remove_entry_ok:
  assumes "table_ok n m s" and "lookup s k = Some a"
  shows "\<exists>s'. remove_pc_entry s a = Inr s' \<and> table_ok n m s' \<and> objs s' = objs s \<and> pc_hash_mutex s' = pc_hash_mutex s \<and>
    (\<forall>k'. lookup s' k' = (if k' = k then None else lookup s k'))"
proof -
  obtain es where t: "table_with es n m s" using assms(1) by (auto simp: table_ok_def)
  obtain p where "objs s a = Some p" using table_live [OF assms] by blast
  from remove_entry_with [OF t assms(2) this] show ?thesis by (auto simp: table_ok_def)
qed

lemma insert_entry_with:
  assumes t: "table_with es (Suc n) m s" and "objs s a = Some p" and "lookup s (key p) = None" and "pid p \<noteq> 0 \<longrightarrow> start_id p \<noteq> 0"
  shows "\<exists>s' i. insert_pc_entry [] s a = Inr (0, s') \<and> table_with (es @ [a]) n m s' \<and> objs s' = (objs s)(a \<mapsto> p\<lparr>dyn_trans_index := i\<rparr>) \<and>
    pc_hash_mutex s' = pc_hash_mutex s \<and> (\<forall>k. lookup s' k = (if k = key p then Some a else lookup s k))"
proof -
  obtain dh arr h0 where arr: "glob_pc_array s = (dh, arr, [])" "ptr_repr h0 (dh, arr, []) (0 # es)"
    "total_size_in_bytes arr = 8 * length (0 # es)" "8 * (length es + Suc n + 2) < 18446744073709551616"
    using t by (cases "glob_pc_array s") (auto simp: table_with_def array_ok_def)
  from insert_ptr_new [OF arr(2,3), of a] arr(4) obtain dh' arr' where
    ip: "insert_ptr [] dh arr a = Inr (0, Some (of_nat (length (0 # es))), dh', arr', [])"
      "ptr_repr h0 (dh', arr', []) (0 # es @ [a])" "total_size_in_bytes arr' = 8 * length (0 # es @ [a])"
    by (auto simp: err_codes)
  have inv: "ht_inv (glob_pc_hash s)" "eqfn (glob_pc_hash s) = (=)" using t by (simp_all add: table_with_def)
  have none: "ic_hashtable_search (glob_pc_hash s) (key p) = Inr None" using assms(3) search_lookup [OF inv(1)] by simp
  from ht.ins_new [OF inv(1) none, of a] obtain h where
    h: "ic_hashtable_insert [] (glob_pc_hash s) (key p) a = Inr (0, h)" "ht_inv h" "eqfn h = (=)"
      "\<forall>k. ic_hashtable_search h k = (if k = key p then Inr (Some a) else ic_hashtable_search (glob_pc_hash s) k)"
    using inv(2) by auto
  let ?i = "of_nat (length (0 # es)) :: guint64"
  let ?p = "p\<lparr>dyn_trans_index := ?i\<rparr>"
  define s' where "s' = s\<lparr>event_occurred := True, glob_pc_array := (dh', arr', []), objs := (objs s)(a \<mapsto> ?p), glob_pc_hash := h\<rparr>"
  have ins: "insert_pc_entry [] s a = Inr (0, s')"
    using arr(1) ip(1) assms(2) h(1) by (simp add: insert_pc_entry_def Let_def upd_obj_def get_obj_def s'_def)
  have lk: "lookup s' k = (if k = key p then Some a else lookup s k)" for k
    using h(4) by (simp add: lookup_def s'_def)
  have ui: "unat ?i = Suc (length es)" using arr(4) by (subst unat_of_nat) simp
  have "\<exists>q. objs s' b = Some q \<and> key q = k \<and> entry_ok (es @ [a]) q b" if l: "lookup s' k = Some b" for k b
  proof (cases "k = key p")
    case True
    then have b: "b = a" using l lk [of k] by simp
    have "objs s' a = Some ?p" by (simp add: s'_def)
    moreover have "entry_ok (es @ [a]) ?p a" using ui assms(4) unfolding entry_ok_def by (simp add: nth_append)
    ultimately show ?thesis using True b by (intro exI [of _ ?p]) simp
  next
    case False
    then have "lookup s k = Some b" using l lk [of k] by simp
    then obtain q where q: "objs s b = Some q" "key q = k" "entry_ok es q b" using t by (auto simp: table_with_def)
    then have "b \<noteq> a" using False assms(2) by auto
    moreover have "entry_ok (es @ [a]) q b" using q(3) by (auto simp: entry_ok_def nth_append)
    ultimately show ?thesis using q by (intro exI [of _ q]) (simp add: s'_def)
  qed
  then have "table_with (es @ [a]) n m s'"
    using t h(2,3) ip(2,3) arr(4) by (auto simp: table_with_def array_ok_def s'_def)
  then show ?thesis using ins lk by (intro exI [of _ s'] exI [of _ ?i]) (auto simp: s'_def)
qed

lemma insert_entry_ok:
  assumes "table_ok (Suc n) m s" and "objs s a = Some p" and "lookup s (key p) = None" and "pid p \<noteq> 0 \<longrightarrow> start_id p \<noteq> 0"
  shows "\<exists>s' i. insert_pc_entry [] s a = Inr (0, s') \<and> table_ok n m s' \<and> objs s' = (objs s)(a \<mapsto> p\<lparr>dyn_trans_index := i\<rparr>) \<and>
    pc_hash_mutex s' = pc_hash_mutex s \<and> (\<forall>k. lookup s' k = (if k = key p then Some a else lookup s k))"
proof -
  obtain es where "table_with es (Suc n) m s" using assms(1) by (auto simp: table_ok_def)
  from insert_entry_with [OF this assms(2-4)] show ?thesis by (auto simp: table_ok_def)
qed

text \<open>Changes of objects that leave the table alone.\<close>

lemma table_ok_cong:
  assumes "table_ok n m s" and "glob_pc_hash s' = glob_pc_hash s" and "glob_pc_array s' = glob_pc_array s" and "glob_start_id s' = glob_start_id s"
    and "\<And>k a p. lookup s k = Some a \<Longrightarrow> objs s a = Some p \<Longrightarrow>
      \<exists>q. objs s' a = Some q \<and> key q = key p \<and> dyn_trans_index q = dyn_trans_index p \<and> (pid q \<noteq> 0 \<longrightarrow> start_id q \<noteq> 0)"
  shows "table_ok n m s'"
proof -
  obtain es where t: "table_with es n m s" using assms(1) by (auto simp: table_ok_def)
  have "\<exists>q. objs s' a = Some q \<and> key q = k \<and> entry_ok es q a" if l: "lookup s' k = Some a" for k a
  proof -
    have l': "lookup s k = Some a" using l lookup_cong [OF assms(2)] by simp
    then obtain p where p: "objs s a = Some p" "key p = k" "entry_ok es p a" using t by (auto simp: table_with_def)
    from assms(5) [OF l' p(1)] p show ?thesis by (auto simp: entry_ok_def)
  qed
  then show ?thesis using t assms(2-4) by (auto simp: table_ok_def table_with_def)
qed

lemma pc_equiv: "equivp ic_pc_key_equal"
  by (simp add: pc_key_equal_eq identity_equivp)

text \<open>The tables \<^verbatim>\<open>main\<close> creates; objects outside them do not matter.\<close>

lemma create_tables_ok:
  assumes "8 * (n + 2) < 18446744073709551616" and "Suc m < 18446744073709551616"
  shows "\<exists>s. create_tables [] True [] no_heap = Inr (Some s) \<and> objs s = Map.empty \<and> \<not> pc_hash_mutex s \<and>
    (\<forall>os. table_with [] n m (s\<lparr>objs := os\<rparr>) \<and> (\<forall>k. lookup (s\<lparr>objs := os\<rparr>) k = None))"
proof -
  obtain h where h: "create_pc_hash [] = Some h"
    by (cases "find_prime primes 0 4096") (simp add: create_pc_hash_def ic_create_hashtable_def Let_def)
  have inv: "ht_inv h" "eqfn h = (=)" "\<And>k. ic_hashtable_search h k = Inr None"
    using create_inv [OF h [unfolded create_pc_hash_def] pc_equiv] by (auto simp: pc_key_equal_eq)
  from create_ptr_ok [OF no_heap_ok, of "[]"] obtain arr dh where
    a: "ic_create_dynamic_ptr_array [] no_heap = Inr (Some arr, dh, [])" "ptr_repr (no_heap\<lparr>structs := Suc (structs no_heap)\<rparr>) (dh, arr, []) [0]"
      "total_size_in_bytes arr = 8" by (auto split: option.splits)
  let ?s = "\<lparr>objs = Map.empty, glob_pc_hash = h, glob_pc_array = (dh, arr, []), glob_start_id = 1, event_occurred = False, pc_hash_mutex = False\<rparr> :: pc_state"
  have lk: "lookup (?s\<lparr>objs := os\<rparr>) k = None" for os k using inv(3) by (simp add: lookup_def)
  have "array_ok [] n (dh, arr, [])" using a(2,3) assms(1) by (auto simp: array_ok_def)
  then have "table_with [] n m (?s\<lparr>objs := os\<rparr>)" for os using lk inv(1,2) assms(2) by (simp add: table_with_def)
  moreover have "create_tables [] True [] no_heap = Inr (Some ?s)" using h a(1) by (simp add: create_tables_def)
  ultimately show ?thesis using lk by (intro exI [of _ ?s]) simp
qed

end
