(* ===== verification/IC_Pcntrl_Threads.thy ===== *)
theory IC_Pcntrl_Threads
  imports IC_Pcntrl_Table
begin

text \<open>
  The threads of the process controller. Start and stop commands for different keys do not disturb each
  other: a thread changes only the entry of its key and the objects with this key, and what the others
  rely on is stable under such changes. Two threads for the same process, on the other hand, can
  free an object under the other's feet or leave the mutex locked.
\<close>

section \<open>Commands\<close>

datatype command = Start guint64 ic_pc_key | Stop ic_pc_key

fun key_of :: "command \<Rightarrow> ic_pc_key" where
  "key_of (Start a k) = k"
| "key_of (Stop k) = k"

fun first_step :: "command \<Rightarrow> thread" where
  "first_step (Start a k) = S_Insert a 0 0 None"
| "first_step (Stop k) = D_Try k 0"

text \<open>An object with key \<open>k\<close> that is not in the table.\<close>

definition unlinked :: "pc_state \<Rightarrow> ic_pc_key \<Rightarrow> guint64 \<Rightarrow> bool" where
  "unlinked s k a \<longleftrightarrow> (\<exists>p. objs s a = Some p \<and> key p = k) \<and> lookup s k \<noteq> Some a"

text \<open>The object of a new process.\<close>

definition new_process :: "pc_state \<Rightarrow> ic_pc_key \<Rightarrow> guint64 \<Rightarrow> bool" where
  "new_process s k a \<longleftrightarrow> (\<exists>p. objs s a = Some p \<and> key p = k \<and> pid p = 0 \<and> \<not> kill_ongoing p \<and> \<not> check_ongoing p) \<and> lookup s k \<noteq> Some a"

definition entry_is :: "pc_state \<Rightarrow> ic_pc_key \<Rightarrow> guint64 \<Rightarrow> (ic_pc_start \<Rightarrow> bool) \<Rightarrow> bool" where
  "entry_is s k f P \<longleftrightarrow> lookup s k = Some f \<and> (\<exists>p. objs s f = Some p \<and> P p)"

definition idle_entry :: "pc_state \<Rightarrow> ic_pc_key \<Rightarrow> bool" where
  "idle_entry s k \<longleftrightarrow> (\<forall>f p. lookup s k = Some f \<and> objs s f = Some p \<longrightarrow> \<not> kill_ongoing p \<and> \<not> check_ongoing p)"

text \<open>What a thread that executes a command relies on at each of its places.\<close>

fun thread_ok :: "command \<Rightarrow> thread \<Rightarrow> pc_state \<Rightarrow> bool" where
  "thread_ok (Start a k) (S_Insert b prev n fo) s \<longleftrightarrow> b = a \<and> new_process s k a \<and> (fo = None \<or> fo = lookup s k) \<and>
     (prev = 0 \<or> (\<exists>f. entry_is s k f (\<lambda>p. start_id p = prev \<and> pid p \<noteq> 0)))"
| "thread_ok (Start a k) (S_Check b f prev n) s \<longleftrightarrow> b = a \<and> new_process s k a \<and> entry_is s k f (\<lambda>p. start_id p = prev \<and> pid p \<noteq> 0) \<and> prev \<noteq> 0"
| "thread_ok (Start a k) (S_Free b f rc) s \<longleftrightarrow> b = a \<and> rc = 0 \<and> lookup s k = Some a \<and> unlinked s k f"
| "thread_ok (Start a k) (S_Launch b) s \<longleftrightarrow> b = a \<and> lookup s k = Some a"
| "thread_ok (Start a k) (S_Set_Pid b p) s \<longleftrightarrow> b = a \<and> lookup s k = Some a"
| "thread_ok (Start a k) (S_Report b) s \<longleftrightarrow> b = a \<and> lookup s k = Some a"
| "thread_ok (Start a k) (S_Late b rc) s \<longleftrightarrow> b = a \<and> lookup s k = Some a \<and> rc \<noteq> 0 \<and> rc \<noteq> IC_ERROR_PC_PROCESS_ALREADY_RUNNING"
| "thread_ok (Start a k) (S_Error b fo rc) s \<longleftrightarrow> b = a \<and> unlinked s k a \<and> rc \<noteq> 0 \<and>
     (rc = IC_ERROR_PC_PROCESS_ALREADY_RUNNING \<longrightarrow> fo \<noteq> None \<and> fo = lookup s k)"
| "thread_ok (Start a k) (Returned rc) s \<longleftrightarrow> (rc = 0 \<longrightarrow> lookup s k \<noteq> None)"
| "thread_ok (Stop k) (D_Try k' n) s \<longleftrightarrow> k' = k \<and> idle_entry s k \<and> n < 10"
| "thread_ok (Stop k) (K_Wait k' f p sid n) s \<longleftrightarrow> k' = k \<and> entry_is s k f (\<lambda>x. pid x = p \<and> start_id x = sid) \<and> n \<le> 10"
| "thread_ok (Stop k) (K_Remove k' p sid) s \<longleftrightarrow> k' = k \<and> (\<exists>f. entry_is s k f (\<lambda>x. pid x = p \<and> start_id x = sid))"
| "thread_ok (Stop k) (K_Free f) s \<longleftrightarrow> unlinked s k f \<and> lookup s k = None"
| "thread_ok (Stop k) (K_Error f rc) s \<longleftrightarrow> lookup s k = Some f \<and> rc \<noteq> 0"
| "thread_ok (Stop k) (Returned rc) s \<longleftrightarrow> (rc = 0 \<longrightarrow> lookup s k = None)"
| "thread_ok _ _ s \<longleftrightarrow> False"

text \<open>Insertions and start numbers a thread may still need.\<close>

fun inserts_left :: "thread \<Rightarrow> nat" where
  "inserts_left (S_Insert a prev n fo) = 1"
| "inserts_left (S_Check a f prev n) = 1"
| "inserts_left _ = 0"

fun starts_left :: "thread \<Rightarrow> nat" where
  "starts_left (S_Insert a prev n fo) = 1"
| "starts_left (S_Check a f prev n) = 1"
| "starts_left (S_Free a f rc) = 1"
| "starts_left (S_Launch a) = 1"
| "starts_left (S_Set_Pid a p) = 1"
| "starts_left _ = 0"

text \<open>An upper bound of the steps a thread still makes.\<close>

fun steps_left :: "thread \<Rightarrow> nat" where
  "steps_left (S_Insert a prev n fo) = (if prev = 0 then 9 else 7)"
| "steps_left (S_Check a f prev n) = 8"
| "steps_left (S_Free a f rc) = 6"
| "steps_left (S_Launch a) = 5"
| "steps_left (S_Set_Pid a p) = 4"
| "steps_left (S_Report a) = 1"
| "steps_left (S_Late a rc) = 4"
| "steps_left (S_Error a fo rc) = 1"
| "steps_left (D_Try k n) = 26 - n"
| "steps_left (K_Wait k f p sid n) = 14 - n"
| "steps_left (K_Remove k p sid) = 2"
| "steps_left (K_Free f) = 1"
| "steps_left (K_Error f rc) = 1"
| "steps_left _ = 0"

section \<open>Stability\<close>

text \<open>A change that concerns the key \<open>k\<close> only.\<close>

definition only_key :: "ic_pc_key \<Rightarrow> pc_state \<Rightarrow> pc_state \<Rightarrow> bool" where
  "only_key k s s' \<longleftrightarrow> (\<forall>k'. k' \<noteq> k \<longrightarrow> lookup s' k' = lookup s k') \<and> (\<forall>a p. objs s a = Some p \<and> key p \<noteq> k \<longrightarrow> objs s' a = Some p)"

lemma stable_unlinked: "only_key k' s s' \<Longrightarrow> k \<noteq> k' \<Longrightarrow> unlinked s k a \<Longrightarrow> unlinked s' k a"
  by (auto simp: unlinked_def only_key_def)

lemma stable_new: "only_key k' s s' \<Longrightarrow> k \<noteq> k' \<Longrightarrow> new_process s k a \<Longrightarrow> new_process s' k a"
  by (auto simp: new_process_def only_key_def)

lemma stable_lookup: "only_key k' s s' \<Longrightarrow> k \<noteq> k' \<Longrightarrow> lookup s' k = lookup s k"
  by (simp add: only_key_def)

lemma stable_entry:
  assumes "table_ok n m s" and "only_key k' s s'" and "k \<noteq> k'"
  shows "entry_is s k f P \<Longrightarrow> entry_is s' k f P" and "idle_entry s k \<Longrightarrow> idle_entry s' k"
proof -
  have same: "objs s' f = objs s f" if "lookup s k = Some f" for f
    using table_live [OF assms(1) that] assms(2,3) by (auto simp: only_key_def)
  show "entry_is s k f P \<Longrightarrow> entry_is s' k f P" using same assms(2,3) by (auto simp: entry_is_def only_key_def)
  show "idle_entry s k \<Longrightarrow> idle_entry s' k" using same assms(2,3) by (auto simp: idle_entry_def only_key_def)
qed

lemma thread_stable:
  assumes "table_ok n m s" and "only_key k' s s'" and "key_of c \<noteq> k'"
  shows "thread_ok c t s \<Longrightarrow> thread_ok c t s'"
proof -
  note st = stable_unlinked [OF assms(2)] stable_new [OF assms(2)] stable_lookup [OF assms(2)] stable_entry [OF assms(1,2)]
  show "thread_ok c t s \<Longrightarrow> thread_ok c t s'"
  proof (cases c)
    case (Start a k)
    then have k: "k \<noteq> k'" using assms(3) by simp
    show "thread_ok c t s \<Longrightarrow> thread_ok c t s'" unfolding Start by (cases t) (auto simp: st(3) [OF k] intro: st [OF k])
  next
    case (Stop k)
    then have k: "k \<noteq> k'" using assms(3) by simp
    show "thread_ok c t s \<Longrightarrow> thread_ok c t s'" unfolding Stop by (cases t) (auto simp: st(3) [OF k] intro: st [OF k])
  qed
qed

section \<open>One step\<close>

text \<open>
  Answers considered: memory is available, and starting a program ends with a running process or at the
  label \<^verbatim>\<open>late_error\<close> with an error code of its own.
\<close>

fun regular :: "allocs \<Rightarrow> os_answer \<Rightarrow> bool" where
  "regular as (Launch (Early_Error rc)) \<longleftrightarrow> False"
| "regular as (Launch (Late_Error rc)) \<longleftrightarrow> as = [] \<and> rc \<noteq> 0 \<and> rc \<noteq> IC_ERROR_PC_PROCESS_ALREADY_RUNNING"
| "regular as _ \<longleftrightarrow> as = []"

text \<open>The outcome of a step of the thread \<open>t\<close> for the command \<open>c\<close>.\<close>

definition step_ok :: "command \<Rightarrow> nat \<Rightarrow> nat \<Rightarrow> thread \<Rightarrow> pc_state \<Rightarrow> thread \<Rightarrow> pc_state \<Rightarrow> bool" where
  "step_ok c n m t s t' s' \<longleftrightarrow> (\<exists>i j. inserts_left t' + i = inserts_left t \<and> starts_left t' + j = starts_left t) \<and>
     table_ok (n + inserts_left t') (m + starts_left t') s' \<and> \<not> pc_hash_mutex s' \<and> only_key (key_of c) s s' \<and>
     thread_ok c t' s' \<and> steps_left t' < steps_left t"

lemma table_ok_less: "table_ok n m s \<Longrightarrow> n' \<le> n \<Longrightarrow> m' \<le> m \<Longrightarrow> table_ok n' m' s"
  by (force simp: table_ok_def table_with_def array_ok_def)

lemma only_key_refl: "only_key k s s"
  by (simp add: only_key_def)

text \<open>A change of one object with the key \<open>k\<close>.\<close>

lemma only_key_upd:
  "glob_pc_hash s' = glob_pc_hash s \<Longrightarrow> objs s' = (objs s)(a := x) \<Longrightarrow> (\<And>p. objs s a = Some p \<Longrightarrow> key p = k) \<Longrightarrow> only_key k s s'"
  by (auto simp: only_key_def lookup_def)

lemma free_unlinked:
  assumes "table_ok n m s" and "unlinked s k a"
  shows "\<exists>s'. free_obj s a = Inr s' \<and> table_ok n m s' \<and> s' = s\<lparr>objs := (objs s)(a := None)\<rparr> \<and> only_key k s s' \<and> (\<forall>k'. lookup s' k' = lookup s k')"
proof -
  obtain p where p: "objs s a = Some p" "key p = k" "lookup s k \<noteq> Some a" using assms(2) by (auto simp: unlinked_def)
  let ?s = "s\<lparr>objs := (objs s)(a := None)\<rparr>"
  have n: "b \<noteq> a" if "lookup s k' = Some b" for k' b using table_live [OF assms(1) that] p that by auto
  have "table_ok n m ?s"
  proof (rule table_ok_cong [OF assms(1)])
    fix k' b q assume "lookup s k' = Some b" "objs s b = Some q"
    then show "\<exists>q'. objs ?s b = Some q' \<and> key q' = key q \<and> dyn_trans_index q' = dyn_trans_index q \<and> (pid q' \<noteq> 0 \<longrightarrow> start_id q' \<noteq> 0)"
      using n [of k' b] table_live [OF assms(1), of k' b] by auto
  qed simp_all
  moreover have "only_key k s ?s" using p by (intro only_key_upd [of _ _ a None]) auto
  ultimately show ?thesis using p(1) by (intro exI [of _ ?s]) (simp add: free_obj_def get_obj_def lookup_def)
qed

lemma upd_entry:
  assumes "table_ok n m s" and "lookup s k = Some a" and "\<And>p. key (f p) = key p \<and> dyn_trans_index (f p) = dyn_trans_index p \<and> pid (f p) = pid p \<and> start_id (f p) = start_id p"
  shows "\<exists>p. objs s a = Some p \<and> key p = k \<and> upd_obj s a f = Inr (s\<lparr>objs := (objs s)(a \<mapsto> f p)\<rparr>) \<and> table_ok n m (s\<lparr>objs := (objs s)(a \<mapsto> f p)\<rparr>) \<and>
    only_key k s (s\<lparr>objs := (objs s)(a \<mapsto> f p)\<rparr>)"
proof -
  obtain p where p: "objs s a = Some p" "key p = k" using table_live [OF assms(1,2)] by blast
  let ?s = "s\<lparr>objs := (objs s)(a \<mapsto> f p)\<rparr>"
  have "table_ok n m ?s"
  proof (rule table_ok_cong [OF assms(1)])
    fix k' b q assume "lookup s k' = Some b" "objs s b = Some q"
    then show "\<exists>q'. objs ?s b = Some q' \<and> key q' = key q \<and> dyn_trans_index q' = dyn_trans_index q \<and> (pid q' \<noteq> 0 \<longrightarrow> start_id q' \<noteq> 0)"
      using table_live [OF assms(1), of k' b] p(1) assms(3) by auto
  qed simp_all
  moreover have "only_key k s ?s" using p by (intro only_key_upd [of _ _ a "Some (f p)"]) auto
  ultimately show ?thesis using p by (intro exI [of _ p]) (simp add: upd_obj_def get_obj_def)
qed


lemma only_key_trans: "only_key k s s1 \<Longrightarrow> only_key k s1 s2 \<Longrightarrow> only_key k s s2"
  by (auto simp: only_key_def)

lemma insert_new_process:
  assumes "table_ok (Suc n) m s" and "objs s a = Some p" and "key p = k" and "pid p = 0" and "lookup s k = None"
  shows "\<exists>s' i. insert_pc_entry [] s a = Inr (0, s') \<and> table_ok n m s' \<and> objs s' = (objs s)(a \<mapsto> p\<lparr>dyn_trans_index := i\<rparr>) \<and>
    pc_hash_mutex s' = pc_hash_mutex s \<and> lookup s' k = Some a \<and> only_key k s s'"
proof -
  from insert_entry_ok [OF assms(1,2)] assms(3-5) obtain s' i where
    s': "insert_pc_entry [] s a = Inr (0, s')" "table_ok n m s'" "objs s' = (objs s)(a \<mapsto> p\<lparr>dyn_trans_index := i\<rparr>)"
      "pc_hash_mutex s' = pc_hash_mutex s" "\<forall>k'. lookup s' k' = (if k' = k then Some a else lookup s k')" by auto
  moreover have "only_key k s s'" using s'(3,5) assms(2,3) by (auto simp: only_key_def)
  ultimately show ?thesis by auto
qed

lemma start_step_ok:
  assumes t: "table_ok (Suc n) (Suc m) s" and mu: "\<not> pc_hash_mutex s" and th: "thread_ok (Start a k) (S_Insert a prev i fo) s"
  shows "\<exists>t' s'. start_step [] s a prev i fo = Inr (t', s') \<and> step_ok (Start a k) n m (S_Insert a prev i fo) s t' s'"
proof -
  obtain p where p: "objs s a = Some p" "key p = k" "pid p = 0" "\<not> kill_ongoing p" "\<not> check_ongoing p" "lookup s k \<noteq> Some a"
    using th by (auto simp: new_process_def)
  have g: "get_obj s a = Inr p" using p(1) by (simp add: get_obj_def)
  note hs = hash_search_ok [OF t, of k]
  show ?thesis
  proof (cases "lookup s k")
    case None
    from insert_new_process [OF t p(1,2,3) None] obtain s' j where
      s': "insert_pc_entry [] s a = Inr (0, s')" "table_ok n (Suc m) s'" "pc_hash_mutex s' = pc_hash_mutex s" "lookup s' k = Some a" "only_key k s s'" by blast
    have "start_step [] s a prev i fo = Inr (S_Launch a, s')"
      using g hs None p(2) s'(1) by (simp add: start_step_def insert_section_def Let_def)
    then show ?thesis using s' mu by (intro exI [of _ "S_Launch a"] exI [of _ s']) (auto simp: step_ok_def)
  next
    case (Some f)
    have fa: "f \<noteq> a" using Some p(6) by simp
    obtain q where q: "objs s f = Some q" "key q = k" "pid q \<noteq> 0 \<longrightarrow> start_id q \<noteq> 0" using table_live [OF t Some] by blast
    have gf: "get_obj s f = Inr q" using q(1) by (simp add: get_obj_def)
    have out: "unlinked s k a" using p by (auto simp: unlinked_def)
    consider "pid q = 0" | "pid q \<noteq> 0" "start_id q = prev" | "pid q \<noteq> 0" "start_id q \<noteq> prev" by blast
    then show ?thesis
    proof cases
      case 1
      have "start_step [] s a prev i fo = Inr (S_Error a (Some f) IC_ERROR_PC_START_ALREADY_ONGOING, s)"
        using g gf hs Some p(2) 1 by (simp add: start_step_def insert_section_def Let_def err_codes)
      then show ?thesis using mu out table_ok_less [OF t, of n m] only_key_refl
        by (intro exI [of _ "S_Error a (Some f) IC_ERROR_PC_START_ALREADY_ONGOING"] exI [of _ s]) (auto simp: step_ok_def err_codes)
    next
      case 2
      from remove_entry_ok [OF t Some] obtain s1 where
        s1: "remove_pc_entry s f = Inr s1" "table_ok (Suc n) (Suc m) s1" "objs s1 = objs s" "pc_hash_mutex s1 = pc_hash_mutex s"
          "\<forall>k'. lookup s1 k' = (if k' = k then None else lookup s k')" by blast
      have p1: "objs s1 a = Some p" "lookup s1 k = None" using s1(3,5) p(1) by simp_all
      have o1: "only_key k s s1" using s1(3,5) by (simp add: only_key_def)
      from insert_new_process [OF s1(2) p1(1) p(2,3) p1(2)] obtain s' j where
        s': "insert_pc_entry [] s1 a = Inr (0, s')" "table_ok n (Suc m) s'" "objs s' = (objs s1)(a \<mapsto> p\<lparr>dyn_trans_index := j\<rparr>)"
          "pc_hash_mutex s' = pc_hash_mutex s1" "lookup s' k = Some a" "only_key k s1 s'" by blast
      have "start_step [] s a prev i fo = Inr (S_Free a f 0, s')"
        using g gf hs Some p(2,4,5) 2 s1(1) s'(1) by (simp add: start_step_def insert_section_def Let_def)
      moreover have "unlinked s' k f" using s'(3,5) s1(3) q fa by (auto simp: unlinked_def)
      moreover have "prev \<noteq> 0" using 2 q(3) by auto
      ultimately show ?thesis using s' s1(4) mu only_key_trans [OF o1 s'(6)]
        by (intro exI [of _ "S_Free a f 0"] exI [of _ s']) (auto simp: step_ok_def)
    next
      case 3
      have "start_step [] s a prev i fo = Inr (S_Check a f (start_id q) i, s)"
        using g gf hs Some p(2,4,5) 3 by (simp add: start_step_def insert_section_def Let_def)
      moreover have "prev = 0" using th 3 Some q(1) by (auto simp: entry_is_def)
      moreover have "entry_is s k f (\<lambda>x. start_id x = start_id q \<and> pid x \<noteq> 0)" "start_id q \<noteq> 0" using Some q 3 by (auto simp: entry_is_def)
      ultimately show ?thesis using th mu t only_key_refl
        by (intro exI [of _ "S_Check a f (start_id q) i"] exI [of _ s]) (auto simp: step_ok_def)
    qed
  qed
qed

lemma set_pid_ok:
  assumes "table_ok n (Suc m) s" and "lookup s k = Some a"
  shows "\<exists>s'. set_pid_section s a p = Inr s' \<and> table_ok n m s' \<and> pc_hash_mutex s' = pc_hash_mutex s \<and> only_key k s s' \<and> lookup s' k = Some a"
proof -
  obtain x where x: "objs s a = Some x" "key x = k" using table_live [OF assms] by blast
  obtain es where t: "table_with es n (Suc m) s" using assms(1) by (auto simp: table_ok_def)
  let ?x = "x\<lparr>pid := p, start_id := glob_start_id s\<rparr>"
  define s' where "s' = s\<lparr>objs := (objs s)(a \<mapsto> ?x), glob_start_id := glob_start_id s + 1\<rparr>"
  have sp: "set_pid_section s a p = Inr s'" using x(1) by (simp add: set_pid_section_def upd_obj_def get_obj_def s'_def)
  have id: "glob_start_id s \<noteq> 0" "unat (glob_start_id s) + Suc m < 18446744073709551616" using t by (auto simp: table_with_def unat_gt_0)
  have nx: "unat (glob_start_id s + 1) = Suc (unat (glob_start_id s))" using id(2) by (subst unat_add_small) simp_all
  have lk: "lookup s' k' = lookup s k'" for k' by (simp add: s'_def lookup_def)
  have "\<exists>q. objs s' b = Some q \<and> key q = k' \<and> entry_ok es q b" if l: "lookup s' k' = Some b" for k' b
  proof -
    have "lookup s k' = Some b" using l lk by simp
    then obtain q where q: "objs s b = Some q" "key q = k'" "entry_ok es q b" using t by (auto simp: table_with_def)
    show ?thesis
    proof (cases "b = a")
      case True
      then show ?thesis using q x id(1) by (intro exI [of _ ?x]) (simp add: s'_def entry_ok_def)
    qed (use q in \<open>simp add: s'_def\<close>)
  qed
  then have "table_with es n m s'" using t nx id by (auto simp: table_with_def s'_def)
  moreover have "only_key k s s'" using x by (intro only_key_upd [of _ _ a "Some ?x"]) (auto simp: s'_def)
  ultimately show ?thesis using sp lk [of k] assms(2) by (intro exI [of _ s']) (auto simp: table_ok_def s'_def)
qed


lemma get_entry:
  assumes "table_ok n m s" and "lookup s k = Some a"
  shows "\<exists>p. get_obj s a = Inr p"
proof -
  obtain p where "objs s a = Some p" using table_live [OF assms] by blast
  then show ?thesis by (simp add: get_obj_def)
qed

lemma delete_step_ok:
  assumes t: "table_ok n m s" and mu: "\<not> pc_hash_mutex s" and th: "thread_ok (Stop k) (D_Try k i) s"
  shows "\<exists>t' s'. delete_step s k i = Inr (t', s') \<and> step_ok (Stop k) n m (D_Try k i) s t' s'"
proof -
  have s0: "s\<lparr>pc_hash_mutex := False\<rparr> = s" using mu by (cases s) simp
  note hs = hash_search_ok [OF t, of k]
  show ?thesis
  proof (cases "lookup s k")
    case None
    then have "delete_step s k i = Inr (Returned 0, s)" using hs s0 by (simp add: delete_step_def delete_section_def)
    then show ?thesis using None t mu th only_key_refl by (intro exI [of _ "Returned 0"] exI [of _ s]) (auto simp: step_ok_def)
  next
    case (Some f)
    obtain p where p: "objs s f = Some p" "key p = k" using table_live [OF t Some] by blast
    have fl: "\<not> kill_ongoing p" "\<not> check_ongoing p" using th Some p(1) by (auto simp: idle_entry_def)
    have g: "get_obj s f = Inr p" using p(1) by (simp add: get_obj_def)
    consider "pid p = 0" "i + 1 = 10" | "pid p = 0" "i + 1 \<noteq> 10" | "pid p \<noteq> 0" by blast
    then show ?thesis
    proof cases
      case 1
      then have "delete_step s k i = Inr (Returned IC_ERROR_PROCESS_STUCK_IN_START_PHASE, s)"
        using hs Some g s0 by (simp add: delete_step_def delete_section_def)
      then show ?thesis using t mu only_key_refl 1
        by (intro exI [of _ "Returned IC_ERROR_PROCESS_STUCK_IN_START_PHASE"] exI [of _ s]) (auto simp: step_ok_def err_codes)
    next
      case 2
      then have "delete_step s k i = Inr (D_Try k (i + 1), s)" using hs Some g by (simp add: delete_step_def delete_section_def)
      then show ?thesis using t mu th only_key_refl 2 by (intro exI [of _ "D_Try k (i + 1)"] exI [of _ s]) (auto simp: step_ok_def)
    next
      case 3
      obtain q where q: "objs s f = Some q" "upd_obj s f (\<lambda>p. p\<lparr>kill_ongoing := True\<rparr>) = Inr (s\<lparr>objs := (objs s)(f \<mapsto> q\<lparr>kill_ongoing := True\<rparr>)\<rparr>)"
        "table_ok n m (s\<lparr>objs := (objs s)(f \<mapsto> q\<lparr>kill_ongoing := True\<rparr>)\<rparr>)" "only_key k s (s\<lparr>objs := (objs s)(f \<mapsto> q\<lparr>kill_ongoing := True\<rparr>)\<rparr>)"
        using upd_entry [OF t Some, of "\<lambda>p. p\<lparr>kill_ongoing := True\<rparr>"] by auto
      let ?s = "s\<lparr>objs := (objs s)(f \<mapsto> q\<lparr>kill_ongoing := True\<rparr>)\<rparr>"
      have e: "delete_step s k i = Inr (K_Wait k f (pid p) (start_id p) 0, ?s)"
        using hs Some g 3 fl q(2) by (simp add: delete_step_def delete_section_def)
      have "entry_is ?s k f (\<lambda>x. pid x = pid p \<and> start_id x = start_id p)" using Some p(1) q(1) by (simp add: entry_is_def lookup_def)
      then show ?thesis using e q(3,4) mu th
        by (intro exI [of _ "K_Wait k f (pid p) (start_id p) 0"] exI [of _ ?s]) (auto simp: step_ok_def)
    qed
  qed
qed

lemma kill_section_ok:
  assumes "table_ok n m s" and "entry_is s k f (\<lambda>x. pid x = p \<and> start_id x = sid)"
  shows "\<exists>s'. kill_section s k p sid = Inr (f, s') \<and> table_ok n m s' \<and> pc_hash_mutex s' = pc_hash_mutex s \<and> only_key k s s' \<and>
    lookup s' k = None \<and> unlinked s' k f"
proof -
  have l: "lookup s k = Some f" using assms(2) by (simp add: entry_is_def)
  obtain x where x: "objs s f = Some x" "key x = k" "pid x = p" "start_id x = sid" using assms(2) table_live [OF assms(1) l] by (auto simp: entry_is_def)
  from remove_entry_ok [OF assms(1) l] obtain s' where
    s': "remove_pc_entry s f = Inr s'" "table_ok n m s'" "objs s' = objs s" "pc_hash_mutex s' = pc_hash_mutex s"
      "\<forall>k'. lookup s' k' = (if k' = k then None else lookup s k')" by blast
  have "kill_section s k p sid = Inr (f, s')" using hash_search_ok [OF assms(1)] l x s'(1) by (simp add: kill_section_def get_obj_def)
  then show ?thesis using s' x(1,2) by (intro exI [of _ s']) (auto simp: only_key_def unlinked_def)
qed

text \<open>A question to the operating system needs a live object.\<close>

lemma ask_cases:
  assumes "objs s f \<noteq> None"
  shows "ask s f os k = Inr None \<or> (\<exists>rc. rc \<in> {0, IC_ERROR_CHECK_PROCESS_SCRIPT, IC_ERROR_PROCESS_NOT_ALIVE} \<and> ask s f os k = Inr (Some (k rc, s)))"
  using assms by (cases os) (auto simp: ask_def get_obj_def ic_is_process_alive_def)

definition result_ok :: "command \<Rightarrow> nat \<Rightarrow> nat \<Rightarrow> thread \<Rightarrow> pc_state \<Rightarrow> fault + (thread \<times> pc_state) option \<Rightarrow> bool" where
  "result_ok c n m t s r \<longleftrightarrow> (case r of Inl _ \<Rightarrow> False | Inr None \<Rightarrow> True | Inr (Some (t', s')) \<Rightarrow> step_ok c n m t s t' s')"

lemma result_okI: "r = Inr (Some (t', s')) \<Longrightarrow> step_ok c n m t s t' s' \<Longrightarrow> result_ok c n m t s r"
  by (simp add: result_ok_def)

lemma result_ok_ask:
  assumes "objs s f \<noteq> None" and "\<And>rc. rc \<in> {0, IC_ERROR_CHECK_PROCESS_SCRIPT, IC_ERROR_PROCESS_NOT_ALIVE} \<Longrightarrow> step_ok c n m t s (k rc) s"
  shows "result_ok c n m t s (ask s f os k)"
  using ask_cases [OF assms(1), of os k] assms(2) by (auto simp: result_ok_def)

text \<open>A step that leaves the shared state alone.\<close>

lemma step_ok_same:
  assumes "table_ok (n + inserts_left t) (m + starts_left t) s" and "\<not> pc_hash_mutex s" and "thread_ok c t' s"
    and "inserts_left t' \<le> inserts_left t" and "starts_left t' \<le> starts_left t" and "steps_left t' < steps_left t"
  shows "step_ok c n m t s t' s"
  using assms table_ok_less [OF assms(1), of "n + inserts_left t'" "m + starts_left t'"] only_key_refl
  by (auto simp: step_ok_def le_iff_add add.commute)

lemma unlinked_lookup: "\<lbrakk>objs s' = objs s; lookup s k = Some a; lookup s' k = None; table_ok n m s\<rbrakk> \<Longrightarrow> unlinked s' k a"
  using table_live [of n m s k a] by (auto simp: unlinked_def)

lemma start_thread_ok:
  assumes t: "table_ok (n + inserts_left t) (m + starts_left t) s" and mu: "\<not> pc_hash_mutex s" and th: "thread_ok (Start a k) t s" and r: "regular as os"
  shows "result_ok (Start a k) n m t s (thread_step as os t s)"
proof (cases t)
  case (S_Insert b prev i fo)
  have b: "b = a" "as = []" using th r S_Insert by (auto elim: regular.elims)
  from start_step_ok [of n m s a k prev i fo] t mu th S_Insert b obtain t' s' where
    "start_step [] s a prev i fo = Inr (t', s')" "step_ok (Start a k) n m (S_Insert a prev i fo) s t' s'" by auto
  then show ?thesis using S_Insert b mu by (intro result_okI [of _ t' s']) (simp_all add: under_mutex_def)
next
  case (S_Check b f prev i)
  then have x: "b = a" "new_process s k a" "entry_is s k f (\<lambda>p. start_id p = prev \<and> pid p \<noteq> 0)" "prev \<noteq> 0" using th by simp_all
  have o: "unlinked s k a" using x(2) by (auto simp: unlinked_def new_process_def)
  have l: "lookup s k = Some f" using x(3) by (simp add: entry_is_def)
  have "step_ok (Start a k) n m t s (if rc = 0 then S_Error b (Some f) IC_ERROR_PC_PROCESS_ALREADY_RUNNING
      else if rc = IC_ERROR_CHECK_PROCESS_SCRIPT then S_Error b (Some f) rc else S_Insert b prev i (Some f)) s" for rc
    using x o l S_Check by (intro step_ok_same [OF t mu]) (auto simp: err_codes)
  then show ?thesis using x(3) unfolding S_Check thread_step.simps by (intro result_ok_ask) (auto simp: entry_is_def)
next
  case (S_Free b f rc)
  then have x: "b = a" "rc = 0" "lookup s k = Some a" "unlinked s k f" using th by simp_all
  from free_unlinked [OF t x(4)] obtain s' where
    "free_obj s f = Inr s'" "table_ok (n + inserts_left t) (m + starts_left t) s'" "s' = s\<lparr>objs := (objs s)(f := None)\<rparr>" "only_key k s s'"
    "\<forall>k'. lookup s' k' = lookup s k'" by blast
  then show ?thesis using x S_Free mu by (intro result_okI [of _ "S_Launch a" s']) (auto simp: step_ok_def)
next
  case (S_Launch b)
  then have x: "b = a" "lookup s k = Some a" using th by simp_all
  then have g: "\<exists>p. get_obj s a = Inr p" using get_entry [OF t] by blast
  show ?thesis
  proof (cases os)
    case (Launch l)
    have "\<exists>t'. thread_step as os t s = Inr (Some (t', s)) \<and> thread_ok (Start a k) t' s \<and> inserts_left t' = 0 \<and> starts_left t' \<le> 1 \<and> steps_left t' < 5"
      using x g S_Launch r Launch by (cases l) auto
    then show ?thesis using S_Launch step_ok_same [OF t mu] by (auto intro!: result_okI)
  qed (simp_all add: S_Launch result_ok_def)
next
  case (S_Set_Pid b p)
  then have x: "b = a" "lookup s k = Some a" using th by simp_all
  from set_pid_ok [of n m s k a p] t x(2) S_Set_Pid obtain s' where
    "set_pid_section s a p = Inr s'" "table_ok n m s'" "pc_hash_mutex s' = pc_hash_mutex s" "only_key k s s'" "lookup s' k = Some a" by auto
  then show ?thesis using x S_Set_Pid mu by (intro result_okI [of _ "S_Report a" s']) (auto simp: step_ok_def under_mutex_def)
next
  case (S_Report b)
  then have x: "b = a" "lookup s k = Some a" using th by simp_all
  then have "\<exists>p. get_obj s a = Inr p" using get_entry [OF t] by blast
  then show ?thesis using x S_Report step_ok_same [OF t mu, of "Start a k" "Returned 0"] by (auto intro!: result_okI)
next
  case (S_Late b rc)
  then have x: "b = a" "lookup s k = Some a" "rc \<noteq> 0" "rc \<noteq> IC_ERROR_PC_PROCESS_ALREADY_RUNNING" using th by simp_all
  from remove_entry_ok [OF t x(2)] obtain s' where
    s': "remove_pc_entry s a = Inr s'" "table_ok (n + inserts_left t) (m + starts_left t) s'" "objs s' = objs s" "pc_hash_mutex s' = pc_hash_mutex s"
      "\<forall>k'. lookup s' k' = (if k' = k then None else lookup s k')" by blast
  moreover have "unlinked s' k a" using s'(3,5) x(2) by (intro unlinked_lookup [OF _ _ _ t]) auto
  ultimately show ?thesis using x S_Late mu
    by (intro result_okI [of _ "S_Error a None rc" s']) (auto simp: step_ok_def under_mutex_def only_key_def)
next
  case (S_Error b fo rc)
  then have x: "b = a" "unlinked s k a" "rc \<noteq> 0" "rc = IC_ERROR_PC_PROCESS_ALREADY_RUNNING \<longrightarrow> fo \<noteq> None \<and> fo = lookup s k" using th by auto
  from free_unlinked [OF t x(2)] obtain s' where
    s': "free_obj s a = Inr s'" "table_ok (n + inserts_left t) (m + starts_left t) s'" "s' = s\<lparr>objs := (objs s)(a := None)\<rparr>" "only_key k s s'"
      "\<forall>k'. lookup s' k' = lookup s k'" by blast
  show ?thesis
  proof (cases "rc = IC_ERROR_PC_PROCESS_ALREADY_RUNNING")
    case True
    then obtain f where f: "fo = Some f" "lookup s k = Some f" using x(4) by auto
    then have "\<exists>p. get_obj s' f = Inr p" using get_entry [OF s'(2), of k f] s'(5) by simp
    then show ?thesis using x s' f True S_Error mu by (intro result_okI [of _ "Returned 0" s']) (auto simp: step_ok_def)
  next
    case False
    then show ?thesis using x s' S_Error mu by (intro result_okI [of _ "Returned rc" s']) (auto simp: step_ok_def)
  qed
qed (use th in \<open>simp_all add: result_ok_def\<close>)


lemma stop_thread_ok:
  assumes t: "table_ok (n + inserts_left t) (m + starts_left t) s" and mu: "\<not> pc_hash_mutex s" and th: "thread_ok (Stop k) t s"
  shows "result_ok (Stop k) n m t s (thread_step as os t s)"
proof (cases t)
  case (D_Try k' i)
  then have k: "k' = k" using th by simp
  from delete_step_ok [of n m s k i] t mu th D_Try k obtain t' s' where
    "delete_step s k i = Inr (t', s')" "step_ok (Stop k) n m (D_Try k i) s t' s'" by auto
  then show ?thesis using D_Try k mu by (intro result_okI [of _ t' s']) (simp_all add: under_mutex_def)
next
  case (K_Wait k' f p sid i)
  then have x: "k' = k" "entry_is s k f (\<lambda>x. pid x = p \<and> start_id x = sid)" "i \<le> 10" using th by simp_all
  have "lookup s k = Some f" using x(2) by (simp add: entry_is_def)
  then have "step_ok (Stop k) n m t s (if rc = 0 then if 10 < i + 1 then K_Error f IC_ERROR_FAILED_TO_STOP_PROCESS else K_Wait k' f p sid (i + 1)
      else if rc = IC_ERROR_CHECK_PROCESS_SCRIPT then K_Error f rc else K_Remove k' p sid) s" for rc
    using x K_Wait by (intro step_ok_same [OF t mu]) (auto simp: err_codes)
  then show ?thesis using x(2) unfolding K_Wait thread_step.simps by (intro result_ok_ask) (auto simp: entry_is_def)
next
  case (K_Remove k' p sid)
  then obtain f where x: "k' = k" "entry_is s k f (\<lambda>x. pid x = p \<and> start_id x = sid)" using th by auto
  from kill_section_ok [OF t x(2)] obtain s' where
    "kill_section s k p sid = Inr (f, s')" "table_ok (n + inserts_left t) (m + starts_left t) s'" "pc_hash_mutex s' = pc_hash_mutex s" "only_key k s s'"
    "lookup s' k = None" "unlinked s' k f" by blast
  then show ?thesis using x K_Remove mu by (intro result_okI [of _ "K_Free f" s']) (auto simp: step_ok_def under_mutex_def)
next
  case (K_Free f)
  then have x: "unlinked s k f" "lookup s k = None" using th by simp_all
  from free_unlinked [OF t x(1)] obtain s' where
    "free_obj s f = Inr s'" "table_ok (n + inserts_left t) (m + starts_left t) s'" "s' = s\<lparr>objs := (objs s)(f := None)\<rparr>" "only_key k s s'"
    "\<forall>k'. lookup s' k' = lookup s k'" by blast
  then show ?thesis using x K_Free mu by (intro result_okI [of _ "Returned 0" s']) (auto simp: step_ok_def)
next
  case (K_Error f rc)
  then have x: "lookup s k = Some f" "rc \<noteq> 0" using th by simp_all
  obtain p where "upd_obj s f (\<lambda>p. p\<lparr>kill_ongoing := False\<rparr>) = Inr (s\<lparr>objs := (objs s)(f \<mapsto> p\<lparr>kill_ongoing := False\<rparr>)\<rparr>)"
    "table_ok (n + inserts_left t) (m + starts_left t) (s\<lparr>objs := (objs s)(f \<mapsto> p\<lparr>kill_ongoing := False\<rparr>)\<rparr>)"
    "only_key k s (s\<lparr>objs := (objs s)(f \<mapsto> p\<lparr>kill_ongoing := False\<rparr>)\<rparr>)"
    using upd_entry [OF t x(1), of "\<lambda>p. p\<lparr>kill_ongoing := False\<rparr>"] by auto
  then show ?thesis using x K_Error mu
    by (intro result_okI [of _ "Returned rc" "s\<lparr>objs := (objs s)(f \<mapsto> p\<lparr>kill_ongoing := False\<rparr>)\<rparr>"])
      (auto simp: step_ok_def under_mutex_def kill_error_section_def)
qed (use th in \<open>simp_all add: result_ok_def\<close>)

lemma thread_step_ok:
  assumes "table_ok (n + inserts_left t) (m + starts_left t) s" and "\<not> pc_hash_mutex s" and "thread_ok c t s" and "regular as os"
  shows "result_ok c n m t s (thread_step as os t s)"
  using assms start_thread_ok stop_thread_ok by (cases c) auto

section \<open>Systems of commands\<close>

definition system_ok :: "command list \<Rightarrow> pc_state \<Rightarrow> system \<Rightarrow> bool" where
  "system_ok cs s0 = (\<lambda>(s, ts). length ts = length cs \<and> \<not> pc_hash_mutex s \<and>
     table_ok (sum_list (map inserts_left ts)) (sum_list (map starts_left ts)) s \<and>
     (\<forall>i < length cs. thread_ok (cs ! i) (ts ! i) s) \<and> (\<forall>k. k \<notin> key_of ` set cs \<longrightarrow> lookup s k = lookup s0 k))"

lemma sum_list_at: "i < length xs \<Longrightarrow> \<exists>r :: nat. sum_list (map f xs) = r + f (xs ! i) \<and> (\<forall>y. sum_list (map f (xs[i := y])) = r + f y)"
proof (induction xs arbitrary: i)
  case (Cons x xs)
  show ?case
  proof (cases i)
    case (Suc j)
    then obtain r where r: "sum_list (map f xs) = r + f (xs ! j)" "\<forall>y. sum_list (map f (xs[j := y])) = r + f y" using Cons.IH [of j] Cons.prems by auto
    then show ?thesis using Suc by (intro exI [of _ "f x + r"]) simp
  qed (auto intro: exI [of _ "sum_list (map f xs)"])
qed simp

lemma system_step:
  assumes ok: "system_ok cs s0 (s, ts)" and d: "distinct (map key_of cs)" and i: "i < length ts" and r: "regular as os"
  shows "case thread_step as os (ts ! i) s of Inl _ \<Rightarrow> False | Inr None \<Rightarrow> True
    | Inr (Some (t, s')) \<Rightarrow> system_ok cs s0 (s', ts[i := t]) \<and> sum_list (map steps_left (ts[i := t])) < sum_list (map steps_left ts)"
proof -
  have o: "length ts = length cs" "\<not> pc_hash_mutex s" "table_ok (sum_list (map inserts_left ts)) (sum_list (map starts_left ts)) s"
    "\<forall>i < length cs. thread_ok (cs ! i) (ts ! i) s" "\<forall>k. k \<notin> key_of ` set cs \<longrightarrow> lookup s k = lookup s0 k" using ok by (auto simp: system_ok_def)
  obtain n where n: "sum_list (map inserts_left ts) = n + inserts_left (ts ! i)" "\<And>y. sum_list (map inserts_left (ts[i := y])) = n + inserts_left y"
    using sum_list_at [OF i] by blast
  obtain m where m: "sum_list (map starts_left ts) = m + starts_left (ts ! i)" "\<And>y. sum_list (map starts_left (ts[i := y])) = m + starts_left y"
    using sum_list_at [OF i] by blast
  obtain l where l: "sum_list (map steps_left ts) = l + steps_left (ts ! i)" "\<And>y. sum_list (map steps_left (ts[i := y])) = l + steps_left y"
    using sum_list_at [OF i] by blast
  have res: "result_ok (cs ! i) n m (ts ! i) s (thread_step as os (ts ! i) s)"
    using o(1-4) i r n(1) m(1) by (intro thread_step_ok) auto
  have "system_ok cs s0 (s', ts[i := t]) \<and> sum_list (map steps_left (ts[i := t])) < sum_list (map steps_left ts)"
    if st: "step_ok (cs ! i) n m (ts ! i) s t s'" for t s'
  proof -
    have x: "table_ok (n + inserts_left t) (m + starts_left t) s'" "\<not> pc_hash_mutex s'" "only_key (key_of (cs ! i)) s s'" "thread_ok (cs ! i) t s'"
      "steps_left t < steps_left (ts ! i)" using st by (auto simp: step_ok_def)
    have "thread_ok (cs ! j) (ts[i := t] ! j) s'" if j: "j < length cs" for j
    proof (cases "j = i")
      case False
      then have "key_of (cs ! j) \<noteq> key_of (cs ! i)" using d i j o(1) by (simp add: distinct_conv_nth)
      then show ?thesis using thread_stable [OF o(3) x(3)] o(4) j False by simp
    qed (use x(4) i in simp)
    moreover have "lookup s' k = lookup s0 k" if k: "k \<notin> key_of ` set cs" for k
    proof -
      have "k \<noteq> key_of (cs ! i)" using k i o(1) by auto
      then show ?thesis using stable_lookup [OF x(3)] o(5) k by simp
    qed
    ultimately show ?thesis using x o(1) n(2) m(2) l by (auto simp: system_ok_def)
  qed
  then show ?thesis using res by (auto simp: result_ok_def split: sum.splits option.splits)
qed


text \<open>Commands for different keys in a state without flags left over.\<close>

definition commands_ready :: "command list \<Rightarrow> pc_state \<Rightarrow> bool" where
  "commands_ready cs s \<longleftrightarrow> distinct (map key_of cs) \<and> \<not> pc_hash_mutex s \<and> table_ok (length cs) (length cs) s \<and>
     (\<forall>c \<in> set cs. case c of Start a k \<Rightarrow> new_process s k a | Stop k \<Rightarrow> idle_entry s k)"

lemma first_bounds: "sum_list (map inserts_left (map first_step cs)) \<le> length cs \<and> sum_list (map starts_left (map first_step cs)) \<le> length cs \<and>
    sum_list (map steps_left (map first_step cs)) \<le> 26 * length cs"
proof (induction cs)
  case (Cons c cs)
  then show ?case by (cases c) auto
qed simp

lemma commands_start:
  assumes "commands_ready cs s"
  shows "system_ok cs s (s, map first_step cs)"
proof -
  have "thread_ok c (first_step c) s" if "c \<in> set cs" for c
    using assms that by (cases c) (fastforce simp: commands_ready_def)+
  then show ?thesis using assms first_bounds [of cs] table_ok_less by (auto simp: system_ok_def commands_ready_def)
qed

lemma system_step_cases:
  assumes "pc_step regular c r" and "system_ok cs s0 c" and "distinct (map key_of cs)"
  shows "\<exists>c'. r = Inr c' \<and> system_ok cs s0 c' \<and> sum_list (map steps_left (snd c')) < sum_list (map steps_left (snd c))"
  using assms(1)
proof cases
  case (moves as os i ts s t s')
  then show ?thesis using system_step [of cs s0 s ts i as os] assms(2,3) by auto
next
  case (faults as os i ts s f)
  then show ?thesis using system_step [of cs s0 s ts i as os] assms(2,3) by auto
qed

lemma commands_reach:
  assumes "pc_reach regular c r" and "system_ok cs s0 c" and "distinct (map key_of cs)"
  shows "\<exists>c'. r = Inr c' \<and> system_ok cs s0 c'"
  using assms
proof (induction rule: pc_reach.induct)
  case (further c c' r)
  then show ?case using system_step_cases by blast
qed blast

text \<open>A thread that has not returned can move.\<close>

lemma thread_progress:
  assumes "table_ok (n + inserts_left t) (m + starts_left t) s" and "\<not> pc_hash_mutex s" and "thread_ok c t s" and "\<nexists>rc. t = Returned rc"
  shows "\<exists>os t' s'. regular [] os \<and> thread_step [] os t s = Inr (Some (t', s'))"
proof -
  define os where "os = (case t of S_Launch _ \<Rightarrow> Launch (Started 1) | _ \<Rightarrow> Script 0 0)"
  have r: "regular [] os" by (cases t) (simp_all add: os_def)
  have "thread_step [] os t s \<noteq> Inr None"
    using assms(2,3,4) by (cases c; cases t) (auto simp: os_def under_mutex_def ask_def c_bind_def split: sum.splits option.splits if_splits)
  moreover have "result_ok c n m t s (thread_step [] os t s)" by (rule thread_step_ok [OF assms(1-3) r])
  ultimately show ?thesis using r by (auto simp: result_ok_def split: sum.splits option.splits)
qed

lemma system_progress:
  assumes "system_ok cs s0 (s, ts)" and "i < length ts" and "\<nexists>rc. ts ! i = Returned rc"
  shows "\<exists>c'. pc_step regular (s, ts) (Inr c')"
proof -
  have o: "\<not> pc_hash_mutex s" "table_ok (sum_list (map inserts_left ts)) (sum_list (map starts_left ts)) s" "thread_ok (cs ! i) (ts ! i) s"
    using assms(1,2) by (auto simp: system_ok_def)
  obtain n where "sum_list (map inserts_left ts) = n + inserts_left (ts ! i)" using sum_list_at [OF assms(2)] by blast
  moreover obtain m where "sum_list (map starts_left ts) = m + starts_left (ts ! i)" using sum_list_at [OF assms(2)] by blast
  ultimately obtain os t' s' where "regular [] os" "thread_step [] os (ts ! i) s = Inr (Some (t', s'))"
    using thread_progress [OF _ o(1,3) assms(3)] o(2) by metis
  then show ?thesis using pc_step.moves [of regular "[]" os i ts s t' s'] assms(2) by blast
qed

section \<open>Properties\<close>


text \<open>A state to start from: one new process.\<close>

definition some_key :: "char list \<Rightarrow> ic_pc_key" where
  "some_key n = \<lparr>grid_name = ''g'', cluster_name = ''c'', node_name = n\<rparr>"

definition some_process :: "char list \<Rightarrow> ic_pc_start" where
  "some_process n = \<lparr>key = some_key n, version_string = ''v'', program_name = ''ic_csd'', parameters = [], pid = 0, start_id = 0,
     dyn_trans_index = 0, check_time = 0, autorestart = False, check_ongoing = False, kill_ongoing = False\<rparr>"

definition some_commands :: "command list" where
  "some_commands = [Start 64 (some_key ''n1''), Stop (some_key ''n2'')]"

lemma some_ready:
  obtains s where "commands_ready some_commands s" and "pc_step regular (s, map first_step some_commands) (Inr (s, [S_Insert 64 0 0 None, Returned 0]))"
proof -
  obtain s0 where s0: "\<not> pc_hash_mutex s0" "\<forall>os. table_with [] 2 2 (s0\<lparr>objs := os\<rparr>) \<and> (\<forall>k. lookup (s0\<lparr>objs := os\<rparr>) k = None)"
    using create_tables_ok [of 2 2] by auto
  let ?s = "s0\<lparr>objs := [64 \<mapsto> some_process ''n1'']\<rparr>"
  have t: "table_ok 2 2 ?s" "\<And>k. lookup ?s k = None" using s0(2) by (auto simp: table_ok_def)
  have r: "commands_ready some_commands ?s"
    using t s0(1) by (auto simp: commands_ready_def some_commands_def some_key_def new_process_def idle_entry_def some_process_def eval_nat_numeral)
  have m: "?s\<lparr>pc_hash_mutex := False\<rparr> = ?s" using s0(1) by simp
  have "thread_step [] Nothing (D_Try (some_key ''n2'') 0) ?s = Inr (Some (Returned 0, ?s))"
    using hash_search_ok [OF t(1), of "some_key ''n2''"] t(2) s0(1) m by (simp add: under_mutex_def delete_step_def delete_section_def)
  then have "pc_step regular (?s, map first_step some_commands) (Inr (?s, (map first_step some_commands)[1 := Returned 0]))"
    by (intro pc_step.moves [of regular "[]" Nothing]) (simp_all add: some_commands_def)
  with r show ?thesis using that by (simp add: some_commands_def)
qed




end
