(* ===== verification/IC_Pcntrl_Races.thy ===== *)
theory IC_Pcntrl_Races
  imports IC_Pcntrl_Threads
begin

text \<open>
  What happens when threads of the process controller meet at the same process, and what a list
  command does after a process was removed: executions of the step relation that end in a fault or leave
  the mutex locked, and the fact that a locked mutex stays locked.
\<close>

section \<open>Steps of single threads\<close>

definition any :: "allocs \<Rightarrow> os_answer \<Rightarrow> bool" where
  "any as os = True"

lemma reach_step:
  "pc_reach any c (Inr (s, ts)) \<Longrightarrow> i < length ts \<Longrightarrow> thread_step as os (ts ! i) s = Inr (Some (t, s')) \<Longrightarrow> ts[i := t] = ts' \<Longrightarrow>
   pc_reach any c (Inr (s', ts'))"
  by (auto intro!: pc_reach.further [of any c "(s, ts)"] pc_step.moves [of any as os] simp: any_def)

lemma reach_fault:
  "pc_reach any c (Inr (s, ts)) \<Longrightarrow> i < length ts \<Longrightarrow> thread_step as os (ts ! i) s = Inl f \<Longrightarrow> pc_reach any c (Inl f)"
  by (auto intro!: pc_reach.further [of any c "(s, ts)"] pc_step.faults [of any as os] simp: any_def)

text \<open>A process that runs and that no thread works on.\<close>

definition running :: "pc_state \<Rightarrow> ic_pc_key \<Rightarrow> guint64 \<Rightarrow> ic_pc_start \<Rightarrow> bool" where
  "running s k f p \<longleftrightarrow> \<not> pc_hash_mutex s \<and> lookup s k = Some f \<and> objs s f = Some p \<and> pid p \<noteq> 0 \<and> \<not> kill_ongoing p \<and> \<not> check_ongoing p"

text \<open>The first step of a stop command.\<close>

lemma stop_first:
  assumes "table_ok n m s" and "running s k f p"
  shows "thread_step [] Nothing (D_Try k 0) s = Inr (Some (K_Wait k f (pid p) (start_id p) 0, s\<lparr>objs := (objs s)(f \<mapsto> p\<lparr>kill_ongoing := True\<rparr>)\<rparr>))"
  using assms hash_search_ok [OF assms(1), of k]
  by (simp add: running_def under_mutex_def delete_step_def delete_section_def get_obj_def upd_obj_def)

lemma table_upd:
  assumes "table_ok n m s" and "objs s f = Some p" and "key q = key p" and "dyn_trans_index q = dyn_trans_index p" and "pid q = pid p" and "start_id q = start_id p"
  shows "table_ok n m (s\<lparr>objs := (objs s)(f \<mapsto> q)\<rparr>)"
proof (rule table_ok_cong [OF assms(1)])
  fix k b x assume "lookup s k = Some b" "objs s b = Some x"
  then show "\<exists>y. objs (s\<lparr>objs := (objs s)(f \<mapsto> q)\<rparr>) b = Some y \<and> key y = key x \<and> dyn_trans_index y = dyn_trans_index x \<and> (pid y \<noteq> 0 \<longrightarrow> start_id y \<noteq> 0)"
    using table_live [OF assms(1), of k b] assms(2-6) by auto
qed simp_all

lemma lookup_upd [simp]: "lookup (s\<lparr>objs := os\<rparr>) k = lookup s k"
  by (simp add: lookup_def)

text \<open>An object taken out of the table and freed.\<close>

lemma remove_free:
  assumes "table_ok n m s" and "lookup s k = Some f" and "objs s f = Some p"
  obtains s' where "remove_pc_entry s f = Inr s'" and "objs s' = objs s" and "lookup s' k = None" and "pc_hash_mutex s' = pc_hash_mutex s" and "table_ok n m s'"
  using remove_entry_ok [OF assms(1,2)] by auto

text \<open>The entries of the array point to objects or are marked free.\<close>

definition array_live :: "guint64 list \<Rightarrow> pc_state \<Rightarrow> bool" where
  "array_live es s \<longleftrightarrow> (\<forall>e \<in> set es. e < HIGHEST_BIT_SET \<longrightarrow> e \<noteq> 0 \<and> objs s e \<noteq> None)"

text \<open>A state with a running process at address 64 and the object of a new process with the same key at 128.\<close>

lemma some_running:
  obtains s p where "table_ok 2 2 s" and "running s (some_key ''n1'') 64 p" and "check_time p = 0" and "new_process s (some_key ''n1'') 128"
    and "table_with [64] 2 2 s" and "array_live [64] s"
proof -
  obtain s0 where s0: "\<not> pc_hash_mutex s0" "\<forall>os. table_with [] 3 3 (s0\<lparr>objs := os\<rparr>) \<and> (\<forall>k. lookup (s0\<lparr>objs := os\<rparr>) k = None)"
    using create_tables_ok [of 3 3] by auto
  let ?k = "some_key ''n1''" and ?x = "some_process ''n1''"
  let ?s = "s0\<lparr>objs := [64 \<mapsto> ?x, 128 \<mapsto> ?x]\<rparr>"
  have t: "table_with [] (Suc 2) 3 ?s" "lookup ?s ?k = None" "objs ?s 64 = Some ?x" "objs ?s 128 = Some ?x" using s0(2) by (auto simp: numeral_3_eq_3 numeral_2_eq_2)
  have x: "key ?x = ?k" "pid ?x = 0" by (simp_all add: some_process_def)
  from insert_entry_with [OF t(1,3)] x t(2) obtain s1 i where
    s1: "table_with [64] 2 3 s1" "objs s1 = (objs ?s)(64 \<mapsto> ?x\<lparr>dyn_trans_index := i\<rparr>)" "pc_hash_mutex s1 = pc_hash_mutex ?s" "lookup s1 ?k = Some 64" by auto
  let ?p = "?x\<lparr>dyn_trans_index := i, pid := 7, start_id := glob_start_id s1\<rparr>"
  define s2 where "s2 = s1\<lparr>objs := (objs s1)(64 \<mapsto> ?p)\<rparr>"
  have g: "glob_start_id s1 \<noteq> 0" using s1(1) by (auto simp: table_with_def unat_gt_0)
  have l2: "lookup s2 k = lookup s1 k" for k by (simp add: s2_def lookup_def)
  have "\<exists>q. objs s2 b = Some q \<and> key q = k \<and> entry_ok [64] q b" if l: "lookup s2 k = Some b" for k b
  proof -
    have "lookup s1 k = Some b" using l l2 by simp
    then obtain q where q: "objs s1 b = Some q" "key q = k" "entry_ok [64] q b" using s1(1) by (auto simp: table_with_def)
    show ?thesis
    proof (cases "b = 64")
      case True
      then show ?thesis using q s1(2) g x by (intro exI [of _ ?p]) (auto simp: s2_def entry_ok_def)
    qed (use q in \<open>simp add: s2_def\<close>)
  qed
  then have w: "table_with [64] 2 2 s2" using s1(1) by (auto simp: table_with_def s2_def)
  have "table_ok 2 2 s2" using w by (auto simp: table_ok_def)
  moreover have "running s2 ?k 64 ?p" using s1(3,4) s0(1) l2 by (simp add: running_def s2_def some_process_def)
  moreover have "new_process s2 ?k 128" using s1(2,4) l2 by (simp add: new_process_def s2_def some_process_def)
  moreover have "array_live [64] s2" by (simp add: array_live_def s2_def)
  ultimately show ?thesis using that [of s2 ?p] w by (simp add: some_process_def)
qed

section \<open>A stop command and the check thread\<close>

text \<open>
  C31. The check thread ignores \<^verbatim>\<open>kill_ongoing\<close>: while a stop command waits for its process to die, the
  check thread may find it dead, remove its entry and free its object. Then the stop command either
  fails the \<^verbatim>\<open>ic_require\<close> that the entry is still there, which ends the process controller, or reads the
  name of the program from freed memory. Both can happen in every state with a running process.
\<close>

theorem stop_races_with_check:
  assumes "table_ok n m s" and "running s k f p" and "check_time p \<noteq> ct"
  shows "pc_reach any (s, [D_Try k 0, C_Scan ct]) (Inl RequireFail) \<and> pc_reach any (s, [D_Try k 0, C_Scan ct]) (Inl UseAfterFree)"
proof -
  let ?c = "(s, [D_Try k 0, C_Scan ct])" and ?p1 = "p\<lparr>kill_ongoing := True\<rparr>"
  let ?s1 = "s\<lparr>objs := (objs s)(f \<mapsto> ?p1)\<rparr>" and ?p2 = "p\<lparr>kill_ongoing := True, check_ongoing := True, check_time := ct\<rparr>"
  let ?s2 = "s\<lparr>objs := (objs s)(f \<mapsto> ?p2)\<rparr>"
  have r: "\<not> pc_hash_mutex s" "lookup s k = Some f" "objs s f = Some p" "pid p \<noteq> 0" using assms(2) by (simp_all add: running_def)
  have t1: "table_ok n m ?s1" and t2: "table_ok n m ?s2" by (rule table_upd [OF assms(1) r(3)]; simp)+
  have c1: "pc_reach any ?c (Inr (?s1, [K_Wait k f (pid p) (start_id p) 0, C_Scan ct]))"
    by (rule reach_step [OF pc_reach.here _ _, of 0]) (use stop_first [OF assms(1,2)] in simp_all)
  have it: "in_table ?s1 f" using in_table_lookup [OF t1] r(2) by auto
  have c2: "pc_reach any ?c (Inr (?s2, [K_Wait k f (pid p) (start_id p) 0, C_Check f ct]))"
    by (rule reach_step [OF c1, of 1 "[]" "Visit f"]) (use it r assms(3) in \<open>simp_all add: check_step_def under_mutex_def check_section_def get_obj_def upd_obj_def\<close>)
  obtain s3 where s3: "remove_pc_entry ?s2 f = Inr s3" "objs s3 = objs ?s2" "lookup s3 k = None" "pc_hash_mutex s3 = pc_hash_mutex ?s2" "table_ok n m s3"
    using remove_free [OF t2, of k f ?p2] r(2) by auto
  have "pc_reach any ?c (Inr (?s2, [K_Remove k (pid p) (start_id p), C_Check f ct]))"
    by (rule reach_step [OF c2, of 0 "[]" "Script 0 0"]) (simp_all add: ask_def get_obj_def ic_is_process_alive_def err_codes)
  then have "pc_reach any ?c (Inr (?s2, [K_Remove k (pid p) (start_id p), C_Remove f ct]))"
    by (rule reach_step [of _ _ _ 1 "[]" "Script 0 0"]) (simp_all add: ask_def get_obj_def ic_is_process_alive_def err_codes)
  then have "pc_reach any ?c (Inr (s3, [K_Remove k (pid p) (start_id p), C_Free f ct]))"
    by (rule reach_step [of _ _ _ 1 "[]" Nothing]) (use s3(1) r(1) in \<open>simp_all add: under_mutex_def\<close>)
  then have a: "pc_reach any ?c (Inl RequireFail)"
    by (rule reach_fault [of _ _ _ 0 "[]" Nothing])
      (use s3(3,4) r(1) hash_search_ok [OF s3(5), of k] in \<open>simp_all add: under_mutex_def kill_section_def\<close>)
  have "pc_reach any ?c (Inr (?s2, [K_Wait k f (pid p) (start_id p) 0, C_Remove f ct]))"
    by (rule reach_step [OF c2, of 1 "[]" "Script 0 0"]) (simp_all add: ask_def get_obj_def ic_is_process_alive_def err_codes)
  then have "pc_reach any ?c (Inr (s3, [K_Wait k f (pid p) (start_id p) 0, C_Free f ct]))"
    by (rule reach_step [of _ _ _ 1 "[]" Nothing]) (use s3(1) r(1) in \<open>simp_all add: under_mutex_def\<close>)
  then have "pc_reach any ?c (Inr (s3\<lparr>objs := (objs s3)(f := None)\<rparr>, [K_Wait k f (pid p) (start_id p) 0, C_Scan ct]))"
    by (rule reach_step [of _ _ _ 1 "[]" Nothing]) (use s3(2) in \<open>simp_all add: free_obj_def get_obj_def\<close>)
  then have "pc_reach any ?c (Inl UseAfterFree)"
    by (rule reach_fault [of _ _ _ 0 "[]" "Script 0 0"]) (simp_all add: ask_def get_obj_def)
  with a show ?thesis ..
qed

theorem stop_races_with_check_witness:
  "\<exists>s. pc_reach any (s, [D_Try (some_key ''n1'') 0, C_Scan 30]) (Inl RequireFail)"
proof -
  obtain s p where s: "table_ok 2 2 s" "running s (some_key ''n1'') 64 p" "check_time p = 0" by (rule some_running)
  show ?thesis using stop_races_with_check [OF s(1,2), of 30] s(3) by auto
qed

section \<open>A stop command and a start command\<close>




section \<open>A start command that fails late\<close>

lemma found_compared: "find_entry ic_pc_key_equal hv k es = Some a \<Longrightarrow> a \<in> set (compared hv k es)"
  by (induction es) (auto split: if_splits)

lemma freed_key:
  assumes "table_ok n m s" and "lookup s k = Some a" and "objs s' a = None" and "glob_pc_hash s' = glob_pc_hash s"
  shows "hash_search s' k = Inl UseAfterFree"
proof -
  let ?h = "glob_pc_hash s"
  let ?i = "indexFor (tablelength ?h) (hash ?h k)"
  have eq: "eqfn ?h = ic_pc_key_equal" using assms(1) by (auto simp: table_ok_def table_with_def pc_key_equal_eq)
  have se: "ic_hashtable_search ?h k = Inr (Some a)" using search_lookup [OF table_inv [OF assms(1)]] assms(2) by simp
  have i: "?i < length (table ?h)" and f: "find_entry ic_pc_key_equal (hash ?h k) k (table ?h ! ?i) = Some a"
    using se eq by (auto simp: ic_hashtable_search_def Let_def c_bind_Inr_iff rd_def split: if_splits)
  have "a \<in> set (compared (hash ?h k) k (table ?h ! ?i))" by (rule found_compared [OF f])
  then have "\<not> keys_live s' k" using i assms(3,4) by (auto simp: keys_live_def Let_def)
  then show ?thesis by (simp add: hash_search_def)
qed

text \<open>
  C33. When \<^verbatim>\<open>handle_start\<close> fails after it has booked the process, for instance because a directory cannot be
  created, several of its exits go to the label \<^verbatim>\<open>error\<close> instead of \<^verbatim>\<open>late_error\<close>: the object is freed but its entry
  stays in the hash table. The next command for this key compares the key with freed memory.
\<close>

theorem failed_start_leaves_dangling_entry:
  assumes "table_ok n m s" and "\<not> pc_hash_mutex s" and "lookup s k = Some a" and "launch_program env is_daemon is_ndb = Early_Error rc"
    and "rc \<noteq> IC_ERROR_PC_PROCESS_ALREADY_RUNNING"
  shows "\<exists>s'. pc_reach any (s, [S_Launch a, D_Try k 0]) (Inr (s', [Returned rc, D_Try k 0])) \<and> in_table s' a \<and> objs s' a = None \<and>
    pc_reach any (s, [S_Launch a, D_Try k 0]) (Inl UseAfterFree)"
proof -
  obtain p where p: "objs s a = Some p" using table_live [OF assms(1,3)] by blast
  let ?c = "(s, [S_Launch a, D_Try k 0])" and ?s = "s\<lparr>objs := (objs s)(a := None)\<rparr>"
  have "pc_reach any ?c (Inr (s, [S_Error a None rc, D_Try k 0]))"
    by (rule reach_step [OF pc_reach.here _ _, of 0 _ "[]" "Launch (launch_program env is_daemon is_ndb)"]) (use p assms(4) in \<open>simp_all add: get_obj_def\<close>)
  then have r: "pc_reach any ?c (Inr (?s, [Returned rc, D_Try k 0]))"
    by (rule reach_step [of _ _ _ 0 "[]" Nothing]) (use p assms(5) in \<open>simp_all add: free_obj_def get_obj_def\<close>)
  have "in_table s a" using in_table_lookup [OF assms(1)] assms(3) by blast
  then have "in_table ?s a" by (simp add: in_table_def)
  moreover have "pc_reach any ?c (Inl UseAfterFree)"
    by (rule reach_fault [OF r, of 1 "[]" Nothing])
      (use assms(2) freed_key [OF assms(1,3), of ?s] in \<open>simp_all add: under_mutex_def delete_step_def delete_section_def\<close>)
  ultimately show ?thesis using r by (intro exI [of _ ?s]) simp
qed

theorem failed_start_leaves_dangling_entry_witness:
  "\<exists>s. pc_reach any (s, [S_Launch 64, D_Try (some_key ''n1'') 0]) (Inl UseAfterFree)"
proof -
  obtain s p where s: "table_ok 2 2 s" "running s (some_key ''n1'') 64 p" by (rule some_running)
  let ?env = "\<lparr>rc_binary_dir = 0, rc_pid_file = 0, read_pid = Inl 1, alive_old = [], rc_log_file = 0, rc_dups = [0, 0, 0, 0, 0, 0],
    rc_working_dir = 0, rc_mkdir = 7100, start_result = Inr 7, alive_new = 0\<rparr>"
  have l: "launch_program ?env True True = Early_Error 7100" by (simp add: launch_program_def)
  have m: "\<not> pc_hash_mutex s" "lookup s (some_key ''n1'') = Some 64" using s(2) by (simp_all add: running_def)
  show ?thesis using failed_start_leaves_dangling_entry [OF s(1) m l] by (auto simp: err_codes)
qed

section \<open>The locked mutex\<close>

lemma under_mutex_locked: "pc_hash_mutex s \<Longrightarrow> under_mutex s m = Inr None"
  by (simp add: under_mutex_def)

text \<open>With the mutex locked a thread can only make the steps outside it.\<close>

lemma locked_step:
  assumes "pc_hash_mutex s" and "thread_step as os t s = Inr (Some (t', s'))"
  shows "pc_hash_mutex s'"
  using assms
  by (cases t) (auto simp: under_mutex_locked ask_def check_step_def free_obj_def get_obj_def c_bind_Inr_iff
      split: os_answer.splits option.splits if_splits launch.splits)

definition waits :: "thread \<Rightarrow> bool" where
  "waits t \<longleftrightarrow> (\<exists>k n. t = D_Try k n) \<or> (\<exists>a prev n fo. t = S_Insert a prev n fo) \<or> (\<exists>pc_find full. t = L_Scan pc_find full)"

lemma locked_waits: "pc_hash_mutex s \<Longrightarrow> waits t \<Longrightarrow> thread_step as os t s = Inr None"
  by (auto simp: waits_def under_mutex_locked)

lemma locked_reach:
  assumes "pc_reach ok c r" and "c = (s, ts)" and "r = Inr (s', ts')" and "pc_hash_mutex s"
  shows "pc_hash_mutex s' \<and> length ts' = length ts \<and> (\<forall>i < length ts. waits (ts ! i) \<longrightarrow> ts' ! i = ts ! i)"
  using assms
proof (induction arbitrary: s' ts' rule: pc_reach.induct)
  case (further c c' r)
  obtain s1 ts1 where c': "c' = (s1, ts1)" by (cases c')
  have ih: "pc_hash_mutex s1" "length ts1 = length ts" "\<forall>i < length ts. waits (ts ! i) \<longrightarrow> ts1 ! i = ts ! i"
    using further.IH further.prems(1,3) c' by auto
  from further.hyps(2) obtain as os i t where
    st: "i < length ts1" "thread_step as os (ts1 ! i) s1 = Inr (Some (t, s'))" "ts' = ts1[i := t]"
    unfolding c' further.prems(2) by (cases rule: pc_step.cases) auto
  have "ts' ! j = ts ! j" if "j < length ts" "waits (ts ! j)" for j
  proof -
    have "j \<noteq> i" using locked_waits [OF ih(1), of "ts ! j"] that st(2) ih(3) by (metis option.distinct(1) sum.inject(2))
    then show ?thesis using st(3) ih(3) that by simp
  qed
  then show ?case using locked_step [OF ih(1) st(2)] ih(2) st(3) by simp
qed auto

text \<open>
  C30. \<^verbatim>\<open>delete_process\<close> returns without unlocking the mutex when another thread is already killing the process:
  a second stop command for a process returns \<^verbatim>\<open>IC_ERROR_PROCESS_ALREADY_BEING_KILLED\<close> and leaves the mutex
  locked. From then on, in every continuation, each command that waits for the mutex waits for ever.
\<close>

theorem second_stop_locks_for_ever:
  assumes "table_ok n m s" and "running s k f p" and "\<forall>t \<in> set ts. waits t"
  shows "\<exists>s'. pc_reach any (s, D_Try k 0 # D_Try k 0 # ts)
      (Inr (s', K_Wait k f (pid p) (start_id p) 0 # Returned IC_ERROR_PROCESS_ALREADY_BEING_KILLED # ts)) \<and>
    (\<forall>s'' ts''. pc_reach any (s', K_Wait k f (pid p) (start_id p) 0 # Returned IC_ERROR_PROCESS_ALREADY_BEING_KILLED # ts) (Inr (s'', ts'')) \<longrightarrow>
       pc_hash_mutex s'' \<and> (\<forall>i < length ts. ts'' ! (i + 2) = ts ! i))"
proof -
  let ?c = "(s, D_Try k 0 # D_Try k 0 # ts)" and ?q = "p\<lparr>kill_ongoing := True\<rparr>"
  let ?s1 = "s\<lparr>objs := (objs s)(f \<mapsto> ?q)\<rparr>" and ?w = "K_Wait k f (pid p) (start_id p) 0"
  let ?ts = "?w # Returned IC_ERROR_PROCESS_ALREADY_BEING_KILLED # ts"
  have r: "\<not> pc_hash_mutex s" "lookup s k = Some f" "objs s f = Some p" "pid p \<noteq> 0" "\<not> check_ongoing p" using assms(2) by (simp_all add: running_def)
  have t1: "table_ok n m ?s1" by (rule table_upd [OF assms(1) r(3)]; simp)
  have hs: "hash_search ?s1 k = Inr (Some f)" using hash_search_ok [OF t1, of k] r(2) by simp
  have c1: "pc_reach any ?c (Inr (?s1, ?w # D_Try k 0 # ts))"
    by (rule reach_step [OF pc_reach.here _ _, of 0]) (use stop_first [OF assms(1,2)] in simp_all)
  let ?s2 = "?s1\<lparr>pc_hash_mutex := True\<rparr>"
  have c2: "pc_reach any ?c (Inr (?s2, ?ts))"
    by (rule reach_step [OF c1, of 1 "[]" Nothing]) (use hs r in \<open>simp_all add: under_mutex_def delete_step_def delete_section_def get_obj_def\<close>)
  have "pc_hash_mutex s'' \<and> (\<forall>i < length ts. ts'' ! (i + 2) = ts ! i)" if reach: "pc_reach any (?s2, ?ts) (Inr (s'', ts''))" for s'' ts''
  proof -
    have l: "pc_hash_mutex s''" "\<forall>i < length ?ts. waits (?ts ! i) \<longrightarrow> ts'' ! i = ?ts ! i" using locked_reach [OF reach refl refl] by auto
    have "ts'' ! (i + 2) = ts ! i" if "i < length ts" for i
      using l(2) [rule_format, of "i + 2"] that assms(3) nth_mem [OF that] by simp
    then show ?thesis using l(1) by blast
  qed
  then show ?thesis using c2 by blast
qed

theorem second_stop_locks_for_ever_witness:
  "\<exists>s s' p. running s (some_key ''n1'') 64 p \<and>
     pc_reach any (s, [D_Try (some_key ''n1'') 0, D_Try (some_key ''n1'') 0, D_Try (some_key ''n2'') 0])
       (Inr (s', [K_Wait (some_key ''n1'') 64 (pid p) (start_id p) 0, Returned IC_ERROR_PROCESS_ALREADY_BEING_KILLED, D_Try (some_key ''n2'') 0])) \<and>
     pc_hash_mutex s'"
proof -
  obtain s p where s: "table_ok 2 2 s" "running s (some_key ''n1'') 64 p" by (rule some_running)
  have w: "\<forall>t \<in> set [D_Try (some_key ''n2'') 0]. waits t" by (simp add: waits_def)
  show ?thesis using second_stop_locks_for_ever [OF s w] s(2) pc_reach.here by blast
qed

section \<open>Listing\<close>

definition matching :: "pc_state \<Rightarrow> ic_pc_find \<Rightarrow> guint64 list \<Rightarrow> ic_pc_start list" where
  "matching s pc_find es = filter (\<lambda>p. is_list_match p pc_find) (map (\<lambda>e. the (objs s e)) es)"

lemma alloc_many_plenty [simp]: "alloc_many [] n = (True, [])"
  by (induction n) simp_all

lemma list_loop_ok:
  assumes "glob_pc_array s = (dh, arr, [])" and "ptr_repr h0 (dh, arr, []) xs" and "8 * length xs < 18446744073709551616"
    and "\<forall>e \<in> set xs. e < HIGHEST_BIT_SET \<longrightarrow> e = 0 \<or> objs s e \<noteq> None"
  shows "i \<le> length xs \<Longrightarrow> \<exists>ps. list_loop [] s pc_find full [i..<length xs] =
    Inr (if \<exists>e \<in> set (drop i xs). HIGHEST_BIT_SET \<le> e then IC_ERROR_PTR_ARRAY_INDEX_ERROR else 0, ps) \<and>
    ((\<forall>e \<in> set (drop i xs). e < HIGHEST_BIT_SET) \<longrightarrow> ps = matching s pc_find (filter (\<lambda>e. e \<noteq> 0) (drop i xs)))"
proof (induction "length xs - i" arbitrary: i)
  case 0
  then show ?case by (simp add: matching_def)
next
  case (Suc d)
  then have i: "i < length xs" by simp
  have u: "[i..<length xs] = i # [Suc i..<length xs]" using i by (simp add: upt_conv_Cons)
  have dr: "drop i xs = xs ! i # drop (Suc i) xs" using i by (simp add: Cons_nth_drop_Suc)
  note g = get_ptr_ok [OF assms(2) i assms(3)]
  have dm: "d = length xs - Suc i" using Suc.hyps(2) by simp
  obtain ps where ps: "list_loop [] s pc_find full [Suc i..<length xs] =
      Inr (if \<exists>e \<in> set (drop (Suc i) xs). HIGHEST_BIT_SET \<le> e then IC_ERROR_PTR_ARRAY_INDEX_ERROR else 0, ps)"
    "(\<forall>e \<in> set (drop (Suc i) xs). e < HIGHEST_BIT_SET) \<longrightarrow> ps = matching s pc_find (filter (\<lambda>e. e \<noteq> 0) (drop (Suc i) xs))"
    using Suc.hyps(1) [OF dm Suc_leI [OF i]] by blast
  have z: "0 < HIGHEST_BIT_SET" by (simp add: HIGHEST_BIT_SET_def)
  show ?case
  proof (cases "HIGHEST_BIT_SET \<le> xs ! i")
    case True
    then show ?thesis using g u dr assms(1) by (auto simp: err_codes)
  next
    case False
    then have lt: "xs ! i < HIGHEST_BIT_SET" by simp
    show ?thesis
    proof (cases "xs ! i = 0")
      case True
      then show ?thesis using g u dr assms(1) False ps z by auto
    next
      case nz: False
      then obtain p where p: "objs s (xs ! i) = Some p" using assms(4) lt i by (meson not_None_eq nth_mem)
      show ?thesis
      proof (cases "is_list_match p pc_find")
        case True
        then show ?thesis using g u dr assms(1) False nz p ps
          by (auto simp: get_obj_def copy_pc_start_def matching_def)
      next
        case nm: False
        then show ?thesis using g u dr assms(1) False nz p ps by (auto simp: get_obj_def matching_def)
      qed
    qed
  qed
qed



end
