(* ===== verification/IC_Receive.thy ===== *)
theory IC_Receive
  imports IC_Protocol
begin

text \<open>
  Receiving whatever arrives: the functions of \<open>IC_Protocol\<close> on a connection whose peer sends arbitrary
  bytes, closes the connection, or is silent. \<open>answers\<close> says what is needed of the socket: a call that was
  interrupted is followed by something else than another empty answer. Then \<^verbatim>\<open>ic_rec_with_cr\<close>
  returns a line inside its buffer or an error, and the connection stays usable.
\<close>

definition answers :: "rx list \<Rightarrow> bool" where
  "answers rs \<longleftrightarrow> Quiet \<notin> set rs \<and> (rs = [] \<or> last rs \<noteq> Data [] \<and> last rs \<noteq> RxErr EINTR)"

lemma answers_tl: "answers (r # rs) \<Longrightarrow> answers rs"
  by (auto simp: answers_def split: if_splits)

lemma recv_answers:
  "answers rs \<Longrightarrow> rs \<noteq> [] \<or> n = 0 \<Longrightarrow> \<exists>r rs'. recv rs n = Inr (r, rs') \<and> answers rs' \<and> (r = IoErr EINTR \<longrightarrow> rs' \<noteq> [])"
proof (induction rs n rule: recv.induct)
  case (4 bs rs n)
  show ?case
  proof (cases "bs = []")
    case True
    then have "rs \<noteq> []" using "4.prems"(1) by (auto simp: answers_def)
    with "4.IH" [OF True answers_tl [OF "4.prems"(1)]] True show ?thesis by simp
  next
    case False
    have "answers (Data (drop (Suc n) bs) # rs)" if "\<not> length bs \<le> Suc n" using "4.prems"(1) that by (auto simp: answers_def)
    then show ?thesis using False answers_tl [OF "4.prems"(1)] by simp
  qed
next
  case (6 e rs n)
  then show ?case using answers_tl [OF "6.prems"(1)] by (auto simp: answers_def)
qed (auto simp: answers_def)

definition keeps :: "ic_int_connection \<Rightarrow> ic_int_connection \<Rightarrow> bool" where
  "keeps c c' \<longleftrightarrow> same_buffers c c' \<and> rec_wait_ms c' = rec_wait_ms c \<and> (ranges_ok c \<longrightarrow> ranges_ok c')"

lemma read_loop_total:
  "answers (rx_queue w) \<Longrightarrow> rx_queue w \<noteq> [] \<or> n = 0 \<Longrightarrow> ranges_ok c \<Longrightarrow>
   \<exists>r c' rs. read_loop c w n = Inr (r, (c', w\<lparr>rx_queue := rs\<rparr>)) \<and> keeps c c' \<and> answers rs"
proof (induction c w n rule: read_loop.induct)
  case (1 c w n)
  from recv_answers [OF "1.prems"(1,2)] obtain r rs where
    r: "recv (rx_queue w) n = Inr (r, rs)" "answers rs" "r = IoErr EINTR \<longrightarrow> rs \<noteq> []" by blast
  show ?case
  proof (cases r)
    case (Got bs)
    from count_received_ok [OF "1.prems"(3), of "length bs"] obtain c' where
      c': "count_received c (length bs) = Inr c'" "same_buffers c c'" "ranges_ok c'" by blast
    then have "rec_wait_ms c' = rec_wait_ms c" by (auto simp: count_received_def Let_def upd_stat_def cfault)
    with c' r Got show ?thesis by (intro exI [of _ "Inr bs"] exI [of _ c'] exI [of _ rs]) (simp add: read_loop.simps [of c w] Let_def keeps_def)
  next
    case Closed
    then show ?thesis using r by (auto simp: read_loop.simps [of c w] Let_def keeps_def same_buffers_def ranges_ok_def)
  next
    case (IoErr e)
    show ?thesis
    proof (cases "e = EINTR")
      case True
      from "1.IH" [OF r(1) refl refl IoErr True] r IoErr True "1.prems"(3) show ?thesis by (simp add: read_loop.simps [of c w] Let_def)
    next
      case False
      then show ?thesis using r IoErr by (auto simp: read_loop.simps [of c w] Let_def keeps_def same_buffers_def ranges_ok_def upd_stat_def)
    qed
  qed
qed

text \<open>A connection on which receiving is safe.\<close>

definition safe :: "conn \<Rightarrow> bool" where
  "safe s \<longleftrightarrow> recv_ok s \<and> answers (rx_queue (snd s)) \<and> stop_flags (snd s) = [] \<and> 0 \<le> rec_wait_ms (fst s)"

lemma check_total:
  assumes "answers (rx_queue w)" and "stop_flags w = []" and "0 \<le> rec_wait_ms c"
  shows "check_for_data_on_connection (c, w) = Inr (rx_queue w \<noteq> [], (c, w))"
proof (cases "rx_queue w = []")
  case True
  then show ?thesis using check_silent [OF True assms(2)] assms(3) by (simp add: check_for_data_on_connection_def)
next
  case False
  have st: "steady (rx_queue w)" using assms(1) by (simp add: answers_def steady_def)
  have "check_for_data_loop w t ready = Inr (True, w)" if "t \<noteq> 0 \<or> ready" for t ready
    using st False assms(2) that
  proof (induction w t ready rule: check_for_data_loop.induct)
    case (1 w t ready)
    have n: "next_stop w = (False, w)" using "1.prems"(3) by (simp add: next_stop_def)
    have w: "w\<lparr>rx_queue := rx_queue w\<rparr> = w" by simp
    show ?case
    proof (cases "t = 0")
      case False
      have p: "poll_rx (rx_queue w) (min t 1000) = Inr (True, rx_queue w)" using steady_poll "1.prems"(1,2) by simp
      have "check_for_data_loop w t ready = check_for_data_loop w (t - min t 1000) True"
        using False n p by (simp add: check_for_data_loop.simps [of w t] Let_def)
      then show ?thesis using "1.IH" [OF False n [symmetric] _ refl p refl] "1.prems" w by simp
    qed (use "1.prems" in \<open>simp add: check_for_data_loop.simps\<close>)
  qed
  then show ?thesis using False by (simp add: check_for_data_on_connection_def)
qed

text \<open>The line that was received lies at the beginning of the buffer, with its end character.\<close>

definition line_in :: "conn \<Rightarrow> nat \<Rightarrow> bool" where
  "line_in s n \<longleftrightarrow> n < length (line_buf s) \<and> read_buf_pos (fst s) = n + 1"

lemma rec_loop_total:
  assumes "ranges_ok c" and "length rb = B" and "n \<le> B" and "read_buf_size c = B" and "answers (rx_queue w)" and "stop_flags w = []"
    and "0 \<le> rec_wait_ms c" and "read_buf_pos c = 0" and "size_curr_read_buf c \<le> B"
  shows "\<exists>r s'. rec_with_cr_loop c w B rb n = Inr (r, s') \<and> safe s' \<and> read_buf_size (fst s') = B \<and> (\<forall>k. r = Inr k \<longrightarrow> line_in s' k)"
  using assms
proof (induction "B - n" arbitrary: c w rb n rule: less_induct)
  case less
  let ?inx = "length (takeWhile (\<lambda>ch. ch \<noteq> CARRIAGE_RETURN) (take n rb))"
  have rt: "rd_blk rb 0 n = Inr (take n rb)" using less.prems(2,3) by simp
  have st: "steady (rx_queue w)" using less.prems(5) by (simp add: answers_def steady_def)
  have ok: "recv_ok (c\<lparr>read_buf := Some rb\<rparr>, w)"
    using less.prems st by (simp add: recv_ok_def line_buf_def ranges_ok_def)
  show ?case
  proof (cases "?inx = n")
    case False
    then have "?inx < n" using length_takeWhile_le [of "\<lambda>ch. ch \<noteq> CARRIAGE_RETURN" "take n rb"] less.prems(2,3) by simp
    then have "safe (c\<lparr>read_buf := Some rb, size_curr_read_buf := n, read_buf_pos := ?inx + 1\<rparr>, w)"
      "line_in (c\<lparr>read_buf := Some rb, size_curr_read_buf := n, read_buf_pos := ?inx + 1\<rparr>, w) ?inx"
      using less.prems ok by (simp_all add: safe_def line_in_def recv_ok_def line_buf_def ranges_ok_def)
    then show ?thesis using rt False less.prems(4) by (simp add: rec_with_cr_loop.simps [of c w] Let_def)
  next
    case True
    let ?c = "c\<lparr>read_buf := Some rb\<rparr>"
    have ch: "check_for_data_on_connection (?c, w) = Inr (rx_queue w \<noteq> [], (?c, w))" using check_total less.prems(5-7) by simp
    show ?thesis
    proof (cases "rx_queue w = []")
      case e: True
      then show ?thesis using rt True ch less.prems ok by (simp add: rec_with_cr_loop.simps [of c w] Let_def safe_def)
    next
      case False
      have rg: "ranges_ok ?c" using less.prems(1) by (simp add: ranges_ok_def)
      from read_loop_total [OF less.prems(5) _ rg, of "B - n"] False obtain r c1 rs where
        rd: "read_loop ?c w (B - n) = Inr (r, (c1, w\<lparr>rx_queue := rs\<rparr>))" "keeps ?c c1" "answers rs" by blast
      have c1: "ranges_ok c1" "read_buf_size c1 = B" "0 \<le> rec_wait_ms c1" "read_buf_pos c1 = 0" "size_curr_read_buf c1 \<le> B" "read_buf c1 = Some rb"
        using rd(2) rg less.prems same_buffers_fields [of ?c c1] by (auto simp: keeps_def)
      show ?thesis
      proof (cases r)
        case (Inl e)
        have "safe (c1, w\<lparr>rx_queue := rs\<rparr>)" using c1 rd(3) less.prems(2,6) by (auto simp: safe_def recv_ok_def line_buf_def steady_def answers_def)
        then show ?thesis using rt True ch False rd(1) Inl less.prems(3) c1(2)
          by (simp add: rec_with_cr_loop.simps [of c w] Let_def read_socket_connection_def)
      next
        case (Inr bs)
        have bs: "bs \<noteq> []" "length bs \<le> B - n" using read_loop_got rd(1) Inr by blast+
        let ?rb = "take n rb @ bs @ drop (n + length bs) rb"
        have wb: "wr_blk rb n bs = Inr ?rb" using bs less.prems(2,3) by simp
        have eq: "rec_with_cr_loop c w B rb n = rec_with_cr_loop c1 (w\<lparr>rx_queue := rs\<rparr>) B ?rb (n + length bs)"
          using rt True ch False rd(1) Inr wb less.prems(3) by (simp add: rec_with_cr_loop.simps [of c w] Let_def read_socket_connection_def)
        have m: "B - (n + length bs) < B - n" using bs by (cases bs) auto
        from less.hyps [OF m c1(1) _ _ c1(2) _ _ c1(3-5), of ?rb] bs less.prems(2,3,6) rd(3) show ?thesis unfolding eq by simp
      qed
    qed
  qed
qed

lemma rec_with_cr_total:
  assumes "safe s"
  shows "\<exists>r s'. ic_rec_with_cr s = Inr (r, s') \<and> safe s' \<and> read_buf_size (fst s') = read_buf_size (fst s) \<and> (\<forall>k. r = Inr k \<longrightarrow> line_in s' k)"
proof -
  obtain c w where s: "s = (c, w)" by (cases s)
  obtain rb where rb: "read_buf c = Some rb" "length rb = read_buf_size c" "read_buf_pos c \<le> size_curr_read_buf c" "size_curr_read_buf c \<le> read_buf_size c"
    "ranges_ok c" using assms s by (auto simp: safe_def recv_ok_def line_buf_def)
  have a: "answers (rx_queue w)" "stop_flags w = []" "0 \<le> rec_wait_ms c" using assms s by (simp_all add: safe_def)
  show ?thesis
  proof (cases "0 < size_curr_read_buf c")
    case True
    let ?n = "size_curr_read_buf c - read_buf_pos c"
    let ?c = "c\<lparr>read_buf_pos := 0\<rparr>" and ?rb = "take ?n (drop (read_buf_pos c) rb) @ drop ?n rb"
    have eq: "ic_rec_with_cr s = rec_with_cr_loop ?c w (read_buf_size c) ?rb ?n" using True rb by (simp add: s ic_rec_with_cr_def Let_def)
    have "ranges_ok ?c" "length ?rb = read_buf_size c" "?n \<le> read_buf_size c" using rb by (simp_all add: ranges_ok_def)
    from rec_loop_total [OF this _ a(1,2)] a(3) rb(4) show ?thesis unfolding eq by (simp add: s)
  next
    case False
    have eq: "ic_rec_with_cr s = rec_with_cr_loop c w (read_buf_size c) rb 0" using False rb by (simp add: s ic_rec_with_cr_def)
    from rec_loop_total [OF rb(5,2) _ refl a, of 0] rb(3,4) False show ?thesis unfolding eq by (simp add: s)
  qed
qed

lemma step_back_total:
  assumes "safe s" and "line_in s n"
  shows "\<exists>s'. ic_step_back_rec_with_cr s n = Inr s' \<and> safe s' \<and> read_buf_size (fst s') = read_buf_size (fst s)"
proof -
  obtain c w where s: "s = (c, w)" by (cases s)
  show ?thesis using assms by (auto simp: s ic_step_back_rec_with_cr_def line_in_def safe_def recv_ok_def line_buf_def ranges_ok_def)
qed

lemma rec_simple_total:
  assumes "safe s"
  shows "\<exists>rc b s'. ic_rec_simple_str_impl s st opt = Inr (rc, b, s') \<and> safe s' \<and> read_buf_size (fst s') = read_buf_size (fst s)"
proof -
  from rec_with_cr_total [OF assms] obtain r s1 where
    r: "ic_rec_with_cr s = Inr (r, s1)" "safe s1" "read_buf_size (fst s1) = read_buf_size (fst s)" "\<forall>k. r = Inr k \<longrightarrow> line_in s1 k" by blast
  show ?thesis
  proof (cases r)
    case (Inr n)
    then have li: "line_in s1 n" using r(4) by simp
    obtain b where b: "ic_check_buf (line_buf s1) n st = Inr b" using li by (cases "n = length st") (auto simp: ic_check_buf_def line_in_def)
    from step_back_total [OF r(2) li] obtain s2 where s2: "ic_step_back_rec_with_cr s1 n = Inr s2" "safe s2" "read_buf_size (fst s2) = read_buf_size (fst s1)" by blast
    show ?thesis
    proof (cases b)
      case False
      then have "ic_rec_simple_str_impl s st opt = Inr (0, True, s1)" using b r Inr by (simp add: ic_rec_simple_str_impl_def with_line_def)
      then show ?thesis using r(2,3) by blast
    next
      case True
      then have "ic_rec_simple_str_impl s st opt = Inr (if opt then 0 else IC_PROTOCOL_ERROR, False, s2)"
        using b r Inr s2(1) by (simp add: ic_rec_simple_str_impl_def with_line_def)
      then show ?thesis using r(3) s2(2,3) by metis
    qed
  next
    case (Inl e)
    then have "ic_rec_simple_str_impl s st opt = Inr (e, False, s1)" using r(1) by (simp add: ic_rec_simple_str_impl_def with_line_def)
    then show ?thesis using r(2,3) by blast
  qed
qed

lemma rec_empty_total:
  assumes "safe s"
  shows "\<exists>rc s'. ic_rec_empty_line s = Inr (rc, s') \<and> safe s' \<and> read_buf_size (fst s') = read_buf_size (fst s)"
  using rec_simple_total [OF assms, of ic_empty_string False] by (auto simp: ic_rec_empty_line_def ic_rec_simple_str_def)

lemma skip_prefix_total:
  assumes "n \<le> length rb"
  shows "\<exists>r. skip_prefix rb n p = Inr r \<and> (\<forall>i. r = Some i \<longrightarrow> i \<le> n)"
proof (cases "n < length p + 1")
  case True
  then show ?thesis by (simp add: skip_prefix_def)
next
  case False
  then have "rd_blk rb 0 (length p) = Inr (take (length p) rb)" "rd rb (length p) = Inr (rb ! length p)" using assms by simp_all
  then show ?thesis using False by (auto simp: skip_prefix_def)
qed

end
