(* ===== verification/IC_Pcntrl_Proto.thy ===== *)
theory IC_Pcntrl_Proto
  imports IC_Receive IC_Connectstring IC_Pcntrl
begin

text \<open>
  The messages of the process controller: \<^verbatim>\<open>src/protocol/ic_pcntrl_proto.c\<close> and the functions of
  \<^verbatim>\<open>src/pcntrl/ic_pcntrl.c\<close> that receive and send them. A message is a sequence of lines followed by an
  empty line. Strings that are received live in a memory container, whose allocator is an argument
  \<open>al\<close> of the bodies of the receiving functions, as in \<open>IC_Protocol\<close>.

  Results: a key sent by \<^verbatim>\<open>ic_send_stop_node\<close> is the key that \<^verbatim>\<open>rec_key_message\<close> receives; whatever a peer sends, the
  functions that receive a key return, and after an error the memory is as before; the number of parameters
  of a start message is not bounded, so that the array for them may be too small.
\<close>

section \<open>Strings of the protocol\<close>

definition ic_number_of_lines_str :: "char list" where "ic_number_of_lines_str = ''number of lines:''"
definition ic_receive_config_file_ok_str :: "char list" where "ic_receive_config_file_ok_str = ''receive config file ok''"
definition ic_get_cpu_info_str :: "char list" where "ic_get_cpu_info_str = ''get cpu info''"
definition ic_get_mem_info_str :: "char list" where "ic_get_mem_info_str = ''get memory info''"
definition ic_get_disk_info_str :: "char list" where "ic_get_disk_info_str = ''get disk info''"
definition ic_dir_str :: "char list" where "ic_dir_str = ''dir: ''"
definition ic_process_already_started_str :: "char list" where "ic_process_already_started_str = ''Process already started''"
definition ic_version_str :: "char list" where "ic_version_str = ''version:''"
definition ic_grid_str :: "char list" where "ic_grid_str = ''grid:''"
definition ic_cluster_str :: "char list" where "ic_cluster_str = ''cluster:''"
definition ic_node_str :: "char list" where "ic_node_str = ''node:''"
definition ic_program_str :: "char list" where "ic_program_str = ''program:''"
definition ic_start_time_str :: "char list" where "ic_start_time_str = ''start time:''"
definition ic_start_str :: "char list" where "ic_start_str = ''start''"
definition ic_stop_str :: "char list" where "ic_stop_str = ''stop''"
definition ic_kill_str :: "char list" where "ic_kill_str = ''kill''"
definition ic_list_str :: "char list" where "ic_list_str = ''list''"
definition ic_list_full_str :: "char list" where "ic_list_full_str = ''list full''"
definition ic_list_next_str :: "char list" where "ic_list_next_str = ''list next''"
definition ic_list_node_str :: "char list" where "ic_list_node_str = ''list node''"
definition ic_list_stop_str :: "char list" where "ic_list_stop_str = ''list stop''"
definition ic_auto_restart_str :: "char list" where "ic_auto_restart_str = ''autorestart:''"
definition ic_num_parameters_str :: "char list" where "ic_num_parameters_str = ''num parameters:''"
definition ic_parameter_str :: "char list" where "ic_parameter_str = ''parameter:''"
definition ic_pid_str :: "char list" where "ic_pid_str = ''pid:''"
definition ic_receive_str :: "char list" where "ic_receive_str = ''receive ''"
definition ic_copy_cluster_server_files_str :: "char list" where "ic_copy_cluster_server_files_str = ''copy cluster server files''"
definition ic_copy_config_ini_str :: "char list" where "ic_copy_config_ini_str = ''copy config.ini''"

definition IC_MAX_ERROR_STRING_SIZE :: nat where "IC_MAX_ERROR_STRING_SIZE = 256"
definition IC_MAX_CONFIG_LINE_LEN :: nat where "IC_MAX_CONFIG_LINE_LEN = 120"
definition IC_MAX_FILE_NAME_SIZE :: nat where "IC_MAX_FILE_NAME_SIZE = 255"
definition IC_ERROR_TOO_LARGE_ERROR_MESSAGE :: err where [err_codes]: "IC_ERROR_TOO_LARGE_ERROR_MESSAGE = 7097"
definition IC_FIRST_ERROR :: err where "IC_FIRST_ERROR = 7000"

text \<open>A string constant as the object it is in memory.\<close>

definition c_lit :: "char list \<Rightarrow> char list" where
  "c_lit s = s @ [NULL_BYTE]"

section \<open>src/protocol/ic_pcntrl_proto.c\<close>

text \<open>\<open>err_msg\<close> is the caller's buffer.\<close>

definition ic_receive_error_message :: "conn \<Rightarrow> char list \<Rightarrow> fault + (err \<times> char list \<times> conn)" where
  "ic_receive_error_message s err_msg =
     c_bind (ic_rec_simple_str s ic_error_str) (\<lambda>(rc, s).
     if rc \<noteq> 0 then Inr (rc, err_msg, s)
     else c_bind (ic_rec_with_cr s) (\<lambda>(r, s). case r of
         Inl e \<Rightarrow> Inr (e, err_msg, s)
       | Inr read_size \<Rightarrow>
           if IC_MAX_ERROR_STRING_SIZE \<le> read_size then Inr (IC_ERROR_TOO_LARGE_ERROR_MESSAGE, err_msg, s)
           else c_bind (rd_blk (line_buf s) 0 read_size) (\<lambda>bs.
                c_bind (wr_blk err_msg 0 bs) (\<lambda>err_msg.
                c_bind (ic_rec_empty_line s) (\<lambda>(rc, s).
                  if rc \<noteq> 0 then Inr (rc, err_msg, s)
                  else c_bind (wr err_msg read_size NULL_BYTE) (\<lambda>err_msg. Inr (0, err_msg, s)))))))"

text \<open>The loop of \<^verbatim>\<open>ic_proto_send_file\<close>: one step per line, so that the size of the text bounds it.\<close>

fun send_file_loop :: "nat \<Rightarrow> conn \<Rightarrow> char list \<Rightarrow> guint64 \<Rightarrow> char list \<Rightarrow> guint64 \<Rightarrow> fault + (err \<times> guint64 \<times> conn)" where
  "send_file_loop 0 s text_left size_left lb num_lines = (if size_left = 0 then Inr (0, num_lines, s) else Inl Diverges)"
| "send_file_loop (Suc fuel) s text_left size_left lb num_lines =
     (if size_left = 0 then Inr (0, num_lines, s)
      else c_bind (ic_get_next_line text_left size_left lb (of_nat (IC_MAX_CONFIG_LINE_LEN + 1))) (\<lambda>(rc, text_left, size_left, lb, _).
        if rc \<noteq> 0 then Inr (rc, num_lines - 1, s)
        else c_bind (ic_send_with_cr s lb) (\<lambda>(rc, s).
          if rc \<noteq> 0 then Inr (rc, num_lines - 1, s)
          else send_file_loop fuel s text_left size_left lb (num_lines - 1))))"

text \<open>
  \<open>get_contents\<close> is what \<^verbatim>\<open>ic_get_file_contents\<close> answers for a file name; \<open>junk\<close> is the content of the
  uninitialised local buffers.
\<close>

definition ic_proto_send_file ::
  "(char list \<Rightarrow> err + char list) \<Rightarrow> char list \<Rightarrow> char list \<Rightarrow> conn \<Rightarrow> char list \<Rightarrow> char list \<Rightarrow> fault + (err \<times> conn)"
where
  "ic_proto_send_file get_contents junk line_junk s file_name dir_name =
     (let file_str = IC_INIT_STRING (Some (0, NULL_BYTE # tl junk)) 0 True in
      c_bind (ic_add_ic_string file_str (Some (lit dir_name))) (\<lambda>fs.
      c_bind (ic_add_ic_string fs (Some (lit file_name))) (\<lambda>fs.
      case str fs of None \<Rightarrow> Inl NullDeref
      | Some (_, name) \<Rightarrow> (case get_contents (c_text name) of
          Inl rc \<Rightarrow> Inr (rc, s)
        | Inr file_content \<Rightarrow>
            c_bind (ic_add_ic_string file_str (Some (lit ic_receive_str))) (\<lambda>fs.
            c_bind (ic_add_ic_string fs (Some (lit file_name))) (\<lambda>fs.
            case str fs of None \<Rightarrow> Inl NullDeref
            | Some (_, b) \<Rightarrow>
                and_then (ic_send_with_cr s b) (\<lambda>s.
                c_bind (ic_count_lines file_content (of_nat (length file_content))) (\<lambda>num_lines.
                and_then (ic_send_with_cr_with_number s (c_lit ic_number_of_lines_str) num_lines) (\<lambda>s.
                c_bind (send_file_loop (length file_content) s file_content (of_nat (length file_content)) line_junk num_lines) (\<lambda>(rc, num_lines, s).
                  if rc \<noteq> 0 then Inr (rc, s)
                  else c_require (num_lines = 0) (ic_send_empty_line s)))))))))))"

text \<open>An error message that was received ends the function with the return code 0 of its receipt.\<close>

definition ic_receive_config_file_ok :: "char list \<Rightarrow> conn \<Rightarrow> fault + (err \<times> conn)" where
  "ic_receive_config_file_ok junk s =
     c_bind (ic_rec_simple_str_opt s ic_receive_config_file_ok_str) (\<lambda>(rc, found, s).
       if rc \<noteq> 0 then Inr (rc, s)
       else if found then ic_rec_empty_line s
       else c_bind (ic_receive_error_message s junk) (\<lambda>(rc, _, s). Inr (rc, s)))"

definition ic_send_list_stop :: "conn \<Rightarrow> fault + (err \<times> conn)" where
  "ic_send_list_stop s = and_then (ic_send_with_cr s (c_lit ic_list_stop_str)) ic_send_empty_line"

definition ic_send_list_next :: "conn \<Rightarrow> fault + (err \<times> conn)" where
  "ic_send_list_next s = and_then (ic_send_with_cr s (c_lit ic_list_next_str)) ic_send_empty_line"

definition ic_rec_list_stop :: "conn \<Rightarrow> fault + (err \<times> conn)" where
  "ic_rec_list_stop s = and_then (ic_rec_simple_str s ic_list_stop_str) ic_rec_empty_line"

definition ic_handle_list_stop :: "conn \<Rightarrow> bool \<Rightarrow> fault + (err \<times> conn)" where
  "ic_handle_list_stop s stop = and_then (if stop then ic_send_list_stop s else ic_send_list_next s) ic_rec_list_stop"

text \<open>The names are null-terminated strings, or null pointers.\<close>

definition ic_send_list_node ::
  "char list \<Rightarrow> conn \<Rightarrow> char list option \<Rightarrow> char list option \<Rightarrow> char list option \<Rightarrow> bool \<Rightarrow> fault + (err \<times> conn)"
where
  "ic_send_list_node junk s grid cluster node full_flag =
     and_then (ic_send_with_cr s (c_lit (if full_flag then ic_list_full_str else ic_list_str))) (\<lambda>s.
     case grid of None \<Rightarrow> ic_send_empty_line s
     | Some g \<Rightarrow> and_then (ic_send_with_cr_two_strings junk s (c_lit ic_grid_str) g) (\<lambda>s.
       case cluster of None \<Rightarrow> ic_send_empty_line s
       | Some c \<Rightarrow> and_then (ic_send_with_cr_two_strings junk s (c_lit ic_cluster_str) c) (\<lambda>s.
         case node of None \<Rightarrow> ic_send_empty_line s
         | Some n \<Rightarrow> and_then (ic_send_with_cr_two_strings junk s (c_lit ic_node_str) n) ic_send_empty_line)))"

definition ic_send_ok_pid :: "conn \<Rightarrow> guint64 \<Rightarrow> fault + (err \<times> conn)" where
  "ic_send_ok_pid s p =
     and_then (ic_send_with_cr s (c_lit ic_ok_str)) (\<lambda>s.
     and_then (ic_send_with_cr_with_number s (c_lit ic_pid_str) p) ic_send_empty_line)"

definition ic_send_ok_pid_started :: "conn \<Rightarrow> guint64 \<Rightarrow> fault + (err \<times> conn)" where
  "ic_send_ok_pid_started s p =
     and_then (ic_send_with_cr s (c_lit ic_process_already_started_str)) (\<lambda>s.
     and_then (ic_send_with_cr_with_number s (c_lit ic_pid_str) p) ic_send_empty_line)"

definition ic_send_mem_info_req :: "conn \<Rightarrow> fault + (err \<times> conn)" where
  "ic_send_mem_info_req s = and_then (ic_send_with_cr s (c_lit ic_get_mem_info_str)) ic_send_empty_line"

definition ic_send_disk_info_req :: "char list \<Rightarrow> conn \<Rightarrow> char list \<Rightarrow> fault + (err \<times> conn)" where
  "ic_send_disk_info_req junk s dir_name =
     and_then (ic_send_with_cr s (c_lit ic_get_disk_info_str)) (\<lambda>s.
     and_then (ic_send_with_cr_two_strings junk s (c_lit ic_dir_str) dir_name) ic_send_empty_line)"

definition ic_send_cpu_info_req :: "conn \<Rightarrow> fault + (err \<times> conn)" where
  "ic_send_cpu_info_req s = and_then (ic_send_with_cr s (c_lit ic_get_cpu_info_str)) ic_send_empty_line"

definition ic_send_stop_node :: "char list \<Rightarrow> conn \<Rightarrow> char list \<Rightarrow> char list \<Rightarrow> char list \<Rightarrow> fault + (err \<times> conn)" where
  "ic_send_stop_node junk s grid cluster node =
     and_then (ic_send_with_cr s (c_lit ic_stop_str)) (\<lambda>s.
     and_then (ic_send_with_cr_two_strings junk s (c_lit ic_grid_str) grid) (\<lambda>s.
     and_then (ic_send_with_cr_two_strings junk s (c_lit ic_cluster_str) cluster) (\<lambda>s.
     and_then (ic_send_with_cr_two_strings junk s (c_lit ic_node_str) node) ic_send_empty_line)))"

section \<open>Messages in src/pcntrl/ic_pcntrl.c\<close>

fun send_parameters :: "char list \<Rightarrow> conn \<Rightarrow> char list list \<Rightarrow> fault + (err \<times> conn)" where
  "send_parameters junk s [] = Inr (0, s)"
| "send_parameters junk s (x # xs) =
     and_then (ic_send_with_cr_two_strings junk s (c_lit ic_parameter_str) (c_lit x)) (\<lambda>s. send_parameters junk s xs)"

definition send_list_entry :: "char list \<Rightarrow> conn \<Rightarrow> ic_pc_start \<Rightarrow> bool \<Rightarrow> fault + (err \<times> conn)" where
  "send_list_entry junk s pc_start list_full_flag =
     and_then (ic_send_with_cr s (c_lit ic_list_node_str)) (\<lambda>s.
     and_then (ic_send_with_cr_two_strings junk s (c_lit ic_program_str) (c_lit (program_name pc_start))) (\<lambda>s.
     and_then (ic_send_with_cr_two_strings junk s (c_lit ic_version_str) (c_lit (version_string pc_start))) (\<lambda>s.
     and_then (ic_send_with_cr_two_strings junk s (c_lit ic_grid_str) (c_lit (grid_name (key pc_start)))) (\<lambda>s.
     and_then (ic_send_with_cr_two_strings junk s (c_lit ic_cluster_str) (c_lit (cluster_name (key pc_start)))) (\<lambda>s.
     and_then (ic_send_with_cr_two_strings junk s (c_lit ic_node_str) (c_lit (node_name (key pc_start)))) (\<lambda>s.
     and_then (ic_send_with_cr_with_number s (c_lit ic_start_time_str) (start_id pc_start)) (\<lambda>s.
     and_then (ic_send_with_cr_with_number s (c_lit ic_pid_str) (of_nat (pid pc_start))) (\<lambda>s.
     and_then (ic_send_with_cr_with_number s (c_lit ic_num_parameters_str) (of_nat (length (parameters pc_start)))) (\<lambda>s.
     and_then (if list_full_flag then send_parameters junk s (parameters pc_start) else Inr (0, s)) ic_send_empty_line)))))))))"

text \<open>The key is written part by part; parts not yet received are \<open>None\<close>.\<close>

type_synonym key_parts = "ic_string option \<times> ic_string option \<times> ic_string option"

definition get_key :: "'h allocator \<Rightarrow> 'h \<Rightarrow> conn \<Rightarrow> fault + (err \<times> (key_parts \<times> 'h) \<times> conn)" where
  "get_key al h s =
     c_bind (ic_mc_rec_string al h s ic_grid_str) (\<lambda>(rc, (g, h), s).
     if rc \<noteq> 0 then Inr (rc, ((g, None, None), h), s)
     else c_bind (ic_mc_rec_string al h s ic_cluster_str) (\<lambda>(rc, (c, h), s).
     if rc \<noteq> 0 then Inr (rc, ((g, c, None), h), s)
     else c_bind (ic_mc_rec_string al h s ic_node_str) (\<lambda>(rc, (n, h), s).
       Inr (rc, ((g, c, n), h), s))))"

text \<open>
  A container and an object of \<open>sz\<close> bytes in it: the beginning of \<^verbatim>\<open>rec_start_message\<close> and, with the 56
  bytes of an \<^verbatim>\<open>IC_PC_FIND\<close>, the function \<^verbatim>\<open>init_pc_find\<close>. The memory \<open>m\<close>, the outcomes of its allocations
  \<open>as\<close> and the container are those of \<open>IC_Mc\<close>.
\<close>

definition new_object :: "guint32 \<Rightarrow> allocs \<Rightarrow> mem \<Rightarrow> fault + (err \<times> ic_int_memory_container option \<times> mem \<times> allocs)" where
  "new_object sz as m =
     c_bind (ic_create_memory_container as m 1024 0 False) (\<lambda>(r, m, as). case r of
         None \<Rightarrow> Inr (IC_ERROR_MEM_ALLOC, None, m, as)
       | Some mc \<Rightarrow> c_bind (mc_calloc as mc m sz) (\<lambda>(p, mc, m, as).
           if p = None then c_bind (mc_free mc m) (\<lambda>m. Inr (IC_ERROR_MEM_ALLOC, None, m, as))
           else Inr (0, Some mc, m, as)))"

definition init_pc_find :: "allocs \<Rightarrow> mem \<Rightarrow> fault + (err \<times> ic_int_memory_container option \<times> mem \<times> allocs)" where
  "init_pc_find = new_object 56"

text \<open>
  The frame of the functions that receive a message into a new container: after an error of their
  \<open>body\<close> the container is freed.
\<close>

type_synonym 'a received = "err \<times> ('a option \<times> ic_int_memory_container option \<times> mem \<times> allocs) \<times> conn"

definition in_container ::
  "fault + (err \<times> ic_int_memory_container option \<times> mem \<times> allocs) \<Rightarrow> (mc_world \<Rightarrow> conn \<Rightarrow> fault + (err \<times> ('a \<times> mc_world) \<times> conn)) \<Rightarrow>
   conn \<Rightarrow> fault + 'a received"
where
  "in_container init body s =
     c_bind init (\<lambda>(rc, r, m, as). case r of
         None \<Rightarrow> Inr (rc, (None, None, m, as), s)
       | Some mc \<Rightarrow> c_bind (body (mc, m, as) s) (\<lambda>(rc, (a, (mc, m, as)), s).
           if rc \<noteq> 0 then c_bind (mc_free mc m) (\<lambda>m. Inr (rc, (None, None, m, as), s))
           else Inr (0, (Some a, Some mc, m, as), s)))"

definition key_body :: "'h allocator \<Rightarrow> 'h \<Rightarrow> conn \<Rightarrow> fault + (err \<times> (key_parts \<times> 'h) \<times> conn)" where
  "key_body al h s = c_bind (get_key al h s) (\<lambda>(rc, (k, h), s).
     if rc \<noteq> 0 then Inr (rc, (k, h), s) else c_bind (ic_rec_empty_line s) (\<lambda>(rc, s). Inr (rc, (k, h), s)))"

definition rec_key_message :: "allocs \<Rightarrow> mem \<Rightarrow> conn \<Rightarrow> fault + key_parts received" where
  "rec_key_message as m s = in_container (init_pc_find as m) (key_body mc_gchar_alloc) s"

definition part_empty :: "ic_string option \<Rightarrow> bool" where
  "part_empty p = (case p of None \<Rightarrow> True | Some x \<Rightarrow> len x = 0)"

definition opt_key_end :: "key_parts \<Rightarrow> 'h \<Rightarrow> conn \<Rightarrow> fault + (err \<times> (key_parts \<times> 'h) \<times> conn)" where
  "opt_key_end k h s = c_bind (ic_rec_empty_line s) (\<lambda>(rc, s). Inr (rc, (k, h), s))"

definition opt_key_body :: "'h allocator \<Rightarrow> 'h \<Rightarrow> conn \<Rightarrow> fault + (err \<times> (key_parts \<times> 'h) \<times> conn)" where
  "opt_key_body al h s =
     c_bind (ic_mc_rec_opt_string al h s ic_grid_str) (\<lambda>(rc, (g, h), s).
     if rc \<noteq> 0 then Inr (rc, ((g, None, None), h), s)
     else if part_empty g then opt_key_end (g, None, None) h s
     else c_bind (ic_mc_rec_opt_string al h s ic_cluster_str) (\<lambda>(rc, (c, h), s).
     if rc \<noteq> 0 then Inr (rc, ((g, c, None), h), s)
     else if part_empty c then opt_key_end (g, c, None) h s
     else c_bind (ic_mc_rec_opt_string al h s ic_node_str) (\<lambda>(rc, (n, h), s).
     if rc \<noteq> 0 then Inr (rc, ((g, c, n), h), s)
     else opt_key_end (g, c, n) h s)))"

definition rec_opt_key_message :: "allocs \<Rightarrow> mem \<Rightarrow> conn \<Rightarrow> fault + key_parts received" where
  "rec_opt_key_message as m s = in_container (init_pc_find as m) (opt_key_body mc_gchar_alloc) s"

text \<open>The array of \<^verbatim>\<open>num_parameters\<close> strings of 16 bytes each; its size is passed as a \<^verbatim>\<open>guint32\<close>.\<close>

definition parameter_array_size :: "guint32 \<Rightarrow> guint32" where
  "parameter_array_size num_parameters = 16 * num_parameters"

fun rec_parameters ::
  "'h allocator \<Rightarrow> 'h \<Rightarrow> conn \<Rightarrow> ic_string option list \<Rightarrow> nat \<Rightarrow> nat \<Rightarrow> fault + (err \<times> (ic_string option list \<times> 'h) \<times> conn)"
where
  "rec_parameters al h s arr i 0 = Inr (0, (arr, h), s)"
| "rec_parameters al h s arr i (Suc n) =
     c_bind (ic_mc_rec_string al h s ic_parameter_str) (\<lambda>(rc, (x, h), s).
       if rc \<noteq> 0 then Inr (rc, (arr, h), s)
       else c_bind (wr arr i x) (\<lambda>arr. rec_parameters al h s arr (i + 1) n))"

record start_message =
  m_program :: "ic_string option"
  m_version :: "ic_string option"
  m_key :: key_parts
  m_autorestart :: bool
  m_parameters :: "ic_string option list"

definition start_body ::
  "(char list \<Rightarrow> guint64 \<times> nat) \<Rightarrow> 'h allocator \<Rightarrow> 'h \<Rightarrow> conn \<Rightarrow> fault + (err \<times> (start_message option \<times> 'h) \<times> conn)"
where
  "start_body strtoull al h s =
     c_bind (ic_mc_rec_string al h s ic_program_str) (\<lambda>(rc, (prog, h), s). if rc \<noteq> 0 then Inr (rc, (None, h), s)
     else c_bind (ic_mc_rec_string al h s ic_version_str) (\<lambda>(rc, (vers, h), s). if rc \<noteq> 0 then Inr (rc, (None, h), s)
     else c_bind (get_key al h s) (\<lambda>(rc, (k, h), s). if rc \<noteq> 0 then Inr (rc, (None, h), s)
     else c_bind (ic_rec_boolean s ic_auto_restart_str) (\<lambda>(rc, auto, s). if rc \<noteq> 0 then Inr (rc, (None, h), s)
     else c_bind (ic_rec_number strtoull s ic_num_parameters_str) (\<lambda>(rc, num, s). if rc \<noteq> 0 then Inr (rc, (None, h), s)
     else case (auto, num) of (Some auto, Some num) \<Rightarrow>
       c_bind (al h (parameter_array_size num)) (\<lambda>(r, h).
       if r = None then Inr (IC_ERROR_MEM_ALLOC, (None, h), s)
       else c_bind (rec_parameters al h s (replicate (unat (parameter_array_size num) div 16) None) 0 (unat num)) (\<lambda>(rc, (arr, h), s).
       if rc \<noteq> 0 then Inr (rc, (None, h), s)
       else c_bind (ic_rec_empty_line s) (\<lambda>(rc, s). if rc \<noteq> 0 then Inr (rc, (None, h), s)
       else Inr (0, (Some \<lparr>m_program = prog, m_version = vers, m_key = k, m_autorestart = auto, m_parameters = arr\<rparr>, h), s))))
     | _ \<Rightarrow> Inl UninitRead)))))"

text \<open>An \<^verbatim>\<open>IC_PC_START\<close> has 168 bytes.\<close>

definition rec_start_message ::
  "(char list \<Rightarrow> guint64 \<times> nat) \<Rightarrow> allocs \<Rightarrow> mem \<Rightarrow> conn \<Rightarrow> fault + start_message option received"
where
  "rec_start_message strtoull as m s = in_container (new_object 168 as m) (start_body strtoull mc_gchar_alloc) s"

text \<open>The command that \<^verbatim>\<open>run_command_handler\<close> sees in a line, and whether it goes on after a return code.\<close>

datatype pc_request = Req_Start | Req_Stop | Req_Kill | Req_List | Req_List_Full | Req_Copy_Files | Req_Copy_Config
  | Req_Cpu | Req_Mem | Req_Disk | Req_Empty | Req_Unknown

fun first_request :: "char list \<Rightarrow> (char list \<times> pc_request) list \<Rightarrow> pc_request" where
  "first_request text [] = (if text = [] then Req_Empty else Req_Unknown)"
| "first_request text ((st, r) # rs) = (if text = st then r else first_request text rs)"

definition request_of :: "char list \<Rightarrow> nat \<Rightarrow> fault + pc_request" where
  "request_of rbuf read_size = c_bind (rd_blk rbuf 0 read_size) (\<lambda>text. Inr (first_request text
     [(ic_start_str, Req_Start), (ic_stop_str, Req_Stop), (ic_kill_str, Req_Kill), (ic_list_str, Req_List), (ic_list_full_str, Req_List_Full),
      (ic_copy_cluster_server_files_str, Req_Copy_Files), (ic_copy_config_ini_str, Req_Copy_Config), (ic_get_cpu_info_str, Req_Cpu),
      (ic_get_mem_info_str, Req_Mem), (ic_get_disk_info_str, Req_Disk)]))"

definition goes_on :: "err \<Rightarrow> bool" where
  "goes_on rc \<longleftrightarrow> \<not> (rc = IC_PROTOCOL_ERROR \<or> rc = IC_ERROR_MEM_ALLOC \<or> (rc < IC_FIRST_ERROR \<and> rc \<noteq> 0))"

section \<open>Lemmas\<close>

lemma and_then_assoc: "and_then (and_then m k) j = and_then m (\<lambda>s. and_then (k s) j)"
  by (cases m) (auto simp: and_then_def)

lemma and_then_return [simp]: "and_then (Inr (0, s)) k = k s"
  by (simp add: and_then_def)

text \<open>Sending two strings is sending one line with a space between them.\<close>

lemma two_strings_eq:
  assumes "NULL_BYTE \<notin> set p" and "NULL_BYTE \<notin> set v" and "length p + length v + 2 \<le> length junk"
  shows "ic_send_with_cr_two_strings junk s (c_lit p) (c_lit v) = ic_send_with_cr s ((p @ SPACE_CHAR # v) @ [NULL_BYTE])"
proof -
  let ?n = "length p + length v + 1" and ?l = "p @ SPACE_CHAR # v"
  let ?b = "?l @ drop ?n junk"
  have c: "composed_loop junk 0 [c_lit p, c_lit v] = Inr (?b[?n := SPACE_CHAR], ?n + 1)"
    using assms strlen_at [OF assms(1), of "[]"] strlen_at [OF assms(2), of "[]"]
    by (simp add: c_lit_def upd_conv_take_nth_drop list_update_append nth_append drop_Cons' Suc_diff_le add.commute split: nat.splits)
  obtain x r where d: "drop ?n junk = x # r" using assms(3) by (cases "drop ?n junk") auto
  have "?b[?n := SPACE_CHAR] = ?l @ SPACE_CHAR # r" unfolding d by (simp add: list_update_append)
  then have w: "wr (?b[?n := SPACE_CHAR]) ?n NULL_BYTE = Inr (?l @ NULL_BYTE # r)" by (simp add: list_update_append)
  have nl: "NULL_BYTE \<notin> set ?l" using assms(1,2) by (auto simp: NULL_BYTE_def SPACE_CHAR_def)
  obtain c w where s: "s = (c, w)" by (cases s)
  have append_take_all: "take (length xs) (xs @ ys) = xs" for xs ys :: "char list" by simp
  have cut: "ic_send_with_cr s (?l @ NULL_BYTE # r) = ic_send_with_cr s (?l @ [NULL_BYTE])"
    unfolding ic_send_with_cr_def s prod.case strlen_at [OF nl] c_bind_simps append_take_all ..
  show ?thesis unfolding ic_send_with_cr_two_strings_def ic_send_with_cr_composed_def c c_bind_simps prod.case using w cut by simp
qed

text \<open>A key as lines.\<close>

definition key_lines :: "char list \<Rightarrow> char list \<Rightarrow> char list \<Rightarrow> char list list" where
  "key_lines grid cluster node =
     [ic_grid_str @ SPACE_CHAR # grid, ic_cluster_str @ SPACE_CHAR # cluster, ic_node_str @ SPACE_CHAR # node]"

lemma key_str_facts:
  "NULL_BYTE \<notin> set ic_grid_str" "NULL_BYTE \<notin> set ic_cluster_str" "NULL_BYTE \<notin> set ic_node_str"
  "CARRIAGE_RETURN \<notin> set ic_grid_str" "CARRIAGE_RETURN \<notin> set ic_cluster_str" "CARRIAGE_RETURN \<notin> set ic_node_str"
  "length ic_grid_str = 5" "length ic_cluster_str = 8" "length ic_node_str = 5" "ic_grid_str \<noteq> []" "ic_cluster_str \<noteq> []" "ic_node_str \<noteq> []"
  by (simp_all add: ic_grid_str_def ic_cluster_str_def ic_node_str_def NULL_BYTE_def CARRIAGE_RETURN_def)

lemma stop_node_lines:
  assumes "NULL_BYTE \<notin> set grid" and "NULL_BYTE \<notin> set cluster" and "NULL_BYTE \<notin> set node"
    and "length grid + 7 \<le> length junk" and "length cluster + 10 \<le> length junk" and "length node + 7 \<le> length junk"
  shows "ic_send_stop_node junk s (c_lit grid) (c_lit cluster) (c_lit node) = send_message s (ic_stop_str # key_lines grid cluster node)"
proof -
  have j: "length ic_grid_str + length grid + 2 \<le> length junk" "length ic_cluster_str + length cluster + 2 \<le> length junk"
    "length ic_node_str + length node + 2 \<le> length junk" using assms(4-6) by (simp_all add: key_str_facts)
  note t = two_strings_eq [OF key_str_facts(1) assms(1) j(1)] two_strings_eq [OF key_str_facts(2) assms(2) j(2)]
    two_strings_eq [OF key_str_facts(3) assms(3) j(3)]
  show ?thesis unfolding ic_send_stop_node_def t send_message_def key_lines_def send_lines.simps and_then_assoc and_then_return
    by (simp add: c_lit_def)
qed

text \<open>A received string: its text with a null character in memory of its own.\<close>

definition holds :: "ic_string option \<Rightarrow> char list \<Rightarrow> bool" where
  "holds r v \<longleftrightarrow> (\<exists>i. r = Some (IC_INIT_STRING (Some (i, v @ [NULL_BYTE])) (of_nat (length v)) True))"

context gchar_allocator
begin

lemma rec_string_impl_cases:
  assumes "ready (Suc k) h" and "p \<noteq> []" and "skip_prefix rb n p = Inr r" and "\<forall>i. r = Some i \<longrightarrow> i \<le> n" and "n \<le> length rb" and "n < 4294967288"
  shows "\<exists>rc x h'. mc_rec_string_impl al h p rb n = Inr (rc, x, h') \<and> ready k h' \<and>
    (\<forall>i. r = Some i \<longrightarrow> (rc = 0 \<and> holds x (take (n - i) (drop i rb)) \<or> rc = IC_ERROR_MEM_ALLOC \<and> x = None) \<and> (plenty h \<longrightarrow> rc = 0 \<and> plenty h'))"
proof (cases r)
  case None
  then show ?thesis using assms(1-3) ready_less [OF assms(1)] by (simp add: mc_rec_string_impl_def c_require_def)
next
  case (Some i)
  let ?v = "take (n - i) (drop i rb)"
  have i: "i \<le> n" using assms(4) Some by simp
  have lv: "length ?v = n - i" using i assms(5) by simp
  have u: "unat (of_nat (n - i + 1) :: guint32) = Suc (n - i)" using assms(6) unat_of_nat_32 [of "n - i + 1"] by simp
  then have b: "unat (of_nat (n - i + 1) :: guint32) \<le> 4294967288" using assms(6) by simp
  have rd: "rd_blk rb i (n - i) = Inr ?v" using i assms(5) by simp
  show ?thesis
  proof (rule al_cases [OF assms(1) b], goal_cases none obj)
    case (none h')
    then show ?case using assms(2,3) Some by (simp add: mc_rec_string_impl_def c_require_def Let_def)
  next
    case (obj j d h')
    have "drop (length ?v) (replicate (length d) NULL_BYTE) = [NULL_BYTE]" unfolding obj(3) u lv drop_replicate by simp
    moreover have "length ?v \<le> length d" unfolding obj(3) u lv by simp
    ultimately have "wr_blk (replicate (length d) NULL_BYTE) 0 ?v = Inr (?v @ [NULL_BYTE])" by simp
    then have "mc_rec_string_impl al h p rb n = Inr (0, Some (IC_INIT_STRING (Some (j, ?v @ [NULL_BYTE])) (of_nat (n - i)) True), h')"
      using assms(2,3) Some obj(1) rd by (simp add: mc_rec_string_impl_def c_require_def Let_def del: wr_blk_in)
    moreover have "holds (Some (IC_INIT_STRING (Some (j, ?v @ [NULL_BYTE])) (of_nat (n - i)) True)) ?v" unfolding holds_def lv by blast
    ultimately show ?case using obj(2,4) Some by auto
  qed
qed

lemma rec_string_ok:
  assumes "ready (Suc k) h" and "recv_ok s" and "pending s = (p @ SPACE_CHAR # v) @ CARRIAGE_RETURN # rest" and "p \<noteq> []"
    and "CARRIAGE_RETURN \<notin> set p" and "CARRIAGE_RETURN \<notin> set v" and "length p + 1 + length v < read_buf_size (fst s)" and "length p + 1 + length v < 4294967288"
    and "plenty h"
  shows "\<exists>r h' s'. ic_mc_rec_string al h s p = Inr (0, (r, h'), s') \<and> ready k h' \<and> recv_ok s' \<and> pending s' = rest \<and> send_side s' = send_side s \<and>
    holds r v \<and> plenty h'"
proof -
  let ?l = "p @ SPACE_CHAR # v"
  have cr: "CARRIAGE_RETURN \<notin> set ?l" using assms(5,6) by (auto simp: CARRIAGE_RETURN_def SPACE_CHAR_def)
  from rec_with_cr_line [OF assms(2,3) cr] assms(7) obtain s1 where r: "ic_rec_with_cr s = Inr (Inr (length ?l), s1)" "recv_ok s1" "pending s1 = rest"
    "take (length ?l + 1) (line_buf s1) = ?l @ [CARRIAGE_RETURN]" "send_side s1 = send_side s" by auto
  obtain x where x: "line_buf s1 = p @ SPACE_CHAR # v @ CARRIAGE_RETURN # x" using line_text [OF r(4)] by auto
  have sk: "skip_prefix (line_buf s1) (length ?l) p = Inr (Some (length p + 1))" by (simp add: x skip_prefix_def nth_append)
  have t: "take (length ?l - (length p + 1)) (drop (length p + 1) (line_buf s1)) = v" by (simp add: x)
  have b: "\<forall>i. Some (length p + 1) = Some i \<longrightarrow> i \<le> length ?l" "length ?l \<le> length (line_buf s1)" "length ?l < 4294967288"
    using assms(8) x by simp_all
  from rec_string_impl_cases [OF assms(1,4) sk b] t assms(9) obtain x h' where
    "mc_rec_string_impl al h p (line_buf s1) (length ?l) = Inr (0, x, h')" "ready k h'" "holds x v" "plenty h'" by auto
  then show ?thesis using r by (auto simp: ic_mc_rec_string_def with_line_def)
qed

lemma rec_string_total:
  assumes "ready (Suc k) h" and "safe s" and "p \<noteq> []" and "read_buf_size (fst s) < 4294967288"
  shows "\<exists>rc r h' s'. ic_mc_rec_string al h s p = Inr (rc, (r, h'), s') \<and> ready k h' \<and> safe s' \<and> read_buf_size (fst s') = read_buf_size (fst s)"
proof -
  from rec_with_cr_total [OF assms(2)] obtain q s1 where
    q: "ic_rec_with_cr s = Inr (q, s1)" "safe s1" "read_buf_size (fst s1) = read_buf_size (fst s)" "\<forall>k. q = Inr k \<longrightarrow> line_in s1 k" by blast
  show ?thesis
  proof (cases q)
    case (Inr n)
    then have n: "n \<le> length (line_buf s1)" "n < 4294967288" using q assms(4) by (auto simp: line_in_def safe_def recv_ok_def)
    from skip_prefix_total [OF n(1)] obtain r where r: "skip_prefix (line_buf s1) n p = Inr r" "\<forall>i. r = Some i \<longrightarrow> i \<le> n" by blast
    from rec_string_impl_cases [OF assms(1,3) r n] obtain rc x h' where
      "mc_rec_string_impl al h p (line_buf s1) n = Inr (rc, x, h')" "ready k h'" by blast
    then have "ic_mc_rec_string al h s p = Inr (rc, (x, h'), s1)" "ready k h'" using q(1) Inr by (simp_all add: ic_mc_rec_string_def with_line_def)
    then show ?thesis using q(2,3) by blast
  qed (use q ready_less [OF assms(1)] in \<open>simp add: ic_mc_rec_string_def with_line_def\<close>)
qed

end

text \<open>
  A receiving action returns whatever arrives: \<open>P\<close> holds of the allocator's state afterwards, and the
  connection is still usable. Actions are composed with the tests of their return codes.
\<close>

definition returns :: "('h \<Rightarrow> bool) \<Rightarrow> nat \<Rightarrow> fault + (err \<times> ('a \<times> 'h) \<times> conn) \<Rightarrow> bool" where
  "returns P B m \<longleftrightarrow> (\<exists>rc a h s. m = Inr (rc, (a, h), s) \<and> P h \<and> safe s \<and> read_buf_size (fst s) = B)"

lemma returns_Inr: "P h \<Longrightarrow> safe s \<Longrightarrow> read_buf_size (fst s) = B \<Longrightarrow> returns P B (Inr (rc, (a, h), s))"
  by (auto simp: returns_def)

lemma returns_bind:
  assumes "returns P B m" and "\<And>h. P h \<Longrightarrow> Q h" and "\<And>a h s. P h \<Longrightarrow> safe s \<Longrightarrow> read_buf_size (fst s) = B \<Longrightarrow> returns Q B (f a h s)"
  shows "returns Q B (c_bind m (\<lambda>(rc, (a, h), s). if rc \<noteq> 0 then Inr (rc, (g a, h), s) else f a h s))"
proof -
  obtain rc a h s where m: "m = Inr (rc, (a, h), s)" "P h" "safe s" "read_buf_size (fst s) = B" using assms(1) by (auto simp: returns_def)
  then show ?thesis using assms(2,3) returns_Inr [of Q h s B] by (cases "rc = 0") auto
qed

lemma returns_empty_line:
  assumes "P h" and "safe s" and "read_buf_size (fst s) = B"
  shows "returns P B (c_bind (ic_rec_empty_line s) (\<lambda>(rc, s). Inr (rc, (a, h), s)))"
proof -
  from rec_empty_total [OF assms(2)] obtain rc s' where r: "ic_rec_empty_line s = Inr (rc, s')" "safe s'" "read_buf_size (fst s') = read_buf_size (fst s)" by blast
  show ?thesis unfolding r(1) c_bind_simps prod.case by (rule returns_Inr) (use r assms in auto)
qed

context gchar_allocator
begin

lemma rec_string_returns:
  assumes "ready (Suc k) h" and "safe s" and "read_buf_size (fst s) = B" and "p \<noteq> []" and "B < 4294967288"
  shows "returns (ready k) B (ic_mc_rec_string al h s p)"
  using rec_string_total [OF assms(1,2,4)] assms(3,5) by (simp add: returns_def)

lemma rec_opt_string_returns:
  assumes "ready (Suc k) h" and "safe s" and "read_buf_size (fst s) = B" and "p \<noteq> []" and "B < 4294967288"
  shows "returns (ready k) B (ic_mc_rec_opt_string al h s p)"
proof -
  from rec_with_cr_total [OF assms(2)] obtain q s1 where
    q: "ic_rec_with_cr s = Inr (q, s1)" "safe s1" "read_buf_size (fst s1) = read_buf_size (fst s)" "\<forall>k. q = Inr k \<longrightarrow> line_in s1 k" by blast
  show ?thesis
  proof (cases "q = Inr 0")
    case True
    from step_back_total [OF q(2)] q(4) True obtain s2 where
      s2: "ic_step_back_rec_with_cr s1 0 = Inr s2" "safe s2" "read_buf_size (fst s2) = read_buf_size (fst s1)" by blast
    then have "ic_mc_rec_opt_string al h s p = Inr (0, (Some (IC_INIT_STRING None 0 False), h), s2)"
      using q(1) True by (simp add: ic_mc_rec_opt_string_def with_line_def)
    then show ?thesis using s2 q(3) assms(3) ready_less [OF assms(1)] by (simp add: returns_Inr)
  next
    case False
    then have "ic_mc_rec_opt_string al h s p = ic_mc_rec_string al h s p"
      using q(1) by (cases q) (auto simp: ic_mc_rec_opt_string_def ic_mc_rec_string_def with_line_def)
    then show ?thesis using rec_string_returns [OF assms] by simp
  qed
qed

lemmas strings_return = rec_string_returns [OF _ _ _ key_str_facts(10)] rec_string_returns [OF _ _ _ key_str_facts(11)]
  rec_string_returns [OF _ _ _ key_str_facts(12)] rec_opt_string_returns [OF _ _ _ key_str_facts(10)]
  rec_opt_string_returns [OF _ _ _ key_str_facts(11)] rec_opt_string_returns [OF _ _ _ key_str_facts(12)]

lemma get_key_returns:
  assumes "ready (Suc (Suc (Suc k))) h" and "safe s" and "read_buf_size (fst s) = B" and "B < 4294967288"
  shows "returns (ready k) B (get_key al h s)"
proof -
  have last: "returns (ready k) B (c_bind (ic_mc_rec_string al h s ic_node_str) (\<lambda>(rc, (n, h), s). Inr (rc, ((g, c, n), h), s)))"
    if "ready (Suc k) h" "safe s" "read_buf_size (fst s) = B" for g c h s
    using strings_return(3) [OF that assms(4)] by (auto simp: returns_def)
  show ?thesis unfolding get_key_def
    by (intro returns_bind [OF strings_return(1) [OF assms]] returns_bind [OF strings_return(2) [OF _ _ _ assms(4)]] last)
      (auto intro: ready_less)
qed

lemma key_body_returns:
  assumes "ready (Suc (Suc (Suc k))) h" and "safe s" and "read_buf_size (fst s) = B" and "B < 4294967288"
  shows "returns (ready k) B (key_body al h s)"
  unfolding key_body_def by (rule returns_bind [OF get_key_returns [OF assms], of _ _ "\<lambda>k. k"]) (auto intro: returns_empty_line)

lemma opt_key_body_returns:
  assumes "ready (Suc (Suc (Suc k))) h" and "safe s" and "read_buf_size (fst s) = B" and "B < 4294967288"
  shows "returns (ready k) B (opt_key_body al h s)"
proof -
  have fin: "returns (ready k) B (opt_key_end x h s)" if "ready k h" "safe s" "read_buf_size (fst s) = B" for x h s
    unfolding opt_key_end_def by (rule returns_empty_line) (use that in auto)
  have fin2: "returns (ready k) B (opt_key_end x h s)" if "ready (Suc k) h" "safe s" "read_buf_size (fst s) = B" for x h s
    using fin [OF ready_less] that by simp
  have fin3: "returns (ready k) B (opt_key_end x h s)" if "ready (Suc (Suc k)) h" "safe s" "read_buf_size (fst s) = B" for x h s
    using fin2 [OF ready_less] that by simp
  have n3: "returns (ready k) B (c_bind (ic_mc_rec_opt_string al h s ic_node_str) (\<lambda>(rc, (n, h), s).
      if rc \<noteq> 0 then Inr (rc, ((g, c, n), h), s) else opt_key_end (g, c, n) h s))"
    if "ready (Suc k) h" "safe s" "read_buf_size (fst s) = B" for g c h s
    by (rule returns_bind [OF strings_return(6) [OF that assms(4)]]) (simp_all add: fin)
  have n2: "returns (ready k) B (c_bind (ic_mc_rec_opt_string al h s ic_cluster_str) (\<lambda>(rc, (c, h), s).
      if rc \<noteq> 0 then Inr (rc, ((g, c, None), h), s) else if part_empty c then opt_key_end (g, c, None) h s
      else c_bind (ic_mc_rec_opt_string al h s ic_node_str) (\<lambda>(rc, (n, h), s).
        if rc \<noteq> 0 then Inr (rc, ((g, c, n), h), s) else opt_key_end (g, c, n) h s)))"
    if "ready (Suc (Suc k)) h" "safe s" "read_buf_size (fst s) = B" for g h s
    by (rule returns_bind [OF strings_return(5) [OF that assms(4)]]) (simp_all add: ready_less fin2 n3 [simplified])
  show ?thesis unfolding opt_key_body_def
    by (rule returns_bind [OF strings_return(4) [OF assms]]) (simp_all add: ready_less fin3 n2 [simplified])
qed

lemma get_key_ok:
  assumes "ready (Suc (Suc (Suc k))) h" and "plenty h" and "recv_ok s" and "pending s = on_wire (key_lines grid cluster node) @ rest"
    and "\<forall>l \<in> set (key_lines grid cluster node). CARRIAGE_RETURN \<notin> set l \<and> length l < read_buf_size (fst s) \<and> length l < 4294967288"
  shows "\<exists>r1 r2 r3 h' s'. get_key al h s = Inr (0, ((r1, r2, r3), h'), s') \<and> ready k h' \<and> plenty h' \<and> recv_ok s' \<and> pending s' = rest \<and>
    send_side s' = send_side s \<and> holds r1 grid \<and> holds r2 cluster \<and> holds r3 node"
proof -
  note l = assms(5) [unfolded key_lines_def]
  have p: "pending s = (ic_grid_str @ SPACE_CHAR # grid) @ CARRIAGE_RETURN # (ic_cluster_str @ SPACE_CHAR # cluster) @ CARRIAGE_RETURN #
    (ic_node_str @ SPACE_CHAR # node) @ CARRIAGE_RETURN # rest" using assms(4) by (simp add: key_lines_def on_wire_def)
  from rec_string_ok [OF assms(1,3) p key_str_facts(10,4) _ _ _ assms(2)] l obtain r1 h1 s1 where
    1: "ic_mc_rec_string al h s ic_grid_str = Inr (0, (r1, h1), s1)" "ready (Suc (Suc k)) h1" "recv_ok s1"
      "pending s1 = (ic_cluster_str @ SPACE_CHAR # cluster) @ CARRIAGE_RETURN # (ic_node_str @ SPACE_CHAR # node) @ CARRIAGE_RETURN # rest"
      "send_side s1 = send_side s" "holds r1 grid" "plenty h1" by auto
  have b1: "read_buf_size (fst s1) = read_buf_size (fst s)" using 1(5) by (simp add: send_side_def)
  from rec_string_ok [OF 1(2-4) key_str_facts(11,5) _ _ _ 1(7)] l b1 obtain r2 h2 s2 where
    2: "ic_mc_rec_string al h1 s1 ic_cluster_str = Inr (0, (r2, h2), s2)" "ready (Suc k) h2" "recv_ok s2"
      "pending s2 = (ic_node_str @ SPACE_CHAR # node) @ CARRIAGE_RETURN # rest" "send_side s2 = send_side s1" "holds r2 cluster" "plenty h2" by auto
  have b2: "read_buf_size (fst s2) = read_buf_size (fst s)" using 2(5) b1 by (simp add: send_side_def)
  from rec_string_ok [OF 2(2-4) key_str_facts(12,6) _ _ _ 2(7)] l b2 obtain r3 h3 s3 where
    3: "ic_mc_rec_string al h2 s2 ic_node_str = Inr (0, (r3, h3), s3)" "ready k h3" "recv_ok s3" "pending s3 = rest" "send_side s3 = send_side s2"
      "holds r3 node" "plenty h3" by auto
  have "get_key al h s = Inr (0, ((r1, r2, r3), h3), s3)" using 1(1) 2(1) 3(1) by (simp add: get_key_def)
  then show ?thesis using 1(5,6) 2(5,6) 3 by metis
qed

end

section \<open>Containers\<close>

lemma calloc_any:
  assumes "mc_inv fr (Suc k) (mc, m, as) rs" and "unat n \<le> 4294967288"
  shows "\<exists>p mc' m' as' rs'. mc_calloc as mc m n = Inr (p, mc', m', as') \<and> mc_inv fr k (mc', m', as') rs' \<and>
    (mc_plenty (mc, m, as) \<longrightarrow> p \<noteq> None \<and> mc_plenty (mc', m', as'))"
proof -
  from mcz.alloc_law [OF assms] obtain p s' where
    op: "mc_calloc_op (mc, m, as) n = Inr (p, s')" "\<exists>rs'. mc_inv fr k s' rs'" by blast
  obtain mc' m' as' where s': "s' = (mc', m', as')" by (cases s')
  have c: "mc_calloc as mc m n = Inr (p, mc', m', as')" "\<exists>rs'. mc_inv fr k (mc', m', as') rs'"
    using op by (auto simp: mc_calloc_op_def s' cfault)
  have "p \<noteq> None \<and> mc_plenty (mc', m', as')" if "mc_plenty (mc, m, as)"
    using c(1) that mc_alloc_plenty [of mc m n] by (fastforce simp: mc_calloc_def mc_plenty_def cfault split: option.splits)
  with c show ?thesis by blast
qed

text \<open>The two ways out of \<^verbatim>\<open>init_pc_find\<close>.\<close>

lemma new_object_cases:
  assumes "mem_ok m" and "unat sz \<le> 4294967288"
  obtains (short) m' as' where "new_object sz as m = Inr (IC_ERROR_MEM_ALLOC, None, m', as')" "blocks m' = blocks m" "as \<noteq> []"
  | (go) mc m' as' where "new_object sz as m = Inr (0, Some mc, m', as')" "mc_ready (blocks m) 249999999 (mc, m', as')"
      "as = [] \<longrightarrow> mc_plenty (mc, m', as')"
proof -
  obtain r m1 as1 where c: "ic_create_memory_container as m 1024 0 False = Inr (r, m1, as1)" using create_returns by blast
  show thesis
  proof (cases r)
    case None
    then show thesis using short c create_none [OF assms(1)] by (fastforce simp: new_object_def)
  next
    case (Some mc)
    have inv: "mc_inv (blocks m) (Suc 249999999) (mc, m1, as1) []" using create_ok [OF assms(1) _ _ c [unfolded Some]] by simp
    have pl: "as = [] \<longrightarrow> mc_plenty (mc, m1, as1)" using c Some create_plenty by blast
    from calloc_any [OF inv assms(2)] pl obtain p mc2 m2 as2 rs2 where s2: "mc_calloc as1 mc m1 sz = Inr (p, mc2, m2, as2)"
      "mc_inv (blocks m) 249999999 (mc2, m2, as2) rs2" "as = [] \<longrightarrow> p \<noteq> None \<and> mc_plenty (mc2, m2, as2)" by blast
    obtain f where f: "mc_free mc2 m2 = Inr f" "blocks f = blocks m" using mc_free_inv [OF s2(2)] by blast
    show thesis
    proof (cases "p = None")
      case True
      then show thesis using short [of f as2] c Some s2 f by (auto simp: new_object_def)
    next
      case False
      then have "new_object sz as m = Inr (0, Some mc2, m2, as2)" using c Some s2(1) by (auto simp: new_object_def)
      moreover have "mc_ready (blocks m) 249999999 (mc2, m2, as2)" using s2(2) unfolding mc_ready_def by blast
      ultimately show thesis using go s2(3) by blast
    qed
  qed
qed

text \<open>What a function that receives a message into a container promises.\<close>

definition container_result :: "mem \<Rightarrow> nat \<Rightarrow> 'a received \<Rightarrow> bool" where
  "container_result m B = (\<lambda>(rc, (a, r, m', as'), s'). safe s' \<and> read_buf_size (fst s') = B \<and>
     (if rc = 0 then a \<noteq> None \<and> (\<exists>mc rs. r = Some mc \<and> mc_inv (blocks m) 1 (mc, m', as') rs) else r = None \<and> blocks m' = blocks m))"

lemma in_container_ok:
  assumes "mem_ok m" and "unat sz \<le> 4294967288" and "safe s" and "read_buf_size (fst s) = B"
    and "\<And>h. mc_ready (blocks m) 249999999 h \<Longrightarrow> returns (mc_ready (blocks m) 1) B (body h s)"
  shows "\<exists>r. in_container (new_object sz as m) body s = Inr r \<and> container_result m B r"
proof (rule new_object_cases [OF assms(1,2), of as], goal_cases short go)
  case (short m' as')
  then show ?case using assms(3,4) by (simp add: in_container_def container_result_def err_codes)
next
  case (go mc m' as')
  from assms(5) [OF go(2)] obtain rc a mc1 m1 as1 s1 where
    b: "body (mc, m', as') s = Inr (rc, (a, (mc1, m1, as1)), s1)" "mc_ready (blocks m) 1 (mc1, m1, as1)" "safe s1" "read_buf_size (fst s1) = B"
    by (auto simp: returns_def)
  then obtain rs where rs: "mc_inv (blocks m) 1 (mc1, m1, as1) rs" by (auto simp: mc_ready_def)
  obtain f where f: "mc_free mc1 m1 = Inr f" "blocks f = blocks m" using mc_free_inv [OF rs] by blast
  show ?case
  proof (cases "rc = 0")
    case True
    then show ?thesis using go(1) b rs by (auto simp: in_container_def container_result_def)
  next
    case False
    then show ?thesis using go(1) b f by (simp add: in_container_def container_result_def)
  qed
qed

section \<open>The start message\<close>

lemma rec_boolean_ok:
  assumes "recv_ok s" and "pending s = (p @ SPACE_CHAR # (if b then ic_true_str else ic_false_str)) @ CARRIAGE_RETURN # rest" and "CARRIAGE_RETURN \<notin> set p"
    and "length p + 6 < read_buf_size (fst s)"
  shows "\<exists>s'. ic_rec_boolean s p = Inr (0, Some b, s') \<and> recv_ok s' \<and> pending s' = rest \<and> send_side s' = send_side s"
proof -
  let ?v = "if b then ic_true_str else ic_false_str"
  let ?l = "p @ SPACE_CHAR # ?v"
  have "CARRIAGE_RETURN \<notin> set ?l" using assms(3) by (auto simp: CARRIAGE_RETURN_def SPACE_CHAR_def ic_true_str_def ic_false_str_def)
  moreover have "length ?l < read_buf_size (fst s)" using assms(4) by (auto simp: ic_true_str_def ic_false_str_def)
  ultimately obtain s1 where r: "ic_rec_with_cr s = Inr (Inr (length ?l), s1)" "recv_ok s1" "pending s1 = rest"
    "take (length ?l + 1) (line_buf s1) = ?l @ [CARRIAGE_RETURN]" "send_side s1 = send_side s"
    using rec_with_cr_line [OF assms(1,2)] by blast
  obtain x where x: "line_buf s1 = ?l @ CARRIAGE_RETURN # x" using line_text [OF r(4)] by blast
  have sk: "skip_prefix (line_buf s1) (length ?l) p = Inr (Some (length p + 1))" unfolding x by (simp add: skip_prefix_def nth_append)
  have rd: "rd_blk (line_buf s1) (length p + 1) (length ?l - (length p + 1)) = Inr ?v" unfolding x by simp
  have "ic_true_str \<noteq> ic_false_str" by (simp add: ic_true_str_def ic_false_str_def)
  then have "ic_rec_boolean s p = Inr (0, Some b, s1)"
    unfolding ic_rec_boolean_def with_line_def r(1) c_bind_simps prod.case sum.case sk option.case rd by auto
  then show ?thesis using r by blast
qed

lemma rec_number_ok:
  fixes v :: guint64
  assumes "strtoull_ok f" and "recv_ok s" and "pending s = (p @ SPACE_CHAR # dec_string (unat v)) @ CARRIAGE_RETURN # rest" and "CARRIAGE_RETURN \<notin> set p"
    and "length p + 22 \<le> read_buf_size (fst s)" and "length p < 4000000000" and "v < ucast IC_MAX_UINT32"
  shows "\<exists>s'. ic_rec_number f s p = Inr (0, Some (ucast v), s') \<and> recv_ok s' \<and> pending s' = rest \<and> send_side s' = send_side s"
proof -
  let ?l = "p @ SPACE_CHAR # dec_string (unat v)"
  have "CARRIAGE_RETURN \<notin> set ?l" using assms(4) dec_string_digits [of CARRIAGE_RETURN "unat v"] by (auto simp: CARRIAGE_RETURN_def SPACE_CHAR_def)
  moreover have "length ?l < read_buf_size (fst s)" using assms(5) dec_string_length(1) [of v] by simp
  ultimately obtain s1 where r: "ic_rec_with_cr s = Inr (Inr (length ?l), s1)" "recv_ok s1" "pending s1 = rest"
    "take (length ?l + 1) (line_buf s1) = ?l @ [CARRIAGE_RETURN]" "send_side s1 = send_side s"
    using rec_with_cr_line [OF assms(2,3)] by blast
  obtain x where x: "line_buf s1 = ?l @ CARRIAGE_RETURN # x" using line_text [OF r(4)] by blast
  have "ic_check_buf_with_int f (line_buf s1) (length ?l) p = Inr (False, Some v)"
    using check_int_ok [OF assms(1) _ assms(6), of "line_buf s1" v x] x by simp
  then have "ic_rec_number f s p = Inr (0, Some (ucast v), s1)"
    using r(1) assms(7) by (simp add: ic_rec_number_def ic_rec_number_impl_def with_line_def not_le)
  then show ?thesis using r by blast
qed

definition parameter_lines :: "char list list \<Rightarrow> char list list" where
  "parameter_lines ps = map (\<lambda>x. ic_parameter_str @ SPACE_CHAR # x) ps"

text \<open>The lines of a start message behind its first line, with a number of parameters that need not be that of \<open>ps\<close>.\<close>

definition start_lines :: "char list \<Rightarrow> char list \<Rightarrow> char list \<Rightarrow> char list \<Rightarrow> char list \<Rightarrow> bool \<Rightarrow> guint64 \<Rightarrow> char list list \<Rightarrow> char list list" where
  "start_lines prog vers grid cluster node auto num ps =
     [ic_program_str @ SPACE_CHAR # prog, ic_version_str @ SPACE_CHAR # vers] @ key_lines grid cluster node @
     [ic_auto_restart_str @ SPACE_CHAR # (if auto then ic_true_str else ic_false_str), ic_num_parameters_str @ SPACE_CHAR # dec_string (unat num)] @
     parameter_lines ps"

lemma start_str_facts:
  "ic_parameter_str \<noteq> []" "CARRIAGE_RETURN \<notin> set ic_parameter_str" "ic_program_str \<noteq> []" "CARRIAGE_RETURN \<notin> set ic_program_str"
  "ic_version_str \<noteq> []" "CARRIAGE_RETURN \<notin> set ic_version_str" "CARRIAGE_RETURN \<notin> set ic_auto_restart_str" "CARRIAGE_RETURN \<notin> set ic_num_parameters_str"
  "length ic_auto_restart_str = 12" "length ic_num_parameters_str = 15"
  by (simp_all add: ic_parameter_str_def ic_program_str_def ic_version_str_def ic_auto_restart_str_def ic_num_parameters_str_def CARRIAGE_RETURN_def)

text \<open>Lines that fit into the buffers.\<close>

definition fits :: "nat \<Rightarrow> char list \<Rightarrow> bool" where
  "fits B l \<longleftrightarrow> CARRIAGE_RETURN \<notin> set l \<and> length l < B \<and> length l < 4294967288"

context gchar_allocator
begin

lemma rec_fitting_string:
  assumes "ready (Suc k) h" and "plenty h" and "recv_ok s" and "pending s = on_wire ((p @ SPACE_CHAR # v) # ls) @ rest" and "p \<noteq> []" and "fits (read_buf_size (fst s)) (p @ SPACE_CHAR # v)"
  shows "\<exists>r h' s'. ic_mc_rec_string al h s p = Inr (0, (r, h'), s') \<and> ready k h' \<and> plenty h' \<and> recv_ok s' \<and> pending s' = on_wire ls @ rest \<and>
    send_side s' = send_side s \<and> holds r v \<and> read_buf_size (fst s') = read_buf_size (fst s)"
proof -
  have p: "pending s = (p @ SPACE_CHAR # v) @ CARRIAGE_RETURN # on_wire ls @ rest" using assms(4) by (simp add: on_wire_def)
  have f: "CARRIAGE_RETURN \<notin> set p" "CARRIAGE_RETURN \<notin> set v" "length p + 1 + length v < read_buf_size (fst s)" "length p + 1 + length v < 4294967288"
    using assms(6) by (auto simp: fits_def)
  from rec_string_ok [OF assms(1,3) p assms(5) f assms(2)] show ?thesis by (auto simp: send_side_def)
qed

lemma rec_parameters_ok:
  "ready (length ps + k) h \<Longrightarrow> plenty h \<Longrightarrow> recv_ok s \<Longrightarrow> pending s = on_wire (parameter_lines ps) @ rest \<Longrightarrow>
   \<forall>l \<in> set (parameter_lines ps). fits (read_buf_size (fst s)) l \<Longrightarrow> i + length ps \<le> length arr \<Longrightarrow>
   \<exists>xs h' s'. rec_parameters al h s arr i (length ps) = Inr (0, (take i arr @ xs @ drop (i + length ps) arr, h'), s') \<and> list_all2 holds xs ps \<and>
     ready k h' \<and> plenty h' \<and> recv_ok s' \<and> pending s' = rest \<and> send_side s' = send_side s"
proof (induction ps arbitrary: h s i arr)
  case Nil
  then show ?case by (auto simp: parameter_lines_def on_wire_def)
next
  case (Cons v ps)
  have p: "pending s = on_wire ((ic_parameter_str @ SPACE_CHAR # v) # parameter_lines ps) @ rest" "ready (Suc (length ps + k)) h"
    "fits (read_buf_size (fst s)) (ic_parameter_str @ SPACE_CHAR # v)"
    using Cons.prems(1,4,5) by (simp_all add: parameter_lines_def)
  from rec_fitting_string [OF p(2) Cons.prems(2,3) p(1) start_str_facts(1) p(3)] obtain r h1 s1 where
    1: "ic_mc_rec_string al h s ic_parameter_str = Inr (0, (r, h1), s1)" "ready (length ps + k) h1" "plenty h1" "recv_ok s1"
      "pending s1 = on_wire (parameter_lines ps) @ rest" "send_side s1 = send_side s" "holds r v" "read_buf_size (fst s1) = read_buf_size (fst s)" by blast
  have w: "wr arr i r = Inr (arr[i := r])" "i + 1 + length ps \<le> length (arr[i := r])" using Cons.prems(6) by simp_all
  have fit: "\<forall>l \<in> set (parameter_lines ps). fits (read_buf_size (fst s1)) l" using Cons.prems(5) 1(8) by (simp add: parameter_lines_def)
  from Cons.IH [OF 1(2-5) fit w(2)] obtain xs h2 s2 where
    2: "rec_parameters al h1 s1 (arr[i := r]) (i + 1) (length ps) = Inr (0, (take (i + 1) (arr[i := r]) @ xs @ drop (i + 1 + length ps) (arr[i := r]), h2), s2)"
      "list_all2 holds xs ps" "ready k h2" "plenty h2" "recv_ok s2" "pending s2 = rest" "send_side s2 = send_side s1" by blast
  have "take (i + 1) (arr[i := r]) = take i arr @ [r]" using Cons.prems(6) by (simp add: take_Suc_conv_app_nth)
  then have "rec_parameters al h s arr i (length (v # ps)) = Inr (0, (take i arr @ (r # xs) @ drop (i + length (v # ps)) arr, h2), s2)"
    using 1(1) w(1) 2(1) by simp
  then show ?case using 2(2-7) 1(6,7) by (metis list_all2_Cons)
qed

text \<open>One parameter more than the array has elements.\<close>

lemma rec_parameters_over:
  "ready (length ps + k) h \<Longrightarrow> plenty h \<Longrightarrow> recv_ok s \<Longrightarrow> pending s = on_wire (parameter_lines ps) @ rest \<Longrightarrow>
   \<forall>l \<in> set (parameter_lines ps). fits (read_buf_size (fst s)) l \<Longrightarrow> i \<le> length arr \<Longrightarrow> length arr < i + length ps \<Longrightarrow> length ps \<le> n \<Longrightarrow>
   rec_parameters al h s arr i n = Inl OutOfBounds"
proof (induction ps arbitrary: h s i arr n)
  case Nil
  then show ?case by simp
next
  case (Cons v ps)
  have p: "pending s = on_wire ((ic_parameter_str @ SPACE_CHAR # v) # parameter_lines ps) @ rest" "ready (Suc (length ps + k)) h"
    "fits (read_buf_size (fst s)) (ic_parameter_str @ SPACE_CHAR # v)"
    using Cons.prems(1,4,5) by (simp_all add: parameter_lines_def)
  obtain m where n: "n = Suc m" "length ps \<le> m" using Cons.prems(8) by (cases n) auto
  from rec_fitting_string [OF p(2) Cons.prems(2,3) p(1) start_str_facts(1) p(3)] obtain r h1 s1 where
    1: "ic_mc_rec_string al h s ic_parameter_str = Inr (0, (r, h1), s1)" "ready (length ps + k) h1" "plenty h1" "recv_ok s1"
      "pending s1 = on_wire (parameter_lines ps) @ rest" "read_buf_size (fst s1) = read_buf_size (fst s)" by blast
  have fit: "\<forall>l \<in> set (parameter_lines ps). fits (read_buf_size (fst s1)) l" using Cons.prems(5) 1(6) by (simp add: parameter_lines_def)
  show ?case
  proof (cases "i = length arr")
    case True
    then show ?thesis using 1(1) n(1) by (simp add: wr_def)
  next
    case False
    then show ?thesis using Cons.IH [OF 1(2-5) fit _ _ n(2), of "i + 1" "arr[i := r]"] 1(1) n(1) Cons.prems(6,7) by simp
  qed
qed


lemma start_body_parameters:
  assumes "ready (Suc (Suc (Suc (Suc (Suc (Suc k)))))) h" and "plenty h" and "recv_ok s" and "strtoull_ok f"
    and "pending s = on_wire (start_lines prog vers grid cluster node auto num ps) @ rest"
    and "\<forall>l \<in> set (start_lines prog vers grid cluster node auto num ps). fits (read_buf_size (fst s)) l"
    and "37 \<le> read_buf_size (fst s)" and "num < ucast IC_MAX_UINT32" and "unat (parameter_array_size (ucast num)) \<le> 4294967288"
  shows "\<exists>r1 r2 x1 x2 x3 h' s'. start_body f al h s =
      c_bind (rec_parameters al h' s' (replicate (unat (parameter_array_size (ucast num)) div 16) None) 0 (unat (ucast num :: guint32))) (\<lambda>(rc, (arr, h), s).
       if rc \<noteq> 0 then Inr (rc, (None, h), s)
       else c_bind (ic_rec_empty_line s) (\<lambda>(rc, s). if rc \<noteq> 0 then Inr (rc, (None, h), s)
       else Inr (0, (Some \<lparr>m_program = r1, m_version = r2, m_key = (x1, x2, x3), m_autorestart = auto, m_parameters = arr\<rparr>, h), s))) \<and>
    holds r1 prog \<and> holds r2 vers \<and> holds x1 grid \<and> holds x2 cluster \<and> holds x3 node \<and> ready k h' \<and> plenty h' \<and> recv_ok s' \<and>
    pending s' = on_wire (parameter_lines ps) @ rest \<and> read_buf_size (fst s') = read_buf_size (fst s)"
proof -
  let ?B = "read_buf_size (fst s)"
  let ?al = "ic_auto_restart_str @ SPACE_CHAR # (if auto then ic_true_str else ic_false_str)" and ?nl = "ic_num_parameters_str @ SPACE_CHAR # dec_string (unat num)"
  note l = assms(6) [unfolded start_lines_def]
  have p: "pending s = on_wire ((ic_program_str @ SPACE_CHAR # prog) # (ic_version_str @ SPACE_CHAR # vers) # key_lines grid cluster node @ ?al # ?nl # parameter_lines ps) @ rest"
    using assms(5) by (simp add: start_lines_def)
  from rec_fitting_string [OF assms(1-3) p start_str_facts(3)] l obtain r1 h1 s1 where
    1: "ic_mc_rec_string al h s ic_program_str = Inr (0, (r1, h1), s1)" "ready (Suc (Suc (Suc (Suc (Suc k))))) h1" "plenty h1" "recv_ok s1"
      "pending s1 = on_wire ((ic_version_str @ SPACE_CHAR # vers) # key_lines grid cluster node @ ?al # ?nl # parameter_lines ps) @ rest" "holds r1 prog" "read_buf_size (fst s1) = ?B" by auto
  from rec_fitting_string [OF 1(2-5) start_str_facts(5)] l 1(7) obtain r2 h2 s2 where
    2: "ic_mc_rec_string al h1 s1 ic_version_str = Inr (0, (r2, h2), s2)" "ready (Suc (Suc (Suc (Suc k)))) h2" "plenty h2" "recv_ok s2"
      "pending s2 = on_wire (key_lines grid cluster node @ ?al # ?nl # parameter_lines ps) @ rest" "holds r2 vers" "read_buf_size (fst s2) = ?B" by auto
  have p2: "pending s2 = on_wire (key_lines grid cluster node) @ on_wire (?al # ?nl # parameter_lines ps) @ rest" using 2(5) by (simp add: on_wire_def)
  have f2: "\<forall>l \<in> set (key_lines grid cluster node). CARRIAGE_RETURN \<notin> set l \<and> length l < read_buf_size (fst s2) \<and> length l < 4294967288"
    using l 2(7) by (simp add: fits_def)
  from get_key_ok [OF 2(2-4) p2 f2] obtain x1 x2 x3 h3 s3 where
    3: "get_key al h2 s2 = Inr (0, ((x1, x2, x3), h3), s3)" "ready (Suc k) h3" "plenty h3" "recv_ok s3" "pending s3 = on_wire (?al # ?nl # parameter_lines ps) @ rest"
      "holds x1 grid" "holds x2 cluster" "holds x3 node" "send_side s3 = send_side s2" by blast
  have b3: "read_buf_size (fst s3) = ?B" using 3(9) 2(7) by (simp add: send_side_def)
  have p3: "pending s3 = ?al @ CARRIAGE_RETURN # on_wire (?nl # parameter_lines ps) @ rest" using 3(5) by (simp add: on_wire_def)
  from rec_boolean_ok [OF 3(4) p3 start_str_facts(7)] b3 assms(7) obtain s4 where
    4: "ic_rec_boolean s3 ic_auto_restart_str = Inr (0, Some auto, s4)" "recv_ok s4" "pending s4 = ?nl @ CARRIAGE_RETURN # on_wire (parameter_lines ps) @ rest"
      "send_side s4 = send_side s3" by (auto simp: start_str_facts on_wire_def)
  have b4: "read_buf_size (fst s4) = ?B" using 4(4) b3 by (simp add: send_side_def)
  from rec_number_ok [OF assms(4) 4(2,3) start_str_facts(8) _ _ assms(8)] b4 assms(7) obtain s5 where
    5: "ic_rec_number f s4 ic_num_parameters_str = Inr (0, Some (ucast num), s5)" "recv_ok s5" "pending s5 = on_wire (parameter_lines ps) @ rest"
      "send_side s5 = send_side s4" by (auto simp: start_str_facts)
  have b5: "read_buf_size (fst s5) = ?B" using 5(4) b4 by (simp add: send_side_def)
  from al_cases [OF 3(2) assms(9)] 3(3) obtain i d h4 where
    6: "al h3 (parameter_array_size (ucast num)) = Inr (Some (i, d), h4)" "ready k h4" "plenty h4" by metis
  have "start_body f al h s = c_bind (rec_parameters al h4 s5 (replicate (unat (parameter_array_size (ucast num)) div 16) None) 0 (unat (ucast num :: guint32))) (\<lambda>(rc, (arr, h), s).
       if rc \<noteq> 0 then Inr (rc, (None, h), s)
       else c_bind (ic_rec_empty_line s) (\<lambda>(rc, s). if rc \<noteq> 0 then Inr (rc, (None, h), s)
       else Inr (0, (Some \<lparr>m_program = r1, m_version = r2, m_key = (x1, x2, x3), m_autorestart = auto, m_parameters = arr\<rparr>, h), s)))"
    using 1(1) 2(1) 3(1) 4(1) 5(1) 6(1) by (simp add: start_body_def)
  then show ?thesis using 1(6) 2(6) 3(6-8) 6(2,3) 5(2,3) b5 by - (rule exI conjI | assumption)+
qed

end

section \<open>Instances\<close>

text \<open>Decimal digits up to the first other character: a function that meets \<open>strtoull_ok\<close>.\<close>

definition strtoull_dec :: "char list \<Rightarrow> guint64 \<times> nat" where
  "strtoull_dec xs = (let ds = takeWhile (\<lambda>c. 48 \<le> (of_char c :: nat) \<and> (of_char c :: nat) \<le> 57) xs in
     (of_nat (digits_value 10 (map dec_digit ds)), length ds))"

lemma strtoull_dec_ok: "strtoull_ok strtoull_dec"
proof -
  have "takeWhile (\<lambda>c. 48 \<le> (of_char c :: nat) \<and> (of_char c :: nat) \<le> 57) (dec_string n @ r) = dec_string n"
    if "r \<noteq> []" "\<not> (48 \<le> (of_char (hd r) :: nat) \<and> (of_char (hd r) :: nat) \<le> 57)" for n r
    using that dec_string_digits [of _ n] by (cases r) auto
  then show ?thesis by (simp add: strtoull_ok_def strtoull_dec_def dec_string_value)
qed

definition empty_mem :: mem where
  "empty_mem = \<lparr>mem.blocks = (\<lambda>_. None), next_id = 0\<rparr>"

lemma empty_mem_ok: "mem_ok empty_mem"
  by (simp add: mem_ok_def empty_mem_def)

text \<open>A new connection with some data waiting.\<close>

lemma new_conn:
  assumes "ic_create_socket_object [] r0 cl mx ct B = Inr (Some c, r', [])" and "B \<noteq> 0"
  shows "recv_ok (c, some_net [] [Data bs])" and "pending (c, some_net [] [Data bs]) = bs" and "read_buf_size c = B"
    and "bs \<noteq> [] \<Longrightarrow> safe (c, some_net [] [Data bs])"
proof -
  have st: "steady (rx_queue (some_net [] [Data bs]))" by (simp add: steady_def some_net_def)
  show r: "recv_ok (c, some_net [] [Data bs])" by (rule fresh_conn(1) [OF assms st])
  show "pending (c, some_net [] [Data bs]) = bs" using fresh_conn(3) [OF assms] by (simp add: some_net_def)
  show "read_buf_size c = B" by (rule fresh_conn(5) [OF assms])
  show "safe (c, some_net [] [Data bs])" if "bs \<noteq> []"
    using r fresh_conn(7) [OF assms] that by (simp add: safe_def answers_def some_net_def)
qed

lemma dec_line_facts: "length (dec_string (unat (v :: guint64))) \<le> 20" "CARRIAGE_RETURN \<notin> set (dec_string (unat v))"
  using dec_string_length(1) dec_string_digits [of CARRIAGE_RETURN "unat v"] by (auto simp: CARRIAGE_RETURN_def)

lemma ready_enough: "mc_ready fr 249999999 h \<Longrightarrow> mc_ready fr (Suc (Suc (Suc 1))) h"
proof -
  assume "mc_ready fr 249999999 h"
  moreover have "Suc (Suc (Suc 1)) + 249999995 = (249999999 :: nat)" by simp
  ultimately show ?thesis using mcs.ready_mono [of fr "Suc (Suc (Suc 1))" 249999995 h] by argo
qed

lemma rec_key_message_ok:
  assumes "mem_ok m" and "recv_ok s" and "pending s = on_wire (key_lines grid cluster node) @ CARRIAGE_RETURN # rest"
    and "\<forall>l \<in> set (key_lines grid cluster node). CARRIAGE_RETURN \<notin> set l \<and> length l < read_buf_size (fst s) \<and> length l < 4294967288"
  shows "\<exists>x1 x2 x3 mc m' as' s'. rec_key_message [] m s = Inr (0, (Some (x1, x2, x3), Some mc, m', as'), s') \<and>
    holds x1 grid \<and> holds x2 cluster \<and> holds x3 node \<and> pending s' = rest"
proof -
  have sz: "unat (56 :: guint32) \<le> 4294967288" by simp
  from new_object_cases [OF assms(1) sz, of "[]"] obtain mc m' as' where
    o: "new_object 56 [] m = Inr (0, Some mc, m', as')" "mc_ready (blocks m) 249999999 (mc, m', as')" "mc_plenty (mc, m', as')" by metis
  from mcs.get_key_ok [OF ready_enough [OF o(2)] o(3) assms(2-4)] obtain x1 x2 x3 h s1 where
    k: "get_key mc_gchar_alloc (mc, m', as') s = Inr (0, ((x1, x2, x3), h), s1)" "recv_ok s1" "pending s1 = CARRIAGE_RETURN # rest" "send_side s1 = send_side s"
      "holds x1 grid" "holds x2 cluster" "holds x3 node" by blast
  have "0 < read_buf_size (fst s1)" using k(4) assms(4) by (simp add: send_side_def key_lines_def)
  from rec_empty_ok [OF k(2,3) this] obtain s2 where e: "ic_rec_empty_line s1 = Inr (0, s2)" "pending s2 = rest" by blast
  obtain mc2 m2 as2 where h: "h = (mc2, m2, as2)" by (cases h)
  have "rec_key_message [] m s = Inr (0, (Some (x1, x2, x3), Some mc2, m2, as2), s2)"
    using o(1) k(1) e(1) h by (simp add: rec_key_message_def in_container_def init_pc_find_def key_body_def)
  then show ?thesis using k(5-7) e(2) by blast
qed

section \<open>Properties\<close>

lemma rec_start_go:
  assumes "mem_ok m" and "recv_ok s" and "strtoull_ok f" and "length ps < 249999992"
    and "pending s = on_wire (start_lines prog vers grid cluster node auto num ps) @ rest"
    and "\<forall>l \<in> set (start_lines prog vers grid cluster node auto num ps). fits (read_buf_size (fst s)) l"
    and "37 \<le> read_buf_size (fst s)" and "num < ucast IC_MAX_UINT32" and "unat (parameter_array_size (ucast num)) \<le> 4294967288"
  obtains mc m' h' s' r1 r2 x1 x2 x3 where "new_object 168 [] m = Inr (0, Some mc, m', [])"
    "start_body f mc_gchar_alloc (mc, m', []) s =
      c_bind (rec_parameters mc_gchar_alloc h' s' (replicate (unat (parameter_array_size (ucast num)) div 16) None) 0 (unat (ucast num :: guint32))) (\<lambda>(rc, (arr, h), s).
       if rc \<noteq> 0 then Inr (rc, (None, h), s)
       else c_bind (ic_rec_empty_line s) (\<lambda>(rc, s). if rc \<noteq> 0 then Inr (rc, (None, h), s)
       else Inr (0, (Some \<lparr>m_program = r1, m_version = r2, m_key = (x1, x2, x3), m_autorestart = auto, m_parameters = arr\<rparr>, h), s)))"
    "holds r1 prog" "holds r2 vers" "holds x1 grid" "holds x2 cluster" "holds x3 node" "mc_ready (blocks m) (length ps + 1) h'" "mc_plenty h'" "recv_ok s'"
    "pending s' = on_wire (parameter_lines ps) @ rest" "read_buf_size (fst s') = read_buf_size (fst s)"
proof -
  have sz: "unat (168 :: guint32) \<le> 4294967288" by simp
  from new_object_cases [OF assms(1) sz, of "[]"] obtain mc m' as' where
    o: "new_object 168 [] m = Inr (0, Some mc, m', as')" "mc_ready (blocks m) 249999999 (mc, m', as')" "mc_plenty (mc, m', as')" by metis
  have as: "as' = []" using o(3) by (simp add: mc_plenty_def)
  have "mc_ready (blocks m) (Suc (Suc (Suc (Suc (Suc (Suc (length ps + 1)))))) + (249999992 - length ps)) (mc, m', as')" using o(2) assms(4) by simp
  then have r: "mc_ready (blocks m) (Suc (Suc (Suc (Suc (Suc (Suc (length ps + 1))))))) (mc, m', as')" by (rule mcs.ready_mono)
  from mcs.start_body_parameters [OF r o(3) assms(2,3,5-9)] show thesis using that [OF o(1) [unfolded as]] unfolding as by blast
qed

text \<open>
  C15. A start message is received as it was sent: when the lines of a start message arrive, in any
  segmentation, and memory suffices, \<^verbatim>\<open>rec_start_message\<close> returns 0 with the program, the version, the key, the
  autorestart flag and all parameters in their order, each in a null-terminated string of its own, and
  leaves what follows the message to be read.
\<close>

theorem start_message_received:
  assumes "mem_ok m" and "recv_ok s" and "strtoull_ok f" and "length ps < 249999992"
    and "pending s = on_wire (start_lines prog vers grid cluster node auto (of_nat (length ps)) ps) @ CARRIAGE_RETURN # rest"
    and "\<forall>l \<in> set (start_lines prog vers grid cluster node auto (of_nat (length ps)) ps). fits (read_buf_size (fst s)) l"
    and "37 \<le> read_buf_size (fst s)"
  shows "\<exists>msg mc m' as' s'. rec_start_message f [] m s = Inr (0, (Some (Some msg), Some mc, m', as'), s') \<and>
    holds (m_program msg) prog \<and> holds (m_version msg) vers \<and> holds (fst (m_key msg)) grid \<and> holds (fst (snd (m_key msg))) cluster \<and>
    holds (snd (snd (m_key msg))) node \<and> m_autorestart msg = auto \<and> list_all2 holds (m_parameters msg) ps \<and> pending s' = rest \<and>
    mc_ready (blocks m) 1 (mc, m', as')"
proof -
  let ?num = "of_nat (length ps) :: guint64"
  have u: "unat ?num = length ps" using assms(4) by (subst unat_of_nat) simp
  have b1: "?num < ucast IC_MAX_UINT32" using u assms(4) by (simp add: word_less_nat_alt IC_MAX_UINT32_def)
  have u32: "unat (ucast ?num :: guint32) = length ps" using u assms(4) by (simp add: unsigned_ucast_eq take_bit_nat_eq_self)
  have us: "unat (parameter_array_size (ucast ?num)) = 16 * length ps"
    using u32 assms(4) by (simp add: parameter_array_size_def unat_word_ariths)
  have b2: "unat (parameter_array_size (ucast ?num)) \<le> 4294967288" using us assms(4) by simp
  have d: "16 * length ps div 16 = length ps" by simp
  from rec_start_go [OF assms(1-6,7) b1 b2, unfolded us u32 d] obtain mc m' h' s' r1 r2 x1 x2 x3 where
    g: "new_object 168 [] m = Inr (0, Some mc, m', [])"
    "start_body f mc_gchar_alloc (mc, m', []) s =
      c_bind (rec_parameters mc_gchar_alloc h' s' (replicate (length ps) None) 0 (length ps)) (\<lambda>(rc, (arr, h), s).
       if rc \<noteq> 0 then Inr (rc, (None, h), s)
       else c_bind (ic_rec_empty_line s) (\<lambda>(rc, s). if rc \<noteq> 0 then Inr (rc, (None, h), s)
       else Inr (0, (Some \<lparr>m_program = r1, m_version = r2, m_key = (x1, x2, x3), m_autorestart = auto, m_parameters = arr\<rparr>, h), s)))"
    "holds r1 prog" "holds r2 vers" "holds x1 grid" "holds x2 cluster" "holds x3 node" "mc_ready (blocks m) (length ps + 1) h'" "mc_plenty h'" "recv_ok s'"
    "pending s' = on_wire (parameter_lines ps) @ CARRIAGE_RETURN # rest" "read_buf_size (fst s') = read_buf_size (fst s)"
    by blast
  have fit: "\<forall>l \<in> set (parameter_lines ps). fits (read_buf_size (fst s')) l" using assms(6) g(12) by (simp add: start_lines_def)
  from mcs.rec_parameters_ok [OF g(8-11) fit, of 0 "replicate (length ps) None"] obtain xs h2 s2 where
    p: "rec_parameters mc_gchar_alloc h' s' (replicate (length ps) None) 0 (length ps) = Inr (0, (xs, h2), s2)" "list_all2 holds xs ps"
      "mc_ready (blocks m) 1 h2" "recv_ok s2" "pending s2 = CARRIAGE_RETURN # rest" "send_side s2 = send_side s'" by auto
  have "0 < read_buf_size (fst s2)" using p(6) g(12) assms(7) by (simp add: send_side_def)
  from rec_empty_ok [OF p(4,5) this] obtain s3 where e: "ic_rec_empty_line s2 = Inr (0, s3)" "pending s3 = rest" by blast
  obtain mc2 m2 as2 where h2: "h2 = (mc2, m2, as2)" by (cases h2)
  let ?msg = "\<lparr>m_program = r1, m_version = r2, m_key = (x1, x2, x3), m_autorestart = auto, m_parameters = xs\<rparr>"
  have "rec_start_message f [] m s = Inr (0, (Some (Some ?msg), Some mc2, m2, as2), s3)"
    using g(1,2) p(1) e(1) h2 by (simp add: rec_start_message_def in_container_def)
  then show ?thesis using g(3-7) p(2,3) e(2) h2
    by (intro exI [of _ ?msg] exI [of _ mc2] exI [of _ m2] exI [of _ as2] exI [of _ s3]) simp
qed

theorem start_message_received_witness:
  "\<exists>c r' msg mc m' as' s'. ic_create_socket_object [] \<lparr>resources.blocks = 0, mutexes = 0, timers = 0\<rparr> True False False 64 = Inr (Some c, r', []) \<and>
    rec_start_message strtoull_dec [] empty_mem
      (c, some_net [] [Data (on_wire (start_lines ''ic_fsd'' ''iclaustron-0.0.1'' ''g'' ''c'' ''n'' True 2 [''--node_id'', ''1'']) @ [CARRIAGE_RETURN])]) =
      Inr (0, (Some (Some msg), Some mc, m', as'), s') \<and>
    holds (m_program msg) ''ic_fsd'' \<and> list_all2 holds (m_parameters msg) [''--node_id'', ''1''] \<and> pending s' = []"
proof -
  obtain c r' where c: "ic_create_socket_object [] \<lparr>resources.blocks = 0, mutexes = 0, timers = 0\<rparr> True False False 64 = Inr (Some c, r', [])"
    by (rule conn_plenty)
  let ?ps = "[''--node_id'', ''1'']"
  let ?l = "start_lines ''ic_fsd'' ''iclaustron-0.0.1'' ''g'' ''c'' ''n'' True (of_nat (length ?ps)) ?ps"
  have n: "(of_nat (length ?ps) :: guint64) = 2" by simp
  have f: "\<forall>l \<in> set ?l. fits 64 l" unfolding n using dec_line_facts [of 2]
    by (simp add: start_lines_def key_lines_def parameter_lines_def fits_def CARRIAGE_RETURN_def SPACE_CHAR_def ic_program_str_def ic_version_str_def
      ic_grid_str_def ic_cluster_str_def ic_node_str_def ic_auto_restart_str_def ic_num_parameters_str_def ic_parameter_str_def ic_true_str_def)
  have B: "(64 :: nat) \<noteq> 0" by simp
  note nc = new_conn(1,2,4) [OF c B, of "on_wire ?l @ [CARRIAGE_RETURN]"] new_conn(3) [OF c B]
  have "\<exists>msg mc m' as' s'. rec_start_message strtoull_dec [] empty_mem (c, some_net [] [Data (on_wire ?l @ [CARRIAGE_RETURN])]) =
      Inr (0, (Some (Some msg), Some mc, m', as'), s') \<and> holds (m_program msg) ''ic_fsd'' \<and> list_all2 holds (m_parameters msg) ?ps \<and> pending s' = []"
    using start_message_received [OF empty_mem_ok nc(1) strtoull_dec_ok, of ?ps "''ic_fsd''" "''iclaustron-0.0.1''" "''g''" "''c''" "''n''" True "[]"] nc(2,4) f by auto
  then show ?thesis unfolding n using c by blast
qed

text \<open>
  C25. The number of parameters of a start message is not checked: the size of the array for them,
  16 bytes each, is computed in 32 bits. A peer that announces \<open>2^28 + j\<close> parameters and sends \<open>j + 1\<close> of them
  makes \<^verbatim>\<open>rec_start_message\<close> write behind the array.
\<close>

theorem start_message_overflow:
  assumes "mem_ok m" and "recv_ok s" and "strtoull_ok f" and "length ps = j + 1" and "j < 249999991"
    and "pending s = on_wire (start_lines prog vers grid cluster node auto (of_nat (268435456 + j)) ps) @ rest"
    and "\<forall>l \<in> set (start_lines prog vers grid cluster node auto (of_nat (268435456 + j)) ps). fits (read_buf_size (fst s)) l"
    and "37 \<le> read_buf_size (fst s)"
  shows "rec_start_message f [] m s = Inl OutOfBounds"
proof -
  let ?num = "of_nat (268435456 + j) :: guint64"
  have u: "unat ?num = 268435456 + j" using assms(5) by (subst unat_of_nat) simp
  have b1: "?num < ucast IC_MAX_UINT32" using u assms(5) by (simp add: word_less_nat_alt IC_MAX_UINT32_def)
  have u32: "unat (ucast ?num :: guint32) = 268435456 + j" using u assms(5) by (simp add: unsigned_ucast_eq take_bit_nat_eq_self)
  have us: "unat (parameter_array_size (ucast ?num)) = 16 * j"
    unfolding parameter_array_size_def unat_word_ariths(2) u32 using assms(5) by simp
  have b2: "unat (parameter_array_size (ucast ?num)) \<le> 4294967288" using us assms(5) by simp
  have lp: "length ps < 249999992" using assms(4,5) by simp
  have d: "16 * j div 16 = j" by simp
  from rec_start_go [OF assms(1-3) lp assms(6-8) b1 b2, unfolded us u32 d] obtain mc m' h' s' r1 r2 x1 x2 x3 where
    g: "new_object 168 [] m = Inr (0, Some mc, m', [])"
    "start_body f mc_gchar_alloc (mc, m', []) s =
      c_bind (rec_parameters mc_gchar_alloc h' s' (replicate j None) 0 (268435456 + j)) (\<lambda>(rc, (arr, h), s).
       if rc \<noteq> 0 then Inr (rc, (None, h), s)
       else c_bind (ic_rec_empty_line s) (\<lambda>(rc, s). if rc \<noteq> 0 then Inr (rc, (None, h), s)
       else Inr (0, (Some \<lparr>m_program = r1, m_version = r2, m_key = (x1, x2, x3), m_autorestart = auto, m_parameters = arr\<rparr>, h), s)))"
    "holds r1 prog" "holds r2 vers" "holds x1 grid" "holds x2 cluster" "holds x3 node" "mc_ready (blocks m) (length ps + 1) h'" "mc_plenty h'" "recv_ok s'"
    "pending s' = on_wire (parameter_lines ps) @ rest" "read_buf_size (fst s') = read_buf_size (fst s)"
    by blast
  have fit: "\<forall>l \<in> set (parameter_lines ps). fits (read_buf_size (fst s')) l" using assms(7) g(12) by (simp add: start_lines_def)
  have "rec_parameters mc_gchar_alloc h' s' (replicate j None) 0 (268435456 + j) = Inl OutOfBounds"
    by (rule mcs.rec_parameters_over [OF g(8-11) fit]) (use assms(4) in simp_all)
  then show ?thesis using g(1,2) by (simp add: rec_start_message_def in_container_def)
qed

theorem start_message_overflow_witness:
  "\<exists>c r'. ic_create_socket_object [] \<lparr>resources.blocks = 0, mutexes = 0, timers = 0\<rparr> True False False 64 = Inr (Some c, r', []) \<and>
    rec_start_message strtoull_dec [] empty_mem
      (c, some_net [] [Data (on_wire (start_lines ''p'' ''v'' ''g'' ''c'' ''n'' False 268435457 [''a'', ''b'']))]) = Inl OutOfBounds"
proof -
  obtain c r' where c: "ic_create_socket_object [] \<lparr>resources.blocks = 0, mutexes = 0, timers = 0\<rparr> True False False 64 = Inr (Some c, r', [])"
    by (rule conn_plenty)
  let ?ps = "[''a'', ''b'']"
  let ?l = "start_lines ''p'' ''v'' ''g'' ''c'' ''n'' False (of_nat (268435456 + 1)) ?ps"
  have n: "(of_nat (268435456 + 1) :: guint64) = 268435457" by simp
  have f: "\<forall>l \<in> set ?l. fits 64 l" using dec_line_facts [of "of_nat (268435456 + 1)"]
    by (simp add: start_lines_def key_lines_def parameter_lines_def fits_def CARRIAGE_RETURN_def SPACE_CHAR_def ic_program_str_def ic_version_str_def
      ic_grid_str_def ic_cluster_str_def ic_node_str_def ic_auto_restart_str_def ic_num_parameters_str_def ic_parameter_str_def ic_false_str_def)
  have B: "(64 :: nat) \<noteq> 0" by simp
  note nc = new_conn(1,2,4) [OF c B, of "on_wire ?l"] new_conn(3) [OF c B]
  have "rec_start_message strtoull_dec [] empty_mem (c, some_net [] [Data (on_wire ?l)]) = Inl OutOfBounds"
    using start_message_overflow [OF empty_mem_ok nc(1) strtoull_dec_ok, of ?ps 1 "''p''" "''v''" "''g''" "''c''" "''n''" False "[]"] nc(2,4) f by simp
  then show ?thesis unfolding n using c by blast
qed

text \<open>
  C10. Whatever a peer sends after a \<^verbatim>\<open>stop\<close>, \<^verbatim>\<open>kill\<close> or \<^verbatim>\<open>list\<close> line (any bytes in any segmentation, a closed
  connection, an error or silence) and whichever allocations fail, the functions that receive the key
  return without a fault. After an error the memory has the blocks it had before; after success the
  container is alive. The connection can be used for further messages.
\<close>

theorem key_messages_safe:
  assumes "mem_ok m" and "safe s" and "read_buf_size (fst s) = B" and "B < 4294967288"
  shows "(\<exists>r. rec_key_message as m s = Inr r \<and> container_result m B r) \<and> (\<exists>r. rec_opt_key_message as m s = Inr r \<and> container_result m B r)"
proof -
  have sz: "unat (56 :: guint32) \<le> 4294967288" by simp
  show ?thesis unfolding rec_key_message_def rec_opt_key_message_def init_pc_find_def
    by (intro conjI in_container_ok [OF assms(1) sz assms(2,3)] mcs.key_body_returns mcs.opt_key_body_returns ready_enough assms(2-4)) simp_all
qed

theorem key_messages_safe_witness:
  "\<exists>c r'. ic_create_socket_object [] \<lparr>resources.blocks = 0, mutexes = 0, timers = 0\<rparr> True False False 64 = Inr (Some c, r', []) \<and>
    (\<exists>r. rec_key_message [True, True, False] empty_mem (c, some_net [] [Data ''grid'']) = Inr r \<and> container_result empty_mem 64 r)"
proof -
  obtain c r' where c: "ic_create_socket_object [] \<lparr>resources.blocks = 0, mutexes = 0, timers = 0\<rparr> True False False 64 = Inr (Some c, r', [])"
    by (rule conn_plenty)
  have B: "(64 :: nat) \<noteq> 0" by simp
  note nc = new_conn(1,2,4) [OF c B, of "''grid''"] new_conn(3) [OF c B]
  show ?thesis using key_messages_safe [OF empty_mem_ok nc(3), of 64] nc(4) c by auto
qed

text \<open>
  C9. A stop command end to end: a cluster manager calls \<^verbatim>\<open>ic_send_stop_node\<close> on a new connection, a process
  controller receives. Whatever pieces the kernel accepts from the sender, whenever the return code is 0 the
  controller, in any segmentation of the sent bytes, reads a line that it recognises as a stop request, and
  \<^verbatim>\<open>rec_key_message\<close> then returns exactly the grid, cluster and node name that were sent, each in memory of its own, with
  nothing left to read.
\<close>

theorem stop_message_roundtrip:
  assumes "ic_create_socket_object as1 r1 cl1 m1 t1 sbs = Inr (Some cs, r1', as1')" and "tx_ok (tx_queue w)" and "sent_bytes w = []"
    and "ic_create_socket_object as2 r2 cl2 m2 t2 rbs = Inr (Some cr, r2', as2')" and "mem_ok m" and "length junk = COMMAND_READ_BUF_SIZE"
    and "\<forall>x \<in> {grid, cluster, node}. NULL_BYTE \<notin> set x \<and> CARRIAGE_RETURN \<notin> set x \<and> length x + 10 < sbs \<and> length x + 9 < rbs \<and> length x + 10 \<le> COMMAND_READ_BUF_SIZE"
  shows "\<exists>rc s'. ic_send_stop_node junk (cs, w) (c_lit grid) (c_lit cluster) (c_lit node) = Inr (rc, s') \<and> (tx_queue w = [] \<longrightarrow> rc = 0) \<and>
    (rc = 0 \<longrightarrow> (\<forall>w2. steady (rx_queue w2) \<and> stream (rx_queue w2) = sent_bytes (snd s') \<longrightarrow>
       (\<exists>n s1. ic_rec_with_cr (cr, w2) = Inr (Inr n, s1) \<and> request_of (line_buf s1) n = Inr Req_Stop \<and>
         (\<exists>x1 x2 x3 mc m' as' s2. rec_key_message [] m s1 = Inr (0, (Some (x1, x2, x3), Some mc, m', as'), s2) \<and>
            holds x1 grid \<and> holds x2 cluster \<and> holds x3 node \<and> pending s2 = []))))"
proof -
  let ?ls = "ic_stop_str # key_lines grid cluster node"
  have x: "NULL_BYTE \<notin> set x" "CARRIAGE_RETURN \<notin> set x" "length x + 10 < sbs" "length x + 9 < rbs" "length x + 10 \<le> COMMAND_READ_BUF_SIZE"
    if "x \<in> {grid, cluster, node}" for x using assms(7) that by blast+
  have s0: "sbs \<noteq> 0" "rbs \<noteq> 0" "1 < sbs" using x(3,4) [of grid] by auto
  have st: "NULL_BYTE \<notin> set ic_stop_str" "CARRIAGE_RETURN \<notin> set ic_stop_str" "length ic_stop_str = 4"
    by (simp_all add: ic_stop_str_def NULL_BYTE_def CARRIAGE_RETURN_def)
  have sp: "SPACE_CHAR \<noteq> NULL_BYTE" "SPACE_CHAR \<noteq> CARRIAGE_RETURN" by (simp_all add: SPACE_CHAR_def NULL_BYTE_def CARRIAGE_RETURN_def)
  have ls: "\<forall>l \<in> set ?ls. NULL_BYTE \<notin> set l \<and> CARRIAGE_RETURN \<notin> set l \<and> length l + 1 < sbs \<and> length l < rbs \<and> length l < 4294967288"
    using x [of grid] x [of cluster] x [of node] st sp by (auto simp: key_lines_def key_str_facts COMMAND_READ_BUF_SIZE_def)
  note fs = fresh_conn [OF assms(1) s0(1)] and fr = fresh_conn [OF assms(4) s0(2)]
  have eq: "ic_send_stop_node junk (cs, w) (c_lit grid) (c_lit cluster) (c_lit node) = send_message (cs, w) ?ls"
    by (rule stop_node_lines) (use x [of grid] x [of cluster] x [of node] assms(6) in auto)
  have h: "send_ok (cs, w)" "handed (cs, w) = []" using fs(2,4) assms(2,3) by auto
  from send_message_ok [OF h(1), of ?ls] h(2) ls s0(3) fs(6) obtain rc s' where
    m: "send_message (cs, w) ?ls = Inr (rc, s')" "rc = 0 \<longrightarrow> sent_bytes (snd s') = on_wire (?ls @ [[]])" "tx_queue w = [] \<longrightarrow> rc = 0" by auto
  have "\<exists>n s1. ic_rec_with_cr (cr, w2) = Inr (Inr n, s1) \<and> request_of (line_buf s1) n = Inr Req_Stop \<and>
         (\<exists>x1 x2 x3 mc m' as' s2. rec_key_message [] m s1 = Inr (0, (Some (x1, x2, x3), Some mc, m', as'), s2) \<and>
            holds x1 grid \<and> holds x2 cluster \<and> holds x3 node \<and> pending s2 = [])"
    if rc: "rc = 0" and w2: "steady (rx_queue w2)" "stream (rx_queue w2) = sent_bytes (snd s')" for w2
  proof -
    have p: "pending (cr, w2) = ic_stop_str @ CARRIAGE_RETURN # on_wire (key_lines grid cluster node) @ CARRIAGE_RETURN # []"
      using fr(3) w2(2) m(2) rc by (simp add: on_wire_def)
    have "length ic_stop_str < read_buf_size (fst (cr, w2))" using fr(5) ls by simp
    from rec_with_cr_line [OF fr(1) [OF w2(1)] p st(2) this] obtain s1 where
      1: "ic_rec_with_cr (cr, w2) = Inr (Inr (length ic_stop_str), s1)" "recv_ok s1" "pending s1 = on_wire (key_lines grid cluster node) @ CARRIAGE_RETURN # []"
        "take (length ic_stop_str + 1) (line_buf s1) = ic_stop_str @ [CARRIAGE_RETURN]" "send_side s1 = send_side (cr, w2)" by blast
    obtain y where "line_buf s1 = ic_stop_str @ CARRIAGE_RETURN # y" using line_text [OF 1(4)] by blast
    then have rq: "request_of (line_buf s1) (length ic_stop_str) = Inr Req_Stop" by (simp add: request_of_def ic_start_str_def ic_stop_str_def)
    have b: "read_buf_size (fst s1) = rbs" using 1(5) fr(5) by (simp add: send_side_def)
    from rec_key_message_ok [OF assms(5) 1(2,3)] ls b obtain x1 x2 x3 mc m' as' s2 where
      "rec_key_message [] m s1 = Inr (0, (Some (x1, x2, x3), Some mc, m', as'), s2)" "holds x1 grid" "holds x2 cluster" "holds x3 node" "pending s2 = []" by auto
    then show ?thesis using 1(1) rq by metis
  qed
  then show ?thesis unfolding eq using m by metis
qed

theorem stop_message_roundtrip_witness:
  "\<exists>cs cr r1 r2 s' n s1 x1 x2 x3 mc m' as' s2. ic_create_socket_object [] \<lparr>resources.blocks = 0, mutexes = 0, timers = 0\<rparr> True False False 64 = Inr (Some cs, r1, []) \<and>
     ic_create_socket_object [] \<lparr>resources.blocks = 0, mutexes = 0, timers = 0\<rparr> False False False 64 = Inr (Some cr, r2, []) \<and>
     ic_send_stop_node (replicate COMMAND_READ_BUF_SIZE NULL_BYTE) (cs, some_net [] []) (c_lit ''my_grid'') (c_lit ''*'') (c_lit ''cs1'') = Inr (0, s') \<and>
     ic_rec_with_cr (cr, some_net [] [Data (sent_bytes (snd s'))]) = Inr (Inr n, s1) \<and> request_of (line_buf s1) n = Inr Req_Stop \<and>
     rec_key_message [] empty_mem s1 = Inr (0, (Some (x1, x2, x3), Some mc, m', as'), s2) \<and> holds x1 ''my_grid'' \<and> holds x2 ''*'' \<and> holds x3 ''cs1''"
proof -
  let ?r = "\<lparr>resources.blocks = 0, mutexes = 0, timers = 0\<rparr>"
  obtain cs r1 where cs: "ic_create_socket_object [] ?r True False False 64 = Inr (Some cs, r1, [])" by (rule conn_plenty)
  obtain cr r2 where cr: "ic_create_socket_object [] ?r False False False 64 = Inr (Some cr, r2, [])" by (rule conn_plenty)
  have w: "tx_ok (tx_queue (some_net [] []))" "sent_bytes (some_net [] []) = []" "tx_queue (some_net [] []) = []" by (simp_all add: some_net_def tx_ok_def)
  have x: "\<forall>x \<in> {''my_grid'', ''*'', ''cs1''}. NULL_BYTE \<notin> set x \<and> CARRIAGE_RETURN \<notin> set x \<and> length x + 10 < 64 \<and> length x + 9 < 64 \<and> length x + 10 \<le> COMMAND_READ_BUF_SIZE"
    by (simp add: NULL_BYTE_def CARRIAGE_RETURN_def COMMAND_READ_BUF_SIZE_def)
  obtain s' where s': "ic_send_stop_node (replicate COMMAND_READ_BUF_SIZE NULL_BYTE) (cs, some_net [] []) (c_lit ''my_grid'') (c_lit ''*'') (c_lit ''cs1'') = Inr (0, s')"
    "\<forall>w2. steady (rx_queue w2) \<and> stream (rx_queue w2) = sent_bytes (snd s') \<longrightarrow>
       (\<exists>n s1. ic_rec_with_cr (cr, w2) = Inr (Inr n, s1) \<and> request_of (line_buf s1) n = Inr Req_Stop \<and>
         (\<exists>x1 x2 x3 mc m' as' s2. rec_key_message [] empty_mem s1 = Inr (0, (Some (x1, x2, x3), Some mc, m', as'), s2) \<and>
            holds x1 ''my_grid'' \<and> holds x2 ''*'' \<and> holds x3 ''cs1'' \<and> pending s2 = []))"
    using stop_message_roundtrip [OF cs w(1,2) cr empty_mem_ok length_replicate x] w(3) by blast
  let ?w = "some_net [] [Data (sent_bytes (snd s'))]"
  have "steady (rx_queue ?w) \<and> stream (rx_queue ?w) = sent_bytes (snd s')" by (simp add: some_net_def steady_def)
  then obtain n s1 x1 x2 x3 mc m' as' s2 where "ic_rec_with_cr (cr, ?w) = Inr (Inr n, s1)" "request_of (line_buf s1) n = Inr Req_Stop"
    "rec_key_message [] empty_mem s1 = Inr (0, (Some (x1, x2, x3), Some mc, m', as'), s2)" "holds x1 ''my_grid''" "holds x2 ''*''" "holds x3 ''cs1''"
    using s'(2) by blast
  then show ?thesis using cs cr s'(1) by blast
qed

end
