(* ===== verification/IC_Sock_Buf.thy ===== *)
theory IC_Sock_Buf
  imports Prelude "HOL-Library.Multiset"
begin

text \<open>
  \<^verbatim>\<open>src/comm/ic_sock_buf.c\<close>: the pool of socket buffer pages. The pages of a segment are laid out one after the
  other at its beginning, followed by their buffers; a page is referred to by its segment and its index.
  The free pages are linked through the pages themselves, so that the memory is an explicit store of pages.
  With the page size 0 a page has no buffer of its own: small buffers lie inside the page, larger ones
  take a second page as their buffer, whose content is then up to the user.

  The mutex protects \<^verbatim>\<open>first_page\<close> only; everything else the functions touch belongs to their caller, and so each
  function is one step here. \<open>num_pages\<close> is a ghost field: the number of pages set up so far, which bounds the
  walk of \<^verbatim>\<open>return_sock_buf_page\<close> along its list.

  Results: through any sequence of gets, returns of single pages and increases, no page is in two places and
  none is lost; returning a list of two or more pages, or a page with a second page as its buffer, loses
  every page of the pool but one; waiting for a page ends. \<open>size_ok\<close> says that the size of a segment does not wrap
  around in 64 bits; without it the pages of a segment may lie outside it (\<open>OutOfBounds\<close>).
\<close>

section \<open>Data\<close>

definition IC_STD_CACHE_LINE_SIZE :: guint32 where "IC_STD_CACHE_LINE_SIZE = 128"
definition MAX_ALLOC_SEGMENTS :: nat where "MAX_ALLOC_SEGMENTS = 8"

type_synonym page_ref = "nat \<times> nat"

datatype buf_ref = Own_Area | Page_As_Buf page_ref | Data_Area nat guint64

record ic_sock_buf_page =
  next_sock_buf_page :: "page_ref option"
  sock_buf :: "buf_ref option"
  page_bytes :: guint32   \<comment> \<open>the field \<^verbatim>\<open>size\<close>\<close>
  ref_count :: int

record ic_sock_buf =
  first_page :: "page_ref option"
  page_size :: guint32
  alloc_segments :: nat
  alloc_segments_ref :: "nat option list"

record sb_mem =
  pages :: "page_ref \<Rightarrow> ic_sock_buf_page option"
  seg_bytes :: "nat \<Rightarrow> guint64 option"   \<comment> \<open>the live segments and their sizes\<close>
  next_seg :: nat
  pool_objects :: nat                     \<comment> \<open>live objects \<^verbatim>\<open>IC_SOCK_BUF\<close>\<close>
  pool_mutexes :: nat
  num_pages :: nat

definition get_page :: "sb_mem \<Rightarrow> page_ref \<Rightarrow> fault + ic_sock_buf_page" where
  "get_page m p = (case pages m p of None \<Rightarrow> Inl UseAfterFree | Some x \<Rightarrow> Inr x)"

definition upd_page :: "sb_mem \<Rightarrow> page_ref \<Rightarrow> (ic_sock_buf_page \<Rightarrow> ic_sock_buf_page) \<Rightarrow> fault + sb_mem" where
  "upd_page m p f = c_bind (get_page m p) (\<lambda>x. Inr (m\<lparr>pages := (pages m)(p \<mapsto> f x)\<rparr>))"

section \<open>Taking pages\<close>

fun skip_pages :: "sb_mem \<Rightarrow> nat \<Rightarrow> page_ref option \<Rightarrow> fault + page_ref option" where
  "skip_pages m 0 p = Inr p"
| "skip_pages m (Suc n) None = Inr None"
| "skip_pages m (Suc n) (Some p) = c_bind (get_page m p) (\<lambda>x. skip_pages m n (next_sock_buf_page x))"

fun init_pages :: "sb_mem \<Rightarrow> nat \<Rightarrow> page_ref option \<Rightarrow> page_ref option \<Rightarrow> fault + (page_ref option \<times> sb_mem)" where
  "init_pages m 0 p last_page = Inr (last_page, m)"
| "init_pages m (Suc n) None last_page = Inr (last_page, m)"
| "init_pages m (Suc n) (Some p) last_page =
     c_bind (upd_page m p (\<lambda>x. x\<lparr>page_bytes := 0, ref_count := 0\<rparr>)) (\<lambda>m.
     c_bind (get_page m p) (\<lambda>x. init_pages m n (next_sock_buf_page x) (Some p)))"

text \<open>
  \<open>free_rec_pages\<close> is \<open>None\<close> for a null pointer, otherwise the head of the caller's own list. The results are the
  page, the memory, the pool and the caller's list.
\<close>

definition low_get_sock_buf_page ::
  "sb_mem \<Rightarrow> ic_sock_buf \<Rightarrow> page_ref option option \<Rightarrow> guint32 \<Rightarrow> fault + (page_ref option \<times> sb_mem \<times> ic_sock_buf \<times> page_ref option option)"
where
  "low_get_sock_buf_page m b free_rec_pages num =
     (case free_rec_pages of
        Some (Some p) \<Rightarrow>
          c_bind (get_page m p) (\<lambda>x.
          c_bind (upd_page m p (\<lambda>x. x\<lparr>next_sock_buf_page := None\<rparr>)) (\<lambda>m.
            Inr (Some p, m, b, Some (next_sock_buf_page x))))
      | _ \<Rightarrow>
          let num = (if free_rec_pages = None then 1 else num); first = first_page b in
          c_bind (skip_pages m (unat num) first) (\<lambda>next_page.
          let b = b\<lparr>first_page := next_page\<rparr> in
          c_assert (0 < num)
           (c_bind (init_pages m (unat num) first None) (\<lambda>(last_page, m).
            case (first, last_page) of
              (Some f, Some l) \<Rightarrow>
                c_bind (if free_rec_pages \<noteq> None \<and> l \<noteq> f
                        then c_bind (get_page m f) (\<lambda>x.
                             c_bind (upd_page m l (\<lambda>x. x\<lparr>next_sock_buf_page := None\<rparr>)) (\<lambda>m. Inr (m, Some (next_sock_buf_page x))))
                        else Inr (m, free_rec_pages)) (\<lambda>(m, fr).
                c_bind (upd_page m f (\<lambda>x. x\<lparr>next_sock_buf_page := None\<rparr>)) (\<lambda>m. Inr (Some f, m, b, fr)))
            | _ \<Rightarrow> Inr (None, m, b, free_rec_pages)))))"

section \<open>Returning pages\<close>

text \<open>The loop: \<open>prev\<close> is the page visited before. The result is the last page visited.\<close>

fun return_loop :: "nat \<Rightarrow> sb_mem \<Rightarrow> guint32 \<Rightarrow> page_ref \<Rightarrow> page_ref option \<Rightarrow> fault + (page_ref \<times> sb_mem)" where
  "return_loop 0 m psz p prev = Inl Diverges"
| "return_loop (Suc fuel) m psz p prev =
     c_bind (get_page m p) (\<lambda>x. let next_page = next_sock_buf_page x; this_page_size = page_bytes x in
     c_bind (upd_page m p (\<lambda>x. x\<lparr>next_sock_buf_page := prev, ref_count := 0\<rparr>)) (\<lambda>m.
     c_bind (if psz = 0
             then if this_page_size \<noteq> 0
                  then c_require (this_page_size = IC_STD_CACHE_LINE_SIZE)
                        (case sock_buf x of
                           None \<Rightarrow> Inl NullDeref
                         | Some (Page_As_Buf q) \<Rightarrow>
                             c_bind (upd_page m q (\<lambda>y. y\<lparr>next_sock_buf_page := next_page, page_bytes := 0, ref_count := 0, sock_buf := None\<rparr>)) (\<lambda>m. Inr (Some q, m))
                         | Some _ \<Rightarrow> Inl OutOfBounds)
                  else c_bind (upd_page m p (\<lambda>x. x\<lparr>sock_buf := None\<rparr>)) (\<lambda>m. Inr (next_page, m))
             else Inr (next_page, m)) (\<lambda>(next_page, m).
       case next_page of None \<Rightarrow> Inr (p, m) | Some q \<Rightarrow> return_loop fuel m psz q (Some p))))"

definition return_sock_buf_page :: "sb_mem \<Rightarrow> ic_sock_buf \<Rightarrow> page_ref option \<Rightarrow> fault + (sb_mem \<times> ic_sock_buf)" where
  "return_sock_buf_page m b in_page =
     (case in_page of None \<Rightarrow> Inl RequireFail
      | Some p \<Rightarrow>
          c_bind (return_loop (Suc (2 * num_pages m)) m (page_size b) p None) (\<lambda>(prev_page, m).
          c_bind (upd_page m prev_page (\<lambda>x. x\<lparr>next_sock_buf_page := first_page b\<rparr>)) (\<lambda>m. Inr (m, b\<lparr>first_page := Some p\<rparr>))))"

text \<open>The buffer inside a page begins 64 bytes behind the beginning of the page.\<close>

definition get_sock_buf_page ::
  "sb_mem \<Rightarrow> ic_sock_buf \<Rightarrow> guint32 \<Rightarrow> page_ref option option \<Rightarrow> guint32 \<Rightarrow> fault + (page_ref option \<times> sb_mem \<times> ic_sock_buf \<times> page_ref option option)"
where
  "get_sock_buf_page m b buf_size fr num =
     c_bind (low_get_sock_buf_page m b fr num) (\<lambda>(r, m, b, fr). case r of
         None \<Rightarrow> Inr (None, m, b, fr)
       | Some p \<Rightarrow>
           if buf_size = 0 then Inr (Some p, m, b, fr)
           else c_require (page_size b = 0)
            (if IC_STD_CACHE_LINE_SIZE < buf_size then Inr (Some p, m, b, fr)
             else if buf_size \<le> IC_STD_CACHE_LINE_SIZE - 64
             then c_bind (upd_page m p (\<lambda>x. x\<lparr>sock_buf := Some Own_Area\<rparr>)) (\<lambda>m. Inr (Some p, m, b, fr))
             else c_bind (low_get_sock_buf_page m b fr num) (\<lambda>(r, m, b, fr). case r of
                 None \<Rightarrow> c_bind (return_sock_buf_page m b (Some p)) (\<lambda>(m, b). Inr (None, m, b, fr))
               | Some q \<Rightarrow>
                   c_bind (upd_page m p (\<lambda>x. x\<lparr>page_bytes := IC_STD_CACHE_LINE_SIZE, sock_buf := Some (Page_As_Buf q)\<rparr>)) (\<lambda>m.
                     Inr (Some p, m, b, fr)))))"

text \<open>
  The environment of the waiting loop: after each failed try, what the other threads do to the memory and the pool,
  and the milliseconds that have passed since the first try.
\<close>

type_synonym wait_env = "((sb_mem \<times> ic_sock_buf \<Rightarrow> sb_mem \<times> ic_sock_buf) \<times> guint32) list"

fun get_sock_buf_page_wait ::
  "wait_env \<Rightarrow> bool \<Rightarrow> sb_mem \<Rightarrow> ic_sock_buf \<Rightarrow> guint32 \<Rightarrow> page_ref option option \<Rightarrow> guint32 \<Rightarrow> guint32 \<Rightarrow>
   fault + (page_ref option \<times> sb_mem \<times> ic_sock_buf \<times> page_ref option option)"
where
  "get_sock_buf_page_wait env first m b buf_size fr num ms =
     c_bind (get_sock_buf_page m b buf_size fr num) (\<lambda>(r, m, b, fr).
       if r \<noteq> None then Inr (r, m, b, fr)
       else case env of [] \<Rightarrow> Inl Diverges
         | (f, elapsed) # env' \<Rightarrow>
             if \<not> first \<and> ms < elapsed then Inr (None, m, b, fr)
             else case f (m, b) of (m, b) \<Rightarrow> get_sock_buf_page_wait env' False m b buf_size fr num ms)"

section \<open>Segments\<close>

definition seg_alloc :: "allocs \<Rightarrow> sb_mem \<Rightarrow> guint64 \<Rightarrow> nat option \<times> sb_mem \<times> allocs" where
  "seg_alloc as m n = (case alloc_next as of (ok, as) \<Rightarrow>
     if ok then (Some (next_seg m), m\<lparr>seg_bytes := (seg_bytes m)(next_seg m \<mapsto> n), next_seg := next_seg m + 1\<rparr>, as) else (None, m, as))"

definition seg_free :: "sb_mem \<Rightarrow> nat \<Rightarrow> fault + sb_mem" where
  "seg_free m s = (if seg_bytes m s = None then Inl InvalidFree
     else Inr (m\<lparr>pages := (\<lambda>p. if fst p = s then None else pages m p), seg_bytes := (seg_bytes m)(s := None)\<rparr>))"

text \<open>The loop from page \<open>i\<close>: \<open>k\<close> pages are left. A page must lie inside the segment.\<close>

fun set_up_loop :: "sb_mem \<Rightarrow> nat \<Rightarrow> guint32 \<Rightarrow> guint64 \<Rightarrow> nat \<Rightarrow> nat \<Rightarrow> fault + sb_mem" where
  "set_up_loop m s psz n i 0 = Inr m"
| "set_up_loop m s psz n i (Suc k) =
     (case seg_bytes m s of None \<Rightarrow> Inl UseAfterFree
      | Some sz \<Rightarrow>
          if unat sz < (i + 1) * 128 then Inl OutOfBounds
          else set_up_loop (m\<lparr>pages := (pages m)((s, i) \<mapsto>
                 \<lparr>next_sock_buf_page = Some (s, i + 1),
                  sock_buf = (if psz = 0 then None else Some (Data_Area s (n * 128 + of_nat i * ucast psz))),
                  page_bytes = psz, ref_count = 0\<rparr>), num_pages := num_pages m + 1\<rparr>) s psz n (i + 1) k)"

text \<open>The result is the last page.\<close>

definition set_up_pages_in_linked_list :: "sb_mem \<Rightarrow> nat \<Rightarrow> guint32 \<Rightarrow> guint64 \<Rightarrow> fault + (page_ref \<times> sb_mem)" where
  "set_up_pages_in_linked_list m s psz n =
     c_assert (n \<noteq> 0) (c_bind (set_up_loop m s psz n 0 (unat n)) (\<lambda>m. Inr ((s, unat n - 1), m)))"

text \<open>The sum \<^verbatim>\<open>page_size + sock_buf_page_size\<close> is computed in 32 bits, the product in 64 bits.\<close>

definition inc_sock_buf :: "allocs \<Rightarrow> sb_mem \<Rightarrow> ic_sock_buf \<Rightarrow> guint64 \<Rightarrow> fault + (err \<times> sb_mem \<times> ic_sock_buf \<times> allocs)" where
  "inc_sock_buf as m b n =
     (case seg_alloc as m (n * ucast (page_size b + IC_STD_CACHE_LINE_SIZE)) of (r, m, as) \<Rightarrow> case r of
        None \<Rightarrow> Inr (IC_ERROR_MEM_ALLOC, m, b, as)
      | Some s \<Rightarrow>
          c_bind (set_up_pages_in_linked_list m s (page_size b) n) (\<lambda>(l, m).
          if alloc_segments b < MAX_ALLOC_SEGMENTS
          then c_bind (upd_page m l (\<lambda>x. x\<lparr>next_sock_buf_page := first_page b\<rparr>)) (\<lambda>m.
               c_bind (wr (alloc_segments_ref b) (alloc_segments b) (Some s)) (\<lambda>refs.
                 Inr (0, m, b\<lparr>first_page := Some (s, 0), alloc_segments_ref := refs, alloc_segments := alloc_segments b + 1\<rparr>, as)))
          else c_bind (seg_free m s) (\<lambda>m. Inr (IC_ERROR_MEM_ALLOC, m, b, as))))"

fun free_segments :: "sb_mem \<Rightarrow> nat option list \<Rightarrow> fault + sb_mem" where
  "free_segments m [] = Inr m"
| "free_segments m (None # rs) = Inl UninitRead"
| "free_segments m (Some s # rs) = c_bind (seg_free m s) (\<lambda>m. free_segments m rs)"

definition free_sock_buf :: "sb_mem \<Rightarrow> ic_sock_buf \<Rightarrow> fault + sb_mem" where
  "free_sock_buf m b =
     c_bind (rd_blk (alloc_segments_ref b) 0 (alloc_segments b)) (\<lambda>refs.
     c_bind (free_segments (m\<lparr>pool_mutexes := pool_mutexes m - 1\<rparr>) refs) (\<lambda>m. Inr (m\<lparr>pool_objects := pool_objects m - 1\<rparr>)))"

text \<open>\<open>None\<close> in the list of segments is an element not yet written.\<close>

definition ic_create_sock_buf :: "allocs \<Rightarrow> sb_mem \<Rightarrow> guint32 \<Rightarrow> guint64 \<Rightarrow> fault + (ic_sock_buf option \<times> sb_mem \<times> allocs)" where
  "ic_create_sock_buf as m psz n =
     (if n = 0 then Inr (None, m, as)
      else case alloc_next as of (ok, as) \<Rightarrow>
        if \<not> ok then Inr (None, m, as)
        else let m = m\<lparr>pool_objects := pool_objects m + 1\<rparr> in case alloc_next as of (ok, as) \<Rightarrow>
          if \<not> ok then Inr (None, m\<lparr>pool_objects := pool_objects m - 1\<rparr>, as)
          else let m = m\<lparr>pool_mutexes := pool_mutexes m + 1\<rparr> in
            case seg_alloc as m (ucast psz * n + n * ucast IC_STD_CACHE_LINE_SIZE) of (r, m, as) \<Rightarrow> case r of
              None \<Rightarrow> Inr (None, m\<lparr>pool_mutexes := pool_mutexes m - 1, pool_objects := pool_objects m - 1\<rparr>, as)
            | Some s \<Rightarrow>
                c_bind (set_up_pages_in_linked_list m s psz n) (\<lambda>(l, m).
                c_bind (upd_page m l (\<lambda>x. x\<lparr>next_sock_buf_page := None\<rparr>)) (\<lambda>m.
                  Inr (Some \<lparr>first_page = Some (s, 0), page_size = psz, alloc_segments = 1,
                         alloc_segments_ref = (replicate MAX_ALLOC_SEGMENTS None)[0 := Some s]\<rparr>, m, as))))"


section \<open>Lists of pages\<close>

fun chain :: "sb_mem \<Rightarrow> page_ref option \<Rightarrow> page_ref list \<Rightarrow> bool" where
  "chain m p [] = (p = None)"
| "chain m p (x # xs) = (p = Some x \<and> (\<exists>pg. pages m x = Some pg \<and> chain m (next_sock_buf_page pg) xs))"

text \<open>What an operation does to the pages, the rest of the memory being the same.\<close>

definition same_rest :: "sb_mem \<Rightarrow> sb_mem \<Rightarrow> bool" where
  "same_rest m m' \<longleftrightarrow> m'\<lparr>pages := pages m\<rparr> = m \<and> dom (pages m') = dom (pages m)"

lemma same_rest_refl [simp]: "same_rest m m"
  by (simp add: same_rest_def)

lemma same_rest_trans: "same_rest a b \<Longrightarrow> same_rest b c \<Longrightarrow> same_rest a c"
  by (auto simp: same_rest_def) (metis sb_mem.surjective sb_mem.update_convs(1))

lemma same_rest_fields:
  assumes "same_rest m m'"
  shows "num_pages m' = num_pages m" "seg_bytes m' = seg_bytes m" "next_seg m' = next_seg m" "pool_objects m' = pool_objects m"
    "pool_mutexes m' = pool_mutexes m" "dom (pages m') = dom (pages m)"
proof -
  have e: "m'\<lparr>pages := pages m\<rparr> = m" using assms by (simp add: same_rest_def)
  show "num_pages m' = num_pages m" "seg_bytes m' = seg_bytes m" "next_seg m' = next_seg m" "pool_objects m' = pool_objects m"
    "pool_mutexes m' = pool_mutexes m"
    using arg_cong [OF e, of num_pages] arg_cong [OF e, of seg_bytes] arg_cong [OF e, of next_seg] arg_cong [OF e, of pool_objects]
      arg_cong [OF e, of pool_mutexes] by simp_all
  show "dom (pages m') = dom (pages m)" using assms by (simp add: same_rest_def)
qed

lemma chain_cong: "(\<And>x. x \<in> set xs \<Longrightarrow> pages m' x = pages m x) \<Longrightarrow> chain m' p xs = chain m p xs"
  by (induction xs arbitrary: p) auto

lemma chain_upd [simp]: "p \<notin> set xs \<Longrightarrow> chain (m\<lparr>pages := P(p := v)\<rparr>) q xs = chain (m\<lparr>pages := P\<rparr>) q xs"
  by (induction xs arbitrary: q) auto

lemma chain_live: "chain m p xs \<Longrightarrow> x \<in> set xs \<Longrightarrow> pages m x \<noteq> None"
  by (induction xs arbitrary: p) auto

lemma upd_page_ok: "pages m p = Some x \<Longrightarrow> upd_page m p f = Inr (m\<lparr>pages := (pages m)(p \<mapsto> f x)\<rparr>)"
  by (simp add: upd_page_def get_page_def)

lemma upd_page_rest: "pages m p = Some x \<Longrightarrow> same_rest m (m\<lparr>pages := (pages m)(p \<mapsto> y)\<rparr>)"
  by (auto simp: same_rest_def)

lemma skip_chain: "chain m p xs \<Longrightarrow> \<exists>q. skip_pages m n p = Inr q \<and> chain m q (drop n xs)"
proof (induction m n p arbitrary: xs rule: skip_pages.induct)
  case (3 m n p)
  then obtain ys pg where "xs = p # ys" "pages m p = Some pg" "chain m (next_sock_buf_page pg) ys" by (cases xs) auto
  with "3.IH" [of pg ys] show ?case by (simp add: get_page_def)
next
  case (2 m n)
  then show ?case by (cases xs) auto
qed simp

lemma init_chain:
  "chain m p xs \<Longrightarrow> distinct xs \<Longrightarrow> \<exists>m'. init_pages m n p l = Inr (if n = 0 \<or> xs = [] then l else Some (last (take n xs)), m') \<and> same_rest m m' \<and>
     (\<forall>q. pages m' q = (if q \<in> set (take n xs) then map_option (\<lambda>x. x\<lparr>page_bytes := 0, ref_count := 0\<rparr>) (pages m q) else pages m q))"
proof (induction m n p l arbitrary: xs rule: init_pages.induct)
  case (3 m n p l)
  then obtain ys pg where xs: "xs = p # ys" and pg: "pages m p = Some pg" and ch: "chain m (next_sock_buf_page pg) ys" by (cases xs) auto
  let ?m = "m\<lparr>pages := (pages m)(p \<mapsto> pg\<lparr>page_bytes := 0, ref_count := 0\<rparr>)\<rparr>"
  have u: "upd_page m p (\<lambda>x. x\<lparr>page_bytes := 0, ref_count := 0\<rparr>) = Inr ?m" using upd_page_ok [OF pg] .
  have g: "get_page ?m p = Inr (pg\<lparr>page_bytes := 0, ref_count := 0\<rparr>)" by (simp add: get_page_def)
  have p: "p \<notin> set ys" "distinct ys" using "3.prems"(2) xs by simp_all
  have ch': "chain ?m (next_sock_buf_page (pg\<lparr>page_bytes := 0, ref_count := 0\<rparr>)) ys" using ch p(1) by simp
  from "3.IH" [OF u g ch' p(2)] obtain m' where
    m': "init_pages ?m n (next_sock_buf_page (pg\<lparr>page_bytes := 0, ref_count := 0\<rparr>)) (Some p) =
        Inr (if n = 0 \<or> ys = [] then Some p else Some (last (take n ys)), m')" "same_rest ?m m'"
      "\<forall>q. pages m' q = (if q \<in> set (take n ys) then map_option (\<lambda>x. x\<lparr>page_bytes := 0, ref_count := 0\<rparr>) (pages ?m q) else pages ?m q)" by blast
  have "p \<notin> set (take n ys)" using p(1) set_take_subset by (metis subsetD)
  then have "\<forall>q. pages m' q = (if q \<in> set (take (Suc n) xs) then map_option (\<lambda>x. x\<lparr>page_bytes := 0, ref_count := 0\<rparr>) (pages m q) else pages m q)"
    using m'(3) pg xs by auto
  moreover have "same_rest m m'" using same_rest_trans [OF upd_page_rest [OF pg] m'(2)] .
  moreover have "last (take (Suc n) xs) = (if n = 0 \<or> ys = [] then p else last (take n ys))" using xs by (cases n; cases ys) auto
  ultimately show ?case using u g m'(1) xs by auto
next
  case (2 m n l)
  then show ?case by (cases xs) auto
qed simp

lemma chain_next_cong:
  "(\<And>x. x \<in> set xs \<Longrightarrow> map_option next_sock_buf_page (pages m' x) = map_option next_sock_buf_page (pages m x)) \<Longrightarrow> chain m' p xs = chain m p xs"
proof (induction xs arbitrary: p)
  case (Cons x xs)
  have "map_option next_sock_buf_page (pages m' x) = map_option next_sock_buf_page (pages m x)" using Cons.prems by simp
  then show ?case using Cons.IH Cons.prems by (cases "pages m' x"; cases "pages m x") auto
qed simp

text \<open>Cutting a list behind one of its pages.\<close>

lemma chain_cut:
  "chain m p xs \<Longrightarrow> distinct xs \<Longrightarrow> 0 < k \<Longrightarrow> xs \<noteq> [] \<Longrightarrow> pages m (last (take k xs)) = Some pg \<Longrightarrow>
   chain (m\<lparr>pages := (pages m)(last (take k xs) \<mapsto> pg\<lparr>next_sock_buf_page := None\<rparr>)\<rparr>) p (take k xs)"
proof (induction xs arbitrary: p k)
  case (Cons x xs)
  from Cons.prems(1) obtain y where y: "p = Some x" "pages m x = Some y" "chain m (next_sock_buf_page y) xs" by auto
  obtain j where k: "k = Suc j" using Cons.prems(3) by (cases k) auto
  show ?case
  proof (cases "j = 0 \<or> xs = []")
    case True
    then show ?thesis using y k Cons.prems(5) by auto
  next
    case False
    then have l: "last (take k (x # xs)) = last (take j xs)" using k by (cases j; cases xs) auto
    have "last (take j xs) \<in> set (take j xs)" using False by (intro last_in_set) (cases j; cases xs; simp)
    then have "last (take j xs) \<noteq> x" using Cons.prems(2) set_take_subset [of j xs] by auto
    then show ?thesis using Cons.IH [OF y(3), of j] Cons.prems(2,5) False y l k by auto
  qed
qed simp

text \<open>What taking a page does to the free list, the caller's list and the page given out.\<close>

fun abs_get :: "page_ref list \<Rightarrow> page_ref list \<Rightarrow> bool \<Rightarrow> nat \<Rightarrow> page_ref option \<times> page_ref list \<times> page_ref list" where
  "abs_get fs (x # ls) has_local n = (Some x, fs, ls)"
| "abs_get [] [] has_local n = (None, [], [])"
| "abs_get (x # fs) [] has_local n = (if has_local then (Some x, drop (n - 1) fs, take (n - 1) fs) else (Some x, fs, []))"

text \<open>The caller's list \<open>ls\<close>: no list at all, or one whose pages are initialised.\<close>

definition local_list :: "sb_mem \<Rightarrow> page_ref option option \<Rightarrow> page_ref list \<Rightarrow> bool" where
  "local_list m fr ls \<longleftrightarrow> (case fr of None \<Rightarrow> ls = [] | Some l \<Rightarrow> chain m l ls) \<and> (\<forall>x \<in> set ls. map_option page_bytes (pages m x) = Some 0)"

definition got :: "sb_mem \<Rightarrow> page_ref \<Rightarrow> bool" where
  "got m p \<longleftrightarrow> (\<exists>pg. pages m p = Some pg \<and> next_sock_buf_page pg = None \<and> page_bytes pg = 0)"

lemma low_get_ok:
  assumes "chain m (first_page b) fs" and "local_list m fr ls" and "distinct (fs @ ls)" and "0 < num"
  shows "\<exists>r m' b' fr' fs' ls'. low_get_sock_buf_page m b fr num = Inr (r, m', b', fr') \<and> same_rest m m' \<and> b' = b\<lparr>first_page := first_page b'\<rparr> \<and>
    abs_get fs ls (fr \<noteq> None) (unat num) = (r, fs', ls') \<and> chain m' (first_page b') fs' \<and> local_list m' fr' ls' \<and> (fr' = None) = (fr = None) \<and>
    (\<forall>p. r = Some p \<longrightarrow> got m' p) \<and> (\<forall>q. q \<notin> set fs \<union> set ls \<longrightarrow> pages m' q = pages m q)"
proof (cases ls)
  case (Cons x ls')
  then obtain l where fr: "fr = Some l" "chain m l (x # ls')" using assms(2) by (cases fr) (auto simp: local_list_def)
  then obtain pg where pg: "l = Some x" "pages m x = Some pg" "chain m (next_sock_buf_page pg) ls'" by auto
  let ?m = "m\<lparr>pages := (pages m)(x \<mapsto> pg\<lparr>next_sock_buf_page := None\<rparr>)\<rparr>"
  have d: "x \<notin> set ls'" "x \<notin> set fs" using assms(3) Cons by auto
  have z: "page_bytes pg = 0" "\<forall>y \<in> set ls'. map_option page_bytes (pages m y) = Some 0" using assms(2) Cons pg(2) by (auto simp: local_list_def)
  have e: "low_get_sock_buf_page m b fr num = Inr (Some x, ?m, b, Some (next_sock_buf_page pg))"
    using fr pg by (simp add: low_get_sock_buf_page_def get_page_def upd_page_def)
  have "local_list ?m (Some (next_sock_buf_page pg)) ls'" using pg(3) d(1) z(2) by (auto simp: local_list_def)
  moreover have "chain ?m (first_page b) fs" using assms(1) d(2) by simp
  moreover have "got ?m x" using z(1) by (simp add: got_def)
  ultimately show ?thesis using e upd_page_rest [OF pg(2)] Cons fr
    by (intro exI [of _ "Some x"] exI [of _ ?m] exI [of _ b] exI [of _ "Some (next_sock_buf_page pg)"] exI [of _ fs] exI [of _ ls']) auto
next
  case Nil
  define n where "n = (if fr = None then 1 else unat num)"
  have n0: "0 < n" using assms(4) by (auto simp: n_def unat_gt_0)
  have frn: "fr = None \<or> fr = Some None" using assms(2) Nil by (cases fr) (auto simp: local_list_def)
  have un: "unat (if fr = None then 1 else num) = n" "0 < (if fr = None then 1 else num)" using assms(4) by (auto simp: n_def)
  from skip_chain [OF assms(1), of n] obtain q where q: "skip_pages m n (first_page b) = Inr q" "chain m q (drop n fs)" by blast
  have ds: "distinct fs" using assms(3) by simp
  from init_chain [OF assms(1) ds, of n None] obtain m1 where
    m1: "init_pages m n (first_page b) None = Inr (if fs = [] then None else Some (last (take n fs)), m1)" "same_rest m m1"
      "\<forall>q. pages m1 q = (if q \<in> set (take n fs) then map_option (\<lambda>x. x\<lparr>page_bytes := 0, ref_count := 0\<rparr>) (pages m q) else pages m q)" using n0 by auto
  note m1q = m1(3) [rule_format]
  let ?R = "\<lambda>r m' b' fr' fs' ls'. low_get_sock_buf_page m b fr num = Inr (r, m', b', fr') \<and> same_rest m m' \<and> b' = b\<lparr>first_page := first_page b'\<rparr> \<and>
    abs_get fs ls (fr \<noteq> None) (unat num) = (r, fs', ls') \<and> chain m' (first_page b') fs' \<and> local_list m' fr' ls' \<and> (fr' = None) = (fr = None) \<and>
    (\<forall>p. r = Some p \<longrightarrow> got m' p) \<and> (\<forall>q. q \<notin> set fs \<union> set ls \<longrightarrow> pages m' q = pages m q)"
  show ?thesis
  proof (cases fs)
    case e: Nil
    then have f: "first_page b = None" "q = None" using assms(1) q(2) by simp_all
    have "low_get_sock_buf_page m b fr num = Inr (None, m1, b\<lparr>first_page := q\<rparr>, fr)"
      using frn q(1) m1(1) e f assms(4) n_def by (cases "fr = None") (auto simp: low_get_sock_buf_page_def Let_def)
    moreover have "local_list m1 fr []" using frn by (auto simp: local_list_def)
    ultimately have "?R None m1 (b\<lparr>first_page := q\<rparr>) fr [] []" using m1(2) m1q e Nil f(2) by simp
    then show ?thesis by blast
  next
    case (Cons x fs')
    from assms(1) Cons obtain pg where x: "first_page b = Some x" "pages m x = Some pg" "chain m (next_sock_buf_page pg) fs'" by auto
    let ?l = "last (take n fs)" and ?px = "pg\<lparr>page_bytes := 0, ref_count := 0\<rparr>"
    have tn: "take n fs = x # take (n - 1) fs'" using Cons n0 by (cases n) auto
    have dn: "drop n fs = drop (n - 1) fs'" using Cons n0 by (cases n) auto
    have xd: "x \<notin> set fs'" "distinct fs'" using ds Cons by simp_all
    have px: "pages m1 x = Some ?px" using m1q [of x] tn x(2) by simp
    have nx: "chain m1 p ys = chain m p ys" for p ys
      by (rule chain_next_cong) (simp add: m1q option.map_comp comp_def)
    have c1: "chain m1 (next_sock_buf_page ?px) fs'" "chain m1 q (drop (n - 1) fs')" using x(3) q(2) nx dn by simp_all
    have out: "pages m1 y = pages m y" if "y \<notin> set fs" for y using m1q [of y] that set_take_subset [of n fs] by auto
    have xr: "x \<notin> set (drop (n - 1) fs')" "x \<notin> set (take (n - 1) fs')" using xd(1) set_drop_subset set_take_subset by (metis subsetD)+
    show ?thesis
    proof (cases "fr \<noteq> None \<and> ?l \<noteq> x")
      case True
      then have k: "take (n - 1) fs' \<noteq> []" using tn by auto
      then have l: "?l = last (take (n - 1) fs')" using tn by simp
      have lin: "?l \<in> set (take (n - 1) fs')" using k l by simp
      then have lin2: "?l \<in> set fs'" using set_take_subset by (metis subsetD)
      obtain pl where pl: "pages m1 ?l = Some pl" using chain_live [OF c1(1) lin2] by blast
      let ?m2 = "m1\<lparr>pages := (pages m1)(?l \<mapsto> pl\<lparr>next_sock_buf_page := None\<rparr>)\<rparr>"
      let ?m3 = "?m2\<lparr>pages := (pages ?m2)(x \<mapsto> ?px\<lparr>next_sock_buf_page := None\<rparr>)\<rparr>"
      have p2: "pages ?m2 x = Some ?px" using True px by auto
      have "0 < n - 1" "fs' \<noteq> []" using k by auto
      then have cut: "chain ?m2 (next_sock_buf_page ?px) (take (n - 1) fs')"
        using chain_cut [OF c1(1) xd(2), of "n - 1" pl] pl l by simp
      have ll: "?l \<notin> set (drop (n - 1) fs')" using lin xd(2) by (metis append_take_drop_id disjoint_iff distinct_append)
      have u: "upd_page m1 ?l (\<lambda>x. x\<lparr>next_sock_buf_page := None\<rparr>) = Inr ?m2" using upd_page_ok [OF pl] .
      have u2: "upd_page ?m2 x (\<lambda>x. x\<lparr>next_sock_buf_page := None\<rparr>) = Inr ?m3" using upd_page_ok [OF p2] .
      have fr: "fr = Some None" using True frn by auto
      have "low_get_sock_buf_page m b fr num = Inr (Some x, ?m3, b\<lparr>first_page := q\<rparr>, Some (next_sock_buf_page ?px))"
        using fr q(1) m1(1) un x(1) Cons True u u2 px n_def by (simp add: low_get_sock_buf_page_def Let_def get_page_def)
      moreover have "same_rest m ?m3" using same_rest_trans [OF m1(2) same_rest_trans [OF upd_page_rest [OF pl] upd_page_rest [OF p2]]] .
      moreover have "chain ?m3 (next_sock_buf_page ?px) (take (n - 1) fs')" using cut xr(2) by simp
      moreover have "chain ?m3 q (drop (n - 1) fs')" using c1(2) ll xr(1) by simp
      moreover have "map_option page_bytes (pages ?m3 y) = Some 0" if "y \<in> set (take (n - 1) fs')" for y
      proof -
        have "y \<in> set fs'" using that set_take_subset by (metis subsetD)
        then have "pages m y \<noteq> None" using chain_live [OF x(3)] by blast
        moreover have "y \<in> set (take n fs)" using that tn by simp
        ultimately show ?thesis using m1q [of y] pl lin tn m1q [of ?l] by auto
      qed
      moreover have "got ?m3 x" by (simp add: got_def)
      moreover have "pages ?m3 y = pages m y" if "y \<notin> set fs" for y using out [OF that] that Cons lin2 by auto
      ultimately have "?R (Some x) ?m3 (b\<lparr>first_page := q\<rparr>) (Some (next_sock_buf_page ?px)) (drop (n - 1) fs') (take (n - 1) fs')"
        using Nil Cons fr n_def by (simp add: local_list_def)
      then show ?thesis by blast
    next
      case False
      have t0: "take (n - 1) fs' = []"
      proof (cases "fr = None")
        case True
        then show ?thesis by (simp add: n_def)
      next
        case fs: False
        then have "last (x # take (n - 1) fs') = x" using False tn by simp
        then show ?thesis using xr(2) by (cases "take (n - 1) fs' = []") (metis last_ConsR last_in_set)+
      qed
      let ?m3 = "m1\<lparr>pages := (pages m1)(x \<mapsto> ?px\<lparr>next_sock_buf_page := None\<rparr>)\<rparr>"
      have u2: "upd_page m1 x (\<lambda>x. x\<lparr>next_sock_buf_page := None\<rparr>) = Inr ?m3" using upd_page_ok [OF px] .
      have "low_get_sock_buf_page m b fr num = Inr (Some x, ?m3, b\<lparr>first_page := q\<rparr>, fr)"
        using frn q(1) m1(1) un x(1) Cons False u2 by (auto simp: low_get_sock_buf_page_def Let_def)
      moreover have "same_rest m ?m3" using same_rest_trans [OF m1(2) upd_page_rest [OF px]] .
      moreover have "chain ?m3 q (drop (n - 1) fs')" using c1(2) xr(1) by simp
      moreover have "local_list ?m3 fr []" using frn by (auto simp: local_list_def)
      moreover have "got ?m3 x" by (simp add: got_def)
      moreover have "pages ?m3 y = pages m y" if "y \<notin> set fs" for y using out [OF that] that Cons by auto
      ultimately have "?R (Some x) ?m3 (b\<lparr>first_page := q\<rparr>) fr (drop (n - 1) fs') []"
        using Nil Cons t0 n_def by (cases "fr = None") simp_all
      then show ?thesis by blast
    qed
  qed
qed

section \<open>Returning\<close>

text \<open>Lists whose pages have no second page as their buffer.\<close>

definition plain :: "sb_mem \<Rightarrow> guint32 \<Rightarrow> page_ref list \<Rightarrow> bool" where
  "plain m psz xs \<longleftrightarrow> (\<forall>x \<in> set xs. psz \<noteq> 0 \<or> map_option page_bytes (pages m x) = Some 0)"

lemma return_loop_list:
  "chain m (Some p) (p # xs) \<Longrightarrow> distinct (p # xs) \<Longrightarrow> plain m psz (p # xs) \<Longrightarrow> length xs < fuel \<Longrightarrow>
   \<exists>m'. return_loop fuel m psz p prev = Inr (last (p # xs), m') \<and> same_rest m m' \<and> map_option next_sock_buf_page (pages m' p) = Some prev \<and>
     (\<forall>q. q \<notin> set (p # xs) \<longrightarrow> pages m' q = pages m q) \<and> (\<forall>q. map_option page_bytes (pages m' q) = map_option page_bytes (pages m q))"
proof (induction xs arbitrary: m p prev fuel)
  case Nil
  then obtain pg f where p: "pages m p = Some pg" "next_sock_buf_page pg = None" "psz = 0 \<longrightarrow> page_bytes pg = 0" "fuel = Suc f"
    by (cases fuel) (auto simp: plain_def)
  then show ?case by (auto simp: upd_page_def get_page_def Let_def same_rest_def)
next
  case (Cons x xs)
  then obtain pg f where p: "pages m p = Some pg" "next_sock_buf_page pg = Some x" "psz = 0 \<longrightarrow> page_bytes pg = 0" "fuel = Suc f" "length xs < f"
    by (cases fuel) (auto simp: plain_def)
  let ?y = "if psz = 0 then pg\<lparr>next_sock_buf_page := prev, ref_count := 0, sock_buf := None\<rparr> else pg\<lparr>next_sock_buf_page := prev, ref_count := 0\<rparr>"
  let ?m = "m\<lparr>pages := (pages m)(p \<mapsto> ?y)\<rparr>"
  have px: "p \<notin> set (x # xs)" using Cons.prems(2) by simp
  have c: "chain ?m (Some x) (x # xs)" using Cons.prems(1) p(1,2) px by auto
  have pl: "plain ?m psz (x # xs)" using Cons.prems(3) px by (auto simp: plain_def)
  have e: "return_loop fuel m psz p prev = return_loop f ?m psz x (Some p)"
    using p by (auto simp: upd_page_def get_page_def Let_def)
  have d: "distinct (x # xs)" using Cons.prems(2) by simp
  from Cons.IH [OF c d pl p(5), of "Some p"] obtain m' where
    m': "return_loop f ?m psz x (Some p) = Inr (last (x # xs), m')" "same_rest ?m m'"
      "\<forall>q. q \<notin> set (x # xs) \<longrightarrow> pages m' q = pages ?m q" "\<forall>q. map_option page_bytes (pages m' q) = map_option page_bytes (pages ?m q)" by blast
  have "same_rest m m'" using same_rest_trans [OF upd_page_rest [OF p(1)] m'(2)] .
  moreover have "pages m' p = Some ?y" using m'(3) [rule_format, OF px] by simp
  moreover have "pages m' q = pages m q" if "q \<notin> set (p # x # xs)" for q using m'(3) [rule_format, of q] that by auto
  moreover have "map_option page_bytes (pages m' q) = map_option page_bytes (pages m q)" for q
    using m'(4) [rule_format, of q] p(1) by (cases "q = p") auto
  ultimately show ?case using e m'(1) by (intro exI [of _ m']) simp
qed

lemma return_single:
  assumes "got m p" and "chain m (first_page b) fs" and "p \<notin> set fs"
  shows "\<exists>m'. return_sock_buf_page m b (Some p) = Inr (m', b\<lparr>first_page := Some p\<rparr>) \<and> same_rest m m' \<and> chain m' (Some p) (p # fs) \<and>
    (\<forall>q. q \<noteq> p \<longrightarrow> pages m' q = pages m q)"
proof -
  from assms(1) obtain pg where pg: "pages m p = Some pg" "next_sock_buf_page pg = None" "page_bytes pg = 0" by (auto simp: got_def)
  have "chain m (Some p) [p]" "distinct [p]" "plain m (page_size b) [p]" using pg by (auto simp: plain_def)
  from return_loop_list [OF this, of "Suc (2 * num_pages m)" None] obtain m1 where
    m1: "return_loop (Suc (2 * num_pages m)) m (page_size b) p None = Inr (p, m1)" "same_rest m m1" "\<forall>q. q \<noteq> p \<longrightarrow> pages m1 q = pages m q"
      "map_option next_sock_buf_page (pages m1 p) = Some None" by auto
  obtain y where y: "pages m1 p = Some y" using m1(4) by auto
  let ?m = "m1\<lparr>pages := (pages m1)(p \<mapsto> y\<lparr>next_sock_buf_page := first_page b\<rparr>)\<rparr>"
  have "chain m1 (first_page b) fs" using assms(2,3) m1(3) chain_cong [of fs m1 m] by metis
  then have "chain ?m (Some p) (p # fs)" using assms(3) by simp
  moreover have "same_rest m ?m" using same_rest_trans [OF m1(2) upd_page_rest [OF y]] .
  moreover have "pages ?m q = pages m q" if "q \<noteq> p" for q using m1(3) [rule_format, OF that] that by simp
  ultimately show ?thesis using m1(1) upd_page_ok [OF y] by (intro exI [of _ ?m]) (simp add: return_sock_buf_page_def)
qed

text \<open>
  Returning a list of two or more pages: its first page is linked to nothing, its last one to the old free list, and the
  pool begins with the first one.
\<close>

lemma return_list:
  assumes "chain m (Some p) (p # x # xs)" and "distinct (p # x # xs)" and "plain m (page_size b) (p # x # xs)" and "length xs < 2 * num_pages m"
  shows "\<exists>m'. return_sock_buf_page m b (Some p) = Inr (m', b\<lparr>first_page := Some p\<rparr>) \<and> same_rest m m' \<and> chain m' (Some p) [p]"
proof -
  from return_loop_list [OF assms(1-3), of "Suc (2 * num_pages m)" None] assms(4) obtain m1 where
    m1: "return_loop (Suc (2 * num_pages m)) m (page_size b) p None = Inr (last (x # xs), m1)" "same_rest m m1"
      "map_option next_sock_buf_page (pages m1 p) = Some None" by auto
  have l: "last (x # xs) \<noteq> p" using assms(2) last_in_set [of "x # xs"] by (metis distinct.simps(2) list.distinct(1))
  have "last (x # xs) \<in> set (p # x # xs)" using last_in_set [of "x # xs"] by auto
  then have "pages m (last (x # xs)) \<noteq> None" using chain_live [OF assms(1)] by blast
  then obtain y where y: "pages m1 (last (x # xs)) = Some y" using same_rest_fields(6) [OF m1(2)] by (metis domIff option.exhaust)
  let ?m = "m1\<lparr>pages := (pages m1)(last (x # xs) \<mapsto> y\<lparr>next_sock_buf_page := first_page b\<rparr>)\<rparr>"
  have "chain ?m (Some p) [p]" using l m1(3) by auto
  moreover have "same_rest m ?m" using same_rest_trans [OF m1(2) upd_page_rest [OF y]] .
  ultimately show ?thesis using m1(1) upd_page_ok [OF y] by (intro exI [of _ ?m]) (simp add: return_sock_buf_page_def)
qed

text \<open>Returning one page whose buffer is a second page \<open>q\<close>, whatever the user wrote into \<open>q\<close>.\<close>

lemma return_with_second_page:
  assumes "pages m p = Some pg" and "next_sock_buf_page pg = None" and "page_bytes pg = IC_STD_CACHE_LINE_SIZE" and "sock_buf pg = Some (Page_As_Buf q)"
    and "pages m q = Some y" and "p \<noteq> q" and "page_size b = 0" and "0 < num_pages m"
  shows "\<exists>m'. return_sock_buf_page m b (Some p) = Inr (m', b\<lparr>first_page := Some p\<rparr>) \<and> same_rest m m' \<and> chain m' (Some p) [p]"
proof -
  obtain f where f: "Suc (2 * num_pages m) = Suc (Suc f)" using assms(8) by (cases "num_pages m") auto
  have n: "IC_STD_CACHE_LINE_SIZE \<noteq> 0" by (simp add: IC_STD_CACHE_LINE_SIZE_def)
  let ?P = "(pages m)(p \<mapsto> pg\<lparr>next_sock_buf_page := None, ref_count := 0\<rparr>,
      q \<mapsto> y\<lparr>page_bytes := 0, next_sock_buf_page := Some p, ref_count := 0, sock_buf := None\<rparr>)"
  let ?m = "m\<lparr>pages := ?P(q \<mapsto> y\<lparr>page_bytes := 0, ref_count := 0, sock_buf := None, next_sock_buf_page := first_page b\<rparr>)\<rparr>"
  have "return_loop (Suc (2 * num_pages m)) m (page_size b) p None = Inr (q, m\<lparr>pages := ?P\<rparr>)"
    unfolding f using assms n by (simp add: upd_page_def get_page_def Let_def)
  then have "return_sock_buf_page m b (Some p) = Inr (?m, b\<lparr>first_page := Some p\<rparr>)"
    using assms(6) by (simp add: return_sock_buf_page_def upd_page_def get_page_def del: return_loop.simps)
  moreover have "same_rest m ?m" using assms(1,5) by (auto simp: same_rest_def)
  moreover have "chain ?m (Some p) [p]" using assms(6) by simp
  ultimately show ?thesis by blast
qed

section \<open>New segments\<close>

definition fresh_page :: "nat \<Rightarrow> guint32 \<Rightarrow> guint64 \<Rightarrow> nat \<Rightarrow> ic_sock_buf_page" where
  "fresh_page s psz n i = \<lparr>next_sock_buf_page = Some (s, i + 1),
     sock_buf = (if psz = 0 then None else Some (Data_Area s (n * 128 + of_nat i * ucast psz))), page_bytes = psz, ref_count = 0\<rparr>"

lemma set_up_loop_eq:
  "seg_bytes m s = Some sz \<Longrightarrow> (i + k) * 128 \<le> unat sz \<Longrightarrow>
   set_up_loop m s psz n i k = Inr (m\<lparr>pages := (\<lambda>p. if fst p = s \<and> i \<le> snd p \<and> snd p < i + k then Some (fresh_page s psz n (snd p)) else pages m p),
     num_pages := num_pages m + k\<rparr>)"
proof (induction k arbitrary: i m)
  case 0
  have "(\<lambda>p. if fst p = s \<and> i \<le> snd p \<and> snd p < i + 0 then Some (fresh_page s psz n (snd p)) else pages m p) = pages m" by (auto simp: fun_eq_iff)
  then show ?case by simp
next
  case (Suc k)
  let ?m = "m\<lparr>pages := (pages m)((s, i) \<mapsto> fresh_page s psz n i), num_pages := num_pages m + 1\<rparr>"
  have sb: "seg_bytes ?m s = Some sz" "(i + 1 + k) * 128 \<le> unat sz" "\<not> unat sz < (i + 1) * 128" using Suc.prems by simp_all
  have f: "(\<lambda>p. if fst p = s \<and> i + 1 \<le> snd p \<and> snd p < i + 1 + k then Some (fresh_page s psz n (snd p)) else pages ?m p) =
    (\<lambda>p. if fst p = s \<and> i \<le> snd p \<and> snd p < i + Suc k then Some (fresh_page s psz n (snd p)) else pages m p)"
  proof
    fix p
    show "(if fst p = s \<and> i + 1 \<le> snd p \<and> snd p < i + 1 + k then Some (fresh_page s psz n (snd p)) else pages ?m p) =
      (if fst p = s \<and> i \<le> snd p \<and> snd p < i + Suc k then Some (fresh_page s psz n (snd p)) else pages m p)"
      by (cases p) (cases "p = (s, i)"; auto)
  qed
  have "set_up_loop m s psz n i (Suc k) = set_up_loop ?m s psz n (i + 1) k"
    using Suc.prems(1) sb(3) by (simp add: fresh_page_def)
  also have "\<dots> = Inr (?m\<lparr>pages := (\<lambda>p. if fst p = s \<and> i + 1 \<le> snd p \<and> snd p < i + 1 + k then Some (fresh_page s psz n (snd p)) else pages ?m p),
     num_pages := num_pages ?m + k\<rparr>)" by (rule Suc.IH [OF sb(1,2)])
  finally show ?case unfolding f by simp
qed

lemma chain_fresh:
  "i < N \<Longrightarrow> (\<And>j. i \<le> j \<Longrightarrow> j < N \<Longrightarrow> map_option next_sock_buf_page (pages m (s, j)) = Some (if j + 1 = N then e else Some (s, j + 1))) \<Longrightarrow> chain m e fs \<Longrightarrow>
   chain m (Some (s, i)) (map (Pair s) [i..<N] @ fs)"
proof (induction "N - i" arbitrary: i)
  case (Suc d)
  have h: "map_option next_sock_buf_page (pages m (s, i)) = Some (if i + 1 = N then e else Some (s, i + 1))" using Suc.prems(1,2) by simp
  then obtain pg where pg: "pages m (s, i) = Some pg" "next_sock_buf_page pg = (if i + 1 = N then e else Some (s, i + 1))" by auto
  show ?case
  proof (cases "i + 1 = N")
    case True
    then show ?thesis using pg Suc.prems(3) by (simp add: upt_conv_Cons [OF Suc.prems(1)])
  next
    case False
    have "chain m (Some (s, i + 1)) (map (Pair s) [i + 1..<N] @ fs)" using Suc.hyps(1) [of "i + 1"] Suc.hyps(2) Suc.prems False by auto
    then show ?thesis using pg False by (simp add: upt_conv_Cons [OF Suc.prems(1)])
  qed
qed simp

definition size_ok :: "guint32 \<Rightarrow> guint64 \<Rightarrow> bool" where
  "size_ok psz n \<longleftrightarrow> n \<noteq> 0 \<and> unat psz + 128 < 4294967296 \<and> unat n * (unat psz + 128) < 18446744073709551616"

lemma size_ok_inc: "size_ok psz n \<Longrightarrow> unat (n * ucast (psz + IC_STD_CACHE_LINE_SIZE)) = unat n * (unat psz + 128)"
proof -
  assume s: "size_ok psz n"
  have a: "unat (psz + IC_STD_CACHE_LINE_SIZE) = unat psz + 128"
    using s unat_add_small [of psz IC_STD_CACHE_LINE_SIZE] by (simp add: size_ok_def IC_STD_CACHE_LINE_SIZE_def)
  have u: "unat (ucast (psz + IC_STD_CACHE_LINE_SIZE) :: guint64) = unat psz + 128"
    using a s by (simp add: unsigned_ucast_eq take_bit_nat_eq_self size_ok_def)
  show ?thesis using s u unat_mult_small [of n "ucast (psz + IC_STD_CACHE_LINE_SIZE)"] by (simp add: size_ok_def)
qed

lemma size_ok_create: "size_ok psz n \<Longrightarrow> unat (ucast psz * n + n * ucast IC_STD_CACHE_LINE_SIZE) = unat n * (unat psz + 128)"
proof -
  assume s: "size_ok psz n"
  then have "(ucast (psz + IC_STD_CACHE_LINE_SIZE) :: guint64) = ucast psz + ucast IC_STD_CACHE_LINE_SIZE"
    using unat_add_small [of psz IC_STD_CACHE_LINE_SIZE]
    by (intro word_unat_eq_iff [THEN iffD2]) (simp add: unsigned_ucast_eq take_bit_nat_eq_self size_ok_def IC_STD_CACHE_LINE_SIZE_def unat_word_ariths)
  then show ?thesis using size_ok_inc [OF s] by (simp add: algebra_simps)
qed

text \<open>Setting up a new segment and linking its last page to \<open>e\<close>.\<close>

lemma set_up_ok:
  assumes "seg_bytes m s = Some sz" and "n \<noteq> 0" and "unat n * 128 \<le> unat sz" and "\<And>j. pages m (s, j) = None"
  shows "\<exists>m1 m2. set_up_pages_in_linked_list m s psz n = Inr ((s, unat n - 1), m1) \<and> upd_page m1 (s, unat n - 1) (\<lambda>x. x\<lparr>next_sock_buf_page := e\<rparr>) = Inr m2 \<and>
    m1 = m\<lparr>pages := pages m1, num_pages := num_pages m + unat n\<rparr> \<and> m2 = m\<lparr>pages := pages m2, num_pages := num_pages m + unat n\<rparr> \<and>
    (\<forall>p. fst p \<noteq> s \<longrightarrow> pages m1 p = pages m p \<and> pages m2 p = pages m p) \<and>
    (\<forall>fs. chain m e fs \<and> (\<forall>p \<in> set fs. fst p \<noteq> s) \<longrightarrow> chain m2 (Some (s, 0)) (map (Pair s) [0..<unat n] @ fs)) \<and>
    dom (pages m2) = dom (pages m) \<union> set (map (Pair s) [0..<unat n])"
proof -
  let ?N = "unat n"
  have N: "0 < ?N" using assms(2) by (simp add: unat_gt_0)
  define P where "P = (\<lambda>p. if fst p = s \<and> 0 \<le> snd p \<and> snd p < 0 + ?N then Some (fresh_page s psz n (snd p)) else pages m p)"
  let ?m1 = "m\<lparr>pages := P, num_pages := num_pages m + ?N\<rparr>"
  have l: "P (s, ?N - 1) = Some (fresh_page s psz n (?N - 1))" using N by (simp add: P_def)
  let ?m2 = "?m1\<lparr>pages := P((s, ?N - 1) \<mapsto> (fresh_page s psz n (?N - 1))\<lparr>next_sock_buf_page := e\<rparr>)\<rparr>"
  have 1: "set_up_pages_in_linked_list m s psz n = Inr ((s, ?N - 1), ?m1)"
    using set_up_loop_eq [OF assms(1), of 0 ?N psz n] assms(2,3) by (simp add: set_up_pages_in_linked_list_def P_def)
  have 2: "upd_page ?m1 (s, ?N - 1) (\<lambda>x. x\<lparr>next_sock_buf_page := e\<rparr>) = Inr ?m2" using l by (simp add: upd_page_def get_page_def)
  have o: "pages ?m1 p = pages m p" "pages ?m2 p = pages m p" if "fst p \<noteq> s" for p using that by (auto simp: P_def)
  have c: "chain ?m2 (Some (s, 0)) (map (Pair s) [0..<?N] @ fs)" if "chain m e fs" "\<forall>p \<in> set fs. fst p \<noteq> s" for fs
  proof (rule chain_fresh [OF N])
    show "chain ?m2 e fs" using that o(2) chain_cong [of fs ?m2 m e] by metis
    show "map_option next_sock_buf_page (pages ?m2 (s, j)) = Some (if j + 1 = ?N then e else Some (s, j + 1))" if "0 \<le> j" "j < ?N" for j
      using that by (auto simp: P_def fresh_page_def)
  qed
  have d: "dom (pages ?m2) = dom (pages m) \<union> set (map (Pair s) [0..<?N])"
  proof (rule set_eqI)
    fix p
    show "p \<in> dom (pages ?m2) \<longleftrightarrow> p \<in> dom (pages m) \<union> set (map (Pair s) [0..<?N])"
      using N assms(4) by (cases p) (auto simp: P_def split: if_splits)
  qed
  show ?thesis by (rule exI [of _ ?m1], rule exI [of _ ?m2]) (use 1 2 o c d in auto)
qed

section \<open>The pool as a whole\<close>

text \<open>
  Every page is on the free list \<open>fs\<close>, on the caller's list \<open>ls\<close> or given out (\<open>us\<close>), and in one place only; the
  pages given out are not linked to others.
\<close>

definition places :: "sb_mem \<Rightarrow> ic_sock_buf \<Rightarrow> page_ref option option \<Rightarrow> page_ref list \<Rightarrow> page_ref list \<Rightarrow> page_ref list \<Rightarrow> bool" where
  "places m b fr us fs ls \<longleftrightarrow> chain m (first_page b) fs \<and> local_list m fr ls \<and> distinct (fs @ ls @ us) \<and> set (fs @ ls @ us) = dom (pages m) \<and>
     (\<forall>p \<in> set us. got m p)"

text \<open>The segments of the pool are those of the memory.\<close>

definition segs_ok :: "sb_mem \<Rightarrow> ic_sock_buf \<Rightarrow> bool" where
  "segs_ok m b \<longleftrightarrow> length (alloc_segments_ref b) = MAX_ALLOC_SEGMENTS \<and> alloc_segments b \<le> MAX_ALLOC_SEGMENTS \<and>
     (\<exists>segs. take (alloc_segments b) (alloc_segments_ref b) = map Some segs \<and> distinct segs \<and> set segs = dom (seg_bytes m)) \<and>
     (\<forall>s \<in> dom (seg_bytes m). s < next_seg m) \<and> (\<forall>p \<in> dom (pages m). fst p \<in> dom (seg_bytes m))"

definition pool_inv :: "sb_mem \<Rightarrow> ic_sock_buf \<Rightarrow> page_ref option option \<Rightarrow> page_ref list \<Rightarrow> bool" where
  "pool_inv m b fr us \<longleftrightarrow> segs_ok m b \<and> (\<exists>fs ls. places m b fr us fs ls)"

lemma local_list_cong: "(\<And>x. x \<in> set ls \<Longrightarrow> pages m' x = pages m x) \<Longrightarrow> local_list m' fr ls = local_list m fr ls"
  using chain_cong [of ls m' m] by (auto simp: local_list_def split: option.splits)

lemma local_list_upd [simp]:
  assumes "p \<notin> set ls"
  shows "local_list (m\<lparr>pages := P(p := v)\<rparr>) fr ls = local_list (m\<lparr>pages := P\<rparr>) fr ls"
proof (rule local_list_cong)
  fix x
  assume "x \<in> set ls"
  then have "x \<noteq> p" using assms by blast
  then show "pages (m\<lparr>pages := P(p := v)\<rparr>) x = pages (m\<lparr>pages := P\<rparr>) x" by simp
qed

lemma got_cong: "pages m' p = pages m p \<Longrightarrow> got m' p = got m p"
  by (simp add: got_def)

lemma places_cong:
  assumes "places m b fr us fs ls" and "pages m' = pages m" and "first_page b' = first_page b"
  shows "places m' b' fr us fs ls"
  using assms chain_cong [of fs m' m] local_list_cong [of ls m' m fr] got_cong [of m' _ m] by (auto simp: places_def)

lemma segs_ok_same: "segs_ok m b \<Longrightarrow> same_rest m m' \<Longrightarrow> b' = b\<lparr>first_page := x\<rparr> \<Longrightarrow> segs_ok m' b'"
  using same_rest_fields [of m m'] by (simp add: segs_ok_def)

lemma abs_get_lists:
  assumes "abs_get fs ls h n = (r, fs', ls')" and "distinct (fs @ ls @ us)"
  shows "distinct (fs' @ ls' @ us @ (case r of None \<Rightarrow> [] | Some p \<Rightarrow> [p]))" and "set (fs' @ ls' @ us @ (case r of None \<Rightarrow> [] | Some p \<Rightarrow> [p])) = set (fs @ ls @ us)"
proof -
  have "mset (fs' @ ls' @ us @ (case r of None \<Rightarrow> [] | Some p \<Rightarrow> [p])) = mset (fs @ ls @ us)"
  proof (cases "(fs, ls, h, n)" rule: abs_get.cases)
    case (3 x fs1 h1 n1)
    have "mset (drop (n - 1) fs1) + mset (take (n - 1) fs1) = mset fs1"
      by (metis append_take_drop_id mset_append union_commute)
    then show ?thesis using assms(1) 3 by (cases h) (auto simp: union_assoc [symmetric])
  qed (use assms(1) in auto)
  then show "distinct (fs' @ ls' @ us @ (case r of None \<Rightarrow> [] | Some p \<Rightarrow> [p]))" "set (fs' @ ls' @ us @ (case r of None \<Rightarrow> [] | Some p \<Rightarrow> [p])) = set (fs @ ls @ us)"
    using assms(2) by (metis mset_eq_imp_distinct_iff, metis mset_eq_setD)
qed

lemma low_get_places:
  assumes "places m b fr us fs ls" and "0 < num"
  shows "\<exists>r m' b' fr' fs' ls'. low_get_sock_buf_page m b fr num = Inr (r, m', b', fr') \<and> same_rest m m' \<and> b' = b\<lparr>first_page := first_page b'\<rparr> \<and>
    places m' b' fr' (us @ (case r of None \<Rightarrow> [] | Some p \<Rightarrow> [p])) fs' ls'"
proof -
  have a: "chain m (first_page b) fs" "local_list m fr ls" "distinct (fs @ ls @ us)" "set (fs @ ls @ us) = dom (pages m)" "\<forall>p \<in> set us. got m p"
    using assms(1) by (simp_all add: places_def)
  have "distinct (fs @ ls)" using a(3) by auto
  from low_get_ok [OF a(1,2) this assms(2)] obtain r m' b' fr' fs' ls' where
    g: "low_get_sock_buf_page m b fr num = Inr (r, m', b', fr')" "same_rest m m'" "b' = b\<lparr>first_page := first_page b'\<rparr>"
      "abs_get fs ls (fr \<noteq> None) (unat num) = (r, fs', ls')" "chain m' (first_page b') fs'" "local_list m' fr' ls'" "\<forall>p. r = Some p \<longrightarrow> got m' p"
      "\<forall>q. q \<notin> set fs \<union> set ls \<longrightarrow> pages m' q = pages m q" by blast
  have "got m' p" if "p \<in> set us" for p
  proof -
    have "p \<notin> set fs \<union> set ls" using that a(3) by auto
    then show ?thesis using g(8) [rule_format, of p] a(5) that got_cong [of m' p m] by simp
  qed
  then have "places m' b' fr' (us @ (case r of None \<Rightarrow> [] | Some p \<Rightarrow> [p])) fs' ls'"
    using g(5-7) abs_get_lists [OF g(4) a(3)] a(4) same_rest_fields(6) [OF g(2)] by (auto simp: places_def split: option.splits)
  then show ?thesis using g(1-3) by blast
qed

text \<open>The requests of the proof: no buffer, or with the page size 0 one that fits into the page, or one that is too large for a buffer.\<close>

definition get_ok :: "ic_sock_buf \<Rightarrow> guint32 \<Rightarrow> guint32 \<Rightarrow> bool" where
  "get_ok b buf_size num \<longleftrightarrow> 0 < num \<and> (buf_size = 0 \<or> page_size b = 0 \<and> (buf_size \<le> 64 \<or> 128 < buf_size))"

lemma got_upd_buf: "got m p \<Longrightarrow> \<exists>pg. pages m p = Some pg \<and> got (m\<lparr>pages := (pages m)(p \<mapsto> pg\<lparr>sock_buf := x\<rparr>)\<rparr>) p"
  by (auto simp: got_def)

lemma get_places:
  assumes "places m b fr us fs ls" and "get_ok b buf_size num"
  shows "\<exists>r m' b' fr' fs' ls'. get_sock_buf_page m b buf_size fr num = Inr (r, m', b', fr') \<and> same_rest m m' \<and> b' = b\<lparr>first_page := first_page b'\<rparr> \<and>
    places m' b' fr' (us @ (case r of None \<Rightarrow> [] | Some p \<Rightarrow> [p])) fs' ls'"
proof -
  have num: "0 < num" using assms(2) by (simp add: get_ok_def)
  from low_get_places [OF assms(1) num] obtain r m1 b1 fr1 fs1 ls1 where
    g: "low_get_sock_buf_page m b fr num = Inr (r, m1, b1, fr1)" "same_rest m m1" "b1 = b\<lparr>first_page := first_page b1\<rparr>"
      "places m1 b1 fr1 (us @ (case r of None \<Rightarrow> [] | Some p \<Rightarrow> [p])) fs1 ls1" by blast
  have ps: "page_size b1 = page_size b" by (subst g(3)) simp
  show ?thesis
  proof (cases "r \<noteq> None \<and> buf_size \<noteq> 0 \<and> buf_size \<le> 64")
    case False
    have "get_sock_buf_page m b buf_size fr num = Inr (r, m1, b1, fr1)"
    proof (cases r)
      case (Some p)
      then have "buf_size = 0 \<or> page_size b1 = 0 \<and> IC_STD_CACHE_LINE_SIZE < buf_size"
        using False assms(2) ps by (auto simp: get_ok_def IC_STD_CACHE_LINE_SIZE_def)
      then show ?thesis using g(1) Some by (auto simp: get_sock_buf_page_def)
    qed (use g(1) in \<open>simp add: get_sock_buf_page_def\<close>)
    then show ?thesis using g(2-4) by blast
  next
    case True
    then obtain p where p: "r = Some p" by blast
    have pl: "chain m1 (first_page b1) fs1" "local_list m1 fr1 ls1" "distinct (fs1 @ ls1 @ us @ [p])" "set (fs1 @ ls1 @ us @ [p]) = dom (pages m1)"
      "\<forall>q \<in> set (us @ [p]). got m1 q" using g(4) p by (simp_all add: places_def)
    obtain pg where pg: "pages m1 p = Some pg" "got (m1\<lparr>pages := (pages m1)(p \<mapsto> pg\<lparr>sock_buf := Some Own_Area\<rparr>)\<rparr>) p" using got_upd_buf [of m1 p "Some Own_Area"] pl(5) by (auto simp del: fun_upd_apply)
    let ?m = "m1\<lparr>pages := (pages m1)(p \<mapsto> pg\<lparr>sock_buf := Some Own_Area\<rparr>)\<rparr>"
    have bs: "buf_size \<noteq> 0" "page_size b1 = 0" "\<not> IC_STD_CACHE_LINE_SIZE < buf_size" "buf_size \<le> IC_STD_CACHE_LINE_SIZE - 64"
    proof -
      show "buf_size \<noteq> 0" "page_size b1 = 0" using True assms(2) ps by (auto simp: get_ok_def)
      have "buf_size \<le> 64" using True by simp
      then show "\<not> IC_STD_CACHE_LINE_SIZE < buf_size" "buf_size \<le> IC_STD_CACHE_LINE_SIZE - 64"
        by (simp_all add: IC_STD_CACHE_LINE_SIZE_def word_le_nat_alt word_less_nat_alt)
    qed
    have eq: "get_sock_buf_page m b buf_size fr num = Inr (Some p, ?m, b1, fr1)"
      using g(1) p bs upd_page_ok [OF pg(1)] by (simp add: get_sock_buf_page_def)
    have np: "p \<notin> set fs1" "p \<notin> set ls1" using pl(3) by auto
    have "local_list ?m fr1 ls1" using pl(2) np(2) by simp
    moreover have "got ?m q" if "q \<in> set (us @ [p])" for q
      using that pl(5) pg(2) got_cong [of ?m q m1] by (cases "q = p") auto
    moreover have "dom (pages ?m) = dom (pages m1)" using pg(1) by auto
    ultimately have "places ?m b1 fr1 (us @ [p]) fs1 ls1" using pl np(1) by (simp add: places_def)
    then have "places ?m b1 fr1 (us @ (case Some p of None \<Rightarrow> [] | Some p \<Rightarrow> [p])) fs1 ls1" by simp
    then show ?thesis using eq g(3) same_rest_trans [OF g(2) upd_page_rest [OF pg(1)]] by blast
  qed
qed

lemma return_places:
  assumes "places m b fr us fs ls" and "i < length us"
  shows "\<exists>m' b'. return_sock_buf_page m b (Some (us ! i)) = Inr (m', b') \<and> same_rest m m' \<and> b' = b\<lparr>first_page := first_page b'\<rparr> \<and>
    places m' b' fr (take i us @ drop (i + 1) us) (us ! i # fs) ls"
proof -
  let ?p = "us ! i" and ?us = "take i us @ drop (i + 1) us"
  have a: "chain m (first_page b) fs" "local_list m fr ls" "distinct (fs @ ls @ us)" "set (fs @ ls @ us) = dom (pages m)" "\<forall>p \<in> set us. got m p"
    using assms(1) by (simp_all add: places_def)
  have us: "us = take i us @ ?p # drop (i + 1) us" using id_take_nth_drop [OF assms(2)] by simp
  have dus: "distinct us" using a(3) by simp
  have ms: "mset us = mset (?p # ?us)" using arg_cong [OF us, of mset] by simp
  have "distinct (?p # ?us)" using dus mset_eq_imp_distinct_iff [OF ms] by blast
  then have d: "?p \<notin> set ?us" "distinct ?us" unfolding distinct.simps by blast+
  have d3: "set us = insert ?p (set ?us)" using mset_eq_setD [OF ms] by (simp only: list.set)
  have p: "got m ?p" "?p \<notin> set fs" "?p \<notin> set ls" using a(3,5) assms(2) by auto
  from return_single [OF p(1) a(1) p(2)] obtain m' where
    r: "return_sock_buf_page m b (Some ?p) = Inr (m', b\<lparr>first_page := Some ?p\<rparr>)" "same_rest m m'" "chain m' (Some ?p) (?p # fs)"
      "\<forall>q. q \<noteq> ?p \<longrightarrow> pages m' q = pages m q" by blast
  have "local_list m' fr ls" using a(2) p(3) r(4) local_list_cong [of ls m' m fr] by metis
  moreover have "got m' q" if "q \<in> set ?us" for q
  proof -
    have "q \<noteq> ?p" "q \<in> set us" using that d(1) d3 by blast+
    then show ?thesis using a(5) r(4) got_cong [of m' q m] by blast
  qed
  moreover have "set ?us \<inter> (set fs \<union> set ls) = {}" "set fs \<inter> set ls = {}" "distinct fs" "distinct ls" using a(3) d3 by auto
  then have "distinct ((?p # fs) @ ls @ ?us)" using p(2,3) d by (simp only: distinct_append distinct.simps set_append list.set append_Cons) blast
  moreover have "set ((?p # fs) @ ls @ ?us) = dom (pages m')"
    using a(4) d3 same_rest_fields(6) [OF r(2)] by (simp only: set_append list.set append_Cons) blast
  ultimately have "places m' (b\<lparr>first_page := Some ?p\<rparr>) fr ?us (?p # fs) ls" using r(3) by (simp add: places_def)
  moreover have "b\<lparr>first_page := Some ?p\<rparr> = b\<lparr>first_page := first_page (b\<lparr>first_page := Some ?p\<rparr>)\<rparr>" by simp
  ultimately show ?thesis using r(1,2) by blast
qed

lemma inc_places:
  assumes "places m b fr us fs ls" and "segs_ok m b" and "size_ok (page_size b) n"
  shows "\<exists>rc m' b' as' fs'. inc_sock_buf as m b n = Inr (rc, m', b', as') \<and> segs_ok m' b' \<and> places m' b' fr us fs' ls \<and> page_size b' = page_size b \<and>
    pool_objects m' = pool_objects m \<and> pool_mutexes m' = pool_mutexes m"
proof -
  obtain ok as1 where al: "alloc_next as = (ok, as1)" by (cases "alloc_next as")
  show ?thesis
  proof (cases ok)
    case False
    then have "inc_sock_buf as m b n = Inr (IC_ERROR_MEM_ALLOC, m, b, as1)" using al by (simp add: inc_sock_buf_def seg_alloc_def)
    then show ?thesis using assms by blast
  next
    case True
    let ?s = "next_seg m" and ?sz = "n * ucast (page_size b + IC_STD_CACHE_LINE_SIZE)"
    let ?m = "m\<lparr>seg_bytes := (seg_bytes m)(?s \<mapsto> ?sz), next_seg := ?s + 1\<rparr>"
    have n0: "n \<noteq> 0" using assms(3) by (simp add: size_ok_def)
    have sz: "unat n * 128 \<le> unat ?sz" unfolding size_ok_inc [OF assms(3)] by simp
    obtain segs where sg: "length (alloc_segments_ref b) = MAX_ALLOC_SEGMENTS" "alloc_segments b \<le> MAX_ALLOC_SEGMENTS"
      "take (alloc_segments b) (alloc_segments_ref b) = map Some segs" "distinct segs" "set segs = dom (seg_bytes m)"
      "\<forall>s \<in> dom (seg_bytes m). s < next_seg m" "\<forall>p \<in> dom (pages m). fst p \<in> dom (seg_bytes m)" using assms(2) by (auto simp: segs_ok_def)
    have fresh: "fst p \<noteq> ?s" if "p \<in> dom (pages m)" for p using sg(6,7) that by (metis nless_le)
    then have none: "pages ?m (?s, j) = None" for j by (metis domIff fst_conv sb_mem.ext_inject sb_mem.surjective sb_mem.update_convs(2,3))
    have sb: "seg_bytes ?m ?s = Some ?sz" by simp
    from set_up_ok [OF sb n0 sz none, where e = "first_page b" and psz = "page_size b"] obtain m1 m2 where
      su: "set_up_pages_in_linked_list ?m ?s (page_size b) n = Inr ((?s, unat n - 1), m1)"
        "upd_page m1 (?s, unat n - 1) (\<lambda>x. x\<lparr>next_sock_buf_page := first_page b\<rparr>) = Inr m2"
        "m1 = ?m\<lparr>pages := pages m1, num_pages := num_pages m + unat n\<rparr>" "m2 = ?m\<lparr>pages := pages m2, num_pages := num_pages m + unat n\<rparr>"
        "\<forall>p. fst p \<noteq> ?s \<longrightarrow> pages m1 p = pages m p \<and> pages m2 p = pages m p"
        "\<forall>fs. chain ?m (first_page b) fs \<and> (\<forall>p \<in> set fs. fst p \<noteq> ?s) \<longrightarrow> chain m2 (Some (?s, 0)) (map (Pair ?s) [0..<unat n] @ fs)"
        "dom (pages m2) = dom (pages m) \<union> set (map (Pair ?s) [0..<unat n])" by auto
    have al2: "seg_alloc as m ?sz = (Some ?s, ?m, as1)" using al True by (simp add: seg_alloc_def)
    have pl: "chain m (first_page b) fs" "local_list m fr ls" "distinct (fs @ ls @ us)" "set (fs @ ls @ us) = dom (pages m)" "\<forall>p \<in> set us. got m p"
      using assms(1) by (simp_all add: places_def)
    have same: "pages m2 p = pages m p" if "p \<in> set (fs @ ls @ us)" for p using su(5) fresh that pl(4) by blast
    show ?thesis
    proof (cases "alloc_segments b < MAX_ALLOC_SEGMENTS")
      case True
      let ?b = "b\<lparr>first_page := Some (?s, 0), alloc_segments_ref := (alloc_segments_ref b)[alloc_segments b := Some ?s], alloc_segments := alloc_segments b + 1\<rparr>"
      let ?fs = "map (Pair ?s) [0..<unat n] @ fs"
      have eq: "inc_sock_buf as m b n = Inr (0, m2, ?b, as1)" using al2 su(1,2) True sg(1) by (simp add: inc_sock_buf_def)
      have "chain ?m (first_page b) fs" using pl(1) chain_cong [of fs ?m m] by simp
      moreover have "\<forall>p \<in> set fs. fst p \<noteq> ?s" using fresh pl(4) by (simp only: set_append) blast
      ultimately have "chain m2 (first_page ?b) ?fs" using su(6) [rule_format, of fs] by simp
      moreover have "local_list m2 fr ls" using pl(2) same local_list_cong [of ls m2 m fr] by simp
      moreover have "distinct (?fs @ ls @ us)" using pl(3,4) none by (auto simp: distinct_map inj_on_def)
      moreover have "set (?fs @ ls @ us) = dom (pages m2)" using pl(4) su(7) by auto
      moreover have "got m2 p" if "p \<in> set us" for p using pl(5) same that got_cong [of m2 p m] by simp
      ultimately have P: "places m2 ?b fr us ?fs ls" by (simp add: places_def)
      have f: "seg_bytes m2 = (seg_bytes m)(?s \<mapsto> ?sz)" "next_seg m2 = ?s + 1" "pool_objects m2 = pool_objects m" "pool_mutexes m2 = pool_mutexes m"
        by (subst su(4), simp)+
      have "take (alloc_segments ?b) (alloc_segments_ref ?b) = map Some (segs @ [?s])"
        using sg(1,3) True by (simp add: take_Suc_conv_app_nth)
      moreover have "distinct (segs @ [?s])" "set (segs @ [?s]) = dom (seg_bytes m2)" using sg(4-6) f(1) by auto
      moreover have "\<forall>p \<in> dom (pages m2). fst p \<in> dom (seg_bytes m2)" using su(7) sg(7) f(1) by auto
      moreover have "\<forall>s \<in> dom (seg_bytes m2). s < next_seg m2" using sg(6) f(1,2) by (fastforce simp: less_Suc_eq)
      ultimately have "segs_ok m2 ?b" using sg(1) True unfolding segs_ok_def by (intro conjI exI [of _ "segs @ [?s]"]) simp_all
      then show ?thesis using eq P f(3,4) by (intro exI [of _ 0] exI [of _ m2] exI [of _ ?b] exI [of _ as1] exI [of _ ?fs]) simp
    next
      case False
      let ?m3 = "m1\<lparr>pages := (\<lambda>p. if fst p = ?s then None else pages m1 p), seg_bytes := (seg_bytes m1)(?s := None)\<rparr>"
      have sb1: "seg_bytes m1 = (seg_bytes m)(?s \<mapsto> ?sz)" "next_seg m1 = ?s + 1" "pool_objects m1 = pool_objects m" "pool_mutexes m1 = pool_mutexes m"
        by (subst su(3), simp)+
      have "seg_free m1 ?s = Inr ?m3" using sb1 by (simp add: seg_free_def)
      then have eq: "inc_sock_buf as m b n = Inr (IC_ERROR_MEM_ALLOC, ?m3, b, as1)" using al2 su(1) False by (simp add: inc_sock_buf_def)
      have pg: "pages ?m3 = pages m"
      proof
        fix p
        show "pages ?m3 p = pages m p"
        proof (cases "fst p = ?s")
          case True
          then have "p \<notin> dom (pages m)" using fresh by blast
          then show ?thesis using True by (simp add: domIff)
        next
          case False
          then show ?thesis using su(5) [rule_format, of p] by simp
        qed
      qed
      have "?s \<notin> dom (seg_bytes m)" using sg(6) by auto
      then have sbe: "seg_bytes ?m3 = seg_bytes m" using sb1 by (auto simp: fun_eq_iff domIff)
      have "\<forall>s \<in> dom (seg_bytes m). s < next_seg m1" using sg(6) sb1(2) by (fastforce simp: less_Suc_eq)
      moreover have "next_seg ?m3 = next_seg m1" by simp
      ultimately have "segs_ok ?m3 b" using assms(2) pg sbe unfolding segs_ok_def by metis
      then show ?thesis using eq places_cong [OF assms(1) pg refl] sb1(3,4)
        by (intro exI [of _ IC_ERROR_MEM_ALLOC] exI [of _ ?m3] exI [of _ b] exI [of _ as1] exI [of _ fs]) simp
    qed
  qed
qed

text \<open>A memory without pools.\<close>

definition no_pools :: sb_mem where
  "no_pools = \<lparr>pages = (\<lambda>_. None), seg_bytes = (\<lambda>_. None), next_seg = 0, pool_objects = 0, pool_mutexes = 0, num_pages = 0\<rparr>"

lemma create_pool:
  assumes "size_ok psz n" and "fr = None \<or> fr = Some None"
  shows "\<exists>r m' as'. ic_create_sock_buf as no_pools psz n = Inr (r, m', as') \<and> (as = [] \<longrightarrow> r \<noteq> None) \<and>
    (case r of None \<Rightarrow> m' = no_pools
     | Some b \<Rightarrow> page_size b = psz \<and> segs_ok m' b \<and> places m' b fr [] (map (Pair 0) [0..<unat n]) [] \<and> pool_objects m' = 1 \<and> pool_mutexes m' = 1 \<and> num_pages m' = unat n)"
proof -
  obtain o1 as1 where a1: "alloc_next as = (o1, as1)" by (cases "alloc_next as")
  obtain o2 as2 where a2: "alloc_next as1 = (o2, as2)" by (cases "alloc_next as1")
  obtain o3 as3 where a3: "alloc_next as2 = (o3, as3)" by (cases "alloc_next as2")
  have n0: "n \<noteq> 0" using assms(1) by (simp add: size_ok_def)
  have em: "as = [] \<longrightarrow> o1 \<and> o2 \<and> o3" using a1 a2 a3 by auto
  note d = ic_create_sock_buf_def seg_alloc_def Let_def no_pools_def
  show ?thesis
  proof (cases "o1 \<and> o2 \<and> o3")
    case False
    then show ?thesis using a1 a2 a3 em n0 by (auto simp: d)
  next
    case True
    let ?sz = "ucast psz * n + n * ucast IC_STD_CACHE_LINE_SIZE"
    let ?m = "no_pools\<lparr>seg_bytes := (\<lambda>_. None)(0 \<mapsto> ?sz), next_seg := 1, pool_objects := 1, pool_mutexes := 1\<rparr>"
    have sz: "unat n * 128 \<le> unat ?sz" unfolding size_ok_create [OF assms(1)] by simp
    have sb: "seg_bytes ?m 0 = Some ?sz" "\<And>j. pages ?m (0, j) = None" by (simp_all add: no_pools_def)
    from set_up_ok [OF sb(1) n0 sz sb(2), where e = None and psz = psz] obtain m1 m2 where
      su: "set_up_pages_in_linked_list ?m 0 psz n = Inr ((0, unat n - 1), m1)" "upd_page m1 (0, unat n - 1) (\<lambda>x. x\<lparr>next_sock_buf_page := None\<rparr>) = Inr m2"
        "m2 = ?m\<lparr>pages := pages m2, num_pages := num_pages ?m + unat n\<rparr>"
        "\<forall>fs. chain ?m None fs \<and> (\<forall>p \<in> set fs. fst p \<noteq> 0) \<longrightarrow> chain m2 (Some (0, 0)) (map (Pair 0) [0..<unat n] @ fs)"
        "dom (pages m2) = dom (pages ?m) \<union> set (map (Pair 0) [0..<unat n])" by blast
    let ?b = "\<lparr>first_page = Some (0, 0), page_size = psz, alloc_segments = 1, alloc_segments_ref = (replicate MAX_ALLOC_SEGMENTS None)[0 := Some 0]\<rparr>"
    have eq: "ic_create_sock_buf as no_pools psz n = Inr (Some ?b, m2, as3)"
      using a1 a2 a3 True n0 su(1,2) by (simp add: d)
    have f: "seg_bytes m2 = (\<lambda>_. None)(0 \<mapsto> ?sz)" "next_seg m2 = 1" "pool_objects m2 = 1" "pool_mutexes m2 = 1" "num_pages m2 = unat n"
      by (subst su(3), simp add: no_pools_def)+
    have c: "chain m2 (Some (0, 0)) (map (Pair 0) [0..<unat n])" using su(4) [rule_format, of "[]"] by simp
    have dm: "dom (pages m2) = set (map (Pair 0) [0..<unat n])" using su(5) by (simp add: no_pools_def)
    have "places m2 ?b fr [] (map (Pair 0) [0..<unat n]) []"
      using c dm assms(2) by (auto simp: places_def local_list_def distinct_map inj_on_def)
    moreover have "segs_ok m2 ?b"
    proof -
      have "take (alloc_segments ?b) (alloc_segments_ref ?b) = map Some [0]" by (simp add: MAX_ALLOC_SEGMENTS_def take_Suc_conv_app_nth)
      moreover have "set [0] = dom (seg_bytes m2)" using f(1) by simp
      moreover have "\<forall>p \<in> dom (pages m2). fst p \<in> dom (seg_bytes m2)" using dm f(1) by auto
      ultimately show ?thesis using f(1,2) unfolding segs_ok_def by (intro conjI exI [of _ "[0]"]) (simp_all add: MAX_ALLOC_SEGMENTS_def)
    qed
    ultimately show ?thesis using eq f(3-5) by simp
  qed
qed

lemma free_segments_ok:
  "distinct segs \<Longrightarrow> set segs = dom (seg_bytes m) \<Longrightarrow> \<forall>p \<in> dom (pages m). fst p \<in> dom (seg_bytes m) \<Longrightarrow>
   \<exists>m'. free_segments m (map Some segs) = Inr m' \<and> seg_bytes m' = (\<lambda>_. None) \<and> pages m' = (\<lambda>_. None) \<and> pool_objects m' = pool_objects m \<and> pool_mutexes m' = pool_mutexes m"
proof (induction segs arbitrary: m)
  case Nil
  then show ?case by (auto simp: fun_eq_iff domIff)
next
  case (Cons s segs)
  let ?m = "m\<lparr>pages := (\<lambda>p. if fst p = s then None else pages m p), seg_bytes := (seg_bytes m)(s := None)\<rparr>"
  have s: "seg_bytes m s \<noteq> None" using Cons.prems(2) by (metis domIff list.set_intros(1))
  have p: "distinct segs" "set segs = dom (seg_bytes ?m)" using Cons.prems(1,2) by auto
  have "\<forall>p \<in> dom (pages ?m). fst p \<in> dom (seg_bytes ?m)"
  proof
    fix p
    assume "p \<in> dom (pages ?m)"
    then have "fst p \<noteq> s" "p \<in> dom (pages m)" by (auto simp: domIff split: if_splits)
    then show "fst p \<in> dom (seg_bytes ?m)" using Cons.prems(3) by simp
  qed
  from Cons.IH [OF p this] s show ?case by (simp add: seg_free_def)
qed

lemma free_pool:
  assumes "segs_ok m b"
  shows "\<exists>m'. free_sock_buf m b = Inr m' \<and> seg_bytes m' = (\<lambda>_. None) \<and> pages m' = (\<lambda>_. None) \<and> pool_objects m' = pool_objects m - 1 \<and>
    pool_mutexes m' = pool_mutexes m - 1"
proof -
  obtain segs where sg: "length (alloc_segments_ref b) = MAX_ALLOC_SEGMENTS" "alloc_segments b \<le> MAX_ALLOC_SEGMENTS"
    "take (alloc_segments b) (alloc_segments_ref b) = map Some segs" "distinct segs" "set segs = dom (seg_bytes m)"
    "\<forall>p \<in> dom (pages m). fst p \<in> dom (seg_bytes m)" using assms by (auto simp: segs_ok_def)
  let ?m = "m\<lparr>pool_mutexes := pool_mutexes m - 1\<rparr>"
  have "set segs = dom (seg_bytes ?m)" "\<forall>p \<in> dom (pages ?m). fst p \<in> dom (seg_bytes ?m)" using sg(5,6) by simp_all
  from free_segments_ok [OF sg(4) this] obtain m' where
    f: "free_segments ?m (map Some segs) = Inr m'" "seg_bytes m' = (\<lambda>_. None)" "pages m' = (\<lambda>_. None)" "pool_objects m' = pool_objects m"
      "pool_mutexes m' = pool_mutexes m - 1" by auto
  have "rd_blk (alloc_segments_ref b) 0 (alloc_segments b) = Inr (map Some segs)" using sg(1-3) by simp
  then show ?thesis using f by (simp add: free_sock_buf_def)
qed

section \<open>Clients of a pool\<close>

text \<open>
  A client with a list of its own takes pages, returns the \<open>i\<close>-th of the pages it has, and increases the pool. Its
  state is the memory, the pool, its list, the pages it has been given and the outcomes of the allocations.
\<close>

datatype sb_op = Get guint32 guint32 | Put nat | Inc guint64

type_synonym sb_client = "sb_mem \<times> ic_sock_buf \<times> page_ref option option \<times> page_ref list \<times> allocs"

fun sb_step :: "sb_op \<Rightarrow> sb_client \<Rightarrow> fault + sb_client" where
  "sb_step (Get buf_size num) (m, b, fr, us, as) =
     c_bind (get_sock_buf_page m b buf_size fr num) (\<lambda>(r, m, b, fr). Inr (m, b, fr, us @ (case r of None \<Rightarrow> [] | Some p \<Rightarrow> [p]), as))"
| "sb_step (Put i) (m, b, fr, us, as) =
     (if i < length us
      then c_bind (return_sock_buf_page m b (Some (us ! i))) (\<lambda>(m, b). Inr (m, b, fr, take i us @ drop (i + 1) us, as))
      else Inr (m, b, fr, us, as))"
| "sb_step (Inc n) (m, b, fr, us, as) = c_bind (inc_sock_buf as m b n) (\<lambda>(rc, m, b, as). Inr (m, b, fr, us, as))"

fun sb_run :: "sb_op list \<Rightarrow> sb_client \<Rightarrow> fault + sb_client" where
  "sb_run [] c = Inr c"
| "sb_run (x # xs) c = c_bind (sb_step x c) (sb_run xs)"

fun op_ok :: "guint32 \<Rightarrow> sb_op \<Rightarrow> bool" where
  "op_ok psz (Get buf_size num) = (0 < num \<and> (buf_size = 0 \<or> psz = 0 \<and> (buf_size \<le> 64 \<or> 128 < buf_size)))"
| "op_ok psz (Put i) = True"
| "op_ok psz (Inc n) = size_ok psz n"

definition client_ok :: "guint32 \<Rightarrow> sb_client \<Rightarrow> bool" where
  "client_ok psz = (\<lambda>(m, b, fr, us, as). page_size b = psz \<and> pool_inv m b fr us \<and> pool_objects m = 1 \<and> pool_mutexes m = 1)"

lemma sb_step_ok:
  assumes "client_ok psz c" and "op_ok psz x"
  shows "\<exists>c'. sb_step x c = Inr c' \<and> client_ok psz c'"
proof -
  obtain m b fr us as where c: "c = (m, b, fr, us, as)" by (cases c) auto
  obtain fs ls where i: "page_size b = psz" "segs_ok m b" "places m b fr us fs ls" "pool_objects m = 1" "pool_mutexes m = 1"
    using assms(1) c by (auto simp: client_ok_def pool_inv_def)
  show ?thesis
  proof (cases x)
    case (Get buf_size num)
    then have "get_ok b buf_size num" using assms(2) i(1) by (simp add: get_ok_def)
    from get_places [OF i(3) this] obtain r m' b' fr' fs' ls' where
      g: "get_sock_buf_page m b buf_size fr num = Inr (r, m', b', fr')" "same_rest m m'" "b' = b\<lparr>first_page := first_page b'\<rparr>"
        "places m' b' fr' (us @ (case r of None \<Rightarrow> [] | Some p \<Rightarrow> [p])) fs' ls'" by blast
    have "page_size b' = psz" using i(1) by (subst g(3)) simp
    then have "client_ok psz (m', b', fr', us @ (case r of None \<Rightarrow> [] | Some p \<Rightarrow> [p]), as)"
      using segs_ok_same [OF i(2) g(2,3)] g(4) same_rest_fields [OF g(2)] i(4,5) unfolding client_ok_def pool_inv_def prod.case by metis
    then show ?thesis using g(1) Get c by simp
  next
    case (Put k)
    show ?thesis
    proof (cases "k < length us")
      case True
      from return_places [OF i(3) True] obtain m' b' where
        g: "return_sock_buf_page m b (Some (us ! k)) = Inr (m', b')" "same_rest m m'" "b' = b\<lparr>first_page := first_page b'\<rparr>"
          "places m' b' fr (take k us @ drop (k + 1) us) (us ! k # fs) ls" by blast
      have "page_size b' = psz" using i(1) by (subst g(3)) simp
      then have "client_ok psz (m', b', fr, take k us @ drop (k + 1) us, as)"
        using segs_ok_same [OF i(2) g(2,3)] g(4) same_rest_fields [OF g(2)] i(4,5) unfolding client_ok_def pool_inv_def prod.case by metis
      then show ?thesis using g(1) Put c True by simp
    qed (use assms(1) Put c in simp)
  next
    case (Inc n)
    then have "size_ok (page_size b) n" using assms(2) i(1) by simp
    from inc_places [OF i(3,2) this, of as] obtain rc m' b' as' fs' where
      g: "inc_sock_buf as m b n = Inr (rc, m', b', as')" "segs_ok m' b'" "places m' b' fr us fs' ls" "page_size b' = page_size b"
        "pool_objects m' = pool_objects m" "pool_mutexes m' = pool_mutexes m" by blast
    then have "client_ok psz (m', b', fr, us, as')" using i(1,4,5) unfolding client_ok_def pool_inv_def prod.case by metis
    then show ?thesis using g(1) Inc c by simp
  qed
qed

lemma sb_run_ok: "client_ok psz c \<Longrightarrow> list_all (op_ok psz) xs \<Longrightarrow> \<exists>c'. sb_run xs c = Inr c' \<and> client_ok psz c'"
proof (induction xs arbitrary: c)
  case (Cons x xs)
  from sb_step_ok [OF Cons.prems(1), of x] Cons.prems(2) obtain c1 where "sb_step x c = Inr c1" "client_ok psz c1" by auto
  then show ?case using Cons.IH Cons.prems(2) by auto
qed simp

text \<open>Other threads leave a pool a pool: every page has one place afterwards, too.\<close>

definition env_ok :: "wait_env \<Rightarrow> bool" where
  "env_ok env \<longleftrightarrow> (\<forall>(f, e) \<in> set env. \<forall>m b fr us fs ls. places m b fr us fs ls \<longrightarrow>
     page_size (snd (f (m, b))) = page_size b \<and> (\<exists>us' fs' ls'. places (fst (f (m, b))) (snd (f (m, b))) fr us' fs' ls'))"

lemma wait_returns:
  "places m b fr us fs ls \<Longrightarrow> get_ok b buf_size num \<Longrightarrow> env_ok env \<Longrightarrow> \<exists>i < length env. (first \<longrightarrow> 0 < i) \<and> ms < snd (env ! i) \<Longrightarrow>
   \<exists>r. get_sock_buf_page_wait env first m b buf_size fr num ms = Inr r"
proof (induction env arbitrary: first m b fr us fs ls)
  case Nil
  then show ?case by simp
next
  case (Cons x env)
  obtain f e where x: "x = (f, e)" by (cases x)
  from get_places [OF Cons.prems(1,2)] obtain r m1 b1 fr1 fs1 ls1 where
    g: "get_sock_buf_page m b buf_size fr num = Inr (r, m1, b1, fr1)" "b1 = b\<lparr>first_page := first_page b1\<rparr>"
      "places m1 b1 fr1 (us @ (case r of None \<Rightarrow> [] | Some p \<Rightarrow> [p])) fs1 ls1" by blast
  have ps: "page_size b1 = page_size b" by (subst g(2)) simp
  show ?case
  proof (cases "r \<noteq> None \<or> \<not> first \<and> ms < e")
    case True
    then show ?thesis using g(1) x by auto
  next
    case False
    obtain m2 b2 where f: "f (m1, b1) = (m2, b2)" by (cases "f (m1, b1)")
    have h: "(f, e) \<in> set (x # env)" using x by simp
    from Cons.prems(3) [unfolded env_ok_def, rule_format, OF h, unfolded prod.case, rule_format, OF g(3)] f obtain us2 fs2 ls2 where
      p2: "places m2 b2 fr1 us2 fs2 ls2" "page_size b2 = page_size b1" by auto
    have go: "get_ok b2 buf_size num" using Cons.prems(2) p2(2) ps by (simp add: get_ok_def)
    have eo: "env_ok env" using Cons.prems(3) by (auto simp: env_ok_def)
    from Cons.prems(4) obtain i where i: "i < length (x # env)" "first \<longrightarrow> 0 < i" "ms < snd ((x # env) ! i)" by blast
    have "0 < i" using i False x by (cases i) auto
    then have "\<exists>j < length env. (False \<longrightarrow> 0 < j) \<and> ms < snd (env ! j)" using i by (intro exI [of _ "i - 1"]) auto
    from Cons.IH [OF p2(1) go eo this] show ?thesis using g(1) x f False by auto
  qed
qed

section \<open>Properties\<close>



text \<open>
  C34. Returning more than one page loses the pool: when a list of two or more pages, or a page with a second
  page as its buffer, is returned, the free list afterwards consists of its first page only, whatever was
  on the free list before.
\<close>

theorem return_list_loses_pages:
  assumes "page_size b = psz"
    and "chain m (Some p) (p # x # xs) \<and> distinct (p # x # xs) \<and> plain m psz (p # x # xs) \<and> length xs < 2 * num_pages m \<or>
      psz = 0 \<and> pages m p = Some pg \<and> next_sock_buf_page pg = None \<and> page_bytes pg = IC_STD_CACHE_LINE_SIZE \<and> sock_buf pg = Some (Page_As_Buf q) \<and>
      pages m q \<noteq> None \<and> p \<noteq> q \<and> 0 < num_pages m"
  shows "\<exists>m' b'. return_sock_buf_page m b (Some p) = Inr (m', b') \<and> chain m' (first_page b') [p] \<and> dom (pages m') = dom (pages m)"
proof -
  have "\<exists>m'. return_sock_buf_page m b (Some p) = Inr (m', b\<lparr>first_page := Some p\<rparr>) \<and> same_rest m m' \<and> chain m' (Some p) [p]"
    using assms(2)
  proof
    assume "chain m (Some p) (p # x # xs) \<and> distinct (p # x # xs) \<and> plain m psz (p # x # xs) \<and> length xs < 2 * num_pages m"
    then show ?thesis using return_list [of m p x xs b] assms(1) by blast
  next
    assume "psz = 0 \<and> pages m p = Some pg \<and> next_sock_buf_page pg = None \<and> page_bytes pg = IC_STD_CACHE_LINE_SIZE \<and> sock_buf pg = Some (Page_As_Buf q) \<and>
      pages m q \<noteq> None \<and> p \<noteq> q \<and> 0 < num_pages m"
    then show ?thesis using return_with_second_page [of m p pg q _ b] assms(1) by blast
  qed
  then obtain m' where "return_sock_buf_page m b (Some p) = Inr (m', b\<lparr>first_page := Some p\<rparr>)" "same_rest m m'" "chain m' (Some p) [p]" by blast
  then show ?thesis using same_rest_fields(6) by (intro exI [of _ m'] exI [of _ "b\<lparr>first_page := Some p\<rparr>"]) simp
qed

text \<open>A list of two pages, and a pool with one more.\<close>

definition three_pages :: sb_mem where
  "three_pages = no_pools\<lparr>pages := [(0, 0) \<mapsto> \<lparr>next_sock_buf_page = Some (0, 1), sock_buf = None, page_bytes = 0, ref_count = 0\<rparr>,
     (0, 1) \<mapsto> \<lparr>next_sock_buf_page = None, sock_buf = None, page_bytes = 0, ref_count = 0\<rparr>,
     (0, 2) \<mapsto> \<lparr>next_sock_buf_page = None, sock_buf = None, page_bytes = 0, ref_count = 0\<rparr>], num_pages := 3\<rparr>"

theorem return_list_loses_pages_witness:
  "\<exists>m' b'. return_sock_buf_page three_pages \<lparr>first_page = Some (0, 2), page_size = 0, alloc_segments = 0, alloc_segments_ref = []\<rparr> (Some (0, 0)) = Inr (m', b') \<and>
     chain m' (first_page b') [(0, 0)] \<and> dom (pages m') = {(0, 0), (0, 1), (0, 2)}"
proof -
  have "chain three_pages (Some (0, 0)) [(0, 0), (0, 1)]" "distinct [(0, 0), (0, 1) :: page_ref]" "plain three_pages 0 [(0, 0), (0, 1)]"
    "length ([] :: page_ref list) < 2 * num_pages three_pages" by (simp_all add: three_pages_def plain_def)
  moreover have "dom (pages three_pages) = {(0, 0), (0, 1), (0, 2)}" by (auto simp: three_pages_def no_pools_def)
  ultimately show ?thesis
    using return_list_loses_pages [of "\<lparr>first_page = Some (0, 2), page_size = 0, alloc_segments = 0, alloc_segments_ref = []\<rparr>" 0 three_pages "(0, 0)" "(0, 1)" "[]"] by simp
qed

text \<open>
  C26. Waiting for a page ends: whatever other threads do with the pool in the meantime,
  \<^verbatim>\<open>get_sock_buf_page_wait\<close> returns, with a page or, once the time has run out, without one, provided only that the clock
  passes the limit at some reading after the first.
\<close>

theorem get_page_wait_ends:
  assumes "places m b fr us fs ls" and "get_ok b buf_size num" and "env_ok env" and "0 < i" and "i < length env" and "ms < snd (env ! i)"
  shows "\<exists>r. get_sock_buf_page_wait env True m b buf_size fr num ms = Inr r"
proof -
  have "\<exists>i < length env. (True \<longrightarrow> 0 < i) \<and> ms < snd (env ! i)" using assms(4-6) by blast
  from wait_returns [OF assms(1-3) this] show ?thesis .
qed

theorem get_page_wait_ends_witness:
  "\<exists>r. get_sock_buf_page_wait [(\<lambda>s. s, 0), (\<lambda>s. s, 5)] True no_pools \<lparr>first_page = None, page_size = 0, alloc_segments = 0, alloc_segments_ref = []\<rparr> 0 (Some None) 2 4 = Inr r"
proof -
  let ?b = "\<lparr>first_page = None, page_size = 0, alloc_segments = 0, alloc_segments_ref = []\<rparr>"
  have "places no_pools ?b (Some None) [] [] []" by (simp add: places_def local_list_def no_pools_def)
  moreover have "get_ok ?b 0 2" "env_ok [(\<lambda>s. s, 0), (\<lambda>s. s, 5)]" by (auto simp: get_ok_def env_ok_def)
  ultimately show ?thesis using get_page_wait_ends [of no_pools ?b "Some None" "[]" "[]" "[]" 0 2 "[(\<lambda>s. s, 0), (\<lambda>s. s, 5)]" 1 4] by simp
qed

end
