(* ===== verification/IC_Poll_Set.thy ===== *)
theory IC_Poll_Set
  imports Prelude
begin

text \<open>
  \<^verbatim>\<open>src/comm/ic_poll_set.c\<close>: sets of sockets to wait for, over \<^verbatim>\<open>epoll\<close>, event ports, \<^verbatim>\<open>kqueue\<close> and
  \<^verbatim>\<open>poll\<close> (the build chooses one of them). The members are objects on the heap, referred to by the slots of
  two arrays. The uninitialised \<^verbatim>\<open>ret_code\<close> of a new member, which every check sets before it is read, is 0 here. The record \<open>ps_mem\<close> holds the heap and what the kernel knows: \<open>interest\<close> maps a registered file
  descriptor to the user data of its registration, the index of a slot or, with \<^verbatim>\<open>kqueue\<close>, the address of the
  member. The outcome of a system call is an argument: an error, or for the waiting calls the descriptors that
  are ready.

  Results: with \<^verbatim>\<open>epoll\<close>, for clients that add a descriptor once at a time, the set refines a map from
  descriptors to user objects: everything reported is registered, ready and not reported before, and removed
  connections are never reported. Adding a descriptor twice, freeing a set with a hole, events other than \<^verbatim>\<open>POLLIN\<close> and
  a failing allocation break it.
\<close>

section \<open>Data\<close>

definition IC_ERROR_POLL_SET_FULL :: err where [err_codes]: "IC_ERROR_POLL_SET_FULL = 7026"
definition IC_ERROR_NOT_FOUND_IN_POLL_SET :: err where [err_codes]: "IC_ERROR_NOT_FOUND_IN_POLL_SET = 7027"
definition MAX_POLL_SET_CONNECTIONS :: nat where "MAX_POLL_SET_CONNECTIONS = 1024"

definition EINTR_ERR :: err where "EINTR_ERR = 4"
definition ENOENT :: err where "ENOENT = 2"
definition EEXIST :: err where "EEXIST = 17"
definition ETIME :: err where "ETIME = 62"

record ic_poll_connection =
  pc_fd :: int
  pc_index :: nat
  user_obj :: nat
  pc_ret_code :: err

record ic_int_poll_set =
  poll_connections :: "nat option list"
  ready_connections :: "nat option list"
  num_poll_connections :: nat
  num_ready_connections :: nat
  num_allocated_connections :: nat
  need_close_at_free :: bool
  use_compact_array :: bool
  poll_scan_ongoing :: bool

record ps_mem =
  conns :: "nat \<Rightarrow> ic_poll_connection option"
  next_conn :: nat
  ps_blocks :: nat                 \<comment> \<open>live objects and arrays of poll sets\<close>
  open_fds :: nat                  \<comment> \<open>open descriptors of the kernel's sets\<close>
  interest :: "int \<Rightarrow> nat option"

definition get_conn :: "ps_mem \<Rightarrow> nat option \<Rightarrow> fault + ic_poll_connection" where
  "get_conn m r = (case r of None \<Rightarrow> Inl NullDeref | Some a \<Rightarrow> (case conns m a of None \<Rightarrow> Inl UseAfterFree | Some c \<Rightarrow> Inr c))"

definition set_conn_rc :: "ps_mem \<Rightarrow> nat option \<Rightarrow> err \<Rightarrow> fault + ps_mem" where
  "set_conn_rc m r rc = (case r of None \<Rightarrow> Inl NullDeref
     | Some a \<Rightarrow> (case conns m a of None \<Rightarrow> Inl UseAfterFree | Some c \<Rightarrow> Inr (m\<lparr>conns := (conns m)(a \<mapsto> c\<lparr>pc_ret_code := rc\<rparr>)\<rparr>)))"

definition free_conn :: "ps_mem \<Rightarrow> nat option \<Rightarrow> fault + ps_mem" where
  "free_conn m r = (case r of None \<Rightarrow> Inr m
     | Some a \<Rightarrow> if conns m a = None then Inl InvalidFree else Inr (m\<lparr>conns := (conns m)(a := None)\<rparr>))"

section \<open>Creation and freeing\<close>

fun free_members :: "ps_mem \<Rightarrow> nat option list \<Rightarrow> fault + ps_mem" where
  "free_members m [] = Inr m"
| "free_members m (r # rs) = c_bind (free_conn m r) (\<lambda>m. free_members m rs)"

text \<open>
  A null pointer to the set is \<open>None\<close>. \<open>arrays\<close> counts the arrays that have been allocated, including the one of the
  implementation.
\<close>

definition free_poll_set :: "ps_mem \<Rightarrow> (ic_int_poll_set \<times> nat) option \<Rightarrow> fault + ps_mem" where
  "free_poll_set m r = (case r of None \<Rightarrow> Inl NullDeref
     | Some (ps, arrays) \<Rightarrow>
         c_bind (rd_blk (poll_connections ps) 0 (num_poll_connections ps)) (\<lambda>rs.
         c_bind (free_members m rs) (\<lambda>m.
           Inr (m\<lparr>ps_blocks := ps_blocks m - (arrays + 1), open_fds := (if need_close_at_free ps then open_fds m - 1 else open_fds m)\<rparr>))))"

definition zero_poll_set :: ic_int_poll_set where
  "zero_poll_set = \<lparr>poll_connections = [], ready_connections = [], num_poll_connections = 0, num_ready_connections = 0,
     num_allocated_connections = MAX_POLL_SET_CONNECTIONS, need_close_at_free = False, use_compact_array = False, poll_scan_ongoing = False\<rparr>"

definition alloc_poll_set :: "allocs \<Rightarrow> ps_mem \<Rightarrow> fault + (err \<times> ic_int_poll_set option \<times> ps_mem \<times> allocs)" where
  "alloc_poll_set as m =
     (let mem_error = (\<lambda>r m as. c_bind (free_poll_set m r) (\<lambda>m. Inr (IC_ERROR_MEM_ALLOC, None, m, as))) in
      case alloc_next as of (ok, as) \<Rightarrow>
      if \<not> ok then mem_error None m as
      else let m = m\<lparr>ps_blocks := ps_blocks m + 1\<rparr> in case alloc_next as of (ok, as) \<Rightarrow>
        if \<not> ok then mem_error (Some (zero_poll_set, 0)) m as
        else let m = m\<lparr>ps_blocks := ps_blocks m + 1\<rparr>; ps = zero_poll_set\<lparr>poll_connections := replicate MAX_POLL_SET_CONNECTIONS None\<rparr> in
          case alloc_next as of (ok, as) \<Rightarrow>
          if \<not> ok then mem_error (Some (ps, 1)) m as
          else Inr (0, Some (ps\<lparr>ready_connections := replicate MAX_POLL_SET_CONNECTIONS None\<rparr>), m\<lparr>ps_blocks := ps_blocks m + 1\<rparr>, as))"

text \<open>
  Creation: \<open>kernel_set\<close> is the outcome of creating the kernel's set, \<open>None\<close> for \<^verbatim>\<open>poll\<close>, which has none. The result is
  \<open>None\<close> for a null pointer.
\<close>

definition create_poll_set :: "bool option \<Rightarrow> bool \<Rightarrow> allocs \<Rightarrow> ps_mem \<Rightarrow> fault + (ic_int_poll_set option \<times> ps_mem \<times> allocs)" where
  "create_poll_set kernel_set compact as m =
     (if kernel_set = Some False then Inr (None, m, as)
      else let m = (if kernel_set = None then m else m\<lparr>open_fds := open_fds m + 1\<rparr>);
               close = (\<lambda>m. if kernel_set = None then m else m\<lparr>open_fds := open_fds m - 1\<rparr>) in
        c_bind (alloc_poll_set as m) (\<lambda>(rc, r, m, as). case r of
            None \<Rightarrow> Inr (None, close m, as)
          | Some ps \<Rightarrow> case alloc_next as of (ok, as) \<Rightarrow>
              if \<not> ok then c_bind (free_poll_set m (Some (ps, 2))) (\<lambda>m. Inr (None, close m, as))
              else Inr (Some (ps\<lparr>need_close_at_free := (kernel_set \<noteq> None), use_compact_array := compact\<rparr>), m\<lparr>ps_blocks := ps_blocks m + 1\<rparr>, as)))"

definition ic_create_poll_set_epoll :: "bool \<Rightarrow> allocs \<Rightarrow> ps_mem \<Rightarrow> fault + (ic_int_poll_set option \<times> ps_mem \<times> allocs)" where
  "ic_create_poll_set_epoll ok = create_poll_set (Some ok) False"

definition ic_create_poll_set_eventports :: "bool \<Rightarrow> allocs \<Rightarrow> ps_mem \<Rightarrow> fault + (ic_int_poll_set option \<times> ps_mem \<times> allocs)" where
  "ic_create_poll_set_eventports ok = create_poll_set (Some ok) False"

definition ic_create_poll_set_kqueue :: "bool \<Rightarrow> allocs \<Rightarrow> ps_mem \<Rightarrow> fault + (ic_int_poll_set option \<times> ps_mem \<times> allocs)" where
  "ic_create_poll_set_kqueue ok = create_poll_set (Some ok) False"

definition ic_create_poll_set_poll :: "allocs \<Rightarrow> ps_mem \<Rightarrow> fault + (ic_int_poll_set option \<times> ps_mem \<times> allocs)" where
  "ic_create_poll_set_poll = create_poll_set None True"

section \<open>Members\<close>

text \<open>The first empty slot among the first \<open>n\<close>, or \<^verbatim>\<open>MAX_POLL_SET_CONNECTIONS\<close>.\<close>

definition free_slot :: "nat option list \<Rightarrow> nat \<Rightarrow> fault + nat" where
  "free_slot xs n = c_bind (rd_blk xs 0 n) (\<lambda>ys. let i = length (takeWhile (\<lambda>x. x \<noteq> None) ys) in
     Inr (if i < n then i else MAX_POLL_SET_CONNECTIONS))"

definition add_poll_set_member ::
  "allocs \<Rightarrow> ps_mem \<Rightarrow> ic_int_poll_set \<Rightarrow> int \<Rightarrow> nat \<Rightarrow> fault + (err \<times> nat option \<times> ps_mem \<times> ic_int_poll_set \<times> allocs)"
where
  "add_poll_set_member as m ps fd obj =
     (if num_poll_connections ps = num_allocated_connections ps then Inr (IC_ERROR_POLL_SET_FULL, None, m, ps, as)
      else case alloc_next as of (ok, as) \<Rightarrow>
        if \<not> ok then Inr (IC_ERROR_MEM_ALLOC, None, m, ps, as)
        else let a = next_conn m in
          c_bind (if use_compact_array ps then Inr (num_poll_connections ps) else free_slot (poll_connections ps) (num_allocated_connections ps)) (\<lambda>i.
          c_require (i < MAX_POLL_SET_CONNECTIONS)
           (c_bind (wr (poll_connections ps) i (Some a)) (\<lambda>xs.
              Inr (0, Some i, m\<lparr>next_conn := a + 1, conns := (conns m)(a \<mapsto> \<lparr>pc_fd = fd, pc_index = i, user_obj = obj, pc_ret_code = 0\<rparr>)\<rparr>,
                ps\<lparr>poll_connections := xs, num_poll_connections := num_poll_connections ps + 1\<rparr>, as)))))"

text \<open>The position of a connection with the descriptor; \<open>null_ok\<close> says whether null pointers are skipped.\<close>

fun find_fd :: "ps_mem \<Rightarrow> bool \<Rightarrow> int \<Rightarrow> nat option list \<Rightarrow> nat \<Rightarrow> fault + nat option" where
  "find_fd m null_ok fd [] i = Inr None"
| "find_fd m null_ok fd (r # rs) i =
     (if null_ok \<and> r = None then find_fd m null_ok fd rs (i + 1)
      else c_bind (get_conn m r) (\<lambda>c. if pc_fd c = fd then Inr (Some i) else find_fd m null_ok fd rs (i + 1)))"

text \<open>The first loop of \<^verbatim>\<open>remove_poll_set_member\<close>.\<close>

definition drop_ready :: "ps_mem \<Rightarrow> ic_int_poll_set \<Rightarrow> int \<Rightarrow> fault + ic_int_poll_set" where
  "drop_ready m ps fd =
     (if \<not> poll_scan_ongoing ps then Inr ps
      else c_bind (rd_blk (ready_connections ps) 0 (num_ready_connections ps)) (\<lambda>rs.
           c_bind (find_fd m False fd rs 0) (\<lambda>r. case r of
               None \<Rightarrow> Inr ps
             | Some i \<Rightarrow> let n = num_ready_connections ps - 1 in
                 c_bind (rd (ready_connections ps) n) (\<lambda>x.
                 c_bind (wr (ready_connections ps) i x) (\<lambda>xs.
                 c_bind (wr xs n None) (\<lambda>xs. Inr (ps\<lparr>ready_connections := xs, num_ready_connections := n\<rparr>)))))))"

definition remove_poll_set_member ::
  "ps_mem \<Rightarrow> ic_int_poll_set \<Rightarrow> int \<Rightarrow> fault + (err \<times> nat option \<times> ps_mem \<times> ic_int_poll_set)"
where
  "remove_poll_set_member m ps fd =
     c_bind (drop_ready m ps fd) (\<lambda>ps.
     c_bind (rd_blk (poll_connections ps) 0 (num_allocated_connections ps)) (\<lambda>rs.
     c_bind (find_fd m True fd rs 0) (\<lambda>r. case r of
         None \<Rightarrow> Inr (IC_ERROR_NOT_FOUND_IN_POLL_SET, None, m, ps)
       | Some i \<Rightarrow>
           c_bind (rd (poll_connections ps) i) (\<lambda>x.
           c_bind (free_conn m x) (\<lambda>m. let n = num_poll_connections ps - 1 in
           if use_compact_array ps
           then c_bind (rd (poll_connections ps) n) (\<lambda>y.
                c_bind (wr (poll_connections ps) i y) (\<lambda>xs.
                c_bind (wr xs n None) (\<lambda>xs. Inr (0, Some i, m, ps\<lparr>poll_connections := xs, num_poll_connections := n\<rparr>))))
           else c_bind (wr (poll_connections ps) i None) (\<lambda>xs.
                  Inr (0, Some i, m, ps\<lparr>poll_connections := xs, num_poll_connections := n\<rparr>)))))))"

definition get_next_connection :: "ic_int_poll_set \<Rightarrow> fault + (nat option \<times> ic_int_poll_set)" where
  "get_next_connection ps =
     c_assert (poll_scan_ongoing ps)
      (if num_ready_connections ps = 0 then Inr (None, ps\<lparr>poll_scan_ongoing := False\<rparr>)
       else let n = num_ready_connections ps - 1 in
         c_bind (rd (ready_connections ps) n) (\<lambda>r. Inr (r, ps\<lparr>num_ready_connections := n\<rparr>)))"

definition is_poll_set_full :: "ic_int_poll_set \<Rightarrow> bool" where
  "is_poll_set_full ps \<longleftrightarrow> num_allocated_connections ps \<le> num_poll_connections ps"

section \<open>The kernel\<close>

text \<open>
  Registration of a descriptor with user data. \<^verbatim>\<open>epoll_ctl\<close> refuses a descriptor that is registered already;
  \<^verbatim>\<open>port_associate\<close> and \<^verbatim>\<open>kevent\<close> replace the registration. Deletion fails with \<^verbatim>\<open>ENOENT\<close> when there is none. \<open>rc\<close> is any
  other error of the call, or 0.
\<close>

definition kernel_add :: "bool \<Rightarrow> ps_mem \<Rightarrow> err \<Rightarrow> int \<Rightarrow> nat \<Rightarrow> err \<times> ps_mem" where
  "kernel_add refuse m rc fd tag =
     (if rc \<noteq> 0 then (rc, m) else if refuse \<and> interest m fd \<noteq> None then (EEXIST, m)
      else (0, m\<lparr>interest := (interest m)(fd \<mapsto> tag)\<rparr>))"

definition kernel_del :: "ps_mem \<Rightarrow> err \<Rightarrow> int \<Rightarrow> err \<times> ps_mem" where
  "kernel_del m rc fd = (if rc \<noteq> 0 then (rc, m) else if interest m fd = None then (ENOENT, m) else (0, m\<lparr>interest := (interest m)(fd := None)\<rparr>))"

text \<open>The user data of the descriptors that are ready.\<close>

definition events :: "ps_mem \<Rightarrow> int list \<Rightarrow> nat list" where
  "events m fds = List.map_filter (interest m) fds"

section \<open>Adding and removing\<close>

text \<open>\<open>tag\<close> computes the user data from the index of the slot.\<close>

definition add_connection ::
  "bool \<Rightarrow> (ic_int_poll_set \<Rightarrow> nat \<Rightarrow> fault + nat) \<Rightarrow> err \<Rightarrow> allocs \<Rightarrow> ps_mem \<Rightarrow> ic_int_poll_set \<Rightarrow> int \<Rightarrow> nat \<Rightarrow>
   fault + (err \<times> ps_mem \<times> ic_int_poll_set \<times> allocs)"
where
  "add_connection refuse tag rc as m ps fd obj =
     c_bind (add_poll_set_member as m ps fd obj) (\<lambda>(ret_code, ix, m, ps, as). case ix of
         None \<Rightarrow> Inr (ret_code, m, ps, as)
       | Some i \<Rightarrow> c_bind (tag ps i) (\<lambda>t. case kernel_add refuse m rc fd t of (ret_code, m) \<Rightarrow>
           if ret_code \<noteq> 0 then c_bind (remove_poll_set_member m ps fd) (\<lambda>(_, _, m, ps). Inr (ret_code, m, ps, as))
           else Inr (0, m, ps, as)))"

definition remove_connection :: "err \<Rightarrow> ps_mem \<Rightarrow> ic_int_poll_set \<Rightarrow> int \<Rightarrow> fault + (err \<times> ps_mem \<times> ic_int_poll_set)" where
  "remove_connection rc m ps fd =
     c_bind (remove_poll_set_member m ps fd) (\<lambda>(ret_code, ix, m, ps).
       if ret_code \<noteq> 0 then Inr (ret_code, m, ps)
       else case kernel_del m rc fd of (ret_code, m) \<Rightarrow>
         if ret_code = 0 \<or> ret_code = ENOENT then Inr (0, m, ps) else Inl Aborted)"

definition index_tag :: "ic_int_poll_set \<Rightarrow> nat \<Rightarrow> fault + nat" where
  "index_tag ps i = Inr i"

definition address_tag :: "ic_int_poll_set \<Rightarrow> nat \<Rightarrow> fault + nat" where
  "address_tag ps i = c_bind (rd (poll_connections ps) i) (\<lambda>r. case r of None \<Rightarrow> Inl NullDeref | Some a \<Rightarrow> Inr a)"

definition epoll_poll_set_add_connection :: "err \<Rightarrow> allocs \<Rightarrow> ps_mem \<Rightarrow> ic_int_poll_set \<Rightarrow> int \<Rightarrow> nat \<Rightarrow> fault + (err \<times> ps_mem \<times> ic_int_poll_set \<times> allocs)" where
  "epoll_poll_set_add_connection = add_connection True index_tag"

definition eventports_poll_set_add_connection :: "err \<Rightarrow> allocs \<Rightarrow> ps_mem \<Rightarrow> ic_int_poll_set \<Rightarrow> int \<Rightarrow> nat \<Rightarrow> fault + (err \<times> ps_mem \<times> ic_int_poll_set \<times> allocs)" where
  "eventports_poll_set_add_connection = add_connection False index_tag"

definition kqueue_poll_set_add_connection :: "err \<Rightarrow> allocs \<Rightarrow> ps_mem \<Rightarrow> ic_int_poll_set \<Rightarrow> int \<Rightarrow> nat \<Rightarrow> fault + (err \<times> ps_mem \<times> ic_int_poll_set \<times> allocs)" where
  "kqueue_poll_set_add_connection = add_connection False address_tag"

definition epoll_poll_set_remove_connection :: "err \<Rightarrow> ps_mem \<Rightarrow> ic_int_poll_set \<Rightarrow> int \<Rightarrow> fault + (err \<times> ps_mem \<times> ic_int_poll_set)" where
  "epoll_poll_set_remove_connection = remove_connection"

definition eventports_poll_set_remove_connection :: "err \<Rightarrow> ps_mem \<Rightarrow> ic_int_poll_set \<Rightarrow> int \<Rightarrow> fault + (err \<times> ps_mem \<times> ic_int_poll_set)" where
  "eventports_poll_set_remove_connection = remove_connection"

definition kqueue_poll_set_remove_connection :: "err \<Rightarrow> ps_mem \<Rightarrow> ic_int_poll_set \<Rightarrow> int \<Rightarrow> fault + (err \<times> ps_mem \<times> ic_int_poll_set)" where
  "kqueue_poll_set_remove_connection = remove_connection"

section \<open>Checking\<close>

text \<open>The loop that fills \<^verbatim>\<open>ready_connections\<close> from position \<open>i\<close> on.\<close>

fun epoll_loop :: "ps_mem \<Rightarrow> ic_int_poll_set \<Rightarrow> nat \<Rightarrow> nat list \<Rightarrow> fault + (ps_mem \<times> ic_int_poll_set)" where
  "epoll_loop m ps i [] = Inr (m, ps)"
| "epoll_loop m ps i (index # es) =
     c_bind (rd (poll_connections ps) index) (\<lambda>r.
     c_bind (wr (ready_connections ps) i r) (\<lambda>xs.
     c_bind (set_conn_rc m r 0) (\<lambda>m. epoll_loop m (ps\<lparr>ready_connections := xs\<rparr>) (i + 1) es)))"

text \<open>\<open>outcome\<close>: the error number, or the descriptors that are ready.\<close>

definition epoll_check_poll_set :: "err + int list \<Rightarrow> ps_mem \<Rightarrow> ic_int_poll_set \<Rightarrow> fault + (err \<times> ps_mem \<times> ic_int_poll_set)" where
  "epoll_check_poll_set outcome m ps =
     (let report = (\<lambda>es. c_bind (epoll_loop m ps 0 es) (\<lambda>(m, ps). Inr (0, m, ps\<lparr>num_ready_connections := length es, poll_scan_ongoing := True\<rparr>))) in
      case outcome of
        Inl e \<Rightarrow> if e = EINTR_ERR then report [] else Inr (e, m, ps\<lparr>poll_scan_ongoing := False\<rparr>)
      | Inr fds \<Rightarrow> report (events m fds))"

text \<open>Event ports dissolve the association of a descriptor they report; \<open>rcs\<close> are the outcomes of the new associations.\<close>

fun eventports_loop :: "err list \<Rightarrow> ps_mem \<Rightarrow> ic_int_poll_set \<Rightarrow> nat \<Rightarrow> nat list \<Rightarrow> fault + (ps_mem \<times> ic_int_poll_set)" where
  "eventports_loop rcs m ps i [] = Inr (m, ps)"
| "eventports_loop rcs m ps i (index # es) =
     c_bind (rd (poll_connections ps) index) (\<lambda>r.
     c_bind (wr (ready_connections ps) i r) (\<lambda>xs.
     c_bind (get_conn m r) (\<lambda>c.
       case kernel_add False m (case rcs of [] \<Rightarrow> 0 | rc # _ \<Rightarrow> rc) (pc_fd c) index of (rc, m) \<Rightarrow>
       c_bind (set_conn_rc m r rc) (\<lambda>m. eventports_loop (tl rcs) m (ps\<lparr>ready_connections := xs\<rparr>) (i + 1) es))))"

definition eventports_check_poll_set :: "err list \<Rightarrow> err + int list \<Rightarrow> ps_mem \<Rightarrow> ic_int_poll_set \<Rightarrow> fault + (err \<times> ps_mem \<times> ic_int_poll_set)" where
  "eventports_check_poll_set rcs outcome m ps =
     (let report = (\<lambda>m es. c_bind (eventports_loop rcs m ps 0 es) (\<lambda>(m, ps). Inr (0, m, ps\<lparr>num_ready_connections := length es, poll_scan_ongoing := True\<rparr>))) in
      case outcome of
        Inl e \<Rightarrow> if e = EINTR_ERR \<or> e = ETIME then report m [] else Inr (e, m, ps\<lparr>poll_scan_ongoing := False\<rparr>)
      | Inr fds \<Rightarrow> report (m\<lparr>interest := (\<lambda>fd. if fd \<in> set fds then None else interest m fd)\<rparr>) (events m fds))"

text \<open>The user data are addresses of members.\<close>

fun kqueue_loop :: "ps_mem \<Rightarrow> ic_int_poll_set \<Rightarrow> nat \<Rightarrow> nat list \<Rightarrow> fault + (ps_mem \<times> ic_int_poll_set)" where
  "kqueue_loop m ps i [] = Inr (m, ps)"
| "kqueue_loop m ps i (a # es) =
     c_bind (get_conn m (Some a)) (\<lambda>c.
     c_require (pc_index c < num_allocated_connections ps)
      (c_bind (rd (poll_connections ps) (pc_index c)) (\<lambda>r.
       c_bind (wr (ready_connections ps) i r) (\<lambda>xs.
       c_bind (set_conn_rc m r 0) (\<lambda>m. kqueue_loop m (ps\<lparr>ready_connections := xs\<rparr>) (i + 1) es)))))"

definition kqueue_check_poll_set :: "err + int list \<Rightarrow> ps_mem \<Rightarrow> ic_int_poll_set \<Rightarrow> fault + (err \<times> ps_mem \<times> ic_int_poll_set)" where
  "kqueue_check_poll_set outcome m ps =
     (let report = (\<lambda>es. c_bind (kqueue_loop m ps 0 es) (\<lambda>(m, ps). Inr (0, m, ps\<lparr>num_ready_connections := length es, poll_scan_ongoing := True\<rparr>))) in
      case outcome of
        Inl e \<Rightarrow> if e = EINTR_ERR then report [] else Inr (e, m, ps\<lparr>poll_scan_ongoing := False\<rparr>)
      | Inr fds \<Rightarrow> report (events m fds))"

section \<open>The implementation with poll\<close>

text \<open>
  \<open>fds\<close> is the array of descriptors given to \<^verbatim>\<open>poll\<close>. Its outcome is the list of the words \<^verbatim>\<open>revents\<close>, or an error, which
  \<^verbatim>\<open>poll\<close> signals by \<open>-1\<close>: the comparison of this value with \<^verbatim>\<open>EINTR\<close> never holds, and the loop around the call is never
  repeated.
\<close>

definition POLLIN :: guint16 where "POLLIN = 1"
definition POLLHUP :: guint16 where "POLLHUP = 16"

definition poll_poll_set_add_connection ::
  "allocs \<Rightarrow> ps_mem \<Rightarrow> ic_int_poll_set \<Rightarrow> int list \<Rightarrow> int \<Rightarrow> nat \<Rightarrow> fault + (err \<times> ps_mem \<times> ic_int_poll_set \<times> int list \<times> allocs)"
where
  "poll_poll_set_add_connection as m ps fds fd obj =
     c_bind (add_poll_set_member as m ps fd obj) (\<lambda>(rc, ix, m, ps, as). case ix of
         None \<Rightarrow> Inr (rc, m, ps, fds, as)
       | Some i \<Rightarrow> c_bind (wr fds i fd) (\<lambda>fds. Inr (rc, m, ps, fds, as)))"

definition poll_poll_set_remove_connection :: "ps_mem \<Rightarrow> ic_int_poll_set \<Rightarrow> int list \<Rightarrow> int \<Rightarrow> fault + (err \<times> ps_mem \<times> ic_int_poll_set \<times> int list)" where
  "poll_poll_set_remove_connection m ps fds fd =
     c_bind (remove_poll_set_member m ps fd) (\<lambda>(rc, ix, m, ps). case ix of
         None \<Rightarrow> Inr (rc, m, ps, fds)
       | Some i \<Rightarrow>
           c_bind (rd fds (num_poll_connections ps)) (\<lambda>x.
           c_bind (wr fds i x) (\<lambda>fds.
           c_bind (wr fds (num_poll_connections ps) 0) (\<lambda>fds. Inr (rc, m, ps, fds)))))"

fun poll_loop :: "ps_mem \<Rightarrow> ic_int_poll_set \<Rightarrow> nat \<Rightarrow> guint16 list \<Rightarrow> fault + (ps_mem \<times> ic_int_poll_set)" where
  "poll_loop m ps i [] = Inr (m, ps)"
| "poll_loop m ps i (re # res) =
     (if re = POLLIN
      then c_bind (rd (poll_connections ps) i) (\<lambda>r.
           c_bind (wr (ready_connections ps) (num_ready_connections ps) r) (\<lambda>xs.
           c_bind (set_conn_rc m r 0) (\<lambda>m.
             poll_loop m (ps\<lparr>ready_connections := xs, num_ready_connections := num_ready_connections ps + 1\<rparr>) (i + 1) res)))
      else poll_loop m ps (i + 1) res)"

text \<open>The error returned is the value \<open>-1\<close>, here 1.\<close>

definition poll_check_poll_set :: "guint16 list option \<Rightarrow> ps_mem \<Rightarrow> ic_int_poll_set \<Rightarrow> fault + (err \<times> ps_mem \<times> ic_int_poll_set)" where
  "poll_check_poll_set outcome m ps =
     (let ps = ps\<lparr>num_ready_connections := 0, poll_scan_ongoing := True\<rparr> in
      case outcome of
        None \<Rightarrow> Inr (1, m, ps\<lparr>poll_scan_ongoing := False\<rparr>)
      | Some revents \<Rightarrow> let n = length (filter (\<lambda>re. re \<noteq> 0) revents) in
          if n = 0 then Inr (0, m, ps)
          else c_bind (poll_loop m ps 0 (take (num_poll_connections ps) revents)) (\<lambda>(m, ps).
            c_assert (num_ready_connections ps = n) (Inr (0, m, ps))))"

section \<open>The implementation with IO completion\<close>

text \<open>On Windows with IO completion nothing is implemented yet: every operation returns 0 and changes nothing.\<close>

definition io_comp_poll_set_add_connection :: "ps_mem \<Rightarrow> ic_int_poll_set \<Rightarrow> int \<Rightarrow> nat \<Rightarrow> fault + (err \<times> ps_mem \<times> ic_int_poll_set)" where
  "io_comp_poll_set_add_connection m ps fd obj = Inr (0, m, ps)"

definition io_comp_poll_set_remove_connection :: "ps_mem \<Rightarrow> ic_int_poll_set \<Rightarrow> int \<Rightarrow> fault + (err \<times> ps_mem \<times> ic_int_poll_set)" where
  "io_comp_poll_set_remove_connection m ps fd = Inr (0, m, ps)"

definition io_comp_check_poll_set :: "ps_mem \<Rightarrow> ic_int_poll_set \<Rightarrow> fault + (err \<times> ps_mem \<times> ic_int_poll_set)" where
  "io_comp_check_poll_set m ps = Inr (0, m, ps)"

definition ic_create_poll_set_io_comp :: "allocs \<Rightarrow> ps_mem \<Rightarrow> fault + (ic_int_poll_set option \<times> ps_mem \<times> allocs)" where
  "ic_create_poll_set_io_comp as m = c_bind (alloc_poll_set as m) (\<lambda>(rc, r, m, as). Inr (r, m, as))"

section \<open>Searching\<close>

definition other_conn :: "ps_mem \<Rightarrow> bool \<Rightarrow> int \<Rightarrow> nat option \<Rightarrow> bool" where
  "other_conn m null_ok fd r \<longleftrightarrow> (case r of None \<Rightarrow> null_ok | Some a \<Rightarrow> (case conns m a of None \<Rightarrow> False | Some c \<Rightarrow> pc_fd c \<noteq> fd))"

lemma find_fd_skip:
  "other_conn m null_ok fd r \<Longrightarrow> find_fd m null_ok fd (r # rs) i = find_fd m null_ok fd rs (i + 1)"
  by (auto simp: other_conn_def get_conn_def split: option.splits)

lemma find_fd_none:
  "(\<And>r. r \<in> set rs \<Longrightarrow> other_conn m null_ok fd r) \<Longrightarrow> find_fd m null_ok fd rs i = Inr None"
  by (induction rs arbitrary: i) (simp_all add: find_fd_skip del: find_fd.simps(2))

lemma find_fd_some:
  assumes "k < length rs" and "\<And>j. j < k \<Longrightarrow> other_conn m null_ok fd (rs ! j)"
    and "rs ! k = Some a" and "conns m a = Some c" and "pc_fd c = fd"
  shows "find_fd m null_ok fd rs i = Inr (Some (i + k))"
  using assms
proof (induction rs arbitrary: i k)
  case (Cons r rs)
  show ?case
  proof (cases k)
    case 0
    then show ?thesis using Cons.prems by (simp add: get_conn_def)
  next
    case (Suc k')
    have "other_conn m null_ok fd r" using Cons.prems(2) [of 0] Suc by simp
    moreover have "find_fd m null_ok fd rs (i + 1) = Inr (Some (i + 1 + k'))"
      using Cons.prems Suc Cons.prems(2) [of "Suc j" for j] by (intro Cons.IH) auto
    ultimately show ?thesis using Suc by (simp add: find_fd_skip del: find_fd.simps(2))
  qed
qed simp

lemma free_slot_first:
  assumes "k < length xs" and "xs ! k = None" and "\<And>j. j < k \<Longrightarrow> xs ! j \<noteq> None" and "length xs = MAX_POLL_SET_CONNECTIONS"
  shows "free_slot xs MAX_POLL_SET_CONNECTIONS = Inr k"
proof -
  have "k \<le> length (takeWhile (\<lambda>x. x \<noteq> None) xs)"
    using assms by (intro length_takeWhile_less_P_nth) auto
  moreover have "\<not> k < length (takeWhile (\<lambda>x. x \<noteq> None) xs)"
  proof
    assume l: "k < length (takeWhile (\<lambda>x. x \<noteq> None) xs)"
    have "xs ! k \<in> set (takeWhile (\<lambda>x. x \<noteq> None) xs)" using nth_mem [OF l] by (simp only: takeWhile_nth [OF l])
    then have "xs ! k \<noteq> None" by (blast dest: set_takeWhileD)
    then show False using assms(2) by simp
  qed
  ultimately have "length (takeWhile (\<lambda>x. x \<noteq> None) xs) = k" by linarith
  then show ?thesis using assms by (simp add: free_slot_def Let_def)
qed

lemma first_hole:
  assumes "length (filter (\<lambda>x. x \<noteq> None) xs) < length xs"
  obtains k where "k < length xs" "xs ! k = None" "\<And>j. j < k \<Longrightarrow> xs ! j \<noteq> None"
proof -
  have "\<exists>k. k < length xs \<and> xs ! k = None"
  proof (rule ccontr)
    assume "\<not> ?thesis"
    then have "\<forall>x\<in>set xs. x \<noteq> None" by (metis in_set_conv_nth)
    then have "filter (\<lambda>x. x \<noteq> None) xs = xs" by (simp add: filter_id_conv)
    then show False using assms by simp
  qed
  then obtain k where k: "k < length xs \<and> xs ! k = None" "\<forall>j<k. \<not> (j < length xs \<and> xs ! j = None)"
    using exists_least_iff [of "\<lambda>k. k < length xs \<and> xs ! k = None"] by blast
  show ?thesis
  proof (rule that [of k])
    show "xs ! j \<noteq> None" if "j < k" for j using k(2) [rule_format, OF that] k(1) that by simp
  qed (use k in blast)+
qed

lemma count_fill:
  "i < length xs \<Longrightarrow> xs ! i = None \<Longrightarrow>
     length (filter (\<lambda>x. x \<noteq> None) (xs[i := Some a])) = Suc (length (filter (\<lambda>x. x \<noteq> None) xs))"
proof (induction xs arbitrary: i)
  case (Cons x xs)
  then show ?case by (cases i) auto
qed simp

lemma count_clear:
  "i < length xs \<Longrightarrow> xs ! i = Some a \<Longrightarrow>
     length (filter (\<lambda>x. x \<noteq> None) (xs[i := None])) = length (filter (\<lambda>x. x \<noteq> None) xs) - 1"
proof (induction xs arbitrary: i)
  case (Cons x xs)
  then show ?case
  proof (cases i)
    case (Suc j)
    then have "Some a \<in> set xs" using Cons.prems by (metis Suc_less_SucD length_Cons nth_Cons_Suc nth_mem)
    then have "Some a \<in> set (filter (\<lambda>x. x \<noteq> None) xs)" by simp
    then have "0 < length (filter (\<lambda>x. x \<noteq> None) xs)" by (rule length_pos_if_in_set)
    then show ?thesis using Suc Cons.prems Cons.IH [of j] by simp
  qed simp
qed simp

section \<open>The invariant of a set with epoll\<close>

definition holds :: "ps_mem \<Rightarrow> ic_int_poll_set \<Rightarrow> nat \<Rightarrow> nat \<Rightarrow> ic_poll_connection \<Rightarrow> bool" where
  "holds m ps i a c \<longleftrightarrow> i < MAX_POLL_SET_CONNECTIONS \<and> poll_connections ps ! i = Some a \<and> conns m a = Some c"

text \<open>The members whose events have been read and not reported yet.\<close>

definition ready_members :: "ic_int_poll_set \<Rightarrow> nat option list" where
  "ready_members ps = take (num_ready_connections ps) (ready_connections ps)"

definition ps_shape :: "ic_int_poll_set \<Rightarrow> bool" where
  "ps_shape ps \<longleftrightarrow> length (poll_connections ps) = MAX_POLL_SET_CONNECTIONS \<and> length (ready_connections ps) = MAX_POLL_SET_CONNECTIONS \<and>
     num_allocated_connections ps = MAX_POLL_SET_CONNECTIONS \<and> \<not> use_compact_array ps \<and>
     num_poll_connections ps = length (filter (\<lambda>x. x \<noteq> None) (poll_connections ps))"

definition ps_slots :: "ps_mem \<Rightarrow> ic_int_poll_set \<Rightarrow> bool" where
  "ps_slots m ps \<longleftrightarrow> (\<forall>i a. i < MAX_POLL_SET_CONNECTIONS \<and> poll_connections ps ! i = Some a \<longrightarrow> (\<exists>c. conns m a = Some c \<and> pc_index c = i)) \<and>
     (\<forall>fd i. interest m fd = Some i \<longleftrightarrow> (\<exists>a c. holds m ps i a c \<and> pc_fd c = fd))"

definition ps_ready :: "ic_int_poll_set \<Rightarrow> bool" where
  "ps_ready ps \<longleftrightarrow> (poll_scan_ongoing ps \<longrightarrow> num_ready_connections ps \<le> MAX_POLL_SET_CONNECTIONS \<and> distinct (ready_members ps) \<and>
     (\<forall>r\<in>set (ready_members ps). r \<noteq> None \<and> (\<exists>i<MAX_POLL_SET_CONNECTIONS. poll_connections ps ! i = r)))"

definition ps_inv :: "ps_mem \<Rightarrow> ic_int_poll_set \<Rightarrow> bool" where
  "ps_inv m ps \<longleftrightarrow> ps_shape ps \<and> ps_slots m ps \<and> ps_ready ps \<and> (\<forall>a c. conns m a = Some c \<longrightarrow> a < next_conn m)"

lemma ps_shapeD:
  assumes "ps_inv m ps"
  shows "length (poll_connections ps) = MAX_POLL_SET_CONNECTIONS" "length (ready_connections ps) = MAX_POLL_SET_CONNECTIONS"
    "num_allocated_connections ps = MAX_POLL_SET_CONNECTIONS" "\<not> use_compact_array ps"
    "num_poll_connections ps = length (filter (\<lambda>x. x \<noteq> None) (poll_connections ps))"
  using assms by (auto simp: ps_inv_def ps_shape_def)

lemma slot_live:
  assumes "ps_inv m ps" and "i < MAX_POLL_SET_CONNECTIONS" and "poll_connections ps ! i = Some a"
  obtains c where "holds m ps i a c" "pc_index c = i"
  using assms by (auto simp: ps_inv_def ps_slots_def holds_def)

lemma holds_interest:
  assumes "ps_inv m ps" shows "interest m fd = Some i \<longleftrightarrow> (\<exists>a c. holds m ps i a c \<and> pc_fd c = fd)"
  using assms by (simp add: ps_inv_def ps_slots_def)

lemma holds_fresh: "ps_inv m ps \<Longrightarrow> conns m a = Some c \<Longrightarrow> a < next_conn m"
  by (simp add: ps_inv_def)

lemma same_slot:
  assumes "ps_inv m ps" and "holds m ps i a c" and "holds m ps j b d" and "pc_fd c = pc_fd d \<or> a = b"
  shows "i = j \<and> a = b \<and> c = d"
proof -
  have "i = j" if "pc_fd c = pc_fd d"
  proof -
    have "interest m (pc_fd d) = Some i" using assms(2) that by (auto simp: holds_interest [OF assms(1)])
    moreover have "interest m (pc_fd d) = Some j" using assms(3) by (auto simp: holds_interest [OF assms(1)])
    ultimately show ?thesis by simp
  qed
  moreover have "i = j" if "a = b"
  proof -
    obtain d1 where "conns m a = Some d1" "pc_index d1 = i"
      using slot_live [OF assms(1), of i a] assms(2) by (auto simp: holds_def)
    moreover obtain d2 where "conns m b = Some d2" "pc_index d2 = j"
      using slot_live [OF assms(1), of j b] assms(3) by (auto simp: holds_def)
    ultimately show ?thesis using that by simp
  qed
  ultimately have "i = j" using assms(4) by blast
  then show ?thesis using assms(2,3) by (simp add: holds_def)
qed

lemma pending_live:
  assumes "ps_inv m ps" and "poll_scan_ongoing ps" and "r \<in> set (ready_members ps)"
  obtains a i c where "r = Some a" "holds m ps i a c"
proof -
  obtain a i where a: "r = Some a" "i < MAX_POLL_SET_CONNECTIONS" "poll_connections ps ! i = r"
    using assms by (auto simp: ps_inv_def ps_ready_def)
  obtain c where "holds m ps i a c" by (rule slot_live [OF assms(1) a(2), of a]) (use a in simp)
  then show ?thesis using a(1) that by blast
qed

lemma pending_bound: "ps_inv m ps \<Longrightarrow> poll_scan_ongoing ps \<Longrightarrow> num_ready_connections ps \<le> MAX_POLL_SET_CONNECTIONS"
  by (simp add: ps_inv_def ps_ready_def)

section \<open>The abstract set\<close>

text \<open>
  What a client sees: a map from descriptors to user objects, and during a scan the set of descriptors that are
  still to be reported.
\<close>

record poll_spec =
  members :: "int \<Rightarrow> nat option"
  to_report :: "int set option"

datatype ps_op = PAdd err bool int nat | PRemove int | PCheck "err + int list" | PNext
datatype ps_resp = RCode err | RConn "(int \<times> nat) option"

inductive spec_step :: "poll_spec \<Rightarrow> ps_op \<Rightarrow> ps_resp \<Rightarrow> poll_spec \<Rightarrow> bool" where
  add_full: "card (dom (members s)) = MAX_POLL_SET_CONNECTIONS \<Longrightarrow> spec_step s (PAdd rc ok fd obj) (RCode IC_ERROR_POLL_SET_FULL) s"
| add_mem: "card (dom (members s)) < MAX_POLL_SET_CONNECTIONS \<Longrightarrow> spec_step s (PAdd rc False fd obj) (RCode IC_ERROR_MEM_ALLOC) s"
| add_kernel: "card (dom (members s)) < MAX_POLL_SET_CONNECTIONS \<Longrightarrow> rc \<noteq> 0 \<Longrightarrow> spec_step s (PAdd rc True fd obj) (RCode rc) s"
| add_ok: "card (dom (members s)) < MAX_POLL_SET_CONNECTIONS \<Longrightarrow>
     spec_step s (PAdd 0 True fd obj) (RCode 0) (s\<lparr>members := (members s)(fd \<mapsto> obj)\<rparr>)"
| remove_absent: "members s fd = None \<Longrightarrow> spec_step s (PRemove fd) (RCode IC_ERROR_NOT_FOUND_IN_POLL_SET) s"
| remove_ok: "members s fd \<noteq> None \<Longrightarrow>
     spec_step s (PRemove fd) (RCode 0) \<lparr>members = (members s)(fd := None), to_report = map_option (\<lambda>R. R - {fd}) (to_report s)\<rparr>"
| check_intr: "spec_step s (PCheck (Inl EINTR_ERR)) (RCode 0) (s\<lparr>to_report := Some {}\<rparr>)"
| check_error: "e \<noteq> EINTR_ERR \<Longrightarrow> spec_step s (PCheck (Inl e)) (RCode e) (s\<lparr>to_report := None\<rparr>)"
| check_ok: "spec_step s (PCheck (Inr fds)) (RCode 0) (s\<lparr>to_report := Some (set fds \<inter> dom (members s))\<rparr>)"
| next_end: "to_report s = Some {} \<Longrightarrow> spec_step s PNext (RConn None) (s\<lparr>to_report := None\<rparr>)"
| next_conn: "to_report s = Some R \<Longrightarrow> fd \<in> R \<Longrightarrow> members s fd = Some obj \<Longrightarrow>
     spec_step s PNext (RConn (Some (fd, obj))) (s\<lparr>to_report := Some (R - {fd})\<rparr>)"

text \<open>What the client has to do: add a descriptor only when it is not in the set, and ask for connections only during a scan.\<close>

definition ps_op_ok :: "poll_spec \<Rightarrow> ps_op \<Rightarrow> bool" where
  "ps_op_ok s op = (case op of PAdd rc ok fd obj \<Rightarrow> members s fd = None | PRemove fd \<Rightarrow> True | PCheck out \<Rightarrow> (case out of Inl e \<Rightarrow> True | Inr fds \<Rightarrow> distinct fds)
     | PNext \<Rightarrow> to_report s \<noteq> None)"

definition abs_ps :: "ps_mem \<Rightarrow> ic_int_poll_set \<Rightarrow> poll_spec" where
  "abs_ps m ps = \<lparr>members = (\<lambda>fd. case interest m fd of None \<Rightarrow> None
        | Some i \<Rightarrow> (case poll_connections ps ! i of None \<Rightarrow> None | Some a \<Rightarrow> map_option user_obj (conns m a))),
     to_report = (if poll_scan_ongoing ps then Some {pc_fd c |a c. Some a \<in> set (ready_members ps) \<and> conns m a = Some c} else None)\<rparr>"

text \<open>The operations of the set, with the kernel's part in the operation.\<close>

definition ps_step :: "ps_op \<Rightarrow> ps_mem \<times> ic_int_poll_set \<Rightarrow> fault + (ps_resp \<times> ps_mem \<times> ic_int_poll_set)" where
  "ps_step op s = (case s of (m, ps) \<Rightarrow> (case op of
       PAdd rc ok fd obj \<Rightarrow> c_bind (epoll_poll_set_add_connection rc [ok] m ps fd obj) (\<lambda>(rc, m, ps, as). Inr (RCode rc, m, ps))
     | PRemove fd \<Rightarrow> c_bind (epoll_poll_set_remove_connection 0 m ps fd) (\<lambda>(rc, m, ps). Inr (RCode rc, m, ps))
     | PCheck out \<Rightarrow> c_bind (epoll_check_poll_set out m ps) (\<lambda>(rc, m, ps). Inr (RCode rc, m, ps))
     | PNext \<Rightarrow> c_bind (get_next_connection ps) (\<lambda>(r, ps). case r of None \<Rightarrow> Inr (RConn None, m, ps)
         | Some a \<Rightarrow> c_bind (get_conn m (Some a)) (\<lambda>c. Inr (RConn (Some (pc_fd c, user_obj c)), m, ps)))))"

lemma members_holds: "ps_inv m ps \<Longrightarrow> holds m ps i a c \<Longrightarrow> members (abs_ps m ps) (pc_fd c) = Some (user_obj c)"
  using holds_interest [of m ps "pc_fd c" i] by (auto simp: abs_ps_def holds_def)

lemma members_some:
  assumes "ps_inv m ps" and "interest m fd = Some i"
  obtains a c where "holds m ps i a c" "pc_fd c = fd"
  using assms by (auto simp: holds_interest)

lemma members_none:
  assumes "ps_inv m ps" shows "members (abs_ps m ps) fd = None \<longleftrightarrow> interest m fd = None"
proof (cases "interest m fd")
  case (Some i)
  obtain a c where "holds m ps i a c" "pc_fd c = fd" by (rule members_some [OF assms Some])
  then show ?thesis using members_holds [OF assms] Some by auto
qed (simp add: abs_ps_def)

lemma members_dom:
  assumes "ps_inv m ps" and "fd \<in> dom (members (abs_ps m ps))"
  obtains i where "interest m fd = Some i"
  using assms members_none [OF assms(1), of fd] by (cases "interest m fd") auto

lemma card_members:
  assumes "ps_inv m ps" shows "card (dom (members (abs_ps m ps))) = num_poll_connections ps"
proof -
  let ?I = "{i. i < MAX_POLL_SET_CONNECTIONS \<and> poll_connections ps ! i \<noteq> None}"
  have "bij_betw (\<lambda>fd. the (interest m fd)) (dom (members (abs_ps m ps))) ?I"
  proof (rule bij_betw_imageI)
    show "inj_on (\<lambda>fd. the (interest m fd)) (dom (members (abs_ps m ps)))"
    proof (rule inj_onI)
      fix x y assume "x \<in> dom (members (abs_ps m ps))" "y \<in> dom (members (abs_ps m ps))" "the (interest m x) = the (interest m y)"
      then obtain i where "interest m x = Some i" "interest m y = Some i"
        using members_dom [OF assms, of x] members_dom [OF assms, of y] by (metis option.sel)
      then show "x = y" using holds_interest [OF assms] by (auto simp: holds_def)
    qed
    show "(\<lambda>fd. the (interest m fd)) ` dom (members (abs_ps m ps)) = ?I"
    proof (intro equalityI subsetI)
      fix i assume "i \<in> (\<lambda>fd. the (interest m fd)) ` dom (members (abs_ps m ps))"
      then obtain fd where fd: "fd \<in> dom (members (abs_ps m ps))" "i = the (interest m fd)" by blast
      obtain j where "interest m fd = Some j" by (rule members_dom [OF assms fd(1)])
      then have "interest m fd = Some i" using fd(2) by simp
      then show "i \<in> ?I" by (auto simp: holds_interest [OF assms] holds_def)
    next
      fix i assume "i \<in> ?I"
      then obtain a where "i < MAX_POLL_SET_CONNECTIONS" "poll_connections ps ! i = Some a" by auto
      then obtain c where c: "holds m ps i a c" by (rule slot_live [OF assms])
      then have "interest m (pc_fd c) = Some i" using holds_interest [OF assms] by blast
      moreover have "pc_fd c \<in> dom (members (abs_ps m ps))" using members_holds [OF assms c] by blast
      ultimately show "i \<in> (\<lambda>fd. the (interest m fd)) ` dom (members (abs_ps m ps))" by force
    qed
  qed
  then have "card (dom (members (abs_ps m ps))) = card ?I" by (rule bij_betw_same_card)
  also have "\<dots> = length (filter (\<lambda>x. x \<noteq> None) (poll_connections ps))"
    using ps_shapeD(1) [OF assms] by (simp add: length_filter_conv_card)
  finally show ?thesis using ps_shapeD(5) [OF assms] by simp
qed

lemma num_poll_bound: "ps_inv m ps \<Longrightarrow> num_poll_connections ps \<le> MAX_POLL_SET_CONNECTIONS"
  using ps_shapeD(1,5) [of m ps] by (metis length_filter_le)

lemma members_iff:
  assumes "ps_inv m ps"
  shows "members (abs_ps m ps) fd = Some obj \<longleftrightarrow> (\<exists>i a c. holds m ps i a c \<and> pc_fd c = fd \<and> user_obj c = obj)"
proof
  assume "members (abs_ps m ps) fd = Some obj"
  moreover from this obtain i where "interest m fd = Some i" using members_none [OF assms, of fd] by (cases "interest m fd") auto
  moreover from this obtain a c where "holds m ps i a c" "pc_fd c = fd" by (rule members_some [OF assms])
  ultimately show "\<exists>i a c. holds m ps i a c \<and> pc_fd c = fd \<and> user_obj c = obj" using members_holds [OF assms, of i a c] by auto
qed (use members_holds [OF assms] in blast)

lemma to_report_scan:
  assumes "poll_scan_ongoing ps"
  shows "to_report (abs_ps m ps) = Some {pc_fd c |a c. Some a \<in> set (ready_members ps) \<and> conns m a = Some c}"
  using assms by (simp add: abs_ps_def)

lemma to_report_none: "\<not> poll_scan_ongoing ps \<Longrightarrow> to_report (abs_ps m ps) = None"
  by (simp add: abs_ps_def)

lemma abs_eqI:
  assumes "ps_inv m' ps'" and "\<And>fd obj. (\<exists>i a c. holds m' ps' i a c \<and> pc_fd c = fd \<and> user_obj c = obj) \<longleftrightarrow> members s fd = Some obj"
    and "to_report (abs_ps m' ps') = to_report s"
  shows "abs_ps m' ps' = s"
proof -
  have e: "members (abs_ps m' ps') fd = Some obj \<longleftrightarrow> members s fd = Some obj" for fd obj
    unfolding members_iff [OF assms(1)] by (rule assms(2))
  have "members (abs_ps m' ps') fd = members s fd" for fd
    using e [of fd] by (cases "members s fd") (auto intro: option.exhaust_sel)
  then have "members (abs_ps m' ps') = members s" by (rule ext)
  then show ?thesis using assms(3) by simp
qed

section \<open>Adding\<close>

abbreviation new_conn :: "int \<Rightarrow> nat \<Rightarrow> nat \<Rightarrow> ic_poll_connection" where
  "new_conn fd i obj \<equiv> \<lparr>pc_fd = fd, pc_index = i, user_obj = obj, pc_ret_code = 0\<rparr>"

definition added :: "ps_mem \<Rightarrow> nat \<Rightarrow> int \<Rightarrow> nat \<Rightarrow> ps_mem" where
  "added m k fd obj = m\<lparr>next_conn := next_conn m + 1, conns := (conns m)(next_conn m \<mapsto> new_conn fd k obj)\<rparr>"

definition filled :: "ps_mem \<Rightarrow> ic_int_poll_set \<Rightarrow> nat \<Rightarrow> ic_int_poll_set" where
  "filled m ps k = ps\<lparr>poll_connections := (poll_connections ps)[k := Some (next_conn m)], num_poll_connections := num_poll_connections ps + 1\<rparr>"

lemma hole:
  assumes "ps_inv m ps" and "num_poll_connections ps < MAX_POLL_SET_CONNECTIONS"
  obtains k where "k < MAX_POLL_SET_CONNECTIONS" "poll_connections ps ! k = None" "\<And>j. j < k \<Longrightarrow> poll_connections ps ! j \<noteq> None"
  using first_hole [of "poll_connections ps"] ps_shapeD [OF assms(1)] assms(2) by auto

lemma add_member:
  assumes "ps_inv m ps" and "k < MAX_POLL_SET_CONNECTIONS" and "poll_connections ps ! k = None"
    and "\<And>j. j < k \<Longrightarrow> poll_connections ps ! j \<noteq> None"
  shows "add_poll_set_member [True] m ps fd obj = Inr (0, Some k, added m k fd obj, filled m ps k, [])"
proof -
  note sh = ps_shapeD [OF assms(1)]
  have "num_poll_connections ps < MAX_POLL_SET_CONNECTIONS"
    using length_filter_less [of None "poll_connections ps" "\<lambda>x. x \<noteq> None"] sh assms(2,3) nth_mem [of k "poll_connections ps"] by auto
  moreover have "free_slot (poll_connections ps) (num_allocated_connections ps) = Inr k"
    using free_slot_first [of k "poll_connections ps"] sh assms by simp
  ultimately show ?thesis using sh assms by (simp add: add_poll_set_member_def Let_def added_def filled_def)
qed

lemma ex_new:
  "(\<exists>i a c. ((i = k \<and> a = n \<and> c = x) \<or> holds m ps i a c) \<and> P c) \<longleftrightarrow> P x \<or> (\<exists>i a c. holds m ps i a c \<and> P c)"
  "(\<exists>a c. ((i = k \<and> a = n \<and> c = x) \<or> holds m ps i a c) \<and> P c) \<longleftrightarrow> (i = k \<and> P x) \<or> (\<exists>a c. holds m ps i a c \<and> P c)"
  by blast+

lemma holds_added:
  assumes "ps_inv m ps" and "k < MAX_POLL_SET_CONNECTIONS" and "poll_connections ps ! k = None"
  shows "holds (added m k fd obj) (filled m ps k) i b c \<longleftrightarrow>
    (i = k \<and> b = next_conn m \<and> c = new_conn fd k obj) \<or> holds m ps i b c"
proof -
  have "conns m (next_conn m) = None" using holds_fresh [OF assms(1), of "next_conn m"] by (cases "conns m (next_conn m)") auto
  moreover have "b \<noteq> next_conn m" if st: "i < MAX_POLL_SET_CONNECTIONS" "poll_connections ps ! i = Some b"
  proof -
    obtain d where "holds m ps i b d" by (rule slot_live [OF assms(1) st])
    then show ?thesis using holds_fresh [OF assms(1), of b d] by (auto simp: holds_def)
  qed
  ultimately show ?thesis
    using assms ps_shapeD(1) [OF assms(1)] by (auto simp: holds_def added_def filled_def nth_list_update)
qed

lemma add_inv:
  assumes "ps_inv m ps" and "k < MAX_POLL_SET_CONNECTIONS" and "poll_connections ps ! k = None" and "interest m fd = None"
  shows "ps_inv ((added m k fd obj)\<lparr>interest := (interest m)(fd \<mapsto> k)\<rparr>) (filled m ps k)" (is "ps_inv ?m ?ps")
proof -
  have h: "holds ?m ?ps i b c \<longleftrightarrow> (i = k \<and> b = next_conn m \<and> c = new_conn fd k obj) \<or> holds m ps i b c" for i b c
    using holds_added [OF assms(1-3), of fd obj i b c] by (simp add: holds_def)
  have nofd: "pc_fd c \<noteq> fd" if "holds m ps i b c" for i b c using that assms(4) holds_interest [OF assms(1), of "pc_fd c" i] by auto
  have "ps_shape ?ps" using ps_shapeD [OF assms(1)] assms(2,3) by (simp add: ps_shape_def filled_def count_fill del: not_None_eq)
  moreover have "\<exists>c. conns ?m b = Some c \<and> pc_index c = i" if st: "i < MAX_POLL_SET_CONNECTIONS" "poll_connections ?ps ! i = Some b" for i b
  proof (cases "i = k")
    case True
    then show ?thesis using st ps_shapeD(1) [OF assms(1)] assms(2) by (auto simp: filled_def added_def)
  next
    case False
    then have "poll_connections ps ! i = Some b" using st(2) by (simp add: filled_def)
    then obtain c where "holds m ps i b c" "pc_index c = i" by (rule slot_live [OF assms(1) st(1)])
    then show ?thesis using h [of i b c] by (auto simp: holds_def)
  qed
  moreover have "interest ?m fd' = Some i \<longleftrightarrow> (\<exists>a c. holds ?m ?ps i a c \<and> pc_fd c = fd')" for fd' i
    unfolding h ex_new using holds_interest [OF assms(1), of fd' i] nofd by (cases "fd' = fd") auto
  moreover have "ps_ready ?ps"
  proof -
    have "\<exists>i<MAX_POLL_SET_CONNECTIONS. poll_connections ?ps ! i = r"
      if r: "r \<noteq> None" "i < MAX_POLL_SET_CONNECTIONS" "poll_connections ps ! i = r" for r i
      using r assms(3) by (intro exI [of _ i]) (cases "i = k"; simp add: filled_def)
    then show ?thesis using assms(1) by (auto simp: ps_inv_def ps_ready_def ready_members_def filled_def)
  qed
  moreover have "a < next_conn ?m" if "conns ?m a = Some c" for a c
    using that holds_fresh [OF assms(1), of a] by (auto simp: added_def less_Suc_eq split: if_splits)
  ultimately show ?thesis by (simp add: ps_inv_def ps_slots_def)
qed

lemma pending_not_fresh:
  assumes "ps_inv m ps" and "poll_scan_ongoing ps" and "Some a \<in> set (ready_members ps)"
  shows "a \<noteq> next_conn m"
  using pending_live [OF assms] holds_fresh [OF assms(1)] by (metis holds_def less_irrefl option.inject)

lemma add_abs:
  assumes "ps_inv m ps" and "k < MAX_POLL_SET_CONNECTIONS" and "poll_connections ps ! k = None" and "interest m fd = None"
  shows "abs_ps ((added m k fd obj)\<lparr>interest := (interest m)(fd \<mapsto> k)\<rparr>) (filled m ps k) =
    (abs_ps m ps)\<lparr>members := (members (abs_ps m ps))(fd \<mapsto> obj)\<rparr>" (is "abs_ps ?m ?ps = ?s")
proof (rule abs_eqI [OF add_inv [OF assms]])
  have h: "holds ?m ?ps i b c \<longleftrightarrow> (i = k \<and> b = next_conn m \<and> c = new_conn fd k obj) \<or> holds m ps i b c" for i b c
    using holds_added [OF assms(1-3), of fd obj i b c] by (simp add: holds_def)
  have nofd: "pc_fd c \<noteq> fd" if "holds m ps i b c" for i b c using that assms(4) holds_interest [OF assms(1), of "pc_fd c" i] by auto
  show "(\<exists>i a c. holds ?m ?ps i a c \<and> pc_fd c = fd' \<and> user_obj c = obj') \<longleftrightarrow> members ?s fd' = Some obj'" for fd' obj'
    unfolding h ex_new using members_iff [OF assms(1), of fd' obj'] nofd by (cases "fd' = fd") auto
  show "to_report (abs_ps ?m ?ps) = to_report ?s"
  proof (cases "poll_scan_ongoing ps")
    case True
    have e: "ready_members ?ps = ready_members ps" "poll_scan_ongoing ?ps" using True by (simp_all add: ready_members_def filled_def)
    have "conns ?m a = conns m a" if "Some a \<in> set (ready_members ps)" for a
      using pending_not_fresh [OF assms(1) True that] by (simp add: added_def)
    then have "{pc_fd c |a c. Some a \<in> set (ready_members ps) \<and> conns ?m a = Some c} = {pc_fd c |a c. Some a \<in> set (ready_members ps) \<and> conns m a = Some c}"
      by (intro Collect_cong ex_cong1) (metis (no_types, lifting))
    then show ?thesis using to_report_scan [OF True, of m] to_report_scan [OF e(2), of ?m] by (simp add: e(1))
  qed (simp add: abs_ps_def filled_def)
qed

section \<open>Removing\<close>

lemma swap_out:
  assumes "distinct (take n xs)" and "p < n" and "n \<le> length xs"
  shows "distinct (take (n - 1) (xs[p := xs ! (n - 1), n - 1 := y]))"
    and "set (take (n - 1) (xs[p := xs ! (n - 1), n - 1 := y])) = set (take n xs) - {xs ! p}"
proof -
  have n: "n = Suc (n - 1)" "n - 1 < length xs" using assms by simp_all
  then have t: "take n xs = take (n - 1) xs @ [xs ! (n - 1)]" by (metis take_Suc_conv_app_nth)
  have u: "take (n - 1) (xs[p := xs ! (n - 1), n - 1 := y]) = (take (n - 1) xs)[p := xs ! (n - 1)]"
    by (simp add: take_update_swap list_update_beyond)
  have d: "distinct (take (n - 1) xs)" "xs ! (n - 1) \<notin> set (take (n - 1) xs)" using assms(1) unfolding t by auto
  show "distinct (take (n - 1) (xs[p := xs ! (n - 1), n - 1 := y]))" unfolding u using d by (simp add: distinct_list_update)
  show "set (take (n - 1) (xs[p := xs ! (n - 1), n - 1 := y])) = set (take n xs) - {xs ! p}"
  proof (cases "p = n - 1")
    case True
    then show ?thesis unfolding u t using d n by (simp add: list_update_beyond)
  next
    case False
    then have p: "p < length (take (n - 1) xs)" using assms by simp
    have "xs ! p \<noteq> xs ! (n - 1)" using d(2) nth_mem [OF p] p by auto
    then show ?thesis unfolding u t set_update_distinct [OF d(1) p] using p by auto
  qed
qed

lemma other_of_holds:
  assumes "ps_inv m ps" and "holds m ps i a c" and "holds m ps j b d" and "b \<noteq> a"
  shows "other_conn m ok (pc_fd c) (Some b)"
  using same_slot [OF assms(1,3,2)] assms(3,4) by (auto simp: other_conn_def holds_def)

lemma slot_other:
  assumes "ps_inv m ps" and "holds m ps i a c" and "j < MAX_POLL_SET_CONNECTIONS" and "poll_connections ps ! j \<noteq> Some a"
  shows "other_conn m True (pc_fd c) (poll_connections ps ! j)"
proof (cases "poll_connections ps ! j")
  case (Some b)
  obtain d where d: "holds m ps j b d" by (rule slot_live [OF assms(1,3) Some])
  show ?thesis unfolding Some by (rule other_of_holds [OF assms(1,2) d]) (use assms(4) Some in simp)
qed (simp add: other_conn_def)

lemma drop_ready_ok:
  assumes "ps_inv m ps" and "holds m ps i a c"
  shows "\<exists>xs n. drop_ready m ps (pc_fd c) = Inr (ps\<lparr>ready_connections := xs, num_ready_connections := n\<rparr>) \<and> length xs = MAX_POLL_SET_CONNECTIONS \<and>
    (poll_scan_ongoing ps \<longrightarrow> n \<le> MAX_POLL_SET_CONNECTIONS \<and> distinct (take n xs) \<and> set (take n xs) = set (ready_members ps) - {Some a})"
proof (cases "poll_scan_ongoing ps")
  case False
  then show ?thesis
    using ps_shapeD(2) [OF assms(1)]
    by (intro exI [of _ "ready_connections ps"] exI [of _ "num_ready_connections ps"]) (simp add: drop_ready_def)
next
  case True
  note sh = ps_shapeD(2) [OF assms(1)] pending_bound [OF assms(1) True]
  have d: "distinct (ready_members ps)" using assms(1) True by (simp add: ps_inv_def ps_ready_def)
  have blk: "rd_blk (ready_connections ps) 0 (num_ready_connections ps) = Inr (ready_members ps)" using sh by (simp add: ready_members_def)
  have other: "other_conn m False (pc_fd c) r" if "r \<in> set (ready_members ps)" "r \<noteq> Some a" for r
    by (rule pending_live [OF assms(1) True that(1)]) (use other_of_holds [OF assms] that(2) in blast)
  show ?thesis
  proof (cases "Some a \<in> set (ready_members ps)")
    case False
    then have "find_fd m False (pc_fd c) (ready_members ps) 0 = Inr None" using other by (intro find_fd_none) blast
    then show ?thesis
      using d True False blk sh
      by (intro exI [of _ "ready_connections ps"] exI [of _ "num_ready_connections ps"]) (simp add: drop_ready_def ready_members_def)
  next
    case mem: True
    then obtain p where p: "p < length (ready_members ps)" "ready_members ps ! p = Some a" by (auto simp: in_set_conv_nth)
    have pn: "p < num_ready_connections ps" "ready_connections ps ! p = Some a" using p by (simp_all add: ready_members_def)
    have "find_fd m False (pc_fd c) (ready_members ps) 0 = Inr (Some (0 + p))"
    proof (rule find_fd_some [where a = a and c = c])
      show "other_conn m False (pc_fd c) (ready_members ps ! j)" if "j < p" for j
      proof (rule other)
        show "ready_members ps ! j \<in> set (ready_members ps)" using p(1) that by simp
        show "ready_members ps ! j \<noteq> Some a" using nth_eq_iff_index_eq [OF d, of j p] p that by simp
      qed
    qed (use p assms(2) in \<open>auto simp: holds_def\<close>)
    then have "drop_ready m ps (pc_fd c) = Inr (ps\<lparr>ready_connections :=
        (ready_connections ps)[p := ready_connections ps ! (num_ready_connections ps - 1), num_ready_connections ps - 1 := None],
        num_ready_connections := num_ready_connections ps - 1\<rparr>)"
      using True blk sh pn by (simp add: drop_ready_def Let_def)
    moreover have "distinct (take (num_ready_connections ps) (ready_connections ps))" using d by (simp add: ready_members_def)
    note swap_out [OF this pn(1), of None]
    ultimately show ?thesis
      using sh pn le_diff_conv [of "num_ready_connections ps" 1] by (intro exI conjI) (assumption, simp_all add: ready_members_def)
  qed
qed

text \<open>The state after the member at slot \<open>i\<close>, at address \<open>a\<close> and with descriptor \<open>fd\<close>, has been removed.\<close>

definition removed :: "ps_mem \<Rightarrow> nat \<Rightarrow> int \<Rightarrow> ps_mem" where
  "removed m a fd = m\<lparr>conns := (conns m)(a := None), interest := (interest m)(fd := None)\<rparr>"

definition cleared :: "ic_int_poll_set \<Rightarrow> nat \<Rightarrow> nat option list \<Rightarrow> nat \<Rightarrow> ic_int_poll_set" where
  "cleared ps i xs n = ps\<lparr>ready_connections := xs, num_ready_connections := n, poll_connections := (poll_connections ps)[i := None],
     num_poll_connections := num_poll_connections ps - 1\<rparr>"

lemma find_member:
  assumes "ps_inv m ps" and "holds m ps i a c"
  shows "find_fd m True (pc_fd c) (poll_connections ps) 0 = Inr (Some i)"
proof -
  have "find_fd m True (pc_fd c) (poll_connections ps) 0 = Inr (Some (0 + i))"
  proof (rule find_fd_some [where a = a and c = c])
    show "other_conn m True (pc_fd c) (poll_connections ps ! j)" if j: "j < i" for j
    proof (rule slot_other [OF assms])
      show l: "j < MAX_POLL_SET_CONNECTIONS" using j assms(2) by (simp add: holds_def)
      show "poll_connections ps ! j \<noteq> Some a"
      proof
        assume p: "poll_connections ps ! j = Some a"
        obtain d where "holds m ps j a d" by (rule slot_live [OF assms(1) l p])
        then show False using same_slot [OF assms, of j a d] j by auto
      qed
    qed
  qed (use assms(2) ps_shapeD(1) [OF assms(1)] in \<open>auto simp: holds_def\<close>)
  then show ?thesis by simp
qed

lemma remove_ok:
  assumes "ps_inv m ps" and "holds m ps i a c"
  obtains xs n where "epoll_poll_set_remove_connection 0 m ps (pc_fd c) = Inr (0, removed m a (pc_fd c), cleared ps i xs n)"
    "length xs = MAX_POLL_SET_CONNECTIONS"
    "poll_scan_ongoing ps \<Longrightarrow> n \<le> MAX_POLL_SET_CONNECTIONS \<and> distinct (take n xs) \<and> set (take n xs) = set (ready_members ps) - {Some a}"
proof -
  obtain xs n where d: "drop_ready m ps (pc_fd c) = Inr (ps\<lparr>ready_connections := xs, num_ready_connections := n\<rparr>)"
      "length xs = MAX_POLL_SET_CONNECTIONS"
      "poll_scan_ongoing ps \<longrightarrow> n \<le> MAX_POLL_SET_CONNECTIONS \<and> distinct (take n xs) \<and> set (take n xs) = set (ready_members ps) - {Some a}"
    using drop_ready_ok [OF assms] by blast
  note sh = ps_shapeD [OF assms(1)]
  have hi: "i < MAX_POLL_SET_CONNECTIONS" "poll_connections ps ! i = Some a" "conns m a = Some c" using assms(2) by (simp_all add: holds_def)
  have "interest m (pc_fd c) = Some i" using assms(2) holds_interest [OF assms(1)] by blast
  then have "epoll_poll_set_remove_connection 0 m ps (pc_fd c) = Inr (0, removed m a (pc_fd c), cleared ps i xs n)"
    using d(1) sh(1,3,4) hi find_member [OF assms]
    by (simp add: epoll_poll_set_remove_connection_def remove_connection_def remove_poll_set_member_def free_conn_def Let_def
        kernel_del_def removed_def cleared_def)
  then show ?thesis using d(2,3) that by blast
qed

lemma remove_absent:
  assumes "ps_inv m ps" and "interest m fd = None"
  shows "epoll_poll_set_remove_connection 0 m ps fd = Inr (IC_ERROR_NOT_FOUND_IN_POLL_SET, m, ps)"
proof -
  note sh = ps_shapeD [OF assms(1)]
  have oth: "other_conn m ok fd (Some a)" if "holds m ps i a c" for ok i a c
    using that assms(2) holds_interest [OF assms(1), of fd i] by (auto simp: other_conn_def holds_def)
  have "other_conn m True fd r" if r: "r \<in> set (poll_connections ps)" for r
  proof (cases r)
    case (Some a)
    obtain i where i: "i < MAX_POLL_SET_CONNECTIONS" "poll_connections ps ! i = Some a"
      using r Some sh(1) by (auto simp: in_set_conv_nth)
    obtain c where "holds m ps i a c" by (rule slot_live [OF assms(1) i])
    then show ?thesis unfolding Some by (rule oth)
  qed (simp add: other_conn_def)
  then have f: "find_fd m True fd (poll_connections ps) 0 = Inr None" by (rule find_fd_none)
  have "drop_ready m ps fd = Inr ps"
  proof (cases "poll_scan_ongoing ps")
    case True
    have "other_conn m False fd r" if "r \<in> set (ready_members ps)" for r
      by (rule pending_live [OF assms(1) True that]) (use oth in blast)
    then have "find_fd m False fd (ready_members ps) 0 = Inr None" by (rule find_fd_none)
    then show ?thesis using sh(2) pending_bound [OF assms(1) True] by (simp add: drop_ready_def ready_members_def)
  qed (simp add: drop_ready_def)
  then show ?thesis using f sh
    by (simp add: epoll_poll_set_remove_connection_def remove_connection_def remove_poll_set_member_def err_codes)
qed

lemma holds_removed:
  assumes "ps_inv m ps" and "holds m ps i a c"
  shows "holds (removed m a (pc_fd c)) (cleared ps i xs n) j b d \<longleftrightarrow> j \<noteq> i \<and> holds m ps j b d"
  using same_slot [OF assms, of j b d] ps_shapeD(1) [OF assms(1)] assms(2)
  by (auto simp: holds_def removed_def cleared_def nth_list_update split: if_splits)

lemma holds_fd_slot:
  assumes "ps_inv m ps" and "holds m ps i a c" and "holds m ps j b d"
  shows "pc_fd d = pc_fd c \<longleftrightarrow> j = i"
  using same_slot [OF assms] assms(2,3) by (auto simp: holds_def)

lemma remove_inv:
  assumes "ps_inv m ps" and "holds m ps i a c" and "length xs = MAX_POLL_SET_CONNECTIONS"
    and "poll_scan_ongoing ps \<Longrightarrow> n \<le> MAX_POLL_SET_CONNECTIONS \<and> distinct (take n xs) \<and> set (take n xs) = set (ready_members ps) - {Some a}"
  shows "ps_inv (removed m a (pc_fd c)) (cleared ps i xs n)" (is "ps_inv ?m ?ps")
proof -
  note h = holds_removed [OF assms(1,2), of xs n]
  note sh = ps_shapeD [OF assms(1)]
  have hi: "i < MAX_POLL_SET_CONNECTIONS" "poll_connections ps ! i = Some a" using assms(2) by (simp_all add: holds_def)
  have "ps_shape ?ps" using sh assms(3) hi count_clear [of i "poll_connections ps" a] by (simp add: ps_shape_def cleared_def)
  moreover have "\<exists>c. conns ?m b = Some c \<and> pc_index c = j" if st: "j < MAX_POLL_SET_CONNECTIONS" "poll_connections ?ps ! j = Some b" for j b
  proof -
    have j: "j \<noteq> i" "poll_connections ps ! j = Some b" using st(2) hi(1) sh(1) by (auto simp: cleared_def nth_list_update split: if_splits)
    obtain d where "holds m ps j b d" "pc_index d = j" by (rule slot_live [OF assms(1) st(1) j(2)])
    then show ?thesis using h [of j b d] j(1) by (auto simp: holds_def)
  qed
  moreover have "interest ?m fd = Some j \<longleftrightarrow> (\<exists>b d. holds ?m ?ps j b d \<and> pc_fd d = fd)" for fd j
  proof -
    have "(\<exists>b d. holds ?m ?ps j b d \<and> pc_fd d = fd) \<longleftrightarrow> fd \<noteq> pc_fd c \<and> (\<exists>b d. holds m ps j b d \<and> pc_fd d = fd)"
      unfolding h using holds_fd_slot [OF assms(1,2)] by blast
    then show ?thesis using holds_interest [OF assms(1), of fd j] by (simp add: removed_def)
  qed
  moreover have "ps_ready ?ps"
  proof (cases "poll_scan_ongoing ps")
    case True
    have "r \<noteq> None \<and> (\<exists>j<MAX_POLL_SET_CONNECTIONS. poll_connections ?ps ! j = r)" if r: "r \<in> set (ready_members ps)" "r \<noteq> Some a" for r
    proof -
      obtain b j d where b: "r = Some b" "holds m ps j b d" by (rule pending_live [OF assms(1) True r(1)])
      have "j \<noteq> i" using b hi r(2) by (auto simp: holds_def)
      then show ?thesis using b h [of j b d] by (auto simp: holds_def)
    qed
    then show ?thesis using assms(4) [OF True] by (simp add: ps_ready_def ready_members_def cleared_def)
  qed (simp add: ps_ready_def cleared_def)
  moreover have "b < next_conn ?m" if "conns ?m b = Some d" for b d
    using that holds_fresh [OF assms(1), of b d] by (simp add: removed_def split: if_splits)
  ultimately show ?thesis by (simp add: ps_inv_def ps_slots_def)
qed

lemma remove_abs:
  assumes "ps_inv m ps" and "holds m ps i a c" and "length xs = MAX_POLL_SET_CONNECTIONS"
    and "poll_scan_ongoing ps \<Longrightarrow> n \<le> MAX_POLL_SET_CONNECTIONS \<and> distinct (take n xs) \<and> set (take n xs) = set (ready_members ps) - {Some a}"
  shows "abs_ps (removed m a (pc_fd c)) (cleared ps i xs n) =
    \<lparr>members = (members (abs_ps m ps))(pc_fd c := None), to_report = map_option (\<lambda>R. R - {pc_fd c}) (to_report (abs_ps m ps))\<rparr>"
    (is "abs_ps ?m ?ps = ?s")
proof (rule abs_eqI [OF remove_inv [OF assms]])
  note h = holds_removed [OF assms(1,2), of xs n]
  have "(\<exists>j b d. holds ?m ?ps j b d \<and> pc_fd d = fd \<and> user_obj d = obj) \<longleftrightarrow>
      fd \<noteq> pc_fd c \<and> (\<exists>j b d. holds m ps j b d \<and> pc_fd d = fd \<and> user_obj d = obj)" for fd obj
    unfolding h using holds_fd_slot [OF assms(1,2)] by blast
  then show "(\<exists>j b d. holds ?m ?ps j b d \<and> pc_fd d = fd \<and> user_obj d = obj) \<longleftrightarrow> members ?s fd = Some obj" for fd obj
    using members_iff [OF assms(1), of fd obj] by simp
  show "to_report (abs_ps ?m ?ps) = to_report ?s"
  proof (cases "poll_scan_ongoing ps")
    case True
    have sc: "poll_scan_ongoing ?ps" using True by (simp add: cleared_def)
    have pd: "set (ready_members ?ps) = set (ready_members ps) - {Some a}" using assms(4) [OF True] by (simp add: ready_members_def cleared_def)
    have e: "(Some b \<in> set (ready_members ?ps) \<and> conns ?m b = Some d) \<longleftrightarrow> (Some b \<in> set (ready_members ps) \<and> conns m b = Some d \<and> pc_fd d \<noteq> pc_fd c)" for b d
    proof (cases "Some b \<in> set (ready_members ps)")
      case bp: True
      obtain b' j d' where "Some b = Some b'" "holds m ps j b' d'" by (rule pending_live [OF assms(1) True bp])
      then have hb: "holds m ps j b d'" by simp
      show ?thesis using same_slot [OF assms(1) hb assms(2)] hb assms(2) bp unfolding pd by (auto simp: holds_def removed_def)
    qed (simp add: pd)
    have "{pc_fd d |b d. Some b \<in> set (ready_members ?ps) \<and> conns ?m b = Some d} =
        {pc_fd d |b d. Some b \<in> set (ready_members ps) \<and> conns m b = Some d} - {pc_fd c}"
      unfolding e by auto
    then show ?thesis using to_report_scan [OF sc, of ?m] to_report_scan [OF True, of m] by simp
  qed (simp add: abs_ps_def cleared_def)
qed

section \<open>Checking and reporting\<close>

definition same_but_rc :: "ps_mem \<Rightarrow> ps_mem \<Rightarrow> bool" where
  "same_but_rc m m' \<longleftrightarrow> interest m' = interest m \<and> next_conn m' = next_conn m \<and>
     (\<forall>a. map_option (\<lambda>c. c\<lparr>pc_ret_code := 0\<rparr>) (conns m' a) = map_option (\<lambda>c. c\<lparr>pc_ret_code := 0\<rparr>) (conns m a))"

lemma same_but_rcD:
  assumes "same_but_rc m m'" and "conns m' a = Some c'"
  obtains c where "conns m a = Some c" "pc_fd c = pc_fd c'" "pc_index c = pc_index c'" "user_obj c = user_obj c'"
proof -
  obtain c where c: "conns m a = Some c" "c\<lparr>pc_ret_code := 0\<rparr> = c'\<lparr>pc_ret_code := 0\<rparr>"
    using assms unfolding same_but_rc_def by (metis (mono_tags, lifting) map_option_eq_Some option.simps(9))
  then show ?thesis using that [of c] by (cases c, cases c') simp
qed

lemma same_but_rc_sym: "same_but_rc m m' \<Longrightarrow> same_but_rc m' m"
  by (simp add: same_but_rc_def)

lemma same_but_rc_holds:
  assumes "same_but_rc m m'"
  shows "(\<exists>a c. holds m' ps i a c \<and> P a (pc_fd c) (pc_index c) (user_obj c)) \<longleftrightarrow> (\<exists>a c. holds m ps i a c \<and> P a (pc_fd c) (pc_index c) (user_obj c))"
  unfolding holds_def using same_but_rcD [OF assms] same_but_rcD [OF same_but_rc_sym [OF assms]] by metis

lemma same_but_rc_refl [simp]: "same_but_rc m m"
  by (simp add: same_but_rc_def)

lemma same_but_rc_trans: "same_but_rc m m' \<Longrightarrow> same_but_rc m' m'' \<Longrightarrow> same_but_rc m m''"
  by (simp add: same_but_rc_def)

lemma same_but_rc_inv:
  assumes "ps_inv m ps" and "same_but_rc m m'" shows "ps_inv m' ps"
proof -
  have "\<exists>c. conns m' a = Some c \<and> pc_index c = i" if st: "i < MAX_POLL_SET_CONNECTIONS" "poll_connections ps ! i = Some a" for i a
  proof -
    obtain c where "holds m ps i a c" "pc_index c = i" by (rule slot_live [OF assms(1) st])
    then have "conns m a = Some c" "pc_index c = i" by (simp_all add: holds_def)
    then show ?thesis using same_but_rcD [OF same_but_rc_sym [OF assms(2)], of a c] by metis
  qed
  moreover have "interest m' fd = Some i \<longleftrightarrow> (\<exists>a c. holds m' ps i a c \<and> pc_fd c = fd)" for fd i
    using same_but_rc_holds [OF assms(2), of ps i "\<lambda>a f x u. f = fd"] holds_interest [OF assms(1), of fd i] assms(2)
    by (simp add: same_but_rc_def)
  moreover have "a < next_conn m'" if cn: "conns m' a = Some c" for a c
  proof -
    obtain d where "conns m a = Some d" by (rule same_but_rcD [OF assms(2) cn])
    then show ?thesis using holds_fresh [OF assms(1), of a d] assms(2) by (simp add: same_but_rc_def)
  qed
  ultimately show ?thesis using assms(1) by (simp add: ps_inv_def ps_slots_def)
qed

lemma set_rc_ok:
  assumes "conns m a = Some c"
  shows "\<exists>m'. set_conn_rc m (Some a) 0 = Inr m' \<and> same_but_rc m m'"
  using assms by (auto simp: set_conn_rc_def same_but_rc_def)

text \<open>The loop copies the slots named by the events into \<^verbatim>\<open>ready_connections\<close>.\<close>

lemma epoll_loop_ok:
  assumes "length (poll_connections ps) = MAX_POLL_SET_CONNECTIONS" and "length (ready_connections ps) = MAX_POLL_SET_CONNECTIONS"
    and "\<forall>e\<in>set es. e < MAX_POLL_SET_CONNECTIONS \<and> (\<exists>a c. poll_connections ps ! e = Some a \<and> conns m a = Some c)"
    and "i + length es \<le> MAX_POLL_SET_CONNECTIONS"
  shows "\<exists>m' xs. epoll_loop m ps i es = Inr (m', ps\<lparr>ready_connections := xs\<rparr>) \<and> length xs = MAX_POLL_SET_CONNECTIONS \<and>
    same_but_rc m m' \<and> take (i + length es) xs = take i (ready_connections ps) @ map ((!) (poll_connections ps)) es"
  using assms
proof (induction es arbitrary: m ps i)
  case Nil
  then show ?case by (intro exI [of _ m] exI [of _ "ready_connections ps"]) simp
next
  case (Cons e es)
  obtain a c where e: "e < MAX_POLL_SET_CONNECTIONS" "poll_connections ps ! e = Some a" "conns m a = Some c" using Cons.prems(3) by auto
  obtain m1 where m1: "set_conn_rc m (Some a) 0 = Inr m1" "same_but_rc m m1" using set_rc_ok [OF e(3)] by blast
  let ?ps = "ps\<lparr>ready_connections := (ready_connections ps)[i := Some a]\<rparr>"
  have live: "\<forall>e\<in>set es. e < MAX_POLL_SET_CONNECTIONS \<and> (\<exists>a c. poll_connections ?ps ! e = Some a \<and> conns m1 a = Some c)"
  proof
    fix x assume "x \<in> set es"
    then obtain b d where b: "x < MAX_POLL_SET_CONNECTIONS" "poll_connections ps ! x = Some b" "conns m b = Some d" using Cons.prems(3) by auto
    obtain d' where "conns m1 b = Some d'" by (rule same_but_rcD [OF same_but_rc_sym [OF m1(2)] b(3)])
    then show "x < MAX_POLL_SET_CONNECTIONS \<and> (\<exists>a c. poll_connections ?ps ! x = Some a \<and> conns m1 a = Some c)" using b by simp
  qed
  have i: "i < length (ready_connections ps)" "(i + 1) + length es \<le> MAX_POLL_SET_CONNECTIONS" using Cons.prems(2,4) by simp_all
  obtain m' xs where r: "epoll_loop m1 ?ps (i + 1) es = Inr (m', ps\<lparr>ready_connections := xs\<rparr>)" "length xs = MAX_POLL_SET_CONNECTIONS"
      "same_but_rc m1 m'" "take (i + 1 + length es) xs = take (i + 1) ((ready_connections ps)[i := Some a]) @ map ((!) (poll_connections ps)) es"
    using Cons.IH [of ?ps m1 "i + 1"] Cons.prems(1,2) live i(2) by auto
  have t: "take (i + 1) ((ready_connections ps)[i := Some a]) = take i (ready_connections ps) @ [Some a]"
    using i(1) by (simp add: take_Suc_conv_app_nth take_update_swap list_update_append)
  have "epoll_loop m ps i (e # es) = Inr (m', ps\<lparr>ready_connections := xs\<rparr>)" using e Cons.prems(1) i(1) m1(1) r(1) by simp
  moreover have "take (i + length (e # es)) xs = take i (ready_connections ps) @ map ((!) (poll_connections ps)) (e # es)"
    using r(4) t e(2) by simp
  ultimately show ?case using r(2) same_but_rc_trans [OF m1(2) r(3)] by blast
qed

lemma events_ok:
  assumes "ps_inv m ps" and "distinct fds"
  shows "distinct (events m fds)" and "length (events m fds) \<le> MAX_POLL_SET_CONNECTIONS"
    and "e \<in> set (events m fds) \<longleftrightarrow> (\<exists>a c. holds m ps e a c \<and> pc_fd c \<in> set fds)"
proof -
  have mem: "e \<in> set (events m fds) \<longleftrightarrow> (\<exists>fd\<in>set fds. interest m fd = Some e)" for e
    by (induction fds) (auto simp: events_def map_filter_simps split: option.splits)
  show iff: "e \<in> set (events m fds) \<longleftrightarrow> (\<exists>a c. holds m ps e a c \<and> pc_fd c \<in> set fds)" for e
    unfolding mem holds_interest [OF assms(1)] by blast
  have inj: "fd = fd'" if "interest m fd = Some i" "interest m fd' = Some i" for fd fd' i
    using that holds_interest [OF assms(1)] by (auto simp: holds_def)
  have "distinct (List.map_filter (interest m) xs)" if "distinct xs" for xs
    using that
  proof (induction xs)
    case (Cons x xs)
    show ?case
    proof (cases "interest m x")
      case (Some i)
      have "i \<notin> set (List.map_filter (interest m) xs)"
        using Cons.prems inj [OF Some] by (auto simp: map_filter_def)
      then show ?thesis using Cons Some by (simp add: map_filter_simps)
    qed (use Cons in \<open>simp add: map_filter_simps\<close>)
  qed (simp add: map_filter_simps)
  then show d: "distinct (events m fds)" using assms(2) by (simp add: events_def)
  have "set (events m fds) \<subseteq> {..<MAX_POLL_SET_CONNECTIONS}" using iff by (auto simp: holds_def)
  then show "length (events m fds) \<le> MAX_POLL_SET_CONNECTIONS"
    using card_mono [of "{..<MAX_POLL_SET_CONNECTIONS}" "set (events m fds)"] distinct_card [OF d] by simp
qed


lemma check_report:
  assumes "ps_inv m ps" and "distinct fds" and "es = events m fds"
  shows "\<exists>m' xs. epoll_loop m ps 0 es = Inr (m', ps\<lparr>ready_connections := xs\<rparr>) \<and>
    ps_inv m' (ps\<lparr>ready_connections := xs, num_ready_connections := length es, poll_scan_ongoing := True\<rparr>) \<and>
    abs_ps m' (ps\<lparr>ready_connections := xs, num_ready_connections := length es, poll_scan_ongoing := True\<rparr>) =
      (abs_ps m ps)\<lparr>to_report := Some (set fds \<inter> dom (members (abs_ps m ps)))\<rparr>"
proof -
  note ev = events_ok [OF assms(1,2), folded assms(3)]
  have live: "\<forall>e\<in>set es. e < MAX_POLL_SET_CONNECTIONS \<and> (\<exists>a c. poll_connections ps ! e = Some a \<and> conns m a = Some c)"
    using ev(3) by (auto simp: holds_def)
  obtain m' xs where l: "epoll_loop m ps 0 es = Inr (m', ps\<lparr>ready_connections := xs\<rparr>)" "length xs = MAX_POLL_SET_CONNECTIONS"
      "same_but_rc m m'" "take (length es) xs = map ((!) (poll_connections ps)) es"
    using epoll_loop_ok [OF ps_shapeD(1,2) [OF assms(1)] live, of 0] ev(2) by auto
  let ?ps = "ps\<lparr>ready_connections := xs, num_ready_connections := length es, poll_scan_ongoing := True\<rparr>"
  have pd: "ready_members ?ps = map ((!) (poll_connections ps)) es" using l(4) by (simp add: ready_members_def)
  have hd: "holds m' ?ps = holds m' ps" by (simp add: holds_def fun_eq_iff)
  have inj: "distinct (map ((!) (poll_connections ps)) es)"
  proof (rule distinct_map [THEN iffD2], intro conjI ev(1) inj_onI)
    fix x y assume "x \<in> set es" "y \<in> set es" and eq: "poll_connections ps ! x = poll_connections ps ! y"
    then obtain a c b d where h: "holds m ps x a c" "holds m ps y b d" using ev(3) by blast
    have "a = b" using h eq by (simp add: holds_def)
    then show "x = y" using same_slot [OF assms(1) h] by blast
  qed
  have iv: "ps_inv m' ps" by (rule same_but_rc_inv [OF assms(1) l(3)])
  have "ps_shape ?ps" using ps_shapeD [OF assms(1)] l(2) by (simp add: ps_shape_def)
  moreover have "ps_slots m' ?ps" using iv hd by (simp add: ps_inv_def ps_slots_def)
  moreover have "ps_ready ?ps" unfolding ps_ready_def pd using inj live ev(2) by auto
  moreover have "\<forall>a c. conns m' a = Some c \<longrightarrow> a < next_conn m'" using holds_fresh [OF iv] by blast
  ultimately have inv: "ps_inv m' ?ps" by (simp add: ps_inv_def)
  have ab: "abs_ps m' ?ps = (abs_ps m ps)\<lparr>to_report := Some (set fds \<inter> dom (members (abs_ps m ps)))\<rparr>"
  proof (rule abs_eqI [OF inv])
    show "(\<exists>i a c. holds m' ?ps i a c \<and> pc_fd c = fd \<and> user_obj c = obj) \<longleftrightarrow>
        members ((abs_ps m ps)\<lparr>to_report := Some (set fds \<inter> dom (members (abs_ps m ps)))\<rparr>) fd = Some obj" for fd obj
      unfolding hd using same_but_rc_holds [OF l(3), of ps _ "\<lambda>a f x u. f = fd \<and> u = obj"] members_iff [OF assms(1), of fd obj] by simp
    have "{pc_fd c |a c. Some a \<in> set (ready_members ?ps) \<and> conns m' a = Some c} = set fds \<inter> dom (members (abs_ps m ps))"
    proof (intro set_eqI iffI)
      fix fd assume "fd \<in> {pc_fd c |a c. Some a \<in> set (ready_members ?ps) \<and> conns m' a = Some c}"
      then obtain a c' e where a: "fd = pc_fd c'" "conns m' a = Some c'" "e \<in> set es" "poll_connections ps ! e = Some a" unfolding pd by auto
      obtain c where c: "conns m a = Some c" "pc_fd c = pc_fd c'" by (rule same_but_rcD [OF l(3) a(2)])
      obtain b d where h: "holds m ps e b d" "pc_fd d \<in> set fds" using a(3) ev(3) by blast
      have "d = c" using h(1) a(4) c(1) by (simp add: holds_def)
      then show "fd \<in> set fds \<inter> dom (members (abs_ps m ps))" using h a(1) c(2) members_holds [OF assms(1) h(1)] by auto
    next
      fix fd assume fd: "fd \<in> set fds \<inter> dom (members (abs_ps m ps))"
      then obtain obj where "members (abs_ps m ps) fd = Some obj" by blast
      then obtain i a c where h: "holds m ps i a c" "pc_fd c = fd" using members_iff [OF assms(1)] by blast
      then have "i \<in> set es" using ev(3) fd by blast
      then have "Some a \<in> set (ready_members ?ps)" using h(1) unfolding pd set_map holds_def by (metis imageI)
      moreover obtain c' where "conns m' a = Some c'" "pc_fd c = pc_fd c'"
        using same_but_rcD [OF same_but_rc_sym [OF l(3)], of a c] h(1) by (metis holds_def)
      ultimately show "fd \<in> {pc_fd c |a c. Some a \<in> set (ready_members ?ps) \<and> conns m' a = Some c}" using h(2) by blast
    qed
    then show "to_report (abs_ps m' ?ps) = to_report ((abs_ps m ps)\<lparr>to_report := Some (set fds \<inter> dom (members (abs_ps m ps)))\<rparr>)"
      using to_report_scan [of ?ps m'] by simp
  qed
  show ?thesis using l(1) inv ab by blast
qed

lemma next_report:
  assumes "ps_inv m ps" and "poll_scan_ongoing ps" and "0 < num_ready_connections ps"
  obtains a i c where "ready_connections ps ! (num_ready_connections ps - 1) = Some a" "holds m ps i a c" "Some a \<in> set (ready_members ps)"
    "ps_inv m (ps\<lparr>num_ready_connections := num_ready_connections ps - 1\<rparr>)"
    "abs_ps m (ps\<lparr>num_ready_connections := num_ready_connections ps - 1\<rparr>) =
       (abs_ps m ps)\<lparr>to_report := map_option (\<lambda>R. R - {pc_fd c}) (to_report (abs_ps m ps))\<rparr>"
proof -
  let ?n = "num_ready_connections ps - 1"
  let ?ps = "ps\<lparr>num_ready_connections := ?n\<rparr>"
  have b: "?n < length (ready_connections ps)" "num_ready_connections ps = Suc ?n"
    using pending_bound [OF assms(1,2)] ps_shapeD(2) [OF assms(1)] assms(3) by simp_all
  have pd: "ready_members ps = ready_members ?ps @ [ready_connections ps ! ?n]"
    using take_Suc_conv_app_nth [OF b(1)] b(2) by (simp add: ready_members_def)
  have dis: "distinct (ready_members ps)" using assms(1,2) by (simp add: ps_inv_def ps_ready_def)
  have "ready_connections ps ! ?n \<in> set (ready_members ps)" unfolding pd by simp
  then obtain a i c where a: "ready_connections ps ! ?n = Some a" "holds m ps i a c" by (rule pending_live [OF assms(1,2)])
  have hd: "holds m ?ps = holds m ps" by (simp add: holds_def fun_eq_iff)
  have "ps_ready ?ps"
    using assms(1,2) b(2) unfolding ps_inv_def ps_ready_def pd by simp
  then have inv: "ps_inv m ?ps" using assms(1) hd by (simp add: ps_inv_def ps_shape_def ps_slots_def)
  have e: "(Some x \<in> set (ready_members ?ps) \<and> conns m x = Some d) \<longleftrightarrow> (Some x \<in> set (ready_members ps) \<and> conns m x = Some d \<and> pc_fd d \<noteq> pc_fd c)" for x d
  proof (cases "Some x \<in> set (ready_members ps)")
    case True
    obtain x' j d' where "Some x = Some x'" "holds m ps j x' d'" by (rule pending_live [OF assms(1,2) True])
    then have hx: "holds m ps j x d'" by simp
    have "Some x \<in> set (ready_members ?ps) \<longleftrightarrow> x \<noteq> a" using True dis unfolding pd a(1) by auto
    then show ?thesis using same_slot [OF assms(1) hx a(2)] hx a(2) True by (auto simp: holds_def)
  qed (simp add: pd)
  have "abs_ps m ?ps = (abs_ps m ps)\<lparr>to_report := map_option (\<lambda>R. R - {pc_fd c}) (to_report (abs_ps m ps))\<rparr>"
  proof (rule abs_eqI [OF inv])
    show "(\<exists>i a d. holds m ?ps i a d \<and> pc_fd d = fd \<and> user_obj d = obj) \<longleftrightarrow>
        members ((abs_ps m ps)\<lparr>to_report := map_option (\<lambda>R. R - {pc_fd c}) (to_report (abs_ps m ps))\<rparr>) fd = Some obj" for fd obj
      unfolding hd using members_iff [OF assms(1), of fd obj] by simp
    have "{pc_fd d |x d. Some x \<in> set (ready_members ?ps) \<and> conns m x = Some d} =
        {pc_fd d |x d. Some x \<in> set (ready_members ps) \<and> conns m x = Some d} - {pc_fd c}"
      unfolding e by auto
    then show "to_report (abs_ps m ?ps) = to_report ((abs_ps m ps)\<lparr>to_report := map_option (\<lambda>R. R - {pc_fd c}) (to_report (abs_ps m ps))\<rparr>)"
      using to_report_scan [of ?ps m] to_report_scan [OF assms(2), of m] assms(2) by simp
  qed
  then show ?thesis using that [OF a] inv a(1) pd by auto
qed

section \<open>One operation\<close>

lemma get_conn_interest [simp]: "get_conn (m\<lparr>interest := x\<rparr>) r = get_conn m r"
  by (cases r) (simp_all add: get_conn_def)

lemma find_fd_interest [simp]: "find_fd (m\<lparr>interest := x\<rparr>) null_ok fd rs i = find_fd m null_ok fd rs i"
  by (induction rs arbitrary: i; cases null_ok) (simp_all cong: if_cong)

text \<open>When the kernel refuses a descriptor, the member is taken out again.\<close>

lemma undo_add:
  assumes "ps_inv m ps" and "k < MAX_POLL_SET_CONNECTIONS" and "poll_connections ps ! k = None" and "interest m fd = None"
  shows "remove_poll_set_member (added m k fd obj) (filled m ps k) fd = Inr (0, Some k, m\<lparr>next_conn := next_conn m + 1\<rparr>, ps)"
proof -
  let ?m = "added m k fd obj" and ?ps = "filled m ps k"
  let ?mi = "?m\<lparr>interest := (interest m)(fd \<mapsto> k)\<rparr>"
  have "holds ?mi ?ps k (next_conn m) (new_conn fd k obj)"
    using holds_added [OF assms(1-3), of fd obj k "next_conn m" "new_conn fd k obj"] by (simp add: holds_def)
  from find_member [OF add_inv [OF assms] this]
  have f: "find_fd ?m True fd (poll_connections ?ps) 0 = Inr (Some k)" by simp
  have d: "drop_ready ?m ?ps fd = Inr ?ps"
  proof (cases "poll_scan_ongoing ps")
    case True
    have "other_conn ?m False fd r" if r: "r \<in> set (ready_members ps)" for r
    proof -
      obtain b i c where b: "r = Some b" "holds m ps i b c" by (rule pending_live [OF assms(1) True r])
      have "b \<noteq> next_conn m" using holds_fresh [OF assms(1), of b c] b(2) by (auto simp: holds_def)
      moreover have "pc_fd c \<noteq> fd" using b(2) assms(4) holds_interest [OF assms(1), of "pc_fd c" i] by auto
      ultimately show ?thesis using b by (simp add: other_conn_def added_def holds_def)
    qed
    then have "find_fd ?m False fd (ready_members ps) 0 = Inr None" by (rule find_fd_none)
    then show ?thesis
      using True pending_bound [OF assms(1) True] ps_shapeD(2) [OF assms(1)] by (simp add: drop_ready_def filled_def ready_members_def)
  qed (simp add: drop_ready_def filled_def)
  have n: "conns m (next_conn m) = None" using holds_fresh [OF assms(1), of "next_conn m"] by (cases "conns m (next_conn m)") auto
  have l: "(poll_connections ps)[k := None] = poll_connections ps" "(conns m)(next_conn m := None) = conns m"
    using assms(3) n list_update_id [of "poll_connections ps" k] by (simp_all add: fun_upd_idem)
  show ?thesis
    using d f l ps_shapeD [OF assms(1)] assms(2)
    by (simp add: remove_poll_set_member_def free_conn_def Let_def filled_def added_def)
qed

lemma add_outcome:
  assumes "ps_inv m ps" and "interest m fd = None"
  shows "\<exists>r m' ps'. ps_step (PAdd rc ok fd obj) (m, ps) = Inr (r, m', ps') \<and> ps_inv m' ps' \<and> spec_step (abs_ps m ps) (PAdd rc ok fd obj) r (abs_ps m' ps')"
proof (cases "num_poll_connections ps = MAX_POLL_SET_CONNECTIONS")
  case True
  then have "ps_step (PAdd rc ok fd obj) (m, ps) = Inr (RCode IC_ERROR_POLL_SET_FULL, m, ps)"
    using ps_shapeD(3) [OF assms(1)]
    by (simp add: ps_step_def epoll_poll_set_add_connection_def add_connection_def add_poll_set_member_def)
  moreover have "card (dom (members (abs_ps m ps))) = MAX_POLL_SET_CONNECTIONS" using card_members [OF assms(1)] True by simp
  ultimately show ?thesis using assms(1) add_full by blast
next
  case False
  then have l: "num_poll_connections ps < MAX_POLL_SET_CONNECTIONS" using num_poll_bound [OF assms(1)] by simp
  then have cd: "card (dom (members (abs_ps m ps))) < MAX_POLL_SET_CONNECTIONS" using card_members [OF assms(1)] by simp
  obtain k where k: "k < MAX_POLL_SET_CONNECTIONS" "poll_connections ps ! k = None" "\<And>j. j < k \<Longrightarrow> poll_connections ps ! j \<noteq> None"
    by (rule hole [OF assms(1) l]) blast
  show ?thesis
  proof (cases ok)
    case False
    then have "ps_step (PAdd rc ok fd obj) (m, ps) = Inr (RCode IC_ERROR_MEM_ALLOC, m, ps)"
      using ps_shapeD(3) [OF assms(1)] l
      by (simp add: ps_step_def epoll_poll_set_add_connection_def add_connection_def add_poll_set_member_def)
    then show ?thesis using assms(1) add_mem [OF cd, of rc fd obj] False by auto
  next
    case True
    note am = add_member [OF assms(1) k, of fd obj]
    show ?thesis
    proof (cases "rc = 0")
      case True
      have "ps_step (PAdd rc ok fd obj) (m, ps) = Inr (RCode 0, (added m k fd obj)\<lparr>interest := (interest m)(fd \<mapsto> k)\<rparr>, filled m ps k)"
        using am \<open>ok\<close> True assms(2)
        by (simp add: ps_step_def epoll_poll_set_add_connection_def add_connection_def index_tag_def kernel_add_def added_def)
      then show ?thesis using add_inv [OF assms(1) k(1,2) assms(2), of obj] add_abs [OF assms(1) k(1,2) assms(2), of obj] spec_step.add_ok [OF cd, of fd obj] \<open>ok\<close> True
        by auto
    next
      case False
      have inv2: "ps_inv (m\<lparr>next_conn := next_conn m + 1\<rparr>) ps"
        using assms(1) less_SucI by (auto simp: ps_inv_def ps_slots_def holds_def)
      have ab2: "abs_ps (m\<lparr>next_conn := next_conn m + 1\<rparr>) ps = abs_ps m ps" by (simp add: abs_ps_def cong: option.case_cong)
      have rm: "remove_poll_set_member (added m k fd obj) (filled m ps k) fd = Inr (0, Some k, m\<lparr>next_conn := next_conn m + 1\<rparr>, ps)" by (rule undo_add [OF assms(1) k(1,2) assms(2)])
      have "ps_step (PAdd rc ok fd obj) (m, ps) = Inr (RCode rc, m\<lparr>next_conn := next_conn m + 1\<rparr>, ps)"
        using am \<open>ok\<close> False rm
        by (simp add: ps_step_def epoll_poll_set_add_connection_def add_connection_def index_tag_def kernel_add_def)
      then show ?thesis using inv2 ab2 add_kernel [OF cd False] \<open>ok\<close> by auto
    qed
  qed
qed


lemma scan_off_inv: "ps_inv m ps \<Longrightarrow> ps_inv m (ps\<lparr>poll_scan_ongoing := False\<rparr>)"
  by (simp add: ps_inv_def ps_shape_def ps_slots_def ps_ready_def holds_def)

lemma poll_step_refines:
  assumes "ps_inv m ps" and "ps_op_ok (abs_ps m ps) op"
  shows "\<exists>r m' ps'. ps_step op (m, ps) = Inr (r, m', ps') \<and> ps_inv m' ps' \<and> spec_step (abs_ps m ps) op r (abs_ps m' ps')"
proof (cases op)
  case (PAdd rc ok fd obj)
  then have "interest m fd = None" using assms members_none [OF assms(1), of fd] by (simp add: ps_op_ok_def)
  then show ?thesis unfolding PAdd by (rule add_outcome [OF assms(1)])
next
  case (PRemove fd)
  show ?thesis
  proof (cases "interest m fd")
    case None
    then have "ps_step op (m, ps) = Inr (RCode IC_ERROR_NOT_FOUND_IN_POLL_SET, m, ps)"
      using remove_absent [OF assms(1) None] PRemove by (simp add: ps_step_def)
    then show ?thesis using assms(1) spec_step.remove_absent members_none [OF assms(1), of fd] None PRemove by blast
  next
    case (Some i)
    obtain a c where h: "holds m ps i a c" "pc_fd c = fd" by (rule members_some [OF assms(1) Some])
    obtain xs n where r: "epoll_poll_set_remove_connection 0 m ps (pc_fd c) = Inr (0, removed m a (pc_fd c), cleared ps i xs n)"
      "length xs = MAX_POLL_SET_CONNECTIONS"
      "poll_scan_ongoing ps \<Longrightarrow> n \<le> MAX_POLL_SET_CONNECTIONS \<and> distinct (take n xs) \<and> set (take n xs) = set (ready_members ps) - {Some a}"
      by (rule remove_ok [OF assms(1) h(1)]) blast
    have "ps_step op (m, ps) = Inr (RCode 0, removed m a fd, cleared ps i xs n)" using r(1) h(2) PRemove by (simp add: ps_step_def)
    moreover have "members (abs_ps m ps) fd \<noteq> None" using members_none [OF assms(1), of fd] Some by simp
    ultimately show ?thesis
      using remove_inv [OF assms(1) h(1) r(2,3)] remove_abs [OF assms(1) h(1) r(2,3)] spec_step.remove_ok [of "abs_ps m ps" fd] h(2) PRemove
      by (intro exI [of _ "RCode 0"] exI [of _ "removed m a fd"] exI [of _ "cleared ps i xs n"]) simp
  qed
next
  case (PCheck out)
  have rep: "\<exists>m' ps'. ps_step op (m, ps) = Inr (RCode 0, m', ps') \<and> ps_inv m' ps' \<and>
      abs_ps m' ps' = (abs_ps m ps)\<lparr>to_report := Some (set fds \<inter> dom (members (abs_ps m ps)))\<rparr>"
    if fds: "distinct fds" "out = Inr fds \<or> out = Inl EINTR_ERR \<and> fds = []" for fds
  proof -
    have "epoll_check_poll_set out m ps = c_bind (epoll_loop m ps 0 (events m fds)) (\<lambda>(m', ps').
        Inr (0, m', ps'\<lparr>num_ready_connections := length (events m fds), poll_scan_ongoing := True\<rparr>))"
      using fds(2) by (auto simp: epoll_check_poll_set_def Let_def events_def map_filter_simps)
    then show ?thesis using check_report [OF assms(1) fds(1) refl] PCheck by (auto simp: ps_step_def)
  qed
  show ?thesis
  proof (cases out)
    case (Inr fds)
    then have "distinct fds" using assms(2) PCheck by (simp add: ps_op_ok_def)
    then show ?thesis using rep [of fds] Inr spec_step.check_ok [of "abs_ps m ps" fds] PCheck by fastforce
  next
    case (Inl e)
    show ?thesis
    proof (cases "e = EINTR_ERR")
      case True
      then show ?thesis using rep [of "[]"] Inl spec_step.check_intr [of "abs_ps m ps"] PCheck by fastforce
    next
      case False
      let ?ps = "ps\<lparr>poll_scan_ongoing := False\<rparr>"
      have "ps_step op (m, ps) = Inr (RCode e, m, ?ps)" using False Inl PCheck by (simp add: ps_step_def epoll_check_poll_set_def Let_def)
      moreover have "ps_inv m ?ps" using assms(1) by (rule scan_off_inv)
      moreover have "abs_ps m ?ps = (abs_ps m ps)\<lparr>to_report := None\<rparr>" by (simp add: abs_ps_def cong: option.case_cong)
      ultimately show ?thesis using spec_step.check_error [OF False] Inl PCheck by metis
    qed
  qed
next
  case PNext
  have sc: "poll_scan_ongoing ps" using assms(2) PNext by (auto simp: ps_op_ok_def abs_ps_def split: if_splits)
  note tr = to_report_scan [OF sc, of m]
  show ?thesis
  proof (cases "num_ready_connections ps = 0")
    case True
    let ?ps = "ps\<lparr>poll_scan_ongoing := False\<rparr>"
    have "ps_step op (m, ps) = Inr (RConn None, m, ?ps)" using True sc PNext by (simp add: ps_step_def get_next_connection_def)
    moreover have "ps_inv m ?ps" using assms(1) by (rule scan_off_inv)
    moreover have "abs_ps m ?ps = (abs_ps m ps)\<lparr>to_report := None\<rparr>" by (simp add: abs_ps_def cong: option.case_cong)
    moreover have "to_report (abs_ps m ps) = Some {}" using True tr by (simp add: ready_members_def)
    ultimately show ?thesis using spec_step.next_end PNext by metis
  next
    case False
    then have "0 < num_ready_connections ps" by simp
    then obtain a i c where n: "ready_connections ps ! (num_ready_connections ps - 1) = Some a" "holds m ps i a c" "Some a \<in> set (ready_members ps)"
      "ps_inv m (ps\<lparr>num_ready_connections := num_ready_connections ps - 1\<rparr>)"
      "abs_ps m (ps\<lparr>num_ready_connections := num_ready_connections ps - 1\<rparr>) =
         (abs_ps m ps)\<lparr>to_report := map_option (\<lambda>R. R - {pc_fd c}) (to_report (abs_ps m ps))\<rparr>"
      by (rule next_report [OF assms(1) sc])
    have "conns m a = Some c" using n(2) by (simp add: holds_def)
    then have "ps_step op (m, ps) = Inr (RConn (Some (pc_fd c, user_obj c)), m, ps\<lparr>num_ready_connections := num_ready_connections ps - 1\<rparr>)"
      using False sc PNext n(1) pending_bound [OF assms(1) sc] ps_shapeD(2) [OF assms(1)]
      by (simp add: ps_step_def get_next_connection_def get_conn_def Let_def)
    moreover have "pc_fd c \<in> {pc_fd c |a c. Some a \<in> set (ready_members ps) \<and> conns m a = Some c}" using n(3) \<open>conns m a = Some c\<close> by blast
    then have "spec_step (abs_ps m ps) PNext (RConn (Some (pc_fd c, user_obj c)))
        ((abs_ps m ps)\<lparr>to_report := map_option (\<lambda>R. R - {pc_fd c}) (to_report (abs_ps m ps))\<rparr>)"
      using spec_step.next_conn [OF tr] members_holds [OF assms(1) n(2)] by (simp add: tr)
    ultimately show ?thesis using n(4,5) PNext by metis
  qed
qed

section \<open>Runs\<close>

text \<open>
  A client that keeps the rules: \<open>poll_run s tr res\<close> says that from \<open>s\<close> the operations and responses of \<open>tr\<close> can follow one
  another and lead to \<open>res\<close>.
\<close>

inductive poll_run :: "ps_mem \<times> ic_int_poll_set \<Rightarrow> (ps_op \<times> ps_resp) list \<Rightarrow> fault + (ps_mem \<times> ic_int_poll_set) \<Rightarrow> bool" where
  run_end: "poll_run s [] (Inr s)"
| run_step: "ps_op_ok (abs_ps (fst s) (snd s)) op \<Longrightarrow> ps_step op s = Inr (r, s') \<Longrightarrow> poll_run s' tr res \<Longrightarrow> poll_run s ((op, r) # tr) res"
| run_fault: "ps_op_ok (abs_ps (fst s) (snd s)) op \<Longrightarrow> ps_step op s = Inl f \<Longrightarrow> poll_run s [] (Inl f)"

inductive spec_run :: "poll_spec \<Rightarrow> (ps_op \<times> ps_resp) list \<Rightarrow> poll_spec \<Rightarrow> bool" where
  "spec_run s [] s"
| "spec_step s op r s' \<Longrightarrow> spec_run s' tr s'' \<Longrightarrow> spec_run s ((op, r) # tr) s''"

lemma run_refines:
  "poll_run s tr res \<Longrightarrow> ps_inv (fst s) (snd s) \<Longrightarrow>
     \<exists>m ps. res = Inr (m, ps) \<and> ps_inv m ps \<and> spec_run (abs_ps (fst s) (snd s)) tr (abs_ps m ps)"
proof (induction rule: poll_run.induct)
  case (run_end s)
  then show ?case using spec_run.intros(1) by (cases s) auto
next
  case (run_step s op r s' tr res)
  obtain m ps where s: "s = (m, ps)" by (cases s)
  obtain m' ps' where s': "s' = (m', ps')" by (cases s')
  have "ps_inv m' ps' \<and> spec_step (abs_ps m ps) op r (abs_ps m' ps')"
    using poll_step_refines [of m ps op] run_step.hyps(1,2) run_step.prems s s' by auto
  then show ?case using run_step.IH spec_run.intros(2) s s' by fastforce
next
  case (run_fault s op f)
  then show ?case using poll_step_refines [of "fst s" "snd s" op] by (cases s) auto
qed

lemma create_epoll:
  assumes "ic_create_poll_set_epoll ok as m = Inr (Some ps, m', as')" and "interest m = (\<lambda>_. None)"
    and "\<And>a c. conns m a = Some c \<Longrightarrow> a < next_conn m"
  shows "ps_inv m' ps" and "abs_ps m' ps = \<lparr>members = (\<lambda>_. None), to_report = None\<rparr>"
proof -
  have "ps = \<lparr>poll_connections = replicate MAX_POLL_SET_CONNECTIONS None, ready_connections = replicate MAX_POLL_SET_CONNECTIONS None,
      num_poll_connections = 0, num_ready_connections = 0, num_allocated_connections = MAX_POLL_SET_CONNECTIONS,
      need_close_at_free = True, use_compact_array = False, poll_scan_ongoing = False\<rparr> \<and>
      conns m' = conns m \<and> next_conn m' = next_conn m \<and> interest m' = interest m"
    using assms(1)
    by (auto simp: ic_create_poll_set_epoll_def create_poll_set_def alloc_poll_set_def Let_def zero_poll_set_def c_bind_Inr_iff free_poll_set_def
        split: if_splits prod.splits option.splits)
  then show "ps_inv m' ps" "abs_ps m' ps = \<lparr>members = (\<lambda>_. None), to_report = None\<rparr>"
    using assms(2,3) by (auto simp: ps_inv_def ps_shape_def ps_slots_def ps_ready_def holds_def abs_ps_def)
qed


definition no_conns :: ps_mem where
  "no_conns = \<lparr>conns = (\<lambda>_. None), next_conn = 0, ps_blocks = 0, open_fds = 0, interest = (\<lambda>_. None)\<rparr>"

definition fresh_set :: ic_int_poll_set where
  "fresh_set = \<lparr>poll_connections = replicate MAX_POLL_SET_CONNECTIONS None, ready_connections = replicate MAX_POLL_SET_CONNECTIONS None,
     num_poll_connections = 0, num_ready_connections = 0, num_allocated_connections = MAX_POLL_SET_CONNECTIONS,
     need_close_at_free = True, use_compact_array = False, poll_scan_ongoing = False\<rparr>"

lemma create_fresh: "ic_create_poll_set_epoll True [] no_conns = Inr (Some fresh_set, no_conns\<lparr>ps_blocks := 4, open_fds := 1\<rparr>, [])"
  by (simp add: ic_create_poll_set_epoll_def create_poll_set_def alloc_poll_set_def Let_def zero_poll_set_def fresh_set_def no_conns_def)

lemma fresh_inv: "ps_inv (no_conns\<lparr>ps_blocks := 4, open_fds := 1\<rparr>) fresh_set"
  and fresh_abs: "abs_ps (no_conns\<lparr>ps_blocks := 4, open_fds := 1\<rparr>) fresh_set = \<lparr>members = (\<lambda>_. None), to_report = None\<rparr>"
  using create_epoll [OF create_fresh] by (simp_all add: no_conns_def)


section \<open>Where the set fails\<close>

text \<open>
  C35. Adding a descriptor that is in the set loses it: when no slot before its slot is empty, the kernel's refusal makes
  \<^verbatim>\<open>epoll_poll_set_add_connection\<close> remove the first member with this descriptor, which is the old one. The call returns
  \<^verbatim>\<open>EEXIST\<close>, the descriptor stays registered in the kernel for a slot that is now empty, and the next event
  on it dereferences a null pointer.
\<close>

theorem second_add_breaks_set:
  assumes "ps_inv m ps" and "interest m fd = Some i" and "\<And>j. j < i \<Longrightarrow> poll_connections ps ! j \<noteq> None"
    and "num_poll_connections ps < MAX_POLL_SET_CONNECTIONS" and "\<not> poll_scan_ongoing ps"
  shows "\<exists>m' ps'. epoll_poll_set_add_connection 0 [] m ps fd obj = Inr (EEXIST, m', ps', []) \<and>
    epoll_check_poll_set (Inr [fd]) m' ps' = Inl NullDeref"
proof -
  note sh = ps_shapeD [OF assms(1)]
  obtain a c where h: "holds m ps i a c" "pc_fd c = fd" by (rule members_some [OF assms(1,2)])
  obtain k where k: "k < MAX_POLL_SET_CONNECTIONS" "poll_connections ps ! k = None" "\<And>j. j < k \<Longrightarrow> poll_connections ps ! j \<noteq> None"
    by (rule hole [OF assms(1,4)]) blast
  have hi: "i < MAX_POLL_SET_CONNECTIONS" "poll_connections ps ! i = Some a" "conns m a = Some c" using h(1) by (simp_all add: holds_def)
  have ik: "i < k" using assms(3) [of k] k(2) hi(2) by (cases i k rule: linorder_cases) auto
  have am: "add_poll_set_member [] m ps fd obj = Inr (0, Some k, added m k fd obj, filled m ps k, [])"
    using add_member [OF assms(1) k, of fd obj] assms(4) sh(3) by (simp add: add_poll_set_member_def)
  have na: "a \<noteq> next_conn m" using holds_fresh [OF assms(1) hi(3)] by simp
  have f: "find_fd (added m k fd obj) True fd (poll_connections (filled m ps k)) 0 = Inr (Some (0 + i))"
  proof (rule find_fd_some [where a = a and c = c])
    show "other_conn (added m k fd obj) True fd (poll_connections (filled m ps k) ! j)" if j: "j < i" for j
    proof -
      obtain b where b: "poll_connections ps ! j = Some b" using assms(3) [OF j] by auto
      have jm: "j < MAX_POLL_SET_CONNECTIONS" using j hi(1) by simp
      obtain d where d: "holds m ps j b d" by (rule slot_live [OF assms(1) jm b])
      have "pc_fd d \<noteq> fd" using holds_fd_slot [OF assms(1) h(1) d] h(2) j by simp
      moreover have "b \<noteq> next_conn m" "conns m b = Some d" using d holds_fresh [OF assms(1), of b d] by (auto simp: holds_def)
      ultimately show ?thesis using b ik j by (simp add: other_conn_def added_def filled_def)
    qed
  qed (use hi ik na h(2) sh(1) in \<open>auto simp: added_def filled_def\<close>)
  show ?thesis
    using am f assms(2,5) sh hi ik na k(1)
    by (simp add: epoll_poll_set_add_connection_def add_connection_def index_tag_def kernel_add_def remove_poll_set_member_def drop_ready_def
        free_conn_def Let_def added_def filled_def EEXIST_def epoll_check_poll_set_def events_def map_filter_simps set_conn_rc_def)
qed

definition one_mem :: ps_mem where
  "one_mem = (added (no_conns\<lparr>ps_blocks := 4, open_fds := 1\<rparr>) 0 7 70)\<lparr>interest := (\<lambda>_. None)(7 \<mapsto> 0)\<rparr>"

definition one_set :: ic_int_poll_set where
  "one_set = filled (no_conns\<lparr>ps_blocks := 4, open_fds := 1\<rparr>) fresh_set 0"

lemma one_inv: "ps_inv one_mem one_set"
  using add_inv [OF fresh_inv, of 0 7 70] by (simp add: one_mem_def one_set_def no_conns_def fresh_set_def MAX_POLL_SET_CONNECTIONS_def)

theorem second_add_breaks_set_witness:
  "\<exists>m' ps'. epoll_poll_set_add_connection 0 [] one_mem one_set 7 71 = Inr (EEXIST, m', ps', []) \<and>
    epoll_check_poll_set (Inr [7]) m' ps' = Inl NullDeref"
proof (rule second_add_breaks_set [OF one_inv, where i = 0])
  show "interest one_mem 7 = Some 0" by (simp add: one_mem_def)
  show "num_poll_connections one_set < MAX_POLL_SET_CONNECTIONS" by (simp add: one_set_def filled_def fresh_set_def MAX_POLL_SET_CONNECTIONS_def)
  show "\<not> poll_scan_ongoing one_set" by (simp add: one_set_def filled_def fresh_set_def)
qed simp

text \<open>The members in a list of slots that has no address twice are freed; empty slots are skipped.\<close>

lemma free_members_ok:
  assumes "\<And>a. Some a \<in> set rs \<Longrightarrow> conns m a \<noteq> None" and "distinct (filter (\<lambda>r. r \<noteq> None) rs)"
  shows "\<exists>m'. free_members m rs = Inr m' \<and> (\<forall>a. conns m' a = (if Some a \<in> set rs then None else conns m a))"
  using assms
proof (induction rs arbitrary: m)
  case (Cons r rs)
  show ?case
  proof (cases r)
    case None
    then show ?thesis using Cons.IH [of m] Cons.prems by (simp add: free_conn_def)
  next
    case (Some a)
    let ?m = "m\<lparr>conns := (conns m)(a := None)\<rparr>"
    have l: "conns m a \<noteq> None" using Cons.prems(1) Some by simp
    have n: "Some a \<notin> set rs" using Cons.prems(2) Some by simp
    have live: "conns ?m b \<noteq> None" if "Some b \<in> set rs" for b
    proof -
      have "b \<noteq> a" using n that by auto
      then show ?thesis using Cons.prems(1) [of b] that by simp
    qed
    have "distinct (filter (\<lambda>r. r \<noteq> None) rs)" using Cons.prems(2) by (simp split: if_splits)
    from Cons.IH [OF live this] obtain m' where
      "free_members ?m rs = Inr m'" "\<forall>b. conns m' b = (if Some b \<in> set rs then None else conns ?m b)" by blast
    then show ?thesis using l Some by (simp add: free_conn_def)
  qed
qed simp

lemma distinct_slots:
  assumes "ps_inv m ps" and "n \<le> MAX_POLL_SET_CONNECTIONS"
  shows "distinct (filter (\<lambda>r. r \<noteq> None) (take n (poll_connections ps)))"
  using assms(2)
proof (induction n)
  case (Suc n)
  have n: "n < MAX_POLL_SET_CONNECTIONS" using Suc.prems by simp
  then have t: "take (Suc n) (poll_connections ps) = take n (poll_connections ps) @ [poll_connections ps ! n]"
    using ps_shapeD(1) [OF assms(1)] by (simp add: take_Suc_conv_app_nth)
  have "poll_connections ps ! n \<notin> set (take n (poll_connections ps))" if nn: "poll_connections ps ! n \<noteq> None"
  proof
    assume "poll_connections ps ! n \<in> set (take n (poll_connections ps))"
    then obtain j where j: "j < n" "poll_connections ps ! j = poll_connections ps ! n" by (auto simp: in_set_conv_nth)
    obtain a where a: "poll_connections ps ! n = Some a" using nn by blast
    obtain c where c: "holds m ps n a c" by (rule slot_live [OF assms(1) n a])
    have jm: "j < MAX_POLL_SET_CONNECTIONS" "poll_connections ps ! j = Some a" using j n a by simp_all
    obtain d where d: "holds m ps j a d" by (rule slot_live [OF assms(1) jm])
    show False using same_slot [OF assms(1) c d] j(1) by simp
  qed
  then show ?case unfolding t using Suc by auto
qed simp

text \<open>
  C37. Freeing a set releases the members in the first \<^verbatim>\<open>num_poll_connections\<close> slots only: the members in later slots, which
  exist as soon as a removal has left a hole before them, are never freed.
\<close>

theorem free_poll_set_leaks:
  assumes "ps_inv m ps"
  shows "\<exists>m'. free_poll_set m (Some (ps, 3)) = Inr m' \<and>
    (\<forall>i a c. holds m ps i a c \<longrightarrow> conns m' a = (if i < num_poll_connections ps then None else Some c))"
proof -
  let ?n = "num_poll_connections ps" and ?rs = "take (num_poll_connections ps) (poll_connections ps)"
  note sh = ps_shapeD(1) [OF assms] num_poll_bound [OF assms]
  have slot: "Some a \<in> set ?rs \<longleftrightarrow> (\<exists>j<?n. poll_connections ps ! j = Some a)" for a
    using sh by (auto simp: in_set_conv_nth)
  have live: "conns m a \<noteq> None" if ar: "Some a \<in> set ?rs" for a
  proof -
    obtain j where j: "j < ?n" "poll_connections ps ! j = Some a" using slot [THEN iffD1, OF ar] by blast
    have jm: "j < MAX_POLL_SET_CONNECTIONS" using j(1) sh(2) by simp
    obtain c where "holds m ps j a c" by (rule slot_live [OF assms jm j(2)])
    then show ?thesis by (simp add: holds_def)
  qed
  obtain m' where m': "free_members m ?rs = Inr m'" "\<forall>a. conns m' a = (if Some a \<in> set ?rs then None else conns m a)"
    using free_members_ok [OF live distinct_slots [OF assms sh(2)]] by blast
  have "conns m' a = (if i < ?n then None else Some c)" if h: "holds m ps i a c" for i a c
  proof -
    have "j = i" if "j < ?n" "poll_connections ps ! j = Some a" for j
    proof -
      have jm: "j < MAX_POLL_SET_CONNECTIONS" using that(1) sh(2) by simp
      have ja: "poll_connections ps ! j = Some a" using that(2) .
      obtain d where "holds m ps j a d" by (rule slot_live [OF assms jm ja])
      then show ?thesis using same_slot [OF assms, of j a d i a c] h by blast
    qed
    then have "Some a \<in> set ?rs \<longleftrightarrow> i < ?n" using slot h by (auto simp: holds_def)
    then show ?thesis using m'(2) h by (simp add: holds_def)
  qed
  then show ?thesis using m'(1) sh
    by (intro exI [of _ "m'\<lparr>ps_blocks := ps_blocks m' - 4, open_fds := (if need_close_at_free ps then open_fds m' - 1 else open_fds m')\<rparr>"])
       (simp add: free_poll_set_def)
qed


theorem free_poll_set_leaks_witness:
  "\<exists>m ps m' c. ps_inv m ps \<and> holds m ps 1 1 c \<and> free_poll_set m (Some (ps, 3)) = Inr m' \<and> conns m' 1 = Some c"
proof -
  let ?m2 = "(added one_mem 1 8 80)\<lparr>interest := (interest one_mem)(8 \<mapsto> 1)\<rparr>" and ?ps2 = "filled one_mem one_set 1"
  have k: "1 < MAX_POLL_SET_CONNECTIONS" "poll_connections one_set ! 1 = None" "interest one_mem 8 = None"
    by (simp_all add: one_mem_def one_set_def filled_def fresh_set_def MAX_POLL_SET_CONNECTIONS_def)
  have inv2: "ps_inv ?m2 ?ps2" by (rule add_inv [OF one_inv k])
  have h: "holds ?m2 ?ps2 0 0 (new_conn 7 0 70)" "holds ?m2 ?ps2 1 1 (new_conn 8 1 80)"
    by (simp_all add: holds_def one_mem_def one_set_def filled_def added_def no_conns_def fresh_set_def MAX_POLL_SET_CONNECTIONS_def)
  obtain xs n where r: "length xs = MAX_POLL_SET_CONNECTIONS"
    "poll_scan_ongoing ?ps2 \<Longrightarrow> n \<le> MAX_POLL_SET_CONNECTIONS \<and> distinct (take n xs) \<and> set (take n xs) = set (ready_members ?ps2) - {Some 0}"
    by (rule remove_ok [OF inv2 h(1)]) blast
  let ?m3 = "removed ?m2 0 7" and ?ps3 = "cleared ?ps2 0 xs n"
  have inv3: "ps_inv ?m3 ?ps3" using remove_inv [OF inv2 h(1) r] by simp
  have h3: "holds ?m3 ?ps3 1 1 (new_conn 8 1 80)" using holds_removed [OF inv2 h(1), of xs n 1 1 "new_conn 8 1 80"] h(2) by simp
  have "num_poll_connections ?ps3 = 1" by (simp add: cleared_def filled_def one_set_def fresh_set_def)
  then obtain m' where "free_poll_set ?m3 (Some (?ps3, 3)) = Inr m'" "conns m' 1 = Some (new_conn 8 1 80)"
    using free_poll_set_leaks [OF inv3] h3 by fastforce
  then show ?thesis using inv3 h3 by blast
qed

lemma poll_loop_ok:
  assumes "length (poll_connections ps) = MAX_POLL_SET_CONNECTIONS" and "length (ready_connections ps) = MAX_POLL_SET_CONNECTIONS"
    and "\<forall>j<length res. \<exists>a c. poll_connections ps ! (i + j) = Some a \<and> conns m a = Some c"
    and "i + length res \<le> MAX_POLL_SET_CONNECTIONS" and "num_ready_connections ps \<le> i"
  shows "\<exists>m' xs. poll_loop m ps i res = Inr (m', ps\<lparr>ready_connections := xs,
    num_ready_connections := num_ready_connections ps + length (filter (\<lambda>re. re = POLLIN) res)\<rparr>)"
  using assms
proof (induction res arbitrary: m ps i)
  case Nil
  then show ?case by (intro exI [of _ m] exI [of _ "ready_connections ps"]) simp
next
  case (Cons re res)
  have rest: "poll_connections ps ! (Suc i + j) = Some a \<Longrightarrow> poll_connections ps ! (i + Suc j) = Some a" for j a by simp
  have live: "\<forall>j<length res. \<exists>a c. poll_connections ps ! (i + 1 + j) = Some a \<and> conns m a = Some c"
    using Cons.prems(3) by (metis (no_types, lifting) Suc_less_eq add.assoc length_Cons plus_1_eq_Suc)
  show ?case
  proof (cases "re = POLLIN")
    case False
    then show ?thesis using Cons.IH [of ps "i + 1" m] Cons.prems live by simp
  next
    case True
    obtain a c where a: "poll_connections ps ! i = Some a" "conns m a = Some c" using Cons.prems(3) [rule_format, of 0] by auto
    obtain m1 where m1: "set_conn_rc m (Some a) 0 = Inr m1" "same_but_rc m m1" using set_rc_ok [OF a(2)] by blast
    let ?ps = "ps\<lparr>ready_connections := (ready_connections ps)[num_ready_connections ps := Some a], num_ready_connections := num_ready_connections ps + 1\<rparr>"
    have "\<forall>j<length res. \<exists>a c. poll_connections ?ps ! (i + 1 + j) = Some a \<and> conns m1 a = Some c"
      using live same_but_rcD [OF same_but_rc_sym [OF m1(2)]] by simp metis
    then show ?thesis using Cons.IH [of ?ps "i + 1" m1] Cons.prems a(1) m1(1) True by simp
  qed
qed

text \<open>
  C36. With \<^verbatim>\<open>poll\<close>, a check reports exactly the members whose event is \<^verbatim>\<open>POLLIN\<close> and nothing else; as soon as some member
  has any other event, for instance \<^verbatim>\<open>POLLIN\<close> together with \<^verbatim>\<open>POLLHUP\<close> after the peer has closed its side, the assertion on the
  number of reported members fails and the process stops.
\<close>

theorem poll_check_aborts:
  assumes "length (poll_connections ps) = MAX_POLL_SET_CONNECTIONS" and "length (ready_connections ps) = MAX_POLL_SET_CONNECTIONS"
    and "\<And>j. j < num_poll_connections ps \<Longrightarrow> \<exists>a c. poll_connections ps ! j = Some a \<and> conns m a = Some c"
    and "num_poll_connections ps \<le> MAX_POLL_SET_CONNECTIONS" and "length revents = num_poll_connections ps"
  shows "poll_check_poll_set (Some revents) m ps = Inl AssertFail \<longleftrightarrow> (\<exists>re\<in>set revents. re \<noteq> 0 \<and> re \<noteq> POLLIN)"
proof -
  let ?ps = "ps\<lparr>num_ready_connections := 0, poll_scan_ongoing := True\<rparr>"
  obtain m' xs where l: "poll_loop m ?ps 0 revents = Inr (m', ?ps\<lparr>ready_connections := xs, num_ready_connections := length (filter (\<lambda>re. re = POLLIN) revents)\<rparr>)"
    using poll_loop_ok [of ?ps revents 0 m] assms by auto
  have "length (filter (\<lambda>re. re \<noteq> 0) revents) = length (filter (\<lambda>re. re = POLLIN) revents) + length (filter (\<lambda>re. re \<noteq> 0 \<and> re \<noteq> POLLIN) revents)"
    by (induction revents) (auto simp: POLLIN_def)
  moreover have "0 < length (filter (\<lambda>re. re \<noteq> 0 \<and> re \<noteq> POLLIN) revents) \<longleftrightarrow> (\<exists>re\<in>set revents. re \<noteq> 0 \<and> re \<noteq> POLLIN)"
    by (simp add: filter_empty_conv)
  ultimately show ?thesis
    using l assms(5) by (auto simp: poll_check_poll_set_def Let_def c_assert_def)
qed

theorem poll_check_aborts_witness:
  "poll_check_poll_set (Some [POLLIN OR POLLHUP]) one_mem (one_set\<lparr>use_compact_array := True\<rparr>) = Inl AssertFail"
  using poll_check_aborts [of "one_set\<lparr>use_compact_array := True\<rparr>" one_mem "[POLLIN OR POLLHUP]"]
  by (simp add: one_mem_def one_set_def filled_def added_def no_conns_def fresh_set_def MAX_POLL_SET_CONNECTIONS_def POLLIN_def POLLHUP_def)

text \<open>A failing first allocation makes \<^verbatim>\<open>alloc_poll_set\<close> free a null pointer.\<close>

lemma create_without_memory: "ic_create_poll_set_epoll True (False # as) m = Inl NullDeref"
  by (simp add: ic_create_poll_set_epoll_def create_poll_set_def alloc_poll_set_def free_poll_set_def Let_def)

end
