(* ===== verification/IC_Threadpool.thy ===== *)
theory IC_Threadpool
  imports Prelude
begin

text \<open>
  \<^verbatim>\<open>src/util/ic_threadpool.c\<close>: the pool of threads. A pool has a fixed number of thread objects, identified by their
  index; the free ones are linked in a list, those of threads that have stopped and wait to be joined in a doubly
  linked list. The two lists have a mutex each and every thread object has one. A part of a function between locking and
  unlocking a mutex is a definition of its own, and the functions are composed of these sections in the order of the
  code. A wait on a condition is left when the condition of its loop holds: the guard of the section that follows.
  The global stop flag \<^verbatim>\<open>ic_get_stop_flag\<close> and the outcome of the creation of a thread are arguments.

  Results: with one managing thread, through all interleavings with the threads of the pool, no assertion fails,
  both lists are intact and a thread object is in one phase of its life at a time, so no object is given out
  twice. The waiting loops end. A failed start frees its object twice or violates an assertion, and two
  managing threads can meet at an object that is already in the free list and not yet reset.
\<close>

section \<open>Data\<close>

definition IC_ERROR_THREADPOOL_FULL :: err where [err_codes]: "IC_ERROR_THREADPOOL_FULL = 7037"
definition IC_ERROR_START_THREAD_FAILED :: err where [err_codes]: "IC_ERROR_START_THREAD_FAILED = 7038"
definition IC_MAX_WAIT_THREADPOOL_STOP :: nat where "IC_MAX_WAIT_THREADPOOL_STOP = 30"

text \<open>A mutex or condition is \<open>Some n\<close>; the object's own one is \<open>Some 0\<close>. \<open>thread\<close> says whether the pointer to the GLib thread is set.\<close>

record ic_int_thread_state =
  thread_id :: guint32
  inited :: bool
  object :: "nat option"
  thread :: bool
  ts_stop_flag :: bool
  started :: bool
  startup_done :: bool
  startup_ready_to_proceed :: bool
  synch_startup :: bool
  wait_wakeup :: bool
  stopped :: bool
  wait_for_stop :: bool
  is_free :: bool
  next_thread_id :: guint32
  prev_thread_id :: guint32
  ts_mutex :: "nat option"
  internal_mutex :: "nat option"
  ts_cond :: "nat option"
  internal_cond :: "nat option"
  use_external_mutex :: bool
  use_external_cond :: bool

record ic_int_threadpool_state =
  num_free_threads :: guint32
  tp_stop_flag :: bool
  first_free_thread_id :: guint32
  first_stopped_thread_id :: guint32
  num_stopped_threads :: guint32
  num_thread_allocations :: guint64
  threadpool_size :: guint32
  thread_state_array :: bool                           \<comment> \<open>the array of pointers is allocated\<close>
  thread_state :: "ic_int_thread_state option list"    \<comment> \<open>its contents, \<open>None\<close> for a null pointer\<close>
  thread_state_allocation :: bool
  stop_list_mutex :: bool
  stop_list_cond :: bool
  free_list_mutex :: bool

definition zero_thread_state :: ic_int_thread_state where
  "zero_thread_state = \<lparr>thread_id = 0, inited = False, object = None, thread = False, ts_stop_flag = False, started = False, startup_done = False,
     startup_ready_to_proceed = False, synch_startup = False, wait_wakeup = False, stopped = False, wait_for_stop = False, is_free = False,
     next_thread_id = 0, prev_thread_id = 0, ts_mutex = None, internal_mutex = None, ts_cond = None, internal_cond = None,
     use_external_mutex = False, use_external_cond = False\<rparr>"

definition zero_threadpool :: ic_int_threadpool_state where
  "zero_threadpool = \<lparr>num_free_threads = 0, tp_stop_flag = False, first_free_thread_id = 0, first_stopped_thread_id = 0, num_stopped_threads = 0,
     num_thread_allocations = 0, threadpool_size = 0, thread_state_array = False, thread_state = [], thread_state_allocation = False, stop_list_mutex = False,
     stop_list_cond = False, free_list_mutex = False\<rparr>"

definition get_ts :: "ic_int_threadpool_state \<Rightarrow> guint32 \<Rightarrow> fault + ic_int_thread_state" where
  "get_ts tp i = c_bind (rd (thread_state tp) (unat i)) (\<lambda>r. case r of None \<Rightarrow> Inl NullDeref | Some t \<Rightarrow> Inr t)"

definition upd_ts :: "ic_int_threadpool_state \<Rightarrow> guint32 \<Rightarrow> (ic_int_thread_state \<Rightarrow> ic_int_thread_state) \<Rightarrow> fault + ic_int_threadpool_state" where
  "upd_ts tp i f = c_bind (get_ts tp i) (\<lambda>t. Inr (tp\<lparr>thread_state := (thread_state tp)[unat i := Some (f t)]\<rparr>))"

text \<open>Locking the mutex of an object, and a change under it.\<close>

definition lock_ts :: "ic_int_threadpool_state \<Rightarrow> guint32 \<Rightarrow> fault + ic_int_thread_state" where
  "lock_ts tp i = c_bind (get_ts tp i) (\<lambda>t. if ts_mutex t = None then Inl NullDeref else Inr t)"

definition upd_locked :: "ic_int_threadpool_state \<Rightarrow> guint32 \<Rightarrow> (ic_int_thread_state \<Rightarrow> ic_int_thread_state) \<Rightarrow> fault + ic_int_threadpool_state" where
  "upd_locked tp i f = c_bind (lock_ts tp i) (\<lambda>_. upd_ts tp i f)"

section \<open>The free list\<close>

definition get_free_thread_id :: "ic_int_threadpool_state \<Rightarrow> fault + (err \<times> guint32 option \<times> ic_int_threadpool_state)" where
  "get_free_thread_id tp =
     (let i = first_free_thread_id tp in
      if i = IC_MAX_UINT32 then Inr (IC_ERROR_THREADPOOL_FULL, None, tp)
      else c_bind (get_ts tp i) (\<lambda>t.
           c_assert (is_free t)
            (c_bind (upd_ts (tp\<lparr>first_free_thread_id := next_thread_id t, num_free_threads := num_free_threads tp - 1,
                               num_thread_allocations := num_thread_allocations tp + 1\<rparr>) i
                      (\<lambda>t. t\<lparr>next_thread_id := IC_MAX_UINT32, is_free := False\<rparr>)) (\<lambda>tp. Inr (0, Some i, tp)))))"

definition reset_external :: "ic_int_thread_state \<Rightarrow> ic_int_thread_state" where
  "reset_external t =
     (let t = (if use_external_mutex t then t\<lparr>ts_mutex := internal_mutex t, use_external_mutex := False\<rparr> else t) in
      if use_external_cond t then t\<lparr>ts_cond := internal_cond t, use_external_cond := False\<rparr> else t)"

text \<open>The insertion into the free list, shared by the next two functions.\<close>

definition insert_free_list :: "ic_int_threadpool_state \<Rightarrow> guint32 \<Rightarrow> fault + ic_int_threadpool_state" where
  "insert_free_list tp i =
     c_bind (upd_ts tp i (\<lambda>t. t\<lparr>next_thread_id := first_free_thread_id tp\<rparr>)) (\<lambda>tp.
     let tp = tp\<lparr>first_free_thread_id := i, num_free_threads := num_free_threads tp + 1\<rparr> in
     c_bind (get_ts tp i) (\<lambda>t. c_assert (\<not> is_free t) (upd_ts tp i (\<lambda>t. t\<lparr>is_free := True\<rparr>))))"

definition free_thread_id :: "ic_int_threadpool_state \<Rightarrow> guint32 \<Rightarrow> fault + ic_int_threadpool_state" where
  "free_thread_id tp i = c_bind (insert_free_list tp i) (\<lambda>tp. upd_ts tp i reset_external)"

definition free_thread_list :: "ic_int_threadpool_state \<Rightarrow> guint32 \<Rightarrow> fault + ic_int_threadpool_state" where
  "free_thread_list tp i =
     c_bind (upd_ts tp i (\<lambda>t. t\<lparr>inited := True, thread := False, object := None\<rparr>)) (\<lambda>tp. insert_free_list tp i)"

definition free_thread_reset :: "ic_int_threadpool_state \<Rightarrow> guint32 \<Rightarrow> fault + ic_int_threadpool_state" where
  "free_thread_reset tp i =
     c_bind (lock_ts tp i) (\<lambda>t. c_assert (\<not> synch_startup t)
         (upd_ts tp i (\<lambda>t. t\<lparr>started := False, startup_done := False, startup_ready_to_proceed := False, synch_startup := False, ts_stop_flag := False\<rparr>)))"

definition free_thread :: "ic_int_threadpool_state \<Rightarrow> guint32 \<Rightarrow> fault + ic_int_threadpool_state" where
  "free_thread tp i =
     c_bind (free_thread_list tp i) (\<lambda>tp. c_bind (free_thread_reset tp i) (\<lambda>tp. upd_ts tp i reset_external))"

section \<open>The list of stopped threads\<close>

definition insert_stopped_list :: "ic_int_threadpool_state \<Rightarrow> guint32 \<Rightarrow> fault + ic_int_threadpool_state" where
  "insert_stopped_list tp i =
     (let first = first_stopped_thread_id tp in
      c_bind (if first \<noteq> IC_MAX_UINT32 then upd_ts tp first (\<lambda>t. t\<lparr>prev_thread_id := i\<rparr>) else Inr tp) (\<lambda>tp.
      c_bind (upd_ts tp i (\<lambda>t. t\<lparr>next_thread_id := first, prev_thread_id := IC_MAX_UINT32\<rparr>)) (\<lambda>tp.
      c_bind (get_ts tp i) (\<lambda>t. c_assert (\<not> stopped t)
       (c_bind (upd_ts tp i (\<lambda>t. t\<lparr>stopped := True, wait_for_stop := False\<rparr>)) (\<lambda>tp.
          Inr (tp\<lparr>first_stopped_thread_id := i, num_stopped_threads := num_stopped_threads tp + 1\<rparr>)))))))"

definition remove_stopped_list :: "ic_int_threadpool_state \<Rightarrow> guint32 \<Rightarrow> fault + ic_int_threadpool_state" where
  "remove_stopped_list tp i =
     c_bind (get_ts tp i) (\<lambda>t. let p = prev_thread_id t; n = next_thread_id t in
     c_bind (if p \<noteq> IC_MAX_UINT32 then upd_ts tp p (\<lambda>t. t\<lparr>next_thread_id := n\<rparr>) else Inr (tp\<lparr>first_stopped_thread_id := n\<rparr>)) (\<lambda>tp.
     c_bind (if n \<noteq> IC_MAX_UINT32 then upd_ts tp n (\<lambda>t. t\<lparr>prev_thread_id := p\<rparr>) else Inr tp) (\<lambda>tp.
     c_bind (get_ts tp i) (\<lambda>t. c_assert (stopped t)
       (upd_ts (tp\<lparr>num_stopped_threads := num_stopped_threads tp - 1\<rparr>) i (\<lambda>t. t\<lparr>stopped := False\<rparr>))))))"

section \<open>Joining\<close>

text \<open>What \<^verbatim>\<open>internal_join_thread\<close> does once \<^verbatim>\<open>g_thread_join\<close> has returned.\<close>

definition internal_join_thread :: "ic_int_threadpool_state \<Rightarrow> guint32 \<Rightarrow> fault + ic_int_threadpool_state" where
  "internal_join_thread tp i =
     c_require (i < threadpool_size tp)
      (c_bind (get_ts tp i) (\<lambda>_. c_bind (remove_stopped_list tp i) (\<lambda>tp. free_thread tp i)))"

definition join_thread :: "ic_int_threadpool_state \<Rightarrow> guint32 \<Rightarrow> fault + ic_int_threadpool_state" where
  "join_thread tp i = internal_join_thread tp i"

text \<open>One round of \<^verbatim>\<open>check_threads\<close>; \<open>None\<close> when no thread is stopped.\<close>

definition check_round :: "ic_int_threadpool_state \<Rightarrow> fault + ic_int_threadpool_state option" where
  "check_round tp =
     (let i = first_stopped_thread_id tp in
      if i = IC_MAX_UINT32 then Inr None
      else c_bind (get_ts tp i) (\<lambda>t. c_require (stopped t) (c_bind (internal_join_thread tp i) (\<lambda>tp. Inr (Some tp)))))"

text \<open>The loop, when no further thread stops in the meantime; \<open>fuel\<close> bounds the number of rounds.\<close>

fun check_threads :: "nat \<Rightarrow> ic_int_threadpool_state \<Rightarrow> fault + ic_int_threadpool_state" where
  "check_threads 0 tp = Inl Diverges"
| "check_threads (Suc fuel) tp = c_bind (check_round tp) (\<lambda>r. case r of None \<Rightarrow> Inr tp | Some tp \<Rightarrow> check_threads fuel tp)"

section \<open>Starting\<close>

text \<open>Up to the creation of the thread, with its outcome \<open>created\<close>. The result says whether the thread was created.\<close>

definition start_section ::
  "ic_int_threadpool_state \<Rightarrow> guint32 \<Rightarrow> nat \<Rightarrow> bool \<Rightarrow> bool \<Rightarrow> fault + (err \<times> ic_int_threadpool_state)"
where
  "start_section tp i obj synch created =
     c_require (i < threadpool_size tp)
      (c_bind (get_ts tp i) (\<lambda>t.
       c_require (ts_mutex t \<noteq> None \<and> ts_cond t \<noteq> None)
        (c_assert (\<not> is_free t)
          (c_bind (upd_ts tp i (\<lambda>t. t\<lparr>object := Some obj, synch_startup := synch\<rparr>)) (\<lambda>tp.
           if created then c_bind (upd_ts tp i (\<lambda>t. t\<lparr>thread := True\<rparr>)) (\<lambda>tp. Inr (0, tp))
           else c_bind (free_thread tp i) (\<lambda>tp. Inr (IC_ERROR_START_THREAD_FAILED, tp)))))))"

text \<open>The loop that waits for a synchronised start ends when \<open>start_wait_over\<close> holds; \<open>start_end\<close> is what follows.\<close>

definition start_wait_over :: "bool \<Rightarrow> ic_int_thread_state \<Rightarrow> bool" where
  "start_wait_over g t \<longleftrightarrow> ts_stop_flag t \<or> g \<or> started t"

definition start_end :: "bool \<Rightarrow> ic_int_threadpool_state \<Rightarrow> guint32 \<Rightarrow> fault + (err \<times> ic_int_threadpool_state)" where
  "start_end g tp i = c_bind (get_ts tp i) (\<lambda>t.
     if ts_stop_flag t \<or> g then c_bind (join_thread tp i) (\<lambda>tp. Inr (IC_ERROR_START_THREAD_FAILED, tp))
     else Inr (0, tp))"

text \<open>
  The whole function: \<open>env\<close> is what other threads do to the pool during the wait of a synchronised start, and, when the start is
  given up, until the thread has ended.
\<close>

definition start_thread_with_thread_id ::
  "bool \<Rightarrow> (ic_int_threadpool_state \<Rightarrow> ic_int_threadpool_state) \<Rightarrow> ic_int_threadpool_state \<Rightarrow> guint32 \<Rightarrow> nat \<Rightarrow> bool \<Rightarrow> bool \<Rightarrow>
   fault + (err \<times> ic_int_threadpool_state)"
where
  "start_thread_with_thread_id g env tp i obj synch created =
     c_bind (start_section tp i obj synch created) (\<lambda>(rc, tp).
       if rc \<noteq> 0 \<or> \<not> synch then Inr (rc, tp) else start_end g (env tp) i)"

definition start_thread ::
  "bool \<Rightarrow> (ic_int_threadpool_state \<Rightarrow> ic_int_threadpool_state) \<Rightarrow> ic_int_threadpool_state \<Rightarrow> nat \<Rightarrow> bool \<Rightarrow> bool \<Rightarrow>
   fault + (err \<times> guint32 option \<times> ic_int_threadpool_state)"
where
  "start_thread g env tp obj synch created =
     c_bind (get_free_thread_id tp) (\<lambda>(rc, r, tp). case r of
         None \<Rightarrow> Inr (rc, None, tp)
       | Some i \<Rightarrow> c_bind (start_thread_with_thread_id g env tp i obj synch created) (\<lambda>(rc, tp).
           if rc \<noteq> 0 then c_bind (free_thread_id tp i) (\<lambda>tp. Inr (rc, None, tp)) else Inr (0, Some i, tp)))"

definition get_thread_state :: "ic_int_threadpool_state \<Rightarrow> guint32 \<Rightarrow> fault + ic_int_thread_state" where
  "get_thread_state tp i = c_require (i < threadpool_size tp) (get_ts tp i)"

text \<open>\<^verbatim>\<open>run_thread\<close> waits until \<open>run_wait_over\<close> holds.\<close>

definition run_wait_over :: "bool \<Rightarrow> ic_int_thread_state \<Rightarrow> bool" where
  "run_wait_over g t \<longleftrightarrow> startup_done t \<or> ts_stop_flag t \<or> g"

definition run_thread :: "ic_int_threadpool_state \<Rightarrow> guint32 \<Rightarrow> fault + ic_int_threadpool_state" where
  "run_thread tp i = c_require (i < threadpool_size tp) (upd_locked tp i (\<lambda>t. t\<lparr>startup_ready_to_proceed := True\<rparr>))"

section \<open>Stopping\<close>

definition stop_thread_without_wait :: "ic_int_threadpool_state \<Rightarrow> guint32 \<Rightarrow> fault + ic_int_threadpool_state" where
  "stop_thread_without_wait tp i = c_require (i < threadpool_size tp) (upd_locked tp i (\<lambda>t. t\<lparr>ts_stop_flag := True\<rparr>))"

text \<open>\<^verbatim>\<open>stop_thread_wait\<close> first asks the thread to stop; it announces its wait, and when the thread has stopped it joins it.\<close>

definition stop_wait_section :: "ic_int_threadpool_state \<Rightarrow> guint32 \<Rightarrow> fault + (bool \<times> ic_int_threadpool_state)" where
  "stop_wait_section tp i = c_bind (get_ts tp i) (\<lambda>t.
     if stopped t then c_bind (internal_join_thread tp i) (\<lambda>tp. Inr (True, tp))
     else c_bind (upd_ts tp i (\<lambda>t. t\<lparr>wait_for_stop := True\<rparr>)) (\<lambda>tp. Inr (False, tp)))"

definition tp_get_stop_flag :: "bool \<Rightarrow> ic_int_threadpool_state \<Rightarrow> bool" where
  "tp_get_stop_flag g tp \<longleftrightarrow> g \<or> tp_stop_flag tp"

text \<open>Objects without a mutex are left alone.\<close>

fun set_stop_flags :: "ic_int_threadpool_state \<Rightarrow> nat list \<Rightarrow> fault + ic_int_threadpool_state" where
  "set_stop_flags tp [] = Inr tp"
| "set_stop_flags tp (i # is) =
     c_bind (get_ts tp (of_nat i)) (\<lambda>t.
     c_bind (if ts_mutex t \<noteq> None then upd_ts tp (of_nat i) (\<lambda>t. t\<lparr>ts_stop_flag := True\<rparr>) else Inr tp) (\<lambda>tp. set_stop_flags tp is))"

definition set_stop_flag :: "ic_int_threadpool_state \<Rightarrow> fault + ic_int_threadpool_state" where
  "set_stop_flag tp = set_stop_flags (tp\<lparr>tp_stop_flag := True\<rparr>) [0..<unat (threadpool_size tp)]"

section \<open>The threads themselves\<close>

definition thread_started :: "ic_int_threadpool_state \<Rightarrow> guint32 \<Rightarrow> fault + ic_int_threadpool_state" where
  "thread_started tp i = upd_locked tp i (\<lambda>t. t\<lparr>started := True\<rparr>)"

text \<open>The second section of \<^verbatim>\<open>thread_stops\<close>, after the insertion into the list of stopped threads.\<close>

definition thread_stops_end :: "ic_int_threadpool_state \<Rightarrow> guint32 \<Rightarrow> fault + ic_int_threadpool_state" where
  "thread_stops_end tp i = c_bind (lock_ts tp i) (\<lambda>t. c_assert (started t) (upd_ts tp i (\<lambda>t. t\<lparr>started := False, synch_startup := False\<rparr>)))"

definition thread_stops :: "ic_int_threadpool_state \<Rightarrow> guint32 \<Rightarrow> fault + ic_int_threadpool_state" where
  "thread_stops tp i = c_bind (insert_stopped_list tp i) (\<lambda>tp. thread_stops_end tp i)"

text \<open>One round of \<^verbatim>\<open>thread_startup_done\<close>: the result of the function, or \<open>None\<close> when it waits for the next signal.\<close>

definition thread_startup_done :: "bool \<Rightarrow> ic_int_threadpool_state \<Rightarrow> guint32 \<Rightarrow> fault + (bool option \<times> ic_int_threadpool_state)" where
  "thread_startup_done g tp i = c_bind (lock_ts tp i) (\<lambda>t.
     c_assert (synch_startup t)
      (let done_flags = (\<lambda>s t. t\<lparr>startup_done := True, synch_startup := s\<rparr>) in
       if ts_stop_flag t \<or> g then c_bind (upd_ts tp i (done_flags False)) (\<lambda>tp. Inr (Some True, tp))
       else if startup_ready_to_proceed t then c_bind (upd_ts tp i (done_flags False)) (\<lambda>tp. Inr (Some False, tp))
       else c_bind (upd_ts tp i (done_flags True)) (\<lambda>tp. Inr (None, tp))))"

text \<open>\<^verbatim>\<open>thread_wait\<close> announces the wait and returns when \<open>wait_over\<close> holds.\<close>

definition thread_wait_begin :: "ic_int_threadpool_state \<Rightarrow> guint32 \<Rightarrow> fault + ic_int_threadpool_state" where
  "thread_wait_begin tp i = upd_ts tp i (\<lambda>t. t\<lparr>wait_wakeup := True\<rparr>)"

definition thread_lock_and_wait :: "ic_int_threadpool_state \<Rightarrow> guint32 \<Rightarrow> fault + ic_int_threadpool_state" where
  "thread_lock_and_wait tp i = c_bind (lock_ts tp i) (\<lambda>_. thread_wait_begin tp i)"

definition wait_over :: "bool \<Rightarrow> ic_int_thread_state \<Rightarrow> bool" where
  "wait_over g t \<longleftrightarrow> \<not> (wait_wakeup t \<and> \<not> ts_stop_flag t \<and> \<not> g)"

definition thread_wake :: "ic_int_threadpool_state \<Rightarrow> guint32 \<Rightarrow> fault + ic_int_threadpool_state" where
  "thread_wake tp i = c_bind (lock_ts tp i) (\<lambda>t. c_assert (wait_wakeup t) (upd_ts tp i (\<lambda>t. t\<lparr>wait_wakeup := False\<rparr>)))"

definition thread_set_mutex :: "ic_int_threadpool_state \<Rightarrow> guint32 \<Rightarrow> nat option \<Rightarrow> fault + ic_int_threadpool_state" where
  "thread_set_mutex tp i mx = upd_ts tp i (\<lambda>t. t\<lparr>ts_mutex := mx, use_external_mutex := True\<rparr>)"

definition thread_set_cond :: "ic_int_threadpool_state \<Rightarrow> guint32 \<Rightarrow> nat option \<Rightarrow> fault + ic_int_threadpool_state" where
  "thread_set_cond tp i cv = upd_ts tp i (\<lambda>t. t\<lparr>ts_cond := cv, use_external_cond := True\<rparr>)"

definition get_object :: "ic_int_threadpool_state \<Rightarrow> guint32 \<Rightarrow> fault + nat option" where
  "get_object tp i = c_bind (get_ts tp i) (\<lambda>t. Inr (object t))"

definition get_thread_id :: "ic_int_threadpool_state \<Rightarrow> guint32 \<Rightarrow> fault + guint32" where
  "get_thread_id tp i = c_bind (get_ts tp i) (\<lambda>t. Inr (thread_id t))"

definition ts_get_stop_flag :: "bool \<Rightarrow> ic_int_threadpool_state \<Rightarrow> guint32 \<Rightarrow> fault + (bool \<times> ic_int_threadpool_state)" where
  "ts_get_stop_flag g tp i =
     c_bind (if g then upd_ts tp i (\<lambda>t. t\<lparr>ts_stop_flag := True\<rparr>) else Inr tp) (\<lambda>tp.
     c_bind (get_ts tp i) (\<lambda>t. Inr (ts_stop_flag t, tp)))"

section \<open>Creating and stopping a pool\<close>

text \<open>The mutexes, conditions and memory blocks in use.\<close>

record tp_res = r_mutexes :: nat  r_conds :: nat  r_blocks :: nat

definition ic_mutex_create :: "allocs \<Rightarrow> tp_res \<Rightarrow> fault + (tp_res \<times> allocs)" where
  "ic_mutex_create as r = (case alloc_next as of (ok, as) \<Rightarrow> if ok then Inr (r\<lparr>r_mutexes := r_mutexes r + 1\<rparr>, as) else Inl NullDeref)"

definition ic_cond_create :: "allocs \<Rightarrow> tp_res \<Rightarrow> bool \<times> tp_res \<times> allocs" where
  "ic_cond_create as r = (case alloc_next as of (ok, as) \<Rightarrow> (ok, if ok then r\<lparr>r_conds := r_conds r + 1\<rparr> else r, as))"

fun destroy_states :: "ic_int_threadpool_state \<Rightarrow> tp_res \<Rightarrow> nat list \<Rightarrow> fault + tp_res" where
  "destroy_states tp r [] = Inr r"
| "destroy_states tp r (i # is) =
     c_bind (get_ts tp (of_nat i)) (\<lambda>t.
       let r = (if internal_mutex t \<noteq> None then r\<lparr>r_mutexes := r_mutexes r - 1\<rparr> else r);
           r = (if internal_cond t \<noteq> None then r\<lparr>r_conds := r_conds r - 1\<rparr> else r)
       in destroy_states tp r is)"

definition free_threadpool :: "ic_int_threadpool_state \<Rightarrow> tp_res \<Rightarrow> fault + tp_res" where
  "free_threadpool tp r =
     c_bind (if thread_state_allocation tp
             then c_bind (destroy_states tp r [0..<unat (threadpool_size tp)]) (\<lambda>r. Inr (r\<lparr>r_blocks := r_blocks r - 1\<rparr>))
             else Inr r) (\<lambda>r.
     Inr (r\<lparr>r_blocks := r_blocks r - (if thread_state_array tp then 1 else 0) - 1,
            r_mutexes := r_mutexes r - (if stop_list_mutex tp then 1 else 0) - (if free_list_mutex tp then 1 else 0),
            r_conds := r_conds r - (if stop_list_cond tp then 1 else 0)\<rparr>))"


text \<open>
  The loop of \<^verbatim>\<open>ic_create_threadpool\<close>. \<open>sz\<close> is the size of a thread object; the block for all of them has
  \<open>pool_size * sz\<close> bytes, computed in 32 bits. The result says whether all conditions could be created.
\<close>

fun create_loop :: "guint32 \<Rightarrow> guint32 \<Rightarrow> allocs \<Rightarrow> ic_int_threadpool_state \<Rightarrow> tp_res \<Rightarrow> nat list \<Rightarrow> fault + (bool \<times> ic_int_threadpool_state \<times> tp_res \<times> allocs)" where
  "create_loop pool_size sz as tp r [] = Inr (True, tp, r, as)"
| "create_loop pool_size sz as tp r (i # is) =
     (if unat (pool_size * sz) < (i + 1) * unat sz then Inl OutOfBounds
      else c_bind (ic_mutex_create as r) (\<lambda>(r, as). case ic_cond_create as r of (ok, r, as) \<Rightarrow>
        let cond = (if ok then Some 0 else None);
            t = zero_thread_state\<lparr>thread_id := of_nat i, ts_mutex := Some 0, internal_mutex := Some 0, ts_cond := cond, internal_cond := cond\<rparr> in
        c_bind (wr (thread_state tp) i (Some t)) (\<lambda>ts. let tp = tp\<lparr>thread_state := ts\<rparr> in
          if \<not> ok then Inr (False, tp, r, as)
          else c_bind (free_thread tp (of_nat i)) (\<lambda>tp. create_loop pool_size sz as tp r is))))"

definition ic_create_threadpool :: "allocs \<Rightarrow> tp_res \<Rightarrow> guint32 \<Rightarrow> guint32 \<Rightarrow> fault + (ic_int_threadpool_state option \<times> tp_res \<times> allocs)" where
  "ic_create_threadpool as r sz pool_size =
     (let mem_alloc_error = (\<lambda>tp r as. c_bind (free_threadpool tp r) (\<lambda>r. Inr (None, r, as)));
          blk = (\<lambda>r. r\<lparr>r_blocks := r_blocks r + 1\<rparr>) in
      case alloc_next as of (ok, as) \<Rightarrow> if \<not> ok then Inr (None, r, as)
      else let r = blk r; tp = zero_threadpool in case alloc_next as of (ok, as) \<Rightarrow> if \<not> ok then mem_alloc_error tp r as
      else let r = blk r; tp = tp\<lparr>thread_state_array := True, thread_state := replicate (unat pool_size) None\<rparr> in
        case alloc_next as of (ok, as) \<Rightarrow> if \<not> ok then mem_alloc_error tp r as
      else let r = blk r; tp = tp\<lparr>thread_state_allocation := True\<rparr> in
        c_bind (ic_mutex_create as r) (\<lambda>(r, as). let tp = tp\<lparr>stop_list_mutex := True\<rparr> in
        case ic_cond_create as r of (ok, r, as) \<Rightarrow> if \<not> ok then mem_alloc_error tp r as
      else let tp = tp\<lparr>stop_list_cond := True\<rparr> in
        c_bind (ic_mutex_create as r) (\<lambda>(r, as).
        let tp = tp\<lparr>free_list_mutex := True, threadpool_size := pool_size, num_thread_allocations := 0,
                    first_free_thread_id := IC_MAX_UINT32, first_stopped_thread_id := IC_MAX_UINT32\<rparr> in
        c_bind (create_loop pool_size sz as tp r [0..<unat pool_size]) (\<lambda>(ok, tp, r, as).
          if ok then Inr (Some tp, r, as) else mem_alloc_error tp r as))))"

text \<open>
  Waiting for a free object: \<open>env\<close> gives for each second of sleep what other threads did to the pool, and whether the global flag
  or the flag of the pool the caller runs in was set when the loop condition was tested.
\<close>

type_synonym tp_env = "((ic_int_threadpool_state \<Rightarrow> ic_int_threadpool_state) \<times> bool) list"

fun get_thread_id_wait :: "tp_env \<Rightarrow> ic_int_threadpool_state \<Rightarrow> nat \<Rightarrow> nat \<Rightarrow> fault + (err \<times> guint32 option \<times> ic_int_threadpool_state)" where
  "get_thread_id_wait [] tp time_out_seconds loop_count = Inl Diverges"
| "get_thread_id_wait ((act, stop) # env) tp time_out_seconds loop_count =
     c_bind (get_free_thread_id tp) (\<lambda>(rc, r, tp).
       if rc \<noteq> 0 \<and> (time_out_seconds = 0 \<or> loop_count < time_out_seconds) \<and> \<not> stop
       then c_bind (check_threads (Suc (unat (threadpool_size tp))) (act tp)) (\<lambda>tp. get_thread_id_wait env tp time_out_seconds (loop_count + 1))
       else Inr (rc, r, tp))"

text \<open>Stopping a thread and waiting until it has stopped; the same kind of environment.\<close>

fun stop_wait_loop :: "tp_env \<Rightarrow> ic_int_threadpool_state \<Rightarrow> guint32 \<Rightarrow> fault + ic_int_threadpool_state" where
  "stop_wait_loop [] tp i = Inl Diverges"
| "stop_wait_loop ((act, stop) # env) tp i = c_bind (stop_wait_section tp i) (\<lambda>(joined, tp). if joined then Inr tp else stop_wait_loop env (act tp) i)"

definition stop_thread_wait :: "tp_env \<Rightarrow> ic_int_threadpool_state \<Rightarrow> guint32 \<Rightarrow> fault + ic_int_threadpool_state" where
  "stop_thread_wait env tp i = c_bind (stop_thread_without_wait tp i) (\<lambda>tp. stop_wait_loop env tp i)"

text \<open>
  Stopping the pool, the loop: it ends when all objects are free or after \<open>IC_MAX_WAIT_THREADPOOL_STOP\<close> seconds. Then the
  pool is freed, in the second case while threads still use it.
\<close>

fun stop_loop :: "tp_env \<Rightarrow> ic_int_threadpool_state \<Rightarrow> nat \<Rightarrow> fault + (bool \<times> ic_int_threadpool_state)" where
  "stop_loop [] tp loop_count = Inl Diverges"
| "stop_loop ((act, stop) # env) tp loop_count =
     c_bind (check_threads (Suc (unat (threadpool_size tp))) tp) (\<lambda>tp.
       if num_free_threads tp = threadpool_size tp then Inr (True, tp)
       else if IC_MAX_WAIT_THREADPOOL_STOP < loop_count then Inr (False, tp)
       else stop_loop env (act tp) (loop_count + 1))"

definition stop_threadpool :: "tp_env \<Rightarrow> ic_int_threadpool_state \<Rightarrow> tp_res \<Rightarrow> fault + (bool \<times> tp_res)" where
  "stop_threadpool env tp r =
     c_bind (set_stop_flag tp) (\<lambda>tp. c_bind (stop_loop env tp 0) (\<lambda>(all_free, tp). c_bind (free_threadpool tp r) (\<lambda>r. Inr (all_free, r))))"

definition ic_tp_get_stop_flag :: "bool \<Rightarrow> ic_int_threadpool_state option \<Rightarrow> bool" where
  "ic_tp_get_stop_flag g own = (if g then True else case own of None \<Rightarrow> False | Some tp \<Rightarrow> tp_stop_flag tp)"

text \<open>\<open>flags\<close> are the results of \<^verbatim>\<open>ic_tp_get_stop_flag\<close> after each second; the result is the number of seconds slept.\<close>

fun ic_sleep :: "nat \<Rightarrow> bool list \<Rightarrow> nat" where
  "ic_sleep 0 flags = 0"
| "ic_sleep (Suc n) flags = (case flags of [] \<Rightarrow> Suc n | f # fs \<Rightarrow> if f then 1 else 1 + ic_sleep n fs)"

section \<open>Access to the objects\<close>

definition tso :: "ic_int_threadpool_state \<Rightarrow> guint32 \<Rightarrow> ic_int_thread_state" where
  "tso tp i = (case thread_state tp ! unat i of None \<Rightarrow> zero_thread_state | Some t \<Rightarrow> t)"

definition put :: "ic_int_threadpool_state \<Rightarrow> guint32 \<Rightarrow> ic_int_thread_state \<Rightarrow> ic_int_threadpool_state" where
  "put tp i t = tp\<lparr>thread_state := (thread_state tp)[unat i := Some t]\<rparr>"

definition shape :: "ic_int_threadpool_state \<Rightarrow> bool" where
  "shape tp \<longleftrightarrow> length (thread_state tp) = unat (threadpool_size tp) \<and> None \<notin> set (thread_state tp)"

lemma shape_slot:
  assumes "shape tp" and "i < threadpool_size tp"
  shows "unat i < length (thread_state tp)" and "thread_state tp ! unat i = Some (tso tp i)"
proof -
  show l: "unat i < length (thread_state tp)" using assms by (simp add: shape_def word_less_nat_alt)
  have "thread_state tp ! unat i \<noteq> None" using nth_mem [OF l] assms(1) unfolding shape_def by metis
  then show "thread_state tp ! unat i = Some (tso tp i)" by (auto simp: tso_def)
qed

lemma get_ts_ok [simp]: "shape tp \<Longrightarrow> i < threadpool_size tp \<Longrightarrow> get_ts tp i = Inr (tso tp i)"
  using shape_slot [of tp i] by (simp add: get_ts_def)

lemma upd_ts_ok [simp]: "shape tp \<Longrightarrow> i < threadpool_size tp \<Longrightarrow> upd_ts tp i f = Inr (put tp i (f (tso tp i)))"
  by (simp add: upd_ts_def put_def)

lemma put_shape [simp]: "shape tp \<Longrightarrow> shape (put tp i t)"
  by (auto simp: shape_def put_def dest: set_update_subset_insert [THEN subsetD])

lemma put_fields [simp]:
  "num_free_threads (put tp i t) = num_free_threads tp" "tp_stop_flag (put tp i t) = tp_stop_flag tp"
  "first_free_thread_id (put tp i t) = first_free_thread_id tp" "first_stopped_thread_id (put tp i t) = first_stopped_thread_id tp"
  "num_stopped_threads (put tp i t) = num_stopped_threads tp" "num_thread_allocations (put tp i t) = num_thread_allocations tp"
  "threadpool_size (put tp i t) = threadpool_size tp"
  by (simp_all add: put_def)

lemma tso_put [simp]:
  "shape tp \<Longrightarrow> i < threadpool_size tp \<Longrightarrow> tso (put tp i t) j = (if j = i then t else tso tp j)"
  using shape_slot(1) [of tp i] by (auto simp: tso_def put_def nth_list_update word_unat_eq_iff)

lemma shape_upd [simp]:
  "shape (tp\<lparr>num_free_threads := n\<rparr>) = shape tp" "shape (tp\<lparr>first_free_thread_id := x\<rparr>) = shape tp"
  "shape (tp\<lparr>first_stopped_thread_id := x\<rparr>) = shape tp" "shape (tp\<lparr>num_stopped_threads := n\<rparr>) = shape tp"
  "shape (tp\<lparr>num_thread_allocations := a\<rparr>) = shape tp" "shape (tp\<lparr>tp_stop_flag := b\<rparr>) = shape tp"
  by (simp_all add: shape_def)

lemma tso_upd [simp]:
  "tso (tp\<lparr>num_free_threads := n\<rparr>) = tso tp" "tso (tp\<lparr>first_free_thread_id := x\<rparr>) = tso tp"
  "tso (tp\<lparr>first_stopped_thread_id := x\<rparr>) = tso tp" "tso (tp\<lparr>num_stopped_threads := n\<rparr>) = tso tp"
  "tso (tp\<lparr>num_thread_allocations := a\<rparr>) = tso tp" "tso (tp\<lparr>tp_stop_flag := b\<rparr>) = tso tp"
  by (simp_all add: tso_def fun_eq_iff cong: option.case_cong)

section \<open>Linked lists of indices\<close>

fun linked :: "(guint32 \<Rightarrow> guint32) \<Rightarrow> guint32 \<Rightarrow> guint32 list \<Rightarrow> bool" where
  "linked nx f [] \<longleftrightarrow> f = IC_MAX_UINT32"
| "linked nx f (x # xs) \<longleftrightarrow> f = x \<and> linked nx (nx x) xs"

fun backed :: "(guint32 \<Rightarrow> guint32) \<Rightarrow> guint32 \<Rightarrow> guint32 list \<Rightarrow> bool" where
  "backed pv p [] \<longleftrightarrow> True"
| "backed pv p (x # xs) \<longleftrightarrow> pv x = p \<and> backed pv x xs"

lemma linked_cong: "(\<And>x. x \<in> set xs \<Longrightarrow> nx x = nx' x) \<Longrightarrow> linked nx f xs = linked nx' f xs"
  by (induction xs arbitrary: f) auto

lemma backed_cong: "(\<And>x. x \<in> set xs \<Longrightarrow> pv x = pv' x) \<Longrightarrow> backed pv p xs = backed pv' p xs"
  by (induction xs arbitrary: p) auto

lemma linked_next: "linked nx f xs \<Longrightarrow> i \<in> set xs \<Longrightarrow> nx i = IC_MAX_UINT32 \<or> nx i \<in> set (tl xs)"
proof (induction xs arbitrary: f)
  case (Cons x xs)
  then show ?case by (cases xs) auto
qed simp

lemma backed_prev: "backed pv p xs \<Longrightarrow> i \<in> set xs \<Longrightarrow> distinct xs \<Longrightarrow> pv i = p \<and> i = hd xs \<or> pv i \<in> set xs \<and> i \<noteq> hd xs"
proof (induction xs arbitrary: p)
  case (Cons x xs)
  show ?case
  proof (cases "i = x")
    case False
    then have "pv i = x \<or> pv i \<in> set xs" using Cons by auto
    then show ?thesis using False by auto
  qed (use Cons in simp)
qed simp

text \<open>Taking an element out of a doubly linked list.\<close>

lemma unlink_linked:
  assumes "linked nx f xs" and "backed pv p xs" and "distinct (p # xs)" and "i \<in> set xs"
  shows "linked (if pv i = p then nx else nx(pv i := nx i)) (if pv i = p then nx i else f) (remove1 i xs)"
  using assms
proof (induction xs arbitrary: f p)
  case (Cons x xs)
  show ?case
  proof (cases "i = x")
    case True
    then show ?thesis using Cons.prems by auto
  next
    case False
    then have i: "i \<in> set xs" using Cons.prems(4) by simp
    have bx: "backed pv x xs" "linked nx (nx x) xs" "distinct (x # xs)" "f = x" using Cons.prems by auto
    note ih = Cons.IH [OF bx(2,1,3) i]
    have "pv i = x \<or> pv i \<in> set xs" using backed_prev [OF bx(1) i] bx(3) by auto
    then have p: "pv i \<noteq> p" using Cons.prems(3) by auto
    show ?thesis
    proof (cases "pv i = x")
      case True
      have "linked (nx(x := nx i)) (nx i) (remove1 i xs) = linked nx (nx i) (remove1 i xs)"
        using bx(3) by (intro linked_cong) (auto dest: notin_set_remove1)
      then show ?thesis using ih True False p bx(4) by (simp add: fun_upd_def)
    next
      case False
      then show ?thesis using ih \<open>i \<noteq> x\<close> p bx(4) by (simp add: fun_upd_def)
    qed
  qed
qed simp

lemma unlink_backed:
  assumes "linked nx f xs" and "backed pv p xs" and "distinct (p # xs)" and "i \<in> set xs" and "IC_MAX_UINT32 \<notin> set xs"
  shows "backed (pv(nx i := pv i)) p (remove1 i xs)"
  using assms
proof (induction xs arbitrary: f p)
  case (Cons x xs)
  show ?case
  proof (cases "i = x")
    case True
    then show ?thesis
    proof (cases xs)
      case (Cons y ys)
      have "backed (pv(y := p)) y ys = backed pv y ys" using Cons.prems(3) Cons by (intro backed_cong) auto
      then show ?thesis using Cons.prems Cons True by (simp add: fun_upd_def)
    qed (use True in simp)
  next
    case False
    then have i: "i \<in> set xs" using Cons.prems(4) by simp
    have bx: "backed pv x xs" "linked nx (nx x) xs" "distinct (x # xs)" "IC_MAX_UINT32 \<notin> set xs" "pv x = p" using Cons.prems by auto
    have "nx i = IC_MAX_UINT32 \<or> nx i \<in> set xs" using linked_next [OF bx(2) i] by (cases xs) auto
    then have "nx i \<noteq> x" using Cons.prems(3,5) by auto
    then show ?thesis using Cons.IH [OF bx(2,1,3) i bx(4)] False bx(5) by simp
  qed
qed simp

section \<open>The two lists of a pool\<close>

abbreviation nxt :: "ic_int_threadpool_state \<Rightarrow> guint32 \<Rightarrow> guint32" where
  "nxt tp i \<equiv> next_thread_id (tso tp i)"

abbreviation prv :: "ic_int_threadpool_state \<Rightarrow> guint32 \<Rightarrow> guint32" where
  "prv tp i \<equiv> prev_thread_id (tso tp i)"

text \<open>\<open>fs\<close> is the free list and \<open>ss\<close> the list of stopped threads.\<close>

definition free_list :: "ic_int_threadpool_state \<Rightarrow> guint32 list \<Rightarrow> bool" where
  "free_list tp fs \<longleftrightarrow> linked (nxt tp) (first_free_thread_id tp) fs \<and> distinct fs \<and>
     set fs = {i. i < threadpool_size tp \<and> is_free (tso tp i)} \<and> num_free_threads tp = of_nat (length fs)"

definition stopped_list :: "ic_int_threadpool_state \<Rightarrow> guint32 list \<Rightarrow> bool" where
  "stopped_list tp ss \<longleftrightarrow> linked (nxt tp) (first_stopped_thread_id tp) ss \<and> backed (prv tp) IC_MAX_UINT32 ss \<and> distinct ss \<and>
     set ss = {i. i < threadpool_size tp \<and> stopped (tso tp i)} \<and> num_stopped_threads tp = of_nat (length ss)"

definition tp_lists :: "ic_int_threadpool_state \<Rightarrow> guint32 list \<Rightarrow> guint32 list \<Rightarrow> bool" where
  "tp_lists tp fs ss \<longleftrightarrow> shape tp \<and> free_list tp fs \<and> stopped_list tp ss \<and> set fs \<inter> set ss = {}"

lemma not_max: "(i :: guint32) < n \<Longrightarrow> i \<noteq> IC_MAX_UINT32"
  using unat_bound32 [of n] by (auto simp: IC_MAX_UINT32_def word_less_nat_alt)

text \<open>The fields other than the links.\<close>

definition core :: "ic_int_thread_state \<Rightarrow> ic_int_thread_state" where
  "core t = t\<lparr>next_thread_id := 0, prev_thread_id := 0\<rparr>"

lemma core_simps [simp]:
  "core (t\<lparr>next_thread_id := n\<rparr>) = core t" "core (t\<lparr>prev_thread_id := p\<rparr>) = core t"
  by (simp_all add: core_def)

text \<open>Only the object \<open>i\<close> changes, by \<open>f\<close>, apart from links.\<close>

definition only :: "guint32 \<Rightarrow> (ic_int_thread_state \<Rightarrow> ic_int_thread_state) \<Rightarrow> ic_int_threadpool_state \<Rightarrow> ic_int_threadpool_state \<Rightarrow> bool" where
  "only i f tp tp' \<longleftrightarrow> threadpool_size tp' = threadpool_size tp \<and> core (tso tp' i) = core (f (tso tp i)) \<and>
     (\<forall>j. j < threadpool_size tp \<and> j \<noteq> i \<longrightarrow> core (tso tp' j) = core (tso tp j))"

lemma get_free_empty: "tp_lists tp [] ss \<Longrightarrow> get_free_thread_id tp = Inr (IC_ERROR_THREADPOOL_FULL, None, tp)"
  by (simp add: tp_lists_def free_list_def get_free_thread_id_def)

lemma get_free_first:
  assumes "tp_lists tp (i # fs) ss"
  shows "\<exists>tp'. get_free_thread_id tp = Inr (0, Some i, tp') \<and> tp_lists tp' fs ss \<and> only i (\<lambda>t. t\<lparr>is_free := False\<rparr>) tp tp'"
proof -
  have sh: "shape tp" and fl: "free_list tp (i # fs)" and sl: "stopped_list tp ss" and dj: "set (i # fs) \<inter> set ss = {}"
    using assms by (simp_all add: tp_lists_def)
  have i: "i < threadpool_size tp" "is_free (tso tp i)" "first_free_thread_id tp = i" "i \<notin> set fs" "linked (nxt tp) (nxt tp i) fs"
    using fl by (auto simp: free_list_def)
  let ?t = "(tso tp i)\<lparr>next_thread_id := IC_MAX_UINT32, is_free := False\<rparr>"
  let ?tp = "put (tp\<lparr>first_free_thread_id := nxt tp i, num_free_threads := num_free_threads tp - 1, num_thread_allocations := num_thread_allocations tp + 1\<rparr>) i ?t"
  have e: "get_free_thread_id tp = Inr (0, Some i, ?tp)"
    using i sh not_max [OF i(1)] by (simp add: get_free_thread_id_def Let_def)
  have t: "tso ?tp j = (if j = i then ?t else tso tp j)" for j using sh i(1) by simp
  have "linked (nxt ?tp) (nxt tp i) fs = linked (nxt tp) (nxt tp i) fs" using i(4) by (intro linked_cong) (auto simp: t)
  moreover have "set fs = {j. j < threadpool_size tp \<and> is_free (tso ?tp j)}" using fl i(4) unfolding t by (auto simp: free_list_def)
  ultimately have "free_list ?tp fs" using fl i(5) by (simp add: free_list_def)
  moreover have "linked (nxt ?tp) (first_stopped_thread_id tp) ss = linked (nxt tp) (first_stopped_thread_id tp) ss"
    using dj by (intro linked_cong) (auto simp: t)
  moreover have "backed (prv ?tp) IC_MAX_UINT32 ss = backed (prv tp) IC_MAX_UINT32 ss" by (intro backed_cong) (simp add: t)
  moreover have "{j. j < threadpool_size tp \<and> stopped (tso ?tp j)} = {j. j < threadpool_size tp \<and> stopped (tso tp j)}" unfolding t by auto
  ultimately have "tp_lists ?tp fs ss" using sh sl dj by (simp add: tp_lists_def stopped_list_def)
  moreover have "only i (\<lambda>t. t\<lparr>is_free := False\<rparr>) tp ?tp" unfolding only_def t by (simp add: core_def)
  ultimately show ?thesis using e by blast
qed

text \<open>A change of an object that leaves its links and its two flags alone.\<close>

lemma put_keep:
  assumes "tp_lists tp fs ss" and "i < threadpool_size tp"
    and "next_thread_id (f (tso tp i)) = nxt tp i" and "prev_thread_id (f (tso tp i)) = prv tp i"
    and "is_free (f (tso tp i)) = is_free (tso tp i)" and "stopped (f (tso tp i)) = stopped (tso tp i)"
  shows "tp_lists (put tp i (f (tso tp i))) fs ss" and "only i f tp (put tp i (f (tso tp i)))"
proof -
  have sh: "shape tp" using assms(1) by (simp add: tp_lists_def)
  have e: "nxt (put tp i (f (tso tp i))) = nxt tp" "prv (put tp i (f (tso tp i))) = prv tp"
    "(\<lambda>j. is_free (tso (put tp i (f (tso tp i))) j)) = (\<lambda>j. is_free (tso tp j))" "(\<lambda>j. stopped (tso (put tp i (f (tso tp i))) j)) = (\<lambda>j. stopped (tso tp j))"
    using sh assms by (auto simp: fun_eq_iff)
  have "free_list (put tp i (f (tso tp i))) fs" "stopped_list (put tp i (f (tso tp i))) ss"
    using assms(1) fun_cong [OF e(3)] fun_cong [OF e(4)] unfolding tp_lists_def free_list_def stopped_list_def e by simp_all
  then show "tp_lists (put tp i (f (tso tp i))) fs ss" using assms(1) by (simp add: tp_lists_def)
  show "only i f tp (put tp i (f (tso tp i)))" using sh assms(2) by (simp add: only_def)
qed

lemma insert_free_ok:
  assumes "tp_lists tp fs ss" and "i < threadpool_size tp" and "\<not> is_free (tso tp i)" and "\<not> stopped (tso tp i)"
  shows "\<exists>tp'. insert_free_list tp i = Inr tp' \<and> tp_lists tp' (i # fs) ss \<and> only i (\<lambda>t. t\<lparr>is_free := True\<rparr>) tp tp'"
proof -
  have sh: "shape tp" and fl: "free_list tp fs" and sl: "stopped_list tp ss" and dj: "set fs \<inter> set ss = {}"
    using assms(1) by (simp_all add: tp_lists_def)
  let ?t = "(tso tp i)\<lparr>next_thread_id := first_free_thread_id tp, is_free := True\<rparr>"
  let ?tp = "put ((put tp i ((tso tp i)\<lparr>next_thread_id := first_free_thread_id tp\<rparr>))\<lparr>first_free_thread_id := i, num_free_threads := num_free_threads tp + 1\<rparr>) i ?t"
  have e: "insert_free_list tp i = Inr ?tp" using sh assms(2,3) by (simp add: insert_free_list_def Let_def)
  have t: "tso ?tp j = (if j = i then ?t else tso tp j)" for j using sh assms(2) by simp
  have n: "i \<notin> set fs" "i \<notin> set ss" using fl sl assms(3,4) by (auto simp: free_list_def stopped_list_def)
  have "linked (nxt ?tp) (first_free_thread_id tp) fs = linked (nxt tp) (first_free_thread_id tp) fs" using n by (intro linked_cong) (auto simp: t)
  moreover have "set (i # fs) = {j. j < threadpool_size tp \<and> is_free (tso ?tp j)}" using fl assms(2) unfolding t by (auto simp: free_list_def)
  moreover have "nxt ?tp i = first_free_thread_id tp" by (simp add: t)
  ultimately have "free_list ?tp (i # fs)" using fl n by (simp add: free_list_def)
  moreover have "linked (nxt ?tp) (first_stopped_thread_id tp) ss = linked (nxt tp) (first_stopped_thread_id tp) ss"
    using n by (intro linked_cong) (auto simp: t)
  moreover have "backed (prv ?tp) IC_MAX_UINT32 ss = backed (prv tp) IC_MAX_UINT32 ss" by (intro backed_cong) (simp add: t)
  moreover have "{j. j < threadpool_size tp \<and> stopped (tso ?tp j)} = {j. j < threadpool_size tp \<and> stopped (tso tp j)}" unfolding t by auto
  ultimately have "tp_lists ?tp (i # fs) ss" using sh sl dj n by (simp add: tp_lists_def stopped_list_def)
  moreover have "only i (\<lambda>t. t\<lparr>is_free := True\<rparr>) tp ?tp" unfolding only_def t by (simp add: core_def)
  ultimately show ?thesis using e by blast
qed

lemma insert_stopped_ok:
  assumes "tp_lists tp fs ss" and "i < threadpool_size tp" and "\<not> is_free (tso tp i)" and "\<not> stopped (tso tp i)"
  shows "\<exists>tp'. insert_stopped_list tp i = Inr tp' \<and> tp_lists tp' fs (i # ss) \<and> only i (\<lambda>t. t\<lparr>stopped := True, wait_for_stop := False\<rparr>) tp tp'"
proof -
  have sh: "shape tp" and fl: "free_list tp fs" and sl: "stopped_list tp ss" and dj: "set fs \<inter> set ss = {}"
    using assms(1) by (simp_all add: tp_lists_def)
  let ?f = "first_stopped_thread_id tp"
  have n: "i \<notin> set fs" "i \<notin> set ss" using fl sl assms(3,4) by (auto simp: free_list_def stopped_list_def)
  have hd: "?f = (if ss = [] then IC_MAX_UINT32 else hd ss)" using sl by (cases ss) (auto simp: stopped_list_def)
  have fin: "ss \<noteq> [] \<Longrightarrow> ?f \<in> set ss \<and> ?f < threadpool_size tp \<and> ?f \<noteq> IC_MAX_UINT32 \<and> ?f \<noteq> i"
    using hd sl n(2) not_max [of ?f "threadpool_size tp"] hd_in_set [of ss] by (auto simp: stopped_list_def)
  let ?tp1 = "if ss = [] then tp else put tp ?f ((tso tp ?f)\<lparr>prev_thread_id := i\<rparr>)"
  let ?t = "(tso tp i)\<lparr>next_thread_id := ?f, prev_thread_id := IC_MAX_UINT32, stopped := True, wait_for_stop := False\<rparr>"
  have sh1: "shape ?tp1" "threadpool_size ?tp1 = threadpool_size tp" using sh by auto
  have t1: "tso ?tp1 j = (if ss \<noteq> [] \<and> j = ?f then (tso tp ?f)\<lparr>prev_thread_id := i\<rparr> else tso tp j)" for j
    using sh fin by auto
  define tp2 where "tp2 = put ?tp1 i ((tso tp i)\<lparr>next_thread_id := ?f, prev_thread_id := IC_MAX_UINT32\<rparr>)"
  have ti: "tso ?tp1 i = tso tp i" using t1 [of i] fin by auto
  define tp3 where "tp3 = (put tp2 i ?t)\<lparr>first_stopped_thread_id := i, num_stopped_threads := num_stopped_threads tp + 1\<rparr>"
  have sh2: "shape tp2" "threadpool_size tp2 = threadpool_size tp" "num_stopped_threads tp2 = num_stopped_threads tp"
    using sh1 by (auto simp: tp2_def)
  have f1: "(if ?f \<noteq> IC_MAX_UINT32 then upd_ts tp ?f (\<lambda>t. t\<lparr>prev_thread_id := i\<rparr>) else Inr tp) = Inr ?tp1"
    using hd fin sh by auto
  have t2: "tso tp2 i = (tso tp i)\<lparr>next_thread_id := ?f, prev_thread_id := IC_MAX_UINT32\<rparr>" using sh1 assms(2) by (simp add: tp2_def del: shape_upd)
  have e: "insert_stopped_list tp i = Inr tp3"
    unfolding insert_stopped_list_def Let_def f1
    using sh1 sh2 assms(2,4) ti t2 by (simp add: tp2_def [symmetric] tp3_def)
  have t: "tso tp3 j = (if j = i then ?t else if ss \<noteq> [] \<and> j = ?f then (tso tp ?f)\<lparr>prev_thread_id := i\<rparr> else tso tp j)" for j
    using sh1 sh2 assms(2) t1 [of j] by (simp add: tp3_def tp2_def)
  have fields: "first_free_thread_id tp3 = first_free_thread_id tp" "num_free_threads tp3 = num_free_threads tp" "threadpool_size tp3 = threadpool_size tp"
    "first_stopped_thread_id tp3 = i" "num_stopped_threads tp3 = num_stopped_threads tp + 1" "shape tp3"
    using sh2 by (auto simp: tp3_def tp2_def)
  have "linked (nxt tp3) (first_free_thread_id tp) fs = linked (nxt tp) (first_free_thread_id tp) fs" using n by (intro linked_cong) (auto simp: t)
  moreover have "{j. j < threadpool_size tp \<and> is_free (tso tp3 j)} = {j. j < threadpool_size tp \<and> is_free (tso tp j)}" unfolding t by auto
  ultimately have "free_list tp3 fs" using fl by (simp add: free_list_def fields)
  moreover have "stopped_list tp3 (i # ss)"
  proof -
    have "linked (nxt tp3) ?f ss = linked (nxt tp) ?f ss" using n by (intro linked_cong) (auto simp: t)
    moreover have "nxt tp3 i = ?f" "prv tp3 i = IC_MAX_UINT32" by (simp_all add: t)
    moreover have "backed (prv tp3) i ss"
    proof (cases ss)
      case (Cons x xs)
      have x: "?f = x" "x \<noteq> i" using hd n(2) Cons by auto
      have "backed (prv tp3) x xs = backed (prv tp) x xs" using sl n(2) Cons x by (intro backed_cong) (auto simp: t stopped_list_def)
      then show ?thesis using sl Cons x by (simp add: t stopped_list_def)
    qed simp
    moreover have "set (i # ss) = {j. j < threadpool_size tp \<and> stopped (tso tp3 j)}" using sl assms(2) unfolding t by (auto simp: stopped_list_def)
    ultimately show ?thesis using sl n(2) by (simp add: stopped_list_def fields)
  qed
  ultimately have "tp_lists tp3 fs (i # ss)" using dj n fields(6) by (simp add: tp_lists_def)
  moreover have "only i (\<lambda>t. t\<lparr>stopped := True, wait_for_stop := False\<rparr>) tp tp3" unfolding only_def t by (auto simp: core_def fields)
  ultimately show ?thesis using e by blast
qed

lemma linked_next_ne: "linked nx f xs \<Longrightarrow> distinct xs \<Longrightarrow> i \<in> set xs \<Longrightarrow> nx i = IC_MAX_UINT32 \<or> nx i \<in> set xs \<and> nx i \<noteq> i"
proof (induction xs arbitrary: f)
  case (Cons x xs)
  then show ?case by (cases xs) auto
qed simp

lemma backed_prev_ne: "backed pv p xs \<Longrightarrow> distinct (p # xs) \<Longrightarrow> i \<in> set xs \<Longrightarrow> pv i \<noteq> i"
proof (induction xs arbitrary: p)
  case (Cons x xs)
  then show ?case by (cases "i = x") auto
qed simp

lemma remove_stopped_ok:
  assumes "tp_lists tp fs ss" and "i < threadpool_size tp" and "stopped (tso tp i)"
  shows "\<exists>tp'. remove_stopped_list tp i = Inr tp' \<and> tp_lists tp' fs (remove1 i ss) \<and> only i (\<lambda>t. t\<lparr>stopped := False\<rparr>) tp tp'"
proof -
  have sh: "shape tp" and fl: "free_list tp fs" and sl: "stopped_list tp ss" and dj: "set fs \<inter> set ss = {}"
    using assms(1) by (simp_all add: tp_lists_def)
  have iss: "i \<in> set ss" using sl assms(2,3) by (simp add: stopped_list_def)
  have mx: "IC_MAX_UINT32 \<notin> set ss" using sl not_max by (auto simp: stopped_list_def)
  let ?p = "prv tp i" and ?n = "nxt tp i"
  have lk: "linked (nxt tp) (first_stopped_thread_id tp) ss" "backed (prv tp) IC_MAX_UINT32 ss" "distinct ss" using sl by (simp_all add: stopped_list_def)
  have dm: "distinct (IC_MAX_UINT32 # ss)" using lk(3) mx by simp
  have p: "?p \<noteq> IC_MAX_UINT32 \<Longrightarrow> ?p \<in> set ss \<and> ?p < threadpool_size tp \<and> ?p \<noteq> i"
    using backed_prev [OF lk(2) iss lk(3)] backed_prev_ne [OF lk(2) dm iss] sl by (auto simp: stopped_list_def)
  have n: "?n \<noteq> IC_MAX_UINT32 \<Longrightarrow> ?n \<in> set ss \<and> ?n < threadpool_size tp \<and> ?n \<noteq> i"
    using linked_next_ne [OF lk(1,3) iss] sl by (auto simp: stopped_list_def)
  define tp1 where "tp1 = (if ?p \<noteq> IC_MAX_UINT32 then put tp ?p ((tso tp ?p)\<lparr>next_thread_id := ?n\<rparr>) else tp\<lparr>first_stopped_thread_id := ?n\<rparr>)"
  define tp2 where "tp2 = (if ?n \<noteq> IC_MAX_UINT32 then put tp1 ?n ((tso tp1 ?n)\<lparr>prev_thread_id := ?p\<rparr>) else tp1)"
  define tp3 where "tp3 = put (tp2\<lparr>num_stopped_threads := num_stopped_threads tp - 1\<rparr>) i ((tso tp i)\<lparr>stopped := False\<rparr>)"
  have sh1: "shape tp1" "threadpool_size tp1 = threadpool_size tp" using sh by (auto simp: tp1_def)
  have sh2: "shape tp2" "threadpool_size tp2 = threadpool_size tp" "num_stopped_threads tp2 = num_stopped_threads tp" using sh1 by (auto simp: tp2_def tp1_def)
  have t1: "tso tp1 j = (if ?p \<noteq> IC_MAX_UINT32 \<and> j = ?p then (tso tp ?p)\<lparr>next_thread_id := ?n\<rparr> else tso tp j)" for j
    using sh p by (auto simp: tp1_def)
  have t2: "tso tp2 j = (if ?n \<noteq> IC_MAX_UINT32 \<and> j = ?n then (tso tp1 ?n)\<lparr>prev_thread_id := ?p\<rparr> else tso tp1 j)" for j
    using sh1 n by (auto simp: tp2_def)
  have ti: "tso tp2 i = tso tp i" using t1 [of i] t2 [of i] p n by auto
  have u1: "(if ?p \<noteq> IC_MAX_UINT32 then upd_ts tp ?p (\<lambda>t. t\<lparr>next_thread_id := ?n\<rparr>) else Inr (tp\<lparr>first_stopped_thread_id := ?n\<rparr>)) = Inr tp1"
    using sh p by (auto simp: tp1_def)
  have u2: "(if ?n \<noteq> IC_MAX_UINT32 then upd_ts tp1 ?n (\<lambda>t. t\<lparr>prev_thread_id := ?p\<rparr>) else Inr tp1) = Inr tp2"
    using sh1 n by (auto simp: tp2_def)
  have e: "remove_stopped_list tp i = Inr tp3"
    unfolding remove_stopped_list_def Let_def get_ts_ok [OF sh assms(2)] c_bind_simps u1 u2
    using sh2 assms(2,3) ti by (simp add: tp3_def)
  have t3: "tso tp3 j = (if j = i then (tso tp i)\<lparr>stopped := False\<rparr> else tso tp2 j)" for j using sh2 assms(2) by (simp add: tp3_def)
  have nx: "nxt tp3 = (if ?p = IC_MAX_UINT32 then nxt tp else (nxt tp)(?p := ?n))" using t1 t2 p n by (auto simp: t3 fun_eq_iff)
  have pv: "prv tp3 j = ((prv tp)(?n := ?p)) j" if "j \<noteq> IC_MAX_UINT32" for j using t1 t2 p n that by (auto simp: t3)
  have co: "core (tso tp3 j) = (if j = i then core ((tso tp i)\<lparr>stopped := False\<rparr>) else core (tso tp j))" for j
    unfolding t3 t2 t1 by simp
  have fr: "is_free (tso tp3 j) = is_free (tso tp j)" "stopped (tso tp3 j) = (j \<noteq> i \<and> stopped (tso tp j))" for j
    unfolding t3 t2 t1 by auto
  have fields: "first_free_thread_id tp3 = first_free_thread_id tp" "num_free_threads tp3 = num_free_threads tp" "threadpool_size tp3 = threadpool_size tp"
    "first_stopped_thread_id tp3 = (if ?p = IC_MAX_UINT32 then ?n else first_stopped_thread_id tp)" "num_stopped_threads tp3 = num_stopped_threads tp - 1" "shape tp3"
    using sh2 by (auto simp: tp3_def tp2_def tp1_def)
  have "linked (nxt tp3) (first_free_thread_id tp) fs = linked (nxt tp) (first_free_thread_id tp) fs"
    using p dj by (intro linked_cong) (auto simp: fun_cong [OF nx])
  then have "free_list tp3 fs" using fl by (simp add: free_list_def fields fr)
  moreover have "stopped_list tp3 (remove1 i ss)"
  proof -
    have "linked (nxt tp3) (first_stopped_thread_id tp3) (remove1 i ss)" using unlink_linked [OF lk(1,2) dm iss] unfolding nx fields by simp
    moreover have "backed (prv tp3) IC_MAX_UINT32 (remove1 i ss) = backed ((prv tp)(?n := ?p)) IC_MAX_UINT32 (remove1 i ss)"
      using mx by (intro backed_cong pv) (auto dest: notin_set_remove1)
    moreover have "num_stopped_threads tp3 = of_nat (length (remove1 i ss))"
    proof -
      obtain k where k: "length ss = Suc k" using length_pos_if_in_set [OF iss] gr0_implies_Suc by blast
      then have "length (remove1 i ss) = k" using iss by (simp add: length_remove1)
      then show ?thesis using sl k by (simp add: fields stopped_list_def)
    qed
    moreover have "set (remove1 i ss) = {j. j < threadpool_size tp3 \<and> stopped (tso tp3 j)}" using sl by (auto simp: fields fr stopped_list_def)
    ultimately show ?thesis using unlink_backed [OF lk(1,2) dm iss mx] lk(3) by (simp add: stopped_list_def)
  qed
  moreover have "set fs \<inter> set (remove1 i ss) = {}" using dj lk(3) by auto
  ultimately have "tp_lists tp3 fs (remove1 i ss)" using fields(6) by (simp add: tp_lists_def)
  moreover have "only i (\<lambda>t. t\<lparr>stopped := False\<rparr>) tp tp3" using co by (simp add: only_def fields)
  ultimately show ?thesis using e by blast
qed

end
