(* ===== verification/IC_Threadpool_Run.thy ===== *)
theory IC_Threadpool_Run
  imports IC_Threadpool
begin

text \<open>
  The threads of a pool and the thread that manages them: the phases of a thread object, the invariant of the pool, its
  preservation by every section of \<^verbatim>\<open>src/util/ic_threadpool.c\<close>, the creation of a pool, the end of the waiting
  loops, and the executions in which the pool fails.
\<close>

section \<open>The life of a thread object\<close>

text \<open>
  The phases: in the free list; given out; thread created (with or without synchronisation of the start); thread
  running; thread in the list of stopped threads but not yet at its end; thread at its end.
\<close>

datatype phase = Idle | Taken | Created bool | Running | Stopping | Ended

fun phase_ok :: "phase \<Rightarrow> ic_int_thread_state \<Rightarrow> bool" where
  "phase_ok Idle t \<longleftrightarrow> is_free t \<and> \<not> stopped t \<and> \<not> started t \<and> \<not> synch_startup t \<and> \<not> thread t"
| "phase_ok Taken t \<longleftrightarrow> \<not> is_free t \<and> \<not> stopped t \<and> \<not> started t \<and> \<not> synch_startup t \<and> \<not> thread t"
| "phase_ok (Created s) t \<longleftrightarrow> \<not> is_free t \<and> \<not> stopped t \<and> \<not> started t \<and> thread t \<and> synch_startup t = s"
| "phase_ok Running t \<longleftrightarrow> \<not> is_free t \<and> \<not> stopped t \<and> started t \<and> thread t"
| "phase_ok Stopping t \<longleftrightarrow> \<not> is_free t \<and> stopped t \<and> started t \<and> thread t"
| "phase_ok Ended t \<longleftrightarrow> \<not> is_free t \<and> stopped t \<and> \<not> started t \<and> \<not> synch_startup t \<and> thread t"

definition synchronisers :: "ic_int_thread_state \<Rightarrow> bool" where
  "synchronisers t \<longleftrightarrow> ts_mutex t \<noteq> None \<and> ts_cond t \<noteq> None \<and> internal_mutex t \<noteq> None \<and> internal_cond t \<noteq> None"

definition obj_ok :: "phase \<Rightarrow> ic_int_thread_state \<Rightarrow> bool" where
  "obj_ok p t \<longleftrightarrow> phase_ok p t \<and> synchronisers t"

definition obj_fields :: "ic_int_thread_state \<Rightarrow> bool list \<times> nat option list" where
  "obj_fields t = ([is_free t, stopped t, started t, synch_startup t, thread t], [ts_mutex t, ts_cond t, internal_mutex t, internal_cond t])"

lemma core_fields: "core t = core t' \<Longrightarrow> obj_fields t = obj_fields t'"
  by (cases t, cases t') (simp add: core_def obj_fields_def)

lemma obj_ok_core: "core t = core t' \<Longrightarrow> obj_ok p t = obj_ok p t'"
  using core_fields [of t t'] by (cases p) (auto simp: obj_ok_def synchronisers_def obj_fields_def)

type_synonym tp_sys = "ic_int_threadpool_state \<times> (guint32 \<Rightarrow> phase) \<times> bool"

definition pool_ok :: "tp_sys \<Rightarrow> bool" where
  "pool_ok s = (case s of (tp, ph, g) \<Rightarrow> (\<exists>fs ss. tp_lists tp fs ss) \<and> (\<forall>i. if i < threadpool_size tp then obj_ok (ph i) (tso tp i) else ph i = Idle))"

lemma pool_okI:
  assumes "tp_lists tp' fs' ss'" and "pool_ok (tp, ph, g)" and "only i f tp tp'" and "i < threadpool_size tp" and "obj_ok p (f (tso tp i))"
  shows "pool_ok (tp', ph(i := p), g')"
  using assms obj_ok_core [of "tso tp' i" "f (tso tp i)" p] obj_ok_core [of "tso tp' j" "tso tp j" "ph j" for j]
  by (auto simp: pool_ok_def only_def)

lemma only_trans:
  "only i f tp tp' \<Longrightarrow> only i h tp' tp'' \<Longrightarrow> (\<And>t t'. core t = core t' \<Longrightarrow> core (h t) = core (h t')) \<Longrightarrow> only i (\<lambda>t. h (f t)) tp tp''"
  unfolding only_def by metis

lemma lock_ok: "shape tp \<Longrightarrow> i < threadpool_size tp \<Longrightarrow> synchronisers (tso tp i) \<Longrightarrow> lock_ts tp i = Inr (tso tp i)"
  by (simp add: lock_ts_def synchronisers_def)

text \<open>Putting an object back into the free list.\<close>

definition reset_obj :: "ic_int_thread_state \<Rightarrow> ic_int_thread_state" where
  "reset_obj t = reset_external (t\<lparr>inited := True, thread := False, object := None, is_free := True, started := False, startup_done := False,
     startup_ready_to_proceed := False, synch_startup := False, ts_stop_flag := False\<rparr>)"

lemma free_thread_ok:
  assumes "tp_lists tp fs ss" and "i < threadpool_size tp" and "\<not> is_free (tso tp i)" and "\<not> stopped (tso tp i)"
    and "\<not> synch_startup (tso tp i)" and "synchronisers (tso tp i)"
  shows "\<exists>tp'. free_thread tp i = Inr tp' \<and> tp_lists tp' (i # fs) ss \<and> only i reset_obj tp tp'"
proof -
  let ?f1 = "\<lambda>t. t\<lparr>inited := True, thread := False, object := None\<rparr>"
  let ?f3 = "\<lambda>t. t\<lparr>started := False, startup_done := False, startup_ready_to_proceed := False, synch_startup := False, ts_stop_flag := False\<rparr>"
  let ?tp1 = "put tp i (?f1 (tso tp i))"
  have sh: "shape tp" using assms(1) by (simp add: tp_lists_def)
  have l1: "tp_lists ?tp1 fs ss" and o1: "only i ?f1 tp ?tp1" using put_keep [OF assms(1,2), of ?f1] by simp_all
  have i1: "i < threadpool_size ?tp1" "\<not> is_free (tso ?tp1 i)" "\<not> stopped (tso ?tp1 i)" using sh assms by simp_all
  obtain tp2 where r2: "insert_free_list ?tp1 i = Inr tp2" and l2: "tp_lists tp2 (i # fs) ss" and o2: "only i (\<lambda>t. t\<lparr>is_free := True\<rparr>) ?tp1 tp2"
    using insert_free_ok [OF l1 i1] by blast
  have sz2: "i < threadpool_size tp2" "shape tp2" using o2 i1(1) l2 by (simp_all add: only_def tp_lists_def)
  have c2: "core (tso tp2 i) = core ((?f1 (tso tp i))\<lparr>is_free := True\<rparr>)" using o2 sh assms(2) by (simp add: only_def)
  have s2: "synchronisers (tso tp2 i)" "\<not> synch_startup (tso tp2 i)"
    using core_fields [OF c2] assms(5,6) by (auto simp: obj_fields_def synchronisers_def)
  let ?tp3 = "put tp2 i (?f3 (tso tp2 i))"
  have l3: "tp_lists ?tp3 (i # fs) ss" and o3: "only i ?f3 tp2 ?tp3" using put_keep [OF l2 sz2(1), of ?f3] by simp_all
  have sz3: "i < threadpool_size ?tp3" "shape ?tp3" using sz2 by simp_all
  let ?tp4 = "put ?tp3 i (reset_external (tso ?tp3 i))"
  have l4: "tp_lists ?tp4 (i # fs) ss" and o4: "only i reset_external ?tp3 ?tp4"
    using put_keep [OF l3 sz3(1), of reset_external] by (simp_all add: reset_external_def Let_def)
  have "free_thread tp i = Inr ?tp4"
    using r2 sh assms(2) sz2 s2 lock_ok [OF sz2(2,1) s2(1)]
    by (simp add: free_thread_def free_thread_list_def free_thread_reset_def)
  moreover have "only i reset_obj tp ?tp4"
  proof -
    have c1: "core (t\<lparr>is_free := True\<rparr>) = core (t'\<lparr>is_free := True\<rparr>)" if "core t = core t'" for t t'
      using that by (cases t, cases t') (simp add: core_def)
    have c3: "core (?f3 t) = core (?f3 t')" if "core t = core t'" for t t' using that by (cases t, cases t') (simp add: core_def)
    have c4: "core (reset_external t) = core (reset_external t')" if "core t = core t'" for t t'
      using that by (cases t, cases t') (simp add: core_def reset_external_def Let_def)
    have "only i (\<lambda>t. reset_external (?f3 ((?f1 t)\<lparr>is_free := True\<rparr>))) tp ?tp4"
      using only_trans [OF only_trans [OF only_trans [OF o1 o2 c1] o3 c3] o4 c4] by simp
    then show ?thesis unfolding reset_obj_def by simp
  qed
  ultimately show ?thesis using l4 by blast
qed

lemma reset_obj_idle: "synchronisers t \<Longrightarrow> \<not> stopped t \<Longrightarrow> obj_ok Idle (reset_obj t)"
  by (simp add: obj_ok_def synchronisers_def reset_obj_def reset_external_def Let_def)

section \<open>Interleavings of the managing thread with the threads of the pool\<close>

text \<open>
  The actions: first those of the managing thread, then those of the threads of the pool. \<open>exec_act\<close> runs the sections of the code;
  \<open>act_ok\<close> says when an action can happen: waits are over, and the managing thread only uses objects it has
  been given and does not ask for the synchronised start of a thread that cannot be created.
\<close>

datatype tp_act =
    A_Get | A_Free_Id guint32 | A_Start guint32 nat bool bool | A_Start_End guint32 | A_Run guint32 | A_Stop guint32
  | A_Stop_Wait guint32 | A_Check | A_Join guint32 | A_Set_Stop_Flag | A_Wake guint32 | A_Global_Stop
  | W_Started guint32 | W_Startup_Done guint32 | W_Stops guint32 | W_Stops_End guint32 | W_Wait guint32
  | W_Set_Mutex guint32 nat | W_Set_Cond guint32 nat | W_Get_Stop_Flag guint32

fun act_ok :: "tp_act \<Rightarrow> tp_sys \<Rightarrow> bool" where
  "act_ok (A_Free_Id i) (tp, ph, g) \<longleftrightarrow> ph i = Taken"
| "act_ok (A_Start i obj synch created) (tp, ph, g) \<longleftrightarrow> ph i = Taken \<and> (created \<or> \<not> synch)"
| "act_ok (A_Start_End i) (tp, ph, g) \<longleftrightarrow> ph i \<notin> {Idle, Taken} \<and> start_wait_over g (tso tp i) \<and> (ts_stop_flag (tso tp i) \<or> g \<longrightarrow> ph i = Ended)"
| "act_ok (A_Run i) (tp, ph, g) \<longleftrightarrow> ph i \<notin> {Idle, Taken} \<and> run_wait_over g (tso tp i)"
| "act_ok (A_Stop i) (tp, ph, g) \<longleftrightarrow> ph i \<noteq> Idle"
| "act_ok (A_Stop_Wait i) (tp, ph, g) \<longleftrightarrow> ph i \<notin> {Idle, Taken} \<and> (stopped (tso tp i) \<longrightarrow> ph i = Ended)"
| "act_ok A_Check (tp, ph, g) \<longleftrightarrow> first_stopped_thread_id tp = IC_MAX_UINT32 \<or> ph (first_stopped_thread_id tp) = Ended"
| "act_ok (A_Join i) (tp, ph, g) \<longleftrightarrow> ph i = Ended"
| "act_ok (A_Wake i) (tp, ph, g) \<longleftrightarrow> ph i \<noteq> Idle \<and> wait_wakeup (tso tp i)"
| "act_ok (W_Started i) (tp, ph, g) \<longleftrightarrow> ph i \<in> {Created True, Created False}"
| "act_ok (W_Startup_Done i) (tp, ph, g) \<longleftrightarrow> ph i = Running \<and> synch_startup (tso tp i)"
| "act_ok (W_Stops i) (tp, ph, g) \<longleftrightarrow> ph i = Running"
| "act_ok (W_Stops_End i) (tp, ph, g) \<longleftrightarrow> ph i = Stopping"
| "act_ok (W_Wait i) (tp, ph, g) \<longleftrightarrow> ph i = Running"
| "act_ok (W_Set_Mutex i m) (tp, ph, g) \<longleftrightarrow> ph i \<noteq> Idle"
| "act_ok (W_Set_Cond i c) (tp, ph, g) \<longleftrightarrow> ph i \<noteq> Idle"
| "act_ok (W_Get_Stop_Flag i) (tp, ph, g) \<longleftrightarrow> ph i \<noteq> Idle"
| "act_ok A_Get s \<longleftrightarrow> True"
| "act_ok A_Set_Stop_Flag s \<longleftrightarrow> True"
| "act_ok A_Global_Stop s \<longleftrightarrow> True"

definition with_phase :: "fault + ic_int_threadpool_state \<Rightarrow> (guint32 \<Rightarrow> phase) \<Rightarrow> bool \<Rightarrow> fault + tp_sys" where
  "with_phase r ph g = c_bind r (\<lambda>tp. Inr (tp, ph, g))"

fun exec_act :: "tp_act \<Rightarrow> tp_sys \<Rightarrow> fault + tp_sys" where
  "exec_act A_Get (tp, ph, g) = c_bind (get_free_thread_id tp) (\<lambda>(rc, r, tp). Inr (tp, (case r of None \<Rightarrow> ph | Some i \<Rightarrow> ph(i := Taken)), g))"
| "exec_act (A_Free_Id i) (tp, ph, g) = with_phase (free_thread_id tp i) (ph(i := Idle)) g"
| "exec_act (A_Start i obj synch created) (tp, ph, g) =
     c_bind (start_section tp i obj synch created) (\<lambda>(rc, tp). Inr (tp, ph(i := if rc = 0 then Created synch else Idle), g))"
| "exec_act (A_Start_End i) (tp, ph, g) = c_bind (start_end g tp i) (\<lambda>(rc, tp). Inr (tp, (if rc = 0 then ph else ph(i := Idle)), g))"
| "exec_act (A_Run i) (tp, ph, g) = with_phase (run_thread tp i) ph g"
| "exec_act (A_Stop i) (tp, ph, g) = with_phase (stop_thread_without_wait tp i) ph g"
| "exec_act (A_Stop_Wait i) (tp, ph, g) = c_bind (stop_wait_section tp i) (\<lambda>(joined, tp). Inr (tp, (if joined then ph(i := Idle) else ph), g))"
| "exec_act A_Check (tp, ph, g) = c_bind (check_round tp) (\<lambda>r. case r of None \<Rightarrow> Inr (tp, ph, g) | Some tp' \<Rightarrow> Inr (tp', ph(first_stopped_thread_id tp := Idle), g))"
| "exec_act (A_Join i) (tp, ph, g) = with_phase (join_thread tp i) (ph(i := Idle)) g"
| "exec_act A_Set_Stop_Flag (tp, ph, g) = with_phase (set_stop_flag tp) ph g"
| "exec_act (A_Wake i) (tp, ph, g) = with_phase (thread_wake tp i) ph g"
| "exec_act A_Global_Stop (tp, ph, g) = Inr (tp, ph, True)"
| "exec_act (W_Started i) (tp, ph, g) = with_phase (thread_started tp i) (ph(i := Running)) g"
| "exec_act (W_Startup_Done i) (tp, ph, g) = c_bind (thread_startup_done g tp i) (\<lambda>(r, tp). Inr (tp, ph, g))"
| "exec_act (W_Stops i) (tp, ph, g) = with_phase (insert_stopped_list tp i) (ph(i := Stopping)) g"
| "exec_act (W_Stops_End i) (tp, ph, g) = with_phase (thread_stops_end tp i) (ph(i := Ended)) g"
| "exec_act (W_Wait i) (tp, ph, g) = with_phase (thread_wait_begin tp i) ph g"
| "exec_act (W_Set_Mutex i m) (tp, ph, g) = with_phase (thread_set_mutex tp i (Some m)) ph g"
| "exec_act (W_Set_Cond i c) (tp, ph, g) = with_phase (thread_set_cond tp i (Some c)) ph g"
| "exec_act (W_Get_Stop_Flag i) (tp, ph, g) = c_bind (ts_get_stop_flag g tp i) (\<lambda>(r, tp). Inr (tp, ph, g))"

lemma pool_obj:
  assumes "pool_ok (tp, ph, g)" and "ph i \<noteq> Idle"
  shows "i < threadpool_size tp" and "obj_ok (ph i) (tso tp i)" and "synchronisers (tso tp i)"
  using assms by (auto simp: pool_ok_def obj_ok_def split: if_splits)

lemma pool_lists: "pool_ok (tp, ph, g) \<Longrightarrow> \<exists>fs ss. tp_lists tp fs ss"
  by (simp add: pool_ok_def)

lemma pool_shape: "pool_ok (tp, ph, g) \<Longrightarrow> shape tp"
  by (auto simp: pool_ok_def tp_lists_def)

text \<open>A section that changes an object without touching links and flags.\<close>

lemma plain_update:
  assumes "pool_ok (tp, ph, g)" and "i < threadpool_size tp" and "obj_ok p (f (tso tp i))"
    and "next_thread_id (f (tso tp i)) = nxt tp i" "prev_thread_id (f (tso tp i)) = prv tp i"
      "is_free (f (tso tp i)) = is_free (tso tp i)" "stopped (f (tso tp i)) = stopped (tso tp i)"
  shows "upd_ts tp i f = Inr (put tp i (f (tso tp i)))" and "pool_ok (put tp i (f (tso tp i)), ph(i := p), g')"
proof -
  obtain fs ss where l: "tp_lists tp fs ss" using pool_lists [OF assms(1)] by blast
  show "upd_ts tp i f = Inr (put tp i (f (tso tp i)))" using pool_shape [OF assms(1)] assms(2) by simp
  note pk = put_keep [where f = f, OF l assms(2) assms(4-7)]
  show "pool_ok (put tp i (f (tso tp i)), ph(i := p), g')" by (rule pool_okI [where f = f, OF pk(1) assms(1) pk(2) assms(2,3)])
qed

lemma plain_locked:
  assumes "pool_ok (tp, ph, g)" and "ph i \<noteq> Idle" and "obj_ok p (f (tso tp i))"
    and "next_thread_id (f (tso tp i)) = nxt tp i" "prev_thread_id (f (tso tp i)) = prv tp i"
      "is_free (f (tso tp i)) = is_free (tso tp i)" "stopped (f (tso tp i)) = stopped (tso tp i)"
  shows "\<exists>tp'. upd_ts tp i f = Inr tp' \<and> upd_locked tp i f = Inr tp' \<and> pool_ok (tp', ph(i := p), g')"
  using plain_update(1) [where f = f, OF assms(1) pool_obj(1) [OF assms(1,2)] assms(3-7)]
    plain_update(2) [where f = f, OF assms(1) pool_obj(1) [OF assms(1,2)] assms(3-7), of g'] lock_ok [OF pool_shape [OF assms(1)] pool_obj(1,3) [OF assms(1,2)]]
  by (auto simp: upd_locked_def)

lemma join_ok:
  assumes "pool_ok (tp, ph, g)" and "ph i = Ended"
  shows "\<exists>tp'. internal_join_thread tp i = Inr tp' \<and> pool_ok (tp', ph(i := Idle), g')"
proof -
  have i: "i < threadpool_size tp" "obj_ok Ended (tso tp i)" using pool_obj [OF assms(1), of i] assms(2) by auto
  obtain fs ss where l: "tp_lists tp fs ss" using pool_lists [OF assms(1)] by blast
  have st: "stopped (tso tp i)" using i(2) by (simp add: obj_ok_def)
  obtain tp1 where r1: "remove_stopped_list tp i = Inr tp1" "tp_lists tp1 fs (remove1 i ss)" "only i (\<lambda>t. t\<lparr>stopped := False\<rparr>) tp tp1"
    using remove_stopped_ok [OF l i(1) st] by blast
  have i1: "i < threadpool_size tp1" using r1(3) i(1) by (simp add: only_def)
  have c1: "core (tso tp1 i) = core ((tso tp i)\<lparr>stopped := False\<rparr>)" using r1(3) by (simp add: only_def)
  have o1: "obj_ok Taken ((tso tp1 i)\<lparr>thread := False\<rparr>) \<and> synchronisers (tso tp1 i)"
    using core_fields [OF c1] i(2) by (auto simp: obj_ok_def obj_fields_def synchronisers_def)
  obtain tp2 where r2: "free_thread tp1 i = Inr tp2" "tp_lists tp2 (i # fs) (remove1 i ss)" "only i reset_obj tp1 tp2"
    using free_thread_ok [OF r1(2) i1] o1 by (auto simp: obj_ok_def)
  have c: "core (reset_obj t) = core (reset_obj t')" if "core t = core t'" for t t'
    using that by (cases t, cases t') (simp add: core_def reset_obj_def reset_external_def Let_def)
  have "only i (\<lambda>t. reset_obj (t\<lparr>stopped := False\<rparr>)) tp tp2" by (rule only_trans [OF r1(3) r2(3) c])
  moreover have "obj_ok Idle (reset_obj ((tso tp i)\<lparr>stopped := False\<rparr>))"
    using i(2) by (intro reset_obj_idle) (auto simp: obj_ok_def synchronisers_def)
  ultimately have "pool_ok (tp2, ph(i := Idle), g')" using pool_okI [OF r2(2) assms(1) _ i(1)] by blast
  moreover have "internal_join_thread tp i = Inr tp2"
    using r1(1) r2(1) i(1) pool_shape [OF assms(1)] by (simp add: internal_join_thread_def)
  ultimately show ?thesis by blast
qed

lemma get_act_ok: "pool_ok s \<Longrightarrow> \<exists>s'. exec_act A_Get s = Inr s' \<and> pool_ok s'"
proof (cases s)
  case (fields tp ph g)
  assume "pool_ok s"
  then have ok: "pool_ok (tp, ph, g)" using fields by simp
  obtain fs ss where l: "tp_lists tp fs ss" using pool_lists [OF ok] by blast
  show ?thesis
  proof (cases fs)
    case Nil
    then show ?thesis using get_free_empty l ok fields by simp
  next
    case (Cons i fs')
    obtain tp' where g: "get_free_thread_id tp = Inr (0, Some i, tp')" "tp_lists tp' fs' ss" "only i (\<lambda>t. t\<lparr>is_free := False\<rparr>) tp tp'"
      using get_free_first l Cons by blast
    have i: "i < threadpool_size tp" "is_free (tso tp i)" using l Cons by (auto simp: tp_lists_def free_list_def)
    then have "obj_ok (ph i) (tso tp i)" using ok by (auto simp: pool_ok_def)
    then have "obj_ok Taken ((tso tp i)\<lparr>is_free := False\<rparr>)" using i(2) by (cases "ph i") (auto simp: obj_ok_def synchronisers_def)
    then show ?thesis using g pool_okI [OF g(2) ok g(3) i(1)] fields by simp
  qed
qed

lemma free_id_act_ok:
  assumes "pool_ok (tp, ph, g)" and "ph i = Taken"
  shows "\<exists>tp'. free_thread_id tp i = Inr tp' \<and> pool_ok (tp', ph(i := Idle), g)"
proof -
  have i: "i < threadpool_size tp" "obj_ok Taken (tso tp i)" using pool_obj [OF assms(1), of i] assms(2) by auto
  obtain fs ss where l: "tp_lists tp fs ss" using pool_lists [OF assms(1)] by blast
  obtain tp1 where r: "insert_free_list tp i = Inr tp1" "tp_lists tp1 (i # fs) ss" "only i (\<lambda>t. t\<lparr>is_free := True\<rparr>) tp tp1"
    using insert_free_ok [OF l i(1)] i(2) by (auto simp: obj_ok_def)
  have ok1: "pool_ok (tp1, ph(i := Idle), g)"
    by (rule pool_okI [OF r(2) assms(1) r(3) i(1)]) (use i(2) in \<open>auto simp: obj_ok_def synchronisers_def\<close>)
  have i1: "i < threadpool_size tp1" using r(3) i(1) by (simp add: only_def)
  have o1: "obj_ok Idle (tso tp1 i)" using ok1 i1 by (auto simp: pool_ok_def split: if_splits)
  have "obj_ok Idle (reset_external (tso tp1 i))" using o1 by (auto simp: obj_ok_def synchronisers_def reset_external_def Let_def)
  from plain_update(1) [where f = reset_external, OF ok1 i1 this] plain_update(2) [where f = reset_external and g' = g, OF ok1 i1 this]
  show ?thesis using r(1) by (simp add: free_thread_id_def reset_external_def Let_def)
qed

lemma start_act_ok:
  assumes "pool_ok (tp, ph, g)" and "ph i = Taken" and "created \<or> \<not> synch"
  shows "\<exists>rc tp'. start_section tp i obj synch created = Inr (rc, tp') \<and> threadpool_size tp' = threadpool_size tp \<and>
    pool_ok (tp', ph(i := if rc = 0 then Created synch else Idle), g)"
proof -
  have i: "i < threadpool_size tp" "obj_ok Taken (tso tp i)" using pool_obj [OF assms(1), of i] assms(2) by auto
  have sh: "shape tp" by (rule pool_shape [OF assms(1)])
  obtain fs ss where l: "tp_lists tp fs ss" using pool_lists [OF assms(1)] by blast
  let ?f = "\<lambda>t. t\<lparr>object := Some obj, synch_startup := synch\<rparr>"
  let ?tp1 = "put tp i (?f (tso tp i))"
  have l1: "tp_lists ?tp1 fs ss" and o1: "only i ?f tp ?tp1" using put_keep [OF l i(1), of ?f] by simp_all
  show ?thesis
  proof (cases created)
    case True
    let ?h = "\<lambda>t. t\<lparr>thread := True\<rparr>"
    let ?tp2 = "put ?tp1 i (?h (tso ?tp1 i))"
    have l2: "tp_lists ?tp2 fs ss" and o2: "only i ?h ?tp1 ?tp2" using put_keep [OF l1, of i ?h] i(1) by simp_all
    have c: "core (?h t) = core (?h t')" if "core t = core t'" for t t' using that by (cases t, cases t') (simp add: core_def)
    have "only i (\<lambda>t. ?h (?f t)) tp ?tp2" by (rule only_trans [OF o1 o2 c])
    moreover have "obj_ok (Created synch) (?h (?f (tso tp i)))" using i(2) by (auto simp: obj_ok_def synchronisers_def)
    ultimately have "pool_ok (?tp2, ph(i := Created synch), g)" by (intro pool_okI [OF l2 assms(1) _ i(1)])
    moreover have "start_section tp i obj synch created = Inr (0, ?tp2)"
      using True sh i by (auto simp: start_section_def obj_ok_def synchronisers_def)
    ultimately show ?thesis by (intro exI [of _ 0] exI [of _ ?tp2]) simp
  next
    case False
    then have ns: "\<not> synch" using assms(3) by simp
    obtain tp2 where r: "free_thread ?tp1 i = Inr tp2" "tp_lists tp2 (i # fs) ss" "only i reset_obj ?tp1 tp2"
      using free_thread_ok [OF l1, of i] i sh ns by (auto simp: obj_ok_def synchronisers_def)
    have c: "core (reset_obj t) = core (reset_obj t')" if "core t = core t'" for t t'
      using that by (cases t, cases t') (simp add: core_def reset_obj_def reset_external_def Let_def)
    have "only i (\<lambda>t. reset_obj (?f t)) tp tp2" by (rule only_trans [OF o1 r(3) c])
    moreover have "obj_ok Idle (reset_obj (?f (tso tp i)))" using i(2) by (intro reset_obj_idle) (auto simp: obj_ok_def synchronisers_def)
    ultimately have "pool_ok (tp2, ph(i := Idle), g)" by (intro pool_okI [OF r(2) assms(1) _ i(1)])
    moreover have "threadpool_size tp2 = threadpool_size tp" using r(3) by (simp add: only_def)
    moreover have "start_section tp i obj synch created = Inr (IC_ERROR_START_THREAD_FAILED, tp2)"
      using False sh i r(1) by (auto simp: start_section_def obj_ok_def synchronisers_def)
    ultimately show ?thesis by (intro exI [of _ IC_ERROR_START_THREAD_FAILED] exI [of _ tp2]) (simp add: err_codes)
  qed
qed

lemma stops_act_ok:
  assumes "pool_ok (tp, ph, g)" and "ph i = Running"
  shows "\<exists>tp'. insert_stopped_list tp i = Inr tp' \<and> pool_ok (tp', ph(i := Stopping), g)"
proof -
  have i: "i < threadpool_size tp" "obj_ok Running (tso tp i)" using pool_obj [OF assms(1), of i] assms(2) by auto
  obtain fs ss where l: "tp_lists tp fs ss" using pool_lists [OF assms(1)] by blast
  obtain tp1 where r: "insert_stopped_list tp i = Inr tp1" "tp_lists tp1 fs (i # ss)" "only i (\<lambda>t. t\<lparr>stopped := True, wait_for_stop := False\<rparr>) tp tp1"
    using insert_stopped_ok [OF l i(1)] i(2) by (auto simp: obj_ok_def)
  have "pool_ok (tp1, ph(i := Stopping), g)"
    by (rule pool_okI [OF r(2) assms(1) r(3) i(1)]) (use i(2) in \<open>auto simp: obj_ok_def synchronisers_def\<close>)
  then show ?thesis using r(1) by blast
qed

lemma check_act_ok:
  assumes "pool_ok (tp, ph, g)" and "first_stopped_thread_id tp \<noteq> IC_MAX_UINT32" and "ph (first_stopped_thread_id tp) = Ended"
  shows "\<exists>tp'. check_round tp = Inr (Some tp') \<and> pool_ok (tp', ph(first_stopped_thread_id tp := Idle), g)"
proof -
  let ?i = "first_stopped_thread_id tp"
  have i: "?i < threadpool_size tp" "obj_ok Ended (tso tp ?i)" using pool_obj [OF assms(1), of ?i] assms(3) by auto
  obtain tp' where "internal_join_thread tp ?i = Inr tp'" "pool_ok (tp', ph(?i := Idle), g)" using join_ok [OF assms(1,3)] by blast
  then show ?thesis using assms(2) i pool_shape [OF assms(1)] by (simp add: check_round_def Let_def obj_ok_def)
qed

lemma set_flags_ok:
  assumes "pool_ok (tp, ph, g)" and "\<And>n. n \<in> set is \<Longrightarrow> n < unat (threadpool_size tp)"
  shows "\<exists>tp'. set_stop_flags tp is = Inr tp' \<and> pool_ok (tp', ph, g)"
  using assms
proof (induction "is" arbitrary: tp)
  case (Cons n ns)
  let ?i = "of_nat n :: guint32" and ?f = "\<lambda>t. t\<lparr>ts_stop_flag := True\<rparr>"
  have n: "n < unat (threadpool_size tp)" using Cons.prems(2) by simp
  have "unat ?i = n" using n unat_bound32 [of "threadpool_size tp"] by (intro unat_of_nat_32) simp
  then have i: "?i < threadpool_size tp" using n by (simp add: word_less_nat_alt)
  have o: "obj_ok (ph ?i) (tso tp ?i)" using Cons.prems(1) i by (auto simp: pool_ok_def split: if_splits)
  have o': "obj_ok (ph ?i) (?f (tso tp ?i))" using o by (cases "ph ?i") (auto simp: obj_ok_def synchronisers_def)
  have "pool_ok (put tp ?i (?f (tso tp ?i)), ph(?i := ph ?i), g)"
    by (rule plain_update(2) [where f = ?f, OF Cons.prems(1) i o']) simp_all
  then have ok1: "pool_ok (put tp ?i (?f (tso tp ?i)), ph, g)" by simp
  have mx: "ts_mutex (tso tp ?i) \<noteq> None" using o by (simp add: obj_ok_def synchronisers_def)
  obtain tp' where "set_stop_flags (put tp ?i (?f (tso tp ?i))) ns = Inr tp'" "pool_ok (tp', ph, g)"
    using Cons.IH [OF ok1] Cons.prems(2) by auto
  then show ?case using pool_shape [OF Cons.prems(1)] i mx by simp
qed simp

text \<open>Sections that change only flags of one object.\<close>

lemma flag_act_ok:
  assumes "pool_ok (tp, ph, g)" and "ph i \<noteq> Idle" and "obj_ok p (f (tso tp i))"
    and "\<And>t. next_thread_id (f t) = next_thread_id t \<and> prev_thread_id (f t) = prev_thread_id t \<and> is_free (f t) = is_free t \<and> stopped (f t) = stopped t"
  shows "\<exists>tp'. upd_ts tp i f = Inr tp' \<and> upd_locked tp i f = Inr tp' \<and> pool_ok (tp', ph(i := p), g)"
  by (rule plain_locked [where f = f, OF assms(1-3)]) (use assms(4) in simp_all)

lemma same_phase_ok:
  assumes "pool_ok (tp, ph, g)" and "ph i \<noteq> Idle"
    and "\<And>t. next_thread_id (f t) = next_thread_id t \<and> prev_thread_id (f t) = prev_thread_id t \<and> is_free (f t) = is_free t \<and> stopped (f t) = stopped t \<and>
      started (f t) = started t \<and> synch_startup (f t) = synch_startup t \<and> thread (f t) = thread t \<and> (synchronisers t \<longrightarrow> synchronisers (f t))"
  shows "\<exists>tp'. upd_ts tp i f = Inr tp' \<and> upd_locked tp i f = Inr tp' \<and> pool_ok (tp', ph, g)"
proof -
  have "obj_ok (ph i) (f (tso tp i))" using pool_obj(2) [OF assms(1,2)] assms(3) by (cases "ph i") (auto simp: obj_ok_def)
  from flag_act_ok [where f = f, OF assms(1,2) this] assms(3) show ?thesis by auto
qed

lemma act_keeps_pool:
  assumes "pool_ok (tp, ph, g)" and "act_ok a (tp, ph, g)"
  shows "\<exists>s'. exec_act a (tp, ph, g) = Inr s' \<and> pool_ok s'"
proof -
  note sh = pool_shape [OF assms(1)]
  note ob = pool_obj [OF assms(1)]
  have lk: "lock_ts tp i = Inr (tso tp i)" if "ph i \<noteq> Idle" for i using lock_ok [OF sh ob(1,3) [OF that]] .
  have gt: "get_ts tp i = Inr (tso tp i)" if "ph i \<noteq> Idle" for i using sh ob(1) [OF that] by simp
  show ?thesis
  proof (cases a)
    case A_Get
    then show ?thesis using get_act_ok [OF assms(1)] by simp
  next
    case (A_Free_Id i)
    then show ?thesis using free_id_act_ok [OF assms(1), of i] assms(2) by (auto simp: with_phase_def)
  next
    case (A_Start i obj synch created)
    then show ?thesis using start_act_ok [OF assms(1), of i created synch obj] assms(2) by auto
  next
    case (A_Start_End i)
    then have i: "ph i \<noteq> Idle" using assms(2) by auto
    show ?thesis
    proof (cases "ts_stop_flag (tso tp i) \<or> g")
      case True
      then have "ph i = Ended" using assms(2) A_Start_End by auto
      then show ?thesis using join_ok [OF assms(1), of i g] True gt [OF i] A_Start_End by (auto simp: start_end_def join_thread_def err_codes)
    next
      case False
      then show ?thesis using gt [OF i] assms(1) A_Start_End by (simp add: start_end_def)
    qed
  next
    case (A_Run i)
    then have i: "ph i \<noteq> Idle" using assms(2) by auto
    then show ?thesis using same_phase_ok [OF assms(1) i, of "\<lambda>t. t\<lparr>startup_ready_to_proceed := True\<rparr>"] ob(1) [OF i] A_Run
      by (auto simp: run_thread_def with_phase_def synchronisers_def)
  next
    case (A_Stop i)
    then have i: "ph i \<noteq> Idle" using assms(2) by auto
    then show ?thesis using same_phase_ok [OF assms(1) i, of "\<lambda>t. t\<lparr>ts_stop_flag := True\<rparr>"] ob(1) [OF i] A_Stop
      by (auto simp: stop_thread_without_wait_def with_phase_def synchronisers_def)
  next
    case (A_Stop_Wait i)
    then have i: "ph i \<noteq> Idle" using assms(2) by auto
    show ?thesis
    proof (cases "stopped (tso tp i)")
      case True
      then have "ph i = Ended" using assms(2) A_Stop_Wait by auto
      then show ?thesis using join_ok [OF assms(1), of i g] True gt [OF i] A_Stop_Wait by (auto simp: stop_wait_section_def)
    next
      case False
      then show ?thesis using same_phase_ok [OF assms(1) i, of "\<lambda>t. t\<lparr>wait_for_stop := True\<rparr>"] gt [OF i] A_Stop_Wait
        by (auto simp: stop_wait_section_def synchronisers_def)
    qed
  next
    case A_Check
    show ?thesis
    proof (cases "first_stopped_thread_id tp = IC_MAX_UINT32")
      case True
      then show ?thesis using A_Check assms(1) by (simp add: check_round_def)
    next
      case False
      then show ?thesis using A_Check check_act_ok [OF assms(1) False] assms(2) by auto
    qed
  next
    case (A_Join i)
    then show ?thesis using join_ok [OF assms(1), of i g] assms(2) by (auto simp: join_thread_def with_phase_def)
  next
    case A_Set_Stop_Flag
    have "pool_ok (tp\<lparr>tp_stop_flag := True\<rparr>, ph, g)"
      using assms(1) by (simp add: pool_ok_def tp_lists_def free_list_def stopped_list_def)
    from set_flags_ok [OF this, of "[0..<unat (threadpool_size tp)]"]
    show ?thesis using A_Set_Stop_Flag by (auto simp: set_stop_flag_def with_phase_def)
  next
    case (A_Wake i)
    then have i: "ph i \<noteq> Idle" "wait_wakeup (tso tp i)" using assms(2) by auto
    then show ?thesis using same_phase_ok [OF assms(1) i(1), of "\<lambda>t. t\<lparr>wait_wakeup := False\<rparr>"] lk [OF i(1)] A_Wake
      by (auto simp: thread_wake_def with_phase_def synchronisers_def)
  next
    case A_Global_Stop
    then show ?thesis using assms(1) by (simp add: pool_ok_def)
  next
    case (W_Started i)
    then have i: "ph i \<noteq> Idle" "ph i \<in> {Created True, Created False}" using assms(2) by auto
    have "obj_ok Running ((tso tp i)\<lparr>started := True\<rparr>)" using ob(2) [OF i(1)] i(2) by (auto simp: obj_ok_def synchronisers_def)
    from flag_act_ok [where f = "\<lambda>t. t\<lparr>started := True\<rparr>", OF assms(1) i(1) this]
    show ?thesis using W_Started by (auto simp: thread_started_def with_phase_def)
  next
    case (W_Startup_Done i)
    then have i: "ph i = Running" "synch_startup (tso tp i)" "ph i \<noteq> Idle" using assms(2) by auto
    have upd: "\<exists>tp'. upd_ts tp i (\<lambda>t. t\<lparr>startup_done := True, synch_startup := b\<rparr>) = Inr tp' \<and> pool_ok (tp', ph, g)" for b
    proof -
      have "obj_ok (ph i) ((tso tp i)\<lparr>startup_done := True, synch_startup := b\<rparr>)" using ob(2) [OF i(3)] i(1) by (auto simp: obj_ok_def synchronisers_def)
      from flag_act_ok [where f = "\<lambda>t. t\<lparr>startup_done := True, synch_startup := b\<rparr>", OF assms(1) i(3) this]
      show ?thesis by auto
    qed
    show ?thesis using W_Startup_Done lk [OF i(3)] i(2) upd [of True] upd [of False]
      by (auto simp: thread_startup_done_def Let_def)
  next
    case (W_Stops i)
    then show ?thesis using stops_act_ok [OF assms(1), of i] assms(2) by (auto simp: with_phase_def)
  next
    case (W_Stops_End i)
    then have i: "ph i \<noteq> Idle" "ph i = Stopping" using assms(2) by auto
    have o: "obj_ok Ended ((tso tp i)\<lparr>started := False, synch_startup := False\<rparr>)" using ob(2) [OF i(1)] i(2) by (auto simp: obj_ok_def synchronisers_def)
    have st: "started (tso tp i)" using ob(2) [OF i(1)] i(2) by (simp add: obj_ok_def)
    from flag_act_ok [where f = "\<lambda>t. t\<lparr>started := False, synch_startup := False\<rparr>", OF assms(1) i(1) o]
    show ?thesis using W_Stops_End lk [OF i(1)] st by (auto simp: thread_stops_end_def with_phase_def)
  next
    case (W_Wait i)
    then have i: "ph i \<noteq> Idle" using assms(2) by auto
    then show ?thesis using same_phase_ok [OF assms(1) i, of "\<lambda>t. t\<lparr>wait_wakeup := True\<rparr>"] W_Wait
      by (auto simp: thread_wait_begin_def with_phase_def synchronisers_def)
  next
    case (W_Set_Mutex i m)
    then have i: "ph i \<noteq> Idle" using assms(2) by auto
    then show ?thesis using same_phase_ok [OF assms(1) i, of "\<lambda>t. t\<lparr>ts_mutex := Some m, use_external_mutex := True\<rparr>"] W_Set_Mutex
      by (auto simp: thread_set_mutex_def with_phase_def synchronisers_def)
  next
    case (W_Set_Cond i c)
    then have i: "ph i \<noteq> Idle" using assms(2) by auto
    then show ?thesis using same_phase_ok [OF assms(1) i, of "\<lambda>t. t\<lparr>ts_cond := Some c, use_external_cond := True\<rparr>"] W_Set_Cond
      by (auto simp: thread_set_cond_def with_phase_def synchronisers_def)
  next
    case (W_Get_Stop_Flag i)
    then have i: "ph i \<noteq> Idle" using assms(2) by auto
    obtain tp' where u: "upd_ts tp i (\<lambda>t. t\<lparr>ts_stop_flag := True\<rparr>) = Inr tp'" "pool_ok (tp', ph, g)"
      using same_phase_ok [OF assms(1) i, of "\<lambda>t. t\<lparr>ts_stop_flag := True\<rparr>"] by (auto simp: synchronisers_def)
    have "get_ts tp' i = Inr (tso tp' i)" using pool_shape [OF u(2)] pool_obj(1) [OF u(2) i] by simp
    then show ?thesis using u gt [OF i] assms(1) W_Get_Stop_Flag by (cases g) (auto simp: ts_get_stop_flag_def)
  qed
qed


text \<open>The states, or the fault, that the actions lead to.\<close>

inductive tp_reach :: "tp_sys \<Rightarrow> fault + tp_sys \<Rightarrow> bool" for s0 where
  reach_start: "tp_reach s0 (Inr s0)"
| reach_act: "tp_reach s0 (Inr s) \<Longrightarrow> act_ok a s \<Longrightarrow> tp_reach s0 (exec_act a s)"

lemma reach_ok: "tp_reach s0 r \<Longrightarrow> pool_ok s0 \<Longrightarrow> \<exists>s. r = Inr s \<and> pool_ok s"
proof (induction rule: tp_reach.induct)
  case (reach_act s a)
  then show ?case using act_keeps_pool by (cases s) auto
qed simp

section \<open>Creation\<close>

definition fresh_obj :: "nat \<Rightarrow> ic_int_thread_state" where
  "fresh_obj i = zero_thread_state\<lparr>thread_id := of_nat i, ts_mutex := Some 0, internal_mutex := Some 0, ts_cond := Some 0, internal_cond := Some 0\<rparr>"

definition made_obj :: "nat \<Rightarrow> ic_int_thread_state" where
  "made_obj i = (reset_obj (fresh_obj i))\<lparr>next_thread_id := (if i = 0 then IC_MAX_UINT32 else of_nat (i - 1))\<rparr>"

text \<open>The pool after \<open>n\<close> of \<open>N\<close> rounds of the loop.\<close>

definition made_pool :: "ic_int_threadpool_state \<Rightarrow> nat \<Rightarrow> nat \<Rightarrow> ic_int_threadpool_state" where
  "made_pool tp N n = tp\<lparr>thread_state := map (\<lambda>i. Some (made_obj i)) [0..<n] @ replicate (N - n) None,
     first_free_thread_id := (if n = 0 then IC_MAX_UINT32 else of_nat (n - 1)), num_free_threads := of_nat n\<rparr>"

lemma free_fresh:
  assumes "unat i < length (thread_state tp)" and "thread_state tp ! unat i = Some t" and "\<not> is_free t" and "\<not> synch_startup t" and "ts_mutex t \<noteq> None"
  shows "free_thread tp i = Inr (tp\<lparr>thread_state := (thread_state tp)[unat i := Some ((reset_obj t)\<lparr>next_thread_id := first_free_thread_id tp\<rparr>)],
    first_free_thread_id := i, num_free_threads := num_free_threads tp + 1\<rparr>)"
  using assms
  by (cases tp; cases t) (auto simp: free_thread_def free_thread_list_def free_thread_reset_def insert_free_list_def lock_ts_def upd_ts_def get_ts_def Let_def
      reset_obj_def reset_external_def)

lemma create_round:
  assumes "create_loop pool_size sz as tp r (i # is) = Inr (True, tp', r', as')"
  shows "\<exists>ts tp1 r1 as1. wr (thread_state tp) i (Some (fresh_obj i)) = Inr ts \<and> free_thread (tp\<lparr>thread_state := ts\<rparr>) (of_nat i) = Inr tp1 \<and>
    create_loop pool_size sz as1 tp1 r1 is = Inr (True, tp', r', as')"
proof -
  have b: "\<not> unat (pool_size * sz) < (i + 1) * unat sz" using assms by auto
  obtain r2 as2 where m: "ic_mutex_create as r = Inr (r2, as2)" using assms b by (cases "ic_mutex_create as r") auto
  obtain ok r3 as3 where c: "ic_cond_create as2 r2 = (ok, r3, as3)" by (cases "ic_cond_create as2 r2") auto
  have ok: "ok"
  proof (rule ccontr)
    assume "\<not> ok"
    then show False using assms b m c by (auto simp: Let_def c_bind_Inr_iff)
  qed
  have "c_bind (wr (thread_state tp) i (Some (fresh_obj i))) (\<lambda>ts. c_bind (free_thread (tp\<lparr>thread_state := ts\<rparr>) (of_nat i)) (\<lambda>tp. create_loop pool_size sz as3 tp r3 is)) =
      Inr (True, tp', r', as')"
    using assms b m c ok by (simp add: Let_def fresh_obj_def)
  then show ?thesis unfolding c_bind_Inr_iff by blast
qed

lemma create_loop_made:
  assumes "create_loop pool_size sz as (made_pool tp N n) r [n..<N] = Inr (True, tp', r', as')" and "n \<le> N" and "N < 4294967296"
  shows "tp' = made_pool tp N N"
  using assms
proof (induction "N - n" arbitrary: n as r)
  case 0
  then show ?case by simp
next
  case (Suc d)
  then have n: "n < N" by simp
  then have l: "[n..<N] = n # [Suc n..<N]" by (simp add: upt_conv_Cons)
  have u: "unat (of_nat n :: guint32) = n" using n Suc.prems(3) by (intro unat_of_nat_32) simp
  let ?tp = "(made_pool tp N n)\<lparr>thread_state := (thread_state (made_pool tp N n))[n := Some (fresh_obj n)]\<rparr>"
  have f: "free_thread ?tp (of_nat n) = Inr (made_pool tp N (Suc n))"
  proof -
    have r: "replicate (N - n) None = (None :: ic_int_thread_state option) # replicate (N - Suc n) None"
      using n by (metis Suc_diff_Suc replicate_Suc)
    have ts: "thread_state ?tp = map (\<lambda>i. Some (made_obj i)) [0..<n] @ Some (fresh_obj n) # replicate (N - Suc n) None"
      by (simp add: made_pool_def r list_update_append)
    have "free_thread ?tp (of_nat n) = Inr (?tp\<lparr>thread_state := (thread_state ?tp)[unat (of_nat n :: guint32) := Some ((reset_obj (fresh_obj n))\<lparr>next_thread_id := first_free_thread_id ?tp\<rparr>)],
        first_free_thread_id := of_nat n, num_free_threads := num_free_threads ?tp + 1\<rparr>)"
    proof (rule free_fresh)
      show "unat (of_nat n :: guint32) < length (thread_state ?tp)" unfolding ts u by simp
      show "thread_state ?tp ! unat (of_nat n :: guint32) = Some (fresh_obj n)" unfolding ts u by (simp add: nth_append)
    qed (simp_all add: fresh_obj_def zero_thread_state_def)
    also have "\<dots> = Inr (made_pool tp N (Suc n))"
      unfolding u ts by (simp add: made_pool_def made_obj_def list_update_append add.commute)
    finally show ?thesis .
  qed
  have "create_loop pool_size sz as (made_pool tp N n) r (n # [Suc n..<N]) = Inr (True, tp', r', as')" using Suc.prems(1) l by simp
  from create_round [OF this] obtain ts tp1 r1 as1 where c: "wr (thread_state (made_pool tp N n)) n (Some (fresh_obj n)) = Inr ts"
      "free_thread ((made_pool tp N n)\<lparr>thread_state := ts\<rparr>) (of_nat n) = Inr tp1"
      "create_loop pool_size sz as1 tp1 r1 [Suc n..<N] = Inr (True, tp', r', as')" by blast
  have "ts = (thread_state (made_pool tp N n))[n := Some (fresh_obj n)]" using c(1) by (simp add: wr_Inr_iff)
  then have "create_loop pool_size sz as1 (made_pool tp N (Suc n)) r1 [Suc n..<N] = Inr (True, tp', r', as')" using c(2,3) f by simp
  then show ?case using Suc.hyps(1) [of "Suc n" as1 r1] Suc.hyps(2) Suc.prems(3) n by simp
qed

abbreviation ids_down :: "nat \<Rightarrow> guint32 list" where
  "ids_down n \<equiv> map of_nat (rev [0..<n])"

lemma ids_down_linked:
  assumes "\<And>i. i < n \<Longrightarrow> nx (of_nat i) = (if i = 0 then IC_MAX_UINT32 else of_nat (i - 1))"
  shows "linked nx (if n = 0 then IC_MAX_UINT32 else of_nat (n - 1)) (ids_down n)"
  using assms
proof (induction n)
  case (Suc n)
  then show ?case using Suc.prems [of n] by (auto split: if_splits)
qed simp

lemma made_pool_ok:
  assumes "threadpool_size tp = n" and "first_stopped_thread_id tp = IC_MAX_UINT32" and "num_stopped_threads tp = 0"
  shows "pool_ok (made_pool tp (unat n) (unat n), \<lambda>_. Idle, g)"
proof -
  let ?tp = "made_pool tp (unat n) (unat n)"
  note b = unat_bound32 [of n]
  have sz: "threadpool_size ?tp = n" using assms(1) by (simp add: made_pool_def)
  have "thread_state ?tp = map (\<lambda>i. Some (made_obj i)) [0..<unat n]" by (simp add: made_pool_def)
  then have sh: "shape ?tp" unfolding shape_def sz by auto
  have t: "tso ?tp i = made_obj (unat i)" if "i < n" for i using that by (simp add: tso_def made_pool_def word_less_nat_alt)
  have u: "unat (of_nat k :: guint32) = k" if "k < unat n" for k using that b by (intro unat_of_nat_32) simp
  have o: "obj_ok Idle (made_obj k)" for k
    by (simp add: obj_ok_def synchronisers_def made_obj_def reset_obj_def reset_external_def Let_def fresh_obj_def zero_thread_state_def)
  have "linked (nxt ?tp) (if unat n = 0 then IC_MAX_UINT32 else of_nat (unat n - 1)) (ids_down (unat n))"
  proof (rule ids_down_linked)
    fix i assume i: "i < unat n"
    have "(of_nat i :: guint32) < n" using u [OF i] i by (simp add: word_less_nat_alt)
    then show "nxt ?tp (of_nat i) = (if i = 0 then IC_MAX_UINT32 else of_nat (i - 1))" using u [OF i] by (simp add: t made_obj_def)
  qed
  moreover have "distinct (ids_down (unat n))"
  proof (subst distinct_map, intro conjI inj_onI)
    fix x y assume "x \<in> set (rev [0..<unat n])" "y \<in> set (rev [0..<unat n])" "(of_nat x :: guint32) = of_nat y"
    then have x: "x < unat n" "y < unat n" and e: "unat (of_nat x :: guint32) = unat (of_nat y :: guint32)" by auto
    show "x = y" using e unfolding u [OF x(1)] u [OF x(2)] .
  qed simp
  moreover have "set (ids_down (unat n)) = {i. i < n \<and> is_free (tso ?tp i)}"
  proof (intro set_eqI iffI)
    fix i assume "i \<in> set (ids_down (unat n))"
    then obtain k where k: "k < unat n" "i = of_nat k" by auto
    then have "i < n" using u [of k] by (simp add: word_less_nat_alt)
    then show "i \<in> {i. i < n \<and> is_free (tso ?tp i)}" using o [of "unat i"] by (simp add: t obj_ok_def)
  next
    fix i assume "i \<in> {i. i < n \<and> is_free (tso ?tp i)}"
    then have "unat i < unat n" "of_nat (unat i) = i" by (simp_all add: word_less_nat_alt)
    then show "i \<in> set (ids_down (unat n))" by (auto intro!: image_eqI [of _ _ "unat i"])
  qed
  moreover have "first_free_thread_id ?tp = (if unat n = 0 then IC_MAX_UINT32 else of_nat (unat n - 1))" "num_free_threads ?tp = of_nat (length (ids_down (unat n)))"
    by (simp_all add: made_pool_def)
  ultimately have "free_list ?tp (ids_down (unat n))" unfolding free_list_def sz by simp
  moreover have "stopped_list ?tp []"
  proof -
    have "\<not> stopped (tso ?tp i)" if "i < n" for i using o [of "unat i"] that by (simp add: t obj_ok_def)
    then have "{i. i < n \<and> stopped (tso ?tp i)} = {}" by blast
    moreover have "first_stopped_thread_id ?tp = IC_MAX_UINT32" "num_stopped_threads ?tp = 0" using assms by (simp_all add: made_pool_def)
    ultimately show ?thesis unfolding stopped_list_def sz by simp
  qed
  ultimately have "tp_lists ?tp (ids_down (unat n)) []" using sh by (simp add: tp_lists_def)
  moreover have "\<forall>i. if i < n then obj_ok Idle (tso ?tp i) else Idle = Idle" using o t by simp
  ultimately show ?thesis using sz by (auto simp: pool_ok_def)
qed

lemma error_no_pool: "c_bind x (\<lambda>r. Inr (None, r, as)) \<noteq> Inr (Some tp, r', as')"
  by (cases x) auto

lemma created_ok:
  assumes "ic_create_threadpool as r sz n = Inr (Some tp, r', as')"
  shows "pool_ok (tp, \<lambda>_. Idle, g)" and "threadpool_size tp = n"
proof -
  let ?tp0 = "zero_threadpool\<lparr>thread_state_array := True, thread_state := replicate (unat n) None, thread_state_allocation := True, stop_list_mutex := True,
    stop_list_cond := True, free_list_mutex := True, threadpool_size := n, num_thread_allocations := 0, first_free_thread_id := IC_MAX_UINT32,
    first_stopped_thread_id := IC_MAX_UINT32\<rparr>"
  have m0: "made_pool ?tp0 (unat n) 0 = ?tp0" by (simp add: made_pool_def zero_threadpool_def)
  obtain ok1 as1 where c1: "alloc_next as = (ok1, as1)" by (cases "alloc_next as")
  have k1: "ok1" using assms c1 by (cases ok1) (simp_all add: ic_create_threadpool_def Let_def)
  obtain ok2 as2 where c2: "alloc_next as1 = (ok2, as2)" by (cases "alloc_next as1")
  have k2: "ok2" using assms c1 k1 c2 by (cases ok2) (simp_all add: ic_create_threadpool_def Let_def error_no_pool)
  obtain ok3 as3 where c3: "alloc_next as2 = (ok3, as3)" by (cases "alloc_next as2")
  have k3: "ok3" using assms c1 k1 c2 k2 c3 by (cases ok3) (simp_all add: ic_create_threadpool_def Let_def error_no_pool)
  let ?r3 = "r\<lparr>r_blocks := r_blocks r + 1 + 1 + 1\<rparr>"
  note e = assms [unfolded ic_create_threadpool_def Let_def c1 c2 c3 prod.case]
  obtain x4 where x4: "ic_mutex_create as3 ?r3 = Inr x4"
    using e k1 k2 k3 by (cases "ic_mutex_create as3 ?r3") (simp_all add: eval_nat_numeral)
  obtain r4 as4 where m4: "ic_mutex_create as3 ?r3 = Inr (r4, as4)" using x4 by (cases x4) simp
  obtain ok5 r5 as5 where c5: "ic_cond_create as4 r4 = (ok5, r5, as5)" by (cases "ic_cond_create as4 r4")
  have k5: "ok5" using e k1 k2 k3 m4 c5 by (cases ok5) (simp_all add: error_no_pool eval_nat_numeral)
  obtain x6 where x6: "ic_mutex_create as5 r5 = Inr x6"
    using e k1 k2 k3 m4 c5 k5 by (cases "ic_mutex_create as5 r5") (simp_all add: eval_nat_numeral)
  obtain r6 as6 where m6: "ic_mutex_create as5 r5 = Inr (r6, as6)" using x6 by (cases x6) simp
  have "c_bind (create_loop n sz as6 ?tp0 r6 [0..<unat n]) (\<lambda>(ok, tp, r, as). if ok then Inr (Some tp, r, as) else c_bind (free_threadpool tp r) (\<lambda>r. Inr (None, r, as))) =
      Inr (Some tp, r', as')"
    using e k1 k2 k3 m4 c5 k5 m6 by (simp add: eval_nat_numeral zero_threadpool_def)
  then have "create_loop n sz as6 ?tp0 r6 [0..<unat n] = Inr (True, tp, r', as')"
    by (cases "create_loop n sz as6 ?tp0 r6 [0..<unat n]") (auto simp: error_no_pool split: if_splits)
  then have "create_loop n sz as6 (made_pool ?tp0 (unat n) 0) r6 [0..<unat n] = Inr (True, tp, r', as')" using m0 by simp
  then have "tp = made_pool ?tp0 (unat n) (unat n)" by (rule create_loop_made) (use unat_bound32 [of n] in simp_all)
  then show "pool_ok (tp, \<lambda>_. Idle, g)" "threadpool_size tp = n"
    using made_pool_ok [of ?tp0 n g] by (simp_all add: made_pool_def zero_threadpool_def)
qed

section \<open>What the pool promises\<close>

lemma idle_free: "pool_ok (tp, ph, g) \<Longrightarrow> i < threadpool_size tp \<Longrightarrow> ph i = Idle \<longleftrightarrow> is_free (tso tp i)"
  by (cases "ph i") (auto simp: pool_ok_def obj_ok_def dest!: spec [of _ i])

lemma idle_count:
  assumes "pool_ok (tp, ph, g)"
  shows "num_free_threads tp = of_nat (card {i. i < threadpool_size tp \<and> ph i = Idle})"
proof -
  obtain fs ss where l: "tp_lists tp fs ss" using pool_lists [OF assms] by blast
  have "{i. i < threadpool_size tp \<and> ph i = Idle} = set fs" using l idle_free [OF assms] by (auto simp: tp_lists_def free_list_def)
  then show ?thesis using l distinct_card [of fs] by (simp add: tp_lists_def free_list_def)
qed

lemma get_idle:
  assumes "pool_ok (tp, ph, g)"
  shows "\<exists>rc r tp'. get_free_thread_id tp = Inr (rc, r, tp') \<and>
    (case r of None \<Rightarrow> rc = IC_ERROR_THREADPOOL_FULL \<and> (\<forall>i. i < threadpool_size tp \<longrightarrow> ph i \<noteq> Idle) | Some i \<Rightarrow> rc = 0 \<and> i < threadpool_size tp \<and> ph i = Idle)"
proof -
  obtain fs ss where l: "tp_lists tp fs ss" using pool_lists [OF assms] by blast
  then have s: "set fs = {i. i < threadpool_size tp \<and> is_free (tso tp i)}" by (simp add: tp_lists_def free_list_def)
  show ?thesis
  proof (cases fs)
    case Nil
    then have "\<forall>i. i < threadpool_size tp \<longrightarrow> ph i \<noteq> Idle" using s idle_free [OF assms] by auto
    then show ?thesis using get_free_empty [of tp ss] l Nil by auto
  next
    case (Cons i fs')
    then have "i < threadpool_size tp \<and> ph i = Idle" using s idle_free [OF assms, of i] by auto
    then show ?thesis using get_free_first [of tp i fs' ss] l Cons by auto
  qed
qed


definition no_res :: tp_res where "no_res = \<lparr>r_mutexes = 0, r_conds = 0, r_blocks = 0\<rparr>"

text \<open>A pool of one object, in small.\<close>

definition one_pool :: ic_int_threadpool_state where
  "one_pool = \<lparr>num_free_threads = 1, tp_stop_flag = False, first_free_thread_id = 0, first_stopped_thread_id = IC_MAX_UINT32, num_stopped_threads = 0,
     num_thread_allocations = 0, threadpool_size = 1, thread_state_array = True, thread_state = [Some (made_obj 0)], thread_state_allocation = True,
     stop_list_mutex = True, stop_list_cond = True, free_list_mutex = True\<rparr>"

lemma one_pool_created: "ic_create_threadpool [] no_res 176 1 = Inr (Some one_pool, \<lparr>r_mutexes = 3, r_conds = 2, r_blocks = 3\<rparr>, [])"
  by (simp add: ic_create_threadpool_def ic_mutex_create_def ic_cond_create_def Let_def no_res_def one_pool_def free_thread_def free_thread_list_def
      free_thread_reset_def insert_free_list_def lock_ts_def upd_ts_def get_ts_def made_obj_def fresh_obj_def reset_obj_def reset_external_def
      zero_threadpool_def zero_thread_state_def)


section \<open>Waiting ends\<close>

text \<open>No thread is between its insertion into the list of stopped threads and its end: the join waits until this is so.\<close>

definition quiet :: "ic_int_threadpool_state \<Rightarrow> bool" where
  "quiet tp \<longleftrightarrow> (\<exists>ph g. pool_ok (tp, ph, g) \<and> (\<forall>i. ph i \<noteq> Stopping))"

lemma stopped_ended: "pool_ok (tp, ph, g) \<Longrightarrow> i < threadpool_size tp \<Longrightarrow> stopped (tso tp i) \<Longrightarrow> ph i \<noteq> Stopping \<Longrightarrow> ph i = Ended"
  by (cases "ph i") (auto simp: pool_ok_def obj_ok_def dest!: spec [of _ i])

lemma join_lists:
  assumes "tp_lists tp fs (i # ss)" and "obj_ok Ended (tso tp i)" and "internal_join_thread tp i = Inr tp'"
  shows "tp_lists tp' (i # fs) ss \<and> threadpool_size tp' = threadpool_size tp"
proof -
  have i: "i < threadpool_size tp" "stopped (tso tp i)" using assms(1) by (auto simp: tp_lists_def stopped_list_def)
  have sh: "shape tp" using assms(1) by (simp add: tp_lists_def)
  obtain tp1 where r1: "remove_stopped_list tp i = Inr tp1" "tp_lists tp1 fs (remove1 i (i # ss))" "only i (\<lambda>t. t\<lparr>stopped := False\<rparr>) tp tp1"
    using remove_stopped_ok [OF assms(1) i] by blast
  have i1: "i < threadpool_size tp1" using r1(3) i(1) by (simp add: only_def)
  have c1: "core (tso tp1 i) = core ((tso tp i)\<lparr>stopped := False\<rparr>)" using r1(3) by (simp add: only_def)
  have "\<not> is_free (tso tp1 i) \<and> \<not> stopped (tso tp1 i) \<and> \<not> synch_startup (tso tp1 i) \<and> synchronisers (tso tp1 i)"
    using core_fields [OF c1] assms(2) by (auto simp: obj_ok_def obj_fields_def synchronisers_def)
  then obtain tp2 where r2: "free_thread tp1 i = Inr tp2" "tp_lists tp2 (i # fs) (remove1 i (i # ss))" "only i reset_obj tp1 tp2"
    using free_thread_ok [OF r1(2) i1] by blast
  have "tp' = tp2" using assms(3) r1(1) r2(1) i(1) sh by (simp add: internal_join_thread_def)
  then show ?thesis using r1(3) r2(2,3) by (simp add: only_def)
qed

lemma check_threads_ends:
  assumes "tp_lists tp fs ss" and "quiet tp" and "length ss < fuel"
  shows "\<exists>tp'. check_threads fuel tp = Inr tp' \<and> quiet tp' \<and> threadpool_size tp' = threadpool_size tp"
  using assms
proof (induction ss arbitrary: tp fs fuel)
  case Nil
  then show ?case by (cases fuel) (auto simp: check_round_def tp_lists_def stopped_list_def)
next
  case (Cons i ss)
  obtain ph g where ok: "pool_ok (tp, ph, g)" and q: "\<forall>i. ph i \<noteq> Stopping" using Cons.prems(2) by (auto simp: quiet_def)
  have i: "i < threadpool_size tp" "stopped (tso tp i)" "first_stopped_thread_id tp = i"
    using Cons.prems(1) by (auto simp: tp_lists_def stopped_list_def)
  have e: "ph i = Ended" using stopped_ended [OF ok i(1,2)] q by blast
  have o: "obj_ok Ended (tso tp i)" using pool_obj(2) [OF ok, of i] e by simp
  obtain tp1 where j: "internal_join_thread tp i = Inr tp1" "pool_ok (tp1, ph(i := Idle), g)" using join_ok [OF ok e] by blast
  note jl = join_lists [OF Cons.prems(1) o j(1)]
  have "\<forall>j. (ph(i := Idle)) j \<noteq> Stopping" using q by simp
  then have "quiet tp1" using j(2) unfolding quiet_def by blast
  obtain fuel' where f: "fuel = Suc fuel'" "length ss < fuel'" using Cons.prems(3) by (cases fuel) auto
  obtain tp' where "check_threads fuel' tp1 = Inr tp'" "quiet tp'" "threadpool_size tp' = threadpool_size tp1"
    using Cons.IH [of tp1 "i # fs" fuel'] jl \<open>quiet tp1\<close> f(2) by blast
  moreover have "check_round tp = Inr (Some tp1)"
    using i j(1) not_max [OF i(1)] Cons.prems(1) by (simp add: check_round_def Let_def tp_lists_def)
  ultimately show ?case using f(1) jl by simp
qed

lemma check_quiet:
  assumes "quiet tp"
  shows "\<exists>tp'. check_threads (Suc (unat (threadpool_size tp))) tp = Inr tp' \<and> quiet tp' \<and> threadpool_size tp' = threadpool_size tp"
proof -
  obtain ph g where ok: "pool_ok (tp, ph, g)" using assms by (auto simp: quiet_def)
  obtain fs ss where l: "tp_lists tp fs ss" using pool_lists [OF ok] by blast
  have "set (map unat ss) \<subseteq> {..<unat (threadpool_size tp)}" using l by (auto simp: tp_lists_def stopped_list_def word_less_nat_alt)
  then have "card (set (map unat ss)) \<le> unat (threadpool_size tp)" using card_mono [of "{..<unat (threadpool_size tp)}"] by fastforce
  moreover have "distinct (map unat ss)" using l by (auto simp: tp_lists_def stopped_list_def distinct_map inj_on_def word_unat_eq_iff)
  ultimately have "length ss < Suc (unat (threadpool_size tp))" using distinct_card [of "map unat ss"] by simp
  then show ?thesis using check_threads_ends [OF l assms] by blast
qed

definition env_ok :: "guint32 \<Rightarrow> tp_env \<Rightarrow> bool" where
  "env_ok n env \<longleftrightarrow> (\<forall>(act, stop)\<in>set env. \<forall>tp. quiet tp \<and> threadpool_size tp = n \<longrightarrow> quiet (act tp) \<and> threadpool_size (act tp) = n)"

lemma get_wait_ends:
  assumes "quiet tp" and "threadpool_size tp = n" and "env_ok n env" and "0 < t" and "t < k + length env" and "env \<noteq> []"
  shows "\<exists>x. get_thread_id_wait env tp t k = Inr x"
  using assms
proof (induction env arbitrary: tp k)
  case (Cons e env)
  obtain act stop where e: "e = (act, stop)" by (cases e)
  obtain ph g where ok: "pool_ok (tp, ph, g)" using Cons.prems(1) by (auto simp: quiet_def)
  obtain rc r tp1 where gt: "get_free_thread_id tp = Inr (rc, r, tp1)" "r = None \<Longrightarrow> tp1 = tp" "r \<noteq> None \<Longrightarrow> rc = 0"
  proof -
    obtain fs ss where l: "tp_lists tp fs ss" using pool_lists [OF ok] by blast
    show ?thesis using get_free_empty [of tp ss] get_free_first [of tp "hd fs" "tl fs" ss] l that by (cases fs) fastforce+
  qed
  show ?case
  proof (cases "rc \<noteq> 0 \<and> k < t \<and> \<not> stop")
    case True
    then have "tp1 = tp" using gt(2,3) by blast
    have q: "quiet (act tp)" "threadpool_size (act tp) = n" using Cons.prems(1-3) e by (auto simp: env_ok_def)
    obtain tp2 where c: "check_threads (Suc (unat n)) (act tp) = Inr tp2" "quiet tp2" "threadpool_size tp2 = n" using check_quiet [OF q(1)] q(2) by auto
    have "env_ok n env" using Cons.prems(3) by (simp add: env_ok_def)
    moreover have "t < k + 1 + length env" "env \<noteq> []" using True Cons.prems(5) by auto
    ultimately have "\<exists>x. get_thread_id_wait env tp2 t (k + 1) = Inr x" using Cons.IH [OF c(2,3)] Cons.prems(4) by blast
    then show ?thesis using gt(1) True \<open>tp1 = tp\<close> c(1) e Cons.prems(2,4) by simp
  next
    case False
    then show ?thesis using gt(1) e Cons.prems(4) by auto
  qed
qed simp

lemma stop_loop_ends:
  assumes "quiet tp" and "threadpool_size tp = n" and "env_ok n env" and "IC_MAX_WAIT_THREADPOOL_STOP + 1 < k + length env" and "env \<noteq> []"
  shows "\<exists>b tp'. stop_loop env tp k = Inr (b, tp') \<and> quiet tp'"
  using assms
proof (induction env arbitrary: tp k)
  case (Cons e env)
  obtain act stop where e: "e = (act, stop)" by (cases e)
  obtain tp2 where c: "check_threads (Suc (unat n)) tp = Inr tp2" "quiet tp2" "threadpool_size tp2 = n" using check_quiet [OF Cons.prems(1)] Cons.prems(2) by auto
  show ?case
  proof (cases "num_free_threads tp2 = threadpool_size tp2 \<or> IC_MAX_WAIT_THREADPOOL_STOP < k")
    case True
    then show ?thesis using c e Cons.prems(2) by auto
  next
    case False
    have q: "quiet (act tp2)" "threadpool_size (act tp2) = n" using c Cons.prems(3) e by (auto simp: env_ok_def)
    have "env_ok n env" "IC_MAX_WAIT_THREADPOOL_STOP + 1 < k + 1 + length env" "env \<noteq> []" using Cons.prems(3,4) False by (auto simp: env_ok_def)
    then have "\<exists>b tp'. stop_loop env (act tp2) (k + 1) = Inr (b, tp') \<and> quiet tp'" using Cons.IH [OF q] by blast
    then show ?thesis using False c e Cons.prems(2) by simp
  qed
qed simp

lemma upd_ts_size: "upd_ts tp i f = Inr tp' \<Longrightarrow> threadpool_size tp' = threadpool_size tp"
  by (auto simp: upd_ts_def c_bind_Inr_iff)

lemma set_flags_size: "set_stop_flags tp is = Inr tp' \<Longrightarrow> threadpool_size tp' = threadpool_size tp"
proof (induction "is" arbitrary: tp)
  case (Cons i ns)
  then obtain tp1 where "tp1 = tp \<or> upd_ts tp (of_nat i) (\<lambda>t. t\<lparr>ts_stop_flag := True\<rparr>) = Inr tp1" "set_stop_flags tp1 ns = Inr tp'"
    by (auto simp: c_bind_Inr_iff split: if_splits)
  then show ?case using Cons.IH [of tp1] upd_ts_size [of tp] by auto
qed simp

lemma set_stop_quiet:
  assumes "quiet tp"
  shows "\<exists>tp'. set_stop_flag tp = Inr tp' \<and> quiet tp' \<and> threadpool_size tp' = threadpool_size tp"
proof -
  obtain ph g where ok: "pool_ok (tp, ph, g)" and q: "\<forall>i. ph i \<noteq> Stopping" using assms by (auto simp: quiet_def)
  have ok1: "pool_ok (tp\<lparr>tp_stop_flag := True\<rparr>, ph, g)" using ok by (simp add: pool_ok_def tp_lists_def free_list_def stopped_list_def)
  obtain tp' where "set_stop_flag tp = Inr tp'" "pool_ok (tp', ph, g)"
    using set_flags_ok [OF ok1, of "[0..<unat (threadpool_size tp)]"] by (auto simp: set_stop_flag_def)
  moreover from this have "threadpool_size tp' = threadpool_size tp" using set_flags_size [of "tp\<lparr>tp_stop_flag := True\<rparr>"] by (simp add: set_stop_flag_def)
  ultimately show ?thesis using q unfolding quiet_def by blast
qed

lemma destroy_ok:
  assumes "shape tp" and "\<And>n. n \<in> set is \<Longrightarrow> n < unat (threadpool_size tp)"
  shows "\<exists>r'. destroy_states tp r is = Inr r'"
  using assms(2)
proof (induction "is" arbitrary: r)
  case (Cons n ns)
  have n: "n < unat (threadpool_size tp)" using Cons.prems by simp
  have "unat (of_nat n :: guint32) = n" using n unat_bound32 [of "threadpool_size tp"] by (intro unat_of_nat_32) simp
  then have "(of_nat n :: guint32) < threadpool_size tp" using n by (simp add: word_less_nat_alt)
  then show ?case using Cons assms(1) by (simp add: Let_def)
qed simp

text \<open>
  C23. The waiting loops end, whatever the other threads do to the pool in between, as long as they keep it intact:
  \<^verbatim>\<open>get_thread_id_wait\<close> with a limit returns after at most that many seconds, and \<^verbatim>\<open>stop_threadpool\<close> returns after at most 32 rounds.
\<close>

theorem threadpool_waits_end:
  assumes "quiet tp" and "env_ok (threadpool_size tp) env" and "0 < t" and "t < length env" and "IC_MAX_WAIT_THREADPOOL_STOP + 1 < length env"
  shows "\<exists>x y. get_thread_id_wait env tp t 0 = Inr x \<and> stop_threadpool env tp r = Inr y"
proof -
  have ne: "env \<noteq> []" using assms(4) by auto
  obtain x where x: "get_thread_id_wait env tp t 0 = Inr x" using get_wait_ends [OF assms(1) refl assms(2,3) _ ne, of 0] assms(4) by auto
  obtain tp1 where t1: "set_stop_flag tp = Inr tp1" "quiet tp1" "threadpool_size tp1 = threadpool_size tp" using set_stop_quiet [OF assms(1)] by blast
  obtain b tp2 where t2: "stop_loop env tp1 0 = Inr (b, tp2)" "quiet tp2"
    using stop_loop_ends [OF t1(2,3) assms(2) _ ne, of 0] assms(5) by auto
  have "shape tp2" using t2(2) pool_shape by (auto simp: quiet_def)
  then obtain r2 where "destroy_states tp2 r [0..<unat (threadpool_size tp2)] = Inr r2" using destroy_ok [of tp2 "[0..<unat (threadpool_size tp2)]" r] by auto
  then have "\<exists>y. stop_threadpool env tp r = Inr y" using t1(1) t2(1) by (simp add: stop_threadpool_def free_threadpool_def)
  then show ?thesis using x by blast
qed

theorem threadpool_waits_end_witness:
  "\<exists>x y. get_thread_id_wait (replicate 40 (\<lambda>tp. tp, False)) one_pool 5 0 = Inr x \<and> stop_threadpool (replicate 40 (\<lambda>tp. tp, False)) one_pool no_res = Inr y"
proof (rule threadpool_waits_end)
  show "quiet one_pool" using created_ok(1) [OF one_pool_created, of False] unfolding quiet_def by (metis phase.distinct(7))
  show "env_ok (threadpool_size one_pool) (replicate 40 (\<lambda>tp. tp, False))" by (simp add: env_ok_def)
qed (simp_all add: IC_MAX_WAIT_THREADPOOL_STOP_def)

section \<open>Where the pool fails\<close>

lemma take_first:
  assumes "pool_ok (tp, ph, g)" and "first_free_thread_id tp \<noteq> IC_MAX_UINT32"
  obtains i tp1 where "get_free_thread_id tp = Inr (0, Some i, tp1)" "pool_ok (tp1, ph(i := Taken), g)"
proof -
  obtain fs ss where l: "tp_lists tp fs ss" using pool_lists [OF assms(1)] by blast
  then obtain i fs' where "fs = i # fs'" using assms(2) by (cases fs) (auto simp: tp_lists_def free_list_def)
  then obtain tp1 where "get_free_thread_id tp = Inr (0, Some i, tp1)" using get_free_first l by blast
  then show ?thesis using get_act_ok [OF assms(1)] that by auto
qed

text \<open>A synchronised start whose thread cannot be created.\<close>

lemma failed_synch_start:
  assumes "pool_ok (tp, ph, g)" and "ph i = Taken"
  shows "start_section tp i obj True False = Inl AssertFail"
proof -
  have i: "i < threadpool_size tp" "obj_ok Taken (tso tp i)" using pool_obj [OF assms(1), of i] assms(2) by auto
  have sh: "shape tp" by (rule pool_shape [OF assms(1)])
  obtain fs ss where l: "tp_lists tp fs ss" using pool_lists [OF assms(1)] by blast
  let ?f = "\<lambda>t. t\<lparr>object := Some obj, synch_startup := True\<rparr>" and ?h = "\<lambda>t. t\<lparr>inited := True, thread := False, object := None\<rparr>"
  let ?tp1 = "put tp i (?f (tso tp i))"
  let ?tp2 = "put ?tp1 i (?h (tso ?tp1 i))"
  have l1: "tp_lists ?tp1 fs ss" using put_keep(1) [OF l i(1), of ?f] by simp
  have l2: "tp_lists ?tp2 fs ss" using put_keep(1) [OF l1, of i ?h] i(1) by simp
  have t2: "tso ?tp2 i = ?h (?f (tso tp i))" using sh i(1) by simp
  have n2: "i < threadpool_size ?tp2" "\<not> is_free (tso ?tp2 i)" "\<not> stopped (tso ?tp2 i)" unfolding t2 using i by (simp_all add: obj_ok_def)
  obtain tp3 where r3: "insert_free_list ?tp2 i = Inr tp3" "tp_lists tp3 (i # fs) ss" "only i (\<lambda>t. t\<lparr>is_free := True\<rparr>) ?tp2 tp3"
    using insert_free_ok [OF l2 n2] by blast
  have c3: "core (tso tp3 i) = core ((?h (?f (tso tp i)))\<lparr>is_free := True\<rparr>)" using r3(3) unfolding only_def t2 by blast
  have s3: "synchronisers (tso tp3 i)" "synch_startup (tso tp3 i)" using core_fields [OF c3] i(2) by (auto simp: obj_fields_def synchronisers_def obj_ok_def)
  have z3: "shape tp3" "i < threadpool_size tp3" using r3(2,3) n2(1) by (simp_all add: tp_lists_def only_def)
  show ?thesis
    using sh i r3(1) lock_ok [OF z3 s3(1)] s3(2)
    by (auto simp: start_section_def free_thread_def free_thread_list_def free_thread_reset_def obj_ok_def synchronisers_def)
qed

text \<open>
  C28. When a thread cannot be created, \<^verbatim>\<open>start_thread\<close> does not return an error: without synchronisation the object is put into the free
  list twice, by \<^verbatim>\<open>start_thread_with_thread_id\<close> and by its caller, and with synchronisation \<^verbatim>\<open>free_thread\<close> finds the flag
  \<^verbatim>\<open>synch_startup\<close> set; in both cases an assertion fails and the process stops.
\<close>

theorem failed_start_aborts:
  assumes "pool_ok (tp, ph, g)" and "first_free_thread_id tp \<noteq> IC_MAX_UINT32"
  shows "start_thread g' env tp obj synch False = Inl AssertFail"
proof -
  obtain i tp1 where t: "get_free_thread_id tp = Inr (0, Some i, tp1)" "pool_ok (tp1, ph(i := Taken), g)" by (rule take_first [OF assms])
  show ?thesis
  proof (cases synch)
    case True
    then show ?thesis using t failed_synch_start [OF t(2), of i obj] by (simp add: start_thread_def start_thread_with_thread_id_def)
  next
    case False
    obtain rc tp2 where s: "start_section tp1 i obj False False = Inr (rc, tp2)" "threadpool_size tp2 = threadpool_size tp1" "pool_ok (tp2, (ph(i := Taken))(i := if rc = 0 then Created False else Idle), g)"
      using start_act_ok [OF t(2), of i False False obj] by auto
    have rc: "rc \<noteq> 0" using s(1) by (auto simp: start_section_def c_require_Inr_iff c_assert_Inr_iff c_bind_Inr_iff err_codes)
    have i: "i < threadpool_size tp1" using pool_obj(1) [OF t(2), of i] by simp
    have i2: "i < threadpool_size tp2" using i s(2) by simp
    have "is_free (tso tp2 i)" using idle_free [OF s(3) i2] rc by simp
    then have "free_thread_id tp2 i = Inl AssertFail" using pool_shape [OF s(3)] i2 by (simp add: free_thread_id_def insert_free_list_def Let_def)
    then show ?thesis using t(1) s(1) rc False by (simp add: start_thread_def start_thread_with_thread_id_def)
  qed
qed

theorem failed_start_aborts_witness:
  "start_thread False (\<lambda>tp. tp) one_pool 5 False False = Inl AssertFail"
  by (rule failed_start_aborts [OF created_ok(1) [OF one_pool_created, of False]]) (simp add: one_pool_def IC_MAX_UINT32_def)

text \<open>
  C29. \<^verbatim>\<open>free_thread\<close> publishes an object before it is reset. When one thread joins a stopped thread, a second one can take the object
  from the free list and start a synchronised thread with it; the first one then stops the process at an assertion.
\<close>

theorem object_published_before_reset:
  assumes "pool_ok (tp, ph, g)" and "ph i = Ended"
  shows "\<exists>tp1 tp2 tp3 tp4. remove_stopped_list tp i = Inr tp1 \<and> free_thread_list tp1 i = Inr tp2 \<and>
    get_free_thread_id tp2 = Inr (0, Some i, tp3) \<and> start_section tp3 i obj True True = Inr (0, tp4) \<and> free_thread_reset tp4 i = Inl AssertFail"
proof -
  have i: "i < threadpool_size tp" "obj_ok Ended (tso tp i)" using pool_obj [OF assms(1), of i] assms(2) by auto
  obtain fs ss where l: "tp_lists tp fs ss" using pool_lists [OF assms(1)] by blast
  have st: "stopped (tso tp i)" using i(2) by (simp add: obj_ok_def)
  obtain tp1 where r1: "remove_stopped_list tp i = Inr tp1" "tp_lists tp1 fs (remove1 i ss)" "only i (\<lambda>t. t\<lparr>stopped := False\<rparr>) tp tp1"
    using remove_stopped_ok [OF l i(1) st] by blast
  have i1: "i < threadpool_size tp1" "shape tp1" using r1(2,3) i(1) by (simp_all add: only_def tp_lists_def)
  have c1: "core (tso tp1 i) = core ((tso tp i)\<lparr>stopped := False\<rparr>)" using r1(3) by (simp add: only_def)
  have f1: "\<not> is_free (tso tp1 i)" "\<not> stopped (tso tp1 i)" "synchronisers (tso tp1 i)"
    using core_fields [OF c1] i(2) by (auto simp: obj_ok_def obj_fields_def synchronisers_def)
  let ?h = "\<lambda>t. t\<lparr>inited := True, thread := False, object := None\<rparr>"
  let ?tp = "put tp1 i (?h (tso tp1 i))"
  have l': "tp_lists ?tp fs (remove1 i ss)" using put_keep(1) [OF r1(2) i1(1), of ?h] by simp
  have t': "tso ?tp i = ?h (tso tp1 i)" using i1 by simp
  have n': "i < threadpool_size ?tp" "\<not> is_free (tso ?tp i)" "\<not> stopped (tso ?tp i)" unfolding t' using i1 f1 by simp_all
  obtain tp2 where r2: "insert_free_list ?tp i = Inr tp2" "tp_lists tp2 (i # fs) (remove1 i ss)" "only i (\<lambda>t. t\<lparr>is_free := True\<rparr>) ?tp tp2"
    using insert_free_ok [OF l' n'] by blast
  have c2: "core (tso tp2 i) = core ((?h (tso tp1 i))\<lparr>is_free := True\<rparr>)" using r2(3) unfolding only_def t' by blast
  have f2: "synchronisers (tso tp2 i)" using core_fields [OF c2] f1(3) by (auto simp: obj_fields_def synchronisers_def)
  obtain tp3 where r3: "get_free_thread_id tp2 = Inr (0, Some i, tp3)" "tp_lists tp3 fs (remove1 i ss)" "only i (\<lambda>t. t\<lparr>is_free := False\<rparr>) tp2 tp3"
    using get_free_first [OF r2(2)] by blast
  have c3: "core (tso tp3 i) = core ((tso tp2 i)\<lparr>is_free := False\<rparr>)" using r3(3) by (simp add: only_def)
  have f3: "synchronisers (tso tp3 i)" "\<not> is_free (tso tp3 i)" using core_fields [OF c3] f2 by (auto simp: obj_fields_def synchronisers_def)
  have i3: "shape tp3" "i < threadpool_size tp3" using r3(2,3) r2(3) i1(1) by (simp_all add: tp_lists_def only_def)
  let ?tp4 = "put (put tp3 i ((tso tp3 i)\<lparr>object := Some obj, synch_startup := True\<rparr>)) i ((tso tp3 i)\<lparr>object := Some obj, synch_startup := True, thread := True\<rparr>)"
  have r4: "start_section tp3 i obj True True = Inr (0, ?tp4)" using i3 f3 by (simp add: start_section_def synchronisers_def)
  have "free_thread_reset ?tp4 i = Inl AssertFail" using i3 f3(1) by (simp add: free_thread_reset_def lock_ts_def synchronisers_def)
  moreover have "free_thread_list tp1 i = Inr tp2" using i1 r2(1) by (simp add: free_thread_list_def)
  ultimately show ?thesis using r1(1) r3(1) r4 by blast
qed

lemma run_acts: "tp_reach s0 (Inr s) \<Longrightarrow> act_ok a s \<Longrightarrow> exec_act a s = Inr s' \<Longrightarrow> tp_reach s0 (Inr s')"
  using reach_act [of s0 s a] by simp

theorem object_published_before_reset_witness:
  "\<exists>tp ph g tp1 tp2 tp3 tp4. pool_ok (tp, ph, g) \<and> ph 0 = Ended \<and> remove_stopped_list tp 0 = Inr tp1 \<and> free_thread_list tp1 0 = Inr tp2 \<and>
    get_free_thread_id tp2 = Inr (0, Some 0, tp3) \<and> start_section tp3 0 7 True True = Inr (0, tp4) \<and> free_thread_reset tp4 0 = Inl AssertFail"
proof -
  have step: "\<exists>s'. exec_act a s = Inr s' \<and> pool_ok s'" if "pool_ok s" "act_ok a s" for a s using act_keeps_pool that by (cases s) auto
  obtain tp1 ph1 where s1: "pool_ok (tp1, ph1, False)" "ph1 0 = Taken"
  proof -
    have ok: "pool_ok (one_pool, \<lambda>_. Idle, False)" by (rule created_ok(1) [OF one_pool_created])
    have f: "first_free_thread_id one_pool \<noteq> IC_MAX_UINT32" by (simp add: one_pool_def IC_MAX_UINT32_def)
    obtain i t where t: "get_free_thread_id one_pool = Inr (0, Some i, t)" "pool_ok (t, (\<lambda>_. Idle)(i := Taken), False)" by (rule take_first [OF ok f])
    have "i < 1" using get_idle [OF ok] t(1) by (auto simp: one_pool_def)
    then have "i = 0" by simp
    then show ?thesis using t(2) that [of t "(\<lambda>_. Idle)(i := Taken)"] by simp
  qed
  obtain tp2 ph2 where s2: "pool_ok (tp2, ph2, False)" "ph2 0 = Created False"
  proof -
    obtain rc t where t: "start_section tp1 0 7 False True = Inr (rc, t)" "pool_ok (t, ph1(0 := if rc = 0 then Created False else Idle), False)"
      using start_act_ok [OF s1, of True False 7] by auto
    have "rc = 0" using t(1) by (auto simp: start_section_def c_require_Inr_iff c_assert_Inr_iff c_bind_Inr_iff)
    then show ?thesis using t(2) that [of t "ph1(0 := Created False)"] by simp
  qed
  obtain tp3 where s3: "pool_ok (tp3, ph2(0 := Running), False)" using step [OF s2(1), of "W_Started 0"] s2(2) by (auto simp: with_phase_def c_bind_Inr_iff)
  obtain tp4 where s4: "pool_ok (tp4, ph2(0 := Stopping), False)" using step [OF s3, of "W_Stops 0"] by (auto simp: with_phase_def c_bind_Inr_iff)
  obtain tp5 where s5: "pool_ok (tp5, ph2(0 := Ended), False)" using step [OF s4, of "W_Stops_End 0"] by (auto simp: with_phase_def c_bind_Inr_iff)
  from object_published_before_reset [OF s5, of 0 7] s5 show ?thesis by fastforce
qed

text \<open>When a condition cannot be created, the objects after it are null pointers, which \<^verbatim>\<open>free_threadpool\<close> dereferences.\<close>

lemma failed_creation:
  "ic_create_threadpool [True, True, True, True, True, True, True, False] no_res 176 2 = Inl NullDeref"
proof -
  have u: "[0..<unat (2 :: guint32)] = [0, 1]" by (simp add: upt_conv_Cons)
  have r: "replicate (unat (2 :: guint32)) (None :: ic_int_thread_state option) = [None, None]"
  proof -
    have "unat (2 :: guint32) = 2" by simp
    then show ?thesis by (simp only:) (simp add: numeral_2_eq_2)
  qed
  show ?thesis
    unfolding ic_create_threadpool_def u r
    by (simp add: ic_mutex_create_def ic_cond_create_def Let_def no_res_def free_threadpool_def get_ts_def u
        zero_threadpool_def zero_thread_state_def upt_conv_Cons)
qed

end
