(* ===== verification/Spec2Isabelle.thy ===== *)
theory Spec2Isabelle
  imports IC_Base64 IC_Bitmap IC_Hashtable IC_Mc IC_String IC_Config_Reader IC_Connectstring IC_Ptr_Array IC_Protocol
    IC_Pcntrl_Races IC_Pcntrl_Proto IC_Sock_Buf IC_Poll_Set IC_Threadpool_Run
begin

text \<open>
  A verification of iClaustron: its utility library, its communication layer and the process controller built
  on them.

  \<^bold>\<open>The program and its parts.\<close> iClaustron manages MySQL Cluster installations. The processes of a grid (cluster
  servers, cluster managers, process controllers and API programs) share a library of utilities
  (\<^verbatim>\<open>src/util\<close>): strings, memory containers, hash tables, dynamic arrays, bitmaps, the reader of configuration
  files, the parser of connect strings and a thread pool. On top of it, \<^verbatim>\<open>src/comm\<close> has TCP connections, a line protocol,
  pools of socket buffers and poll sets. \<^verbatim>\<open>src/protocol\<close> has the messages of the programs. The process controller
  (\<^verbatim>\<open>src/pcntrl\<close>) receives such messages and starts, stops, lists and checks the processes of a machine; its
  table of processes is a hash table plus a dynamic pointer array, under one mutex.

  \<^bold>\<open>How the code is modelled.\<close> Every function is a HOL function with its state passed explicitly. A function that
  can reach a point where the C program aborts or its behaviour is undefined has a result of type
  \<open>fault + 'a\<close> (theory \<open>Prelude\<close>), so that a theorem that a call is \<open>Inr\<close> is a theorem of memory safety. Error codes are
  values. Memory objects have explicit bounds, heaps are maps with addresses, and \<^verbatim>\<open>malloc\<close> fails where a list of
  outcomes, quantified in the theorems, says so. Machine integers are words wherever their width matters. System calls
  and GLib functions are arguments of the models or take their results from an explicit state of the outside world.
  Threads are step relations or sequences of critical sections: a section under a mutex is one step.

  \<^bold>\<open>The theories\<close>, with the sources they translate; definitions have the names of the C functions.
  \<^item> \<open>Prelude\<close>: faults, bounded arrays, allocation outcomes, error codes (\<^verbatim>\<open>ic_err.h\<close>, \<^verbatim>\<open>ic_base_header.h\<close>), lemmas on words.
  \<^item> \<open>IC_Base64\<close>: \<^verbatim>\<open>src/protocol/ic_base64.c\<close>. Decoding inverts encoding, at byte level with bounded buffers.
  \<^item> \<open>IC_Bitmap\<close>: \<^verbatim>\<open>src/util/ic_bitmap.c\<close>, \<^verbatim>\<open>ic_bitmap.h\<close>. A bitmap is a set of bits (interface \<open>bit_set\<close>).
  \<^item> \<open>IC_Hashtable\<close>: \<^verbatim>\<open>src/util/ic_hashtable.c\<close>, \<^verbatim>\<open>ic_hashtable_itr.c\<close>. Refines a finite map (interface \<open>key_table\<close>);
    the iterator enumerates it.
  \<^item> \<open>IC_Mc\<close>: \<^verbatim>\<open>src/util/ic_mc.c\<close>. Allocations are disjoint and live, reset and free release what they should
    (interface \<open>arena\<close>).
  \<^item> \<open>IC_String\<close>: \<^verbatim>\<open>src/util/ic_string.c\<close>. Functional behaviour of every function; copies rest on the interface
    \<open>gchar_allocator\<close>, provided by \<^verbatim>\<open>malloc\<close> and by the memory container.
  \<^item> \<open>IC_Config_Reader\<close>: \<^verbatim>\<open>src/util/ic_config_reader.c\<close>. Files printed from a configuration are parsed back; any file is
    read without a fault.
  \<^item> \<open>IC_Connectstring\<close>: \<^verbatim>\<open>src/util/ic_parse_connectstring.c\<close>. The same two results for connect strings.
  \<^item> \<open>IC_Dyn_Array\<close>, \<open>IC_Ord_Array\<close>, \<open>IC_Ord_Ops\<close>, \<open>IC_Ord_Bytes\<close>, \<open>IC_Ptr_Array\<close>: \<^verbatim>\<open>src/util/ic_dyn_array.c\<close>. The simple
    and the ordered array are byte arrays (interface \<open>byte_array\<close>) and agree; inserted pointers are found again.
  \<^item> \<open>IC_Connection\<close>: \<^verbatim>\<open>src/comm/ic_connection.c\<close>, the input and output of sockets. What is written is what is
    handed to the kernel; connection objects are released completely.
  \<^item> \<open>IC_Protocol\<close>, \<open>IC_Receive\<close>: \<^verbatim>\<open>src/comm/ic_protocol_support.c\<close>. Lines arrive in order whatever the
    segmentation, and arbitrary input is received without a fault.
  \<^item> \<open>IC_Sock_Buf\<close>: \<^verbatim>\<open>src/comm/ic_sock_buf.c\<close>. Every page of a pool is in exactly one place; waiting for a page ends.
  \<^item> \<open>IC_Poll_Set\<close>: \<^verbatim>\<open>src/comm/ic_poll_set.c\<close>, all implementations. With epoll the set refines a map from descriptors to user
    objects with the descriptors still to be reported, for clients that add a descriptor once at a time.
  \<^item> \<open>IC_Threadpool\<close>, \<open>IC_Threadpool_Run\<close>: \<^verbatim>\<open>src/util/ic_threadpool.c\<close>. The operations as critical sections, and their
    interleavings: with one managing thread the lists of free and stopped objects stay intact and no object is given out
    twice; the waiting loops end; failing starts and two managing threads break the pool.
  \<^item> \<open>IC_Pcntrl\<close>, \<open>IC_Pcntrl_Table\<close>, \<open>IC_Pcntrl_Threads\<close>, \<open>IC_Pcntrl_Races\<close>: \<^verbatim>\<open>src/pcntrl/ic_pcntrl.c\<close>, the table of
    processes and the start, stop, kill and check threads as an inductive step relation. Commands for
    different processes are safe in every interleaving and end; commands for the same process can race, which is shown
    by executions that end in a fault or leave the mutex locked.
  \<^item> \<open>IC_Pcntrl_Proto\<close>: \<^verbatim>\<open>src/protocol/ic_pcntrl_proto.c\<close> and the message part of \<^verbatim>\<open>ic_pcntrl.c\<close>. Messages sent are the
    messages received; arbitrary input is refused without a fault.
  \<^item> This theory: the composition of sending and receiving between two processes.

  \<^bold>\<open>Bounds and fuel.\<close> Loops over bounded data are structural or have a termination proof. Fuel appears where the C code
  follows pointers: the loop of \<^verbatim>\<open>return_sock_buf_page\<close> (twice the number of pages plus one) and the descent in
  the tree of the ordered array (its number of levels). Running out of it is the fault \<open>Diverges\<close>, so that the theorems that
  a call is \<open>Inr\<close> show that it is enough. Loops that wait for the outside world consume the list of its answers.

  \<^bold>\<open>Not modelled\<close>, and why: the parts of \<^verbatim>\<open>ic_connection.c\<close> that resolve names, set socket options and use SSL, and the
  portability layer \<^verbatim>\<open>ic_port.c\<close> (calls of the operating system only, whose results are arguments here); debug output and
  error texts; the readers of hardware information; line editing; the configuration and data API, the
  cluster manager and the other server programs, whose code is in included \<^verbatim>\<open>.ic\<close> files and generated parsers and
  talks to a running cluster; the tests.
\<close>

section \<open>Messages between two processes\<close>

text \<open>
  C5. End to end: two processes create connection objects, one sends a message and the other
  receives. Whatever pieces the kernel accepts from the sender, whenever the return code is 0
  the receiver obtains exactly the lines, in any segmentation in which the sent bytes arrive and
  with interrupted calls in between; with no failing call the return code is 0.
\<close>

theorem protocol_end_to_end:
  assumes "ic_create_socket_object as1 r1 cl1 m1 t1 sbs = Inr (Some cs, r1', as1')" and "1 < sbs" and "tx_ok (tx_queue w)" and "sent_bytes w = []"
    and "ic_create_socket_object as2 r2 cl2 m2 t2 rbs = Inr (Some cr, r2', as2')" and "0 < rbs"
    and "\<forall>l \<in> set ls. NULL_BYTE \<notin> set l \<and> CARRIAGE_RETURN \<notin> set l \<and> length l + 1 < sbs \<and> length l < rbs"
  shows "\<exists>rc s'. send_message (cs, w) ls = Inr (rc, s') \<and> (tx_queue w = [] \<longrightarrow> rc = 0) \<and>
    (rc = 0 \<longrightarrow> (\<forall>w2. steady (rx_queue w2) \<and> stream (rx_queue w2) = sent_bytes (snd s') \<longrightarrow>
       (\<exists>s2. rec_message (length ls) (cr, w2) = Inr (0, ls, s2) \<and> pending s2 = [])))"
proof -
  note fs = fresh_conn [OF assms(1)] and fr = fresh_conn [OF assms(5)]
  have s0: "sbs \<noteq> 0" "rbs \<noteq> 0" using assms(2,6) by simp_all
  have h: "send_ok (cs, w)" "handed (cs, w) = []" "write_buf_size cs = sbs" using fs [OF s0(1)] assms(3,4) by auto
  from send_message_ok [OF h(1), of ls] h(2,3) assms(2,7) obtain rc s' where
    m: "send_message (cs, w) ls = Inr (rc, s')" "rc = 0 \<longrightarrow> sent_bytes (snd s') = on_wire (ls @ [[]])" "tx_queue w = [] \<longrightarrow> rc = 0" by auto
  have "\<exists>s2. rec_message (length ls) (cr, w2) = Inr (0, ls, s2) \<and> pending s2 = []"
    if rc: "rc = 0" and w2: "steady (rx_queue w2)" "stream (rx_queue w2) = sent_bytes (snd s')" for w2
  proof -
    have p: "recv_ok (cr, w2)" "pending (cr, w2) = on_wire ls @ CARRIAGE_RETURN # []" "read_buf_size cr = rbs"
      using fr [OF s0(2)] w2 m(2) rc by (auto simp: on_wire_def)
    from rec_message_ok [OF p(1,2)] p(3) assms(6,7) show ?thesis by auto
  qed
  then show ?thesis using m by blast
qed

theorem protocol_end_to_end_witness:
  "\<exists>cs cr r1 r2 s'. ic_create_socket_object [] \<lparr>resources.blocks = 0, mutexes = 0, timers = 0\<rparr> True False False 8 = Inr (Some cs, r1, []) \<and>
     ic_create_socket_object [] \<lparr>resources.blocks = 0, mutexes = 0, timers = 0\<rparr> False False False 16 = Inr (Some cr, r2, []) \<and>
     send_message (cs, some_net [] []) [''list'', ''grid'', ''x''] = Inr (0, s') \<and>
     (\<exists>s2. rec_message 3 (cr, some_net [] [RxErr EINTR, Data (sent_bytes (snd s'))]) = Inr (0, [''list'', ''grid'', ''x''], s2) \<and> pending s2 = [])"
proof -
  let ?r = "\<lparr>resources.blocks = 0, mutexes = 0, timers = 0\<rparr>" and ?ls = "[''list'', ''grid'', ''x'']"
  obtain cs r1 where cs: "ic_create_socket_object [] ?r True False False 8 = Inr (Some cs, r1, [])" by (rule conn_plenty)
  obtain cr r2 where cr: "ic_create_socket_object [] ?r False False False 16 = Inr (Some cr, r2, [])" by (rule conn_plenty)
  have w: "tx_ok (tx_queue (some_net [] []))" "sent_bytes (some_net [] []) = []" "tx_queue (some_net [] []) = []" by (simp_all add: some_net_def tx_ok_def)
  have l: "\<forall>l \<in> set ?ls. NULL_BYTE \<notin> set l \<and> CARRIAGE_RETURN \<notin> set l \<and> length l + 1 < 8 \<and> length l < 16"
    by (simp add: NULL_BYTE_def CARRIAGE_RETURN_def)
  obtain s' where s': "send_message (cs, some_net [] []) ?ls = Inr (0, s')"
    "\<forall>w2. steady (rx_queue w2) \<and> stream (rx_queue w2) = sent_bytes (snd s') \<longrightarrow>
       (\<exists>s2. rec_message (length ?ls) (cr, w2) = Inr (0, ?ls, s2) \<and> pending s2 = [])"
    using protocol_end_to_end [OF cs _ w(1,2) cr _ l] w(3) by auto
  have "steady (rx_queue (some_net [] [RxErr EINTR, Data (sent_bytes (snd s'))]))"
    "stream (rx_queue (some_net [] [RxErr EINTR, Data (sent_bytes (snd s'))])) = sent_bytes (snd s')" by (simp_all add: some_net_def steady_def)
  moreover have "length ?ls = 3" by simp
  ultimately have "\<exists>s2. rec_message 3 (cr, some_net [] [RxErr EINTR, Data (sent_bytes (snd s'))]) = Inr (0, ?ls, s2) \<and> pending s2 = []"
    using s'(2) by metis
  then show ?thesis using cs cr s'(1) by blast
qed

end
